(* ===== verification/Prelude.thy ===== *)
theory Prelude
  imports "HOL-Library.Word" "HOL-Library.Monad_Syntax"
begin

text \<open>
  Shared vocabulary of the development: the machine integers of \<open>src/include/common/types.hpp\<close>
  and \<open>src/include/exchange/core/types.hpp\<close> as words of their width, signed comparison of prices,
  the generic lemmas on words, lists and options the components use, and the named collections
  the component proofs feed to the simplifier.

  A C++ \<open>std::uint64_t\<close> is a \<open>64 word\<close>, read with \<open>unat\<close>; a \<open>std::int64_t\<close> is a \<open>64 word\<close> too,
  read with \<open>sint\<close> and compared with \<open><s\<close> and \<open>\<le>s\<close>. Signed arithmetic is modelled with two's
  complement wrap-around, which is what the compiled code computes; C++ calls a signed overflow
  undefined, so every functional theorem that depends on signed arithmetic states the bound under
  which no overflow happens. A \<open>std::size_t\<close> that counts elements of a container is a \<open>nat\<close> unless
  the code decrements it.
\<close>

unbundle bit_operations_syntax

section \<open>Integer types\<close>

type_synonym u8 = "8 word"
type_synonym u16 = "16 word"
type_synonym u32 = "32 word"
type_synonym u64 = "64 word"
type_synonym i64 = "64 word"

text \<open>\<open>common/types.hpp\<close> and \<open>exchange/core/types.hpp\<close>.\<close>

type_synonym Sequence = u64
type_synonym Timestamp = u64
type_synonym OrderId = u64
type_synonym InstrumentId = u32
type_synonym Price = i64
type_synonym Quantity = u64
type_synonym AccountId = u64
type_synonym ClientOrderId = u64
type_synonym ExchangeOrderId = u64
type_synonym CommandSequence = u64
type_synonym EventSequence = u64

section \<open>Collections of facts\<close>

named_theorems bit_words \<open>bits of shifted, masked and combined words\<close>
named_theorems codec_simps \<open>reading back a field that was written\<close>
named_theorems event_simps \<open>fields of the events an operation emits\<close>

section \<open>Signed words\<close>

abbreviation sless :: "i64 \<Rightarrow> i64 \<Rightarrow> bool" where
  "sless a b \<equiv> word_sless a b"

abbreviation sle :: "i64 \<Rightarrow> i64 \<Rightarrow> bool" where
  "sle a b \<equiv> word_sle a b"

lemma sless_sint: "sless a b \<longleftrightarrow> sint a < sint b"
  by (simp add: word_sless_alt)

lemma sle_sint: "sle a b \<longleftrightarrow> sint a \<le> sint b"
  by (simp add: word_sle_eq)

lemmas signed_cmp = sless_sint sle_sint

lemma sint_bounds_64: "- (2 ^ 63) \<le> sint (a :: i64)" "sint (a :: i64) < 2 ^ 63"
  using sint_ge [of a] sint_lt [of a] by simp_all

lemma sint_eq_iff_64: "sint (a :: i64) = sint b \<longleftrightarrow> a = b"
  by (metis signed.order.antisym order_refl word_sle_eq)

lemma sint_word_of_int_64:
  assumes "- (2 ^ 63) \<le> x" "x < 2 ^ 63"
  shows "sint (word_of_int x :: i64) = x"
  using assms by (simp add: int_word_sint)

lemma sint_plus_64:
  fixes a b :: i64
  assumes "- (2 ^ 63) \<le> sint a + sint b" "sint a + sint b < 2 ^ 63"
  shows "sint (a + b) = sint a + sint b"
proof -
  have "a + b = word_of_int (sint a + sint b)"
    by (simp add: wi_hom_syms)
  then show ?thesis
    using assms by (simp only: sint_word_of_int_64)
qed

lemma sint_minus_64:
  fixes a b :: i64
  assumes "- (2 ^ 63) \<le> sint a - sint b" "sint a - sint b < 2 ^ 63"
  shows "sint (a - b) = sint a - sint b"
proof -
  have "a - b = word_of_int (sint a - sint b)"
    by (simp add: wi_hom_syms)
  then show ?thesis
    using assms by (simp only: sint_word_of_int_64)
qed

lemma sint_mult_64:
  fixes a b :: i64
  assumes "- (2 ^ 63) \<le> sint a * sint b" "sint a * sint b < 2 ^ 63"
  shows "sint (a * b) = sint a * sint b"
proof -
  have "a * b = word_of_int (sint a * sint b)"
    by (simp add: wi_hom_syms)
  then show ?thesis
    using assms by (simp only: sint_word_of_int_64)
qed

lemma uint_word_of_int_64: "0 \<le> x \<Longrightarrow> x < 2 ^ 64 \<Longrightarrow> uint (word_of_int x :: u64) = x"
  by (simp add: uint_word_of_int take_bit_eq_mod)

lemma unat_word_of_nat_64: "n < 2 ^ 64 \<Longrightarrow> unat (word_of_nat n :: u64) = n"
  by (simp add: unat_of_nat)

lemma sint_eq_unat_64: "unat (a :: i64) < 2 ^ 63 \<Longrightarrow> sint a = int (unat a)"
proof -
  assume *: "unat a < 2 ^ 63"
  have "a = word_of_int (int (unat a))" by simp
  also have "sint (word_of_int (int (unat a)) :: i64) = int (unat a)"
  proof (rule sint_word_of_int_64)
    have "- (2 ^ 63) \<le> (0::int)" "0 \<le> int (unat a)" by simp_all
    then show "- (2 ^ 63) \<le> int (unat a)" by linarith
    have "int (unat a) < int (2 ^ 63)" using * by (simp only: of_nat_less_iff)
    then show "int (unat a) < 2 ^ 63" by (simp only: of_nat_power of_nat_numeral)
  qed
  finally show ?thesis .
qed

section \<open>Words and naturals\<close>

lemma int_pows: "(2::int) ^ 63 = 9223372036854775808" "(2::int) ^ 64 = 18446744073709551616" "(2::int) ^ 32 = 4294967296"
  by simp_all

declare of_nat_unat [simp del]

lemma word_of_nat_unat_32 [simp]: "(word_of_nat (unat t) :: u32) = t"
  by (simp add: of_nat_unat)

lemma unat_ucast_32_64: "unat (ucast (t :: u32) :: u64) = unat t"
proof -
  have "unat t < 2 ^ 32" using unsigned_less [of t] by simp
  then have "unat t < 2 ^ 64" by simp
  then show ?thesis by (simp add: unsigned_ucast_eq take_bit_nat_eq_self)
qed

lemma unat_plus_64: "unat (a :: u64) + unat b < 2 ^ 64 \<Longrightarrow> unat (a + b) = unat a + unat b"
  by (simp add: unat_word_ariths)

lemma unat_minus_64: "b \<le> (a :: u64) \<Longrightarrow> unat (a - b) = unat a - unat b"
  by (rule unat_sub)

section \<open>Lists\<close>

definition hd_opt :: "'a list \<Rightarrow> 'a option" where
  "hd_opt xs = (case xs of [] \<Rightarrow> None | x # _ \<Rightarrow> Some x)"

lemma hd_opt_simps [simp]: "hd_opt [] = None" "hd_opt (x # xs) = Some x"
  by (simp_all add: hd_opt_def)

end
