(* ===== verification/Domain.thy ===== *)
theory Domain
  imports Prelude
begin

text \<open>
  The exchange's own vocabulary: the enums of \<open>common/types.hpp\<close> and \<open>exchange/core/types.hpp\<close>,
  the inbound commands of \<open>exchange/core/commands.hpp\<close>, the outbound events of
  \<open>exchange/core/events.hpp\<close> and the two forms of a resting order of
  \<open>exchange/matching/resting_order.hpp\<close>. A struct is a record with its fields in the order of the
  source, under a short prefix because record fields share one name space; a \<open>std::variant\<close> is a
  datatype with one constructor per alternative.
\<close>

section \<open>Enums\<close>

datatype Side = Buy | Sell

datatype OrderType = Limit

datatype TimeInForce = GTC | IOC | FOK

datatype RejectReason =
    NoReason \<comment> \<open>\<open>RejectReason::None\<close>\<close>
  | InvalidPrice
  | InvalidQuantity
  | DuplicateOrderId
  | UnknownOrderId
  | InvalidInstrument
  | InsufficientLiquidity
  | InvalidReplacement
  | InternalError
  | InsufficientFunds
  | InsufficientPosition
  | OrderTooLarge
  | AccountMismatch

text \<open>
  \<open>incoming_side == Side::Buy ? Side::Sell : Side::Buy\<close>, as the engine writes it wherever it needs
  the other side of a book.
\<close>

definition contra_side :: "Side \<Rightarrow> Side" where
  "contra_side s = (if s = Buy then Sell else Buy)"

lemma contra_side_simps [simp]:
  "contra_side Buy = Sell" "contra_side Sell = Buy" "contra_side (contra_side s) = s"
  by (cases s; simp add: contra_side_def)+

lemma contra_side_neq [simp]: "contra_side s \<noteq> s" "s \<noteq> contra_side s"
  by (cases s; simp)+

lemma Side_neq_Buy [simp]: "s \<noteq> Buy \<longleftrightarrow> s = Sell"
  by (cases s) simp_all

lemma Side_neq_Sell [simp]: "s \<noteq> Sell \<longleftrightarrow> s = Buy"
  by (cases s) simp_all

lemma UNIV_Side: "(UNIV :: Side set) = {Buy, Sell}"
  using Side.exhaust by auto

text \<open>
  The underlying values of the enums order them (\<open>Buy = 0\<close>, \<open>Sell = 1\<close>), and a side ranges over two
  values, so quantification over sides computes.
\<close>

instantiation Side :: linorder
begin

definition less_eq_Side :: "Side \<Rightarrow> Side \<Rightarrow> bool" where
  "less_eq_Side a b \<longleftrightarrow> a = Buy \<or> b = Sell"

definition less_Side :: "Side \<Rightarrow> Side \<Rightarrow> bool" where
  "less_Side a b \<longleftrightarrow> a = Buy \<and> b = Sell"

instance
proof
  fix a b c :: Side
  show "(a < b) = (a \<le> b \<and> \<not> b \<le> a)"
    by (cases a; cases b; simp add: less_eq_Side_def less_Side_def)
  show "a \<le> a"
    by (cases a; simp add: less_eq_Side_def)
  show "a \<le> b \<Longrightarrow> b \<le> c \<Longrightarrow> a \<le> c"
    by (cases a; cases b; simp add: less_eq_Side_def)
  show "a \<le> b \<Longrightarrow> b \<le> a \<Longrightarrow> a = b"
    by (cases a; cases b; simp add: less_eq_Side_def)
  show "a \<le> b \<or> b \<le> a"
    by (cases a; simp add: less_eq_Side_def)
qed

end

instantiation Side :: enum
begin

definition "enum_Side = [Buy, Sell]"

definition "enum_all_Side P \<longleftrightarrow> P Buy \<and> P Sell"

definition "enum_ex_Side P \<longleftrightarrow> P Buy \<or> P Sell"

instance
  by standard (simp_all add: enum_Side_def enum_all_Side_def enum_ex_Side_def UNIV_Side)

end

section \<open>Commands\<close>

record NewOrderCommand =
  nc_command_sequence :: CommandSequence
  nc_account_id :: AccountId
  nc_client_order_id :: ClientOrderId
  nc_instrument_id :: InstrumentId
  nc_side :: Side
  nc_price :: Price
  nc_quantity :: Quantity
  nc_order_type :: OrderType
  nc_time_in_force :: TimeInForce

record CancelOrderCommand =
  cc_command_sequence :: CommandSequence
  cc_account_id :: AccountId
  cc_client_order_id :: ClientOrderId
  cc_instrument_id :: InstrumentId

record ReplaceOrderCommand =
  rc_command_sequence :: CommandSequence
  rc_account_id :: AccountId
  rc_original_client_order_id :: ClientOrderId
  rc_new_client_order_id :: ClientOrderId
  rc_instrument_id :: InstrumentId
  rc_new_price :: Price
  rc_new_quantity :: Quantity

datatype ExchangeCommand =
    NewOrderC NewOrderCommand
  | CancelOrderC CancelOrderCommand
  | ReplaceOrderC ReplaceOrderCommand

section \<open>Events\<close>

record OrderAccepted =
  oa_event_sequence :: EventSequence
  oa_command_sequence :: CommandSequence
  oa_account_id :: AccountId
  oa_client_order_id :: ClientOrderId
  oa_exchange_order_id :: ExchangeOrderId
  oa_instrument_id :: InstrumentId
  oa_side :: Side
  oa_price :: Price
  oa_quantity :: Quantity
  oa_order_type :: OrderType
  oa_time_in_force :: TimeInForce

record OrderRejected =
  or_event_sequence :: EventSequence
  or_command_sequence :: CommandSequence
  or_account_id :: AccountId
  or_client_order_id :: ClientOrderId
  or_instrument_id :: InstrumentId
  or_reason :: RejectReason

record OrderCancelled =
  oc_event_sequence :: EventSequence
  oc_command_sequence :: CommandSequence
  oc_account_id :: AccountId
  oc_client_order_id :: ClientOrderId
  oc_exchange_order_id :: ExchangeOrderId
  oc_instrument_id :: InstrumentId

record OrderReplaced =
  op_event_sequence :: EventSequence
  op_command_sequence :: CommandSequence
  op_account_id :: AccountId
  op_original_client_order_id :: ClientOrderId
  op_new_client_order_id :: ClientOrderId
  op_exchange_order_id :: ExchangeOrderId
  op_instrument_id :: InstrumentId
  op_new_price :: Price
  op_new_quantity :: Quantity

record TradeCounterparty =
  tc_account_id :: AccountId
  tc_client_order_id :: ClientOrderId
  tc_exchange_order_id :: ExchangeOrderId
  tc_remaining_quantity :: Quantity

record TradeExecuted =
  te_event_sequence :: EventSequence
  te_command_sequence :: CommandSequence
  te_instrument_id :: InstrumentId
  te_price :: Price
  te_quantity :: Quantity
  te_aggressor_side :: Side
  te_buyer :: TradeCounterparty
  te_seller :: TradeCounterparty

record BookOrderAdded =
  ba_event_sequence :: EventSequence
  ba_instrument_id :: InstrumentId
  ba_exchange_order_id :: ExchangeOrderId
  ba_side :: Side
  ba_price :: Price
  ba_quantity :: Quantity

record BookOrderReduced =
  br_event_sequence :: EventSequence
  br_instrument_id :: InstrumentId
  br_exchange_order_id :: ExchangeOrderId
  br_side :: Side
  br_price :: Price
  br_new_remaining_quantity :: Quantity

record BookOrderRemoved =
  bx_event_sequence :: EventSequence
  bx_instrument_id :: InstrumentId
  bx_exchange_order_id :: ExchangeOrderId
  bx_side :: Side
  bx_price :: Price

datatype ExchangeEvent =
    EvAccepted OrderAccepted
  | EvRejected OrderRejected
  | EvCancelled OrderCancelled
  | EvReplaced OrderReplaced
  | EvTrade TradeExecuted
  | EvAdded BookOrderAdded
  | EvReduced BookOrderReduced
  | EvRemoved BookOrderRemoved

text \<open>Every event carries the engine's event sequence number.\<close>

fun event_sequence_of :: "ExchangeEvent \<Rightarrow> EventSequence" where
  "event_sequence_of (EvAccepted e) = oa_event_sequence e"
| "event_sequence_of (EvRejected e) = or_event_sequence e"
| "event_sequence_of (EvCancelled e) = oc_event_sequence e"
| "event_sequence_of (EvReplaced e) = op_event_sequence e"
| "event_sequence_of (EvTrade e) = te_event_sequence e"
| "event_sequence_of (EvAdded e) = ba_event_sequence e"
| "event_sequence_of (EvReduced e) = br_event_sequence e"
| "event_sequence_of (EvRemoved e) = bx_event_sequence e"

section \<open>Resting orders\<close>

record ExchangeRestingOrder =
  ro_exchange_order_id :: ExchangeOrderId
  ro_client_order_id :: ClientOrderId
  ro_account_id :: AccountId
  ro_price :: Price
  ro_original_quantity :: Quantity
  ro_remaining_quantity :: Quantity
  ro_order_sequence :: u64
  ro_instrument_id :: InstrumentId
  ro_side :: Side
  ro_time_in_force :: TimeInForce

record BookOrder =
  bo_exchange_order_id :: ExchangeOrderId
  bo_client_order_id :: ClientOrderId
  bo_account_id :: AccountId
  bo_price :: Price
  bo_remaining_quantity :: Quantity
  bo_side :: Side
  bo_time_in_force :: TimeInForce

record InstrumentBookSnapshot =
  ib_instrument_id :: InstrumentId
  ib_bids :: "ExchangeRestingOrder list"
  ib_asks :: "ExchangeRestingOrder list"

record EngineStateSnapshot =
  es_instruments :: "InstrumentBookSnapshot list"

end
