(* ===== verification/Ledger.thy ===== *)
theory Ledger
  imports Domain
begin

text \<open>
  \<open>Ledger\<close> of \<open>src/include/exchange/ledger/ledger.hpp\<close> and \<open>src/src/exchange/ledger/ledger.cpp\<close>:
  balances per account and one hold per resting order, moved by the engine's events. An
  \<open>unordered_map\<close> is a map; \<open>operator[]\<close> default-constructs what it does not find. Balances are 64-bit
  words, so sums of reservations are exact modulo \<open>2 ^ 64\<close> and the invariant needs no bound on them.
\<close>

section \<open>State\<close>

record AccountBalances =
  ab_cash_total :: i64
  ab_cash_reserved :: i64
  ab_position_total :: "InstrumentId \<rightharpoonup> Quantity"
  ab_position_reserved :: "InstrumentId \<rightharpoonup> Quantity"

record Hold =
  hd_instrument_id :: InstrumentId
  hd_side :: Side
  hd_limit_price :: Price
  hd_remaining :: Quantity

record HoldKey =
  hk_account_id :: AccountId
  hk_client_order_id :: ClientOrderId

record Ledger =
  lg_accounts :: "AccountId \<rightharpoonup> AccountBalances"
  lg_holds :: "HoldKey \<rightharpoonup> Hold"
  lg_account_count :: u64
  lg_hold_count :: u64

definition no_balances :: AccountBalances where
  "no_balances = \<lparr>ab_cash_total = 0, ab_cash_reserved = 0, ab_position_total = Map.empty, ab_position_reserved = Map.empty\<rparr>"

definition empty_ledger :: Ledger where
  "empty_ledger = \<lparr>lg_accounts = Map.empty, lg_holds = Map.empty, lg_account_count = 0, lg_hold_count = 0\<rparr>"

definition hold_key :: "AccountId \<Rightarrow> ClientOrderId \<Rightarrow> HoldKey" where
  "hold_key a c = \<lparr>hk_account_id = a, hk_client_order_id = c\<rparr>"

definition units :: "(InstrumentId \<rightharpoonup> Quantity) \<Rightarrow> InstrumentId \<Rightarrow> Quantity" where
  \<comment> \<open>a lookup that reads a missing entry as zero\<close>
  "units m i = (case m i of None \<Rightarrow> 0 | Some q \<Rightarrow> q)"

definition add_units :: "InstrumentId \<Rightarrow> Quantity \<Rightarrow> (InstrumentId \<rightharpoonup> Quantity) \<Rightarrow> InstrumentId \<rightharpoonup> Quantity" where
  \<comment> \<open>\<open>m[i] += q\<close>\<close>
  "add_units i q m = m(i \<mapsto> units m i + q)"

definition sub_units :: "InstrumentId \<Rightarrow> Quantity \<Rightarrow> (InstrumentId \<rightharpoonup> Quantity) \<Rightarrow> InstrumentId \<rightharpoonup> Quantity" where
  "sub_units i q m = m(i \<mapsto> units m i - q)"

section \<open>Operations\<close>

definition account_ref :: "AccountId \<Rightarrow> Ledger \<Rightarrow> AccountBalances \<times> Ledger" where
  "account_ref a l =
     (case lg_accounts l a of
        Some b \<Rightarrow> (b, l)
      | None \<Rightarrow> (no_balances, l\<lparr>lg_accounts := (lg_accounts l)(a \<mapsto> no_balances),
                               lg_account_count := lg_account_count l + 1\<rparr>))"

definition update_account :: "AccountId \<Rightarrow> (AccountBalances \<Rightarrow> AccountBalances) \<Rightarrow> Ledger \<Rightarrow> Ledger" where
  \<comment> \<open>writes through the reference \<open>account_ref\<close> returns\<close>
  "update_account a f l =
     (case account_ref a l of (b, l1) \<Rightarrow> l1\<lparr>lg_accounts := (lg_accounts l1)(a \<mapsto> f b)\<rparr>)"

definition erase_hold :: "HoldKey \<Rightarrow> Ledger \<Rightarrow> Ledger" where
  "erase_hold k l = l\<lparr>lg_holds := (lg_holds l)(k := None), lg_hold_count := lg_hold_count l - 1\<rparr>"

definition deposit_cash :: "AccountId \<Rightarrow> i64 \<Rightarrow> Ledger \<Rightarrow> Ledger" where
  "deposit_cash a amount = update_account a (\<lambda>b. b\<lparr>ab_cash_total := ab_cash_total b + amount\<rparr>)"

definition deposit_position :: "AccountId \<Rightarrow> InstrumentId \<Rightarrow> Quantity \<Rightarrow> Ledger \<Rightarrow> Ledger" where
  "deposit_position a i amount =
     update_account a (\<lambda>b. b\<lparr>ab_position_total := add_units i amount (ab_position_total b)\<rparr>)"

definition available_cash :: "AccountId \<Rightarrow> Ledger \<Rightarrow> i64" where
  "available_cash a l =
     (case lg_accounts l a of None \<Rightarrow> 0 | Some b \<Rightarrow> ab_cash_total b - ab_cash_reserved b)"

definition available_position :: "AccountId \<Rightarrow> InstrumentId \<Rightarrow> Ledger \<Rightarrow> Quantity" where
  "available_position a i l =
     (case lg_accounts l a of
        None \<Rightarrow> 0
      | Some b \<Rightarrow> units (ab_position_total b) i - units (ab_position_reserved b) i)"

definition balances :: "AccountId \<Rightarrow> Ledger \<Rightarrow> AccountBalances" where
  "balances a l = (case lg_accounts l a of None \<Rightarrow> no_balances | Some b \<Rightarrow> b)"

definition find_hold :: "AccountId \<Rightarrow> ClientOrderId \<Rightarrow> Ledger \<Rightarrow> Hold option" where
  \<comment> \<open>a \<open>HoldView\<close> has exactly the fields of a \<open>Hold\<close>\<close>
  "find_hold a c l = lg_holds l (hold_key a c)"

definition open_hold ::
  "AccountId \<Rightarrow> ClientOrderId \<Rightarrow> InstrumentId \<Rightarrow> Side \<Rightarrow> Price \<Rightarrow> Quantity \<Rightarrow> Ledger \<Rightarrow> Ledger" where
  "open_hold a c i side limit_price quantity l =
     (if quantity = 0 then l
      else
        let l1 = (if side = Buy
                  then update_account a (\<lambda>b. b\<lparr>ab_cash_reserved := ab_cash_reserved b + quantity * limit_price\<rparr>) l
                  else update_account a (\<lambda>b. b\<lparr>ab_position_reserved := add_units i quantity (ab_position_reserved b)\<rparr>) l);
            k = hold_key a c
        in l1\<lparr>lg_holds := (lg_holds l1)(k \<mapsto> \<lparr>hd_instrument_id = i, hd_side = side, hd_limit_price = limit_price,
                                                hd_remaining = quantity\<rparr>),
              lg_hold_count := (if lg_holds l1 k = None then lg_hold_count l1 + 1 else lg_hold_count l1)\<rparr>)"

definition release_hold_fully :: "AccountId \<Rightarrow> Hold \<Rightarrow> Ledger \<Rightarrow> Ledger" where
  "release_hold_fully a h l =
     (if hd_remaining h = 0 then l
      else if hd_side h = Buy
      then update_account a (\<lambda>b. b\<lparr>ab_cash_reserved := ab_cash_reserved b - hd_remaining h * hd_limit_price h\<rparr>) l
      else update_account a (\<lambda>b. b\<lparr>ab_position_reserved :=
             sub_units (hd_instrument_id h) (hd_remaining h) (ab_position_reserved b)\<rparr>) l)"

definition settle_leg :: "TradeCounterparty \<Rightarrow> Side \<Rightarrow> InstrumentId \<Rightarrow> Price \<Rightarrow> Quantity \<Rightarrow> Ledger \<Rightarrow> Ledger" where
  "settle_leg leg side i trade_price trade_quantity l =
     (let a = tc_account_id leg;
          k = hold_key a (tc_client_order_id leg);
          l1 = (case lg_holds l k of
                  None \<Rightarrow> l
                | Some h \<Rightarrow>
                    let l' = (if side = Buy
                              then update_account a (\<lambda>b. b\<lparr>ab_cash_reserved := ab_cash_reserved b - trade_quantity * hd_limit_price h\<rparr>) l
                              else update_account a (\<lambda>b. b\<lparr>ab_position_reserved := sub_units i trade_quantity (ab_position_reserved b)\<rparr>) l);
                        l'' = l'\<lparr>lg_holds := (lg_holds l')(k \<mapsto> h\<lparr>hd_remaining := tc_remaining_quantity leg\<rparr>)\<rparr>
                    in if tc_remaining_quantity leg = 0 then erase_hold k l'' else l'')
      in if side = Buy
         then update_account a (\<lambda>b. b\<lparr>ab_cash_total := ab_cash_total b - trade_quantity * trade_price,
                ab_position_total := add_units i trade_quantity (ab_position_total b)\<rparr>) l1
         else update_account a (\<lambda>b. b\<lparr>ab_cash_total := ab_cash_total b + trade_quantity * trade_price,
                ab_position_total := sub_units i trade_quantity (ab_position_total b)\<rparr>) l1)"

definition on_order_accepted :: "OrderAccepted \<Rightarrow> Ledger \<Rightarrow> Ledger" where
  "on_order_accepted ev l =
     (if oa_time_in_force ev \<noteq> GTC then l
      else open_hold (oa_account_id ev) (oa_client_order_id ev) (oa_instrument_id ev) (oa_side ev) (oa_price ev) (oa_quantity ev) l)"

definition on_order_replaced :: "OrderReplaced \<Rightarrow> Ledger \<Rightarrow> Ledger" where
  "on_order_replaced ev l =
     (let k = hold_key (op_account_id ev) (op_original_client_order_id ev)
      in case lg_holds l k of
           None \<Rightarrow> l
         | Some old_hold \<Rightarrow>
             open_hold (op_account_id ev) (op_new_client_order_id ev) (op_instrument_id ev) (hd_side old_hold)
               (op_new_price ev) (op_new_quantity ev)
               (erase_hold k (release_hold_fully (op_account_id ev) old_hold l)))"

definition on_order_cancelled :: "OrderCancelled \<Rightarrow> Ledger \<Rightarrow> Ledger" where
  "on_order_cancelled ev l =
     (let k = hold_key (oc_account_id ev) (oc_client_order_id ev)
      in case lg_holds l k of
           None \<Rightarrow> l
         | Some h \<Rightarrow> erase_hold k (release_hold_fully (oc_account_id ev) h l))"

definition on_trade_executed :: "TradeExecuted \<Rightarrow> Ledger \<Rightarrow> Ledger" where
  "on_trade_executed ev l =
     settle_leg (te_seller ev) Sell (te_instrument_id ev) (te_price ev) (te_quantity ev)
       (settle_leg (te_buyer ev) Buy (te_instrument_id ev) (te_price ev) (te_quantity ev) l)"

fun apply_event :: "ExchangeEvent \<Rightarrow> Ledger \<Rightarrow> Ledger" where
  "apply_event (EvAccepted ev) l = on_order_accepted ev l"
| "apply_event (EvReplaced ev) l = on_order_replaced ev l"
| "apply_event (EvCancelled ev) l = on_order_cancelled ev l"
| "apply_event (EvTrade ev) l = on_trade_executed ev l"
| "apply_event (EvRejected _) l = l"
| "apply_event (EvAdded _) l = l"
| "apply_event (EvReduced _) l = l"
| "apply_event (EvRemoved _) l = l"

section \<open>Balances after an update\<close>

lemma units_simps [simp]:
  "units (add_units i q m) j = (if j = i then units m i + q else units m j)"
  "units (sub_units i q m) j = (if j = i then units m i - q else units m j)" "units Map.empty j = 0"
  by (simp_all add: units_def add_units_def sub_units_def)

lemma update_account_frame [simp]:
  "lg_holds (update_account a f l) = lg_holds l" "lg_hold_count (update_account a f l) = lg_hold_count l"
  by (simp_all add: update_account_def account_ref_def split: option.split)

lemma balances_update [simp]: "balances x (update_account a f l) = (if x = a then f (balances a l) else balances x l)"
  by (simp add: balances_def update_account_def account_ref_def split: option.split)

lemma balances_frame [simp]:
  "balances a (l\<lparr>lg_holds := m\<rparr>) = balances a l" "balances a (l\<lparr>lg_hold_count := n\<rparr>) = balances a l"
  "balances a (erase_hold k l) = balances a l"
  by (simp_all add: balances_def erase_hold_def)

lemma available_balances:
  "available_cash a l = ab_cash_total (balances a l) - ab_cash_reserved (balances a l)"
  "available_position a i l = units (ab_position_total (balances a l)) i - units (ab_position_reserved (balances a l)) i"
  by (simp_all add: available_cash_def available_position_def balances_def no_balances_def split: option.split)

lemma erase_hold_simps [simp]:
  "lg_holds (erase_hold k l) = (lg_holds l)(k := None)" "lg_hold_count (erase_hold k l) = lg_hold_count l - 1"
  by (simp_all add: erase_hold_def)

section \<open>Reservations are the sums of the holds\<close>

definition hold_cash :: "Hold \<Rightarrow> i64" where
  "hold_cash h = (if hd_side h = Buy then hd_remaining h * hd_limit_price h else 0)"

definition hold_units :: "InstrumentId \<Rightarrow> Hold \<Rightarrow> Quantity" where
  "hold_units i h = (if hd_side h = Sell \<and> hd_instrument_id h = i then hd_remaining h else 0)"

definition weight :: "AccountId \<Rightarrow> (Hold \<Rightarrow> u64) \<Rightarrow> HoldKey \<Rightarrow> Hold option \<Rightarrow> u64" where
  "weight a w k h = (if hk_account_id k = a then case h of None \<Rightarrow> 0 | Some h \<Rightarrow> w h else 0)"

definition held_by :: "AccountId \<Rightarrow> (Hold \<Rightarrow> u64) \<Rightarrow> (HoldKey \<rightharpoonup> Hold) \<Rightarrow> u64" where
  "held_by a w m = (\<Sum>k \<in> dom m. weight a w k (m k))"

lemma held_by_update:
  assumes "finite (dom m)"
  shows "held_by a w (m(k := h)) = held_by a w m - weight a w k (m k) + weight a w k h"
proof -
  have all: "held_by a w m' = (\<Sum>j \<in> D. weight a w j (m' j))" if "dom m' \<subseteq> D" "finite D" for m' D
    unfolding held_by_def by (rule sum.mono_neutral_left) (use that in \<open>auto simp: weight_def\<close>)
  let ?D = "insert k (dom m)"
  have f: "finite ?D" using assms by simp
  have "held_by a w (m(k := h)) = (\<Sum>j \<in> ?D. weight a w j ((m(k := h)) j))" by (rule all [OF _ f]) (auto split: if_splits)
  also have "\<dots> = weight a w k h + (\<Sum>j \<in> ?D - {k}. weight a w j (m j))"
    using f by (subst sum.remove [of _ k]) auto
  also have "(\<Sum>j \<in> ?D - {k}. weight a w j (m j)) = (\<Sum>j \<in> ?D. weight a w j (m j)) - weight a w k (m k)"
    using f by (subst sum.remove [of ?D k "\<lambda>j. weight a w j (m j)"]) auto
  also have "(\<Sum>j \<in> ?D. weight a w j (m j)) = held_by a w m" by (rule all [OF _ f, symmetric]) auto
  finally show ?thesis by (simp add: algebra_simps fun_upd_def)
qed

definition reservations_ok :: "Ledger \<Rightarrow> bool" where
  "reservations_ok l \<longleftrightarrow>
     finite (dom (lg_holds l)) \<and> lg_hold_count l = word_of_nat (card (dom (lg_holds l))) \<and>
     (\<forall>a. ab_cash_reserved (balances a l) = held_by a hold_cash (lg_holds l)) \<and>
     (\<forall>a i. units (ab_position_reserved (balances a l)) i = held_by a (hold_units i) (lg_holds l))"

text \<open>What a change of the map and of one account's reservation must match.\<close>

lemma reservations_step:
  assumes ok: "reservations_ok l" and m: "lg_holds l' = (lg_holds l)(k := h)"
    and n: "lg_hold_count l' = lg_hold_count l + (if h = None then 0 else 1) - (if lg_holds l k = None then 0 else 1)"
    and c: "\<And>a. ab_cash_reserved (balances a l') = ab_cash_reserved (balances a l) - weight a hold_cash k (lg_holds l k) + weight a hold_cash k h"
    and p: "\<And>a i. units (ab_position_reserved (balances a l')) i =
      units (ab_position_reserved (balances a l)) i - weight a (hold_units i) k (lg_holds l k) + weight a (hold_units i) k h"
  shows "reservations_ok l'"
proof -
  have f: "finite (dom (lg_holds l))" using ok by (simp add: reservations_ok_def)
  have pos: "lg_holds l k \<noteq> None \<Longrightarrow> 0 < card (dom (lg_holds l))" using f by (auto simp: card_gt_0_iff)
  have "lg_hold_count l' = word_of_nat (card (dom (lg_holds l')))"
  proof (cases "lg_holds l k")
    case None
    then have "k \<notin> dom (lg_holds l)" by (simp add: domIff)
    then show ?thesis using ok n None f by (cases h) (auto simp: reservations_ok_def m)
  next
    case (Some h0)
    then have k: "k \<in> dom (lg_holds l)" by auto
    then have "insert k (dom (lg_holds l)) = dom (lg_holds l)" by auto
    then show ?thesis using ok n Some f pos k by (cases h) (auto simp: reservations_ok_def m of_nat_diff)
  qed
  then show ?thesis using ok f c p by (simp add: reservations_ok_def m held_by_update)
qed

lemma weight_simps:
  "weight a w k None = 0" "weight a w (hold_key x c) (Some h) = (if x = a then w h else 0)"
  by (simp_all add: weight_def hold_key_def)

lemma reservations_open:
  assumes "reservations_ok l" "lg_holds l (hold_key a c) = None"
  shows "reservations_ok (open_hold a c i sd p q l)"
proof (cases "q = 0")
  case False
  show ?thesis
    by (rule reservations_step [OF assms(1), of _ "hold_key a c"
          "Some \<lparr>hd_instrument_id = i, hd_side = sd, hd_limit_price = p, hd_remaining = q\<rparr>"])
      (use False assms(2) in \<open>auto simp: open_hold_def Let_def weight_simps hold_cash_def hold_units_def\<close>)
qed (use assms in \<open>simp add: open_hold_def\<close>)

lemma reservations_close:
  assumes "reservations_ok l" "lg_holds l (hold_key a c) = Some h"
  shows "reservations_ok (erase_hold (hold_key a c) (release_hold_fully a h l))"
  by (rule reservations_step [OF assms(1), of _ "hold_key a c" None])
    (use assms(2) in \<open>auto simp: release_hold_fully_def weight_simps hold_cash_def hold_units_def\<close>)

definition leg_fits :: "TradeCounterparty \<Rightarrow> Side \<Rightarrow> InstrumentId \<Rightarrow> Quantity \<Rightarrow> Ledger \<Rightarrow> bool" where
  \<comment> \<open>a hold the leg trades against is of its side and instrument and shrinks by the traded quantity\<close>
  "leg_fits leg sd i q l \<longleftrightarrow>
     (case lg_holds l (hold_key (tc_account_id leg) (tc_client_order_id leg)) of
        None \<Rightarrow> True
      | Some h \<Rightarrow> hd_side h = sd \<and> hd_instrument_id h = i \<and> tc_remaining_quantity leg = hd_remaining h - q)"

lemma reservations_settle:
  assumes ok: "reservations_ok l" and fit: "leg_fits leg sd i q l"
  shows "reservations_ok (settle_leg leg sd i p q l)"
proof -
  let ?k = "hold_key (tc_account_id leg) (tc_client_order_id leg)"
  show ?thesis
  proof (cases "lg_holds l ?k")
    case None
    then show ?thesis
      by (intro reservations_step [OF ok, of _ ?k None]) (auto simp: settle_leg_def Let_def weight_simps)
  next
    case (Some h)
    then have f: "hd_side h = sd" "hd_instrument_id h = i" "tc_remaining_quantity leg = hd_remaining h - q"
      using fit by (simp_all add: leg_fits_def)
    show ?thesis
    proof (cases "tc_remaining_quantity leg = 0")
      case True
      then have "hd_remaining h = q" using f(3) by simp
      then show ?thesis
        by (intro reservations_step [OF ok, of _ ?k None])
           (use True Some f(1,2) in \<open>auto simp: settle_leg_def Let_def weight_simps hold_cash_def hold_units_def\<close>)
    next
      case False
      have "tc_remaining_quantity leg * hd_limit_price h = hd_remaining h * hd_limit_price h - q * hd_limit_price h"
        by (simp add: f(3) left_diff_distrib)
      then show ?thesis
        by (intro reservations_step [OF ok, of _ ?k "Some (h\<lparr>hd_remaining := tc_remaining_quantity leg\<rparr>)"])
           (use False Some f in \<open>auto simp: settle_leg_def Let_def weight_simps hold_cash_def hold_units_def\<close>)
    qed
  qed
qed


definition event_fits :: "ExchangeEvent \<Rightarrow> Ledger \<Rightarrow> bool" where
  \<comment> \<open>what the engine's events and the ledger's holds agree on\<close>
  "event_fits ev l \<longleftrightarrow>
     (case ev of
        EvAccepted a \<Rightarrow> lg_holds l (hold_key (oa_account_id a) (oa_client_order_id a)) = None
      | EvReplaced p \<Rightarrow> op_new_client_order_id p = op_original_client_order_id p \<or>
          lg_holds l (hold_key (op_account_id p) (op_new_client_order_id p)) = None
      | EvTrade t \<Rightarrow> leg_fits (te_buyer t) Buy (te_instrument_id t) (te_quantity t) l \<and>
          leg_fits (te_seller t) Sell (te_instrument_id t) (te_quantity t)
            (settle_leg (te_buyer t) Buy (te_instrument_id t) (te_price t) (te_quantity t) l)
      | _ \<Rightarrow> True)"

lemma hold_key_eq [simp]: "hold_key a c = hold_key a' c' \<longleftrightarrow> a = a' \<and> c = c'"
  by (auto simp: hold_key_def)

lemma release_holds [simp]: "lg_holds (release_hold_fully a h l) = lg_holds l"
  by (simp add: release_hold_fully_def)

lemma empty_reservations: "reservations_ok empty_ledger"
  by (simp add: reservations_ok_def empty_ledger_def balances_def no_balances_def held_by_def)

lemma deposit_reservations:
  "reservations_ok l \<Longrightarrow> reservations_ok (deposit_cash a x l)"
  "reservations_ok l \<Longrightarrow> reservations_ok (deposit_position a i q l)"
  by (simp_all add: reservations_ok_def deposit_cash_def deposit_position_def)

lemma apply_reservations:
  assumes "reservations_ok l" "event_fits ev l"
  shows "reservations_ok (apply_event ev l)"
proof (cases ev)
  case (EvReplaced p)
  let ?k = "hold_key (op_account_id p) (op_original_client_order_id p)"
  show ?thesis
  proof (cases "lg_holds l ?k")
    case (Some h)
    have "lg_holds (erase_hold ?k (release_hold_fully (op_account_id p) h l))
        (hold_key (op_account_id p) (op_new_client_order_id p)) = None"
      using assms(2) EvReplaced by (auto simp: event_fits_def)
    then show ?thesis
      using reservations_open [OF reservations_close [OF assms(1) Some]] EvReplaced Some
      by (simp add: on_order_replaced_def Let_def)
  qed (use assms(1) EvReplaced in \<open>simp add: on_order_replaced_def Let_def\<close>)
next
  case (EvCancelled c)
  then show ?thesis using assms(1) reservations_close by (auto simp: on_order_cancelled_def Let_def split: option.split)
qed (use assms in \<open>auto simp: event_fits_def on_order_accepted_def on_trade_executed_def intro: reservations_open reservations_settle\<close>)

section \<open>Trades move, and never make\<close>

definition cash_sum :: "AccountId set \<Rightarrow> Ledger \<Rightarrow> i64" where
  "cash_sum A l = (\<Sum>a \<in> A. ab_cash_total (balances a l))"

definition units_sum :: "AccountId set \<Rightarrow> InstrumentId \<Rightarrow> Ledger \<Rightarrow> Quantity" where
  "units_sum A i l = (\<Sum>a \<in> A. units (ab_position_total (balances a l)) i)"

lemma open_hold_totals:
  "ab_cash_total (balances x (open_hold a c i sd p q l)) = ab_cash_total (balances x l)"
  "ab_position_total (balances x (open_hold a c i sd p q l)) = ab_position_total (balances x l)"
  by (simp_all add: open_hold_def Let_def)

lemma release_totals:
  "ab_cash_total (balances x (release_hold_fully a h l)) = ab_cash_total (balances x l)"
  "ab_position_total (balances x (release_hold_fully a h l)) = ab_position_total (balances x l)"
  by (simp_all add: release_hold_fully_def)

lemma settle_totals:
  "ab_cash_total (balances x (settle_leg leg sd i p q l)) =
     ab_cash_total (balances x l) + (if x = tc_account_id leg then (if sd = Buy then - (q * p) else q * p) else 0)"
  "units (ab_position_total (balances x (settle_leg leg sd i p q l))) j =
     units (ab_position_total (balances x l)) j +
       (if x = tc_account_id leg \<and> j = i then (if sd = Buy then q else - q) else 0)"
  by (auto simp: settle_leg_def Let_def split: option.split)

lemma sum_one: "finite A \<Longrightarrow> a \<in> A \<Longrightarrow> (\<Sum>x \<in> A. f x + (if x = a then d else 0)) = (\<Sum>x \<in> A. f x) + (d :: u64)"
  by (simp add: sum.distrib)

lemma settle_sums:
  assumes "finite A" "tc_account_id leg \<in> A"
  shows "cash_sum A (settle_leg leg sd i p q l) = cash_sum A l + (if sd = Buy then - (q * p) else q * p)"
    "units_sum A j (settle_leg leg sd i p q l) = units_sum A j l + (if j = i then (if sd = Buy then q else - q) else 0)"
  using assms by (simp_all add: cash_sum_def units_sum_def settle_totals sum_one cong: if_cong)

section \<open>Properties\<close>

definition sample_accept :: "ClientOrderId \<Rightarrow> OrderAccepted" where
  "sample_accept c = \<lparr>oa_event_sequence = 1, oa_command_sequence = 1, oa_account_id = 5, oa_client_order_id = c,
     oa_exchange_order_id = c, oa_instrument_id = 7, oa_side = Buy, oa_price = 100, oa_quantity = 10,
     oa_order_type = Limit, oa_time_in_force = GTC\<rparr>"

definition sample_cancelled :: "ClientOrderId \<Rightarrow> OrderCancelled" where
  "sample_cancelled c = \<lparr>oc_event_sequence = 9, oc_command_sequence = 9, oc_account_id = 5, oc_client_order_id = c,
     oc_exchange_order_id = c, oc_instrument_id = 7\<rparr>"

definition sample_trade :: TradeExecuted where
  "sample_trade = \<lparr>te_event_sequence = 2, te_command_sequence = 2, te_instrument_id = 7, te_price = 90, te_quantity = 4,
     te_aggressor_side = Buy,
     te_buyer = \<lparr>tc_account_id = 5, tc_client_order_id = 1, tc_exchange_order_id = 1, tc_remaining_quantity = 6\<rparr>,
     te_seller = \<lparr>tc_account_id = 6, tc_client_order_id = 1, tc_exchange_order_id = 2, tc_remaining_quantity = 0\<rparr>\<rparr>"

text \<open>
  C22. What an account has reserved is exactly the sum of its open holds, cash for buys at their limit
  price and units per instrument for sells, and the hold counter is their number: every event whose ids
  and quantities agree with the holds keeps this.
\<close>

theorem reservations_equal_the_open_holds:
  assumes "reservations_ok l" "event_fits ev l"
  shows "finite (dom (lg_holds (apply_event ev l))) \<and>
    lg_hold_count (apply_event ev l) = word_of_nat (card (dom (lg_holds (apply_event ev l)))) \<and>
    ab_cash_reserved (balances a (apply_event ev l)) = held_by a hold_cash (lg_holds (apply_event ev l)) \<and>
    units (ab_position_reserved (balances a (apply_event ev l))) i = held_by a (hold_units i) (lg_holds (apply_event ev l))"
  using apply_reservations [OF assms] by (simp add: reservations_ok_def)

theorem reservations_equal_the_open_holds_witness:
  "ab_cash_reserved (balances 5 (apply_event (EvTrade sample_trade) (apply_event (EvAccepted (sample_accept 1)) empty_ledger))) =
     held_by 5 hold_cash (lg_holds (apply_event (EvTrade sample_trade) (apply_event (EvAccepted (sample_accept 1)) empty_ledger)))"
proof -
  let ?l = "apply_event (EvAccepted (sample_accept 1)) empty_ledger"
  have "event_fits (EvAccepted (sample_accept 1)) empty_ledger" by (simp add: event_fits_def empty_ledger_def)
  then have ok: "reservations_ok ?l" by (rule apply_reservations [OF empty_reservations])
  have "event_fits (EvTrade sample_trade) ?l"
    by (simp add: event_fits_def sample_accept_def sample_trade_def on_order_accepted_def open_hold_def Let_def leg_fits_def
        settle_leg_def empty_ledger_def)
  then show ?thesis using reservations_equal_the_open_holds [OF ok] by blast
qed

text \<open>
  C23. No event makes or destroys cash or units: over any finite set of accounts that holds both sides of a
  trade the totals keep their sum, and every other event leaves every total as it is.
\<close>

theorem events_conserve_cash_and_units:
  assumes "finite A" "\<And>t. ev = EvTrade t \<Longrightarrow> tc_account_id (te_buyer t) \<in> A \<and> tc_account_id (te_seller t) \<in> A"
  shows "cash_sum A (apply_event ev l) = cash_sum A l \<and> units_sum A i (apply_event ev l) = units_sum A i l"
proof (cases ev)
  case (EvTrade t)
  then show ?thesis using assms settle_sums [OF assms(1)] by (auto simp: on_trade_executed_def)
qed (auto simp: cash_sum_def units_sum_def on_order_accepted_def on_order_replaced_def on_order_cancelled_def Let_def
     open_hold_totals release_totals split: option.split)

theorem events_conserve_cash_and_units_witness:
  "cash_sum {5, 6} (apply_event (EvTrade sample_trade) (deposit_cash 5 1000 empty_ledger)) = 1000"
proof -
  have "cash_sum {5, 6} (apply_event (EvTrade sample_trade) (deposit_cash 5 1000 empty_ledger)) =
      cash_sum {5, 6} (deposit_cash 5 1000 empty_ledger)"
    using events_conserve_cash_and_units [of "{5, 6}" "EvTrade sample_trade"] by (auto simp: sample_trade_def)
  then show ?thesis by (simp add: cash_sum_def deposit_cash_def) (simp add: balances_def empty_ledger_def no_balances_def)
qed

text \<open>
  Accepting an order under an id without a hold and then cancelling it gives back exactly what it had
  reserved: every balance of every account and every hold is as before.
\<close>

theorem cancel_undoes_an_acceptance:
  assumes "lg_holds l (hold_key (oa_account_id a) (oa_client_order_id a)) = None"
    and "oc_account_id c = oa_account_id a" "oc_client_order_id c = oa_client_order_id a"
  shows "let l' = apply_event (EvCancelled c) (apply_event (EvAccepted a) l) in
    lg_holds l' = lg_holds l \<and> lg_hold_count l' = lg_hold_count l \<and>
    available_cash x l' = available_cash x l \<and> available_position x i l' = available_position x i l"
  using assms
  by (auto simp: Let_def on_order_accepted_def on_order_cancelled_def open_hold_def release_hold_fully_def available_balances)

theorem cancel_undoes_an_acceptance_witness:
  "available_cash 5 (apply_event (EvCancelled (sample_cancelled 1))
     (apply_event (EvAccepted (sample_accept 1)) (deposit_cash 5 1000 empty_ledger))) = 1000"
proof -
  have h: "lg_holds (deposit_cash 5 1000 empty_ledger) = Map.empty" by (simp add: deposit_cash_def empty_ledger_def)
  have "available_cash 5 (deposit_cash 5 1000 empty_ledger) = 1000"
    by (simp add: available_balances deposit_cash_def) (simp add: balances_def empty_ledger_def no_balances_def)
  then show ?thesis
    using cancel_undoes_an_acceptance [of "deposit_cash 5 1000 empty_ledger" "sample_accept 1" "sample_cancelled 1" 5 0]
    by (simp add: h Let_def sample_accept_def sample_cancelled_def)
qed

text \<open>
  A replace onto the id of another open hold loses a reservation: the hold map is overwritten but the
  overwritten hold's cash stays reserved. With two accepted buys of 10 at 100, replacing the first onto
  the id of the second and cancelling that leaves no hold and 1000 reserved for good.
\<close>

theorem replace_onto_an_open_hold_leaks:
  "let replaced = \<lparr>op_event_sequence = 3, op_command_sequence = 3, op_account_id = 5, op_original_client_order_id = 1,
         op_new_client_order_id = 2, op_exchange_order_id = 1, op_instrument_id = 7, op_new_price = 100, op_new_quantity = 10\<rparr>;
       l = fold apply_event [EvAccepted (sample_accept 1), EvAccepted (sample_accept 2), EvReplaced replaced,
             EvCancelled (sample_cancelled 2)] empty_ledger
   in lg_holds l = Map.empty \<and> ab_cash_reserved (balances 5 l) = 1000"
  by (simp add: Let_def on_order_accepted_def on_order_replaced_def on_order_cancelled_def sample_accept_def sample_cancelled_def
      open_hold_def release_hold_fully_def) (simp add: empty_ledger_def balances_def no_balances_def fun_eq_iff)

end
