(* ===== verification/TickBitmap.thy ===== *)
theory TickBitmap
  imports Domain
begin

text \<open>
  The three-level occupancy bitmap of \<open>MatchingBook::SideIndex\<close>
  (\<open>src/include/exchange/matching/matching_book.hpp\<close>, \<open>src/src/exchange/matching/matching_book.cpp\<close>):
  one bit per tick in \<open>occupancy_\<close>, one bit per occupancy word in \<open>mid_summary_\<close>, one bit per mid
  word in \<open>summary_\<close>. The lemmas relate every operation to the set of occupied ticks: the summaries
  stay exact, and the four searches return the greatest or least occupied tick of the range they
  are asked about.
\<close>

section \<open>Bit scans and masks\<close>

text \<open>\<open>std::countl_zero\<close> and \<open>std::countr_zero\<close> on a 64-bit word.\<close>

definition countl_zero :: "u64 \<Rightarrow> nat" where
  "countl_zero w = length (takeWhile (\<lambda>i. \<not> bit w i) (rev [0..<64]))"

definition countr_zero :: "u64 \<Rightarrow> nat" where
  "countr_zero w = length (takeWhile (\<lambda>i. \<not> bit w i) [0..<64])"

definition highest_bit :: "u64 \<Rightarrow> u32" where
  "highest_bit w = 63 - word_of_nat (countl_zero w)"

definition lowest_bit :: "u64 \<Rightarrow> u32" where
  "lowest_bit w = word_of_nat (countr_zero w)"

definition mask_below :: "u32 \<Rightarrow> u64" where
  "mask_below b = (if b = 0 then 0 else drop_bit (unat (64 - b)) (NOT 0))"

definition mask_above :: "u32 \<Rightarrow> u64" where
  "mask_above b = (if 63 \<le> b then 0 else push_bit (unat (b + 1)) (NOT 0))"

section \<open>The bitmap\<close>

record TickBitmap =
  band_ticks :: u32
  occupancy :: "u64 list"
  mid_summary :: "u64 list"
  summary :: u64

definition words_for :: "u32 \<Rightarrow> nat" where
  "words_for ticks = unat ((ticks + 63) div 64)"

definition set_occupied :: "u32 \<Rightarrow> 'a TickBitmap_scheme \<Rightarrow> 'a TickBitmap_scheme" where
  "set_occupied tick s =
     (let w = drop_bit 6 tick
      in s\<lparr>occupancy := (occupancy s)[unat w := occupancy s ! unat w OR push_bit (unat (tick AND 63)) 1],
           mid_summary := (mid_summary s)[unat (drop_bit 6 w) :=
              mid_summary s ! unat (drop_bit 6 w) OR push_bit (unat (w AND 63)) 1],
           summary := summary s OR push_bit (unat (drop_bit 6 w)) 1\<rparr>)"

definition clear_occupied :: "u32 \<Rightarrow> 'a TickBitmap_scheme \<Rightarrow> 'a TickBitmap_scheme" where
  "clear_occupied tick s =
     (let w = drop_bit 6 tick;
          cleared = occupancy s ! unat w AND NOT (push_bit (unat (tick AND 63)) 1);
          s1 = s\<lparr>occupancy := (occupancy s)[unat w := cleared]\<rparr>
      in if cleared \<noteq> 0 then s1
         else let m = drop_bit 6 w;
                  mid = mid_summary s1 ! unat m AND NOT (push_bit (unat (w AND 63)) 1);
                  s2 = s1\<lparr>mid_summary := (mid_summary s1)[unat m := mid]\<rparr>
              in if mid = 0 then s2\<lparr>summary := summary s2 AND NOT (push_bit (unat m) 1)\<rparr> else s2)"

definition is_occupied :: "u32 \<Rightarrow> 'a TickBitmap_scheme \<Rightarrow> bool" where
  "is_occupied tick s \<longleftrightarrow>
     occupancy s ! unat (drop_bit 6 tick) AND push_bit (unat (tick AND 63)) 1 \<noteq> 0"

text \<open>\<open>(hi << 6U) | lo\<close>: the tick or word index made of a word index and a bit index.\<close>

definition join_index :: "u32 \<Rightarrow> u32 \<Rightarrow> u32" where
  "join_index hi lo = push_bit 6 hi OR lo"

definition highest_occupied :: "'a TickBitmap_scheme \<Rightarrow> u32" where
  "highest_occupied s =
     (if summary s = 0 then band_ticks s
      else let mid = highest_bit (summary s);
               w = join_index mid (highest_bit (mid_summary s ! unat mid))
           in join_index w (highest_bit (occupancy s ! unat w)))"

definition lowest_occupied :: "'a TickBitmap_scheme \<Rightarrow> u32" where
  "lowest_occupied s =
     (if summary s = 0 then band_ticks s
      else let mid = lowest_bit (summary s);
               w = join_index mid (lowest_bit (mid_summary s ! unat mid))
           in join_index w (lowest_bit (occupancy s ! unat w)))"

definition highest_occupied_below :: "u32 \<Rightarrow> 'a TickBitmap_scheme \<Rightarrow> u32" where
  "highest_occupied_below tick s =
     (if summary s = 0 \<or> tick = 0 then band_ticks s
      else let w = drop_bit 6 tick; rest = occupancy s ! unat w AND mask_below (tick AND 63)
      in if rest \<noteq> 0 then join_index w (highest_bit rest)
      else let mid = drop_bit 6 w; rest = mid_summary s ! unat mid AND mask_below (w AND 63)
      in if rest \<noteq> 0
         then let w' = join_index mid (highest_bit rest)
              in join_index w' (highest_bit (occupancy s ! unat w'))
      else let rest = summary s AND mask_below mid
      in if rest = 0 then band_ticks s
      else let mid' = highest_bit rest;
               w' = join_index mid' (highest_bit (mid_summary s ! unat mid'))
           in join_index w' (highest_bit (occupancy s ! unat w')))"

definition lowest_occupied_above :: "u32 \<Rightarrow> 'a TickBitmap_scheme \<Rightarrow> u32" where
  "lowest_occupied_above tick s =
     (if summary s = 0 \<or> band_ticks s \<le> tick + 1 then band_ticks s
      else let w = drop_bit 6 tick; rest = occupancy s ! unat w AND mask_above (tick AND 63)
      in if rest \<noteq> 0 then join_index w (lowest_bit rest)
      else let mid = drop_bit 6 w; rest = mid_summary s ! unat mid AND mask_above (w AND 63)
      in if rest \<noteq> 0
         then let w' = join_index mid (lowest_bit rest)
              in join_index w' (lowest_bit (occupancy s ! unat w'))
      else let rest = summary s AND mask_above mid
      in if rest = 0 then band_ticks s
      else let mid' = lowest_bit rest;
               w' = join_index mid' (lowest_bit (mid_summary s ! unat mid'))
           in join_index w' (lowest_bit (occupancy s ! unat w')))"

section \<open>Index arithmetic\<close>

declare drop_bit_drop_bit [simp del]

lemma unat_drop6: "unat (drop_bit 6 (t :: u32)) = unat t div 64"
  by (simp add: drop_bit_eq_div unat_div_distrib)

lemma unat_and63: "unat (t AND 63 :: u32) = unat t mod 64"
proof -
  have "t AND 63 = take_bit 6 t"
    by (simp add: take_bit_eq_mask mask_eq_exp_minus_1)
  then show ?thesis
    by (simp add: take_bit_eq_mod unat_mod_distrib)
qed

lemma unat_join_index:
  assumes "unat hi < 2 ^ 20" "unat lo < 64"
  shows "unat (join_index hi lo) = unat hi * 64 + unat lo"
proof -
  have lo: "take_bit 6 lo = lo"
    using assms(2) by (intro word_unat_eq_iff [THEN iffD2]) (simp add: take_bit_eq_mod unat_mod_distrib)
  have disj: "push_bit 6 hi AND lo = 0"
  proof -
    have "push_bit 6 hi AND take_bit 6 lo = 0"
      by (rule bit_word_eqI) (auto simp: bit_simps)
    with lo show ?thesis by simp
  qed
  have "join_index hi lo = push_bit 6 hi + lo"
    unfolding join_index_def by (metis disj word_plus_and_or add_0)
  moreover have "unat (push_bit 6 hi) = unat hi * 64"
    using assms(1) by (simp add: push_bit_eq_mult unat_word_ariths)
  ultimately show ?thesis
    using assms by (simp add: unat_word_ariths)
qed


section \<open>Bit scans\<close>

lemma word_neq_0_bit: "(w :: u64) \<noteq> 0 \<longleftrightarrow> (\<exists>i<64. bit w i)"
  by (auto simp: bit_eq_iff dest: bit_imp_le_length)

lemma countl_zero_spec:
  assumes "w \<noteq> 0"
  shows "countl_zero w < 64 \<and> bit w (63 - countl_zero w) \<and> (\<forall>i. bit w i \<longrightarrow> i \<le> 63 - countl_zero w)"
proof -
  let ?P = "\<lambda>i. \<not> bit w i" and ?xs = "rev [0..<64::nat]"
  let ?k = "length (takeWhile ?P ?xs)"
  have nth: "?xs ! j = 63 - j" if "j < 64" for j
    using that by (simp add: rev_nth)
  have "\<exists>x \<in> set ?xs. \<not> ?P x"
    using assms by (auto simp: word_neq_0_bit)
  then have "takeWhile ?P ?xs \<noteq> ?xs"
    by (metis set_takeWhileD)
  then have k: "?k < 64"
    by (metis length_rev length_upt diff_zero length_takeWhile_le nat_less_le takeWhile_eq_take take_all_iff)
  then have "bit w (63 - ?k)"
    using nth_length_takeWhile [of ?P ?xs] nth by simp
  moreover have "i \<le> 63 - ?k" if "bit w i" for i
  proof (rule ccontr)
    assume "\<not> i \<le> 63 - ?k"
    moreover have "i < 64" using that by (auto dest: bit_imp_le_length)
    ultimately have j: "63 - i < ?k" by linarith
    have "?xs ! (63 - i) = i" using nth [of "63 - i"] \<open>i < 64\<close> by simp
    then have "i \<in> set (takeWhile ?P ?xs)"
      using j by (metis takeWhile_nth nth_mem)
    then show False using that by (auto dest: set_takeWhileD)
  qed
  ultimately show ?thesis using k by (simp add: countl_zero_def)
qed

lemma countr_zero_spec:
  assumes "w \<noteq> 0"
  shows "countr_zero w < 64 \<and> bit w (countr_zero w) \<and> (\<forall>i. bit w i \<longrightarrow> countr_zero w \<le> i)"
proof -
  let ?P = "\<lambda>i. \<not> bit w i" and ?xs = "[0..<64::nat]"
  let ?k = "length (takeWhile ?P ?xs)"
  have "\<exists>x \<in> set ?xs. \<not> ?P x"
    using assms by (auto simp: word_neq_0_bit)
  then have "takeWhile ?P ?xs \<noteq> ?xs"
    by (metis set_takeWhileD)
  then have k: "?k < 64"
    by (metis length_upt diff_zero length_takeWhile_le nat_less_le takeWhile_eq_take take_all_iff)
  then have "bit w ?k"
    using nth_length_takeWhile [of ?P ?xs] by simp
  moreover have "?k \<le> i" if "bit w i" for i
  proof (rule ccontr)
    assume j: "\<not> ?k \<le> i"
    then have "?xs ! i = i" using k by simp
    then have "i \<in> set (takeWhile ?P ?xs)"
      using j by (metis takeWhile_nth nth_mem not_le)
    then show False using that by (auto dest: set_takeWhileD)
  qed
  ultimately show ?thesis using k by (simp add: countr_zero_def)
qed

lemma highest_bit_spec:
  assumes "w \<noteq> 0"
  shows "unat (highest_bit w) < 64" "bit w (unat (highest_bit w))" "bit w i \<Longrightarrow> i \<le> unat (highest_bit w)"
proof -
  have k: "countl_zero w < 64" using countl_zero_spec [OF assms] by simp
  have "unat (63 - word_of_nat (countl_zero w) :: u32) = 63 - countl_zero w"
    using k by (subst unat_sub) (simp_all add: word_le_nat_alt unat_of_nat)
  then have "unat (highest_bit w) = 63 - countl_zero w" by (simp add: highest_bit_def)
  then show "unat (highest_bit w) < 64" "bit w (unat (highest_bit w))"
    "bit w i \<Longrightarrow> i \<le> unat (highest_bit w)"
    using countl_zero_spec [OF assms] by auto
qed

lemma lowest_bit_spec:
  assumes "w \<noteq> 0"
  shows "unat (lowest_bit w) < 64" "bit w (unat (lowest_bit w))" "bit w i \<Longrightarrow> unat (lowest_bit w) \<le> i"
proof -
  have "countr_zero w < 64" using countr_zero_spec [OF assms] by simp
  then have "unat (lowest_bit w) = countr_zero w" by (simp add: lowest_bit_def unat_of_nat)
  then show "unat (lowest_bit w) < 64" "bit w (unat (lowest_bit w))"
    "bit w i \<Longrightarrow> unat (lowest_bit w) \<le> i"
    using countr_zero_spec [OF assms] by auto
qed

lemma bit_mask_below [bit_words]:
  assumes "unat b < 64"
  shows "bit (mask_below b) i \<longleftrightarrow> i < unat b"
proof (cases "b = 0")
  case False
  then have b: "0 < unat b" by (simp add: unat_gt_0)
  have "unat (64 - b) = 64 - unat b"
    using assms by (subst unat_sub) (simp_all add: word_le_nat_alt)
  then show ?thesis
    using False b assms by (auto simp: mask_below_def bit_simps)
qed (simp add: mask_below_def)

lemma bit_mask_above [bit_words]:
  assumes "unat b < 64"
  shows "bit (mask_above b) i \<longleftrightarrow> unat b < i \<and> i < 64"
proof (cases "63 \<le> b")
  case True
  then show ?thesis using assms by (auto simp: mask_above_def word_le_nat_alt)
next
  case False
  then have "unat (b + 1) = unat b + 1"
    by (simp add: word_le_nat_alt unat_word_ariths)
  then show ?thesis
    using False by (auto simp: mask_above_def bit_simps)
qed


section \<open>The set of occupied ticks\<close>

definition occupied :: "'a TickBitmap_scheme \<Rightarrow> nat \<Rightarrow> bool" where
  "occupied s t \<longleftrightarrow> t < unat (band_ticks s) \<and> bit (occupancy s ! (t div 64)) (t mod 64)"

definition bitmap_inv :: "'a TickBitmap_scheme \<Rightarrow> bool" where
  "bitmap_inv s \<longleftrightarrow>
     unat (band_ticks s) \<le> 2 ^ 18 \<and>
     length (occupancy s) * 64 = unat (band_ticks s) \<and>
     length (mid_summary s) = (length (occupancy s) + 63) div 64 \<and>
     (\<forall>w < length (occupancy s).
        bit (mid_summary s ! (w div 64)) (w mod 64) \<longleftrightarrow> occupancy s ! w \<noteq> 0) \<and>
     (\<forall>m < length (mid_summary s). \<forall>i. bit (mid_summary s ! m) i \<longrightarrow> m * 64 + i < length (occupancy s)) \<and>
     (\<forall>m. bit (summary s) m \<longleftrightarrow> m < length (mid_summary s) \<and> mid_summary s ! m \<noteq> 0)"

lemma bitmap_invD:
  assumes "bitmap_inv s"
  shows "unat (band_ticks s) \<le> 262144"
    and "length (occupancy s) * 64 = unat (band_ticks s)"
    and "length (mid_summary s) = (length (occupancy s) + 63) div 64"
    and "w < length (occupancy s) \<Longrightarrow> bit (mid_summary s ! (w div 64)) (w mod 64) \<longleftrightarrow> occupancy s ! w \<noteq> 0"
    and "m < length (mid_summary s) \<Longrightarrow> bit (mid_summary s ! m) i \<Longrightarrow> m * 64 + i < length (occupancy s)"
    and "bit (summary s) m \<longleftrightarrow> m < length (mid_summary s) \<and> mid_summary s ! m \<noteq> 0"
  using assms by (auto simp: bitmap_inv_def)

lemma bitmap_lengths:
  assumes "bitmap_inv s"
  shows "length (occupancy s) \<le> 4096" "length (mid_summary s) \<le> 64"
    "w < length (occupancy s) \<Longrightarrow> w div 64 < length (mid_summary s)"
    "t < unat (band_ticks s) \<longleftrightarrow> t div 64 < length (occupancy s)"
proof -
  note d = bitmap_invD(1-3) [OF assms]
  show "length (occupancy s) \<le> 4096" using d(1,2) by linarith
  then show "length (mid_summary s) \<le> 64" using d(3) by linarith
  show "w div 64 < length (mid_summary s)" if "w < length (occupancy s)"
    using that d(3) by linarith
  show "t < unat (band_ticks s) \<longleftrightarrow> t div 64 < length (occupancy s)"
    unfolding d(2) [symmetric] by (simp add: less_mult_imp_div_less div_less_iff_less_mult)
qed

lemma occupied_word:
  assumes "bitmap_inv s" "occupied s t"
  shows "t div 64 < length (occupancy s)" "occupancy s ! (t div 64) \<noteq> 0"
    "bit (mid_summary s ! (t div 64 div 64)) (t div 64 mod 64)"
    "t div 64 div 64 < length (mid_summary s)" "bit (summary s) (t div 64 div 64)"
proof -
  show w: "t div 64 < length (occupancy s)"
    using assms bitmap_lengths(4) [OF assms(1)] by (auto simp: occupied_def)
  show nz: "occupancy s ! (t div 64) \<noteq> 0"
    using assms(2) by (auto simp: occupied_def)
  show mb: "bit (mid_summary s ! (t div 64 div 64)) (t div 64 mod 64)"
    using bitmap_invD(4) [OF assms(1) w] nz by blast
  show m: "t div 64 div 64 < length (mid_summary s)"
    using bitmap_lengths(3) [OF assms(1) w] .
  have "mid_summary s ! (t div 64 div 64) \<noteq> 0" using mb by (metis bit_0_eq bot_apply bot_bool_def)
  with m show "bit (summary s) (t div 64 div 64)"
    unfolding bitmap_invD(6) [OF assms(1)] by blast
qed

text \<open>Reading one occupancy word, one mid word, and the summary downwards.\<close>

lemma scan_word:
  assumes inv: "bitmap_inv s" and w: "unat w < length (occupancy s)"
    and rest: "rest \<noteq> 0" "\<And>i. bit rest i \<longleftrightarrow> bit (occupancy s ! unat w) i \<and> P i"
  shows "unat (join_index w (highest_bit rest)) div 64 = unat w"
    and "occupied s (unat (join_index w (highest_bit rest)))"
    and "P (unat (join_index w (highest_bit rest)) mod 64)"
    and "occupied s t \<Longrightarrow> t div 64 = unat w \<Longrightarrow> P (t mod 64) \<Longrightarrow> t \<le> unat (join_index w (highest_bit rest))"
    and "unat (join_index w (lowest_bit rest)) div 64 = unat w"
    and "occupied s (unat (join_index w (lowest_bit rest)))"
    and "P (unat (join_index w (lowest_bit rest)) mod 64)"
    and "occupied s t \<Longrightarrow> t div 64 = unat w \<Longrightarrow> P (t mod 64) \<Longrightarrow> unat (join_index w (lowest_bit rest)) \<le> t"
proof -
  have wb: "unat w < 2 ^ 20" using w bitmap_lengths(1) [OF inv] by simp
  note hi = highest_bit_spec [OF rest(1)] and lo = lowest_bit_spec [OF rest(1)]
  have H: "unat (join_index w (highest_bit rest)) = unat w * 64 + unat (highest_bit rest)"
    using wb hi(1) by (rule unat_join_index)
  have L: "unat (join_index w (lowest_bit rest)) = unat w * 64 + unat (lowest_bit rest)"
    using wb lo(1) by (rule unat_join_index)
  show "unat (join_index w (highest_bit rest)) div 64 = unat w" using H hi(1) by simp
  show "unat (join_index w (lowest_bit rest)) div 64 = unat w" using L lo(1) by simp
  have Hm: "unat (join_index w (highest_bit rest)) mod 64 = unat (highest_bit rest)" using H hi(1) by simp
  have Lm: "unat (join_index w (lowest_bit rest)) mod 64 = unat (lowest_bit rest)" using L lo(1) by simp
  show "P (unat (join_index w (highest_bit rest)) mod 64)" using Hm hi(2) rest(2) by simp
  show "P (unat (join_index w (lowest_bit rest)) mod 64)" using Lm lo(2) rest(2) by simp
  show "occupied s (unat (join_index w (highest_bit rest)))"
    using H hi(1,2) rest(2) w by (simp add: occupied_def bitmap_lengths(4) [OF inv])
  show "occupied s (unat (join_index w (lowest_bit rest)))"
    using L lo(1,2) rest(2) w by (simp add: occupied_def bitmap_lengths(4) [OF inv])
  show "t \<le> unat (join_index w (highest_bit rest))"
    if t: "occupied s t" "t div 64 = unat w" "P (t mod 64)"
  proof -
    have "t mod 64 \<le> unat (highest_bit rest)"
      by (rule hi(3)) (use t rest(2) in \<open>simp add: occupied_def\<close>)
    then show ?thesis using H t(2) div_mult_mod_eq [of t 64] by linarith
  qed
  show "unat (join_index w (lowest_bit rest)) \<le> t"
    if t: "occupied s t" "t div 64 = unat w" "P (t mod 64)"
  proof -
    have "unat (lowest_bit rest) \<le> t mod 64"
      by (rule lo(3)) (use t rest(2) in \<open>simp add: occupied_def\<close>)
    then show ?thesis using L t(2) div_mult_mod_eq [of t 64] by linarith
  qed
qed


lemma descend_word:
  assumes inv: "bitmap_inv s" and w: "unat w < length (occupancy s)" "occupancy s ! unat w \<noteq> 0"
  shows "unat (join_index w (highest_bit (occupancy s ! unat w))) div 64 = unat w"
    and "occupied s (unat (join_index w (highest_bit (occupancy s ! unat w))))"
    and "occupied s t \<Longrightarrow> t div 64 \<le> unat w \<Longrightarrow> t \<le> unat (join_index w (highest_bit (occupancy s ! unat w)))"
    and "unat (join_index w (lowest_bit (occupancy s ! unat w))) div 64 = unat w"
    and "occupied s (unat (join_index w (lowest_bit (occupancy s ! unat w))))"
    and "occupied s t \<Longrightarrow> unat w \<le> t div 64 \<Longrightarrow> unat (join_index w (lowest_bit (occupancy s ! unat w))) \<le> t"
proof -
  note sc = scan_word [OF inv w(1) w(2), of "\<lambda>_. True", simplified]
  show hd: "unat (join_index w (highest_bit (occupancy s ! unat w))) div 64 = unat w" by (rule sc(1))
  show ld: "unat (join_index w (lowest_bit (occupancy s ! unat w))) div 64 = unat w" by (rule sc(5))
  show "occupied s (unat (join_index w (highest_bit (occupancy s ! unat w))))" by (rule sc(2))
  show "occupied s (unat (join_index w (lowest_bit (occupancy s ! unat w))))" by (rule sc(6))
  show "t \<le> unat (join_index w (highest_bit (occupancy s ! unat w)))"
    if "occupied s t" "t div 64 \<le> unat w"
  proof (cases "t div 64 = unat w")
    case True with that sc(4) show ?thesis by blast
  next
    case False
    then have "t div 64 < unat (join_index w (highest_bit (occupancy s ! unat w))) div 64"
      using that(2) hd by simp
    then show ?thesis by (meson div_le_mono leI not_le order_less_imp_le)
  qed
  show "unat (join_index w (lowest_bit (occupancy s ! unat w))) \<le> t"
    if "occupied s t" "unat w \<le> t div 64"
  proof (cases "t div 64 = unat w")
    case True with that sc(8) show ?thesis by blast
  next
    case False
    then have "unat (join_index w (lowest_bit (occupancy s ! unat w))) div 64 < t div 64"
      using that(2) ld by simp
    then show ?thesis by (meson div_le_mono leI not_le order_less_imp_le)
  qed
qed

lemma scan_mid:
  assumes inv: "bitmap_inv s" and m: "unat m < length (mid_summary s)"
    and rest: "rest \<noteq> 0" "\<And>i. bit rest i \<longleftrightarrow> bit (mid_summary s ! unat m) i \<and> P i"
  shows "unat (join_index m (highest_bit rest)) div 64 = unat m"
    and "unat (join_index m (highest_bit rest)) < length (occupancy s)"
    and "occupancy s ! unat (join_index m (highest_bit rest)) \<noteq> 0"
    and "P (unat (join_index m (highest_bit rest)) mod 64)"
    and "w < length (occupancy s) \<Longrightarrow> occupancy s ! w \<noteq> 0 \<Longrightarrow> w div 64 = unat m \<Longrightarrow> P (w mod 64) \<Longrightarrow>
           w \<le> unat (join_index m (highest_bit rest))"
    and "unat (join_index m (lowest_bit rest)) div 64 = unat m"
    and "unat (join_index m (lowest_bit rest)) < length (occupancy s)"
    and "occupancy s ! unat (join_index m (lowest_bit rest)) \<noteq> 0"
    and "P (unat (join_index m (lowest_bit rest)) mod 64)"
    and "w < length (occupancy s) \<Longrightarrow> occupancy s ! w \<noteq> 0 \<Longrightarrow> w div 64 = unat m \<Longrightarrow> P (w mod 64) \<Longrightarrow>
           unat (join_index m (lowest_bit rest)) \<le> w"
proof -
  have mb: "unat m < 2 ^ 20" using m bitmap_lengths(2) [OF inv] by simp
  note hi = highest_bit_spec [OF rest(1)] and lo = lowest_bit_spec [OF rest(1)]
  have H: "unat (join_index m (highest_bit rest)) = unat m * 64 + unat (highest_bit rest)"
    using mb hi(1) by (rule unat_join_index)
  have L: "unat (join_index m (lowest_bit rest)) = unat m * 64 + unat (lowest_bit rest)"
    using mb lo(1) by (rule unat_join_index)
  show Hd: "unat (join_index m (highest_bit rest)) div 64 = unat m" using H hi(1) by simp
  show Ld: "unat (join_index m (lowest_bit rest)) div 64 = unat m" using L lo(1) by simp
  have Hm: "unat (join_index m (highest_bit rest)) mod 64 = unat (highest_bit rest)" using H hi(1) by simp
  have Lm: "unat (join_index m (lowest_bit rest)) mod 64 = unat (lowest_bit rest)" using L lo(1) by simp
  show "P (unat (join_index m (highest_bit rest)) mod 64)" using Hm hi(2) rest(2) by simp
  show "P (unat (join_index m (lowest_bit rest)) mod 64)" using Lm lo(2) rest(2) by simp
  show Hl: "unat (join_index m (highest_bit rest)) < length (occupancy s)"
    using bitmap_invD(5) [OF inv m, of "unat (highest_bit rest)"] hi(2) rest(2) H by simp
  show Ll: "unat (join_index m (lowest_bit rest)) < length (occupancy s)"
    using bitmap_invD(5) [OF inv m, of "unat (lowest_bit rest)"] lo(2) rest(2) L by simp
  show "occupancy s ! unat (join_index m (highest_bit rest)) \<noteq> 0"
    using bitmap_invD(4) [OF inv Hl] Hd Hm hi(2) rest(2) by metis
  show "occupancy s ! unat (join_index m (lowest_bit rest)) \<noteq> 0"
    using bitmap_invD(4) [OF inv Ll] Ld Lm lo(2) rest(2) by metis
  show "w \<le> unat (join_index m (highest_bit rest))"
    if w: "w < length (occupancy s)" "occupancy s ! w \<noteq> 0" "w div 64 = unat m" "P (w mod 64)"
  proof -
    have "bit rest (w mod 64)"
      using bitmap_invD(4) [OF inv w(1)] w rest(2) by metis
    then have "w mod 64 \<le> unat (highest_bit rest)" by (rule hi(3))
    then show ?thesis using H w(3) div_mult_mod_eq [of w 64] by linarith
  qed
  show "unat (join_index m (lowest_bit rest)) \<le> w"
    if w: "w < length (occupancy s)" "occupancy s ! w \<noteq> 0" "w div 64 = unat m" "P (w mod 64)"
  proof -
    have "bit rest (w mod 64)"
      using bitmap_invD(4) [OF inv w(1)] w rest(2) by metis
    then have "unat (lowest_bit rest) \<le> w mod 64" by (rule lo(3))
    then show ?thesis using L w(3) div_mult_mod_eq [of w 64] by linarith
  qed
qed

text \<open>A whole mid word, with every word at or below (above) it empty or inside it.\<close>

lemma descend_mid:
  assumes inv: "bitmap_inv s" and m: "unat m < length (mid_summary s)" "mid_summary s ! unat m \<noteq> 0"
  defines "wh \<equiv> join_index m (highest_bit (mid_summary s ! unat m))"
    and "wl \<equiv> join_index m (lowest_bit (mid_summary s ! unat m))"
  shows "unat wh < length (occupancy s)" "occupancy s ! unat wh \<noteq> 0" "unat wh div 64 = unat m"
    "occupied s t \<Longrightarrow> t div 64 div 64 \<le> unat m \<Longrightarrow> t div 64 \<le> unat wh"
    "unat wl < length (occupancy s)" "occupancy s ! unat wl \<noteq> 0" "unat wl div 64 = unat m"
    "occupied s t \<Longrightarrow> unat m \<le> t div 64 div 64 \<Longrightarrow> unat wl \<le> t div 64"
proof -
  note sc = scan_mid [OF inv m(1) m(2), of "\<lambda>_. True", simplified, folded wh_def wl_def]
  show "unat wh < length (occupancy s)" "occupancy s ! unat wh \<noteq> 0" "unat wl < length (occupancy s)"
    "occupancy s ! unat wl \<noteq> 0" by (rule sc)+
  show hd: "unat wh div 64 = unat m" and ld: "unat wl div 64 = unat m" by (rule sc)+
  show "t div 64 \<le> unat wh" if t: "occupied s t" "t div 64 div 64 \<le> unat m"
  proof (cases "t div 64 div 64 = unat m")
    case True with sc(5) occupied_word(1,2) [OF inv t(1)] show ?thesis by blast
  next
    case False
    then have "t div 64 div 64 < unat wh div 64" using t(2) hd by linarith
    then show ?thesis by (meson div_le_mono leI not_le order_less_imp_le)
  qed
  show "unat wl \<le> t div 64" if t: "occupied s t" "unat m \<le> t div 64 div 64"
  proof (cases "t div 64 div 64 = unat m")
    case True with sc(10) occupied_word(1,2) [OF inv t(1)] show ?thesis by blast
  next
    case False
    then have "unat wl div 64 < t div 64 div 64" using t(2) ld by linarith
    then show ?thesis by (meson div_le_mono leI not_le order_less_imp_le)
  qed
qed

lemma summary_zero_iff:
  assumes "bitmap_inv s"
  shows "summary s = 0 \<longleftrightarrow> (\<forall>t. \<not> occupied s t)"
proof
  assume "summary s = 0"
  then show "\<forall>t. \<not> occupied s t" using occupied_word(5) [OF assms] by fastforce
next
  assume none: "\<forall>t. \<not> occupied s t"
  show "summary s = 0"
  proof (rule ccontr)
    assume nz: "summary s \<noteq> 0"
    let ?m = "highest_bit (summary s)"
    have m: "unat ?m < length (mid_summary s)" "mid_summary s ! unat ?m \<noteq> 0"
      using highest_bit_spec(2) [OF nz] bitmap_invD(6) [OF assms] by blast+
    note dm = descend_mid [OF assms m]
    show False using descend_word(2) [OF assms dm(1,2)] none by blast
  qed
qed

lemma highest_occupied_none [simp]: "summary s = 0 \<Longrightarrow> highest_occupied s = band_ticks s"
  by (simp add: highest_occupied_def)

lemma lowest_occupied_none [simp]: "summary s = 0 \<Longrightarrow> lowest_occupied s = band_ticks s"
  by (simp add: lowest_occupied_def)

lemma highest_occupied_spec:
  assumes "bitmap_inv s" "summary s \<noteq> 0"
  shows "occupied s (unat (highest_occupied s))"
    "occupied s t \<Longrightarrow> t \<le> unat (highest_occupied s)"
proof -
  let ?m = "highest_bit (summary s)"
  have m: "unat ?m < length (mid_summary s)" "mid_summary s ! unat ?m \<noteq> 0"
    using highest_bit_spec(2) [OF assms(2)] bitmap_invD(6) [OF assms(1)] by blast+
  note dm = descend_mid [OF assms(1) m]
  note dw = descend_word [OF assms(1) dm(1,2)]
  show "occupied s (unat (highest_occupied s))"
    using dw(2) assms(2) by (simp add: highest_occupied_def Let_def)
  show "t \<le> unat (highest_occupied s)" if t: "occupied s t"
  proof -
    have "t div 64 div 64 \<le> unat ?m"
      by (rule highest_bit_spec(3) [OF assms(2) occupied_word(5) [OF assms(1) t]])
    then have "t div 64 \<le> unat (join_index ?m (highest_bit (mid_summary s ! unat ?m)))"
      by (rule dm(4) [OF t])
    from dw(3) [OF t this] show ?thesis using assms(2) by (simp add: highest_occupied_def Let_def)
  qed
qed

lemma lowest_occupied_spec:
  assumes "bitmap_inv s" "summary s \<noteq> 0"
  shows "occupied s (unat (lowest_occupied s))"
    "occupied s t \<Longrightarrow> unat (lowest_occupied s) \<le> t"
proof -
  let ?m = "lowest_bit (summary s)"
  have m: "unat ?m < length (mid_summary s)" "mid_summary s ! unat ?m \<noteq> 0"
    using lowest_bit_spec(2) [OF assms(2)] bitmap_invD(6) [OF assms(1)] by blast+
  note dm = descend_mid [OF assms(1) m]
  note dw = descend_word [OF assms(1) dm(5,6)]
  show "occupied s (unat (lowest_occupied s))"
    using dw(5) assms(2) by (simp add: lowest_occupied_def Let_def)
  show "unat (lowest_occupied s) \<le> t" if t: "occupied s t"
  proof -
    have "unat ?m \<le> t div 64 div 64"
      by (rule lowest_bit_spec(3) [OF assms(2) occupied_word(5) [OF assms(1) t]])
    then have "unat (join_index ?m (lowest_bit (mid_summary s ! unat ?m))) \<le> t div 64"
      by (rule dm(8) [OF t])
    from dw(6) [OF t this] show ?thesis using assms(2) by (simp add: lowest_occupied_def Let_def)
  qed
qed


lemma bit_masked_below [bit_words]:
  "bit (w AND mask_below (t AND 63)) i \<longleftrightarrow> bit w i \<and> i < unat t mod 64"
  using bit_mask_below [of "t AND 63" i] by (simp add: bit_and_iff unat_and63)

lemma bit_masked_above [bit_words]:
  "bit (w AND mask_above (t AND 63)) i \<longleftrightarrow> bit w i \<and> unat t mod 64 < i"
  using bit_mask_above [of "t AND 63" i] bit_imp_le_length [of w i]
  by (auto simp: bit_and_iff unat_and63)

definition greatest_below :: "'a TickBitmap_scheme \<Rightarrow> nat \<Rightarrow> nat \<Rightarrow> bool" where
  "greatest_below s n r \<longleftrightarrow> occupied s r \<and> r < n \<and> (\<forall>t. occupied s t \<longrightarrow> t < n \<longrightarrow> t \<le> r)"

definition least_above :: "'a TickBitmap_scheme \<Rightarrow> nat \<Rightarrow> nat \<Rightarrow> bool" where
  "least_above s n r \<longleftrightarrow> occupied s r \<and> n < r \<and> (\<forall>t. occupied s t \<longrightarrow> n < t \<longrightarrow> r \<le> t)"


text \<open>Where a tick below (above) another one sits: in its word, in its mid word, or beyond.\<close>

lemma split_below:
  fixes t n :: nat
  assumes "t < n"
  obtains (word) "t div 64 = n div 64" "t mod 64 < n mod 64"
    | (mid) "t div 64 < n div 64" "t div 64 div 64 = n div 64 div 64" "t div 64 mod 64 < n div 64 mod 64"
    | (top) "t div 64 < n div 64" "t div 64 div 64 < n div 64 div 64"
proof -
  have le: "t div 64 \<le> n div 64" "t div 64 div 64 \<le> n div 64 div 64"
    using assms by (simp_all only: div_le_mono less_imp_le)
  show thesis
  proof (cases "t div 64 = n div 64")
    case True
    with assms word show thesis by (metis div_mult_mod_eq nat_add_left_cancel_less)
  next
    case False
    with le(1) have lt: "t div 64 < n div 64" by (rule le_neq_implies_less)
    show thesis
    proof (cases "t div 64 div 64 = n div 64 div 64")
      case True
      with lt mid show thesis by (metis div_mult_mod_eq nat_add_left_cancel_less)
    next
      case False
      with le(2) have "t div 64 div 64 < n div 64 div 64" by (rule le_neq_implies_less)
      with lt top show thesis by blast
    qed
  qed
qed

lemma below_if_word: "t div 64 = n div 64 \<Longrightarrow> t mod 64 < n mod 64 \<Longrightarrow> t < n" for t n :: nat
  using div_mult_mod_eq [of t 64] div_mult_mod_eq [of n 64] by linarith

lemma below_if_div: "t div 64 < n div 64 \<Longrightarrow> t < n" for t n :: nat
  by (meson div_le_mono leI not_le)

lemma word_index: "unat (drop_bit 6 t :: u32) = unat t div 64" "unat (drop_bit 6 (drop_bit 6 t) :: u32) = unat t div 64 div 64"
  by (simp_all only: unat_drop6)

lemma tick_index:
  fixes tick :: u32
  assumes "bitmap_inv s" "unat tick < unat (band_ticks s)"
  shows "unat (drop_bit 6 tick) < length (occupancy s)"
    "unat (drop_bit 6 (drop_bit 6 tick)) < length (mid_summary s)"
proof -
  have "unat tick div 64 < length (occupancy s)"
    using assms(2) by (rule bitmap_lengths(4) [OF assms(1), THEN iffD1])
  then show w: "unat (drop_bit 6 tick) < length (occupancy s)"
    by (simp only: word_index)
  show "unat (drop_bit 6 (drop_bit 6 tick)) < length (mid_summary s)"
    using bitmap_lengths(3) [OF assms(1) w] by (simp only: word_index)
qed

lemma bit_masked_top:
  assumes "bitmap_inv s" "unat m < length (mid_summary s)"
  shows "bit (summary s AND mask_below m) i \<longleftrightarrow> bit (summary s) i \<and> i < unat m"
    "bit (summary s AND mask_above m) i \<longleftrightarrow> bit (summary s) i \<and> unat m < i"
  using assms(2) bitmap_lengths(2) [OF assms(1)] bit_imp_le_length [of "summary s" i]
  by (auto simp: bit_and_iff bit_mask_below bit_mask_above)

lemma bit_word_index: "bit (w AND mask_below (drop_bit 6 t AND 63)) i \<longleftrightarrow> bit w i \<and> i < unat t div 64 mod 64"
  "bit (w AND mask_above (drop_bit 6 t AND 63)) i \<longleftrightarrow> bit w i \<and> unat t div 64 mod 64 < i"
  using bit_masked_below [of w "drop_bit 6 t" i] bit_masked_above [of w "drop_bit 6 t" i]
  by (simp_all only: word_index)

text \<open>The three places the search below a tick looks, in order.\<close>

lemma below_in_word:
  assumes inv: "bitmap_inv s" and tick: "unat tick < unat (band_ticks s)"
    and r: "r = occupancy s ! unat (drop_bit 6 tick) AND mask_below (tick AND 63)" "r \<noteq> 0"
  shows "greatest_below s (unat tick) (unat (join_index (drop_bit 6 tick) (highest_bit r)))"
proof -
  have bits: "bit r i \<longleftrightarrow> bit (occupancy s ! unat (drop_bit 6 tick)) i \<and> i < unat tick mod 64" for i
    unfolding r(1) by (rule bit_masked_below)
  note sc = scan_word [OF inv tick_index(1) [OF inv tick] r(2) bits, unfolded word_index]
  let ?j = "unat (join_index (drop_bit 6 tick) (highest_bit r))"
  have "t \<le> ?j" if "occupied s t" "t < unat tick" for t
    using that(2)
  proof (cases rule: split_below)
    case word with sc(4) that(1) show ?thesis by blast
  qed (use below_if_div [of t ?j] sc(1) in linarith)+
  with sc(1-3) show ?thesis by (auto simp: greatest_below_def intro: below_if_word)
qed

lemma below_in_mid:
  assumes inv: "bitmap_inv s" and tick: "unat tick < unat (band_ticks s)"
    and r0: "occupancy s ! unat (drop_bit 6 tick) AND mask_below (tick AND 63) = 0"
    and r: "r = mid_summary s ! unat (drop_bit 6 (drop_bit 6 tick)) AND mask_below (drop_bit 6 tick AND 63)" "r \<noteq> 0"
    and w: "w = join_index (drop_bit 6 (drop_bit 6 tick)) (highest_bit r)"
  shows "greatest_below s (unat tick) (unat (join_index w (highest_bit (occupancy s ! unat w))))"
proof -
  have bits: "bit r i \<longleftrightarrow> bit (mid_summary s ! unat (drop_bit 6 (drop_bit 6 tick))) i \<and> i < unat tick div 64 mod 64" for i
    unfolding r(1) by (rule bit_word_index)
  note sm = scan_mid [OF inv tick_index(2) [OF inv tick] r(2) bits, folded w, unfolded word_index]
  note dw = descend_word [OF inv sm(2,3)]
  have "t div 64 \<le> unat w" if t: "occupied s t" "t < unat tick" for t
    using t(2)
  proof (cases rule: split_below)
    case word
    then have "bit (occupancy s ! unat (drop_bit 6 tick) AND mask_below (tick AND 63)) (t mod 64)"
      using t(1) by (simp only: bit_masked_below occupied_def word_index)
    with r0 show ?thesis by simp
  next
    case mid with sm(5) occupied_word(1,2) [OF inv t(1)] show ?thesis by blast
  next
    case top then show ?thesis using below_if_div [of "t div 64" "unat w"] sm(1) by linarith
  qed
  moreover have "unat w < unat tick div 64" using sm(1,4) by (auto intro: below_if_word)
  ultimately show ?thesis
    using dw(1-3) below_if_div [of _ "unat tick"] unfolding greatest_below_def by metis
qed

lemma below_in_top:
  assumes inv: "bitmap_inv s" and tick: "unat tick < unat (band_ticks s)"
    and r0: "occupancy s ! unat (drop_bit 6 tick) AND mask_below (tick AND 63) = 0"
    and r1: "mid_summary s ! unat (drop_bit 6 (drop_bit 6 tick)) AND mask_below (drop_bit 6 tick AND 63) = 0"
    and t: "occupied s t" "t < unat tick"
  shows "t div 64 < unat tick div 64"
    "bit (summary s AND mask_below (drop_bit 6 (drop_bit 6 tick))) (t div 64 div 64)"
proof -
  have "t div 64 < unat tick div 64 \<and> t div 64 div 64 < unat tick div 64 div 64"
    using t(2)
  proof (cases rule: split_below)
    case word
    then have "bit (occupancy s ! unat (drop_bit 6 tick) AND mask_below (tick AND 63)) (t mod 64)"
      using t(1) by (simp only: bit_masked_below occupied_def word_index)
    with r0 show ?thesis by simp
  next
    case mid
    then have "bit (mid_summary s ! unat (drop_bit 6 (drop_bit 6 tick)) AND mask_below (drop_bit 6 tick AND 63)) (t div 64 mod 64)"
      using occupied_word(3) [OF inv t(1)] by (simp only: bit_word_index word_index)
    with r1 show ?thesis by simp
  qed simp
  then show "t div 64 < unat tick div 64"
    "bit (summary s AND mask_below (drop_bit 6 (drop_bit 6 tick))) (t div 64 div 64)"
    using occupied_word(5) [OF inv t(1)] bit_masked_top(1) [OF inv tick_index(2) [OF inv tick]]
    by (simp_all only: word_index)
qed

lemma highest_occupied_below_spec:
  assumes inv: "bitmap_inv s" and tick: "unat tick < unat (band_ticks s)"
  shows "highest_occupied_below tick s = band_ticks s \<and> (\<forall>t. occupied s t \<longrightarrow> \<not> t < unat tick) \<or>
    greatest_below s (unat tick) (unat (highest_occupied_below tick s))"
proof -
  define m where "m = drop_bit 6 (drop_bit 6 tick)"
  define r1 where "r1 = occupancy s ! unat (drop_bit 6 tick) AND mask_below (tick AND 63)"
  define r2 where "r2 = mid_summary s ! unat m AND mask_below (drop_bit 6 tick AND 63)"
  define r3 where "r3 = summary s AND mask_below m"
  consider (none) "summary s = 0 \<or> tick = 0"
    | (word) "summary s \<noteq> 0" "tick \<noteq> 0" "r1 \<noteq> 0"
    | (mid) "summary s \<noteq> 0" "tick \<noteq> 0" "r1 = 0" "r2 \<noteq> 0"
    | (top) "summary s \<noteq> 0" "tick \<noteq> 0" "r1 = 0" "r2 = 0" by blast
  then show ?thesis
  proof cases
    case none then show ?thesis
      using summary_zero_iff [OF inv] by (auto simp: highest_occupied_below_def)
  next
    case word then show ?thesis
      using below_in_word [OF inv tick r1_def]
      by (simp add: highest_occupied_below_def Let_def flip: r1_def del: drop_bit_drop_bit)
  next
    case mid then show ?thesis
      using below_in_mid [OF inv tick _ _ _ refl] unfolding m_def r1_def r2_def
      by (simp add: highest_occupied_below_def Let_def del: drop_bit_drop_bit)
  next
    case top
    note bt = below_in_top [OF inv tick, folded m_def, folded r1_def r2_def r3_def, OF top(3,4)]
    show ?thesis
    proof (cases "r3 = 0")
      case True
      then have "\<forall>t. occupied s t \<longrightarrow> \<not> t < unat tick" using bt(2) by auto
      moreover have "highest_occupied_below tick s = band_ticks s"
        using top True by (simp add: highest_occupied_below_def Let_def flip: m_def r1_def r2_def r3_def del: drop_bit_drop_bit)
      ultimately show ?thesis by blast
    next
      case False
      define w where "w = join_index (highest_bit r3) (highest_bit (mid_summary s ! unat (highest_bit r3)))"
      have hm: "unat (highest_bit r3) < unat m" "unat (highest_bit r3) < length (mid_summary s)"
        "mid_summary s ! unat (highest_bit r3) \<noteq> 0"
        using highest_bit_spec(2) [OF False] bit_masked_top(1) [OF inv tick_index(2) [OF inv tick], folded m_def]
          bitmap_invD(6) [OF inv] by (auto simp: r3_def)
      note dm = descend_mid [OF inv hm(2,3), folded w_def]
      note dw = descend_word [OF inv dm(1,2)]
      have "unat w div 64 < unat tick div 64 div 64"
        using dm(3) hm(1) by (simp only: m_def word_index)
      then have "unat w < unat tick div 64" by (rule below_if_div)
      then have "greatest_below s (unat tick) (unat (join_index w (highest_bit (occupancy s ! unat w))))"
        using dw(1-3) dm(4) bt(2) highest_bit_spec(3) [OF False] below_if_div [of _ "unat tick"]
        unfolding greatest_below_def by metis
      moreover have "highest_occupied_below tick s = join_index w (highest_bit (occupancy s ! unat w))"
        using top False by (simp add: highest_occupied_below_def Let_def w_def flip: m_def r1_def r2_def r3_def del: drop_bit_drop_bit)
      ultimately show ?thesis by simp
    qed
  qed
qed


lemma split_above:
  fixes t n :: nat
  assumes "n < t"
  obtains (word) "t div 64 = n div 64" "n mod 64 < t mod 64"
    | (mid) "n div 64 < t div 64" "t div 64 div 64 = n div 64 div 64" "n div 64 mod 64 < t div 64 mod 64"
    | (top) "n div 64 < t div 64" "n div 64 div 64 < t div 64 div 64"
  using assms by (rule split_below) (metis that)+

lemma above_if_word: "t div 64 = n div 64 \<Longrightarrow> n mod 64 < t mod 64 \<Longrightarrow> n < t" for t n :: nat
  by (rule below_if_word) simp_all

lemmas above_if_div = below_if_div

text \<open>The same three places for the search above a tick.\<close>

lemma above_in_word:
  assumes inv: "bitmap_inv s" and tick: "unat tick < unat (band_ticks s)"
    and r: "r = occupancy s ! unat (drop_bit 6 tick) AND mask_above (tick AND 63)" "r \<noteq> 0"
  shows "least_above s (unat tick) (unat (join_index (drop_bit 6 tick) (lowest_bit r)))"
proof -
  have bits: "bit r i \<longleftrightarrow> bit (occupancy s ! unat (drop_bit 6 tick)) i \<and> unat tick mod 64 < i" for i
    unfolding r(1) by (rule bit_masked_above)
  note sc = scan_word [OF inv tick_index(1) [OF inv tick] r(2) bits, unfolded word_index]
  let ?j = "unat (join_index (drop_bit 6 tick) (lowest_bit r))"
  have "?j \<le> t" if "occupied s t" "unat tick < t" for t
    using that(2)
  proof (cases rule: split_above)
    case word with sc(8) that(1) show ?thesis by blast
  qed (use above_if_div [of ?j t] sc(5) in linarith)+
  with sc(5-7) show ?thesis by (auto simp: least_above_def intro: above_if_word)
qed

lemma above_in_mid:
  assumes inv: "bitmap_inv s" and tick: "unat tick < unat (band_ticks s)"
    and r0: "occupancy s ! unat (drop_bit 6 tick) AND mask_above (tick AND 63) = 0"
    and r: "r = mid_summary s ! unat (drop_bit 6 (drop_bit 6 tick)) AND mask_above (drop_bit 6 tick AND 63)" "r \<noteq> 0"
    and w: "w = join_index (drop_bit 6 (drop_bit 6 tick)) (lowest_bit r)"
  shows "least_above s (unat tick) (unat (join_index w (lowest_bit (occupancy s ! unat w))))"
proof -
  have bits: "bit r i \<longleftrightarrow> bit (mid_summary s ! unat (drop_bit 6 (drop_bit 6 tick))) i \<and> unat tick div 64 mod 64 < i" for i
    unfolding r(1) by (rule bit_word_index)
  note sm = scan_mid [OF inv tick_index(2) [OF inv tick] r(2) bits, folded w, unfolded word_index]
  note dw = descend_word [OF inv sm(7,8)]
  have "unat w \<le> t div 64" if t: "occupied s t" "unat tick < t" for t
    using t(2)
  proof (cases rule: split_above)
    case word
    then have "bit (occupancy s ! unat (drop_bit 6 tick) AND mask_above (tick AND 63)) (t mod 64)"
      using t(1) by (simp only: bit_masked_above occupied_def word_index)
    with r0 show ?thesis by simp
  next
    case mid with sm(10) occupied_word(1,2) [OF inv t(1)] show ?thesis by blast
  next
    case top then show ?thesis using above_if_div [of "unat w" "t div 64"] sm(6) by linarith
  qed
  moreover have "unat tick div 64 < unat w" using sm(6,9) by (auto intro: above_if_word)
  ultimately show ?thesis
    using dw(4-6) above_if_div [of "unat tick"] unfolding least_above_def by metis
qed

lemma above_in_top:
  assumes inv: "bitmap_inv s" and tick: "unat tick < unat (band_ticks s)"
    and r0: "occupancy s ! unat (drop_bit 6 tick) AND mask_above (tick AND 63) = 0"
    and r1: "mid_summary s ! unat (drop_bit 6 (drop_bit 6 tick)) AND mask_above (drop_bit 6 tick AND 63) = 0"
    and t: "occupied s t" "unat tick < t"
  shows "unat tick div 64 < t div 64"
    "bit (summary s AND mask_above (drop_bit 6 (drop_bit 6 tick))) (t div 64 div 64)"
proof -
  have "unat tick div 64 < t div 64 \<and> unat tick div 64 div 64 < t div 64 div 64"
    using t(2)
  proof (cases rule: split_above)
    case word
    then have "bit (occupancy s ! unat (drop_bit 6 tick) AND mask_above (tick AND 63)) (t mod 64)"
      using t(1) by (simp only: bit_masked_above occupied_def word_index)
    with r0 show ?thesis by simp
  next
    case mid
    then have "bit (mid_summary s ! unat (drop_bit 6 (drop_bit 6 tick)) AND mask_above (drop_bit 6 tick AND 63)) (t div 64 mod 64)"
      using occupied_word(3) [OF inv t(1)] by (simp only: bit_word_index word_index)
    with r1 show ?thesis by simp
  qed simp
  then show "unat tick div 64 < t div 64"
    "bit (summary s AND mask_above (drop_bit 6 (drop_bit 6 tick))) (t div 64 div 64)"
    using occupied_word(5) [OF inv t(1)] bit_masked_top(2) [OF inv tick_index(2) [OF inv tick]]
    by (simp_all only: word_index)
qed

lemma lowest_occupied_above_spec:
  assumes inv: "bitmap_inv s" and tick: "unat tick < unat (band_ticks s)"
  shows "lowest_occupied_above tick s = band_ticks s \<and> (\<forall>t. occupied s t \<longrightarrow> \<not> unat tick < t) \<or>
    least_above s (unat tick) (unat (lowest_occupied_above tick s))"
proof -
  define m where "m = drop_bit 6 (drop_bit 6 tick)"
  define r1 where "r1 = occupancy s ! unat (drop_bit 6 tick) AND mask_above (tick AND 63)"
  define r2 where "r2 = mid_summary s ! unat m AND mask_above (drop_bit 6 tick AND 63)"
  define r3 where "r3 = summary s AND mask_above m"
  consider (none) "summary s = 0 \<or> band_ticks s \<le> tick + 1"
    | (word) "summary s \<noteq> 0" "\<not> band_ticks s \<le> tick + 1" "r1 \<noteq> 0"
    | (mid) "summary s \<noteq> 0" "\<not> band_ticks s \<le> tick + 1" "r1 = 0" "r2 \<noteq> 0"
    | (top) "summary s \<noteq> 0" "\<not> band_ticks s \<le> tick + 1" "r1 = 0" "r2 = 0" by blast
  then show ?thesis
  proof cases
    case none
    have "\<not> unat tick < t" if "band_ticks s \<le> tick + 1" "occupied s t" for t
    proof -
      have "unat (tick + 1) = unat tick + 1"
        using tick bitmap_invD(1) [OF inv] by (simp add: unat_word_ariths)
      then show ?thesis using that by (simp add: occupied_def word_le_nat_alt)
    qed
    with none show ?thesis
      using summary_zero_iff [OF inv] by (auto simp: lowest_occupied_above_def)
  next
    case word then show ?thesis
      using above_in_word [OF inv tick r1_def]
      by (simp add: lowest_occupied_above_def Let_def flip: r1_def del: drop_bit_drop_bit)
  next
    case mid then show ?thesis
      using above_in_mid [OF inv tick _ _ _ refl] unfolding m_def r1_def r2_def
      by (simp add: lowest_occupied_above_def Let_def del: drop_bit_drop_bit)
  next
    case top
    note bt = above_in_top [OF inv tick, folded m_def, folded r1_def r2_def r3_def, OF top(3,4)]
    show ?thesis
    proof (cases "r3 = 0")
      case True
      then have "\<forall>t. occupied s t \<longrightarrow> \<not> unat tick < t" using bt(2) by auto
      moreover have "lowest_occupied_above tick s = band_ticks s"
        using top True by (simp add: lowest_occupied_above_def Let_def flip: m_def r1_def r2_def r3_def del: drop_bit_drop_bit)
      ultimately show ?thesis by blast
    next
      case False
      define w where "w = join_index (lowest_bit r3) (lowest_bit (mid_summary s ! unat (lowest_bit r3)))"
      have hm: "unat m < unat (lowest_bit r3)" "unat (lowest_bit r3) < length (mid_summary s)"
        "mid_summary s ! unat (lowest_bit r3) \<noteq> 0"
        using lowest_bit_spec(2) [OF False] bit_masked_top(2) [OF inv tick_index(2) [OF inv tick], folded m_def]
          bitmap_invD(6) [OF inv] by (auto simp: r3_def)
      note dm = descend_mid [OF inv hm(2,3), folded w_def]
      note dw = descend_word [OF inv dm(5,6)]
      have "unat tick div 64 div 64 < unat w div 64"
        using dm(7) hm(1) by (simp only: m_def word_index)
      then have "unat tick div 64 < unat w" by (rule above_if_div)
      then have "least_above s (unat tick) (unat (join_index w (lowest_bit (occupancy s ! unat w))))"
        using dw(4-6) dm(8) bt(2) lowest_bit_spec(3) [OF False] above_if_div [of "unat tick"]
        unfolding least_above_def by metis
      moreover have "lowest_occupied_above tick s = join_index w (lowest_bit (occupancy s ! unat w))"
        using top False by (simp add: lowest_occupied_above_def Let_def w_def flip: m_def r1_def r2_def r3_def del: drop_bit_drop_bit)
      ultimately show ?thesis by simp
    qed
  qed
qed


section \<open>Setting and clearing a tick\<close>

lemma bit_or_single: "n < 64 \<Longrightarrow> bit (w OR 2 ^ n :: u64) i \<longleftrightarrow> bit w i \<or> i = n"
  by (auto simp: bit_simps)

lemma bit_and_not_single: "n < 64 \<Longrightarrow> bit (w AND NOT (2 ^ n) :: u64) i \<longleftrightarrow> bit w i \<and> i \<noteq> n"
  using bit_imp_le_length [of w i] by (auto simp: bit_simps)

lemma or_single_neq_0: "n < 64 \<Longrightarrow> (w OR 2 ^ n :: u64) \<noteq> 0"
  using bit_or_single [of n w n] by auto

lemma mod64_less: "n mod 64 < (64::nat)"
  by simp

lemma is_occupied_iff:
  assumes "bitmap_inv s" "unat tick < unat (band_ticks s)"
  shows "is_occupied tick s \<longleftrightarrow> occupied s (unat tick)"
proof -
  have "(w AND push_bit n 1 \<noteq> 0) \<longleftrightarrow> bit w n" if "n < 64" for w :: u64 and n
  proof -
    have "bit (w AND push_bit n 1) i \<longleftrightarrow> bit w n \<and> i = n" for i
      using that by (auto simp: bit_simps)
    then show ?thesis unfolding word_neq_0_bit using that by blast
  qed
  from this [OF mod64_less] show ?thesis
    using assms(2) by (simp only: is_occupied_def occupied_def word_index unat_and63 simp_thms)
qed

lemma set_occupied_simps [simp]:
  "band_ticks (set_occupied tick s) = band_ticks s"
  "length (occupancy (set_occupied tick s)) = length (occupancy s)"
  "length (mid_summary (set_occupied tick s)) = length (mid_summary s)"
  "TickBitmap.more (set_occupied tick s) = TickBitmap.more s"
  by (simp_all add: set_occupied_def Let_def)

lemma clear_occupied_simps [simp]:
  "band_ticks (clear_occupied tick s) = band_ticks s"
  "length (occupancy (clear_occupied tick s)) = length (occupancy s)"
  "length (mid_summary (clear_occupied tick s)) = length (mid_summary s)"
  "TickBitmap.more (clear_occupied tick s) = TickBitmap.more s"
  by (simp_all add: clear_occupied_def Let_def)

lemma div_mod_64_eq: "a div 64 = b div 64 \<Longrightarrow> a mod 64 = b mod 64 \<Longrightarrow> a = b" for a b :: nat
  by (metis div_mult_mod_eq)

lemma occupancy_set_occupied:
  assumes "bitmap_inv s" "unat tick < unat (band_ticks s)"
  shows "occupancy (set_occupied tick s) =
      (occupancy s)[unat tick div 64 := occupancy s ! (unat tick div 64) OR push_bit (unat tick mod 64) 1]"
    "mid_summary (set_occupied tick s) = (mid_summary s)[unat tick div 64 div 64 :=
        mid_summary s ! (unat tick div 64 div 64) OR push_bit (unat tick div 64 mod 64) 1]"
    "summary (set_occupied tick s) = summary s OR push_bit (unat tick div 64 div 64) 1"
  by (simp_all only: set_occupied_def Let_def word_index unat_and63) simp_all

lemma occupied_set_occupied:
  assumes "bitmap_inv s" "unat tick < unat (band_ticks s)"
  shows "occupied (set_occupied tick s) t \<longleftrightarrow> occupied s t \<or> t = unat tick"
proof (cases "t div 64 = unat tick div 64")
  case True
  have "unat tick div 64 < length (occupancy s)" using tick_index(1) [OF assms] by (simp only: word_index)
  then show ?thesis
    using True assms(2) div_mod_64_eq [of t "unat tick"]
    by (auto simp: occupied_def occupancy_set_occupied [OF assms] bit_or_single)
qed (auto simp: occupied_def occupancy_set_occupied [OF assms])


lemma bitmap_inv_set_occupied:
  assumes inv: "bitmap_inv s" and tick: "unat tick < unat (band_ticks s)"
  shows "bitmap_inv (set_occupied tick s)"
proof -
  let ?w = "unat tick div 64" and ?m = "unat tick div 64 div 64"
  note oc = occupancy_set_occupied [OF assms]
  have wl: "?w < length (occupancy s)" and ml: "?m < length (mid_summary s)"
    using tick_index [OF assms] by (simp_all only: word_index)
  have m64: "?m < 64" using ml bitmap_lengths(2) [OF inv] by simp
  have "bit (mid_summary (set_occupied tick s) ! (w div 64)) (w mod 64) \<longleftrightarrow> occupancy (set_occupied tick s) ! w \<noteq> 0"
    if w: "w < length (occupancy s)" for w
    using bitmap_invD(4) [OF inv w] w wl bitmap_lengths(3) [OF inv w] div_mod_64_eq [of w ?w]
    by (cases "w div 64 = ?m"; cases "w = ?w"; cases "w mod 64 = ?w mod 64")
      (simp_all add: oc nth_list_update bit_or_single or_single_neq_0)
  moreover have "m * 64 + i < length (occupancy s)"
    if "m < length (mid_summary s)" "bit (mid_summary (set_occupied tick s) ! m) i" for m i
  proof (cases "m = ?m \<and> i = ?w mod 64")
    case True with wl show ?thesis by (metis div_mult_mod_eq)
  next
    case False
    with that ml have "bit (mid_summary s ! m) i"
      by (auto simp: oc nth_list_update bit_or_single split: if_splits)
    with that(1) show ?thesis by (rule bitmap_invD(5) [OF inv])
  qed
  moreover have "bit (summary (set_occupied tick s)) m \<longleftrightarrow>
      m < length (mid_summary s) \<and> mid_summary (set_occupied tick s) ! m \<noteq> 0" for m
    using bitmap_invD(6) [OF inv, of m] ml m64
    by (cases "m = ?m") (auto simp: oc nth_list_update bit_or_single or_single_neq_0)
  ultimately show ?thesis
    using bitmap_invD(1-3) [OF inv] by (simp add: bitmap_inv_def)
qed

definition cleared_word :: "u64 \<Rightarrow> nat \<Rightarrow> u64" where
  "cleared_word w n = w AND NOT (2 ^ n)"

lemma bit_cleared_word: "n < 64 \<Longrightarrow> bit (cleared_word w n) i \<longleftrightarrow> bit w i \<and> i \<noteq> n"
  unfolding cleared_word_def by (rule bit_and_not_single)

lemma occupancy_clear_occupied:
  assumes "bitmap_inv s" "unat tick < unat (band_ticks s)"
  defines "w \<equiv> unat tick div 64" and "m \<equiv> unat tick div 64 div 64"
  defines "ow \<equiv> cleared_word (occupancy s ! w) (unat tick mod 64)"
    and "mw \<equiv> cleared_word (mid_summary s ! m) (w mod 64)"
  shows "occupancy (clear_occupied tick s) = (occupancy s)[w := ow]"
    "mid_summary (clear_occupied tick s) = (if ow \<noteq> 0 then mid_summary s else (mid_summary s)[m := mw])"
    "summary (clear_occupied tick s) =
       (if ow \<noteq> 0 \<or> mw \<noteq> 0 then summary s else cleared_word (summary s) m)"
  unfolding clear_occupied_def Let_def ow_def mw_def w_def m_def cleared_word_def
  by (simp_all only: word_index unat_and63) simp_all

lemma occupied_clear_occupied:
  assumes "bitmap_inv s" "unat tick < unat (band_ticks s)"
  shows "occupied (clear_occupied tick s) t \<longleftrightarrow> occupied s t \<and> t \<noteq> unat tick"
proof (cases "t div 64 = unat tick div 64")
  case True
  have "unat tick div 64 < length (occupancy s)" using tick_index(1) [OF assms] by (simp only: word_index)
  then show ?thesis
    using True assms(2) div_mod_64_eq [of t "unat tick"]
    by (auto simp: occupied_def occupancy_clear_occupied(1) [OF assms] bit_cleared_word)
qed (auto simp: occupied_def occupancy_clear_occupied(1) [OF assms])

lemma bitmap_inv_clear_occupied:
  assumes inv: "bitmap_inv s" and tick: "unat tick < unat (band_ticks s)"
  shows "bitmap_inv (clear_occupied tick s)"
proof -
  let ?w = "unat tick div 64" and ?m = "unat tick div 64 div 64"
  let ?ow = "cleared_word (occupancy s ! ?w) (unat tick mod 64)"
  let ?mw = "cleared_word (mid_summary s ! ?m) (?w mod 64)"
  note oc = occupancy_clear_occupied [OF assms]
  have wl: "?w < length (occupancy s)" and ml: "?m < length (mid_summary s)"
    using tick_index [OF assms] by (simp_all only: word_index)
  have m64: "?m < 64" using ml bitmap_lengths(2) [OF inv] by simp
  have mid: "bit (mid_summary (clear_occupied tick s) ! m) i \<longleftrightarrow>
      bit (mid_summary s ! m) i \<and> \<not> (?ow = 0 \<and> m = ?m \<and> i = ?w mod 64)"
    if "m < length (mid_summary s)" for m i
    using that ml by (auto simp: oc nth_list_update bit_cleared_word)
  have owz: "?ow \<noteq> 0 \<Longrightarrow> occupancy s ! ?w \<noteq> 0"
    by (auto simp: word_neq_0_bit bit_cleared_word)
  have "bit (mid_summary (clear_occupied tick s) ! (w div 64)) (w mod 64) \<longleftrightarrow> occupancy (clear_occupied tick s) ! w \<noteq> 0"
    if w: "w < length (occupancy s)" for w
    using bitmap_invD(4) [OF inv w] w wl mid [OF bitmap_lengths(3) [OF inv w]] div_mod_64_eq [of w ?w] owz
    by (cases "w = ?w") (auto simp: oc(1) nth_list_update)
  moreover have "m * 64 + i < length (occupancy s)"
    if "m < length (mid_summary s)" "bit (mid_summary (clear_occupied tick s) ! m) i" for m i
    using that mid bitmap_invD(5) [OF inv] by blast
  moreover have "bit (summary (clear_occupied tick s)) m \<longleftrightarrow>
      m < length (mid_summary s) \<and> mid_summary (clear_occupied tick s) ! m \<noteq> 0" for m
  proof -
    have "?mw \<noteq> 0 \<Longrightarrow> mid_summary s ! ?m \<noteq> 0"
      by (auto simp: word_neq_0_bit bit_cleared_word)
    then show ?thesis
      using bitmap_invD(6) [OF inv, of m] ml m64
      by (cases "m = ?m"; cases "?ow = 0") (auto simp: oc(2,3) nth_list_update bit_cleared_word)
  qed
  ultimately show ?thesis
    using bitmap_invD(1-3) [OF inv] by (simp add: bitmap_inv_def)
qed

section \<open>Properties\<close>

text \<open>
  The two searches of the tick bitmap that start from a tick: \<open>highest_occupied_below\<close> and
  \<open>lowest_occupied_above\<close> return the nearest occupied tick strictly below and strictly above, and the
  width of the band when there is none. The two summary levels never hide an occupied tick.
\<close>

theorem nearest_occupied_tick:
  assumes "bitmap_inv s" "unat tick < unat (band_ticks s)"
  shows "unat (highest_occupied_below tick s) =
      (if \<exists>t < unat tick. occupied s t then Max {t. occupied s t \<and> t < unat tick} else unat (band_ticks s)) \<and>
    unat (lowest_occupied_above tick s) =
      (if \<exists>t. unat tick < t \<and> occupied s t then Min {t. occupied s t \<and> unat tick < t} else unat (band_ticks s))"
proof -
  have fin: "finite {t. occupied s t \<and> P t}" for P
    by (rule finite_subset [of _ "{..<unat (band_ticks s)}"]) (auto simp: occupied_def)
  have "unat (highest_occupied_below tick s) =
      (if \<exists>t < unat tick. occupied s t then Max {t. occupied s t \<and> t < unat tick} else unat (band_ticks s))"
    using highest_occupied_below_spec [OF assms]
    by (auto simp: greatest_below_def intro!: Max_eqI [symmetric] fin)
  moreover have "unat (lowest_occupied_above tick s) =
      (if \<exists>t. unat tick < t \<and> occupied s t then Min {t. occupied s t \<and> unat tick < t} else unat (band_ticks s))"
    using lowest_occupied_above_spec [OF assms]
    by (auto simp: least_above_def intro!: Min_eqI [symmetric] fin)
  ultimately show ?thesis by blast
qed

text \<open>A band of 128 ticks with ticks 5 and 70 occupied.\<close>

definition sample_bitmap :: TickBitmap where
  "sample_bitmap = set_occupied 70 (set_occupied 5
     \<lparr>band_ticks = 128, occupancy = [0, 0], mid_summary = [0], summary = 0\<rparr>)"

lemma sample_bitmap_inv: "bitmap_inv sample_bitmap" "band_ticks sample_bitmap = 128"
proof -
  let ?s = "\<lparr>band_ticks = 128, occupancy = [0, 0], mid_summary = [0], summary = 0\<rparr> :: TickBitmap"
  have "bitmap_inv ?s" by (auto simp: bitmap_inv_def less_Suc_eq) (metis neq0_conv nth_Cons_0)
  then have "bitmap_inv (set_occupied 5 ?s)" by (rule bitmap_inv_set_occupied) simp
  then show "bitmap_inv sample_bitmap" unfolding sample_bitmap_def by (rule bitmap_inv_set_occupied) simp
qed (simp add: sample_bitmap_def)

theorem nearest_occupied_tick_witness:
  "unat (highest_occupied_below 70 sample_bitmap) =
      (if \<exists>t < unat (70 :: u32). occupied sample_bitmap t
       then Max {t. occupied sample_bitmap t \<and> t < unat (70 :: u32)} else unat (band_ticks sample_bitmap)) \<and>
    unat (lowest_occupied_above 70 sample_bitmap) =
      (if \<exists>t. unat (70 :: u32) < t \<and> occupied sample_bitmap t
       then Min {t. occupied sample_bitmap t \<and> unat (70 :: u32) < t} else unat (band_ticks sample_bitmap))"
  by (rule nearest_occupied_tick [OF sample_bitmap_inv(1)]) (simp add: sample_bitmap_inv(2))

end
