(* ===== verification/SideIndex.thy ===== *)
theory SideIndex
  imports TickBitmap
begin

text \<open>
  \<open>MatchingBook::SideIndex\<close> of \<open>src/include/exchange/matching/matching_book.hpp\<close> and
  \<open>src/src/exchange/matching/matching_book.cpp\<close>: one side's price index, a tick ladder over a band
  plus a map for the prices outside it.

  The ladder array is \<open>None\<close> while \<open>ladder_\<close> is null; an entry that was allocated and never written
  is \<open>None\<close> too, so reading uninitialised memory is a failure of the model, not a default value.
  \<open>std::map<Price, LevelSlot>\<close> is an association list in ascending signed order. An operation whose
  precondition the C++ leaves to the caller (\<open>best_price\<close> on an empty side, \<open>level_at\<close> of a price
  with no level) returns \<open>None\<close> where the C++ would be undefined. A function that returns a reference
  to a level is split into the state change (\<open>level_for\<close>) and the read or write through the reference
  (\<open>level_at\<close>, \<open>store_level\<close>).
\<close>

section \<open>Levels and the overflow map\<close>

record LevelSlot =
  ls_head :: u32
  ls_tail :: u32

definition kNil :: u32 where
  "kNil = NOT 0"

definition empty_level :: LevelSlot where
  "empty_level = \<lparr>ls_head = kNil, ls_tail = kNil\<rparr>"

text \<open>The operations of \<open>std::map\<close> the index uses.\<close>

fun map_put :: "Price \<Rightarrow> 'v \<Rightarrow> (Price \<times> 'v) list \<Rightarrow> (Price \<times> 'v) list" where
  "map_put p v [] = [(p, v)]"
| "map_put p v ((q, w) # xs) =
     (if sless p q then (p, v) # (q, w) # xs
      else if p = q then (p, v) # xs
      else (q, w) # map_put p v xs)"

definition map_index :: "Price \<Rightarrow> 'v \<Rightarrow> (Price \<times> 'v) list \<Rightarrow> (Price \<times> 'v) list" where
  \<comment> \<open>\<open>m[p]\<close>: inserts the default-constructed value if the key is absent\<close>
  "map_index p default_value xs = (case map_of xs p of None \<Rightarrow> map_put p default_value xs | Some _ \<Rightarrow> xs)"

definition map_erase :: "Price \<Rightarrow> (Price \<times> 'v) list \<Rightarrow> (Price \<times> 'v) list" where
  "map_erase p xs = filter (\<lambda>e. fst e \<noteq> p) xs"

definition map_first_key :: "(Price \<times> 'v) list \<Rightarrow> Price option" where
  \<comment> \<open>\<open>m.begin()->first\<close>\<close>
  "map_first_key xs = (case xs of [] \<Rightarrow> None | e # _ \<Rightarrow> Some (fst e))"

definition map_last_key :: "(Price \<times> 'v) list \<Rightarrow> Price option" where
  \<comment> \<open>\<open>std::prev(m.end())->first\<close>\<close>
  "map_last_key xs = (if xs = [] then None else Some (fst (last xs)))"

definition map_key_before :: "Price \<Rightarrow> (Price \<times> 'v) list \<Rightarrow> Price option" where
  \<comment> \<open>\<open>std::prev(m.lower_bound(p))->first\<close>, if the lower bound is not \<open>begin()\<close>\<close>
  "map_key_before p xs = map_last_key (takeWhile (\<lambda>e. sless (fst e) p) xs)"

definition map_key_after :: "Price \<Rightarrow> (Price \<times> 'v) list \<Rightarrow> Price option" where
  \<comment> \<open>\<open>m.upper_bound(p)->first\<close>, if the upper bound is not \<open>end()\<close>\<close>
  "map_key_after p xs = map_first_key (dropWhile (\<lambda>e. sle (fst e) p) xs)"

section \<open>The side index\<close>

record SideIndex = TickBitmap +
  si_side :: Side
  si_base :: Price
  si_anchored :: bool
  si_ladder :: "(u32 \<Rightarrow> LevelSlot option) option"
  si_overflow :: "(Price \<times> LevelSlot) list"

definition new_side_index :: "Side \<Rightarrow> u32 \<Rightarrow> SideIndex" where
  "new_side_index s band =
     \<lparr>band_ticks = band, occupancy = [], mid_summary = [], summary = 0, si_side = s, si_base = 0,
      si_anchored = False, si_ladder = None, si_overflow = []\<rparr>"

definition si_empty :: "SideIndex \<Rightarrow> bool" where
  "si_empty s \<longleftrightarrow> summary s = 0 \<and> si_overflow s = []"

definition in_band :: "Price \<Rightarrow> SideIndex \<Rightarrow> bool" where
  "in_band p s \<longleftrightarrow> si_anchored s \<and> p - si_base s < ucast (band_ticks s)"

definition tick_of :: "Price \<Rightarrow> SideIndex \<Rightarrow> u32" where
  "tick_of p s = ucast (p - si_base s)"

definition price_of :: "u32 \<Rightarrow> SideIndex \<Rightarrow> Price" where
  "price_of t s = si_base s + ucast t"

definition anchor :: "Price \<Rightarrow> SideIndex \<Rightarrow> SideIndex" where
  "anchor p s =
     (let s1 = s\<lparr>si_base := p - ucast (band_ticks s div 2), si_anchored := True\<rparr>
      in case si_ladder s1 of
           Some _ \<Rightarrow> s1
         | None \<Rightarrow> s1\<lparr>si_ladder := Some (\<lambda>_. None),
                    occupancy := replicate (words_for (band_ticks s)) 0,
                    mid_summary := replicate (words_for (word_of_nat (words_for (band_ticks s)))) 0\<rparr>)"

definition ladder_read :: "u32 \<Rightarrow> SideIndex \<Rightarrow> LevelSlot option" where
  "ladder_read t s = (case si_ladder s of None \<Rightarrow> None | Some a \<Rightarrow> a t)"

definition ladder_write :: "u32 \<Rightarrow> LevelSlot \<Rightarrow> SideIndex \<Rightarrow> SideIndex" where
  "ladder_write t l s =
     (case si_ladder s of None \<Rightarrow> s | Some a \<Rightarrow> s\<lparr>si_ladder := Some (a(t := Some l))\<rparr>)"

definition level_for :: "Price \<Rightarrow> SideIndex \<Rightarrow> SideIndex" where
  "level_for p s =
     (let s1 = (if band_ticks s \<noteq> 0 \<and> (\<not> si_anchored s \<or> si_empty s) then anchor p s else s)
      in if \<not> in_band p s1 then s1\<lparr>si_overflow := map_index p empty_level (si_overflow s1)\<rparr>
         else let t = tick_of p s1
              in if \<not> is_occupied t s1 then ladder_write t empty_level (set_occupied t s1) else s1)"

definition find_level :: "Price \<Rightarrow> SideIndex \<Rightarrow> LevelSlot option" where
  "find_level p s =
     (if in_band p s
      then let t = tick_of p s in if is_occupied t s then ladder_read t s else None
      else map_of (si_overflow s) p)"

definition erase_level :: "Price \<Rightarrow> SideIndex \<Rightarrow> SideIndex" where
  "erase_level p s =
     (if in_band p s then clear_occupied (tick_of p s) s
      else s\<lparr>si_overflow := map_erase p (si_overflow s)\<rparr>)"

definition level_at :: "Price \<Rightarrow> SideIndex \<Rightarrow> LevelSlot option" where
  "level_at p s = (if in_band p s then ladder_read (tick_of p s) s else map_of (si_overflow s) p)"

definition store_level :: "Price \<Rightarrow> LevelSlot \<Rightarrow> SideIndex \<Rightarrow> SideIndex" where
  \<comment> \<open>a write through the reference \<open>level_for\<close>, \<open>find_level\<close> or \<open>level_at\<close> returned\<close>
  "store_level p l s =
     (if in_band p s then ladder_write (tick_of p s) l s
      else s\<lparr>si_overflow := map_put p l (si_overflow s)\<rparr>)"

definition best_price :: "SideIndex \<Rightarrow> Price option" where
  "best_price s =
     (let t = (if si_side s = Buy then highest_occupied s else lowest_occupied s);
          spilled = (if si_side s = Buy then map_last_key (si_overflow s) else map_first_key (si_overflow s))
      in if t = band_ticks s then spilled
         else if si_overflow s = [] then Some (price_of t s)
         else case spilled of
                None \<Rightarrow> None
              | Some q \<Rightarrow>
                  let laddered = price_of t s
                  in if si_side s = Buy then Some (if sless q laddered then laddered else q)
                     else Some (if sless laddered q then laddered else q))"

definition next_price :: "Price \<Rightarrow> SideIndex \<Rightarrow> Price option" where
  "next_price p s =
     (let laddered =
        (if si_anchored s \<and> summary s \<noteq> 0
         then let first = si_base s;
                  last = si_base s + ucast (band_ticks s) - 1;
                  t = (if si_side s = Buy
                       then (if sless last p then highest_occupied s
                             else if sle p first then band_ticks s
                             else highest_occupied_below (tick_of p s) s)
                       else (if sless p first then lowest_occupied s
                             else if sle last p then band_ticks s
                             else lowest_occupied_above (tick_of p s) s))
              in if t \<noteq> band_ticks s then Some (price_of t s) else None
         else None);
        spilled =
          (if si_side s = Buy then map_key_before p (si_overflow s) else map_key_after p (si_overflow s))
      in case laddered of
           None \<Rightarrow> spilled
         | Some a \<Rightarrow>
             (case spilled of
                None \<Rightarrow> Some a
              | Some b \<Rightarrow> if si_side s = Buy then Some (if sless b a then a else b)
                         else Some (if sless a b then a else b)))"

section \<open>Prices and the band\<close>

text \<open>
  The prices the engine can rest without signed overflow in \<open>anchor\<close>, \<open>in_band\<close> and \<open>next_price\<close>:
  positive, and at least one full band short of the largest 64-bit value.
\<close>

definition price_ok :: "Price \<Rightarrow> bool" where
  "price_ok p \<longleftrightarrow> 0 < sint p \<and> sint p + 8192 < 2 ^ 63"

definition base_ok :: "SideIndex \<Rightarrow> bool" where
  "base_ok s \<longleftrightarrow> - 4096 < sint (si_base s) \<and> sint (si_base s) + int (unat (band_ticks s)) + 4096 < 2 ^ 63"

definition si_inv :: "SideIndex \<Rightarrow> bool" where
  "si_inv s \<longleftrightarrow>
     64 dvd unat (band_ticks s) \<and> unat (band_ticks s) \<le> 8192 \<and>
     sorted_wrt (\<lambda>a b. sless (fst a) (fst b)) (si_overflow s) \<and>
     (\<forall>p \<in> fst ` set (si_overflow s). \<not> in_band p s) \<and>
     (si_anchored s \<longrightarrow> 0 < unat (band_ticks s) \<and> bitmap_inv s \<and> base_ok s \<and>
        (\<exists>a. si_ladder s = Some a \<and> (\<forall>t. occupied s t \<longrightarrow> a (word_of_nat t) \<noteq> None))) \<and>
     (\<not> si_anchored s \<longrightarrow> summary s = 0 \<and> si_ladder s = None \<and>
        (band_ticks s \<noteq> 0 \<longrightarrow> si_overflow s = []))"

lemma si_invD:
  assumes "si_inv s"
  shows "64 dvd unat (band_ticks s)" "unat (band_ticks s) \<le> 8192"
    "sorted_wrt (\<lambda>a b. sless (fst a) (fst b)) (si_overflow s)"
    "p \<in> fst ` set (si_overflow s) \<Longrightarrow> \<not> in_band p s"
    "si_anchored s \<Longrightarrow> 0 < unat (band_ticks s)"
    "si_anchored s \<Longrightarrow> bitmap_inv s"
    "si_anchored s \<Longrightarrow> base_ok s"
    "\<not> si_anchored s \<Longrightarrow> summary s = 0"
    "\<not> si_anchored s \<Longrightarrow> band_ticks s \<noteq> 0 \<Longrightarrow> si_overflow s = []"
  using assms by (auto simp: si_inv_def)

lemma si_inv_ladder:
  assumes "si_inv s" "si_anchored s"
  obtains a where "si_ladder s = Some a" "\<And>t. occupied s t \<Longrightarrow> a (word_of_nat t) \<noteq> None"
  using assms unfolding si_inv_def by blast

text \<open>The bitmap does not see the fields the index adds, and its operations do not touch them.\<close>

lemma bitmap_frame [simp]:
  "bitmap_inv (si_overflow_update f s) = bitmap_inv s" "bitmap_inv (si_ladder_update g s) = bitmap_inv s"
  "occupied (si_overflow_update f s) = occupied s" "occupied (si_ladder_update g s) = occupied s"
  "is_occupied t (si_overflow_update f s) = is_occupied t s" "is_occupied t (si_ladder_update g s) = is_occupied t s"
  by (simp_all add: bitmap_inv_def occupied_def is_occupied_def fun_eq_iff)

lemma si_frame [simp]:
  "si_side (set_occupied t s) = si_side s" "si_side (clear_occupied t s) = si_side s"
  "si_base (set_occupied t s) = si_base s" "si_base (clear_occupied t s) = si_base s"
  "si_anchored (set_occupied t s) = si_anchored s" "si_anchored (clear_occupied t s) = si_anchored s"
  "si_ladder (set_occupied t s) = si_ladder s" "si_ladder (clear_occupied t s) = si_ladder s"
  "si_overflow (set_occupied t s) = si_overflow s" "si_overflow (clear_occupied t s) = si_overflow s"
  by (simp_all add: set_occupied_def clear_occupied_def Let_def)

lemma band_frame [simp]:
  "in_band p (set_occupied t s) = in_band p s" "in_band p (clear_occupied t s) = in_band p s"
  "in_band p (si_overflow_update f s) = in_band p s" "in_band p (si_ladder_update g s) = in_band p s"
  "tick_of p (set_occupied t s) = tick_of p s" "tick_of p (clear_occupied t s) = tick_of p s"
  "tick_of p (si_overflow_update f s) = tick_of p s" "tick_of p (si_ladder_update g s) = tick_of p s"
  "base_ok (set_occupied t s) = base_ok s" "base_ok (clear_occupied t s) = base_ok s"
  "base_ok (si_overflow_update f s) = base_ok s" "base_ok (si_ladder_update g s) = base_ok s"
  by (simp_all add: in_band_def tick_of_def base_ok_def)

lemma uint_minus_64:
  fixes a b :: i64
  shows "uint (a - b) = (sint a - sint b) mod 2 ^ 64"
proof -
  have "a - b = word_of_int (sint a - sint b)" by (simp add: wi_hom_syms)
  then show ?thesis by (simp only: uint_word_of_int) (simp add: take_bit_eq_mod)
qed

lemma in_band_iff:
  assumes "si_inv s" "si_anchored s"
  shows "in_band p s \<longleftrightarrow>
    sint (si_base s) \<le> sint p \<and> sint p < sint (si_base s) + int (unat (band_ticks s))"
proof -
  let ?d = "sint p - sint (si_base s)"
  have b: "- 4096 < sint (si_base s)" "sint (si_base s) + int (unat (band_ticks s)) + 4096 < 2 ^ 63"
    using si_invD(7) [OF assms] by (auto simp: base_ok_def)
  have n: "int (unat (band_ticks s)) \<le> 8192" using si_invD(2) [OF assms(1)] by linarith
  note pb = sint_bounds_64 [of p]
  have "in_band p s \<longleftrightarrow> uint (p - si_base s) < int (unat (band_ticks s))"
    using assms(2) by (simp add: in_band_def word_less_nat_alt unat_ucast_32_64) (simp only: uint_nat of_nat_less_iff)
  also have "\<dots> \<longleftrightarrow> ?d mod 2 ^ 64 < int (unat (band_ticks s))" by (simp only: uint_minus_64)
  also have "\<dots> \<longleftrightarrow> 0 \<le> ?d \<and> ?d < int (unat (band_ticks s))"
  proof (cases "0 \<le> ?d")
    case True
    moreover have "?d < 2 ^ 64" using b pb unfolding int_pows by linarith
    ultimately show ?thesis by simp
  next
    case False
    have "?d mod 2 ^ 64 = (?d + 2 ^ 64) mod 2 ^ 64" by simp
    also have "\<dots> = ?d + 2 ^ 64" by (rule mod_pos_pos_trivial) (use False b pb in \<open>unfold int_pows; linarith\<close>)+
    finally have "?d mod 2 ^ 64 = ?d + 2 ^ 64" .
    moreover have "int (unat (band_ticks s)) \<le> ?d + 2 ^ 64" using b pb unfolding int_pows by linarith
    ultimately show ?thesis using False by linarith
  qed
  finally show ?thesis by (simp add: algebra_simps)
qed

lemma unat_tick_of:
  assumes "si_inv s" "in_band p s"
  shows "int (unat (tick_of p s)) = sint p - sint (si_base s)" "unat (tick_of p s) < unat (band_ticks s)"
proof -
  have anch: "si_anchored s" using assms(2) by (simp add: in_band_def)
  note ib = in_band_iff [OF assms(1) anch, of p, THEN iffD1, OF assms(2)]
  have n: "int (unat (band_ticks s)) \<le> 8192" using si_invD(2) [OF assms(1)] by linarith
  have u: "uint (p - si_base s) = sint p - sint (si_base s)"
    unfolding uint_minus_64 using ib n by (intro mod_pos_pos_trivial) (unfold int_pows, linarith+)
  have "uint (tick_of p s) = uint (p - si_base s) mod 2 ^ 32"
    by (simp add: tick_of_def unsigned_ucast_eq take_bit_eq_mod)
  also have "\<dots> = sint p - sint (si_base s)"
    unfolding u using ib n by (intro mod_pos_pos_trivial) (unfold int_pows, linarith+)
  finally show *: "int (unat (tick_of p s)) = sint p - sint (si_base s)" by (simp add: of_nat_unat)
  show "unat (tick_of p s) < unat (band_ticks s)" using ib * by linarith
qed

lemma sint_price_of:
  assumes "si_inv s" "si_anchored s" "unat t < unat (band_ticks s)"
  shows "sint (price_of t s) = sint (si_base s) + int (unat t)"
proof -
  have b: "- 4096 < sint (si_base s)" "sint (si_base s) + int (unat (band_ticks s)) + 4096 < 2 ^ 63"
    using si_invD(7) [OF assms(1,2)] by (auto simp: base_ok_def)
  have n: "unat (band_ticks s) \<le> 8192" using si_invD(2) [OF assms(1)] .
  have ut: "unat (ucast t :: u64) = unat t" by (simp add: unat_ucast_32_64)
  have "unat t < 8192" using assms(3) n by linarith
  then have "unat (ucast t :: u64) < 2 ^ 63" unfolding ut by simp
  from sint_eq_unat_64 [OF this] have st: "sint (ucast t :: i64) = int (unat t)" unfolding ut .
  have "sint (si_base s + ucast t) = sint (si_base s) + sint (ucast t :: i64)"
    by (rule sint_plus_64) (use st b assms(3) in \<open>unfold int_pows; linarith\<close>)+
  then show ?thesis by (simp add: price_of_def st)
qed

lemma price_of_in_band:
  assumes "si_inv s" "si_anchored s" "unat t < unat (band_ticks s)"
  shows "in_band (price_of t s) s" "tick_of (price_of t s) s = t"
proof -
  show ib: "in_band (price_of t s) s"
    using assms(3) unfolding in_band_iff [OF assms(1,2)] sint_price_of [OF assms] by linarith
  have "int (unat (tick_of (price_of t s) s)) = int (unat t)"
    using unat_tick_of(1) [OF assms(1) ib] sint_price_of [OF assms] by linarith
  then show "tick_of (price_of t s) s = t" by (simp only: of_nat_eq_iff word_unat_eq_iff)
qed

lemma price_of_tick_of:
  assumes "si_inv s" "in_band p s"
  shows "price_of (tick_of p s) s = p"
proof -
  have anch: "si_anchored s" using assms(2) by (simp add: in_band_def)
  note t = unat_tick_of [OF assms]
  have "sint (price_of (tick_of p s) s) = sint p" using sint_price_of [OF assms(1) anch t(2)] t(1) by linarith
  then show ?thesis by (simp only: sint_eq_iff_64)
qed


section \<open>Price priority\<close>

definition prio :: "Side \<Rightarrow> Price \<Rightarrow> int" where
  "prio sd p = (if sd = Buy then - sint p else sint p)"

lemma prio_eq_iff [simp]: "prio sd p = prio sd q \<longleftrightarrow> p = q"
  by (simp add: prio_def sint_eq_iff_64)

definition best_in :: "Side \<Rightarrow> Price set \<Rightarrow> Price option \<Rightarrow> bool" where
  "best_in sd D r \<longleftrightarrow>
     (case r of None \<Rightarrow> D = {} | Some k \<Rightarrow> k \<in> D \<and> (\<forall>q \<in> D. prio sd k \<le> prio sd q))"

definition merge_best :: "Side \<Rightarrow> Price option \<Rightarrow> Price option \<Rightarrow> Price option" where
  "merge_best sd a b =
     (case a of None \<Rightarrow> b
      | Some x \<Rightarrow> (case b of None \<Rightarrow> a | Some y \<Rightarrow> Some (if prio sd x < prio sd y then x else y)))"

lemma best_in_merge: "best_in sd A a \<Longrightarrow> best_in sd B b \<Longrightarrow> best_in sd (A \<union> B) (merge_best sd a b)"
  by (fastforce simp: best_in_def merge_best_def split: option.splits)

lemma best_in_unique: "best_in sd D a \<Longrightarrow> best_in sd D b \<Longrightarrow> a = b"
proof -
  have "x = y" if "best_in sd D (Some x)" "best_in sd D (Some y)" for x y
    using that by (auto simp: best_in_def intro: prio_eq_iff [of sd, THEN iffD1] antisym)
  then show "best_in sd D a \<Longrightarrow> best_in sd D b \<Longrightarrow> a = b"
    by (cases a; cases b) (auto simp: best_in_def)
qed

lemma best_in_None [simp]: "best_in sd D None \<longleftrightarrow> D = {}"
  by (simp add: best_in_def)

section \<open>The overflow map\<close>

abbreviation keys_sorted :: "(Price \<times> 'v) list \<Rightarrow> bool" where
  "keys_sorted xs \<equiv> sorted_wrt (\<lambda>a b. sless (fst a) (fst b)) xs"

abbreviation keys_of :: "(Price \<times> 'v) list \<Rightarrow> Price set" where
  "keys_of xs \<equiv> fst ` set xs"

lemma map_of_map_put [simp]: "map_of (map_put p v xs) q = (if q = p then Some v else map_of xs q)"
  by (induction p v xs rule: map_put.induct) auto

lemma keys_map_put [simp]: "keys_of (map_put p v xs) = insert p (keys_of xs)"
  by (induction p v xs rule: map_put.induct) auto

lemma sorted_map_put: "keys_sorted xs \<Longrightarrow> keys_sorted (map_put p v xs)"
proof (induction p v xs rule: map_put.induct)
  case (2 p v q w xs)
  have "keys_sorted (map_put p v xs)" if "\<not> sless p q" "p \<noteq> q" using 2 that by simp
  moreover have "sless q (fst e)" if "\<not> sless p q" "p \<noteq> q" "e \<in> set (map_put p v xs)" for e
  proof -
    have "fst e \<in> insert p (keys_of xs)" using that(3) keys_map_put [of p v xs] by (metis image_eqI)
    moreover have "sless q p" using that(1,2) sint_eq_iff_64 [of p q] by (auto simp: signed_cmp)
    ultimately show ?thesis using 2(2) by auto
  qed
  ultimately show ?case using 2(2) by (auto simp: signed_cmp)
qed simp

lemma map_of_map_erase [simp]: "map_of (map_erase p xs) q = (if q = p then None else map_of xs q)"
  by (induction xs) (auto simp: map_erase_def)

lemma keys_map_erase [simp]: "keys_of (map_erase p xs) = keys_of xs - {p}"
  by (auto simp: map_erase_def)

lemma sorted_map_erase: "keys_sorted xs \<Longrightarrow> keys_sorted (map_erase p xs)"
  by (simp add: map_erase_def sorted_wrt_filter)

lemma map_index_simps:
  "map_of (map_index p d xs) q = (if q = p \<and> map_of xs p = None then Some d else map_of xs q)"
  "keys_of (map_index p d xs) = insert p (keys_of xs)"
  "keys_sorted xs \<Longrightarrow> keys_sorted (map_index p d xs)"
  by (auto simp: map_index_def sorted_map_put map_of_eq_None_iff rev_image_eqI dest: map_of_SomeD split: option.splits)

lemma map_first_key_best: "keys_sorted xs \<Longrightarrow> best_in Sell (keys_of xs) (map_first_key xs)"
  by (cases xs) (auto simp: best_in_def map_first_key_def prio_def signed_cmp)

lemma map_last_key_best: "keys_sorted xs \<Longrightarrow> best_in Buy (keys_of xs) (map_last_key xs)"
  by (cases xs rule: rev_cases) (auto simp: best_in_def map_last_key_def prio_def sorted_wrt_append signed_cmp)

lemma takeWhile_sorted: "keys_sorted xs \<Longrightarrow> takeWhile (\<lambda>e. sless (fst e) p) xs = filter (\<lambda>e. sless (fst e) p) xs"
proof (induction xs)
  case (Cons e xs)
  then have "\<not> sless (fst e) p \<Longrightarrow> filter (\<lambda>e. sless (fst e) p) xs = []"
    by (auto simp: filter_empty_conv signed_cmp)
  with Cons show ?case by auto
qed simp

lemma dropWhile_sorted: "keys_sorted xs \<Longrightarrow> dropWhile (\<lambda>e. sle (fst e) p) xs = filter (\<lambda>e. sless p (fst e)) xs"
proof (induction xs)
  case (Cons e xs)
  then have "\<not> sle (fst e) p \<Longrightarrow> filter (\<lambda>e. sless p (fst e)) xs = xs"
    by (auto simp: filter_id_conv signed_cmp)
  with Cons show ?case by (auto simp: signed_cmp)
qed simp

lemma keys_filter: "keys_of (filter (\<lambda>e. P (fst e)) xs) = {q \<in> keys_of xs. P q}"
  by auto

lemma prio_less: "prio Buy p < prio Buy q \<longleftrightarrow> sless q p" "prio Sell p < prio Sell q \<longleftrightarrow> sless p q"
  by (simp_all add: prio_def signed_cmp)

lemma map_key_before_best:
  assumes "keys_sorted xs"
  shows "best_in Buy {q \<in> keys_of xs. prio Buy p < prio Buy q} (map_key_before p xs)"
  using map_last_key_best [OF sorted_wrt_filter [OF assms], of "\<lambda>e. sless (fst e) p"]
    keys_filter [of "\<lambda>q. sless q p" xs]
  by (simp only: map_key_before_def takeWhile_sorted [OF assms] prio_less)

lemma map_key_after_best:
  assumes "keys_sorted xs"
  shows "best_in Sell {q \<in> keys_of xs. prio Sell p < prio Sell q} (map_key_after p xs)"
  using map_first_key_best [OF sorted_wrt_filter [OF assms], of "\<lambda>e. sless p (fst e)"]
    keys_filter [of "\<lambda>q. sless p q" xs]
  by (simp only: map_key_after_def dropWhile_sorted [OF assms] prio_less)

section \<open>Levels\<close>

definition ladder_prices :: "SideIndex \<Rightarrow> Price set" where
  "ladder_prices s = {p. in_band p s \<and> occupied s (unat (tick_of p s))}"

definition level_prices :: "SideIndex \<Rightarrow> Price set" where
  "level_prices s = {p. find_level p s \<noteq> None}"

lemma find_level_in_band:
  assumes "si_inv s" "in_band p s"
  shows "find_level p s = (if occupied s (unat (tick_of p s)) then ladder_read (tick_of p s) s else None)"
    "find_level p s = None \<longleftrightarrow> \<not> occupied s (unat (tick_of p s))"
proof -
  have anch: "si_anchored s" using assms(2) by (simp add: in_band_def)
  note t = unat_tick_of(2) [OF assms]
  obtain a where a: "si_ladder s = Some a" "\<And>t. occupied s t \<Longrightarrow> a (word_of_nat t) \<noteq> None"
    using si_inv_ladder [OF assms(1) anch] by blast
  show 1: "find_level p s = (if occupied s (unat (tick_of p s)) then ladder_read (tick_of p s) s else None)"
    using assms(2) by (simp add: find_level_def Let_def is_occupied_iff [OF si_invD(6) [OF assms(1) anch] t])
  show "find_level p s = None \<longleftrightarrow> \<not> occupied s (unat (tick_of p s))"
    using a(2) [of "unat (tick_of p s)"] by (simp add: 1 ladder_read_def a(1))
qed

lemma find_level_out_of_band: "\<not> in_band p s \<Longrightarrow> find_level p s = map_of (si_overflow s) p"
  by (simp add: find_level_def)

lemma level_prices_split:
  assumes "si_inv s"
  shows "level_prices s = ladder_prices s \<union> keys_of (si_overflow s)"
proof -
  have "p \<in> level_prices s \<longleftrightarrow> p \<in> ladder_prices s \<union> keys_of (si_overflow s)" for p
  proof (cases "in_band p s")
    case True
    then have "p \<notin> keys_of (si_overflow s)" using si_invD(4) [OF assms] by blast
    then show ?thesis
      unfolding level_prices_def mem_Collect_eq find_level_in_band(2) [OF assms True] using True
      by (simp add: ladder_prices_def)
  next
    case False
    then show ?thesis
      by (simp add: level_prices_def ladder_prices_def find_level_out_of_band map_of_eq_None_iff del: not_None_eq)
  qed
  then show ?thesis by blast
qed

lemma ladder_prices_not_anchored: "\<not> si_anchored s \<Longrightarrow> ladder_prices s = {}"
  by (simp add: ladder_prices_def in_band_def)

lemma occupied_less: "occupied s t \<Longrightarrow> t < unat (band_ticks s)"
  by (simp add: occupied_def)

lemma occupied_price:
  assumes "si_inv s" "si_anchored s" "occupied s t"
  obtains p where "p \<in> ladder_prices s" "sint p = sint (si_base s) + int t"
proof -
  have t: "t < unat (band_ticks s)" using occupied_less [OF assms(3)] .
  have "t < 2 ^ 32" using t si_invD(2) [OF assms(1)] by simp
  then have u: "unat (word_of_nat t :: u32) = t" by (simp add: unat_of_nat)
  show thesis
    using that [of "price_of (word_of_nat t) s"] assms(3) t price_of_in_band [OF assms(1,2), of "word_of_nat t"]
      sint_price_of [OF assms(1,2), of "word_of_nat t"]
    by (simp add: u ladder_prices_def)
qed

lemma ladder_tick:
  assumes "si_inv s" "p \<in> ladder_prices s"
  shows "si_anchored s" "occupied s (unat (tick_of p s))"
    "sint p = sint (si_base s) + int (unat (tick_of p s))"
proof -
  have ib: "in_band p s" and oc: "occupied s (unat (tick_of p s))" using assms(2) by (auto simp: ladder_prices_def)
  then show "si_anchored s" by (simp add: in_band_def)
  show "occupied s (unat (tick_of p s))" by (rule oc)
  show "sint p = sint (si_base s) + int (unat (tick_of p s))" using unat_tick_of(1) [OF assms(1) ib] by linarith
qed

lemma summary_zero_ladder:
  assumes "si_inv s"
  shows "summary s = 0 \<longleftrightarrow> ladder_prices s = {}"
proof (cases "si_anchored s")
  case True
  show ?thesis
    unfolding summary_zero_iff [OF si_invD(6) [OF assms True]]
    using occupied_price [OF assms True] ladder_tick(2) [OF assms] by (metis all_not_in_conv)
next
  case False
  then show ?thesis by (simp add: ladder_prices_not_anchored si_invD(8) [OF assms])
qed

lemma si_empty_iff: "si_inv s \<Longrightarrow> si_empty s \<longleftrightarrow> level_prices s = {}"
  by (simp add: level_prices_split si_empty_def summary_zero_ladder)

lemma finite_level_prices:
  assumes "si_inv s"
  shows "finite (level_prices s)"
proof -
  have "inj_on (\<lambda>p. unat (tick_of p s)) (ladder_prices s)"
    by (rule inj_onI) (metis ladder_tick(3) [OF assms] sint_eq_iff_64)
  moreover have "(\<lambda>p. unat (tick_of p s)) ` ladder_prices s \<subseteq> {..<unat (band_ticks s)}"
    using ladder_tick(2) [OF assms] occupied_less by blast
  ultimately have "finite (ladder_prices s)" using finite_subset inj_on_finite by blast
  then show ?thesis by (simp add: level_prices_split [OF assms])
qed

section \<open>Best and next price\<close>

lemma ladder_best_in:
  assumes inv: "si_inv s" and anch: "si_anchored s" and oc: "occupied s (unat t)" and P: "P (price_of t s)"
    and ext: "\<And>q. q \<in> ladder_prices s \<Longrightarrow> P q \<Longrightarrow>
      if sd = Buy then unat (tick_of q s) \<le> unat t else unat t \<le> unat (tick_of q s)"
  shows "best_in sd {q \<in> ladder_prices s. P q} (Some (price_of t s))"
proof -
  note t = occupied_less [OF oc]
  have "price_of t s \<in> ladder_prices s"
    using price_of_in_band [OF inv anch t] oc by (simp add: ladder_prices_def)
  moreover have "prio sd (price_of t s) \<le> prio sd q" if "q \<in> ladder_prices s" "P q" for q
    using ext [OF that] ladder_tick(3) [OF inv that(1)] sint_price_of [OF inv anch t]
    by (simp add: prio_def split: if_splits)
  ultimately show ?thesis using P by (simp add: best_in_def)
qed

definition ladder_pick :: "u32 \<Rightarrow> SideIndex \<Rightarrow> Price option" where
  "ladder_pick t s = (if t \<noteq> band_ticks s then Some (price_of t s) else None)"

lemma occupied_not_band: "occupied s (unat t) \<Longrightarrow> t \<noteq> band_ticks s"
  using occupied_less by blast

lemma ladder_best:
  assumes inv: "si_inv s"
  shows "best_in (si_side s) (ladder_prices s)
    (ladder_pick (if si_side s = Buy then highest_occupied s else lowest_occupied s) s)"
proof (cases "summary s = 0")
  case True
  then show ?thesis using summary_zero_ladder [OF inv] by (simp add: ladder_pick_def)
next
  case False
  then have anch: "si_anchored s" using si_invD(8) [OF inv] by blast
  note b = si_invD(6) [OF inv anch]
  note h = highest_occupied_spec [OF b False] and l = lowest_occupied_spec [OF b False]
  show ?thesis
    using ladder_best_in [OF inv anch h(1), of "\<lambda>_. True" Buy] ladder_best_in [OF inv anch l(1), of "\<lambda>_. True" Sell]
      h(2) l(2) ladder_tick(2) [OF inv] occupied_not_band [OF h(1)] occupied_not_band [OF l(1)]
    by (cases "si_side s") (simp_all add: ladder_pick_def)
qed

lemma spilled_best:
  "si_inv s \<Longrightarrow> best_in (si_side s) (keys_of (si_overflow s))
     (if si_side s = Buy then map_last_key (si_overflow s) else map_first_key (si_overflow s))"
  using map_first_key_best map_last_key_best si_invD(3) by (cases "si_side s") auto

lemma best_price_merge:
  "best_price s = merge_best (si_side s)
     (ladder_pick (if si_side s = Buy then highest_occupied s else lowest_occupied s) s)
     (if si_side s = Buy then map_last_key (si_overflow s) else map_first_key (si_overflow s))"
  by (cases "si_overflow s = []")
     (auto simp: best_price_def ladder_pick_def merge_best_def Let_def prio_less map_first_key_def map_last_key_def
       split: option.splits list.splits)

lemma best_price_best: "si_inv s \<Longrightarrow> best_in (si_side s) (level_prices s) (best_price s)"
  unfolding best_price_merge level_prices_split by (rule best_in_merge [OF ladder_best spilled_best])

definition next_tick :: "Price \<Rightarrow> SideIndex \<Rightarrow> u32" where
  "next_tick p s =
     (let first = si_base s; last = si_base s + ucast (band_ticks s) - 1
      in if si_side s = Buy
         then (if sless last p then highest_occupied s
               else if sle p first then band_ticks s
               else highest_occupied_below (tick_of p s) s)
         else (if sless p first then lowest_occupied s
               else if sle last p then band_ticks s
               else lowest_occupied_above (tick_of p s) s))"

lemma next_price_merge:
  "next_price p s = merge_best (si_side s)
     (if si_anchored s \<and> summary s \<noteq> 0 then ladder_pick (next_tick p s) s else None)
     (if si_side s = Buy then map_key_before p (si_overflow s) else map_key_after p (si_overflow s))"
  by (cases "si_side s")
     (simp_all add: next_price_def next_tick_def ladder_pick_def merge_best_def Let_def prio_less split: option.splits)

lemma last_of_band:
  assumes "si_inv s" "si_anchored s"
  shows "sint (si_base s + ucast (band_ticks s) - 1) = sint (si_base s) + int (unat (band_ticks s)) - 1"
proof -
  have b: "- 4096 < sint (si_base s)" "sint (si_base s) + int (unat (band_ticks s)) + 4096 < 2 ^ 63"
    using si_invD(7) [OF assms] by (auto simp: base_ok_def)
  have "unat (ucast (band_ticks s) :: u64) < 2 ^ 63"
    using si_invD(2) [OF assms(1)] by (simp add: unat_ucast_32_64)
  then have st: "sint (ucast (band_ticks s) :: i64) = int (unat (band_ticks s))"
    using sint_eq_unat_64 unat_ucast_32_64 by metis
  have s1: "sint (si_base s + ucast (band_ticks s)) = sint (si_base s) + sint (ucast (band_ticks s) :: i64)"
    by (rule sint_plus_64) (use st b in \<open>unfold int_pows; linarith\<close>)+
  have "sint (si_base s + ucast (band_ticks s) - 1) = sint (si_base s + ucast (band_ticks s)) - sint (1 :: i64)"
    by (rule sint_minus_64) (use s1 st b in \<open>unfold int_pows; simp\<close>)+
  then show ?thesis by (simp add: s1 st)
qed

lemma ladder_next:
  assumes inv: "si_inv s" and anch: "si_anchored s" and ne: "summary s \<noteq> 0"
  shows "best_in (si_side s) {q \<in> ladder_prices s. prio (si_side s) p < prio (si_side s) q}
    (ladder_pick (next_tick p s) s)"
proof -
  note b = si_invD(6) [OF inv anch] and lt = ladder_tick(3) [OF inv] and lo = ladder_tick(2) [OF inv]
  have less: "unat (tick_of q s) < unat (band_ticks s)" if "q \<in> ladder_prices s" for q
    using occupied_less lo that by blast
  note last = last_of_band [OF inv anch] and ib = in_band_iff [OF inv anch, of p]
  note h = highest_occupied_spec [OF b ne] and l = lowest_occupied_spec [OF b ne]
  show ?thesis
  proof (cases "si_side s")
    case Buy
    consider (above) "sless (si_base s + ucast (band_ticks s) - 1) p" | (below) "sle p (si_base s)"
      | (inside) "in_band p s" "sless (si_base s) p" "\<not> sless (si_base s + ucast (band_ticks s) - 1) p"
      using ib last by (fastforce simp: signed_cmp)
    then show ?thesis
    proof cases
      case above
      have "prio Buy p < prio Buy q" if "q \<in> ladder_prices s" for q
        using above last lt [OF that] less [OF that] by (simp add: prio_less signed_cmp)
      then have "{q \<in> ladder_prices s. prio Buy p < prio Buy q} = ladder_prices s" by blast
      then show ?thesis using ladder_best [OF inv] Buy above by (simp add: next_tick_def)
    next
      case below
      then have none: "{q \<in> ladder_prices s. prio Buy p < prio Buy q} = {}"
        using lt by (fastforce simp: prio_less signed_cmp)
      have "\<not> sless (si_base s + ucast (band_ticks s) - 1) p"
        using below last si_invD(5) [OF inv anch] by (simp add: signed_cmp)
      with below none Buy show ?thesis by (simp add: next_tick_def ladder_pick_def)
    next
      case inside
      note tp = unat_tick_of [OF inv inside(1)]
      note hb = highest_occupied_below_spec [OF b tp(2)]
      have nt: "next_tick p s = highest_occupied_below (tick_of p s) s"
        using inside(2,3) Buy by (simp add: next_tick_def signed_cmp)
      have P: "prio Buy p < prio Buy q \<longleftrightarrow> unat (tick_of q s) < unat (tick_of p s)" if "q \<in> ladder_prices s" for q
        using tp lt [OF that] unfolding prio_less signed_cmp by linarith
      from hb show ?thesis
      proof
        assume "highest_occupied_below (tick_of p s) s = band_ticks s \<and> (\<forall>t. occupied s t \<longrightarrow> \<not> t < unat (tick_of p s))"
        then show ?thesis using P lo by (auto simp: nt Buy ladder_pick_def)
      next
        assume g: "greatest_below s (unat (tick_of p s)) (unat (highest_occupied_below (tick_of p s) s))"
        then have oc: "occupied s (unat (highest_occupied_below (tick_of p s) s))" by (simp add: greatest_below_def)
        note t = occupied_less [OF oc]
        have in_l: "price_of (highest_occupied_below (tick_of p s) s) s \<in> ladder_prices s"
          using price_of_in_band [OF inv anch t] oc by (simp add: ladder_prices_def)
        have "best_in Buy {q \<in> ladder_prices s. prio Buy p < prio Buy q}
          (Some (price_of (highest_occupied_below (tick_of p s) s) s))"
          using g P lo by (intro ladder_best_in [OF inv anch oc])
            (simp_all add: P [OF in_l] price_of_in_band(2) [OF inv anch t] greatest_below_def)
        then show ?thesis using occupied_not_band [OF oc] by (simp add: nt Buy ladder_pick_def)
      qed
    qed
  next
    case Sell
    consider (below) "sless p (si_base s)" | (above) "sle (si_base s + ucast (band_ticks s) - 1) p"
      | (inside) "in_band p s" "\<not> sless p (si_base s)" "\<not> sle (si_base s + ucast (band_ticks s) - 1) p"
      using ib last by (fastforce simp: signed_cmp)
    then show ?thesis
    proof cases
      case below
      have "prio Sell p < prio Sell q" if "q \<in> ladder_prices s" for q
        using below lt [OF that] by (simp add: prio_less signed_cmp)
      then have "{q \<in> ladder_prices s. prio Sell p < prio Sell q} = ladder_prices s" by blast
      then show ?thesis using ladder_best [OF inv] Sell below by (simp add: next_tick_def)
    next
      case above
      then have none: "{q \<in> ladder_prices s. prio Sell p < prio Sell q} = {}"
        using lt less last by (fastforce simp: prio_less signed_cmp)
      have "\<not> sless p (si_base s)"
        using above last si_invD(5) [OF inv anch] by (simp add: signed_cmp)
      with above none Sell show ?thesis by (simp add: next_tick_def ladder_pick_def)
    next
      case inside
      note tp = unat_tick_of [OF inv inside(1)]
      note hb = lowest_occupied_above_spec [OF b tp(2)]
      have nt: "next_tick p s = lowest_occupied_above (tick_of p s) s"
        using inside(2,3) Sell by (simp add: next_tick_def)
      have P: "prio Sell p < prio Sell q \<longleftrightarrow> unat (tick_of p s) < unat (tick_of q s)" if "q \<in> ladder_prices s" for q
        using tp lt [OF that] unfolding prio_less signed_cmp by linarith
      from hb show ?thesis
      proof
        assume "lowest_occupied_above (tick_of p s) s = band_ticks s \<and> (\<forall>t. occupied s t \<longrightarrow> \<not> unat (tick_of p s) < t)"
        then show ?thesis using P lo by (auto simp: nt Sell ladder_pick_def)
      next
        assume g: "least_above s (unat (tick_of p s)) (unat (lowest_occupied_above (tick_of p s) s))"
        then have oc: "occupied s (unat (lowest_occupied_above (tick_of p s) s))" by (simp add: least_above_def)
        note t = occupied_less [OF oc]
        have in_l: "price_of (lowest_occupied_above (tick_of p s) s) s \<in> ladder_prices s"
          using price_of_in_band [OF inv anch t] oc by (simp add: ladder_prices_def)
        have "best_in Sell {q \<in> ladder_prices s. prio Sell p < prio Sell q}
          (Some (price_of (lowest_occupied_above (tick_of p s) s) s))"
          using g P lo by (intro ladder_best_in [OF inv anch oc])
            (simp_all add: P [OF in_l] price_of_in_band(2) [OF inv anch t] least_above_def)
        then show ?thesis using occupied_not_band [OF oc] by (simp add: nt Sell ladder_pick_def)
      qed
    qed
  qed
qed

lemma next_price_best:
  assumes inv: "si_inv s"
  shows "best_in (si_side s) {q \<in> level_prices s. prio (si_side s) p < prio (si_side s) q} (next_price p s)"
proof -
  let ?P = "\<lambda>q. prio (si_side s) p < prio (si_side s) q"
  have "best_in (si_side s) {q \<in> keys_of (si_overflow s). ?P q}
     (if si_side s = Buy then map_key_before p (si_overflow s) else map_key_after p (si_overflow s))"
    using map_key_before_best map_key_after_best si_invD(3) [OF inv] by (cases "si_side s") auto
  moreover have "best_in (si_side s) {q \<in> ladder_prices s. ?P q}
     (if si_anchored s \<and> summary s \<noteq> 0 then ladder_pick (next_tick p s) s else None)"
    using ladder_next [OF inv, of p] summary_zero_ladder [OF inv] ladder_prices_not_anchored [of s] by auto
  ultimately have "best_in (si_side s) ({q \<in> ladder_prices s. ?P q} \<union> {q \<in> keys_of (si_overflow s). ?P q})
     (next_price p s)"
    unfolding next_price_merge by (intro best_in_merge)
  moreover have "{q \<in> ladder_prices s. ?P q} \<union> {q \<in> keys_of (si_overflow s). ?P q} = {q \<in> level_prices s. ?P q}"
    by (auto simp: level_prices_split [OF inv])
  ultimately show ?thesis by simp
qed

section \<open>Changing levels\<close>

lemma words_for_eq: "n + 63 < 2 ^ 32 \<Longrightarrow> words_for (word_of_nat n) = (n + 63) div 64"
proof -
  assume n: "n + 63 < 2 ^ 32"
  then have "unat (word_of_nat (n + 63) :: u32) = n + 63" by (simp only: unat_of_nat) (simp add: take_bit_nat_eq_self)
  then have "unat (word_of_nat n + 63 :: u32) = n + 63" by simp
  then show ?thesis by (simp add: words_for_def unat_div_distrib)
qed

lemma bitmap_inv_fresh:
  assumes "64 dvd unat (band_ticks s)" "unat (band_ticks s) \<le> 8192" "summary s = 0"
    "occupancy s = replicate (words_for (band_ticks s)) 0"
    "mid_summary s = replicate (words_for (word_of_nat (words_for (band_ticks s)))) 0"
  shows "bitmap_inv s"
proof -
  define k where "k = unat (band_ticks s) div 64"
  have k: "unat (band_ticks s) = 64 * k" "k \<le> 128" using assms(1,2) by (auto simp: k_def)
  have "band_ticks s = word_of_nat (64 * k)" using k(1) word_of_nat_unat_32 by metis
  then have "words_for (band_ticks s) = (64 * k + 63) div 64"
    using words_for_eq [of "64 * k"] k(2) by simp
  then have w1: "words_for (band_ticks s) = k" by simp
  have "words_for (word_of_nat k) = (k + 63) div 64" by (rule words_for_eq) (use k(2) in simp)
  then have lens: "length (occupancy s) = k" "length (mid_summary s) = (k + 63) div 64"
    using assms(4,5) by (simp_all add: w1)
  have z: "occupancy s ! w = 0" if "w < k" for w using that assms(4) by (simp add: w1)
  have zm: "mid_summary s ! m = 0" if "m < length (mid_summary s)" for m using that assms(5) by (simp add: w1)
  have "w div 64 < length (mid_summary s)" if "w < k" for w using that lens(2) by (simp; linarith)
  then show ?thesis
    using k by (auto simp: bitmap_inv_def lens z zm assms(3))
qed

lemma anchor_simps [simp]:
  "band_ticks (anchor p s) = band_ticks s" "si_side (anchor p s) = si_side s" "si_anchored (anchor p s)"
  "si_base (anchor p s) = p - ucast (band_ticks s div 2)" "si_overflow (anchor p s) = si_overflow s"
  "summary (anchor p s) = summary s" "\<exists>a. si_ladder (anchor p s) = Some a"
  by (auto simp: anchor_def Let_def split: option.splits)

lemma anchor_base:
  assumes "unat (band_ticks s) \<le> 8192" "price_ok p"
  shows "sint (si_base (anchor p s)) = sint p - int (unat (band_ticks s) div 2)"
proof -
  let ?h = "ucast (band_ticks s div 2) :: i64"
  have u: "unat ?h = unat (band_ticks s) div 2" by (simp add: unat_ucast_32_64 unat_div_distrib)
  have "unat ?h < 2 ^ 63" using assms(1) unfolding u by simp
  then have h: "sint ?h = int (unat (band_ticks s) div 2)" using sint_eq_unat_64 u by metis
  have "int (unat (band_ticks s) div 2) \<le> 4096" using assms(1) by linarith
  then have "- (2 ^ 63) \<le> sint p - sint ?h" "sint p - sint ?h < 2 ^ 63"
    using assms(2) unfolding price_ok_def h int_pows by linarith+
  then have "sint (p - ?h) = sint p - sint ?h" by (rule sint_minus_64)
  then show ?thesis by (simp add: h)
qed

lemma anchor_inv:
  assumes inv: "si_inv s" and p: "price_ok p" and emp: "\<not> si_anchored s \<or> si_empty s" and band: "band_ticks s \<noteq> 0"
  shows "si_inv (anchor p s)" "level_prices s = {}" "level_prices (anchor p s) = {}" "in_band p (anchor p s)"
proof -
  have e: "si_overflow s = []" "summary s = 0"
    using emp si_invD(8,9) [OF inv] band by (auto simp: si_empty_def)
  then show "level_prices s = {}" using si_empty_iff [OF inv] by (simp add: si_empty_def)
  have pos: "0 < unat (band_ticks s)" using band by (simp add: unat_gt_0)
  have b: "bitmap_inv (anchor p s)"
  proof (cases "si_anchored s")
    case True
    then obtain a where "si_ladder s = Some a" using si_inv_ladder [OF inv] by blast
    then show ?thesis using si_invD(6) [OF inv True] by (simp add: anchor_def bitmap_inv_def)
  next
    case False
    then have "si_ladder s = None" using inv by (simp add: si_inv_def)
    then show ?thesis using si_invD(1,2) [OF inv] e by (intro bitmap_inv_fresh) (simp_all add: anchor_def)
  qed
  have none: "\<not> occupied (anchor p s) t" for t using summary_zero_iff [OF b] e by simp
  note base = anchor_base [OF si_invD(2) [OF inv] p]
  have "base_ok (anchor p s)"
    using p base si_invD(2) [OF inv] unfolding base_ok_def price_ok_def by (simp del: anchor_simps(4)) linarith
  then show inv': "si_inv (anchor p s)"
    using b none e pos si_invD(1,2) [OF inv] anchor_simps(7) [of p s] by (auto simp: si_inv_def)
  show "level_prices (anchor p s) = {}" using si_empty_iff [OF inv'] e by (simp add: si_empty_def)
  show "in_band p (anchor p s)"
    unfolding in_band_iff [OF inv' anchor_simps(3)] base using pos by simp
qed

text \<open>
  Writing one level of the ladder, whether its tick was occupied before (a store through a reference)
  or is occupied now (a new level).
\<close>

lemma write_slot:
  assumes inv: "si_inv s" and ib: "in_band p s" and s1: "s1 = s \<and> occupied s (unat (tick_of p s)) \<or> s1 = set_occupied (tick_of p s) s"
  shows "si_inv (ladder_write (tick_of p s) l s1)"
    "find_level q (ladder_write (tick_of p s) l s1) = (if q = p then Some l else find_level q s)"
    "si_side (ladder_write (tick_of p s) l s1) = si_side s"
proof -
  let ?t = "tick_of p s"
  let ?s = "ladder_write ?t l s1"
  have anch: "si_anchored s" using ib by (simp add: in_band_def)
  note b = si_invD(6) [OF inv anch] and t = unat_tick_of(2) [OF inv ib]
  obtain a where a: "si_ladder s = Some a" "\<And>t. occupied s t \<Longrightarrow> a (word_of_nat t) \<noteq> None"
    using si_inv_ladder [OF inv anch] by blast
  have frame: "band_ticks s1 = band_ticks s" "si_base s1 = si_base s" "si_anchored s1" "si_ladder s1 = Some a"
    "si_overflow s1 = si_overflow s" "si_side s1 = si_side s" "base_ok s1 = base_ok s" "in_band r s1 = in_band r s"
    "tick_of r s1 = tick_of r s" for r
    using s1 a(1) anch by auto
  have b1: "bitmap_inv s1" using s1 b bitmap_inv_set_occupied [OF b t] by blast
  have oc1: "occupied s1 u \<longleftrightarrow> occupied s u \<or> u = unat ?t" for u
    using s1 occupied_set_occupied [OF b t] by blast
  have w: "?s = s1\<lparr>si_ladder := Some (a(?t := Some l))\<rparr>" using frame(4) by (simp add: ladder_write_def)
  show inv': "si_inv ?s"
    using inv b1 a(2) anch unfolding w si_inv_def by (auto simp: frame oc1)
  show "si_side ?s = si_side s" by (simp add: w frame)
  show "find_level q ?s = (if q = p then Some l else find_level q s)"
  proof (cases "in_band q s")
    case True
    have ib': "in_band q ?s" using True by (simp add: w frame)
    have tk: "tick_of q ?s = tick_of q s" by (simp add: w frame)
    have oc: "occupied ?s (unat (tick_of q s)) \<longleftrightarrow> occupied s (unat (tick_of q s)) \<or> tick_of q s = ?t"
      by (simp add: w oc1 word_unat_eq_iff)
    have inj: "tick_of q s = ?t \<longleftrightarrow> q = p"
      using price_of_tick_of [OF inv True] price_of_tick_of [OF inv ib] by metis
    have rd: "ladder_read u ?s = (if u = ?t then Some l else ladder_read u s)" for u
      using a(1) by (simp add: w ladder_read_def)
    show ?thesis
      unfolding find_level_in_band(1) [OF inv' ib'] find_level_in_band(1) [OF inv True] tk oc rd
      using inj by auto
  next
    case False
    then show ?thesis using ib by (auto simp: find_level_out_of_band w frame)
  qed
qed

lemma write_overflow:
  assumes inv: "si_inv s" and ob: "\<not> in_band p s" and xs: "keys_sorted xs" "keys_of xs \<subseteq> insert p (keys_of (si_overflow s))"
    and m: "map_of xs q = (if q = p then r else map_of (si_overflow s) q)" and anch: "si_anchored s \<or> band_ticks s = 0"
  shows "si_inv (s\<lparr>si_overflow := xs\<rparr>)"
    "find_level q (s\<lparr>si_overflow := xs\<rparr>) = (if q = p then r else find_level q s)"
proof -
  let ?s = "s\<lparr>si_overflow := xs\<rparr>"
  have bf: "in_band u ?s = in_band u s" for u by (simp add: in_band_def)
  have "\<not> in_band u s" if "u \<in> keys_of xs" for u using that xs(2) ob si_invD(4) [OF inv] by blast
  moreover have "base_ok ?s = base_ok s" "bitmap_inv ?s = bitmap_inv s" "occupied ?s = occupied s"
    by (simp_all add: base_ok_def bitmap_inv_def occupied_def fun_eq_iff)
  ultimately show inv': "si_inv ?s"
    using inv xs(1) anch unfolding si_inv_def by (auto simp: bf)
  show "find_level q ?s = (if q = p then r else find_level q s)"
  proof (cases "in_band q s")
    case True
    then have "q \<noteq> p" using ob by blast
    with True show ?thesis
      by (simp add: find_level_def bf tick_of_def is_occupied_def ladder_read_def Let_def)
  next
    case False
    then show ?thesis by (simp add: find_level_out_of_band bf m)
  qed
qed

definition reanchored :: "Price \<Rightarrow> SideIndex \<Rightarrow> SideIndex" where
  "reanchored p s = (if band_ticks s \<noteq> 0 \<and> (\<not> si_anchored s \<or> si_empty s) then anchor p s else s)"

lemma reanchored:
  assumes "si_inv s" "price_ok p"
  shows "si_inv (reanchored p s)" "find_level q (reanchored p s) = find_level q s"
    "si_side (reanchored p s) = si_side s" "si_anchored (reanchored p s) \<or> band_ticks (reanchored p s) = 0"
proof -
  note an = anchor_inv [OF assms]
  have "find_level q (anchor p s) = find_level q s"
    if "\<not> si_anchored s \<or> si_empty s" "band_ticks s \<noteq> 0"
    using an(2,3) [OF that] by (auto simp: level_prices_def)
  then show "find_level q (reanchored p s) = find_level q s" by (auto simp: reanchored_def)
qed (use assms anchor_inv in \<open>auto simp: reanchored_def\<close>)

lemma level_for_reanchored:
  "level_for p s =
     (let s1 = reanchored p s
      in if \<not> in_band p s1 then s1\<lparr>si_overflow := map_index p empty_level (si_overflow s1)\<rparr>
         else if \<not> is_occupied (tick_of p s1) s1
         then ladder_write (tick_of p s1) empty_level (set_occupied (tick_of p s1) s1) else s1)"
  by (simp add: level_for_def reanchored_def Let_def)

lemma level_for:
  assumes "si_inv s" "price_ok p"
  shows "si_inv (level_for p s)" "si_side (level_for p s) = si_side s"
    "find_level q (level_for p s) =
       (if q = p \<and> find_level p s = None then Some empty_level else find_level q s)"
proof -
  let ?r = "reanchored p s"
  note r = reanchored [OF assms]
  have "si_inv (level_for p s) \<and> si_side (level_for p s) = si_side s \<and> find_level q (level_for p s) =
       (if q = p \<and> find_level p ?r = None then Some empty_level else find_level q ?r)"
  proof (cases "in_band p ?r")
    case True
    have anch: "si_anchored ?r" using True by (simp add: in_band_def)
    have oc: "is_occupied (tick_of p ?r) ?r \<longleftrightarrow> occupied ?r (unat (tick_of p ?r))"
      by (rule is_occupied_iff [OF si_invD(6) [OF r(1) anch] unat_tick_of(2) [OF r(1) True]])
    show ?thesis
      using True r(1,3) write_slot [OF r(1) True, where ?s1.0 = "set_occupied (tick_of p ?r) ?r" and l = empty_level]
      by (auto simp: level_for_reanchored Let_def oc find_level_in_band(2) [OF r(1) True])
  next
    case False
    then show ?thesis
      using r(1,3) write_overflow [OF r(1) False, where xs = "map_index p empty_level (si_overflow ?r)" and q = q and
          r = "if find_level p ?r = None then Some empty_level else find_level p ?r"] r(4)
      by (simp add: level_for_reanchored Let_def map_index_simps si_invD(3) [OF r(1)] find_level_out_of_band [OF False])
  qed
  then show "si_inv (level_for p s)" "si_side (level_for p s) = si_side s"
    "find_level q (level_for p s) = (if q = p \<and> find_level p s = None then Some empty_level else find_level q s)"
    using reanchored(2) [OF assms] by auto
qed

lemma found_anchored:
  assumes "si_inv s" "find_level p s \<noteq> None" "\<not> in_band p s"
  shows "si_anchored s \<or> band_ticks s = 0"
proof (rule ccontr)
  assume "\<not> (si_anchored s \<or> band_ticks s = 0)"
  then have "si_overflow s = []" using si_invD(9) [OF assms(1)] by blast
  then show False using assms(2) by (simp add: find_level_out_of_band [OF assms(3)])
qed

lemma store_level:
  assumes inv: "si_inv s" and l: "find_level p s \<noteq> None"
  shows "si_inv (store_level p v s)" "si_side (store_level p v s) = si_side s"
    "find_level q (store_level p v s) = (if q = p then Some v else find_level q s)"
proof -
  have "si_inv (store_level p v s) \<and> si_side (store_level p v s) = si_side s \<and>
    find_level q (store_level p v s) = (if q = p then Some v else find_level q s)"
  proof (cases "in_band p s")
    case True
    then show ?thesis
      using write_slot [OF inv True, where ?s1.0 = s and l = v] find_level_in_band(2) [OF inv True] l by (simp add: store_level_def)
  next
    case False
    then show ?thesis
      using write_overflow [OF inv False, where xs = "map_put p v (si_overflow s)" and q = q and r = "Some v"] found_anchored [OF inv l False]
      by (simp add: store_level_def sorted_map_put si_invD(3) [OF inv])
  qed
  then show "si_inv (store_level p v s)" "si_side (store_level p v s) = si_side s"
    "find_level q (store_level p v s) = (if q = p then Some v else find_level q s)" by simp_all
qed

lemma erase_level:
  assumes inv: "si_inv s" and l: "find_level p s \<noteq> None"
  shows "si_inv (erase_level p s)" "si_side (erase_level p s) = si_side s"
    "find_level q (erase_level p s) = (if q = p then None else find_level q s)"
proof -
  have "si_inv (erase_level p s) \<and> si_side (erase_level p s) = si_side s \<and>
    find_level q (erase_level p s) = (if q = p then None else find_level q s)"
  proof (cases "in_band p s")
    case True
    let ?t = "tick_of p s"
    let ?s = "clear_occupied ?t s"
    have anch: "si_anchored s" using True by (simp add: in_band_def)
    note b = si_invD(6) [OF inv anch] and t = unat_tick_of(2) [OF inv True]
    note oc = occupied_clear_occupied [OF b t]
    have inv': "si_inv ?s"
      using inv bitmap_inv_clear_occupied [OF b t] anch unfolding si_inv_def by (auto simp: oc)
    have "find_level q ?s = (if q = p then None else find_level q s)"
    proof (cases "in_band q s")
      case ibq: True
      have inj: "tick_of q s = ?t \<longleftrightarrow> q = p"
        using price_of_tick_of [OF inv True] price_of_tick_of [OF inv ibq] by metis
      have ib': "in_band q ?s" using ibq by simp
      show ?thesis
        unfolding find_level_in_band(1) [OF inv' ib'] find_level_in_band(1) [OF inv ibq]
        using inj by (simp add: oc ladder_read_def word_unat_eq_iff)
    next
      case False
      then show ?thesis using True by (auto simp: find_level_out_of_band)
    qed
    with inv' True show ?thesis by (simp add: erase_level_def)
  next
    case False
    have "keys_of (si_overflow s) - {p} \<subseteq> insert p (keys_of (si_overflow s))" by blast
    with False show ?thesis
      using write_overflow [OF inv False, where xs = "map_erase p (si_overflow s)" and q = q and r = None] found_anchored [OF inv l False]
      by (simp add: erase_level_def sorted_map_erase si_invD(3) [OF inv])
  qed
  then show "si_inv (erase_level p s)" "si_side (erase_level p s) = si_side s"
    "find_level q (erase_level p s) = (if q = p then None else find_level q s)" by simp_all
qed

lemma level_at_found: "si_inv s \<Longrightarrow> find_level p s \<noteq> None \<Longrightarrow> level_at p s = find_level p s"
  by (cases "in_band p s") (auto simp: level_at_def find_level_in_band(1) find_level_out_of_band split: if_splits)

lemma new_side_index:
  assumes "64 dvd unat band" "unat band \<le> 8192"
  shows "si_inv (new_side_index sd band)" "find_level p (new_side_index sd band) = None"
    "si_side (new_side_index sd band) = sd"
  using assms by (simp_all add: new_side_index_def si_inv_def find_level_def in_band_def)

section \<open>Walking a side in priority order\<close>

definition price_walk :: "Side \<Rightarrow> Price set \<Rightarrow> Price list" where
  "price_walk sd D =
     map (\<lambda>k. word_of_int (if sd = Buy then - k else k)) (sorted_list_of_set (prio sd ` D))"

abbreviation by_prio :: "Side \<Rightarrow> Price list \<Rightarrow> bool" where
  "by_prio sd ps \<equiv> sorted_wrt (\<lambda>p q. prio sd p < prio sd q) ps"

lemma prio_inverse [simp]: "(word_of_int (if sd = Buy then - prio sd p else prio sd p) :: Price) = p"
  by (simp add: prio_def)

lemma price_walk_of_prio: "price_walk sd D = ps" if "set ps = D" "by_prio sd ps"
proof -
  have "sorted_list_of_set (prio sd ` D) = map (prio sd) ps"
  proof (rule sorted_distinct_set_unique)
    show "sorted (map (prio sd) ps)" "distinct (map (prio sd) ps)"
      using that(2) by (induction ps arbitrary: D) (auto simp: less_imp_le)
    show "set (sorted_list_of_set (prio sd ` D)) = set (map (prio sd) ps)" using that(1) by auto
  qed simp_all
  then show ?thesis by (simp add: price_walk_def comp_def prio_inverse [simplified comp_def] del: if_split)
qed

lemma price_walk:
  assumes "finite D"
  shows "set (price_walk sd D) = D" "by_prio sd (price_walk sd D)"
proof -
  let ?ks = "sorted_list_of_set (prio sd ` D)"
  have ks: "set ?ks = prio sd ` D" "sorted_wrt (<) ?ks" using assms by simp_all
  have inv: "prio sd (word_of_int (if sd = Buy then - k else k)) = k" if "k \<in> set ?ks" for k
  proof -
    obtain p where "k = prio sd p" using \<open>k \<in> set ?ks\<close> ks(1) by blast
    then show ?thesis by (simp only: prio_inverse)
  qed
  show "set (price_walk sd D) = D" by (simp add: price_walk_def ks(1) image_image del: if_split)
  show "by_prio sd (price_walk sd D)"
    unfolding price_walk_def sorted_wrt_map by (rule sorted_wrt_mono_rel [OF _ ks(2)]) (simp only: inv)
qed

lemma price_walk_empty [simp]: "price_walk sd {} = []"
  by (simp add: price_walk_def)

lemma by_prio_distinct: "by_prio sd ps \<Longrightarrow> distinct ps"
  by (induction ps) auto

lemma price_walk_filter:
  assumes "finite D" "D' \<subseteq> D"
  shows "price_walk sd D' = filter (\<lambda>p. p \<in> D') (price_walk sd D)"
  using assms price_walk [OF assms(1), of sd] by (intro price_walk_of_prio) (auto intro: sorted_wrt_filter)

lemma price_walk_first:
  assumes "best_in sd D r" "finite D"
  shows "r = (case price_walk sd D of [] \<Rightarrow> None | p # _ \<Rightarrow> Some p)"
proof (rule best_in_unique [OF assms(1)])
  show "best_in sd D (case price_walk sd D of [] \<Rightarrow> None | p # _ \<Rightarrow> Some p)"
    using price_walk [OF assms(2), of sd] by (cases "price_walk sd D") (auto simp: best_in_def less_imp_le)
qed

lemma price_walk_next:
  assumes "best_in sd {q \<in> D. prio sd p < prio sd q} r" "finite D" "price_walk sd D = as @ p # bs"
  shows "r = (case bs of [] \<Rightarrow> None | q # _ \<Rightarrow> Some q)"
proof -
  note w = price_walk [OF assms(2), of sd, unfolded assms(3)]
  have "price_walk sd {q \<in> D. prio sd p < prio sd q} = bs"
    using w by (intro price_walk_of_prio) (auto simp: sorted_wrt_append)
  then show ?thesis using price_walk_first [OF assms(1)] assms(2) by simp
qed

text \<open>
  What a price index promises the book: it finds the level stored last at each price, and best and
  next visit exactly the prices that have a level, in priority order.
\<close>

locale price_index =
  fixes ok :: "'s \<Rightarrow> bool" and admissible :: "Price \<Rightarrow> bool" and side :: "'s \<Rightarrow> Side"
    and lookup :: "Price \<Rightarrow> 's \<Rightarrow> 'l option" and create :: "Price \<Rightarrow> 's \<Rightarrow> 's"
    and store :: "Price \<Rightarrow> 'l \<Rightarrow> 's \<Rightarrow> 's" and erase :: "Price \<Rightarrow> 's \<Rightarrow> 's"
    and empty :: "'s \<Rightarrow> bool" and best :: "'s \<Rightarrow> Price option" and succ :: "Price \<Rightarrow> 's \<Rightarrow> Price option"
    and fresh :: 'l
  assumes create: "ok s \<Longrightarrow> admissible p \<Longrightarrow> ok (create p s)"
      "ok s \<Longrightarrow> admissible p \<Longrightarrow> side (create p s) = side s"
      "ok s \<Longrightarrow> admissible p \<Longrightarrow>
         lookup q (create p s) = (if q = p \<and> lookup p s = None then Some fresh else lookup q s)"
    and store: "ok s \<Longrightarrow> lookup p s \<noteq> None \<Longrightarrow> ok (store p v s)"
      "ok s \<Longrightarrow> lookup p s \<noteq> None \<Longrightarrow> side (store p v s) = side s"
      "ok s \<Longrightarrow> lookup p s \<noteq> None \<Longrightarrow> lookup q (store p v s) = (if q = p then Some v else lookup q s)"
    and erase: "ok s \<Longrightarrow> lookup p s \<noteq> None \<Longrightarrow> ok (erase p s)"
      "ok s \<Longrightarrow> lookup p s \<noteq> None \<Longrightarrow> side (erase p s) = side s"
      "ok s \<Longrightarrow> lookup p s \<noteq> None \<Longrightarrow> lookup q (erase p s) = (if q = p then None else lookup q s)"
    and finite_dom: "ok s \<Longrightarrow> finite {p. lookup p s \<noteq> None}"
    and empty: "ok s \<Longrightarrow> empty s \<longleftrightarrow> {p. lookup p s \<noteq> None} = {}"
    and best: "ok s \<Longrightarrow> best_in (side s) {p. lookup p s \<noteq> None} (best s)"
    and succ: "ok s \<Longrightarrow> best_in (side s) {q \<in> {p. lookup p s \<noteq> None}. prio (side s) p < prio (side s) q} (succ p s)"
begin

definition walk :: "'s \<Rightarrow> Price list" where
  "walk s = price_walk (side s) {p. lookup p s \<noteq> None}"

lemma set_walk: "ok s \<Longrightarrow> set (walk s) = {p. lookup p s \<noteq> None}"
  unfolding walk_def by (rule price_walk(1) [OF finite_dom])

lemma walk_sorted: "ok s \<Longrightarrow> by_prio (side s) (walk s)"
  unfolding walk_def by (rule price_walk(2) [OF finite_dom])

lemma walk_distinct: "ok s \<Longrightarrow> distinct (walk s)"
  by (rule by_prio_distinct [OF walk_sorted])

lemma best_hd: "ok s \<Longrightarrow> best s = (case walk s of [] \<Rightarrow> None | p # _ \<Rightarrow> Some p)"
  unfolding walk_def by (rule price_walk_first [OF best finite_dom])

lemma succ_step: "ok s \<Longrightarrow> walk s = as @ p # bs \<Longrightarrow> succ p s = (case bs of [] \<Rightarrow> None | q # _ \<Rightarrow> Some q)"
  unfolding walk_def by (rule price_walk_next [OF succ finite_dom])

lemma empty_walk: "ok s \<Longrightarrow> empty s \<longleftrightarrow> walk s = []"
  using set_walk [of s] empty [of s] by (metis set_empty)

text \<open>A level entered with a non-empty content, as the book does for the first order at a price.\<close>

lemma create_store:
  assumes "ok s" "admissible p"
  shows "ok (store p v (create p s))" "side (store p v (create p s)) = side s"
    "lookup q (store p v (create p s)) = (if q = p then Some v else lookup q s)"
proof -
  note c = create [OF assms]
  have l: "lookup p (create p s) \<noteq> None" by (simp add: c(3))
  note st = store [OF c(1) l]
  show "ok (store p v (create p s))" "side (store p v (create p s)) = side s" by (simp_all add: st c(2))
  show "lookup q (store p v (create p s)) = (if q = p then Some v else lookup q s)" by (simp add: st(3) c(3))
qed

end

interpretation si: price_index si_inv price_ok si_side find_level level_for store_level erase_level
  si_empty best_price next_price empty_level
proof unfold_locales
  show "si_inv s \<Longrightarrow> finite {p. find_level p s \<noteq> None}" for s
    using finite_level_prices by (simp add: level_prices_def)
  show "si_inv s \<Longrightarrow> si_empty s = ({p. find_level p s \<noteq> None} = {})" for s
    using si_empty_iff [of s] by (simp only: level_prices_def)
  show "si_inv s \<Longrightarrow> best_in (si_side s) {p. find_level p s \<noteq> None} (best_price s)" for s
    using best_price_best by (simp only: level_prices_def)
  show "si_inv s \<Longrightarrow> best_in (si_side s) {q \<in> {p. find_level p s \<noteq> None}. prio (si_side s) p < prio (si_side s) q} (next_price p s)" for s p
    using next_price_best [of s p] by (simp only: level_prices_def)
qed (rule level_for store_level erase_level; assumption)+

section \<open>Properties\<close>

text \<open>
  Walking a side visits its levels exactly: for a well-formed index there is one list of all prices
  that have a level, in strict priority order, of which \<open>best_price\<close> is the first element and
  \<open>next_price\<close> leads from each element to the one after it, whichever of the ladder and the
  overflow map holds them.
\<close>

theorem best_and_next_walk_the_levels:
  assumes "si_inv s"
  shows "\<exists>ps. set ps = {p. find_level p s \<noteq> None} \<and> by_prio (si_side s) ps \<and> best_price s = hd_opt ps \<and>
    (\<forall>as p bs. ps = as @ p # bs \<longrightarrow> next_price p s = hd_opt bs)"
proof (intro exI conjI)
  show "set (si.walk s) = {p. find_level p s \<noteq> None}" "by_prio (si_side s) (si.walk s)"
    using si.set_walk [OF assms] si.walk_sorted [OF assms] .
  show "best_price s = hd_opt (si.walk s)" using si.best_hd [OF assms] by (simp add: hd_opt_def)
  show "\<forall>as p bs. si.walk s = as @ p # bs \<longrightarrow> next_price p s = hd_opt bs"
    using si.succ_step [OF assms] by (simp add: hd_opt_def)
qed

text \<open>Two levels on the bid side: 1000 anchors the ladder, 5000 lies outside the band of 1024 ticks.\<close>

definition sample_side :: SideIndex where
  "sample_side = level_for 5000 (level_for 1000 (new_side_index Buy 1024))"

lemma sample_side_inv: "si_inv sample_side"
proof -
  have "si_inv (new_side_index Buy 1024)" by (rule new_side_index) simp_all
  then have "si_inv (level_for 1000 (new_side_index Buy 1024))" by (rule level_for) (simp add: price_ok_def)
  then show ?thesis unfolding sample_side_def by (rule level_for) (simp add: price_ok_def)
qed

theorem best_and_next_walk_the_levels_witness:
  "\<exists>ps. set ps = {p. find_level p sample_side \<noteq> None} \<and> by_prio (si_side sample_side) ps \<and>
    best_price sample_side = hd_opt ps \<and>
    (\<forall>as p bs. ps = as @ p # bs \<longrightarrow> next_price p sample_side = hd_opt bs)"
  by (rule best_and_next_walk_the_levels [OF sample_side_inv])

text \<open>
  The level operations are those of a map from prices to levels, and keep the index well formed:
  \<open>level_for\<close> enters an empty level where there was none and changes no other price, even when it
  re-anchors the band; a store changes one level; \<open>erase_level\<close> removes one. No level is lost between
  the ladder and the overflow map.
\<close>

theorem levels_behave_as_a_map:
  assumes "si_inv s" "price_ok p"
  shows "si_inv (level_for p s) \<and>
    (\<forall>q. find_level q (level_for p s) = (if q = p \<and> find_level p s = None then Some empty_level else find_level q s)) \<and>
    si_inv (store_level p v (level_for p s)) \<and>
    (\<forall>q. find_level q (store_level p v (level_for p s)) = (if q = p then Some v else find_level q s)) \<and>
    si_inv (erase_level p (store_level p v (level_for p s))) \<and>
    (\<forall>q. find_level q (erase_level p (store_level p v (level_for p s))) = (if q = p then None else find_level q s))"
proof -
  note c = si.create [OF assms] and cs = si.create_store [OF assms, where v = v]
  have "find_level p (store_level p v (level_for p s)) \<noteq> None" by (simp add: cs(3))
  note er = si.erase [OF cs(1) this]
  show ?thesis using c(1) cs(1) er(1) by (simp add: c(3) cs(3) er(3))
qed

theorem levels_behave_as_a_map_witness:
  "si_inv (level_for 900 sample_side) \<and>
    (\<forall>q. find_level q (level_for 900 sample_side) =
       (if q = 900 \<and> find_level 900 sample_side = None then Some empty_level else find_level q sample_side)) \<and>
    si_inv (store_level 900 \<lparr>ls_head = 3, ls_tail = 4\<rparr> (level_for 900 sample_side)) \<and>
    (\<forall>q. find_level q (store_level 900 \<lparr>ls_head = 3, ls_tail = 4\<rparr> (level_for 900 sample_side)) =
       (if q = 900 then Some \<lparr>ls_head = 3, ls_tail = 4\<rparr> else find_level q sample_side)) \<and>
    si_inv (erase_level 900 (store_level 900 \<lparr>ls_head = 3, ls_tail = 4\<rparr> (level_for 900 sample_side))) \<and>
    (\<forall>q. find_level q (erase_level 900 (store_level 900 \<lparr>ls_head = 3, ls_tail = 4\<rparr> (level_for 900 sample_side))) =
       (if q = 900 then None else find_level q sample_side))"
  by (rule levels_behave_as_a_map [OF sample_side_inv]) (simp add: price_ok_def)

end
