(* ===== verification/MatchingBook.thy ===== *)
theory MatchingBook
  imports Domain SideIndex
begin

text \<open>
  \<open>MatchingBook\<close> of \<open>src/include/exchange/matching/matching_book.hpp\<close> and
  \<open>src/src/exchange/matching/matching_book.cpp\<close>: one instrument's authoritative order book. Orders live
  in a slab, linked by 32-bit indices into a doubly-linked queue per price level; freed slots are chained
  through the same \<open>next\<close> field; each side's levels sit in a \<open>SideIndex\<close>.

  Every operation runs in the option monad: \<open>None\<close> is an access the C++ leaves undefined (an index past
  the end of the slab, a null level, an uninitialised ladder entry, the best price of an empty side).
  The theorems show that no operation reaches one from a well-formed book. A function that takes a
  \<open>LevelSlot&\<close> takes the level's value and returns the new one, which the caller writes back with
  \<open>store_level\<close>. The walks over levels and queues are \<open>partial_function (option)\<close>: a walk that does
  not end is \<open>None\<close> as well.
\<close>

section \<open>State\<close>

record SlabOrder =
  so_order :: BookOrder
  so_next :: u32
  so_prev :: u32

record MatchingBook =
  mb_slab :: "SlabOrder list"
  mb_live_count :: u64
  mb_slab_capacity :: nat
  mb_free_head :: u32
  mb_bids :: SideIndex
  mb_asks :: SideIndex

definition kMaxBandTicks :: nat where
  "kMaxBandTicks = 8192"

definition kMinBandTicks :: nat where
  "kMinBandTicks = 1024"

text \<open>\<open>std::bit_floor\<close>: the largest power of two not above the argument.\<close>

fun bit_floor :: "nat \<Rightarrow> nat" where
  "bit_floor n = (if n = 0 then 0 else if n = 1 then 1 else 2 * bit_floor (n div 2))"

declare bit_floor.simps [simp del]

definition band_for :: "nat \<Rightarrow> nat \<Rightarrow> nat" where
  \<comment> \<open>\<open>sizeof(LevelSlot)\<close> is 8\<close>
  "band_for instrument_count byte_budget =
     (if instrument_count = 0 then kMaxBandTicks
      else let ticks = byte_budget div instrument_count div (2 * 8)
           in if ticks < kMinBandTicks then 0 else bit_floor (min ticks kMaxBandTicks))"

definition new_matching_book :: "u32 \<Rightarrow> MatchingBook" where
  "new_matching_book band =
     \<lparr>mb_slab = [], mb_live_count = 0, mb_slab_capacity = 0, mb_free_head = kNil,
      mb_bids = new_side_index Buy band, mb_asks = new_side_index Sell band\<rparr>"

definition side_of :: "Side \<Rightarrow> MatchingBook \<Rightarrow> SideIndex" where
  "side_of sd b = (if sd = Buy then mb_bids b else mb_asks b)"

definition set_side :: "Side \<Rightarrow> SideIndex \<Rightarrow> MatchingBook \<Rightarrow> MatchingBook" where
  \<comment> \<open>a write through the reference \<open>side_of\<close> returned\<close>
  "set_side sd s b = (if sd = Buy then b\<lparr>mb_bids := s\<rparr> else b\<lparr>mb_asks := s\<rparr>)"

definition slab_at :: "u32 \<Rightarrow> SlabOrder list \<Rightarrow> SlabOrder option" where
  "slab_at i sl = (if unat i < length sl then Some (sl ! unat i) else None)"

definition slab_update :: "u32 \<Rightarrow> (SlabOrder \<Rightarrow> SlabOrder) \<Rightarrow> MatchingBook \<Rightarrow> MatchingBook option" where
  "slab_update i f b =
     (if unat i < length (mb_slab b)
      then Some (b\<lparr>mb_slab := (mb_slab b)[unat i := f (mb_slab b ! unat i)]\<rparr>) else None)"

section \<open>Slots and links\<close>

definition acquire_slot :: "BookOrder \<Rightarrow> MatchingBook \<Rightarrow> (u32 \<times> MatchingBook) option" where
  "acquire_slot order b =
     (if mb_free_head b \<noteq> kNil
      then do {
        let slot = mb_free_head b;
        e \<leftarrow> slab_at slot (mb_slab b);
        b2 \<leftarrow> slab_update slot (\<lambda>e. e\<lparr>so_order := order\<rparr>) (b\<lparr>mb_free_head := so_next e\<rparr>);
        Some (slot, b2)
      }
      else
        let sl = mb_slab b @ [\<lparr>so_order = order, so_next = kNil, so_prev = kNil\<rparr>]
        in Some (word_of_nat (length sl - 1), b\<lparr>mb_slab := sl, mb_slab_capacity := length sl\<rparr>))"

definition release_slot :: "u32 \<Rightarrow> MatchingBook \<Rightarrow> MatchingBook option" where
  "release_slot slot b = do {
     b1 \<leftarrow> slab_update slot (\<lambda>e. e\<lparr>so_next := mb_free_head b\<rparr>) b;
     Some (b1\<lparr>mb_free_head := slot\<rparr>)
   }"

definition link_back :: "LevelSlot \<Rightarrow> u32 \<Rightarrow> MatchingBook \<Rightarrow> (LevelSlot \<times> MatchingBook) option" where
  "link_back level slot b = do {
     b1 \<leftarrow> slab_update slot (\<lambda>e. e\<lparr>so_next := kNil\<rparr>) b;
     b2 \<leftarrow> slab_update slot (\<lambda>e. e\<lparr>so_prev := ls_tail level\<rparr>) b1;
     (l1, b3) \<leftarrow>
       (if ls_tail level = kNil then Some (level\<lparr>ls_head := slot\<rparr>, b2)
        else do {
          b3 \<leftarrow> slab_update (ls_tail level) (\<lambda>e. e\<lparr>so_next := slot\<rparr>) b2;
          Some (level, b3)
        });
     Some (l1\<lparr>ls_tail := slot\<rparr>, b3)
   }"

definition unlink :: "LevelSlot \<Rightarrow> u32 \<Rightarrow> MatchingBook \<Rightarrow> (LevelSlot \<times> MatchingBook) option" where
  "unlink level slot b = do {
     e \<leftarrow> slab_at slot (mb_slab b);
     let nxt = so_next e;
     let prv = so_prev e;
     (l1, b1) \<leftarrow>
       (if prv = kNil then Some (level\<lparr>ls_head := nxt\<rparr>, b)
        else do { b1 \<leftarrow> slab_update prv (\<lambda>e. e\<lparr>so_next := nxt\<rparr>) b; Some (level, b1) });
     (if nxt = kNil then Some (l1\<lparr>ls_tail := prv\<rparr>, b1)
      else do { b2 \<leftarrow> slab_update nxt (\<lambda>e. e\<lparr>so_prev := prv\<rparr>) b1; Some (l1, b2) })
   }"

section \<open>Operations\<close>

definition add :: "BookOrder \<Rightarrow> MatchingBook \<Rightarrow> (u32 \<times> MatchingBook) option" where
  "add order b = do {
     (slot, b1) \<leftarrow> acquire_slot order b;
     let s1 = level_for (bo_price order) (side_of (bo_side order) b1);
     level \<leftarrow> level_at (bo_price order) s1;
     (level', b2) \<leftarrow> link_back level slot (set_side (bo_side order) s1 b1);
     let b3 = set_side (bo_side order) (store_level (bo_price order) level' s1) b2;
     Some (slot, b3\<lparr>mb_live_count := mb_live_count b3 + 1\<rparr>)
   }"

definition remove_at :: "u32 \<Rightarrow> MatchingBook \<Rightarrow> (BookOrder \<times> MatchingBook) option" where
  "remove_at handle b = do {
     e \<leftarrow> slab_at handle (mb_slab b);
     let removed = so_order e;
     let side = side_of (bo_side removed) b;
     level \<leftarrow> find_level (bo_price removed) side;
     (level', b1) \<leftarrow> unlink level handle b;
     let side1 = store_level (bo_price removed) level' side;
     let side2 = (if ls_head level' = kNil then erase_level (bo_price removed) side1 else side1);
     b2 \<leftarrow> release_slot handle (set_side (bo_side removed) side2 b1);
     Some (removed, b2\<lparr>mb_live_count := mb_live_count b2 - 1\<rparr>)
   }"

definition reduce_at :: "u32 \<Rightarrow> Quantity \<Rightarrow> MatchingBook \<Rightarrow> MatchingBook option" where
  "reduce_at handle q b = slab_update handle (\<lambda>e. e\<lparr>so_order := (so_order e)\<lparr>bo_remaining_quantity := q\<rparr>\<rparr>) b"

definition set_client_order_id_at :: "u32 \<Rightarrow> ClientOrderId \<Rightarrow> MatchingBook \<Rightarrow> MatchingBook option" where
  "set_client_order_id_at handle c b =
     slab_update handle (\<lambda>e. e\<lparr>so_order := (so_order e)\<lparr>bo_client_order_id := c\<rparr>\<rparr>) b"

definition at :: "u32 \<Rightarrow> MatchingBook \<Rightarrow> BookOrder option" where
  "at handle b = map_option so_order (slab_at handle (mb_slab b))"

text \<open>The outer option is definedness, the inner one the value of the C++ \<open>std::optional\<close> or pointer.\<close>

definition best_of_side :: "SideIndex \<Rightarrow> Price option option" where
  "best_of_side s = (if si_empty s then Some None else map_option Some (best_price s))"

definition best_bid_price :: "MatchingBook \<Rightarrow> Price option option" where
  "best_bid_price b = best_of_side (mb_bids b)"

definition best_ask_price :: "MatchingBook \<Rightarrow> Price option option" where
  "best_ask_price b = best_of_side (mb_asks b)"

definition front_slot :: "SideIndex \<Rightarrow> u32 option" where
  \<comment> \<open>\<open>side.level_at(side.best_price()).head\<close>\<close>
  "front_slot s = do { p \<leftarrow> best_price s; level \<leftarrow> level_at p s; Some (ls_head level) }"

definition front_of_best :: "Side \<Rightarrow> MatchingBook \<Rightarrow> BookOrder option option" where
  "front_of_best sd b =
     (if si_empty (side_of sd b) then Some None
      else do { slot \<leftarrow> front_slot (side_of sd b); e \<leftarrow> slab_at slot (mb_slab b); Some (Some (so_order e)) })"

definition reduce_front :: "Side \<Rightarrow> Quantity \<Rightarrow> MatchingBook \<Rightarrow> MatchingBook option" where
  "reduce_front sd q b = do { slot \<leftarrow> front_slot (side_of sd b); reduce_at slot q b }"

definition remove_front :: "Side \<Rightarrow> MatchingBook \<Rightarrow> MatchingBook option" where
  "remove_front sd b = do {
     let side = side_of sd b;
     price \<leftarrow> best_price side;
     level \<leftarrow> level_at price side;
     let head = ls_head level;
     (level', b1) \<leftarrow> unlink level head b;
     b2 \<leftarrow> release_slot head (set_side sd (store_level price level' side) b1);
     let b3 = b2\<lparr>mb_live_count := mb_live_count b2 - 1\<rparr>;
     Some (if ls_head level' = kNil then set_side sd (erase_level price (side_of sd b3)) b3 else b3)
   }"

text \<open>The inner loop stops early with \<open>True\<close> as soon as the quantity is covered.\<close>

partial_function (option) cross_queue ::
  "SlabOrder list \<Rightarrow> u32 \<Rightarrow> Quantity \<Rightarrow> Quantity \<Rightarrow> (Quantity \<times> bool) option" where
  "cross_queue sl slot acc q =
     (if slot = kNil then Some (acc, False)
      else do {
        e \<leftarrow> slab_at slot sl;
        let t = acc + bo_remaining_quantity (so_order e);
        if q \<le> t then Some (t, True) else cross_queue sl (so_next e) t q
      })"

partial_function (option) cross_levels ::
  "SlabOrder list \<Rightarrow> SideIndex \<Rightarrow> bool \<Rightarrow> Price \<Rightarrow> Quantity \<Rightarrow> Price option \<Rightarrow> Quantity \<Rightarrow> Quantity option" where
  "cross_levels sl s bids price q lp acc =
     (case lp of
        None \<Rightarrow> Some acc
      | Some p \<Rightarrow>
          if (if bids then sless p price else sless price p) then Some acc
          else do {
            level \<leftarrow> level_at p s;
            (t, covered) \<leftarrow> cross_queue sl (ls_head level) acc q;
            if covered then Some t else cross_levels sl s bids price q (next_price p s) t
          })"

definition crossable_quantity :: "Side \<Rightarrow> Price \<Rightarrow> Quantity \<Rightarrow> MatchingBook \<Rightarrow> Quantity option" where
  "crossable_quantity sd price q b =
     (let s = side_of sd b
      in if si_empty s then Some 0
         else do { p \<leftarrow> best_price s; cross_levels (mb_slab b) s (sd = Buy) price q (Some p) 0 })"

partial_function (option) collect_queue :: "SlabOrder list \<Rightarrow> u32 \<Rightarrow> BookOrder list \<Rightarrow> BookOrder list option" where
  "collect_queue sl slot acc =
     (if slot = kNil then Some acc
      else do { e \<leftarrow> slab_at slot sl; collect_queue sl (so_next e) (acc @ [so_order e]) })"

partial_function (option) collect_levels ::
  "SlabOrder list \<Rightarrow> SideIndex \<Rightarrow> Price option \<Rightarrow> BookOrder list \<Rightarrow> BookOrder list option" where
  "collect_levels sl s lp acc =
     (case lp of
        None \<Rightarrow> Some acc
      | Some p \<Rightarrow> do {
          level \<leftarrow> level_at p s;
          acc' \<leftarrow> collect_queue sl (ls_head level) acc;
          collect_levels sl s (next_price p s) acc'
        })"

definition all_of :: "Side \<Rightarrow> MatchingBook \<Rightarrow> BookOrder list option" where
  "all_of sd b =
     (let s = side_of sd b
      in if si_empty s then Some []
         else do { p \<leftarrow> best_price s; collect_levels (mb_slab b) s (Some p) [] })"

definition all_bids :: "MatchingBook \<Rightarrow> BookOrder list option" where
  "all_bids b = all_of Buy b"

definition all_asks :: "MatchingBook \<Rightarrow> BookOrder list option" where
  "all_asks b = all_of Sell b"

definition out_of_band_levels :: "MatchingBook \<Rightarrow> nat" where
  "out_of_band_levels b = length (si_overflow (mb_bids b)) + length (si_overflow (mb_asks b))"

fun count_queues :: "SlabOrder list \<Rightarrow> (Price \<times> LevelSlot) list \<Rightarrow> nat \<Rightarrow> nat option" where
  "count_queues sl [] acc = Some acc"
| "count_queues sl ((p, level) # rest) acc =
     do { os \<leftarrow> collect_queue sl (ls_head level) []; count_queues sl rest (acc + length os) }"

definition out_of_band_orders :: "MatchingBook \<Rightarrow> nat option" where
  "out_of_band_orders b =
     do { t \<leftarrow> count_queues (mb_slab b) (si_overflow (mb_bids b)) 0; count_queues (mb_slab b) (si_overflow (mb_asks b)) t }"

section \<open>Queues in the slab\<close>

text \<open>The links and the orders of a slab as functions of the slot.\<close>

definition nx :: "SlabOrder list \<Rightarrow> u32 \<Rightarrow> u32" where
  "nx sl x = so_next (sl ! unat x)"

definition pv :: "SlabOrder list \<Rightarrow> u32 \<Rightarrow> u32" where
  "pv sl x = so_prev (sl ! unat x)"

definition od :: "SlabOrder list \<Rightarrow> u32 \<Rightarrow> BookOrder" where
  "od sl x = so_order (sl ! unat x)"

lemma slab_fun_upd:
  assumes "unat i < length sl"
  shows "nx (sl[unat i := e]) = (nx sl)(i := so_next e)" "pv (sl[unat i := e]) = (pv sl)(i := so_prev e)"
    "od (sl[unat i := e]) = (od sl)(i := so_order e)"
  using assms by (auto simp: nx_def pv_def od_def fun_eq_iff nth_list_update word_unat_eq_iff)

text \<open>
  \<open>seg n f g p h xs t k\<close>: following \<open>f\<close> from \<open>h\<close> visits the slots \<open>xs\<close>, all below \<open>n\<close>, and arrives at
  \<open>k\<close>; \<open>g\<close> leads back from each to the one before it, the first one to \<open>p\<close>; \<open>t\<close> is the last slot.
\<close>

fun seg :: "nat \<Rightarrow> (u32 \<Rightarrow> u32) \<Rightarrow> (u32 \<Rightarrow> u32) \<Rightarrow> u32 \<Rightarrow> u32 \<Rightarrow> u32 list \<Rightarrow> u32 \<Rightarrow> u32 \<Rightarrow> bool" where
  "seg n f g p h [] t k \<longleftrightarrow> h = k \<and> t = p"
| "seg n f g p h (x # xs) t k \<longleftrightarrow> h = x \<and> x \<noteq> kNil \<and> unat x < n \<and> g x = p \<and> seg n f g x (f x) xs t k"

lemma seg_append:
  "seg n f g p h (xs @ ys) t k \<longleftrightarrow> (\<exists>m j. seg n f g p h xs m j \<and> seg n f g m j ys t k)"
  by (induction xs arbitrary: p h) auto

lemma seg_mem: "seg n f g p h xs t k \<Longrightarrow> x \<in> set xs \<Longrightarrow> x \<noteq> kNil \<and> unat x < n"
  by (induction xs arbitrary: p h) auto

lemma seg_last: "seg n f g p h xs t k \<Longrightarrow> xs \<noteq> [] \<Longrightarrow> t = last xs"
  by (induction xs arbitrary: p h) (auto split: if_splits)

lemma seg_first: "seg n f g p h xs t k \<Longrightarrow> xs \<noteq> [] \<Longrightarrow> h = hd xs"
  by (cases xs) auto

lemma seg_frame:
  assumes "seg n f g p h xs t k" "\<And>x. x \<in> set xs \<Longrightarrow> f' x = f x" "\<And>x. x \<in> set xs \<Longrightarrow> g' x = g x" "n \<le> n'"
  shows "seg n' f' g' p h xs t k"
  using assms by (induction xs arbitrary: p h) auto

lemma seg_relink_next:
  assumes "seg n f g p h xs m x" "xs \<noteq> []" "distinct xs"
  shows "seg n (f(m := k)) g p h xs m k"
proof -
  obtain ys where xs: "xs = ys @ [m]"
    using seg_last [OF assms(1,2)] assms(2) append_butlast_last_id by metis
  obtain l where "seg n f g p h ys l m" "m \<noteq> kNil" "unat m < n" "g m = l"
    using assms(1) by (auto simp: xs seg_append)
  moreover have "m \<notin> set ys" using assms(3) xs by simp
  then have "(f(m := k)) x = f x" if "x \<in> set ys" for x using that by auto
  ultimately show ?thesis
    using seg_frame [of n f g p h ys l m "f(m := k)" g n] by (auto simp: xs seg_append)
qed

lemma seg_relink_prev:
  assumes "seg n f g x k xs t e" "xs \<noteq> []" "distinct xs"
  shows "seg n f (g(k := m)) m k xs t e"
proof (cases xs)
  case (Cons y ys)
  then have "y \<notin> set ys" using assms(3) by simp
  then have "(g(y := m)) x = g x" if "x \<in> set ys" for x using that by auto
  with Cons show ?thesis
    using assms(1) seg_frame [of n f g y "f y" ys t e f "g(y := m)" n] by auto
qed (use assms in simp)

lemma seg_start: "seg n f g p h xs t kNil \<Longrightarrow> h = kNil \<longleftrightarrow> xs = []"
  by (cases xs) auto

lemma seg_end: "seg n f g kNil h xs t k \<Longrightarrow> t = kNil \<longleftrightarrow> xs = []"
proof (cases "xs = []")
  case False
  assume s: "seg n f g kNil h xs t k"
  then have "t \<in> set xs" using seg_last [OF s False] False by simp
  then show ?thesis using seg_mem [OF s] False by blast
qed simp

lemma seg_unique: "seg n f g p h xs t kNil \<Longrightarrow> seg n f g p' h ys t' kNil \<Longrightarrow> xs = ys"
proof (induction xs arbitrary: p p' h ys)
  case Nil
  then show ?case by (cases ys) auto
next
  case (Cons x xs)
  then show ?case by (cases ys) auto
qed

text \<open>\<open>chain n f h\<close>: the slots reached from \<open>h\<close>, at most \<open>n\<close> of them.\<close>

fun chain :: "nat \<Rightarrow> (u32 \<Rightarrow> u32) \<Rightarrow> u32 \<Rightarrow> u32 list" where
  "chain 0 f h = []"
| "chain (Suc n) f h = (if h = kNil then [] else h # chain n f (f h))"

lemma chain_seg: "seg n f g p h xs t kNil \<Longrightarrow> length xs \<le> j \<Longrightarrow> chain j f h = xs"
proof (induction xs arbitrary: p h j)
  case Nil
  then show ?case by (cases j) auto
next
  case (Cons x xs)
  then show ?case by (cases j) auto
qed

lemma chain_any: "chain j f kNil = []"
  by (cases j) auto

lemma slots_bounded:
  assumes "distinct xs" "\<And>x. x \<in> set xs \<Longrightarrow> unat (x :: u32) < n"
  shows "length xs \<le> n"
proof -
  have "card (unat ` set xs) \<le> card {..<n}" by (rule card_mono) (use assms(2) in auto)
  then show ?thesis using distinct_card [OF assms(1)] card_image [of unat "set xs"] by (simp add: inj_on_def word_unat_eq_iff)
qed

text \<open>The free list, threaded through \<open>next\<close> alone.\<close>

fun free_chain :: "nat \<Rightarrow> (u32 \<Rightarrow> u32) \<Rightarrow> u32 \<Rightarrow> u32 list \<Rightarrow> bool" where
  "free_chain n f h [] \<longleftrightarrow> h = kNil"
| "free_chain n f h (x # xs) \<longleftrightarrow> h = x \<and> x \<noteq> kNil \<and> unat x < n \<and> free_chain n f (f x) xs"

lemma free_chain_frame:
  "free_chain n f h xs \<Longrightarrow> (\<And>x. x \<in> set xs \<Longrightarrow> f' x = f x) \<Longrightarrow> n \<le> n' \<Longrightarrow> free_chain n' f' h xs"
  by (induction xs arbitrary: h) auto

section \<open>The representation of a book\<close>

type_synonym Queues = "Side \<Rightarrow> Price \<Rightarrow> u32 list"

definition live_slots :: "Queues \<Rightarrow> u32 set" where
  "live_slots Q = {x. \<exists>sd p. x \<in> set (Q sd p)}"

definition level_rep :: "MatchingBook \<Rightarrow> LevelSlot option \<Rightarrow> u32 list \<Rightarrow> bool" where
  "level_rep b lo xs \<longleftrightarrow>
     (case lo of
        None \<Rightarrow> xs = []
      | Some l \<Rightarrow> xs \<noteq> [] \<and> seg (length (mb_slab b)) (nx (mb_slab b)) (pv (mb_slab b)) kNil (ls_head l) xs (ls_tail l) kNil)"

text \<open>
  \<open>book_held b Q fs H\<close>: the sides' levels hold the queues \<open>Q\<close>, the free list holds \<open>fs\<close>, and the slots
  \<open>H\<close> are in neither, as a slot is between \<open>acquire_slot\<close> and \<open>link_back\<close>, or \<open>unlink\<close> and \<open>release_slot\<close>.
\<close>

definition book_held :: "MatchingBook \<Rightarrow> Queues \<Rightarrow> u32 list \<Rightarrow> u32 set \<Rightarrow> bool" where
  "book_held b Q fs H \<longleftrightarrow>
     (\<forall>sd. si_inv (side_of sd b) \<and> si_side (side_of sd b) = sd) \<and>
     (\<forall>sd p. level_rep b (find_level p (side_of sd b)) (Q sd p) \<and> distinct (Q sd p)) \<and>
     (\<forall>sd p. \<forall>x \<in> set (Q sd p). bo_side (od (mb_slab b) x) = sd \<and> bo_price (od (mb_slab b) x) = p) \<and>
     free_chain (length (mb_slab b)) (nx (mb_slab b)) (mb_free_head b) fs \<and> distinct fs \<and>
     set fs \<inter> live_slots Q = {} \<and> H \<inter> (set fs \<union> live_slots Q) = {} \<and>
     H \<union> set fs \<union> live_slots Q = {x. unat x < length (mb_slab b)} \<and>
     mb_slab_capacity b = length (mb_slab b) \<and> length (mb_slab b) < 2 ^ 32"

definition book_rep :: "MatchingBook \<Rightarrow> Queues \<Rightarrow> u32 list \<Rightarrow> bool" where
  "book_rep b Q fs \<longleftrightarrow> book_held b Q fs {} \<and> unat (mb_live_count b) = card (live_slots Q)"

lemma book_heldD:
  assumes "book_held b Q fs H"
  shows "si_inv (side_of sd b)" "si_side (side_of sd b) = sd"
    "level_rep b (find_level p (side_of sd b)) (Q sd p)" "distinct (Q sd p)"
    "x \<in> set (Q sd p) \<Longrightarrow> bo_side (od (mb_slab b) x) = sd"
    "x \<in> set (Q sd p) \<Longrightarrow> bo_price (od (mb_slab b) x) = p"
    "free_chain (length (mb_slab b)) (nx (mb_slab b)) (mb_free_head b) fs" "distinct fs"
    "set fs \<inter> live_slots Q = {}" "H \<inter> (set fs \<union> live_slots Q) = {}"
    "H \<union> set fs \<union> live_slots Q = {x. unat x < length (mb_slab b)}"
    "mb_slab_capacity b = length (mb_slab b)" "length (mb_slab b) < 2 ^ 32"
  using assms by (auto simp: book_held_def)

lemma live_slots_same:
  assumes "book_held b Q fs H" "x \<in> set (Q sd p)" "x \<in> set (Q sd' p')"
  shows "sd' = sd" "p' = p"
  using book_heldD(5,6) [OF assms(1) assms(2)] book_heldD(5,6) [OF assms(1) assms(3)] by auto

lemma level_exists:
  assumes "book_held b Q fs H" "Q sd p \<noteq> []"
  obtains l where "find_level p (side_of sd b) = Some l"
    "seg (length (mb_slab b)) (nx (mb_slab b)) (pv (mb_slab b)) kNil (ls_head l) (Q sd p) (ls_tail l) kNil"
  using book_heldD(3) [OF assms(1), of p sd] assms(2)
  by (cases "find_level p (side_of sd b)") (auto simp: level_rep_def)

lemma find_level_iff: "book_held b Q fs H \<Longrightarrow> find_level p (side_of sd b) \<noteq> None \<longleftrightarrow> Q sd p \<noteq> []"
  using book_heldD(3) [of b Q fs H p sd] by (cases "find_level p (side_of sd b)") (auto simp: level_rep_def)

lemma live_slot_mem: "x \<in> set (Q sd p) \<Longrightarrow> x \<in> live_slots Q"
  by (auto simp: live_slots_def)

lemma live_slot_bounds: "book_held b Q fs H \<Longrightarrow> x \<in> set (Q sd p) \<Longrightarrow> x \<noteq> kNil \<and> unat x < length (mb_slab b)"
proof -
  assume b: "book_held b Q fs H" and x: "x \<in> set (Q sd p)"
  then have ne: "Q sd p \<noteq> []" by auto
  obtain l where "find_level p (side_of sd b) = Some l"
    and l: "seg (length (mb_slab b)) (nx (mb_slab b)) (pv (mb_slab b)) kNil (ls_head l) (Q sd p) (ls_tail l) kNil"
    by (rule level_exists [OF b ne])
  show ?thesis using seg_mem [OF l x] .
qed

text \<open>The queues as a function of the book, and the priority list of a side.\<close>

definition queue_of :: "MatchingBook \<Rightarrow> Queues" where
  "queue_of b sd p =
     (case find_level p (side_of sd b) of
        None \<Rightarrow> []
      | Some l \<Rightarrow> chain (length (mb_slab b)) (nx (mb_slab b)) (ls_head l))"

lemma queue_of_held:
  assumes "book_held b Q fs H"
  shows "queue_of b = Q"
proof (intro ext)
  fix sd p
  have len: "length (Q sd p) \<le> length (mb_slab b)"
    using slots_bounded [OF book_heldD(4) [OF assms]] live_slot_bounds [OF assms] by blast
  show "queue_of b sd p = Q sd p"
  proof (cases "find_level p (side_of sd b)")
    case None
    then show ?thesis using book_heldD(3) [OF assms, of p sd] by (simp add: queue_of_def level_rep_def)
  next
    case (Some l)
    then show ?thesis
      using book_heldD(3) [OF assms, of p sd] by (auto simp: queue_of_def level_rep_def intro: chain_seg [OF _ len])
  qed
qed

definition book_inv :: "MatchingBook \<Rightarrow> bool" where
  "book_inv b \<longleftrightarrow> (\<exists>fs. book_rep b (queue_of b) fs)"

lemma queue_of_rep: "book_rep b Q fs \<Longrightarrow> queue_of b = Q"
  by (auto simp: book_rep_def queue_of_held)

lemma book_invI: "book_rep b Q fs \<Longrightarrow> book_inv b"
  unfolding book_inv_def using queue_of_rep by metis

text \<open>The orders at the given prices, each with its slot.\<close>

definition entries :: "MatchingBook \<Rightarrow> u32 list \<Rightarrow> (u32 \<times> BookOrder) list" where
  "entries b xs = map (\<lambda>x. (x, od (mb_slab b) x)) xs"

definition orders_in :: "MatchingBook \<Rightarrow> Queues \<Rightarrow> Side \<Rightarrow> Price set \<Rightarrow> (u32 \<times> BookOrder) list" where
  "orders_in b Q sd D = concat (map (\<lambda>p. entries b (Q sd p)) (price_walk sd {p \<in> D. Q sd p \<noteq> []}))"

definition orders_of :: "MatchingBook \<Rightarrow> Side \<Rightarrow> (u32 \<times> BookOrder) list" where
  "orders_of b sd = orders_in b (queue_of b) sd UNIV"

lemma side_simps [simp]:
  "side_of sd (set_side sd' s b) = (if sd = sd' then s else side_of sd b)"
  "mb_slab (set_side sd s b) = mb_slab b" "mb_live_count (set_side sd s b) = mb_live_count b"
  "mb_slab_capacity (set_side sd s b) = mb_slab_capacity b" "mb_free_head (set_side sd s b) = mb_free_head b"
  "side_of sd (b\<lparr>mb_slab := sl\<rparr>) = side_of sd b" "side_of sd (b\<lparr>mb_live_count := c\<rparr>) = side_of sd b"
  "side_of sd (b\<lparr>mb_slab_capacity := n\<rparr>) = side_of sd b" "side_of sd (b\<lparr>mb_free_head := h\<rparr>) = side_of sd b"
  by (cases sd; cases sd'; auto simp: side_of_def set_side_def)+


lemma finite_prices: "book_held b Q fs H \<Longrightarrow> finite {p. Q sd p \<noteq> []}"
  using si.finite_dom [OF book_heldD(1)] find_level_iff by fastforce

lemma set_orders_in:
  assumes "book_held b Q fs H"
  shows "set (orders_in b Q sd D) = {(x, od (mb_slab b) x) | x p. p \<in> D \<and> x \<in> set (Q sd p)}"
proof -
  have "finite {p \<in> D. Q sd p \<noteq> []}" using finite_prices [OF assms, of sd] by (simp add: Collect_conj_eq)
  note w = price_walk(1) [OF this]
  show ?thesis by (fastforce simp: orders_in_def w entries_def)
qed

lemma set_orders_of:
  assumes "book_rep b Q fs"
  shows "set (orders_of b sd) = {(x, od (mb_slab b) x) | x p. x \<in> set (Q sd p)}"
  using assms unfolding orders_of_def queue_of_rep [OF assms] book_rep_def by (auto simp: set_orders_in)

text \<open>A side's list splits at any price into what comes before it, its queue, and what comes after.\<close>

definition before :: "Side \<Rightarrow> Price \<Rightarrow> Price set" where
  "before sd p = {q. prio sd q < prio sd p}"

definition after :: "Side \<Rightarrow> Price \<Rightarrow> Price set" where
  "after sd p = {q. prio sd p < prio sd q}"

lemma orders_of_split:
  assumes "book_held b Q fs H"
  shows "orders_in b Q sd UNIV = orders_in b Q sd (before sd p) @ entries b (Q sd p) @ orders_in b Q sd (after sd p)"
proof -
  let ?D = "\<lambda>A. {q \<in> A. Q sd q \<noteq> []}"
  have fin: "finite (?D A)" for A using finite_prices [OF assms, of sd] by (simp add: Collect_conj_eq)
  have w: "set (price_walk sd (?D A)) = ?D A" "by_prio sd (price_walk sd (?D A))" for A
    using price_walk [OF fin] by blast+
  let ?mid = "if Q sd p = [] then [] else [p]"
  have "price_walk sd (?D UNIV) = price_walk sd (?D (before sd p)) @ ?mid @ price_walk sd (?D (after sd p))"
  proof (rule price_walk_of_prio)
    have "q \<in> ?D UNIV \<longleftrightarrow> q \<in> ?D (before sd p) \<or> q \<in> set ?mid \<or> q \<in> ?D (after sd p)" for q
      using linorder_less_linear [of "prio sd q" "prio sd p"] by (auto simp: before_def after_def)
    then show "set (price_walk sd (?D (before sd p)) @ ?mid @ price_walk sd (?D (after sd p))) = ?D UNIV"
      unfolding set_append w(1) by blast
    have "by_prio sd ?mid" by simp
    then show "by_prio sd (price_walk sd (?D (before sd p)) @ ?mid @ price_walk sd (?D (after sd p)))"
      unfolding sorted_wrt_append set_append w(1) using w(2) [of "before sd p"] w(2) [of "after sd p"]
      by (simp add: before_def after_def)
  qed
  then show ?thesis by (simp add: orders_in_def entries_def)
qed

lemma orders_in_cong:
  assumes "\<And>q. q \<in> D \<Longrightarrow> Q' sd q = Q sd q" "\<And>q x. q \<in> D \<Longrightarrow> x \<in> set (Q sd q) \<Longrightarrow> od (mb_slab b') x = od (mb_slab b) x"
    "finite {p \<in> D. Q sd p \<noteq> []}"
  shows "orders_in b' Q' sd D = orders_in b Q sd D"
proof -
  have D: "{p \<in> D. Q' sd p \<noteq> []} = {p \<in> D. Q sd p \<noteq> []}" using assms(1) by auto
  have "entries b' (Q' sd p) = entries b (Q sd p)" if "p \<in> D" for p
    using assms(1,2) [OF that] by (simp add: entries_def)
  then show ?thesis
    unfolding orders_in_def D using price_walk(1) [OF assms(3)]
    by (intro arg_cong [where f = concat] map_cong refl) auto
qed

section \<open>Slots move between the free list and the queues\<close>

lemma slab_at_simp: "unat i < length sl \<Longrightarrow> slab_at i sl = Some (sl ! unat i)"
  by (simp add: slab_at_def)

lemma slab_update_simp:
  "unat i < length (mb_slab b) \<Longrightarrow>
     slab_update i f b = Some (b\<lparr>mb_slab := (mb_slab b)[unat i := f (mb_slab b ! unat i)]\<rparr>)"
  by (simp add: slab_update_def)

lemma level_rep_frame:
  assumes "level_rep b lo xs" "\<And>x. x \<in> set xs \<Longrightarrow> nx (mb_slab b') x = nx (mb_slab b) x"
    "\<And>x. x \<in> set xs \<Longrightarrow> pv (mb_slab b') x = pv (mb_slab b) x" "length (mb_slab b) \<le> length (mb_slab b')"
  shows "level_rep b' lo xs"
  using assms seg_frame [of _ "nx (mb_slab b)" "pv (mb_slab b)" kNil _ xs _ kNil]
  unfolding level_rep_def by (fastforce split: option.splits)

text \<open>The frame rule: a step that keeps the sides, the orders and links of the live slots keeps the queues.\<close>

lemma book_held_frame:
  assumes b: "book_held b Q fs H"
    and sides: "\<And>sd. side_of sd b' = side_of sd b"
    and live: "\<And>x. x \<in> live_slots Q \<Longrightarrow> nx (mb_slab b') x = nx (mb_slab b) x"
      "\<And>x. x \<in> live_slots Q \<Longrightarrow> pv (mb_slab b') x = pv (mb_slab b) x"
      "\<And>x. x \<in> live_slots Q \<Longrightarrow>
         bo_side (od (mb_slab b') x) = bo_side (od (mb_slab b) x) \<and> bo_price (od (mb_slab b') x) = bo_price (od (mb_slab b) x)"
    and free: "free_chain (length (mb_slab b')) (nx (mb_slab b')) (mb_free_head b') fs'" "distinct fs'"
    and slots: "set fs' \<inter> live_slots Q = {}" "H' \<inter> (set fs' \<union> live_slots Q) = {}"
      "H' \<union> set fs' \<union> live_slots Q = {x. unat x < length (mb_slab b')}"
    and len: "length (mb_slab b) \<le> length (mb_slab b')" "length (mb_slab b') < 2 ^ 32" "mb_slab_capacity b' = length (mb_slab b')"
  shows "book_held b' Q fs' H'"
proof -
  have "level_rep b' (find_level p (side_of sd b')) (Q sd p)" for sd p
    unfolding sides by (rule level_rep_frame [OF book_heldD(3) [OF b] _ _ len(1)]) (auto simp: live live_slot_mem)
  moreover have "bo_side (od (mb_slab b') x) = sd \<and> bo_price (od (mb_slab b') x) = p" if "x \<in> set (Q sd p)" for sd p x
    using book_heldD(5,6) [OF b that] live(3) [OF live_slot_mem [of x Q sd p]] that by simp
  ultimately show ?thesis
    using book_heldD(1,2,4) [OF b] free slots len(2,3) unfolding book_held_def by (simp add: sides)
qed

lemma kNil_value: "kNil = 4294967295"
  by (simp add: kNil_def)

lemma card_slots: "n \<le> 2 ^ 32 \<Longrightarrow> card {x :: u32. unat x < n} = n"
proof -
  assume n: "n \<le> 2 ^ 32"
  have "unat ` {x :: u32. unat x < n} = {..<n}"
  proof (intro set_eqI iffI)
    fix k assume "k \<in> {..<n}"
    then have "unat (word_of_nat k :: u32) = k" using n by (simp add: unat_of_nat take_bit_nat_eq_self)
    then show "k \<in> unat ` {x :: u32. unat x < n}" using \<open>k \<in> {..<n}\<close> by (intro image_eqI [where x = "word_of_nat k"]) auto
  qed auto
  then have "card (unat ` {x :: u32. unat x < n}) = n" by simp
  then show ?thesis by (subst (asm) card_image) (auto simp: inj_on_def word_unat_eq_iff)
qed

lemma finite_live_slots [simp]: "finite (live_slots Q)"
  by simp

lemma acquire_slot:
  assumes b: "book_held b Q fs {}" and room: "card (live_slots Q) < 2 ^ 32 - 1"
  obtains slot b1 fs' where "acquire_slot order b = Some (slot, b1)" "book_held b1 Q fs' {slot}" "slot \<noteq> kNil"
    "od (mb_slab b1) slot = order" "\<forall>x \<in> live_slots Q. od (mb_slab b1) x = od (mb_slab b) x"
    "\<forall>sd. side_of sd b1 = side_of sd b" "mb_live_count b1 = mb_live_count b"
    "length (mb_slab b1) = (if fs = [] then length (mb_slab b) + 1 else length (mb_slab b))"
proof (cases fs)
  case Nil
  let ?n = "length (mb_slab b)"
  let ?sl = "mb_slab b @ [\<lparr>so_order = order, so_next = kNil, so_prev = kNil\<rparr>]"
  let ?b1 = "b\<lparr>mb_slab := ?sl, mb_slab_capacity := length ?sl\<rparr>"
  let ?slot = "word_of_nat ?n :: u32"
  have head: "mb_free_head b = kNil" using book_heldD(7) [OF b] Nil by simp
  have live: "live_slots Q = {x. unat x < ?n}" using book_heldD(11) [OF b] Nil by simp
  have n: "?n < 2 ^ 32 - 1" using room card_slots [of ?n] book_heldD(13) [OF b] live by simp
  then have u: "unat ?slot = ?n" by (simp add: unat_of_nat take_bit_nat_eq_self)
  have nil: "?slot \<noteq> kNil"
  proof
    assume "?slot = kNil"
    then have "unat ?slot = 2 ^ 32 - 1" by (simp add: kNil_value)
    then show False using u n by simp
  qed
  have old: "nx ?sl x = nx (mb_slab b) x" "pv ?sl x = pv (mb_slab b) x" "od ?sl x = od (mb_slab b) x"
    if "x \<in> live_slots Q" for x using that live by (simp_all add: nx_def pv_def od_def nth_append)
  have "{?slot} \<union> live_slots Q = {x. unat x < length ?sl}"
    using live u by (auto simp: less_Suc_eq word_unat_eq_iff)
  then have "book_held ?b1 Q [] {?slot}"
    using b head n Nil live u by (intro book_held_frame [OF b]) (auto simp: old side_of_def)
  moreover have "acquire_slot order b = Some (?slot, ?b1)" by (simp add: acquire_slot_def head)
  moreover have "od ?sl ?slot = order" by (simp add: od_def u)
  ultimately show thesis using that [of ?slot ?b1 "[]"] nil old(3) Nil by (simp add: side_of_def)
next
  case (Cons slot fs')
  let ?e = "mb_slab b ! unat slot"
  let ?sl = "(mb_slab b)[unat slot := ?e\<lparr>so_order := order\<rparr>]"
  let ?b1 = "b\<lparr>mb_free_head := nx (mb_slab b) slot, mb_slab := ?sl\<rparr>"
  have fc: "mb_free_head b = slot" "slot \<noteq> kNil" "unat slot < length (mb_slab b)"
    "free_chain (length (mb_slab b)) (nx (mb_slab b)) (nx (mb_slab b) slot) fs'"
    using book_heldD(7) [OF b] Cons by auto
  have "slot \<notin> live_slots Q" "slot \<notin> set fs'" using book_heldD(8,9) [OF b] Cons by auto
  have f: "nx ?sl = nx (mb_slab b)" "pv ?sl = pv (mb_slab b)" "od ?sl = (od (mb_slab b))(slot := order)"
    using fc(3) by (simp_all add: slab_fun_upd fun_upd_idem_iff nx_def pv_def)
  have "book_held ?b1 Q fs' {slot}"
    using fc book_heldD(8-13) [OF b] Cons \<open>slot \<notin> live_slots Q\<close>
    by (intro book_held_frame [OF b]) (auto simp: f side_of_def)
  moreover have "acquire_slot order b = Some (slot, ?b1)"
    using fc by (simp add: acquire_slot_def slab_at_simp slab_update_simp nx_def Let_def)
  moreover have "od ?sl slot = order" by (simp add: f)
  moreover have "od ?sl x = od (mb_slab b) x" if "x \<in> live_slots Q" for x
    using that \<open>slot \<notin> live_slots Q\<close> by (auto simp: f)
  ultimately show thesis using that [of slot ?b1 fs'] fc Cons by (simp add: side_of_def)
qed

lemma release_slot:
  assumes b: "book_held b Q fs {slot}" and nil: "slot \<noteq> kNil"
  obtains b1 where "release_slot slot b = Some b1" "book_held b1 Q (slot # fs) {}"
    "od (mb_slab b1) = od (mb_slab b)" "\<forall>sd. side_of sd b1 = side_of sd b" "mb_live_count b1 = mb_live_count b"
    "length (mb_slab b1) = length (mb_slab b)"
proof -
  let ?sl = "(mb_slab b)[unat slot := (mb_slab b ! unat slot)\<lparr>so_next := mb_free_head b\<rparr>]"
  let ?b1 = "b\<lparr>mb_slab := ?sl, mb_free_head := slot\<rparr>"
  have r: "unat slot < length (mb_slab b)" using book_heldD(11) [OF b] by blast
  have slot: "slot \<notin> set fs" "slot \<notin> live_slots Q" using book_heldD(10) [OF b] by auto
  have f: "nx ?sl = (nx (mb_slab b))(slot := mb_free_head b)" "pv ?sl = pv (mb_slab b)" "od ?sl = od (mb_slab b)"
    using r by (simp_all add: slab_fun_upd fun_upd_idem_iff od_def pv_def)
  have "free_chain (length ?sl) (nx ?sl) (mb_free_head b) fs"
    by (rule free_chain_frame [OF book_heldD(7) [OF b]]) (use slot in \<open>auto simp: f\<close>)
  then have "book_held ?b1 Q (slot # fs) {}"
    using book_heldD(8-13) [OF b] slot r nil by (intro book_held_frame [OF b]) (auto simp: f side_of_def)
  moreover have "release_slot slot b = Some ?b1" using r by (simp add: release_slot_def slab_update_simp)
  ultimately show thesis using that [of ?b1] by (simp add: f side_of_def)
qed

definition q_upd :: "Queues \<Rightarrow> Side \<Rightarrow> Price \<Rightarrow> u32 list \<Rightarrow> Queues" where
  "q_upd Q sd p xs = Q(sd := (Q sd)(p := xs))"

lemma q_upd_apply: "q_upd Q sd p xs sd' p' = (if sd' = sd \<and> p' = p then xs else Q sd' p')"
  by (simp add: q_upd_def)

lemma live_slots_snoc: "live_slots (q_upd Q sd p (Q sd p @ [x])) = insert x (live_slots Q)"
  by (auto simp: live_slots_def q_upd_apply split: if_splits)

lemma live_slots_remove:
  assumes "book_held b Q fs H" "x \<in> set (Q sd p)"
  shows "live_slots (q_upd Q sd p (filter (\<lambda>y. y \<noteq> x) (Q sd p))) = live_slots Q - {x}"
  using live_slots_same [OF assms] by (auto simp: live_slots_def q_upd_apply split: if_splits) metis+

lemma link_back:
  assumes "unat slot < length (mb_slab b)" "ls_tail l \<noteq> kNil \<Longrightarrow> unat (ls_tail l) < length (mb_slab b)"
    "ls_tail l \<noteq> slot"
  obtains sl where "link_back l slot b =
      Some (\<lparr>ls_head = if ls_tail l = kNil then slot else ls_head l, ls_tail = slot\<rparr>, b\<lparr>mb_slab := sl\<rparr>)"
    "nx sl = (if ls_tail l = kNil then (nx (mb_slab b))(slot := kNil) else (nx (mb_slab b))(slot := kNil, ls_tail l := slot))"
    "pv sl = (pv (mb_slab b))(slot := ls_tail l)" "od sl = od (mb_slab b)" "length sl = length (mb_slab b)"
proof -
  let ?s0 = "mb_slab b"
  let ?s1 = "?s0[unat slot := (?s0 ! unat slot)\<lparr>so_next := kNil\<rparr>]"
  let ?s2 = "?s1[unat slot := (?s1 ! unat slot)\<lparr>so_prev := ls_tail l\<rparr>]"
  let ?s3 = "?s2[unat (ls_tail l) := (?s2 ! unat (ls_tail l))\<lparr>so_next := slot\<rparr>]"
  have f: "nx ?s2 = (nx ?s0)(slot := kNil)" "pv ?s2 = (pv ?s0)(slot := ls_tail l)" "od ?s2 = od ?s0"
    using assms(1) by (auto simp: nx_def pv_def od_def fun_eq_iff nth_list_update word_unat_eq_iff)
  have g: "nx ?s3 = (nx ?s2)(ls_tail l := slot)" "pv ?s3 = pv ?s2" "od ?s3 = od ?s2" if "ls_tail l \<noteq> kNil"
    using assms(2) [OF that] by (auto simp: nx_def pv_def od_def fun_eq_iff nth_list_update word_unat_eq_iff)
  show thesis
  proof (cases "ls_tail l = kNil")
    case True
    then show ?thesis
      using that [of ?s2] f assms(1) by (simp add: link_back_def slab_update_simp)
  next
    case False
    then show ?thesis
      using that [of ?s3] f g assms by (simp add: link_back_def slab_update_simp)
  qed
qed

lemma seg_snoc:
  assumes "seg n f g kNil h xs t kNil" "distinct xs" "slot \<notin> set xs" "slot \<noteq> kNil" "unat slot < n"
    and "f' = (if t = kNil then f(slot := kNil) else f(slot := kNil, t := slot))" "g' = g(slot := t)"
  shows "seg n f' g' kNil (if t = kNil then slot else h) (xs @ [slot]) slot kNil"
proof (cases "xs = []")
  case True
  then show ?thesis using assms by simp
next
  case False
  note t = seg_last [OF assms(1) False]
  have nil: "t \<noteq> kNil" using seg_end [OF assms(1)] False by blast
  have ts: "t \<noteq> slot" using t False assms(3) by auto
  have "seg n (f(t := slot)) g kNil h xs t slot" by (rule seg_relink_next [OF assms(1) False assms(2)])
  then have "seg n f' g' kNil h xs t slot"
    by (rule seg_frame) (use assms(3,6,7) nil ts in auto)
  then show ?thesis using assms nil ts by (auto simp: seg_append)
qed

lemma link_level:
  assumes b: "book_held b Q fs {slot}" and nil: "slot \<noteq> kNil" and ok: "price_ok p"
    and o: "bo_side (od (mb_slab b) slot) = sd" "bo_price (od (mb_slab b) slot) = p"
  defines "s1 \<equiv> level_for p (side_of sd b)"
  obtains level level' b2 where "level_at p s1 = Some level"
    "link_back level slot (set_side sd s1 b) = Some (level', b2)"
    "book_held (set_side sd (store_level p level' s1) b2) (q_upd Q sd p (Q sd p @ [slot])) fs {}"
    "od (mb_slab b2) = od (mb_slab b)" "mb_live_count b2 = mb_live_count b"
    "length (mb_slab b2) = length (mb_slab b)"
proof -
  let ?n = "length (mb_slab b)" and ?f = "nx (mb_slab b)" and ?g = "pv (mb_slab b)"
  note c = level_for [OF book_heldD(1) [OF b, of sd] ok, folded s1_def]
  define l where "l = (case find_level p (side_of sd b) of None \<Rightarrow> empty_level | Some l \<Rightarrow> l)"
  have fl: "find_level p s1 = Some l" by (auto simp: c(3) l_def split: option.splits)
  have la: "level_at p s1 = Some l" using level_at_found [OF c(1)] fl by simp
  have sg: "seg ?n ?f ?g kNil (ls_head l) (Q sd p) (ls_tail l) kNil"
    using book_heldD(3) [OF b, of p sd] by (auto simp: l_def level_rep_def empty_level_def split: option.splits)
  have slot: "slot \<notin> live_slots Q" "slot \<notin> set fs" "unat slot < ?n" using book_heldD(10,11) [OF b] by auto
  then have nq: "slot \<notin> set (Q sd' p')" for sd' p' using live_slot_mem by blast
  have tail: "ls_tail l \<in> set (Q sd p)" if "ls_tail l \<noteq> kNil"
    using that seg_last [OF sg] seg_end [OF sg] by auto
  then have t1: "ls_tail l \<noteq> kNil \<Longrightarrow> unat (ls_tail l) < ?n" and t2: "ls_tail l \<noteq> slot"
    using live_slot_bounds [OF b] nq nil by auto
  obtain sl where lb: "link_back l slot (set_side sd s1 b) =
      Some (\<lparr>ls_head = if ls_tail l = kNil then slot else ls_head l, ls_tail = slot\<rparr>, set_side sd s1 b\<lparr>mb_slab := sl\<rparr>)"
    and nxsl: "nx sl = (if ls_tail l = kNil then ?f(slot := kNil) else ?f(slot := kNil, ls_tail l := slot))"
    and pvsl: "pv sl = ?g(slot := ls_tail l)" and odsl: "od sl = od (mb_slab b)" and len: "length sl = ?n"
    by (rule link_back [of slot "set_side sd s1 b" l, unfolded side_simps, OF slot(3) t1 t2])
  let ?l' = "\<lparr>ls_head = if ls_tail l = kNil then slot else ls_head l, ls_tail = slot\<rparr>"
  let ?b2 = "set_side sd s1 b\<lparr>mb_slab := sl\<rparr>"
  let ?b3 = "set_side sd (store_level p ?l' s1) ?b2"
  let ?Q = "q_upd Q sd p (Q sd p @ [slot])"
  have fls: "find_level p s1 \<noteq> None" using fl by simp
  note st = store_level [OF c(1) fls, where v = ?l']
  have sg': "seg ?n (nx sl) (pv sl) kNil (ls_head ?l') (Q sd p @ [slot]) slot kNil"
    using seg_snoc [OF sg book_heldD(4) [OF b] nq nil slot(3) nxsl pvsl] by simp
  have keep: "nx sl x = ?f x \<and> pv sl x = ?g x" if x: "x \<in> set (Q sd' p')" "\<not> (sd' = sd \<and> p' = p)" for x sd' p'
  proof -
    have "x \<noteq> slot" using x(1) nq [of sd' p'] by metis
    moreover have "x \<noteq> ls_tail l" if "ls_tail l \<noteq> kNil"
    proof
      assume "x = ls_tail l"
      then have "x \<in> set (Q sd p)" using tail [OF that] by simp
      then show False using live_slots_same [OF b x(1)] x(2) by simp
    qed
    ultimately show ?thesis by (simp add: nxsl pvsl)
  qed
  have lev: "level_rep ?b3 (find_level p' (side_of sd' ?b3)) (?Q sd' p')" for sd' p'
  proof (cases "sd' = sd \<and> p' = p")
    case True
    then show ?thesis using sg' by (simp add: level_rep_def q_upd_apply st(3) len)
  next
    case False
    have "level_rep ?b3 (find_level p' (side_of sd' b)) (Q sd' p')"
      by (rule level_rep_frame [OF book_heldD(3) [OF b]]) (use keep [OF _ False] in \<open>simp_all add: len\<close>)
    moreover have "find_level p' (side_of sd' ?b3) = find_level p' (side_of sd' b)"
      using False by (auto simp: st(3) c(3))
    ultimately show ?thesis using False by (auto simp: q_upd_apply)
  qed
  have fr: "free_chain ?n (nx sl) (mb_free_head b) fs"
  proof (rule free_chain_frame [OF book_heldD(7) [OF b] _ order_refl])
    fix x assume "x \<in> set fs"
    then have "x \<noteq> slot" "ls_tail l \<noteq> kNil \<Longrightarrow> x \<noteq> ls_tail l"
      using slot(2) tail live_slot_mem book_heldD(9) [OF b] by blast+
    then show "nx sl x = ?f x" by (simp add: nxsl)
  qed
  have "book_held ?b3 ?Q fs {}"
    using lev st(1,2) c(2) book_heldD [OF b] fr slot(2) nq o
    unfolding book_held_def live_slots_snoc by (auto simp: q_upd_apply len odsl)
  then show thesis using that [OF la lb] by (simp add: odsl len)
qed

lemma unlink:
  assumes "unat x < length (mb_slab b)" "pv (mb_slab b) x = m" "nx (mb_slab b) x = k"
    "m \<noteq> kNil \<Longrightarrow> unat m < length (mb_slab b)" "k \<noteq> kNil \<Longrightarrow> unat k < length (mb_slab b)"
  obtains sl where "unlink l x b =
      Some (\<lparr>ls_head = if m = kNil then k else ls_head l, ls_tail = if k = kNil then m else ls_tail l\<rparr>, b\<lparr>mb_slab := sl\<rparr>)"
    "nx sl = (if m = kNil then nx (mb_slab b) else (nx (mb_slab b))(m := k))"
    "pv sl = (if k = kNil then pv (mb_slab b) else (pv (mb_slab b))(k := m))"
    "od sl = od (mb_slab b)" "length sl = length (mb_slab b)"
proof -
  let ?s0 = "mb_slab b"
  define s1 where "s1 = (if m = kNil then ?s0 else ?s0[unat m := (?s0 ! unat m)\<lparr>so_next := k\<rparr>])"
  define s2 where "s2 = (if k = kNil then s1 else s1[unat k := (s1 ! unat k)\<lparr>so_prev := m\<rparr>])"
  have f: "nx s1 = (if m = kNil then nx ?s0 else (nx ?s0)(m := k))" "pv s1 = pv ?s0" "od s1 = od ?s0"
    using assms(4) by (auto simp: s1_def nx_def pv_def od_def fun_eq_iff nth_list_update word_unat_eq_iff)
  have len: "length s1 = length ?s0" "length s2 = length ?s0" by (simp_all add: s1_def s2_def)
  have g: "nx s2 = nx s1" "pv s2 = (if k = kNil then pv s1 else (pv s1)(k := m))" "od s2 = od s1"
    using assms(5) len by (auto simp: s2_def nx_def pv_def od_def fun_eq_iff nth_list_update word_unat_eq_iff)
  have e: "so_prev (?s0 ! unat x) = m" "so_next (?s0 ! unat x) = k" using assms(2,3) by (simp_all add: nx_def pv_def)
  have "unlink l x b = Some (\<lparr>ls_head = if m = kNil then k else ls_head l, ls_tail = if k = kNil then m else ls_tail l\<rparr>,
      b\<lparr>mb_slab := s2\<rparr>)"
    using assms(1,4,5) len by (simp add: unlink_def slab_at_simp slab_update_simp Let_def e s1_def s2_def)
  then show thesis using that [of s2] f g len by simp
qed

lemma seg_unlink:
  assumes sg: "seg n f g kNil h (as @ x # bs) t kNil" and d: "distinct (as @ x # bs)"
    and f': "f' = (if g x = kNil then f else f(g x := f x))" and g': "g' = (if f x = kNil then g else g(f x := g x))"
  shows "seg n f' g' kNil (if g x = kNil then f x else h) (as @ bs) (if f x = kNil then g x else t) kNil"
    "g x \<noteq> kNil \<Longrightarrow> g x \<in> set as" "f x \<noteq> kNil \<Longrightarrow> f x \<in> set bs"
proof -
  have 1: "seg n f g kNil h as (g x) x" and 2: "seg n f g x (f x) bs t kNil" and x: "x \<noteq> kNil"
    using sg by (auto simp: seg_append)
  note e1 = seg_end [OF 1] and e2 = seg_start [OF 2]
  show gm: "g x \<in> set as" if "g x \<noteq> kNil" using that e1 seg_last [OF 1] by auto
  show fm: "f x \<in> set bs" if "f x \<noteq> kNil" using that e2 seg_first [OF 2] by (cases bs) auto
  have A: "seg n f' g' kNil (if g x = kNil then f x else h) as (g x) (f x)"
  proof (cases "g x = kNil")
    case True
    then show ?thesis using 1 e1 by simp
  next
    case False
    have "seg n (f(g x := f x)) g kNil h as (g x) (f x)"
      by (rule seg_relink_next [OF 1]) (use False e1 d in auto)
    then show ?thesis
      using False fm d by (simp, elim seg_frame) (auto simp: f' g')
  qed
  have B: "seg n f' g' (g x) (f x) bs (if f x = kNil then g x else t) kNil"
  proof (cases "f x = kNil")
    case True
    then show ?thesis using 2 e2 by simp
  next
    case False
    have "seg n f (g(f x := g x)) (g x) (f x) bs t kNil"
      by (rule seg_relink_prev [OF 2]) (use False e2 d in auto)
    then show ?thesis
      using False gm d by (simp, elim seg_frame) (auto simp: f' g')
  qed
  show "seg n f' g' kNil (if g x = kNil then f x else h) (as @ bs) (if f x = kNil then g x else t) kNil"
    unfolding seg_append using A B by blast
qed

definition detached :: "Price \<Rightarrow> LevelSlot \<Rightarrow> SideIndex \<Rightarrow> SideIndex" where
  \<comment> \<open>the side after its level at the price was rewritten, and erased if that left it empty\<close>
  "detached p l s =
     (let s1 = store_level p l s in if ls_head l = kNil then erase_level p s1 else s1)"

lemma detached:
  assumes "si_inv s" "find_level p s \<noteq> None"
  shows "si_inv (detached p l s)" "si_side (detached p l s) = si_side s"
    "find_level q (detached p l s) =
       (if q = p then (if ls_head l = kNil then None else Some l) else find_level q s)"
proof -
  note st = store_level [OF assms, where v = l]
  have "find_level p (store_level p l s) \<noteq> None" by (simp add: st(3))
  note er = erase_level [OF st(1) this]
  show "si_inv (detached p l s)" "si_side (detached p l s) = si_side s"
    "find_level q (detached p l s) = (if q = p then (if ls_head l = kNil then None else Some l) else find_level q s)"
    by (simp_all add: detached_def Let_def st er)
qed

lemma unlink_level:
  assumes b: "book_held b Q fs {}" and x: "x \<in> set (Q sd p)"
  obtains level level' b1 where "find_level p (side_of sd b) = Some level" "level_at p (side_of sd b) = Some level"
    "ls_head level = hd (Q sd p)"
    "unlink level x b = Some (level', b1)"
    "book_held (set_side sd (detached p level' (side_of sd b)) b1) (q_upd Q sd p (filter (\<lambda>y. y \<noteq> x) (Q sd p))) fs {x}"
    "od (mb_slab b1) = od (mb_slab b)" "mb_live_count b1 = mb_live_count b" "\<forall>sd. side_of sd b1 = side_of sd b"
    "length (mb_slab b1) = length (mb_slab b)"
proof -
  let ?n = "length (mb_slab b)" and ?f = "nx (mb_slab b)" and ?g = "pv (mb_slab b)"
  let ?s = "side_of sd b"
  have ne: "Q sd p \<noteq> []" using x by auto
  obtain l where fl: "find_level p ?s = Some l" and sg: "seg ?n ?f ?g kNil (ls_head l) (Q sd p) (ls_tail l) kNil"
    by (rule level_exists [OF b ne])
  have la: "level_at p ?s = Some l" using level_at_found [OF book_heldD(1) [OF b]] fl by simp
  obtain as bs where q: "Q sd p = as @ x # bs" using x by (meson split_list)
  note d = book_heldD(4) [OF b, of sd p]
  have xr: "unat x < ?n" using live_slot_bounds [OF b x] by blast
  note links = seg_unlink(2,3) [OF sg [unfolded q] d [unfolded q] refl refl]
  have pm: "?g x \<noteq> kNil \<Longrightarrow> ?g x \<in> set (Q sd p)" and nm: "?f x \<noteq> kNil \<Longrightarrow> ?f x \<in> set (Q sd p)"
    using links q by auto
  have r: "?g x \<noteq> kNil \<Longrightarrow> unat (?g x) < ?n" "?f x \<noteq> kNil \<Longrightarrow> unat (?f x) < ?n"
    using pm nm live_slot_bounds [OF b] by blast+
  let ?l' = "\<lparr>ls_head = if ?g x = kNil then ?f x else ls_head l, ls_tail = if ?f x = kNil then ?g x else ls_tail l\<rparr>"
  obtain sl where ul: "unlink l x b = Some (?l', b\<lparr>mb_slab := sl\<rparr>)"
    and nxsl: "nx sl = (if ?g x = kNil then ?f else ?f(?g x := ?f x))"
    and pvsl: "pv sl = (if ?f x = kNil then ?g else ?g(?f x := ?g x))"
    and odsl: "od sl = od (mb_slab b)" and len: "length sl = ?n"
    by (rule unlink [OF xr refl refl r])
  have "filter (\<lambda>y. y \<noteq> x) as = as" "filter (\<lambda>y. y \<noteq> x) bs = bs" using d q by (auto intro!: filter_True)
  then have qf: "filter (\<lambda>y. y \<noteq> x) (Q sd p) = as @ bs" by (simp add: q)
  let ?Q = "q_upd Q sd p (as @ bs)"
  note sg' = seg_unlink(1) [OF sg [unfolded q] d [unfolded q] nxsl pvsl]
  let ?b2 = "set_side sd (detached p ?l' ?s) (b\<lparr>mb_slab := sl\<rparr>)"
  have fls: "find_level p ?s \<noteq> None" using fl by simp
  note dt = detached [OF book_heldD(1) [OF b] fls, where l = ?l']
  have keep: "nx sl y = ?f y \<and> pv sl y = ?g y" if y: "y \<notin> set (Q sd p)" for y
    using y pm nm by (auto simp: nxsl pvsl)
  have lev: "level_rep ?b2 (find_level p' (side_of sd' ?b2)) (?Q sd' p')" for sd' p'
  proof (cases "sd' = sd \<and> p' = p")
    case True
    then show ?thesis using sg' seg_start [OF sg'] by (simp add: level_rep_def q_upd_apply dt(3) len)
  next
    case False
    have "level_rep ?b2 (find_level p' (side_of sd' b)) (Q sd' p')"
    proof (rule level_rep_frame [OF book_heldD(3) [OF b]])
      fix y assume "y \<in> set (Q sd' p')"
      then have "y \<notin> set (Q sd p)" using live_slots_same [OF b] False by metis
      then show "nx (mb_slab ?b2) y = ?f y" "pv (mb_slab ?b2) y = ?g y" using keep by simp_all
    qed (simp add: len)
    moreover have "find_level p' (side_of sd' ?b2) = find_level p' (side_of sd' b)"
      using False by (auto simp: dt(3))
    ultimately show ?thesis using False by (auto simp: q_upd_apply)
  qed
  have fr: "free_chain ?n (nx sl) (mb_free_head b) fs"
  proof (rule free_chain_frame [OF book_heldD(7) [OF b] _ order_refl])
    fix y assume "y \<in> set fs"
    then have "y \<notin> set (Q sd p)" using live_slot_mem book_heldD(9) [OF b] by blast
    then show "nx sl y = ?f y" using keep by simp
  qed
  have live: "live_slots ?Q = live_slots Q - {x}" using live_slots_remove [OF b x] by (simp only: qf)
  have xl: "x \<in> live_slots Q" using live_slot_mem [of x Q sd p] x by simp
  have dq: "distinct (?Q sd' p')" "y \<in> set (?Q sd' p') \<Longrightarrow> y \<in> set (Q sd' p')" for sd' p' y
    using book_heldD(4) [OF b, of sd' p'] by (auto simp: q_upd_apply q split: if_splits)
  have "bo_side (od sl y) = sd' \<and> bo_price (od sl y) = p'" if "y \<in> set (?Q sd' p')" for sd' p' y
    using book_heldD(5,6) [OF b dq(2) [OF that]] by (simp add: odsl)
  moreover have "si_inv (side_of sd' ?b2) \<and> si_side (side_of sd' ?b2) = sd'" for sd'
    using dt(1,2) book_heldD(1,2) [OF b] by simp
  ultimately have "book_held ?b2 ?Q fs {x}"
    using lev book_heldD(8-13) [OF b] fr xl dq(1)
    unfolding book_held_def live by (auto simp: len)
  then show thesis using that [OF fl la _ ul] seg_first [OF sg ne] by (simp add: odsl len qf)
qed

section \<open>The operations on the representation\<close>

lemma level_rep_live_count: "level_rep (b\<lparr>mb_live_count := c\<rparr>) lo xs = level_rep b lo xs"
  by (simp add: level_rep_def split: option.split)

lemma held_live_count: "book_held (b\<lparr>mb_live_count := c\<rparr>) Q fs H = book_held b Q fs H"
  by (simp add: book_held_def level_rep_live_count)

lemma card_live_less: "book_rep b Q fs \<Longrightarrow> card (live_slots Q) < 2 ^ 32"
proof -
  assume b: "book_rep b Q fs"
  then have h: "book_held b Q fs {}" by (simp add: book_rep_def)
  have "card (live_slots Q) \<le> card {x :: u32. unat x < length (mb_slab b)}"
    by (rule card_mono) (use book_heldD(11) [OF h] in auto)
  then show ?thesis using card_slots [of "length (mb_slab b)"] book_heldD(13) [OF h] by simp
qed

lemma add_rep:
  assumes b: "book_rep b Q fs" and room: "card (live_slots Q) < 2 ^ 32 - 1" and ok: "price_ok (bo_price bo)"
  obtains slot b' fs' where "add bo b = Some (slot, b')"
    "book_rep b' (q_upd Q (bo_side bo) (bo_price bo) (Q (bo_side bo) (bo_price bo) @ [slot])) fs'"
    "slot \<notin> live_slots Q" "od (mb_slab b') slot = bo"
    "\<forall>x \<in> live_slots Q. od (mb_slab b') x = od (mb_slab b) x"
    "length (mb_slab b') \<le> max (length (mb_slab b)) (card (live_slots Q) + 1)"
proof -
  let ?sd = "bo_side bo" and ?p = "bo_price bo"
  have h: "book_held b Q fs {}" and c: "unat (mb_live_count b) = card (live_slots Q)"
    using b by (auto simp: book_rep_def)
  obtain slot b1 fs' where aq: "acquire_slot bo b = Some (slot, b1)" and h1: "book_held b1 Q fs' {slot}" and nil: "slot \<noteq> kNil"
    and o1: "od (mb_slab b1) slot = bo" and od1: "\<forall>x \<in> live_slots Q. od (mb_slab b1) x = od (mb_slab b) x"
    and sides: "\<forall>sd. side_of sd b1 = side_of sd b" and c1: "mb_live_count b1 = mb_live_count b"
    and len1: "length (mb_slab b1) = (if fs = [] then length (mb_slab b) + 1 else length (mb_slab b))"
    by (rule acquire_slot [OF h room, where order = bo])
  have so: "bo_side (od (mb_slab b1) slot) = ?sd" "bo_price (od (mb_slab b1) slot) = ?p" by (simp_all add: o1)
  let ?s1 = "level_for ?p (side_of ?sd b1)"
  obtain l l' b2 where la: "level_at ?p ?s1 = Some l" and lb: "link_back l slot (set_side ?sd ?s1 b1) = Some (l', b2)"
    and h2: "book_held (set_side ?sd (store_level ?p l' ?s1) b2) (q_upd Q ?sd ?p (Q ?sd ?p @ [slot])) fs' {}"
    and od2: "od (mb_slab b2) = od (mb_slab b1)" and c2: "mb_live_count b2 = mb_live_count b1"
    and len2: "length (mb_slab b2) = length (mb_slab b1)"
    by (rule link_level [OF h1 nil ok so])
  let ?b3 = "set_side ?sd (store_level ?p l' ?s1) b2"
  let ?b4 = "?b3\<lparr>mb_live_count := mb_live_count ?b3 + 1\<rparr>"
  have new: "slot \<notin> live_slots Q" using book_heldD(10) [OF h1] by auto
  have "unat (mb_live_count b + 1) = card (live_slots Q) + 1"
    using c room unat_plus_64 [of "mb_live_count b" 1] by simp
  then have "book_rep ?b4 (q_upd Q ?sd ?p (Q ?sd ?p @ [slot])) fs'"
    using h2 new c1 c2 by (simp add: book_rep_def held_live_count live_slots_snoc)
  moreover have "add bo b = Some (slot, ?b4)" by (simp add: add_def aq la lb Let_def)
  moreover have "length (mb_slab b) + 1 \<le> card (live_slots Q) + 1" if "fs = []"
    using that book_heldD(11) [OF h] card_slots [of "length (mb_slab b)"] book_heldD(13) [OF h] by simp
  then have "length (mb_slab ?b4) \<le> max (length (mb_slab b)) (card (live_slots Q) + 1)"
    using len1 len2 by (cases "fs = []") auto
  moreover have "od (mb_slab ?b4) slot = bo" "\<forall>x \<in> live_slots Q. od (mb_slab ?b4) x = od (mb_slab b) x"
    using o1 od1 od2 by simp_all
  ultimately show thesis using that new by blast
qed

lemma remove_rep:
  assumes b: "book_rep b Q fs" and x: "x \<in> set (Q sd p)"
  obtains b' where "remove_at x b = Some (od (mb_slab b) x, b')"
    "book_rep b' (q_upd Q sd p (filter (\<lambda>y. y \<noteq> x) (Q sd p))) (x # fs)" "od (mb_slab b') = od (mb_slab b)"
    "length (mb_slab b') = length (mb_slab b)"
    "x = hd (Q sd p) \<Longrightarrow> best_price (side_of sd b) = Some p \<Longrightarrow> remove_front sd b = Some b'"
proof -
  have h: "book_held b Q fs {}" and c: "unat (mb_live_count b) = card (live_slots Q)"
    using b by (auto simp: book_rep_def)
  note xb = live_slot_bounds [OF h x]
  obtain l l' b1 where fl: "find_level p (side_of sd b) = Some l" and la: "level_at p (side_of sd b) = Some l"
    and hd: "ls_head l = hd (Q sd p)" and ul: "unlink l x b = Some (l', b1)"
    and h1: "book_held (set_side sd (detached p l' (side_of sd b)) b1) (q_upd Q sd p (filter (\<lambda>y. y \<noteq> x) (Q sd p))) fs {x}"
    and od1: "od (mb_slab b1) = od (mb_slab b)" and c1: "mb_live_count b1 = mb_live_count b"
    and s1: "\<forall>sd. side_of sd b1 = side_of sd b" and len1: "length (mb_slab b1) = length (mb_slab b)"
    by (rule unlink_level [OF h x])
  let ?b1 = "set_side sd (detached p l' (side_of sd b)) b1"
  obtain b2 where rl: "release_slot x ?b1 = Some b2" and h2: "book_held b2 (q_upd Q sd p (filter (\<lambda>y. y \<noteq> x) (Q sd p))) (x # fs) {}"
    and od2: "od (mb_slab b2) = od (mb_slab ?b1)" and s2: "\<forall>sd. side_of sd b2 = side_of sd ?b1"
    and c2: "mb_live_count b2 = mb_live_count ?b1" and len2: "length (mb_slab b2) = length (mb_slab ?b1)"
    by (rule release_slot [OF h1]) (use xb in blast)
  let ?b3 = "b2\<lparr>mb_live_count := mb_live_count b2 - 1\<rparr>"
  have xl: "x \<in> live_slots Q" using live_slot_mem [of x Q sd p] x by simp
  then have pos: "0 < card (live_slots Q)" using card_gt_0_iff by fastforce
  have "unat (mb_live_count b - 1) = card (live_slots Q) - 1"
    using c pos unat_minus_64 [of 1 "mb_live_count b"] by (simp add: word_le_nat_alt)
  then have "book_rep ?b3 (q_upd Q sd p (filter (\<lambda>y. y \<noteq> x) (Q sd p))) (x # fs)"
    using h2 c1 c2 xl by (simp add: book_rep_def held_live_count live_slots_remove [OF h x] card_Diff_singleton)
  moreover have "remove_at x b = Some (od (mb_slab b) x, ?b3)"
    using xb rl fl ul
    by (simp add: remove_at_def slab_at_simp od_def [symmetric] book_heldD(5,6) [OF h x] Let_def detached_def split del: if_split cong: if_cong)
  moreover have "remove_front sd b = Some ?b3" if "x = hd (Q sd p)" "best_price (side_of sd b) = Some p"
  proof -
    let ?f = "detached p l' (side_of sd b)" and ?st = "store_level p l' (side_of sd b)"
    obtain u where u: "slab_update x (\<lambda>e. e\<lparr>so_next := mb_free_head b1\<rparr>) b1 = Some u"
      using rl by (auto simp: release_slot_def slab_update_def split: if_splits)
    have rs: "release_slot x (set_side sd s b1) = Some ((set_side sd s u)\<lparr>mb_free_head := x\<rparr>)" for s
      using u by (cases sd) (auto simp: release_slot_def slab_update_def set_side_def split: if_splits)
    have b2: "b2 = (set_side sd ?f u)\<lparr>mb_free_head := x\<rparr>" using rl rs by simp
    let ?u3 = "(set_side sd ?st u)\<lparr>mb_free_head := x, mb_live_count := mb_live_count u - 1\<rparr>"
    have hx: "ls_head l = x" using that(1) hd by simp
    have "remove_front sd b =
      Some (if ls_head l' = kNil then set_side sd (erase_level p (side_of sd ?u3)) ?u3 else ?u3)"
      using that(2) la ul by (simp add: remove_front_def Let_def hx rs)
    also have "\<dots> = Some ?b3"
      by (cases sd) (simp_all add: b2 detached_def Let_def set_side_def side_of_def)
    finally show ?thesis .
  qed
  ultimately show thesis using that [of ?b3] od1 od2 len1 len2 by simp
qed

section \<open>The priority list\<close>

definition entry_prio :: "Side \<Rightarrow> u32 \<times> BookOrder \<Rightarrow> int" where
  "entry_prio sd e = prio sd (bo_price (snd e))"

definition insert_order :: "Side \<Rightarrow> u32 \<times> BookOrder \<Rightarrow> (u32 \<times> BookOrder) list \<Rightarrow> (u32 \<times> BookOrder) list" where
  \<comment> \<open>behind every order of the same or a better price\<close>
  "insert_order sd e xs =
     takeWhile (\<lambda>x. entry_prio sd x \<le> entry_prio sd e) xs @ [e] @ dropWhile (\<lambda>x. entry_prio sd x \<le> entry_prio sd e) xs"

lemma entry_prio_in:
  assumes "book_held b Q fs H" "e \<in> set (orders_in b Q sd D)"
  obtains p where "p \<in> D" "fst e \<in> set (Q sd p)" "entry_prio sd e = prio sd p" "snd e = od (mb_slab b) (fst e)"
  using assms(2) set_orders_in [OF assms(1)] book_heldD(6) [OF assms(1)] by (auto simp: entry_prio_def)

lemma entries_prio:
  assumes "book_held b Q fs H" "e \<in> set (entries b (Q sd p))"
  shows "entry_prio sd e = prio sd p" "fst e \<in> set (Q sd p)"
  using assms(2) book_heldD(6) [OF assms(1)] by (auto simp: entries_def entry_prio_def)

lemma insert_order_split:
  assumes "\<And>x. x \<in> set xs \<Longrightarrow> entry_prio sd x \<le> entry_prio sd e" "\<And>x. x \<in> set ys \<Longrightarrow> entry_prio sd e < entry_prio sd x"
  shows "insert_order sd e (xs @ ys) = xs @ [e] @ ys"
proof -
  have "takeWhile (\<lambda>x. entry_prio sd x \<le> entry_prio sd e) ys = []" "dropWhile (\<lambda>x. entry_prio sd x \<le> entry_prio sd e) ys = ys"
    using assms(2) by (cases ys; fastforce)+
  then show ?thesis using assms(1) by (simp add: insert_order_def takeWhile_append2 dropWhile_append2)
qed

lemma orders_in_other:
  assumes h: "book_held b Q fs H" and od: "\<forall>x \<in> live_slots Q. od (mb_slab b') x = od (mb_slab b) x"
    and p: "sd = sd' \<Longrightarrow> p \<notin> D"
  shows "orders_in b' (q_upd Q sd' p xs) sd D = orders_in b Q sd D"
proof (rule orders_in_cong)
  show "q_upd Q sd' p xs sd q = Q sd q" if "q \<in> D" for q using p that by (auto simp: q_upd_apply)
  show "od (mb_slab b') x = od (mb_slab b) x" if "x \<in> set (Q sd q)" for q x
    using od live_slot_mem [of x Q sd q] that by blast
  show "finite {p \<in> D. Q sd p \<noteq> []}" using finite_prices [OF h, of sd] by (simp add: Collect_conj_eq)
qed

lemma not_self: "p \<notin> before sd p" "p \<notin> after sd p"
  by (simp_all add: before_def after_def)

lemma orders_of_rep: "book_rep b Q fs \<Longrightarrow> orders_of b sd = orders_in b Q sd UNIV"
  by (simp add: orders_of_def queue_of_rep)

lemma orders_add:
  assumes b: "book_rep b Q fs" and b': "book_rep b' (q_upd Q (bo_side bo) (bo_price bo) (Q (bo_side bo) (bo_price bo) @ [slot])) fs'"
    and new: "slot \<notin> live_slots Q" "od (mb_slab b') slot = bo"
    and od: "\<forall>x \<in> live_slots Q. od (mb_slab b') x = od (mb_slab b) x"
  shows "orders_of b' sd = (if sd = bo_side bo then insert_order sd (slot, bo) (orders_of b sd) else orders_of b sd)"
proof -
  let ?p = "bo_price bo" and ?sd = "bo_side bo"
  let ?Q = "q_upd Q ?sd ?p (Q ?sd ?p @ [slot])"
  have h: "book_held b Q fs {}" and h': "book_held b' ?Q fs' {}" using b b' by (simp_all add: book_rep_def)
  note oth = orders_in_other [OF h od]
  show ?thesis
  proof (cases "sd = ?sd")
    case True
    have "entries b' (?Q sd ?p) = entries b (Q sd ?p) @ [(slot, bo)]"
      using od new(2) True live_slot_mem by (fastforce simp: entries_def q_upd_apply)
    then have "orders_of b' sd =
      (orders_in b Q sd (before sd ?p) @ entries b (Q sd ?p)) @ [(slot, bo)] @ orders_in b Q sd (after sd ?p)"
      unfolding orders_of_rep [OF b'] orders_of_split [OF h', of sd ?p] by (simp add: oth not_self)
    also have "\<dots> = insert_order sd (slot, bo) ((orders_in b Q sd (before sd ?p) @ entries b (Q sd ?p)) @ orders_in b Q sd (after sd ?p))"
    proof (rule insert_order_split [symmetric])
      have ep: "entry_prio sd (slot, bo) = prio sd ?p" by (simp add: entry_prio_def)
      show "entry_prio sd x \<le> entry_prio sd (slot, bo)"
        if x: "x \<in> set (orders_in b Q sd (before sd ?p) @ entries b (Q sd ?p))" for x
      proof (cases "x \<in> set (entries b (Q sd ?p))")
        case True
        then show ?thesis using entries_prio(1) [OF h] ep by simp
      next
        case False
        then have "x \<in> set (orders_in b Q sd (before sd ?p))" using x by simp
        then show ?thesis by (rule entry_prio_in [OF h]) (simp add: ep before_def)
      qed
      show "entry_prio sd (slot, bo) < entry_prio sd x" if "x \<in> set (orders_in b Q sd (after sd ?p))" for x
        using that by (rule entry_prio_in [OF h]) (simp add: ep after_def)
    qed
    finally show ?thesis unfolding orders_of_rep [OF b] orders_of_split [OF h, of sd ?p] using True by simp
  next
    case False
    then show ?thesis unfolding orders_of_rep [OF b] orders_of_rep [OF b'] by (simp add: oth)
  qed
qed

lemma orders_remove:
  assumes b: "book_rep b Q fs" and x: "x \<in> set (Q sd p)"
    and b': "book_rep b' (q_upd Q sd p (filter (\<lambda>y. y \<noteq> x) (Q sd p))) fs'" and od: "od (mb_slab b') = od (mb_slab b)"
  shows "orders_of b' sd' = filter (\<lambda>e. fst e \<noteq> x) (orders_of b sd')"
proof -
  let ?Q = "q_upd Q sd p (filter (\<lambda>y. y \<noteq> x) (Q sd p))"
  have h: "book_held b Q fs {}" and h': "book_held b' ?Q fs' {}" using b b' by (simp_all add: book_rep_def)
  note oth = orders_in_other [OF h, of b']
  have away: "filter (\<lambda>e. fst e \<noteq> x) (orders_in b Q sd' D) = orders_in b Q sd' D" if "sd' = sd \<Longrightarrow> p \<notin> D" for D
  proof (rule filter_True, rule ballI)
    fix e assume "e \<in> set (orders_in b Q sd' D)"
    then obtain q where "q \<in> D" "fst e \<in> set (Q sd' q)" by (rule entry_prio_in [OF h])
    then show "fst e \<noteq> x" using live_slots_same [OF h x] that by metis
  qed
  show ?thesis
  proof (cases "sd' = sd")
    case True
    have mid: "entries b' (?Q sd p) = filter (\<lambda>e. fst e \<noteq> x) (entries b (Q sd p))"
      by (simp add: entries_def q_upd_apply od filter_map comp_def)
    show ?thesis
      unfolding orders_of_rep [OF b] orders_of_rep [OF b'] orders_of_split [OF h, of sd' p] orders_of_split [OF h', of sd' p]
      using True mid away [unfolded True] by (simp add: oth od not_self)
  next
    case False
    then show ?thesis unfolding orders_of_rep [OF b] orders_of_rep [OF b'] by (simp add: oth od away)
  qed
qed

lemma orders_distinct: "book_rep b Q fs \<Longrightarrow> distinct (map fst (orders_of b sd))"
proof -
  assume b: "book_rep b Q fs"
  then have h: "book_held b Q fs {}" by (simp add: book_rep_def)
  have fin: "finite {p \<in> UNIV. Q sd p \<noteq> []}" using finite_prices [OF h, of sd] by simp
  have "distinct (concat (map (Q sd) ps))" if "distinct ps" for ps
    using that
  proof (induction ps)
    case (Cons p ps)
    have "set (Q sd p) \<inter> set (Q sd q) = {}" if "q \<in> set ps" for q
    proof (rule ccontr)
      assume "set (Q sd p) \<inter> set (Q sd q) \<noteq> {}"
      then obtain x where "x \<in> set (Q sd p)" "x \<in> set (Q sd q)" by blast
      from live_slots_same(2) [OF h this] show False using Cons.prems that by simp
    qed
    then show ?case using book_heldD(4) [OF h] Cons by auto
  qed simp
  moreover have "map fst (entries b xs) = xs" for xs by (simp add: entries_def comp_def)
  ultimately show ?thesis
    using by_prio_distinct [OF price_walk(2) [OF fin]] unfolding orders_of_rep [OF b] orders_in_def
    by (simp add: map_concat comp_def)
qed

lemma orders_sorted: "book_rep b Q fs \<Longrightarrow> sorted (map (entry_prio sd) (orders_of b sd))"
proof -
  assume b: "book_rep b Q fs"
  then have h: "book_held b Q fs {}" by (simp add: book_rep_def)
  have fin: "finite {p \<in> UNIV. Q sd p \<noteq> []}" using finite_prices [OF h, of sd] by simp
  have "sorted (map (entry_prio sd) (concat (map (\<lambda>p. entries b (Q sd p)) ps)))" if "by_prio sd ps" for ps
    using that
  proof (induction ps)
    case (Cons p ps)
    have "map (entry_prio sd) (entries b (Q sd p)) = replicate (length (Q sd p)) (prio sd p)"
      using entries_prio(1) [OF h, of _ sd p] by (intro replicate_eqI) (auto simp: entries_def)
    moreover have "prio sd p \<le> entry_prio sd e" if "q \<in> set ps" "e \<in> set (entries b (Q sd q))" for q e
      using entries_prio(1) [OF h that(2)] Cons.prems that(1) by (auto simp: less_imp_le)
    ultimately show ?case using Cons by (auto simp: sorted_append)
  qed simp
  from this [OF price_walk(2) [OF fin]] show ?thesis unfolding orders_of_rep [OF b] orders_in_def .
qed

section \<open>Walks\<close>

lemma orders_blocks:
  assumes b: "book_rep b Q fs"
  shows "orders_of b sd = concat (map (\<lambda>p. entries b (Q sd p)) (si.walk (side_of sd b)))"
proof -
  have h: "book_held b Q fs {}" using b by (simp add: book_rep_def)
  have "{p \<in> UNIV. Q sd p \<noteq> []} = {p. find_level p (side_of sd b) \<noteq> None}"
    using find_level_iff [OF h] by auto
  then show ?thesis unfolding orders_of_rep [OF b] orders_in_def si.walk_def by (simp only: book_heldD(2) [OF h])
qed

lemma walk_level:
  assumes h: "book_held b Q fs H" and p: "p \<in> set (si.walk (side_of sd b))"
  obtains l where "level_at p (side_of sd b) = Some l" "Q sd p \<noteq> []"
    "seg (length (mb_slab b)) (nx (mb_slab b)) (pv (mb_slab b)) kNil (ls_head l) (Q sd p) (ls_tail l) kNil"
proof -
  have "find_level p (side_of sd b) \<noteq> None" using p si.set_walk [OF book_heldD(1) [OF h]] by simp
  then have ne: "Q sd p \<noteq> []" using find_level_iff [OF h] by simp
  obtain l where l: "find_level p (side_of sd b) = Some l"
    and sg: "seg (length (mb_slab b)) (nx (mb_slab b)) (pv (mb_slab b)) kNil (ls_head l) (Q sd p) (ls_tail l) kNil"
    by (rule level_exists [OF h ne])
  have "level_at p (side_of sd b) = Some l" using level_at_found [OF book_heldD(1) [OF h]] l by simp
  then show thesis by (rule that [OF _ ne sg])
qed

lemma collect_queue_seg:
  "seg (length sl) (nx sl) g p h xs t kNil \<Longrightarrow> collect_queue sl h acc = Some (acc @ map (od sl) xs)"
proof (induction xs arbitrary: p h acc)
  case Nil
  then show ?case by (subst collect_queue.simps) simp
next
  case (Cons x xs)
  then have x: "h = x" "x \<noteq> kNil" "unat x < length sl" "seg (length sl) (nx sl) g x (nx sl x) xs t kNil" by auto
  show ?case
    by (subst collect_queue.simps) (simp add: x slab_at_simp od_def [symmetric] nx_def [symmetric] Cons.IH [OF x(4)])
qed

lemma collect_levels_walk:
  assumes h: "book_held b Q fs H"
  shows "si.walk (side_of sd b) = pre @ ps \<Longrightarrow>
    collect_levels (mb_slab b) (side_of sd b) (hd_opt ps) acc =
      Some (acc @ concat (map (\<lambda>p. map (od (mb_slab b)) (Q sd p)) ps))"
proof (induction ps arbitrary: pre acc)
  case Nil
  then show ?case by (subst collect_levels.simps) simp
next
  case (Cons p ps)
  have "p \<in> set (si.walk (side_of sd b))" using Cons.prems by simp
  then obtain l where l: "level_at p (side_of sd b) = Some l"
    "seg (length (mb_slab b)) (nx (mb_slab b)) (pv (mb_slab b)) kNil (ls_head l) (Q sd p) (ls_tail l) kNil"
    by (rule walk_level [OF h])
  have nxt: "next_price p (side_of sd b) = hd_opt ps"
    using si.succ_step [OF book_heldD(1) [OF h] Cons.prems] by (simp add: hd_opt_def)
  show ?case
    by (subst collect_levels.simps) (simp add: l(1) collect_queue_seg [OF l(2)] nxt Cons.IH [of "pre @ [p]"] Cons.prems)
qed

text \<open>The reference of \<open>crossable_quantity\<close>: a walk over the orders alone.\<close>

definition crosses :: "Side \<Rightarrow> Price \<Rightarrow> Price \<Rightarrow> bool" where
  \<comment> \<open>an order at \<open>price\<close> trades against \<open>level\<close> on the book side \<open>sd\<close>\<close>
  "crosses sd price level \<longleftrightarrow> (if sd = Buy then \<not> sless level price else \<not> sless price level)"

fun cross_sum :: "Side \<Rightarrow> Price \<Rightarrow> Quantity \<Rightarrow> Quantity \<Rightarrow> BookOrder list \<Rightarrow> Quantity" where
  "cross_sum sd price q acc [] = acc"
| "cross_sum sd price q acc (e # es) =
     (if \<not> crosses sd price (bo_price e) then acc
      else let t = acc + bo_remaining_quantity e in if q \<le> t then t else cross_sum sd price q t es)"

lemma cross_queue_seg:
  assumes "seg (length sl) (nx sl) g p h xs t kNil" "\<And>x. x \<in> set xs \<Longrightarrow> crosses sd price (bo_price (od sl x))"
  obtains r covered where "cross_queue sl h acc q = Some (r, covered)"
    "\<And>es. cross_sum sd price q acc (map (od sl) xs @ es) = (if covered then r else cross_sum sd price q r es)"
  using assms
proof (induction xs arbitrary: p h acc thesis)
  case Nil
  have "cross_queue sl h acc q = Some (acc, False)" by (subst cross_queue.simps) (use Nil in simp)
  then show ?case using Nil(1) [of acc False] by simp
next
  case (Cons x xs)
  let ?t = "acc + bo_remaining_quantity (od sl x)"
  have x: "h = x" "x \<noteq> kNil" "unat x < length sl" "seg (length sl) (nx sl) g x (nx sl x) xs t kNil"
    using Cons.prems(2) by auto
  have st: "cross_queue sl h acc q = (if q \<le> ?t then Some (?t, True) else cross_queue sl (nx sl x) ?t q)"
    by (subst cross_queue.simps) (use x in \<open>simp add: slab_at_simp od_def nx_def Let_def\<close>)
  have cx: "crosses sd price (bo_price (od sl x))" using Cons.prems(3) by simp
  show ?case
  proof (cases "q \<le> ?t")
    case True
    then show ?thesis using Cons.prems(1) [of ?t True] st cx by (simp add: Let_def)
  next
    case False
    obtain r covered where "cross_queue sl (nx sl x) ?t q = Some (r, covered)"
      "\<And>es. cross_sum sd price q ?t (map (od sl) xs @ es) = (if covered then r else cross_sum sd price q r es)"
      using Cons.IH [OF _ x(4)] Cons.prems(3) by (metis list.set_intros(2))
    then show ?thesis using Cons.prems(1) [of r covered] st cx False by (simp add: Let_def)
  qed
qed

lemma cross_levels_walk:
  assumes h: "book_held b Q fs H"
  shows "si.walk (side_of sd b) = pre @ ps \<Longrightarrow>
    cross_levels (mb_slab b) (side_of sd b) (sd = Buy) price q (hd_opt ps) acc =
      Some (cross_sum sd price q acc (concat (map (\<lambda>p. map (od (mb_slab b)) (Q sd p)) ps)))"
proof (induction ps arbitrary: pre acc)
  case Nil
  then show ?case by (subst cross_levels.simps) simp
next
  case (Cons p ps)
  let ?es = "concat (map (\<lambda>p. map (od (mb_slab b)) (Q sd p)) ps)"
  have "p \<in> set (si.walk (side_of sd b))" using Cons.prems by simp
  then obtain l where l: "level_at p (side_of sd b) = Some l" and ne: "Q sd p \<noteq> []" and
    sg: "seg (length (mb_slab b)) (nx (mb_slab b)) (pv (mb_slab b)) kNil (ls_head l) (Q sd p) (ls_tail l) kNil"
    by (rule walk_level [OF h])
  have nxt: "next_price p (side_of sd b) = hd_opt ps"
    using si.succ_step [OF book_heldD(1) [OF h] Cons.prems] by (simp add: hd_opt_def)
  have brk: "(if sd = Buy then sless p price else sless price p) \<longleftrightarrow> \<not> crosses sd price p"
    by (simp add: crosses_def)
  have pr: "bo_price (od (mb_slab b) x) = p" if "x \<in> set (Q sd p)" for x by (rule book_heldD(6) [OF h that])
  show ?case
  proof (cases "crosses sd price p")
    case False
    have "cross_sum sd price q acc (map (od (mb_slab b)) (Q sd p) @ ?es) = acc"
      using ne False pr [of "hd (Q sd p)"] by (cases "Q sd p") auto
    then show ?thesis by (subst cross_levels.simps) (simp add: brk False del: if_split_asm)
  next
    case True
    obtain r covered where r: "cross_queue (mb_slab b) (ls_head l) acc q = Some (r, covered)"
      "\<And>es. cross_sum sd price q acc (map (od (mb_slab b)) (Q sd p) @ es) = (if covered then r else cross_sum sd price q r es)"
      by (rule cross_queue_seg [OF sg, of sd price acc q]) (use pr True in auto)
    show ?thesis
      by (subst cross_levels.simps)
         (simp add: brk True l r nxt Cons.IH [of "pre @ [p]"] Cons.prems)
  qed
qed

lemma best_hd_opt: "book_held b Q fs H \<Longrightarrow> best_price (side_of sd b) = hd_opt (si.walk (side_of sd b))"
  using si.best_hd [OF book_heldD(1)] by (simp add: hd_opt_def)

lemma empty_side:
  assumes b: "book_rep b Q fs"
  shows "si_empty (side_of sd b) \<longleftrightarrow> si.walk (side_of sd b) = []" "si_empty (side_of sd b) \<longleftrightarrow> orders_of b sd = []"
proof -
  have h: "book_held b Q fs {}" using b by (simp add: book_rep_def)
  show 1: "si_empty (side_of sd b) \<longleftrightarrow> si.walk (side_of sd b) = []"
    by (rule si.empty_walk [OF book_heldD(1) [OF h]])
  have "Q sd p \<noteq> []" if "p \<in> set (si.walk (side_of sd b))" for p
    using walk_level [OF h that] by metis
  then show "si_empty (side_of sd b) \<longleftrightarrow> orders_of b sd = []"
    unfolding 1 orders_blocks [OF b] by (cases "si.walk (side_of sd b)") (auto simp: entries_def)
qed

lemma orders_snd: "book_rep b Q fs \<Longrightarrow>
  map snd (orders_of b sd) = concat (map (\<lambda>p. map (od (mb_slab b)) (Q sd p)) (si.walk (side_of sd b)))"
  by (simp add: orders_blocks map_concat entries_def comp_def)

lemma all_of_rep:
  assumes b: "book_rep b Q fs"
  shows "all_of sd b = Some (map snd (orders_of b sd))"
proof (cases "si_empty (side_of sd b)")
  case True
  then show ?thesis using empty_side(2) [OF b] by (simp add: all_of_def)
next
  case False
  have h: "book_held b Q fs {}" using b by (simp add: book_rep_def)
  obtain p ps where w: "si.walk (side_of sd b) = p # ps" using False empty_side(1) [OF b] by (cases "si.walk (side_of sd b)") auto
  then show ?thesis
    using collect_levels_walk [OF h, of sd "[]" "p # ps" "[]"] False best_hd_opt [OF h]
    by (simp add: all_of_def orders_snd [OF b])
qed

lemma crossable_rep:
  assumes b: "book_rep b Q fs"
  shows "crossable_quantity sd price q b = Some (cross_sum sd price q 0 (map snd (orders_of b sd)))"
proof (cases "si_empty (side_of sd b)")
  case True
  then show ?thesis using empty_side(2) [OF b] by (simp add: crossable_quantity_def)
next
  case False
  have h: "book_held b Q fs {}" using b by (simp add: book_rep_def)
  obtain p ps where w: "si.walk (side_of sd b) = p # ps" using False empty_side(1) [OF b] by (cases "si.walk (side_of sd b)") auto
  then show ?thesis
    using cross_levels_walk [OF h, of sd "[]" "p # ps" price q 0] False best_hd_opt [OF h]
    by (simp add: crossable_quantity_def orders_snd [OF b])
qed

lemma front_rep:
  assumes b: "book_rep b Q fs" and ne: "orders_of b sd \<noteq> []"
  obtains p where "best_price (side_of sd b) = Some p" "Q sd p \<noteq> []"
    "front_slot (side_of sd b) = Some (hd (Q sd p))"
    "fst (hd (orders_of b sd)) = hd (Q sd p)" "snd (hd (orders_of b sd)) = od (mb_slab b) (hd (Q sd p))"
proof -
  have h: "book_held b Q fs {}" using b by (simp add: book_rep_def)
  obtain p ps where w: "si.walk (side_of sd b) = p # ps"
    using ne empty_side [OF b, of sd] by (cases "si.walk (side_of sd b)") auto
  then have "p \<in> set (si.walk (side_of sd b))" by simp
  then obtain l where l: "level_at p (side_of sd b) = Some l" and q: "Q sd p \<noteq> []" and
    sg: "seg (length (mb_slab b)) (nx (mb_slab b)) (pv (mb_slab b)) kNil (ls_head l) (Q sd p) (ls_tail l) kNil"
    by (rule walk_level [OF h])
  have bp: "best_price (side_of sd b) = Some p" using best_hd_opt [OF h] w by simp
  have "front_slot (side_of sd b) = Some (hd (Q sd p))" using bp l seg_first [OF sg q] by (simp add: front_slot_def)
  moreover have "hd (orders_of b sd) = (hd (Q sd p), od (mb_slab b) (hd (Q sd p)))"
    using q by (simp add: orders_blocks [OF b] w entries_def hd_map)
  ultimately show thesis using that [OF bp q] by simp
qed

section \<open>Edits in place\<close>

lemma edit_rep:
  assumes b: "book_rep b Q fs" and x: "x \<in> live_slots Q" and f: "\<And>e. bo_side (f e) = bo_side e" "\<And>e. bo_price (f e) = bo_price e"
  obtains b' where "slab_update x (\<lambda>e. e\<lparr>so_order := f (so_order e)\<rparr>) b = Some b'" "book_rep b' Q fs"
    "od (mb_slab b') = (od (mb_slab b))(x := f (od (mb_slab b) x))"
proof -
  have h: "book_held b Q fs {}" and c: "unat (mb_live_count b) = card (live_slots Q)"
    using b by (auto simp: book_rep_def)
  have xr: "unat x < length (mb_slab b)" using x book_heldD(11) [OF h] by blast
  let ?sl = "(mb_slab b)[unat x := (mb_slab b ! unat x)\<lparr>so_order := f (so_order (mb_slab b ! unat x))\<rparr>]"
  let ?b = "b\<lparr>mb_slab := ?sl\<rparr>"
  have g: "nx ?sl = nx (mb_slab b)" "pv ?sl = pv (mb_slab b)" "od ?sl = (od (mb_slab b))(x := f (od (mb_slab b) x))"
    using xr by (simp_all add: slab_fun_upd fun_upd_idem_iff) (simp_all add: nx_def pv_def od_def)
  have "book_held ?b Q fs {}"
    using book_heldD(7-13) [OF h] by (intro book_held_frame [OF h]) (auto simp: g f)
  then have "book_rep ?b Q fs" using c by (simp add: book_rep_def)
  then show thesis using that [of ?b] xr g by (simp add: slab_update_simp)
qed

lemma orders_edit:
  assumes b: "book_rep b Q fs" and b': "book_rep b' Q fs" and x: "od (mb_slab b') = (od (mb_slab b))(x := r)"
  shows "orders_of b' sd = map (\<lambda>e. if fst e = x then (x, r) else e) (orders_of b sd)"
proof -
  have "entries b' xs = map (\<lambda>e. if fst e = x then (x, r) else e) (entries b xs)" for xs
    by (auto simp: entries_def x)
  then show ?thesis unfolding orders_of_rep [OF b] orders_of_rep [OF b'] orders_in_def by (simp add: map_concat comp_def)
qed

section \<open>The contract of a book\<close>

text \<open>
  What the engine relies on. A book is, for each side, a list of handles and orders in matching priority;
  \<open>add\<close> puts an order behind those of the same price, a removal takes one handle out of the list, an
  edit changes one order in its place, and the front operations act on the head of the list.
\<close>

definition set_quantity :: "Quantity \<Rightarrow> BookOrder \<Rightarrow> BookOrder" where
  "set_quantity q e = e\<lparr>bo_remaining_quantity := q\<rparr>"

definition set_client :: "ClientOrderId \<Rightarrow> BookOrder \<Rightarrow> BookOrder" where
  "set_client c e = e\<lparr>bo_client_order_id := c\<rparr>"

definition edit_entry :: "u32 \<Rightarrow> (BookOrder \<Rightarrow> BookOrder) \<Rightarrow> u32 \<times> BookOrder \<Rightarrow> u32 \<times> BookOrder" where
  "edit_entry x f e = (if fst e = x then (x, f (snd e)) else e)"

locale order_book =
  fixes ok :: "'b \<Rightarrow> bool" and orders :: "'b \<Rightarrow> Side \<Rightarrow> (u32 \<times> BookOrder) list"
    and admissible :: "Price \<Rightarrow> bool"
    and ins :: "BookOrder \<Rightarrow> 'b \<Rightarrow> (u32 \<times> 'b) option"
    and del :: "u32 \<Rightarrow> 'b \<Rightarrow> (BookOrder \<times> 'b) option"
    and requantify :: "u32 \<Rightarrow> Quantity \<Rightarrow> 'b \<Rightarrow> 'b option"
    and rename :: "u32 \<Rightarrow> ClientOrderId \<Rightarrow> 'b \<Rightarrow> 'b option"
    and get :: "u32 \<Rightarrow> 'b \<Rightarrow> BookOrder option"
    and front :: "Side \<Rightarrow> 'b \<Rightarrow> BookOrder option option"
    and requantify_front :: "Side \<Rightarrow> Quantity \<Rightarrow> 'b \<Rightarrow> 'b option"
    and del_front :: "Side \<Rightarrow> 'b \<Rightarrow> 'b option"
    and crossable :: "Side \<Rightarrow> Price \<Rightarrow> Quantity \<Rightarrow> 'b \<Rightarrow> Quantity option"
    and listing :: "Side \<Rightarrow> 'b \<Rightarrow> BookOrder list option"
  assumes distinct: "ok b \<Longrightarrow> distinct (map fst (orders b Buy @ orders b Sell))"
    and sorted: "ok b \<Longrightarrow> sorted (map (entry_prio sd) (orders b sd))"
    and sides: "ok b \<Longrightarrow> y \<in> set (orders b sd) \<Longrightarrow> bo_side (snd y) = sd"
    and ins: "ok b \<Longrightarrow> length (orders b Buy) + length (orders b Sell) < 2 ^ 32 - 1 \<Longrightarrow> admissible (bo_price e) \<Longrightarrow>
      \<exists>x b'. ins e b = Some (x, b') \<and> ok b' \<and>
        x \<notin> fst ` set (orders b Buy) \<union> fst ` set (orders b Sell) \<and>
        (\<forall>sd. orders b' sd = (if sd = bo_side e then insert_order sd (x, e) (orders b sd) else orders b sd))"
    and del: "ok b \<Longrightarrow> (x, e) \<in> set (orders b sd) \<Longrightarrow>
      \<exists>b'. del x b = Some (e, b') \<and> ok b' \<and> (\<forall>sd. orders b' sd = filter (\<lambda>y. fst y \<noteq> x) (orders b sd))"
    and requantify: "ok b \<Longrightarrow> (x, e) \<in> set (orders b sd) \<Longrightarrow>
      \<exists>b'. requantify x q b = Some b' \<and> ok b' \<and> (\<forall>sd. orders b' sd = map (edit_entry x (set_quantity q)) (orders b sd))"
    and rename: "ok b \<Longrightarrow> (x, e) \<in> set (orders b sd) \<Longrightarrow>
      \<exists>b'. rename x c b = Some b' \<and> ok b' \<and> (\<forall>sd. orders b' sd = map (edit_entry x (set_client c)) (orders b sd))"
    and get: "ok b \<Longrightarrow> (x, e) \<in> set (orders b sd) \<Longrightarrow> get x b = Some e"
    and front: "ok b \<Longrightarrow> front sd b = Some (map_option snd (hd_opt (orders b sd)))"
    and requantify_front: "ok b \<Longrightarrow> orders b sd \<noteq> [] \<Longrightarrow> requantify_front sd q b = requantify (fst (hd (orders b sd))) q b"
    and del_front: "ok b \<Longrightarrow> orders b sd \<noteq> [] \<Longrightarrow> del_front sd b = map_option snd (del (fst (hd (orders b sd))) b)"
    and crossable: "ok b \<Longrightarrow> crossable sd p q b = Some (cross_sum sd p q 0 (map snd (orders b sd)))"
    and listing: "ok b \<Longrightarrow> listing sd b = Some (map snd (orders b sd))"
begin

lemma distinct_side: "ok b \<Longrightarrow> distinct (map fst (orders b sd))"
  using distinct [of b] by (cases sd) auto

lemma other_side: "ok b \<Longrightarrow> (x, e) \<in> set (orders b sd) \<Longrightarrow> sd' \<noteq> sd \<Longrightarrow> x \<notin> fst ` set (orders b sd')"
  using distinct [of b] by (cases sd; cases sd') force+

lemma del_other: "ok b \<Longrightarrow> (x, e) \<in> set (orders b sd) \<Longrightarrow> sd' \<noteq> sd \<Longrightarrow>
    filter (\<lambda>y. fst y \<noteq> x) (orders b sd') = orders b sd'"
  using other_side [of b x e sd sd'] by (intro filter_True) auto

lemma edit_other: "ok b \<Longrightarrow> (x, e) \<in> set (orders b sd) \<Longrightarrow> sd' \<noteq> sd \<Longrightarrow>
    map (edit_entry x f) (orders b sd') = orders b sd'"
  using other_side [of b x e sd sd'] by (intro map_idI) (auto simp: edit_entry_def)

text \<open>The matching step's two ways to use the front: take it off, or leave less of it.\<close>

lemma del_front_list:
  assumes "ok b" "orders b sd = (x, e) # es"
  obtains b' where "del_front sd b = Some b'" "ok b'" "orders b' sd = es" "\<forall>sd'. sd' \<noteq> sd \<longrightarrow> orders b' sd' = orders b sd'"
proof -
  have m: "(x, e) \<in> set (orders b sd)" using assms(2) by simp
  obtain b' where b': "del x b = Some (e, b')" "ok b'" "\<forall>sd. orders b' sd = filter (\<lambda>y. fst y \<noteq> x) (orders b sd)"
    using del [OF assms(1) m] by blast
  have "filter (\<lambda>y. fst y \<noteq> x) (orders b sd) = es"
    using distinct_side [OF assms(1), of sd] by (auto simp: assms(2) intro!: filter_True)
  then have "orders b' sd = es" using b'(3) by simp
  moreover have "del_front sd b = Some b'" using del_front [OF assms(1), of sd] b'(1) by (simp add: assms(2))
  moreover have "orders b' sd' = orders b sd'" if "sd' \<noteq> sd" for sd'
    using b'(3) del_other [OF assms(1) m that] by simp
  ultimately show thesis using that b'(2) by simp
qed

lemma requantify_front_list:
  assumes "ok b" "orders b sd = (x, e) # es"
  obtains b' where "requantify_front sd q b = Some b'" "ok b'" "orders b' sd = (x, set_quantity q e) # es"
    "\<forall>sd'. sd' \<noteq> sd \<longrightarrow> orders b' sd' = orders b sd'"
proof -
  have m: "(x, e) \<in> set (orders b sd)" using assms(2) by simp
  obtain b' where b': "requantify x q b = Some b'" "ok b'"
    "\<forall>sd. orders b' sd = map (edit_entry x (set_quantity q)) (orders b sd)"
    using requantify [OF assms(1) m] by blast
  have "map (edit_entry x (set_quantity q)) es = es"
    using distinct_side [OF assms(1), of sd] by (intro map_idI) (auto simp: assms(2) edit_entry_def)
  then have "orders b' sd = (x, set_quantity q e) # es" using b'(3) by (simp add: assms(2) edit_entry_def)
  moreover have "requantify_front sd q b = Some b'" using requantify_front [OF assms(1), of sd] b'(1) by (simp add: assms(2))
  moreover have "orders b' sd' = orders b sd'" if "sd' \<noteq> sd" for sd'
    using b'(3) edit_other [OF assms(1) m that] by simp
  ultimately show thesis using that b'(2) by simp
qed

end

lemma card_live: "book_rep b Q fs \<Longrightarrow> card (live_slots Q) = length (orders_of b Buy) + length (orders_of b Sell)"
proof -
  assume b: "book_rep b Q fs"
  then have h: "book_held b Q fs {}" by (simp add: book_rep_def)
  let ?S = "\<lambda>sd. fst ` set (orders_of b sd)"
  have S: "?S sd = {x. \<exists>p. x \<in> set (Q sd p)}" for sd by (force simp: set_orders_of [OF b])
  have "live_slots Q = ?S Buy \<union> ?S Sell" unfolding S live_slots_def by (auto, metis Side.exhaust)
  moreover have "?S Buy \<inter> ?S Sell = {}" unfolding S using live_slots_same(1) [OF h] by blast
  moreover have "card (?S sd) = length (orders_of b sd)" for sd
    using distinct_card [OF orders_distinct [OF b, of sd]] by simp
  ultimately show ?thesis by (simp add: card_Un_disjoint)
qed

lemma rep_slot:
  assumes "book_rep b Q fs" "(x, e) \<in> set (orders_of b sd)"
  obtains p where "x \<in> set (Q sd p)" "e = od (mb_slab b) x" "x \<in> live_slots Q"
  using assms set_orders_of [OF assms(1)] live_slot_mem by blast

interpretation ob: order_book book_inv orders_of price_ok add remove_at reduce_at set_client_order_id_at at
  front_of_best reduce_front remove_front crossable_quantity all_of
proof
  fix b sd x e q c p
  assume "book_inv b"
  then obtain Q fs where b: "book_rep b Q fs" by (auto simp: book_inv_def)
  then have h: "book_held b Q fs {}" by (simp add: book_rep_def)
  show "distinct (map fst (orders_of b Buy @ orders_of b Sell))"
  proof -
    have "fst ` set (orders_of b Buy) \<inter> fst ` set (orders_of b Sell) = {}"
      using live_slots_same(1) [OF h] by (fastforce simp: set_orders_of [OF b])
    then show ?thesis using orders_distinct [OF b] by auto
  qed
  show "sorted (map (entry_prio sd) (orders_of b sd))" by (rule orders_sorted [OF b])
  show "bo_side (snd f) = sd" if "f \<in> set (orders_of b sd)" for f
    using that book_heldD(5) [OF h] by (auto simp: set_orders_of [OF b])
  show "\<exists>x b'. add e b = Some (x, b') \<and> book_inv b' \<and>
        x \<notin> fst ` set (orders_of b Buy) \<union> fst ` set (orders_of b Sell) \<and>
        (\<forall>sd. orders_of b' sd = (if sd = bo_side e then insert_order sd (x, e) (orders_of b sd) else orders_of b sd))"
    if room: "length (orders_of b Buy) + length (orders_of b Sell) < 2 ^ 32 - 1" and pr: "price_ok (bo_price e)"
  proof -
    have "card (live_slots Q) < 2 ^ 32 - 1" using room card_live [OF b] by simp
    then obtain slot b' fs' where r: "add e b = Some (slot, b')"
      "book_rep b' (q_upd Q (bo_side e) (bo_price e) (Q (bo_side e) (bo_price e) @ [slot])) fs'"
      "slot \<notin> live_slots Q" "od (mb_slab b') slot = e" "\<forall>x \<in> live_slots Q. od (mb_slab b') x = od (mb_slab b) x"
      by (rule add_rep [OF b _ pr]) (rule that)
    have "slot \<notin> fst ` set (orders_of b Buy) \<union> fst ` set (orders_of b Sell)"
      using r(3) live_slot_mem by (fastforce simp: set_orders_of [OF b])
    then show ?thesis using r(1) book_invI [OF r(2)] orders_add [OF b r(2-5)] by blast
  qed
  show "front_of_best sd b = Some (map_option snd (hd_opt (orders_of b sd)))"
  proof (cases "orders_of b sd = []")
    case True
    then show ?thesis using empty_side(2) [OF b, of sd] by (simp add: front_of_best_def)
  next
    case False
    obtain r where r: "Q sd r \<noteq> []" "front_slot (side_of sd b) = Some (hd (Q sd r))"
      "snd (hd (orders_of b sd)) = od (mb_slab b) (hd (Q sd r))"
      by (rule front_rep [OF b False]) (rule that)
    have "unat (hd (Q sd r)) < length (mb_slab b)" using live_slot_bounds [OF h, of "hd (Q sd r)" sd r] r(1) by simp
    then show ?thesis using r False empty_side(2) [OF b, of sd]
      by (cases "orders_of b sd") (auto simp: front_of_best_def slab_at_simp od_def)
  qed
  show "reduce_front sd q b = reduce_at (fst (hd (orders_of b sd))) q b" if "orders_of b sd \<noteq> []"
    by (rule front_rep [OF b that]) (simp add: reduce_front_def)
  show "remove_front sd b = map_option snd (remove_at (fst (hd (orders_of b sd))) b)" if ne: "orders_of b sd \<noteq> []"
  proof -
    obtain r where r: "best_price (side_of sd b) = Some r" "Q sd r \<noteq> []" "fst (hd (orders_of b sd)) = hd (Q sd r)"
      by (rule front_rep [OF b ne]) (rule that)
    have m: "hd (Q sd r) \<in> set (Q sd r)" using r(2) by simp
    obtain b' where "remove_at (hd (Q sd r)) b = Some (od (mb_slab b) (hd (Q sd r)), b')"
      "hd (Q sd r) = hd (Q sd r) \<Longrightarrow> best_price (side_of sd b) = Some r \<Longrightarrow> remove_front sd b = Some b'"
      by (rule remove_rep [OF b m]) (rule that)
    then show ?thesis using r by simp
  qed
  show "crossable_quantity sd p q b = Some (cross_sum sd p q 0 (map snd (orders_of b sd)))" by (rule crossable_rep [OF b])
  show "all_of sd b = Some (map snd (orders_of b sd))" by (rule all_of_rep [OF b])
  assume "(x, e) \<in> set (orders_of b sd)"
  then obtain r where x: "x \<in> set (Q sd r)" "e = od (mb_slab b) x" "x \<in> live_slots Q" by (rule rep_slot [OF b])
  show "at x b = Some e" using live_slot_bounds [OF h x(1)] x(2) by (simp add: at_def slab_at_simp od_def)
  show "\<exists>b'. remove_at x b = Some (e, b') \<and> book_inv b' \<and> (\<forall>sd. orders_of b' sd = filter (\<lambda>y. fst y \<noteq> x) (orders_of b sd))"
  proof -
    obtain b' where r: "remove_at x b = Some (od (mb_slab b) x, b')"
      "book_rep b' (q_upd Q sd r (filter (\<lambda>y. y \<noteq> x) (Q sd r))) (x # fs)" "od (mb_slab b') = od (mb_slab b)"
      by (rule remove_rep [OF b x(1)]) (rule that)
    then show ?thesis using x(2) book_invI [OF r(2)] orders_remove [OF b x(1) r(2,3)] by blast
  qed
  have edit: "\<exists>b'. slab_update x (\<lambda>e. e\<lparr>so_order := f (so_order e)\<rparr>) b = Some b' \<and> book_inv b' \<and>
      (\<forall>sd. orders_of b' sd = map (edit_entry x f) (orders_of b sd))"
    if f: "\<And>e. bo_side (f e) = bo_side e" "\<And>e. bo_price (f e) = bo_price e" for f
  proof -
    obtain b' where r: "slab_update x (\<lambda>e. e\<lparr>so_order := f (so_order e)\<rparr>) b = Some b'" "book_rep b' Q fs"
      "od (mb_slab b') = (od (mb_slab b))(x := f (od (mb_slab b) x))"
      by (rule edit_rep [OF b x(3), of f]) (use f in auto)
    have "snd y = od (mb_slab b) (fst y)" if "y \<in> set (orders_of b s)" for y s
      using that by (auto simp: set_orders_of [OF b])
    then have "orders_of b' s = map (edit_entry x f) (orders_of b s)" for s
      unfolding orders_edit [OF b r(2,3)] by (intro map_cong refl) (auto simp: edit_entry_def)
    then show ?thesis using r(1) book_invI [OF r(2)] by blast
  qed
  show "\<exists>b'. reduce_at x q b = Some b' \<and> book_inv b' \<and> (\<forall>sd. orders_of b' sd = map (edit_entry x (set_quantity q)) (orders_of b sd))"
    using edit [of "set_quantity q"] by (simp add: reduce_at_def set_quantity_def)
  show "\<exists>b'. set_client_order_id_at x c b = Some b' \<and> book_inv b' \<and> (\<forall>sd. orders_of b' sd = map (edit_entry x (set_client c)) (orders_of b sd))"
    using edit [of "set_client c"] by (simp add: set_client_order_id_at_def set_client_def)
qed

section \<open>A new book\<close>

lemma bit_floor_power:
  assumes "0 < n"
  obtains k where "bit_floor n = 2 ^ k" "2 ^ k \<le> n" "n < 2 * 2 ^ k"
  using assms
proof (induction n arbitrary: thesis rule: less_induct)
  case (less n)
  show ?case
  proof (cases "n = 1")
    case True
    then show ?thesis using less(2) [of 0] by (simp add: bit_floor.simps)
  next
    case False
    have d: "n div 2 < n" "0 < n div 2" using False less(3) by auto
    obtain k where k: "bit_floor (n div 2) = 2 ^ k" "2 ^ k \<le> n div 2" "n div 2 < 2 * 2 ^ k"
      by (rule less(1) [OF d(1) _ d(2)])
    have "bit_floor n = 2 ^ Suc k" using False less(3) k(1) by (subst bit_floor.simps) simp
    moreover have "2 ^ Suc k \<le> n" "n < 2 * 2 ^ Suc k" using k(2,3) by simp_all
    ultimately show ?thesis by (rule less(2))
  qed
qed

lemma band_for_cases:
  "band_for n budget = 0 \<or> (\<exists>k \<in> {10..13}. band_for n budget = 2 ^ k)"
proof (cases "n = 0 \<or> budget div n div (2 * 8) < kMinBandTicks")
  case True
  have "(8192 :: nat) = 2 ^ 13" "(13 :: nat) \<in> {10..13}" by simp_all
  then have "\<exists>k \<in> {10..13 :: nat}. (8192 :: nat) = 2 ^ k" by blast
  with True show ?thesis by (cases "n = 0") (simp_all add: band_for_def kMaxBandTicks_def Let_def)
next
  case False
  let ?t = "min (budget div n div (2 * 8)) kMaxBandTicks"
  have t: "1024 \<le> ?t" "?t \<le> 8192" using False by (auto simp: kMinBandTicks_def kMaxBandTicks_def)
  obtain k where k: "bit_floor ?t = 2 ^ k" "2 ^ k \<le> ?t" "?t < 2 * 2 ^ k"
    by (rule bit_floor_power [of ?t]) (use t in linarith)
  have "(1024 :: nat) < 2 * 2 ^ k" "2 ^ k \<le> (8192 :: nat)" using k t by linarith+
  then have "(2 :: nat) ^ 10 < 2 ^ Suc k" "(2 :: nat) ^ k \<le> 2 ^ 13" by simp_all
  then have "10 \<le> k" "k \<le> 13" by (simp_all only: power_strict_increasing_iff power_increasing_iff one_less_numeral_iff semiring_norm)
  with False k(1) show ?thesis by (auto simp: band_for_def)
qed

lemma band_for_ok: "64 dvd band_for n budget" "band_for n budget \<le> 8192"
proof -
  have "64 dvd (2 :: nat) ^ k \<and> (2 :: nat) ^ k \<le> 8192" if "k \<in> {10..13}" for k
  proof -
    have "(2 :: nat) ^ 6 dvd 2 ^ k" using that by (intro le_imp_power_dvd) simp
    moreover have "(2 :: nat) ^ k \<le> 2 ^ 13" using that by (intro power_increasing) auto
    ultimately show ?thesis by simp
  qed
  then show "64 dvd band_for n budget" "band_for n budget \<le> 8192"
    using band_for_cases [of n budget] by auto
qed

lemma new_matching_book:
  assumes "64 dvd unat band" "unat band \<le> 8192"
  shows "book_inv (new_matching_book band)" "orders_of (new_matching_book band) sd = []"
proof -
  let ?b = "new_matching_book band"
  have sd: "side_of sd ?b = new_side_index sd band" for sd
    by (cases sd) (simp_all add: side_of_def new_matching_book_def)
  have e: "live_slots (\<lambda>_ _. []) = {}" by (simp add: live_slots_def)
  have r: "book_rep ?b (\<lambda>_ _. []) []"
    using new_side_index [OF assms]
    by (simp add: book_rep_def book_held_def sd e level_rep_def) (simp add: new_matching_book_def)
  show "book_inv ?b" by (rule book_invI [OF r])
  show "orders_of ?b sd = []" by (simp add: orders_of_rep [OF r] orders_in_def)
qed

lemma add_capacity:
  assumes "book_inv b" "length (orders_of b Buy) + length (orders_of b Sell) < 2 ^ 32 - 1" "price_ok (bo_price e)"
    "add e b = Some (x, b')"
  shows "mb_slab_capacity b' \<le> max (mb_slab_capacity b) (length (orders_of b Buy) + length (orders_of b Sell) + 1)"
proof -
  obtain Q fs where b: "book_rep b Q fs" using assms(1) by (auto simp: book_inv_def)
  have "card (live_slots Q) < 2 ^ 32 - 1" using assms(2) card_live [OF b] by simp
  then obtain y c fs' where r: "add e b = Some (y, c)"
    "book_rep c (q_upd Q (bo_side e) (bo_price e) (Q (bo_side e) (bo_price e) @ [y])) fs'"
    "length (mb_slab c) \<le> max (length (mb_slab b)) (card (live_slots Q) + 1)"
    by (rule add_rep [OF b _ assms(3)]) (rule that)
  moreover have "mb_slab_capacity b = length (mb_slab b)" "mb_slab_capacity c = length (mb_slab c)"
    using b r(2) book_heldD(12) by (auto simp: book_rep_def)
  ultimately show ?thesis using assms(4) card_live [OF b] by simp
qed

lemma live_count_orders:
  "book_inv b \<Longrightarrow> unat (mb_live_count b) = length (orders_of b Buy) + length (orders_of b Sell)"
  using card_live by (auto simp: book_inv_def book_rep_def)

section \<open>Properties\<close>

text \<open>
  \<open>MatchingBook::add\<close> is time priority: from a well-formed book with room it succeeds, returns a
  handle no live order has, and puts the order behind every order of the same or a better price and in
  front of every worse one; the other side and every other order keep their place, and the slab grows
  only when no freed slot is left.
\<close>

theorem add_is_price_time_priority:
  assumes "book_inv b" "length (orders_of b Buy) + length (orders_of b Sell) < 2 ^ 32 - 1" "price_ok (bo_price e)"
  shows "\<exists>x b'. add e b = Some (x, b') \<and> book_inv b' \<and>
    x \<notin> fst ` set (orders_of b Buy) \<union> fst ` set (orders_of b Sell) \<and>
    (\<forall>sd. orders_of b' sd = (if sd = bo_side e then insert_order sd (x, e) (orders_of b sd) else orders_of b sd)) \<and>
    mb_slab_capacity b' \<le> max (mb_slab_capacity b) (length (orders_of b Buy) + length (orders_of b Sell) + 1)"
  using ob.ins [OF assms] add_capacity [OF assms] by blast

definition sample_order :: "Side \<Rightarrow> Price \<Rightarrow> Quantity \<Rightarrow> u64 \<Rightarrow> BookOrder" where
  "sample_order sd p q n =
     \<lparr>bo_exchange_order_id = n, bo_client_order_id = n, bo_account_id = 7, bo_price = p,
      bo_remaining_quantity = q, bo_side = sd, bo_time_in_force = GTC\<rparr>"

lemma sample_book: "book_inv (new_matching_book 1024)" "orders_of (new_matching_book 1024) sd = []"
  by (rule new_matching_book; simp)+

theorem add_is_price_time_priority_witness:
  "\<exists>x b'. add (sample_order Buy 100 5 1) (new_matching_book 1024) = Some (x, b') \<and> book_inv b' \<and>
    x \<notin> fst ` set (orders_of (new_matching_book 1024) Buy) \<union> fst ` set (orders_of (new_matching_book 1024) Sell) \<and>
    (\<forall>sd. orders_of b' sd = (if sd = bo_side (sample_order Buy 100 5 1)
       then insert_order sd (x, sample_order Buy 100 5 1) (orders_of (new_matching_book 1024) sd)
       else orders_of (new_matching_book 1024) sd)) \<and>
    mb_slab_capacity b' \<le> max (mb_slab_capacity (new_matching_book 1024))
      (length (orders_of (new_matching_book 1024) Buy) + length (orders_of (new_matching_book 1024) Sell) + 1)"
  by (rule add_is_price_time_priority) (simp_all add: sample_book sample_order_def price_ok_def)

text \<open>A book with one bid, as \<open>add\<close> leaves it.\<close>

definition book_of_one :: "MatchingBook option" where
  "book_of_one = map_option snd (add (sample_order Buy 100 5 1) (new_matching_book 1024))"

lemma book_of_one:
  obtains x b where "book_of_one = Some b" "book_inv b" "orders_of b Buy = [(x, sample_order Buy 100 5 1)]"
    "orders_of b Sell = []"
proof -
  obtain x b where "add (sample_order Buy 100 5 1) (new_matching_book 1024) = Some (x, b)" "book_inv b"
    "\<forall>sd. orders_of b sd = (if sd = Buy then insert_order sd (x, sample_order Buy 100 5 1) [] else [])"
    using ob.ins [of "new_matching_book 1024" "sample_order Buy 100 5 1"]
    by (auto simp: sample_book sample_order_def price_ok_def)
  then show thesis using that [of b x] by (simp add: book_of_one_def insert_order_def)
qed

text \<open>
  An order that rests is found under its handle and leaves the book when the handle is removed:
  \<open>at\<close> reads it, \<open>remove_at\<close> returns it, and every other order of both sides keeps its place; the
  live count falls by one. Neither reads outside the slab or dereferences a missing level.
\<close>

theorem remove_at_takes_one_order:
  assumes "book_inv b" "(x, e) \<in> set (orders_of b sd)"
  shows "at x b = Some e \<and>
    (\<exists>b'. remove_at x b = Some (e, b') \<and> book_inv b' \<and>
       (\<forall>sd. orders_of b' sd = filter (\<lambda>y. fst y \<noteq> x) (orders_of b sd)) \<and>
       unat (mb_live_count b') + 1 = unat (mb_live_count b))"
proof -
  obtain b' where b': "remove_at x b = Some (e, b')" "book_inv b'"
    "\<forall>sd. orders_of b' sd = filter (\<lambda>y. fst y \<noteq> x) (orders_of b sd)"
    using ob.del [OF assms] by blast
  have "length (filter (\<lambda>y. fst y \<noteq> x) ys) + 1 = length ys" if "(x, e) \<in> set ys" "distinct (map fst ys)" for ys :: "(u32 \<times> BookOrder) list"
    using that
  proof (induction ys)
    case (Cons y ys)
    have "filter (\<lambda>y. fst y \<noteq> x) ys = ys" if "fst y = x" using Cons.prems(2) that by (intro filter_True) (metis distinct.simps(2) image_eqI list.simps(9) set_map)
    moreover have "(x, e) \<notin> set ys" if "fst y = x" using Cons.prems(2) that by (metis distinct.simps(2) fst_conv image_eqI list.simps(9) set_map)
    ultimately show ?case using Cons by auto
  qed simp
  then have "length (orders_of b' sd) + 1 = length (orders_of b sd)"
    using b'(3) assms(2) ob.distinct_side [OF assms(1)] by simp
  moreover have "length (orders_of b' sd') = length (orders_of b sd')" if "sd' \<noteq> sd" for sd'
    using b'(3) ob.del_other [OF assms that] by simp
  ultimately have "unat (mb_live_count b') + 1 = unat (mb_live_count b)"
    using live_count_orders [OF b'(2)] live_count_orders [OF assms(1)] by (cases sd) auto
  then show ?thesis using ob.get [OF assms] b' by blast
qed

theorem remove_at_takes_one_order_witness:
  "\<exists>b x. book_of_one = Some b \<and> at x b = Some (sample_order Buy 100 5 1) \<and>
    (\<exists>b'. remove_at x b = Some (sample_order Buy 100 5 1, b') \<and> book_inv b' \<and>
       (\<forall>sd. orders_of b' sd = filter (\<lambda>y. fst y \<noteq> x) (orders_of b sd)) \<and>
       unat (mb_live_count b') + 1 = unat (mb_live_count b))"
proof (rule book_of_one)
  fix x b
  assume b: "book_of_one = Some b" "book_inv b" "orders_of b Buy = [(x, sample_order Buy 100 5 1)]"
  then show ?thesis using remove_at_takes_one_order [of b x "sample_order Buy 100 5 1" Buy] by auto
qed

text \<open>
  The front of a side is its first order in priority: \<open>front_of_best\<close> returns it and the null
  pointer for an empty side, \<open>remove_front\<close> leaves the rest of the list, \<open>reduce_front\<close> changes its
  remaining quantity alone, and neither touches the other side.
\<close>

theorem front_operations_act_on_the_first_order:
  assumes "book_inv b"
  shows "front_of_best sd b = Some (map_option snd (hd_opt (orders_of b sd))) \<and>
    (\<forall>x e es. orders_of b sd = (x, e) # es \<longrightarrow>
       (\<exists>b'. remove_front sd b = Some b' \<and> book_inv b' \<and> orders_of b' sd = es \<and>
          orders_of b' (contra_side sd) = orders_of b (contra_side sd)) \<and>
       (\<exists>b'. reduce_front sd q b = Some b' \<and> book_inv b' \<and> orders_of b' sd = (x, set_quantity q e) # es \<and>
          orders_of b' (contra_side sd) = orders_of b (contra_side sd)))"
proof (intro conjI allI impI)
  show "front_of_best sd b = Some (map_option snd (hd_opt (orders_of b sd)))" by (rule ob.front [OF assms])
  fix x e es assume o: "orders_of b sd = (x, e) # es"
  show "\<exists>b'. remove_front sd b = Some b' \<and> book_inv b' \<and> orders_of b' sd = es \<and>
          orders_of b' (contra_side sd) = orders_of b (contra_side sd)"
    by (rule ob.del_front_list [OF assms o]) simp
  show "\<exists>b'. reduce_front sd q b = Some b' \<and> book_inv b' \<and> orders_of b' sd = (x, set_quantity q e) # es \<and>
          orders_of b' (contra_side sd) = orders_of b (contra_side sd)"
    by (rule ob.requantify_front_list [OF assms o, of q]) simp
qed

theorem front_operations_act_on_the_first_order_witness:
  "\<exists>b x. book_of_one = Some b \<and> orders_of b Buy = [(x, sample_order Buy 100 5 1)] \<and>
    front_of_best Buy b = Some (Some (sample_order Buy 100 5 1)) \<and>
    (\<exists>b'. remove_front Buy b = Some b' \<and> book_inv b' \<and> orders_of b' Buy = [] \<and> orders_of b' Sell = []) \<and>
    (\<exists>b'. reduce_front Buy 3 b = Some b' \<and> book_inv b' \<and> orders_of b' Buy = [(x, sample_order Buy 100 3 1)])"
proof (rule book_of_one)
  fix x b
  assume b: "book_of_one = Some b" "book_inv b" "orders_of b Buy = [(x, sample_order Buy 100 5 1)]" "orders_of b Sell = []"
  have q: "set_quantity 3 (sample_order Buy 100 5 1) = sample_order Buy 100 3 1"
    by (simp add: set_quantity_def sample_order_def)
  show ?thesis
    using front_operations_act_on_the_first_order [OF b(2), of Buy 3] b by (fastforce simp: q)
qed

text \<open>
  The two walks over a side end and return what the priority list says: \<open>all_of\<close> the orders
  themselves, in non-decreasing price priority, and \<open>crossable_quantity\<close> the running sum of the
  remaining quantities of the orders that cross, stopped at the first level that does not cross or as
  soon as the requested quantity is covered.
\<close>

theorem walks_end_and_follow_priority:
  assumes "book_inv b"
  shows "all_of sd b = Some (map snd (orders_of b sd)) \<and>
    sorted (map (entry_prio sd) (orders_of b sd)) \<and>
    crossable_quantity sd price q b = Some (cross_sum sd price q 0 (map snd (orders_of b sd)))"
  using ob.listing [OF assms] ob.sorted [OF assms] ob.crossable [OF assms] by blast

theorem walks_end_and_follow_priority_witness:
  "\<exists>b. book_of_one = Some b \<and> all_of Buy b = Some (map snd (orders_of b Buy)) \<and>
    sorted (map (entry_prio Buy) (orders_of b Buy)) \<and>
    crossable_quantity Buy 90 3 b = Some (cross_sum Buy 90 3 0 (map snd (orders_of b Buy)))"
proof (rule book_of_one)
  fix x b
  assume b: "book_of_one = Some b" "book_inv b"
  then show ?thesis using walks_end_and_follow_priority [OF b(2), of Buy 90 3] by blast
qed

end
