(* ===== verification/MatchingEngine.thy ===== *)
theory MatchingEngine
  imports MatchingBook
begin

text \<open>
  \<open>MatchingEngine\<close> of \<open>src/include/exchange/matching/matching_engine.hpp\<close> and
  \<open>src/src/exchange/matching/matching_engine.cpp\<close>: the registry of instruments, one book per
  instrument, the directory of live orders, and the three commands.

  The event sink is called in order on the calling thread and never calls back into the engine, so an
  operation carries the engine together with the list of events emitted so far (\<open>Run\<close>), and
  \<open>emit\<close> is one call of the sink with the next event sequence number. \<open>None\<close> is undefined behaviour
  or a matching loop that does not end; the theorems exclude both from a well-formed engine. The pools
  and the capacity reservations have no effect on what is computed and are left out; the atomic that
  publishes the directory's size is the 64-bit counter it holds.
\<close>

section \<open>State\<close>

record LiveKey =
  lk_account_id :: AccountId
  lk_client_order_id :: ClientOrderId

record OrderRef =
  rf_original_quantity :: Quantity
  rf_order_sequence :: u64
  rf_handle :: u32
  rf_instrument_id :: InstrumentId

record MatchingEngine =
  me_slot_of_id :: "u32 list"
  me_books :: "MatchingBook list"
  me_band_ticks :: u32
  me_by_id :: "(InstrumentId \<times> u32) list"
  me_orders :: "LiveKey \<rightharpoonup> OrderRef"
  me_resting_orders :: u64
  me_next_exchange_order_id :: ExchangeOrderId
  me_next_event_sequence :: EventSequence
  me_next_priority :: u64

type_synonym Run = "MatchingEngine \<times> ExchangeEvent list"

definition kMaxInstrumentId :: InstrumentId where
  "kMaxInstrumentId = push_bit 22 1 - 1"

definition kLadderByteBudget :: nat where
  "kLadderByteBudget = 8 * 2 ^ 20"

definition kNoSlot :: u32 where
  "kNoSlot = NOT 0"

definition live_key :: "AccountId \<Rightarrow> ClientOrderId \<Rightarrow> LiveKey" where
  "live_key a c = \<lparr>lk_account_id = a, lk_client_order_id = c\<rparr>"

section \<open>The registry\<close>

definition knows_instrument :: "InstrumentId \<Rightarrow> MatchingEngine \<Rightarrow> bool" where
  "knows_instrument i e \<longleftrightarrow> unat i < length (me_slot_of_id e) \<and> me_slot_of_id e ! unat i \<noteq> kNoSlot"

fun insert_by_id :: "InstrumentId \<times> u32 \<Rightarrow> (InstrumentId \<times> u32) list \<Rightarrow> (InstrumentId \<times> u32) list" where
  \<comment> \<open>\<open>std::lower_bound\<close> on the ids, then \<open>insert\<close>\<close>
  "insert_by_id x [] = [x]"
| "insert_by_id x (y # ys) = (if fst y < fst x then y # insert_by_id x ys else x # y # ys)"

definition register_instrument :: "InstrumentId \<Rightarrow> MatchingEngine \<Rightarrow> bool \<times> MatchingEngine" where
  "register_instrument i e =
     (if kMaxInstrumentId < i \<or> knows_instrument i e then (False, e)
      else
        let table = me_slot_of_id e @ replicate (unat i + 1 - length (me_slot_of_id e)) kNoSlot;
            slot = word_of_nat (length (me_books e));
            band = min (me_band_ticks e) (word_of_nat (band_for (length (me_books e) + 1) kLadderByteBudget))
        in (True, e\<lparr>me_slot_of_id := table[unat i := slot],
                    me_books := me_books e @ [new_matching_book band],
                    me_band_ticks := band,
                    me_by_id := insert_by_id (i, slot) (me_by_id e)\<rparr>))"

definition widest_id :: "InstrumentId list \<Rightarrow> InstrumentId" where
  "widest_id universe = fold (\<lambda>i w. if i \<le> kMaxInstrumentId then max w i else w) universe 0"

definition new_matching_engine :: "InstrumentId list \<Rightarrow> MatchingEngine" where
  "new_matching_engine universe =
     fold (\<lambda>i e. snd (register_instrument i e)) universe
       \<lparr>me_slot_of_id = (if universe \<noteq> [] then replicate (unat (widest_id universe) + 1) kNoSlot else []),
        me_books = [],
        me_band_ticks = (if universe \<noteq> [] then word_of_nat (band_for (length universe) kLadderByteBudget)
                         else word_of_nat kMaxBandTicks),
        me_by_id = [], me_orders = Map.empty, me_resting_orders = 0,
        me_next_exchange_order_id = 1, me_next_event_sequence = 1, me_next_priority = 1\<rparr>"

definition book_slot :: "InstrumentId \<Rightarrow> MatchingEngine \<Rightarrow> nat option" where
  "book_slot i e =
     (if unat i < length (me_slot_of_id e) \<and> unat (me_slot_of_id e ! unat i) < length (me_books e)
      then Some (unat (me_slot_of_id e ! unat i)) else None)"

definition book_for :: "InstrumentId \<Rightarrow> MatchingEngine \<Rightarrow> MatchingBook option" where
  "book_for i e = map_option (\<lambda>s. me_books e ! s) (book_slot i e)"

definition set_book :: "InstrumentId \<Rightarrow> MatchingBook \<Rightarrow> MatchingEngine \<Rightarrow> MatchingEngine" where
  \<comment> \<open>a write through the reference \<open>book_for\<close> returned\<close>
  "set_book i b e =
     (case book_slot i e of None \<Rightarrow> e | Some s \<Rightarrow> e\<lparr>me_books := (me_books e)[s := b]\<rparr>)"

section \<open>Snapshots and statistics\<close>

definition compose :: "BookOrder \<Rightarrow> InstrumentId \<Rightarrow> MatchingEngine \<Rightarrow> ExchangeRestingOrder option" where
  \<comment> \<open>\<open>orders_.at\<close> throws when the order has no entry: \<open>None\<close>\<close>
  "compose order i e = do {
     ref \<leftarrow> me_orders e (live_key (bo_account_id order) (bo_client_order_id order));
     Some \<lparr>ro_exchange_order_id = bo_exchange_order_id order, ro_client_order_id = bo_client_order_id order,
           ro_account_id = bo_account_id order, ro_price = bo_price order,
           ro_original_quantity = rf_original_quantity ref,
           ro_remaining_quantity = bo_remaining_quantity order,
           ro_order_sequence = rf_order_sequence ref, ro_instrument_id = i,
           ro_side = bo_side order, ro_time_in_force = bo_time_in_force order\<rparr>
   }"

fun compose_all :: "BookOrder list \<Rightarrow> InstrumentId \<Rightarrow> MatchingEngine \<Rightarrow> ExchangeRestingOrder list option" where
  "compose_all [] i e = Some []"
| "compose_all (b # bs) i e = do { r \<leftarrow> compose b i e; rs \<leftarrow> compose_all bs i e; Some (r # rs) }"

fun snapshot_of :: "(InstrumentId \<times> u32) list \<Rightarrow> MatchingEngine \<Rightarrow> InstrumentBookSnapshot list option" where
  "snapshot_of [] e = Some []"
| "snapshot_of ((i, slot) # rest) e = do {
     book \<leftarrow> (if unat slot < length (me_books e) then Some (me_books e ! unat slot) else None);
     bs \<leftarrow> all_bids book;
     bids \<leftarrow> compose_all bs i e;
     as \<leftarrow> all_asks book;
     asks \<leftarrow> compose_all as i e;
     others \<leftarrow> snapshot_of rest e;
     Some (if bids = [] \<and> asks = [] then others
           else \<lparr>ib_instrument_id = i, ib_bids = bids, ib_asks = asks\<rparr> # others)
   }"

definition snapshot :: "MatchingEngine \<Rightarrow> EngineStateSnapshot option" where
  "snapshot e = map_option (\<lambda>xs. \<lparr>es_instruments = xs\<rparr>) (snapshot_of (me_by_id e) e)"

definition engine_out_of_band_levels :: "MatchingEngine \<Rightarrow> nat" where
  "engine_out_of_band_levels e = fold (\<lambda>b t. t + out_of_band_levels b) (me_books e) 0"

definition engine_out_of_band_orders :: "MatchingEngine \<Rightarrow> nat option" where
  "engine_out_of_band_orders e =
     fold (\<lambda>b r. do { t \<leftarrow> r; n \<leftarrow> out_of_band_orders b; Some (t + n) }) (me_books e) (Some 0)"

record BookMemoryStats =
  ms_live_orders :: u64
  ms_slab_capacity :: nat

definition book_memory_stats :: "MatchingEngine \<Rightarrow> BookMemoryStats" where
  "book_memory_stats e =
     fold (\<lambda>b s. s\<lparr>ms_live_orders := ms_live_orders s + mb_live_count b,
                    ms_slab_capacity := ms_slab_capacity s + mb_slab_capacity b\<rparr>)
       (me_books e) \<lparr>ms_live_orders = 0, ms_slab_capacity = 0\<rparr>"

section \<open>Events\<close>

definition emit :: "(EventSequence \<Rightarrow> ExchangeEvent) \<Rightarrow> Run \<Rightarrow> Run" where
  \<comment> \<open>\<open>sink(E{.event_sequence = next_event_sequence_++, ...})\<close>\<close>
  "emit ev r =
     ((fst r)\<lparr>me_next_event_sequence := me_next_event_sequence (fst r) + 1\<rparr>,
      snd r @ [ev (me_next_event_sequence (fst r))])"

definition reject :: "CommandSequence \<Rightarrow> AccountId \<Rightarrow> ClientOrderId \<Rightarrow> InstrumentId \<Rightarrow> RejectReason \<Rightarrow> Run \<Rightarrow> Run" where
  "reject cs a c i reason =
     emit (\<lambda>n. EvRejected \<lparr>or_event_sequence = n, or_command_sequence = cs, or_account_id = a,
                           or_client_order_id = c, or_instrument_id = i, or_reason = reason\<rparr>)"

definition reject_new_order :: "NewOrderCommand \<Rightarrow> RejectReason \<Rightarrow> Run \<Rightarrow> Run" where
  "reject_new_order c reason =
     reject (nc_command_sequence c) (nc_account_id c) (nc_client_order_id c) (nc_instrument_id c) reason"

definition reject_replace_order :: "ReplaceOrderCommand \<Rightarrow> RejectReason \<Rightarrow> Run \<Rightarrow> Run" where
  "reject_replace_order c reason =
     reject (rc_command_sequence c) (rc_account_id c) (rc_original_client_order_id c) (rc_instrument_id c) reason"

section \<open>Matching\<close>

definition engine_crossable_quantity ::
  "InstrumentId \<Rightarrow> Side \<Rightarrow> Price \<Rightarrow> Quantity \<Rightarrow> MatchingEngine \<Rightarrow> Quantity option" where
  "engine_crossable_quantity i incoming price q e =
     do { b \<leftarrow> book_for i e; crossable_quantity (contra_side incoming) price q b }"

definition engine_crosses :: "ExchangeRestingOrder \<Rightarrow> BookOrder \<Rightarrow> bool" where
  "engine_crosses incoming contra \<longleftrightarrow>
     (if ro_side incoming = Buy then sle (bo_price contra) (ro_price incoming)
      else sle (ro_price incoming) (bo_price contra))"

text \<open>One iteration of the loop, after the crossing check.\<close>

definition match_step ::
  "ExchangeRestingOrder \<Rightarrow> CommandSequence \<Rightarrow> BookOrder \<Rightarrow> Run \<Rightarrow> (ExchangeRestingOrder \<times> Run) option" where
  "match_step incoming cs contra r = do {
     let i = ro_instrument_id incoming;
     let side = contra_side (ro_side incoming);
     let trade_qty = min (ro_remaining_quantity incoming) (bo_remaining_quantity contra);
     let incoming' = incoming\<lparr>ro_remaining_quantity := ro_remaining_quantity incoming - trade_qty\<rparr>;
     let contra_after = bo_remaining_quantity contra - trade_qty;
     let aggressor = \<lparr>tc_account_id = ro_account_id incoming, tc_client_order_id = ro_client_order_id incoming,
                      tc_exchange_order_id = ro_exchange_order_id incoming,
                      tc_remaining_quantity = ro_remaining_quantity incoming'\<rparr>;
     let resting = \<lparr>tc_account_id = bo_account_id contra, tc_client_order_id = bo_client_order_id contra,
                    tc_exchange_order_id = bo_exchange_order_id contra,
                    tc_remaining_quantity = contra_after\<rparr>;
     let r1 = emit (\<lambda>n. EvTrade \<lparr>te_event_sequence = n, te_command_sequence = cs, te_instrument_id = i,
                te_price = bo_price contra, te_quantity = trade_qty, te_aggressor_side = ro_side incoming,
                te_buyer = (if ro_side incoming = Buy then aggressor else resting),
                te_seller = (if ro_side incoming = Buy then resting else aggressor)\<rparr>) r;
     book \<leftarrow> book_for i (fst r1);
     if contra_after = 0 then do {
       book' \<leftarrow> remove_front side book;
       let e2 = set_book i book' (fst r1);
       let e3 = e2\<lparr>me_orders := (me_orders e2)(live_key (bo_account_id contra) (bo_client_order_id contra) := None),
                   me_resting_orders := me_resting_orders e2 - 1\<rparr>;
       Some (incoming', emit (\<lambda>n. EvRemoved \<lparr>bx_event_sequence = n, bx_instrument_id = i,
                bx_exchange_order_id = bo_exchange_order_id contra, bx_side = bo_side contra,
                bx_price = bo_price contra\<rparr>) (e3, snd r1))
     } else do {
       book' \<leftarrow> reduce_front side contra_after book;
       Some (incoming', emit (\<lambda>n. EvReduced \<lparr>br_event_sequence = n, br_instrument_id = i,
                br_exchange_order_id = bo_exchange_order_id contra, br_side = bo_side contra,
                br_price = bo_price contra, br_new_remaining_quantity = contra_after\<rparr>)
              (set_book i book' (fst r1), snd r1))
     }
   }"

partial_function (option) match_and_rest ::
  "CommandSequence \<Rightarrow> ExchangeRestingOrder \<Rightarrow> Run \<Rightarrow> (ExchangeRestingOrder \<times> Run) option" where
  "match_and_rest cs incoming r =
     (if ro_remaining_quantity incoming = 0 then Some (incoming, r)
      else do {
        book \<leftarrow> book_for (ro_instrument_id incoming) (fst r);
        front \<leftarrow> front_of_best (contra_side (ro_side incoming)) book;
        (case front of
           None \<Rightarrow> Some (incoming, r)
         | Some contra \<Rightarrow>
             if \<not> engine_crosses incoming contra then Some (incoming, r)
             else do { s \<leftarrow> match_step incoming cs contra r; match_and_rest cs (fst s) (snd s) })
      })"

definition rest_remainder_if_applicable :: "ExchangeRestingOrder \<Rightarrow> Run \<Rightarrow> Run option" where
  "rest_remainder_if_applicable order r =
     (if ro_time_in_force order \<noteq> GTC \<or> ro_remaining_quantity order = 0 then Some r
      else do {
        let e = fst r;
        let i = ro_instrument_id order;
        book \<leftarrow> book_for i e;
        (handle, book') \<leftarrow> add \<lparr>bo_exchange_order_id = ro_exchange_order_id order,
                              bo_client_order_id = ro_client_order_id order,
                              bo_account_id = ro_account_id order, bo_price = ro_price order,
                              bo_remaining_quantity = ro_remaining_quantity order,
                              bo_side = ro_side order, bo_time_in_force = ro_time_in_force order\<rparr> book;
        let e1 = set_book i book' e;
        let e2 = e1\<lparr>me_orders := (me_orders e1)(live_key (ro_account_id order) (ro_client_order_id order) \<mapsto>
                     \<lparr>rf_original_quantity = ro_original_quantity order, rf_order_sequence = ro_order_sequence order,
                      rf_handle = handle, rf_instrument_id = i\<rparr>),
                   me_resting_orders := me_resting_orders e1 + 1\<rparr>;
        Some (emit (\<lambda>n. EvAdded \<lparr>ba_event_sequence = n, ba_instrument_id = i,
                 ba_exchange_order_id = ro_exchange_order_id order, ba_side = ro_side order,
                 ba_price = ro_price order, ba_quantity = ro_remaining_quantity order\<rparr>) (e2, snd r))
      })"

section \<open>Commands\<close>

definition process_new_order :: "NewOrderCommand \<Rightarrow> Run \<Rightarrow> Run option" where
  "process_new_order cmd r =
     (let e = fst r;
          rej = (\<lambda>reason. Some (reject (nc_command_sequence cmd) (nc_account_id cmd) (nc_client_order_id cmd)
                  (nc_instrument_id cmd) reason r))
      in if \<not> knows_instrument (nc_instrument_id cmd) e then rej InvalidInstrument
         else if sle (nc_price cmd) 0 then rej InvalidPrice
         else if nc_quantity cmd = 0 then rej InvalidQuantity
         else if me_orders e (live_key (nc_account_id cmd) (nc_client_order_id cmd)) \<noteq> None
         then rej DuplicateOrderId
         else do {
           short \<leftarrow> (if nc_time_in_force cmd = FOK
                    then map_option (\<lambda>available. available < nc_quantity cmd)
                           (engine_crossable_quantity (nc_instrument_id cmd) (nc_side cmd) (nc_price cmd) (nc_quantity cmd) e)
                    else Some False);
           if short then rej InsufficientLiquidity
           else do {
             let x = me_next_exchange_order_id e;
             let order = \<lparr>ro_exchange_order_id = x, ro_client_order_id = nc_client_order_id cmd,
                          ro_account_id = nc_account_id cmd, ro_price = nc_price cmd,
                          ro_original_quantity = nc_quantity cmd, ro_remaining_quantity = nc_quantity cmd,
                          ro_order_sequence = me_next_priority e, ro_instrument_id = nc_instrument_id cmd,
                          ro_side = nc_side cmd, ro_time_in_force = nc_time_in_force cmd\<rparr>;
             let e1 = e\<lparr>me_next_exchange_order_id := x + 1, me_next_priority := me_next_priority e + 1\<rparr>;
             let r1 = emit (\<lambda>n. EvAccepted \<lparr>oa_event_sequence = n, oa_command_sequence = nc_command_sequence cmd,
                        oa_account_id = nc_account_id cmd, oa_client_order_id = nc_client_order_id cmd,
                        oa_exchange_order_id = x, oa_instrument_id = nc_instrument_id cmd,
                        oa_side = nc_side cmd, oa_price = nc_price cmd, oa_quantity = nc_quantity cmd,
                        oa_order_type = nc_order_type cmd, oa_time_in_force = nc_time_in_force cmd\<rparr>) (e1, snd r);
             (order', r2) \<leftarrow> match_and_rest (nc_command_sequence cmd) order r1;
             rest_remainder_if_applicable order' r2
           }
         })"

definition process_cancel :: "CancelOrderCommand \<Rightarrow> Run \<Rightarrow> Run option" where
  "process_cancel cmd r =
     (let e = fst r;
          i = cc_instrument_id cmd;
          rej = (\<lambda>reason. Some (reject (cc_command_sequence cmd) (cc_account_id cmd) (cc_client_order_id cmd)
                  i reason r));
          key = live_key (cc_account_id cmd) (cc_client_order_id cmd)
      in if \<not> knows_instrument i e then rej InvalidInstrument
         else (case me_orders e key of
                 None \<Rightarrow> rej UnknownOrderId
               | Some ref \<Rightarrow>
                   if rf_instrument_id ref \<noteq> i then rej UnknownOrderId
                   else do {
                     let e1 = e\<lparr>me_orders := (me_orders e)(key := None), me_resting_orders := me_resting_orders e - 1\<rparr>;
                     book \<leftarrow> book_for i e1;
                     (removed, book') \<leftarrow> remove_at (rf_handle ref) book;
                     let r1 = emit (\<lambda>n. EvCancelled \<lparr>oc_event_sequence = n, oc_command_sequence = cc_command_sequence cmd,
                                oc_account_id = cc_account_id cmd, oc_client_order_id = cc_client_order_id cmd,
                                oc_exchange_order_id = bo_exchange_order_id removed, oc_instrument_id = i\<rparr>)
                              (set_book i book' e1, snd r);
                     Some (emit (\<lambda>n. EvRemoved \<lparr>bx_event_sequence = n, bx_instrument_id = i,
                             bx_exchange_order_id = bo_exchange_order_id removed, bx_side = bo_side removed,
                             bx_price = bo_price removed\<rparr>) r1)
                   }))"

text \<open>The two branches of a replace that found its order.\<close>

definition replace_in_place :: "ReplaceOrderCommand \<Rightarrow> OrderRef \<Rightarrow> BookOrder \<Rightarrow> Run \<Rightarrow> Run option" where
  "replace_in_place cmd ref resting r = do {
     let e = fst r;
     let i = rc_instrument_id cmd;
     book \<leftarrow> book_for i e;
     book1 \<leftarrow> reduce_at (rf_handle ref) (rc_new_quantity cmd) book;
     book2 \<leftarrow> set_client_order_id_at (rf_handle ref) (rc_new_client_order_id cmd) book1;
     let e1 = set_book i book2 e;
     let e2 = e1\<lparr>me_orders := (me_orders e1)(live_key (rc_account_id cmd) (rc_original_client_order_id cmd) := None,
                  live_key (rc_account_id cmd) (rc_new_client_order_id cmd) \<mapsto> ref)\<rparr>;
     let r1 = emit (\<lambda>n. EvReplaced \<lparr>op_event_sequence = n, op_command_sequence = rc_command_sequence cmd,
                op_account_id = rc_account_id cmd, op_original_client_order_id = rc_original_client_order_id cmd,
                op_new_client_order_id = rc_new_client_order_id cmd,
                op_exchange_order_id = bo_exchange_order_id resting, op_instrument_id = i,
                op_new_price = rc_new_price cmd, op_new_quantity = rc_new_quantity cmd\<rparr>) (e2, snd r);
     Some (emit (\<lambda>n. EvReduced \<lparr>br_event_sequence = n, br_instrument_id = i,
             br_exchange_order_id = bo_exchange_order_id resting, br_side = bo_side resting,
             br_price = bo_price resting, br_new_remaining_quantity = rc_new_quantity cmd\<rparr>) r1)
   }"

definition replace_anew :: "ReplaceOrderCommand \<Rightarrow> OrderRef \<Rightarrow> BookOrder \<Rightarrow> Run \<Rightarrow> Run option" where
  "replace_anew cmd ref resting r = do {
     let e = fst r;
     let i = rc_instrument_id cmd;
     book \<leftarrow> book_for i e;
     (removed, book') \<leftarrow> remove_at (rf_handle ref) book;
     let e1 = set_book i book' e;
     let x = me_next_exchange_order_id e;
     let e2 = e1\<lparr>me_orders := (me_orders e1)(live_key (rc_account_id cmd) (rc_original_client_order_id cmd) := None),
                 me_resting_orders := me_resting_orders e1 - 1, me_next_exchange_order_id := x + 1\<rparr>;
     let r1 = emit (\<lambda>n. EvReplaced \<lparr>op_event_sequence = n, op_command_sequence = rc_command_sequence cmd,
                op_account_id = rc_account_id cmd, op_original_client_order_id = rc_original_client_order_id cmd,
                op_new_client_order_id = rc_new_client_order_id cmd,
                op_exchange_order_id = x, op_instrument_id = i,
                op_new_price = rc_new_price cmd, op_new_quantity = rc_new_quantity cmd\<rparr>) (e2, snd r);
     let r2 = emit (\<lambda>n. EvRemoved \<lparr>bx_event_sequence = n, bx_instrument_id = i,
                bx_exchange_order_id = bo_exchange_order_id resting, bx_side = bo_side resting,
                bx_price = bo_price resting\<rparr>) r1;
     let order = \<lparr>ro_exchange_order_id = x, ro_client_order_id = rc_new_client_order_id cmd,
                  ro_account_id = rc_account_id cmd, ro_price = rc_new_price cmd,
                  ro_original_quantity = rc_new_quantity cmd, ro_remaining_quantity = rc_new_quantity cmd,
                  ro_order_sequence = me_next_priority (fst r2), ro_instrument_id = i,
                  ro_side = bo_side resting, ro_time_in_force = bo_time_in_force resting\<rparr>;
     let r3 = ((fst r2)\<lparr>me_next_priority := me_next_priority (fst r2) + 1\<rparr>, snd r2);
     (order', r4) \<leftarrow> match_and_rest (rc_command_sequence cmd) order r3;
     rest_remainder_if_applicable order' r4
   }"

definition process_replace :: "ReplaceOrderCommand \<Rightarrow> Run \<Rightarrow> Run option" where
  "process_replace cmd r =
     (let e = fst r;
          i = rc_instrument_id cmd;
          rej = (\<lambda>reason. Some (reject (rc_command_sequence cmd) (rc_account_id cmd)
                  (rc_original_client_order_id cmd) i reason r))
      in if \<not> knows_instrument i e then rej InvalidInstrument
         else if sle (rc_new_price cmd) 0 \<or> rc_new_quantity cmd = 0 then rej InvalidReplacement
         else (case me_orders e (live_key (rc_account_id cmd) (rc_original_client_order_id cmd)) of
                 None \<Rightarrow> rej UnknownOrderId
               | Some ref \<Rightarrow>
                   if rf_instrument_id ref \<noteq> i then rej UnknownOrderId
                   else do {
                     book \<leftarrow> book_for i e;
                     resting \<leftarrow> at (rf_handle ref) book;
                     if rc_new_price cmd = bo_price resting \<and> rc_new_quantity cmd \<le> bo_remaining_quantity resting
                     then replace_in_place cmd ref resting r
                     else replace_anew cmd ref resting r
                   }))"

fun process_run :: "ExchangeCommand \<Rightarrow> Run \<Rightarrow> Run option" where
  "process_run (NewOrderC c) r = process_new_order c r"
| "process_run (CancelOrderC c) r = process_cancel c r"
| "process_run (ReplaceOrderC c) r = process_replace c r"

definition process :: "ExchangeCommand \<Rightarrow> MatchingEngine \<Rightarrow> Run option" where
  \<comment> \<open>one command against the engine, with the events it emitted\<close>
  "process c e = process_run c (e, [])"

end
