(* ===== verification/EngineMatching.thy ===== *)
theory EngineMatching
  imports MatchingEngine
begin

text \<open>
  The matching loop of \<open>MatchingEngine\<close> against a matcher on plain lists. The registry gives each known
  instrument a book of its own, \<open>view\<close> reads an engine as the priority lists of its books, and
  \<open>match_and_rest_list\<close> shows that the loop returns, and that the engine it leaves and the events it
  emits are those of \<open>match_list\<close>, whose own properties (conservation of quantity, price-time order,
  nothing left that still crosses) follow. The directory of live orders and the shape of a market are
  stated over views, with the lemmas that removing, editing and adding orders keeps them.
\<close>

section \<open>The reference matcher\<close>

text \<open>
  What matching means, on the list of resting orders alone: fill the incoming quantity against the first
  order while it crosses. A fill names the resting order, as it was, and the quantity traded with it.
\<close>

type_synonym Fill = "u32 \<times> BookOrder \<times> Quantity"

fun match_list :: "Side \<Rightarrow> Price \<Rightarrow> Quantity \<Rightarrow> (u32 \<times> BookOrder) list \<Rightarrow> Fill list \<times> Quantity \<times> (u32 \<times> BookOrder) list" where
  "match_list sd p q [] = ([], q, [])"
| "match_list sd p q ((x, e) # es) =
     (if q = 0 \<or> \<not> crosses (contra_side sd) p (bo_price e) then ([], q, (x, e) # es)
      else let t = min q (bo_remaining_quantity e);
               left = bo_remaining_quantity e - t
           in if left = 0
              then (case match_list sd p (q - t) es of (fs, q', es') \<Rightarrow> ((x, e, t) # fs, q', es'))
              else ([(x, e, t)], q - t, (x, set_quantity left e) # es))"

text \<open>The events of a list of fills, numbered from \<open>n\<close>; \<open>q\<close> is what the incoming order still wants.\<close>

definition counterparty :: "AccountId \<Rightarrow> ClientOrderId \<Rightarrow> ExchangeOrderId \<Rightarrow> Quantity \<Rightarrow> TradeCounterparty" where
  "counterparty a c x q = \<lparr>tc_account_id = a, tc_client_order_id = c, tc_exchange_order_id = x, tc_remaining_quantity = q\<rparr>"

definition trade_event :: "ExchangeRestingOrder \<Rightarrow> CommandSequence \<Rightarrow> EventSequence \<Rightarrow> Fill \<Rightarrow> ExchangeEvent" where
  "trade_event incoming cs n f =
     (case f of (x, e, t) \<Rightarrow>
       let a = counterparty (ro_account_id incoming) (ro_client_order_id incoming) (ro_exchange_order_id incoming)
                 (ro_remaining_quantity incoming - t);
           b = counterparty (bo_account_id e) (bo_client_order_id e) (bo_exchange_order_id e)
                 (bo_remaining_quantity e - t)
       in EvTrade \<lparr>te_event_sequence = n, te_command_sequence = cs, te_instrument_id = ro_instrument_id incoming,
            te_price = bo_price e, te_quantity = t, te_aggressor_side = ro_side incoming,
            te_buyer = (if ro_side incoming = Buy then a else b),
            te_seller = (if ro_side incoming = Buy then b else a)\<rparr>)"

definition book_event :: "InstrumentId \<Rightarrow> EventSequence \<Rightarrow> Fill \<Rightarrow> ExchangeEvent" where
  "book_event i n f =
     (case f of (x, e, t) \<Rightarrow>
       if bo_remaining_quantity e - t = 0
       then EvRemoved \<lparr>bx_event_sequence = n, bx_instrument_id = i, bx_exchange_order_id = bo_exchange_order_id e,
              bx_side = bo_side e, bx_price = bo_price e\<rparr>
       else EvReduced \<lparr>br_event_sequence = n, br_instrument_id = i, br_exchange_order_id = bo_exchange_order_id e,
              br_side = bo_side e, br_price = bo_price e, br_new_remaining_quantity = bo_remaining_quantity e - t\<rparr>)"

fun fill_events :: "ExchangeRestingOrder \<Rightarrow> CommandSequence \<Rightarrow> EventSequence \<Rightarrow> Fill list \<Rightarrow> ExchangeEvent list" where
  "fill_events incoming cs n [] = []"
| "fill_events incoming cs n (f # fs) =
     trade_event incoming cs n f # book_event (ro_instrument_id incoming) (n + 1) f #
     fill_events (incoming\<lparr>ro_remaining_quantity := ro_remaining_quantity incoming - snd (snd f)\<rparr>) cs (n + 2) fs"

definition filled_keys :: "Fill list \<Rightarrow> LiveKey set" where
  \<comment> \<open>the live orders the fills consumed completely\<close>
  "filled_keys fs =
     {live_key (bo_account_id e) (bo_client_order_id e) | x e t. (x, e, t) \<in> set fs \<and> bo_remaining_quantity e - t = 0}"

definition fills_done :: "Fill list \<Rightarrow> nat" where
  "fills_done fs = length (filter (\<lambda>(x, e, t). bo_remaining_quantity e - t = 0) fs)"

section \<open>Books inside the engine\<close>

lemma book_slot_frame [simp]:
  "book_slot i (e\<lparr>me_orders := a\<rparr>) = book_slot i e" "book_slot i (e\<lparr>me_resting_orders := b\<rparr>) = book_slot i e"
  "book_slot i (e\<lparr>me_next_event_sequence := c\<rparr>) = book_slot i e"
  "book_slot i (e\<lparr>me_next_exchange_order_id := d\<rparr>) = book_slot i e"
  "book_slot i (e\<lparr>me_next_priority := c\<rparr>) = book_slot i e"
  by (simp_all add: book_slot_def)

lemma book_for_frame [simp]:
  "book_for i (e\<lparr>me_orders := a\<rparr>) = book_for i e" "book_for i (e\<lparr>me_resting_orders := b\<rparr>) = book_for i e"
  "book_for i (e\<lparr>me_next_event_sequence := c\<rparr>) = book_for i e"
  "book_for i (e\<lparr>me_next_exchange_order_id := d\<rparr>) = book_for i e"
  "book_for i (e\<lparr>me_next_priority := c\<rparr>) = book_for i e"
  by (simp_all add: book_for_def)

lemma set_book_frame [simp]:
  "me_slot_of_id (set_book i b e) = me_slot_of_id e" "length (me_books (set_book i b e)) = length (me_books e)"
  "me_band_ticks (set_book i b e) = me_band_ticks e" "me_by_id (set_book i b e) = me_by_id e"
  "me_orders (set_book i b e) = me_orders e" "me_resting_orders (set_book i b e) = me_resting_orders e"
  "me_next_exchange_order_id (set_book i b e) = me_next_exchange_order_id e"
  "me_next_event_sequence (set_book i b e) = me_next_event_sequence e"
  "me_next_priority (set_book i b e) = me_next_priority e"
  "book_slot j (set_book i b e) = book_slot j e" "knows_instrument j (set_book i b e) = knows_instrument j e"
  by (auto simp: set_book_def book_slot_def knows_instrument_def split: option.splits)

lemma knows_frame [simp]:
  "knows_instrument i (e\<lparr>me_orders := a\<rparr>) = knows_instrument i e"
  "knows_instrument i (e\<lparr>me_resting_orders := b\<rparr>) = knows_instrument i e"
  "knows_instrument i (e\<lparr>me_next_event_sequence := c\<rparr>) = knows_instrument i e"
  "knows_instrument i (e\<lparr>me_next_exchange_order_id := d\<rparr>) = knows_instrument i e"
  "knows_instrument i (e\<lparr>me_next_priority := c\<rparr>) = knows_instrument i e"
  by (simp_all add: knows_instrument_def)

text \<open>The registry: each known instrument has a slot of its own.\<close>

definition registry_inv :: "MatchingEngine \<Rightarrow> bool" where
  "registry_inv e \<longleftrightarrow>
     (\<forall>i. knows_instrument i e \<longrightarrow> unat (me_slot_of_id e ! unat i) < length (me_books e)) \<and>
     (\<forall>i j. knows_instrument i e \<longrightarrow> knows_instrument j e \<longrightarrow>
        me_slot_of_id e ! unat i = me_slot_of_id e ! unat j \<longrightarrow> i = j) \<and>
     length (me_books e) < 2 ^ 32 - 1"

lemma kNoSlot_value: "kNoSlot = 4294967295"
  by (simp add: kNoSlot_def)

lemma book_slot_known:
  assumes "registry_inv e"
  shows "book_slot i e \<noteq> None \<longleftrightarrow> knows_instrument i e"
proof
  assume s: "book_slot i e \<noteq> None"
  then have "unat (me_slot_of_id e ! unat i) < 2 ^ 32 - 1"
    using assms by (auto simp: book_slot_def registry_inv_def split: if_splits)
  moreover have "unat kNoSlot = 2 ^ 32 - 1" by (simp add: kNoSlot_value)
  ultimately have "me_slot_of_id e ! unat i \<noteq> kNoSlot" by auto
  with s show "knows_instrument i e" by (auto simp: book_slot_def knows_instrument_def split: if_splits)
qed (use assms in \<open>auto simp: book_slot_def registry_inv_def knows_instrument_def\<close>)

lemma known_slot:
  assumes "registry_inv e" "knows_instrument i e"
  obtains s where "book_slot i e = Some s"
  using book_slot_known [OF assms(1), of i] assms(2) by (cases "book_slot i e") auto

lemma book_slot_unknown: "registry_inv e \<Longrightarrow> \<not> knows_instrument i e \<Longrightarrow> book_slot i e = None"
  using book_slot_known [of e i] by simp

lemma book_slot_inj:
  assumes "registry_inv e" "book_slot i e = Some s" "book_slot j e = Some s"
  shows "i = j"
proof -
  have "knows_instrument i e" "knows_instrument j e" using assms book_slot_known [OF assms(1)] by auto
  moreover have "me_slot_of_id e ! unat i = me_slot_of_id e ! unat j"
    using assms(2,3) by (auto simp: book_slot_def word_unat_eq_iff split: if_splits)
  ultimately show ?thesis using assms(1) by (auto simp: registry_inv_def)
qed

lemma book_slot_bound: "book_slot i e = Some s \<Longrightarrow> s < length (me_books e)"
  by (auto simp: book_slot_def split: if_splits)

lemma book_for_set_book:
  assumes "registry_inv e" "knows_instrument i e"
  shows "book_for j (set_book i b e) = (if j = i then Some b else book_for j e)"
proof -
  obtain s where s: "book_slot i e = Some s" by (rule known_slot [OF assms])
  show ?thesis
  proof (cases "book_slot j e")
    case None
    then show ?thesis using s by (auto simp: book_for_def)
  next
    case (Some t)
    have "t = s \<longleftrightarrow> j = i" using book_slot_inj [OF assms(1) s, of j] s Some by auto
    moreover have "me_books (set_book i b e) = (me_books e)[s := b]" by (simp add: set_book_def s)
    ultimately show ?thesis
      using s Some book_slot_bound [OF s] by (auto simp: book_for_def nth_list_update)
  qed
qed

lemma registry_frame [simp]:
  "registry_inv (e\<lparr>me_orders := a\<rparr>) = registry_inv e" "registry_inv (e\<lparr>me_resting_orders := b\<rparr>) = registry_inv e"
  "registry_inv (e\<lparr>me_next_event_sequence := c\<rparr>) = registry_inv e"
  "registry_inv (e\<lparr>me_next_exchange_order_id := d\<rparr>) = registry_inv e"
  "registry_inv (e\<lparr>me_next_priority := c\<rparr>) = registry_inv e"
  "registry_inv (set_book i bk e) = registry_inv e"
  by (simp_all add: registry_inv_def)

text \<open>The priority list of one side of one instrument; empty for an instrument the engine does not know.\<close>

definition view :: "MatchingEngine \<Rightarrow> InstrumentId \<Rightarrow> Side \<Rightarrow> (u32 \<times> BookOrder) list" where
  "view e i sd = (case book_for i e of None \<Rightarrow> [] | Some b \<Rightarrow> orders_of b sd)"

lemma view_frame [simp]:
  "view (e\<lparr>me_orders := a\<rparr>) = view e" "view (e\<lparr>me_resting_orders := b\<rparr>) = view e"
  "view (e\<lparr>me_next_event_sequence := c\<rparr>) = view e" "view (e\<lparr>me_next_exchange_order_id := d\<rparr>) = view e"
  "view (e\<lparr>me_next_priority := c\<rparr>) = view e"
  by (simp_all add: view_def fun_eq_iff)

definition books_ok :: "MatchingEngine \<Rightarrow> bool" where
  "books_ok e \<longleftrightarrow> registry_inv e \<and> (\<forall>b \<in> set (me_books e). book_inv b)"

lemma books_ok_frame [simp]:
  "books_ok (e\<lparr>me_orders := a\<rparr>) = books_ok e" "books_ok (e\<lparr>me_resting_orders := b\<rparr>) = books_ok e"
  "books_ok (e\<lparr>me_next_event_sequence := c\<rparr>) = books_ok e" "books_ok (e\<lparr>me_next_exchange_order_id := d\<rparr>) = books_ok e"
  "books_ok (e\<lparr>me_next_priority := c\<rparr>) = books_ok e"
  by (simp_all add: books_ok_def)

lemma known_book:
  assumes "books_ok e" "knows_instrument i e"
  obtains b where "book_for i e = Some b" "book_inv b" "view e i = orders_of b"
proof -
  have r: "registry_inv e" using assms(1) by (simp add: books_ok_def)
  obtain s where s: "book_slot i e = Some s" by (rule known_slot [OF r assms(2)])
  let ?b = "me_books e ! s"
  have "book_for i e = Some ?b" using s by (simp add: book_for_def)
  moreover have "book_inv ?b" using assms(1) book_slot_bound [OF s] by (simp add: books_ok_def)
  ultimately show thesis using that [of ?b] by (simp add: view_def fun_eq_iff)
qed

lemma set_book_view:
  assumes "books_ok e" "knows_instrument i e" "book_inv b"
  shows "books_ok (set_book i b e)" "view (set_book i b e) = (view e)(i := orders_of b)"
proof -
  have r: "registry_inv e" using assms(1) by (simp add: books_ok_def)
  obtain s where s: "book_slot i e = Some s" by (rule known_slot [OF r assms(2)])
  have "set (me_books (set_book i b e)) \<subseteq> insert b (set (me_books e))"
    by (simp add: set_book_def s set_update_subset_insert)
  then show "books_ok (set_book i b e)" using assms(1,3) r by (auto simp: books_ok_def)
  show "view (set_book i b e) = (view e)(i := orders_of b)"
    by (auto simp: view_def fun_eq_iff book_for_set_book [OF r assms(2)])
qed

lemma emit_simps [simp]:
  "books_ok (fst (emit ev r)) = books_ok (fst r)" "view (fst (emit ev r)) = view (fst r)"
  "book_for i (fst (emit ev r)) = book_for i (fst r)"
  "knows_instrument i (fst (emit ev r)) = knows_instrument i (fst r)"
  "me_orders (fst (emit ev r)) = me_orders (fst r)" "me_resting_orders (fst (emit ev r)) = me_resting_orders (fst r)"
  "me_next_event_sequence (fst (emit ev r)) = me_next_event_sequence (fst r) + 1"
  "me_next_exchange_order_id (fst (emit ev r)) = me_next_exchange_order_id (fst r)"
  "me_next_priority (fst (emit ev r)) = me_next_priority (fst r)"
  "me_slot_of_id (fst (emit ev r)) = me_slot_of_id (fst r)" "me_by_id (fst (emit ev r)) = me_by_id (fst r)"
  "snd (emit ev r) = snd r @ [ev (me_next_event_sequence (fst r))]"
  by (simp_all add: emit_def)


section \<open>The matching loop\<close>

definition without :: "(LiveKey \<rightharpoonup> OrderRef) \<Rightarrow> LiveKey set \<Rightarrow> LiveKey \<rightharpoonup> OrderRef" where
  "without m K = (\<lambda>k. if k \<in> K then None else m k)"

lemma without_simps [simp]: "without m {} = m" "(without m K)(k := None) = without m (insert k K)"
  "without (m(k := None)) K = without m (insert k K)" "without (without m K) L = without m (K \<union> L)"
  by (auto simp: without_def fun_eq_iff)

lemma fills_simps [simp]:
  "filled_keys [] = {}" "fills_done [] = 0"
  "bo_remaining_quantity e - t = 0 \<Longrightarrow>
     filled_keys ((x, e, t) # fs) = insert (live_key (bo_account_id e) (bo_client_order_id e)) (filled_keys fs)"
  "bo_remaining_quantity e - t = 0 \<Longrightarrow> fills_done ((x, e, t) # fs) = Suc (fills_done fs)"
  "bo_remaining_quantity e - t \<noteq> 0 \<Longrightarrow> filled_keys ((x, e, t) # fs) = filled_keys fs"
  "bo_remaining_quantity e - t \<noteq> 0 \<Longrightarrow> fills_done ((x, e, t) # fs) = fills_done fs"
  by (auto simp: filled_keys_def fills_done_def)

text \<open>What a run of matching leaves alone.\<close>

definition same_registry :: "MatchingEngine \<Rightarrow> MatchingEngine \<Rightarrow> bool" where
  "same_registry e e' \<longleftrightarrow>
     me_slot_of_id e' = me_slot_of_id e \<and> me_by_id e' = me_by_id e \<and> me_band_ticks e' = me_band_ticks e \<and>
     length (me_books e') = length (me_books e)"

lemma same_registry_simps [simp]:
  "same_registry e e" "same_registry e (e'\<lparr>me_orders := a\<rparr>) = same_registry e e'"
  "same_registry e (e'\<lparr>me_resting_orders := b\<rparr>) = same_registry e e'"
  "same_registry e (e'\<lparr>me_next_event_sequence := b\<rparr>) = same_registry e e'"
  "same_registry e (e'\<lparr>me_next_exchange_order_id := b\<rparr>) = same_registry e e'"
  "same_registry e (e'\<lparr>me_next_priority := b\<rparr>) = same_registry e e'"
  "same_registry e (set_book i bk e') = same_registry e e'" "same_registry e (fst (emit ev r)) = same_registry e (fst r)"
  by (auto simp: same_registry_def emit_def)

lemma same_registry_trans: "same_registry a b \<Longrightarrow> same_registry b c \<Longrightarrow> same_registry a c"
  by (simp add: same_registry_def)

lemma same_registry_knows: "same_registry e e' \<Longrightarrow> knows_instrument i e' = knows_instrument i e"
  by (simp add: same_registry_def knows_instrument_def)

definition matched :: "MatchingEngine \<Rightarrow> InstrumentId \<Rightarrow> Side \<Rightarrow> Fill list \<Rightarrow> (u32 \<times> BookOrder) list \<Rightarrow> MatchingEngine \<Rightarrow> bool" where
  \<comment> \<open>the engine after fills on one side of one book, which is then \<open>es\<close>\<close>
  "matched e i sd fs es e' \<longleftrightarrow>
     books_ok e' \<and> same_registry e e' \<and> view e' = (view e)(i := (view e i)(sd := es)) \<and>
     me_orders e' = without (me_orders e) (filled_keys fs) \<and>
     me_resting_orders e' = me_resting_orders e - word_of_nat (fills_done fs) \<and>
     me_next_event_sequence e' = me_next_event_sequence e + word_of_nat (2 * length fs) \<and>
     me_next_exchange_order_id e' = me_next_exchange_order_id e \<and> me_next_priority e' = me_next_priority e"

lemma match_step:
  assumes ok: "books_ok (fst r)" and i: "knows_instrument (ro_instrument_id incoming) (fst r)"
    and v: "view (fst r) (ro_instrument_id incoming) (contra_side (ro_side incoming)) = (x, contra) # es"
  defines "t \<equiv> min (ro_remaining_quantity incoming) (bo_remaining_quantity contra)"
  defines "left \<equiv> bo_remaining_quantity contra - t"
  obtains e' where "match_step incoming cs contra r =
      Some (incoming\<lparr>ro_remaining_quantity := ro_remaining_quantity incoming - t\<rparr>,
        (e', snd r @ [trade_event incoming cs (me_next_event_sequence (fst r)) (x, contra, t),
           book_event (ro_instrument_id incoming) (me_next_event_sequence (fst r) + 1) (x, contra, t)]))"
    "matched (fst r) (ro_instrument_id incoming) (contra_side (ro_side incoming)) [(x, contra, t)]
       (if left = 0 then es else (x, set_quantity left contra) # es) e'"
proof -
  let ?i = "ro_instrument_id incoming" and ?sd = "contra_side (ro_side incoming)"
  obtain b where b: "book_for ?i (fst r) = Some b" "book_inv b" "view (fst r) ?i = orders_of b"
    by (rule known_book [OF ok i])
  have o: "orders_of b ?sd = (x, contra) # es" using v b(3) by simp
  have other: "orders_of b' = (orders_of b)(?sd := l)" if "orders_of b' ?sd = l" "\<forall>sd'. sd' \<noteq> ?sd \<longrightarrow> orders_of b' sd' = orders_of b sd'" for b' l
    using that by (auto simp: fun_eq_iff)
  show thesis
  proof (cases "left = 0")
    case True
    obtain b' where b': "remove_front ?sd b = Some b'" "book_inv b'" "orders_of b' ?sd = es"
      "\<forall>sd'. sd' \<noteq> ?sd \<longrightarrow> orders_of b' sd' = orders_of b sd'"
      by (rule ob.del_front_list [OF b(2) o])
    have l: "bo_remaining_quantity contra - min (ro_remaining_quantity incoming) (bo_remaining_quantity contra) = 0"
      using True by (simp add: left_def t_def)
    let ?e1 = "(fst r)\<lparr>me_next_event_sequence := me_next_event_sequence (fst r) + 1\<rparr>"
    have sv: "books_ok (set_book ?i b' ?e1)" "view (set_book ?i b' ?e1) = (view (fst r))(?i := orders_of b')"
      using set_book_view [of ?e1 ?i b'] ok i b'(2) by simp_all
    show thesis
      using that b(1) b'(1) l True sv other [OF b'(3,4)] b(3)
      by (simp add: match_step_def Let_def trade_event_def book_event_def counterparty_def emit_def t_def left_def
            matched_def without_def fun_eq_iff)
  next
    case False
    obtain b' where b': "reduce_front ?sd left b = Some b'" "book_inv b'" "orders_of b' ?sd = (x, set_quantity left contra) # es"
      "\<forall>sd'. sd' \<noteq> ?sd \<longrightarrow> orders_of b' sd' = orders_of b sd'"
      by (rule ob.requantify_front_list [OF b(2) o])
    let ?e1 = "(fst r)\<lparr>me_next_event_sequence := me_next_event_sequence (fst r) + 1\<rparr>"
    have sv: "books_ok (set_book ?i b' ?e1)" "view (set_book ?i b' ?e1) = (view (fst r))(?i := orders_of b')"
      using set_book_view [of ?e1 ?i b'] ok i b'(2) by simp_all
    show thesis
      using that b(1) b'(1) False sv other [OF b'(3,4)] b(3)
      by (simp add: match_step_def Let_def trade_event_def book_event_def counterparty_def emit_def t_def left_def
            matched_def)
  qed
qed


lemma crosses_engine: "engine_crosses incoming contra \<longleftrightarrow> crosses (contra_side (ro_side incoming)) (ro_price incoming) (bo_price contra)"
  by (cases "ro_side incoming") (simp_all add: engine_crosses_def crosses_def signed_cmp not_less)

lemma matched_nil: "books_ok e \<Longrightarrow> view e i sd = es \<Longrightarrow> matched e i sd [] es e"
  by (simp add: matched_def fun_eq_iff)

lemma matched_cons:
  assumes 1: "matched e i sd [f] es e1" and 2: "matched e1 i sd fs es' e2"
  shows "matched e i sd (f # fs) es' e2"
proof -
  obtain x c t where f: "f = (x, c, t)" by (cases f) auto
  have "filled_keys (f # fs) = filled_keys [f] \<union> filled_keys fs" "fills_done (f # fs) = fills_done [f] + fills_done fs"
    by (auto simp: filled_keys_def fills_done_def f)
  note u = this
  have m1: "same_registry e e1" "view e1 = (view e)(i := (view e i)(sd := es))"
    "me_orders e1 = without (me_orders e) (filled_keys [f])"
    "me_resting_orders e1 = me_resting_orders e - word_of_nat (fills_done [f])"
    "me_next_event_sequence e1 = me_next_event_sequence e + word_of_nat (2 * length [f])"
    "me_next_exchange_order_id e1 = me_next_exchange_order_id e" "me_next_priority e1 = me_next_priority e"
    using 1 by (simp_all only: matched_def)
  have m2: "books_ok e2" "same_registry e1 e2" "view e2 = (view e1)(i := (view e1 i)(sd := es'))"
    "me_orders e2 = without (me_orders e1) (filled_keys fs)"
    "me_resting_orders e2 = me_resting_orders e1 - word_of_nat (fills_done fs)"
    "me_next_event_sequence e2 = me_next_event_sequence e1 + word_of_nat (2 * length fs)"
    "me_next_exchange_order_id e2 = me_next_exchange_order_id e1" "me_next_priority e2 = me_next_priority e1"
    using 2 by (simp_all only: matched_def)
  have "view e2 = (view e)(i := (view e i)(sd := es'))" by (simp add: m1(2) m2(3))
  then show ?thesis
    using m2(1) same_registry_trans [OF m1(1) m2(2)] unfolding matched_def u
    by (simp add: m2(4-8) m1(3-7) u)
qed

lemma match_and_rest_list:
  assumes "books_ok (fst r)" "knows_instrument (ro_instrument_id incoming) (fst r)"
    "view (fst r) (ro_instrument_id incoming) (contra_side (ro_side incoming)) = es"
    "match_list (ro_side incoming) (ro_price incoming) (ro_remaining_quantity incoming) es = (fs, q', es')"
  shows "\<exists>e'. match_and_rest cs incoming r = Some (incoming\<lparr>ro_remaining_quantity := q'\<rparr>,
        (e', snd r @ fill_events incoming cs (me_next_event_sequence (fst r)) fs)) \<and>
      matched (fst r) (ro_instrument_id incoming) (contra_side (ro_side incoming)) fs es' e'"
  using assms
proof (induction es arbitrary: incoming r fs)
  case Nil
  let ?i = "ro_instrument_id incoming" and ?sd = "contra_side (ro_side incoming)"
  obtain b where b: "book_for ?i (fst r) = Some b" "book_inv b" "view (fst r) ?i = orders_of b"
    by (rule known_book [OF Nil.prems(1,2)])
  have fr: "front_of_best ?sd b = Some None" using ob.front [OF b(2), of ?sd] Nil.prems(3) b(3) by simp
  have r: "fs = []" "q' = ro_remaining_quantity incoming" "es' = []" using Nil.prems(4) by auto
  have "match_and_rest cs incoming r = Some (incoming, r)"
    by (subst match_and_rest.simps) (simp add: b(1) fr)
  then show ?case using matched_nil [OF Nil.prems(1,3)] by (intro exI [of _ "fst r"]) (simp add: r)
next
  case (Cons y es)
  let ?i = "ro_instrument_id incoming" and ?sd = "contra_side (ro_side incoming)" and ?q = "ro_remaining_quantity incoming"
  obtain x c where y: "y = (x, c)" by (cases y)
  obtain b where b: "book_for ?i (fst r) = Some b" "book_inv b" "view (fst r) ?i = orders_of b"
    by (rule known_book [OF Cons.prems(1,2)])
  have fr: "front_of_best ?sd b = Some (Some c)" using ob.front [OF b(2), of ?sd] Cons.prems(3) b(3) by (simp add: y)
  show ?case
  proof (cases "?q = 0 \<or> \<not> crosses ?sd (ro_price incoming) (bo_price c)")
    case True
    then have "match_and_rest cs incoming r = Some (incoming, r)"
      by (subst match_and_rest.simps) (auto simp: b(1) fr crosses_engine)
    then show ?thesis
      using True Cons.prems(4) matched_nil [OF Cons.prems(1,3)] by (intro exI [of _ "fst r"]) (auto simp: y)
  next
    case False
    let ?t = "min ?q (bo_remaining_quantity c)"
    let ?inc = "incoming\<lparr>ro_remaining_quantity := ?q - ?t\<rparr>"
    obtain e1 where e1: "match_step incoming cs c r = Some (?inc,
        (e1, snd r @ [trade_event incoming cs (me_next_event_sequence (fst r)) (x, c, ?t),
           book_event ?i (me_next_event_sequence (fst r) + 1) (x, c, ?t)]))"
      "matched (fst r) ?i ?sd [(x, c, ?t)]
         (if bo_remaining_quantity c - ?t = 0 then es else (x, set_quantity (bo_remaining_quantity c - ?t) c) # es) e1"
      by (rule match_step [OF Cons.prems(1,2), of x c es cs]) (use Cons.prems(3) y in auto)
    let ?r1 = "(e1, snd r @ [trade_event incoming cs (me_next_event_sequence (fst r)) (x, c, ?t),
           book_event ?i (me_next_event_sequence (fst r) + 1) (x, c, ?t)])"
    have unf: "match_and_rest cs incoming r = match_and_rest cs ?inc ?r1"
      by (subst match_and_rest.simps) (use False in \<open>simp add: b(1) fr crosses_engine e1(1)\<close>)
    have ok1: "books_ok e1" "knows_instrument ?i e1" "me_next_event_sequence e1 = me_next_event_sequence (fst r) + 2"
      using e1(2) Cons.prems(2) same_registry_knows by (auto simp: matched_def)
    show ?thesis
    proof (cases "bo_remaining_quantity c - ?t = 0")
      case full: True
      obtain fs1 where fs: "fs = (x, c, ?t) # fs1"
        "match_list (ro_side incoming) (ro_price incoming) (?q - ?t) es = (fs1, q', es')"
        using Cons.prems(4) False full by (auto simp: y Let_def split: prod.splits)
      have v1: "view e1 ?i ?sd = es" using e1(2) full by (simp add: matched_def)
      obtain e' where e': "match_and_rest cs ?inc ?r1 = Some (?inc\<lparr>ro_remaining_quantity := q'\<rparr>,
          (e', snd ?r1 @ fill_events ?inc cs (me_next_event_sequence (fst ?r1)) fs1))"
        "matched (fst ?r1) ?i ?sd fs1 es' e'"
        using Cons.IH [of ?r1 ?inc fs1] ok1 v1 fs(2) by auto
      have "matched (fst r) ?i ?sd fs es' e'"
        unfolding fs(1) by (rule matched_cons [OF e1(2)]) (use e'(2) in simp)
      then show ?thesis using unf e'(1) ok1(3) by (auto simp: fs(1))
    next
      case more: False
      then have t: "?t = ?q" by (simp add: min_def split: if_splits)
      have fs: "fs = [(x, c, ?t)]" "q' = ?q - ?t" "es' = (x, set_quantity (bo_remaining_quantity c - ?t) c) # es"
        using Cons.prems(4) False more by (auto simp: y Let_def split: prod.splits)
      have "match_and_rest cs ?inc ?r1 = Some (?inc, ?r1)" by (subst match_and_rest.simps) (simp add: t)
      then show ?thesis using unf e1(2) more by (auto simp: fs)
    qed
  qed
qed


section \<open>What the reference matcher guarantees\<close>

definition fill_entry :: "Fill \<Rightarrow> u32 \<times> BookOrder" where
  "fill_entry f = (fst f, fst (snd f))"

definition fill_quantity :: "Fill \<Rightarrow> nat" where
  "fill_quantity f = unat (snd (snd f))"

lemma unat_min_64: "unat (min a b :: u64) = min (unat a) (unat b)"
  by (simp add: min_def word_le_nat_alt)

lemma min_minus_64: "unat (a - min a b :: u64) = unat a - min (unat a) (unat b)"
  "unat (b - min a b :: u64) = unat b - min (unat a) (unat b)"
  by (simp_all add: unat_minus_64 unat_min_64)

lemma match_conserves: "match_list sd p q es = (fs, q', es') \<Longrightarrow> sum_list (map fill_quantity fs) + unat q' = unat q"
proof (induction sd p q es arbitrary: fs rule: match_list.induct)
  case (2 sd p q x e es)
  let ?t = "min q (bo_remaining_quantity e)"
  have d: "unat (q - ?t) + unat ?t = unat q" by (simp add: min_minus_64 unat_min_64)
  show ?case
  proof (cases "q = 0 \<or> \<not> crosses (contra_side sd) p (bo_price e)")
    case True
    then show ?thesis using 2(2) by auto
  next
    case False
    show ?thesis
    proof (cases "bo_remaining_quantity e - ?t = 0")
      case full: True
      obtain fs1 where "fs = (x, e, ?t) # fs1" "match_list sd p (q - ?t) es = (fs1, q', es')"
        using 2(2) False full by (auto simp: Let_def split: prod.splits)
      then show ?thesis using 2(1) [OF False refl refl full] d by (simp add: fill_quantity_def)
    next
      case more: False
      have "fs = [(x, e, ?t)]" "q' = q - ?t" using 2(2) False more by (auto simp: Let_def split: prod.splits)
      then show ?thesis using d by (simp add: fill_quantity_def)
    qed
  qed
qed simp

lemma match_fills:
  "match_list sd p q es = (fs, q', es') \<Longrightarrow>
     \<exists>rest. es = map fill_entry fs @ rest \<and>
       (\<forall>(x, e, t) \<in> set fs. crosses (contra_side sd) p (bo_price e) \<and> t \<le> bo_remaining_quantity e \<and>
          (0 < bo_remaining_quantity e \<longrightarrow> 0 < t)) \<and>
       (es' = rest \<and> (\<forall>(x, e, t) \<in> set fs. t = bo_remaining_quantity e) \<or>
        (\<exists>fs0 x e t. fs = fs0 @ [(x, e, t)] \<and> (\<forall>(x, e, t) \<in> set fs0. t = bo_remaining_quantity e) \<and>
           t < bo_remaining_quantity e \<and> q' = 0 \<and> es' = (x, set_quantity (bo_remaining_quantity e - t) e) # rest))"
proof (induction sd p q es arbitrary: fs rule: match_list.induct)
  case (2 sd p q x e es)
  let ?t = "min q (bo_remaining_quantity e)"
  show ?case
  proof (cases "q = 0 \<or> \<not> crosses (contra_side sd) p (bo_price e)")
    case True
    then show ?thesis using 2(2) by auto
  next
    case False
    have pos: "0 < bo_remaining_quantity e \<longrightarrow> 0 < ?t" using False by (auto simp: min_def word_gt_0)
    have le: "?t \<le> bo_remaining_quantity e" by simp
    show ?thesis
    proof (cases "bo_remaining_quantity e - ?t = 0")
      case full: True
      then have t: "?t = bo_remaining_quantity e" by (simp add: right_minus_eq)
      obtain fs1 where fs: "fs = (x, e, ?t) # fs1" "match_list sd p (q - ?t) es = (fs1, q', es')"
        using 2(2) False full by (auto simp: Let_def split: prod.splits)
      obtain rest where rest: "es = map fill_entry fs1 @ rest"
        "\<forall>(x, e, t) \<in> set fs1. crosses (contra_side sd) p (bo_price e) \<and> t \<le> bo_remaining_quantity e \<and>
          (0 < bo_remaining_quantity e \<longrightarrow> 0 < t)"
        "es' = rest \<and> (\<forall>(x, e, t) \<in> set fs1. t = bo_remaining_quantity e) \<or>
        (\<exists>fs0 x e t. fs1 = fs0 @ [(x, e, t)] \<and> (\<forall>(x, e, t) \<in> set fs0. t = bo_remaining_quantity e) \<and>
           t < bo_remaining_quantity e \<and> q' = 0 \<and> es' = (x, set_quantity (bo_remaining_quantity e - t) e) # rest)"
        using 2(1) [OF False refl refl full fs(2)] by blast
      have "(x, e) # es = map fill_entry fs @ rest" by (simp add: fs(1) rest(1) fill_entry_def)
      moreover have "\<forall>(x, e, t) \<in> set fs. crosses (contra_side sd) p (bo_price e) \<and> t \<le> bo_remaining_quantity e \<and>
          (0 < bo_remaining_quantity e \<longrightarrow> 0 < t)"
        using rest(2) False pos le by (auto simp: fs(1))
      moreover have "es' = rest \<and> (\<forall>(x, e, t) \<in> set fs. t = bo_remaining_quantity e) \<or>
        (\<exists>fs0 x e t. fs = fs0 @ [(x, e, t)] \<and> (\<forall>(x, e, t) \<in> set fs0. t = bo_remaining_quantity e) \<and>
           t < bo_remaining_quantity e \<and> q' = 0 \<and> es' = (x, set_quantity (bo_remaining_quantity e - t) e) # rest)"
        using rest(3)
      proof (elim disjE exE conjE)
        fix fs0 x1 e1 t1
        assume a: "fs1 = fs0 @ [(x1, e1, t1)]" "\<forall>(x, e, t) \<in> set fs0. t = bo_remaining_quantity e"
          "t1 < bo_remaining_quantity e1" "q' = 0" "es' = (x1, set_quantity (bo_remaining_quantity e1 - t1) e1) # rest"
        have "fs = ((x, e, ?t) # fs0) @ [(x1, e1, t1)]" by (simp add: fs(1) a(1))
        moreover have "\<forall>(x, e, t) \<in> set ((x, e, ?t) # fs0). t = bo_remaining_quantity e" using a(2) t by auto
        ultimately show ?thesis using a(3-5) by blast
      qed (auto simp: fs(1) t)
      ultimately show ?thesis by blast
    next
      case more: False
      have t: "?t = q" "?t < bo_remaining_quantity e" using more by (auto simp: min_def split: if_splits)
      have fs: "fs = [(x, e, ?t)]" "q' = q - ?t" "es' = (x, set_quantity (bo_remaining_quantity e - ?t) e) # es"
        using 2(2) False more by (auto simp: Let_def split: prod.splits)
      have "q' = 0" using fs(2) t(1) by simp
      then show ?thesis using False pos le t(2) by (intro exI [of _ es]) (auto simp: fs(1,3) fill_entry_def)
    qed
  qed
qed simp

lemma match_leaves_uncrossed:
  "match_list sd p q es = (fs, q', es') \<Longrightarrow> q' \<noteq> 0 \<Longrightarrow>
     es' = [] \<or> \<not> crosses (contra_side sd) p (bo_price (snd (hd es')))"
proof (induction sd p q es arbitrary: fs rule: match_list.induct)
  case (2 sd p q x e es)
  show ?case
  proof (cases "q = 0 \<or> \<not> crosses (contra_side sd) p (bo_price e)")
    case True
    then show ?thesis using 2(2,3) by auto
  next
    case False
    show ?thesis
    proof (cases "bo_remaining_quantity e - min q (bo_remaining_quantity e) = 0")
      case True
      then show ?thesis using 2(1) [OF False refl refl True] 2(2,3) False by (auto simp: Let_def split: prod.splits)
    next
      case more: False
      then have "min q (bo_remaining_quantity e) = q" by (simp add: min_def split: if_splits)
      then show ?thesis using 2(2,3) False more by (auto simp: Let_def)
    qed
  qed
qed simp

text \<open>The pre-check of a fill-or-kill order against the matcher: enough crossing quantity means no remainder.\<close>

lemma cross_sum_covers:
  assumes "unat acc + sum_list (map (\<lambda>y. unat (bo_remaining_quantity (snd y))) es) < 2 ^ 64" "acc < q"
    "q \<le> cross_sum (contra_side sd) p q acc (map snd es)"
    "match_list sd p (q - acc) es = (fs, q', es')"
  shows "q' = 0"
  using assms
proof (induction es arbitrary: acc fs)
  case Nil
  then show ?case by simp
next
  case (Cons y es)
  obtain x e where y: "y = (x, e)" by (cases y)
  let ?t = "acc + bo_remaining_quantity e"
  have nt: "unat ?t = unat acc + unat (bo_remaining_quantity e)"
    using Cons.prems(1) by (intro unat_plus_64) (simp add: y)
  have cr: "crosses (contra_side sd) p (bo_price e)"
    using Cons.prems(2,3) by (auto simp: y split: if_splits)
  have qa: "unat (q - acc) = unat q - unat acc" "q - acc \<noteq> 0"
    using Cons.prems(2) by (auto simp: unat_minus_64 order_less_imp_le)
  let ?m = "min (q - acc) (bo_remaining_quantity e)"
  show ?case
  proof (cases "q \<le> ?t")
    case True
    then have "unat (q - acc) \<le> unat (bo_remaining_quantity e)"
      using Cons.prems(2) by (simp add: qa word_le_nat_alt nt)
    then have m: "?m = q - acc" by (simp add: min_def word_le_nat_alt)
    show ?thesis
    proof (cases "bo_remaining_quantity e - ?m = 0")
      case full: True
      have "match_list sd p 0 es = ([], 0, es)" by (cases es) auto
      then show ?thesis using Cons.prems(4) cr qa(2) full m by (auto simp: y Let_def)
    next
      case False
      then show ?thesis using Cons.prems(4) cr qa(2) m by (auto simp: y Let_def)
    qed
  next
    case False
    then have lt: "unat (bo_remaining_quantity e) < unat (q - acc)"
      using Cons.prems(2) by (simp add: qa word_le_nat_alt nt)
    then have m: "?m = bo_remaining_quantity e" by (simp add: min_def word_le_nat_alt)
    have d: "q - acc - bo_remaining_quantity e = q - ?t" by (simp add: algebra_simps)
    obtain fs1 where "match_list sd p (q - acc - bo_remaining_quantity e) es = (fs1, q', es')"
      using Cons.prems(4) cr qa(2) m by (auto simp: y Let_def split: prod.splits)
    then have "match_list sd p (q - ?t) es = (fs1, q', es')" unfolding d .
    moreover have "unat ?t + sum_list (map (\<lambda>y. unat (bo_remaining_quantity (snd y))) es) < 2 ^ 64"
      using Cons.prems(1) by (simp add: y nt)
    moreover have "q \<le> cross_sum (contra_side sd) p q ?t (map snd es)"
      using Cons.prems(3) cr False by (simp add: y Let_def)
    ultimately show ?thesis using Cons.IH False by (meson not_le_imp_less)
  qed
qed


section \<open>The directory and the market\<close>

type_synonym Views = "InstrumentId \<Rightarrow> Side \<Rightarrow> (u32 \<times> BookOrder) list"

definition key_of :: "BookOrder \<Rightarrow> LiveKey" where
  "key_of e = live_key (bo_account_id e) (bo_client_order_id e)"

text \<open>
  The directory and the books name the same orders: each entry leads to an order under its key, and each
  resting order has an entry that leads back to it.
\<close>

definition directory_ok :: "Views \<Rightarrow> (LiveKey \<rightharpoonup> OrderRef) \<Rightarrow> bool" where
  "directory_ok V m \<longleftrightarrow>
     (\<forall>k ref. m k = Some ref \<longrightarrow>
        (\<exists>sd e. (rf_handle ref, e) \<in> set (V (rf_instrument_id ref) sd) \<and> key_of e = k)) \<and>
     (\<forall>i sd x e. (x, e) \<in> set (V i sd) \<longrightarrow>
        (\<exists>ref. m (key_of e) = Some ref \<and> rf_handle ref = x \<and> rf_instrument_id ref = i))"

definition handles_distinct :: "(Side \<Rightarrow> (u32 \<times> BookOrder) list) \<Rightarrow> bool" where
  "handles_distinct v \<longleftrightarrow> distinct (map fst (v Buy @ v Sell))"

lemma directoryD:
  assumes "directory_ok V m"
  shows "m k = Some ref \<Longrightarrow> \<exists>sd e. (rf_handle ref, e) \<in> set (V (rf_instrument_id ref) sd) \<and> key_of e = k"
    "(x, e) \<in> set (V i sd) \<Longrightarrow> \<exists>ref. m (key_of e) = Some ref \<and> rf_handle ref = x \<and> rf_instrument_id ref = i"
  using assms by (auto simp: directory_ok_def)

lemma handles_entry:
  assumes "handles_distinct v" "(x, e) \<in> set (v sd)" "(x, e') \<in> set (v sd')"
  shows "e' = e" "sd' = sd"
proof -
  have d: "distinct (map fst (v s))" for s using assms(1) by (cases s) (auto simp: handles_distinct_def)
  have "fst ` set (v Buy) \<inter> fst ` set (v Sell) = {}" using assms(1) by (auto simp: handles_distinct_def)
  moreover have "x \<in> fst ` set (v sd)" "x \<in> fst ` set (v sd')" using assms(2,3) by force+
  ultimately show sd: "sd' = sd" by (cases sd; cases sd') auto
  show "e' = e" using d [of sd] assms(2,3) unfolding sd by (simp add: eq_key_imp_eq_value)
qed

lemma key_unique:
  assumes "directory_ok V m" "(x, e) \<in> set (V i sd)" "(x', e') \<in> set (V i' sd')" "key_of e' = key_of e"
  shows "x' = x" "i' = i"
  using directoryD(2) [OF assms(1,2)] directoryD(2) [OF assms(1,3)] assms(4) by auto

lemma directory_remove:
  assumes ok: "directory_ok V m" and d: "handles_distinct (V i)"
    and K: "K = {key_of e | x e sd. (x, e) \<in> set (V i sd) \<and> x \<in> X}"
  shows "directory_ok (V(i := (\<lambda>sd. filter (\<lambda>y. fst y \<notin> X) (V i sd)))) (without m K)"
  unfolding directory_ok_def
proof (intro conjI allI impI)
  let ?V = "V(i := (\<lambda>sd. filter (\<lambda>y. fst y \<notin> X) (V i sd)))"
  fix k ref assume "without m K k = Some ref"
  then have m: "m k = Some ref" and nK: "k \<notin> K" by (auto simp: without_def split: if_splits)
  obtain sd e where e: "(rf_handle ref, e) \<in> set (V (rf_instrument_id ref) sd)" "key_of e = k"
    using directoryD(1) [OF ok m] by blast
  then have "rf_instrument_id ref = i \<Longrightarrow> rf_handle ref \<notin> X" using nK by (auto simp: K)
  then show "\<exists>sd e. (rf_handle ref, e) \<in> set (?V (rf_instrument_id ref) sd) \<and> key_of e = k"
    using e by (intro exI [of _ sd] exI [of _ e]) auto
next
  let ?V = "V(i := (\<lambda>sd. filter (\<lambda>y. fst y \<notin> X) (V i sd)))"
  fix j sd x e assume a: "(x, e) \<in> set (?V j sd)"
  then have mem: "(x, e) \<in> set (V j sd)" by (auto split: if_splits)
  obtain ref where ref: "m (key_of e) = Some ref" "rf_handle ref = x" "rf_instrument_id ref = j"
    using directoryD(2) [OF ok mem] by blast
  have "key_of e \<notin> K"
  proof
    assume "key_of e \<in> K"
    then obtain x' e' sd' where "(x', e') \<in> set (V i sd')" "x' \<in> X" "key_of e' = key_of e" unfolding K by auto
    then have "x' = x" "i = j" using key_unique [OF ok mem] by blast+
    then show False using a \<open>x' \<in> X\<close> by simp
  qed
  then show "\<exists>ref. without m K (key_of e) = Some ref \<and> rf_handle ref = x \<and> rf_instrument_id ref = j"
    using ref by (simp add: without_def)
qed

lemma directory_edit:
  assumes ok: "directory_ok V m" and f: "\<And>e. key_of (f e) = key_of e"
  shows "directory_ok (V(i := (\<lambda>sd. map (edit_entry x f) (V i sd)))) m"
proof -
  let ?V = "V(i := (\<lambda>sd. map (edit_entry x f) (V i sd)))"
  have fwd: "\<exists>e'. (y, e') \<in> set (?V j sd) \<and> key_of e' = key_of e" if "(y, e) \<in> set (V j sd)" for y e j sd
  proof (cases "j = i")
    case True
    then have "edit_entry x f (y, e) \<in> set (?V j sd)" using that by auto
    then show ?thesis by (cases "y = x") (auto simp: edit_entry_def f)
  qed (use that in auto)
  have bwd: "\<exists>e'. (y, e') \<in> set (V j sd) \<and> key_of e' = key_of e" if "(y, e) \<in> set (?V j sd)" for y e j sd
    using that f by (auto simp: edit_entry_def split: if_splits)
  show ?thesis unfolding directory_ok_def
  proof (intro conjI allI impI)
    fix k ref assume "m k = Some ref"
    then obtain sd e where "(rf_handle ref, e) \<in> set (V (rf_instrument_id ref) sd)" "key_of e = k"
      using directoryD(1) [OF ok] by blast
    then show "\<exists>sd e. (rf_handle ref, e) \<in> set (?V (rf_instrument_id ref) sd) \<and> key_of e = k"
      using fwd by metis
  next
    fix j sd y e assume "(y, e) \<in> set (?V j sd)"
    then obtain e' where e': "(y, e') \<in> set (V j sd)" "key_of e' = key_of e" using bwd by blast
    show "\<exists>ref. m (key_of e) = Some ref \<and> rf_handle ref = y \<and> rf_instrument_id ref = j"
      using directoryD(2) [OF ok e'(1)] unfolding e'(2) .
  qed
qed

lemma set_insert_order: "set (insert_order sd y ys) = insert y (set ys)"
  unfolding insert_order_def using takeWhile_dropWhile_id [of _ ys] by (metis (no_types, lifting) Un_insert_right append_Cons append_Nil list.simps(15) set_append)

lemma directory_add:
  assumes ok: "directory_ok V m" and new: "m (key_of e) = None" and fresh: "\<And>sd. x \<notin> fst ` set (V i sd)"
    and ref: "rf_handle ref = x" "rf_instrument_id ref = i"
  shows "directory_ok (V(i := (V i)(sd := insert_order sd (x, e) (V i sd)))) (m(key_of e \<mapsto> ref))"
proof -
  let ?V = "V(i := (V i)(sd := insert_order sd (x, e) (V i sd)))"
  have mem: "y \<in> set (?V j s) \<longleftrightarrow> y \<in> set (V j s) \<or> j = i \<and> s = sd \<and> y = (x, e)" for y j s
    by (auto simp: set_insert_order)
  have "key_of e' \<noteq> key_of e" if "(y, e') \<in> set (V j s)" for y e' j s
    using directoryD(2) [OF ok that] new by auto
  then show ?thesis unfolding directory_ok_def mem using directoryD [OF ok] ref by (auto; metis)
qed

text \<open>The orders of a book: positive quantities and prices, good till cancelled, and the sides do not cross.\<close>

definition order_ok :: "BookOrder \<Rightarrow> bool" where
  "order_ok e \<longleftrightarrow> 0 < bo_remaining_quantity e \<and> price_ok (bo_price e) \<and> bo_time_in_force e = GTC"

definition market_ok :: "(Side \<Rightarrow> (u32 \<times> BookOrder) list) \<Rightarrow> bool" where
  "market_ok v \<longleftrightarrow>
     (\<forall>sd. \<forall>y \<in> set (v sd). order_ok (snd y)) \<and>
     (\<forall>b \<in> set (v Buy). \<forall>a \<in> set (v Sell). sless (bo_price (snd b)) (bo_price (snd a)))"

definition engine_inv :: "MatchingEngine \<Rightarrow> bool" where
  "engine_inv e \<longleftrightarrow>
     books_ok e \<and> directory_ok (view e) (me_orders e) \<and> (\<forall>i. market_ok (view e i)) \<and>
     finite (dom (me_orders e)) \<and> me_resting_orders e = word_of_nat (card (dom (me_orders e)))"

lemma engine_invD:
  assumes "engine_inv e"
  shows "books_ok e" "directory_ok (view e) (me_orders e)" "market_ok (view e i)" "finite (dom (me_orders e))"
    "me_resting_orders e = word_of_nat (card (dom (me_orders e)))"
  using assms by (auto simp: engine_inv_def)

lemma books_view:
  assumes "books_ok e"
  shows "handles_distinct (view e i)" "sorted (map (entry_prio sd) (view e i sd))"
    "y \<in> set (view e i sd) \<Longrightarrow> bo_side (snd y) = sd"
proof -
  have "handles_distinct (view e i) \<and> sorted (map (entry_prio sd) (view e i sd)) \<and>
    (\<forall>y \<in> set (view e i sd). bo_side (snd y) = sd)"
  proof (cases "knows_instrument i e")
    case True
    obtain b where "book_inv b" "view e i = orders_of b" by (rule known_book [OF assms True])
    then show ?thesis using ob.distinct ob.sorted ob.sides by (auto simp: handles_distinct_def)
  next
    case False
    then have "book_slot i e = None" using book_slot_unknown assms by (simp add: books_ok_def)
    then show ?thesis by (simp add: view_def book_for_def handles_distinct_def)
  qed
  then show "handles_distinct (view e i)" "sorted (map (entry_prio sd) (view e i sd))"
    "y \<in> set (view e i sd) \<Longrightarrow> bo_side (snd y) = sd" by blast+
qed

lemma view_known: "books_ok e \<Longrightarrow> y \<in> set (view e i sd) \<Longrightarrow> knows_instrument i e"
proof (rule ccontr)
  assume ok: "books_ok e" and y: "y \<in> set (view e i sd)" and "\<not> knows_instrument i e"
  then have "book_slot i e = None" using book_slot_unknown by (simp add: books_ok_def)
  then show False using y by (simp add: view_def book_for_def)
qed

text \<open>Removing handles or editing quantities keeps a market in order.\<close>

lemma market_sub:
  assumes "market_ok v" "\<And>sd y. y \<in> set (w sd) \<Longrightarrow> order_ok (snd y) \<and> (\<exists>z \<in> set (v sd). bo_price (snd z) = bo_price (snd y))"
  shows "market_ok w"
  using assms unfolding market_ok_def by metis

end
