(* ===== verification/EngineInvariant.thy ===== *)
theory EngineInvariant
  imports EngineMatching
begin

text \<open>
  What every command keeps. \<open>engine_inv\<close> is preserved by matching, by resting a remainder, by taking an
  order out and by the two ways to replace one; \<open>place_order\<close>, \<open>take_out\<close>, \<open>replace_in_place\<close> and
  \<open>replace_anew\<close> also give the events and the priority lists they leave. \<open>index_inv\<close> is the registry's
  index, which \<open>register_instrument\<close> extends by exactly one instrument.
\<close>

section \<open>Filling keeps a market\<close>

text \<open>Completely filled orders first, and at most one partial fill at the end.\<close>

lemma match_shape:
  assumes "match_list sd p q es = (fs, q', es')"
  obtains fs0 rest where "es = map fill_entry fs0 @ rest" "\<forall>(x, e, t) \<in> set fs0. t = bo_remaining_quantity e"
    "filled_keys fs = key_of ` snd ` set (map fill_entry fs0)" "fills_done fs = length fs0"
    "es' = rest \<or> (\<exists>x e l es1. rest = (x, e) # es1 \<and> es' = (x, set_quantity l e) # es1 \<and> 0 < l)"
proof -
  obtain rest where r: "es = map fill_entry fs @ rest"
    "es' = rest \<and> (\<forall>(x, e, t) \<in> set fs. t = bo_remaining_quantity e) \<or>
        (\<exists>fs0 x e t. fs = fs0 @ [(x, e, t)] \<and> (\<forall>(x, e, t) \<in> set fs0. t = bo_remaining_quantity e) \<and>
           t < bo_remaining_quantity e \<and> q' = 0 \<and> es' = (x, set_quantity (bo_remaining_quantity e - t) e) # rest)"
    using match_fills [OF assms] by blast
  have full: "filled_keys fs0 = key_of ` snd ` set (map fill_entry fs0) \<and> fills_done fs0 = length fs0"
    if "\<forall>(x, e, t) \<in> set fs0. t = bo_remaining_quantity e" for fs0
    using that
  proof (induction fs0)
    case (Cons f fs0)
    obtain x e t where f: "f = (x, e, t)" by (cases f)
    then have "bo_remaining_quantity e - t = 0" using Cons.prems by simp
    then show ?case using Cons by (simp add: f key_of_def fill_entry_def)
  qed simp
  from r(2) consider (all) "es' = rest" "\<forall>(x, e, t) \<in> set fs. t = bo_remaining_quantity e"
    | (part) fs0 x e t where "fs = fs0 @ [(x, e, t)]" "\<forall>(x, e, t) \<in> set fs0. t = bo_remaining_quantity e"
        "t < bo_remaining_quantity e" "es' = (x, set_quantity (bo_remaining_quantity e - t) e) # rest"
    by blast
  then show thesis
  proof cases
    case all
    then show thesis using that [of fs rest] full [of fs] r(1) by blast
  next
    case a: part
    have nz: "bo_remaining_quantity e - t \<noteq> 0" using a(3) by auto
    have "filled_keys fs = filled_keys fs0 \<and> fills_done fs = fills_done fs0"
      using nz by (auto simp: filled_keys_def fills_done_def a(1))
    moreover have "0 < bo_remaining_quantity e - t" using nz by (simp add: word_gt_0)
    ultimately have "es' = (x, e) # rest \<or> (\<exists>x' e' l es1. (x, e) # rest = (x', e') # es1 \<and>
        es' = (x', set_quantity l e') # es1 \<and> 0 < l)" "filled_keys fs = filled_keys fs0" "fills_done fs = fills_done fs0"
      using a(4) by blast+
    moreover have "es = map fill_entry fs0 @ (x, e) # rest" by (simp add: r(1) a(1) fill_entry_def)
    ultimately show thesis using that [of fs0 "(x, e) # rest"] full [OF a(2)] a(2) by simp
  qed
qed

lemma directory_filled:
  assumes ok: "directory_ok V m" and d: "handles_distinct (V i)" and es: "V i sd = ys @ rest"
    and K: "K = key_of ` snd ` set ys"
  shows "directory_ok (V(i := (V i)(sd := rest))) (without m K)" "K \<subseteq> dom m" "card K = length ys"
proof -
  let ?X = "fst ` set ys"
  have ds: "distinct (map fst (V i sd))" using d by (cases sd) (auto simp: handles_distinct_def)
  have mem: "(x, e) \<in> set ys" if a: "(x, e) \<in> set (V i s)" "x \<in> ?X" for x e s
  proof -
    obtain e' where e': "(x, e') \<in> set ys" using a(2) by auto
    then have m: "(x, e') \<in> set (V i sd)" by (simp add: es)
    show ?thesis using e' handles_entry [OF d m a(1)] by simp
  qed
  have sides: "s = sd" if "(x, e) \<in> set (V i s)" "x \<in> ?X" for x e s
    using mem [OF that] handles_entry(2) [OF d _ that(1), of e sd] by (simp add: es)
  have "(\<lambda>s. filter (\<lambda>y. fst y \<notin> ?X) (V i s)) = (V i)(sd := rest)"
  proof
    fix s show "filter (\<lambda>y. fst y \<notin> ?X) (V i s) = ((V i)(sd := rest)) s"
    proof (cases "s = sd")
      case True
      have "filter (\<lambda>y. fst y \<notin> ?X) ys = []" by (auto simp: filter_empty_conv)
      moreover have "filter (\<lambda>y. fst y \<notin> ?X) rest = rest" using ds by (intro filter_True) (auto simp: es)
      ultimately show ?thesis using True by (simp add: es)
    next
      case False
      then have "fst y \<notin> ?X" if y: "y \<in> set (V i s)" for y using sides [of "fst y" "snd y" s] y by (cases y) fastforce
      then have "filter (\<lambda>y. fst y \<notin> ?X) (V i s) = V i s" by (intro filter_True) auto
      then show ?thesis using False by simp
    qed
  qed
  moreover have "K = {key_of e | x e s. (x, e) \<in> set (V i s) \<and> x \<in> ?X}"
  proof (intro equalityI subsetI)
    fix k assume "k \<in> K"
    then obtain x e where "(x, e) \<in> set ys" "k = key_of e" by (auto simp: K)
    then have "(x, e) \<in> set (V i sd) \<and> x \<in> ?X \<and> k = key_of e" by (force simp: es)
    then show "k \<in> {key_of e | x e s. (x, e) \<in> set (V i s) \<and> x \<in> ?X}" by blast
  next
    fix k assume "k \<in> {key_of e | x e s. (x, e) \<in> set (V i s) \<and> x \<in> ?X}"
    then show "k \<in> K" using mem by (force simp: K)
  qed
  ultimately show "directory_ok (V(i := (V i)(sd := rest))) (without m K)"
    using directory_remove [OF ok d, of K ?X] by simp
  show "K \<subseteq> dom m"
  proof
    fix k assume "k \<in> K"
    then obtain x e where "(x, e) \<in> set ys" "k = key_of e" by (auto simp: K)
    then show "k \<in> dom m" using directoryD(2) [OF ok, of x e i sd] by (auto simp: es)
  qed
  have "inj_on (\<lambda>y. key_of (snd y)) (set ys)"
  proof (rule inj_onI)
    fix a b assume a: "a \<in> set ys" "b \<in> set ys" "key_of (snd a) = key_of (snd b)"
    have "(fst a, snd a) \<in> set (V i sd)" "(fst b, snd b) \<in> set (V i sd)" using a(1,2) by (simp_all add: es)
    then have "fst a = fst b" using key_unique(1) [OF ok] a(3) by metis
    then show "a = b" using ds a(1,2) by (simp add: es eq_key_imp_eq_value distinct_map inj_on_def)
  qed
  moreover have "distinct ys" using ds by (simp add: es distinct_map)
  ultimately show "card K = length ys" by (simp add: K image_image card_image distinct_card)
qed

lemma directory_reduced:
  assumes ok: "directory_ok V m" and d: "handles_distinct (V i)" and es: "V i sd = (x, e) # es"
  shows "directory_ok (V(i := (V i)(sd := (x, set_quantity l e) # es))) m"
proof -
  have x: "(x, e) \<in> set (V i sd)" by (simp add: es)
  have ds: "distinct (map fst (V i sd))" using d by (cases sd) (auto simp: handles_distinct_def)
  have "(\<lambda>s. map (edit_entry x (set_quantity l)) (V i s)) = (V i)(sd := (x, set_quantity l e) # es)"
  proof
    fix s
    have other: "x \<notin> fst ` set (V i s)" if ne: "s \<noteq> sd" using handles_entry(2) [OF d x, of _ s] ne by auto
    show "map (edit_entry x (set_quantity l)) (V i s) = ((V i)(sd := (x, set_quantity l e) # es)) s"
    proof (cases "s = sd")
      case True
      have "map (edit_entry x (set_quantity l)) es = es"
        using ds by (intro map_idI) (auto simp: es edit_entry_def)
      then show ?thesis using True by (simp add: es edit_entry_def)
    next
      case False
      have "map (edit_entry x (set_quantity l)) (V i s) = V i s"
        using other [OF False] by (intro map_idI) (auto simp: edit_entry_def)
      then show ?thesis using False by simp
    qed
  qed
  moreover have "key_of (set_quantity l b) = key_of b" for b by (simp add: key_of_def set_quantity_def)
  ultimately show ?thesis using directory_edit [OF ok, of "set_quantity l" i x] by simp
qed

lemma match_directory:
  assumes ok: "directory_ok V m" and d: "handles_distinct (V i)" and mk: "market_ok (V i)"
    and ml: "match_list s p q (V i sd) = (fs, q', es')"
  shows "directory_ok (V(i := (V i)(sd := es'))) (without m (filled_keys fs))"
    "market_ok ((V i)(sd := es'))" "filled_keys fs \<subseteq> dom m" "card (filled_keys fs) = fills_done fs"
    "length es' \<le> length (V i sd)"
proof -
  obtain fs0 rest where r: "V i sd = map fill_entry fs0 @ rest"
    "filled_keys fs = key_of ` snd ` set (map fill_entry fs0)" "fills_done fs = length fs0"
    "es' = rest \<or> (\<exists>x e l es1. rest = (x, e) # es1 \<and> es' = (x, set_quantity l e) # es1 \<and> 0 < l)"
    by (rule match_shape [OF ml]) (rule that)
  note f = directory_filled [OF ok d r(1,2)]
  show "filled_keys fs \<subseteq> dom m" "card (filled_keys fs) = fills_done fs" using f(2,3) r(3) by simp_all
  show "length es' \<le> length (V i sd)" using r(1,4) by auto
  let ?W = "V(i := (V i)(sd := rest))"
  have sub: "set rest \<subseteq> set (V i sd)" by (simp add: r(1))
  have dw: "handles_distinct (?W i)" using d r(1) by (cases sd) (auto simp: handles_distinct_def)
  have mo: "order_ok (snd y)" if "y \<in> set (V i s)" for y s using mk that by (auto simp: market_ok_def)
  from r(4) show "directory_ok (V(i := (V i)(sd := es'))) (without m (filled_keys fs))"
  proof (elim disjE exE conjE)
    fix x e l es1 assume a: "rest = (x, e) # es1" "es' = (x, set_quantity l e) # es1"
    have "?W i sd = (x, e) # es1" by (simp add: a(1))
    from directory_reduced [OF f(1) dw this, of l] show ?thesis unfolding a(2) by (simp only: fun_upd_same fun_upd_upd)
  qed (use f(1) in simp)
  show "market_ok ((V i)(sd := es'))"
  proof (rule market_sub [OF mk])
    fix s y assume y: "y \<in> set (((V i)(sd := es')) s)"
    show "order_ok (snd y) \<and> (\<exists>z \<in> set (V i s). bo_price (snd z) = bo_price (snd y))"
    proof (cases "y \<in> set (V i s)")
      case True
      then show ?thesis using mo by blast
    next
      case False
      then have s: "s = sd" "y \<in> set es'" using y by (auto split: if_splits)
      then obtain x e l es1 where a: "rest = (x, e) # es1" "y = (x, set_quantity l e)" "0 < l"
        using r(4) sub False by auto
      have "(x, e) \<in> set (V i s)" using sub s by (simp add: a(1))
      then show ?thesis using mo [of "(x, e)" s] a(2,3) by (force simp: order_ok_def set_quantity_def)
    qed
  qed
qed

lemma dom_without: "dom (without m K) = dom m - K"
  by (auto simp: without_def split: if_splits)

lemma count_without:
  assumes "finite (dom m)" "K \<subseteq> dom m" "n = (word_of_nat (card (dom m)) :: u64)" "card K = k"
  shows "n - word_of_nat k = word_of_nat (card (dom (without m K)))"
proof -
  have "card K \<le> card (dom m)" "finite K" using assms(1,2) by (auto intro: card_mono finite_subset)
  then show ?thesis using assms by (simp add: dom_without card_Diff_subset of_nat_diff)
qed

lemma match_keeps:
  assumes inv: "engine_inv e" and ml: "match_list s p q (view e i sd) = (fs, q', es')" and m: "matched e i sd fs es' e'"
  shows "engine_inv e'" "length (view e' i sd) \<le> length (view e i sd)" "same_registry e e'"
    "view e' = (view e)(i := (view e i)(sd := es'))" "me_orders e' = without (me_orders e) (filled_keys fs)"
    "me_next_exchange_order_id e' = me_next_exchange_order_id e" "me_next_priority e' = me_next_priority e"
proof -
  have mk: "market_ok (view e i)" for i using inv by (rule engine_invD)
  note md = match_directory [OF engine_invD(2) [OF inv] books_view(1) [OF engine_invD(1) [OF inv]] mk ml]
  have me: "books_ok e'" "view e' = (view e)(i := (view e i)(sd := es'))"
    "me_orders e' = without (me_orders e) (filled_keys fs)"
    "me_resting_orders e' = me_resting_orders e - word_of_nat (fills_done fs)"
    using m by (simp_all only: matched_def)
  have "market_ok (view e' j)" for j using mk [of j] md(2) by (cases "j = i") (simp_all add: me(2))
  moreover have "me_resting_orders e' = word_of_nat (card (dom (me_orders e')))"
    unfolding me(3,4) by (rule count_without [OF engine_invD(4) [OF inv] md(3) engine_invD(5) [OF inv] md(4)])
  moreover have "finite (dom (me_orders e'))" using engine_invD(4) [OF inv] by (simp add: me(3) dom_without)
  ultimately show "engine_inv e'" using me(1) md(1) by (simp add: engine_inv_def me(2,3))
  show "length (view e' i sd) \<le> length (view e i sd)" using md(5) by (simp add: me(2))
  show "same_registry e e'" "view e' = (view e)(i := (view e i)(sd := es'))"
    "me_orders e' = without (me_orders e) (filled_keys fs)"
    "me_next_exchange_order_id e' = me_next_exchange_order_id e" "me_next_priority e' = me_next_priority e"
    using m by (simp_all only: matched_def)
qed


section \<open>Resting a remainder\<close>

definition uncrossed :: "(Side \<Rightarrow> (u32 \<times> BookOrder) list) \<Rightarrow> Side \<Rightarrow> Price \<Rightarrow> bool" where
  \<comment> \<open>an order of side \<open>sd\<close> at \<open>p\<close> trades with nothing\<close>
  "uncrossed v sd p \<longleftrightarrow> (\<forall>y \<in> set (v (contra_side sd)). \<not> crosses (contra_side sd) p (bo_price (snd y)))"

lemma crosses_prio: "crosses sd p l \<longleftrightarrow> prio sd l \<le> prio sd p"
  by (cases sd) (auto simp: crosses_def prio_def signed_cmp)

lemma contra_contra [simp]: "contra_side (contra_side sd) = sd" "contra_side sd \<noteq> sd" "sd \<noteq> contra_side sd"
  by (cases sd; simp add: contra_side_def)+

lemma matched_uncrossed:
  assumes ml: "match_list sd p q (v (contra_side sd)) = (fs, q', es')" and q: "q' \<noteq> 0"
    and so: "sorted (map (entry_prio (contra_side sd)) es')"
  shows "uncrossed (v(contra_side sd := es')) sd p"
proof (cases es')
  case (Cons y ys)
  have "\<not> crosses (contra_side sd) p (bo_price (snd y))" using match_leaves_uncrossed [OF ml q] by (simp add: Cons)
  then have "\<not> crosses (contra_side sd) p (bo_price (snd z))" if "z \<in> set es'" for z
    using so that by (force simp: Cons crosses_prio entry_prio_def)
  then show ?thesis by (simp add: uncrossed_def)
qed (simp add: uncrossed_def)

lemma market_insert:
  assumes mk: "market_ok v" and ok: "order_ok e" and u: "uncrossed v sd (bo_price e)"
  shows "market_ok (v(sd := insert_order sd (x, e) (v sd)))"
proof -
  have "sless (bo_price (snd b)) (bo_price (snd a))"
    if "b \<in> set ((v(sd := insert_order sd (x, e) (v sd))) Buy)" "a \<in> set ((v(sd := insert_order sd (x, e) (v sd))) Sell)" for b a
    using that mk u by (cases sd) (auto simp: market_ok_def set_insert_order uncrossed_def crosses_def contra_side_def signed_cmp)
  moreover have "order_ok (snd y)" if "y \<in> set ((v(sd := insert_order sd (x, e) (v sd))) s)" for s y
    using that mk ok by (auto simp: market_ok_def set_insert_order split: if_splits)
  ultimately show ?thesis unfolding market_ok_def by blast
qed

definition resting_of :: "ExchangeRestingOrder \<Rightarrow> Quantity \<Rightarrow> BookOrder" where
  "resting_of order q =
     \<lparr>bo_exchange_order_id = ro_exchange_order_id order, bo_client_order_id = ro_client_order_id order,
      bo_account_id = ro_account_id order, bo_price = ro_price order, bo_remaining_quantity = q,
      bo_side = ro_side order, bo_time_in_force = ro_time_in_force order\<rparr>"

definition order_key :: "ExchangeRestingOrder \<Rightarrow> LiveKey" where
  "order_key order = live_key (ro_account_id order) (ro_client_order_id order)"

definition rests :: "ExchangeRestingOrder \<Rightarrow> bool" where
  "rests order \<longleftrightarrow> ro_time_in_force order = GTC \<and> ro_remaining_quantity order \<noteq> 0"

definition added_event :: "ExchangeRestingOrder \<Rightarrow> EventSequence \<Rightarrow> ExchangeEvent" where
  "added_event order n = EvAdded \<lparr>ba_event_sequence = n, ba_instrument_id = ro_instrument_id order,
     ba_exchange_order_id = ro_exchange_order_id order, ba_side = ro_side order,
     ba_price = ro_price order, ba_quantity = ro_remaining_quantity order\<rparr>"

lemma contra_cases: "sd = sd' \<or> sd = contra_side sd'"
  by (cases sd; cases sd') (simp_all add: contra_side_def)

lemma rest_remainder:
  assumes inv: "engine_inv (fst r)" and i: "knows_instrument (ro_instrument_id order) (fst r)" and rs: "rests order"
    and p: "price_ok (ro_price order)" and new: "me_orders (fst r) (order_key order) = None"
    and room: "length (view (fst r) (ro_instrument_id order) Buy) + length (view (fst r) (ro_instrument_id order) Sell) < 2 ^ 32 - 1"
    and u: "uncrossed (view (fst r) (ro_instrument_id order)) (ro_side order) (ro_price order)"
  obtains x e' where "rest_remainder_if_applicable order r =
      Some (e', snd r @ [added_event order (me_next_event_sequence (fst r))])"
    "engine_inv e'" "same_registry (fst r) e'"
    "view e' = (view (fst r))(ro_instrument_id order := (view (fst r) (ro_instrument_id order))(ro_side order :=
        insert_order (ro_side order) (x, resting_of order (ro_remaining_quantity order))
          (view (fst r) (ro_instrument_id order) (ro_side order))))"
    "me_next_exchange_order_id e' = me_next_exchange_order_id (fst r)" "me_next_priority e' = me_next_priority (fst r)"
    "me_orders e' = (me_orders (fst r))(order_key order \<mapsto>
        \<lparr>rf_original_quantity = ro_original_quantity order, rf_order_sequence = ro_order_sequence order,
         rf_handle = x, rf_instrument_id = ro_instrument_id order\<rparr>)"
    "me_next_event_sequence e' = me_next_event_sequence (fst r) + 1"
proof -
  let ?e = "fst r" and ?i = "ro_instrument_id order" and ?sd = "ro_side order"
  let ?bo = "resting_of order (ro_remaining_quantity order)"
  have ok: "books_ok ?e" and mk: "market_ok (view ?e ?i)" using inv by (auto intro: engine_invD)
  obtain b where b: "book_for ?i ?e = Some b" "book_inv b" "view ?e ?i = orders_of b" by (rule known_book [OF ok i])
  obtain x b' where a: "add ?bo b = Some (x, b')" "book_inv b'"
    "x \<notin> fst ` set (orders_of b Buy) \<union> fst ` set (orders_of b Sell)"
    "\<forall>sd. orders_of b' sd = (if sd = ?sd then insert_order sd (x, ?bo) (orders_of b sd) else orders_of b sd)"
    using ob.ins [OF b(2), of ?bo] room p by (auto simp: b(3) resting_of_def)
  have o': "orders_of b' = (view ?e ?i)(?sd := insert_order ?sd (x, ?bo) (view ?e ?i ?sd))"
    using a(4) by (auto simp: fun_eq_iff b(3))
  let ?ref = "\<lparr>rf_original_quantity = ro_original_quantity order, rf_order_sequence = ro_order_sequence order,
         rf_handle = x, rf_instrument_id = ?i\<rparr>"
  let ?e1 = "set_book ?i b' ?e"
  let ?e2 = "?e1\<lparr>me_orders := (me_orders ?e1)(order_key order \<mapsto> ?ref), me_resting_orders := me_resting_orders ?e1 + 1,
    me_next_event_sequence := me_next_event_sequence ?e + 1\<rparr>"
  have run: "rest_remainder_if_applicable order r = Some (?e2, snd r @ [added_event order (me_next_event_sequence ?e)])"
    using rs a(1) unfolding resting_of_def
    by (simp add: rest_remainder_if_applicable_def rests_def Let_def b(1) emit_def added_event_def order_key_def)
  note sv = set_book_view [OF ok i a(2)]
  have k: "order_key order = key_of ?bo" by (simp add: key_of_def order_key_def resting_of_def)
  have fresh: "x \<notin> fst ` set (view ?e ?i sd)" for sd using a(3) by (cases sd) (auto simp: b(3))
  have dir: "directory_ok (view ?e2) (me_orders ?e2)"
    using directory_add [OF engine_invD(2) [OF inv], of ?bo x ?i ?ref ?sd] new fresh sv(2) by (simp add: k o')
  have oo: "order_ok ?bo" using rs p by (simp add: order_ok_def resting_of_def rests_def word_gt_0)
  have mi: "market_ok (orders_of b')" unfolding o' using market_insert [OF mk oo] u by (simp add: resting_of_def)
  have mk2: "market_ok (view ?e2 j)" for j
    using mi engine_invD(3) [OF inv, of j] sv(2) by (cases "j = ?i") simp_all
  have "card (dom (me_orders ?e2)) = Suc (card (dom (me_orders ?e)))"
    using new engine_invD(4) [OF inv] by (simp add: card_insert_if domIff)
  then have cnt: "me_resting_orders ?e2 = word_of_nat (card (dom (me_orders ?e2)))"
    using engine_invD(5) [OF inv] by simp
  have "engine_inv ?e2" unfolding engine_inv_def
    using sv(1) dir mk2 cnt engine_invD(4) [OF inv] by simp
  then show thesis using that [OF run] sv(2) o' by simp
qed

lemma rest_nothing: "\<not> rests order \<Longrightarrow> rest_remainder_if_applicable order r = Some r"
  by (auto simp: rest_remainder_if_applicable_def rests_def)

section \<open>Placing an order\<close>

definition placed_sides ::
  "ExchangeRestingOrder \<Rightarrow> Quantity \<Rightarrow> u32 \<Rightarrow> (u32 \<times> BookOrder) list \<Rightarrow> (Side \<Rightarrow> (u32 \<times> BookOrder) list) \<Rightarrow> Side \<Rightarrow> (u32 \<times> BookOrder) list" where
  \<comment> \<open>the two sides after matching left \<open>es'\<close> opposite and \<open>q'\<close> of the order\<close>
  "placed_sides order q' x es' v =
     (let v1 = v(contra_side (ro_side order) := es')
      in if ro_time_in_force order = GTC \<and> q' \<noteq> 0
         then v1(ro_side order := insert_order (ro_side order) (x, resting_of order q') (v (ro_side order)))
         else v1)"

definition place_order :: "CommandSequence \<Rightarrow> ExchangeRestingOrder \<Rightarrow> Run \<Rightarrow> Run option" where
  \<comment> \<open>the common end of a new order and of a replacement that lost its priority\<close>
  "place_order cs order r =
     do { (order', r2) \<leftarrow> match_and_rest cs order r; rest_remainder_if_applicable order' r2 }"

definition placed_events ::
  "CommandSequence \<Rightarrow> ExchangeRestingOrder \<Rightarrow> EventSequence \<Rightarrow> Fill list \<Rightarrow> Quantity \<Rightarrow> ExchangeEvent list" where
  "placed_events cs order n fs q' =
     fill_events order cs n fs @
     (if ro_time_in_force order = GTC \<and> q' \<noteq> 0
      then [added_event (order\<lparr>ro_remaining_quantity := q'\<rparr>) (n + word_of_nat (2 * length fs))] else [])"

definition room :: "MatchingEngine \<Rightarrow> InstrumentId \<Rightarrow> bool" where
  \<comment> \<open>a free 32-bit handle is left in the instrument's book\<close>
  "room e i \<longleftrightarrow> length (view e i Buy) + length (view e i Sell) < 2 ^ 32 - 1"

lemma room_sides: "room e i \<longleftrightarrow> length (view e i sd) + length (view e i (contra_side sd)) < 2 ^ 32 - 1"
  by (cases sd) (auto simp: room_def contra_side_def)

lemma place_order:
  assumes inv: "engine_inv (fst r)" and i: "knows_instrument (ro_instrument_id order) (fst r)"
    and p: "price_ok (ro_price order)" and new: "me_orders (fst r) (order_key order) = None"
    and room: "room (fst r) (ro_instrument_id order)"
    and ml: "match_list (ro_side order) (ro_price order) (ro_remaining_quantity order)
      (view (fst r) (ro_instrument_id order) (contra_side (ro_side order))) = (fs, q', es')"
  obtains x e' where "place_order cs order r = Some (e', snd r @ placed_events cs order (me_next_event_sequence (fst r)) fs q')"
    "engine_inv e'" "same_registry (fst r) e'"
    "view e' = (view (fst r))(ro_instrument_id order := placed_sides order q' x es' (view (fst r) (ro_instrument_id order)))"
    "me_next_exchange_order_id e' = me_next_exchange_order_id (fst r)" "me_next_priority e' = me_next_priority (fst r)"
proof -
  let ?e = "fst r" and ?i = "ro_instrument_id order" and ?sd = "ro_side order" and ?n = "me_next_event_sequence (fst r)"
  let ?o = "order\<lparr>ro_remaining_quantity := q'\<rparr>"
  have ok: "books_ok ?e" using inv by (rule engine_invD)
  obtain e1 where m: "match_and_rest cs order r = Some (?o, (e1, snd r @ fill_events order cs ?n fs))"
    "matched ?e ?i (contra_side ?sd) fs es' e1"
    using match_and_rest_list [OF ok i refl ml] by blast
  note mk = match_keeps [OF inv ml m(2)]
  have n1: "me_next_event_sequence e1 = ?n + word_of_nat (2 * length fs)" using m(2) by (simp only: matched_def)
  have k1: "knows_instrument ?i e1" using i same_registry_knows [OF mk(3)] by simp
  show thesis
  proof (cases "rests ?o")
    case False
    then have np: "\<not> (ro_time_in_force order = GTC \<and> q' \<noteq> 0)" by (simp add: rests_def)
    have "place_order cs order r = Some (e1, snd r @ fill_events order cs ?n fs)"
      using m(1) rest_nothing [OF False] by (simp add: place_order_def)
    then show thesis using that [of e1 0] mk(1,3,4,6,7) np
      by (simp add: placed_events_def placed_sides_def Let_def)
  next
    case True
    then have yes: "ro_time_in_force order = GTC \<and> q' \<noteq> 0" by (simp add: rests_def)
    have so: "sorted (map (entry_prio (contra_side ?sd)) es')"
      using books_view(2) [OF engine_invD(1) [OF mk(1)], of "contra_side ?sd" ?i] by (simp add: mk(4))
    have u: "uncrossed (view e1 ?i) ?sd (ro_price order)"
      using matched_uncrossed [where v = "view ?e ?i" and sd = ?sd, OF ml _ so] yes by (simp add: mk(4))
    have new1: "me_orders e1 (order_key order) = None" using new by (simp add: mk(5) without_def)
    have room1: "length (view e1 ?i Buy) + length (view e1 ?i Sell) < 2 ^ 32 - 1"
    proof -
      have "length (view e1 ?i ?sd) = length (view ?e ?i ?sd)" by (simp add: mk(4))
      then have "room e1 ?i" using room mk(2) unfolding room_sides [of _ _ ?sd] by linarith
      then show ?thesis by (simp add: room_def)
    qed
    have [simp]: "order_key ?o = order_key order" "resting_of ?o q = resting_of order q" for q
      by (simp_all add: order_key_def resting_of_def)
    obtain x e' where e': "rest_remainder_if_applicable ?o (e1, snd r @ fill_events order cs ?n fs) =
          Some (e', (snd r @ fill_events order cs ?n fs) @ [added_event ?o (me_next_event_sequence e1)])"
      "engine_inv e'" "same_registry e1 e'"
      "view e' = (view e1)(?i := (view e1 ?i)(?sd := insert_order ?sd (x, resting_of order q') (view e1 ?i ?sd)))"
      "me_next_exchange_order_id e' = me_next_exchange_order_id e1" "me_next_priority e' = me_next_priority e1"
      by (rule rest_remainder [of "(e1, snd r @ fill_events order cs ?n fs)" ?o])
         (use mk(1) k1 True p new1 room1 u in \<open>simp_all\<close>)
    have "place_order cs order r = Some (e', snd r @ placed_events cs order ?n fs q')"
      using m(1) e'(1) yes by (simp add: place_order_def placed_events_def n1)
    moreover have "view e' = (view ?e)(?i := placed_sides order q' x es' (view ?e ?i))"
      using yes by (simp add: e'(4) mk(4) placed_sides_def Let_def)
    ultimately show thesis
      using that [of e' x] e'(2,5,6) same_registry_trans [OF mk(3) e'(3)] mk(6,7) by simp
  qed
qed

section \<open>Taking an order out\<close>

lemma take_out:
  assumes inv: "engine_inv e" and ref: "me_orders e k = Some ref" and e': "e' = 
      (set_book (rf_instrument_id ref) b' e)\<lparr>me_orders := (me_orders e)(k := None), me_resting_orders := me_resting_orders e - 1\<rparr>"
    and b: "book_for (rf_instrument_id ref) e = Some b" and d: "remove_at (rf_handle ref) b = Some (bo, b')"
  shows "engine_inv e'" "same_registry e e'" 
    "view e' = (view e)(rf_instrument_id ref := (\<lambda>sd. filter (\<lambda>y. fst y \<noteq> rf_handle ref) (view e (rf_instrument_id ref) sd)))"
    "me_orders e' k = None"
proof -
  let ?i = "rf_instrument_id ref" and ?x = "rf_handle ref"
  have ok: "books_ok e" using inv by (rule engine_invD)
  obtain sd c where c: "(?x, c) \<in> set (view e ?i sd)" "key_of c = k"
    using directoryD(1) [OF engine_invD(2) [OF inv] ref] by blast
  have i: "knows_instrument ?i e" by (rule view_known [OF ok c(1)])
  have bi: "book_inv b" "view e ?i = orders_of b" using known_book [OF ok i] b by (metis option.inject)+
  have cb: "(?x, c) \<in> set (orders_of b sd)" using c(1) bi(2) by simp
  obtain b1 where "remove_at ?x b = Some (c, b1)" "book_inv b1" "\<forall>sd. orders_of b1 sd = filter (\<lambda>y. fst y \<noteq> ?x) (orders_of b sd)"
    using ob.del [OF bi(1) cb] by blast
  then have b': "book_inv b'" "\<forall>sd. orders_of b' sd = filter (\<lambda>y. fst y \<noteq> ?x) (orders_of b sd)" using d by auto
  note sv = set_book_view [OF ok i b'(1)]
  show v: "view e' = (view e)(?i := (\<lambda>sd. filter (\<lambda>y. fst y \<noteq> ?x) (view e ?i sd)))"
    using b'(2) by (auto simp: e' sv(2) fun_eq_iff bi(2))
  show "same_registry e e'" "me_orders e' k = None" by (simp_all add: e')
  have hd: "handles_distinct (view e ?i)" by (rule books_view(1) [OF ok])
  have K: "{k} = {key_of f | x f sd. (x, f) \<in> set (view e ?i sd) \<and> x \<in> {?x}}"
  proof -
    have "key_of f = k" if m: "(?x, f) \<in> set (view e ?i s)" for f s
      using handles_entry(1) [OF hd c(1) m] c(2) by simp
    then show ?thesis using c by blast
  qed
  have "directory_ok (view e') (without (me_orders e) {k})"
    using directory_remove [OF engine_invD(2) [OF inv] hd K] by (simp add: v)
  moreover have mo: "without (me_orders e) {k} = me_orders e'" by (auto simp: e' without_def)
  moreover have "market_ok (view e' j)" for j
  proof (cases "j = ?i")
    case True
    have mk: "market_ok (view e ?i)" using inv by (rule engine_invD)
    show ?thesis by (rule market_sub [OF mk]) (use mk True in \<open>fastforce simp: v market_ok_def\<close>)
  qed (use engine_invD(3) [OF inv] in \<open>simp add: v\<close>)
  moreover have "me_resting_orders e' = word_of_nat (card (dom (me_orders e')))"
  proof -
    have "me_resting_orders e - word_of_nat 1 = word_of_nat (card (dom (without (me_orders e) {k})))"
      by (rule count_without [OF engine_invD(4) [OF inv] _ engine_invD(5) [OF inv]]) (use ref in auto)
    then have "me_resting_orders e - 1 = word_of_nat (card (dom (me_orders e')))" unfolding mo by simp
    moreover have "me_resting_orders e' = me_resting_orders e - 1" by (simp add: e')
    ultimately show ?thesis by simp
  qed
  ultimately show "engine_inv e'" using sv(1) engine_invD(4) [OF inv]
    by (simp add: engine_inv_def e')
qed

lemma live_order:
  assumes inv: "engine_inv e" and ref: "me_orders e k = Some ref"
  obtains b c sd b' where "book_for (rf_instrument_id ref) e = Some b" "book_inv b" "view e (rf_instrument_id ref) = orders_of b"
    "(rf_handle ref, c) \<in> set (view e (rf_instrument_id ref) sd)" "key_of c = k" "bo_side c = sd" "order_ok c"
    "at (rf_handle ref) b = Some c" "remove_at (rf_handle ref) b = Some (c, b')" "knows_instrument (rf_instrument_id ref) e"
proof -
  have ok: "books_ok e" using inv by (rule engine_invD)
  obtain sd c where c: "(rf_handle ref, c) \<in> set (view e (rf_instrument_id ref) sd)" "key_of c = k"
    using directoryD(1) [OF engine_invD(2) [OF inv] ref] by blast
  have i: "knows_instrument (rf_instrument_id ref) e" by (rule view_known [OF ok c(1)])
  obtain b where b: "book_for (rf_instrument_id ref) e = Some b" "book_inv b" "view e (rf_instrument_id ref) = orders_of b"
    by (rule known_book [OF ok i])
  have m: "(rf_handle ref, c) \<in> set (orders_of b sd)" using c(1) by (simp add: b(3))
  obtain b' where "remove_at (rf_handle ref) b = Some (c, b')" using ob.del [OF b(2) m] by blast
  moreover have "bo_side c = sd" using books_view(3) [OF ok c(1)] by simp
  moreover have "order_ok c" using engine_invD(3) [OF inv] c(1) by (fastforce simp: market_ok_def)
  ultimately show thesis using that [OF b c] ob.get [OF b(2) m] i by blast
qed


section \<open>Commands\<close>

lemma engine_inv_frame [simp]:
  "engine_inv (e\<lparr>me_next_event_sequence := n\<rparr>) = engine_inv e" "engine_inv (e\<lparr>me_next_exchange_order_id := x\<rparr>) = engine_inv e"
  "engine_inv (e\<lparr>me_next_priority := p\<rparr>) = engine_inv e" "engine_inv (fst (emit ev r)) = engine_inv (fst r)"
  by (simp_all add: engine_inv_def)

lemma same_registry_left [simp]:
  "same_registry (e\<lparr>me_next_event_sequence := n\<rparr>) e' = same_registry e e'"
  "same_registry (e\<lparr>me_next_exchange_order_id := x\<rparr>) e' = same_registry e e'"
  "same_registry (e\<lparr>me_next_priority := p\<rparr>) e' = same_registry e e'"
  "same_registry (fst (emit ev r)) e' = same_registry (fst r) e'"
  by (simp_all add: same_registry_def emit_def)

lemma room_frame [simp]:
  "room (e\<lparr>me_next_event_sequence := n\<rparr>) i = room e i" "room (e\<lparr>me_next_exchange_order_id := x\<rparr>) i = room e i"
  "room (e\<lparr>me_next_priority := p\<rparr>) i = room e i" "room (fst (emit ev r)) i = room (fst r) i"
  by (simp_all add: room_def)

lemma reject_frame [simp]:
  "engine_inv (fst (reject cs a c i reason r)) = engine_inv (fst r)" "same_registry e (fst (reject cs a c i reason r)) = same_registry e (fst r)"
  "view (fst (reject cs a c i reason r)) = view (fst r)" "me_orders (fst (reject cs a c i reason r)) = me_orders (fst r)"
  by (simp_all add: reject_def)

definition admissible_price :: "Price \<Rightarrow> bool" where
  "admissible_price p \<longleftrightarrow> sint p + 8192 < 2 ^ 63"

lemma admissible_ok: "admissible_price p \<Longrightarrow> \<not> sle p 0 \<Longrightarrow> price_ok p"
  by (auto simp: admissible_price_def price_ok_def signed_cmp)

definition new_order_of :: "NewOrderCommand \<Rightarrow> MatchingEngine \<Rightarrow> ExchangeRestingOrder" where
  "new_order_of cmd e =
     \<lparr>ro_exchange_order_id = me_next_exchange_order_id e, ro_client_order_id = nc_client_order_id cmd,
      ro_account_id = nc_account_id cmd, ro_price = nc_price cmd, ro_original_quantity = nc_quantity cmd,
      ro_remaining_quantity = nc_quantity cmd, ro_order_sequence = me_next_priority e,
      ro_instrument_id = nc_instrument_id cmd, ro_side = nc_side cmd, ro_time_in_force = nc_time_in_force cmd\<rparr>"

definition accepted_event :: "NewOrderCommand \<Rightarrow> ExchangeOrderId \<Rightarrow> EventSequence \<Rightarrow> ExchangeEvent" where
  "accepted_event cmd x n = EvAccepted \<lparr>oa_event_sequence = n, oa_command_sequence = nc_command_sequence cmd,
     oa_account_id = nc_account_id cmd, oa_client_order_id = nc_client_order_id cmd, oa_exchange_order_id = x,
     oa_instrument_id = nc_instrument_id cmd, oa_side = nc_side cmd, oa_price = nc_price cmd,
     oa_quantity = nc_quantity cmd, oa_order_type = nc_order_type cmd, oa_time_in_force = nc_time_in_force cmd\<rparr>"

definition new_order_reject :: "NewOrderCommand \<Rightarrow> MatchingEngine \<Rightarrow> RejectReason option" where
  \<comment> \<open>the checks of a new order, over the priority lists\<close>
  "new_order_reject cmd e =
     (if \<not> knows_instrument (nc_instrument_id cmd) e then Some InvalidInstrument
      else if sint (nc_price cmd) \<le> 0 then Some InvalidPrice
      else if nc_quantity cmd = 0 then Some InvalidQuantity
      else if me_orders e (live_key (nc_account_id cmd) (nc_client_order_id cmd)) \<noteq> None then Some DuplicateOrderId
      else if nc_time_in_force cmd = FOK \<and>
        cross_sum (contra_side (nc_side cmd)) (nc_price cmd) (nc_quantity cmd) 0
          (map snd (view e (nc_instrument_id cmd) (contra_side (nc_side cmd)))) < nc_quantity cmd
      then Some InsufficientLiquidity else None)"

lemma new_order_rejected:
  assumes "books_ok (fst r)" "new_order_reject cmd (fst r) = Some reason"
  shows "process_new_order cmd r = Some (reject_new_order cmd reason r)"
proof -
  have cr: "engine_crossable_quantity (nc_instrument_id cmd) (nc_side cmd) p q (fst r) =
      Some (cross_sum (contra_side (nc_side cmd)) p q 0 (map snd (view (fst r) (nc_instrument_id cmd) (contra_side (nc_side cmd)))))"
    if i: "knows_instrument (nc_instrument_id cmd) (fst r)" for p q
  proof -
    obtain b where "book_for (nc_instrument_id cmd) (fst r) = Some b" "book_inv b" "view (fst r) (nc_instrument_id cmd) = orders_of b"
      by (rule known_book [OF assms(1) i])
    then show ?thesis by (simp add: engine_crossable_quantity_def ob.crossable)
  qed
  show ?thesis using assms(2)
    by (auto simp: process_new_order_def new_order_reject_def reject_new_order_def Let_def signed_cmp cr split: if_splits)
qed

lemma new_order_accepted:
  assumes ok: "books_ok (fst r)" and no: "new_order_reject cmd (fst r) = None"
  shows "process_new_order cmd r = place_order (nc_command_sequence cmd) (new_order_of cmd (fst r))
      (emit (accepted_event cmd (me_next_exchange_order_id (fst r)))
        ((fst r)\<lparr>me_next_exchange_order_id := me_next_exchange_order_id (fst r) + 1,
                me_next_priority := me_next_priority (fst r) + 1\<rparr>, snd r))"
    "knows_instrument (nc_instrument_id cmd) (fst r)" "\<not> sle (nc_price cmd) 0" "nc_quantity cmd \<noteq> 0"
    "me_orders (fst r) (live_key (nc_account_id cmd) (nc_client_order_id cmd)) = None"
proof -
  show i: "knows_instrument (nc_instrument_id cmd) (fst r)" and p: "\<not> sle (nc_price cmd) 0" and q: "nc_quantity cmd \<noteq> 0"
    and n: "me_orders (fst r) (live_key (nc_account_id cmd) (nc_client_order_id cmd)) = None"
    using no by (auto simp: new_order_reject_def signed_cmp split: if_splits)
  obtain b where b: "book_for (nc_instrument_id cmd) (fst r) = Some b" "book_inv b" "view (fst r) (nc_instrument_id cmd) = orders_of b"
    by (rule known_book [OF ok i])
  have c: "engine_crossable_quantity (nc_instrument_id cmd) (nc_side cmd) (nc_price cmd) (nc_quantity cmd) (fst r) =
      Some (cross_sum (contra_side (nc_side cmd)) (nc_price cmd) (nc_quantity cmd) 0 (map snd (view (fst r) (nc_instrument_id cmd) (contra_side (nc_side cmd)))))"
    using b by (simp add: engine_crossable_quantity_def ob.crossable)
  have s: "\<not> (nc_time_in_force cmd = FOK \<and>
        cross_sum (contra_side (nc_side cmd)) (nc_price cmd) (nc_quantity cmd) 0
          (map snd (view (fst r) (nc_instrument_id cmd) (contra_side (nc_side cmd)))) < nc_quantity cmd)"
    using no i p q n by (auto simp: new_order_reject_def signed_cmp split: if_splits)
  show "process_new_order cmd r = place_order (nc_command_sequence cmd) (new_order_of cmd (fst r))
      (emit (accepted_event cmd (me_next_exchange_order_id (fst r)))
        ((fst r)\<lparr>me_next_exchange_order_id := me_next_exchange_order_id (fst r) + 1,
                me_next_priority := me_next_priority (fst r) + 1\<rparr>, snd r))"
    using i p q n s c
    by (cases "nc_time_in_force cmd = FOK")
       (simp_all add: process_new_order_def Let_def place_order_def new_order_of_def accepted_event_def [abs_def] cong: if_cong)
qed

lemma process_new_order_inv:
  assumes inv: "engine_inv (fst r)" and p: "admissible_price (nc_price cmd)" and rm: "room (fst r) (nc_instrument_id cmd)"
  shows "\<exists>r'. process_new_order cmd r = Some r' \<and> engine_inv (fst r') \<and> same_registry (fst r) (fst r')"
proof (cases "new_order_reject cmd (fst r)")
  case (Some reason)
  then show ?thesis using new_order_rejected [OF engine_invD(1) [OF inv]] inv by (simp add: reject_new_order_def)
next
  case None
  note acc = new_order_accepted [OF engine_invD(1) [OF inv] None]
  let ?r1 = "emit (accepted_event cmd (me_next_exchange_order_id (fst r)))
        ((fst r)\<lparr>me_next_exchange_order_id := me_next_exchange_order_id (fst r) + 1,
                me_next_priority := me_next_priority (fst r) + 1\<rparr>, snd r)"
  let ?o = "new_order_of cmd (fst r)"
  obtain fs q' es' where ml: "match_list (ro_side ?o) (ro_price ?o) (ro_remaining_quantity ?o)
      (view (fst ?r1) (ro_instrument_id ?o) (contra_side (ro_side ?o))) = (fs, q', es')"
    by (metis prod_cases3)
  show ?thesis unfolding acc(1)
  proof (rule place_order [OF _ _ _ _ _ ml, of "nc_command_sequence cmd"])
    show "engine_inv (fst ?r1)" using inv by simp
    show "knows_instrument (ro_instrument_id ?o) (fst ?r1)" using acc(2) by (simp add: new_order_of_def)
    show "price_ok (ro_price ?o)" using admissible_ok [OF p acc(3)] by (simp add: new_order_of_def)
    show "me_orders (fst ?r1) (order_key ?o) = None" using acc(5) by (simp add: new_order_of_def order_key_def)
    show "room (fst ?r1) (ro_instrument_id ?o)" using rm by (simp add: new_order_of_def)
  qed auto
qed

lemma process_cancel_inv:
  assumes inv: "engine_inv (fst r)"
  shows "\<exists>r'. process_cancel cmd r = Some r' \<and> engine_inv (fst r') \<and> same_registry (fst r) (fst r')"
proof (cases "knows_instrument (cc_instrument_id cmd) (fst r)")
  case known: True
  let ?k = "live_key (cc_account_id cmd) (cc_client_order_id cmd)"
  show ?thesis
  proof (cases "me_orders (fst r) ?k")
    case None
    then show ?thesis using known inv by (simp add: process_cancel_def Let_def)
  next
    case (Some ref)
    show ?thesis
    proof (cases "rf_instrument_id ref = cc_instrument_id cmd")
      case False
      then show ?thesis using known Some inv by (simp add: process_cancel_def Let_def)
    next
      case True
      obtain b c b' where b: "book_for (rf_instrument_id ref) (fst r) = Some b" "remove_at (rf_handle ref) b = Some (c, b')"
        by (rule live_order [OF inv Some]) (rule that)
      let ?e' = "(set_book (rf_instrument_id ref) b' (fst r))\<lparr>me_orders := (me_orders (fst r))(?k := None),
         me_resting_orders := me_resting_orders (fst r) - 1\<rparr>"
      note t = take_out [OF inv Some refl b]
      have comm: "set_book i b' ((fst r)\<lparr>me_orders := m, me_resting_orders := n\<rparr>) =
          (set_book i b' (fst r))\<lparr>me_orders := m, me_resting_orders := n\<rparr>" for i m n
        by (simp add: set_book_def split: option.split)
      show ?thesis using known Some True b t(1,2)
        by (simp add: process_cancel_def Let_def comm)
    qed
  qed
qed (use inv in \<open>simp add: process_cancel_def Let_def\<close>)

section \<open>Replacing an order\<close>

lemma directory_rekey:
  assumes ok: "directory_ok V m" and d: "handles_distinct (V i)" and c: "(x, c) \<in> set (V i sd)"
    and ref: "m (key_of c) = Some ref" "rf_handle ref = x" "rf_instrument_id ref = i"
    and f: "key_of (f c) = k'" and k': "m k' = None \<or> k' = key_of c"
  shows "directory_ok (V(i := (\<lambda>s. map (edit_entry x f) (V i s)))) (m(key_of c := None, k' \<mapsto> ref))"
    (is "directory_ok ?V ?m")
  unfolding directory_ok_def
proof (intro conjI allI impI)
  have one: "(x, e) \<in> set (V i s) \<Longrightarrow> e = c" for e s using handles_entry(1) [OF d c] by blast
  have keep: "(y, e) \<in> set (?V j s)" if "(y, e) \<in> set (V j s)" "j \<noteq> i \<or> y \<noteq> x" for y e j s
    using that by (force simp: edit_entry_def)
  { fix k r2 assume a: "?m k = Some r2"
    show "\<exists>s e. (rf_handle r2, e) \<in> set (?V (rf_instrument_id r2) s) \<and> key_of e = k"
    proof (cases "k = k'")
      case True
      have "edit_entry x f (x, c) \<in> set (?V i sd)" using c by auto
      then have "(x, f c) \<in> set (?V i sd)" by (simp add: edit_entry_def)
      moreover have "r2 = ref" using a True by simp
      ultimately show ?thesis using True f ref(2,3) by blast
    next
      case False
      then have m: "m k = Some r2" and kc: "k \<noteq> key_of c" using a by (auto split: if_splits)
      obtain s e where e: "(rf_handle r2, e) \<in> set (V (rf_instrument_id r2) s)" "key_of e = k"
        using directoryD(1) [OF ok m] by blast
      have "rf_instrument_id r2 \<noteq> i \<or> rf_handle r2 \<noteq> x" using one [of e s] e kc by auto
      then show ?thesis using keep [OF e(1)] e(2) by blast
    qed }
  { fix j s y e assume a: "(y, e) \<in> set (?V j s)"
    show "\<exists>r2. ?m (key_of e) = Some r2 \<and> rf_handle r2 = y \<and> rf_instrument_id r2 = j"
    proof (cases "j = i \<and> y = x")
      case True
      then have "(x, e) \<in> edit_entry x f ` set (V i s)" using a by simp
      then obtain e' where "(x, e') \<in> set (V i s)" "e = f e'" by (auto simp: edit_entry_def split: if_splits)
      then have "e = f c" using one by blast
      then show ?thesis using True f ref(2,3) by simp
    next
      case False
      have e: "(y, e) \<in> set (V j s)" using a False by (auto simp: edit_entry_def split: if_splits)
      obtain r2 where r2: "m (key_of e) = Some r2" "rf_handle r2 = y" "rf_instrument_id r2 = j"
        using directoryD(2) [OF ok e] by blast
      have "key_of e \<noteq> key_of c" using key_unique [OF ok c e] False by auto
      moreover have "key_of e \<noteq> k'" using r2(1) k' \<open>key_of e \<noteq> key_of c\<close> by auto
      ultimately show ?thesis using r2 by simp
    qed }
qed

lemma rekey_count:
  assumes "finite (dom m)" "m k = Some ref" "m k' = None \<or> k' = k"
  shows "card (dom (m(k := None, k' \<mapsto> ref))) = card (dom m)"
proof -
  have "0 < card (dom m)" using assms(1,2) by (auto simp: card_gt_0_iff)
  then show ?thesis using assms by (auto simp: card_insert_if domIff)
qed

definition new_id_free :: "ReplaceOrderCommand \<Rightarrow> MatchingEngine \<Rightarrow> bool" where
  "new_id_free cmd e \<longleftrightarrow>
     rc_new_client_order_id cmd = rc_original_client_order_id cmd \<or>
     me_orders e (live_key (rc_account_id cmd) (rc_new_client_order_id cmd)) = None"

text \<open>The events of a replace that keeps its place.\<close>

definition in_place_events :: "ReplaceOrderCommand \<Rightarrow> BookOrder \<Rightarrow> EventSequence \<Rightarrow> ExchangeEvent list" where
  "in_place_events cmd resting n =
      [EvReplaced \<lparr>op_event_sequence = n, op_command_sequence = rc_command_sequence cmd,
         op_account_id = rc_account_id cmd, op_original_client_order_id = rc_original_client_order_id cmd,
         op_new_client_order_id = rc_new_client_order_id cmd,
         op_exchange_order_id = bo_exchange_order_id resting, op_instrument_id = rc_instrument_id cmd,
         op_new_price = rc_new_price cmd, op_new_quantity = rc_new_quantity cmd\<rparr>,
       EvReduced \<lparr>br_event_sequence = n + 1, br_instrument_id = rc_instrument_id cmd,
             br_exchange_order_id = bo_exchange_order_id resting, br_side = bo_side resting,
             br_price = bo_price resting, br_new_remaining_quantity = rc_new_quantity cmd\<rparr>]"

definition edited_order :: "ReplaceOrderCommand \<Rightarrow> BookOrder \<Rightarrow> BookOrder" where
  "edited_order cmd e = set_client (rc_new_client_order_id cmd) (set_quantity (rc_new_quantity cmd) e)"

lemma edit_twice: "map (edit_entry x g) (map (edit_entry x f) l) = map (edit_entry x (\<lambda>e. g (f e))) l"
  by (simp add: edit_entry_def comp_def)

lemma replace_in_place_run:
  assumes ok: "books_ok (fst r)" and c: "(rf_handle ref, c) \<in> set (view (fst r) (rc_instrument_id cmd) sd)"
  obtains e' where "replace_in_place cmd ref resting r = Some (e', snd r @ in_place_events cmd resting (me_next_event_sequence (fst r)))"
    "books_ok e'" "same_registry (fst r) e'"
    "view e' = (view (fst r))(rc_instrument_id cmd :=
       (\<lambda>sd. map (edit_entry (rf_handle ref) (edited_order cmd)) (view (fst r) (rc_instrument_id cmd) sd)))"
    "me_orders e' = (me_orders (fst r))(live_key (rc_account_id cmd) (rc_original_client_order_id cmd) := None,
       live_key (rc_account_id cmd) (rc_new_client_order_id cmd) \<mapsto> ref)"
    "me_resting_orders e' = me_resting_orders (fst r)"
proof -
  let ?e = "fst r" and ?i = "rc_instrument_id cmd" and ?x = "rf_handle ref"
  have i: "knows_instrument ?i ?e" by (rule view_known [OF ok c])
  obtain b where b: "book_for ?i ?e = Some b" "book_inv b" "view ?e ?i = orders_of b" by (rule known_book [OF ok i])
  have m: "(?x, c) \<in> set (orders_of b sd)" using b(3) c by simp
  obtain b1 where b1: "reduce_at ?x (rc_new_quantity cmd) b = Some b1" "book_inv b1"
    "\<forall>s. orders_of b1 s = map (edit_entry ?x (set_quantity (rc_new_quantity cmd))) (orders_of b s)"
    using ob.requantify [OF b(2) m] by blast
  have "edit_entry ?x (set_quantity (rc_new_quantity cmd)) (?x, c) \<in> set (orders_of b1 sd)" using b1(3) m by auto
  then have m1: "(?x, set_quantity (rc_new_quantity cmd) c) \<in> set (orders_of b1 sd)" by (simp add: edit_entry_def)
  obtain b2 where b2: "set_client_order_id_at ?x (rc_new_client_order_id cmd) b1 = Some b2" "book_inv b2"
    "\<forall>s. orders_of b2 s = map (edit_entry ?x (set_client (rc_new_client_order_id cmd))) (orders_of b1 s)"
    using ob.rename [OF b1(2) m1] by blast
  have o2: "orders_of b2 = (\<lambda>s. map (edit_entry ?x (edited_order cmd)) (view ?e ?i s))"
    using b1(3) b2(3) by (simp add: fun_eq_iff edit_twice b(3) edited_order_def [abs_def] del: map_map)
  note sv = set_book_view [OF ok i b2(2), unfolded o2]
  let ?e2 = "(set_book ?i b2 ?e)\<lparr>me_orders := (me_orders ?e)(live_key (rc_account_id cmd) (rc_original_client_order_id cmd) := None,
       live_key (rc_account_id cmd) (rc_new_client_order_id cmd) \<mapsto> ref)\<rparr>"
  show thesis
    by (rule that [of "?e2\<lparr>me_next_event_sequence := me_next_event_sequence ?e + 2\<rparr>"])
       (use sv b(1) b1(1) b2(1) in \<open>simp_all add: replace_in_place_def in_place_events_def Let_def emit_def\<close>)
qed

lemma replace_in_place:
  assumes inv: "engine_inv (fst r)" and i: "rf_instrument_id ref = rc_instrument_id cmd"
    and ref: "me_orders (fst r) (live_key (rc_account_id cmd) (rc_original_client_order_id cmd)) = Some ref"
    and q: "rc_new_quantity cmd \<noteq> 0" and free: "new_id_free cmd (fst r)"
  obtains e' where "replace_in_place cmd ref resting r = Some (e', snd r @ in_place_events cmd resting (me_next_event_sequence (fst r)))"
    "engine_inv e'" "same_registry (fst r) e'"
    "view e' = (view (fst r))(rc_instrument_id cmd :=
       (\<lambda>sd. map (edit_entry (rf_handle ref) (edited_order cmd)) (view (fst r) (rc_instrument_id cmd) sd)))"
proof -
  let ?e = "fst r" and ?i = "rc_instrument_id cmd" and ?x = "rf_handle ref"
  let ?k = "live_key (rc_account_id cmd) (rc_original_client_order_id cmd)"
  let ?k' = "live_key (rc_account_id cmd) (rc_new_client_order_id cmd)"
  have ok: "books_ok ?e" using inv by (rule engine_invD)
  obtain c sd where c: "(?x, c) \<in> set (view ?e ?i sd)" "key_of c = ?k"
    using live_order [OF inv ref, unfolded i] by metis
  obtain e' where e': "replace_in_place cmd ref resting r = Some (e', snd r @ in_place_events cmd resting (me_next_event_sequence (fst r)))"
    "books_ok e'" "same_registry ?e e'"
    "view e' = (view ?e)(?i := (\<lambda>sd. map (edit_entry ?x (edited_order cmd)) (view ?e ?i sd)))"
    "me_orders e' = (me_orders ?e)(?k := None, ?k' \<mapsto> ref)" "me_resting_orders e' = me_resting_orders ?e"
    by (rule replace_in_place_run [OF ok c(1)])
  have free': "me_orders ?e ?k' = None \<or> ?k' = key_of c" using free c(2) by (auto simp: new_id_free_def)
  have kf: "key_of (edited_order cmd c) = ?k'"
    using c(2) by (simp add: key_of_def edited_order_def set_client_def set_quantity_def live_key_def)
  have hd: "handles_distinct (view ?e ?i)" by (rule books_view(1) [OF ok])
  have dir: "directory_ok (view e') (me_orders e')"
    using directory_rekey [where V = "view ?e" and i = ?i and f = "edited_order cmd", OF engine_invD(2) [OF inv] hd c(1) _ refl i kf free'] ref c(2)
    by (simp add: e'(4,5))
  have mk: "market_ok (view ?e ?i)" using inv by (rule engine_invD)
  have mi: "market_ok (\<lambda>s. map (edit_entry ?x (edited_order cmd)) (view ?e ?i s))"
  proof (rule market_sub [OF mk])
    fix s y assume "y \<in> set (map (edit_entry ?x (edited_order cmd)) (view ?e ?i s))"
    then obtain z where z: "z \<in> set (view ?e ?i s)" "y = edit_entry ?x (edited_order cmd) z" by auto
    then have "order_ok (snd z)" using mk by (auto simp: market_ok_def)
    then have "order_ok (snd y)" "bo_price (snd y) = bo_price (snd z)"
      using z(2) q by (auto simp: edit_entry_def order_ok_def edited_order_def set_client_def set_quantity_def word_gt_0)
    then show "order_ok (snd y) \<and> (\<exists>z \<in> set (view ?e ?i s). bo_price (snd z) = bo_price (snd y))" using z(1) by metis
  qed
  have "market_ok (view e' j)" for j
    using mi engine_invD(3) [OF inv, of j] by (cases "j = ?i") (simp_all add: e'(4))
  moreover have "card (dom (me_orders e')) = card (dom (me_orders ?e))"
    unfolding e'(5) by (rule rekey_count [OF engine_invD(4) [OF inv] ref]) (use free' c(2) in auto)
  moreover have "finite (dom (me_orders e'))" using engine_invD(4) [OF inv] by (simp add: e'(5))
  ultimately have "engine_inv e'" unfolding engine_inv_def using e'(2,6) dir engine_invD(5) [OF inv] by simp
  then show thesis by (rule that [OF e'(1) _ e'(3,4)])
qed

definition replacement_of :: "ReplaceOrderCommand \<Rightarrow> BookOrder \<Rightarrow> MatchingEngine \<Rightarrow> ExchangeRestingOrder" where
  "replacement_of cmd resting e =
     \<lparr>ro_exchange_order_id = me_next_exchange_order_id e, ro_client_order_id = rc_new_client_order_id cmd,
      ro_account_id = rc_account_id cmd, ro_price = rc_new_price cmd,
      ro_original_quantity = rc_new_quantity cmd, ro_remaining_quantity = rc_new_quantity cmd,
      ro_order_sequence = me_next_priority e, ro_instrument_id = rc_instrument_id cmd,
      ro_side = bo_side resting, ro_time_in_force = bo_time_in_force resting\<rparr>"

lemma replace_anew:
  assumes inv: "engine_inv (fst r)" and i: "rf_instrument_id ref = rc_instrument_id cmd"
    and ref: "me_orders (fst r) (live_key (rc_account_id cmd) (rc_original_client_order_id cmd)) = Some ref"
    and at: "(rf_handle ref, resting) \<in> set (view (fst r) (rc_instrument_id cmd) sd)"
    and p: "admissible_price (rc_new_price cmd)" "\<not> sle (rc_new_price cmd) 0"
    and free: "new_id_free cmd (fst r)" and room: "room (fst r) (rc_instrument_id cmd)"
  defines "v \<equiv> (\<lambda>s. filter (\<lambda>y. fst y \<noteq> rf_handle ref) (view (fst r) (rc_instrument_id cmd) s))"
  defines "order \<equiv> replacement_of cmd resting (fst r)"
  assumes ml: "match_list (bo_side resting) (rc_new_price cmd) (rc_new_quantity cmd) (v (contra_side (bo_side resting))) = (fs, q', es')"
  obtains x e' where "replace_anew cmd ref resting r = Some (e', snd r @
      [EvReplaced \<lparr>op_event_sequence = me_next_event_sequence (fst r), op_command_sequence = rc_command_sequence cmd,
         op_account_id = rc_account_id cmd, op_original_client_order_id = rc_original_client_order_id cmd,
         op_new_client_order_id = rc_new_client_order_id cmd,
         op_exchange_order_id = me_next_exchange_order_id (fst r), op_instrument_id = rc_instrument_id cmd,
         op_new_price = rc_new_price cmd, op_new_quantity = rc_new_quantity cmd\<rparr>,
       EvRemoved \<lparr>bx_event_sequence = me_next_event_sequence (fst r) + 1, bx_instrument_id = rc_instrument_id cmd,
             bx_exchange_order_id = bo_exchange_order_id resting, bx_side = bo_side resting,
             bx_price = bo_price resting\<rparr>] @
       placed_events (rc_command_sequence cmd) order (me_next_event_sequence (fst r) + 2) fs q')"
    "engine_inv e'" "same_registry (fst r) e'"
    "view e' = (view (fst r))(rc_instrument_id cmd := placed_sides order q' x es' v)"
proof -
  let ?e = "fst r" and ?i = "rc_instrument_id cmd" and ?x = "rf_handle ref"
  let ?k = "live_key (rc_account_id cmd) (rc_original_client_order_id cmd)"
  have ok: "books_ok ?e" using inv by (rule engine_invD)
  obtain b c b' where b: "book_for ?i ?e = Some b" "remove_at ?x b = Some (c, b')" "knows_instrument ?i ?e"
    using live_order [OF inv ref, unfolded i] by metis
  note t = take_out [OF inv ref refl b(1)[folded i] b(2), unfolded i]
  let ?e1 = "(set_book ?i b' ?e)\<lparr>me_orders := (me_orders ?e)(?k := None), me_resting_orders := me_resting_orders ?e - 1\<rparr>"
  let ?evs = "[EvReplaced \<lparr>op_event_sequence = me_next_event_sequence (fst r), op_command_sequence = rc_command_sequence cmd,
         op_account_id = rc_account_id cmd, op_original_client_order_id = rc_original_client_order_id cmd,
         op_new_client_order_id = rc_new_client_order_id cmd,
         op_exchange_order_id = me_next_exchange_order_id (fst r), op_instrument_id = rc_instrument_id cmd,
         op_new_price = rc_new_price cmd, op_new_quantity = rc_new_quantity cmd\<rparr>,
       EvRemoved \<lparr>bx_event_sequence = me_next_event_sequence (fst r) + 1, bx_instrument_id = rc_instrument_id cmd,
             bx_exchange_order_id = bo_exchange_order_id resting, bx_side = bo_side resting,
             bx_price = bo_price resting\<rparr>]"
  let ?e2 = "?e1\<lparr>me_next_exchange_order_id := me_next_exchange_order_id ?e + 1,
     me_next_event_sequence := me_next_event_sequence ?e + 2, me_next_priority := me_next_priority ?e + 1\<rparr>"
  let ?r = "(?e2, snd r @ ?evs)"
  have run: "replace_anew cmd ref resting r = place_order (rc_command_sequence cmd) order ?r"
    using b(1,2) by (simp add: replace_anew_def Let_def emit_def place_order_def order_def replacement_of_def add.commute [of 2])
  have ro: "ro_instrument_id order = ?i" "ro_side order = bo_side resting" "ro_price order = rc_new_price cmd"
    "ro_remaining_quantity order = rc_new_quantity cmd"
    "order_key order = live_key (rc_account_id cmd) (rc_new_client_order_id cmd)"
    by (simp_all add: order_def replacement_of_def order_key_def)
  have v2: "view ?e2 = (view ?e)(?i := v)" using t(3) by (simp add: v_def)
  have "length (v s) \<le> length (view ?e ?i s)" for s by (simp add: v_def)
  then have room2: "room ?e2 ?i" using room unfolding room_def v2
    by (metis (no_types, lifting) add_mono fun_upd_same le_less_trans)
  have new: "me_orders ?e2 (order_key order) = None" using free by (auto simp: ro(5) new_id_free_def)
  have inv2: "engine_inv ?e2" using t(1) by simp
  have k2: "knows_instrument (ro_instrument_id order) ?e2" using b(3) by (simp add: ro(1))
  show thesis
  proof (rule place_order [of ?r order fs q' es' "rc_command_sequence cmd"])
    show "match_list (ro_side order) (ro_price order) (ro_remaining_quantity order)
      (view (fst ?r) (ro_instrument_id order) (contra_side (ro_side order))) = (fs, q', es')"
      using ml unfolding fst_conv v2 ro by simp
    fix x e'
    assume a: "place_order (rc_command_sequence cmd) order ?r =
          Some (e', snd ?r @ placed_events (rc_command_sequence cmd) order (me_next_event_sequence (fst ?r)) fs q')"
      "engine_inv e'" "same_registry (fst ?r) e'"
      "view e' = (view (fst ?r))(ro_instrument_id order := placed_sides order q' x es' (view (fst ?r) (ro_instrument_id order)))"
    have "same_registry ?e e'" using same_registry_trans [OF _ a(3), of ?e] by simp
    moreover have "view e' = (view ?e)(?i := placed_sides order q' x es' v)" using a(4) unfolding fst_conv v2 ro(1) by simp
    ultimately show thesis using that [of e' x] a(1,2) run by simp
  qed (use inv2 k2 new room2 p admissible_ok in \<open>simp_all add: ro(1,3)\<close>)
qed

definition replace_reject :: "ReplaceOrderCommand \<Rightarrow> MatchingEngine \<Rightarrow> RejectReason option" where
  \<comment> \<open>the checks of a replace\<close>
  "replace_reject cmd e =
     (if \<not> knows_instrument (rc_instrument_id cmd) e then Some InvalidInstrument
      else if sint (rc_new_price cmd) \<le> 0 \<or> rc_new_quantity cmd = 0 then Some InvalidReplacement
      else (case me_orders e (live_key (rc_account_id cmd) (rc_original_client_order_id cmd)) of
              None \<Rightarrow> Some UnknownOrderId
            | Some ref \<Rightarrow> if rf_instrument_id ref \<noteq> rc_instrument_id cmd then Some UnknownOrderId else None))"

lemma replace_rejected:
  "replace_reject cmd (fst r) = Some reason \<Longrightarrow> process_replace cmd r = Some (reject_replace_order cmd reason r)"
  by (cases "me_orders (fst r) (live_key (rc_account_id cmd) (rc_original_client_order_id cmd))")
     (auto simp: process_replace_def replace_reject_def reject_replace_order_def Let_def signed_cmp split: if_splits)

lemma replace_found:
  assumes "replace_reject cmd (fst r) = None"
  obtains ref where "me_orders (fst r) (live_key (rc_account_id cmd) (rc_original_client_order_id cmd)) = Some ref"
    "rf_instrument_id ref = rc_instrument_id cmd" "\<not> sle (rc_new_price cmd) 0" "rc_new_quantity cmd \<noteq> 0"
    "knows_instrument (rc_instrument_id cmd) (fst r)"
  using assms by (cases "me_orders (fst r) (live_key (rc_account_id cmd) (rc_original_client_order_id cmd))")
    (auto simp: replace_reject_def signed_cmp split: if_splits)

lemma process_replace_inv:
  assumes inv: "engine_inv (fst r)" and p: "admissible_price (rc_new_price cmd)" and rm: "room (fst r) (rc_instrument_id cmd)"
    and free: "new_id_free cmd (fst r)"
  shows "\<exists>r'. process_replace cmd r = Some r' \<and> engine_inv (fst r') \<and> same_registry (fst r) (fst r')"
proof -
  let ?k = "live_key (rc_account_id cmd) (rc_original_client_order_id cmd)" and ?i = "rc_instrument_id cmd"
  show ?thesis
  proof (cases "replace_reject cmd (fst r)")
    case (Some reason)
    then show ?thesis using inv replace_rejected by (simp add: reject_replace_order_def)
  next
    case None
    obtain ref where found: "me_orders (fst r) ?k = Some ref" "rf_instrument_id ref = ?i"
        "\<not> sle (rc_new_price cmd) 0" "rc_new_quantity cmd \<noteq> 0" "knows_instrument ?i (fst r)"
      by (rule replace_found [OF None])
    obtain b c sd where b: "book_for ?i (fst r) = Some b" "(rf_handle ref, c) \<in> set (view (fst r) ?i sd)" "at (rf_handle ref) b = Some c"
      using live_order [OF inv found(1), unfolded found(2)] by metis
    have run: "process_replace cmd r =
        (if rc_new_price cmd = bo_price c \<and> rc_new_quantity cmd \<le> bo_remaining_quantity c
         then replace_in_place cmd ref c r else replace_anew cmd ref c r)"
      using found b by (simp add: process_replace_def Let_def)
    obtain fs q' es' where ml: "match_list (bo_side c) (rc_new_price cmd) (rc_new_quantity cmd)
        (filter (\<lambda>y. fst y \<noteq> rf_handle ref) (view (fst r) ?i (contra_side (bo_side c)))) = (fs, q', es')"
      by (metis prod_cases3)
    show ?thesis
    proof (cases "rc_new_price cmd = bo_price c \<and> rc_new_quantity cmd \<le> bo_remaining_quantity c")
      case True
      obtain e' x where "replace_in_place cmd ref c r = Some (e', x)" "engine_inv e'" "same_registry (fst r) e'"
        by (rule replace_in_place [OF inv found(2,1,4) free]) (rule that)
      then show ?thesis using run True by simp
    next
      case False
      obtain e' x where "replace_anew cmd ref c r = Some (e', x)" "engine_inv e'" "same_registry (fst r) e'"
        by (rule replace_anew [OF inv found(2,1) b(2) p found(3) free rm ml]) (rule that)
      then show ?thesis using run False by auto
    qed
  qed
qed

definition command_ok :: "ExchangeCommand \<Rightarrow> MatchingEngine \<Rightarrow> bool" where
  \<comment> \<open>prices clear of the top of the range, a free handle, and a replacement id that no other live order has\<close>
  "command_ok c e =
     (case c of
        NewOrderC cmd \<Rightarrow> admissible_price (nc_price cmd) \<and> room e (nc_instrument_id cmd)
      | CancelOrderC cmd \<Rightarrow> True
      | ReplaceOrderC cmd \<Rightarrow> admissible_price (rc_new_price cmd) \<and> room e (rc_instrument_id cmd) \<and> new_id_free cmd e)"

lemma process_run_inv:
  assumes "engine_inv (fst r)" "command_ok c (fst r)"
  shows "\<exists>r'. process_run c r = Some r' \<and> engine_inv (fst r') \<and> same_registry (fst r) (fst r')"
  using assms process_new_order_inv process_cancel_inv process_replace_inv by (cases c) (auto simp: command_ok_def)

section \<open>Registering instruments\<close>

text \<open>The index of the registry: the known instruments in ascending order, each with its slot.\<close>

definition index_inv :: "MatchingEngine \<Rightarrow> bool" where
  "index_inv e \<longleftrightarrow>
     sorted_wrt (<) (map fst (me_by_id e)) \<and>
     (\<forall>i s. (i, s) \<in> set (me_by_id e) \<longleftrightarrow> knows_instrument i e \<and> me_slot_of_id e ! unat i = s) \<and>
     length (me_by_id e) = length (me_books e) \<and> (\<forall>i. knows_instrument i e \<longrightarrow> i \<le> kMaxInstrumentId) \<and>
     64 dvd unat (me_band_ticks e) \<and> unat (me_band_ticks e) \<le> 8192"

lemma index_same: "same_registry e e' \<Longrightarrow> index_inv e \<Longrightarrow> index_inv e'"
  by (simp add: same_registry_def index_inv_def knows_instrument_def)

lemma set_insert_by_id: "set (insert_by_id x ys) = insert x (set ys)" "length (insert_by_id x ys) = Suc (length ys)"
  by (induction ys) auto

lemma sorted_insert_by_id:
  "sorted_wrt (<) (map fst ys) \<Longrightarrow> fst x \<notin> fst ` set ys \<Longrightarrow> sorted_wrt (<) (map fst (insert_by_id x ys))"
  by (induction ys) (auto simp: set_insert_by_id not_less order_le_less)

lemma kMax_value: "kMaxInstrumentId = 4194303"
  by (simp add: kMaxInstrumentId_def)

lemma books_bound:
  assumes "index_inv e"
  shows "length (me_books e) \<le> 2 ^ 22"
proof -
  have d: "distinct (map fst (me_by_id e))" using assms by (simp add: index_inv_def strict_sorted_iff)
  have "unat ` set (map fst (me_by_id e)) \<subseteq> {..< 2 ^ 22}"
  proof
    fix n assume "n \<in> unat ` set (map fst (me_by_id e))"
    then obtain i s where i: "n = unat i" "(i, s) \<in> set (me_by_id e)" by auto
    then have "i \<le> kMaxInstrumentId" using assms by (auto simp: index_inv_def)
    then show "n \<in> {..< 2 ^ 22}" by (simp add: i(1) kMax_value word_le_nat_alt)
  qed
  then have "card (unat ` set (map fst (me_by_id e))) \<le> 2 ^ 22"
    using card_mono [of "{..< 2 ^ 22 :: nat}"] by simp
  moreover have "card (unat ` set (map fst (me_by_id e))) = length (me_by_id e)"
    
  proof -
    have "inj_on unat (set (map fst (me_by_id e)))" by (intro inj_onI) (simp add: word_unat_eq_iff)
    then show ?thesis using distinct_card [OF d] by (simp only: card_image length_map)
  qed
  ultimately show ?thesis using assms by (simp add: index_inv_def)
qed

lemma register_known:
  assumes i: "unat i < length t'" and t': "t' = t @ replicate k kNoSlot" and s: "slot \<noteq> kNoSlot"
    and e': "me_slot_of_id e' = t'[unat i := slot]" and t: "t = me_slot_of_id e"
  shows "knows_instrument j e' \<longleftrightarrow> j = i \<or> knows_instrument j e"
    "knows_instrument j e' \<Longrightarrow> me_slot_of_id e' ! unat j = (if j = i then slot else me_slot_of_id e ! unat j)"
  using i s by (auto simp: knows_instrument_def e' t' t nth_list_update nth_append word_unat_eq_iff)

lemma register_instrument:
  assumes inv: "engine_inv e" and idx: "index_inv e" and new: "i \<le> kMaxInstrumentId" "\<not> knows_instrument i e"
  obtains e' where "register_instrument i e = (True, e')" "engine_inv e'" "index_inv e'"
    "knows_instrument j e' \<longleftrightarrow> j = i \<or> knows_instrument j e" "view e' = view e" "me_orders e' = me_orders e"
proof -
  let ?k = "unat i + 1 - length (me_slot_of_id e)" and ?slot = "word_of_nat (length (me_books e)) :: u32"
  let ?t = "me_slot_of_id e @ replicate ?k kNoSlot"
  let ?band = "min (me_band_ticks e) (word_of_nat (band_for (length (me_books e) + 1) kLadderByteBudget))"
  define e' where "e' = e\<lparr>me_slot_of_id := ?t[unat i := ?slot], me_books := me_books e @ [new_matching_book ?band],
                    me_band_ticks := ?band, me_by_id := insert_by_id (i, ?slot) (me_by_id e)\<rparr>"
  have run: "register_instrument i e = (True, e')" using new by (simp add: register_instrument_def Let_def e'_def)
  have nb: "length (me_books e) < 2 ^ 32 - 2" using books_bound [OF idx] by simp
  have us: "unat ?slot = length (me_books e)" using nb by (simp add: unat_of_nat)
  have sl: "?slot \<noteq> kNoSlot"
  proof
    assume "?slot = kNoSlot"
    then have "unat ?slot = unat kNoSlot" by simp
    then show False using nb unfolding us by (simp add: kNoSlot_value)
  qed
  have il: "unat i < length ?t" by simp
  have me: "me_slot_of_id e' = ?t[unat i := ?slot]" by (simp add: e'_def)
  note rk = register_known [OF il refl sl me refl]
  have reg: "registry_inv e" and bk: "\<forall>b \<in> set (me_books e). book_inv b" using inv by (simp_all add: engine_inv_def books_ok_def)
  have bd: "64 dvd unat ?band" "unat ?band \<le> 8192"
  proof -
    have "unat (word_of_nat (band_for n b) :: u32) = band_for n b" for n b
      using band_for_ok(2) [of n b] by (simp add: unat_of_nat)
    then show "64 dvd unat ?band" "unat ?band \<le> 8192"
      using band_for_ok idx by (auto simp: index_inv_def min_def word_le_nat_alt)
  qed
  note nbk = new_matching_book [OF bd]
  have old: "unat (me_slot_of_id e ! unat j) < length (me_books e)" if "knows_instrument j e" for j
    using reg that by (simp add: registry_inv_def)
  have reg': "registry_inv e'" unfolding registry_inv_def
  proof (intro conjI allI impI)
    fix j assume "knows_instrument j e'"
    then show "unat (me_slot_of_id e' ! unat j) < length (me_books e')" using rk [of j] old [of j] us by (auto simp: e'_def split: if_splits)
  next
    fix j k assume a: "knows_instrument j e'" "knows_instrument k e'" "me_slot_of_id e' ! unat j = me_slot_of_id e' ! unat k"
    show "j = k"
    proof (cases "j = i \<or> k = i")
      case True
      then show ?thesis using a rk [of j] rk [of k] old [of j] old [of k] us by (metis less_irrefl)
    next
      case False
      then show ?thesis using a rk [of j] rk [of k] reg by (auto simp: registry_inv_def)
    qed
  next
    show "length (me_books e') < 2 ^ 32 - 1" using nb by (simp add: e'_def)
  qed
  have bf: "book_for j e' = (if j = i then Some (new_matching_book ?band) else book_for j e)" for j
  proof (cases "knows_instrument j e'")
    case True
    then have "book_slot j e' = Some (unat (me_slot_of_id e' ! unat j))"
      using reg' by (auto simp: book_slot_def registry_inv_def knows_instrument_def)
    moreover have "j \<noteq> i \<Longrightarrow> book_slot j e = Some (unat (me_slot_of_id e ! unat j))"
      using True rk(1) [of j] old [of j] by (auto simp: book_slot_def knows_instrument_def)
    ultimately show ?thesis using True rk [of j] old [of j] us by (auto simp: book_for_def e'_def nth_append)
  next
    case False
    then have "book_slot j e' = None" "book_slot j e = None"
      using book_slot_unknown reg reg' rk(1) [of j] by blast+
    then show ?thesis using False rk(1) [of j] by (auto simp: book_for_def)
  qed
  have "book_for i e = None" using book_slot_unknown [OF reg new(2)] by (simp add: book_for_def)
  then have v: "view e' = view e" using nbk(2) by (auto simp: view_def bf fun_eq_iff)
  have o': "me_orders e' = me_orders e" "me_resting_orders e' = me_resting_orders e" by (simp_all add: e'_def)
  have "books_ok e'" using reg' bk nbk(1) by (auto simp: books_ok_def e'_def)
  then have inv': "engine_inv e'" using inv by (simp add: engine_inv_def v o')
  have "i \<notin> fst ` set (me_by_id e)" using idx new(2) by (auto simp: index_inv_def)
  then have srt: "sorted_wrt (<) (map fst (me_by_id e'))"
    using idx sorted_insert_by_id [of "me_by_id e" "(i, ?slot)"] by (simp add: index_inv_def e'_def)
  have mem: "(j, s) \<in> set (me_by_id e') \<longleftrightarrow> knows_instrument j e' \<and> me_slot_of_id e' ! unat j = s" for j s
  proof -
    have "(j, s) \<in> set (me_by_id e') \<longleftrightarrow> (j = i \<and> s = ?slot) \<or> (knows_instrument j e \<and> me_slot_of_id e ! unat j = s)"
      using idx by (auto simp: index_inv_def e'_def set_insert_by_id)
    then show ?thesis using rk [of j] new(2) by (cases "j = i") auto
  qed
  have "index_inv e'" unfolding index_inv_def
    using srt mem idx bd rk(1) new(1) by (auto simp: index_inv_def e'_def set_insert_by_id)
  then show thesis using that [OF run inv' _ rk(1) v o'(1)] by blast
qed

end
