(* ===== verification/EngineProperties.thy ===== *)
theory EngineProperties
  imports EngineInvariant
begin

text \<open>
  What the matching engine promises: engines that construction, registration and commands reach are well
  formed and every admissible command on them returns; the outcome of each command on every branch; the
  numbering of events; snapshots. One theorem shows what happens when a replace takes the id of another
  live order, which the engine does not check.
\<close>

lemma register_fold:
  assumes "engine_inv e" "index_inv e"
  shows "engine_inv (fold (\<lambda>i e. snd (register_instrument i e)) u e) \<and>
    index_inv (fold (\<lambda>i e. snd (register_instrument i e)) u e) \<and>
    view (fold (\<lambda>i e. snd (register_instrument i e)) u e) = view e \<and>
    me_orders (fold (\<lambda>i e. snd (register_instrument i e)) u e) = me_orders e \<and>
    (\<forall>j. knows_instrument j (fold (\<lambda>i e. snd (register_instrument i e)) u e) \<longleftrightarrow>
       knows_instrument j e \<or> j \<in> set u \<and> j \<le> kMaxInstrumentId)"
  using assms
proof (induction u arbitrary: e)
  case (Cons i u)
  show ?case
  proof (cases "kMaxInstrumentId < i \<or> knows_instrument i e")
    case True
    then have "register_instrument i e = (False, e)" by (simp add: register_instrument_def)
    then show ?thesis using Cons.IH [OF Cons.prems] True by auto
  next
    case False
    then have n: "i \<le> kMaxInstrumentId" "\<not> knows_instrument i e" by auto
    obtain e' where r: "register_instrument i e = (True, e')" "engine_inv e'" "index_inv e'" "view e' = view e" "me_orders e' = me_orders e"
      by (rule register_instrument [OF Cons.prems n]) (rule that)
    have k: "knows_instrument j e' \<longleftrightarrow> j = i \<or> knows_instrument j e" for j
      by (rule register_instrument [OF Cons.prems n, of j]) (use r(1) in auto)
    show ?thesis using Cons.IH [OF r(2,3)] n(1) by (auto simp: r(1,4,5) k)
  qed
qed simp

lemma blank_engine:
  assumes "me_slot_of_id e = replicate k kNoSlot" "me_books e = []" "me_by_id e = []" "me_orders e = Map.empty"
    "me_resting_orders e = 0" "64 dvd unat (me_band_ticks e)" "unat (me_band_ticks e) \<le> 8192"
  shows "engine_inv e" "index_inv e" "view e = (\<lambda>_ _. [])" "\<not> knows_instrument i e"
proof -
  show k: "\<not> knows_instrument i e" for i using assms(1) by (simp add: knows_instrument_def)
  have r: "registry_inv e" using assms(2) k by (simp add: registry_inv_def)
  then have "book_for i e = None" for i using book_slot_unknown k by (simp add: book_for_def)
  then show v: "view e = (\<lambda>_ _. [])" by (simp add: view_def fun_eq_iff)
  show "engine_inv e" using r assms by (simp add: engine_inv_def books_ok_def v directory_ok_def market_ok_def)
  show "index_inv e" using k assms by (simp add: index_inv_def)
qed

lemma new_matching_engine:
  shows "engine_inv (new_matching_engine u)" "index_inv (new_matching_engine u)"
    "view (new_matching_engine u) = (\<lambda>_ _. [])" "me_orders (new_matching_engine u) = Map.empty"
    "knows_instrument j (new_matching_engine u) \<longleftrightarrow> j \<in> set u \<and> j \<le> kMaxInstrumentId"
proof -
  let ?e = "\<lparr>me_slot_of_id = (if u \<noteq> [] then replicate (unat (widest_id u) + 1) kNoSlot else []),
        me_books = [],
        me_band_ticks = (if u \<noteq> [] then word_of_nat (band_for (length u) kLadderByteBudget)
                         else word_of_nat kMaxBandTicks),
        me_by_id = [], me_orders = Map.empty, me_resting_orders = 0,
        me_next_exchange_order_id = 1, me_next_event_sequence = 1, me_next_priority = 1\<rparr>"
  have t: "me_slot_of_id ?e = replicate (if u \<noteq> [] then unat (widest_id u) + 1 else 0) kNoSlot" by simp
  have w: "unat (word_of_nat (band_for n b) :: u32) = band_for n b" for n b
    using band_for_ok(2) [of n b] by (simp add: unat_of_nat)
  have b: "64 dvd unat (me_band_ticks ?e)" "unat (me_band_ticks ?e) \<le> 8192"
    using band_for_ok by (auto simp: w) (simp_all add: kMaxBandTicks_def)
  note bl = blank_engine [OF t _ _ _ _ b, simplified]
  show "engine_inv (new_matching_engine u)" "index_inv (new_matching_engine u)"
    "view (new_matching_engine u) = (\<lambda>_ _. [])" "me_orders (new_matching_engine u) = Map.empty"
    "knows_instrument j (new_matching_engine u) \<longleftrightarrow> j \<in> set u \<and> j \<le> kMaxInstrumentId"
    unfolding new_matching_engine_def using register_fold [OF bl(1,2), of u] bl(3,4) by auto
qed

section \<open>Event numbers\<close>

fun numbered :: "EventSequence \<Rightarrow> ExchangeEvent list \<Rightarrow> bool" where
  "numbered n [] = True"
| "numbered n (ev # evs) = (event_sequence_of ev = n \<and> numbered (n + 1) evs)"

definition emits :: "Run \<Rightarrow> Run \<Rightarrow> bool" where
  "emits r r' \<longleftrightarrow>
     (\<exists>evs. snd r' = snd r @ evs \<and> numbered (me_next_event_sequence (fst r)) evs \<and>
        me_next_event_sequence (fst r') = me_next_event_sequence (fst r) + word_of_nat (length evs))"

lemma numbered_append: "numbered n (xs @ ys) \<longleftrightarrow> numbered n xs \<and> numbered (n + word_of_nat (length xs)) ys"
  by (induction xs arbitrary: n) (auto simp: algebra_simps)

lemma emits_same: "snd r' = snd r \<Longrightarrow> me_next_event_sequence (fst r') = me_next_event_sequence (fst r) \<Longrightarrow> emits r r'"
  by (simp add: emits_def)

lemma emits_trans: "emits a b \<Longrightarrow> emits b c \<Longrightarrow> emits a c"
  unfolding emits_def by (auto simp: numbered_append)

lemma emits_emit: "(\<And>n. event_sequence_of (ev n) = n) \<Longrightarrow> emits r r' \<Longrightarrow> emits r (emit ev r')"
  by (rule emits_trans, assumption) (simp add: emits_def)

lemma emits_refl: "emits r r"
  by (simp add: emits_def)

lemma emits_frame:
  "emits r (fst r', snd r') = emits r r'" "emits r (e\<lparr>me_orders := a\<rparr>, evs) = emits r (e, evs)"
  "emits r (e\<lparr>me_resting_orders := b\<rparr>, evs) = emits r (e, evs)"
  "emits r (e\<lparr>me_next_exchange_order_id := x\<rparr>, evs) = emits r (e, evs)"
  "emits r (e\<lparr>me_next_priority := x\<rparr>, evs) = emits r (e, evs)" "emits r (set_book i bk e, evs) = emits r (e, evs)"
  by (simp_all add: emits_def)

lemmas emits_simps = emits_refl emits_frame emits_emit

lemma emits_reject: "emits r (reject cs a c i reason r)"
  unfolding reject_def by (simp add: emits_simps)

lemma emits_step: "match_step incoming cs contra r = Some (o', r') \<Longrightarrow> emits r r'"
  unfolding match_step_def Let_def
  by (auto simp: Option.bind_eq_Some_conv emits_simps simp del: emit_simps split: if_splits)

lemma emits_match: "match_and_rest cs incoming r = Some (o', r') \<Longrightarrow> emits r r'"
proof -
  have "emits r (snd y)" if "match_and_rest cs incoming r = Some y" for y
    using that
  proof (rule match_and_rest.raw_induct [of "\<lambda>cs incoming r y. emits r (snd y)", rotated])
    fix f cs incoming r y
    assume 1: "\<And>cs incoming r y. f cs incoming r = Some y \<Longrightarrow> emits r (snd y)"
      "(if ro_remaining_quantity incoming = 0 then Some (incoming, r)
        else do {
          book \<leftarrow> book_for (ro_instrument_id incoming) (fst r);
          front \<leftarrow> front_of_best (contra_side (ro_side incoming)) book;
          (case front of None \<Rightarrow> Some (incoming, r)
           | Some contra \<Rightarrow> if \<not> engine_crosses incoming contra then Some (incoming, r)
               else do { s \<leftarrow> match_step incoming cs contra r; f cs (fst s) (snd s) })
        }) = Some y"
    show "emits r (snd y)"
    proof (cases "ro_remaining_quantity incoming = 0")
      case True
      then show ?thesis using 1(2) by (auto simp: emits_refl)
    next
      case False
      then obtain b fr where bf: "book_for (ro_instrument_id incoming) (fst r) = Some b"
        "front_of_best (contra_side (ro_side incoming)) b = Some fr"
        using 1(2) by (auto simp: Option.bind_eq_Some_conv)
      show ?thesis
      proof (cases fr)
        case None
        then show ?thesis using 1(2) False bf by (auto simp: emits_refl)
      next
        case (Some contra)
        show ?thesis
        proof (cases "engine_crosses incoming contra")
          case True
          then obtain s where s: "match_step incoming cs contra r = Some s" "f cs (fst s) (snd s) = Some y"
            using 1(2) False bf Some by (auto simp: Option.bind_eq_Some_conv)
          then show ?thesis using emits_trans [OF emits_step 1(1) [OF s(2)]] by (metis prod.collapse)
        next
          case f: False
          then show ?thesis using 1(2) False bf Some by (auto simp: emits_refl)
        qed
      qed
    qed
  qed
  then show "match_and_rest cs incoming r = Some (o', r') \<Longrightarrow> emits r r'" by fastforce
qed

lemma emits_rest: "rest_remainder_if_applicable order r = Some r' \<Longrightarrow> emits r r'"
  unfolding rest_remainder_if_applicable_def Let_def
  by (auto simp: Option.bind_eq_Some_conv emits_simps simp del: emit_simps split: if_splits)

lemma emits_place:
  assumes "emits r r1" "place_order cs order r1 = Some r'"
  shows "emits r r'"
proof -
  obtain o' r2 where m: "match_and_rest cs order r1 = Some (o', r2)" "rest_remainder_if_applicable o' r2 = Some r'"
    using assms(2) by (auto simp: place_order_def Option.bind_eq_Some_conv)
  show ?thesis by (rule emits_trans [OF assms(1) emits_trans [OF emits_match [OF m(1)] emits_rest [OF m(2)]]])
qed

lemma emits_new_order: "process_new_order cmd r = Some r' \<Longrightarrow> emits r r'"
  unfolding process_new_order_def Let_def place_order_def [symmetric]
  by (auto simp: Option.bind_eq_Some_conv emits_reject emits_simps simp del: emit_simps split: if_splits elim: emits_place [rotated])

lemma emits_cancel: "process_cancel cmd r = Some r' \<Longrightarrow> emits r r'"
  unfolding process_cancel_def Let_def
  by (auto simp: Option.bind_eq_Some_conv emits_reject emits_simps simp del: emit_simps split: if_splits option.splits)

lemma emits_in_place: "replace_in_place cmd ref resting r = Some r' \<Longrightarrow> emits r r'"
  unfolding replace_in_place_def Let_def by (auto simp: Option.bind_eq_Some_conv emits_simps simp del: emit_simps)

lemma emits_anew: "replace_anew cmd ref resting r = Some r' \<Longrightarrow> emits r r'"
  unfolding replace_anew_def Let_def place_order_def [symmetric]
  by (auto simp: Option.bind_eq_Some_conv emits_simps simp del: emit_simps elim!: emits_place [rotated])

lemma emits_replace: "process_replace cmd r = Some r' \<Longrightarrow> emits r r'"
  unfolding process_replace_def Let_def
  by (auto simp: Option.bind_eq_Some_conv emits_reject emits_in_place emits_anew split: if_splits option.splits)

lemma emits_run: "process_run c r = Some r' \<Longrightarrow> emits r r'"
  by (cases c) (auto intro: emits_new_order emits_cancel emits_replace)

section \<open>Reachable engines\<close>

text \<open>Engines a server can be in: built over a universe, extended by instruments, stepped by commands.\<close>

inductive engine_reachable :: "MatchingEngine \<Rightarrow> bool" where
  start: "engine_reachable (new_matching_engine universe)"
| register: "engine_reachable e \<Longrightarrow> engine_reachable (snd (register_instrument i e))"
| step: "engine_reachable e \<Longrightarrow> command_ok c e \<Longrightarrow> process c e = Some (e', evs) \<Longrightarrow> engine_reachable e'"

lemma register_inv:
  assumes "engine_inv e" "index_inv e"
  shows "engine_inv (snd (register_instrument i e))" "index_inv (snd (register_instrument i e))"
  using register_fold [OF assms, of "[i]"] by simp_all

lemma reachable_inv: "engine_reachable e \<Longrightarrow> engine_inv e \<and> index_inv e"
proof (induction rule: engine_reachable.induct)
  case (start universe)
  show ?case using new_matching_engine(1,2) by blast
next
  case (register e i)
  then show ?case using register_inv by blast
next
  case (step e c e' evs)
  obtain r' where "process_run c (e, []) = Some r'" "engine_inv (fst r')" "same_registry e (fst r')"
    using process_run_inv [of "(e, [])" c] step by auto
  then show ?case using step index_same by (auto simp: process_def)
qed

section \<open>What traded\<close>

fun traded :: "ExchangeEvent list \<Rightarrow> nat" where
  "traded [] = 0"
| "traded (EvTrade t # evs) = unat (te_quantity t) + traded evs"
| "traded (_ # evs) = traded evs"

lemma traded_append: "traded (xs @ ys) = traded xs + traded ys"
  by (induction xs rule: traded.induct) simp_all

lemma traded_fills: "traded (fill_events order cs n fs) = sum_list (map fill_quantity fs)"
proof (induction fs arbitrary: order n)
  case (Cons f fs)
  obtain x e t where f: "f = (x, e, t)" by (cases f)
  have "traded (book_event i n f # evs) = traded evs" for i n evs by (simp add: book_event_def f)
  moreover have "traded (trade_event order cs n f # evs) = unat t + traded evs" for n evs
    by (simp add: trade_event_def f Let_def)
  ultimately show ?case using Cons by (simp add: fill_quantity_def f)
qed simp

definition book_quantity :: "(u32 \<times> BookOrder) list \<Rightarrow> nat" where
  "book_quantity ys = sum_list (map (\<lambda>y. unat (bo_remaining_quantity (snd y))) ys)"

lemma fok_fills:
  assumes inv: "engine_inv e" and p: "admissible_price (nc_price cmd)" and rm: "room e (nc_instrument_id cmd)"
    and ok: "new_order_reject cmd e = None" and fok: "nc_time_in_force cmd = FOK"
    and small: "book_quantity (view e (nc_instrument_id cmd) (contra_side (nc_side cmd))) < 2 ^ 64"
    and ml: "match_list (nc_side cmd) (nc_price cmd) (nc_quantity cmd)
      (view e (nc_instrument_id cmd) (contra_side (nc_side cmd))) = (fs, q', es')"
  shows "q' = 0"
proof -
  have q: "nc_quantity cmd \<noteq> 0" using new_order_accepted(4) [of "(e, [])"] engine_invD(1) [OF inv] ok by simp
  let ?s = "cross_sum (contra_side (nc_side cmd)) (nc_price cmd) (nc_quantity cmd) 0
          (map snd (view e (nc_instrument_id cmd) (contra_side (nc_side cmd))))"
  have "\<not> ?s < nc_quantity cmd"
    using ok fok by (auto simp: new_order_reject_def split: if_splits)
  moreover have "0 < nc_quantity cmd" using q by (simp add: word_gt_0)
  ultimately show ?thesis
    using cross_sum_covers [of 0 _ "nc_quantity cmd" "nc_side cmd" "nc_price cmd" fs q' es'] small ml
    by (simp add: book_quantity_def)
qed

text \<open>The whole outcome of an accepted new order.\<close>

lemma new_order_outcome:
  assumes inv: "engine_inv e" and p: "admissible_price (nc_price cmd)" and rm: "room e (nc_instrument_id cmd)"
    and ok: "new_order_reject cmd e = None"
    and ml: "match_list (nc_side cmd) (nc_price cmd) (nc_quantity cmd)
      (view e (nc_instrument_id cmd) (contra_side (nc_side cmd))) = (fs, q', es')"
  obtains x e' where "process (NewOrderC cmd) e = Some (e',
        accepted_event cmd (me_next_exchange_order_id e) (me_next_event_sequence e) #
        placed_events (nc_command_sequence cmd) (new_order_of cmd e) (me_next_event_sequence e + 1) fs q')"
    "engine_inv e'" "same_registry e e'"
    "view e' = (view e)(nc_instrument_id cmd := placed_sides (new_order_of cmd e) q' x es' (view e (nc_instrument_id cmd)))"
proof -
  let ?r = "(e, []) :: Run"
  have okr: "new_order_reject cmd (fst ?r) = None" and bk: "books_ok (fst ?r)" using ok engine_invD(1) [OF inv] by simp_all
  note acc = new_order_accepted [OF bk okr]
  let ?r1 = "emit (accepted_event cmd (me_next_exchange_order_id (fst ?r)))
        ((fst ?r)\<lparr>me_next_exchange_order_id := me_next_exchange_order_id (fst ?r) + 1,
                me_next_priority := me_next_priority (fst ?r) + 1\<rparr>, snd ?r)"
  let ?o = "new_order_of cmd (fst ?r)"
  show thesis
  proof (rule place_order [of ?r1 ?o fs q' es' "nc_command_sequence cmd"])
    fix x e'
    assume a: "place_order (nc_command_sequence cmd) ?o ?r1 =
        Some (e', snd ?r1 @ placed_events (nc_command_sequence cmd) ?o (me_next_event_sequence (fst ?r1)) fs q')"
      "engine_inv e'" "same_registry (fst ?r1) e'"
      "view e' = (view (fst ?r1))(ro_instrument_id ?o := placed_sides ?o q' x es' (view (fst ?r1) (ro_instrument_id ?o)))"
    show thesis
    proof (rule that [of e' x])
      show "process (NewOrderC cmd) e = Some (e',
        accepted_event cmd (me_next_exchange_order_id e) (me_next_event_sequence e) #
        placed_events (nc_command_sequence cmd) (new_order_of cmd e) (me_next_event_sequence e + 1) fs q')"
        using a(1) acc(1) by (simp add: process_def)
      show "view e' = (view e)(nc_instrument_id cmd := placed_sides (new_order_of cmd e) q' x es' (view e (nc_instrument_id cmd)))"
        using a(4) by (simp add: new_order_of_def)
      show "same_registry e e'" using a(3) by simp
    qed (rule a(2))
  qed (use inv acc(2,5) rm ml admissible_ok [OF p acc(3)] in \<open>simp_all add: new_order_of_def order_key_def\<close>)
qed

section \<open>Snapshots\<close>

definition instrument_snapshot :: "InstrumentId \<Rightarrow> MatchingEngine \<Rightarrow> InstrumentBookSnapshot option" where
  \<comment> \<open>both priority lists of an instrument, composed with the directory\<close>
  "instrument_snapshot i e = do {
     bids \<leftarrow> compose_all (map snd (view e i Buy)) i e;
     asks \<leftarrow> compose_all (map snd (view e i Sell)) i e;
     Some \<lparr>ib_instrument_id = i, ib_bids = bids, ib_asks = asks\<rparr>
   }"

lemma compose_all_total:
  assumes "directory_ok (view e) (me_orders e)" "set ys \<subseteq> set (view e i sd)"
  obtains rs where "compose_all (map snd ys) i e = Some rs" "length rs = length ys"
    "map ro_exchange_order_id rs = map (\<lambda>y. bo_exchange_order_id (snd y)) ys"
    "map ro_remaining_quantity rs = map (\<lambda>y. bo_remaining_quantity (snd y)) ys"
  using assms(2)
proof (induction ys arbitrary: thesis)
  case (Cons y ys)
  obtain x b where y: "y = (x, b)" by (cases y)
  obtain rs where rs: "compose_all (map snd ys) i e = Some rs" "length rs = length ys"
    "map ro_exchange_order_id rs = map (\<lambda>y. bo_exchange_order_id (snd y)) ys"
    "map ro_remaining_quantity rs = map (\<lambda>y. bo_remaining_quantity (snd y)) ys"
    using Cons.IH Cons.prems(2) by auto
  obtain ref where "me_orders e (key_of b) = Some ref"
    using directoryD(2) [OF assms(1), of x b i sd] Cons.prems(2) by (auto simp: y)
  then obtain r where "compose b i e = Some r" "ro_exchange_order_id r = bo_exchange_order_id b"
    "ro_remaining_quantity r = bo_remaining_quantity b" by (simp add: compose_def key_of_def)
  then show ?case using rs Cons.prems(1) by (simp add: y)
qed simp

lemma snapshot_of_total:
  assumes inv: "engine_inv e" "index_inv e" and sub: "set ids \<subseteq> set (me_by_id e)"
  obtains xs where "snapshot_of ids e = Some xs"
    "map (\<lambda>x. Some x) xs = map (\<lambda>x. instrument_snapshot (fst x) e) (filter (\<lambda>x. view e (fst x) Buy \<noteq> [] \<or> view e (fst x) Sell \<noteq> []) ids)"
  using sub
proof (induction ids arbitrary: thesis)
  case (Cons y ids)
  obtain i s where y: "y = (i, s)" by (cases y)
  obtain xs where xs: "snapshot_of ids e = Some xs"
    "map (\<lambda>x. Some x) xs = map (\<lambda>x. instrument_snapshot (fst x) e) (filter (\<lambda>x. view e (fst x) Buy \<noteq> [] \<or> view e (fst x) Sell \<noteq> []) ids)"
    using Cons.IH Cons.prems(2) by auto
  have k: "knows_instrument i e" "me_slot_of_id e ! unat i = s"
    using Cons.prems(2) inv(2) by (auto simp: y index_inv_def)
  have bk: "books_ok e" and dir: "directory_ok (view e) (me_orders e)" using inv(1) by (auto intro: engine_invD)
  obtain b where b: "book_for i e = Some b" "book_inv b" "view e i = orders_of b" by (rule known_book [OF bk k(1)])
  have s: "unat s < length (me_books e)" "me_books e ! unat s = b"
    using b(1) k(2) by (auto simp: book_for_def book_slot_def split: if_splits)
  obtain bids where bids: "compose_all (map snd (view e i Buy)) i e = Some bids" "length bids = length (view e i Buy)"
    by (rule compose_all_total [OF dir subset_refl]) (rule that)
  obtain asks where asks: "compose_all (map snd (view e i Sell)) i e = Some asks" "length asks = length (view e i Sell)"
    by (rule compose_all_total [OF dir subset_refl]) (rule that)
  have lst: "all_bids b = Some (map snd (view e i Buy))" "all_asks b = Some (map snd (view e i Sell))"
    using ob.listing [OF b(2)] by (simp_all add: all_bids_def all_asks_def b(3))
  have e: "bids = [] \<longleftrightarrow> view e i Buy = []" "asks = [] \<longleftrightarrow> view e i Sell = []" using bids(2) asks(2) by (metis length_0_conv)+
  have sn: "instrument_snapshot i e = Some \<lparr>ib_instrument_id = i, ib_bids = bids, ib_asks = asks\<rparr>"
    using bids(1) asks(1) by (simp add: instrument_snapshot_def)
  show ?case
  proof (cases "bids = [] \<and> asks = []")
    case True
    then have "snapshot_of (y # ids) e = Some xs" using s lst bids(1) asks(1) xs(1) by (simp add: y)
    then show ?thesis by (rule Cons.prems(1)) (use xs(2) True e in \<open>simp add: y\<close>)
  next
    case False
    then have "snapshot_of (y # ids) e = Some (\<lparr>ib_instrument_id = i, ib_bids = bids, ib_asks = asks\<rparr> # xs)"
      using s lst bids(1) asks(1) xs(1) by (auto simp: y)
    then show ?thesis by (rule Cons.prems(1)) (use xs(2) False e sn in \<open>auto simp: y\<close>)
  qed
qed simp

section \<open>Properties\<close>

text \<open>An engine with one instrument, and commands for it.\<close>

definition sample_engine :: MatchingEngine where
  "sample_engine = new_matching_engine [7]"

definition sample_new :: "Side \<Rightarrow> TimeInForce \<Rightarrow> ClientOrderId \<Rightarrow> Price \<Rightarrow> NewOrderCommand" where
  "sample_new sd tif c p = \<lparr>nc_command_sequence = 1, nc_account_id = 5, nc_client_order_id = c, nc_instrument_id = 7,
     nc_side = sd, nc_price = p, nc_quantity = 10, nc_order_type = Limit, nc_time_in_force = tif\<rparr>"

lemma sample_engine:
  "engine_inv sample_engine" "index_inv sample_engine" "engine_reachable sample_engine" "view sample_engine i sd = []"
  "me_orders sample_engine = Map.empty" "knows_instrument 7 sample_engine" "room sample_engine i"
  "admissible_price 100" "admissible_price 101"
  using new_matching_engine [where u = "[7]"] start [of "[7]"]
  by (simp_all add: sample_engine_def room_def kMax_value admissible_price_def)

lemma sample_accepted: "tif \<noteq> FOK \<Longrightarrow> new_order_reject (sample_new sd tif c 100) sample_engine = None"
  by (simp add: new_order_reject_def sample_engine sample_new_def)

text \<open>Two orders of one account that rest in one book.\<close>

definition sample_rests :: "MatchingEngine \<Rightarrow> Side \<Rightarrow> ClientOrderId \<Rightarrow> Price \<Rightarrow> bool" where
  "sample_rests e sd c p \<longleftrightarrow>
     (\<exists>(x, b) \<in> set (view e 7 sd). bo_account_id b = 5 \<and> bo_client_order_id b = c \<and> bo_price b = p \<and> bo_remaining_quantity b = 10)"

lemma sample_restsI:
  "(x, b) \<in> set (view e 7 sd) \<Longrightarrow> bo_account_id b = 5 \<Longrightarrow> bo_client_order_id b = c \<Longrightarrow> bo_price b = p \<Longrightarrow>
     bo_remaining_quantity b = 10 \<Longrightarrow> sample_rests e sd c p"
  by (auto simp: sample_rests_def)

lemma sample_two_orders:
  assumes p: "p = 101 \<or> p = 100 \<and> sd = Buy"
  obtains e where "engine_reachable e" "knows_instrument 7 e" "sample_rests e Buy 1 100" "sample_rests e sd 2 p" "room e 7"
proof -
  let ?c1 = "sample_new Buy GTC 1 100" and ?c2 = "sample_new sd GTC 2 p"
  have ap: "admissible_price p" "0 < sint p" using p sample_engine(8,9) by auto
  obtain x1 e1 where e1: "process (NewOrderC ?c1) sample_engine = Some (e1,
        accepted_event ?c1 (me_next_exchange_order_id sample_engine) (me_next_event_sequence sample_engine) #
        placed_events (nc_command_sequence ?c1) (new_order_of ?c1 sample_engine) (me_next_event_sequence sample_engine + 1) [] 10)"
    "engine_inv e1" "same_registry sample_engine e1"
    "view e1 = (view sample_engine)(7 := placed_sides (new_order_of ?c1 sample_engine) 10 x1 [] (view sample_engine 7))"
    by (rule new_order_outcome [of sample_engine ?c1 "[]" 10 "[]"])
       (use sample_engine sample_accepted [of GTC] in \<open>simp_all add: sample_new_def\<close>)
  define o1 where "o1 = resting_of (new_order_of ?c1 sample_engine) 10"
  have v1: "view e1 7 Buy = [(x1, o1)]" "view e1 7 Sell = []"
    by (simp_all add: o1_def e1(4) placed_sides_def new_order_of_def sample_new_def Let_def contra_side_def insert_order_def sample_engine)
  have other: "view e1 i s = []" if "i \<noteq> 7" for i s using that by (simp add: e1(4) sample_engine)
  have f1: "bo_account_id o1 = 5" "bo_client_order_id o1 = 1" "bo_price o1 = 100" "bo_remaining_quantity o1 = 10"
    by (simp_all add: o1_def resting_of_def new_order_of_def sample_new_def)
  have r1: "engine_reachable e1"
    by (rule engine_reachable.step [OF sample_engine(3) _ e1(1)]) (simp_all add: command_ok_def sample_new_def sample_engine)
  have k1: "knows_instrument 7 e1" using same_registry_knows [OF e1(3)] sample_engine(6) by simp
  have "me_orders e1 (live_key 5 2) = None"
  proof (rule ccontr)
    assume "me_orders e1 (live_key 5 2) \<noteq> None"
    then obtain ref where "me_orders e1 (live_key 5 2) = Some ref" by auto
    then obtain s e where m: "(rf_handle ref, e) \<in> set (view e1 (rf_instrument_id ref) s)" "key_of e = live_key 5 2"
      using directoryD(1) [OF engine_invD(2) [OF e1(2)]] by blast
    then have "e = o1" using v1 other by (cases "rf_instrument_id ref = 7"; cases s) auto
    then show False using m(2) f1(2) by (simp add: key_of_def live_key_def)
  qed
  then have acc: "new_order_reject ?c2 e1 = None" using k1 ap(2) by (simp add: new_order_reject_def sample_new_def)
  have rm: "room e1 7" by (simp add: room_def v1)
  have ml: "match_list (nc_side ?c2) (nc_price ?c2) (nc_quantity ?c2) (view e1 (nc_instrument_id ?c2) (contra_side (nc_side ?c2))) =
      ([], 10, view e1 7 (contra_side sd))"
    using p by (cases sd) (auto simp: sample_new_def contra_side_def v1 crosses_def signed_cmp f1(3))
  obtain x2 e2 where e2: "process (NewOrderC ?c2) e1 = Some (e2,
        accepted_event ?c2 (me_next_exchange_order_id e1) (me_next_event_sequence e1) #
        placed_events (nc_command_sequence ?c2) (new_order_of ?c2 e1) (me_next_event_sequence e1 + 1) [] 10)"
    "same_registry e1 e2"
    "view e2 = (view e1)(nc_instrument_id ?c2 := placed_sides (new_order_of ?c2 e1) 10 x2 (view e1 7 (contra_side sd)) (view e1 (nc_instrument_id ?c2)))"
    by (rule new_order_outcome [OF e1(2) _ _ acc ml]) (use ap rm in \<open>auto simp: sample_new_def intro: that\<close>)
  let ?o2 = "resting_of (new_order_of ?c2 e1) 10"
  have v2: "view e2 7 = (view e1 7)(sd := insert_order sd (x2, ?o2) (view e1 7 sd))"
    by (simp add: e2(3) sample_new_def placed_sides_def Let_def new_order_of_def fun_eq_iff)
  have "(x1, o1) \<in> set (view e2 7 Buy)" "(x2, ?o2) \<in> set (view e2 7 sd)" by (simp_all add: v2 set_insert_order v1)
  then have "sample_rests e2 Buy 1 100 \<and> sample_rests e2 sd 2 p"
    using f1 by (auto simp: resting_of_def new_order_of_def sample_new_def elim!: sample_restsI)
  moreover have "length (insert_order s y ys) = Suc (length ys)" for s y ys
    unfolding insert_order_def by (simp, metis length_append takeWhile_dropWhile_id)
  then have "room e2 7" by (cases sd) (simp_all add: room_def v2 v1)
  moreover have "engine_reachable e2"
    by (rule engine_reachable.step [OF r1 _ e2(1)]) (simp_all add: command_ok_def sample_new_def ap rm)
  moreover have "knows_instrument 7 e2" using same_registry_knows [OF e2(2)] k1 by simp
  ultimately show thesis using that by blast
qed

text \<open>
  C11. The engine never fails: in an engine that commands and registrations can reach, every admissible
  command returns (the matching loop ends, no slab slot, level or directory entry is used that is not
  there) and leaves a well-formed engine, whose directory and books name exactly the same live orders.
\<close>

theorem every_command_returns:
  assumes "engine_reachable e" "command_ok c e"
  shows "\<exists>e' evs. process c e = Some (e', evs) \<and> engine_reachable e' \<and> engine_inv e' \<and> same_registry e e'"
proof -
  have "engine_inv e" using reachable_inv assms(1) by blast
  then obtain r' where "process_run c (e, []) = Some r'" "engine_inv (fst r')" "same_registry e (fst r')"
    using process_run_inv [of "(e, [])" c] assms(2) by auto
  then have r: "process c e = Some (fst r', snd r')" "engine_inv (fst r')" "same_registry e (fst r')" by (simp_all add: process_def)
  then show ?thesis using engine_reachable.step [OF assms r(1)] by blast
qed

theorem every_command_returns_witness:
  "\<exists>e' evs. process (NewOrderC (sample_new Buy GTC 1 100)) sample_engine = Some (e', evs) \<and> engine_reachable e' \<and>
     engine_inv e' \<and> same_registry sample_engine e'"
  by (rule every_command_returns) (simp_all add: sample_engine command_ok_def, simp_all add: sample_new_def sample_engine)

text \<open>
  C25. A new order on every branch. The first failing check decides the rejection, which changes nothing
  but the event counter. Otherwise the engine accepts the order, fills it exactly as the reference
  matcher on the opposite priority list does, and rests what a GTC order has left behind the orders of
  its price; an IOC or FOK order leaves nothing.
\<close>

theorem new_order_follows_the_reference_matcher:
  assumes "engine_inv e" "admissible_price (nc_price cmd)" "room e (nc_instrument_id cmd)"
  shows "case new_order_reject cmd e of
      Some reason \<Rightarrow> process (NewOrderC cmd) e = Some (reject_new_order cmd reason (e, []))
    | None \<Rightarrow> \<exists>fs q' es' x e'.
        match_list (nc_side cmd) (nc_price cmd) (nc_quantity cmd)
          (view e (nc_instrument_id cmd) (contra_side (nc_side cmd))) = (fs, q', es') \<and>
        process (NewOrderC cmd) e = Some (e',
          accepted_event cmd (me_next_exchange_order_id e) (me_next_event_sequence e) #
          placed_events (nc_command_sequence cmd) (new_order_of cmd e) (me_next_event_sequence e + 1) fs q') \<and>
        view e' = (view e)(nc_instrument_id cmd := placed_sides (new_order_of cmd e) q' x es' (view e (nc_instrument_id cmd)))"
proof (cases "new_order_reject cmd e")
  case (Some reason)
  then show ?thesis using new_order_rejected [of "(e, [])"] engine_invD(1) [OF assms(1)] by (simp add: process_def)
next
  case None
  obtain fs q' es' where ml: "match_list (nc_side cmd) (nc_price cmd) (nc_quantity cmd)
      (view e (nc_instrument_id cmd) (contra_side (nc_side cmd))) = (fs, q', es')" by (metis prod_cases3)
  show ?thesis by (rule new_order_outcome [OF assms None ml]) (use None ml in auto)
qed

theorem new_order_follows_the_reference_matcher_witness:
  "\<exists>x e'. process (NewOrderC (sample_new Buy GTC 1 100)) sample_engine = Some (e',
       accepted_event (sample_new Buy GTC 1 100) (me_next_exchange_order_id sample_engine) (me_next_event_sequence sample_engine) #
       placed_events 1 (new_order_of (sample_new Buy GTC 1 100) sample_engine) (me_next_event_sequence sample_engine + 1) [] 10) \<and>
     view e' 7 Buy = [(x, resting_of (new_order_of (sample_new Buy GTC 1 100) sample_engine) 10)]"
  using new_order_follows_the_reference_matcher [of sample_engine "sample_new Buy GTC 1 100"]
  by (simp add: sample_engine sample_accepted)
     (auto simp: sample_new_def sample_engine placed_sides_def new_order_of_def Let_def insert_order_def contra_side_def)

text \<open>
  C12. Matching is price-time priority and loses no quantity: the loop returns, consumes a prefix of the
  opposite priority list, every fill is within the incoming limit and at most what the resting order
  has, all fills but the last are complete, what is filled plus what remains is what came in, and when
  something remains nothing that is left crosses.
\<close>

theorem matching_is_price_time_and_conserves:
  assumes "books_ok e" "knows_instrument (ro_instrument_id order) e"
  shows "\<exists>fs rest order' e' evs.
    match_and_rest cs order (e, []) = Some (order', (e', evs)) \<and>
    view e (ro_instrument_id order) (contra_side (ro_side order)) = map fill_entry fs @ rest \<and>
    evs = fill_events order cs (me_next_event_sequence e) fs \<and>
    (\<forall>(x, b, t) \<in> set fs. crosses (contra_side (ro_side order)) (ro_price order) (bo_price b) \<and> t \<le> bo_remaining_quantity b) \<and>
    (\<forall>(x, b, t) \<in> set (butlast fs). t = bo_remaining_quantity b) \<and>
    traded evs + unat (ro_remaining_quantity order') = unat (ro_remaining_quantity order) \<and>
    (ro_remaining_quantity order' \<noteq> 0 \<longrightarrow> uncrossed (view e' (ro_instrument_id order)) (ro_side order) (ro_price order))"
proof -
  let ?i = "ro_instrument_id order" and ?sd = "contra_side (ro_side order)"
  obtain fs q' es' where ml: "match_list (ro_side order) (ro_price order) (ro_remaining_quantity order) (view e ?i ?sd) = (fs, q', es')"
    by (metis prod_cases3)
  obtain e' where m: "match_and_rest cs order (e, []) = Some (order\<lparr>ro_remaining_quantity := q'\<rparr>,
      (e', fill_events order cs (me_next_event_sequence e) fs))" "matched e ?i ?sd fs es' e'"
    using match_and_rest_list [of "(e, [])" order, OF _ _ _ ml] assms by auto
  have me: "books_ok e'" "view e' = (view e)(?i := (view e ?i)(?sd := es'))" using m(2) by (simp_all only: matched_def)
  obtain rest where r: "view e ?i ?sd = map fill_entry fs @ rest"
    "\<forall>(x, b, t) \<in> set fs. crosses ?sd (ro_price order) (bo_price b) \<and> t \<le> bo_remaining_quantity b"
    "\<forall>(x, b, t) \<in> set (butlast fs). t = bo_remaining_quantity b"
    using match_fills [OF ml] by (fastforce dest: in_set_butlastD)
  have so: "sorted (map (entry_prio ?sd) es')" using books_view(2) [OF me(1), of ?sd ?i] by (simp add: me(2))
  have "q' \<noteq> 0 \<longrightarrow> uncrossed (view e' ?i) (ro_side order) (ro_price order)"
    using matched_uncrossed [where v = "view e ?i" and sd = "ro_side order", OF ml _ so] by (simp add: me(2))
  then show ?thesis using m(1) r match_conserves [OF ml]
    by (intro exI [of _ fs] exI [of _ rest] exI [of _ "order\<lparr>ro_remaining_quantity := q'\<rparr>"] exI [of _ e']
          exI [of _ "fill_events order cs (me_next_event_sequence e) fs"]) (simp add: traded_fills)
qed

theorem matching_is_price_time_and_conserves_witness:
  "\<exists>order' e' evs. match_and_rest 1 (new_order_of (sample_new Buy GTC 1 100) sample_engine) (sample_engine, []) = Some (order', (e', evs)) \<and>
     traded evs + unat (ro_remaining_quantity order') = 10"
  using matching_is_price_time_and_conserves [of sample_engine "new_order_of (sample_new Buy GTC 1 100) sample_engine" 1]
    engine_invD(1) [OF sample_engine(1)] sample_engine(6)
  by (simp add: new_order_of_def) (auto simp: sample_new_def)

text \<open>
  C13. A fill-or-kill order is all or nothing: provided the opposite side's quantities add up below 64
  bits, it is either rejected with the books untouched or filled for its whole quantity, and it never
  rests.
\<close>

theorem fok_is_all_or_nothing:
  assumes "engine_inv e" "admissible_price (nc_price cmd)" "room e (nc_instrument_id cmd)" "nc_time_in_force cmd = FOK"
    and "book_quantity (view e (nc_instrument_id cmd) (contra_side (nc_side cmd))) < 2 ^ 64"
  shows "\<exists>e' evs. process (NewOrderC cmd) e = Some (e', evs) \<and>
    (traded evs = 0 \<and> view e' = view e \<and> me_orders e' = me_orders e \<or> traded evs = unat (nc_quantity cmd)) \<and>
    (\<forall>a. EvAdded a \<notin> set evs)"
proof (cases "new_order_reject cmd e")
  case (Some reason)
  have "process (NewOrderC cmd) e = Some (reject_new_order cmd reason (e, []))"
    using new_order_rejected [of "(e, [])", OF _ ] engine_invD(1) [OF assms(1)] Some by (simp add: process_def)
  then show ?thesis by (simp add: reject_new_order_def reject_def emit_def)
next
  case None
  obtain fs q' es' where ml: "match_list (nc_side cmd) (nc_price cmd) (nc_quantity cmd)
      (view e (nc_instrument_id cmd) (contra_side (nc_side cmd))) = (fs, q', es')" by (metis prod_cases3)
  have q: "q' = 0" by (rule fok_fills [OF assms(1-3) None assms(4,5) ml])
  obtain x e' where r: "process (NewOrderC cmd) e = Some (e',
        accepted_event cmd (me_next_exchange_order_id e) (me_next_event_sequence e) #
        placed_events (nc_command_sequence cmd) (new_order_of cmd e) (me_next_event_sequence e + 1) fs q')"
    by (rule new_order_outcome [OF assms(1-3) None ml]) (rule that)
  have "EvAdded a \<notin> set (fill_events order cs n fs)" for a order cs n
    by (induction fs arbitrary: order n) (auto simp: trade_event_def book_event_def Let_def split: prod.splits)
  then show ?thesis using r q match_conserves [OF ml]
    by (simp add: placed_events_def accepted_event_def traded_fills)
qed

theorem fok_is_all_or_nothing_witness:
  "\<exists>e' evs. process (NewOrderC (sample_new Sell FOK 1 100)) sample_engine = Some (e', evs) \<and>
     (traded evs = 0 \<or> traded evs = 10) \<and> (\<forall>a. EvAdded a \<notin> set evs)"
  using fok_is_all_or_nothing [of sample_engine "sample_new Sell FOK 1 100"]
  by (simp add: sample_engine book_quantity_def) (force simp: sample_new_def sample_engine)

text \<open>
  C28. The book of a reachable engine never stands crossed: the best bid of an instrument is always below
  its best ask.
\<close>

theorem best_bid_below_best_ask:
  assumes "engine_reachable e" "book_for i e = Some b" "front_of_best Buy b = Some (Some bid)"
    "front_of_best Sell b = Some (Some ask)"
  shows "sint (bo_price bid) < sint (bo_price ask)"
proof -
  have inv: "engine_inv e" using reachable_inv assms(1) by blast
  have bk: "books_ok e" and mk: "market_ok (view e i)" using inv by (auto intro: engine_invD)
  have "registry_inv e" "book_slot i e \<noteq> None" using assms(2) bk by (auto simp: book_for_def books_ok_def)
  then have "knows_instrument i e" using book_slot_known by blast
  then have b: "book_inv b" "view e i = orders_of b" using known_book [OF bk] assms(2) by (metis option.inject)+
  have "orders_of b Buy \<noteq> []" "orders_of b Sell \<noteq> []" "bid = snd (hd (orders_of b Buy))" "ask = snd (hd (orders_of b Sell))"
    using ob.front [OF b(1), of Buy] ob.front [OF b(1), of Sell] assms(3,4)
    by (auto simp: hd_opt_def split: list.splits)
  then show ?thesis using mk by (simp add: market_ok_def b(2) sless_sint)
qed

theorem best_bid_below_best_ask_witness:
  "\<exists>e b bid ask. book_for 7 e = Some b \<and> front_of_best Buy b = Some (Some bid) \<and> front_of_best Sell b = Some (Some ask) \<and>
     sint (bo_price bid) < sint (bo_price ask)"
proof -
  obtain e where e: "engine_reachable e" "knows_instrument 7 e" "sample_rests e Buy 1 100" "sample_rests e Sell 2 101"
    by (rule sample_two_orders [of 101 Sell]) (rule disjI1 [OF refl])
  have ne: "view e 7 Buy \<noteq> []" "view e 7 Sell \<noteq> []" using e(3,4) by (auto simp: sample_rests_def)
  obtain b where b: "book_for 7 e = Some b" "book_inv b" "view e 7 = orders_of b"
    using known_book [OF _ e(2)] reachable_inv [OF e(1)] engine_invD(1) by metis
  obtain bid ask where f: "front_of_best Buy b = Some (Some bid)" "front_of_best Sell b = Some (Some ask)"
    using ob.front [OF b(2), of Buy] ob.front [OF b(2), of Sell] ne by (auto simp: b(3) hd_opt_def split: list.splits)
  show ?thesis using best_bid_below_best_ask [OF e(1) b(1) f] b(1) f by blast
qed

text \<open>
  C29. Events are numbered without gaps: whatever the engine and the command, the events of a command
  carry the consecutive sequence numbers from the engine's counter on, which ends up behind the last.
\<close>

theorem events_are_numbered_without_gaps:
  assumes "process c e = Some (e', evs)"
  shows "numbered (me_next_event_sequence e) evs \<and>
    me_next_event_sequence e' = me_next_event_sequence e + word_of_nat (length evs)"
  using emits_run [of c "(e, [])" "(e', evs)"] assms by (simp_all add: process_def emits_def)

theorem events_are_numbered_without_gaps_witness:
  "\<exists>e' ev. process (CancelOrderC \<lparr>cc_command_sequence = 1, cc_account_id = 5, cc_client_order_id = 9, cc_instrument_id = 7\<rparr>)
      sample_engine = Some (e', [ev]) \<and> event_sequence_of ev = me_next_event_sequence sample_engine"
proof -
  let ?c = "CancelOrderC \<lparr>cc_command_sequence = 1, cc_account_id = 5, cc_client_order_id = 9, cc_instrument_id = 7\<rparr>"
  obtain e' ev where p: "process ?c sample_engine = Some (e', [ev])"
    by (simp add: process_def process_cancel_def Let_def sample_engine reject_def emit_def)
  show ?thesis using events_are_numbered_without_gaps [OF p] p by auto
qed

lemma sample_live:
  assumes "engine_reachable e" "sample_rests e sd c p"
  obtains ref b where "me_orders e (live_key 5 c) = Some ref" "rf_instrument_id ref = 7" "(rf_handle ref, b) \<in> set (view e 7 sd)"
    "bo_price b = p" "bo_remaining_quantity b = 10" "key_of b = live_key 5 c" "bo_side b = sd"
proof -
  have inv: "engine_inv e" using reachable_inv [OF assms(1)] by simp
  obtain x b where b: "(x, b) \<in> set (view e 7 sd)" "bo_account_id b = 5" "bo_client_order_id b = c" "bo_price b = p" "bo_remaining_quantity b = 10"
    using assms(2) by (auto simp: sample_rests_def)
  have k: "key_of b = live_key 5 c" by (simp add: key_of_def b(2,3))
  obtain ref where "me_orders e (live_key 5 c) = Some ref" "rf_handle ref = x" "rf_instrument_id ref = 7"
    using directoryD(2) [OF engine_invD(2) [OF inv] b(1)] k by auto
  then show thesis using that [of ref b] b k books_view(3) [OF engine_invD(1) [OF inv] b(1)] by simp
qed

definition cancel_key :: "CancelOrderCommand \<Rightarrow> LiveKey" where
  "cancel_key cmd = live_key (cc_account_id cmd) (cc_client_order_id cmd)"

definition cancelled_events :: "CancelOrderCommand \<Rightarrow> BookOrder \<Rightarrow> EventSequence \<Rightarrow> ExchangeEvent list" where
  "cancelled_events cmd b n =
     [EvCancelled \<lparr>oc_event_sequence = n, oc_command_sequence = cc_command_sequence cmd,
        oc_account_id = cc_account_id cmd, oc_client_order_id = cc_client_order_id cmd,
        oc_exchange_order_id = bo_exchange_order_id b, oc_instrument_id = cc_instrument_id cmd\<rparr>,
      EvRemoved \<lparr>bx_event_sequence = n + 1, bx_instrument_id = cc_instrument_id cmd,
        bx_exchange_order_id = bo_exchange_order_id b, bx_side = bo_side b, bx_price = bo_price b\<rparr>]"

lemma cancel_found:
  assumes inv: "engine_inv e" and ref: "me_orders e (cancel_key cmd) = Some ref" and i: "rf_instrument_id ref = cc_instrument_id cmd"
  obtains b e' where "(rf_handle ref, b) \<in> set (view e (cc_instrument_id cmd) (bo_side b))" "key_of b = cancel_key cmd"
    "process (CancelOrderC cmd) e = Some (e', cancelled_events cmd b (me_next_event_sequence e))" "engine_inv e'"
    "view e' = (view e)(cc_instrument_id cmd := (\<lambda>sd. filter (\<lambda>y. fst y \<noteq> rf_handle ref) (view e (cc_instrument_id cmd) sd)))"
    "me_orders e' = (me_orders e)(cancel_key cmd := None)"
proof -
  let ?i = "cc_instrument_id cmd" and ?k = "cancel_key cmd"
  obtain bk c sd bk' where b: "book_for ?i e = Some bk" "(rf_handle ref, c) \<in> set (view e ?i sd)" "key_of c = ?k" "bo_side c = sd"
    "remove_at (rf_handle ref) bk = Some (c, bk')" "knows_instrument ?i e"
    using live_order [OF inv ref, unfolded i] by metis
  let ?e' = "(set_book ?i bk' e)\<lparr>me_orders := (me_orders e)(?k := None), me_resting_orders := me_resting_orders e - 1\<rparr>"
  note t = take_out [OF inv ref refl b(1)[folded i] b(5), unfolded i]
  have comm: "set_book i b' (e\<lparr>me_orders := m, me_resting_orders := n\<rparr>) =
      (set_book i b' e)\<lparr>me_orders := m, me_resting_orders := n\<rparr>" for i b' m n
    by (simp add: set_book_def split: option.split)
  have p: "process (CancelOrderC cmd) e = Some (?e'\<lparr>me_next_event_sequence := me_next_event_sequence e + 1 + 1\<rparr>,
      cancelled_events cmd c (me_next_event_sequence e))"
    using b(1,5,6) ref i by (simp add: process_def process_cancel_def Let_def cancel_key_def cancelled_events_def comm emit_def)
  show thesis by (rule that [OF _ b(3) p]) (use b(2,4) t(1,3) in simp_all)
qed

text \<open>
  C27. A cancel on every branch: an unknown instrument, an id that is not live or that is live on another
  instrument is rejected with nothing but the event counter changed; otherwise exactly that order leaves
  the book, every other order keeps its place, and the account is told before the book event.
\<close>

theorem cancel_takes_out_one_order:
  assumes "engine_inv e"
  shows "(\<not> knows_instrument (cc_instrument_id cmd) e \<longrightarrow>
      process (CancelOrderC cmd) e = Some (reject (cc_command_sequence cmd) (cc_account_id cmd) (cc_client_order_id cmd)
        (cc_instrument_id cmd) InvalidInstrument (e, []))) \<and>
    (knows_instrument (cc_instrument_id cmd) e \<and> (\<forall>ref. me_orders e (cancel_key cmd) = Some ref \<longrightarrow> rf_instrument_id ref \<noteq> cc_instrument_id cmd) \<longrightarrow>
      process (CancelOrderC cmd) e = Some (reject (cc_command_sequence cmd) (cc_account_id cmd) (cc_client_order_id cmd)
        (cc_instrument_id cmd) UnknownOrderId (e, []))) \<and>
    (\<forall>ref. me_orders e (cancel_key cmd) = Some ref \<and> rf_instrument_id ref = cc_instrument_id cmd \<longrightarrow>
      (\<exists>b e'. (rf_handle ref, b) \<in> set (view e (cc_instrument_id cmd) (bo_side b)) \<and> key_of b = cancel_key cmd \<and>
        process (CancelOrderC cmd) e = Some (e',
          cancelled_events cmd b (me_next_event_sequence e)) \<and>
        view e' = (view e)(cc_instrument_id cmd := (\<lambda>sd. filter (\<lambda>y. fst y \<noteq> rf_handle ref) (view e (cc_instrument_id cmd) sd))) \<and>
        me_orders e' = (me_orders e)(cancel_key cmd := None)))"
proof (intro conjI impI allI; (elim conjE)?)
  fix ref assume "me_orders e (cancel_key cmd) = Some ref" "rf_instrument_id ref = cc_instrument_id cmd"
  from cancel_found [OF assms this] show "\<exists>b e'. (rf_handle ref, b) \<in> set (view e (cc_instrument_id cmd) (bo_side b)) \<and>
      key_of b = cancel_key cmd \<and>
      process (CancelOrderC cmd) e = Some (e', cancelled_events cmd b (me_next_event_sequence e)) \<and>
      view e' = (view e)(cc_instrument_id cmd := (\<lambda>sd. filter (\<lambda>y. fst y \<noteq> rf_handle ref) (view e (cc_instrument_id cmd) sd))) \<and>
      me_orders e' = (me_orders e)(cancel_key cmd := None)"
    by metis
qed (auto simp: process_def process_cancel_def Let_def cancel_key_def split: option.split)

theorem cancel_takes_out_one_order_witness:
  "\<exists>e e' b. process (CancelOrderC \<lparr>cc_command_sequence = 3, cc_account_id = 5, cc_client_order_id = 1, cc_instrument_id = 7\<rparr>) e =
      Some (e', cancelled_events \<lparr>cc_command_sequence = 3, cc_account_id = 5, cc_client_order_id = 1, cc_instrument_id = 7\<rparr> b
        (me_next_event_sequence e)) \<and> key_of b = live_key 5 1 \<and>
      me_orders e (live_key 5 1) \<noteq> None \<and> me_orders e' (live_key 5 1) = None"
proof -
  let ?c = "\<lparr>cc_command_sequence = 3, cc_account_id = 5, cc_client_order_id = 1, cc_instrument_id = 7\<rparr>"
  obtain e where e: "engine_reachable e" "sample_rests e Buy 1 100" by (rule sample_two_orders [of 101 Sell]) auto
  have inv: "engine_inv e" using reachable_inv [OF e(1)] by simp
  obtain ref where ref: "me_orders e (live_key 5 1) = Some ref" "rf_instrument_id ref = 7"
    by (rule sample_live [OF e]) (rule that)
  have k: "cancel_key ?c = live_key 5 1" "cc_instrument_id ?c = 7" by (simp_all add: cancel_key_def)
  have "me_orders e (cancel_key ?c) = Some ref \<and> rf_instrument_id ref = cc_instrument_id ?c" using ref k by simp
  then obtain b e' where "key_of b = cancel_key ?c" "process (CancelOrderC ?c) e = Some (e', cancelled_events ?c b (me_next_event_sequence e))"
    "me_orders e' = (me_orders e)(cancel_key ?c := None)"
    using cancel_takes_out_one_order [OF inv, of ?c, THEN conjunct2, THEN conjunct2] by blast
  then show ?thesis using ref(1) k(1)
    by (intro exI [of _ e] exI [of _ e'] exI [of _ b]) simp
qed

definition replaced_events :: "ReplaceOrderCommand \<Rightarrow> BookOrder \<Rightarrow> ExchangeOrderId \<Rightarrow> EventSequence \<Rightarrow> ExchangeEvent list" where
  "replaced_events cmd resting x n =
     [EvReplaced \<lparr>op_event_sequence = n, op_command_sequence = rc_command_sequence cmd,
         op_account_id = rc_account_id cmd, op_original_client_order_id = rc_original_client_order_id cmd,
         op_new_client_order_id = rc_new_client_order_id cmd, op_exchange_order_id = x,
         op_instrument_id = rc_instrument_id cmd,
         op_new_price = rc_new_price cmd, op_new_quantity = rc_new_quantity cmd\<rparr>,
      EvRemoved \<lparr>bx_event_sequence = n + 1, bx_instrument_id = rc_instrument_id cmd,
         bx_exchange_order_id = bo_exchange_order_id resting, bx_side = bo_side resting, bx_price = bo_price resting\<rparr>]"

lemma replace_outcome:
  assumes "engine_inv e" "admissible_price (rc_new_price cmd)" "room e (rc_instrument_id cmd)" "new_id_free cmd e"
    and None: "replace_reject cmd e = None"
  shows "\<exists>ref b e' evs.
        me_orders e (live_key (rc_account_id cmd) (rc_original_client_order_id cmd)) = Some ref \<and>
        (rf_handle ref, b) \<in> set (view e (rc_instrument_id cmd) (bo_side b)) \<and>
        process (ReplaceOrderC cmd) e = Some (e', evs) \<and> engine_inv e' \<and>
        (if rc_new_price cmd = bo_price b \<and> rc_new_quantity cmd \<le> bo_remaining_quantity b
         then evs = in_place_events cmd b (me_next_event_sequence e) \<and>
           view e' = (view e)(rc_instrument_id cmd :=
             (\<lambda>sd. map (edit_entry (rf_handle ref) (edited_order cmd)) (view e (rc_instrument_id cmd) sd)))
         else (\<exists>v fs q' es' x. v = (\<lambda>sd. filter (\<lambda>y. fst y \<noteq> rf_handle ref) (view e (rc_instrument_id cmd) sd)) \<and>
           match_list (bo_side b) (rc_new_price cmd) (rc_new_quantity cmd) (v (contra_side (bo_side b))) = (fs, q', es') \<and>
           evs = replaced_events cmd b (me_next_exchange_order_id e) (me_next_event_sequence e) @
             placed_events (rc_command_sequence cmd) (replacement_of cmd b e) (me_next_event_sequence e + 2) fs q' \<and>
           view e' = (view e)(rc_instrument_id cmd := placed_sides (replacement_of cmd b e) q' x es' v)))"
proof -
  let ?i = "rc_instrument_id cmd" and ?r = "(e, []) :: Run"
  have none: "replace_reject cmd (fst ?r) = None" using None by simp
  obtain ref where f: "me_orders (fst ?r) (live_key (rc_account_id cmd) (rc_original_client_order_id cmd)) = Some ref"
    "rf_instrument_id ref = ?i" "\<not> sle (rc_new_price cmd) 0" "rc_new_quantity cmd \<noteq> 0" "knows_instrument ?i (fst ?r)"
    by (rule replace_found [OF none])
  have inv: "engine_inv (fst ?r)" and rm: "room (fst ?r) ?i" and free: "new_id_free cmd (fst ?r)" using assms by simp_all
  obtain bk b where b: "book_for ?i (fst ?r) = Some bk" "(rf_handle ref, b) \<in> set (view (fst ?r) ?i (bo_side b))" "at (rf_handle ref) bk = Some b"
    using live_order [OF inv f(1), unfolded f(2)] by metis
  have run: "process (ReplaceOrderC cmd) e =
        (if rc_new_price cmd = bo_price b \<and> rc_new_quantity cmd \<le> bo_remaining_quantity b
         then replace_in_place cmd ref b ?r else replace_anew cmd ref b ?r)"
    using f b by (simp add: process_def process_replace_def Let_def)
  show ?thesis
  proof (cases "rc_new_price cmd = bo_price b \<and> rc_new_quantity cmd \<le> bo_remaining_quantity b")
    case True
    show ?thesis
      by (rule replace_in_place [OF inv f(2,1,4) free, of b]) (use run True None f(1) b(2) in auto)
  next
    case False
    let ?v = "\<lambda>sd. filter (\<lambda>y. fst y \<noteq> rf_handle ref) (view (fst ?r) ?i sd)"
    obtain fs q' es' where ml: "match_list (bo_side b) (rc_new_price cmd) (rc_new_quantity cmd) (?v (contra_side (bo_side b))) = (fs, q', es')"
      by (metis prod_cases3)
    obtain x e' where e': "replace_anew cmd ref b ?r = Some (e', replaced_events cmd b (me_next_exchange_order_id e) (me_next_event_sequence e) @
        placed_events (rc_command_sequence cmd) (replacement_of cmd b e) (me_next_event_sequence e + 2) fs q')"
      "engine_inv e'" "view e' = (view e)(?i := placed_sides (replacement_of cmd b e) q' x es' ?v)"
      by (rule replace_anew [OF inv f(2,1) b(2) assms(2) f(3) free rm ml]) (simp add: replaced_events_def that)
    have "process (ReplaceOrderC cmd) e = replace_anew cmd ref b ?r" using run False by auto
    then show ?thesis using f(1) b(2) e' ml False unfolding fst_conv
      by (intro exI [of _ ref] exI [of _ b] exI [of _ e'] exI [of _ "replaced_events cmd b (me_next_exchange_order_id e) (me_next_event_sequence e) @
        placed_events (rc_command_sequence cmd) (replacement_of cmd b e) (me_next_event_sequence e + 2) fs q'"]) auto
  qed
qed

text \<open>
  C26. A replace on every branch, for a new id no other live order has. It is rejected for an unknown
  instrument, a price or quantity of zero or less and an order that is not live there; at the same price
  and at most the open quantity the order is edited where it stands and keeps its priority; otherwise it
  is taken out and matched and rested anew under a new exchange id, behind its price level.
\<close>

theorem replace_keeps_or_loses_priority:
  assumes "engine_inv e" "admissible_price (rc_new_price cmd)" "room e (rc_instrument_id cmd)" "new_id_free cmd e"
  shows "case replace_reject cmd e of
      Some reason \<Rightarrow> process (ReplaceOrderC cmd) e = Some (reject_replace_order cmd reason (e, []))
    | None \<Rightarrow> \<exists>ref b e' evs.
        me_orders e (live_key (rc_account_id cmd) (rc_original_client_order_id cmd)) = Some ref \<and>
        (rf_handle ref, b) \<in> set (view e (rc_instrument_id cmd) (bo_side b)) \<and>
        process (ReplaceOrderC cmd) e = Some (e', evs) \<and> engine_inv e' \<and>
        (if rc_new_price cmd = bo_price b \<and> rc_new_quantity cmd \<le> bo_remaining_quantity b
         then evs = in_place_events cmd b (me_next_event_sequence e) \<and>
           view e' = (view e)(rc_instrument_id cmd :=
             (\<lambda>sd. map (edit_entry (rf_handle ref) (edited_order cmd)) (view e (rc_instrument_id cmd) sd)))
         else (\<exists>v fs q' es' x. v = (\<lambda>sd. filter (\<lambda>y. fst y \<noteq> rf_handle ref) (view e (rc_instrument_id cmd) sd)) \<and>
           match_list (bo_side b) (rc_new_price cmd) (rc_new_quantity cmd) (v (contra_side (bo_side b))) = (fs, q', es') \<and>
           evs = replaced_events cmd b (me_next_exchange_order_id e) (me_next_event_sequence e) @
             placed_events (rc_command_sequence cmd) (replacement_of cmd b e) (me_next_event_sequence e + 2) fs q' \<and>
           view e' = (view e)(rc_instrument_id cmd := placed_sides (replacement_of cmd b e) q' x es' v)))"
proof (cases "replace_reject cmd e")
  case (Some reason)
  then show ?thesis using replace_rejected [of cmd "(e, [])"] by (simp add: process_def)
next
  case None
  show ?thesis unfolding None option.case by (rule replace_outcome [OF assms None])
qed

definition sample_replace :: "ClientOrderId \<Rightarrow> Quantity \<Rightarrow> ReplaceOrderCommand" where
  "sample_replace c q = \<lparr>rc_command_sequence = 3, rc_account_id = 5, rc_original_client_order_id = 1,
     rc_new_client_order_id = c, rc_instrument_id = 7, rc_new_price = 100, rc_new_quantity = q\<rparr>"

theorem replace_keeps_or_loses_priority_witness:
  "\<exists>e e' b. process (ReplaceOrderC (sample_replace 1 4)) e = Some (e', in_place_events (sample_replace 1 4) b (me_next_event_sequence e)) \<and>
     engine_inv e' \<and> bo_price b = 100"
proof -
  let ?c = "sample_replace 1 4"
  obtain e where e: "engine_reachable e" "knows_instrument 7 e" "sample_rests e Buy 1 100" "room e 7"
    by (rule sample_two_orders [of 101 Sell]) auto
  have inv: "engine_inv e" using reachable_inv [OF e(1)] by simp
  obtain ref b where b: "me_orders e (live_key 5 1) = Some ref" "rf_instrument_id ref = 7" "(rf_handle ref, b) \<in> set (view e 7 Buy)"
    "bo_price b = 100" "bo_remaining_quantity b = 10"
    by (rule sample_live [OF e(1,3)]) (rule that)
  have rej: "replace_reject ?c e = None" using e(2) b(1,2) by (simp add: replace_reject_def sample_replace_def)
  have adm: "admissible_price (rc_new_price ?c)" "room e (rc_instrument_id ?c)" using e(4) sample_engine(8) by (simp_all add: sample_replace_def)
  have free: "new_id_free ?c e" by (simp add: new_id_free_def sample_replace_def)
  have "\<exists>ref' b' e' evs. me_orders e (live_key 5 1) = Some ref' \<and> (rf_handle ref', b') \<in> set (view e 7 (bo_side b')) \<and>
      process (ReplaceOrderC ?c) e = Some (e', evs) \<and> engine_inv e' \<and>
      (100 = bo_price b' \<and> 4 \<le> bo_remaining_quantity b' \<longrightarrow> evs = in_place_events ?c b' (me_next_event_sequence e))"
    using replace_keeps_or_loses_priority [OF inv adm free] unfolding rej option.case
    by (fastforce simp: sample_replace_def split: if_splits)
  then obtain b' e' evs where r: "(rf_handle ref, b') \<in> set (view e 7 (bo_side b'))" "process (ReplaceOrderC ?c) e = Some (e', evs)"
    "engine_inv e'" "100 = bo_price b' \<and> 4 \<le> bo_remaining_quantity b' \<longrightarrow> evs = in_place_events ?c b' (me_next_event_sequence e)"
    using b(1) by auto
  have "b' = b" by (rule handles_entry(1) [OF books_view(1) [OF engine_invD(1) [OF inv]] b(3) r(1)])
  then show ?thesis using r(2-4) b(4,5) by auto
qed

text \<open>
  A replace may take an id that another live order of the account has: the check for a live new id is
  missing. The engine then overwrites that order's directory entry, so that the order still rests in the
  book under an id whose entry leads to the replaced order, and the directory no longer matches the books.
\<close>

theorem replace_onto_a_live_id_orphans_it:
  assumes "engine_inv e" "replace_reject cmd e = None"
    and "me_orders e (live_key (rc_account_id cmd) (rc_original_client_order_id cmd)) = Some ref"
    and "(rf_handle ref, b) \<in> set (view e (rc_instrument_id cmd) sd)"
    and "rc_new_price cmd = bo_price b" "rc_new_quantity cmd \<le> bo_remaining_quantity b"
    and "rc_new_client_order_id cmd \<noteq> rc_original_client_order_id cmd"
    and "me_orders e (live_key (rc_account_id cmd) (rc_new_client_order_id cmd)) = Some other"
  shows "\<exists>e' evs sd' c. process (ReplaceOrderC cmd) e = Some (e', evs) \<and>
    (rf_handle other, c) \<in> set (view e' (rf_instrument_id other) sd') \<and>
    key_of c = live_key (rc_account_id cmd) (rc_new_client_order_id cmd) \<and>
    me_orders e' (key_of c) = Some ref \<and> ref \<noteq> other \<and> \<not> directory_ok (view e') (me_orders e')"
proof -
  let ?i = "rc_instrument_id cmd" and ?r = "(e, []) :: Run"
  let ?k = "live_key (rc_account_id cmd) (rc_original_client_order_id cmd)"
  let ?k' = "live_key (rc_account_id cmd) (rc_new_client_order_id cmd)"
  have inv: "engine_inv (fst ?r)" and ok: "books_ok (fst ?r)" using assms(1) engine_invD(1) by simp_all
  have dir: "directory_ok (view e) (me_orders e)" using assms(1) by (rule engine_invD)
  have none: "replace_reject cmd (fst ?r) = None" using assms(2) by simp
  have f: "rf_instrument_id ref = ?i" "\<not> sle (rc_new_price cmd) 0" "rc_new_quantity cmd \<noteq> 0" "knows_instrument ?i e"
    using replace_found [OF none] assms(3) by auto
  have live: "me_orders (fst ?r) ?k = Some ref" using assms(3) by simp
  obtain bk c0 s0 where b: "book_for ?i e = Some bk" "(rf_handle ref, c0) \<in> set (view e ?i s0)" "at (rf_handle ref) bk = Some c0" "key_of c0 = ?k"
    using live_order [OF inv live, unfolded f(1) fst_conv] by metis
  have c0: "c0 = b" by (rule handles_entry(1) [OF books_view(1) [OF engine_invD(1) [OF assms(1)]] assms(4) b(2)])
  have run: "process (ReplaceOrderC cmd) e = replace_in_place cmd ref b ?r"
    using f assms(3,5,6) b(1,3) c0 by (simp add: process_def process_replace_def Let_def)
  have at: "(rf_handle ref, b) \<in> set (view (fst ?r) ?i sd)" using assms(4) by simp
  obtain e' where e': "replace_in_place cmd ref b ?r = Some (e', snd ?r @ in_place_events cmd b (me_next_event_sequence (fst ?r)))"
    "view e' = (view e)(?i := (\<lambda>sd. map (edit_entry (rf_handle ref) (edited_order cmd)) (view e ?i sd)))"
    "me_orders e' = (me_orders e)(?k := None, ?k' \<mapsto> ref)"
    by (rule replace_in_place_run [where resting = b, OF ok at]) (simp add: that)
  obtain sd' c where c: "(rf_handle other, c) \<in> set (view e (rf_instrument_id other) sd')" "key_of c = ?k'"
    using directoryD(1) [OF dir assms(8)] by blast
  have kk: "?k' \<noteq> ?k" using assms(7) by (simp add: live_key_def)
  have ne: "rf_instrument_id other \<noteq> ?i \<or> rf_handle other \<noteq> rf_handle ref"
  proof (rule ccontr)
    assume "\<not> ?thesis"
    then have "(rf_handle ref, c) \<in> set (view e ?i sd')" using c(1) by simp
    then have "c = b" by (rule handles_entry(1) [OF books_view(1) [OF engine_invD(1) [OF assms(1)]] assms(4)])
    then show False using c(2) b(4) c0 kk by simp
  qed
  have still: "(rf_handle other, c) \<in> set (view e' (rf_instrument_id other) sd')"
    using c(1) ne by (cases "rf_instrument_id other = ?i") (force simp: e'(2) edit_entry_def)+
  have m': "me_orders e' (key_of c) = Some ref" by (simp add: e'(3) c(2))
  have "ref \<noteq> other" using ne f(1) by auto
  moreover have "\<not> directory_ok (view e') (me_orders e')"
  proof
    assume d: "directory_ok (view e') (me_orders e')"
    show False using directoryD(2) [OF d still] m' ne f(1) by auto
  qed
  ultimately show ?thesis using run e'(1) still c(2) m'
    by (intro exI [of _ e'] exI [of _ "in_place_events cmd b (me_next_event_sequence e)"] exI [of _ sd'] exI [of _ c]) simp
qed

theorem replace_onto_a_live_id_orphans_it_witness:
  "\<exists>e e' evs. engine_reachable e \<and> process (ReplaceOrderC (sample_replace 2 4)) e = Some (e', evs) \<and>
     \<not> directory_ok (view e') (me_orders e')"
proof -
  let ?c = "sample_replace 2 4"
  obtain e where e: "engine_reachable e" "knows_instrument 7 e" "sample_rests e Buy 1 100" "sample_rests e Buy 2 100"
    by (rule sample_two_orders [of 100 Buy]) auto
  have inv: "engine_inv e" using reachable_inv [OF e(1)] by simp
  obtain ref b where b: "me_orders e (live_key 5 1) = Some ref" "rf_instrument_id ref = 7" "(rf_handle ref, b) \<in> set (view e 7 Buy)"
    "bo_price b = 100" "bo_remaining_quantity b = 10"
    by (rule sample_live [OF e(1,3)]) (rule that)
  obtain other where o2: "me_orders e (live_key 5 2) = Some other" by (rule sample_live [OF e(1,4)]) (rule that)
  have "replace_reject ?c e = None" using e(2) b(1,2) by (simp add: replace_reject_def sample_replace_def)
  then have "\<exists>e' evs. process (ReplaceOrderC ?c) e = Some (e', evs) \<and> \<not> directory_ok (view e') (me_orders e')"
    using replace_onto_a_live_id_orphans_it [OF inv, of ?c ref b Buy other] b o2
    by (simp add: sample_replace_def) blast
  then show ?thesis using e(1) by blast
qed

text \<open>
  A snapshot never throws and lists, for every instrument with resting orders in ascending order of
  its id, both priority lists, each order composed with its directory entry.
\<close>

theorem snapshot_lists_the_priority_lists:
  assumes "engine_reachable e"
  shows "\<exists>xs. snapshot e = Some \<lparr>es_instruments = xs\<rparr> \<and> sorted_wrt (<) (map ib_instrument_id xs) \<and>
    map Some xs = map (\<lambda>i. instrument_snapshot i e)
      (filter (\<lambda>i. view e i Buy \<noteq> [] \<or> view e i Sell \<noteq> []) (map fst (me_by_id e)))"
proof -
  have inv: "engine_inv e" "index_inv e" using reachable_inv [OF assms] by simp_all
  obtain xs where xs: "snapshot_of (me_by_id e) e = Some xs"
    "map (\<lambda>x. Some x) xs = map (\<lambda>x. instrument_snapshot (fst x) e) (filter (\<lambda>x. view e (fst x) Buy \<noteq> [] \<or> view e (fst x) Sell \<noteq> []) (me_by_id e))"
    by (rule snapshot_of_total [OF inv subset_refl])
  let ?f = "filter (\<lambda>i. view e i Buy \<noteq> [] \<or> view e i Sell \<noteq> []) (map fst (me_by_id e))"
  have m: "map Some xs = map (\<lambda>i. instrument_snapshot i e) ?f" using xs(2) by (simp add: filter_map comp_def)
  have id: "instrument_snapshot i e = Some x \<Longrightarrow> ib_instrument_id x = i" for i x
    by (auto simp: instrument_snapshot_def Option.bind_eq_Some_conv)
  have "map Some xs = map (\<lambda>i. instrument_snapshot i e) is \<Longrightarrow> map ib_instrument_id xs = is" for xs "is"
  proof (induction xs arbitrary: "is")
    case (Cons x xs)
    then show ?case using id by (cases "is") auto
  qed simp
  then have "map ib_instrument_id xs = ?f" using m by blast
  moreover have "sorted_wrt (<) ?f" using inv(2) by (simp add: index_inv_def sorted_wrt_filter)
  ultimately show ?thesis using xs(1) m by (simp add: snapshot_def)
qed

theorem snapshot_lists_the_priority_lists_witness:
  "snapshot sample_engine = Some \<lparr>es_instruments = []\<rparr>"
  using snapshot_lists_the_priority_lists [OF sample_engine(3)] by (simp add: sample_engine(4))

end
