(* ===== verification/Risk.thy ===== *)
theory Risk
  imports Ledger EngineProperties
begin

text \<open>
  \<open>RiskEngine\<close> and \<open>RiskGatedEngine\<close> of \<open>src/include/exchange/risk/\<close> and \<open>src/src/exchange/risk/\<close>.
  The gated engine feeds each event to the ledger and then to its caller; the engine never reads the
  ledger while it processes a command, so folding the events over the ledger afterwards is the same.
\<close>

section \<open>Checks\<close>

record RiskLimits =
  rl_max_order_quantity :: Quantity

definition default_limits :: RiskLimits where
  "default_limits = \<lparr>rl_max_order_quantity = 1000000\<rparr>"

definition check_new_order :: "RiskLimits \<Rightarrow> NewOrderCommand \<Rightarrow> Ledger \<Rightarrow> RejectReason" where
  "check_new_order limits cmd l =
     (if rl_max_order_quantity limits < nc_quantity cmd then OrderTooLarge
      else if nc_side cmd = Buy
      then (let notional = nc_quantity cmd * nc_price cmd
            in if sless (available_cash (nc_account_id cmd) l) notional then InsufficientFunds else NoReason)
      else if available_position (nc_account_id cmd) (nc_instrument_id cmd) l < nc_quantity cmd then InsufficientPosition
      else NoReason)"

definition smax :: "i64 \<Rightarrow> i64 \<Rightarrow> i64" where
  \<comment> \<open>\<open>std::max\<close> on \<open>Balance\<close>\<close>
  "smax a b = (if sless a b then b else a)"

definition check_replace :: "RiskLimits \<Rightarrow> ReplaceOrderCommand \<Rightarrow> Ledger \<Rightarrow> RejectReason" where
  "check_replace limits cmd l =
     (if rl_max_order_quantity limits < rc_new_quantity cmd then OrderTooLarge
      else (case find_hold (rc_account_id cmd) (rc_original_client_order_id cmd) l of
              None \<Rightarrow> NoReason
            | Some h \<Rightarrow>
                if hd_instrument_id h \<noteq> rc_instrument_id cmd then NoReason
                else if hd_side h = Buy
                then (let old_required = hd_remaining h * hd_limit_price h;
                          new_required = rc_new_quantity cmd * rc_new_price cmd;
                          extra_required = smax 0 (new_required - old_required)
                      in if sless (available_cash (rc_account_id cmd) l) extra_required then InsufficientFunds else NoReason)
                else (let extra_required = (if hd_remaining h < rc_new_quantity cmd
                                            then rc_new_quantity cmd - hd_remaining h else 0)
                      in if available_position (rc_account_id cmd) (rc_instrument_id cmd) l < extra_required
                         then InsufficientPosition else NoReason)))"

section \<open>The gated engine\<close>

record RiskGatedEngine =
  ge_engine :: MatchingEngine
  ge_ledger :: Ledger
  ge_limits :: RiskLimits

definition gated_reject :: "Run \<Rightarrow> RiskGatedEngine \<Rightarrow> RiskGatedEngine \<times> ExchangeEvent list" where
  \<comment> \<open>a rejection goes to the caller only\<close>
  "gated_reject r g = (g\<lparr>ge_engine := fst r\<rparr>, snd r)"

definition gated_forward :: "ExchangeCommand \<Rightarrow> RiskGatedEngine \<Rightarrow> (RiskGatedEngine \<times> ExchangeEvent list) option" where
  "gated_forward c g = do {
     (e', evs) \<leftarrow> process c (ge_engine g);
     Some (g\<lparr>ge_engine := e', ge_ledger := fold apply_event evs (ge_ledger g)\<rparr>, evs)
   }"

fun gated_process :: "ExchangeCommand \<Rightarrow> RiskGatedEngine \<Rightarrow> (RiskGatedEngine \<times> ExchangeEvent list) option" where
  "gated_process (NewOrderC cmd) g =
     (let e = ge_engine g
      in if \<not> knows_instrument (nc_instrument_id cmd) e
         then Some (gated_reject (reject_new_order cmd InvalidInstrument (e, [])) g)
         else let reason = check_new_order (ge_limits g) cmd (ge_ledger g)
              in if reason \<noteq> NoReason then Some (gated_reject (reject_new_order cmd reason (e, [])) g)
                 else gated_forward (NewOrderC cmd) g)"
| "gated_process (ReplaceOrderC cmd) g =
     (let e = ge_engine g
      in if \<not> knows_instrument (rc_instrument_id cmd) e
         then Some (gated_reject (reject_replace_order cmd InvalidInstrument (e, [])) g)
         else let reason = check_replace (ge_limits g) cmd (ge_ledger g)
              in if reason \<noteq> NoReason then Some (gated_reject (reject_replace_order cmd reason (e, [])) g)
                 else gated_forward (ReplaceOrderC cmd) g)"
| "gated_process (CancelOrderC cmd) g = gated_forward (CancelOrderC cmd) g"

section \<open>What a passed check means\<close>

lemma notional_int: "(q :: u64) * p = word_of_int (int (unat q) * sint p)"
proof -
  have "(word_of_nat (unat q) :: u64) = q" by (simp add: of_nat_unat)
  then show ?thesis by (simp add: wi_hom_syms)
qed

lemma smax_bound: "sint a \<le> sint (smax a b)" "sint b \<le> sint (smax a b)"
  by (auto simp: smax_def sless_sint)

lemma available_after_open:
  "q \<noteq> 0 \<Longrightarrow> available_cash x (open_hold a c i sd p q l) = available_cash x l - (if x = a \<and> sd = Buy then q * p else 0)"
  "q \<noteq> 0 \<Longrightarrow> available_position x j (open_hold a c i sd p q l) =
     available_position x j l - (if x = a \<and> j = i \<and> sd = Sell then q else 0)"
  by (auto simp: available_balances open_hold_def Let_def)

definition accepted_of :: "NewOrderCommand \<Rightarrow> OrderAccepted" where
  "accepted_of cmd = \<lparr>oa_event_sequence = 0, oa_command_sequence = nc_command_sequence cmd,
     oa_account_id = nc_account_id cmd, oa_client_order_id = nc_client_order_id cmd, oa_exchange_order_id = 0,
     oa_instrument_id = nc_instrument_id cmd, oa_side = nc_side cmd, oa_price = nc_price cmd,
     oa_quantity = nc_quantity cmd, oa_order_type = nc_order_type cmd, oa_time_in_force = nc_time_in_force cmd\<rparr>"

section \<open>Properties\<close>

definition sample_limits_order :: "Price \<Rightarrow> Quantity \<Rightarrow> NewOrderCommand" where
  "sample_limits_order p q = \<lparr>nc_command_sequence = 1, nc_account_id = 5, nc_client_order_id = 1, nc_instrument_id = 7,
     nc_side = Buy, nc_price = p, nc_quantity = q, nc_order_type = Limit, nc_time_in_force = GTC\<rparr>"

text \<open>
  C24. No double spend below the wrap: take a good-till-cancelled order with a non-negative price whose notional,
  price times quantity, is below \<open>2 ^ 63\<close>. If it passes the check it is funded: after its acceptance has opened the hold,
  what is available is reduced by exactly the notional (a buy) or the quantity (a sell), without wrapping, and what
  is left of the cash is not negative. (Above the bound this is false: \<open>wrapped_notional_passes_without_funds\<close>. Orders
  of other kinds open no hold.)
\<close>

theorem passed_orders_are_funded:
  assumes "check_new_order limits cmd l = NoReason" "nc_time_in_force cmd = GTC" "nc_quantity cmd \<noteq> 0"
    and "0 \<le> sint (nc_price cmd)" "int (unat (nc_quantity cmd)) * sint (nc_price cmd) < 2 ^ 63"
  defines "l' \<equiv> apply_event (EvAccepted (accepted_of cmd)) l"
  shows "unat (nc_quantity cmd) \<le> unat (rl_max_order_quantity limits) \<and>
    (if nc_side cmd = Buy
     then sint (available_cash (nc_account_id cmd) l') =
         sint (available_cash (nc_account_id cmd) l) - int (unat (nc_quantity cmd)) * sint (nc_price cmd) \<and>
       0 \<le> sint (available_cash (nc_account_id cmd) l')
     else unat (available_position (nc_account_id cmd) (nc_instrument_id cmd) l') + unat (nc_quantity cmd) =
         unat (available_position (nc_account_id cmd) (nc_instrument_id cmd) l))"
proof -
  let ?a = "nc_account_id cmd" and ?q = "nc_quantity cmd" and ?p = "nc_price cmd" and ?i = "nc_instrument_id cmd"
  let ?n = "int (unat ?q) * sint ?p"
  have size: "unat ?q \<le> unat (rl_max_order_quantity limits)"
    using assms(1) by (simp add: check_new_order_def word_le_nat_alt not_less split: if_splits)
  have l': "l' = open_hold ?a (nc_client_order_id cmd) ?i (nc_side cmd) ?p ?q l"
    using assms(2) by (simp add: l'_def on_order_accepted_def accepted_of_def)
  show ?thesis
  proof (cases "nc_side cmd = Buy")
    case True
    have "?q * ?p = word_of_int ?n" by (rule notional_int)
    moreover have n0: "0 \<le> ?n" using assms(4) by simp
    ultimately have n: "sint (?q * ?p) = ?n" using assms(5) sint_word_of_int_64 [of ?n] int_pows by simp
    have "\<not> sless (available_cash ?a l) (?q * ?p)" using assms(1) True by (simp add: check_new_order_def split: if_splits)
    then have le: "?n \<le> sint (available_cash ?a l)" by (simp add: sless_sint n not_less)
    have "sint (available_cash ?a l - ?q * ?p) = sint (available_cash ?a l) - ?n"
      using le n0 sint_bounds_64 [of "available_cash ?a l"] unfolding n [symmetric] int_pows
      by (intro sint_minus_64) (simp_all add: int_pows)
    then show ?thesis using True size le assms(3) by (simp add: l' available_after_open)
  next
    case False
    then have "?q \<le> available_position ?a ?i l" using assms(1) by (auto simp: check_new_order_def not_less split: if_splits)
    then show ?thesis using False size assms(3) by (simp add: l' available_after_open unat_minus_64 word_le_nat_alt)
  qed
qed

theorem passed_orders_are_funded_witness:
  "sint (available_cash 5 (apply_event (EvAccepted (accepted_of (sample_limits_order 100 10))) (deposit_cash 5 5000 empty_ledger))) = 4000"
proof -
  have c: "available_cash 5 (deposit_cash 5 5000 empty_ledger) = 5000"
    by (simp add: available_balances deposit_cash_def) (simp add: balances_def empty_ledger_def no_balances_def)
  have "check_new_order default_limits (sample_limits_order 100 10) (deposit_cash 5 5000 empty_ledger) = NoReason"
    using c by (simp add: check_new_order_def sample_limits_order_def default_limits_def sless_sint)
  from passed_orders_are_funded [OF this] c show ?thesis by (simp add: sample_limits_order_def)
qed

text \<open>
  A replace that passes the check stays funded: with in-range notionals and available cash that is
  not negative, releasing the original hold and opening the new one leaves available cash (or units, for
  a sell) not negative.
\<close>

theorem passed_replaces_are_funded:
  assumes "check_replace limits cmd l = NoReason" "find_hold (rc_account_id cmd) (rc_original_client_order_id cmd) l = Some h"
    and "hd_instrument_id h = rc_instrument_id cmd" "hd_side h = Buy" "hd_remaining h \<noteq> 0" "rc_new_quantity cmd \<noteq> 0"
    and "0 \<le> sint (available_cash (rc_account_id cmd) l)"
    and "0 \<le> sint (rc_new_price cmd)" "int (unat (rc_new_quantity cmd)) * sint (rc_new_price cmd) < 2 ^ 63"
    and "0 \<le> sint (hd_limit_price h)" "int (unat (hd_remaining h)) * sint (hd_limit_price h) < 2 ^ 62"
    and "sint (available_cash (rc_account_id cmd) l) < 2 ^ 62"
    and "op_account_id ev = rc_account_id cmd" "op_original_client_order_id ev = rc_original_client_order_id cmd"
    and "op_instrument_id ev = rc_instrument_id cmd" "op_new_price ev = rc_new_price cmd" "op_new_quantity ev = rc_new_quantity cmd"
  shows "sint (available_cash (rc_account_id cmd) (apply_event (EvReplaced ev) l)) =
      sint (available_cash (rc_account_id cmd) l) + int (unat (hd_remaining h)) * sint (hd_limit_price h) -
      int (unat (rc_new_quantity cmd)) * sint (rc_new_price cmd) \<and>
    0 \<le> sint (available_cash (rc_account_id cmd) (apply_event (EvReplaced ev) l))"
proof -
  let ?a = "rc_account_id cmd" and ?av = "available_cash (rc_account_id cmd) l"
  let ?old = "hd_remaining h * hd_limit_price h" and ?new = "rc_new_quantity cmd * rc_new_price cmd"
  let ?o = "int (unat (hd_remaining h)) * sint (hd_limit_price h)" and ?n = "int (unat (rc_new_quantity cmd)) * sint (rc_new_price cmd)"
  have b: "0 \<le> ?o" "0 \<le> ?n" "?o < 2 ^ 62" "?n < 2 ^ 63" "0 \<le> sint ?av" "sint ?av < 2 ^ 62" using assms by simp_all
  have o: "sint ?old = ?o" and n: "sint ?new = ?n"
  proof -
    have "?old = word_of_int ?o" "?new = word_of_int ?n" by (rule notional_int)+
    then show "sint ?old = ?o" "sint ?new = ?n" using b sint_word_of_int_64 [of ?o] sint_word_of_int_64 [of ?n] by simp_all
  qed
  have d: "sint (?new - ?old) = ?n - ?o"
    using b unfolding o [symmetric] n [symmetric] by (intro sint_minus_64) (simp_all add: int_pows)
  have "\<not> sless ?av (smax 0 (?new - ?old))"
    using assms(1-4) by (simp add: check_replace_def Let_def split: if_splits)
  then have le: "?n - ?o \<le> sint ?av" using smax_bound(2) [of "?new - ?old" 0] by (simp add: sless_sint d)
  have "available_cash ?a (apply_event (EvReplaced ev) l) = ?av + ?old - ?new"
    using assms(2,4-6,13-17) by (simp add: on_order_replaced_def Let_def find_hold_def available_after_open)
      (simp add: available_balances release_hold_fully_def)
  moreover have "sint (?av + ?old) = sint ?av + ?o"
    using b unfolding o [symmetric] by (intro sint_plus_64) (simp_all add: int_pows)
  moreover have "sint (?av + ?old - ?new) = sint (?av + ?old) - ?n"
    using b le calculation(2) unfolding n [symmetric] by (intro sint_minus_64) (simp_all add: int_pows)
  ultimately show ?thesis using le by simp
qed

theorem passed_replaces_are_funded_witness:
  "sint (available_cash 5 (apply_event (EvReplaced \<lparr>op_event_sequence = 2, op_command_sequence = 2, op_account_id = 5,
       op_original_client_order_id = 1, op_new_client_order_id = 2, op_exchange_order_id = 1, op_instrument_id = 7,
       op_new_price = 150, op_new_quantity = 20\<rparr>)
     (open_hold 5 1 7 Buy 100 10 (deposit_cash 5 5000 empty_ledger)))) = 2000"
proof -
  let ?l = "open_hold 5 1 7 Buy 100 10 (deposit_cash 5 5000 empty_ledger)"
  let ?c = "\<lparr>rc_command_sequence = 2, rc_account_id = 5, rc_original_client_order_id = 1, rc_new_client_order_id = 2,
     rc_instrument_id = 7, rc_new_price = 150, rc_new_quantity = 20\<rparr>"
  let ?h = "\<lparr>hd_instrument_id = 7, hd_side = Buy, hd_limit_price = 100, hd_remaining = 10\<rparr>"
  let ?ev = "\<lparr>op_event_sequence = 2, op_command_sequence = 2, op_account_id = 5,
       op_original_client_order_id = 1, op_new_client_order_id = 2, op_exchange_order_id = 1, op_instrument_id = 7,
       op_new_price = 150, op_new_quantity = 20\<rparr>"
  have a: "available_cash 5 ?l = 4000"
    by (simp add: available_after_open) (simp add: available_balances deposit_cash_def, simp add: balances_def empty_ledger_def no_balances_def)
  have h: "find_hold 5 1 ?l = Some ?h" by (simp add: find_hold_def open_hold_def Let_def)
  have "check_replace default_limits ?c ?l = NoReason"
    by (simp add: check_replace_def default_limits_def h a smax_def sless_sint Let_def)
  then show ?thesis using passed_replaces_are_funded [of default_limits ?c ?l ?h ?ev] h a by simp
qed

text \<open>
  The notional of a check is computed in 64 bits and can wrap: a buy of 1000000, the largest quantity
  the default limits admit, at a price of 9223372036855 passes for an account that has nothing at all.
\<close>

theorem wrapped_notional_passes_without_funds:
  "check_new_order default_limits (sample_limits_order 9223372036855 1000000) empty_ledger = NoReason \<and>
   available_cash 5 empty_ledger = 0"
  by (simp add: check_new_order_def sample_limits_order_def default_limits_def available_cash_def empty_ledger_def sless_sint)

end
