(* ===== verification/GatedEngine.thy ===== *)
theory GatedEngine
  imports Risk
begin

text \<open>
  Engine and ledger together. \<open>holds_match\<close> says that the open holds are exactly the resting orders: one
  hold per order, with its instrument, side, limit price and open quantity. Every command that goes
  through the gated engine keeps it, whatever it fills, rests, replaces or cancels.
\<close>

section \<open>Holds against books\<close>

definition hold_of :: "InstrumentId \<Rightarrow> BookOrder \<Rightarrow> Hold" where
  "hold_of i e = \<lparr>hd_instrument_id = i, hd_side = bo_side e, hd_limit_price = bo_price e, hd_remaining = bo_remaining_quantity e\<rparr>"

definition hkey :: "BookOrder \<Rightarrow> HoldKey" where
  "hkey e = hold_key (bo_account_id e) (bo_client_order_id e)"

definition holds_match :: "Views \<Rightarrow> (HoldKey \<rightharpoonup> Hold) \<Rightarrow> bool" where
  "holds_match V H \<longleftrightarrow>
     (\<forall>i sd x e. (x, e) \<in> set (V i sd) \<longrightarrow> H (hkey e) = Some (hold_of i e)) \<and>
     (\<forall>k. H k \<noteq> None \<longrightarrow> (\<exists>i sd x e. (x, e) \<in> set (V i sd) \<and> hkey e = k))"

lemma holds_matchD:
  assumes "holds_match V H"
  shows "(x, e) \<in> set (V i sd) \<Longrightarrow> H (hkey e) = Some (hold_of i e)"
    "H k \<noteq> None \<Longrightarrow> \<exists>i sd x e. (x, e) \<in> set (V i sd) \<and> hkey e = k"
  using assms unfolding holds_match_def by blast+

lemma hkey_key: "hkey e = hkey e' \<longleftrightarrow> key_of e = key_of e'" "hkey e = hold_key a c \<longleftrightarrow> key_of e = live_key a c"
  by (auto simp: hkey_def key_of_def live_key_def hold_key_def)

text \<open>Orders of different places have different keys.\<close>

lemma hkey_unique:
  assumes dir: "directory_ok V m" and d: "\<And>i. handles_distinct (V i)"
    and e: "(x, e) \<in> set (V i sd)" "(x', e') \<in> set (V i' sd')" "hkey e' = hkey e"
  shows "x' = x" "i' = i" "sd' = sd" "e' = e"
proof -
  have k: "key_of e' = key_of e" using e(3) by (simp add: hkey_key)
  show x: "x' = x" and i: "i' = i" using key_unique [OF dir e(1,2) k] by simp_all
  show "sd' = sd" "e' = e" using handles_entry [OF d e(1), of e' sd'] e(2) x i by simp_all
qed

lemma distinct_hkeys:
  assumes dir: "directory_ok V m" and d: "\<And>i. handles_distinct (V i)"
  shows "distinct (map (\<lambda>y. hkey (snd y)) (V i sd))"
proof -
  have ds: "distinct (map fst (V i sd))" using d [of i] by (cases sd) (auto simp: handles_distinct_def)
  have "inj_on (\<lambda>y. hkey (snd y)) (set (V i sd))"
  proof (rule inj_onI)
    fix a b assume a: "a \<in> set (V i sd)" "b \<in> set (V i sd)" "hkey (snd a) = hkey (snd b)"
    obtain x e x' e' where p: "a = (x, e)" "b = (x', e')" by (cases a; cases b)
    then have m: "(x', e') \<in> set (V i sd)" "(x, e) \<in> set (V i sd)" "hkey e = hkey e'" using a by simp_all
    show "a = b" unfolding p using hkey_unique(1,4) [OF dir d m] by simp
  qed
  then show ?thesis using ds by (simp add: distinct_map)
qed

section \<open>Fills\<close>

lemma settle_holds:
  "lg_holds (settle_leg leg sd i p q l) =
     (case lg_holds l (hold_key (tc_account_id leg) (tc_client_order_id leg)) of
        None \<Rightarrow> lg_holds l
      | Some h \<Rightarrow> (lg_holds l)(hold_key (tc_account_id leg) (tc_client_order_id leg) :=
          (if tc_remaining_quantity leg = 0 then None else Some (h\<lparr>hd_remaining := tc_remaining_quantity leg\<rparr>))))"
  by (auto simp: settle_leg_def Let_def split: option.split)

definition order_hold :: "ExchangeRestingOrder \<Rightarrow> Hold option" where
  \<comment> \<open>what an order being matched has reserved\<close>
  "order_hold order =
     (if rests order
      then Some \<lparr>hd_instrument_id = ro_instrument_id order, hd_side = ro_side order, hd_limit_price = ro_price order,
                 hd_remaining = ro_remaining_quantity order\<rparr>
      else None)"

definition order_hkey :: "ExchangeRestingOrder \<Rightarrow> HoldKey" where
  "order_hkey order = hold_key (ro_account_id order) (ro_client_order_id order)"

definition fill_one :: "Quantity \<Rightarrow> ExchangeRestingOrder \<Rightarrow> ExchangeRestingOrder" where
  "fill_one t order = order\<lparr>ro_remaining_quantity := ro_remaining_quantity order - t\<rparr>"

definition entry_hold :: "InstrumentId \<Rightarrow> BookOrder \<Rightarrow> Hold option" where
  "entry_hold i e = (if bo_remaining_quantity e = 0 then None else Some (hold_of i e))"

lemma trade_holds:
  assumes H: "lg_holds l (order_hkey order) = order_hold order" "lg_holds l (hkey e) = Some (hold_of (ro_instrument_id order) e)"
    and ne: "order_hkey order \<noteq> hkey e" and sd: "bo_side e = contra_side (ro_side order)" and q: "ro_remaining_quantity order \<noteq> 0"
  shows "event_fits (trade_event order cs n (x, e, t)) l"
    "lg_holds (apply_event (trade_event order cs n (x, e, t)) l) = (lg_holds l)(order_hkey order := order_hold (fill_one t order),
       hkey e := entry_hold (ro_instrument_id order) (set_quantity (bo_remaining_quantity e - t) e))"
proof -
  have k: "hold_key (ro_account_id order) (ro_client_order_id order) = order_hkey order"
    "hold_key (bo_account_id e) (bo_client_order_id e) = hkey e" by (simp_all add: order_hkey_def hkey_def)
  note d = trade_event_def counterparty_def Let_def k
  show "event_fits (trade_event order cs n (x, e, t)) l"
    using H ne ne [symmetric] sd by (cases "ro_side order")
      (auto simp: event_fits_def d leg_fits_def settle_holds order_hold_def hold_of_def split: if_splits option.splits)
  have o': "order_hold order = None \<Longrightarrow> order_hold (fill_one t order) = None"
    using q by (auto simp: order_hold_def rests_def fill_one_def split: if_splits)
  have o2: "order_hold order = Some h \<Longrightarrow> (if ro_remaining_quantity order - t = 0 then None
      else Some (h\<lparr>hd_remaining := ro_remaining_quantity order - t\<rparr>)) = order_hold (fill_one t order)" for h
    by (auto simp: order_hold_def rests_def fill_one_def split: if_splits)
  have keep: "order_hold order = None \<Longrightarrow> (lg_holds l)(order_hkey order := None) = lg_holds l"
    using H(1) by (simp add: fun_upd_idem)
  show "lg_holds (apply_event (trade_event order cs n (x, e, t)) l) = (lg_holds l)(order_hkey order := order_hold (fill_one t order),
       hkey e := entry_hold (ro_instrument_id order) (set_quantity (bo_remaining_quantity e - t) e))"
  proof (cases "order_hold order")
    case None
    then show ?thesis using H ne ne [symmetric] o' keep
      by (cases "ro_side order") (simp_all add: d on_trade_executed_def settle_holds fun_upd_idem entry_hold_def hold_of_def set_quantity_def)
  next
    case (Some h)
    then show ?thesis using H ne ne [symmetric] o2 [OF Some, symmetric]
      by (cases "ro_side order") (simp_all add: d on_trade_executed_def settle_holds fun_upd_twist entry_hold_def hold_of_def set_quantity_def)
  qed
qed

lemma apply_book_event [simp]: "apply_event (book_event i n f) l = l"
  by (simp add: book_event_def split: prod.split)

definition keys_in :: "(u32 \<times> BookOrder) list \<Rightarrow> HoldKey set" where
  "keys_in es = (\<lambda>y. hkey (snd y)) ` set es"

lemma keys_in_simps [simp]: "keys_in [] = {}" "keys_in ((x, e) # es) = insert (hkey e) (keys_in es)"
  by (simp_all add: keys_in_def)

lemma keys_inI: "(x, e) \<in> set es \<Longrightarrow> hkey e \<in> keys_in es"
  by (force simp: keys_in_def)

lemma hkey_set_quantity [simp]: "hkey (set_quantity q e) = hkey e"
  by (simp add: hkey_def set_quantity_def)

definition fillable :: "ExchangeRestingOrder \<Rightarrow> (u32 \<times> BookOrder) list \<Rightarrow> Ledger \<Rightarrow> bool" where
  \<comment> \<open>the holds of an incoming order and of the orders it may trade with\<close>
  "fillable order es l \<longleftrightarrow>
     reservations_ok l \<and> lg_holds l (order_hkey order) = order_hold order \<and> order_hkey order \<notin> keys_in es \<and>
     distinct (map (\<lambda>y. hkey (snd y)) es) \<and>
     (\<forall>(x, e) \<in> set es. lg_holds l (hkey e) = Some (hold_of (ro_instrument_id order) e) \<and>
        bo_side e = contra_side (ro_side order) \<and> bo_remaining_quantity e \<noteq> 0)"

definition filled_holds :: "ExchangeRestingOrder \<Rightarrow> (u32 \<times> BookOrder) list \<Rightarrow> Ledger \<Rightarrow>
    Quantity \<Rightarrow> (u32 \<times> BookOrder) list \<Rightarrow> Ledger \<Rightarrow> bool" where
  "filled_holds order es l q' es' l' \<longleftrightarrow>
     reservations_ok l' \<and> lg_holds l' (order_hkey order) = order_hold (order\<lparr>ro_remaining_quantity := q'\<rparr>) \<and>
     keys_in es' \<subseteq> keys_in es \<and>
     (\<forall>(x, e) \<in> set es'. lg_holds l' (hkey e) = Some (hold_of (ro_instrument_id order) e)) \<and>
     (\<forall>k. k \<noteq> order_hkey order \<and> k \<notin> keys_in es \<longrightarrow> lg_holds l' k = lg_holds l k) \<and>
     (\<forall>k \<in> keys_in es - keys_in es'. lg_holds l' k = None)"

lemma fill_one_simps [simp]:
  "ro_instrument_id (fill_one t order) = ro_instrument_id order" "ro_side (fill_one t order) = ro_side order"
  "ro_price (fill_one t order) = ro_price order" "order_hkey (fill_one t order) = order_hkey order"
  "ro_remaining_quantity (fill_one t order) = ro_remaining_quantity order - t"
  "(fill_one t order)\<lparr>ro_remaining_quantity := q\<rparr> = order\<lparr>ro_remaining_quantity := q\<rparr>"
  by (simp_all add: fill_one_def order_hkey_def)

lemma fills_holds:
  assumes "match_list (ro_side order) (ro_price order) (ro_remaining_quantity order) es = (fs, q', es')" "fillable order es l"
  shows "filled_holds order es l q' es' (fold apply_event (fill_events order cs n fs) l)"
  using assms
proof (induction es arbitrary: order l n fs)
  case Nil
  then have "fs = []" "q' = ro_remaining_quantity order" "es' = []" by simp_all
  then show ?case using Nil.prems(2) by (simp add: filled_holds_def fillable_def)
next
  case (Cons y es)
  obtain x e where y: "y = (x, e)" by (cases y)
  let ?q = "ro_remaining_quantity order" and ?i = "ro_instrument_id order"
  have ok: "reservations_ok l" and K: "lg_holds l (order_hkey order) = order_hold order"
    and ne: "order_hkey order \<noteq> hkey e" "order_hkey order \<notin> keys_in es"
    and e: "lg_holds l (hkey e) = Some (hold_of ?i e)" "bo_side e = contra_side (ro_side order)" "bo_remaining_quantity e \<noteq> 0"
    and de: "hkey e \<notin> keys_in es" "distinct (map (\<lambda>y. hkey (snd y)) es)"
    and es: "\<And>x b. (x, b) \<in> set es \<Longrightarrow> lg_holds l (hkey b) = Some (hold_of ?i b) \<and>
        bo_side b = contra_side (ro_side order) \<and> bo_remaining_quantity b \<noteq> 0"
    using Cons.prems(2) by (auto simp: fillable_def y keys_in_def)
  have esk: "hkey b \<noteq> order_hkey order" "hkey b \<noteq> hkey e" if "(x, b) \<in> set es" for x b
    using keys_inI [OF that] ne(2) de(1) by auto
  show ?case
  proof (cases "?q = 0 \<or> \<not> crosses (contra_side (ro_side order)) (ro_price order) (bo_price e)")
    case True
    then have "fs = []" "q' = ?q" "es' = y # es" using Cons.prems(1) by (auto simp: y)
    then show ?thesis using Cons.prems(2) by (auto simp: filled_holds_def fillable_def)
  next
    case False
    let ?t = "min ?q (bo_remaining_quantity e)"
    have q: "?q \<noteq> 0" using False by simp
    let ?l1 = "apply_event (trade_event order cs n (x, e, ?t)) l"
    note th = trade_holds [OF K e(1) ne(1) e(2) q, of cs n x ?t]
    have ok1: "reservations_ok ?l1" by (rule apply_reservations [OF ok th(1)])
    have one: "fold apply_event (fill_events order cs n ((x, e, ?t) # fs1)) l =
        fold apply_event (fill_events (fill_one ?t order) cs (n + 2) fs1) ?l1" for fs1
      by (simp add: fill_one_def)
    show ?thesis
    proof (cases "bo_remaining_quantity e - ?t = 0")
      case full: True
      obtain fs1 where fs: "fs = (x, e, ?t) # fs1" "match_list (ro_side order) (ro_price order) (?q - ?t) es = (fs1, q', es')"
        using Cons.prems(1) False full by (auto simp: y Let_def split: prod.splits)
      have l1: "lg_holds ?l1 = (lg_holds l)(order_hkey order := order_hold (fill_one ?t order), hkey e := None)"
        using th(2) full by (simp add: entry_hold_def set_quantity_def)
      have "fillable (fill_one ?t order) es ?l1"
        unfolding fillable_def using ok1 ne de es esk by (auto simp: l1)
      then have r: "filled_holds (fill_one ?t order) es ?l1 q' es' (fold apply_event (fill_events order cs n fs) l)"
        unfolding fs(1) one using fs(2) by (intro Cons.IH) simp_all
      show ?thesis using r ne de unfolding filled_holds_def by (auto simp: l1 y)
    next
      case more: False
      have fs: "fs = [(x, e, ?t)]" "q' = ?q - ?t" "es' = (x, set_quantity (bo_remaining_quantity e - ?t) e) # es"
        using Cons.prems(1) False more by (auto simp: y Let_def split: prod.splits)
      let ?e' = "set_quantity (bo_remaining_quantity e - ?t) e"
      have l1: "lg_holds ?l1 = (lg_holds l)(order_hkey order := order_hold (fill_one ?t order), hkey e \<mapsto> hold_of ?i ?e')"
        using th(2) more by (simp add: entry_hold_def set_quantity_def)
      have r: "fold apply_event (fill_events order cs n fs) l = ?l1" unfolding fs(1) one by simp
      have o: "order_hold (fill_one ?t order) = order_hold (order\<lparr>ro_remaining_quantity := q'\<rparr>)" by (simp add: fill_one_def fs(2))
      show ?thesis unfolding r filled_holds_def fs(3) using ok1 ne de es esk o by (auto simp: l1 y)
    qed
  qed
qed

section \<open>Placing an order\<close>

lemma apply_added [simp]: "apply_event (added_event order n) l = l"
  by (simp add: added_event_def)

lemma fold_placed: "fold apply_event (placed_events cs order n fs q') l = fold apply_event (fill_events order cs n fs) l"
  by (simp add: placed_events_def)

lemma place_holds:
  assumes dir: "directory_ok V m" and d: "\<And>i. handles_distinct (V i)" and side: "\<And>i sd y. y \<in> set (V i sd) \<Longrightarrow> bo_side (snd y) = sd"
    and mk: "\<And>i. market_ok (V i)" and hm: "holds_match V H" and ok: "reservations_ok l"
    and new: "\<And>i sd x e. (x, e) \<in> set (V i sd) \<Longrightarrow> hkey e \<noteq> order_hkey order"
    and l: "lg_holds l = H(order_hkey order := order_hold order)"
    and ml: "match_list (ro_side order) (ro_price order) (ro_remaining_quantity order)
      (V (ro_instrument_id order) (contra_side (ro_side order))) = (fs, q', es')"
    and l': "l' = fold apply_event (placed_events cs order n fs q') l"
  shows "reservations_ok l'"
    "holds_match (V(ro_instrument_id order := placed_sides order q' x es' (V (ro_instrument_id order)))) (lg_holds l')"
proof -
  let ?i = "ro_instrument_id order" and ?c = "contra_side (ro_side order)" and ?K = "order_hkey order"
  let ?es = "V ?i ?c"
  have "fillable order ?es l"
    unfolding fillable_def using ok l new distinct_hkeys [OF dir d] holds_matchD(1) [OF hm] side mk [of ?i]
    by (auto simp: keys_in_def market_ok_def order_ok_def) (fastforce, fastforce)
  then have fh: "filled_holds order ?es l q' es' l'" unfolding l' fold_placed by (rule fills_holds [OF ml])
  then show "reservations_ok l'" by (simp add: filled_holds_def)
  let ?V = "V(?i := placed_sides order q' x es' (V ?i))"
  have K: "lg_holds l' ?K = order_hold (order\<lparr>ro_remaining_quantity := q'\<rparr>)" using fh by (simp add: filled_holds_def)
  have rest: "lg_holds l' k = H k" if "k \<noteq> ?K" "k \<notin> keys_in ?es" for k using fh that l by (simp add: filled_holds_def)
  have kept: "(y, e) \<in> set es' \<Longrightarrow> lg_holds l' (hkey e) = Some (hold_of ?i e)" for y e using fh by (auto simp: filled_holds_def)
  have gone: "k \<in> keys_in ?es \<Longrightarrow> k \<notin> keys_in es' \<Longrightarrow> lg_holds l' k = None" for k using fh by (auto simp: filled_holds_def)
  have other: "hkey e \<notin> keys_in ?es" if "(y, e) \<in> set (V j sd)" "j \<noteq> ?i \<or> sd \<noteq> ?c" for y e j sd
  proof
    assume "hkey e \<in> keys_in ?es"
    then obtain z f where zf: "(z, f) \<in> set ?es" "hkey e = hkey f" by (auto simp: keys_in_def)
    show False using hkey_unique [OF dir d zf(1) that(1) zf(2)] that(2) by simp
  qed
  have mem: "z \<in> set (?V j sd) \<longleftrightarrow>
      (if j = ?i \<and> sd = ?c then z \<in> set es'
       else z \<in> set (V j sd) \<or> rests (order\<lparr>ro_remaining_quantity := q'\<rparr>) \<and> j = ?i \<and> z = (x, resting_of order q'))" for z j sd
    by (cases sd; cases "ro_side order") (auto simp: placed_sides_def Let_def rests_def set_insert_order)
  have ro: "hkey (resting_of order q') = ?K" by (simp add: hkey_def resting_of_def order_hkey_def)
  show "holds_match ?V (lg_holds l')" unfolding holds_match_def
  proof (intro conjI allI impI)
    fix j sd y e assume "(y, e) \<in> set (?V j sd)"
    then consider (left) "j = ?i" "(y, e) \<in> set es'" | (old) "(y, e) \<in> set (V j sd)" "j \<noteq> ?i \<or> sd \<noteq> ?c"
      | (new) "rests (order\<lparr>ro_remaining_quantity := q'\<rparr>)" "j = ?i" "e = resting_of order q'"
      unfolding mem by (auto split: if_splits)
    then show "lg_holds l' (hkey e) = Some (hold_of j e)"
    proof cases
      case left
      then show ?thesis using kept by simp
    next
      case old
      then show ?thesis using rest [OF assms(7) other] holds_matchD(1) [OF hm] by simp
    next
      case new
      then show ?thesis unfolding new(3) ro using K by (simp add: order_hold_def rests_def hold_of_def resting_of_def)
    qed
  next
    fix k assume k: "lg_holds l' k \<noteq> None"
    show "\<exists>j sd y e. (y, e) \<in> set (?V j sd) \<and> hkey e = k"
    proof (cases "k = ?K")
      case True
      then have "rests (order\<lparr>ro_remaining_quantity := q'\<rparr>)" using k K by (auto simp: order_hold_def split: if_splits)
      then have "(x, resting_of order q') \<in> set (?V ?i (ro_side order))" unfolding mem by simp
      then show ?thesis using ro True by blast
    next
      case ne: False
      show ?thesis
      proof (cases "k \<in> keys_in ?es")
        case True
        have "k \<in> keys_in es'" by (rule ccontr) (use gone [OF True] k in simp)
        then obtain y e where "(y, e) \<in> set es'" "hkey e = k" by (auto simp: keys_in_def)
        then have "(y, e) \<in> set (?V ?i ?c)" "hkey e = k" unfolding mem by simp_all
        then show ?thesis by blast
      next
        case False
        then obtain j sd y e where e: "(y, e) \<in> set (V j sd)" "hkey e = k"
          using holds_matchD(2) [OF hm, of k] k rest [OF ne False] by auto
        have "\<not> (j = ?i \<and> sd = ?c)" using e False by (auto dest: keys_inI)
        then have "(y, e) \<in> set (?V j sd)" unfolding mem using e(1) by auto
        then show ?thesis using e(2) by blast
      qed
    qed
  qed
qed

section \<open>The invariant of the gated engine\<close>

definition gated_inv :: "RiskGatedEngine \<Rightarrow> bool" where
  "gated_inv g \<longleftrightarrow>
     engine_inv (ge_engine g) \<and> reservations_ok (ge_ledger g) \<and> holds_match (view (ge_engine g)) (lg_holds (ge_ledger g))"

definition covers :: "MatchingEngine \<Rightarrow> Ledger \<Rightarrow> bool" where
  "covers e l \<longleftrightarrow> engine_inv e \<and> reservations_ok l \<and> holds_match (view e) (lg_holds l)"

lemma holds_free:
  assumes c: "covers e l" and k: "me_orders e (live_key a c) = None"
  shows "lg_holds l (hold_key a c) = None" "(x, b) \<in> set (view e i sd) \<Longrightarrow> hkey b \<noteq> hold_key a c"
proof -
  have inv: "engine_inv e" and hm: "holds_match (view e) (lg_holds l)" using c by (simp_all add: covers_def)
  show no: "hkey b \<noteq> hold_key a c" if "(x, b) \<in> set (view e i sd)" for x b i sd
    using directoryD(2) [OF engine_invD(2) [OF inv] that] k by (auto simp: hkey_key)
  show "lg_holds l (hold_key a c) = None"
    by (rule ccontr) (use holds_matchD(2) [OF hm, of "hold_key a c"] no in blast)
qed

lemma place_covers:
  assumes inv: "engine_inv e" and ok: "reservations_ok l" and hm: "holds_match (view e) H"
    and l: "lg_holds l = H(order_hkey order := order_hold order)"
    and new: "\<And>i sd x b. (x, b) \<in> set (view e i sd) \<Longrightarrow> hkey b \<noteq> order_hkey order"
    and ml: "match_list (ro_side order) (ro_price order) (ro_remaining_quantity order)
      (view e (ro_instrument_id order) (contra_side (ro_side order))) = (fs, q', es')"
    and e': "engine_inv e'" "view e' = (view e)(ro_instrument_id order := placed_sides order q' x es' (view e (ro_instrument_id order)))"
  shows "covers e' (fold apply_event (placed_events cs order n fs q') l)"
proof -
  have bk: "books_ok e" using inv by (rule engine_invD)
  have r: "reservations_ok (fold apply_event (placed_events cs order n fs q') l) \<and>
    holds_match (view e') (lg_holds (fold apply_event (placed_events cs order n fs q') l))"
    unfolding e'(2)
    by (intro conjI, (rule place_holds [where V = "view e" and m = "me_orders e", OF _ _ _ _ hm ok _ l ml refl];
        use engine_invD [OF inv] books_view [OF bk] new in blast)+)
  then show ?thesis using e'(1) by (simp add: covers_def)
qed

lemma covers_new_order:
  assumes c: "covers e l" and p: "admissible_price (nc_price cmd)" and rm: "room e (nc_instrument_id cmd)"
    and no: "new_order_reject cmd e = None"
  shows "\<exists>e' evs. process (NewOrderC cmd) e = Some (e', evs) \<and> covers e' (fold apply_event evs l)"
proof -
  have inv: "engine_inv e" and ok: "reservations_ok l" and hm: "holds_match (view e) (lg_holds l)" using c by (simp_all add: covers_def)
  let ?o = "new_order_of cmd e" and ?i = "nc_instrument_id cmd"
  obtain fs q' es' where ml: "match_list (nc_side cmd) (nc_price cmd) (nc_quantity cmd) (view e ?i (contra_side (nc_side cmd))) = (fs, q', es')"
    by (metis prod_cases3)
  have k: "me_orders e (live_key (nc_account_id cmd) (nc_client_order_id cmd)) = None" "nc_quantity cmd \<noteq> 0"
    using new_order_accepted(4,5) [of "(e, [])" cmd] engine_invD(1) [OF inv] no by simp_all
  note free = holds_free [OF c k(1)]
  obtain x e' where e': "process (NewOrderC cmd) e = Some (e',
        accepted_event cmd (me_next_exchange_order_id e) (me_next_event_sequence e) #
        placed_events (nc_command_sequence cmd) ?o (me_next_event_sequence e + 1) fs q')" "engine_inv e'"
    "view e' = (view e)(?i := placed_sides ?o q' x es' (view e ?i))"
    by (rule new_order_outcome [OF inv p rm no ml])
  let ?l1 = "apply_event (accepted_event cmd (me_next_exchange_order_id e) (me_next_event_sequence e)) l"
  have K: "order_hkey ?o = hold_key (nc_account_id cmd) (nc_client_order_id cmd)" by (simp add: order_hkey_def new_order_of_def)
  have "event_fits (accepted_event cmd (me_next_exchange_order_id e) (me_next_event_sequence e)) l"
    using free(1) by (simp add: event_fits_def accepted_event_def)
  then have ok1: "reservations_ok ?l1" by (rule apply_reservations [OF ok])
  have l1: "lg_holds ?l1 = (lg_holds l)(order_hkey ?o := order_hold ?o)"
    using free(1) k(2) unfolding K
    by (auto simp: accepted_event_def on_order_accepted_def open_hold_def order_hold_def rests_def new_order_of_def Let_def fun_upd_idem)
  have ro: "ro_instrument_id ?o = ?i" "ro_side ?o = nc_side cmd" "ro_price ?o = nc_price cmd" "ro_remaining_quantity ?o = nc_quantity cmd"
    by (simp_all add: new_order_of_def)
  have "covers e' (fold apply_event (placed_events (nc_command_sequence cmd) ?o (me_next_event_sequence e + 1) fs q') ?l1)"
    by (rule place_covers [OF inv ok1 hm l1, where x = x and es' = es']) (use free(2) K ml e'(2,3) in \<open>simp_all add: ro\<close>)
  then show ?thesis using e'(1) by simp
qed

text \<open>Releasing the hold of an order that leaves the book.\<close>

lemma covers_without:
  assumes dir: "directory_ok V m" and d: "\<And>i. handles_distinct (V i)" and hm: "holds_match V H"
    and e: "(x, e) \<in> set (V i sd)"
  shows "holds_match (V(i := (\<lambda>sd. filter (\<lambda>y. fst y \<noteq> x) (V i sd)))) (H(hkey e := None))"
  unfolding holds_match_def
proof (intro conjI allI impI)
  let ?V = "V(i := (\<lambda>sd. filter (\<lambda>y. fst y \<noteq> x) (V i sd)))"
  fix j s y f assume a: "(y, f) \<in> set (?V j s)"
  then have m: "(y, f) \<in> set (V j s)" by (auto split: if_splits)
  have "hkey f \<noteq> hkey e"
  proof
    assume "hkey f = hkey e"
    then have "y = x" "j = i" using hkey_unique(1,2) [OF dir d e m] by simp_all
    then show False using a by simp
  qed
  then show "(H(hkey e := None)) (hkey f) = Some (hold_of j f)" using holds_matchD(1) [OF hm m] by simp
next
  let ?V = "V(i := (\<lambda>sd. filter (\<lambda>y. fst y \<noteq> x) (V i sd)))"
  fix k assume "(H(hkey e := None)) k \<noteq> None"
  then have k: "k \<noteq> hkey e" "H k \<noteq> None" by (auto split: if_splits)
  obtain j s y f where f: "(y, f) \<in> set (V j s)" "hkey f = k" using holds_matchD(2) [OF hm k(2)] by blast
  have "\<not> (j = i \<and> y = x)"
  proof
    assume a: "j = i \<and> y = x"
    then have "(x, f) \<in> set (V i s)" using f(1) by simp
    then have "f = e" by (rule handles_entry(1) [OF d e])
    then show False using k(1) f(2) by simp
  qed
  then have "(y, f) \<in> set (?V j s)" using f(1) by auto
  then show "\<exists>j s y f. (y, f) \<in> set (?V j s) \<and> hkey f = k" using f(2) by blast
qed

lemma released_holds:
  assumes "reservations_ok l" "lg_holds l (hold_key a c) = Some h"
  shows "lg_holds (erase_hold (hold_key a c) (release_hold_fully a h l)) = (lg_holds l)(hold_key a c := None)"
  by simp

lemma covers_cancel:
  assumes c: "covers e l" and ref: "me_orders e (cancel_key cmd) = Some ref" "rf_instrument_id ref = cc_instrument_id cmd"
  shows "\<exists>e' evs. process (CancelOrderC cmd) e = Some (e', evs) \<and> covers e' (fold apply_event evs l)"
proof -
  have inv: "engine_inv e" and ok: "reservations_ok l" and hm: "holds_match (view e) (lg_holds l)" using c by (simp_all add: covers_def)
  have bk: "books_ok e" using inv by (rule engine_invD)
  obtain b e' where b: "(rf_handle ref, b) \<in> set (view e (cc_instrument_id cmd) (bo_side b))" "key_of b = cancel_key cmd"
    "process (CancelOrderC cmd) e = Some (e', cancelled_events cmd b (me_next_event_sequence e))" "engine_inv e'"
    "view e' = (view e)(cc_instrument_id cmd := (\<lambda>sd. filter (\<lambda>y. fst y \<noteq> rf_handle ref) (view e (cc_instrument_id cmd) sd)))"
    by (rule cancel_found [OF inv ref])
  let ?k = "hold_key (cc_account_id cmd) (cc_client_order_id cmd)"
  have k: "hkey b = ?k" using b(2) by (simp add: hkey_key cancel_key_def)
  have h: "lg_holds l ?k = Some (hold_of (cc_instrument_id cmd) b)" using holds_matchD(1) [OF hm b(1)] by (simp add: k)
  have r: "fold apply_event (cancelled_events cmd b (me_next_event_sequence e)) l =
      erase_hold ?k (release_hold_fully (cc_account_id cmd) (hold_of (cc_instrument_id cmd) b) l)"
    using h by (simp add: cancelled_events_def on_order_cancelled_def Let_def)
  have "covers e' (fold apply_event (cancelled_events cmd b (me_next_event_sequence e)) l)"
    unfolding covers_def r b(5) using b(4) reservations_close [OF ok h]
      covers_without [OF engine_invD(2) [OF inv] books_view(1) [OF bk] hm b(1)]
    by (simp add: k)
  then show ?thesis using b(3) by blast
qed

text \<open>The ledger's side of a replace.\<close>

lemma replaced_holds:
  assumes ok: "reservations_ok l" and hm: "holds_match V (lg_holds l)" and b: "(x, b) \<in> set (V i sd)"
    and k: "hkey b = hold_key (op_account_id p) (op_original_client_order_id p)"
    and free: "op_new_client_order_id p = op_original_client_order_id p \<or>
      lg_holds l (hold_key (op_account_id p) (op_new_client_order_id p)) = None"
    and i: "op_instrument_id p = i" and q: "op_new_quantity p \<noteq> 0"
  shows "reservations_ok (apply_event (EvReplaced p) l)"
    "lg_holds (apply_event (EvReplaced p) l) = (lg_holds l)(hkey b := None,
       hold_key (op_account_id p) (op_new_client_order_id p) \<mapsto>
         \<lparr>hd_instrument_id = i, hd_side = bo_side b, hd_limit_price = op_new_price p, hd_remaining = op_new_quantity p\<rparr>)"
proof -
  show "reservations_ok (apply_event (EvReplaced p) l)"
    by (rule apply_reservations [OF ok]) (use free in \<open>auto simp: event_fits_def\<close>)
  have h: "lg_holds l (hkey b) = Some (hold_of i b)" by (rule holds_matchD(1) [OF hm b])
  show "lg_holds (apply_event (EvReplaced p) l) = (lg_holds l)(hkey b := None,
       hold_key (op_account_id p) (op_new_client_order_id p) \<mapsto>
         \<lparr>hd_instrument_id = i, hd_side = bo_side b, hd_limit_price = op_new_price p, hd_remaining = op_new_quantity p\<rparr>)"
    using h q i unfolding k by (simp add: on_order_replaced_def Let_def open_hold_def hold_of_def)
qed

lemma covers_edit:
  assumes dir: "directory_ok V m" and d: "\<And>i. handles_distinct (V i)" and hm: "holds_match V H"
    and e: "(x, e) \<in> set (V i sd)" and new: "hkey (f e) = k'" "H k' = None \<or> k' = hkey e"
  shows "holds_match (V(i := (\<lambda>sd. map (edit_entry x f) (V i sd)))) (H(hkey e := None, k' \<mapsto> hold_of i (f e)))"
    (is "holds_match ?V ?H")
  unfolding holds_match_def
proof (intro conjI allI impI)
  have one: "(x, f') \<in> set (V i s) \<Longrightarrow> f' = e" for f' s using handles_entry(1) [OF d e] by blast
  fix j s y g assume a: "(y, g) \<in> set (?V j s)"
  show "?H (hkey g) = Some (hold_of j g)"
  proof (cases "j = i \<and> y = x")
    case True
    then have "(x, g) \<in> edit_entry x f ` set (V i s)" using a by simp
    then obtain g' where "(x, g') \<in> set (V i s)" "g = f g'" by (auto simp: edit_entry_def split: if_splits)
    then have "g = f e" using one by blast
    then show ?thesis using True new(1) by simp
  next
    case False
    then have m: "(y, g) \<in> set (V j s)" using a by (auto simp: edit_entry_def split: if_splits)
    have ne: "hkey g \<noteq> hkey e"
    proof
      assume "hkey g = hkey e"
      then show False using hkey_unique(1,2) [OF dir d e m] False by simp
    qed
    have "H (hkey g) = Some (hold_of j g)" by (rule holds_matchD(1) [OF hm m])
    moreover from this have "hkey g \<noteq> k'" using new(2) ne by auto
    ultimately show ?thesis using ne by simp
  qed
next
  fix k assume k: "?H k \<noteq> None"
  show "\<exists>j s y g. (y, g) \<in> set (?V j s) \<and> hkey g = k"
  proof (cases "k = k'")
    case True
    have "edit_entry x f (x, e) \<in> set (?V i sd)" using e by auto
    then have "(x, f e) \<in> set (?V i sd)" by (simp add: edit_entry_def)
    then show ?thesis using True new(1) by blast
  next
    case False
    then have k2: "k \<noteq> hkey e" "H k \<noteq> None" using k by (auto split: if_splits)
    obtain j s y g where g: "(y, g) \<in> set (V j s)" "hkey g = k" using holds_matchD(2) [OF hm k2(2)] by blast
    have "\<not> (j = i \<and> y = x)"
    proof
      assume a: "j = i \<and> y = x"
      then have "(x, g) \<in> set (V i s)" using g(1) by simp
      then have "g = e" by (rule handles_entry(1) [OF d e])
      then show False using k2(1) g(2) by simp
    qed
    then have "(y, g) \<in> set (?V j s)" using g(1) by (force simp: edit_entry_def)
    then show ?thesis using g(2) by blast
  qed
qed

lemma covers_replace:
  assumes c: "covers e l" and p: "admissible_price (rc_new_price cmd)" and rm: "room e (rc_instrument_id cmd)"
    and free: "new_id_free cmd e" and no: "replace_reject cmd e = None"
  shows "\<exists>e' evs. process (ReplaceOrderC cmd) e = Some (e', evs) \<and> covers e' (fold apply_event evs l)"
proof -
  let ?i = "rc_instrument_id cmd" and ?a = "rc_account_id cmd"
  have inv: "engine_inv e" and ok: "reservations_ok l" and hm: "holds_match (view e) (lg_holds l)" using c by (simp_all add: covers_def)
  have bk: "books_ok e" and dir: "directory_ok (view e) (me_orders e)" using inv by (auto intro: engine_invD)
  obtain ref b e' evs where r: "me_orders e (live_key ?a (rc_original_client_order_id cmd)) = Some ref"
    "(rf_handle ref, b) \<in> set (view e ?i (bo_side b))" "process (ReplaceOrderC cmd) e = Some (e', evs)" "engine_inv e'"
    "if rc_new_price cmd = bo_price b \<and> rc_new_quantity cmd \<le> bo_remaining_quantity b
         then evs = in_place_events cmd b (me_next_event_sequence e) \<and>
           view e' = (view e)(?i :=
             (\<lambda>sd. map (edit_entry (rf_handle ref) (edited_order cmd)) (view e ?i sd)))
         else (\<exists>v fs q' es' x. v = (\<lambda>sd. filter (\<lambda>y. fst y \<noteq> rf_handle ref) (view e ?i sd)) \<and>
           match_list (bo_side b) (rc_new_price cmd) (rc_new_quantity cmd) (v (contra_side (bo_side b))) = (fs, q', es') \<and>
           evs = replaced_events cmd b (me_next_exchange_order_id e) (me_next_event_sequence e) @
             placed_events (rc_command_sequence cmd) (replacement_of cmd b e) (me_next_event_sequence e + 2) fs q' \<and>
           view e' = (view e)(?i := placed_sides (replacement_of cmd b e) q' x es' v))"
    using replace_outcome [OF inv p rm free no] by blast
  obtain ref2 where f: "me_orders e (live_key ?a (rc_original_client_order_id cmd)) = Some ref2" "rf_instrument_id ref2 = ?i" "rc_new_quantity cmd \<noteq> 0"
    using replace_found [of cmd "(e, [])"] no by auto
  have i: "rf_instrument_id ref = ?i" using r(1) f(1,2) by simp
  obtain b2 s2 where b2: "(rf_handle ref, b2) \<in> set (view e ?i s2)" "key_of b2 = live_key ?a (rc_original_client_order_id cmd)"
    using directoryD(1) [OF dir r(1)] i by auto
  have "b2 = b" by (rule handles_entry(1) [OF books_view(1) [OF bk] r(2) b2(1)])
  then have kb: "hkey b = hold_key ?a (rc_original_client_order_id cmd)" using b2(2) by (simp add: hkey_key)
  have free': "rc_new_client_order_id cmd = rc_original_client_order_id cmd \<or>
      lg_holds l (hold_key ?a (rc_new_client_order_id cmd)) = None"
    using free holds_free(1) [OF c] by (auto simp: new_id_free_def)
  have free2: "lg_holds l (hold_key ?a (rc_new_client_order_id cmd)) = None \<or> hold_key ?a (rc_new_client_order_id cmd) = hkey b"
    using free' kb by auto
  let ?p = "\<lambda>x. \<lparr>op_event_sequence = me_next_event_sequence e, op_command_sequence = rc_command_sequence cmd,
         op_account_id = ?a, op_original_client_order_id = rc_original_client_order_id cmd,
         op_new_client_order_id = rc_new_client_order_id cmd, op_exchange_order_id = x, op_instrument_id = ?i,
         op_new_price = rc_new_price cmd, op_new_quantity = rc_new_quantity cmd\<rparr>"
  let ?k' = "hold_key ?a (rc_new_client_order_id cmd)"
  have rh: "reservations_ok (apply_event (EvReplaced (?p x)) l)"
    "lg_holds (apply_event (EvReplaced (?p x)) l) = (lg_holds l)(hkey b := None,
       ?k' \<mapsto> \<lparr>hd_instrument_id = ?i, hd_side = bo_side b, hd_limit_price = rc_new_price cmd, hd_remaining = rc_new_quantity cmd\<rparr>)" for x
    using replaced_holds [OF ok hm r(2), of "?p x"] kb free' f(3) by simp_all
  have "covers e' (fold apply_event evs l)"
  proof (cases "rc_new_price cmd = bo_price b \<and> rc_new_quantity cmd \<le> bo_remaining_quantity b")
    case True
    then have ev: "evs = in_place_events cmd b (me_next_event_sequence e)"
      "view e' = (view e)(?i := (\<lambda>sd. map (edit_entry (rf_handle ref) (edited_order cmd)) (view e ?i sd)))" using r(5) by simp_all
    have fold: "fold apply_event evs l = apply_event (EvReplaced (?p (bo_exchange_order_id b))) l"
      by (simp add: ev(1) in_place_events_def)
    have eo: "hold_of ?i (edited_order cmd b) =
        \<lparr>hd_instrument_id = ?i, hd_side = bo_side b, hd_limit_price = rc_new_price cmd, hd_remaining = rc_new_quantity cmd\<rparr>"
      using True by (simp add: hold_of_def edited_order_def set_client_def set_quantity_def)
    have kf: "hkey (edited_order cmd b) = ?k'" using kb by (simp add: hkey_def edited_order_def set_client_def set_quantity_def)
    show ?thesis
      unfolding covers_def fold ev(2) using rh [of "bo_exchange_order_id b"] r(4)
        covers_edit [where f = "edited_order cmd", OF dir books_view(1) [OF bk] hm r(2) kf free2] by (simp add: eo)
  next
    case False
    then obtain fs q' es' x where ml: "match_list (bo_side b) (rc_new_price cmd) (rc_new_quantity cmd)
        (filter (\<lambda>y. fst y \<noteq> rf_handle ref) (view e ?i (contra_side (bo_side b)))) = (fs, q', es')"
      and ev: "evs = replaced_events cmd b (me_next_exchange_order_id e) (me_next_event_sequence e) @
             placed_events (rc_command_sequence cmd) (replacement_of cmd b e) (me_next_event_sequence e + 2) fs q'"
      and v: "view e' = (view e)(?i := placed_sides (replacement_of cmd b e) q' x es'
          (\<lambda>sd. filter (\<lambda>y. fst y \<noteq> rf_handle ref) (view e ?i sd)))"
      using r(5) by auto
    let ?c = "\<lparr>cc_command_sequence = 0, cc_account_id = ?a, cc_client_order_id = rc_original_client_order_id cmd, cc_instrument_id = ?i\<rparr>"
    have ck: "cancel_key ?c = live_key ?a (rc_original_client_order_id cmd)" by (simp add: cancel_key_def)
    have rc: "me_orders e (cancel_key ?c) = Some ref" "rf_instrument_id ref = cc_instrument_id ?c" using r(1) i ck by simp_all
    obtain e1 where e1: "engine_inv e1" "view e1 = (view e)(?i := (\<lambda>sd. filter (\<lambda>y. fst y \<noteq> rf_handle ref) (view e ?i sd)))"
      "me_orders e1 = (me_orders e)(live_key ?a (rc_original_client_order_id cmd) := None)"
      by (rule cancel_found [OF inv rc]) (use that ck in simp)
    let ?o = "replacement_of cmd b e" and ?H = "(lg_holds l)(hkey b := None)"
    let ?l1 = "apply_event (EvReplaced (?p (me_next_exchange_order_id e))) l"
    have hm1: "holds_match (view e1) ?H" unfolding e1(2) by (rule covers_without [OF dir books_view(1) [OF bk] hm r(2)])
    have tif: "bo_time_in_force b = GTC"
      using engine_invD(3) [OF inv, of ?i] r(2) by (fastforce simp: market_ok_def order_ok_def)
    have ro: "ro_instrument_id ?o = ?i" "ro_side ?o = bo_side b" "ro_price ?o = rc_new_price cmd"
      "ro_remaining_quantity ?o = rc_new_quantity cmd" "order_hkey ?o = ?k'"
      by (simp_all add: replacement_of_def order_hkey_def)
    have oh: "order_hold ?o = Some \<lparr>hd_instrument_id = ?i, hd_side = bo_side b, hd_limit_price = rc_new_price cmd, hd_remaining = rc_new_quantity cmd\<rparr>"
      using tif f(3) by (simp add: order_hold_def rests_def replacement_of_def)
    have l1: "lg_holds ?l1 = ?H(order_hkey ?o := order_hold ?o)" using rh(2) by (simp only: oh ro(5))
    have none: "me_orders e1 (live_key ?a (rc_new_client_order_id cmd)) = None"
      using free by (auto simp: e1(3) new_id_free_def live_key_def)
    have new: "hkey g \<noteq> order_hkey ?o" if m: "(y, g) \<in> set (view e1 j s)" for y g j s
      using directoryD(2) [OF engine_invD(2) [OF e1(1)] m] none by (auto simp: hkey_key ro(5))
    have ml1: "match_list (ro_side ?o) (ro_price ?o) (ro_remaining_quantity ?o)
        (view e1 (ro_instrument_id ?o) (contra_side (ro_side ?o))) = (fs, q', es')" using ml by (simp add: ro e1(2))
    have v1: "view e' = (view e1)(ro_instrument_id ?o := placed_sides ?o q' x es' (view e1 (ro_instrument_id ?o)))"
      by (simp add: v ro(1) e1(2))
    have "covers e' (fold apply_event (placed_events (rc_command_sequence cmd) ?o (me_next_event_sequence e + 2) fs q') ?l1)"
      by (rule place_covers [OF e1(1) rh(1) hm1 l1 new ml1 r(4) v1])
    then show ?thesis by (simp add: ev replaced_events_def)
  qed
  then show ?thesis using r(3) by blast
qed


section \<open>Properties\<close>

lemma rejected_covers:
  "covers e l \<Longrightarrow> covers (fst (reject cs a c i reason (e, []))) l"
  by (simp add: covers_def)

lemma cancel_not_found:
  assumes "\<not> (\<exists>ref. knows_instrument (cc_instrument_id cmd) e \<and> me_orders e (cancel_key cmd) = Some ref \<and>
     rf_instrument_id ref = cc_instrument_id cmd)"
  obtains reason where "process (CancelOrderC cmd) e = Some (reject (cc_command_sequence cmd) (cc_account_id cmd)
     (cc_client_order_id cmd) (cc_instrument_id cmd) reason (e, []))"
  using assms by (cases "knows_instrument (cc_instrument_id cmd) e"; cases "me_orders e (cancel_key cmd)")
    (auto simp: process_def process_cancel_def Let_def cancel_key_def)

lemma covers_process:
  assumes c: "covers e l" and ok: "command_ok cmd e"
  shows "\<exists>e' evs. process cmd e = Some (e', evs) \<and> covers e' (fold apply_event evs l)"
proof -
  have rej: "covers (fst (reject cs a i n reason (e, []))) (fold apply_event (snd (reject cs a i n reason (e, []))) l)" for cs a i n reason
    using rejected_covers [OF c] by (simp add: reject_def emit_def)
  have inv: "engine_inv e" using c by (simp add: covers_def)
  show ?thesis
  proof (cases cmd)
    case (NewOrderC n)
    show ?thesis
    proof (cases "new_order_reject n e")
      case None
      then show ?thesis using covers_new_order [OF c _ _ None] ok by (simp add: NewOrderC command_ok_def)
    next
      case (Some reason)
      then show ?thesis using new_order_rejected [of "(e, [])"] engine_invD(1) [OF inv] rej
        by (simp add: NewOrderC process_def reject_new_order_def) (metis prod.collapse)
    qed
  next
    case (CancelOrderC n)
    show ?thesis
    proof (cases "\<exists>ref. knows_instrument (cc_instrument_id n) e \<and> me_orders e (cancel_key n) = Some ref \<and> rf_instrument_id ref = cc_instrument_id n")
      case True
      then show ?thesis using covers_cancel [OF c] by (auto simp: CancelOrderC)
    next
      case False
      then obtain reason where "process (CancelOrderC n) e = Some (reject (cc_command_sequence n) (cc_account_id n)
         (cc_client_order_id n) (cc_instrument_id n) reason (e, []))" by (rule cancel_not_found)
      then show ?thesis using rej unfolding CancelOrderC by (metis prod.collapse)
    qed
  next
    case (ReplaceOrderC n)
    show ?thesis
    proof (cases "replace_reject n e")
      case None
      then show ?thesis using covers_replace [OF c _ _ _ None] ok by (simp add: ReplaceOrderC command_ok_def)
    next
      case (Some reason)
      then show ?thesis using replace_rejected [of n "(e, [])"] rej
        by (simp add: ReplaceOrderC process_def reject_replace_order_def) (metis prod.collapse)
    qed
  qed
qed

lemma gated_forward_inv:
  assumes "gated_inv g" "command_ok cmd (ge_engine g)"
  shows "\<exists>g' evs. gated_forward cmd g = Some (g', evs) \<and> gated_inv g' \<and> ge_limits g' = ge_limits g"
  using covers_process [of "ge_engine g" "ge_ledger g" cmd] assms by (auto simp: gated_forward_def gated_inv_def covers_def)

text \<open>
  C4. Reservations are exactly the exposure of the resting orders: every admissible command through the
  gated engine returns, and keeps one hold per resting order, with its instrument, side, limit price and
  open quantity, no other hold, and per account a reservation that is the sum of its holds. A command the
  risk check refuses leaves books, balances and holds as they were.
\<close>

theorem holds_are_the_resting_orders:
  assumes "gated_inv g" "command_ok cmd (ge_engine g)"
  shows "\<exists>g' evs. gated_process cmd g = Some (g', evs) \<and> gated_inv g' \<and>
    (gated_forward cmd g = Some (g', evs) \<or>
     ge_ledger g' = ge_ledger g \<and> view (ge_engine g') = view (ge_engine g) \<and> me_orders (ge_engine g') = me_orders (ge_engine g))"
proof -
  obtain g1 evs1 where f: "gated_forward cmd g = Some (g1, evs1)" "gated_inv g1" using gated_forward_inv [OF assms] by blast
  have rej: "gated_inv (fst (gated_reject (reject cs a c i reason (ge_engine g, [])) g)) \<and>
    ge_ledger (fst (gated_reject (reject cs a c i reason (ge_engine g, [])) g)) = ge_ledger g \<and>
    view (ge_engine (fst (gated_reject (reject cs a c i reason (ge_engine g, [])) g))) = view (ge_engine g) \<and>
    me_orders (ge_engine (fst (gated_reject (reject cs a c i reason (ge_engine g, [])) g))) = me_orders (ge_engine g)" for cs a c i reason
    using assms(1) by (simp add: gated_inv_def gated_reject_def)
  have "gated_process cmd g = gated_forward cmd g \<or>
    (\<exists>cs a c i reason. gated_process cmd g = Some (gated_reject (reject cs a c i reason (ge_engine g, [])) g))"
    by (cases cmd) (simp_all add: Let_def reject_new_order_def reject_replace_order_def, blast+)
  then show ?thesis using f rej by (metis prod.collapse)
qed

definition sample_gated :: RiskGatedEngine where
  "sample_gated = \<lparr>ge_engine = sample_engine, ge_ledger = deposit_cash 5 5000 empty_ledger, ge_limits = default_limits\<rparr>"

theorem holds_are_the_resting_orders_witness:
  "\<exists>g' evs. gated_process (NewOrderC (sample_new Buy GTC 1 100)) sample_gated = Some (g', evs) \<and> gated_inv g'"
proof -
  have "gated_inv sample_gated"
    unfolding gated_inv_def sample_gated_def using sample_engine(1) deposit_reservations(1) [OF empty_reservations]
    by (simp add: holds_match_def sample_engine(4)) (simp add: deposit_cash_def empty_ledger_def)
  moreover have "command_ok (NewOrderC (sample_new Buy GTC 1 100)) (ge_engine sample_gated)"
    by (simp add: command_ok_def sample_gated_def sample_engine) (simp add: sample_new_def sample_engine)
  ultimately show ?thesis using holds_are_the_resting_orders by blast
qed

end
