(* ===== verification/ByteIO.thy ===== *)
theory ByteIO
  imports Prelude
begin

text \<open>
  \<open>src/include/common/byte_io.hpp\<close>: big-endian writers that append to a buffer, and \<open>ByteReader\<close>, a
  bounds-checked reader that keeps its position when a read fails. The locale \<open>field_codec\<close> states what
  the encoders and decoders of the wire formats rely on: a writer appends a fixed number of bytes, a reader
  consumes exactly as many, and the two are inverse in both directions.
\<close>

type_synonym byte = u8

section \<open>Writers\<close>

definition put_u8 :: "u8 \<Rightarrow> byte list \<Rightarrow> byte list" where
  "put_u8 v buf = buf @ [v]"

definition put_u16 :: "u16 \<Rightarrow> byte list \<Rightarrow> byte list" where
  "put_u16 v buf = (buf @ [ucast (drop_bit 8 v AND 0xFF)]) @ [ucast (v AND 0xFF)]"

definition put_u32 :: "u32 \<Rightarrow> byte list \<Rightarrow> byte list" where
  "put_u32 v buf = fold (\<lambda>shift b. b @ [ucast (drop_bit shift v AND 0xFF)]) [24, 16, 8, 0] buf"

definition put_u64 :: "u64 \<Rightarrow> byte list \<Rightarrow> byte list" where
  "put_u64 v buf = fold (\<lambda>shift b. b @ [ucast (drop_bit shift v AND 0xFF)]) [56, 48, 40, 32, 24, 16, 8, 0] buf"

definition put_i64 :: "i64 \<Rightarrow> byte list \<Rightarrow> byte list" where
  "put_i64 v = put_u64 v"

section \<open>The reader\<close>

record ByteReader =
  rd_data :: "byte list"
  rd_pos :: nat

definition byte_reader :: "byte list \<Rightarrow> ByteReader" where
  "byte_reader data = \<lparr>rd_data = data, rd_pos = 0\<rparr>"

definition remaining :: "ByteReader \<Rightarrow> nat" where
  "remaining r = length (rd_data r) - rd_pos r"

definition be_step :: "'a::len word \<Rightarrow> byte \<Rightarrow> 'a word" where
  \<comment> \<open>\<open>v = (v << 8) | b\<close>\<close>
  "be_step v b = push_bit 8 v OR ucast b"

definition get_bytes :: "nat \<Rightarrow> ByteReader \<Rightarrow> 'a::len word option \<times> ByteReader" where
  \<comment> \<open>the common shape of the getters: \<open>n\<close> bytes from the position on, or nothing\<close>
  "get_bytes n r =
     (if remaining r < n then (None, r)
      else (Some (fold (\<lambda>i v. be_step v (rd_data r ! (rd_pos r + i))) [0..<n] 0), r\<lparr>rd_pos := rd_pos r + n\<rparr>))"

definition get_u8 :: "ByteReader \<Rightarrow> u8 option \<times> ByteReader" where
  "get_u8 r = (if remaining r < 1 then (None, r) else (Some (rd_data r ! rd_pos r), r\<lparr>rd_pos := rd_pos r + 1\<rparr>))"

definition get_u16 :: "ByteReader \<Rightarrow> u16 option \<times> ByteReader" where
  "get_u16 = get_bytes 2"

definition get_u32 :: "ByteReader \<Rightarrow> u32 option \<times> ByteReader" where
  "get_u32 = get_bytes 4"

definition get_u64 :: "ByteReader \<Rightarrow> u64 option \<times> ByteReader" where
  "get_u64 = get_bytes 8"

definition get_i64 :: "ByteReader \<Rightarrow> i64 option \<times> ByteReader" where
  "get_i64 r = (case get_u64 r of (v, r') \<Rightarrow> (case v of None \<Rightarrow> (None, r') | Some v \<Rightarrow> (Some v, r')))"

section \<open>Big-endian words\<close>

definition be_value :: "byte list \<Rightarrow> 'a::len word" where
  "be_value bs = fold (\<lambda>b v. be_step v b) bs 0"

definition be_bytes :: "nat \<Rightarrow> 'a::len word \<Rightarrow> byte list" where
  "be_bytes n v = map (\<lambda>k. ucast (drop_bit (8 * k) v)) (rev [0..<n])"

lemma length_be_bytes [simp]: "length (be_bytes n v) = n"
  by (simp add: be_bytes_def)

lemma bit_be_value:
  "bit (be_value bs :: 'a::len word) i \<longleftrightarrow> i < LENGTH('a) \<and> i div 8 < length bs \<and> bit (rev bs ! (i div 8)) (i mod 8)"
proof (induction bs arbitrary: i rule: rev_induct)
  case Nil
  then show ?case by (simp add: be_value_def)
next
  case (snoc b bs)
  have st: "be_value (bs @ [b]) = (push_bit 8 (be_value bs) OR ucast b :: 'a word)" by (simp add: be_value_def be_step_def)
  show ?case
  proof (cases "i < 8")
    case True
    then show ?thesis by (auto simp: st bit_simps)
  next
    case False
    then have d: "i div 8 = Suc ((i - 8) div 8)" "(i - 8) mod 8 = i mod 8" by (simp_all add: le_div_geq le_mod_geq not_less)
    have "\<not> bit b i" using False bit_imp_le_length [of b i] by auto
    then show ?thesis using False snoc [of "i - 8"] d by (auto simp: st bit_simps)
  qed
qed

lemma be_value_bytes: "LENGTH('a) \<le> 8 * n \<Longrightarrow> be_value (be_bytes n v) = (v :: 'a::len word)"
proof (rule bit_word_eqI)
  fix i assume n: "LENGTH('a) \<le> 8 * n" and i: "i < LENGTH('a)"
  have "i div 8 < n" using n i by linarith
  moreover have "8 * (i div 8) + i mod 8 = i" by simp
  ultimately show "bit (be_value (be_bytes n v) :: 'a word) i = bit v i"
    using i by (simp add: bit_be_value) (simp add: be_bytes_def rev_map bit_simps)
qed

lemma be_bytes_value: "length bs = n \<Longrightarrow> 8 * n \<le> LENGTH('a) \<Longrightarrow> be_bytes n (be_value bs :: 'a::len word) = bs"
proof (rule nth_equalityI)
  fix j assume n: "length bs = n" "8 * n \<le> LENGTH('a)" and j: "j < length (be_bytes n (be_value bs :: 'a word))"
  then have jn: "j < n" by simp
  show "be_bytes n (be_value bs :: 'a word) ! j = bs ! j"
  proof (rule bit_word_eqI)
    fix i assume i: "i < LENGTH(8)"
    let ?k = "n - Suc j"
    have "8 * ?k + i < LENGTH('a)" "(8 * ?k + i) div 8 = ?k" "(8 * ?k + i) mod 8 = i" using n jn i by auto
    moreover have "rev bs ! ?k = bs ! j" using jn n(1) by (simp add: rev_nth)
    ultimately show "bit (be_bytes n (be_value bs :: 'a word) ! j) i = bit (bs ! j) i"
      using jn n i by (simp add: be_bytes_def rev_map rev_nth bit_simps bit_be_value)
  qed
qed simp

lemma byte_mask [simp]: "(ucast ((w :: 'a::len word) AND 0xFF) :: byte) = ucast w"
proof (rule bit_word_eqI)
  fix n
  have m: "w AND 0xFF = w AND mask 8" by (simp add: mask_eq_exp_minus_1)
  show "n < LENGTH(8) \<Longrightarrow> bit (ucast (w AND 0xFF) :: byte) n = bit (ucast w :: byte) n"
    unfolding m by (auto simp: bit_simps dest: bit_imp_le_length)
qed

lemma put_bytes:
  "put_u16 v16 buf = buf @ be_bytes 2 v16" "put_u32 v32 buf = buf @ be_bytes 4 v32" "put_u64 v64 buf = buf @ be_bytes 8 v64"
  by (simp_all add: put_u16_def put_u32_def put_u64_def be_bytes_def numeral_eq_Suc upt_rec)

lemma get_bytes_value:
  "get_bytes n r =
     (if length (rd_data r) - rd_pos r < n then (None, r)
      else (Some (be_value (take n (drop (rd_pos r) (rd_data r)))), r\<lparr>rd_pos := rd_pos r + n\<rparr>))"
proof -
  have "fold (\<lambda>i v. be_step v (xs ! (p + i))) [0..<n] s = fold (\<lambda>b v. be_step v b) (take n (drop p xs)) s"
    if "n \<le> length xs - p" for xs p n and s :: "'a word"
    using that
  proof (induction n)
    case (Suc n)
    then show ?case by (simp add: take_Suc_conv_app_nth)
  qed simp
  then show ?thesis by (simp add: get_bytes_def be_value_def remaining_def)
qed

section \<open>Fixed-width fields\<close>

locale field_codec =
  fixes put :: "'v \<Rightarrow> byte list \<Rightarrow> byte list" and get :: "ByteReader \<Rightarrow> 'v option \<times> ByteReader"
    and enc :: "'v \<Rightarrow> byte list" and dec :: "byte list \<Rightarrow> 'v" and size :: nat
  assumes put: "put v buf = buf @ enc v"
    and get: "get r = (if length (rd_data r) - rd_pos r < size then (None, r)
        else (Some (dec (take size (drop (rd_pos r) (rd_data r)))), r\<lparr>rd_pos := rd_pos r + size\<rparr>))"
    and enc_size: "length (enc v) = size"
    and dec_enc: "dec (enc v) = v"
    and enc_dec: "length bs = size \<Longrightarrow> enc (dec bs) = bs"
begin

lemma put_get: "get \<lparr>rd_data = put v pre @ post, rd_pos = length pre\<rparr> =
    (Some v, \<lparr>rd_data = put v pre @ post, rd_pos = length (put v pre)\<rparr>)"
  by (simp add: get put enc_size dec_enc)

lemma get_none: "fst (get r) = None \<longleftrightarrow> remaining r < size"
  by (simp add: get remaining_def)

lemma enc_inj: "enc v = enc w \<longleftrightarrow> v = w"
  using dec_enc by metis

lemma enc_slice: "a + size \<le> length xs \<Longrightarrow> enc (dec (take size (drop a xs))) = take size (drop a xs)"
  by (intro enc_dec) simp

end

definition id_byte :: "byte \<Rightarrow> byte list" where
  "id_byte v = [v]"

interpretation u8: field_codec put_u8 get_u8 id_byte hd 1
proof
  show "get_u8 r = (if length (rd_data r) - rd_pos r < 1 then (None, r)
      else (Some (hd (take 1 (drop (rd_pos r) (rd_data r)))), r\<lparr>rd_pos := rd_pos r + 1\<rparr>))" for r
    by (simp add: get_u8_def remaining_def hd_drop_conv_nth)
qed (auto simp: put_u8_def id_byte_def length_Suc_conv)

interpretation u16: field_codec put_u16 get_u16 "be_bytes 2" be_value 2
  by unfold_locales (simp_all add: put_bytes get_u16_def get_bytes_value be_value_bytes be_bytes_value)

interpretation u32: field_codec put_u32 get_u32 "be_bytes 4" be_value 4
  by unfold_locales (simp_all add: put_bytes get_u32_def get_bytes_value be_value_bytes be_bytes_value)

interpretation u64: field_codec put_u64 get_u64 "be_bytes 8" be_value 8
  by unfold_locales (simp_all add: put_bytes get_u64_def get_bytes_value be_value_bytes be_bytes_value)

interpretation i64: field_codec put_i64 get_i64 "be_bytes 8" be_value 8
  by unfold_locales (simp_all add: put_i64_def u64.put get_i64_def u64.get be_value_bytes be_bytes_value)

lemmas field_puts = u8.put u16.put u32.put u64.put i64.put id_byte_def
lemmas field_gets = u8.get u16.get u32.get u64.get i64.get
lemmas field_slices = u16.dec_enc u32.dec_enc u64.dec_enc be_bytes_value

lemma take_drop_join: "b = a + n \<Longrightarrow> take n (drop a xs) @ drop b xs = drop a xs"
  by (metis append_take_drop_id drop_drop add.commute)

lemma byte_drop_join: "a < length xs \<Longrightarrow> b = Suc a \<Longrightarrow> xs ! a # drop b xs = drop a xs"
  by (simp add: Cons_nth_drop_Suc)

lemma byte_last: "length xs = Suc a \<Longrightarrow> [xs ! a] = drop a xs"
  by (simp add: byte_drop_join [symmetric])

lemmas slice_joins = field_slices take_drop_join byte_drop_join byte_last hd_drop_conv_nth
  \<comment> \<open>a payload read field by field is the concatenation of its fields\<close>

section \<open>Framed messages\<close>

text \<open>
  What the users of a wire format (the gateway, the journal, the packet reader) rely on: a decoder
  that reads one message off the front of a buffer, and accepts exactly the encoder's output.
\<close>

locale framing =
  fixes enc :: "'m \<Rightarrow> byte list" and dec :: "byte list \<Rightarrow> 'e + 'm"
  assumes dec_enc: "dec (enc m @ rest) = Inr m"
    and enc_dec: "dec data = Inr m \<Longrightarrow> take (length (enc m)) data = enc m"
    and enc_nonempty: "enc m \<noteq> []"
begin

lemma dec_iff: "dec data = Inr m \<longleftrightarrow> (\<exists>rest. data = enc m @ rest)"
proof
  assume "dec data = Inr m"
  then show "\<exists>rest. data = enc m @ rest" using enc_dec [of data m] by (metis append_take_drop_id)
qed (auto simp: dec_enc)

lemma enc_append_inject: "enc m @ r = enc m' @ r' \<longleftrightarrow> m = m' \<and> r = r'"
proof
  assume a: "enc m @ r = enc m' @ r'"
  then have "m = m'" using dec_enc [of m r] dec_enc [of m' r'] by simp
  then show "m = m' \<and> r = r'" using a by simp
qed simp

lemma enc_inject: "enc m = enc m' \<longleftrightarrow> m = m'"
  using enc_append_inject [of m "[]" m' "[]"] by simp

lemma stream_inject: "concat (map enc ms) = concat (map enc ms') \<longleftrightarrow> ms = ms'"
proof
  show "concat (map enc ms) = concat (map enc ms') \<Longrightarrow> ms = ms'"
  proof (induction ms arbitrary: ms')
    case Nil
    then show ?case by (cases ms') (simp_all add: enc_nonempty)
  next
    case (Cons m ms)
    then show ?case by (cases ms') (auto simp: enc_nonempty enc_append_inject)
  qed
qed simp

lemma prefix_free: "m \<noteq> m' \<Longrightarrow> take n (enc m) \<noteq> enc m'"
  using enc_append_inject [of m' "drop n (enc m)" m "[]"] by (metis append_Nil2 append_take_drop_id)

end

end
