(* ===== verification/WireEnums.thy ===== *)
theory WireEnums
  imports ByteIO Domain
begin

text \<open>
  The enums of the exchange on the wire: one byte each, the underlying value of the C++ enumerator. Both
  the order-entry format and the command journal write them this way; a decoder checks the byte before it
  converts it back (\<open>static_cast\<close>).
\<close>

section \<open>Writing\<close>

fun raw_of_side :: "Side \<Rightarrow> u8" where
  "raw_of_side Buy = 0"
| "raw_of_side Sell = 1"

fun raw_of_order_type :: "OrderType \<Rightarrow> u8" where
  "raw_of_order_type Limit = 0"

fun raw_of_time_in_force :: "TimeInForce \<Rightarrow> u8" where
  "raw_of_time_in_force GTC = 0"
| "raw_of_time_in_force IOC = 1"
| "raw_of_time_in_force FOK = 2"

fun raw_of_reject_reason :: "RejectReason \<Rightarrow> u8" where
  "raw_of_reject_reason NoReason = 0"
| "raw_of_reject_reason InvalidPrice = 1"
| "raw_of_reject_reason InvalidQuantity = 2"
| "raw_of_reject_reason DuplicateOrderId = 3"
| "raw_of_reject_reason UnknownOrderId = 4"
| "raw_of_reject_reason InvalidInstrument = 5"
| "raw_of_reject_reason InsufficientLiquidity = 6"
| "raw_of_reject_reason InvalidReplacement = 7"
| "raw_of_reject_reason InternalError = 8"
| "raw_of_reject_reason InsufficientFunds = 9"
| "raw_of_reject_reason InsufficientPosition = 10"
| "raw_of_reject_reason OrderTooLarge = 11"
| "raw_of_reject_reason AccountMismatch = 12"

definition put_side :: "Side \<Rightarrow> byte list \<Rightarrow> byte list" where
  "put_side s out = put_u8 (raw_of_side s) out"

definition put_order_type :: "OrderType \<Rightarrow> byte list \<Rightarrow> byte list" where
  "put_order_type t out = put_u8 (raw_of_order_type t) out"

definition put_time_in_force :: "TimeInForce \<Rightarrow> byte list \<Rightarrow> byte list" where
  "put_time_in_force t out = put_u8 (raw_of_time_in_force t) out"

definition put_reject_reason :: "RejectReason \<Rightarrow> byte list \<Rightarrow> byte list" where
  "put_reject_reason t out = put_u8 (raw_of_reject_reason t) out"

section \<open>Validating and reading back\<close>

definition is_valid_side :: "u8 \<Rightarrow> bool" where
  "is_valid_side raw \<longleftrightarrow> raw = 0 \<or> raw = 1"

definition is_valid_order_type :: "u8 \<Rightarrow> bool" where
  "is_valid_order_type raw \<longleftrightarrow> raw = 0"

definition is_valid_time_in_force :: "u8 \<Rightarrow> bool" where
  "is_valid_time_in_force raw \<longleftrightarrow> raw \<in> {0, 1, 2}"

definition is_valid_reject_reason :: "u8 \<Rightarrow> bool" where
  "is_valid_reject_reason raw \<longleftrightarrow> raw \<in> {0, 1, 2, 3, 4, 5, 6, 7, 8, 9, 10, 11, 12}"

text \<open>\<open>static_cast\<close> from a byte that was checked.\<close>

definition side_of_raw :: "u8 \<Rightarrow> Side" where
  "side_of_raw raw = (if raw = 0 then Buy else Sell)"

definition order_type_of_raw :: "u8 \<Rightarrow> OrderType" where
  "order_type_of_raw raw = Limit"

definition time_in_force_of_raw :: "u8 \<Rightarrow> TimeInForce" where
  "time_in_force_of_raw raw = (if raw = 0 then GTC else if raw = 1 then IOC else FOK)"

definition reject_reason_of_raw :: "u8 \<Rightarrow> RejectReason" where
  "reject_reason_of_raw raw =
     [NoReason, InvalidPrice, InvalidQuantity, DuplicateOrderId, UnknownOrderId, InvalidInstrument, InsufficientLiquidity,
      InvalidReplacement, InternalError, InsufficientFunds, InsufficientPosition, OrderTooLarge, AccountMismatch] ! unat raw"

lemma side_raw [simp]: "is_valid_side (raw_of_side s)" "side_of_raw (raw_of_side s) = s"
  by (cases s; simp add: is_valid_side_def side_of_raw_def)+

lemma order_type_raw [simp]: "is_valid_order_type (raw_of_order_type t)" "order_type_of_raw (raw_of_order_type t) = t"
  by (cases t; simp add: is_valid_order_type_def order_type_of_raw_def)+

lemma time_in_force_raw [simp]:
  "is_valid_time_in_force (raw_of_time_in_force t)" "time_in_force_of_raw (raw_of_time_in_force t) = t"
  by (cases t; simp add: is_valid_time_in_force_def time_in_force_of_raw_def)+

lemma reject_reason_raw [simp]:
  "is_valid_reject_reason (raw_of_reject_reason r)" "reject_reason_of_raw (raw_of_reject_reason r) = r"
  by (cases r; simp add: is_valid_reject_reason_def reject_reason_of_raw_def)+

lemma raw_side: "is_valid_side x \<Longrightarrow> raw_of_side (side_of_raw x) = x"
  by (auto simp: is_valid_side_def side_of_raw_def)

lemma raw_order_type: "is_valid_order_type x \<Longrightarrow> raw_of_order_type (order_type_of_raw x) = x"
  by (auto simp: is_valid_order_type_def order_type_of_raw_def)

lemma raw_time_in_force: "is_valid_time_in_force x \<Longrightarrow> raw_of_time_in_force (time_in_force_of_raw x) = x"
  by (auto simp: is_valid_time_in_force_def time_in_force_of_raw_def)

lemma raw_reject_reason: "is_valid_reject_reason x \<Longrightarrow> raw_of_reject_reason (reject_reason_of_raw x) = x"
  by (auto simp: is_valid_reject_reason_def reject_reason_of_raw_def)

lemmas raw_inverses = raw_side raw_order_type raw_time_in_force raw_reject_reason
lemmas put_enum_defs = put_side_def put_order_type_def put_time_in_force_def put_reject_reason_def

end
