(* ===== verification/OrderEntryCodec.thy ===== *)
theory OrderEntryCodec
  imports WireEnums
begin

text \<open>
  The order-entry wire format: \<open>src/include/protocol/order_entry/messages.hpp\<close>, the encoder and the decoder
  of \<open>src/src/protocol/order_entry/\<close>. A frame is a type byte, a 16-bit payload size and a payload of the
  size its type fixes. A \<open>std::variant\<close> of a value and a \<open>DecodeError\<close> is a sum; a decoder reads every
  field before it looks at any of them, as the code does.
\<close>

section \<open>Messages\<close>

definition HEADER_SIZE :: nat where
  "HEADER_SIZE = 3"

datatype MessageType =
    MT_NewOrder
  | MT_CancelOrder
  | MT_ReplaceOrder
  | MT_Accepted
  | MT_Rejected
  | MT_Cancelled
  | MT_Replaced
  | MT_TradeReport

fun raw_of_type :: "MessageType \<Rightarrow> u8" where
  "raw_of_type MT_NewOrder = 1"
| "raw_of_type MT_CancelOrder = 2"
| "raw_of_type MT_ReplaceOrder = 3"
| "raw_of_type MT_Accepted = 10"
| "raw_of_type MT_Rejected = 11"
| "raw_of_type MT_Cancelled = 12"
| "raw_of_type MT_Replaced = 13"
| "raw_of_type MT_TradeReport = 14"

record Header =
  fh_type :: MessageType
  fh_payload_size :: u16

record NewOrder =
  no_account_id :: AccountId
  no_client_order_id :: ClientOrderId
  no_instrument_id :: InstrumentId
  no_side :: Side
  no_price :: Price
  no_quantity :: Quantity
  no_order_type :: OrderType
  no_time_in_force :: TimeInForce

record CancelOrder =
  co_account_id :: AccountId
  co_client_order_id :: ClientOrderId
  co_instrument_id :: InstrumentId

record ReplaceOrder =
  rp_account_id :: AccountId
  rp_original_client_order_id :: ClientOrderId
  rp_new_client_order_id :: ClientOrderId
  rp_instrument_id :: InstrumentId
  rp_new_price :: Price
  rp_new_quantity :: Quantity

record Accepted =
  ac_account_id :: AccountId
  ac_client_order_id :: ClientOrderId
  ac_exchange_order_id :: ExchangeOrderId
  ac_instrument_id :: InstrumentId
  ac_side :: Side
  ac_price :: Price
  ac_quantity :: Quantity
  ac_order_type :: OrderType
  ac_time_in_force :: TimeInForce

record Rejected =
  rj_account_id :: AccountId
  rj_client_order_id :: ClientOrderId
  rj_instrument_id :: InstrumentId
  rj_reason :: RejectReason

record Cancelled =
  cl_account_id :: AccountId
  cl_client_order_id :: ClientOrderId
  cl_exchange_order_id :: ExchangeOrderId
  cl_instrument_id :: InstrumentId

record Replaced =
  rl_account_id :: AccountId
  rl_original_client_order_id :: ClientOrderId
  rl_new_client_order_id :: ClientOrderId
  rl_exchange_order_id :: ExchangeOrderId
  rl_instrument_id :: InstrumentId
  rl_new_price :: Price
  rl_new_quantity :: Quantity

record TradeReport =
  tr_account_id :: AccountId
  tr_client_order_id :: ClientOrderId
  tr_exchange_order_id :: ExchangeOrderId
  tr_instrument_id :: InstrumentId
  tr_price :: Price
  tr_quantity :: Quantity
  tr_remaining_quantity :: Quantity

datatype Message =
    NewOrderM NewOrder
  | CancelOrderM CancelOrder
  | ReplaceOrderM ReplaceOrder
  | AcceptedM Accepted
  | RejectedM Rejected
  | CancelledM Cancelled
  | ReplacedM Replaced
  | TradeReportM TradeReport

fun payload_size_for :: "MessageType \<Rightarrow> nat" where
  "payload_size_for MT_NewOrder = 8 + 8 + 4 + 1 + 8 + 8 + 1 + 1"
| "payload_size_for MT_CancelOrder = 8 + 8 + 4"
| "payload_size_for MT_ReplaceOrder = 8 + 8 + 8 + 4 + 8 + 8"
| "payload_size_for MT_Accepted = 8 + 8 + 8 + 4 + 1 + 8 + 8 + 1 + 1"
| "payload_size_for MT_Rejected = 8 + 8 + 4 + 1"
| "payload_size_for MT_Cancelled = 8 + 8 + 8 + 4"
| "payload_size_for MT_Replaced = 8 + 8 + 8 + 8 + 4 + 8 + 8"
| "payload_size_for MT_TradeReport = 8 + 8 + 8 + 4 + 8 + 8 + 8"

datatype DecodeError =
    TruncatedHeader
  | TruncatedPayload
  | InvalidMessageType
  | InvalidMessageSize
  | InvalidSide
  | InvalidOrderType
  | InvalidTimeInForce
  | InvalidRejectReason

section \<open>Encoder\<close>

definition put_header :: "MessageType \<Rightarrow> u16 \<Rightarrow> byte list \<Rightarrow> byte list" where
  "put_header t payload_size out = put_u16 payload_size (put_u8 (raw_of_type t) out)"

fun encode_message :: "Message \<Rightarrow> byte list \<Rightarrow> byte list" where
  "encode_message (NewOrderM m) out =
    (let out = put_header MT_NewOrder (word_of_nat (payload_size_for MT_NewOrder)) out;
         out = put_u64 (no_account_id m) out;
         out = put_u64 (no_client_order_id m) out;
         out = put_u32 (no_instrument_id m) out;
         out = put_side (no_side m) out;
         out = put_i64 (no_price m) out;
         out = put_u64 (no_quantity m) out;
         out = put_order_type (no_order_type m) out;
         out = put_time_in_force (no_time_in_force m) out
     in out)"
| "encode_message (CancelOrderM m) out =
    (let out = put_header MT_CancelOrder (word_of_nat (payload_size_for MT_CancelOrder)) out;
         out = put_u64 (co_account_id m) out;
         out = put_u64 (co_client_order_id m) out;
         out = put_u32 (co_instrument_id m) out
     in out)"
| "encode_message (ReplaceOrderM m) out =
    (let out = put_header MT_ReplaceOrder (word_of_nat (payload_size_for MT_ReplaceOrder)) out;
         out = put_u64 (rp_account_id m) out;
         out = put_u64 (rp_original_client_order_id m) out;
         out = put_u64 (rp_new_client_order_id m) out;
         out = put_u32 (rp_instrument_id m) out;
         out = put_i64 (rp_new_price m) out;
         out = put_u64 (rp_new_quantity m) out
     in out)"
| "encode_message (AcceptedM m) out =
    (let out = put_header MT_Accepted (word_of_nat (payload_size_for MT_Accepted)) out;
         out = put_u64 (ac_account_id m) out;
         out = put_u64 (ac_client_order_id m) out;
         out = put_u64 (ac_exchange_order_id m) out;
         out = put_u32 (ac_instrument_id m) out;
         out = put_side (ac_side m) out;
         out = put_i64 (ac_price m) out;
         out = put_u64 (ac_quantity m) out;
         out = put_order_type (ac_order_type m) out;
         out = put_time_in_force (ac_time_in_force m) out
     in out)"
| "encode_message (RejectedM m) out =
    (let out = put_header MT_Rejected (word_of_nat (payload_size_for MT_Rejected)) out;
         out = put_u64 (rj_account_id m) out;
         out = put_u64 (rj_client_order_id m) out;
         out = put_u32 (rj_instrument_id m) out;
         out = put_reject_reason (rj_reason m) out
     in out)"
| "encode_message (CancelledM m) out =
    (let out = put_header MT_Cancelled (word_of_nat (payload_size_for MT_Cancelled)) out;
         out = put_u64 (cl_account_id m) out;
         out = put_u64 (cl_client_order_id m) out;
         out = put_u64 (cl_exchange_order_id m) out;
         out = put_u32 (cl_instrument_id m) out
     in out)"
| "encode_message (ReplacedM m) out =
    (let out = put_header MT_Replaced (word_of_nat (payload_size_for MT_Replaced)) out;
         out = put_u64 (rl_account_id m) out;
         out = put_u64 (rl_original_client_order_id m) out;
         out = put_u64 (rl_new_client_order_id m) out;
         out = put_u64 (rl_exchange_order_id m) out;
         out = put_u32 (rl_instrument_id m) out;
         out = put_i64 (rl_new_price m) out;
         out = put_u64 (rl_new_quantity m) out
     in out)"
| "encode_message (TradeReportM m) out =
    (let out = put_header MT_TradeReport (word_of_nat (payload_size_for MT_TradeReport)) out;
         out = put_u64 (tr_account_id m) out;
         out = put_u64 (tr_client_order_id m) out;
         out = put_u64 (tr_exchange_order_id m) out;
         out = put_u32 (tr_instrument_id m) out;
         out = put_i64 (tr_price m) out;
         out = put_u64 (tr_quantity m) out;
         out = put_u64 (tr_remaining_quantity m) out
     in out)"

section \<open>Decoder\<close>

definition is_known_type :: "u8 \<Rightarrow> bool" where
  "is_known_type raw \<longleftrightarrow> raw \<in> {1, 2, 3, 10, 11, 12, 13, 14}"

text \<open>\<open>static_cast\<close> from a byte that was checked.\<close>

definition type_of_raw :: "u8 \<Rightarrow> MessageType" where
  "type_of_raw raw =
     (if raw = 1 then MT_NewOrder else if raw = 2 then MT_CancelOrder else if raw = 3 then MT_ReplaceOrder
      else if raw = 10 then MT_Accepted else if raw = 11 then MT_Rejected else if raw = 12 then MT_Cancelled
      else if raw = 13 then MT_Replaced else MT_TradeReport)"

definition decode_header :: "byte list \<Rightarrow> DecodeError + Header" where
  "decode_header data =
     (if length data < HEADER_SIZE then Inl TruncatedHeader
      else
        let (oe_type_raw, r) = get_u8 (byte_reader (take HEADER_SIZE data));
            (payload_size, r) = get_u16 r
        in case do { oe_type_raw \<leftarrow> oe_type_raw; payload_size \<leftarrow> payload_size; Some (oe_type_raw, payload_size) } of
             None \<Rightarrow> Inl TruncatedHeader
           | Some (oe_type_raw, payload_size) \<Rightarrow>
               if \<not> is_known_type oe_type_raw then Inl InvalidMessageType
               else Inr \<lparr>fh_type = type_of_raw oe_type_raw, fh_payload_size = payload_size\<rparr>)"

text \<open>The cases of \<open>decode_message\<close>'s switch.\<close>

definition decode_no :: "ByteReader \<Rightarrow> DecodeError + Message" where
  "decode_no r0 =
     (let (account_id, r) = get_u64 r0;
          (client_order_id, r) = get_u64 r;
          (instrument_id, r) = get_u32 r;
          (side_raw, r) = get_u8 r;
          (price, r) = get_i64 r;
          (quantity, r) = get_u64 r;
          (order_type_raw, r) = get_u8 r;
          (tif_raw, r) = get_u8 r
      in case do { account_id \<leftarrow> account_id; client_order_id \<leftarrow> client_order_id; instrument_id \<leftarrow> instrument_id; side_raw \<leftarrow> side_raw; price \<leftarrow> price; quantity \<leftarrow> quantity; order_type_raw \<leftarrow> order_type_raw; tif_raw \<leftarrow> tif_raw;
                   Some (account_id, client_order_id, instrument_id, side_raw, price, quantity, order_type_raw, tif_raw) } of
           None \<Rightarrow> Inl TruncatedPayload
         | Some (account_id, client_order_id, instrument_id, side_raw, price, quantity, order_type_raw, tif_raw) \<Rightarrow>
             if \<not> is_valid_side side_raw then Inl InvalidSide
             else if \<not> is_valid_order_type order_type_raw then Inl InvalidOrderType
             else if \<not> is_valid_time_in_force tif_raw then Inl InvalidTimeInForce
             else Inr (NewOrderM \<lparr>no_account_id = account_id, no_client_order_id = client_order_id, no_instrument_id = instrument_id, no_side = side_of_raw side_raw, no_price = price, no_quantity = quantity, no_order_type = order_type_of_raw order_type_raw, no_time_in_force = time_in_force_of_raw tif_raw\<rparr>))"

definition decode_co :: "ByteReader \<Rightarrow> DecodeError + Message" where
  "decode_co r0 =
     (let (account_id, r) = get_u64 r0;
          (client_order_id, r) = get_u64 r;
          (instrument_id, r) = get_u32 r
      in case do { account_id \<leftarrow> account_id; client_order_id \<leftarrow> client_order_id; instrument_id \<leftarrow> instrument_id;
                   Some (account_id, client_order_id, instrument_id) } of
           None \<Rightarrow> Inl TruncatedPayload
         | Some (account_id, client_order_id, instrument_id) \<Rightarrow>
             Inr (CancelOrderM \<lparr>co_account_id = account_id, co_client_order_id = client_order_id, co_instrument_id = instrument_id\<rparr>))"

definition decode_rp :: "ByteReader \<Rightarrow> DecodeError + Message" where
  "decode_rp r0 =
     (let (account_id, r) = get_u64 r0;
          (original_client_order_id, r) = get_u64 r;
          (new_client_order_id, r) = get_u64 r;
          (instrument_id, r) = get_u32 r;
          (new_price, r) = get_i64 r;
          (new_quantity, r) = get_u64 r
      in case do { account_id \<leftarrow> account_id; original_client_order_id \<leftarrow> original_client_order_id; new_client_order_id \<leftarrow> new_client_order_id; instrument_id \<leftarrow> instrument_id; new_price \<leftarrow> new_price; new_quantity \<leftarrow> new_quantity;
                   Some (account_id, original_client_order_id, new_client_order_id, instrument_id, new_price, new_quantity) } of
           None \<Rightarrow> Inl TruncatedPayload
         | Some (account_id, original_client_order_id, new_client_order_id, instrument_id, new_price, new_quantity) \<Rightarrow>
             Inr (ReplaceOrderM \<lparr>rp_account_id = account_id, rp_original_client_order_id = original_client_order_id, rp_new_client_order_id = new_client_order_id, rp_instrument_id = instrument_id, rp_new_price = new_price, rp_new_quantity = new_quantity\<rparr>))"

definition decode_ac :: "ByteReader \<Rightarrow> DecodeError + Message" where
  "decode_ac r0 =
     (let (account_id, r) = get_u64 r0;
          (client_order_id, r) = get_u64 r;
          (exchange_order_id, r) = get_u64 r;
          (instrument_id, r) = get_u32 r;
          (side_raw, r) = get_u8 r;
          (price, r) = get_i64 r;
          (quantity, r) = get_u64 r;
          (order_type_raw, r) = get_u8 r;
          (tif_raw, r) = get_u8 r
      in case do { account_id \<leftarrow> account_id; client_order_id \<leftarrow> client_order_id; exchange_order_id \<leftarrow> exchange_order_id; instrument_id \<leftarrow> instrument_id; side_raw \<leftarrow> side_raw; price \<leftarrow> price; quantity \<leftarrow> quantity; order_type_raw \<leftarrow> order_type_raw; tif_raw \<leftarrow> tif_raw;
                   Some (account_id, client_order_id, exchange_order_id, instrument_id, side_raw, price, quantity, order_type_raw, tif_raw) } of
           None \<Rightarrow> Inl TruncatedPayload
         | Some (account_id, client_order_id, exchange_order_id, instrument_id, side_raw, price, quantity, order_type_raw, tif_raw) \<Rightarrow>
             if \<not> is_valid_side side_raw then Inl InvalidSide
             else if \<not> is_valid_order_type order_type_raw then Inl InvalidOrderType
             else if \<not> is_valid_time_in_force tif_raw then Inl InvalidTimeInForce
             else Inr (AcceptedM \<lparr>ac_account_id = account_id, ac_client_order_id = client_order_id, ac_exchange_order_id = exchange_order_id, ac_instrument_id = instrument_id, ac_side = side_of_raw side_raw, ac_price = price, ac_quantity = quantity, ac_order_type = order_type_of_raw order_type_raw, ac_time_in_force = time_in_force_of_raw tif_raw\<rparr>))"

definition decode_rj :: "ByteReader \<Rightarrow> DecodeError + Message" where
  "decode_rj r0 =
     (let (account_id, r) = get_u64 r0;
          (client_order_id, r) = get_u64 r;
          (instrument_id, r) = get_u32 r;
          (reason_raw, r) = get_u8 r
      in case do { account_id \<leftarrow> account_id; client_order_id \<leftarrow> client_order_id; instrument_id \<leftarrow> instrument_id; reason_raw \<leftarrow> reason_raw;
                   Some (account_id, client_order_id, instrument_id, reason_raw) } of
           None \<Rightarrow> Inl TruncatedPayload
         | Some (account_id, client_order_id, instrument_id, reason_raw) \<Rightarrow>
             if \<not> is_valid_reject_reason reason_raw then Inl InvalidRejectReason
             else Inr (RejectedM \<lparr>rj_account_id = account_id, rj_client_order_id = client_order_id, rj_instrument_id = instrument_id, rj_reason = reject_reason_of_raw reason_raw\<rparr>))"

definition decode_cl :: "ByteReader \<Rightarrow> DecodeError + Message" where
  "decode_cl r0 =
     (let (account_id, r) = get_u64 r0;
          (client_order_id, r) = get_u64 r;
          (exchange_order_id, r) = get_u64 r;
          (instrument_id, r) = get_u32 r
      in case do { account_id \<leftarrow> account_id; client_order_id \<leftarrow> client_order_id; exchange_order_id \<leftarrow> exchange_order_id; instrument_id \<leftarrow> instrument_id;
                   Some (account_id, client_order_id, exchange_order_id, instrument_id) } of
           None \<Rightarrow> Inl TruncatedPayload
         | Some (account_id, client_order_id, exchange_order_id, instrument_id) \<Rightarrow>
             Inr (CancelledM \<lparr>cl_account_id = account_id, cl_client_order_id = client_order_id, cl_exchange_order_id = exchange_order_id, cl_instrument_id = instrument_id\<rparr>))"

definition decode_rl :: "ByteReader \<Rightarrow> DecodeError + Message" where
  "decode_rl r0 =
     (let (account_id, r) = get_u64 r0;
          (original_client_order_id, r) = get_u64 r;
          (new_client_order_id, r) = get_u64 r;
          (exchange_order_id, r) = get_u64 r;
          (instrument_id, r) = get_u32 r;
          (new_price, r) = get_i64 r;
          (new_quantity, r) = get_u64 r
      in case do { account_id \<leftarrow> account_id; original_client_order_id \<leftarrow> original_client_order_id; new_client_order_id \<leftarrow> new_client_order_id; exchange_order_id \<leftarrow> exchange_order_id; instrument_id \<leftarrow> instrument_id; new_price \<leftarrow> new_price; new_quantity \<leftarrow> new_quantity;
                   Some (account_id, original_client_order_id, new_client_order_id, exchange_order_id, instrument_id, new_price, new_quantity) } of
           None \<Rightarrow> Inl TruncatedPayload
         | Some (account_id, original_client_order_id, new_client_order_id, exchange_order_id, instrument_id, new_price, new_quantity) \<Rightarrow>
             Inr (ReplacedM \<lparr>rl_account_id = account_id, rl_original_client_order_id = original_client_order_id, rl_new_client_order_id = new_client_order_id, rl_exchange_order_id = exchange_order_id, rl_instrument_id = instrument_id, rl_new_price = new_price, rl_new_quantity = new_quantity\<rparr>))"

definition decode_tr :: "ByteReader \<Rightarrow> DecodeError + Message" where
  "decode_tr r0 =
     (let (account_id, r) = get_u64 r0;
          (client_order_id, r) = get_u64 r;
          (exchange_order_id, r) = get_u64 r;
          (instrument_id, r) = get_u32 r;
          (price, r) = get_i64 r;
          (quantity, r) = get_u64 r;
          (remaining_quantity, r) = get_u64 r
      in case do { account_id \<leftarrow> account_id; client_order_id \<leftarrow> client_order_id; exchange_order_id \<leftarrow> exchange_order_id; instrument_id \<leftarrow> instrument_id; price \<leftarrow> price; quantity \<leftarrow> quantity; remaining_quantity \<leftarrow> remaining_quantity;
                   Some (account_id, client_order_id, exchange_order_id, instrument_id, price, quantity, remaining_quantity) } of
           None \<Rightarrow> Inl TruncatedPayload
         | Some (account_id, client_order_id, exchange_order_id, instrument_id, price, quantity, remaining_quantity) \<Rightarrow>
             Inr (TradeReportM \<lparr>tr_account_id = account_id, tr_client_order_id = client_order_id, tr_exchange_order_id = exchange_order_id, tr_instrument_id = instrument_id, tr_price = price, tr_quantity = quantity, tr_remaining_quantity = remaining_quantity\<rparr>))"

definition decode_message :: "byte list \<Rightarrow> DecodeError + Message" where
  "decode_message data =
     (case decode_header data of
        Inl e \<Rightarrow> Inl e
      | Inr header \<Rightarrow>
          if unat (fh_payload_size header) \<noteq> payload_size_for (fh_type header) then Inl InvalidMessageSize
          else if length data < HEADER_SIZE + unat (fh_payload_size header) then Inl TruncatedPayload
          else
            let r = byte_reader (take (unat (fh_payload_size header)) (drop HEADER_SIZE data))
            in case fh_type header of
                 MT_NewOrder \<Rightarrow> decode_no r
               | MT_CancelOrder \<Rightarrow> decode_co r
               | MT_ReplaceOrder \<Rightarrow> decode_rp r
               | MT_Accepted \<Rightarrow> decode_ac r
               | MT_Rejected \<Rightarrow> decode_rj r
               | MT_Cancelled \<Rightarrow> decode_cl r
               | MT_Replaced \<Rightarrow> decode_rl r
               | MT_TradeReport \<Rightarrow> decode_tr r)"

section \<open>Round trip\<close>

lemma oe_type_raw [simp]: "is_known_type (raw_of_type t)" "type_of_raw (raw_of_type t) = t"
  by (cases t; simp add: is_known_type_def type_of_raw_def)+

lemma oe_raw_type: "is_known_type x \<Longrightarrow> raw_of_type (type_of_raw x) = x"
  by (auto simp: is_known_type_def type_of_raw_def)

lemmas oe_put_defs = put_header_def put_enum_defs

fun type_of :: "Message \<Rightarrow> MessageType" where
  "type_of (NewOrderM m) = MT_NewOrder"
| "type_of (CancelOrderM m) = MT_CancelOrder"
| "type_of (ReplaceOrderM m) = MT_ReplaceOrder"
| "type_of (AcceptedM m) = MT_Accepted"
| "type_of (RejectedM m) = MT_Rejected"
| "type_of (CancelledM m) = MT_Cancelled"
| "type_of (ReplacedM m) = MT_Replaced"
| "type_of (TradeReportM m) = MT_TradeReport"

definition payload :: "Message \<Rightarrow> byte list" where
  "payload m = drop HEADER_SIZE (encode_message m [])"

lemma oe_encode_split:
  "encode_message m out = out @ [raw_of_type (type_of m)] @ be_bytes 2 (word_of_nat (payload_size_for (type_of m)) :: u16) @ payload m"
  by (cases m) (simp_all add: payload_def HEADER_SIZE_def oe_put_defs field_puts Let_def)

lemma oe_length_payload [simp]: "length (payload m) = payload_size_for (type_of m)"
  by (cases m) (simp_all add: payload_def HEADER_SIZE_def oe_put_defs field_puts Let_def)

lemma oe_size_fits [simp]: "unat (word_of_nat (payload_size_for t) :: u16) = payload_size_for t"
  by (cases t) simp_all

lemma decode_header_frame:
  "decode_header (raw_of_type t # be_bytes 2 (n :: u16) @ rest) = Inr \<lparr>fh_type = t, fh_payload_size = n\<rparr>"
  by (simp add: decode_header_def HEADER_SIZE_def byte_reader_def u8.get u16.get Let_def be_value_bytes)

lemmas oe_decode_payload_defs = decode_no_def decode_co_def decode_rp_def decode_ac_def decode_rj_def decode_cl_def
  decode_rl_def decode_tr_def

fun decode_payload :: "MessageType \<Rightarrow> ByteReader \<Rightarrow> DecodeError + Message" where
  "decode_payload MT_NewOrder r = decode_no r"
| "decode_payload MT_CancelOrder r = decode_co r"
| "decode_payload MT_ReplaceOrder r = decode_rp r"
| "decode_payload MT_Accepted r = decode_ac r"
| "decode_payload MT_Rejected r = decode_rj r"
| "decode_payload MT_Cancelled r = decode_cl r"
| "decode_payload MT_Replaced r = decode_rl r"
| "decode_payload MT_TradeReport r = decode_tr r"

lemma decode_message_payload:
  "decode_message data =
     (case decode_header data of
        Inl e \<Rightarrow> Inl e
      | Inr header \<Rightarrow>
          if unat (fh_payload_size header) \<noteq> payload_size_for (fh_type header) then Inl InvalidMessageSize
          else if length data < HEADER_SIZE + unat (fh_payload_size header) then Inl TruncatedPayload
          else decode_payload (fh_type header)
                 (byte_reader (take (unat (fh_payload_size header)) (drop HEADER_SIZE data))))"
  by (simp add: decode_message_def Let_def split: sum.split MessageType.split)

lemma decode_frame:
  "decode_message (raw_of_type t # be_bytes 2 (word_of_nat (payload_size_for t) :: u16) @ rest) =
     (if length rest < payload_size_for t then Inl TruncatedPayload
      else decode_payload t (byte_reader (take (payload_size_for t) rest)))"
  by (simp add: decode_message_payload decode_header_frame HEADER_SIZE_def)

lemma oe_decode_payload_of: "decode_payload (type_of m) (byte_reader (payload m)) = Inr m"
  by (cases m) (simp_all add: payload_def HEADER_SIZE_def oe_put_defs field_puts Let_def oe_decode_payload_defs
      byte_reader_def field_gets field_slices)

lemma oe_decode_encode: "decode_message (encode_message m [] @ rest) = Inr m"
  by (simp add: oe_encode_split decode_frame oe_decode_payload_of)

lemma decode_prefix:
  assumes "n < length (encode_message m [])"
  shows "decode_message (take n (encode_message m [])) = Inl (if n < HEADER_SIZE then TruncatedHeader else TruncatedPayload)"
proof (cases "n < HEADER_SIZE")
  case True
  then show ?thesis using assms by (simp add: decode_message_def decode_header_def)
next
  case False
  then obtain k where k: "n = 3 + k" by (auto simp: HEADER_SIZE_def le_iff_add not_less)
  have "take n (a # be_bytes 2 (w :: u16) @ xs) = a # be_bytes 2 w @ take k xs" for a w xs
    unfolding k by (simp add: numeral_3_eq_3)
  then show ?thesis using assms False k
    by (simp add: oe_encode_split decode_frame)
qed

lemma oe_canonical_payload:
  assumes "decode_payload t (byte_reader xs) = Inr m" "length xs = payload_size_for t"
  shows "type_of m = t \<and> payload m = xs"
  using assms
  by (cases t)
    (auto simp: oe_decode_payload_defs byte_reader_def field_gets Let_def payload_def HEADER_SIZE_def oe_put_defs field_puts
      oe_raw_type raw_inverses slice_joins split: if_splits)

lemma encode_payload: "encode_message m [] = raw_of_type (type_of m) # be_bytes 2 (word_of_nat (payload_size_for (type_of m)) :: u16) @ payload m"
  by (simp add: oe_encode_split)

lemma oe_decode_canonical:
  assumes "decode_message data = Inr m"
  shows "take (length (encode_message m [])) data = encode_message m []"
proof -
  obtain b w rest where data: "data = b # be_bytes 2 (w :: u16) @ rest" "is_known_type b"
    "unat w = payload_size_for (type_of_raw b)" "\<not> length rest < unat w"
    "decode_payload (type_of_raw b) (byte_reader (take (unat w) rest)) = Inr m"
  proof -
    have l: "\<not> length data < 3" using assms by (auto simp: decode_message_payload decode_header_def HEADER_SIZE_def)
    then obtain b c d rest where d: "data = [b, c, d] @ rest"
      by (auto simp: numeral_3_eq_3 not_less Suc_le_length_iff)
    have "[c, d] = be_bytes 2 (be_value [c, d] :: u16)" by (simp add: be_bytes_value)
    then obtain w where w: "[c, d] = be_bytes 2 (w :: u16)" by blast
    have "decode_header data = (if is_known_type b then Inr \<lparr>fh_type = type_of_raw b, fh_payload_size = w\<rparr> else Inl InvalidMessageType)"
      using d w by (simp add: decode_header_def HEADER_SIZE_def byte_reader_def field_gets Let_def be_value_bytes)
    then show ?thesis using assms d w
      by (intro that [of b w rest]) (auto simp: decode_message_payload HEADER_SIZE_def split: if_splits)
  qed
  let ?t = "type_of_raw b"
  have m: "type_of m = ?t" "payload m = take (unat w) rest"
    using oe_canonical_payload [OF data(5)] data(3,4) by simp_all
  have "w = word_of_nat (payload_size_for ?t)" by (simp add: data(3) [symmetric] of_nat_unat)
  then have "encode_message m [] = b # be_bytes 2 w @ take (unat w) rest"
    using m data(2) by (simp add: encode_payload oe_raw_type)
  then show ?thesis using data(1,3,4) by simp
qed

lemma oe_encode_append: "encode_message m out = out @ encode_message m []"
  by (simp add: oe_encode_split)

interpretation order_entry: framing "\<lambda>m. encode_message m []" decode_message
  by (unfold_locales, rule oe_decode_encode, erule oe_decode_canonical, simp add: oe_encode_split)

section \<open>Properties\<close>

text \<open>C19. The order-entry format is unambiguous: \<open>decode_message\<close> accepts a buffer with the result
  \<open>m\<close> exactly when the buffer starts with the encoding of \<open>m\<close>.\<close>

theorem order_entry_decodes_exactly_its_encodings:
  "decode_message data = Inr m \<longleftrightarrow> (\<exists>rest. data = encode_message m [] @ rest)"
  by (rule order_entry.dec_iff)

text \<open>A truncated order-entry frame is an error of its own: every strict prefix of an encoding
  is reported as a truncated header or, from the header on, as a truncated payload.\<close>

theorem truncated_order_entry_frame:
  assumes "n < length (encode_message m [])"
  shows "decode_message (take n (encode_message m [])) = Inl (if n < 3 then TruncatedHeader else TruncatedPayload)"
  using decode_prefix [OF assms] by (simp add: HEADER_SIZE_def)

definition sample_cancel :: Message where
  "sample_cancel = CancelOrderM \<lparr>co_account_id = 7, co_client_order_id = 300, co_instrument_id = 1\<rparr>"

lemma truncated_order_entry_frame_witness:
  "decode_message (take 10 (encode_message sample_cancel [])) = Inl TruncatedPayload"
proof -
  have "10 < length (encode_message sample_cancel [])" by (simp add: sample_cancel_def oe_encode_split)
  from truncated_order_entry_frame [OF this] show ?thesis by simp
qed

end
