(* ===== verification/ReferenceExchange.thy ===== *)
theory ReferenceExchange
  imports EngineProperties
begin

text \<open>
  A textbook exchange as the engine's specification: per instrument and side a list of orders in priority
  order, a set of traded instruments and two counters. Each command is one equation over these lists; no
  slab, handles, price levels, bands or directory. \<open>engine_step\<close> shows that the engine implements it, so
  what an engine emits depends on the lists alone: not on the width of its price band, the way its
  handles were dealt or the order its instruments were registered in.
\<close>

section \<open>The specification\<close>

record Exchange =
  xc_known :: "InstrumentId set"
  xc_book :: "InstrumentId \<Rightarrow> Side \<Rightarrow> BookOrder list"
  xc_next_id :: ExchangeOrderId
  xc_next_event :: EventSequence

type_synonym Take = "BookOrder \<times> Quantity" \<comment> \<open>a resting order and what was traded with it\<close>

fun take_from :: "Side \<Rightarrow> Price \<Rightarrow> Quantity \<Rightarrow> BookOrder list \<Rightarrow> Take list \<times> Quantity \<times> BookOrder list" where
  "take_from sd p q [] = ([], q, [])"
| "take_from sd p q (b # bs) =
     (if q = 0 \<or> \<not> crosses (contra_side sd) p (bo_price b) then ([], q, b # bs)
      else let t = min q (bo_remaining_quantity b);
               left = bo_remaining_quantity b - t
           in if left = 0 then (case take_from sd p (q - t) bs of (ts, q', bs') \<Rightarrow> ((b, t) # ts, q', bs'))
              else ([(b, t)], q - t, set_quantity left b # bs))"

definition queue_up :: "Side \<Rightarrow> BookOrder \<Rightarrow> BookOrder list \<Rightarrow> BookOrder list" where
  \<comment> \<open>behind every order of the same or a better price\<close>
  "queue_up sd b bs =
     takeWhile (\<lambda>c. prio sd (bo_price c) \<le> prio sd (bo_price b)) bs @ [b] @
     dropWhile (\<lambda>c. prio sd (bo_price c) \<le> prio sd (bo_price b)) bs"

definition book_keys :: "(Side \<Rightarrow> BookOrder list) \<Rightarrow> LiveKey set" where
  "book_keys v = key_of ` (set (v Buy) \<union> set (v Sell))"

definition open_order :: "LiveKey \<Rightarrow> (Side \<Rightarrow> BookOrder list) \<Rightarrow> BookOrder option" where
  "open_order k v = find (\<lambda>b. key_of b = k) (v Buy @ v Sell)"

definition take_events :: "ExchangeRestingOrder \<Rightarrow> CommandSequence \<Rightarrow> EventSequence \<Rightarrow> Take list \<Rightarrow> Quantity \<Rightarrow> ExchangeEvent list" where
  "take_events order cs n ts q' = placed_events cs order n (map (Pair 0) ts) q'"

definition place_in :: "CommandSequence \<Rightarrow> ExchangeRestingOrder \<Rightarrow> EventSequence \<Rightarrow> (Side \<Rightarrow> BookOrder list) \<Rightarrow>
    (Side \<Rightarrow> BookOrder list) \<times> ExchangeEvent list" where
  \<comment> \<open>take from the other side, then queue up what is left of a GTC order\<close>
  "place_in cs order n v =
     (let sd = ro_side order in
      case take_from sd (ro_price order) (ro_remaining_quantity order) (v (contra_side sd)) of
        (ts, q', bs) \<Rightarrow>
          let v1 = v(contra_side sd := bs)
          in (if ro_time_in_force order = GTC \<and> q' \<noteq> 0 then v1(sd := queue_up sd (resting_of order q') (v sd)) else v1,
              take_events order cs n ts q'))"

definition commit :: "InstrumentId \<Rightarrow> (Side \<Rightarrow> BookOrder list) \<Rightarrow> ExchangeEvent list \<Rightarrow> Exchange \<Rightarrow> Exchange \<times> ExchangeEvent list" where
  "commit i v evs x =
     (x\<lparr>xc_book := (xc_book x)(i := v), xc_next_event := xc_next_event x + word_of_nat (length evs)\<rparr>, evs)"

definition refuse :: "CommandSequence \<Rightarrow> AccountId \<Rightarrow> ClientOrderId \<Rightarrow> InstrumentId \<Rightarrow> RejectReason \<Rightarrow> Exchange \<Rightarrow>
    Exchange \<times> ExchangeEvent list" where
  "refuse cs a c i reason x =
     (x\<lparr>xc_next_event := xc_next_event x + 1\<rparr>,
      [EvRejected \<lparr>or_event_sequence = xc_next_event x, or_command_sequence = cs, or_account_id = a,
         or_client_order_id = c, or_instrument_id = i, or_reason = reason\<rparr>])"

definition exchange_new :: "NewOrderCommand \<Rightarrow> Exchange \<Rightarrow> Exchange \<times> ExchangeEvent list" where
  "exchange_new cmd x =
     (let i = nc_instrument_id cmd;
          v = xc_book x i;
          rej = (\<lambda>reason. refuse (nc_command_sequence cmd) (nc_account_id cmd) (nc_client_order_id cmd) i reason x);
          order = \<lparr>ro_exchange_order_id = xc_next_id x, ro_client_order_id = nc_client_order_id cmd,
                   ro_account_id = nc_account_id cmd, ro_price = nc_price cmd, ro_original_quantity = nc_quantity cmd,
                   ro_remaining_quantity = nc_quantity cmd, ro_order_sequence = 0, ro_instrument_id = i,
                   ro_side = nc_side cmd, ro_time_in_force = nc_time_in_force cmd\<rparr>
      in if i \<notin> xc_known x then rej InvalidInstrument
         else if sint (nc_price cmd) \<le> 0 then rej InvalidPrice
         else if nc_quantity cmd = 0 then rej InvalidQuantity
         else if \<exists>j. live_key (nc_account_id cmd) (nc_client_order_id cmd) \<in> book_keys (xc_book x j) then rej DuplicateOrderId
         else if nc_time_in_force cmd = FOK \<and>
           cross_sum (contra_side (nc_side cmd)) (nc_price cmd) (nc_quantity cmd) 0 (v (contra_side (nc_side cmd))) < nc_quantity cmd
         then rej InsufficientLiquidity
         else case place_in (nc_command_sequence cmd) order (xc_next_event x + 1) v of
                (v', evs) \<Rightarrow>
                  commit i v' (accepted_event cmd (xc_next_id x) (xc_next_event x) # evs) (x\<lparr>xc_next_id := xc_next_id x + 1\<rparr>))"

definition exchange_cancel :: "CancelOrderCommand \<Rightarrow> Exchange \<Rightarrow> Exchange \<times> ExchangeEvent list" where
  "exchange_cancel cmd x =
     (let i = cc_instrument_id cmd;
          rej = (\<lambda>reason. refuse (cc_command_sequence cmd) (cc_account_id cmd) (cc_client_order_id cmd) i reason x)
      in if i \<notin> xc_known x then rej InvalidInstrument
         else case open_order (cancel_key cmd) (xc_book x i) of
                None \<Rightarrow> rej UnknownOrderId
              | Some b \<Rightarrow>
                  commit i (\<lambda>sd. filter (\<lambda>c. key_of c \<noteq> cancel_key cmd) (xc_book x i sd))
                    (cancelled_events cmd b (xc_next_event x)) x)"

definition exchange_replace :: "ReplaceOrderCommand \<Rightarrow> Exchange \<Rightarrow> Exchange \<times> ExchangeEvent list" where
  "exchange_replace cmd x =
     (let i = rc_instrument_id cmd;
          k = live_key (rc_account_id cmd) (rc_original_client_order_id cmd);
          rej = (\<lambda>reason. refuse (rc_command_sequence cmd) (rc_account_id cmd) (rc_original_client_order_id cmd) i reason x)
      in if i \<notin> xc_known x then rej InvalidInstrument
         else if sint (rc_new_price cmd) \<le> 0 \<or> rc_new_quantity cmd = 0 then rej InvalidReplacement
         else case open_order k (xc_book x i) of
                None \<Rightarrow> rej UnknownOrderId
              | Some b \<Rightarrow>
                  if rc_new_price cmd = bo_price b \<and> rc_new_quantity cmd \<le> bo_remaining_quantity b
                  then commit i (\<lambda>sd. map (\<lambda>c. if key_of c = k then edited_order cmd c else c) (xc_book x i sd))
                         (in_place_events cmd b (xc_next_event x)) x
                  else
                    let order = \<lparr>ro_exchange_order_id = xc_next_id x, ro_client_order_id = rc_new_client_order_id cmd,
                          ro_account_id = rc_account_id cmd, ro_price = rc_new_price cmd,
                          ro_original_quantity = rc_new_quantity cmd, ro_remaining_quantity = rc_new_quantity cmd,
                          ro_order_sequence = 0, ro_instrument_id = i, ro_side = bo_side b,
                          ro_time_in_force = bo_time_in_force b\<rparr>
                    in case place_in (rc_command_sequence cmd) order (xc_next_event x + 2)
                              (\<lambda>sd. filter (\<lambda>c. key_of c \<noteq> k) (xc_book x i sd)) of
                         (v', evs) \<Rightarrow>
                           commit i v' (replaced_events cmd b (xc_next_id x) (xc_next_event x) @ evs)
                             (x\<lparr>xc_next_id := xc_next_id x + 1\<rparr>))"

fun exchange_process :: "ExchangeCommand \<Rightarrow> Exchange \<Rightarrow> Exchange \<times> ExchangeEvent list" where
  "exchange_process (NewOrderC cmd) x = exchange_new cmd x"
| "exchange_process (CancelOrderC cmd) x = exchange_cancel cmd x"
| "exchange_process (ReplaceOrderC cmd) x = exchange_replace cmd x"

definition exchange_of :: "MatchingEngine \<Rightarrow> Exchange" where
  \<comment> \<open>the abstraction of an engine\<close>
  "exchange_of e =
     \<lparr>xc_known = {i. knows_instrument i e}, xc_book = (\<lambda>i sd. map snd (view e i sd)),
      xc_next_id = me_next_exchange_order_id e, xc_next_event = me_next_event_sequence e\<rparr>"

section \<open>Lists without handles\<close>

lemma take_from_match:
  "match_list sd p q es = (fs, q', es') \<Longrightarrow> take_from sd p q (map snd es) = (map snd fs, q', map snd es')"
proof (induction es arbitrary: q fs q' es')
  case (Cons y ys)
  obtain x b where y: "y = (x, b)" by (cases y)
  show ?case
  proof (cases "q = 0 \<or> \<not> crosses (contra_side sd) p (bo_price b)")
    case True
    then show ?thesis using Cons.prems by (auto simp: y)
  next
    case False
    obtain gs r zs where m: "match_list sd p (q - min q (bo_remaining_quantity b)) ys = (gs, r, zs)" by (metis prod_cases3)
    show ?thesis using Cons.prems False Cons.IH [OF m] m
      by (auto simp: y Let_def split: if_splits)
  qed
qed simp

lemma queue_up_insert: "map snd (insert_order sd (x, b) es) = queue_up sd b (map snd es)"
  by (simp add: insert_order_def queue_up_def takeWhile_map dropWhile_map entry_prio_def comp_def)

lemma fill_events_orders: "map snd fs = map snd gs \<Longrightarrow> fill_events order cs n fs = fill_events order cs n gs"
proof (induction fs arbitrary: gs order n)
  case (Cons f fs)
  then obtain g gs' where g: "gs = g # gs'" "snd f = snd g" "map snd fs = map snd gs'" by (cases gs) auto
  have "trade_event order cs n f = trade_event order cs n g" "book_event i m f = book_event i m g" for i m
    using g(2) by (auto simp: trade_event_def book_event_def split: prod.splits)
  then show ?case using Cons.IH [OF g(3)] g(2) by (simp add: g(1))
qed simp

lemma placed_events_orders: "take_events order cs n (map snd fs) q' = placed_events cs order n fs q'"
proof -
  have "fill_events order cs n (map (Pair 0) (map snd fs)) = fill_events order cs n fs"
    by (rule fill_events_orders) (simp add: comp_def)
  then show ?thesis by (simp add: take_events_def placed_events_def)
qed

lemma fill_events_priority:
  "fill_events (order\<lparr>ro_order_sequence := s\<rparr>) cs n fs = fill_events order cs n fs"
proof (induction fs arbitrary: order n)
  case (Cons f fs)
  let ?o = "order\<lparr>ro_order_sequence := s\<rparr>"
  have t: "trade_event ?o cs n f = trade_event order cs n f"
    by (simp add: trade_event_def split: prod.split)
  have c: "ro_instrument_id ?o = ro_instrument_id order" "ro_remaining_quantity ?o = ro_remaining_quantity order"
    "?o\<lparr>ro_remaining_quantity := q\<rparr> = (order\<lparr>ro_remaining_quantity := q\<rparr>)\<lparr>ro_order_sequence := s\<rparr>" for q
    by simp_all
  show ?case by (simp only: fill_events.simps t c Cons.IH)
qed simp

lemma placed_events_priority:
  "placed_events cs (order\<lparr>ro_order_sequence := s\<rparr>) n fs q' = placed_events cs order n fs q'"
  by (simp add: placed_events_def fill_events_priority added_event_def)

lemma place_in_placed:
  assumes "match_list (ro_side order) (ro_price order) (ro_remaining_quantity order) (w (contra_side (ro_side order))) = (fs, q', es')"
    and "\<And>sd. v sd = map snd (w sd)"
  shows "place_in cs (order\<lparr>ro_order_sequence := s\<rparr>) n v =
     (\<lambda>sd. map snd (placed_sides order q' x es' w sd), placed_events cs order n fs q')"
proof -
  have "resting_of (order\<lparr>ro_order_sequence := s\<rparr>) q' = resting_of order q'" by (simp add: resting_of_def)
  then show ?thesis
    using take_from_match [OF assms(1)] assms(2)
    by (simp add: place_in_def Let_def placed_events_orders placed_events_priority placed_sides_def fun_eq_iff queue_up_insert)
qed

section \<open>The engine's counters\<close>

lemma step_keeps_ids:
  "match_step incoming cs contra r = Some (o', r') \<Longrightarrow> me_next_exchange_order_id (fst r') = me_next_exchange_order_id (fst r)"
  unfolding match_step_def Let_def by (auto simp: Option.bind_eq_Some_conv emit_def split: if_splits)

lemma match_keeps_ids:
  "match_and_rest cs incoming r = Some y \<Longrightarrow> me_next_exchange_order_id (fst (snd y)) = me_next_exchange_order_id (fst r)"
proof (rule match_and_rest.raw_induct
    [of "\<lambda>cs incoming r y. me_next_exchange_order_id (fst (snd y)) = me_next_exchange_order_id (fst r)", rotated])
  fix f cs incoming r y
  assume 1: "\<And>cs incoming r y. f cs incoming r = Some y \<Longrightarrow> me_next_exchange_order_id (fst (snd y)) = me_next_exchange_order_id (fst r)"
    "(if ro_remaining_quantity incoming = 0 then Some (incoming, r)
      else do {
        book \<leftarrow> book_for (ro_instrument_id incoming) (fst r);
        front \<leftarrow> front_of_best (contra_side (ro_side incoming)) book;
        (case front of None \<Rightarrow> Some (incoming, r)
         | Some contra \<Rightarrow> if \<not> engine_crosses incoming contra then Some (incoming, r)
             else do { s \<leftarrow> match_step incoming cs contra r; f cs (fst s) (snd s) })
      }) = Some y"
  then have "y = (incoming, r) \<or> (\<exists>contra s. match_step incoming cs contra r = Some s \<and> f cs (fst s) (snd s) = Some y)"
    by (auto simp: Option.bind_eq_Some_conv split: if_splits option.splits)
  then show "me_next_exchange_order_id (fst (snd y)) = me_next_exchange_order_id (fst r)"
    using 1(1) step_keeps_ids by (metis fst_conv prod.collapse snd_conv)
qed

lemma rest_keeps_ids:
  "rest_remainder_if_applicable order r = Some r' \<Longrightarrow> me_next_exchange_order_id (fst r') = me_next_exchange_order_id (fst r)"
  unfolding rest_remainder_if_applicable_def Let_def by (auto simp: Option.bind_eq_Some_conv emit_def split: if_splits)

lemma place_keeps_ids:
  "place_order cs order r = Some r' \<Longrightarrow> me_next_exchange_order_id (fst r') = me_next_exchange_order_id (fst r)"
  unfolding place_order_def by (auto simp: Option.bind_eq_Some_conv dest!: match_keeps_ids rest_keeps_ids)

lemma new_order_ids:
  assumes "process_new_order cmd r = Some r'" "books_ok (fst r)" "new_order_reject cmd (fst r) = None"
  shows "me_next_exchange_order_id (fst r') = me_next_exchange_order_id (fst r) + 1"
  using assms(1) place_keeps_ids unfolding new_order_accepted(1) [OF assms(2,3)]
  by (fastforce simp: emit_def)

lemma cancel_ids: "process_cancel cmd r = Some r' \<Longrightarrow> me_next_exchange_order_id (fst r') = me_next_exchange_order_id (fst r)"
  unfolding process_cancel_def Let_def
  by (auto simp: Option.bind_eq_Some_conv reject_def emit_def split: if_splits option.splits)

lemma in_place_ids: "replace_in_place cmd ref b r = Some r' \<Longrightarrow> me_next_exchange_order_id (fst r') = me_next_exchange_order_id (fst r)"
  unfolding replace_in_place_def Let_def by (auto simp: Option.bind_eq_Some_conv emit_def)

lemma anew_ids: "replace_anew cmd ref b r = Some r' \<Longrightarrow> me_next_exchange_order_id (fst r') = me_next_exchange_order_id (fst r) + 1"
  unfolding replace_anew_def Let_def place_order_def [symmetric]
  by (auto simp: Option.bind_eq_Some_conv emit_def dest!: place_keeps_ids)

section \<open>Keys instead of handles\<close>

abbreviation orders_in_view :: "MatchingEngine \<Rightarrow> InstrumentId \<Rightarrow> Side \<Rightarrow> BookOrder list" where
  "orders_in_view e i sd \<equiv> map snd (view e i sd)"

lemma view_keys:
  assumes inv: "engine_inv e" and k: "k \<in> book_keys (orders_in_view e i)"
  obtains sd x b ref where "(x, b) \<in> set (view e i sd)" "key_of b = k" "me_orders e k = Some ref" "rf_handle ref = x"
    "rf_instrument_id ref = i"
proof -
  obtain sd x b where b: "(x, b) \<in> set (view e i sd)" "key_of b = k" using k by (auto simp: book_keys_def)
  then show ?thesis using directoryD(2) [OF engine_invD(2) [OF inv] b(1)] that by auto
qed

lemma live_iff:
  assumes "engine_inv e"
  shows "(\<exists>j. k \<in> book_keys (orders_in_view e j)) \<longleftrightarrow> me_orders e k \<noteq> None"
proof
  assume "\<exists>j. k \<in> book_keys (orders_in_view e j)"
  then show "me_orders e k \<noteq> None" using view_keys [OF assms] by (metis option.distinct(1))
next
  assume "me_orders e k \<noteq> None"
  then obtain ref where "me_orders e k = Some ref" by auto
  then obtain sd b where "(rf_handle ref, b) \<in> set (view e (rf_instrument_id ref) sd)" "key_of b = k"
    using directoryD(1) [OF engine_invD(2) [OF assms]] by blast
  then have "k \<in> book_keys (orders_in_view e (rf_instrument_id ref))" by (cases sd) (force simp: book_keys_def)+
  then show "\<exists>j. k \<in> book_keys (orders_in_view e j)" by blast
qed

lemma handle_iff_key:
  assumes inv: "engine_inv e" and ref: "me_orders e k = Some ref" "rf_instrument_id ref = i" and y: "y \<in> set (view e i sd)"
  shows "fst y = rf_handle ref \<longleftrightarrow> key_of (snd y) = k"
proof
  obtain x b where yy: "y = (x, b)" by (cases y)
  obtain sd' c where c: "(rf_handle ref, c) \<in> set (view e i sd')" "key_of c = k"
    using directoryD(1) [OF engine_invD(2) [OF inv] ref(1)] ref(2) by blast
  show "fst y = rf_handle ref \<Longrightarrow> key_of (snd y) = k"
    using handles_entry(1) [OF books_view(1) [OF engine_invD(1) [OF inv]] c(1), of b sd] y c(2) by (simp add: yy)
  show "key_of (snd y) = k \<Longrightarrow> fst y = rf_handle ref"
    using directoryD(2) [OF engine_invD(2) [OF inv], of x b i sd] y ref(1) by (auto simp: yy)
qed

lemma find_unique: "(\<exists>x \<in> set xs. P x) \<Longrightarrow> (\<And>x. x \<in> set xs \<Longrightarrow> P x \<Longrightarrow> x = b) \<Longrightarrow> find P xs = Some b"
  by (induction xs) auto

lemma open_order_some:
  assumes inv: "engine_inv e" and ref: "me_orders e k = Some ref" "rf_instrument_id ref = i"
    and b: "(rf_handle ref, b) \<in> set (view e i sd)"
  shows "open_order k (orders_in_view e i) = Some b"
  unfolding open_order_def
proof (rule find_unique)
  have "key_of b = k" using handle_iff_key [OF inv ref b] by simp
  then show "\<exists>c \<in> set (orders_in_view e i Buy @ orders_in_view e i Sell). key_of c = k" using b by (cases sd) force+
  fix c assume "c \<in> set (orders_in_view e i Buy @ orders_in_view e i Sell)" and k: "key_of c = k"
  then obtain s x where c: "(x, c) \<in> set (view e i s)" by auto
  then have "x = rf_handle ref" using handle_iff_key [OF inv ref c] k by simp
  then show "c = b" using handles_entry(1) [OF books_view(1) [OF engine_invD(1) [OF inv]] b] c by simp
qed

lemma open_order_none:
  assumes inv: "engine_inv e" and no: "\<And>ref. me_orders e k = Some ref \<Longrightarrow> rf_instrument_id ref \<noteq> i"
  shows "open_order k (orders_in_view e i) = None"
proof -
  have "k \<notin> book_keys (orders_in_view e i)" using no by (auto elim: view_keys [OF inv])
  then show ?thesis by (auto simp: open_order_def find_None_iff book_keys_def)
qed

lemma filter_handle:
  assumes "engine_inv e" "me_orders e k = Some ref" "rf_instrument_id ref = i"
  shows "map snd (filter (\<lambda>y. fst y \<noteq> rf_handle ref) (view e i sd)) = filter (\<lambda>c. key_of c \<noteq> k) (orders_in_view e i sd)"
proof -
  have "filter (\<lambda>y. fst y \<noteq> rf_handle ref) (view e i sd) = filter (\<lambda>y. key_of (snd y) \<noteq> k) (view e i sd)"
    using handle_iff_key [OF assms] by (intro filter_cong) auto
  then show ?thesis by (simp add: filter_map comp_def)
qed

lemma edit_handle:
  assumes "engine_inv e" "me_orders e k = Some ref" "rf_instrument_id ref = i"
  shows "map snd (map (edit_entry (rf_handle ref) g) (view e i sd)) =
    map (\<lambda>c. if key_of c = k then g c else c) (orders_in_view e i sd)"
  using handle_iff_key [OF assms] by (auto simp: edit_entry_def)

section \<open>The refinement\<close>

lemma exchange_of_after:
  assumes inv: "engine_inv e" and run: "process c e = Some (e', evs)" and ok: "command_ok c e"
    and w: "view e' = (view e)(i := w)" and ids: "me_next_exchange_order_id e' = n"
  shows "exchange_of e' = (exchange_of e)\<lparr>xc_next_id := n, xc_book := (orders_in_view e)(i := (\<lambda>sd. map snd (w sd))),
    xc_next_event := me_next_event_sequence e + word_of_nat (length evs)\<rparr>"
proof -
  obtain r' where "process_run c (e, []) = Some r'" "same_registry (fst (e, [] :: ExchangeEvent list)) (fst r')"
    using process_run_inv [of "(e, [])" c] inv ok by auto
  then have "same_registry e e'" "emits (e, []) (e', evs)" using run emits_run by (auto simp: process_def)
  then show ?thesis using w ids same_registry_knows
    by (auto simp: exchange_of_def emits_def fun_eq_iff)
qed

lemma exchange_of_refused:
  "exchange_of (fst (reject cs a c i reason (e, []))) = fst (refuse cs a c i reason (exchange_of e))"
  "snd (reject cs a c i reason (e, [])) = snd (refuse cs a c i reason (exchange_of e))"
  by (simp_all add: exchange_of_def refuse_def reject_def emit_def view_def fun_eq_iff)

definition follows :: "ExchangeCommand \<Rightarrow> MatchingEngine \<Rightarrow> bool" where
  \<comment> \<open>the engine returns, with the specification's events and next state\<close>
  "follows c e \<longleftrightarrow>
     (\<exists>e' evs. process c e = Some (e', evs) \<and> engine_inv e' \<and> same_registry e e' \<and>
        exchange_process c (exchange_of e) = (exchange_of e', evs))"

lemma followsI:
  assumes "engine_inv e" "command_ok c e" "process c e = Some (e', evs)" "exchange_process c (exchange_of e) = (exchange_of e', evs)"
  shows "follows c e"
proof -
  obtain r' where "process_run c (e, []) = Some r'" "engine_inv (fst r')" "same_registry e (fst r')"
    using process_run_inv [of "(e, [])" c] assms(1,2) by auto
  then show ?thesis using assms(3,4) by (auto simp: follows_def process_def)
qed

lemma follows_refused:
  assumes "engine_inv e" "command_ok c e" "process c e = Some (reject cs a k i reason (e, []))"
    and "exchange_process c (exchange_of e) = refuse cs a k i reason (exchange_of e)"
  shows "follows c e"
proof (rule followsI [OF assms(1,2)])
  show "process c e = Some (fst (reject cs a k i reason (e, [])), snd (reject cs a k i reason (e, [])))" using assms(3) by simp
  show "exchange_process c (exchange_of e) = (exchange_of (fst (reject cs a k i reason (e, []))), snd (reject cs a k i reason (e, [])))"
    unfolding assms(4) exchange_of_refused by simp
qed

lemma exchange_of_simps:
  "xc_known (exchange_of e) = {i. knows_instrument i e}" "xc_book (exchange_of e) = orders_in_view e"
  "xc_next_id (exchange_of e) = me_next_exchange_order_id e" "xc_next_event (exchange_of e) = me_next_event_sequence e"
  by (simp_all add: exchange_of_def)

lemma exchange_of_same_id [simp]: "(exchange_of e)\<lparr>xc_next_id := me_next_exchange_order_id e\<rparr> = exchange_of e"
  by (simp add: exchange_of_def)

lemma exchange_new_checks:
  assumes inv: "engine_inv e"
  shows "exchange_new cmd (exchange_of e) =
     (case new_order_reject cmd e of
        Some reason \<Rightarrow> refuse (nc_command_sequence cmd) (nc_account_id cmd) (nc_client_order_id cmd) (nc_instrument_id cmd) reason
          (exchange_of e)
      | None \<Rightarrow>
          case place_in (nc_command_sequence cmd) ((new_order_of cmd e)\<lparr>ro_order_sequence := 0\<rparr>) (me_next_event_sequence e + 1)
              (orders_in_view e (nc_instrument_id cmd)) of
            (v', evs) \<Rightarrow> commit (nc_instrument_id cmd) v'
              (accepted_event cmd (me_next_exchange_order_id e) (me_next_event_sequence e) # evs)
              ((exchange_of e)\<lparr>xc_next_id := me_next_exchange_order_id e + 1\<rparr>))"
  using live_iff [OF inv, of "live_key (nc_account_id cmd) (nc_client_order_id cmd)"]
  by (simp add: exchange_new_def new_order_reject_def Let_def exchange_of_simps new_order_of_def)

lemma new_order_follows:
  assumes inv: "engine_inv e" and ok: "command_ok (NewOrderC cmd) e"
  shows "follows (NewOrderC cmd) e"
proof (cases "new_order_reject cmd e")
  case (Some reason)
  have "process (NewOrderC cmd) e = Some (reject_new_order cmd reason (e, []))"
    using new_order_rejected [of "(e, [])" cmd reason] engine_invD(1) [OF inv] Some by (simp add: process_def)
  then show ?thesis
    by (intro follows_refused [OF inv ok]) (auto simp: reject_new_order_def exchange_new_checks [OF inv] Some)
next
  case None
  let ?i = "nc_instrument_id cmd" and ?o = "new_order_of cmd e"
  obtain fs q' es' where ml: "match_list (nc_side cmd) (nc_price cmd) (nc_quantity cmd) (view e ?i (contra_side (nc_side cmd))) = (fs, q', es')"
    by (metis prod_cases3)
  have p: "admissible_price (nc_price cmd)" "room e ?i" using ok by (simp_all add: command_ok_def)
  obtain x e' where e': "process (NewOrderC cmd) e = Some (e', accepted_event cmd (me_next_exchange_order_id e) (me_next_event_sequence e) #
        placed_events (nc_command_sequence cmd) ?o (me_next_event_sequence e + 1) fs q')"
    "view e' = (view e)(?i := placed_sides ?o q' x es' (view e ?i))"
    by (rule new_order_outcome [OF inv p None ml]) (rule that)
  have ids: "me_next_exchange_order_id e' = me_next_exchange_order_id e + 1"
    using new_order_ids [of cmd "(e, [])" "(e', _)"] e'(1) None engine_invD(1) [OF inv] by (simp add: process_def)
  have pl: "place_in (nc_command_sequence cmd) (?o\<lparr>ro_order_sequence := 0\<rparr>) (me_next_event_sequence e + 1) (orders_in_view e ?i) =
      (\<lambda>sd. map snd (placed_sides ?o q' x es' (view e ?i) sd), placed_events (nc_command_sequence cmd) ?o (me_next_event_sequence e + 1) fs q')"
    by (rule place_in_placed) (use ml in \<open>simp_all add: new_order_of_def\<close>)
  show ?thesis
    by (rule followsI [OF inv ok e'(1)])
       (simp add: exchange_new_checks [OF inv] None pl commit_def exchange_of_simps exchange_of_after [OF inv e'(1) ok e'(2) ids])
qed

lemma cancel_follows:
  assumes inv: "engine_inv e"
  shows "follows (CancelOrderC cmd) e"
proof -
  let ?i = "cc_instrument_id cmd" and ?k = "cancel_key cmd"
  have ok: "command_ok (CancelOrderC cmd) e" by (simp add: command_ok_def)
  consider (unknown) "\<not> knows_instrument ?i e"
    | (gone) "knows_instrument ?i e" "\<And>ref. me_orders e ?k = Some ref \<Longrightarrow> rf_instrument_id ref \<noteq> ?i"
    | (found) ref where "knows_instrument ?i e" "me_orders e ?k = Some ref" "rf_instrument_id ref = ?i" by blast
  then show ?thesis
  proof cases
    case unknown
    then show ?thesis
      by (intro follows_refused [OF inv ok]) (auto simp: process_def process_cancel_def exchange_cancel_def exchange_of_simps)
  next
    case gone
    have "process (CancelOrderC cmd) e = Some (reject (cc_command_sequence cmd) (cc_account_id cmd) (cc_client_order_id cmd) ?i UnknownOrderId (e, []))"
      using gone by (auto simp: process_def process_cancel_def Let_def cancel_key_def split: option.split)
    then show ?thesis
      by (rule follows_refused [OF inv ok])
         (simp add: exchange_cancel_def exchange_of_simps gone(1) open_order_none [OF inv gone(2)])
  next
    case found
    obtain b e' where b: "(rf_handle ref, b) \<in> set (view e ?i (bo_side b))"
      "process (CancelOrderC cmd) e = Some (e', cancelled_events cmd b (me_next_event_sequence e))"
      "view e' = (view e)(?i := (\<lambda>sd. filter (\<lambda>y. fst y \<noteq> rf_handle ref) (view e ?i sd)))"
      by (rule cancel_found [OF inv found(2,3)]) (rule that)
    have ids: "me_next_exchange_order_id e' = me_next_exchange_order_id e"
      using cancel_ids [of cmd "(e, [])"] b(2) by (simp add: process_def)
    show ?thesis
      by (rule followsI [OF inv ok b(2)])
         (simp add: exchange_cancel_def Let_def exchange_of_simps found(1) open_order_some [OF inv found(2,3) b(1)] commit_def
           exchange_of_after [OF inv b(2) ok b(3) ids] filter_handle [OF inv found(2,3)])
  qed
qed

lemma replace_follows:
  assumes inv: "engine_inv e" and ok: "command_ok (ReplaceOrderC cmd) e"
  shows "follows (ReplaceOrderC cmd) e"
proof (cases "replace_reject cmd e")
  case (Some reason)
  have "process (ReplaceOrderC cmd) e = Some (reject_replace_order cmd reason (e, []))"
    using replace_rejected [of cmd "(e, [])" reason] Some by (simp add: process_def)
  moreover have "exchange_replace cmd (exchange_of e) =
      refuse (rc_command_sequence cmd) (rc_account_id cmd) (rc_original_client_order_id cmd) (rc_instrument_id cmd) reason (exchange_of e)"
  proof (cases "knows_instrument (rc_instrument_id cmd) e \<and> \<not> (sint (rc_new_price cmd) \<le> 0 \<or> rc_new_quantity cmd = 0)")
    case True
    then have "reason = UnknownOrderId"
      "\<And>ref. me_orders e (live_key (rc_account_id cmd) (rc_original_client_order_id cmd)) = Some ref \<Longrightarrow> rf_instrument_id ref \<noteq> rc_instrument_id cmd"
      using Some by (auto simp: replace_reject_def split: option.splits if_splits)
    then show ?thesis using True open_order_none [OF inv] by (simp add: exchange_replace_def Let_def exchange_of_simps)
  next
    case False
    then show ?thesis using Some by (auto simp: replace_reject_def exchange_replace_def exchange_of_simps Let_def split: if_splits)
  qed
  ultimately show ?thesis
    by (intro follows_refused [OF inv ok]) (auto simp: reject_replace_order_def)
next
  case None
  let ?i = "rc_instrument_id cmd" and ?k = "live_key (rc_account_id cmd) (rc_original_client_order_id cmd)"
  have c: "admissible_price (rc_new_price cmd)" "room e ?i" "new_id_free cmd e" using ok by (simp_all add: command_ok_def)
  obtain ref where f: "me_orders e ?k = Some ref" "rf_instrument_id ref = ?i" "knows_instrument ?i e"
    "\<not> (sint (rc_new_price cmd) \<le> 0 \<or> rc_new_quantity cmd = 0)"
    using None replace_found [of cmd "(e, [])"] by (auto simp: signed_cmp)
  obtain b e' evs where b: "(rf_handle ref, b) \<in> set (view e ?i (bo_side b))" "process (ReplaceOrderC cmd) e = Some (e', evs)"
    and br: "if rc_new_price cmd = bo_price b \<and> rc_new_quantity cmd \<le> bo_remaining_quantity b
         then evs = in_place_events cmd b (me_next_event_sequence e) \<and>
           view e' = (view e)(?i := (\<lambda>sd. map (edit_entry (rf_handle ref) (edited_order cmd)) (view e ?i sd)))
         else (\<exists>v fs q' es' x. v = (\<lambda>sd. filter (\<lambda>y. fst y \<noteq> rf_handle ref) (view e ?i sd)) \<and>
           match_list (bo_side b) (rc_new_price cmd) (rc_new_quantity cmd) (v (contra_side (bo_side b))) = (fs, q', es') \<and>
           evs = replaced_events cmd b (me_next_exchange_order_id e) (me_next_event_sequence e) @
             placed_events (rc_command_sequence cmd) (replacement_of cmd b e) (me_next_event_sequence e + 2) fs q' \<and>
           view e' = (view e)(?i := placed_sides (replacement_of cmd b e) q' x es' v))"
    using replace_outcome [OF inv c None] f(1) by auto
  note oo = open_order_some [OF inv f(1,2) b(1)]
  obtain bk where bk: "book_for ?i e = Some bk" "at (rf_handle ref) bk = Some b"
    by (rule live_order [OF inv f(1), unfolded f(2)]) (use b(1) handles_entry(1) [OF books_view(1) [OF engine_invD(1) [OF inv]] b(1)] in metis)
  have run: "process (ReplaceOrderC cmd) e =
      (if rc_new_price cmd = bo_price b \<and> rc_new_quantity cmd \<le> bo_remaining_quantity b
       then replace_in_place cmd ref b (e, []) else replace_anew cmd ref b (e, []))"
    using f bk by (simp add: process_def process_replace_def Let_def signed_cmp)
  show ?thesis
  proof (cases "rc_new_price cmd = bo_price b \<and> rc_new_quantity cmd \<le> bo_remaining_quantity b")
    case True
    then have e': "evs = in_place_events cmd b (me_next_event_sequence e)"
      "view e' = (view e)(?i := (\<lambda>sd. map (edit_entry (rf_handle ref) (edited_order cmd)) (view e ?i sd)))"
      using br by simp_all
    have ids: "me_next_exchange_order_id e' = me_next_exchange_order_id e"
      using in_place_ids [of cmd ref b "(e, [])"] b(2) run True by simp
    show ?thesis
      by (rule followsI [OF inv ok b(2)])
         (use True f(4) in \<open>simp add: exchange_replace_def Let_def exchange_of_simps f(3) oo e'(1) commit_def
           exchange_of_after [OF inv b(2) ok e'(2) ids] edit_handle [OF inv f(1,2)] del: list.map_comp map_map\<close>)
  next
    case False
    let ?v = "\<lambda>sd. filter (\<lambda>y. fst y \<noteq> rf_handle ref) (view e ?i sd)"
    obtain fs q' es' x where e': "match_list (bo_side b) (rc_new_price cmd) (rc_new_quantity cmd) (?v (contra_side (bo_side b))) = (fs, q', es')"
      "evs = replaced_events cmd b (me_next_exchange_order_id e) (me_next_event_sequence e) @
             placed_events (rc_command_sequence cmd) (replacement_of cmd b e) (me_next_event_sequence e + 2) fs q'"
      "view e' = (view e)(?i := placed_sides (replacement_of cmd b e) q' x es' ?v)"
      using br False by auto
    have ids: "me_next_exchange_order_id e' = me_next_exchange_order_id e + 1"
      using anew_ids [of cmd ref b "(e, [])"] b(2) run False by auto
    have pl: "place_in (rc_command_sequence cmd) ((replacement_of cmd b e)\<lparr>ro_order_sequence := 0\<rparr>) (me_next_event_sequence e + 2)
          (\<lambda>sd. filter (\<lambda>c. key_of c \<noteq> ?k) (orders_in_view e ?i sd)) =
        (\<lambda>sd. map snd (placed_sides (replacement_of cmd b e) q' x es' ?v sd),
         placed_events (rc_command_sequence cmd) (replacement_of cmd b e) (me_next_event_sequence e + 2) fs q')"
      by (rule place_in_placed) (use e'(1) filter_handle [OF inv f(1,2)] in \<open>simp_all add: replacement_of_def\<close>)
    show ?thesis
      by (rule followsI [OF inv ok b(2)])
         (use pl in \<open>simp add: exchange_replace_def Let_def exchange_of_simps f(3,4) oo if_not_P [OF False] e'(2) commit_def
           exchange_of_after [OF inv b(2) ok e'(3) ids] replacement_of_def\<close>)
  qed
qed

lemma command_follows: "engine_inv e \<Longrightarrow> command_ok c e \<Longrightarrow> follows c e"
  by (cases c) (auto intro: new_order_follows cancel_follows replace_follows)

section \<open>Runs\<close>

text \<open>Which commands an engine admits depends on the lists alone, too.\<close>

definition admissible :: "ExchangeCommand \<Rightarrow> Exchange \<Rightarrow> bool" where
  "admissible c x =
     (let space = (\<lambda>i. length (xc_book x i Buy) + length (xc_book x i Sell) < 2 ^ 32 - 1)
      in case c of
        NewOrderC cmd \<Rightarrow> admissible_price (nc_price cmd) \<and> space (nc_instrument_id cmd)
      | CancelOrderC cmd \<Rightarrow> True
      | ReplaceOrderC cmd \<Rightarrow> admissible_price (rc_new_price cmd) \<and> space (rc_instrument_id cmd) \<and>
          (rc_new_client_order_id cmd = rc_original_client_order_id cmd \<or>
           (\<forall>j. live_key (rc_account_id cmd) (rc_new_client_order_id cmd) \<notin> book_keys (xc_book x j))))"

lemma admissible_command_ok:
  assumes "engine_inv e"
  shows "admissible c (exchange_of e) \<longleftrightarrow> command_ok c e"
proof -
  have "(\<forall>j. k \<notin> book_keys (orders_in_view e j)) \<longleftrightarrow> me_orders e k = None" for k
    using live_iff [OF assms, of k] by auto
  then show ?thesis
    by (cases c) (simp_all add: admissible_def command_ok_def room_def new_id_free_def exchange_of_simps)
qed

fun engine_run :: "ExchangeCommand list \<Rightarrow> MatchingEngine \<Rightarrow> Run option" where
  "engine_run [] e = Some (e, [])"
| "engine_run (c # cs) e = do {
     (e1, evs1) \<leftarrow> process c e;
     (e2, evs2) \<leftarrow> engine_run cs e1;
     Some (e2, evs1 @ evs2)
   }"

fun exchange_run :: "ExchangeCommand list \<Rightarrow> Exchange \<Rightarrow> Exchange \<times> ExchangeEvent list" where
  "exchange_run [] x = (x, [])"
| "exchange_run (c # cs) x =
     (case exchange_process c x of (x1, evs1) \<Rightarrow> case exchange_run cs x1 of (x2, evs2) \<Rightarrow> (x2, evs1 @ evs2))"

fun admissible_run :: "ExchangeCommand list \<Rightarrow> Exchange \<Rightarrow> bool" where
  "admissible_run [] x \<longleftrightarrow> True"
| "admissible_run (c # cs) x \<longleftrightarrow> admissible c x \<and> admissible_run cs (fst (exchange_process c x))"

lemma step_follows:
  assumes "engine_inv e" "admissible c (exchange_of e)"
  obtains e' where "process c e = Some (e', snd (exchange_process c (exchange_of e)))" "engine_inv e'" "same_registry e e'"
    "exchange_of e' = fst (exchange_process c (exchange_of e))"
  using command_follows [OF assms(1), of c] assms by (auto simp: follows_def admissible_command_ok)

lemma run_follows:
  assumes "engine_inv e" "admissible_run cs (exchange_of e)"
  obtains e' where "engine_run cs e = Some (e', snd (exchange_run cs (exchange_of e)))" "engine_inv e'" "same_registry e e'"
    "exchange_of e' = fst (exchange_run cs (exchange_of e))"
  using assms
proof (induction cs arbitrary: e thesis)
  case (Cons c cs)
  obtain e1 where e1: "process c e = Some (e1, snd (exchange_process c (exchange_of e)))" "engine_inv e1" "same_registry e e1"
    "exchange_of e1 = fst (exchange_process c (exchange_of e))"
    by (rule step_follows [of e c]) (use Cons.prems in auto)
  obtain e2 where e2: "engine_run cs e1 = Some (e2, snd (exchange_run cs (exchange_of e1)))" "engine_inv e2" "same_registry e1 e2"
    "exchange_of e2 = fst (exchange_run cs (exchange_of e1))"
    by (rule Cons.IH [of e1]) (use Cons.prems e1(2,4) in auto)
  have "same_registry e e2" using e1(3) e2(3) by (simp add: same_registry_def)
  then show ?case using e1 e2 by (intro Cons.prems(1) [of e2]) (auto split: prod.split)
qed auto

lemma register_exchange:
  assumes "engine_inv e" "index_inv e"
  shows "exchange_of (snd (register_instrument i e)) =
    (if i \<le> kMaxInstrumentId then (exchange_of e)\<lparr>xc_known := insert i (xc_known (exchange_of e))\<rparr> else exchange_of e)"
proof (cases "kMaxInstrumentId < i \<or> knows_instrument i e")
  case True
  then have "register_instrument i e = (False, e)" by (simp add: register_instrument_def)
  then show ?thesis using True by (auto simp: exchange_of_def)
next
  case False
  then have n: "i \<le> kMaxInstrumentId" "\<not> knows_instrument i e" by auto
  obtain e' where r: "register_instrument i e = (True, e')" "view e' = view e"
    by (rule register_instrument [OF assms n]) (rule that)
  have k: "knows_instrument j e' \<longleftrightarrow> j = i \<or> knows_instrument j e" for j
    by (rule register_instrument [OF assms n, of j]) (use r(1) in auto)
  have "me_next_exchange_order_id e' = me_next_exchange_order_id e" "me_next_event_sequence e' = me_next_event_sequence e"
    using r(1) by (auto simp: register_instrument_def Let_def split: if_splits)
  then show ?thesis using r k n(1) by (auto simp: exchange_of_def)
qed

definition empty_exchange :: "InstrumentId list \<Rightarrow> Exchange" where
  "empty_exchange universe =
     \<lparr>xc_known = {i \<in> set universe. i \<le> kMaxInstrumentId}, xc_book = (\<lambda>_ _. []), xc_next_id = 1, xc_next_event = 1\<rparr>"

lemma register_counters:
  "me_next_exchange_order_id (snd (register_instrument i e)) = me_next_exchange_order_id e"
  "me_next_event_sequence (snd (register_instrument i e)) = me_next_event_sequence e"
  by (simp_all add: register_instrument_def Let_def)

lemma fold_counters:
  "me_next_exchange_order_id (fold (\<lambda>i e. snd (register_instrument i e)) u e) = me_next_exchange_order_id e"
  "me_next_event_sequence (fold (\<lambda>i e. snd (register_instrument i e)) u e) = me_next_event_sequence e"
  by (induction u arbitrary: e) (simp_all add: register_counters)

lemma exchange_of_new: "exchange_of (new_matching_engine u) = empty_exchange u"
proof -
  have c: "me_next_exchange_order_id (new_matching_engine u) = 1" "me_next_event_sequence (new_matching_engine u) = 1"
    unfolding new_matching_engine_def fold_counters by simp_all
  show ?thesis using new_matching_engine(3) [of u] new_matching_engine(5) [of _ u] by (auto simp: exchange_of_def empty_exchange_def c)
qed

section \<open>Properties\<close>

text \<open>
  C1. The engine is a textbook price-time exchange: from any well-formed engine every admissible command
  returns, and its events and the resulting order lists are exactly those of the specification, which
  knows nothing of slabs, handles, price bands, bitmaps or the directory.
\<close>

theorem engine_refines_the_textbook_exchange:
  assumes "engine_inv e" "command_ok c e"
  shows "\<exists>e' evs. process c e = Some (e', evs) \<and> engine_inv e' \<and>
    exchange_process c (exchange_of e) = (exchange_of e', evs)"
  using command_follows [OF assms] by (auto simp: follows_def)

theorem engine_refines_the_textbook_exchange_witness:
  "\<exists>e' evs. process (NewOrderC (sample_new Buy GTC 1 100)) sample_engine = Some (e', evs) \<and> engine_inv e' \<and>
    exchange_process (NewOrderC (sample_new Buy GTC 1 100)) (exchange_of sample_engine) = (exchange_of e', evs)"
proof (rule engine_refines_the_textbook_exchange)
  show "command_ok (NewOrderC (sample_new Buy GTC 1 100)) sample_engine"
    by (simp add: command_ok_def sample_new_def sample_engine)
qed (simp add: sample_engine)

text \<open>
  The geometry of an engine is unobservable: two engines built over universes with the same
  instruments, in any order and with whatever ladder bands their sizes give them, answer every admissible
  sequence of commands with the same events and end with the same order lists.
\<close>

theorem engines_over_the_same_instruments_agree:
  assumes "set u1 = set u2" "admissible_run cs (empty_exchange u1)"
  shows "\<exists>e1 e2 evs. engine_run cs (new_matching_engine u1) = Some (e1, evs) \<and>
    engine_run cs (new_matching_engine u2) = Some (e2, evs) \<and> exchange_of e1 = exchange_of e2"
proof -
  have e: "empty_exchange u1 = empty_exchange u2" using assms(1) by (simp add: empty_exchange_def)
  have a: "admissible_run cs (exchange_of (new_matching_engine u1))" "admissible_run cs (exchange_of (new_matching_engine u2))"
    using assms(2) by (simp_all add: exchange_of_new e)
  obtain e1 where e1: "engine_run cs (new_matching_engine u1) = Some (e1, snd (exchange_run cs (empty_exchange u1)))"
    "exchange_of e1 = fst (exchange_run cs (empty_exchange u1))"
    by (rule run_follows [OF new_matching_engine(1) a(1)]) (simp add: exchange_of_new that)
  obtain e2 where e2: "engine_run cs (new_matching_engine u2) = Some (e2, snd (exchange_run cs (empty_exchange u2)))"
    "exchange_of e2 = fst (exchange_run cs (empty_exchange u2))"
    by (rule run_follows [OF new_matching_engine(1) a(2)]) (simp add: exchange_of_new that)
  show ?thesis using e1 e2 by (auto simp: e)
qed

theorem engines_over_the_same_instruments_agree_witness:
  "\<exists>e1 e2 evs. engine_run [NewOrderC (sample_new Buy GTC 1 100)] (new_matching_engine [7, 9]) = Some (e1, evs) \<and>
    engine_run [NewOrderC (sample_new Buy GTC 1 100)] (new_matching_engine [9, 7, 7]) = Some (e2, evs) \<and> exchange_of e1 = exchange_of e2"
proof (rule engines_over_the_same_instruments_agree)
  show "admissible_run [NewOrderC (sample_new Buy GTC 1 100)] (empty_exchange [7, 9])"
    by (simp add: admissible_def empty_exchange_def sample_new_def sample_engine)
qed auto

end
