(* ===== verification/MarketDataCodec.thy ===== *)
theory MarketDataCodec
  imports WireEnums
begin

text \<open>
  The market-data wire format: \<open>src/include/protocol/messages.hpp\<close>, \<open>src/src/protocol/encoder.cpp\<close> and
  \<open>src/src/protocol/decoder.cpp\<close>. A 20-byte header carries the type, a reserved byte, the payload size, the
  feed's sequence number and a timestamp; a decoded event repeats the last two.
\<close>

section \<open>Events\<close>

definition HEADER_SIZE :: nat where
  "HEADER_SIZE = 20"

datatype MessageType = MT_AddOrder | MT_CancelOrder | MT_ModifyOrder | MT_Trade | MT_ClearBook

record Header =
  mh_type :: MessageType
  mh_payload_size :: u16
  mh_sequence_number :: Sequence
  mh_timestamp_ns :: Timestamp

record AddOrder =
  ao_sequence_number :: Sequence
  ao_timestamp_ns :: Timestamp
  ao_order_id :: OrderId
  ao_instrument_id :: InstrumentId
  ao_price :: Price
  ao_quantity :: Quantity
  ao_side :: Side

record CancelOrder =
  xo_sequence_number :: Sequence
  xo_timestamp_ns :: Timestamp
  xo_order_id :: OrderId
  xo_instrument_id :: InstrumentId

record ModifyOrder =
  mo_sequence_number :: Sequence
  mo_timestamp_ns :: Timestamp
  mo_order_id :: OrderId
  mo_instrument_id :: InstrumentId
  mo_new_price :: Price
  mo_new_quantity :: Quantity

record Trade =
  td_sequence_number :: Sequence
  td_timestamp_ns :: Timestamp
  td_instrument_id :: InstrumentId
  td_price :: Price
  td_quantity :: Quantity
  td_aggressor_side :: Side

record ClearBook =
  cb_sequence_number :: Sequence
  cb_timestamp_ns :: Timestamp
  cb_instrument_id :: InstrumentId

datatype Event =
    AddOrderE AddOrder
  | CancelOrderE CancelOrder
  | ModifyOrderE ModifyOrder
  | TradeE Trade
  | ClearBookE ClearBook

fun payload_size_for :: "MessageType \<Rightarrow> nat" where
  "payload_size_for MT_AddOrder = 8 + 4 + 8 + 8 + 1"
| "payload_size_for MT_CancelOrder = 8 + 4"
| "payload_size_for MT_ModifyOrder = 8 + 4 + 8 + 8"
| "payload_size_for MT_Trade = 4 + 8 + 8 + 1"
| "payload_size_for MT_ClearBook = 4"

definition ALL_MESSAGE_TYPES :: "MessageType list" where
  "ALL_MESSAGE_TYPES = [MT_AddOrder, MT_CancelOrder, MT_ModifyOrder, MT_Trade, MT_ClearBook]"

definition max_payload_size :: nat where
  "max_payload_size =
     fold (\<lambda>type largest. let size = payload_size_for type in (if size > largest then size else largest))
       ALL_MESSAGE_TYPES 0"

definition MAX_FRAME_SIZE :: nat where
  "MAX_FRAME_SIZE = HEADER_SIZE + max_payload_size"

datatype DecodeError =
    TruncatedHeader
  | TruncatedPayload
  | InvalidReserved
  | InvalidMessageType
  | InvalidMessageSize
  | InvalidSide

section \<open>Encoder\<close>

fun raw_of_type :: "MessageType \<Rightarrow> u8" where
  "raw_of_type MT_AddOrder = 1"
| "raw_of_type MT_CancelOrder = 2"
| "raw_of_type MT_ModifyOrder = 3"
| "raw_of_type MT_Trade = 4"
| "raw_of_type MT_ClearBook = 5"

definition put_header :: "MessageType \<Rightarrow> Sequence \<Rightarrow> Timestamp \<Rightarrow> u16 \<Rightarrow> byte list \<Rightarrow> byte list" where
  "put_header type seq ts payload_size out =
     (let out = put_u8 (raw_of_type type) out;
          out = put_u8 0 out;
          out = put_u16 payload_size out;
          out = put_u64 seq out;
          out = put_u64 ts out
      in out)"

fun encode_event :: "Event \<Rightarrow> byte list \<Rightarrow> byte list" where
  "encode_event (AddOrderE m) out =
    (let out = put_header MT_AddOrder (ao_sequence_number m) (ao_timestamp_ns m) (word_of_nat (payload_size_for MT_AddOrder)) out;
         out = put_u64 (ao_order_id m) out;
         out = put_u32 (ao_instrument_id m) out;
         out = put_i64 (ao_price m) out;
         out = put_u64 (ao_quantity m) out;
         out = put_side (ao_side m) out
     in out)"
| "encode_event (CancelOrderE m) out =
    (let out = put_header MT_CancelOrder (xo_sequence_number m) (xo_timestamp_ns m) (word_of_nat (payload_size_for MT_CancelOrder)) out;
         out = put_u64 (xo_order_id m) out;
         out = put_u32 (xo_instrument_id m) out
     in out)"
| "encode_event (ModifyOrderE m) out =
    (let out = put_header MT_ModifyOrder (mo_sequence_number m) (mo_timestamp_ns m) (word_of_nat (payload_size_for MT_ModifyOrder)) out;
         out = put_u64 (mo_order_id m) out;
         out = put_u32 (mo_instrument_id m) out;
         out = put_i64 (mo_new_price m) out;
         out = put_u64 (mo_new_quantity m) out
     in out)"
| "encode_event (TradeE m) out =
    (let out = put_header MT_Trade (td_sequence_number m) (td_timestamp_ns m) (word_of_nat (payload_size_for MT_Trade)) out;
         out = put_u32 (td_instrument_id m) out;
         out = put_i64 (td_price m) out;
         out = put_u64 (td_quantity m) out;
         out = put_side (td_aggressor_side m) out
     in out)"
| "encode_event (ClearBookE m) out =
    (let out = put_header MT_ClearBook (cb_sequence_number m) (cb_timestamp_ns m) (word_of_nat (payload_size_for MT_ClearBook)) out;
         out = put_u32 (cb_instrument_id m) out
     in out)"

section \<open>Decoder\<close>

definition is_known_type :: "u8 \<Rightarrow> bool" where
  "is_known_type raw \<longleftrightarrow> raw \<in> {1, 2, 3, 4, 5}"

definition type_of_raw :: "u8 \<Rightarrow> MessageType" where
  \<comment> \<open>\<open>static_cast\<close> from a checked byte\<close>
  "type_of_raw raw =
     (if raw = 1 then MT_AddOrder else if raw = 2 then MT_CancelOrder else if raw = 3 then MT_ModifyOrder
      else if raw = 4 then MT_Trade else MT_ClearBook)"

definition decode_header :: "byte list \<Rightarrow> DecodeError + Header" where
  "decode_header data =
     (if length data < HEADER_SIZE then Inl TruncatedHeader
      else
        let (md_type_raw, r) = get_u8 (byte_reader (take HEADER_SIZE data));
            (reserved, r) = get_u8 r;
            (payload_size, r) = get_u16 r;
            (seq, r) = get_u64 r;
            (ts, r) = get_u64 r
        in case do { md_type_raw \<leftarrow> md_type_raw; reserved \<leftarrow> reserved; payload_size \<leftarrow> payload_size; seq \<leftarrow> seq;
                     ts \<leftarrow> ts; Some (md_type_raw, reserved, payload_size, seq, ts) } of
             None \<Rightarrow> Inl TruncatedHeader
           | Some (md_type_raw, reserved, payload_size, seq, ts) \<Rightarrow>
               if reserved \<noteq> 0 then Inl InvalidReserved
               else if \<not> is_known_type md_type_raw then Inl InvalidMessageType
               else Inr \<lparr>mh_type = type_of_raw md_type_raw, mh_payload_size = payload_size, mh_sequence_number = seq,
                         mh_timestamp_ns = ts\<rparr>)"

text \<open>The cases of \<open>decode_event\<close>'s switch.\<close>

definition decode_ao :: "Header \<Rightarrow> ByteReader \<Rightarrow> DecodeError + Event" where
  "decode_ao header r0 =
     (let (order_id, r) = get_u64 r0;
          (instrument_id, r) = get_u32 r;
          (price, r) = get_i64 r;
          (quantity, r) = get_u64 r;
          (side_raw, r) = get_u8 r
      in case do { order_id \<leftarrow> order_id; instrument_id \<leftarrow> instrument_id; price \<leftarrow> price;
                   quantity \<leftarrow> quantity; side_raw \<leftarrow> side_raw;
                   Some (order_id, instrument_id, price, quantity, side_raw) } of
           None \<Rightarrow> Inl TruncatedPayload
         | Some (order_id, instrument_id, price, quantity, side_raw) \<Rightarrow>
             if \<not> is_valid_side side_raw then Inl InvalidSide
             else Inr (AddOrderE \<lparr>ao_sequence_number = mh_sequence_number header, ao_timestamp_ns = mh_timestamp_ns header,
                    ao_order_id = order_id, ao_instrument_id = instrument_id, ao_price = price,
                    ao_quantity = quantity, ao_side = side_of_raw side_raw\<rparr>))"

definition decode_xo :: "Header \<Rightarrow> ByteReader \<Rightarrow> DecodeError + Event" where
  "decode_xo header r0 =
     (let (order_id, r) = get_u64 r0;
          (instrument_id, r) = get_u32 r
      in case do { order_id \<leftarrow> order_id; instrument_id \<leftarrow> instrument_id;
                   Some (order_id, instrument_id) } of
           None \<Rightarrow> Inl TruncatedPayload
         | Some (order_id, instrument_id) \<Rightarrow>
             Inr (CancelOrderE \<lparr>xo_sequence_number = mh_sequence_number header, xo_timestamp_ns = mh_timestamp_ns header,
                    xo_order_id = order_id, xo_instrument_id = instrument_id\<rparr>))"

definition decode_mo :: "Header \<Rightarrow> ByteReader \<Rightarrow> DecodeError + Event" where
  "decode_mo header r0 =
     (let (order_id, r) = get_u64 r0;
          (instrument_id, r) = get_u32 r;
          (new_price, r) = get_i64 r;
          (new_quantity, r) = get_u64 r
      in case do { order_id \<leftarrow> order_id; instrument_id \<leftarrow> instrument_id;
                   new_price \<leftarrow> new_price; new_quantity \<leftarrow> new_quantity;
                   Some (order_id, instrument_id, new_price, new_quantity) } of
           None \<Rightarrow> Inl TruncatedPayload
         | Some (order_id, instrument_id, new_price, new_quantity) \<Rightarrow>
             Inr (ModifyOrderE \<lparr>mo_sequence_number = mh_sequence_number header, mo_timestamp_ns = mh_timestamp_ns header,
                    mo_order_id = order_id, mo_instrument_id = instrument_id, mo_new_price = new_price,
                    mo_new_quantity = new_quantity\<rparr>))"

definition decode_td :: "Header \<Rightarrow> ByteReader \<Rightarrow> DecodeError + Event" where
  "decode_td header r0 =
     (let (instrument_id, r) = get_u32 r0;
          (price, r) = get_i64 r;
          (quantity, r) = get_u64 r;
          (side_raw, r) = get_u8 r
      in case do { instrument_id \<leftarrow> instrument_id; price \<leftarrow> price; quantity \<leftarrow> quantity;
                   side_raw \<leftarrow> side_raw; Some (instrument_id, price, quantity, side_raw) } of
           None \<Rightarrow> Inl TruncatedPayload
         | Some (instrument_id, price, quantity, side_raw) \<Rightarrow>
             if \<not> is_valid_side side_raw then Inl InvalidSide
             else Inr (TradeE \<lparr>td_sequence_number = mh_sequence_number header, td_timestamp_ns = mh_timestamp_ns header,
                    td_instrument_id = instrument_id, td_price = price, td_quantity = quantity,
                    td_aggressor_side = side_of_raw side_raw\<rparr>))"

definition decode_cb :: "Header \<Rightarrow> ByteReader \<Rightarrow> DecodeError + Event" where
  "decode_cb header r0 =
     (let (instrument_id, r) = get_u32 r0
      in case instrument_id of
           None \<Rightarrow> Inl TruncatedPayload
         | Some instrument_id \<Rightarrow>
             Inr (ClearBookE \<lparr>cb_sequence_number = mh_sequence_number header, cb_timestamp_ns = mh_timestamp_ns header,
                    cb_instrument_id = instrument_id\<rparr>))"

definition decode_event :: "byte list \<Rightarrow> DecodeError + Event" where
  "decode_event data =
     (case decode_header data of
        Inl e \<Rightarrow> Inl e
      | Inr header \<Rightarrow>
          if unat (mh_payload_size header) \<noteq> payload_size_for (mh_type header) then Inl InvalidMessageSize
          else if length data < HEADER_SIZE + unat (mh_payload_size header) then Inl TruncatedPayload
          else
            let r = byte_reader (take (unat (mh_payload_size header)) (drop HEADER_SIZE data))
            in case mh_type header of
                 MT_AddOrder \<Rightarrow> decode_ao header r
               | MT_CancelOrder \<Rightarrow> decode_xo header r
               | MT_ModifyOrder \<Rightarrow> decode_mo header r
               | MT_Trade \<Rightarrow> decode_td header r
               | MT_ClearBook \<Rightarrow> decode_cb header r)"

section \<open>Round trip\<close>

lemma md_type_raw [simp]: "is_known_type (raw_of_type t)" "type_of_raw (raw_of_type t) = t"
  by (cases t; simp add: is_known_type_def type_of_raw_def)+

lemma md_raw_type: "is_known_type x \<Longrightarrow> raw_of_type (type_of_raw x) = x"
  by (auto simp: is_known_type_def type_of_raw_def)

fun type_of :: "Event \<Rightarrow> MessageType" where
  "type_of (AddOrderE m) = MT_AddOrder"
| "type_of (CancelOrderE m) = MT_CancelOrder"
| "type_of (ModifyOrderE m) = MT_ModifyOrder"
| "type_of (TradeE m) = MT_Trade"
| "type_of (ClearBookE m) = MT_ClearBook"

fun sequence_number_of :: "Event \<Rightarrow> Sequence" where
  "sequence_number_of (AddOrderE m) = ao_sequence_number m"
| "sequence_number_of (CancelOrderE m) = xo_sequence_number m"
| "sequence_number_of (ModifyOrderE m) = mo_sequence_number m"
| "sequence_number_of (TradeE m) = td_sequence_number m"
| "sequence_number_of (ClearBookE m) = cb_sequence_number m"

fun timestamp_ns_of :: "Event \<Rightarrow> Timestamp" where
  "timestamp_ns_of (AddOrderE m) = ao_timestamp_ns m"
| "timestamp_ns_of (CancelOrderE m) = xo_timestamp_ns m"
| "timestamp_ns_of (ModifyOrderE m) = mo_timestamp_ns m"
| "timestamp_ns_of (TradeE m) = td_timestamp_ns m"
| "timestamp_ns_of (ClearBookE m) = cb_timestamp_ns m"

definition header_bytes :: "u8 \<Rightarrow> u16 \<Rightarrow> Sequence \<Rightarrow> Timestamp \<Rightarrow> byte list" where
  "header_bytes b n seq ts = b # 0 # be_bytes 2 n @ be_bytes 8 seq @ be_bytes 8 ts"

lemma md_length_header_bytes [simp]: "length (header_bytes b n seq ts) = 20"
  by (simp add: header_bytes_def)

definition header_of :: "Event \<Rightarrow> byte list" where
  "header_of e = header_bytes (raw_of_type (type_of e)) (word_of_nat (payload_size_for (type_of e)))
     (sequence_number_of e) (timestamp_ns_of e)"

definition payload :: "Event \<Rightarrow> byte list" where
  "payload e = drop HEADER_SIZE (encode_event e [])"

lemmas md_put_defs = put_header_def put_enum_defs header_of_def header_bytes_def payload_def HEADER_SIZE_def field_puts Let_def

lemma md_encode_split: "encode_event e out = out @ header_of e @ payload e"
  by (cases e) (simp_all add: md_put_defs)

lemma md_length_payload [simp]: "length (payload e) = payload_size_for (type_of e)"
  by (cases e) (simp_all add: md_put_defs)

lemma md_size_fits [simp]: "unat (word_of_nat (payload_size_for t) :: u16) = payload_size_for t"
  by (cases t) simp_all

lemma md_decode_header_bytes:
  "decode_header (header_bytes b n seq ts @ rest) =
     (if is_known_type b then Inr \<lparr>mh_type = type_of_raw b, mh_payload_size = n, mh_sequence_number = seq, mh_timestamp_ns = ts\<rparr>
      else Inl InvalidMessageType)"
  by (simp add: decode_header_def header_bytes_def HEADER_SIZE_def byte_reader_def field_gets Let_def be_value_bytes
      hd_drop_conv_nth)

lemma header_bytes_iff:
  "length data < 20 \<or> (\<exists>b z n seq ts rest. data = (header_bytes b n seq ts)[1 := z] @ rest)"
proof (cases "length data < 20")
  case False
  let ?n = "be_value (take 2 (drop 2 data)) :: u16" and ?seq = "be_value (take 8 (drop 4 data)) :: u64"
    and ?ts = "be_value (take 8 (drop 12 data)) :: u64"
  have "data = (header_bytes (data ! 0) ?n ?seq ?ts)[1 := data ! 1] @ drop 20 data"
  proof -
    have "data ! 0 # drop (Suc 0) data = data" using False by (cases data) simp_all
    then show ?thesis using False by (simp add: header_bytes_def slice_joins)
  qed
  then show ?thesis by blast
qed simp

lemma md_decode_header_Inr:
  assumes "decode_header data = Inr h"
  obtains b rest where "data = header_bytes b (mh_payload_size h) (mh_sequence_number h) (mh_timestamp_ns h) @ rest"
    "is_known_type b" "mh_type h = type_of_raw b"
proof -
  have l: "\<not> length data < 20" using assms by (auto simp: decode_header_def HEADER_SIZE_def)
  then obtain b z n seq ts rest where d: "data = (header_bytes b n seq ts)[1 := z] @ rest"
    using header_bytes_iff [of data] by blast
  have "z = 0"
    using assms unfolding d
    by (auto simp: decode_header_def header_bytes_def HEADER_SIZE_def byte_reader_def field_gets Let_def hd_drop_conv_nth
        split: if_splits)
  then have "data = header_bytes b n seq ts @ rest" using d by (simp add: header_bytes_def)
  then show ?thesis using assms by (intro that [of b rest]) (auto simp: md_decode_header_bytes split: if_splits)
qed

fun decode_payload :: "Header \<Rightarrow> MessageType \<Rightarrow> ByteReader \<Rightarrow> DecodeError + Event" where
  "decode_payload header MT_AddOrder r = decode_ao header r"
| "decode_payload header MT_CancelOrder r = decode_xo header r"
| "decode_payload header MT_ModifyOrder r = decode_mo header r"
| "decode_payload header MT_Trade r = decode_td header r"
| "decode_payload header MT_ClearBook r = decode_cb header r"

lemmas md_decode_payload_defs = decode_ao_def decode_xo_def decode_mo_def decode_td_def decode_cb_def

lemma decode_event_payload:
  "decode_event data =
     (case decode_header data of
        Inl e \<Rightarrow> Inl e
      | Inr header \<Rightarrow>
          if unat (mh_payload_size header) \<noteq> payload_size_for (mh_type header) then Inl InvalidMessageSize
          else if length data < HEADER_SIZE + unat (mh_payload_size header) then Inl TruncatedPayload
          else decode_payload header (mh_type header)
                 (byte_reader (take (unat (mh_payload_size header)) (drop HEADER_SIZE data))))"
  by (simp add: decode_event_def Let_def split: sum.split MessageType.split)

lemma md_decode_payload_of:
  assumes "mh_sequence_number h = sequence_number_of e" "mh_timestamp_ns h = timestamp_ns_of e"
  shows "decode_payload h (type_of e) (byte_reader (payload e)) = Inr e"
  using assms
  by (cases e) (simp_all add: md_put_defs md_decode_payload_defs byte_reader_def field_gets field_slices)

lemma md_canonical_payload:
  assumes "decode_payload h t (byte_reader xs) = Inr e" "length xs = payload_size_for t"
  shows "type_of e = t \<and> payload e = xs \<and> sequence_number_of e = mh_sequence_number h \<and> timestamp_ns_of e = mh_timestamp_ns h"
  using assms
  by (cases t)
    (auto simp: md_decode_payload_defs byte_reader_def field_gets md_put_defs raw_inverses slice_joins split: if_splits)

lemma md_decode_encode: "decode_event (encode_event e [] @ rest) = Inr e"
  by (simp add: md_encode_split header_of_def decode_event_payload md_decode_header_bytes HEADER_SIZE_def md_decode_payload_of)

lemma md_decode_canonical:
  assumes "decode_event data = Inr e"
  shows "take (length (encode_event e [])) data = encode_event e []"
proof -
  obtain h where h: "decode_header data = Inr h" using assms by (cases "decode_header data") (auto simp: decode_event_def)
  then obtain b rest where d: "data = header_bytes b (mh_payload_size h) (mh_sequence_number h) (mh_timestamp_ns h) @ rest"
    "is_known_type b" "mh_type h = type_of_raw b" by (rule md_decode_header_Inr)
  have n: "unat (mh_payload_size h) = payload_size_for (mh_type h)" "\<not> length rest < unat (mh_payload_size h)"
    "decode_payload h (mh_type h) (byte_reader (take (unat (mh_payload_size h)) rest)) = Inr e"
    using assms h by (auto simp: decode_event_payload d(1) HEADER_SIZE_def split: if_splits)
  then have p: "type_of e = mh_type h" "payload e = take (unat (mh_payload_size h)) rest"
    "sequence_number_of e = mh_sequence_number h" "timestamp_ns_of e = mh_timestamp_ns h"
    using md_canonical_payload [OF n(3)] by simp_all
  have "mh_payload_size h = word_of_nat (payload_size_for (mh_type h))" by (simp add: n(1) [symmetric] of_nat_unat)
  then have "header_of e = header_bytes b (mh_payload_size h) (mh_sequence_number h) (mh_timestamp_ns h)"
    using p d by (simp add: header_of_def md_raw_type)
  then show ?thesis using p n(2) by (simp add: md_encode_split d(1))
qed

lemma md_encode_append: "encode_event e out = out @ encode_event e []"
  by (simp add: md_encode_split)

lemma md_length_encode: "length (encode_event e []) = HEADER_SIZE + payload_size_for (type_of e)"
  by (simp add: md_encode_split header_of_def HEADER_SIZE_def)

interpretation market_data: framing "\<lambda>e. encode_event e []" decode_event
  by (unfold_locales, rule md_decode_encode, erule md_decode_canonical, simp add: md_encode_split header_of_def header_bytes_def)

lemma encode_within_max: "length (encode_event e []) \<le> MAX_FRAME_SIZE"
  unfolding md_length_encode by (cases "type_of e") (simp_all add: MAX_FRAME_SIZE_def max_payload_size_def ALL_MESSAGE_TYPES_def)

section \<open>Properties\<close>

text \<open>C20. The market-data format is unambiguous: \<open>decode_event\<close> accepts a buffer with the result \<open>e\<close>
  exactly when the buffer starts with the encoding of \<open>e\<close>, and no encoding is longer than
  \<open>MAX_FRAME_SIZE\<close>.\<close>

theorem market_data_decodes_exactly_its_encodings:
  "(decode_event data = Inr e \<longleftrightarrow> (\<exists>rest. data = encode_event e [] @ rest)) \<and> length (encode_event e []) \<le> MAX_FRAME_SIZE"
  by (simp add: market_data.dec_iff encode_within_max)

end
