(* ===== verification/Packet.thy ===== *)
theory Packet
  imports MarketDataCodec
begin

text \<open>
  Sequence numbers and datagrams: \<open>SequenceValidator\<close> of \<open>src/src/common/sequence_validator.cpp\<close>,
  \<open>PacketSequenceTracker\<close> of \<open>src/include/net/packet_sequence_tracker.hpp\<close>, and the packing of event
  frames into one datagram of \<open>src/src/net/packet.cpp\<close>.
\<close>

section \<open>Sequence numbers\<close>

datatype SequenceOutcome = InOrder | Duplicate | OutOfOrder | Missing

record SequenceCheck =
  sc_outcome :: SequenceOutcome
  sc_observed :: Sequence
  sc_expected :: Sequence

type_synonym SequenceValidator = "Sequence option" \<comment> \<open>\<open>last_seen_\<close>\<close>

definition check :: "Sequence \<Rightarrow> SequenceValidator \<Rightarrow> SequenceCheck \<times> SequenceValidator" where
  "check seq last_seen =
     (case last_seen of
        None \<Rightarrow> (\<lparr>sc_outcome = InOrder, sc_observed = seq, sc_expected = 0\<rparr>, Some seq)
      | Some prev \<Rightarrow>
          if seq = prev + 1 then (\<lparr>sc_outcome = InOrder, sc_observed = seq, sc_expected = 0\<rparr>, Some seq)
          else if seq = prev then (\<lparr>sc_outcome = Duplicate, sc_observed = seq, sc_expected = 0\<rparr>, last_seen)
          else if seq < prev then (\<lparr>sc_outcome = OutOfOrder, sc_observed = seq, sc_expected = 0\<rparr>, last_seen)
          else (\<lparr>sc_outcome = Missing, sc_observed = seq, sc_expected = prev + 1\<rparr>, Some seq))"

definition reset :: "Sequence \<Rightarrow> SequenceValidator \<Rightarrow> SequenceValidator" where
  "reset seq last_seen = Some seq"

record PacketSequenceStats =
  ps_packets_seen :: u64
  ps_in_order :: u64
  ps_duplicate :: u64
  ps_out_of_order :: u64
  ps_missing_events :: u64

record PacketSequenceTracker =
  pt_validator :: SequenceValidator
  pt_stats :: PacketSequenceStats

definition new_packet_sequence_tracker :: PacketSequenceTracker where
  "new_packet_sequence_tracker =
     \<lparr>pt_validator = None,
      pt_stats = \<lparr>ps_packets_seen = 0, ps_in_order = 0, ps_duplicate = 0, ps_out_of_order = 0, ps_missing_events = 0\<rparr>\<rparr>"

definition observe :: "Sequence \<Rightarrow> PacketSequenceTracker \<Rightarrow> SequenceCheck \<times> PacketSequenceTracker" where
  "observe packet_sequence t =
     (let (c, v) = check packet_sequence (pt_validator t);
          s = pt_stats t;
          s = s\<lparr>ps_packets_seen := ps_packets_seen s + 1\<rparr>;
          s = (case sc_outcome c of
                 InOrder \<Rightarrow> s\<lparr>ps_in_order := ps_in_order s + 1\<rparr>
               | Duplicate \<Rightarrow> s\<lparr>ps_duplicate := ps_duplicate s + 1\<rparr>
               | OutOfOrder \<Rightarrow> s\<lparr>ps_out_of_order := ps_out_of_order s + 1\<rparr>
               | Missing \<Rightarrow> s\<lparr>ps_missing_events := ps_missing_events s + 1\<rparr>)
      in (c, t\<lparr>pt_validator := v, pt_stats := s\<rparr>))"

section \<open>Datagrams\<close>

definition PACKET_MAGIC :: u32 where
  "PACKET_MAGIC = 0x4D444831"

definition PACKET_VERSION :: u16 where
  "PACKET_VERSION = 1"

definition PACKET_HEADER_SIZE :: nat where
  "PACKET_HEADER_SIZE = 20"

definition MAX_DATAGRAM_PAYLOAD :: nat where
  "MAX_DATAGRAM_PAYLOAD = 1472"

definition MAX_FRAMES_PER_DATAGRAM :: nat where
  "MAX_FRAMES_PER_DATAGRAM = (MAX_DATAGRAM_PAYLOAD - PACKET_HEADER_SIZE) div MAX_FRAME_SIZE"

record PacketHeader =
  ph_magic :: u32
  ph_version :: u16
  ph_frame_count :: u16
  ph_packet_sequence :: u64
  ph_payload_length :: u32

datatype PacketError =
    PacketTruncatedHeader
  | InvalidMagic
  | InvalidVersion
  | ZeroFrameCount
  | PayloadLengthMismatch
  | InnerFrameHeaderInvalid
  | FrameCountMismatch

fun packet_error_to_string :: "PacketError \<Rightarrow> string" where
  "packet_error_to_string PacketTruncatedHeader = ''TruncatedHeader''"
| "packet_error_to_string InvalidMagic = ''InvalidMagic''"
| "packet_error_to_string InvalidVersion = ''InvalidVersion''"
| "packet_error_to_string ZeroFrameCount = ''ZeroFrameCount''"
| "packet_error_to_string PayloadLengthMismatch = ''PayloadLengthMismatch''"
| "packet_error_to_string InnerFrameHeaderInvalid = ''InnerFrameHeaderInvalid''"
| "packet_error_to_string FrameCountMismatch = ''FrameCountMismatch''"

definition pack_frames :: "u64 \<Rightarrow> Event list \<Rightarrow> byte list" where
  "pack_frames packet_sequence events =
     (let payload = fold encode_event events [];
          out = put_u32 PACKET_MAGIC [];
          out = put_u16 PACKET_VERSION out;
          out = put_u16 (word_of_nat (length events)) out;
          out = put_u64 packet_sequence out;
          out = put_u32 (word_of_nat (length payload)) out
      in out @ payload)"

record UnpackedPacket =
  up_header :: PacketHeader
  up_frames :: "(DecodeError + Event) list"

fun unpack_loop :: "nat \<Rightarrow> byte list \<Rightarrow> PacketError + (DecodeError + Event) list \<times> byte list" where
  \<comment> \<open>the loop over \<open>frame_count\<close>; the second argument is what follows \<open>offset\<close>\<close>
  "unpack_loop 0 rest = Inr ([], rest)"
| "unpack_loop (Suc n) rest =
     (case decode_header rest of
        Inl e \<Rightarrow> Inl InnerFrameHeaderInvalid
      | Inr header \<Rightarrow>
          let frame_len = HEADER_SIZE + unat (mh_payload_size header)
          in if length rest < frame_len then Inl InnerFrameHeaderInvalid
             else case unpack_loop n (drop frame_len rest) of
                    Inl e \<Rightarrow> Inl e
                  | Inr (frames, left) \<Rightarrow> Inr (decode_event (take frame_len rest) # frames, left))"

definition unpack_frames :: "byte list \<Rightarrow> PacketError + UnpackedPacket" where
  "unpack_frames datagram =
     (if length datagram < PACKET_HEADER_SIZE then Inl PacketTruncatedHeader
      else
        let (magic, r) = get_u32 (byte_reader (take PACKET_HEADER_SIZE datagram));
            (version, r) = get_u16 r;
            (frame_count, r) = get_u16 r;
            (packet_sequence, r) = get_u64 r;
            (payload_length, r) = get_u32 r
        in case do { magic \<leftarrow> magic; version \<leftarrow> version; frame_count \<leftarrow> frame_count; packet_sequence \<leftarrow> packet_sequence;
                     payload_length \<leftarrow> payload_length; Some (magic, version, frame_count, packet_sequence, payload_length) } of
             None \<Rightarrow> Inl PacketTruncatedHeader
           | Some (magic, version, frame_count, packet_sequence, payload_length) \<Rightarrow>
               if magic \<noteq> PACKET_MAGIC then Inl InvalidMagic
               else if version \<noteq> PACKET_VERSION then Inl InvalidVersion
               else if frame_count = 0 then Inl ZeroFrameCount
               else if length (drop PACKET_HEADER_SIZE datagram) \<noteq> unat payload_length then Inl PayloadLengthMismatch
               else case unpack_loop (unat frame_count) (drop PACKET_HEADER_SIZE datagram) of
                      Inl e \<Rightarrow> Inl e
                    | Inr (frames, left) \<Rightarrow>
                        if left \<noteq> [] then Inl FrameCountMismatch
                        else Inr \<lparr>up_header = \<lparr>ph_magic = magic, ph_version = version, ph_frame_count = frame_count,
                                    ph_packet_sequence = packet_sequence, ph_payload_length = payload_length\<rparr>,
                                  up_frames = frames\<rparr>)"

section \<open>Classifying sequence numbers\<close>

fun in_sequence :: "Sequence \<Rightarrow> Sequence list \<Rightarrow> bool" where
  \<comment> \<open>consecutive numbers from \<open>n\<close> on\<close>
  "in_sequence n [] \<longleftrightarrow> True"
| "in_sequence n (s # ss) \<longleftrightarrow> s = n \<and> in_sequence (n + 1) ss"

lemma check_next [simp]: "check (n + 1) (Some n) = (\<lparr>sc_outcome = InOrder, sc_observed = n + 1, sc_expected = 0\<rparr>, Some (n + 1))"
  by (simp add: check_def)

lemma check_first [simp]: "check n None = (\<lparr>sc_outcome = InOrder, sc_observed = n, sc_expected = 0\<rparr>, Some n)"
  by (simp add: check_def)

section \<open>Packing and unpacking\<close>

lemma pack_payload: "fold encode_event events out = out @ concat (map (\<lambda>e. encode_event e []) events)"
proof (induction events arbitrary: out)
  case (Cons e es)
  then show ?case using md_encode_append [of e out] by simp
qed simp

lemma frame_header: "decode_header (encode_event e [] @ rest) =
    Inr \<lparr>mh_type = type_of e, mh_payload_size = word_of_nat (payload_size_for (type_of e)),
         mh_sequence_number = sequence_number_of e, mh_timestamp_ns = timestamp_ns_of e\<rparr>"
  by (simp add: md_encode_split header_of_def md_decode_header_bytes)

lemma unpack_loop_frames:
  "unpack_loop (length events) (concat (map (\<lambda>e. encode_event e []) events) @ rest) = Inr (map Inr events, rest)"
proof (induction events)
  case (Cons e es)
  have l: "HEADER_SIZE + payload_size_for (type_of e) = length (encode_event e [])" by (simp add: md_length_encode)
  have "decode_event (encode_event e []) = Inr e" using md_decode_encode [of e "[]"] by simp
  then show ?case using Cons by (simp add: frame_header Let_def l)
qed simp

lemma max_frames: "MAX_FRAMES_PER_DATAGRAM = 29"
  by (simp add: MAX_FRAMES_PER_DATAGRAM_def MAX_DATAGRAM_PAYLOAD_def PACKET_HEADER_SIZE_def MAX_FRAME_SIZE_def
      max_payload_size_def ALL_MESSAGE_TYPES_def HEADER_SIZE_def)

lemma packed_payload_bound: "length (concat (map (\<lambda>e. encode_event e []) events)) \<le> length events * MAX_FRAME_SIZE"
proof (induction events)
  case (Cons e es)
  then show ?case using encode_within_max [of e] by simp
qed simp

lemma max_frame_size: "MAX_FRAME_SIZE = 49"
  by (simp add: MAX_FRAME_SIZE_def max_payload_size_def ALL_MESSAGE_TYPES_def HEADER_SIZE_def)

definition packed_header :: "u64 \<Rightarrow> Event list \<Rightarrow> PacketHeader" where
  "packed_header seq events =
     \<lparr>ph_magic = PACKET_MAGIC, ph_version = PACKET_VERSION, ph_frame_count = word_of_nat (length events),
      ph_packet_sequence = seq, ph_payload_length = word_of_nat (length (concat (map (\<lambda>e. encode_event e []) events)))\<rparr>"

lemma pack_split:
  "pack_frames seq events =
     be_bytes 4 PACKET_MAGIC @ be_bytes 2 PACKET_VERSION @ be_bytes 2 (ph_frame_count (packed_header seq events)) @
     be_bytes 8 seq @ be_bytes 4 (ph_payload_length (packed_header seq events)) @ concat (map (\<lambda>e. encode_event e []) events)"
  by (simp add: pack_frames_def Let_def pack_payload field_puts packed_header_def)

lemma unpack_header:
  "unpack_frames (be_bytes 4 magic @ be_bytes 2 version @ be_bytes 2 count @ be_bytes 8 seq @ be_bytes 4 len @ body) =
     (if magic \<noteq> PACKET_MAGIC then Inl InvalidMagic
      else if version \<noteq> PACKET_VERSION then Inl InvalidVersion
      else if count = 0 then Inl ZeroFrameCount
      else if length body \<noteq> unat len then Inl PayloadLengthMismatch
      else case unpack_loop (unat count) body of
             Inl e \<Rightarrow> Inl e
           | Inr (frames, left) \<Rightarrow>
               if left \<noteq> [] then Inl FrameCountMismatch
               else Inr \<lparr>up_header = \<lparr>ph_magic = magic, ph_version = version, ph_frame_count = count,
                           ph_packet_sequence = seq, ph_payload_length = len\<rparr>, up_frames = frames\<rparr>)"
  by (simp add: unpack_frames_def PACKET_HEADER_SIZE_def byte_reader_def field_gets Let_def field_slices be_value_bytes)

lemma unpack_pack:
  assumes "events \<noteq> []" "length events < 2 ^ 16"
  shows "unpack_frames (pack_frames seq events) = Inr \<lparr>up_header = packed_header seq events, up_frames = map Inr events\<rparr>"
proof -
  let ?p = "concat (map (\<lambda>e. encode_event e []) events)"
  have c: "unat (word_of_nat (length events) :: u16) = length events" using assms(2) by (simp add: unat_of_nat)
  then have c0: "(word_of_nat (length events) :: u16) \<noteq> 0" using assms(1) by (metis length_0_conv unat_0)
  have "length events * MAX_FRAME_SIZE \<le> 65535 * 49" using assms(2) by (simp add: max_frame_size)
  then have "length ?p \<le> 65535 * 49" using packed_payload_bound [of events] by linarith
  then have l: "unat (word_of_nat (length ?p) :: u32) = length ?p" by (simp add: unat_of_nat)
  show ?thesis
    using unpack_loop_frames [of events "[]"] c c0 l
    unfolding pack_split unpack_header by (simp add: packed_header_def)
qed

section \<open>Properties\<close>

text \<open>
  C34. A datagram carries its events: unpacking what was packed gives back the header that was written
  and every event in order; a batch of at most \<open>MAX_FRAMES_PER_DATAGRAM\<close> events also fits the payload of
  one unfragmented datagram.
\<close>

theorem packed_events_come_back:
  assumes "events \<noteq> []" "length events < 2 ^ 16"
  shows "unpack_frames (pack_frames seq events) = Inr \<lparr>up_header = packed_header seq events, up_frames = map Inr events\<rparr> \<and>
    (length events \<le> MAX_FRAMES_PER_DATAGRAM \<longrightarrow> length (pack_frames seq events) \<le> MAX_DATAGRAM_PAYLOAD)"
proof -
  have "length (pack_frames seq events) \<le> MAX_DATAGRAM_PAYLOAD" if "length events \<le> MAX_FRAMES_PER_DATAGRAM"
    using packed_payload_bound [of events] that by (simp add: pack_split max_frames max_frame_size MAX_DATAGRAM_PAYLOAD_def)
  then show ?thesis using unpack_pack [OF assms] by blast
qed

definition sample_trade_event :: Event where
  "sample_trade_event = TradeE \<lparr>td_sequence_number = 9, td_timestamp_ns = 1, td_instrument_id = 7, td_price = 100,
     td_quantity = 3, td_aggressor_side = Buy\<rparr>"

theorem packed_events_come_back_witness:
  "unpack_frames (pack_frames 4 [sample_trade_event, sample_trade_event]) =
     Inr \<lparr>up_header = packed_header 4 [sample_trade_event, sample_trade_event],
          up_frames = [Inr sample_trade_event, Inr sample_trade_event]\<rparr>"
  using packed_events_come_back [of "[sample_trade_event, sample_trade_event]" 4] by simp

end
