(* ===== verification/ReconstructedBook.thy ===== *)
theory ReconstructedBook
  imports Domain
begin

text \<open>
  The trader's book, rebuilt from the feed: \<open>PriceLevel\<close>, \<open>OrderBook\<close> and \<open>BookManager\<close> of \<open>src/include/book/\<close>
  and \<open>src/src/book/\<close>. A side is a \<open>std::map\<close> from prices to levels: here the list of its entries in
  iteration order. A level's \<open>std::list\<close> is a list of orders; the iterator an index entry keeps is the node
  of that order, and since the index admits an id once, the order id names the node. Looking up a level
  that is not there is undefined behaviour in the code: the operation returns \<open>None\<close>.
\<close>

section \<open>State\<close>

datatype BookError = UnknownOrderId | DuplicateOrderId | InvalidPrice | InvalidQuantity

record RestingOrder =
  rs_id :: OrderId
  rs_quantity :: Quantity

record PriceLevel =
  pl_price :: Price
  pl_orders :: "RestingOrder list"
  pl_aggregate_qty :: Quantity

record PriceLevelView =
  pv_price :: Price
  pv_aggregate_quantity :: Quantity
  pv_order_count :: nat

record OrderView =
  ov_order_id :: OrderId
  ov_price :: Price
  ov_quantity :: Quantity

record OrderLocation =
  ol_side :: Side
  ol_price :: Price

type_synonym Levels = "(Price \<times> PriceLevel) list"

record OrderBook =
  ob_bids :: Levels
  ob_asks :: Levels
  ob_order_index :: "OrderId \<rightharpoonup> OrderLocation"

definition new_order_book :: OrderBook where
  "new_order_book = \<lparr>ob_bids = [], ob_asks = [], ob_order_index = Map.empty\<rparr>"

section \<open>Price levels\<close>

definition new_price_level :: "Price \<Rightarrow> PriceLevel" where
  "new_price_level price = \<lparr>pl_price = price, pl_orders = [], pl_aggregate_qty = 0\<rparr>"

definition level_add :: "OrderId \<Rightarrow> Quantity \<Rightarrow> PriceLevel \<Rightarrow> PriceLevel" where
  "level_add oid qty l =
     l\<lparr>pl_orders := pl_orders l @ [\<lparr>rs_id = oid, rs_quantity = qty\<rparr>], pl_aggregate_qty := pl_aggregate_qty l + qty\<rparr>"

definition level_remove :: "OrderId \<Rightarrow> PriceLevel \<Rightarrow> PriceLevel option" where
  \<comment> \<open>by the iterator of the node that holds \<open>oid\<close>\<close>
  "level_remove oid l =
     (case find (\<lambda>r. rs_id r = oid) (pl_orders l) of
        None \<Rightarrow> None
      | Some r \<Rightarrow> Some (l\<lparr>pl_orders := remove1 r (pl_orders l), pl_aggregate_qty := pl_aggregate_qty l - rs_quantity r\<rparr>))"

definition level_view :: "Price \<times> PriceLevel \<Rightarrow> PriceLevelView" where
  "level_view e = \<lparr>pv_price = fst e, pv_aggregate_quantity = pl_aggregate_qty (snd e), pv_order_count = length (pl_orders (snd e))\<rparr>"

section \<open>The two maps\<close>

definition price_before :: "Side \<Rightarrow> Price \<Rightarrow> Price \<Rightarrow> bool" where
  \<comment> \<open>\<open>std::greater\<close> for bids, \<open>std::less\<close> for asks\<close>
  "price_before side p q = (if side = Buy then sless q p else sless p q)"

fun try_emplace :: "Side \<Rightarrow> Price \<Rightarrow> Levels \<Rightarrow> Levels" where
  "try_emplace side price [] = [(price, new_price_level price)]"
| "try_emplace side price ((p, l) # ls) =
     (if p = price then (p, l) # ls
      else if price_before side price p then (price, new_price_level price) # (p, l) # ls
      else (p, l) # try_emplace side price ls)"

definition set_level :: "Price \<Rightarrow> PriceLevel \<Rightarrow> Levels \<Rightarrow> Levels" where
  "set_level price l ls = map (\<lambda>(p, m). if p = price then (p, l) else (p, m)) ls"

definition erase_level :: "Price \<Rightarrow> Levels \<Rightarrow> Levels" where
  "erase_level price ls = filter (\<lambda>(p, m). p \<noteq> price) ls"

definition side_levels :: "Side \<Rightarrow> OrderBook \<Rightarrow> Levels" where
  "side_levels side b = (if side = Buy then ob_bids b else ob_asks b)"

definition set_side_levels :: "Side \<Rightarrow> Levels \<Rightarrow> OrderBook \<Rightarrow> OrderBook" where
  "set_side_levels side ls b = (if side = Buy then b\<lparr>ob_bids := ls\<rparr> else b\<lparr>ob_asks := ls\<rparr>)"

section \<open>Operations\<close>

definition insert_at :: "Side \<Rightarrow> OrderId \<Rightarrow> Price \<Rightarrow> Quantity \<Rightarrow> OrderBook \<Rightarrow> OrderBook" where
  "insert_at side oid price qty b =
     (let ls = try_emplace side price (side_levels side b);
          ls = (case map_of ls price of None \<Rightarrow> ls | Some l \<Rightarrow> set_level price (level_add oid qty l) ls);
          b = set_side_levels side ls b
      in b\<lparr>ob_order_index := (ob_order_index b)(oid \<mapsto> \<lparr>ol_side = side, ol_price = price\<rparr>)\<rparr>)"

definition erase_at :: "OrderId \<Rightarrow> OrderLocation \<Rightarrow> OrderBook \<Rightarrow> OrderBook option" where
  "erase_at oid loc b =
     (let ls = side_levels (ol_side loc) b
      in case map_of ls (ol_price loc) of
           None \<Rightarrow> None
         | Some l \<Rightarrow>
             (case level_remove oid l of
                None \<Rightarrow> None
              | Some l' \<Rightarrow>
                  Some (set_side_levels (ol_side loc)
                    (if pl_orders l' = [] then erase_level (ol_price loc) ls else set_level (ol_price loc) l' ls) b)))"

definition add_order :: "OrderId \<Rightarrow> Price \<Rightarrow> Quantity \<Rightarrow> Side \<Rightarrow> OrderBook \<Rightarrow> BookError option \<times> OrderBook" where
  "add_order oid price qty side b =
     (if sle price 0 then (Some InvalidPrice, b)
      else if qty = 0 then (Some InvalidQuantity, b)
      else if ob_order_index b oid \<noteq> None then (Some DuplicateOrderId, b)
      else (None, insert_at side oid price qty b))"

definition cancel_order :: "OrderId \<Rightarrow> OrderBook \<Rightarrow> (BookError option \<times> OrderBook) option" where
  "cancel_order oid b =
     (case ob_order_index b oid of
        None \<Rightarrow> Some (Some UnknownOrderId, b)
      | Some loc \<Rightarrow>
          map_option (\<lambda>b. (None, b\<lparr>ob_order_index := (ob_order_index b)(oid := None)\<rparr>)) (erase_at oid loc b))"

definition modify_order :: "OrderId \<Rightarrow> Price \<Rightarrow> Quantity \<Rightarrow> OrderBook \<Rightarrow> (BookError option \<times> OrderBook) option" where
  "modify_order oid new_price new_qty b =
     (if sle new_price 0 then Some (Some InvalidPrice, b)
      else if new_qty = 0 then Some (Some InvalidQuantity, b)
      else case ob_order_index b oid of
             None \<Rightarrow> Some (Some UnknownOrderId, b)
           | Some loc \<Rightarrow>
               map_option (\<lambda>b. (None, insert_at (ol_side loc) oid new_price new_qty
                 (b\<lparr>ob_order_index := (ob_order_index b)(oid := None)\<rparr>))) (erase_at oid loc b))"

definition clear :: "OrderBook \<Rightarrow> OrderBook" where
  "clear b = b\<lparr>ob_bids := [], ob_asks := [], ob_order_index := Map.empty\<rparr>"

definition best_bid :: "OrderBook \<Rightarrow> PriceLevelView option" where
  "best_bid b = (if ob_bids b = [] then None else Some (level_view (hd (ob_bids b))))"

definition best_ask :: "OrderBook \<Rightarrow> PriceLevelView option" where
  "best_ask b = (if ob_asks b = [] then None else Some (level_view (hd (ob_asks b))))"

definition top_bids :: "nat \<Rightarrow> OrderBook \<Rightarrow> PriceLevelView list" where
  "top_bids n b = map level_view (take n (ob_bids b))"

definition top_asks :: "nat \<Rightarrow> OrderBook \<Rightarrow> PriceLevelView list" where
  "top_asks n b = map level_view (take n (ob_asks b))"

definition level_orders :: "Price \<times> PriceLevel \<Rightarrow> OrderView list" where
  "level_orders e = map (\<lambda>r. \<lparr>ov_order_id = rs_id r, ov_price = fst e, ov_quantity = rs_quantity r\<rparr>) (pl_orders (snd e))"

definition all_bids :: "OrderBook \<Rightarrow> OrderView list" where
  "all_bids b = concat (map level_orders (ob_bids b))"

definition all_asks :: "OrderBook \<Rightarrow> OrderView list" where
  "all_asks b = concat (map level_orders (ob_asks b))"

definition has_order :: "OrderId \<Rightarrow> OrderBook \<Rightarrow> bool" where
  "has_order oid b \<longleftrightarrow> ob_order_index b oid \<noteq> None"

section \<open>The book manager\<close>

record InstrumentStats =
  is_trade_count :: u64
  is_traded_quantity :: Quantity
  is_last_trade_price :: Price

record BookManager =
  bm_books :: "InstrumentId \<rightharpoonup> OrderBook"
  bm_stats :: "InstrumentId \<rightharpoonup> InstrumentStats"

definition new_book_manager :: BookManager where
  "new_book_manager = \<lparr>bm_books = Map.empty, bm_stats = Map.empty\<rparr>"

definition book_at :: "InstrumentId \<Rightarrow> BookManager \<Rightarrow> OrderBook" where
  \<comment> \<open>\<open>book_for\<close>: \<open>books_[id]\<close> makes a missing book\<close>
  "book_at iid m = (case bm_books m iid of None \<Rightarrow> new_order_book | Some b \<Rightarrow> b)"

definition set_book_at :: "InstrumentId \<Rightarrow> OrderBook \<Rightarrow> BookManager \<Rightarrow> BookManager" where
  \<comment> \<open>what is written through the reference \<open>book_for\<close> returned\<close>
  "set_book_at iid b m = m\<lparr>bm_books := (bm_books m)(iid \<mapsto> b)\<rparr>"

definition find_book :: "InstrumentId \<Rightarrow> BookManager \<Rightarrow> OrderBook option" where
  "find_book iid m = bm_books m iid"

definition record_trade :: "InstrumentId \<Rightarrow> Price \<Rightarrow> Quantity \<Rightarrow> BookManager \<Rightarrow> BookManager" where
  "record_trade iid price qty m =
     (let s = (case bm_stats m iid of
                 None \<Rightarrow> \<lparr>is_trade_count = 0, is_traded_quantity = 0, is_last_trade_price = 0\<rparr> | Some s \<Rightarrow> s)
      in m\<lparr>bm_stats := (bm_stats m)(iid \<mapsto>
           s\<lparr>is_trade_count := is_trade_count s + 1, is_traded_quantity := is_traded_quantity s + qty,
             is_last_trade_price := price\<rparr>)\<rparr>)"

definition trade_stats :: "InstrumentId \<Rightarrow> BookManager \<Rightarrow> InstrumentStats option" where
  "trade_stats iid m = bm_stats m iid"

definition instruments :: "BookManager \<Rightarrow> InstrumentId list" where
  "instruments m = sorted_list_of_set (dom (bm_books m) \<union> dom (bm_stats m))"

section \<open>Well-formed books\<close>

text \<open>
  Levels come in the comparator's order, each with its own price, at least one order and the sum of its
  quantities; every order has a location under its id that leads to its level, and every location leads to
  an order.
\<close>

definition level_ok :: "Price \<times> PriceLevel \<Rightarrow> bool" where
  "level_ok e \<longleftrightarrow> pl_price (snd e) = fst e \<and> pl_orders (snd e) \<noteq> [] \<and>
     pl_aggregate_qty (snd e) = sum_list (map rs_quantity (pl_orders (snd e)))"

definition levels_ok :: "Side \<Rightarrow> Levels \<Rightarrow> bool" where
  "levels_ok side ls \<longleftrightarrow> sorted_wrt (price_before side) (map fst ls) \<and> (\<forall>e \<in> set ls. level_ok e)"

definition orders_at :: "Levels \<Rightarrow> Price \<Rightarrow> RestingOrder list" where
  "orders_at ls p = (case map_of ls p of None \<Rightarrow> [] | Some l \<Rightarrow> pl_orders l)"

definition book_ok :: "OrderBook \<Rightarrow> bool" where
  "book_ok b \<longleftrightarrow>
     (\<forall>sd. levels_ok sd (side_levels sd b)) \<and>
     (\<forall>sd p. distinct (map rs_id (orders_at (side_levels sd b) p))) \<and>
     (\<forall>oid sd p. ob_order_index b oid = Some \<lparr>ol_side = sd, ol_price = p\<rparr> \<longleftrightarrow> oid \<in> rs_id ` set (orders_at (side_levels sd b) p))"

text \<open>What the book says about an order: its side, price and open quantity.\<close>

definition depth :: "OrderBook \<Rightarrow> OrderId \<rightharpoonup> Side \<times> Price \<times> Quantity" where
  "depth b oid =
     (case ob_order_index b oid of
        None \<Rightarrow> None
      | Some loc \<Rightarrow> map_option (\<lambda>r. (ol_side loc, ol_price loc, rs_quantity r))
          (find (\<lambda>r. rs_id r = oid) (orders_at (side_levels (ol_side loc) b) (ol_price loc))))"

section \<open>Levels\<close>

lemma price_before_prio: "price_before sd p q \<longleftrightarrow> (if sd = Buy then sint q < sint p else sint p < sint q)"
  by (simp add: price_before_def signed_cmp)

lemma price_before_irrefl [simp]: "\<not> price_before sd p p"
  by (simp add: price_before_prio)

lemma price_before_trans: "price_before sd p q \<Longrightarrow> price_before sd q r \<Longrightarrow> price_before sd p r"
  by (auto simp: price_before_prio split: if_splits)

lemma price_before_total: "p \<noteq> q \<Longrightarrow> \<not> price_before sd p q \<Longrightarrow> price_before sd q p"
  using sint_eq_iff_64 [of p q] by (auto simp: price_before_prio split: if_splits)

lemma sorted_distinct: "sorted_wrt (price_before sd) ps \<Longrightarrow> distinct ps"
  by (induction ps) auto

lemma fst_try_emplace: "fst ` set (try_emplace sd p ls) = insert p (fst ` set ls)"
  by (induction sd p ls rule: try_emplace.induct) auto

lemma set_try_emplace: "set (try_emplace sd p ls) \<subseteq> insert (p, new_price_level p) (set ls)"
  by (induction sd p ls rule: try_emplace.induct) auto

lemma sorted_try_emplace:
  "sorted_wrt (price_before sd) (map fst ls) \<Longrightarrow> sorted_wrt (price_before sd) (map fst (try_emplace sd p ls))"
proof (induction sd p ls rule: try_emplace.induct)
  case (2 sd p q l ls)
  have "price_before sd q r" if "r \<in> insert p (fst ` set ls)" "p \<noteq> q" "\<not> price_before sd p q" for r
    using that 2(2) price_before_total by auto
  moreover have "price_before sd p r" if "r \<in> fst ` set ls" "price_before sd p q" for r
    using that 2(2) price_before_trans [of sd p q r] by auto
  ultimately show ?case using 2 fst_try_emplace [of sd p ls] by auto
qed simp

lemma map_of_try_emplace:
  "sorted_wrt (price_before sd) (map fst ls) \<Longrightarrow>
   map_of (try_emplace sd p ls) q = (if q = p \<and> map_of ls p = None then Some (new_price_level p) else map_of ls q)"
proof (induction sd p ls rule: try_emplace.induct)
  case (2 sd p r l ls)
  have "map_of ls p = None" if "price_before sd p r"
  proof -
    have "p \<notin> fst ` set ls"
    proof
      assume "p \<in> fst ` set ls"
      then have "price_before sd r p" using 2(2) by auto
      then show False using that price_before_trans [of sd p r p] by simp
    qed
    then show ?thesis by (simp add: map_of_eq_None_iff)
  qed
  then show ?case using 2 by auto
qed simp

lemma map_of_set_level: "map_of (set_level p l ls) q = (if q = p \<and> map_of ls p \<noteq> None then Some l else map_of ls q)"
  unfolding set_level_def by (induction ls) (auto split: prod.split)

lemma map_fst_set_level [simp]: "map fst (set_level p l ls) = map fst ls"
  unfolding set_level_def by (induction ls) (auto split: prod.split)

lemma map_of_erase_level: "map_of (erase_level p ls) q = (if q = p then None else map_of ls q)"
  unfolding erase_level_def by (induction ls) (auto split: prod.split)

lemma sorted_erase_level:
  "sorted_wrt (price_before sd) (map fst ls) \<Longrightarrow> sorted_wrt (price_before sd) (map fst (erase_level p ls))"
  unfolding erase_level_def by (simp add: sorted_wrt_map sorted_wrt_filter)

lemma level_in: "levels_ok sd ls \<Longrightarrow> e \<in> set ls \<longleftrightarrow> map_of ls (fst e) = Some (snd e)"
  using sorted_distinct [of sd "map fst ls"] map_of_eq_Some_iff [of ls "fst e" "snd e"] by (simp add: levels_ok_def)

lemma levels_okI:
  assumes "sorted_wrt (price_before sd) (map fst ls)" "\<And>p l. map_of ls p = Some l \<Longrightarrow> level_ok (p, l)"
  shows "levels_ok sd ls"
  using assms sorted_distinct [OF assms(1)] map_of_eq_Some_iff [of ls] by (auto simp: levels_ok_def)

lemma levels_okD:
  assumes "levels_ok sd ls"
  shows "sorted_wrt (price_before sd) (map fst ls)" "map_of ls p = Some l \<Longrightarrow> level_ok (p, l)"
  using assms by (auto simp: levels_ok_def dest: map_of_SomeD)

definition levels_insert :: "Side \<Rightarrow> OrderId \<Rightarrow> Price \<Rightarrow> Quantity \<Rightarrow> Levels \<Rightarrow> Levels" where
  "levels_insert side oid price qty ls =
     (case map_of (try_emplace side price ls) price of
        None \<Rightarrow> try_emplace side price ls
      | Some l \<Rightarrow> set_level price (level_add oid qty l) (try_emplace side price ls))"

lemma levels_insert:
  assumes "levels_ok sd ls"
  shows "levels_ok sd (levels_insert sd oid p q ls)"
    "orders_at (levels_insert sd oid p q ls) r = orders_at ls r @ (if r = p then [\<lparr>rs_id = oid, rs_quantity = q\<rparr>] else [])"
proof -
  have so: "sorted_wrt (price_before sd) (map fst ls)" by (rule levels_okD [OF assms])
  define l where "l = (case map_of ls p of None \<Rightarrow> new_price_level p | Some l \<Rightarrow> l)"
  have m: "map_of (try_emplace sd p ls) p = Some l" by (simp add: map_of_try_emplace [OF so] l_def split: option.split)
  have ins: "levels_insert sd oid p q ls = set_level p (level_add oid q l) (try_emplace sd p ls)"
    by (simp add: levels_insert_def m)
  have l: "level_ok (p, level_add oid q l)" "pl_orders (level_add oid q l) = orders_at ls p @ [\<lparr>rs_id = oid, rs_quantity = q\<rparr>]"
    using levels_okD(2) [OF assms, of p] by (auto simp: l_def level_ok_def level_add_def new_price_level_def orders_at_def split: option.splits)
  have mo: "map_of (levels_insert sd oid p q ls) r = (if r = p then Some (level_add oid q l) else map_of ls r)" for r
    using m by (simp add: ins map_of_set_level map_of_try_emplace [OF so])
  show "orders_at (levels_insert sd oid p q ls) r = orders_at ls r @ (if r = p then [\<lparr>rs_id = oid, rs_quantity = q\<rparr>] else [])"
    unfolding orders_at_def mo using l(2) by (simp add: orders_at_def)
  show "levels_ok sd (levels_insert sd oid p q ls)"
  proof (rule levels_okI)
    show "sorted_wrt (price_before sd) (map fst (levels_insert sd oid p q ls))" using sorted_try_emplace [OF so] by (simp add: ins)
    show "map_of (levels_insert sd oid p q ls) r = Some m \<Longrightarrow> level_ok (r, m)" for r m
      using l(1) levels_okD(2) [OF assms] by (auto simp: mo split: if_splits)
  qed
qed

definition levels_erase :: "OrderId \<Rightarrow> Price \<Rightarrow> Levels \<Rightarrow> Levels option" where
  "levels_erase oid price ls =
     (case map_of ls price of
        None \<Rightarrow> None
      | Some l \<Rightarrow> map_option (\<lambda>l'. if pl_orders l' = [] then erase_level price ls else set_level price l' ls) (level_remove oid l))"

lemma remove1_unique:
  "distinct (map f xs) \<Longrightarrow> find (\<lambda>y. f y = k) xs = Some x \<Longrightarrow> remove1 x xs = filter (\<lambda>y. f y \<noteq> k) xs"
proof (induction xs)
  case (Cons y ys)
  show ?case
  proof (cases "f y = k")
    case True
    then have "k \<notin> f ` set ys" using Cons.prems(1) by auto
    then have "filter (\<lambda>z. f z \<noteq> k) ys = ys" by (intro filter_True) auto
    then show ?thesis using Cons.prems(2) True by simp
  next
    case False
    then show ?thesis using Cons by (auto simp: find_Some_iff)
  qed
qed simp

lemma sum_remove1: "x \<in> set xs \<Longrightarrow> sum_list (map f (remove1 x xs)) = sum_list (map f xs) - (f x :: u64)"
  by (induction xs) (auto simp: algebra_simps)

lemma levels_erase:
  assumes ok: "levels_ok sd ls" and d: "distinct (map rs_id (orders_at ls p))" and i: "oid \<in> rs_id ` set (orders_at ls p)"
  obtains ls' where "levels_erase oid p ls = Some ls'" "levels_ok sd ls'"
    "\<And>r. orders_at ls' r = (if r = p then filter (\<lambda>x. rs_id x \<noteq> oid) (orders_at ls p) else orders_at ls r)"
proof -
  obtain l where l: "map_of ls p = Some l" "orders_at ls p = pl_orders l"
    using i by (cases "map_of ls p") (auto simp: orders_at_def)
  obtain r where r: "find (\<lambda>r. rs_id r = oid) (pl_orders l) = Some r"
    using i l(2) by (cases "find (\<lambda>r. rs_id r = oid) (pl_orders l)") (auto simp: find_None_iff)
  then have rin: "r \<in> set (pl_orders l)" by (auto simp: find_Some_iff)
  define l' where "l' = l\<lparr>pl_orders := remove1 r (pl_orders l), pl_aggregate_qty := pl_aggregate_qty l - rs_quantity r\<rparr>"
  have lr: "level_remove oid l = Some l'" by (simp add: level_remove_def r l'_def)
  have po: "pl_orders l' = filter (\<lambda>x. rs_id x \<noteq> oid) (orders_at ls p)"
    using remove1_unique [of rs_id "pl_orders l" oid r] d r l(2) by (simp add: l'_def)
  have lk: "level_ok (p, l)" by (rule levels_okD(2) [OF ok l(1)])
  have lk': "pl_orders l' \<noteq> [] \<Longrightarrow> level_ok (p, l')"
    using lk sum_remove1 [OF rin, of rs_quantity] by (simp add: level_ok_def l'_def)
  define ls' where "ls' = (if pl_orders l' = [] then erase_level p ls else set_level p l' ls)"
  have mo: "map_of ls' r = (if r = p then (if pl_orders l' = [] then None else Some l') else map_of ls r)" for r
    using l(1) by (simp add: ls'_def map_of_erase_level map_of_set_level)
  show thesis
  proof (rule that)
    show "levels_erase oid p ls = Some ls'" by (simp add: levels_erase_def l lr ls'_def)
    show "levels_ok sd ls'"
    proof (rule levels_okI)
      show "sorted_wrt (price_before sd) (map fst ls')"
        using levels_okD(1) [OF ok] sorted_erase_level by (simp add: ls'_def)
      show "map_of ls' r = Some m \<Longrightarrow> level_ok (r, m)" for r m
        using lk' levels_okD(2) [OF ok] by (auto simp: mo split: if_splits)
    qed
    show "orders_at ls' r = (if r = p then filter (\<lambda>x. rs_id x \<noteq> oid) (orders_at ls p) else orders_at ls r)" for r
      unfolding orders_at_def [of ls'] mo using po by (simp add: orders_at_def)
  qed
qed

section \<open>Books\<close>

lemma side_levels_set [simp]:
  "side_levels sd (set_side_levels sd' ls b) = (if sd = sd' then ls else side_levels sd b)"
  "ob_order_index (set_side_levels sd' ls b) = ob_order_index b"
  "side_levels sd (b\<lparr>ob_order_index := m\<rparr>) = side_levels sd b"
  by (cases sd; cases sd'; simp add: side_levels_def set_side_levels_def)+

abbreviation orders_on :: "OrderBook \<Rightarrow> Side \<Rightarrow> Price \<Rightarrow> RestingOrder list" where
  "orders_on b sd p \<equiv> orders_at (side_levels sd b) p"

lemma insert_at_levels:
  "insert_at sd oid p q b =
     (set_side_levels sd (levels_insert sd oid p q (side_levels sd b)) b)
       \<lparr>ob_order_index := (ob_order_index b)(oid \<mapsto> \<lparr>ol_side = sd, ol_price = p\<rparr>)\<rparr>"
  by (simp add: insert_at_def levels_insert_def Let_def)

lemma erase_at_levels:
  "erase_at oid loc b = map_option (\<lambda>ls. set_side_levels (ol_side loc) ls b) (levels_erase oid (ol_price loc) (side_levels (ol_side loc) b))"
  by (simp add: erase_at_def levels_erase_def Let_def split: option.split)

lemma book_okD:
  assumes "book_ok b"
  shows "levels_ok sd (side_levels sd b)" "distinct (map rs_id (orders_on b sd p))"
    "ob_order_index b oid = Some \<lparr>ol_side = sd, ol_price = p\<rparr> \<longleftrightarrow> oid \<in> rs_id ` set (orders_on b sd p)"
  using assms unfolding book_ok_def by blast+

lemma book_okI:
  assumes "\<And>sd. levels_ok sd (side_levels sd b)" "\<And>sd p. distinct (map rs_id (orders_on b sd p))"
    "\<And>oid sd p. ob_order_index b oid = Some \<lparr>ol_side = sd, ol_price = p\<rparr> \<longleftrightarrow> oid \<in> rs_id ` set (orders_on b sd p)"
  shows "book_ok b"
  using assms unfolding book_ok_def by blast

lemma find_unique_key:
  "distinct (map f xs) \<Longrightarrow> find (\<lambda>y. f y = k) xs = Some x \<longleftrightarrow> x \<in> set xs \<and> f x = k"
  by (induction xs) (auto simp: image_iff)

lemma depth_iff:
  assumes "book_ok b"
  shows "depth b oid = Some (sd, p, q) \<longleftrightarrow> \<lparr>rs_id = oid, rs_quantity = q\<rparr> \<in> set (orders_on b sd p)"
proof
  assume d: "depth b oid = Some (sd, p, q)"
  then obtain loc r where "ob_order_index b oid = Some loc" "ol_side loc = sd" "ol_price loc = p" "rs_quantity r = q"
    "find (\<lambda>r. rs_id r = oid) (orders_on b sd p) = Some r"
    by (auto simp: depth_def split: option.splits)
  then show "\<lparr>rs_id = oid, rs_quantity = q\<rparr> \<in> set (orders_on b sd p)"
    using find_unique_key [OF book_okD(2) [OF assms], of oid sd p r] by (cases r) auto
next
  assume r: "\<lparr>rs_id = oid, rs_quantity = q\<rparr> \<in> set (orders_on b sd p)"
  then have "oid \<in> rs_id ` set (orders_on b sd p)" by (auto intro: rev_image_eqI)
  then have i: "ob_order_index b oid = Some \<lparr>ol_side = sd, ol_price = p\<rparr>" using book_okD(3) [OF assms] by blast
  have "find (\<lambda>r. rs_id r = oid) (orders_on b sd p) = Some \<lparr>rs_id = oid, rs_quantity = q\<rparr>"
    using find_unique_key [OF book_okD(2) [OF assms]] r by auto
  then show "depth b oid = Some (sd, p, q)" by (simp add: depth_def i)
qed

lemma depth_none:
  assumes "book_ok b"
  shows "depth b oid = None \<longleftrightarrow> ob_order_index b oid = None"
proof (cases "ob_order_index b oid")
  case (Some loc)
  obtain sd p where loc: "loc = \<lparr>ol_side = sd, ol_price = p\<rparr>" by (cases loc)
  then have "oid \<in> rs_id ` set (orders_on b sd p)" using book_okD(3) [OF assms] Some by blast
  then obtain r where r: "r \<in> set (orders_on b sd p)" "rs_id r = oid" by blast
  then have "\<lparr>rs_id = oid, rs_quantity = rs_quantity r\<rparr> = r" by (simp add: r(2) [symmetric])
  then have "depth b oid = Some (sd, p, rs_quantity r)" using depth_iff [OF assms] r(1) by simp
  then show ?thesis using Some by simp
qed (simp add: depth_def)

lemma depth_eqI:
  assumes "book_ok b" "\<And>oid sd p q. \<lparr>rs_id = oid, rs_quantity = q\<rparr> \<in> set (orders_on b sd p) \<longleftrightarrow> m oid = Some (sd, p, q)"
  shows "depth b = m"
proof
  fix oid
  show "depth b oid = m oid"
    using depth_iff [OF assms(1), of oid] assms(2) by (cases "m oid"; cases "depth b oid") auto
qed

lemma depth_at: "book_ok b \<Longrightarrow> r \<in> set (orders_on b sd p) \<longleftrightarrow> depth b (rs_id r) = Some (sd, p, rs_quantity r)"
  using depth_iff [of b "rs_id r" sd p "rs_quantity r"] by (cases r) simp

lemma insert_at_ok:
  assumes ok: "book_ok b" and new: "ob_order_index b oid = None"
  shows "book_ok (insert_at sd oid p q b)" "depth (insert_at sd oid p q b) = (depth b)(oid \<mapsto> (sd, p, q))"
    "orders_on (insert_at sd oid p q b) sd' p' = orders_on b sd' p' @ (if sd' = sd \<and> p' = p then [\<lparr>rs_id = oid, rs_quantity = q\<rparr>] else [])"
proof -
  let ?b = "insert_at sd oid p q b"
  note li = levels_insert [OF book_okD(1) [OF ok], of sd oid p q]
  show on: "orders_on ?b sd' p' = orders_on b sd' p' @ (if sd' = sd \<and> p' = p then [\<lparr>rs_id = oid, rs_quantity = q\<rparr>] else [])" for sd' p'
    by (simp add: insert_at_levels li(2))
  have fresh: "oid \<notin> rs_id ` set (orders_on b sd' p')" for sd' p' using book_okD(3) [OF ok] new by (metis option.distinct(1))
  show ok': "book_ok ?b"
  proof (rule book_okI)
    show "levels_ok s (side_levels s ?b)" for s using li(1) book_okD(1) [OF ok] by (simp add: insert_at_levels)
    show "distinct (map rs_id (orders_on ?b s r))" for s r using fresh book_okD(2) [OF ok] by (auto simp: on)
    show "ob_order_index ?b i = Some \<lparr>ol_side = s, ol_price = r\<rparr> \<longleftrightarrow> i \<in> rs_id ` set (orders_on ?b s r)" for i s r
      using fresh book_okD(3) [OF ok, of i s r] unfolding on by (auto simp: insert_at_levels)
  qed
  show "depth ?b = (depth b)(oid \<mapsto> (sd, p, q))"
  proof (rule depth_eqI [OF ok'])
    have "\<lparr>rs_id = oid, rs_quantity = x\<rparr> \<notin> set (orders_on b s r)" for x s r using fresh [of s r] by force
    then show "\<lparr>rs_id = i, rs_quantity = x\<rparr> \<in> set (orders_on ?b s r) \<longleftrightarrow> ((depth b)(oid \<mapsto> (sd, p, q))) i = Some (s, r, x)" for i s r x
      using depth_iff [OF ok, of i s r x] by (auto simp: on)
  qed
qed

lemma erase_at_ok:
  assumes ok: "book_ok b" and loc: "ob_order_index b oid = Some loc"
  obtains b' where "erase_at oid loc b = Some b'" "book_ok (b'\<lparr>ob_order_index := (ob_order_index b')(oid := None)\<rparr>)"
    "depth (b'\<lparr>ob_order_index := (ob_order_index b')(oid := None)\<rparr>) = (depth b)(oid := None)"
    "\<And>sd p. orders_on b' sd p = filter (\<lambda>x. rs_id x \<noteq> oid) (orders_on b sd p)" "ob_order_index b' = ob_order_index b"
proof -
  obtain sd p where l: "loc = \<lparr>ol_side = sd, ol_price = p\<rparr>" by (cases loc)
  have i: "oid \<in> rs_id ` set (orders_on b sd p)" using book_okD(3) [OF ok] loc l by blast
  obtain ls where ls: "levels_erase oid p (side_levels sd b) = Some ls" "levels_ok sd ls"
    "\<And>r. orders_at ls r = (if r = p then filter (\<lambda>x. rs_id x \<noteq> oid) (orders_on b sd p) else orders_on b sd r)"
    by (rule levels_erase [OF book_okD(1) [OF ok] book_okD(2) [OF ok] i]) (rule that)
  let ?b' = "set_side_levels sd ls b"
  let ?b = "?b'\<lparr>ob_order_index := (ob_order_index ?b')(oid := None)\<rparr>"
  have er: "erase_at oid loc b = Some ?b'" by (simp add: erase_at_levels l ls(1))
  have other: "filter (\<lambda>x. rs_id x \<noteq> oid) (orders_on b s r) = orders_on b s r" if "\<not> (s = sd \<and> r = p)" for s r
  proof -
    have "oid \<notin> rs_id ` set (orders_on b s r)" using book_okD(3) [OF ok, of oid s r] loc l that by auto
    then show ?thesis by (intro filter_True) auto
  qed
  have on: "orders_on ?b' s r = filter (\<lambda>x. rs_id x \<noteq> oid) (orders_on b s r)" for s r
    using other [of s r] by (cases "s = sd \<and> r = p") (auto simp: ls(3))
  have ok': "book_ok ?b"
  proof (rule book_okI)
    show "levels_ok s (side_levels s ?b)" for s using ls(2) book_okD(1) [OF ok] by simp
    show "distinct (map rs_id (orders_on ?b s r))" for s r using on [of s r] book_okD(2) [OF ok, of s r] by (simp add: distinct_map_filter)
    show "ob_order_index ?b k = Some \<lparr>ol_side = s, ol_price = r\<rparr> \<longleftrightarrow> k \<in> rs_id ` set (orders_on ?b s r)" for k s r
      using on [of s r] book_okD(3) [OF ok, of k s r] by auto
  qed
  have "depth ?b = (depth b)(oid := None)"
    by (rule depth_eqI [OF ok']) (use on depth_iff [OF ok] in auto)
  then show thesis using that [OF er _ _ on] ok' by simp
qed

lemma new_book_ok: "book_ok new_order_book" "depth new_order_book = Map.empty"
proof -
  show "book_ok new_order_book"
    by (rule book_okI) (simp_all add: new_order_book_def side_levels_def levels_ok_def orders_at_def)
  show "depth new_order_book = Map.empty" by (rule ext) (simp add: depth_def new_order_book_def)
qed

text \<open>Every operation on a well-formed book, on every branch.\<close>

lemma add_order_ok:
  assumes "book_ok b"
  shows "book_ok (snd (add_order oid p q sd b))"
    "add_order oid p q sd b = (Some e, b') \<Longrightarrow> b' = b"
    "fst (add_order oid p q sd b) = None \<longleftrightarrow> 0 < sint p \<and> q \<noteq> 0 \<and> depth b oid = None"
    "fst (add_order oid p q sd b) = None \<Longrightarrow> depth (snd (add_order oid p q sd b)) = (depth b)(oid \<mapsto> (sd, p, q))"
    "fst (add_order oid p q sd b) = None \<Longrightarrow> orders_on (snd (add_order oid p q sd b)) sd' p' =
       orders_on b sd' p' @ (if sd' = sd \<and> p' = p then [\<lparr>rs_id = oid, rs_quantity = q\<rparr>] else [])"
  using insert_at_ok [OF assms, of oid] depth_none [OF assms, of oid] assms
  by (auto simp: add_order_def signed_cmp split: if_splits)

lemma cancel_order_ok:
  assumes ok: "book_ok b"
  obtains (unknown) "cancel_order oid b = Some (Some UnknownOrderId, b)" "depth b oid = None"
  | (gone) b' where "cancel_order oid b = Some (None, b')" "book_ok b'" "depth b oid \<noteq> None" "depth b' = (depth b)(oid := None)"
    "\<And>sd p. orders_on b' sd p = filter (\<lambda>x. rs_id x \<noteq> oid) (orders_on b sd p)"
proof (cases "ob_order_index b oid")
  case None
  then show ?thesis using depth_none [OF ok, of oid] by (intro unknown) (simp_all add: cancel_order_def)
next
  case (Some loc)
  obtain b' where b': "erase_at oid loc b = Some b'" "book_ok (b'\<lparr>ob_order_index := (ob_order_index b')(oid := None)\<rparr>)"
    "depth (b'\<lparr>ob_order_index := (ob_order_index b')(oid := None)\<rparr>) = (depth b)(oid := None)"
    "\<And>sd p. orders_on b' sd p = filter (\<lambda>x. rs_id x \<noteq> oid) (orders_on b sd p)"
    by (rule erase_at_ok [OF ok Some]) (rule that)
  show ?thesis
    by (rule gone [OF _ b'(2) _ b'(3)]) (use b' Some depth_none [OF ok, of oid] in \<open>auto simp: cancel_order_def\<close>)
qed

lemma modify_order_ok:
  assumes ok: "book_ok b"
  obtains (refused) e where "modify_order oid p q b = Some (Some e, b)" "\<not> (0 < sint p \<and> q \<noteq> 0 \<and> depth b oid \<noteq> None)"
  | (moved) b' sd p0 q0 where "modify_order oid p q b = Some (None, b')" "book_ok b'" "0 < sint p" "q \<noteq> 0"
    "depth b oid = Some (sd, p0, q0)" "depth b' = (depth b)(oid \<mapsto> (sd, p, q))"
    "\<And>sd' p'. orders_on b' sd' p' = filter (\<lambda>x. rs_id x \<noteq> oid) (orders_on b sd' p') @
       (if sd' = sd \<and> p' = p then [\<lparr>rs_id = oid, rs_quantity = q\<rparr>] else [])"
proof (cases "0 < sint p \<and> q \<noteq> 0 \<and> ob_order_index b oid \<noteq> None")
  case False
  then show ?thesis using depth_none [OF ok, of oid]
    by (cases "sle p 0"; cases "q = 0"; cases "ob_order_index b oid") (auto intro!: refused simp: modify_order_def signed_cmp)
next
  case True
  then obtain loc where loc: "ob_order_index b oid = Some loc" by auto
  obtain sd p0 q0 where d: "depth b oid = Some (sd, p0, q0)" using depth_none [OF ok, of oid] loc by (cases "depth b oid") auto
  then have l: "ol_side loc = sd" using loc by (auto simp: depth_def)
  obtain b1 where b1: "erase_at oid loc b = Some b1" "book_ok (b1\<lparr>ob_order_index := (ob_order_index b1)(oid := None)\<rparr>)"
    "depth (b1\<lparr>ob_order_index := (ob_order_index b1)(oid := None)\<rparr>) = (depth b)(oid := None)"
    "\<And>sd p. orders_on b1 sd p = filter (\<lambda>x. rs_id x \<noteq> oid) (orders_on b sd p)"
    by (rule erase_at_ok [OF ok loc]) (rule that)
  have n1: "ob_order_index (b1\<lparr>ob_order_index := (ob_order_index b1)(oid := None)\<rparr>) oid = None" by simp
  note ins = insert_at_ok [OF b1(2) n1, where sd = sd and p = p and q = q]
  show ?thesis
  proof (rule moved [OF _ ins(1) _ _ d])
    show "modify_order oid p q b = Some (None, insert_at sd oid p q (b1\<lparr>ob_order_index := (ob_order_index b1)(oid := None)\<rparr>))"
      using True loc b1(1) l by (simp add: modify_order_def signed_cmp)
  qed (use True ins(2,3) b1(3,4) in simp_all)
qed

lemma clear_ok: "book_ok (clear b)" "depth (clear b) = Map.empty" "orders_on (clear b) sd p = []"
proof -
  have c: "side_levels sd (clear b) = []" for sd by (simp add: clear_def side_levels_def)
  then show "orders_on (clear b) sd p = []" by (simp add: orders_at_def)
  show "book_ok (clear b)" by (rule book_okI) (simp_all add: c levels_ok_def orders_at_def, simp add: clear_def)
  show "depth (clear b) = Map.empty" by (rule ext) (simp add: depth_def clear_def)
qed

section \<open>Views\<close>

text \<open>A level as the orders say it is: what is displayed follows from the depth alone.\<close>

definition side_orders :: "Side \<Rightarrow> OrderBook \<Rightarrow> OrderView list" where
  "side_orders sd b = (if sd = Buy then all_bids b else all_asks b)"

lemma side_orders_levels: "side_orders sd b = concat (map level_orders (side_levels sd b))"
  by (simp add: side_orders_def all_bids_def all_asks_def side_levels_def)

lemma orders_at_entry: "levels_ok sd ls \<Longrightarrow> (p, l) \<in> set ls \<Longrightarrow> orders_at ls p = pl_orders l"
  using level_in [of sd ls "(p, l)"] by (simp add: orders_at_def)

lemma levels_nonempty: "levels_ok sd ls \<Longrightarrow> p \<in> fst ` set ls \<longleftrightarrow> orders_at ls p \<noteq> []"
proof
  assume ok: "levels_ok sd ls"
  { assume "p \<in> fst ` set ls"
    then obtain l where "(p, l) \<in> set ls" by auto
    then show "orders_at ls p \<noteq> []" using orders_at_entry [OF ok] ok by (auto simp: levels_ok_def level_ok_def) }
  { assume "orders_at ls p \<noteq> []"
    then obtain l where "map_of ls p = Some l" by (auto simp: orders_at_def split: option.splits)
    then show "p \<in> fst ` set ls" by (force dest: map_of_SomeD) }
qed

lemma side_orders_depth:
  assumes ok: "book_ok b"
  shows "v \<in> set (side_orders sd b) \<longleftrightarrow> depth b (ov_order_id v) = Some (sd, ov_price v, ov_quantity v)"
proof
  assume "v \<in> set (side_orders sd b)"
  then obtain p l r where "(p, l) \<in> set (side_levels sd b)" "r \<in> set (pl_orders l)"
    "v = \<lparr>ov_order_id = rs_id r, ov_price = p, ov_quantity = rs_quantity r\<rparr>"
    by (auto simp: side_orders_levels level_orders_def)
  then show "depth b (ov_order_id v) = Some (sd, ov_price v, ov_quantity v)"
    using orders_at_entry [OF book_okD(1) [OF ok]] depth_at [OF ok, of r sd p] by simp
next
  let ?r = "\<lparr>rs_id = ov_order_id v, rs_quantity = ov_quantity v\<rparr>"
  assume "depth b (ov_order_id v) = Some (sd, ov_price v, ov_quantity v)"
  then have r: "?r \<in> set (orders_on b sd (ov_price v))" using depth_iff [OF ok] by simp
  then obtain l where l: "map_of (side_levels sd b) (ov_price v) = Some l" "?r \<in> set (pl_orders l)"
    by (cases "map_of (side_levels sd b) (ov_price v)") (auto simp: orders_at_def)
  have "v \<in> (\<lambda>r. \<lparr>ov_order_id = rs_id r, ov_price = ov_price v, ov_quantity = rs_quantity r\<rparr>) ` set (pl_orders l)"
    by (rule image_eqI [OF _ l(2)]) simp
  then have "v \<in> set (level_orders (ov_price v, l))" by (simp add: level_orders_def)
  then show "v \<in> set (side_orders sd b)" using map_of_SomeD [OF l(1)] by (force simp: side_orders_levels)
qed

text \<open>The best level: no order of the side has a better price, and it counts the orders at its price.\<close>

definition best_of :: "Side \<Rightarrow> OrderBook \<Rightarrow> PriceLevelView option" where
  "best_of sd b = (if sd = Buy then best_bid b else best_ask b)"

definition at_price :: "(OrderId \<rightharpoonup> Side \<times> Price \<times> Quantity) \<Rightarrow> Side \<Rightarrow> Price \<Rightarrow> OrderId set" where
  "at_price d sd p = {oid. \<exists>q. d oid = Some (sd, p, q)}"

definition quantity_of :: "(OrderId \<rightharpoonup> Side \<times> Price \<times> Quantity) \<Rightarrow> OrderId \<Rightarrow> Quantity" where
  "quantity_of d oid = (case d oid of None \<Rightarrow> 0 | Some (sd, p, q) \<Rightarrow> q)"

lemma ids_at_price: "book_ok b \<Longrightarrow> rs_id ` set (orders_on b sd p) = at_price (depth b) sd p"
proof (intro set_eqI iffI)
  fix oid assume ok: "book_ok b"
  { assume "oid \<in> rs_id ` set (orders_on b sd p)"
    then obtain r where "r \<in> set (orders_on b sd p)" "rs_id r = oid" by blast
    then show "oid \<in> at_price (depth b) sd p" using depth_at [OF ok, of r sd p] by (auto simp: at_price_def) }
  { assume "oid \<in> at_price (depth b) sd p"
    then obtain q where "\<lparr>rs_id = oid, rs_quantity = q\<rparr> \<in> set (orders_on b sd p)" using depth_iff [OF ok] by (auto simp: at_price_def)
    then show "oid \<in> rs_id ` set (orders_on b sd p)" by (rule rev_image_eqI) simp }
qed

lemma level_totals:
  assumes ok: "book_ok b" and e: "e \<in> set (side_levels sd b)"
  shows "pl_aggregate_qty (snd e) = sum (quantity_of (depth b)) (at_price (depth b) sd (fst e))"
    "length (pl_orders (snd e)) = card (at_price (depth b) sd (fst e))" "at_price (depth b) sd (fst e) \<noteq> {}"
proof -
  have le: "level_ok e" using book_okD(1) [OF ok, of sd] e by (simp add: levels_ok_def)
  have o': "orders_on b sd (fst e) = pl_orders (snd e)"
    using orders_at_entry [OF book_okD(1) [OF ok], of "fst e" "snd e" sd] e by simp
  have d: "distinct (map rs_id (pl_orders (snd e)))" using book_okD(2) [OF ok, of sd "fst e"] by (simp add: o')
  have s: "set (map rs_id (pl_orders (snd e))) = at_price (depth b) sd (fst e)" using ids_at_price [OF ok, of sd "fst e"] by (simp add: o')
  have q: "quantity_of (depth b) (rs_id r) = rs_quantity r" if "r \<in> set (pl_orders (snd e))" for r
    using depth_at [OF ok, of r sd "fst e"] that by (simp add: o' quantity_of_def)
  have "map rs_quantity (pl_orders (snd e)) = map (quantity_of (depth b)) (map rs_id (pl_orders (snd e)))" using q by simp
  then have "sum_list (map rs_quantity (pl_orders (snd e))) = sum_list (map (quantity_of (depth b)) (map rs_id (pl_orders (snd e))))"
    by (rule arg_cong)
  also have "\<dots> = sum (quantity_of (depth b)) (at_price (depth b) sd (fst e))"
    using sum_list_distinct_conv_sum_set [OF d, of "quantity_of (depth b)"] s by simp
  finally show "pl_aggregate_qty (snd e) = sum (quantity_of (depth b)) (at_price (depth b) sd (fst e))"
    using le by (simp add: level_ok_def)
  show "length (pl_orders (snd e)) = card (at_price (depth b) sd (fst e))" using distinct_card [OF d] s by simp
  show "at_price (depth b) sd (fst e) \<noteq> {}" using le s by (auto simp: level_ok_def)
qed

definition top_of :: "Side \<Rightarrow> nat \<Rightarrow> OrderBook \<Rightarrow> PriceLevelView list" where
  "top_of sd n b = (if sd = Buy then top_bids n b else top_asks n b)"

definition shows_level :: "(OrderId \<rightharpoonup> Side \<times> Price \<times> Quantity) \<Rightarrow> Side \<Rightarrow> PriceLevelView \<Rightarrow> bool" where
  \<comment> \<open>a view that tells the truth about a price: somebody is there, how many, and how much they want\<close>
  "shows_level d sd v \<longleftrightarrow>
     at_price d sd (pv_price v) \<noteq> {} \<and> pv_order_count v = card (at_price d sd (pv_price v)) \<and>
     pv_aggregate_quantity v = sum (quantity_of d) (at_price d sd (pv_price v))"

lemma top_of_levels: "top_of sd n b = map level_view (take n (side_levels sd b))"
  by (simp add: top_of_def top_bids_def top_asks_def side_levels_def)

lemma best_of_top: "best_of sd b = hd_opt (top_of sd 1 b)"
proof -
  have "best_of sd b = (if side_levels sd b = [] then None else Some (level_view (hd (side_levels sd b))))"
    by (simp add: best_of_def best_bid_def best_ask_def side_levels_def)
  then show ?thesis by (cases "side_levels sd b") (simp_all add: top_of_levels)
qed

lemma level_view_shows:
  "book_ok b \<Longrightarrow> e \<in> set (side_levels sd b) \<Longrightarrow> shows_level (depth b) sd (level_view e) \<and> pv_price (level_view e) = fst e"
  using level_totals [of b e sd] by (simp add: shows_level_def level_view_def)

lemma on_side_level:
  assumes ok: "book_ok b" and d: "depth b oid = Some (sd, p, q)"
  shows "p \<in> set (map fst (side_levels sd b))"
proof -
  have "\<lparr>rs_id = oid, rs_quantity = q\<rparr> \<in> set (orders_on b sd p)" using depth_iff [OF ok] d by simp
  then show ?thesis using levels_nonempty [OF book_okD(1) [OF ok], of p sd] by force
qed

lemma top_shows:
  assumes ok: "book_ok b"
  shows "sorted_wrt (price_before sd) (map pv_price (top_of sd n b))" "v \<in> set (top_of sd n b) \<Longrightarrow> shows_level (depth b) sd v"
    "depth b oid = Some (sd, p, q) \<Longrightarrow> p \<in> pv_price ` set (top_of sd n b) \<or>
       length (top_of sd n b) = n \<and> (\<forall>v \<in> set (top_of sd n b). price_before sd (pv_price v) p)"
proof -
  let ?ls = "side_levels sd b"
  have mp: "map pv_price (top_of sd n b) = take n (map fst ?ls)"
    by (simp add: top_of_levels level_view_def take_map comp_def)
  have so: "sorted_wrt (price_before sd) (map fst ?ls)" using book_okD(1) [OF ok, of sd] by (simp add: levels_ok_def)
  show "sorted_wrt (price_before sd) (map pv_price (top_of sd n b))" unfolding mp using so by (rule sorted_wrt_take)
  show "v \<in> set (top_of sd n b) \<Longrightarrow> shows_level (depth b) sd v"
    using level_view_shows [OF ok] by (auto simp: top_of_levels dest: in_set_takeD)
  assume "depth b oid = Some (sd, p, q)"
  then have "p \<in> set (map fst ?ls)" by (rule on_side_level [OF ok])
  moreover have "set (map fst ?ls) = set (take n (map fst ?ls)) \<union> set (drop n (map fst ?ls))"
    by (metis append_take_drop_id set_append)
  ultimately have "p \<in> set (take n (map fst ?ls)) \<or> p \<in> set (drop n (map fst ?ls))" by blast
  then show "p \<in> pv_price ` set (top_of sd n b) \<or>
       length (top_of sd n b) = n \<and> (\<forall>v \<in> set (top_of sd n b). price_before sd (pv_price v) p)"
  proof
    assume "p \<in> set (take n (map fst ?ls))"
    then show ?thesis unfolding mp [symmetric] by simp
  next
    assume d: "p \<in> set (drop n (map fst ?ls))"
    then have "n < length ?ls" by (auto simp: not_less intro: ccontr)
    then have l: "length (top_of sd n b) = n" by (simp add: top_of_levels)
    have "sorted_wrt (price_before sd) (take n (map fst ?ls) @ drop n (map fst ?ls))" using so by simp
    then have "\<forall>r \<in> set (take n (map fst ?ls)). price_before sd r p" using d unfolding sorted_wrt_append by blast
    then show ?thesis using l unfolding mp [symmetric] by simp
  qed
qed

section \<open>Properties\<close>

text \<open>
  C33. The reconstructed book as a map from ids to side, price and quantity. The answer of each operation is
  fixed by its arguments and the map: add refuses a price that is not positive, then a zero quantity, then a known
  id; modify the same with an unknown id; cancel an unknown id. Everything else succeeds: add inserts the entry, cancel
  removes it, modify gives it the new price and quantity and keeps its side. A refused operation changes nothing.
  None touches a level that is not there, and all keep the book well formed: levels in comparator order, none
  empty, each with the exact sum of its quantities.
\<close>

theorem order_book_is_a_map_of_orders:
  assumes "book_ok b"
  shows "(case add_order oid p q sd b of (r, b') \<Rightarrow>
      r = (if sint p \<le> 0 then Some InvalidPrice else if q = 0 then Some InvalidQuantity
           else if depth b oid \<noteq> None then Some DuplicateOrderId else None) \<and>
      book_ok b' \<and> (if r = None then depth b' = (depth b)(oid \<mapsto> (sd, p, q)) else b' = b)) \<and>
    (case cancel_order oid b of
      None \<Rightarrow> False
    | Some (r, b') \<Rightarrow> r = (if depth b oid = None then Some UnknownOrderId else None) \<and>
        book_ok b' \<and> (if r = None then depth b' = (depth b)(oid := None) else b' = b)) \<and>
    (case modify_order oid p q b of
      None \<Rightarrow> False
    | Some (r, b') \<Rightarrow> r = (if sint p \<le> 0 then Some InvalidPrice else if q = 0 then Some InvalidQuantity
           else if depth b oid = None then Some UnknownOrderId else None) \<and>
        book_ok b' \<and> (if r = None then \<exists>s p0 q0. depth b oid = Some (s, p0, q0) \<and> depth b' = (depth b)(oid \<mapsto> (s, p, q)) else b' = b))"
proof (intro conjI)
  show "case add_order oid p q sd b of (r, b') \<Rightarrow>
      r = (if sint p \<le> 0 then Some InvalidPrice else if q = 0 then Some InvalidQuantity
           else if depth b oid \<noteq> None then Some DuplicateOrderId else None) \<and>
      book_ok b' \<and> (if r = None then depth b' = (depth b)(oid \<mapsto> (sd, p, q)) else b' = b)"
    using add_order_ok(1,3,4) [OF assms, of oid p q sd] by (auto simp: add_order_def signed_cmp split: if_splits)
  show "case cancel_order oid b of
      None \<Rightarrow> False
    | Some (r, b') \<Rightarrow> r = (if depth b oid = None then Some UnknownOrderId else None) \<and>
        book_ok b' \<and> (if r = None then depth b' = (depth b)(oid := None) else b' = b)"
    by (rule cancel_order_ok [OF assms, of oid]) (use assms in simp_all)
  have e: "e = (if sint p \<le> 0 then InvalidPrice else if q = 0 then InvalidQuantity else UnknownOrderId)"
    if "modify_order oid p q b = Some (Some e, b')" for e b'
    using that by (auto simp: modify_order_def signed_cmp split: if_splits option.splits)
  show "case modify_order oid p q b of
      None \<Rightarrow> False
    | Some (r, b') \<Rightarrow> r = (if sint p \<le> 0 then Some InvalidPrice else if q = 0 then Some InvalidQuantity
           else if depth b oid = None then Some UnknownOrderId else None) \<and>
        book_ok b' \<and> (if r = None then \<exists>s p0 q0. depth b oid = Some (s, p0, q0) \<and> depth b' = (depth b)(oid \<mapsto> (s, p, q)) else b' = b)"
    by (rule modify_order_ok [OF assms, of oid p q]) (use assms e in \<open>auto split: if_splits\<close>)
qed

definition sample_book :: OrderBook where
  "sample_book = snd (add_order 2 101 5 Buy (snd (add_order 1 100 10 Buy new_order_book)))"

lemma sample_book_ok: "book_ok sample_book"
  unfolding sample_book_def by (intro add_order_ok(1) new_book_ok(1))

theorem order_book_is_a_map_of_orders_witness:
  "(\<exists>b'. cancel_order 1 sample_book = Some (None, b') \<and> depth b' = (depth sample_book)(1 := None)) \<and>
   fst (add_order 1 100 1 Buy sample_book) = Some DuplicateOrderId \<and> fst (add_order 3 100 1 Buy sample_book) = None \<and>
   (\<exists>b'. modify_order 1 99 4 sample_book = Some (None, b') \<and> depth b' = (depth sample_book)(1 \<mapsto> (Buy, 99, 4)))"
proof -
  have d: "depth sample_book 1 = Some (Buy, 100, 10)" "depth sample_book 3 = None"
    by (simp_all add: sample_book_def add_order_def insert_at_def new_order_book_def signed_cmp depth_def
        side_levels_def set_side_levels_def new_price_level_def set_level_def level_add_def price_before_def orders_at_def)
  show ?thesis
    using order_book_is_a_map_of_orders [OF sample_book_ok, where oid = 1 and p = 99 and q = 4 and sd = Buy] order_book_is_a_map_of_orders [OF sample_book_ok, where oid = 1 and p = 100 and q = 1 and sd = Buy]
      order_book_is_a_map_of_orders [OF sample_book_ok, where oid = 3 and p = 100 and q = 1 and sd = Buy] d
    by (auto split: option.splits prod.splits)
qed

text \<open>
  The displayed levels are the orders': the first \<open>n\<close> levels of a side come best first, each shows a
  price somebody rests at with the exact number of orders and sum of quantities, and every order of the
  side is either at one of them or, when all \<open>n\<close> are shown, behind them.
\<close>

theorem top_levels_show_the_orders:
  assumes "book_ok b"
  shows "sorted_wrt (price_before sd) (map pv_price (top_of sd n b)) \<and>
    (\<forall>v \<in> set (top_of sd n b). shows_level (depth b) sd v) \<and>
    (\<forall>oid p q. depth b oid = Some (sd, p, q) \<longrightarrow> p \<in> pv_price ` set (top_of sd n b) \<or>
       length (top_of sd n b) = n \<and> (\<forall>v \<in> set (top_of sd n b). price_before sd (pv_price v) p)) \<and>
    best_of sd b = hd_opt (top_of sd 1 b)"
  using top_shows [OF assms] best_of_top by metis

theorem top_levels_show_the_orders_witness:
  "best_of Buy sample_book = Some \<lparr>pv_price = 101, pv_aggregate_quantity = 5, pv_order_count = 1\<rparr> \<and>
    shows_level (depth sample_book) Buy (hd (top_of Buy 1 sample_book))"
proof -
  have "best_of Buy sample_book = Some \<lparr>pv_price = 101, pv_aggregate_quantity = 5, pv_order_count = 1\<rparr>"
    by (simp add: best_of_def best_bid_def sample_book_def add_order_def insert_at_def new_order_book_def signed_cmp
        side_levels_def set_side_levels_def new_price_level_def set_level_def level_add_def price_before_def level_view_def)
  then show ?thesis using top_levels_show_the_orders [OF sample_book_ok, of Buy 1]
    by (cases "top_of Buy 1 sample_book") (auto simp: hd_opt_def)
qed

end
