(* ===== verification/FeedReplay.thy ===== *)
theory FeedReplay
  imports Packet ReconstructedBook
begin

text \<open>
  The trader's replay of a feed: \<open>src/src/replay/\<close>. \<open>apply_frame_result\<close> takes one decoded frame through the
  sequence validator into the books; \<open>run_replay\<close> drives it from an event file, and the live subscriber
  from datagrams. A file is the list of its bytes, read like the command journal; \<open>files\<close> says what a path
  holds (\<open>None\<close> when it does not open). The elapsed time \<open>run_replay\<close> measures is an argument.
\<close>

section \<open>Outcome\<close>

record ReplayStats =
  rp_messages_processed :: u64
  rp_decode_failures :: u64
  rp_sequence_failures :: u64
  rp_recoveries :: u64
  rp_adds :: u64
  rp_cancels :: u64
  rp_modifies :: u64
  rp_trades :: u64
  rp_clears :: u64
  rp_book_errors :: u64
  rp_duration_ns :: u64

definition new_replay_stats :: ReplayStats where
  "new_replay_stats =
     \<lparr>rp_messages_processed = 0, rp_decode_failures = 0, rp_sequence_failures = 0, rp_recoveries = 0, rp_adds = 0,
      rp_cancels = 0, rp_modifies = 0, rp_trades = 0, rp_clears = 0, rp_book_errors = 0, rp_duration_ns = 0\<rparr>"

record ReplayOptions =
  ro_stop_on_sequence_error :: bool
  ro_stop_on_decode_error :: bool
  ro_recovery_snapshot_path :: "string option"

record ReplayOutcome =
  rr_stats :: ReplayStats
  rr_books :: BookManager
  rr_stopped_early :: bool
  rr_stop_reason :: string
  rr_last_sequence_number :: "Sequence option"

definition new_replay_result :: ReplayOutcome where
  "new_replay_result =
     \<lparr>rr_stats = new_replay_stats, rr_books = new_book_manager, rr_stopped_early = False, rr_stop_reason = [],
      rr_last_sequence_number = None\<rparr>"

fun decode_error_to_string :: "DecodeError \<Rightarrow> string" where
  "decode_error_to_string TruncatedHeader = ''TruncatedHeader''"
| "decode_error_to_string TruncatedPayload = ''TruncatedPayload''"
| "decode_error_to_string InvalidReserved = ''InvalidReserved''"
| "decode_error_to_string InvalidMessageType = ''InvalidMessageType''"
| "decode_error_to_string InvalidMessageSize = ''InvalidMessageSize''"
| "decode_error_to_string InvalidSide = ''InvalidSide''"

section \<open>Applying an event\<close>

definition on_book :: "InstrumentId \<Rightarrow> (OrderBook \<Rightarrow> (BookError option \<times> OrderBook) option) \<Rightarrow> BookManager \<times> ReplayStats \<Rightarrow>
    (BookManager \<times> ReplayStats) option" where
  \<comment> \<open>\<open>auto err = books.book_for(...).op(...); if (err) stats.book_errors += 1;\<close>\<close>
  "on_book iid f st =
     (case f (book_at iid (fst st)) of
        None \<Rightarrow> None
      | Some (err, b) \<Rightarrow>
          Some (set_book_at iid b (fst st),
            if err \<noteq> None then (snd st)\<lparr>rp_book_errors := rp_book_errors (snd st) + 1\<rparr> else snd st))"

fun apply_event :: "Event \<Rightarrow> BookManager \<Rightarrow> ReplayStats \<Rightarrow> (BookManager \<times> ReplayStats) option" where
  "apply_event (AddOrderE m) books stats =
     on_book (ao_instrument_id m) (\<lambda>b. Some (add_order (ao_order_id m) (ao_price m) (ao_quantity m) (ao_side m) b))
       (books, stats\<lparr>rp_adds := rp_adds stats + 1\<rparr>)"
| "apply_event (CancelOrderE m) books stats =
     on_book (xo_instrument_id m) (cancel_order (xo_order_id m)) (books, stats\<lparr>rp_cancels := rp_cancels stats + 1\<rparr>)"
| "apply_event (ModifyOrderE m) books stats =
     on_book (mo_instrument_id m) (modify_order (mo_order_id m) (mo_new_price m) (mo_new_quantity m))
       (books, stats\<lparr>rp_modifies := rp_modifies stats + 1\<rparr>)"
| "apply_event (TradeE m) books stats =
     Some (record_trade (td_instrument_id m) (td_price m) (td_quantity m) books, stats\<lparr>rp_trades := rp_trades stats + 1\<rparr>)"
| "apply_event (ClearBookE m) books stats =
     Some (set_book_at (cb_instrument_id m) (clear (book_at (cb_instrument_id m) books)) books,
           stats\<lparr>rp_clears := rp_clears stats + 1\<rparr>)"

fun digits :: "nat \<Rightarrow> string" where
  \<comment> \<open>an unsigned integer as \<open>operator<<\<close> prints it\<close>
  "digits n = (if n < 10 then [char_of (48 + n)] else digits (n div 10) @ [char_of (48 + n mod 10)])"

definition describe_sequence_error :: "SequenceCheck \<Rightarrow> string" where
  "describe_sequence_error c =
     (case sc_outcome c of
        Duplicate \<Rightarrow> ''duplicate sequence '' @ digits (unat (sc_observed c))
      | OutOfOrder \<Rightarrow> ''out-of-order sequence '' @ digits (unat (sc_observed c))
      | Missing \<Rightarrow> ''missing sequence(s) ['' @ digits (unat (sc_expected c)) @ ''..'' @ digits (unat (sc_observed c - 1)) @ '']''
      | InOrder \<Rightarrow> ''in-order sequence '' @ digits (unat (sc_observed c)))"

section \<open>Snapshots\<close>

definition SNAPSHOT_MAGIC :: u32 where
  "SNAPSHOT_MAGIC = 0x4D444832"

definition SNAPSHOT_VERSION :: u16 where
  "SNAPSHOT_VERSION = 1"

definition SNAPSHOT_HEADER_SIZE :: nat where
  "SNAPSHOT_HEADER_SIZE = 24"

definition append_side :: "OrderBook \<Rightarrow> InstrumentId \<Rightarrow> Side \<Rightarrow> bool \<Rightarrow> Sequence \<Rightarrow> u64 \<times> byte list \<Rightarrow> u64 \<times> byte list" where
  "append_side book iid side is_bid sequence_number st =
     fold (\<lambda>v (entry_count, out).
         (entry_count + 1,
          encode_event (AddOrderE \<lparr>ao_sequence_number = sequence_number, ao_timestamp_ns = 0, ao_order_id = ov_order_id v,
            ao_instrument_id = iid, ao_price = ov_price v, ao_quantity = ov_quantity v, ao_side = side\<rparr>) out))
       (if is_bid then all_bids book else all_asks book) st"

definition write_snapshot :: "Sequence \<Rightarrow> BookManager \<Rightarrow> byte list" where
  \<comment> \<open>the bytes written, when the path opens\<close>
  "write_snapshot sequence_number books =
     (let (entry_count, entries) =
            fold (\<lambda>iid st. case find_book iid books of
                     None \<Rightarrow> st
                   | Some book \<Rightarrow> append_side book iid Sell False sequence_number (append_side book iid Buy True sequence_number st))
              (instruments books) (0, []);
          header = put_u32 SNAPSHOT_MAGIC [];
          header = put_u16 SNAPSHOT_VERSION header;
          header = put_u16 0 header;
          header = put_u64 sequence_number header;
          header = put_u64 entry_count header
      in header @ entries)"

record SnapshotLoadResult =
  sl_sequence_number :: Sequence
  sl_books :: BookManager

fun read_entries :: "nat \<Rightarrow> byte list \<Rightarrow> BookManager \<Rightarrow> BookManager option" where
  \<comment> \<open>the loop over \<open>entry_count\<close>\<close>
  "read_entries 0 file books = Some books"
| "read_entries (Suc n) file books =
     (let frame_buf = take HEADER_SIZE file;
          file = drop HEADER_SIZE file
      in if length frame_buf < HEADER_SIZE then None
         else case decode_header frame_buf of
                Inl e \<Rightarrow> None
              | Inr header \<Rightarrow>
                  if mh_type header \<noteq> MT_AddOrder then None
                  else
                    let payload = take (unat (mh_payload_size header)) file;
                        file = drop (unat (mh_payload_size header)) file
                    in if length payload < unat (mh_payload_size header) then None
                       else case decode_event (frame_buf @ payload) of
                              Inr (AddOrderE add) \<Rightarrow>
                                (case add_order (ao_order_id add) (ao_price add) (ao_quantity add) (ao_side add)
                                        (book_at (ao_instrument_id add) books) of
                                   (None, b) \<Rightarrow> read_entries n file (set_book_at (ao_instrument_id add) b books)
                                 | (Some err, b) \<Rightarrow> None)
                            | _ \<Rightarrow> None)"

definition read_snapshot :: "byte list option \<Rightarrow> SnapshotLoadResult option" where
  "read_snapshot path_file =
     (case path_file of
        None \<Rightarrow> None
      | Some file \<Rightarrow>
          if length (take SNAPSHOT_HEADER_SIZE file) < SNAPSHOT_HEADER_SIZE then None
          else
            let (magic, r) = get_u32 (byte_reader (take SNAPSHOT_HEADER_SIZE file));
                (version, r) = get_u16 r;
                (reserved, r) = get_u16 r;
                (sequence_number, r) = get_u64 r;
                (entry_count, r) = get_u64 r
            in case do { magic \<leftarrow> magic; version \<leftarrow> version; reserved \<leftarrow> reserved; sequence_number \<leftarrow> sequence_number;
                         entry_count \<leftarrow> entry_count; Some (magic, version, reserved, sequence_number, entry_count) } of
                 None \<Rightarrow> None
               | Some (magic, version, reserved, sequence_number, entry_count) \<Rightarrow>
                   if magic \<noteq> SNAPSHOT_MAGIC \<or> version \<noteq> SNAPSHOT_VERSION \<or> reserved \<noteq> 0 then None
                   else map_option (\<lambda>books. \<lparr>sl_sequence_number = sequence_number, sl_books = books\<rparr>)
                          (read_entries (unat entry_count) (drop SNAPSHOT_HEADER_SIZE file) new_book_manager))"

section \<open>One frame\<close>

fun sequence_of_event :: "Event \<Rightarrow> Sequence" where
  "sequence_of_event (AddOrderE m) = ao_sequence_number m"
| "sequence_of_event (CancelOrderE m) = xo_sequence_number m"
| "sequence_of_event (ModifyOrderE m) = mo_sequence_number m"
| "sequence_of_event (TradeE m) = td_sequence_number m"
| "sequence_of_event (ClearBookE m) = cb_sequence_number m"

type_synonym ReplayState = "SequenceValidator \<times> ReplayOutcome"

definition apply_now :: "Event \<Rightarrow> ReplayState \<Rightarrow> (bool \<times> ReplayState) option" where
  \<comment> \<open>the end of \<open>apply_frame_result\<close>\<close>
  "apply_now event s =
     (let (validator, outcome) = s;
          stats = rr_stats outcome;
          stats = stats\<lparr>rp_messages_processed := rp_messages_processed stats + 1\<rparr>
      in case apply_event event (rr_books outcome) stats of
           None \<Rightarrow> None
         | Some (books, stats) \<Rightarrow>
             Some (False, validator, outcome\<lparr>rr_stats := stats, rr_books := books,
               rr_last_sequence_number := Some (sequence_of_event event)\<rparr>))"

definition stop_early :: "string \<Rightarrow> ReplayState \<Rightarrow> (bool \<times> ReplayState) option" where
  "stop_early reason s = Some (True, fst s, (snd s)\<lparr>rr_stopped_early := True, rr_stop_reason := reason\<rparr>)"

definition apply_frame_result ::
  "(string \<Rightarrow> byte list option) \<Rightarrow> ReplayOptions \<Rightarrow> DecodeError + Event \<Rightarrow> ReplayState \<Rightarrow> (bool \<times> ReplayState) option" where
  "apply_frame_result files options frame s =
     (let (validator, outcome) = s;
          stats = rr_stats outcome
      in case frame of
           Inl e \<Rightarrow>
             let outcome = outcome\<lparr>rr_stats := stats\<lparr>rp_decode_failures := rp_decode_failures stats + 1\<rparr>\<rparr>
             in if ro_stop_on_decode_error options
                then stop_early (''decode error: '' @ decode_error_to_string e) (validator, outcome)
                else Some (False, validator, outcome)
         | Inr event \<Rightarrow>
             let (c, validator) = check (sequence_of_event event) validator
             in if sc_outcome c = InOrder then apply_now event (validator, outcome)
                else
                  let stats = stats\<lparr>rp_sequence_failures := rp_sequence_failures stats + 1\<rparr>;
                      outcome = outcome\<lparr>rr_stats := stats\<rparr>
                  in case (sc_outcome c, ro_recovery_snapshot_path options) of
                       (Missing, Some path) \<Rightarrow>
                         (case read_snapshot (files path) of
                            None \<Rightarrow> stop_early (''sequence gap recovery failed: could not load snapshot '' @ path) (validator, outcome)
                          | Some loaded \<Rightarrow>
                              apply_now event (reset (sequence_of_event event) validator,
                                outcome\<lparr>rr_books := sl_books loaded, rr_stats := stats\<lparr>rp_recoveries := rp_recoveries stats + 1\<rparr>\<rparr>))
                     | _ \<Rightarrow>
                         if ro_stop_on_sequence_error options then stop_early (describe_sequence_error c) (validator, outcome)
                         else apply_now event (validator, outcome))"

section \<open>Event files\<close>

definition event_write :: "Event \<Rightarrow> byte list \<Rightarrow> byte list" where
  \<comment> \<open>\<open>EventFileWriter::write\<close>\<close>
  "event_write event file =
     (let buffer = encode_event event []
      in file @ buffer)"

definition event_next :: "byte list \<Rightarrow> (DecodeError + Event) option \<times> byte list" where
  \<comment> \<open>\<open>EventFileReader::next\<close>\<close>
  "event_next file =
     (let frame_buf = take HEADER_SIZE file;
          file = drop HEADER_SIZE file
      in if length frame_buf = 0 then (None, file)
         else if length frame_buf < HEADER_SIZE then (Some (Inl TruncatedHeader), file)
         else
           case decode_header frame_buf of
             Inl e \<Rightarrow> (Some (Inl e), file)
           | Inr header \<Rightarrow>
               let payload = take (unat (mh_payload_size header)) file;
                   file = drop (unat (mh_payload_size header)) file
               in if length payload < unat (mh_payload_size header) then (Some (Inl TruncatedPayload), file)
                  else (Some (decode_event (frame_buf @ payload)), file))"

lemma event_next_shorter: "event_next file = (Some frame, file') \<Longrightarrow> length file' < length file"
  by (auto simp: event_next_def Let_def HEADER_SIZE_def split: if_splits sum.splits)

function event_loop :: "(string \<Rightarrow> byte list option) \<Rightarrow> ReplayOptions \<Rightarrow> byte list \<Rightarrow> ReplayState \<Rightarrow> ReplayState option" where
  "event_loop files options file s =
     (case event_next file of
        (None, file') \<Rightarrow> Some s
      | (Some frame, file') \<Rightarrow>
          case apply_frame_result files options frame s of
            None \<Rightarrow> None
          | Some (stop, s') \<Rightarrow> if stop then Some s' else event_loop files options file' s')"
  by pat_completeness auto
termination
proof (relation "measure (\<lambda>(files, options, file, s). length file)", goal_cases)
  case 1
  show ?case by simp
qed (auto dest: event_next_shorter [OF sym])

declare event_loop.simps [simp del]

definition run_replay :: "(string \<Rightarrow> byte list option) \<Rightarrow> string \<Rightarrow> ReplayOptions \<Rightarrow> u64 \<Rightarrow> ReplayOutcome option" where
  "run_replay files input_path options elapsed =
     (let outcome = new_replay_result
      in case files input_path of
           None \<Rightarrow> Some (outcome\<lparr>rr_stopped_early := True, rr_stop_reason := ''failed to open input file: '' @ input_path\<rparr>)
         | Some file \<Rightarrow>
             map_option (\<lambda>s. (snd s)\<lparr>rr_stats := (rr_stats (snd s))\<lparr>rp_duration_ns := elapsed\<rparr>\<rparr>)
               (event_loop files options file (None, outcome)))"

section \<open>What an event does to the books\<close>

definition manager_ok :: "BookManager \<Rightarrow> bool" where
  "manager_ok m \<longleftrightarrow> (\<forall>iid b. bm_books m iid = Some b \<longrightarrow> book_ok b)"

type_synonym Depths = "InstrumentId \<Rightarrow> OrderId \<rightharpoonup> Side \<times> Price \<times> Quantity"

definition depths :: "BookManager \<Rightarrow> Depths" where
  "depths m iid = depth (book_at iid m)"

lemma book_at_ok: "manager_ok m \<Longrightarrow> book_ok (book_at iid m)"
  using new_book_ok(1) by (auto simp: manager_ok_def book_at_def split: option.split)

lemma set_book_at [simp]: "book_at j (set_book_at iid b m) = (if j = iid then b else book_at j m)"
  by (simp add: book_at_def set_book_at_def)

lemma set_book_ok: "manager_ok m \<Longrightarrow> book_ok b \<Longrightarrow> manager_ok (set_book_at iid b m)"
  by (auto simp: manager_ok_def set_book_at_def)

lemma depths_set: "depths (set_book_at iid b m) = (depths m)(iid := depth b)"
  by (auto simp: depths_def fun_eq_iff)

lemma record_trade_frame [simp]:
  "book_at j (record_trade iid p q m) = book_at j m" "manager_ok (record_trade iid p q m) = manager_ok m"
  "depths (record_trade iid p q m) = depths m"
  by (simp_all add: record_trade_def Let_def book_at_def manager_ok_def depths_def fun_eq_iff)

lemma new_manager: "manager_ok new_book_manager" "depths new_book_manager = (\<lambda>_. Map.empty)" "book_at iid new_book_manager = new_order_book"
  using new_book_ok(2) by (simp_all add: manager_ok_def new_book_manager_def depths_def book_at_def fun_eq_iff)

text \<open>The effect on the depth alone; an event the book refuses leaves it as it is.\<close>

fun feed_effect :: "Event \<Rightarrow> Depths \<Rightarrow> Depths" where
  "feed_effect (AddOrderE m) d =
     (let i = ao_instrument_id m
      in if 0 < sint (ao_price m) \<and> ao_quantity m \<noteq> 0 \<and> d i (ao_order_id m) = None
         then d(i := (d i)(ao_order_id m \<mapsto> (ao_side m, ao_price m, ao_quantity m))) else d)"
| "feed_effect (CancelOrderE m) d = d(xo_instrument_id m := (d (xo_instrument_id m))(xo_order_id m := None))"
| "feed_effect (ModifyOrderE m) d =
     (let i = mo_instrument_id m
      in case d i (mo_order_id m) of
           Some (sd, p, q) \<Rightarrow>
             if 0 < sint (mo_new_price m) \<and> mo_new_quantity m \<noteq> 0
             then d(i := (d i)(mo_order_id m \<mapsto> (sd, mo_new_price m, mo_new_quantity m))) else d
         | None \<Rightarrow> d)"
| "feed_effect (TradeE m) d = d"
| "feed_effect (ClearBookE m) d = d(cb_instrument_id m := Map.empty)"

lemma on_book_some:
  assumes "f (book_at iid m) = Some (err, b)" "manager_ok m" "book_ok b"
  shows "\<exists>m' st'. on_book iid f (m, st) = Some (m', st') \<and> manager_ok m' \<and> depths m' = (depths m)(iid := depth b) \<and>
    rp_messages_processed st' = rp_messages_processed st \<and> rp_sequence_failures st' = rp_sequence_failures st \<and>
    rp_decode_failures st' = rp_decode_failures st"
  using assms set_book_ok depths_set by (simp add: on_book_def)

lemma apply_event_ok:
  assumes ok: "manager_ok m"
  shows "\<exists>m' st'. apply_event e m st = Some (m', st') \<and> manager_ok m' \<and> depths m' = feed_effect e (depths m) \<and>
    rp_messages_processed st' = rp_messages_processed st \<and> rp_sequence_failures st' = rp_sequence_failures st \<and>
    rp_decode_failures st' = rp_decode_failures st"
proof (cases e)
  case (AddOrderE a)
  let ?b = "book_at (ao_instrument_id a) m"
  obtain err b where ab: "add_order (ao_order_id a) (ao_price a) (ao_quantity a) (ao_side a) ?b = (err, b)"
    by (cases "add_order (ao_order_id a) (ao_price a) (ao_quantity a) (ao_side a) ?b")
  note ao = add_order_ok [OF book_at_ok [OF ok, of "ao_instrument_id a"], of "ao_order_id a" "ao_price a" "ao_quantity a" "ao_side a", unfolded ab]
  have "(depths m)(ao_instrument_id a := depth b) = feed_effect e (depths m)"
    using ao(2,3,4) by (cases err) (auto simp: AddOrderE depths_def Let_def fun_eq_iff)
  then show ?thesis
    using on_book_some [of "\<lambda>b. Some (add_order (ao_order_id a) (ao_price a) (ao_quantity a) (ao_side a) b)" "ao_instrument_id a" m err b
        "st\<lparr>rp_adds := rp_adds st + 1\<rparr>"] ab ok ao(1) by (simp add: AddOrderE)
next
  case (CancelOrderE c)
  let ?i = "xo_instrument_id c"
  obtain err b where cb: "cancel_order (xo_order_id c) (book_at ?i m) = Some (err, b)" "book_ok b"
    "depth b = (depth (book_at ?i m))(xo_order_id c := None)"
    by (rule cancel_order_ok [OF book_at_ok [OF ok, of ?i], of "xo_order_id c"]) (use book_at_ok [OF ok, of ?i] in \<open>auto simp: fun_eq_iff\<close>)
  then show ?thesis
    using on_book_some [of "cancel_order (xo_order_id c)" ?i m err b "st\<lparr>rp_cancels := rp_cancels st + 1\<rparr>"] ok
    by (simp add: CancelOrderE depths_def)
next
  case (ModifyOrderE c)
  let ?i = "mo_instrument_id c"
  obtain err b where cb: "modify_order (mo_order_id c) (mo_new_price c) (mo_new_quantity c) (book_at ?i m) = Some (err, b)" "book_ok b"
    "(depths m)(?i := depth b) = feed_effect e (depths m)"
    by (rule modify_order_ok [OF book_at_ok [OF ok, of ?i], of "mo_order_id c" "mo_new_price c" "mo_new_quantity c"])
       (use book_at_ok [OF ok, of ?i] in \<open>auto simp: fun_eq_iff ModifyOrderE depths_def Let_def split: option.split\<close>)
  then show ?thesis
    using on_book_some [of "modify_order (mo_order_id c) (mo_new_price c) (mo_new_quantity c)" ?i m err b
        "st\<lparr>rp_modifies := rp_modifies st + 1\<rparr>"] ok
    by (simp add: ModifyOrderE)
next
  case (TradeE t)
  then show ?thesis using ok by simp
next
  case (ClearBookE c)
  then show ?thesis using ok set_book_ok [OF ok clear_ok(1)] by (simp add: depths_set clear_ok(2))
qed

section \<open>Replaying a recorded feed\<close>

lemma sequence_of_event_eq: "sequence_of_event e = sequence_number_of e"
  by (cases e) simp_all

definition caught_up :: "Sequence \<Rightarrow> SequenceValidator \<Rightarrow> bool" where
  \<comment> \<open>\<open>n\<close> is the next number in order\<close>
  "caught_up n v \<longleftrightarrow> v = None \<or> v = Some (n - 1)"

lemma check_caught_up:
  assumes "caught_up n v"
  shows "check n v = (\<lparr>sc_outcome = InOrder, sc_observed = n, sc_expected = 0\<rparr>, Some n)" "caught_up (n + 1) (Some n)"
proof -
  show "check n v = (\<lparr>sc_outcome = InOrder, sc_observed = n, sc_expected = 0\<rparr>, Some n)"
    using assms check_next [of "n - 1"] by (auto simp: caught_up_def)
  show "caught_up (n + 1) (Some n)" by (simp add: caught_up_def)
qed

definition sane :: "ReplayOutcome \<Rightarrow> bool" where
  "sane oc \<longleftrightarrow> manager_ok (rr_books oc) \<and> \<not> rr_stopped_early oc"

lemma frame_in_order:
  assumes "caught_up (sequence_of_event e) v" "sane oc"
  obtains oc' where "apply_frame_result files options (Inr e) (v, oc) = Some (False, Some (sequence_of_event e), oc')" "sane oc'"
    "depths (rr_books oc') = feed_effect e (depths (rr_books oc))"
    "rp_messages_processed (rr_stats oc') = rp_messages_processed (rr_stats oc) + 1"
    "rp_sequence_failures (rr_stats oc') = rp_sequence_failures (rr_stats oc)"
    "rp_decode_failures (rr_stats oc') = rp_decode_failures (rr_stats oc)"
    "rr_last_sequence_number oc' = Some (sequence_of_event e)" "rr_stop_reason oc' = rr_stop_reason oc"
proof -
  let ?st = "(rr_stats oc)\<lparr>rp_messages_processed := rp_messages_processed (rr_stats oc) + 1\<rparr>"
  obtain m' st' where a: "apply_event e (rr_books oc) ?st = Some (m', st')" "manager_ok m'" "depths m' = feed_effect e (depths (rr_books oc))"
    "rp_messages_processed st' = rp_messages_processed ?st" "rp_sequence_failures st' = rp_sequence_failures ?st"
    "rp_decode_failures st' = rp_decode_failures ?st"
    using apply_event_ok [of "rr_books oc" e ?st] assms(2) by (auto simp: sane_def)
  have "apply_frame_result files options (Inr e) (v, oc) = Some (False, Some (sequence_of_event e),
      oc\<lparr>rr_stats := st', rr_books := m', rr_last_sequence_number := Some (sequence_of_event e)\<rparr>)"
    using a(1) by (simp add: apply_frame_result_def apply_now_def check_caught_up(1) [OF assms(1)])
  then show thesis by (rule that) (use a assms(2) in \<open>simp_all add: sane_def\<close>)
qed

lemma take_header_event: "take HEADER_SIZE (encode_event e [] @ rest) = header_of e" "drop HEADER_SIZE (encode_event e [] @ rest) = payload e @ rest"
  by (simp_all add: md_encode_split header_of_def HEADER_SIZE_def)

lemma decode_header_of: "decode_header (header_of e) =
    Inr \<lparr>mh_type = type_of e, mh_payload_size = word_of_nat (payload_size_for (type_of e)),
         mh_sequence_number = sequence_number_of e, mh_timestamp_ns = timestamp_ns_of e\<rparr>"
  using md_decode_header_bytes [of "raw_of_type (type_of e)" "word_of_nat (payload_size_for (type_of e))" "sequence_number_of e"
      "timestamp_ns_of e" "[]"] by (simp add: header_of_def)

lemma decode_rejoined: "decode_event (header_of e @ payload e) = Inr e"
  using md_decode_encode [of e "[]"] by (simp add: md_encode_split)

lemma event_next_frame: "event_next (encode_event e [] @ rest) = (Some (Inr e), rest)"
proof -
  have "length (header_of e) = 20" by (simp add: header_of_def)
  then show ?thesis
    unfolding event_next_def Let_def take_header_event
    by (simp add: decode_header_of decode_rejoined HEADER_SIZE_def)
qed

lemma event_next_end: "event_next [] = (None, [])"
  by (simp add: event_next_def)

lemma event_file: "fold event_write es out = out @ concat (map (\<lambda>e. encode_event e []) es)"
  by (induction es arbitrary: out) (simp_all add: event_write_def)

lemma event_loop_in_order:
  assumes "in_sequence n (map sequence_of_event es)" "caught_up n v" "sane oc"
  obtains v' oc' where "event_loop files options (concat (map (\<lambda>e. encode_event e []) es)) (v, oc) = Some (v', oc')" "sane oc'"
    "depths (rr_books oc') = fold feed_effect es (depths (rr_books oc))"
    "rp_messages_processed (rr_stats oc') = rp_messages_processed (rr_stats oc) + word_of_nat (length es)"
    "rp_sequence_failures (rr_stats oc') = rp_sequence_failures (rr_stats oc)"
    "rp_decode_failures (rr_stats oc') = rp_decode_failures (rr_stats oc)" "rr_stop_reason oc' = rr_stop_reason oc"
  using assms
proof (induction es arbitrary: n v oc thesis)
  case Nil
  have "event_loop files options [] (v, oc) = Some (v, oc)" by (subst event_loop.simps) (simp add: event_next_end)
  then show ?case by (intro Nil.prems(1)) (use Nil.prems in simp_all)
next
  case (Cons e es)
  have n: "sequence_of_event e = n" "in_sequence (n + 1) (map sequence_of_event es)" using Cons.prems(2) by simp_all
  obtain oc1 where oc1: "apply_frame_result files options (Inr e) (v, oc) = Some (False, Some n, oc1)" "sane oc1"
    "depths (rr_books oc1) = feed_effect e (depths (rr_books oc))"
    "rp_messages_processed (rr_stats oc1) = rp_messages_processed (rr_stats oc) + 1"
    "rp_sequence_failures (rr_stats oc1) = rp_sequence_failures (rr_stats oc)"
    "rp_decode_failures (rr_stats oc1) = rp_decode_failures (rr_stats oc)" "rr_stop_reason oc1 = rr_stop_reason oc"
    by (rule frame_in_order [of e v oc]) (use Cons.prems n(1) in auto)
  obtain v' oc' where r: "event_loop files options (concat (map (\<lambda>e. encode_event e []) es)) (Some n, oc1) = Some (v', oc')" "sane oc'"
    "depths (rr_books oc') = fold feed_effect es (depths (rr_books oc1))"
    "rp_messages_processed (rr_stats oc') = rp_messages_processed (rr_stats oc1) + word_of_nat (length es)"
    "rp_sequence_failures (rr_stats oc') = rp_sequence_failures (rr_stats oc1)"
    "rp_decode_failures (rr_stats oc') = rp_decode_failures (rr_stats oc1)" "rr_stop_reason oc' = rr_stop_reason oc1"
    by (rule Cons.IH [OF _ n(2) check_caught_up(2) [OF Cons.prems(3)] oc1(2)]) (rule that)
  have "event_loop files options (concat (map (\<lambda>e. encode_event e []) (e # es))) (v, oc) = Some (v', oc')"
    by (subst event_loop.simps) (simp add: event_next_frame oc1(1) r(1))
  then show ?case by (rule Cons.prems(1)) (use oc1 r in simp_all)
qed

section \<open>Snapshot round trip\<close>

definition entry_of :: "Sequence \<Rightarrow> InstrumentId \<times> Side \<times> OrderView \<Rightarrow> Event" where
  "entry_of seq x = (case x of (iid, sd, v) \<Rightarrow>
     AddOrderE \<lparr>ao_sequence_number = seq, ao_timestamp_ns = 0, ao_order_id = ov_order_id v, ao_instrument_id = iid,
       ao_price = ov_price v, ao_quantity = ov_quantity v, ao_side = sd\<rparr>)"

definition book_entries :: "InstrumentId \<Rightarrow> OrderBook \<Rightarrow> (InstrumentId \<times> Side \<times> OrderView) list" where
  "book_entries iid b = map (\<lambda>v. (iid, Buy, v)) (side_orders Buy b) @ map (\<lambda>v. (iid, Sell, v)) (side_orders Sell b)"

definition manager_entries :: "BookManager \<Rightarrow> (InstrumentId \<times> Side \<times> OrderView) list" where
  "manager_entries m = concat (map (\<lambda>iid. case find_book iid m of None \<Rightarrow> [] | Some b \<Rightarrow> book_entries iid b) (instruments m))"

lemma append_side_entries:
  "append_side b iid sd is_bid seq (n, out) =
     (let es = map (\<lambda>v. entry_of seq (iid, sd, v)) (if is_bid then all_bids b else all_asks b)
      in (n + word_of_nat (length es), out @ concat (map (\<lambda>e. encode_event e []) es)))"
proof -
  have "fold (\<lambda>v (n, out). (n + 1, encode_event (entry_of seq (iid, sd, v)) out)) vs (n, out) =
      (n + word_of_nat (length vs), out @ concat (map (\<lambda>v. encode_event (entry_of seq (iid, sd, v)) []) vs))" for vs and n :: u64 and out
  proof (induction vs arbitrary: n out)
    case (Cons v vs)
    then show ?case using md_encode_append [of "entry_of seq (iid, sd, v)" out] by (simp add: algebra_simps)
  qed simp
  then show ?thesis by (simp add: append_side_def entry_of_def Let_def comp_def del: encode_event.simps)
qed

lemma snapshot_entries:
  "fold (\<lambda>iid st. case find_book iid m of
             None \<Rightarrow> st
           | Some book \<Rightarrow> append_side book iid Sell False seq (append_side book iid Buy True seq st)) is (n, out) =
     (let es = map (entry_of seq) (concat (map (\<lambda>iid. case find_book iid m of None \<Rightarrow> [] | Some b \<Rightarrow> book_entries iid b) is))
      in (n + word_of_nat (length es), out @ concat (map (\<lambda>e. encode_event e []) es)))"
proof (induction "is" arbitrary: n out)
  case (Cons i "is")
  show ?case
  proof (cases "find_book i m")
    case None
    then show ?thesis using Cons by simp
  next
    case (Some b)
    have s: "append_side b i Sell False seq (append_side b i Buy True seq (n, out)) =
        (n + word_of_nat (length (book_entries i b)), out @ concat (map (\<lambda>e. encode_event e []) (map (entry_of seq) (book_entries i b))))"
      by (simp add: append_side_entries Let_def book_entries_def side_orders_def comp_def algebra_simps)
    show ?thesis using Some Cons s by (simp add: Let_def algebra_simps comp_def)
  qed
qed (simp add: Let_def)

lemma write_snapshot_bytes:
  "write_snapshot seq m =
     be_bytes 4 SNAPSHOT_MAGIC @ be_bytes 2 SNAPSHOT_VERSION @ be_bytes 2 (0 :: u16) @ be_bytes 8 seq @
     be_bytes 8 (word_of_nat (length (manager_entries m)) :: u64) @
     concat (map (\<lambda>e. encode_event e []) (map (entry_of seq) (manager_entries m)))"
  by (simp add: write_snapshot_def snapshot_entries Let_def field_puts manager_entries_def comp_def)

lemma snapshot_frame:
  fixes e :: Event
  assumes e: "e = entry_of seq (iid, sd, v)" and add: "add_order (ov_order_id v) (ov_price v) (ov_quantity v) sd (book_at iid m) = (None, b)"
  shows "read_entries (Suc n) (encode_event e [] @ rest) m = read_entries n rest (set_book_at iid b m)"
proof -
  have "length (header_of e) = 20" by (simp add: header_of_def)
  moreover have "type_of e = MT_AddOrder" by (simp add: e entry_of_def)
  ultimately show ?thesis
    unfolding read_entries.simps Let_def take_header_event
    using decode_rejoined [of e] add by (simp add: decode_header_of HEADER_SIZE_def) (simp add: e entry_of_def)
qed

lemma read_snapshot_bytes:
  "read_snapshot (Some (be_bytes 4 SNAPSHOT_MAGIC @ be_bytes 2 SNAPSHOT_VERSION @ be_bytes 2 (0 :: u16) @ be_bytes 8 seq @
     be_bytes 8 (count :: u64) @ rest)) =
   map_option (\<lambda>books. \<lparr>sl_sequence_number = seq, sl_books = books\<rparr>) (read_entries (unat count) rest new_book_manager)"
  by (simp add: read_snapshot_def SNAPSHOT_HEADER_SIZE_def byte_reader_def field_gets field_slices be_value_bytes)

text \<open>Inserting orders one by one: every entry adds its order behind the earlier ones of its price.\<close>

definition entries_at :: "(InstrumentId \<times> Side \<times> OrderView) list \<Rightarrow> InstrumentId \<Rightarrow> Side \<Rightarrow> Price \<Rightarrow> RestingOrder list" where
  "entries_at xs iid sd p =
     map (\<lambda>(i, s, v). \<lparr>rs_id = ov_order_id v, rs_quantity = ov_quantity v\<rparr>) (filter (\<lambda>(i, s, v). i = iid \<and> s = sd \<and> ov_price v = p) xs)"

definition entry_id :: "InstrumentId \<times> Side \<times> OrderView \<Rightarrow> InstrumentId \<times> OrderId" where
  "entry_id x = (case x of (i, s, v) \<Rightarrow> (i, ov_order_id v))"

lemma read_back:
  assumes "manager_ok m" "distinct (map entry_id xs)"
    "\<And>i s v. (i, s, v) \<in> set xs \<Longrightarrow> 0 < sint (ov_price v) \<and> ov_quantity v \<noteq> 0 \<and> depth (book_at i m) (ov_order_id v) = None"
  obtains m' where "read_entries (length xs) (concat (map (\<lambda>e. encode_event e []) (map (entry_of seq) xs))) m = Some m'" "manager_ok m'"
    "\<And>iid sd p. orders_on (book_at iid m') sd p = orders_on (book_at iid m) sd p @ entries_at xs iid sd p"
  using assms
proof (induction xs arbitrary: m thesis)
  case Nil
  show ?case by (rule Nil.prems(1) [of m]) (use Nil.prems in \<open>simp_all add: entries_at_def\<close>)
next
  case (Cons x xs)
  obtain i s v where x: "x = (i, s, v)" by (cases x)
  let ?b = "book_at i m"
  have bk: "book_ok ?b" by (rule book_at_ok [OF Cons.prems(2)])
  have v: "0 < sint (ov_price v)" "ov_quantity v \<noteq> 0" "depth ?b (ov_order_id v) = None" using Cons.prems(4) [of i s v] by (simp_all add: x)
  obtain b where b: "add_order (ov_order_id v) (ov_price v) (ov_quantity v) s ?b = (None, b)"
    using add_order_ok(3) [OF bk, of "ov_order_id v" "ov_price v" "ov_quantity v" s] v
    by (cases "add_order (ov_order_id v) (ov_price v) (ov_quantity v) s ?b") auto
  note ao = add_order_ok [OF bk, of "ov_order_id v" "ov_price v" "ov_quantity v" s, unfolded b fst_conv snd_conv]
  let ?m = "set_book_at i b m"
  have m1: "manager_ok ?m" using set_book_ok [OF Cons.prems(2)] ao(1) by simp
  have fresh: "0 < sint (ov_price w) \<and> ov_quantity w \<noteq> 0 \<and> depth (book_at j ?m) (ov_order_id w) = None" if "(j, t, w) \<in> set xs" for j t w
  proof -
    have "entry_id (j, t, w) \<noteq> entry_id x" using Cons.prems(3) that by (force simp: image_iff)
    then show ?thesis using Cons.prems(4) [of j t w] that ao(4) by (auto simp: x entry_id_def)
  qed
  obtain m' where m': "read_entries (length xs) (concat (map (\<lambda>e. encode_event e []) (map (entry_of seq) xs))) ?m = Some m'" "manager_ok m'"
    "\<And>iid sd p. orders_on (book_at iid m') sd p = orders_on (book_at iid ?m) sd p @ entries_at xs iid sd p"
    by (rule Cons.IH [OF _ m1 _ fresh]) (use Cons.prems(3) in auto)
  have "read_entries (length (x # xs)) (concat (map (\<lambda>e. encode_event e []) (map (entry_of seq) (x # xs)))) m = Some m'"
    using snapshot_frame [OF refl b, where seq = seq and n = "length xs" and rest = "concat (map (\<lambda>e. encode_event e []) (map (entry_of seq) xs))"] m'(1)
    by (simp add: x del: read_entries.simps)
  then show ?case
    by (rule Cons.prems(1) [OF _ m'(2)]) (simp add: m'(3) ao(5) x entries_at_def)
qed

text \<open>The entries of a well-formed manager, seen per book and price.\<close>

lemma entries_at_append: "entries_at (xs @ ys) iid sd p = entries_at xs iid sd p @ entries_at ys iid sd p"
  by (simp add: entries_at_def)

lemma levels_orders:
  assumes "levels_ok sd ls"
  shows "map (\<lambda>v. \<lparr>rs_id = ov_order_id v, rs_quantity = ov_quantity v\<rparr>) (filter (\<lambda>v. ov_price v = p) (concat (map level_orders ls))) =
    orders_at ls p"
  using levels_okD(1) [OF assms, THEN sorted_distinct]
proof (induction ls)
  case (Cons e ls)
  obtain r l where e: "e = (r, l)" by (cases e)
  have self: "map (\<lambda>x. \<lparr>rs_id = rs_id x, rs_quantity = rs_quantity x\<rparr>) xs = xs" for xs by (induction xs) simp_all
  have c: "map (\<lambda>v. \<lparr>rs_id = ov_order_id v, rs_quantity = ov_quantity v\<rparr>) (filter (\<lambda>v. ov_price v = p) (level_orders e)) =
      (if r = p then pl_orders l else [])"
    by (auto simp: level_orders_def e filter_map comp_def self)
  have "r \<notin> fst ` set ls" using Cons.prems by (simp add: e)
  then have "orders_at ls p = []" if "r = p" using that by (simp add: orders_at_def map_of_eq_None_iff [THEN iffD2])
  moreover have "orders_at (e # ls) p = (if r = p then pl_orders l else orders_at ls p)" by (simp add: orders_at_def e)
  ultimately show ?case using Cons c by simp
qed (simp add: orders_at_def)

lemma book_entries_at:
  assumes "book_ok b"
  shows "entries_at (book_entries i b) iid sd p = (if iid = i then orders_on b sd p else [])"
proof -
  have one: "entries_at (map (\<lambda>v. (i, s, v)) (side_orders s b)) iid sd p = (if iid = i \<and> sd = s then orders_on b sd p else [])" for s sd
    using levels_orders [OF book_okD(1) [OF assms, of s], of p]
    by (auto simp: entries_at_def filter_map comp_def side_orders_levels)
  show ?thesis by (cases sd) (auto simp: book_entries_def entries_at_append one)
qed

lemma distinct_entries:
  assumes "book_ok b"
  shows "distinct (map entry_id (book_entries i b))"
proof -
  have d: "distinct (map ov_order_id (side_orders sd b))" for sd
  proof -
    have "distinct (map ov_order_id (concat (map level_orders ls)))"
      if "\<And>p. distinct (map rs_id (orders_at ls p))" "distinct (map fst ls)"
        "\<And>p q x. x \<in> rs_id ` set (orders_at ls p) \<Longrightarrow> x \<in> rs_id ` set (orders_at ls q) \<Longrightarrow> p = q" for ls
      using that
    proof (induction ls)
      case (Cons e ls)
      obtain r l where e: "e = (r, l)" by (cases e)
      have r: "r \<notin> fst ` set ls" using Cons.prems(2) by (simp add: e)
      have at: "orders_at (e # ls) p = (if p = r then pl_orders l else orders_at ls p)" for p by (simp add: orders_at_def e)
      have at_r: "orders_at ls r = []" using r by (simp add: orders_at_def map_of_eq_None_iff [THEN iffD2])
      have ids: "map ov_order_id (level_orders e) = map rs_id (pl_orders l)" by (simp add: level_orders_def e comp_def)
      have tl: "distinct (map ov_order_id (concat (map level_orders ls)))"
      proof (rule Cons.IH)
        show "distinct (map rs_id (orders_at ls p))" for p using Cons.prems(1) [of p] at_r by (cases "p = r") (auto simp: at)
        show "distinct (map fst ls)" using Cons.prems(2) by simp
        show "p = q" if "x \<in> rs_id ` set (orders_at ls p)" "x \<in> rs_id ` set (orders_at ls q)" for p q x
          using Cons.prems(3) [of x p q] that at_r by (cases "p = r"; cases "q = r") (auto simp: at)
      qed
      have "ov_order_id ` set (concat (map level_orders ls)) \<inter> rs_id ` set (pl_orders l) = {}"
      proof (rule ccontr)
        assume "ov_order_id ` set (concat (map level_orders ls)) \<inter> rs_id ` set (pl_orders l) \<noteq> {}"
        then obtain x q m where x: "x \<in> rs_id ` set (pl_orders l)" "(q, m) \<in> set ls" "x \<in> rs_id ` set (pl_orders m)"
          by (fastforce simp: level_orders_def)
        have "q \<noteq> r" using x(2) r by force
        moreover have "orders_at ls q = pl_orders m" using x(2) Cons.prems(2) by (simp add: orders_at_def)
        ultimately show False using Cons.prems(3) [of x r q] x(1,3) by (simp add: at)
      qed
      then show ?case using tl ids Cons.prems(1) [of r] by (auto simp: at)
    qed simp
    then show ?thesis
      unfolding side_orders_levels
      using book_okD(2) [OF assms, of sd] sorted_distinct [OF levels_okD(1) [OF book_okD(1) [OF assms, of sd]]]
        book_okD(3) [OF assms, of _ sd] by (metis (no_types, lifting) OrderLocation.ext_inject option.inject)
  qed
  have "ov_order_id ` set (side_orders Buy b) \<inter> ov_order_id ` set (side_orders Sell b) = {}"
    using side_orders_depth [OF assms] by (auto simp: disjoint_iff)
  then have "distinct (map (\<lambda>v. (i, ov_order_id v)) (side_orders Buy b @ side_orders Sell b))"
    using d by (auto simp: distinct_map inj_on_def)
  then show ?thesis by (simp add: book_entries_def entry_id_def comp_def)
qed

lemma instruments_list: "distinct (instruments m)" "bm_books m iid = Some b \<Longrightarrow> iid \<in> set (instruments m)"
  by (auto simp: instruments_def)

lemma concat_entries_at: "entries_at (concat xss) iid sd p = concat (map (\<lambda>xs. entries_at xs iid sd p) xss)"
  by (induction xss) (simp_all add: entries_at_append, simp add: entries_at_def)

lemma concat_single: "distinct xs \<Longrightarrow> concat (map (\<lambda>j. if j = i then ys else []) xs) = (if i \<in> set xs then ys else [])"
  by (induction xs) auto

lemma manager_entries_at:
  assumes "manager_ok m"
  shows "entries_at (manager_entries m) iid sd p = orders_on (book_at iid m) sd p"
proof -
  have "entries_at (case find_book j m of None \<Rightarrow> [] | Some b \<Rightarrow> book_entries j b) iid sd p =
      (if j = iid then orders_on (book_at iid m) sd p else [])" for j
  proof (cases "bm_books m j")
    case None
    then show ?thesis by (auto simp: find_book_def entries_at_def book_at_def new_order_book_def side_levels_def orders_at_def)
  next
    case (Some b)
    then have "book_ok b" using assms by (simp add: manager_ok_def)
    then show ?thesis using Some by (auto simp: find_book_def book_entries_at book_at_def)
  qed
  then have "entries_at (manager_entries m) iid sd p =
      concat (map (\<lambda>j. if j = iid then orders_on (book_at iid m) sd p else []) (instruments m))"
    by (simp add: manager_entries_def concat_entries_at comp_def)
  also have "\<dots> = (if iid \<in> set (instruments m) then orders_on (book_at iid m) sd p else [])"
    by (rule concat_single [OF instruments_list(1)])
  also have "\<dots> = orders_on (book_at iid m) sd p"
    using instruments_list(2) [of m iid]
    by (cases "bm_books m iid") (auto simp: book_at_def new_order_book_def side_levels_def orders_at_def)
  finally show ?thesis .
qed

lemma entry_instrument: "x \<in> set (book_entries i b) \<Longrightarrow> fst (entry_id x) = i"
  by (auto simp: book_entries_def entry_id_def)

lemma distinct_keyed_concat:
  assumes "\<And>j. distinct (map g (f j))" "\<And>j x. x \<in> set (f j) \<Longrightarrow> h (g x) = j" "distinct js"
  shows "distinct (map g (concat (map f js)))"
  using assms(3)
proof (induction js)
  case (Cons j js)
  have "g ` set (f j) \<inter> g ` set (concat (map f js)) = {}"
  proof (rule ccontr)
    assume "g ` set (f j) \<inter> g ` set (concat (map f js)) \<noteq> {}"
    then obtain x y k where "x \<in> set (f j)" "k \<in> set js" "y \<in> set (f k)" "g x = g y" by auto
    then have "j = k" using assms(2) by metis
    then show False using \<open>k \<in> set js\<close> Cons.prems by simp
  qed
  then show ?case using Cons assms(1) [of j] by (simp del: map_concat)
qed simp

lemma manager_entries_distinct:
  assumes "manager_ok m"
  shows "distinct (map entry_id (manager_entries m))"
proof -
  let ?f = "\<lambda>iid. case find_book iid m of None \<Rightarrow> [] | Some b \<Rightarrow> book_entries iid b"
  have one: "distinct (map entry_id (?f j))" for j
    using distinct_entries assms by (auto simp: find_book_def manager_ok_def split: option.split)
  have fst: "fst (entry_id x) = j" if "x \<in> set (?f j)" for x j
    using that entry_instrument [of x j] by (cases "find_book j m") auto
  show ?thesis unfolding manager_entries_def by (rule distinct_keyed_concat [where h = fst, OF one fst instruments_list(1)])
qed

definition sound :: "BookManager \<Rightarrow> bool" where
  \<comment> \<open>what events and snapshots can build: well-formed books of positive orders\<close>
  "sound m \<longleftrightarrow> manager_ok m \<and> (\<forall>iid oid sd p q. depths m iid oid = Some (sd, p, q) \<longrightarrow> 0 < sint p \<and> q \<noteq> 0)"

lemma feed_effect_positive:
  assumes pos: "\<And>iid oid sd p q. d iid oid = Some (sd, p, q) \<Longrightarrow> 0 < sint p \<and> q \<noteq> 0"
    and "feed_effect e d iid oid = Some (sd, p, q)"
  shows "0 < sint p \<and> q \<noteq> 0"
  using assms(2) by (cases e) (auto simp: Let_def dest: pos split: if_splits option.splits)

lemma apply_event_sound:
  assumes "sound m"
  shows "\<exists>m' st'. apply_event e m st = Some (m', st') \<and> sound m' \<and> depths m' = feed_effect e (depths m)"
proof -
  obtain m' st' where "apply_event e m st = Some (m', st')" "manager_ok m'" "depths m' = feed_effect e (depths m)"
    using apply_event_ok [of m e st] assms by (auto simp: sound_def)
  moreover have "0 < sint p \<and> q \<noteq> 0" if "feed_effect e (depths m) iid oid = Some (sd, p, q)" for iid oid sd p q
    by (rule feed_effect_positive [OF _ that]) (use assms in \<open>auto simp: sound_def\<close>)
  ultimately show ?thesis by (auto simp: sound_def)
qed

lemma manager_entry:
  assumes ok: "manager_ok m" and x: "(i, s, v) \<in> set (manager_entries m)"
  shows "depths m i (ov_order_id v) = Some (s, ov_price v, ov_quantity v)"
proof -
  obtain j where "(i, s, v) \<in> set (case find_book j m of None \<Rightarrow> [] | Some b \<Rightarrow> book_entries j b)"
    using x by (auto simp: manager_entries_def)
  then obtain b where "bm_books m j = Some b" "(i, s, v) \<in> set (book_entries j b)"
    by (cases "find_book j m") (auto simp: find_book_def)
  moreover from this have "j = i" using entry_instrument [of "(i, s, v)" j b] by (simp add: entry_id_def)
  ultimately have b: "bm_books m i = Some b" "(i, s, v) \<in> set (book_entries i b)" by simp_all
  then have "book_ok b" using ok by (simp add: manager_ok_def)
  then show ?thesis using b side_orders_depth by (auto simp: book_entries_def depths_def book_at_def)
qed

lemma snapshot_reads_back:
  assumes m: "sound m" and len: "length (manager_entries m) < 2 ^ 64"
  obtains m' where "read_snapshot (Some (write_snapshot seq m)) = Some \<lparr>sl_sequence_number = seq, sl_books = m'\<rparr>" "manager_ok m'"
    "\<And>iid sd p. orders_on (book_at iid m') sd p = orders_on (book_at iid m) sd p"
proof -
  let ?xs = "manager_entries m"
  have ok: "manager_ok m" using m by (simp add: sound_def)
  have e: "0 < sint (ov_price v) \<and> ov_quantity v \<noteq> 0 \<and> depth (book_at i new_book_manager) (ov_order_id v) = None"
    if "(i, s, v) \<in> set ?xs" for i s v
  proof -
    have "depths m i (ov_order_id v) = Some (s, ov_price v, ov_quantity v)" by (rule manager_entry [OF ok that])
    moreover have "depth (book_at i new_book_manager) (ov_order_id v) = None" using new_book_ok(2) by (simp add: new_manager(3))
    ultimately show ?thesis using m by (auto simp: sound_def)
  qed
  obtain m' where m': "read_entries (length ?xs) (concat (map (\<lambda>e. encode_event e []) (map (entry_of seq) ?xs))) new_book_manager = Some m'"
    "manager_ok m'" "\<And>iid sd p. orders_on (book_at iid m') sd p = orders_on (book_at iid new_book_manager) sd p @ entries_at ?xs iid sd p"
    by (rule read_back [OF new_manager(1) manager_entries_distinct [OF ok], of seq]) (erule e, rule that)
  have "unat (word_of_nat (length ?xs) :: u64) = length ?xs" using len by (rule unat_word_of_nat_64)
  then have "read_snapshot (Some (write_snapshot seq m)) = Some \<lparr>sl_sequence_number = seq, sl_books = m'\<rparr>"
    unfolding write_snapshot_bytes read_snapshot_bytes using m'(1) by simp
  moreover have "orders_on (book_at iid m') sd p = orders_on (book_at iid m) sd p" for iid sd p
    unfolding m'(3) manager_entries_at [OF ok] new_manager(3) by (simp add: new_order_book_def side_levels_def orders_at_def)
  ultimately show thesis using that m'(2) by blast
qed

lemma same_orders_depths:
  assumes "manager_ok m" "manager_ok m'" "\<And>iid sd p. orders_on (book_at iid m') sd p = orders_on (book_at iid m) sd p"
  shows "depths m' = depths m"
proof
  fix iid
  show "depths m' iid = depths m iid" unfolding depths_def
    by (rule depth_eqI [OF book_at_ok [OF assms(2)]]) (simp add: assms(3) depth_iff [OF book_at_ok [OF assms(1)]])
qed

lemma frame_gap_recovered:
  assumes c: "sc_outcome (fst (check (sequence_of_event e) v)) = Missing" and path: "ro_recovery_snapshot_path options = Some path"
    and fl: "files path = Some (write_snapshot seq m)" and m: "sound m" "length (manager_entries m) < 2 ^ 64"
  obtains oc' where "apply_frame_result files options (Inr e) (v, oc) = Some (False, Some (sequence_of_event e), oc')"
    "manager_ok (rr_books oc')" "depths (rr_books oc') = feed_effect e (depths m)"
    "rr_stopped_early oc' = rr_stopped_early oc"
proof -
  obtain m' where m': "read_snapshot (Some (write_snapshot seq m)) = Some \<lparr>sl_sequence_number = seq, sl_books = m'\<rparr>" "manager_ok m'"
    "\<And>iid sd p. orders_on (book_at iid m') sd p = orders_on (book_at iid m) sd p"
    by (rule snapshot_reads_back [OF m]) (rule that)
  have d: "depths m' = depths m" by (rule same_orders_depths) (use m m' in \<open>simp_all add: sound_def\<close>)
  obtain ch w where cw: "check (sequence_of_event e) v = (ch, w)" "sc_outcome ch = Missing" using c by (cases "check (sequence_of_event e) v") auto
  define st where "st = (rr_stats oc)\<lparr>rp_sequence_failures := rp_sequence_failures (rr_stats oc) + 1,
      rp_recoveries := rp_recoveries (rr_stats oc) + 1\<rparr>"
  let ?st = "st\<lparr>rp_messages_processed := rp_messages_processed st + 1\<rparr>"
  obtain m2 st2 where a: "apply_event e m' ?st = Some (m2, st2)" "manager_ok m2" "depths m2 = feed_effect e (depths m')"
    using apply_event_ok [OF m'(2), of e ?st] by blast
  have "apply_frame_result files options (Inr e) (v, oc) = Some (False, Some (sequence_of_event e),
      oc\<lparr>rr_stats := st2, rr_books := m2, rr_last_sequence_number := Some (sequence_of_event e)\<rparr>)"
    using a(1) by (simp add: apply_frame_result_def cw path fl m'(1) apply_now_def reset_def st_def Let_def)
  then show thesis by (rule that) (use a(2,3) d in simp_all)
qed

lemma replayed_feed:
  assumes "in_sequence n (map sequence_of_event es)" "files path = Some (fold event_write es [])"
  shows "\<exists>outcome. run_replay files path options elapsed = Some outcome \<and> \<not> rr_stopped_early outcome \<and>
    rp_messages_processed (rr_stats outcome) = word_of_nat (length es) \<and>
    rp_sequence_failures (rr_stats outcome) = 0 \<and> rp_decode_failures (rr_stats outcome) = 0 \<and>
    manager_ok (rr_books outcome) \<and> depths (rr_books outcome) = fold feed_effect es (\<lambda>_. Map.empty)"
proof -
  obtain v' oc' where "event_loop files options (concat (map (\<lambda>e. encode_event e []) es)) (None, new_replay_result) = Some (v', oc')" "sane oc'"
    "depths (rr_books oc') = fold feed_effect es (depths (rr_books new_replay_result))"
    "rp_messages_processed (rr_stats oc') = rp_messages_processed (rr_stats new_replay_result) + word_of_nat (length es)"
    "rp_sequence_failures (rr_stats oc') = rp_sequence_failures (rr_stats new_replay_result)"
    "rp_decode_failures (rr_stats oc') = rp_decode_failures (rr_stats new_replay_result)"
    by (rule event_loop_in_order [OF assms(1), of None new_replay_result])
       (use new_manager in \<open>simp_all add: caught_up_def sane_def new_replay_result_def\<close>)
  then show ?thesis
    using assms(2) new_manager(2)
    by (simp add: run_replay_def event_file sane_def new_replay_result_def new_replay_stats_def)
qed

section \<open>Properties\<close>

text \<open>
  C30. A recorded feed replays completely: from the file of a feed with consecutive sequence numbers,
  \<open>run_replay\<close> stops at the file's end with every message processed, no failure counted, and books whose
  depth is the effect of the events one after another, an event the book refuses leaving it unchanged.
\<close>

theorem recorded_feed_replays_completely:
  assumes "in_sequence n (map sequence_of_event es)" "files path = Some (fold event_write es [])"
  shows "\<exists>outcome. run_replay files path options elapsed = Some outcome \<and> \<not> rr_stopped_early outcome \<and>
    rp_messages_processed (rr_stats outcome) = word_of_nat (length es) \<and>
    rp_sequence_failures (rr_stats outcome) = 0 \<and> rp_decode_failures (rr_stats outcome) = 0 \<and>
    manager_ok (rr_books outcome) \<and> depths (rr_books outcome) = fold feed_effect es (\<lambda>_. Map.empty)"
  by (rule replayed_feed [where files = files and path = path, OF assms])

definition sample_feed :: "Event list" where
  "sample_feed =
     [AddOrderE \<lparr>ao_sequence_number = 1, ao_timestamp_ns = 0, ao_order_id = 11, ao_instrument_id = 7, ao_price = 100,
        ao_quantity = 5, ao_side = Buy\<rparr>,
      CancelOrderE \<lparr>xo_sequence_number = 2, xo_timestamp_ns = 0, xo_order_id = 11, xo_instrument_id = 7\<rparr>]"

theorem recorded_feed_replays_completely_witness:
  "\<exists>outcome. run_replay (\<lambda>_. Some (fold event_write sample_feed [])) ''f''
      \<lparr>ro_stop_on_sequence_error = True, ro_stop_on_decode_error = True, ro_recovery_snapshot_path = None\<rparr> 0 = Some outcome \<and>
    rp_messages_processed (rr_stats outcome) = 2 \<and> depths (rr_books outcome) = (\<lambda>_. Map.empty)"
proof -
  have "in_sequence 1 (map sequence_of_event sample_feed)" by (simp add: sample_feed_def)
  from recorded_feed_replays_completely [OF this, of "\<lambda>_. Some (fold event_write sample_feed [])" "''f''"
      "\<lparr>ro_stop_on_sequence_error = True, ro_stop_on_decode_error = True, ro_recovery_snapshot_path = None\<rparr>" 0]
  show ?thesis by (auto simp: sample_feed_def Let_def fun_eq_iff)
qed

text \<open>
  Events never break the books: on sound books (well formed, positive prices and quantities) every
  event is applied without undefined behaviour, and leaves sound books.
\<close>

theorem every_event_keeps_the_books_sound:
  assumes "sound m"
  shows "\<exists>m' st'. apply_event e m st = Some (m', st') \<and> sound m' \<and> depths m' = feed_effect e (depths m)"
  by (rule apply_event_sound [OF assms])

lemma new_sound: "sound new_book_manager"
  using new_manager by (simp add: sound_def)

theorem every_event_keeps_the_books_sound_witness:
  "\<exists>m' st'. apply_event (hd sample_feed) new_book_manager new_replay_stats = Some (m', st') \<and> sound m' \<and>
     depths m' 7 11 = Some (Buy, 100, 5)"
  using every_event_keeps_the_books_sound [OF new_sound, of "hd sample_feed" new_replay_stats] new_manager(2)
  by (auto simp: sample_feed_def Let_def)

text \<open>
  C31. A snapshot is the book: reading back what \<open>write_snapshot\<close> wrote gives its sequence number and, for
  every instrument, the same orders at every price in the same queue order.
\<close>

theorem snapshot_round_trip:
  assumes "sound m" "length (manager_entries m) < 2 ^ 64"
  shows "\<exists>m'. read_snapshot (Some (write_snapshot seq m)) = Some \<lparr>sl_sequence_number = seq, sl_books = m'\<rparr> \<and> manager_ok m' \<and>
    (\<forall>iid sd p. orders_on (book_at iid m') sd p = orders_on (book_at iid m) sd p)"
  by (rule snapshot_reads_back [OF assms]) blast

theorem snapshot_round_trip_witness:
  "\<exists>m'. read_snapshot (Some (write_snapshot 5 new_book_manager)) = Some \<lparr>sl_sequence_number = 5, sl_books = m'\<rparr> \<and> manager_ok m'"
proof -
  have "manager_entries new_book_manager = []" by (simp add: manager_entries_def instruments_def new_book_manager_def)
  then have "length (manager_entries new_book_manager) < 2 ^ 64" by simp
  from snapshot_round_trip [OF new_sound this] show ?thesis by blast
qed

text \<open>
  C32. Gap recovery: an event that reveals a gap, with a snapshot configured, replaces the books by the
  snapshot's and is then applied to them, whatever they were before; the next number in order is the one
  after it.
\<close>

theorem gap_recovery_restores_the_snapshot:
  assumes "v = Some prev" "sequence_of_event e > prev + 1" "prev < prev + 1" "ro_recovery_snapshot_path options = Some path"
    "files path = Some (write_snapshot seq m)" "sound m" "length (manager_entries m) < 2 ^ 64"
  shows "\<exists>oc'. apply_frame_result files options (Inr e) (v, oc) = Some (False, Some (sequence_of_event e), oc') \<and>
    manager_ok (rr_books oc') \<and> depths (rr_books oc') = feed_effect e (depths m)"
proof -
  have "sc_outcome (fst (check (sequence_of_event e) v)) = Missing"
    using assms(1,2,3) by (auto simp: check_def not_less dest: less_trans)
  then show ?thesis
    by (rule frame_gap_recovered [where files = files and path = path, OF _ assms(4-7)]) blast
qed

theorem gap_recovery_restores_the_snapshot_witness:
  "\<exists>oc'. apply_frame_result (\<lambda>_. Some (write_snapshot 5 new_book_manager))
      \<lparr>ro_stop_on_sequence_error = True, ro_stop_on_decode_error = True, ro_recovery_snapshot_path = Some ''s''\<rparr>
      (Inr sample_trade_event) (Some 5, new_replay_result) = Some (False, Some 9, oc') \<and> depths (rr_books oc') = (\<lambda>_. Map.empty)"
proof -
  have "manager_entries new_book_manager = []" by (simp add: manager_entries_def instruments_def new_book_manager_def)
  then have "length (manager_entries new_book_manager) < 2 ^ 64" by simp
  from gap_recovery_restores_the_snapshot [OF refl _ _ _ _ new_sound this, where prev = 5 and e = sample_trade_event and seq = 5
      and options = "\<lparr>ro_stop_on_sequence_error = True, ro_stop_on_decode_error = True, ro_recovery_snapshot_path = Some ''s''\<rparr>"
      and path = "''s''" and files = "\<lambda>_. Some (write_snapshot 5 new_book_manager)" and oc = new_replay_result]
  show ?thesis using new_manager(2) by (auto simp: sample_trade_event_def)
qed

text \<open>
  A repeated message is not filtered when the replay is told to go on after sequence errors, as the
  live subscriber tells it: a trade whose sequence number was just seen is counted in the statistics again.
\<close>

theorem repeated_trade_is_counted_again:
  assumes "\<not> ro_stop_on_sequence_error options" "ro_recovery_snapshot_path options = None" "v = Some (td_sequence_number t)"
    "bm_stats (rr_books oc) (td_instrument_id t) = Some s"
  shows "\<exists>oc'. apply_frame_result files options (Inr (TradeE t)) (v, oc) = Some (False, v, oc') \<and>
    map_option is_trade_count (bm_stats (rr_books oc') (td_instrument_id t)) = Some (is_trade_count s + 1)"
  using assms by (simp add: apply_frame_result_def check_def apply_now_def record_trade_def Let_def)

theorem repeated_trade_is_counted_again_witness:
  "\<exists>oc'. apply_frame_result (\<lambda>_. None)
      \<lparr>ro_stop_on_sequence_error = False, ro_stop_on_decode_error = False, ro_recovery_snapshot_path = None\<rparr> (Inr (TradeE
        \<lparr>td_sequence_number = 9, td_timestamp_ns = 1, td_instrument_id = 7, td_price = 100, td_quantity = 3, td_aggressor_side = Buy\<rparr>))
      (Some 9, new_replay_result\<lparr>rr_books := record_trade 7 100 3 new_book_manager\<rparr>) = Some (False, Some 9, oc') \<and>
    map_option is_trade_count (bm_stats (rr_books oc') 7) = Some 2"
  using repeated_trade_is_counted_again [of "\<lparr>ro_stop_on_sequence_error = False, ro_stop_on_decode_error = False, ro_recovery_snapshot_path = None\<rparr>"
      "Some 9" "\<lparr>td_sequence_number = 9, td_timestamp_ns = 1, td_instrument_id = 7, td_price = 100, td_quantity = 3, td_aggressor_side = Buy\<rparr>"
      "new_replay_result\<lparr>rr_books := record_trade 7 100 3 new_book_manager\<rparr>"
      "\<lparr>is_trade_count = 1, is_traded_quantity = 3, is_last_trade_price = 100\<rparr>" "\<lambda>_. None"]
  by (simp add: record_trade_def new_book_manager_def)

end
