(* ===== verification/MarketDataFeed.thy ===== *)
theory MarketDataFeed
  imports ReferenceExchange FeedReplay
begin

text \<open>
  The publisher (exchange/market_data/market_data_publisher) and what a subscriber can know: each public
  event of the engine becomes one wire message, numbered by the publisher. \<open>quotes\<close> is the set of resting
  orders as the feed shows them, without accounts; the lemmas say that applying the published messages of a
  command to the quotes before it gives the quotes after it.
\<close>

section \<open>The publisher\<close>

record MarketDataPublisher =
  pb_next_sequence :: Sequence

definition new_market_data_publisher :: MarketDataPublisher where
  "new_market_data_publisher = \<lparr>pb_next_sequence = 1\<rparr>"

definition next_sequence_number :: "MarketDataPublisher \<Rightarrow> Sequence \<times> MarketDataPublisher" where
  "next_sequence_number pub = (pb_next_sequence pub, pub\<lparr>pb_next_sequence := pb_next_sequence pub + 1\<rparr>)"

text \<open>\<open>clock\<close> is \<open>options_.clock\<close>: the time it reads when the message of a given number is stamped.\<close>

definition publish_book_order_added :: "(Sequence \<Rightarrow> u64) \<Rightarrow> BookOrderAdded \<Rightarrow> MarketDataPublisher \<Rightarrow> Event \<times> MarketDataPublisher" where
  "publish_book_order_added clock event pub =
     (let (n, pub) = next_sequence_number pub
      in (AddOrderE \<lparr>ao_sequence_number = n, ao_timestamp_ns = clock n, ao_order_id = ba_exchange_order_id event,
            ao_instrument_id = ba_instrument_id event, ao_price = ba_price event, ao_quantity = ba_quantity event,
            ao_side = ba_side event\<rparr>, pub))"

definition publish_book_order_reduced :: "(Sequence \<Rightarrow> u64) \<Rightarrow> BookOrderReduced \<Rightarrow> MarketDataPublisher \<Rightarrow> Event \<times> MarketDataPublisher" where
  "publish_book_order_reduced clock event pub =
     (let (n, pub) = next_sequence_number pub
      in (ModifyOrderE \<lparr>mo_sequence_number = n, mo_timestamp_ns = clock n, mo_order_id = br_exchange_order_id event,
            mo_instrument_id = br_instrument_id event, mo_new_price = br_price event,
            mo_new_quantity = br_new_remaining_quantity event\<rparr>, pub))"

definition publish_book_order_removed :: "(Sequence \<Rightarrow> u64) \<Rightarrow> BookOrderRemoved \<Rightarrow> MarketDataPublisher \<Rightarrow> Event \<times> MarketDataPublisher" where
  "publish_book_order_removed clock event pub =
     (let (n, pub) = next_sequence_number pub
      in (CancelOrderE \<lparr>xo_sequence_number = n, xo_timestamp_ns = clock n, xo_order_id = bx_exchange_order_id event,
            xo_instrument_id = bx_instrument_id event\<rparr>, pub))"

definition publish_trade_executed :: "(Sequence \<Rightarrow> u64) \<Rightarrow> TradeExecuted \<Rightarrow> MarketDataPublisher \<Rightarrow> Event \<times> MarketDataPublisher" where
  "publish_trade_executed clock event pub =
     (let (n, pub) = next_sequence_number pub
      in (TradeE \<lparr>td_sequence_number = n, td_timestamp_ns = clock n, td_instrument_id = te_instrument_id event,
            td_price = te_price event, td_quantity = te_quantity event, td_aggressor_side = te_aggressor_side event\<rparr>, pub))"

text \<open>The messages handed to the sink: none or one.\<close>

definition sent :: "Event \<times> MarketDataPublisher \<Rightarrow> Event list \<times> MarketDataPublisher" where
  "sent r = ([fst r], snd r)"

fun publish :: "(Sequence \<Rightarrow> u64) \<Rightarrow> ExchangeEvent \<Rightarrow> MarketDataPublisher \<Rightarrow> Event list \<times> MarketDataPublisher" where
  "publish clock (EvAdded e) pub = sent (publish_book_order_added clock e pub)"
| "publish clock (EvReduced e) pub = sent (publish_book_order_reduced clock e pub)"
| "publish clock (EvRemoved e) pub = sent (publish_book_order_removed clock e pub)"
| "publish clock (EvTrade e) pub = sent (publish_trade_executed clock e pub)"
| "publish clock (EvAccepted e) pub = ([], pub)"
| "publish clock (EvRejected e) pub = ([], pub)"
| "publish clock (EvCancelled e) pub = ([], pub)"
| "publish clock (EvReplaced e) pub = ([], pub)"

fun publish_all :: "(Sequence \<Rightarrow> u64) \<Rightarrow> ExchangeEvent list \<Rightarrow> MarketDataPublisher \<Rightarrow> Event list \<times> MarketDataPublisher" where
  \<comment> \<open>the publisher as the event sink of a run\<close>
  "publish_all clock [] pub = ([], pub)"
| "publish_all clock (e # es) pub =
     (case publish clock e pub of (m, pub1) \<Rightarrow>
      case publish_all clock es pub1 of (ms, pub2) \<Rightarrow> (m @ ms, pub2))"

section \<open>What the messages do to the depth\<close>

type_synonym Quotes = "ExchangeOrderId \<rightharpoonup> Side \<times> Price \<times> Quantity"

fun quote_effect :: "ExchangeEvent \<Rightarrow> Quotes \<Rightarrow> Quotes" where
  "quote_effect (EvAdded e) q =
     (if 0 < sint (ba_price e) \<and> ba_quantity e \<noteq> 0 \<and> q (ba_exchange_order_id e) = None
      then q(ba_exchange_order_id e \<mapsto> (ba_side e, ba_price e, ba_quantity e)) else q)"
| "quote_effect (EvReduced e) q =
     (case q (br_exchange_order_id e) of
        None \<Rightarrow> q
      | Some (sd, _, _) \<Rightarrow>
          if 0 < sint (br_price e) \<and> br_new_remaining_quantity e \<noteq> 0
          then q(br_exchange_order_id e \<mapsto> (sd, br_price e, br_new_remaining_quantity e)) else q)"
| "quote_effect (EvRemoved e) q = q(bx_exchange_order_id e := None)"
| "quote_effect _ q = q"

fun instrument_of :: "ExchangeEvent \<Rightarrow> InstrumentId" where
  "instrument_of (EvAccepted e) = oa_instrument_id e"
| "instrument_of (EvRejected e) = or_instrument_id e"
| "instrument_of (EvCancelled e) = oc_instrument_id e"
| "instrument_of (EvReplaced e) = op_instrument_id e"
| "instrument_of (EvTrade e) = te_instrument_id e"
| "instrument_of (EvAdded e) = ba_instrument_id e"
| "instrument_of (EvReduced e) = br_instrument_id e"
| "instrument_of (EvRemoved e) = bx_instrument_id e"

lemmas publisher_defs = next_sequence_number_def publish_book_order_added_def publish_book_order_reduced_def
  publish_book_order_removed_def publish_trade_executed_def sent_def

lemma published_effect:
  assumes "publish clock e pub = (m, pub')"
  shows "fold feed_effect (m) D = D(instrument_of e := quote_effect e (D (instrument_of e)))"
  using assms by (cases e) (auto simp: publisher_defs Let_def split: option.splits)

lemma published_number:
  assumes "publish clock e pub = (m, pub')"
  shows "in_sequence (pb_next_sequence pub) (map sequence_of_event (m @ ms)) \<longleftrightarrow>
    in_sequence (pb_next_sequence pub') (map sequence_of_event ms)"
  using assms by (cases e) (auto simp: publisher_defs Let_def)

lemma published_in_sequence: "in_sequence (pb_next_sequence pub) (map sequence_of_event (fst (publish_all clock es pub)))"
proof (induction es arbitrary: pub)
  case (Cons e es)
  obtain m pub1 where m: "publish clock e pub = (m, pub1)" by (cases "publish clock e pub")
  then show ?case using published_number [OF m] Cons [of pub1] by (simp add: split_beta)
qed simp

lemma publish_all_append:
  "publish_all clock (es @ fs) pub =
     (let (ms, pub1) = publish_all clock es pub; (ns, pub2) = publish_all clock fs pub1 in (ms @ ns, pub2))"
  by (induction es arbitrary: pub) (simp_all add: split_beta Let_def)

lemma published_run_effect:
  "fold feed_effect (fst (publish_all clock es pub)) D = fold (\<lambda>e D. D(instrument_of e := quote_effect e (D (instrument_of e)))) es D"
proof (induction es arbitrary: pub D)
  case (Cons e es)
  obtain m pub1 where m: "publish clock e pub = (m, pub1)" by (cases "publish clock e pub")
  then show ?case using Cons [of pub1] published_effect [OF m, of D] by (simp add: split_beta)
qed simp

lemma one_instrument_effect:
  assumes "\<forall>e \<in> set es. instrument_of e = i"
  shows "fold (\<lambda>e D. D(instrument_of e := quote_effect e (D (instrument_of e)))) es D = D(i := fold quote_effect es (D i))"
  using assms by (induction es arbitrary: D) simp_all

section \<open>The quotes of an exchange\<close>

definition quote :: "BookOrder \<Rightarrow> ExchangeOrderId \<times> Side \<times> Price \<times> Quantity" where
  "quote b = (bo_exchange_order_id b, bo_side b, bo_price b, bo_remaining_quantity b)"

definition all_orders :: "(Side \<Rightarrow> BookOrder list) \<Rightarrow> BookOrder list" where
  "all_orders v = v Buy @ v Sell"

definition quotes :: "(Side \<Rightarrow> BookOrder list) \<Rightarrow> Quotes" where
  "quotes v = map_of (map quote (all_orders v))"

definition standing :: "ExchangeOrderId \<Rightarrow> Side \<Rightarrow> BookOrder \<Rightarrow> bool" where
  \<comment> \<open>an order of a book side, older than the next id \<open>n\<close>\<close>
  "standing n sd b \<longleftrightarrow> bo_side b = sd \<and> 0 < sint (bo_price b) \<and> bo_remaining_quantity b \<noteq> 0 \<and> bo_exchange_order_id b < n"

definition sides_ok :: "ExchangeOrderId \<Rightarrow> (Side \<Rightarrow> BookOrder list) \<Rightarrow> bool" where
  "sides_ok n v \<longleftrightarrow> distinct (map bo_exchange_order_id (all_orders v)) \<and> distinct (map key_of (all_orders v)) \<and>
     (\<forall>sd. \<forall>b \<in> set (v sd). standing n sd b)"

lemma in_all_orders: "b \<in> set (all_orders v) \<longleftrightarrow> (\<exists>sd. b \<in> set (v sd))"
  unfolding all_orders_def by (metis Side.exhaust Un_iff set_append)

lemma fst_quote [simp]: "fst \<circ> quote = bo_exchange_order_id"
  by (auto simp: quote_def)

lemma option_eqI: "(\<And>y. a = Some y \<longleftrightarrow> b = Some y) \<Longrightarrow> a = b"
  by (metis not_Some_eq)

lemma quotes_iff:
  assumes "distinct (map bo_exchange_order_id (all_orders v))"
  shows "quotes v x = Some y \<longleftrightarrow> (\<exists>sd. \<exists>b \<in> set (v sd). quote b = (x, y))"
proof -
  have "quotes v x = Some y \<longleftrightarrow> (x, y) \<in> set (map quote (all_orders v))"
    unfolding quotes_def by (rule map_of_eq_Some_iff) (simp add: assms)
  also have "\<dots> \<longleftrightarrow> (\<exists>b \<in> set (all_orders v). quote b = (x, y))" by force
  finally show ?thesis unfolding Bex_def in_all_orders by blast
qed

lemma quotes_eqI:
  assumes "distinct (map bo_exchange_order_id (all_orders v))"
    "\<And>x y. m x = Some y \<longleftrightarrow> (\<exists>sd. \<exists>b \<in> set (v sd). quote b = (x, y))"
  shows "m = quotes v"
  by (rule ext, rule option_eqI) (simp only: assms(2) quotes_iff [OF assms(1)])

lemma sides_okD:
  assumes "sides_ok n v"
  shows "distinct (map bo_exchange_order_id (all_orders v))" "distinct (map key_of (all_orders v))"
    "b \<in> set (v sd) \<Longrightarrow> standing n sd b"
  using assms by (simp_all add: sides_ok_def)

lemma same_order:
  assumes "sides_ok n v" "b \<in> set (v sd)" "c \<in> set (v sd')" "bo_exchange_order_id b = bo_exchange_order_id c \<or> key_of b = key_of c"
  shows "b = c"
proof -
  have "b \<in> set (all_orders v)" "c \<in> set (all_orders v)" using assms(2,3) by (auto simp: in_all_orders)
  then show ?thesis using sides_okD(1,2) [OF assms(1)] assms(4) unfolding distinct_map inj_on_def by blast
qed

lemma quotes_order:
  "sides_ok n v \<Longrightarrow> b \<in> set (v sd) \<Longrightarrow> quotes v (bo_exchange_order_id b) = Some (bo_side b, bo_price b, bo_remaining_quantity b)"
  by (subst quotes_iff) (auto simp: quote_def dest: sides_okD(1))

lemma quotes_fresh: "sides_ok n v \<Longrightarrow> quotes v n = None"
proof (rule ccontr)
  assume ok: "sides_ok n v" and "quotes v n \<noteq> None"
  then obtain y where "quotes v n = Some y" by auto
  then obtain sd b where "b \<in> set (v sd)" "bo_exchange_order_id b = n"
    using quotes_iff [OF sides_okD(1) [OF ok]] by (auto simp: quote_def)
  then show False using sides_okD(3) [OF ok] by (auto simp: standing_def)
qed

text \<open>Distinctness survives taking orders out, editing one and adding a new one.\<close>

lemma all_orders_map: "all_orders (\<lambda>sd. map g (v sd)) = map g (all_orders v)"
  by (simp add: all_orders_def)

lemma all_orders_filter: "all_orders (\<lambda>sd. filter P (v sd)) = filter P (all_orders v)"
  by (simp add: all_orders_def)

lemma sides_ok_filter:
  assumes "sides_ok n v"
  shows "sides_ok n (\<lambda>sd. filter P (v sd))"
  using assms unfolding sides_ok_def all_orders_filter by (auto intro: distinct_map_filter)

lemma sides_ok_mono: "sides_ok n v \<Longrightarrow> n \<le> n' \<Longrightarrow> sides_ok n' v"
  unfolding sides_ok_def standing_def using less_le_trans by blast

lemma quotes_filter:
  assumes "sides_ok n v" "b \<in> set (v sd)" "\<And>c. P c \<longleftrightarrow> key_of c \<noteq> key_of b"
  shows "(quotes v)(bo_exchange_order_id b := None) = quotes (\<lambda>sd. filter P (v sd))"
proof (rule quotes_eqI [OF sides_okD(1) [OF sides_ok_filter [OF assms(1)]]])
  fix x y
  note q = quotes_iff [OF sides_okD(1) [OF assms(1)], of x y]
  have k: "P c \<longleftrightarrow> bo_exchange_order_id c \<noteq> bo_exchange_order_id b" if "c \<in> set (v sd')" for c sd'
    using same_order [OF assms(1) that assms(2)] assms(3) by auto
  show "((quotes v)(bo_exchange_order_id b := None)) x = Some y \<longleftrightarrow> (\<exists>sd. \<exists>c \<in> set (filter P (v sd)). quote c = (x, y))"
    using q k by (auto simp: quote_def)
qed

lemma open_order_in:
  assumes "open_order k v = Some b"
  obtains sd where "b \<in> set (v sd)" "key_of b = k"
proof -
  have "b \<in> set (all_orders v) \<and> key_of b = k"
    using assms unfolding open_order_def all_orders_def find_Some_iff by (metis nth_mem)
  then show thesis using that by (auto simp: in_all_orders)
qed

lemma distinct_map_edit:
  assumes d: "distinct (map f xs)" and g: "\<And>c. c \<in> set xs \<Longrightarrow> g c = (if c = b then b' else c)"
    and f: "f b' = f b \<or> f b' \<notin> f ` set xs"
  shows "distinct (map f (map g xs))"
proof -
  have "inj_on (f \<circ> g) (set xs)"
  proof (rule inj_onI)
    fix c e
    assume c: "c \<in> set xs" "e \<in> set xs" and eq: "(f \<circ> g) c = (f \<circ> g) e"
    have inj: "inj_on f (set xs)" using d by (simp add: distinct_map)
    show "c = e"
      using eq c g [OF c(1)] g [OF c(2)] f inj by (cases "c = b"; cases "e = b") (auto simp: inj_on_def image_iff)
  qed
  then show ?thesis using d by (simp add: distinct_map comp_inj_on_iff)
qed

lemma sides_ok_edit:
  assumes ok: "sides_ok n v" and b: "b \<in> set (v sd)" and q: "q \<noteq> 0"
    and k: "key_of b = key_of b' \<or> (\<forall>sd. \<forall>c \<in> set (v sd). key_of c \<noteq> key_of b')"
    and b': "bo_exchange_order_id b' = bo_exchange_order_id b" "bo_side b' = bo_side b" "bo_price b' = bo_price b" "bo_remaining_quantity b' = q"
    and g: "\<And>c. g c = (if key_of c = key_of b then b' else c)"
  shows "sides_ok n (\<lambda>sd. map g (v sd))" "quotes (\<lambda>sd. map g (v sd)) = (quotes v)(bo_exchange_order_id b \<mapsto> (bo_side b, bo_price b, q))"
proof -
  have eq: "key_of c = key_of b \<longleftrightarrow> c = b" "bo_exchange_order_id c = bo_exchange_order_id b \<longleftrightarrow> c = b" if "c \<in> set (v sd')" for c sd'
    using same_order [OF ok that b] by auto
  have g': "g c = (if c = b then b' else c)" if "c \<in> set (v sd')" for c sd' using g eq(1) [OF that] by simp
  have g2: "g c = (if c = b then b' else c)" if "c \<in> set (all_orders v)" for c using that g' by (auto simp: in_all_orders)
  have "distinct (map bo_exchange_order_id (map g (all_orders v)))"
    by (rule distinct_map_edit [OF sides_okD(1) [OF ok] g2]) (simp_all add: b'(1))
  moreover have "key_of b' = key_of b \<or> key_of b' \<notin> key_of ` set (all_orders v)"
    using k unfolding image_iff in_all_orders Bex_def by metis
  then have "distinct (map key_of (map g (all_orders v)))"
    by (intro distinct_map_edit [OF sides_okD(2) [OF ok] g2])
  moreover have "standing n sd (g c)" if "c \<in> set (v sd)" for c sd
    using g' [OF that] sides_okD(3) [OF ok that] sides_okD(3) [OF ok b] b' q by (auto simp: standing_def)
  ultimately show ok': "sides_ok n (\<lambda>sd. map g (v sd))" unfolding sides_ok_def all_orders_map by auto
  show "quotes (\<lambda>sd. map g (v sd)) = (quotes v)(bo_exchange_order_id b \<mapsto> (bo_side b, bo_price b, q))"
  proof (rule quotes_eqI [OF sides_okD(1) [OF ok'], symmetric])
    fix x y
    note q = quotes_iff [OF sides_okD(1) [OF ok], of x y]
    have bb: "bo_exchange_order_id (g c) = bo_exchange_order_id b \<longleftrightarrow> g c = b'" if "c \<in> set (v sd')" for c sd'
      using eq(2) [OF that] g' [OF that] b'(1) by auto
    have gb: "g b = b'" by (simp add: g)
    show "((quotes v)(bo_exchange_order_id b \<mapsto> (bo_side b, bo_price b, q))) x = Some y \<longleftrightarrow>
        (\<exists>sd. \<exists>c \<in> set (map g (v sd)). quote c = (x, y))"
    proof (cases "x = bo_exchange_order_id b")
      case True
      have "(\<exists>sd. \<exists>c \<in> set (v sd). quote (g c) = (x, y)) \<longleftrightarrow> quote b' = (x, y)"
        using bb b gb b'(1) True by (auto simp: quote_def intro!: exI [of _ sd] bexI [of _ b])
      then show ?thesis using True b' by (auto simp: quote_def)
    next
      case False
      then have "(\<exists>c \<in> set (map g (v sd)). quote c = (x, y)) \<longleftrightarrow> (\<exists>c \<in> set (v sd). quote c = (x, y))" for sd
        using g' b'(1) eq(2) by (auto simp: quote_def)
      then show ?thesis using q False by simp
    qed
  qed
qed

section \<open>Taking and placing\<close>

lemma take_from_orders:
  assumes "take_from sd p q bs = (ts, q', bs')" "\<forall>b \<in> set bs. standing n sd' b"
  shows "(\<exists>zs. map bo_exchange_order_id bs = zs @ map bo_exchange_order_id bs') \<and>
    (\<exists>zs. map key_of bs = zs @ map key_of bs') \<and> (\<forall>b \<in> set bs'. standing n sd' b)"
  using assms
proof (induction bs arbitrary: q ts q' bs')
  case (Cons b bs)
  obtain ts1 q1 bs1 where r: "take_from sd p (q - min q (bo_remaining_quantity b)) bs = (ts1, q1, bs1)" by (metis prod_cases3)
  have ih: "(\<exists>zs. map bo_exchange_order_id bs = zs @ map bo_exchange_order_id bs1)"
    "(\<exists>zs. map key_of bs = zs @ map key_of bs1)" "\<forall>b \<in> set bs1. standing n sd' b"
    using Cons.IH [OF r] Cons.prems(2) by auto
  have up: "\<exists>zs. x # xs = zs @ ys" if "\<exists>zs. xs = zs @ ys" for x :: 'a and xs ys :: "'a list"
    using that by (metis append_Cons)
  consider "bs' = b # bs" | "bs' = bs1" | "bs' = set_quantity (bo_remaining_quantity b - min q (bo_remaining_quantity b)) b # bs"
    "bo_remaining_quantity b - min q (bo_remaining_quantity b) \<noteq> 0"
    using Cons.prems(1) r by (auto simp: Let_def split: if_splits)
  then show ?case
  proof cases
    case 2
    then show ?thesis using ih up by auto
  qed (use Cons.prems(2) in \<open>auto simp: set_quantity_def key_of_def standing_def\<close>)
qed auto

text \<open>The fill events of what was taken turn the quotes of the taken side into those of what is left.\<close>

lemma fill_effect:
  assumes "take_from sd p q bs = (ts, q', bs')" "distinct (map bo_exchange_order_id bs)" "\<forall>b \<in> set bs. standing n sd' b"
    "\<And>b. b \<in> set bs \<Longrightarrow> m (bo_exchange_order_id b) = Some (snd (quote b))"
  shows "fold quote_effect (fill_events order cs k (map (Pair 0) ts)) m =
    (\<lambda>x. if x \<in> bo_exchange_order_id ` set bs then map_of (map quote bs') x else m x)"
  using assms
proof (induction bs arbitrary: q ts q' bs' m order k)
  case Nil
  then show ?case by auto
next
  case (Cons b bs)
  let ?t = "min q (bo_remaining_quantity b)" and ?x = "bo_exchange_order_id b"
  let ?left = "bo_remaining_quantity b - ?t"
  have sb: "standing n sd' b" "m ?x = Some (bo_side b, bo_price b, bo_remaining_quantity b)"
    using Cons.prems(3) Cons.prems(4) [of b] by (simp_all add: quote_def)
  have untouched: "map_of (map quote cs) y = m y"
    if cs: "set cs \<subseteq> set (b # bs)" "y \<in> bo_exchange_order_id ` set cs" "distinct (map bo_exchange_order_id cs)" for cs y
  proof -
    obtain c where c: "c \<in> set cs" "y = bo_exchange_order_id c" using cs(2) by auto
    have "map_of (map quote cs) y = Some (snd (quote c))"
      by (rule map_of_is_SomeI) (use cs(3) c in \<open>auto simp: quote_def image_iff\<close>)
    then show ?thesis using Cons.prems(4) [of c] c cs(1) by auto
  qed
  show ?case
  proof (cases "q = 0 \<or> \<not> crosses (contra_side sd) p (bo_price b)")
    case True
    have e: "ts = []" "bs' = b # bs" using True Cons.prems(1) by (auto split: if_splits)
    have "map_of (map quote (b # bs)) y = m y" if "y \<in> bo_exchange_order_id ` set (b # bs)" for y
      by (rule untouched) (use that Cons.prems(2) in auto)
    then show ?thesis unfolding e by (simp only: fill_events.simps list.map(1) fold_simps) (rule ext, metis)
  next
    case False
    show ?thesis
    proof (cases "?left = 0")
      case True
      obtain ts1 where r: "take_from sd p (q - ?t) bs = (ts1, q', bs')" "ts = (b, ?t) # ts1"
        using Cons.prems(1) False True by (auto simp: Let_def split: prod.splits)
      obtain zs where zs: "map bo_exchange_order_id bs = zs @ map bo_exchange_order_id bs'"
        using take_from_orders [OF r(1), of n sd'] Cons.prems(3) by auto
      have gone: "?x \<notin> bo_exchange_order_id ` set bs'"
        using Cons.prems(2) zs by (metis (no_types, lifting) Un_iff distinct.simps(2) list.simps(9) list.set_map set_append)
      have nx: "bo_exchange_order_id c \<noteq> ?x" if "c \<in> set bs" for c
        using Cons.prems(2) imageI [OF that, of bo_exchange_order_id] by auto
      have "fold quote_effect (fill_events order cs k (map (Pair 0) ts)) m =
          fold quote_effect (fill_events (order\<lparr>ro_remaining_quantity := ro_remaining_quantity order - ?t\<rparr>) cs (k + 2) (map (Pair 0) ts1)) (m(?x := None))"
        using True by (simp add: r(2) trade_event_def book_event_def Let_def)
      also have "\<dots> = (\<lambda>x. if x \<in> bo_exchange_order_id ` set bs then map_of (map quote bs') x else (m(?x := None)) x)"
        by (rule Cons.IH [OF r(1)]) (use Cons.prems nx in auto)
      also have "\<dots> = (\<lambda>x. if x \<in> bo_exchange_order_id ` set (b # bs) then map_of (map quote bs') x else m x)"
      proof -
        have "map_of (map quote bs') ?x = None" using gone by (force simp: map_of_eq_None_iff quote_def)
        then show ?thesis using Cons.prems(2) by (auto simp: fun_eq_iff)
      qed
      finally show ?thesis .
    next
      case left: False
      have r: "ts = [(b, ?t)]" "bs' = set_quantity ?left b # bs"
        using Cons.prems(1) False left by (auto simp: Let_def)
      have "map_of (map quote bs) y = m y" if "y \<in> bo_exchange_order_id ` set bs" for y
        by (rule untouched) (use that Cons.prems(2) in auto)
      then show ?thesis
        using left sb by (auto simp: r book_event_def trade_event_def Let_def standing_def quote_def set_quantity_def fun_eq_iff)
    qed
  qed
qed

lemma ex_updated:
  "(\<exists>s. \<exists>c \<in> set ((v(sd := l)) s). P c) \<longleftrightarrow> (\<exists>c \<in> set l. P c) \<or> (\<exists>s. s \<noteq> sd \<and> (\<exists>c \<in> set (v s). P c))"
  by (metis fun_upd_apply)

lemma ex_inserted:
  assumes "set l = insert b (set (v sd))"
  shows "(\<exists>s. \<exists>c \<in> set ((v(sd := l)) s). P c) \<longleftrightarrow> P b \<or> (\<exists>s. \<exists>c \<in> set (v s). P c)"
  unfolding ex_updated assms bex_simps(5) by (cases "P b") (simp_all, metis)

lemma sides_ok_taken:
  assumes ok: "sides_ok n v" and tk: "take_from sd p q (v sd') = (ts, q', bs)"
  shows "sides_ok n (v(sd' := bs))"
    "quotes (v(sd' := bs)) = (\<lambda>x. if x \<in> bo_exchange_order_id ` set (v sd') then map_of (map quote bs) x else quotes v x)"
proof -
  have st: "\<forall>b \<in> set (v sd'). standing n sd' b" using sides_okD(3) [OF ok] by blast
  obtain zs ks where z: "map bo_exchange_order_id (v sd') = zs @ map bo_exchange_order_id bs" "map key_of (v sd') = ks @ map key_of bs"
    and bs: "\<forall>b \<in> set bs. standing n sd' b" using take_from_orders [OF tk st] by blast
  have dist: "distinct (map f (all_orders (v(sd' := bs))))"
    if "distinct (map f (all_orders v))" "map f (v sd') = us @ map f bs" for f :: "BookOrder \<Rightarrow> 'c" and us
  proof -
    have "f ` set bs \<subseteq> f ` set (v sd')" using that(2) by (metis list.set_map set_append sup_ge2)
    then show ?thesis using that by (cases sd') (auto simp: all_orders_def)
  qed
  show ok': "sides_ok n (v(sd' := bs))"
    unfolding sides_ok_def using dist [OF sides_okD(1) [OF ok] z(1)] dist [OF sides_okD(2) [OF ok] z(2)] bs sides_okD(3) [OF ok] by auto
  have sub: "bo_exchange_order_id ` set bs \<subseteq> bo_exchange_order_id ` set (v sd')" using z(1) by (metis list.set_map set_append sup_ge2)
  have "distinct (map bo_exchange_order_id (v sd'))"
    using sides_okD(1) [OF ok] by (cases sd') (simp_all add: all_orders_def)
  then have db: "distinct (map fst (map quote bs))" using z(1) by simp
  show "quotes (v(sd' := bs)) = (\<lambda>x. if x \<in> bo_exchange_order_id ` set (v sd') then map_of (map quote bs) x else quotes v x)"
  proof (rule quotes_eqI [OF sides_okD(1) [OF ok'], symmetric])
    fix x y
    have q: "map_of (map quote bs) x = Some y \<longleftrightarrow> (\<exists>b \<in> set bs. quote b = (x, y))"
      using map_of_eq_Some_iff [OF db, of x y] unfolding set_map image_iff by metis
    show "(if x \<in> bo_exchange_order_id ` set (v sd') then map_of (map quote bs) x else quotes v x) = Some y \<longleftrightarrow>
        (\<exists>sd. \<exists>b \<in> set ((v(sd' := bs)) sd). quote b = (x, y))"
    proof (cases "x \<in> bo_exchange_order_id ` set (v sd')")
      case True
      then obtain c where c: "c \<in> set (v sd')" "x = bo_exchange_order_id c" by auto
      have "sd = sd'" if b: "b \<in> set (v sd)" "quote b = (x, y)" for b sd
      proof -
        have "b = c" using same_order [OF ok b(1) c(1)] b(2) c(2) by (simp add: quote_def)
        then show ?thesis using sides_okD(3) [OF ok b(1)] sides_okD(3) [OF ok c(1)] by (simp add: standing_def)
      qed
      then have "\<not> (\<exists>s. s \<noteq> sd' \<and> (\<exists>c \<in> set (v s). quote c = (x, y)))" by blast
      then show ?thesis using True q unfolding ex_updated by (simp only: simp_thms if_True)
    next
      case False
      then have "b \<notin> set bs" "b \<notin> set (v sd')" if "quote b = (x, y)" for b using sub that by (auto simp: quote_def)
      then have "(\<exists>s. \<exists>c \<in> set ((v(sd' := bs)) s). quote c = (x, y)) \<longleftrightarrow> (\<exists>s. \<exists>c \<in> set (v s). quote c = (x, y))"
        unfolding ex_updated by metis
      then show ?thesis using False quotes_iff [OF sides_okD(1) [OF ok], of x y] by simp
    qed
  qed
qed

lemma sides_ok_queued:
  assumes ok: "sides_ok n v" and n: "n < n'" and b: "standing n' sd b" "bo_exchange_order_id b = n"
    and k: "\<forall>sd. \<forall>c \<in> set (v sd). key_of c \<noteq> key_of b"
  shows "sides_ok n' (v(sd := queue_up sd b (v sd)))"
    "quotes (v(sd := queue_up sd b (v sd))) = (quotes v)(n \<mapsto> (sd, bo_price b, bo_remaining_quantity b))"
proof -
  define xs ys where "xs = takeWhile (\<lambda>c. prio sd (bo_price c) \<le> prio sd (bo_price b)) (v sd)"
    and "ys = dropWhile (\<lambda>c. prio sd (bo_price c) \<le> prio sd (bo_price b)) (v sd)"
  have v: "v sd = xs @ ys" "queue_up sd b (v sd) = xs @ [b] @ ys" by (simp_all add: xs_def ys_def queue_up_def)
  have dist: "distinct (map f (all_orders (v(sd := xs @ [b] @ ys))))"
    if "distinct (map f (all_orders v))" "f b \<notin> f ` set (all_orders v)" for f :: "BookOrder \<Rightarrow> 'c"
    using that v(1) by (cases sd) (auto simp: all_orders_def)
  have fresh: "bo_exchange_order_id c \<noteq> n" if "c \<in> set (v s)" for c s
    using sides_okD(3) [OF ok that] by (auto simp: standing_def)
  then have new: "n \<notin> bo_exchange_order_id ` set (all_orders v)" unfolding image_iff Bex_def in_all_orders by blast
  have old: "standing n' s c" if "c \<in> set (v s)" for s c
    using sides_okD(3) [OF ok that] n by (auto simp: standing_def)
  show ok': "sides_ok n' (v(sd := queue_up sd b (v sd)))"
    unfolding sides_ok_def v(2)
  proof (intro conjI allI ballI)
    show "distinct (map bo_exchange_order_id (all_orders (v(sd := xs @ [b] @ ys))))"
      by (rule dist [OF sides_okD(1) [OF ok]]) (use new b(2) in simp)
    show "distinct (map key_of (all_orders (v(sd := xs @ [b] @ ys))))"
      by (rule dist [OF sides_okD(2) [OF ok]]) (use k in \<open>auto simp: in_all_orders\<close>, metis)
    show "standing n' s c" if "c \<in> set ((v(sd := xs @ [b] @ ys)) s)" for s c
      using that old [of c s] b(1) v(1) by (auto split: if_splits)
  qed
  show "quotes (v(sd := queue_up sd b (v sd))) = (quotes v)(n \<mapsto> (sd, bo_price b, bo_remaining_quantity b))"
  proof (rule quotes_eqI [OF sides_okD(1) [OF ok'], symmetric])
    fix x y
    have b': "quote b = (n, sd, bo_price b, bo_remaining_quantity b)" using b by (simp add: quote_def standing_def)
    have "(\<exists>s. \<exists>c \<in> set ((v(sd := xs @ [b] @ ys)) s). quote c = (x, y)) \<longleftrightarrow>
        quote b = (x, y) \<or> (\<exists>s. \<exists>c \<in> set (v s). quote c = (x, y))"
    proof -
      have "set (xs @ [b] @ ys) = insert b (set (v sd))" using v(1) by auto
      then show ?thesis by (rule ex_inserted)
    qed
    moreover have "\<not> (\<exists>s. \<exists>c \<in> set (v s). quote c = (n, y))" using fresh by (auto simp: quote_def)
    ultimately show "((quotes v)(n \<mapsto> (sd, bo_price b, bo_remaining_quantity b))) x = Some y \<longleftrightarrow>
        (\<exists>s. \<exists>c \<in> set ((v(sd := queue_up sd b (v sd))) s). quote c = (x, y))"
      using quotes_iff [OF sides_okD(1) [OF ok], of x y] unfolding v(2) b' by (cases "x = n") auto
  qed
qed

lemma event_instruments [simp]:
  "instrument_of (trade_event order cs k f) = ro_instrument_id order" "instrument_of (book_event i k f) = i"
  by (simp_all add: trade_event_def book_event_def Let_def split: prod.split)

lemma fill_events_instrument: "\<forall>e \<in> set (fill_events order cs k fs). instrument_of e = ro_instrument_id order"
proof (induction fs arbitrary: order k)
  case (Cons f fs)
  show ?case using Cons [of "order\<lparr>ro_remaining_quantity := ro_remaining_quantity order - snd (snd f)\<rparr>" "k + 2"] by simp
qed simp

lemma place_effect:
  assumes ok: "sides_ok n v" and n: "n < n'" "ro_exchange_order_id order = n" and p: "0 < sint (ro_price order)"
    and k: "\<forall>sd. \<forall>c \<in> set (v sd). key_of c \<noteq> live_key (ro_account_id order) (ro_client_order_id order)"
    and pl: "place_in cs order j v = (v', evs)"
  shows "sides_ok n' v'" "fold quote_effect evs (quotes v) = quotes v'" "\<forall>e \<in> set evs. instrument_of e = ro_instrument_id order"
proof -
  let ?c = "contra_side (ro_side order)"
  obtain ts q' bs where tk: "take_from (ro_side order) (ro_price order) (ro_remaining_quantity order) (v ?c) = (ts, q', bs)" by (metis prod_cases3)
  define v1 where "v1 = v(?c := bs)"
  let ?b = "resting_of order q'"
  let ?rests = "ro_time_in_force order = GTC \<and> q' \<noteq> 0"
  have evs: "evs = fill_events order cs j (map (Pair 0) ts) @
      (if ?rests then [added_event (order\<lparr>ro_remaining_quantity := q'\<rparr>) (j + word_of_nat (2 * length ts))] else [])"
    and v': "v' = (if ?rests then v1(ro_side order := queue_up (ro_side order) ?b (v1 (ro_side order))) else v1)"
    using pl tk by (auto simp: place_in_def v1_def take_events_def placed_events_def Let_def)
  note t = sides_ok_taken [OF ok tk, folded v1_def]
  have "distinct (map bo_exchange_order_id (v ?c))"
    using sides_okD(1) [OF ok] by (cases ?c) (simp_all add: all_orders_def)
  then have f: "fold quote_effect (fill_events order cs j (map (Pair 0) ts)) (quotes v) = quotes v1"
    unfolding t(2) by (rule fill_effect [OF tk]) (use sides_okD(3) [OF ok] quotes_order [OF ok] in \<open>auto simp: quote_def\<close>)
  have keys: "\<forall>sd. \<forall>c \<in> set (v1 sd). key_of c \<noteq> key_of ?b"
  proof (intro allI ballI)
    fix sd c assume "c \<in> set (v1 sd)"
    moreover have "key_of ` set bs \<subseteq> key_of ` set (v ?c)"
      using take_from_orders [OF tk, of n ?c] sides_okD(3) [OF ok] by (metis list.set_map set_append sup_ge2)
    ultimately have "key_of c \<in> key_of ` set (v sd)" by (auto simp: v1_def split: if_splits)
    moreover have "key_of ?b = live_key (ro_account_id order) (ro_client_order_id order)" by (simp add: key_of_def resting_of_def)
    ultimately show "key_of c \<noteq> key_of ?b" using k by (metis imageE)
  qed
  have b: "standing n' (ro_side order) ?b" "bo_exchange_order_id ?b = n" if ?rests
    using that n p by (simp_all add: standing_def resting_of_def)
  show "\<forall>e \<in> set evs. instrument_of e = ro_instrument_id order"
    using fill_events_instrument [of order cs j "map (Pair 0) ts"] by (auto simp: evs added_event_def)
  have "sides_ok n' v' \<and> fold quote_effect evs (quotes v) = quotes v'"
  proof (cases ?rests)
    case True
    note q = sides_ok_queued [OF t(1) n(1) b [OF True] keys]
    then show ?thesis using True f p quotes_fresh [OF t(1)] n(2) by (simp add: evs v' added_event_def resting_of_def)
  next
    case False
    then show ?thesis using f sides_ok_mono [OF t(1)] n(1) by (auto simp: evs v')
  qed
  then show "sides_ok n' v'" "fold quote_effect evs (quotes v) = quotes v'" by simp_all
qed

section \<open>Commands\<close>

definition exchange_ok :: "Exchange \<Rightarrow> bool" where
  "exchange_ok x \<longleftrightarrow> (\<forall>i. sides_ok (xc_next_id x) (xc_book x i))"

definition market :: "Exchange \<Rightarrow> Depths" where
  "market x = (\<lambda>i. quotes (xc_book x i))"

definition shown :: "ExchangeEvent list \<Rightarrow> Depths \<Rightarrow> Depths" where
  \<comment> \<open>the depths after the public part of the events\<close>
  "shown es = fold (\<lambda>e D. D(instrument_of e := quote_effect e (D (instrument_of e)))) es"

definition mirrored :: "Exchange \<Rightarrow> Exchange \<times> ExchangeEvent list \<Rightarrow> bool" where
  "mirrored x r \<longleftrightarrow> exchange_ok (fst r) \<and> shown (snd r) (market x) = market (fst r) \<and>
     xc_next_id (fst r) \<in> {xc_next_id x, xc_next_id x + 1}"

lemma mirrored_refuse: "exchange_ok x \<Longrightarrow> mirrored x (refuse cs a c i reason x)"
  by (simp add: mirrored_def refuse_def exchange_ok_def market_def shown_def)

lemma mirrored_commit:
  assumes "exchange_ok x" "sides_ok n v" "n = xc_next_id x \<or> n = xc_next_id x + 1 \<and> xc_next_id x \<le> n"
    "\<forall>e \<in> set evs. instrument_of e = i" "fold quote_effect evs (quotes (xc_book x i)) = quotes v"
  shows "mirrored x (commit i v evs (x\<lparr>xc_next_id := n\<rparr>))"
proof -
  have "sides_ok n (xc_book x j)" for j
    using assms(1,3) sides_ok_mono [of "xc_next_id x" "xc_book x j" n] by (auto simp: exchange_ok_def)
  moreover have "shown evs (market x) = (market x)(i := quotes v)"
    unfolding shown_def one_instrument_effect [OF assms(4)] using assms(5) by (simp add: market_def)
  ultimately show ?thesis using assms(2,3)
    by (auto simp: mirrored_def commit_def exchange_ok_def market_def fun_eq_iff)
qed

lemma unat_Suc_64: "unat n + 1 < 2 ^ 64 \<Longrightarrow> unat (n + 1 :: u64) = unat n + 1"
  using unat_add_lem [of n 1] by simp

lemma not_in_book_keys: "k \<notin> book_keys v \<longleftrightarrow> (\<forall>sd. \<forall>c \<in> set (v sd). key_of c \<noteq> k)"
proof -
  have "book_keys v = key_of ` set (all_orders v)" by (auto simp: book_keys_def all_orders_def)
  then show ?thesis unfolding image_iff in_all_orders Bex_def by (simp add: image_iff Bex_def in_all_orders) metis
qed

lemma mirrored_new:
  assumes ok: "exchange_ok x" and n: "xc_next_id x < xc_next_id x + 1"
  shows "mirrored x (exchange_new cmd x)"
proof -
  let ?i = "nc_instrument_id cmd" and ?k = "live_key (nc_account_id cmd) (nc_client_order_id cmd)"
  let ?order = "\<lparr>ro_exchange_order_id = xc_next_id x, ro_client_order_id = nc_client_order_id cmd,
                   ro_account_id = nc_account_id cmd, ro_price = nc_price cmd, ro_original_quantity = nc_quantity cmd,
                   ro_remaining_quantity = nc_quantity cmd, ro_order_sequence = 0, ro_instrument_id = ?i,
                   ro_side = nc_side cmd, ro_time_in_force = nc_time_in_force cmd\<rparr>"
  obtain v' evs where pl: "place_in (nc_command_sequence cmd) ?order (xc_next_event x + 1) (xc_book x ?i) = (v', evs)" by (metis prod.exhaust)
  have placed: "mirrored x (commit ?i v' (accepted_event cmd (xc_next_id x) (xc_next_event x) # evs) (x\<lparr>xc_next_id := xc_next_id x + 1\<rparr>))"
    if "0 < sint (nc_price cmd)" "\<not> (\<exists>j. ?k \<in> book_keys (xc_book x j))"
  proof -
    have k: "\<forall>sd. \<forall>c \<in> set (xc_book x ?i sd). key_of c \<noteq> ?k"
      using that(2) not_in_book_keys by blast
    note p = place_effect [OF _ n, of "xc_book x ?i" ?order, OF _ _ _ _ pl]
    show ?thesis
      by (rule mirrored_commit [OF ok]) (use p ok that(1) k n in \<open>auto simp: exchange_ok_def accepted_event_def\<close>)
  qed
  show ?thesis
    using pl by (auto simp: exchange_new_def Let_def mirrored_refuse [OF ok] not_le placed)
qed

lemma mirrored_cancel:
  assumes ok: "exchange_ok x"
  shows "mirrored x (exchange_cancel cmd x)"
proof -
  let ?i = "cc_instrument_id cmd"
  have same: "mirrored x (commit ?i v evs x)" if "mirrored x (commit ?i v evs (x\<lparr>xc_next_id := xc_next_id x\<rparr>))" for v evs
    using that by simp
  have "mirrored x (commit ?i (\<lambda>sd. filter (\<lambda>c. key_of c \<noteq> cancel_key cmd) (xc_book x ?i sd))
      (cancelled_events cmd b (xc_next_event x)) x)" if o: "open_order (cancel_key cmd) (xc_book x ?i) = Some b" for b
  proof (rule same, rule mirrored_commit [OF ok])
    have s: "sides_ok (xc_next_id x) (xc_book x ?i)" using ok by (simp add: exchange_ok_def)
    obtain sd where b: "b \<in> set (xc_book x ?i sd)" "key_of b = cancel_key cmd" by (rule open_order_in [OF o])
    show "sides_ok (xc_next_id x) (\<lambda>sd. filter (\<lambda>c. key_of c \<noteq> cancel_key cmd) (xc_book x ?i sd))"
      by (rule sides_ok_filter [OF s])
    show "fold quote_effect (cancelled_events cmd b (xc_next_event x)) (quotes (xc_book x ?i)) =
        quotes (\<lambda>sd. filter (\<lambda>c. key_of c \<noteq> cancel_key cmd) (xc_book x ?i sd))"
      using quotes_filter [OF s b(1), of "\<lambda>c. key_of c \<noteq> cancel_key cmd"] b(2) by (simp add: cancelled_events_def)
  qed (simp_all add: cancelled_events_def)
  then show ?thesis by (simp add: exchange_cancel_def Let_def mirrored_refuse [OF ok] split: option.split)
qed

lemma mirrored_replace:
  assumes ok: "exchange_ok x" and n: "xc_next_id x < xc_next_id x + 1" and adm: "admissible (ReplaceOrderC cmd) x"
  shows "mirrored x (exchange_replace cmd x)"
proof -
  let ?i = "rc_instrument_id cmd" and ?k = "live_key (rc_account_id cmd) (rc_original_client_order_id cmd)"
  let ?k' = "live_key (rc_account_id cmd) (rc_new_client_order_id cmd)"
  let ?v = "xc_book x ?i"
  have s: "sides_ok (xc_next_id x) ?v" using ok by (simp add: exchange_ok_def)
  have free: "?k' = ?k \<or> (\<forall>sd. \<forall>c \<in> set (?v sd). key_of c \<noteq> ?k')"
    using adm not_in_book_keys by (auto simp: admissible_def Let_def)
  have same: "mirrored x (commit ?i v evs x)" if "mirrored x (commit ?i v evs (x\<lparr>xc_next_id := xc_next_id x\<rparr>))" for v evs
    using that by simp
  have in_place: "mirrored x (commit ?i (\<lambda>sd. map (\<lambda>c. if key_of c = ?k then edited_order cmd c else c) (?v sd))
      (in_place_events cmd b (xc_next_event x)) x)"
    if o: "open_order ?k ?v = Some b" and q: "rc_new_quantity cmd \<noteq> 0" for b
  proof (rule same, rule mirrored_commit [OF ok])
    obtain sd where b: "b \<in> set (?v sd)" "key_of b = ?k" by (rule open_order_in [OF o])
    let ?g = "\<lambda>c. if key_of c = ?k then edited_order cmd c else c" and ?g' = "\<lambda>c. if key_of c = key_of b then edited_order cmd b else c"
    have acc: "bo_account_id b = rc_account_id cmd" using b(2) by (simp add: key_of_def live_key_def)
    have "?g c = ?g' c" if "c \<in> set (?v s)" for c s
      using same_order [OF s that b(1)] b(2) by auto
    then have g: "(\<lambda>sd. map ?g (?v sd)) = (\<lambda>sd. map ?g' (?v sd))" by (auto simp: fun_eq_iff)
    have "key_of (edited_order cmd b) = ?k'" using acc by (simp add: key_of_def edited_order_def set_client_def set_quantity_def)
    then have k: "key_of b = key_of (edited_order cmd b) \<or> (\<forall>sd. \<forall>c \<in> set (?v sd). key_of c \<noteq> key_of (edited_order cmd b))"
      using free b(2) by metis
    note e = sides_ok_edit [OF s b(1) q k, of ?g']
    show "sides_ok (xc_next_id x) (\<lambda>sd. map ?g (?v sd))"
      unfolding g by (rule e(1)) (simp_all add: edited_order_def set_client_def set_quantity_def)
    have "quotes (\<lambda>sd. map ?g (?v sd)) = (quotes ?v)(bo_exchange_order_id b \<mapsto> (bo_side b, bo_price b, rc_new_quantity cmd))"
      unfolding g by (rule e(2)) (simp_all add: edited_order_def set_client_def set_quantity_def)
    then show "fold quote_effect (in_place_events cmd b (xc_next_event x)) (quotes ?v) = quotes (\<lambda>sd. map ?g (?v sd))"
      using quotes_order [OF s b(1)] sides_okD(3) [OF s b(1)] q by (simp add: in_place_events_def standing_def)
  qed (simp_all add: in_place_events_def)
  have anew: "mirrored x (commit ?i v' (replaced_events cmd b (xc_next_id x) (xc_next_event x) @ evs) (x\<lparr>xc_next_id := xc_next_id x + 1\<rparr>))"
    if o: "open_order ?k ?v = Some b" and p: "0 < sint (rc_new_price cmd)"
      and pl: "place_in (rc_command_sequence cmd) order (xc_next_event x + 2) (\<lambda>sd. filter (\<lambda>c. key_of c \<noteq> ?k) (?v sd)) = (v', evs)"
      and order: "ro_exchange_order_id order = xc_next_id x" "ro_price order = rc_new_price cmd" "ro_instrument_id order = ?i"
        "ro_account_id order = rc_account_id cmd" "ro_client_order_id order = rc_new_client_order_id cmd" for b v' evs order
  proof (rule mirrored_commit [OF ok])
    obtain sd where b: "b \<in> set (?v sd)" "key_of b = ?k" by (rule open_order_in [OF o])
    let ?w = "\<lambda>sd. filter (\<lambda>c. key_of c \<noteq> ?k) (?v sd)"
    have "quotes ?w = (quotes ?v)(bo_exchange_order_id b := None)"
      using quotes_filter [OF s b(1), of "\<lambda>c. key_of c \<noteq> ?k"] b(2) by simp
    moreover have "\<forall>sd. \<forall>c \<in> set (?w sd). key_of c \<noteq> live_key (ro_account_id order) (ro_client_order_id order)"
      using free by (auto simp: order)
    note e = place_effect [OF sides_ok_filter [OF s] n order(1) _ this pl]
    ultimately show "sides_ok (xc_next_id x + 1) v'"
      "fold quote_effect (replaced_events cmd b (xc_next_id x) (xc_next_event x) @ evs) (quotes ?v) = quotes v'"
      "\<forall>e \<in> set (replaced_events cmd b (xc_next_id x) (xc_next_event x) @ evs). instrument_of e = ?i"
      using e p by (auto simp: replaced_events_def order)
  qed (use n in simp)
  show ?thesis
    using in_place anew by (auto simp: exchange_replace_def Let_def mirrored_refuse [OF ok] not_le split: option.split prod.split)
qed

lemma mirrored_command:
  assumes "exchange_ok x" "xc_next_id x < xc_next_id x + 1" "admissible c x"
  shows "mirrored x (exchange_process c x)"
  using assms by (cases c) (simp_all add: mirrored_new mirrored_cancel mirrored_replace)

lemma mirrored_run:
  assumes "exchange_ok x" "admissible_run cs x" "unat (xc_next_id x) + length cs < 2 ^ 64"
  shows "exchange_ok (fst (exchange_run cs x)) \<and> shown (snd (exchange_run cs x)) (market x) = market (fst (exchange_run cs x))"
  using assms
proof (induction cs arbitrary: x)
  case Nil
  then show ?case by (simp add: shown_def)
next
  case (Cons c cs)
  have step: "unat (xc_next_id x + 1) = unat (xc_next_id x) + 1" by (rule unat_Suc_64) (use Cons.prems(3) in simp)
  then have n: "xc_next_id x < xc_next_id x + 1" by (simp add: word_less_nat_alt)
  obtain x1 evs1 where p: "exchange_process c x = (x1, evs1)" by (metis prod.exhaust)
  have m: "exchange_ok x1" "shown evs1 (market x) = market x1" "xc_next_id x1 \<in> {xc_next_id x, xc_next_id x + 1}"
    using mirrored_command [OF Cons.prems(1) n, of c] Cons.prems(2) p by (simp_all add: mirrored_def)
  have "unat (xc_next_id x1) + length cs < 2 ^ 64" using m(3) step Cons.prems(3) by auto
  then show ?case using Cons.IH [OF m(1)] Cons.prems(2) p m(2) by (auto simp: shown_def split: prod.split)
qed

lemma market_of_run:
  assumes "admissible_run cs (empty_exchange u)" "length cs < 2 ^ 64 - 1"
  obtains e evs where "engine_run cs (new_matching_engine u) = Some (e, evs)" "engine_inv e"
    "\<And>clock pub. fold feed_effect (fst (publish_all clock evs pub)) (\<lambda>_. Map.empty) = market (exchange_of e)"
proof -
  let ?x = "empty_exchange u"
  have adm: "admissible_run cs (exchange_of (new_matching_engine u))" using assms(1) by (simp add: exchange_of_new)
  obtain e where e: "engine_run cs (new_matching_engine u) = Some (e, snd (exchange_run cs ?x))" "engine_inv e"
    "exchange_of e = fst (exchange_run cs ?x)"
    by (rule run_follows [OF new_matching_engine(1) adm]) (simp add: exchange_of_new that)
  have "exchange_ok ?x" by (simp add: exchange_ok_def empty_exchange_def sides_ok_def all_orders_def)
  moreover have "market ?x = (\<lambda>_. Map.empty)" by (simp add: market_def quotes_def all_orders_def empty_exchange_def)
  moreover have "unat (xc_next_id ?x) + length cs < 2 ^ 64" using assms(2) by (simp add: empty_exchange_def)
  ultimately have "shown (snd (exchange_run cs ?x)) (\<lambda>_. Map.empty) = market (exchange_of e)"
    using mirrored_run [OF _ assms(1)] e(3) by simp
  then show thesis using that [OF e(1,2)] by (simp add: published_run_effect shown_def)
qed

lemma best_shows:
  assumes "book_ok b" "best_of sd b = Some v"
  shows "shows_level (depth b) sd v" "depth b oid = Some (sd, p, q) \<Longrightarrow> p = pv_price v \<or> price_before sd (pv_price v) p"
proof -
  have t: "hd_opt (top_of sd 1 b) = Some v" using assms(2) best_of_top [of sd b] by simp
  then obtain vs where vs: "top_of sd 1 b = v # vs" by (cases "top_of sd 1 b") (auto simp: hd_opt_def)
  then have e: "top_of sd 1 b = [v]" using top_of_levels [of sd 1 b] by (cases vs) (auto dest: arg_cong [of _ _ length])
  show "shows_level (depth b) sd v" using top_shows(2) [OF assms(1), of v sd 1] e by simp
  assume "depth b oid = Some (sd, p, q)"
  then show "p = pv_price v \<or> price_before sd (pv_price v) p" using top_shows(3) [OF assms(1), of oid sd p q 1] e by auto
qed

section \<open>Properties\<close>

text \<open>
  C7. The feed is the book: whatever admissible commands an engine processes, the messages its publisher
  sends for the events, recorded and replayed, rebuild for every instrument exactly the resting orders of
  the engine (id, side, price and remaining quantity), without an error, and the best level shown is the
  best of the engine's orders with their number and total quantity.
\<close>

theorem published_feed_rebuilds_the_books:
  assumes "admissible_run cs (empty_exchange u)" "length cs < 2 ^ 64 - 1"
  shows "\<exists>e evs outcome. engine_run cs (new_matching_engine u) = Some (e, evs) \<and>
    run_replay (\<lambda>_. Some (fold event_write (fst (publish_all clock evs new_market_data_publisher)) [])) path options elapsed = Some outcome \<and>
    \<not> rr_stopped_early outcome \<and> rp_sequence_failures (rr_stats outcome) = 0 \<and> rp_decode_failures (rr_stats outcome) = 0 \<and>
    depths (rr_books outcome) = market (exchange_of e) \<and>
    (\<forall>i sd v. best_of sd (book_at i (rr_books outcome)) = Some v \<longrightarrow> shows_level (market (exchange_of e) i) sd v \<and>
       (\<forall>oid p q. market (exchange_of e) i oid = Some (sd, p, q) \<longrightarrow> p = pv_price v \<or> price_before sd (pv_price v) p))"
proof -
  obtain e evs where e: "engine_run cs (new_matching_engine u) = Some (e, evs)"
    "\<And>clock pub. fold feed_effect (fst (publish_all clock evs pub)) (\<lambda>_. Map.empty) = market (exchange_of e)"
    by (rule market_of_run [OF assms]) (rule that)
  let ?ms = "fst (publish_all clock evs new_market_data_publisher)"
  obtain outcome where o: "run_replay (\<lambda>_. Some (fold event_write ?ms [])) path options elapsed = Some outcome"
    "\<not> rr_stopped_early outcome" "rp_sequence_failures (rr_stats outcome) = 0" "rp_decode_failures (rr_stats outcome) = 0"
    "manager_ok (rr_books outcome)" "depths (rr_books outcome) = market (exchange_of e)"
    using replayed_feed [where files = "\<lambda>_. Some (fold event_write ?ms [])" and path = path and options = options and elapsed = elapsed,
        OF published_in_sequence [of new_market_data_publisher clock evs] refl] e(2) by auto
  have "depth (book_at i (rr_books outcome)) = market (exchange_of e) i" for i using o(6) by (simp add: depths_def fun_eq_iff)
  then show ?thesis using e(1) o best_shows [OF book_at_ok [OF o(5)]] by metis
qed

theorem published_feed_rebuilds_the_books_witness:
  "\<exists>e evs outcome. engine_run [NewOrderC (sample_new Buy GTC 1 100)] (new_matching_engine [7]) = Some (e, evs) \<and>
    run_replay (\<lambda>_. Some (fold event_write (fst (publish_all (\<lambda>n. n) evs new_market_data_publisher)) [])) ''feed''
      \<lparr>ro_stop_on_sequence_error = True, ro_stop_on_decode_error = True, ro_recovery_snapshot_path = None\<rparr> 0 = Some outcome \<and>
    depths (rr_books outcome) = market (exchange_of e)"
proof -
  have "admissible_run [NewOrderC (sample_new Buy GTC 1 100)] (empty_exchange [7])"
    by (simp add: admissible_def empty_exchange_def sample_new_def sample_engine)
  from published_feed_rebuilds_the_books [OF this, where clock = "\<lambda>n. n" and path = "''feed''" and elapsed = 0
      and options = "\<lparr>ro_stop_on_sequence_error = True, ro_stop_on_decode_error = True, ro_recovery_snapshot_path = None\<rparr>"]
  show ?thesis by auto
qed

end
