(* ===== verification/JournalCodec.thy ===== *)
theory JournalCodec
  imports WireEnums
begin

text \<open>
  The command journal's frame format: \<open>src/include/exchange/persistence/command_messages.hpp\<close>,
  \<open>command_encoder.cpp\<close> and \<open>command_decoder.cpp\<close> of \<open>src/src/exchange/persistence/\<close>. A 12-byte header carries
  the type, a reserved byte, the payload size and the command sequence; besides the three commands a
  frame may register an instrument.
\<close>

section \<open>Frames\<close>

definition HEADER_SIZE :: nat where
  "HEADER_SIZE = 12"

datatype CommandMessageType = CT_NewOrder | CT_CancelOrder | CT_ReplaceOrder | CT_RegisterInstrument

record CommandHeader =
  ch_type :: CommandMessageType
  ch_payload_size :: u16
  ch_command_sequence :: CommandSequence

record RegisterInstrumentRecord =
  ri_instrument_id :: InstrumentId

datatype JournalFrame = \<comment> \<open>the two readable alternatives of \<open>DecodedFrame\<close>\<close>
    CommandF ExchangeCommand
  | RegisterF RegisterInstrumentRecord

fun payload_size_for :: "CommandMessageType \<Rightarrow> nat" where
  "payload_size_for CT_NewOrder = 8 + 8 + 4 + 1 + 8 + 8 + 1 + 1"
| "payload_size_for CT_CancelOrder = 8 + 8 + 4"
| "payload_size_for CT_ReplaceOrder = 8 + 8 + 8 + 4 + 8 + 8"
| "payload_size_for CT_RegisterInstrument = 4"

datatype CommandDecodeError =
    TruncatedHeader
  | TruncatedPayload
  | InvalidReserved
  | InvalidMessageType
  | InvalidMessageSize
  | InvalidSide
  | InvalidOrderType
  | InvalidTimeInForce

section \<open>Encoder\<close>

fun raw_of_type :: "CommandMessageType \<Rightarrow> u8" where
  "raw_of_type CT_NewOrder = 1"
| "raw_of_type CT_CancelOrder = 2"
| "raw_of_type CT_ReplaceOrder = 3"
| "raw_of_type CT_RegisterInstrument = 4"

definition put_header :: "CommandMessageType \<Rightarrow> CommandSequence \<Rightarrow> u16 \<Rightarrow> byte list \<Rightarrow> byte list" where
  "put_header type command_sequence payload_size out =
     (let out = put_u8 (raw_of_type type) out;
          out = put_u8 0 out;
          out = put_u16 payload_size out;
          out = put_u64 command_sequence out
      in out)"

fun encode_command :: "ExchangeCommand \<Rightarrow> byte list \<Rightarrow> byte list" where
  "encode_command (NewOrderC cmd) out =
    (let out = put_header CT_NewOrder (nc_command_sequence cmd) (word_of_nat (payload_size_for CT_NewOrder)) out;
         out = put_u64 (nc_account_id cmd) out;
         out = put_u64 (nc_client_order_id cmd) out;
         out = put_u32 (nc_instrument_id cmd) out;
         out = put_side (nc_side cmd) out;
         out = put_i64 (nc_price cmd) out;
         out = put_u64 (nc_quantity cmd) out;
         out = put_order_type (nc_order_type cmd) out;
         out = put_time_in_force (nc_time_in_force cmd) out
     in out)"
| "encode_command (CancelOrderC cmd) out =
    (let out = put_header CT_CancelOrder (cc_command_sequence cmd) (word_of_nat (payload_size_for CT_CancelOrder)) out;
         out = put_u64 (cc_account_id cmd) out;
         out = put_u64 (cc_client_order_id cmd) out;
         out = put_u32 (cc_instrument_id cmd) out
     in out)"
| "encode_command (ReplaceOrderC cmd) out =
    (let out = put_header CT_ReplaceOrder (rc_command_sequence cmd) (word_of_nat (payload_size_for CT_ReplaceOrder)) out;
         out = put_u64 (rc_account_id cmd) out;
         out = put_u64 (rc_original_client_order_id cmd) out;
         out = put_u64 (rc_new_client_order_id cmd) out;
         out = put_u32 (rc_instrument_id cmd) out;
         out = put_i64 (rc_new_price cmd) out;
         out = put_u64 (rc_new_quantity cmd) out
     in out)"

definition encode_register_instrument :: "InstrumentId \<Rightarrow> byte list \<Rightarrow> byte list" where
  "encode_register_instrument instrument_id out =
     (let out = put_header CT_RegisterInstrument 0 (word_of_nat (payload_size_for CT_RegisterInstrument)) out;
          out = put_u32 instrument_id out
      in out)"

section \<open>Decoder\<close>

definition is_known_type :: "u8 \<Rightarrow> bool" where
  "is_known_type raw \<longleftrightarrow> raw \<in> {1, 2, 3, 4}"

definition type_of_raw :: "u8 \<Rightarrow> CommandMessageType" where
  \<comment> \<open>\<open>static_cast\<close> from a checked byte\<close>
  "type_of_raw raw =
     (if raw = 1 then CT_NewOrder else if raw = 2 then CT_CancelOrder else if raw = 3 then CT_ReplaceOrder
      else CT_RegisterInstrument)"

definition decode_command_header :: "byte list \<Rightarrow> CommandDecodeError + CommandHeader" where
  "decode_command_header data =
     (if length data < HEADER_SIZE then Inl TruncatedHeader
      else
        let (jc_type_raw, r) = get_u8 (byte_reader (take HEADER_SIZE data));
            (reserved, r) = get_u8 r;
            (payload_size, r) = get_u16 r;
            (command_sequence, r) = get_u64 r
        in case do { jc_type_raw \<leftarrow> jc_type_raw; reserved \<leftarrow> reserved; payload_size \<leftarrow> payload_size;
                     command_sequence \<leftarrow> command_sequence; Some (jc_type_raw, reserved, payload_size, command_sequence) } of
             None \<Rightarrow> Inl TruncatedHeader
           | Some (jc_type_raw, reserved, payload_size, command_sequence) \<Rightarrow>
               if reserved \<noteq> 0 then Inl InvalidReserved
               else if \<not> is_known_type jc_type_raw then Inl InvalidMessageType
               else Inr \<lparr>ch_type = type_of_raw jc_type_raw, ch_payload_size = payload_size,
                         ch_command_sequence = command_sequence\<rparr>)"

text \<open>The cases of \<open>decode_journal_frame\<close>'s switch.\<close>

definition decode_nc :: "CommandHeader \<Rightarrow> ByteReader \<Rightarrow> CommandDecodeError + JournalFrame" where
  "decode_nc header r0 =
     (let (account_id, r) = get_u64 r0;
          (client_order_id, r) = get_u64 r;
          (instrument_id, r) = get_u32 r;
          (side_raw, r) = get_u8 r;
          (price, r) = get_i64 r;
          (quantity, r) = get_u64 r;
          (order_type_raw, r) = get_u8 r;
          (tif_raw, r) = get_u8 r
      in case do { account_id \<leftarrow> account_id; client_order_id \<leftarrow> client_order_id;
                   instrument_id \<leftarrow> instrument_id; side_raw \<leftarrow> side_raw; price \<leftarrow> price;
                   quantity \<leftarrow> quantity; order_type_raw \<leftarrow> order_type_raw;
                   tif_raw \<leftarrow> tif_raw;
                   Some (account_id, client_order_id, instrument_id, side_raw, price, quantity, order_type_raw, tif_raw) } of
           None \<Rightarrow> Inl TruncatedPayload
         | Some (account_id, client_order_id, instrument_id, side_raw, price, quantity, order_type_raw, tif_raw) \<Rightarrow>
             if \<not> is_valid_side side_raw then Inl InvalidSide
             else if \<not> is_valid_order_type order_type_raw then Inl InvalidOrderType
             else if \<not> is_valid_time_in_force tif_raw then Inl InvalidTimeInForce
             else Inr (CommandF (NewOrderC \<lparr>nc_command_sequence = ch_command_sequence header, nc_account_id = account_id,
                    nc_client_order_id = client_order_id, nc_instrument_id = instrument_id,
                    nc_side = side_of_raw side_raw, nc_price = price, nc_quantity = quantity,
                    nc_order_type = order_type_of_raw order_type_raw, nc_time_in_force = time_in_force_of_raw tif_raw\<rparr>)))"

definition decode_cc :: "CommandHeader \<Rightarrow> ByteReader \<Rightarrow> CommandDecodeError + JournalFrame" where
  "decode_cc header r0 =
     (let (account_id, r) = get_u64 r0;
          (client_order_id, r) = get_u64 r;
          (instrument_id, r) = get_u32 r
      in case do { account_id \<leftarrow> account_id; client_order_id \<leftarrow> client_order_id;
                   instrument_id \<leftarrow> instrument_id; Some (account_id, client_order_id, instrument_id) } of
           None \<Rightarrow> Inl TruncatedPayload
         | Some (account_id, client_order_id, instrument_id) \<Rightarrow>
             Inr (CommandF (CancelOrderC \<lparr>cc_command_sequence = ch_command_sequence header, cc_account_id = account_id,
                    cc_client_order_id = client_order_id, cc_instrument_id = instrument_id\<rparr>)))"

definition decode_rc :: "CommandHeader \<Rightarrow> ByteReader \<Rightarrow> CommandDecodeError + JournalFrame" where
  "decode_rc header r0 =
     (let (account_id, r) = get_u64 r0;
          (original_client_order_id, r) = get_u64 r;
          (new_client_order_id, r) = get_u64 r;
          (instrument_id, r) = get_u32 r;
          (new_price, r) = get_i64 r;
          (new_quantity, r) = get_u64 r
      in case do { account_id \<leftarrow> account_id; original_client_order_id \<leftarrow> original_client_order_id;
                   new_client_order_id \<leftarrow> new_client_order_id; instrument_id \<leftarrow> instrument_id;
                   new_price \<leftarrow> new_price; new_quantity \<leftarrow> new_quantity;
                   Some (account_id, original_client_order_id, new_client_order_id, instrument_id, new_price, new_quantity) } of
           None \<Rightarrow> Inl TruncatedPayload
         | Some (account_id, original_client_order_id, new_client_order_id, instrument_id, new_price, new_quantity) \<Rightarrow>
             Inr (CommandF (ReplaceOrderC \<lparr>rc_command_sequence = ch_command_sequence header, rc_account_id = account_id,
                    rc_original_client_order_id = original_client_order_id,
                    rc_new_client_order_id = new_client_order_id, rc_instrument_id = instrument_id,
                    rc_new_price = new_price, rc_new_quantity = new_quantity\<rparr>)))"

definition decode_ri :: "CommandHeader \<Rightarrow> ByteReader \<Rightarrow> CommandDecodeError + JournalFrame" where
  "decode_ri header r0 =
     (let (instrument_id, r) = get_u32 r0
      in case instrument_id of
           None \<Rightarrow> Inl TruncatedPayload
         | Some instrument_id \<Rightarrow>
             Inr (RegisterF \<lparr>ri_instrument_id = instrument_id\<rparr>))"

definition decode_journal_frame :: "byte list \<Rightarrow> CommandDecodeError + JournalFrame" where
  "decode_journal_frame data =
     (case decode_command_header data of
        Inl e \<Rightarrow> Inl e
      | Inr header \<Rightarrow>
          if unat (ch_payload_size header) \<noteq> payload_size_for (ch_type header) then Inl InvalidMessageSize
          else if length data < HEADER_SIZE + unat (ch_payload_size header) then Inl TruncatedPayload
          else
            let r = byte_reader (take (unat (ch_payload_size header)) (drop HEADER_SIZE data))
            in case ch_type header of
                 CT_NewOrder \<Rightarrow> decode_nc header r
               | CT_CancelOrder \<Rightarrow> decode_cc header r
               | CT_ReplaceOrder \<Rightarrow> decode_rc header r
               | CT_RegisterInstrument \<Rightarrow> decode_ri header r)"

section \<open>Round trip\<close>

text \<open>
  A register frame always carries sequence 0, and the decoder does not look at it: the frames the writer
  produces are canonical, but a register frame with another sequence is read too.
\<close>

fun encode_frame :: "JournalFrame \<Rightarrow> byte list \<Rightarrow> byte list" where
  "encode_frame (CommandF c) out = encode_command c out"
| "encode_frame (RegisterF r) out = encode_register_instrument (ri_instrument_id r) out"

lemma jc_type_raw [simp]: "is_known_type (raw_of_type t)" "type_of_raw (raw_of_type t) = t"
  by (cases t; simp add: is_known_type_def type_of_raw_def)+

lemma jc_raw_type: "is_known_type x \<Longrightarrow> raw_of_type (type_of_raw x) = x"
  by (auto simp: is_known_type_def type_of_raw_def)

fun type_of :: "JournalFrame \<Rightarrow> CommandMessageType" where
  "type_of (CommandF (NewOrderC c)) = CT_NewOrder"
| "type_of (CommandF (CancelOrderC c)) = CT_CancelOrder"
| "type_of (CommandF (ReplaceOrderC c)) = CT_ReplaceOrder"
| "type_of (RegisterF r) = CT_RegisterInstrument"

fun sequence_of :: "JournalFrame \<Rightarrow> CommandSequence" where
  "sequence_of (CommandF (NewOrderC c)) = nc_command_sequence c"
| "sequence_of (CommandF (CancelOrderC c)) = cc_command_sequence c"
| "sequence_of (CommandF (ReplaceOrderC c)) = rc_command_sequence c"
| "sequence_of (RegisterF r) = 0"

definition header_bytes :: "u8 \<Rightarrow> u8 \<Rightarrow> u16 \<Rightarrow> CommandSequence \<Rightarrow> byte list" where
  "header_bytes b z n seq = b # z # be_bytes 2 n @ be_bytes 8 seq"

lemma jc_length_header_bytes [simp]: "length (header_bytes b z n seq) = 12"
  by (simp add: header_bytes_def)

definition header_of :: "JournalFrame \<Rightarrow> byte list" where
  "header_of f = header_bytes (raw_of_type (type_of f)) 0 (word_of_nat (payload_size_for (type_of f))) (sequence_of f)"

definition payload :: "JournalFrame \<Rightarrow> byte list" where
  "payload f = drop HEADER_SIZE (encode_frame f [])"

lemma frame_cases:
  obtains c where "f = CommandF (NewOrderC c)" | c where "f = CommandF (CancelOrderC c)"
  | c where "f = CommandF (ReplaceOrderC c)" | r where "f = RegisterF r"
  by (metis ExchangeCommand.exhaust JournalFrame.exhaust)

lemmas jc_put_defs = put_header_def put_enum_defs header_of_def header_bytes_def payload_def HEADER_SIZE_def field_puts Let_def
  encode_register_instrument_def

lemma jc_encode_split: "encode_frame f out = out @ header_of f @ payload f"
  by (rule frame_cases [of f]) (simp_all add: jc_put_defs)

lemma jc_length_payload [simp]: "length (payload f) = payload_size_for (type_of f)"
  by (rule frame_cases [of f]) (simp_all add: jc_put_defs)

lemma jc_size_fits [simp]: "unat (word_of_nat (payload_size_for t) :: u16) = payload_size_for t"
  by (cases t) simp_all

lemma jc_decode_header_bytes:
  "decode_command_header (header_bytes b z n seq @ rest) =
     (if z \<noteq> 0 then Inl InvalidReserved
      else if is_known_type b then Inr \<lparr>ch_type = type_of_raw b, ch_payload_size = n, ch_command_sequence = seq\<rparr>
      else Inl InvalidMessageType)"
  by (simp add: decode_command_header_def header_bytes_def HEADER_SIZE_def byte_reader_def field_gets Let_def
      be_value_bytes hd_drop_conv_nth)

lemma header_bytes_cases:
  assumes "\<not> length data < 12"
  obtains b z n seq rest where "data = header_bytes b z n seq @ rest"
proof -
  let ?n = "be_value (take 2 (drop 2 data)) :: u16" and ?seq = "be_value (take 8 (drop 4 data)) :: u64"
  have "data ! 0 # drop (Suc 0) data = data" using assms by (cases data) simp_all
  then have "data = header_bytes (data ! 0) (data ! 1) ?n ?seq @ drop 12 data"
    using assms by (simp add: header_bytes_def slice_joins)
  then show ?thesis by (rule that)
qed

lemma jc_decode_header_Inr:
  assumes "decode_command_header data = Inr h"
  obtains b rest where "data = header_bytes b 0 (ch_payload_size h) (ch_command_sequence h) @ rest"
    "is_known_type b" "ch_type h = type_of_raw b"
proof -
  have "\<not> length data < 12" using assms by (auto simp: decode_command_header_def HEADER_SIZE_def)
  then obtain b z n seq rest where "data = header_bytes b z n seq @ rest" by (rule header_bytes_cases)
  then show ?thesis using assms by (intro that [of b rest]) (auto simp: jc_decode_header_bytes split: if_splits)
qed

fun decode_payload :: "CommandHeader \<Rightarrow> CommandMessageType \<Rightarrow> ByteReader \<Rightarrow> CommandDecodeError + JournalFrame" where
  "decode_payload header CT_NewOrder r = decode_nc header r"
| "decode_payload header CT_CancelOrder r = decode_cc header r"
| "decode_payload header CT_ReplaceOrder r = decode_rc header r"
| "decode_payload header CT_RegisterInstrument r = decode_ri header r"

lemmas jc_decode_payload_defs = decode_nc_def decode_cc_def decode_rc_def decode_ri_def

lemma decode_frame_payload:
  "decode_journal_frame data =
     (case decode_command_header data of
        Inl e \<Rightarrow> Inl e
      | Inr header \<Rightarrow>
          if unat (ch_payload_size header) \<noteq> payload_size_for (ch_type header) then Inl InvalidMessageSize
          else if length data < HEADER_SIZE + unat (ch_payload_size header) then Inl TruncatedPayload
          else decode_payload header (ch_type header)
                 (byte_reader (take (unat (ch_payload_size header)) (drop HEADER_SIZE data))))"
  by (simp add: decode_journal_frame_def Let_def split: sum.split CommandMessageType.split)

lemma jc_decode_payload_of:
  assumes "ch_command_sequence h = sequence_of f"
  shows "decode_payload h (type_of f) (byte_reader (payload f)) = Inr f"
  using assms
  by (rule_tac frame_cases [of f]) (simp_all add: jc_put_defs jc_decode_payload_defs byte_reader_def field_gets field_slices)

lemma jc_canonical_payload:
  assumes "decode_payload h t (byte_reader xs) = Inr f" "length xs = payload_size_for t"
  shows "type_of f = t \<and> payload f = xs \<and> (t \<noteq> CT_RegisterInstrument \<longrightarrow> sequence_of f = ch_command_sequence h)"
  using assms
  by (cases t)
    (auto simp: jc_decode_payload_defs byte_reader_def field_gets jc_put_defs raw_inverses slice_joins split: if_splits)

lemma jc_decode_encode: "decode_journal_frame (encode_frame f [] @ rest) = Inr f"
  by (simp add: jc_encode_split header_of_def decode_frame_payload jc_decode_header_bytes HEADER_SIZE_def jc_decode_payload_of)

lemma jc_length_encode: "length (encode_frame f []) = HEADER_SIZE + payload_size_for (type_of f)"
  by (simp add: jc_encode_split header_of_def HEADER_SIZE_def)

lemma jc_encode_append: "encode_frame f out = out @ encode_frame f []"
  by (simp add: jc_encode_split)

lemma jc_decode_canonical:
  assumes "decode_journal_frame data = Inr (CommandF c)"
  shows "take (length (encode_command c [])) data = encode_command c []"
proof -
  let ?f = "CommandF c"
  obtain h where h: "decode_command_header data = Inr h"
    using assms by (cases "decode_command_header data") (auto simp: decode_journal_frame_def)
  then obtain b rest where d: "data = header_bytes b 0 (ch_payload_size h) (ch_command_sequence h) @ rest"
    "is_known_type b" "ch_type h = type_of_raw b" by (rule jc_decode_header_Inr)
  have n: "unat (ch_payload_size h) = payload_size_for (ch_type h)" "\<not> length rest < unat (ch_payload_size h)"
    "decode_payload h (ch_type h) (byte_reader (take (unat (ch_payload_size h)) rest)) = Inr ?f"
    using assms h by (auto simp: decode_frame_payload d(1) HEADER_SIZE_def split: if_splits)
  then have p: "type_of ?f = ch_type h" "payload ?f = take (unat (ch_payload_size h)) rest"
    "ch_type h \<noteq> CT_RegisterInstrument \<longrightarrow> sequence_of ?f = ch_command_sequence h"
    using jc_canonical_payload [OF n(3)] by simp_all
  have "type_of ?f \<noteq> CT_RegisterInstrument" by (cases c) simp_all
  moreover have "ch_payload_size h = word_of_nat (payload_size_for (ch_type h))" by (simp add: n(1) [symmetric] of_nat_unat)
  ultimately have "header_of ?f = header_bytes b 0 (ch_payload_size h) (ch_command_sequence h)"
    using p d by (simp add: header_of_def jc_raw_type)
  then have "take (length (encode_frame ?f [])) data = encode_frame ?f []" using p n(2) by (simp add: jc_encode_split d(1))
  then show ?thesis by simp
qed

lemma decode_command_frame: "decode_journal_frame (encode_command c [] @ rest) = Inr (CommandF c)"
  using jc_decode_encode [of "CommandF c"] by simp

lemma encode_command_nonempty: "encode_command c [] \<noteq> []"
  using jc_length_encode [of "CommandF c"] by (auto simp: HEADER_SIZE_def)

text \<open>What the journal's commands look like to its reader: command frames are a framing.\<close>

definition decode_command_frames :: "byte list \<Rightarrow> (CommandDecodeError + RegisterInstrumentRecord) + ExchangeCommand" where
  "decode_command_frames data =
     (case decode_journal_frame data of
        Inl e \<Rightarrow> Inl (Inl e)
      | Inr (RegisterF r) \<Rightarrow> Inl (Inr r)
      | Inr (CommandF c) \<Rightarrow> Inr c)"

interpretation journal: framing "\<lambda>c. encode_command c []" decode_command_frames
proof
  show "take (length (encode_command c [])) data = encode_command c []" if "decode_command_frames data = Inr c" for data c
    using that by (intro jc_decode_canonical) (auto simp: decode_command_frames_def split: sum.splits JournalFrame.splits)
qed (simp_all add: decode_command_frames_def decode_command_frame encode_command_nonempty)

end
