(* ===== verification/Journal.thy ===== *)
theory Journal
  imports JournalCodec ReferenceExchange
begin

text \<open>
  The command journal and its replay: \<open>CommandJournalWriter\<close>, \<open>CommandJournalReader\<close>,
  \<open>run_command_replay\<close> and \<open>hash_state_snapshot\<close> of \<open>src/src/exchange/persistence/\<close>. The file is the list of
  its bytes. A writer appends to it; a reader is what is left to read: \<open>read(n)\<close> takes up to \<open>n\<close> bytes and
  \<open>gcount\<close> is how many there were. After a short read nothing is left, so the stream's fail bit, which
  makes every later read return nothing, needs no state of its own.
\<close>

section \<open>Writer and reader\<close>

definition new_journal :: "InstrumentId list \<Rightarrow> byte list" where
  \<comment> \<open>the constructor, on a file that opened: one register frame per instrument\<close>
  "new_journal instruments = fold encode_register_instrument instruments []"

definition journal_write :: "ExchangeCommand \<Rightarrow> byte list \<Rightarrow> byte list" where
  "journal_write command file =
     (let buffer = encode_command command []
      in file @ buffer)"

definition journal_next :: "byte list \<Rightarrow> (CommandDecodeError + JournalFrame) option \<times> byte list" where
  "journal_next file =
     (let frame_buf = take HEADER_SIZE file;
          file = drop HEADER_SIZE file
      in if length frame_buf = 0 then (None, file)
         else if length frame_buf < HEADER_SIZE then (Some (Inl TruncatedHeader), file)
         else
           case decode_command_header frame_buf of
             Inl e \<Rightarrow> (Some (Inl e), file)
           | Inr header \<Rightarrow>
               let payload = take (unat (ch_payload_size header)) file;
                   file = drop (unat (ch_payload_size header)) file
               in if length payload < unat (ch_payload_size header) then (Some (Inl TruncatedPayload), file)
                  else (Some (decode_journal_frame (frame_buf @ payload)), file))"

section \<open>Replay\<close>

fun to_string :: "CommandDecodeError \<Rightarrow> string" where
  "to_string TruncatedHeader = ''TruncatedHeader''"
| "to_string TruncatedPayload = ''TruncatedPayload''"
| "to_string InvalidReserved = ''InvalidReserved''"
| "to_string InvalidMessageType = ''InvalidMessageType''"
| "to_string InvalidMessageSize = ''InvalidMessageSize''"
| "to_string InvalidSide = ''InvalidSide''"
| "to_string InvalidOrderType = ''InvalidOrderType''"
| "to_string InvalidTimeInForce = ''InvalidTimeInForce''"

record CommandReplayOutcome =
  cr_engine :: MatchingEngine
  cr_events :: "ExchangeEvent list"
  cr_commands_processed :: nat
  cr_instruments_registered :: nat
  cr_stopped_early :: bool
  cr_stop_reason :: string

definition new_replay_outcome :: CommandReplayOutcome where
  "new_replay_outcome =
     \<lparr>cr_engine = new_matching_engine [], cr_events = [], cr_commands_processed = 0, cr_instruments_registered = 0,
      cr_stopped_early = False, cr_stop_reason = []\<rparr>"

fun replay_frame :: "JournalFrame \<Rightarrow> CommandReplayOutcome \<Rightarrow> CommandReplayOutcome option" where
  "replay_frame (RegisterF registration) outcome =
     (case register_instrument (ri_instrument_id registration) (cr_engine outcome) of
        (registered, engine) \<Rightarrow>
          Some (outcome\<lparr>cr_engine := engine,
                        cr_instruments_registered := cr_instruments_registered outcome + (if registered then 1 else 0)\<rparr>))"
| "replay_frame (CommandF command) outcome =
     (case process command (cr_engine outcome) of
        None \<Rightarrow> None
      | Some (engine, events) \<Rightarrow>
          Some (outcome\<lparr>cr_engine := engine, cr_events := cr_events outcome @ events,
                        cr_commands_processed := cr_commands_processed outcome + 1\<rparr>))"

lemma journal_next_shorter: "journal_next file = (Some frame, file') \<Longrightarrow> length file' < length file"
  by (auto simp: journal_next_def Let_def HEADER_SIZE_def split: if_splits sum.splits)

function replay_loop :: "bool \<Rightarrow> byte list \<Rightarrow> CommandReplayOutcome \<Rightarrow> CommandReplayOutcome option" where
  "replay_loop stop_on_decode_error file outcome =
     (case journal_next file of
        (None, file') \<Rightarrow> Some outcome
      | (Some (Inl e), file') \<Rightarrow>
          let outcome = outcome\<lparr>cr_stop_reason := ''decode error: '' @ to_string e\<rparr>
          in if stop_on_decode_error then Some (outcome\<lparr>cr_stopped_early := True\<rparr>)
             else replay_loop stop_on_decode_error file' outcome
      | (Some (Inr frame), file') \<Rightarrow>
          case replay_frame frame outcome of
            None \<Rightarrow> None
          | Some outcome \<Rightarrow> replay_loop stop_on_decode_error file' outcome)"
  by pat_completeness auto
termination
proof (relation "measure (\<lambda>(stop, file, outcome). length file)", goal_cases)
  case 1
  show ?case by simp
qed (auto dest: journal_next_shorter [OF sym])

declare replay_loop.simps [simp del]

definition run_command_replay :: "string \<Rightarrow> byte list option \<Rightarrow> bool \<Rightarrow> CommandReplayOutcome option" where
  \<comment> \<open>\<open>file\<close> is \<open>None\<close> when the path does not open\<close>
  "run_command_replay journal_path file stop_on_decode_error =
     (let outcome = new_replay_outcome
      in case file of
           None \<Rightarrow> Some (outcome\<lparr>cr_stopped_early := True,
                              cr_stop_reason := ''could not open journal file: '' @ journal_path\<rparr>)
         | Some file \<Rightarrow> replay_loop stop_on_decode_error file outcome)"

section \<open>State hash\<close>

definition put_order :: "ExchangeRestingOrder \<Rightarrow> byte list \<Rightarrow> byte list" where
  "put_order order buf =
     (let buf = put_u64 (ro_exchange_order_id order) buf;
          buf = put_u64 (ro_client_order_id order) buf;
          buf = put_u64 (ro_account_id order) buf;
          buf = put_u32 (ro_instrument_id order) buf;
          buf = put_u8 (raw_of_side (ro_side order)) buf;
          buf = put_i64 (ro_price order) buf;
          buf = put_u64 (ro_original_quantity order) buf;
          buf = put_u64 (ro_remaining_quantity order) buf;
          buf = put_u8 (raw_of_time_in_force (ro_time_in_force order)) buf;
          buf = put_u64 (ro_order_sequence order) buf
      in buf)"

definition kFnvOffsetBasis :: u64 where
  "kFnvOffsetBasis = 14695981039346656037"

definition kFnvPrime :: u64 where
  "kFnvPrime = 1099511628211"

definition fnv1a :: "byte list \<Rightarrow> u64" where
  "fnv1a bytes = fold (\<lambda>b hash. (hash XOR ucast b) * kFnvPrime) bytes kFnvOffsetBasis"

definition put_instrument :: "InstrumentBookSnapshot \<Rightarrow> byte list \<Rightarrow> byte list" where
  \<comment> \<open>the body of the loop over the snapshot's instruments\<close>
  "put_instrument instrument buf =
     (let buf = put_u32 (ib_instrument_id instrument) buf;
          buf = put_u64 (word_of_nat (length (ib_bids instrument))) buf;
          buf = fold put_order (ib_bids instrument) buf;
          buf = put_u64 (word_of_nat (length (ib_asks instrument))) buf;
          buf = fold put_order (ib_asks instrument) buf
      in buf)"

definition snapshot_bytes :: "EngineStateSnapshot \<Rightarrow> byte list" where
  \<comment> \<open>the buffer \<open>hash_state_snapshot\<close> builds\<close>
  "snapshot_bytes snap =
     fold put_instrument (es_instruments snap) (put_u64 (word_of_nat (length (es_instruments snap))) [])"

definition hash_state_snapshot :: "EngineStateSnapshot \<Rightarrow> u64" where
  "hash_state_snapshot snap = fnv1a (snapshot_bytes snap)"

section \<open>Reading what was written\<close>

lemma take_header: "take 12 (header_bytes b z n seq @ xs) = header_bytes b z n seq"
  "drop 12 (header_bytes b z n seq @ xs) = xs"
  by simp_all

lemma journal_next_frame: "journal_next (encode_frame f [] @ rest) = (Some (Inr f), rest)"
proof -
  have d: "decode_command_header (header_of f) = Inr \<lparr>ch_type = type_of f, ch_payload_size = word_of_nat (payload_size_for (type_of f)),
      ch_command_sequence = sequence_of f\<rparr>"
    using jc_decode_header_bytes [of "raw_of_type (type_of f)" 0 "word_of_nat (payload_size_for (type_of f))" "sequence_of f" "[]"]
    by (simp add: header_of_def)
  have t: "take HEADER_SIZE (encode_frame f [] @ rest) = header_of f" "drop HEADER_SIZE (encode_frame f [] @ rest) = payload f @ rest"
    by (simp_all add: jc_encode_split header_of_def HEADER_SIZE_def)
  have "decode_journal_frame (header_of f @ payload f) = Inr f"
    using jc_decode_encode [of f "[]"] by (simp add: jc_encode_split)
  moreover have "length (header_of f) = 12" by (simp add: header_of_def)
  ultimately show ?thesis unfolding journal_next_def Let_def t by (simp add: d HEADER_SIZE_def)
qed

lemma journal_next_end: "journal_next [] = (None, [])"
  by (simp add: journal_next_def)

lemma journal_next_torn:
  assumes "0 < n" "n < length (encode_frame f [])"
  shows "journal_next (take n (encode_frame f [])) = (Some (Inl (if n < 12 then TruncatedHeader else TruncatedPayload)), [])"
proof (cases "n < 12")
  case True
  moreover have "encode_frame f [] \<noteq> []" using assms(2) by auto
  ultimately show ?thesis using assms by (simp add: journal_next_def Let_def HEADER_SIZE_def)
next
  case False
  then obtain k where k: "n = 12 + k" by (auto simp: le_iff_add not_less)
  have len: "length (header_of f) = 12" "header_of f \<noteq> []" by (simp_all add: header_of_def header_bytes_def)
  have kl: "k < payload_size_for (type_of f)" using assms k by (simp add: jc_length_encode HEADER_SIZE_def)
  have t: "take n (encode_frame f []) = header_of f @ take k (payload f)" using k len by (simp add: jc_encode_split)
  have d: "decode_command_header (header_of f) = Inr \<lparr>ch_type = type_of f, ch_payload_size = word_of_nat (payload_size_for (type_of f)),
      ch_command_sequence = sequence_of f\<rparr>"
    using jc_decode_header_bytes [of "raw_of_type (type_of f)" 0 "word_of_nat (payload_size_for (type_of f))" "sequence_of f" "[]"]
    by (simp add: header_of_def)
  show ?thesis using False kl len by (simp add: t journal_next_def Let_def HEADER_SIZE_def d)
qed

section \<open>Replaying a journal\<close>

definition journal_of :: "InstrumentId list \<Rightarrow> ExchangeCommand list \<Rightarrow> byte list" where
  \<comment> \<open>the file of a writer that was given \<open>cs\<close>\<close>
  "journal_of u cs = fold journal_write cs (new_journal u)"

lemma register_frames: "fold encode_register_instrument u out = out @ concat (map (\<lambda>i. encode_frame (RegisterF \<lparr>ri_instrument_id = i\<rparr>) []) u)"
proof (induction u arbitrary: out)
  case (Cons i u)
  show ?case using jc_encode_append [of "RegisterF \<lparr>ri_instrument_id = i\<rparr>" out] by (simp add: Cons)
qed simp

lemma command_frames: "fold journal_write cs out = out @ concat (map (\<lambda>c. encode_frame (CommandF c) []) cs)"
  by (induction cs arbitrary: out) (simp_all add: journal_write_def)

lemma journal_frames:
  "journal_of u cs = concat (map (\<lambda>i. encode_frame (RegisterF \<lparr>ri_instrument_id = i\<rparr>) []) u) @
     concat (map (\<lambda>c. encode_frame (CommandF c) []) cs)"
  by (simp add: journal_of_def new_journal_def register_frames command_frames)

lemma loop_frame:
  "replay_loop stop (encode_frame f [] @ rest) oc =
     (case replay_frame f oc of None \<Rightarrow> None | Some oc' \<Rightarrow> replay_loop stop rest oc')"
  by (subst replay_loop.simps) (simp add: journal_next_frame)

lemma loop_registers:
  assumes "engine_inv (cr_engine oc)" "index_inv (cr_engine oc)"
  obtains e n where "replay_loop stop (concat (map (\<lambda>i. encode_frame (RegisterF \<lparr>ri_instrument_id = i\<rparr>) []) u) @ rest) oc =
      replay_loop stop rest (oc\<lparr>cr_engine := e, cr_instruments_registered := n\<rparr>)"
    "engine_inv e"
    "exchange_of e = (exchange_of (cr_engine oc))\<lparr>xc_known := xc_known (exchange_of (cr_engine oc)) \<union> {i \<in> set u. i \<le> kMaxInstrumentId}\<rparr>"
  using assms
proof (induction u arbitrary: oc thesis)
  case Nil
  show ?case by (rule Nil.prems(1) [of "cr_instruments_registered oc" "cr_engine oc"]) (simp_all add: Nil.prems)
next
  case (Cons i u)
  obtain b e1 where r: "register_instrument i (cr_engine oc) = (b, e1)" by (cases "register_instrument i (cr_engine oc)")
  let ?oc = "oc\<lparr>cr_engine := e1, cr_instruments_registered := cr_instruments_registered oc + (if b then 1 else 0)\<rparr>"
  have inv: "engine_inv e1" "index_inv e1" using register_inv [OF Cons.prems(2,3), of i] r by simp_all
  have x: "exchange_of e1 = (if i \<le> kMaxInstrumentId then (exchange_of (cr_engine oc))\<lparr>xc_known := insert i (xc_known (exchange_of (cr_engine oc)))\<rparr>
      else exchange_of (cr_engine oc))"
    using register_exchange [OF Cons.prems(2,3), of i] r by simp
  obtain e n where e: "replay_loop stop (concat (map (\<lambda>i. encode_frame (RegisterF \<lparr>ri_instrument_id = i\<rparr>) []) u) @ rest) ?oc =
      replay_loop stop rest (?oc\<lparr>cr_engine := e, cr_instruments_registered := n\<rparr>)"
    "engine_inv e"
    "exchange_of e = (exchange_of e1)\<lparr>xc_known := xc_known (exchange_of e1) \<union> {i \<in> set u. i \<le> kMaxInstrumentId}\<rparr>"
    by (rule Cons.IH [of ?oc]) (use inv in auto)
  have l: "replay_loop stop (concat (map (\<lambda>i. encode_frame (RegisterF \<lparr>ri_instrument_id = i\<rparr>) []) (i # u)) @ rest) oc =
      replay_loop stop rest (oc\<lparr>cr_engine := e, cr_instruments_registered := n\<rparr>)"
    using e(1) loop_frame [of stop "RegisterF \<lparr>ri_instrument_id = i\<rparr>"] by (simp add: r)
  have "exchange_of e = (exchange_of (cr_engine oc))\<lparr>xc_known := xc_known (exchange_of (cr_engine oc)) \<union>
      {j \<in> set (i # u). j \<le> kMaxInstrumentId}\<rparr>"
    unfolding e(3) x by (cases "i \<le> kMaxInstrumentId") (auto intro: arg_cong [where f = "\<lambda>k. (exchange_of (cr_engine oc))\<lparr>xc_known := k\<rparr>"])
  then show ?case by (rule Cons.prems(1) [OF l e(2)])
qed

lemma loop_commands:
  assumes "engine_inv (cr_engine oc)" "admissible_run cs (exchange_of (cr_engine oc))"
  obtains e where "replay_loop stop (concat (map (\<lambda>c. encode_frame (CommandF c) []) cs) @ rest) oc =
      replay_loop stop rest (oc\<lparr>cr_engine := e, cr_events := cr_events oc @ snd (exchange_run cs (exchange_of (cr_engine oc))),
        cr_commands_processed := cr_commands_processed oc + length cs\<rparr>)"
    "engine_inv e" "exchange_of e = fst (exchange_run cs (exchange_of (cr_engine oc)))"
  using assms
proof (induction cs arbitrary: oc thesis)
  case Nil
  show ?case by (rule Nil.prems(1) [of "cr_engine oc"]) (simp_all add: Nil.prems)
next
  case (Cons c cs)
  let ?x = "exchange_of (cr_engine oc)"
  obtain e1 where e1: "process c (cr_engine oc) = Some (e1, snd (exchange_process c ?x))" "engine_inv e1"
    "exchange_of e1 = fst (exchange_process c ?x)"
    by (rule step_follows [of "cr_engine oc" c]) (use Cons.prems in auto)
  let ?oc = "oc\<lparr>cr_engine := e1, cr_events := cr_events oc @ snd (exchange_process c ?x),
      cr_commands_processed := cr_commands_processed oc + 1\<rparr>"
  obtain e where e: "replay_loop stop (concat (map (\<lambda>c. encode_frame (CommandF c) []) cs) @ rest) ?oc =
      replay_loop stop rest (?oc\<lparr>cr_engine := e, cr_events := cr_events ?oc @ snd (exchange_run cs (exchange_of (cr_engine ?oc))),
        cr_commands_processed := cr_commands_processed ?oc + length cs\<rparr>)"
    "engine_inv e" "exchange_of e = fst (exchange_run cs (exchange_of (cr_engine ?oc)))"
    by (rule Cons.IH [of ?oc]) (use Cons.prems e1 in auto)
  show ?case
  proof (rule Cons.prems(1) [OF _ e(2)])
    show "replay_loop stop (concat (map (\<lambda>c. encode_frame (CommandF c) []) (c # cs)) @ rest) oc =
      replay_loop stop rest (oc\<lparr>cr_engine := e, cr_events := cr_events oc @ snd (exchange_run (c # cs) ?x),
        cr_commands_processed := cr_commands_processed oc + length (c # cs)\<rparr>)"
      using e(1) e1(1,3) loop_frame [of stop "CommandF c"] by (simp split: prod.split)
    show "exchange_of e = fst (exchange_run (c # cs) ?x)" using e(3) e1(3) by (simp split: prod.split)
  qed
qed

lemma replay_journal:
  assumes "admissible_run cs (empty_exchange u)"
  obtains e n where "replay_loop stop (journal_of u cs @ rest) new_replay_outcome =
      replay_loop stop rest \<lparr>cr_engine = e, cr_events = snd (exchange_run cs (empty_exchange u)), cr_commands_processed = length cs,
        cr_instruments_registered = n, cr_stopped_early = False, cr_stop_reason = []\<rparr>"
    "engine_inv e" "exchange_of e = fst (exchange_run cs (empty_exchange u))"
proof -
  let ?oc = new_replay_outcome
  have i: "engine_inv (cr_engine ?oc)" "index_inv (cr_engine ?oc)" "exchange_of (cr_engine ?oc) = empty_exchange []"
    using new_matching_engine(1,2) exchange_of_new by (simp_all add: new_replay_outcome_def)
  let ?cf = "concat (map (\<lambda>c. encode_frame (CommandF c) []) cs) @ rest"
  obtain e1 n where e1: "replay_loop stop (concat (map (\<lambda>i. encode_frame (RegisterF \<lparr>ri_instrument_id = i\<rparr>) []) u) @ ?cf) ?oc =
      replay_loop stop ?cf (?oc\<lparr>cr_engine := e1, cr_instruments_registered := n\<rparr>)" "engine_inv e1"
    "exchange_of e1 = (exchange_of (cr_engine ?oc))\<lparr>xc_known := xc_known (exchange_of (cr_engine ?oc)) \<union> {i \<in> set u. i \<le> kMaxInstrumentId}\<rparr>"
    by (rule loop_registers [OF i(1,2)]) (rule that)
  have x1: "exchange_of e1 = empty_exchange u" by (simp add: e1(3) i(3) empty_exchange_def)
  obtain e where e: "replay_loop stop ?cf (?oc\<lparr>cr_engine := e1, cr_instruments_registered := n\<rparr>) =
      replay_loop stop rest ((?oc\<lparr>cr_engine := e1, cr_instruments_registered := n\<rparr>)\<lparr>cr_engine := e,
        cr_events := [] @ snd (exchange_run cs (empty_exchange u)), cr_commands_processed := 0 + length cs\<rparr>)"
    "engine_inv e" "exchange_of e = fst (exchange_run cs (empty_exchange u))"
    by (rule loop_commands [of "?oc\<lparr>cr_engine := e1, cr_instruments_registered := n\<rparr>" cs stop rest])
       (use e1(2) x1 assms in \<open>auto simp: new_replay_outcome_def\<close>)
  show thesis
    by (rule that [OF _ e(2,3)]) (use e(1) e1(1) in \<open>simp add: journal_frames new_replay_outcome_def\<close>)
qed

lemma replay_loop_end: "replay_loop stop [] oc = Some oc"
  by (subst replay_loop.simps) (simp add: journal_next_end)

lemma replay_loop_torn:
  assumes "0 < n" "n < length (encode_frame f [])"
  shows "replay_loop True (take n (encode_frame f [])) oc =
    Some (oc\<lparr>cr_stop_reason := ''decode error: '' @ to_string (if n < 12 then TruncatedHeader else TruncatedPayload),
             cr_stopped_early := True\<rparr>)"
  by (subst replay_loop.simps) (simp add: journal_next_torn [OF assms] Let_def)

section \<open>Properties\<close>

text \<open>
  C8. A journal reproduces the run that wrote it: replaying the file of an engine's universe and commands,
  with nothing else given, ends at the file's end with every command processed, the same events in the
  same order and the same order lists as the engine that ran live, although the replay builds its books one
  registration at a time and the live engine built them all at once.
\<close>

theorem journal_replay_reproduces_the_run:
  assumes "admissible_run cs (empty_exchange u)"
  shows "\<exists>e evs outcome.
    engine_run cs (new_matching_engine u) = Some (e, evs) \<and>
    run_command_replay path (Some (journal_of u cs)) stop = Some outcome \<and>
    cr_events outcome = evs \<and> exchange_of (cr_engine outcome) = exchange_of e \<and>
    cr_commands_processed outcome = length cs \<and> \<not> cr_stopped_early outcome"
proof -
  have a: "admissible_run cs (exchange_of (new_matching_engine u))" using assms by (simp add: exchange_of_new)
  obtain e where e: "engine_run cs (new_matching_engine u) = Some (e, snd (exchange_run cs (empty_exchange u)))"
    "exchange_of e = fst (exchange_run cs (empty_exchange u))"
    by (rule run_follows [OF new_matching_engine(1) a]) (simp add: exchange_of_new that)
  obtain e2 n where r: "replay_loop stop (journal_of u cs @ []) new_replay_outcome =
      replay_loop stop [] \<lparr>cr_engine = e2, cr_events = snd (exchange_run cs (empty_exchange u)), cr_commands_processed = length cs,
        cr_instruments_registered = n, cr_stopped_early = False, cr_stop_reason = []\<rparr>"
    "exchange_of e2 = fst (exchange_run cs (empty_exchange u))"
    by (rule replay_journal [OF assms]) (rule that)
  show ?thesis using e r by (simp add: run_command_replay_def replay_loop_end)
qed

theorem journal_replay_reproduces_the_run_witness:
  "\<exists>e evs outcome.
    engine_run [NewOrderC (sample_new Buy GTC 1 100)] (new_matching_engine [7]) = Some (e, evs) \<and>
    run_command_replay ''j'' (Some (journal_of [7] [NewOrderC (sample_new Buy GTC 1 100)])) True = Some outcome \<and>
    cr_events outcome = evs \<and> exchange_of (cr_engine outcome) = exchange_of e \<and>
    cr_commands_processed outcome = length [NewOrderC (sample_new Buy GTC 1 100)] \<and> \<not> cr_stopped_early outcome"
proof (rule journal_replay_reproduces_the_run)
  show "admissible_run [NewOrderC (sample_new Buy GTC 1 100)] (empty_exchange [7])"
    by (simp add: admissible_def empty_exchange_def sample_new_def sample_engine)
qed

text \<open>
  C21. A journal that was cut off inside a frame loses that frame only: replay stops there, says so, and has
  the events of every command before it.
\<close>

theorem torn_journal_keeps_the_complete_commands:
  assumes "admissible_run cs (empty_exchange u)" "0 < n" "n < length (encode_command c [])"
  shows "\<exists>outcome.
    run_command_replay path (Some (journal_of u cs @ take n (encode_command c []))) True = Some outcome \<and>
    cr_events outcome = snd (exchange_run cs (empty_exchange u)) \<and> cr_commands_processed outcome = length cs \<and>
    cr_stopped_early outcome \<and>
    cr_stop_reason outcome = ''decode error: '' @ to_string (if n < 12 then TruncatedHeader else TruncatedPayload)"
proof -
  obtain e2 m where r: "replay_loop True (journal_of u cs @ take n (encode_command c [])) new_replay_outcome =
      replay_loop True (take n (encode_command c []))
       \<lparr>cr_engine = e2, cr_events = snd (exchange_run cs (empty_exchange u)), cr_commands_processed = length cs,
        cr_instruments_registered = m, cr_stopped_early = False, cr_stop_reason = []\<rparr>"
    by (rule replay_journal [OF assms(1)]) (rule that)
  show ?thesis using r replay_loop_torn [of n "CommandF c"] assms(2,3) by (simp add: run_command_replay_def)
qed

theorem torn_journal_keeps_the_complete_commands_witness:
  "\<exists>outcome. run_command_replay ''j'' (Some (journal_of [7] [] @ take 5 (encode_command (NewOrderC (sample_new Buy GTC 1 100)) []))) True =
      Some outcome \<and> cr_events outcome = [] \<and> cr_commands_processed outcome = 0 \<and>
    cr_stopped_early outcome \<and> cr_stop_reason outcome = ''decode error: TruncatedHeader''"
proof -
  have "5 < length (encode_command (NewOrderC (sample_new Buy GTC 1 100)) [])"
    using jc_length_encode [of "CommandF (NewOrderC (sample_new Buy GTC 1 100))"] by (simp add: HEADER_SIZE_def)
  from torn_journal_keeps_the_complete_commands [of "[]" "[7]", OF _ _ this] show ?thesis by simp
qed

end
