(* ===== verification/RingBuffer.thy ===== *)
theory RingBuffer
  imports Prelude
begin

text \<open>
  What the two ring buffers (common/spsc_queue.hpp, common/mpsc_queue.hpp) share: the power-of-two
  capacity, slot numbers taken with a mask from 64-bit counters that may wrap, and windows of slots. The
  locale \<open>bounded_queue\<close> is the contract their users rely on.
\<close>

section \<open>Capacity\<close>

partial_function (option) round_up :: "u64 \<Rightarrow> u64 \<Rightarrow> u64 option" where
  "round_up n p = (if p < n then round_up n (push_bit 1 p) else Some p)"

definition next_power_of_two :: "u64 \<Rightarrow> u64 option" where
  "next_power_of_two n = round_up n 1"

lemma shift_pow: "k < 63 \<Longrightarrow> push_bit 1 (2 ^ k :: u64) = 2 ^ Suc k"
  by (simp add: push_bit_eq_mult)

lemma unat_pow: "k \<le> 63 \<Longrightarrow> unat (2 ^ k :: u64) = 2 ^ k"
proof -
  assume "k \<le> 63"
  then have "(2 :: nat) ^ k < 2 ^ 64" by (intro power_strict_increasing) simp_all
  then have "unat (word_of_nat (2 ^ k) :: u64) = 2 ^ k" by (rule unat_word_of_nat_64)
  then show ?thesis by simp
qed

lemma less_pow: "k \<le> 63 \<Longrightarrow> (2 ^ k :: u64) < n \<longleftrightarrow> 2 ^ k < unat n"
  by (simp only: word_less_nat_alt unat_pow)

lemma round_up_stop: "k \<le> 63 \<Longrightarrow> unat n \<le> 2 ^ k \<Longrightarrow> round_up n (2 ^ k) = Some (2 ^ k)"
  by (subst round_up.simps, subst if_not_P) (simp_all only: less_pow not_less)

lemma round_up_next: "k < 63 \<Longrightarrow> 2 ^ k < unat n \<Longrightarrow> round_up n (2 ^ k) = round_up n (2 ^ Suc k)"
  by (subst round_up.simps) (simp only: less_pow less_imp_le if_True shift_pow)

lemma round_up_pow:
  assumes n: "unat n \<le> 2 ^ 63" and "k + d = 63"
  shows "\<exists>j. k \<le> j \<and> j \<le> 63 \<and> round_up n (2 ^ k) = Some (2 ^ j) \<and> unat n \<le> 2 ^ j \<and> (k < j \<longrightarrow> 2 ^ (j - 1) < unat n)"
  using assms(2)
proof (induction d arbitrary: k)
  case 0
  then have k: "k = 63" by simp
  have "round_up n (2 ^ k) = Some (2 ^ k)" by (rule round_up_stop) (simp_all only: k n order_refl)
  then show ?case using k n by blast
next
  case (Suc d)
  then have k: "k < 63" by simp
  show ?case
  proof (cases "2 ^ k < unat n")
    case True
    obtain j where j: "Suc k \<le> j" "j \<le> 63" "round_up n (2 ^ Suc k) = Some (2 ^ j)" "unat n \<le> 2 ^ j" "Suc k < j \<longrightarrow> 2 ^ (j - 1) < unat n"
      using Suc.IH [of "Suc k"] Suc.prems by auto
    have "2 ^ (j - 1) < unat n" using j(1,5) True by (cases "j = Suc k") simp_all
    then show ?thesis using j round_up_next [OF k True] Suc_leD [OF j(1)] by metis
  next
    case False
    then have "unat n \<le> 2 ^ k" by (simp only: not_less)
    then show ?thesis using round_up_stop [of k n] k by (intro exI [of _ k]) simp
  qed
qed

lemma next_power_of_two:
  assumes "unat n \<le> 2 ^ 63"
  obtains k where "k \<le> 63" "next_power_of_two n = Some (2 ^ k)" "unat n \<le> 2 ^ k" "0 < k \<Longrightarrow> 2 ^ (k - 1) < unat n"
proof -
  obtain k where "k \<le> 63" "round_up n (2 ^ 0) = Some (2 ^ k)" "unat n \<le> 2 ^ k" "0 < k \<longrightarrow> 2 ^ (k - 1) < unat n"
    using round_up_pow [OF assms, of 0 63] by auto
  then show thesis by (intro that [of k]) (simp_all add: next_power_of_two_def)
qed

section \<open>Counters and slots\<close>

definition slot_index :: "u64 \<Rightarrow> u64 \<Rightarrow> nat" where
  \<comment> \<open>\<open>counter & mask_\<close>\<close>
  "slot_index counter msk = unat (counter AND msk)"

lemma slot_index:
  assumes "k \<le> 63"
  shows "slot_index (of_nat j) (2 ^ k - 1) = j mod 2 ^ k"
proof -
  have "(2 ^ k - 1 :: u64) = mask k" by (simp add: mask_eq_exp_minus_1)
  then have "slot_index (of_nat j) (2 ^ k - 1) = unat (take_bit k (of_nat j :: u64))"
    by (simp add: slot_index_def take_bit_eq_mask)
  also have "\<dots> = (j mod 2 ^ 64) mod 2 ^ k" unfolding unsigned_take_bit_eq unfolding take_bit_eq_mod unat_of_nat by simp
  also have "\<dots> = j mod 2 ^ k" by (rule mod_mod_cancel, rule le_imp_power_dvd) (use assms in simp)
  finally show ?thesis .
qed

lemma counter_diff: "t \<le> h \<Longrightarrow> (of_nat h :: u64) - of_nat t = of_nat (h - t)"
  by (simp add: of_nat_diff)

lemma counter_le:
  assumes "t \<le> h" "h - t \<le> 2 ^ k" "k \<le> 63"
  shows "(2 ^ k :: u64) \<le> of_nat h - of_nat t \<longleftrightarrow> 2 ^ k \<le> h - t" "unat (of_nat h - of_nat t :: u64) = h - t"
proof -
  have "(2 :: nat) ^ k \<le> 2 ^ 63" using assms(3) by (rule power_increasing) simp
  then have "h - t < 2 ^ 64" using assms(2) by simp
  then show u: "unat (of_nat h - of_nat t :: u64) = h - t" by (simp add: counter_diff [OF assms(1)] unat_word_of_nat_64)
  show "(2 ^ k :: u64) \<le> of_nat h - of_nat t \<longleftrightarrow> 2 ^ k \<le> h - t"
    by (simp add: word_le_nat_alt u unat_pow [OF assms(3)])
qed

lemma counter_bound:
  assumes "j \<le> 2 ^ k" "k \<le> 63"
  shows "(of_nat j :: u64) \<le> 2 ^ k"
proof -
  have "(2 :: nat) ^ k \<le> 2 ^ 63" using assms(2) by (rule power_increasing) simp
  then have "unat (of_nat j :: u64) = j" using assms(1) by (intro unat_word_of_nat_64) simp
  then show ?thesis using assms by (simp only: word_le_nat_alt unat_pow)
qed

lemma counter_eq:
  assumes "t \<le> h" "h - t \<le> 2 ^ k" "k \<le> 63"
  shows "(of_nat t :: u64) = of_nat h \<longleftrightarrow> t = h"
  using counter_le(2) [OF assms] assms(1) by auto

section \<open>Windows of slots\<close>

definition window :: "'a list \<Rightarrow> nat \<Rightarrow> (nat \<Rightarrow> 'a) \<Rightarrow> bool" where
  \<comment> \<open>seen from the counter \<open>t\<close>, the ring shows \<open>f 0, f 1, \<dots>\<close>\<close>
  "window st t f \<longleftrightarrow> (\<forall>i < length st. st ! ((t + i) mod length st) = f i)"

lemma window_get: "window st t f \<Longrightarrow> i < length st \<Longrightarrow> st ! ((t + i) mod length st) = f i"
  by (simp add: window_def)

lemma ring_positions:
  assumes "i < n" "j < (n :: nat)" "(t + i) mod n = (t + j) mod n"
  shows "i = j"
proof -
  have "y = x" if "x \<le> y" "y < n" "(t + x) mod n = (t + y) mod n" for x y
  proof -
    have "n dvd (t + y) - (t + x)" using that(1,3) by (subst mod_eq_dvd_iff_nat [symmetric]) simp_all
    then have "n dvd y - x" by simp
    then show ?thesis using that(1,2) by (metis diff_is_0_eq' dvd_imp_le le_antisym less_imp_diff_less not_le zero_less_diff)
  qed
  then show ?thesis using assms by (metis linear)
qed

lemma window_put:
  assumes w: "window st t f" and i: "i < length st"
  shows "window (st[(t + i) mod length st := x]) t (f(i := x))"
  unfolding window_def
proof (intro allI impI)
  fix j assume j: "j < length (st[(t + i) mod length st := x])"
  have p: "(t + i) mod length st < length st" using i by (intro mod_less_divisor) linarith
  show "st[(t + i) mod length st := x] ! ((t + j) mod length (st[(t + i) mod length st := x])) = (f(i := x)) j"
    using ring_positions [of i "length st" j t] window_get [OF w, of j] i j p by (cases "i = j") (auto simp: nth_list_update)
qed

lemma window_shift:
  assumes w: "window st t f"
  shows "window st (Suc t) (\<lambda>i. if Suc i = length st then f 0 else f (Suc i))"
  unfolding window_def
proof (intro allI impI)
  fix i assume i: "i < length st"
  show "st ! ((Suc t + i) mod length st) = (if Suc i = length st then f 0 else f (Suc i))"
  proof (cases "Suc i = length st")
    case True
    then have "(Suc t + i) mod length st = (t + 0) mod length st" by (metis add_Suc_shift mod_add_self2 add_0_right)
    then show ?thesis using True window_get [OF w, of 0] i by (metis add_0_right gr_implies_not0 neq0_conv)
  next
    case False
    then show ?thesis using window_get [OF w, of "Suc i"] i by simp
  qed
qed

lemma window_cong: "window st t f \<Longrightarrow> (\<And>i. i < length st \<Longrightarrow> f i = g i) \<Longrightarrow> window st t g"
  by (simp add: window_def)

text \<open>The slots of a queue with contents \<open>xs\<close>; \<open>gone\<close> when the first is already taken out, \<open>coming\<close> the
  value put behind the last but not yet published.\<close>

definition ring_slots :: "bool \<Rightarrow> 'a option \<Rightarrow> 'a list \<Rightarrow> nat \<Rightarrow> 'a option" where
  "ring_slots gone coming xs i =
     (if i < length xs then (if i = 0 \<and> gone then None else Some (xs ! i)) else if i = length xs then coming else None)"

lemma ring_slots_put: "(ring_slots gone c xs)(length xs := x) = ring_slots gone x xs"
  by (auto simp: ring_slots_def)

lemma ring_slots_take: "xs \<noteq> [] \<Longrightarrow> (ring_slots gone c xs)(0 := None) = ring_slots True c xs"
  by (auto simp: ring_slots_def)

lemma ring_slots_publish: "ring_slots gone (Some x) xs = ring_slots (gone \<and> xs \<noteq> []) None (xs @ [x])" if "xs \<noteq> [] \<or> \<not> gone"
  using that by (auto simp: ring_slots_def nth_append fun_eq_iff)

lemma ring_slots_release:
  assumes "xs \<noteq> []" "length xs \<le> n" "c = None \<or> length xs < n" "i < n"
  shows "(if Suc i = n then ring_slots True c xs 0 else ring_slots True c xs (Suc i)) = ring_slots False c (tl xs) i"
  using assms by (cases xs) (auto simp: ring_slots_def)

section \<open>The contract of a bounded queue\<close>

text \<open>
  What a user of the queues relies on, and the loop every consumer runs: take whatever is there, up to a
  limit, and stop at the first empty pop. \<open>live\<close> says that a push still has a number to take.
\<close>

fun drain :: "('q \<Rightarrow> ('a option \<times> 'q) option) \<Rightarrow> nat \<Rightarrow> 'q \<Rightarrow> ('a list \<times> 'q) option" where
  "drain pop 0 q = Some ([], q)"
| "drain pop (Suc n) q =
     (case pop q of
        None \<Rightarrow> None
      | Some (None, q) \<Rightarrow> Some ([], q)
      | Some (Some x, q) \<Rightarrow> map_option (\<lambda>(xs, q). (x # xs, q)) (drain pop n q))"

locale bounded_queue =
  fixes ok :: "'q \<Rightarrow> bool" and live :: "'q \<Rightarrow> bool" and contents :: "'q \<Rightarrow> 'a list" and room :: "'q \<Rightarrow> nat"
    and push :: "'a \<Rightarrow> 'q \<Rightarrow> (bool \<times> 'q) option" and pop :: "'q \<Rightarrow> ('a option \<times> 'q) option"
  assumes push_room: "ok q \<Longrightarrow> live q \<Longrightarrow> length (contents q) < room q \<Longrightarrow>
      \<exists>q'. push x q = Some (True, q') \<and> ok q' \<and> contents q' = contents q @ [x] \<and> room q' = room q"
    and push_full: "ok q \<Longrightarrow> room q \<le> length (contents q) \<Longrightarrow>
      \<exists>q'. push x q = Some (False, q') \<and> ok q' \<and> contents q' = contents q \<and> room q' = room q"
    and pop_empty: "ok q \<Longrightarrow> contents q = [] \<Longrightarrow> pop q = Some (None, q)"
    and pop_some: "ok q \<Longrightarrow> contents q = x # xs \<Longrightarrow>
      \<exists>q'. pop q = Some (Some x, q') \<and> ok q' \<and> contents q' = xs \<and> room q' = room q"
begin

lemma drained:
  "ok q \<Longrightarrow> \<exists>q'. drain pop n q = Some (take n (contents q), q') \<and> ok q' \<and> contents q' = drop n (contents q) \<and> room q' = room q"
proof (induction n arbitrary: q)
  case (Suc n)
  show ?case
  proof (cases "contents q")
    case Nil
    then show ?thesis using pop_empty [OF Suc.prems] Suc.prems by simp
  next
    case (Cons x xs)
    obtain q1 where q1: "pop q = Some (Some x, q1)" "ok q1" "contents q1 = xs" "room q1 = room q"
      using pop_some [OF Suc.prems Cons] by blast
    then show ?thesis using Suc.IH [OF q1(2)] Cons by auto
  qed
qed simp

end

end
