(* ===== verification/SpscQueue.thy ===== *)
theory SpscQueue
  imports RingBuffer
begin

text \<open>
  The lock-free single-producer single-consumer ring buffer (common/spsc_queue.hpp) and the queue that
  drops what does not fit (common/dropping_queue.hpp). \<open>try_push\<close> and \<open>try_pop\<close> are the operations run
  without interruption; \<open>act\<close> breaks them at every access to shared memory and lets the two threads
  interleave at will, each access taking effect at once (the release/acquire pairs of the code give the
  accesses of a slot this order). A slot is \<open>Some v\<close> while an object is alive in it. Constructing over a
  live object, moving from or destroying a dead one is undefined behaviour: \<open>None\<close>.
\<close>

section \<open>State\<close>

record 'a SpscQueue =
  sq_capacity :: u64
  sq_mask :: u64
  sq_storage :: "'a option list"
  sq_high_water_mark :: u64
  sq_head :: u64
  sq_tail :: u64

definition new_spsc_queue :: "u64 \<Rightarrow> 'a SpscQueue option" where
  "new_spsc_queue n = do {
     c \<leftarrow> next_power_of_two n;
     Some \<lparr>sq_capacity = c, sq_mask = c - 1, sq_storage = replicate (unat c) None, sq_high_water_mark = 0,
           sq_head = 0, sq_tail = 0\<rparr>
   }"

definition construct_at :: "u64 \<Rightarrow> 'a \<Rightarrow> 'a SpscQueue \<Rightarrow> 'a SpscQueue option" where
  "construct_at counter v q =
     (let i = slot_index counter (sq_mask q)
      in if i < length (sq_storage q) \<and> sq_storage q ! i = None
         then Some (q\<lparr>sq_storage := (sq_storage q)[i := Some v]\<rparr>) else None)"

definition move_from :: "u64 \<Rightarrow> 'a SpscQueue \<Rightarrow> 'a option" where
  "move_from counter q =
     (let i = slot_index counter (sq_mask q)
      in if i < length (sq_storage q) then sq_storage q ! i else None)"

definition destroy_at :: "u64 \<Rightarrow> 'a SpscQueue \<Rightarrow> 'a SpscQueue option" where
  "destroy_at counter q =
     (let i = slot_index counter (sq_mask q)
      in if i < length (sq_storage q) \<and> sq_storage q ! i \<noteq> None
         then Some (q\<lparr>sq_storage := (sq_storage q)[i := None]\<rparr>) else None)"

definition raise_high_water_mark :: "u64 \<Rightarrow> 'a SpscQueue \<Rightarrow> 'a SpscQueue" where
  "raise_high_water_mark new_occupancy q =
     (if sq_high_water_mark q < new_occupancy then q\<lparr>sq_high_water_mark := new_occupancy\<rparr> else q)"

section \<open>The operations on their own\<close>

definition try_push :: "'a \<Rightarrow> 'a SpscQueue \<Rightarrow> (bool \<times> 'a SpscQueue) option" where
  "try_push v q =
     (let h = sq_head q; t = sq_tail q
      in if sq_capacity q \<le> h - t then Some (False, q)
         else do {
           q \<leftarrow> construct_at h v q;
           let q = raise_high_water_mark (h + 1 - t) q;
           Some (True, q\<lparr>sq_head := h + 1\<rparr>)
         })"

definition try_pop :: "'a SpscQueue \<Rightarrow> ('a option \<times> 'a SpscQueue) option" where
  "try_pop q =
     (let t = sq_tail q; h = sq_head q
      in if t = h then Some (None, q)
         else do {
           v \<leftarrow> move_from t q;
           q \<leftarrow> destroy_at t q;
           Some (Some v, q\<lparr>sq_tail := t + 1\<rparr>)
         })"

definition queue_size :: "'a SpscQueue \<Rightarrow> u64" where
  "queue_size q = (let h = sq_head q; t = sq_tail q in h - t)"

section \<open>The operations in small steps\<close>

text \<open>Where a thread is: which loads it has made and holds in its registers.\<close>

datatype 'a Producer =
    ProducerIdle
  | LoadHead 'a
  | LoadTail 'a u64
  | Construct 'a u64 u64
  | RaiseMark 'a u64 u64
  | StoreHead 'a u64
  | Pushed bool

datatype 'a Consumer =
    ConsumerIdle
  | PopLoadTail
  | PopLoadHead u64
  | MoveOut u64
  | Destroy u64 'a
  | StoreTail u64 'a
  | Popped "'a option"

text \<open>\<open>published\<close> and \<open>received\<close> record what was published and taken so far; no step reads them.\<close>

record 'a Threads =
  th_queue :: "'a SpscQueue"
  th_producer :: "'a Producer"
  th_consumer :: "'a Consumer"
  th_published :: "'a list"
  th_received :: "'a list"

datatype 'a Action = CallPush 'a | ProducerStep | CallPop | ConsumerStep

fun producer_step :: "'a Threads \<Rightarrow> 'a Threads option" where
  "producer_step s =
     (let q = th_queue s in
      case th_producer s of
        LoadHead v \<Rightarrow> Some (s\<lparr>th_producer := LoadTail v (sq_head q)\<rparr>)
      | LoadTail v h \<Rightarrow>
          Some (s\<lparr>th_producer := (if sq_capacity q \<le> h - sq_tail q then Pushed False else Construct v h (sq_tail q))\<rparr>)
      | Construct v h t \<Rightarrow> map_option (\<lambda>q. s\<lparr>th_queue := q, th_producer := RaiseMark v h t\<rparr>) (construct_at h v q)
      | RaiseMark v h t \<Rightarrow>
          Some (s\<lparr>th_queue := raise_high_water_mark (h + 1 - t) q, th_producer := StoreHead v h\<rparr>)
      | StoreHead v h \<Rightarrow>
          Some (s\<lparr>th_queue := q\<lparr>sq_head := h + 1\<rparr>, th_producer := Pushed True, th_published := th_published s @ [v]\<rparr>)
      | _ \<Rightarrow> Some s)"

fun consumer_step :: "'a Threads \<Rightarrow> 'a Threads option" where
  "consumer_step s =
     (let q = th_queue s in
      case th_consumer s of
        PopLoadTail \<Rightarrow> Some (s\<lparr>th_consumer := PopLoadHead (sq_tail q)\<rparr>)
      | PopLoadHead t \<Rightarrow> Some (s\<lparr>th_consumer := (if t = sq_head q then Popped None else MoveOut t)\<rparr>)
      | MoveOut t \<Rightarrow> map_option (\<lambda>v. s\<lparr>th_consumer := Destroy t v\<rparr>) (move_from t q)
      | Destroy t v \<Rightarrow> map_option (\<lambda>q. s\<lparr>th_queue := q, th_consumer := StoreTail t v\<rparr>) (destroy_at t q)
      | StoreTail t v \<Rightarrow>
          Some (s\<lparr>th_queue := q\<lparr>sq_tail := t + 1\<rparr>, th_consumer := Popped (Some v), th_received := th_received s @ [v]\<rparr>)
      | _ \<Rightarrow> Some s)"

definition producer_free :: "'a Producer \<Rightarrow> bool" where
  "producer_free p \<longleftrightarrow> (case p of ProducerIdle \<Rightarrow> True | Pushed _ \<Rightarrow> True | _ \<Rightarrow> False)"

definition consumer_free :: "'a Consumer \<Rightarrow> bool" where
  "consumer_free c \<longleftrightarrow> (case c of ConsumerIdle \<Rightarrow> True | Popped _ \<Rightarrow> True | _ \<Rightarrow> False)"

fun act :: "'a Action \<Rightarrow> 'a Threads \<Rightarrow> 'a Threads option" where
  "act (CallPush v) s = Some (if producer_free (th_producer s) then s\<lparr>th_producer := LoadHead v\<rparr> else s)"
| "act ProducerStep s = producer_step s"
| "act CallPop s = Some (if consumer_free (th_consumer s) then s\<lparr>th_consumer := PopLoadTail\<rparr> else s)"
| "act ConsumerStep s = consumer_step s"

fun acts :: "'a Action list \<Rightarrow> 'a Threads \<Rightarrow> 'a Threads option" where
  "acts [] s = Some s"
| "acts (a # as) s = (case act a s of None \<Rightarrow> None | Some s \<Rightarrow> acts as s)"

definition start_threads :: "u64 \<Rightarrow> 'a Threads option" where
  "start_threads n = map_option (\<lambda>q. \<lparr>th_queue = q, th_producer = ProducerIdle, th_consumer = ConsumerIdle,
     th_published = [], th_received = []\<rparr>) (new_spsc_queue n)"

section \<open>The ring as a list\<close>

definition ring :: "'a SpscQueue \<Rightarrow> nat \<Rightarrow> nat \<Rightarrow> bool \<Rightarrow> 'a option \<Rightarrow> 'a list \<Rightarrow> bool" where
  \<comment> \<open>a queue of capacity \<open>2 ^ k\<close> that holds \<open>xs\<close>, after \<open>t\<close> values were taken\<close>
  "ring q k t gone coming xs \<longleftrightarrow>
     k \<le> 63 \<and> sq_capacity q = 2 ^ k \<and> sq_mask q = 2 ^ k - 1 \<and> length (sq_storage q) = 2 ^ k \<and>
     sq_tail q = of_nat t \<and> sq_head q = of_nat (t + length xs) \<and> length xs \<le> 2 ^ k \<and>
     window (sq_storage q) t (ring_slots gone coming xs) \<and> sq_high_water_mark q \<le> 2 ^ k"

lemma ring_counters:
  assumes "ring q k t gone coming xs"
  shows "sq_capacity q \<le> sq_head q - sq_tail q \<longleftrightarrow> length xs = 2 ^ k" "sq_tail q = sq_head q \<longleftrightarrow> xs = []"
    "unat (sq_head q - sq_tail q) = length xs"
  using assms counter_le [of t "t + length xs" k] counter_eq [of t "t + length xs" k] by (auto simp: ring_def)

lemma ring_slot:
  assumes "ring q k t gone coming xs" "i < 2 ^ k"
  shows "slot_index (of_nat (t + i)) (sq_mask q) < length (sq_storage q)"
    "sq_storage q ! slot_index (of_nat (t + i)) (sq_mask q) = ring_slots gone coming xs i"
    "window ((sq_storage q)[slot_index (of_nat (t + i)) (sq_mask q) := y]) t ((ring_slots gone coming xs)(i := y))"
proof -
  have r: "slot_index (of_nat (t + i)) (sq_mask q) = (t + i) mod length (sq_storage q)" "i < length (sq_storage q)"
    using assms slot_index [of k "t + i"] by (simp_all add: ring_def)
  have w: "window (sq_storage q) t (ring_slots gone coming xs)" using assms by (simp add: ring_def)
  show "slot_index (of_nat (t + i)) (sq_mask q) < length (sq_storage q)" using r by (metis gr_implies_not0 mod_less_divisor neq0_conv)
  show "sq_storage q ! slot_index (of_nat (t + i)) (sq_mask q) = ring_slots gone coming xs i" using window_get [OF w r(2)] r(1) by simp
  show "window ((sq_storage q)[slot_index (of_nat (t + i)) (sq_mask q) := y]) t ((ring_slots gone coming xs)(i := y))"
    unfolding r(1) by (rule window_put [OF w r(2)])
qed

lemma ring_construct:
  assumes r: "ring q k t gone None xs" and "length xs < 2 ^ k"
  obtains q' where "construct_at (sq_head q) v q = Some q'" "ring q' k t gone (Some v) xs"
    "sq_head q' = sq_head q" "sq_tail q' = sq_tail q" "sq_capacity q' = sq_capacity q"
proof -
  have h: "sq_head q = of_nat (t + length xs)" using r by (simp add: ring_def)
  note s = ring_slot [OF r assms(2), folded h]
  let ?q = "q\<lparr>sq_storage := (sq_storage q)[slot_index (sq_head q) (sq_mask q) := Some v]\<rparr>"
  have "construct_at (sq_head q) v q = Some ?q"
    using s(1,2) by (simp add: construct_at_def Let_def ring_slots_def)
  moreover have "ring ?q k t gone (Some v) xs"
    using r s(3) [of "Some v"] by (simp add: ring_def ring_slots_put)
  ultimately show thesis by (rule that) simp_all
qed

lemma ring_publish:
  assumes r: "ring q k t gone (Some v) xs" and "xs \<noteq> [] \<or> \<not> gone" "length xs < 2 ^ k"
  shows "ring (q\<lparr>sq_head := sq_head q + 1\<rparr>) k t gone None (xs @ [v])"
  using r assms(2,3) ring_slots_publish [of xs gone v] by (auto simp: ring_def add.commute)

lemma ring_move:
  assumes r: "ring q k t False coming xs" and "xs \<noteq> []"
  shows "move_from (sq_tail q) q = Some (hd xs)"
    "\<exists>q'. destroy_at (sq_tail q) q = Some q' \<and> ring q' k t True coming xs \<and> sq_tail q' = sq_tail q \<and> sq_head q' = sq_head q"
proof -
  have z: "(0 :: nat) < 2 ^ k" by simp
  have t: "sq_tail q = of_nat (t + 0)" using r by (simp add: ring_def)
  note s = ring_slot [OF r z, folded t]
  have f: "ring_slots False coming xs 0 = Some (hd xs)" using assms(2) by (simp add: ring_slots_def hd_conv_nth)
  show "move_from (sq_tail q) q = Some (hd xs)" using s(1,2) f by (simp add: move_from_def Let_def)
  let ?q = "q\<lparr>sq_storage := (sq_storage q)[slot_index (sq_tail q) (sq_mask q) := None]\<rparr>"
  have "destroy_at (sq_tail q) q = Some ?q" using s(1,2) f by (simp add: destroy_at_def Let_def)
  moreover have "ring ?q k t True coming xs" using r s(3) [of None] assms(2) by (simp add: ring_def ring_slots_take)
  ultimately show "\<exists>q'. destroy_at (sq_tail q) q = Some q' \<and> ring q' k t True coming xs \<and> sq_tail q' = sq_tail q \<and> sq_head q' = sq_head q"
    by simp
qed

lemma ring_release:
  assumes r: "ring q k t True coming xs" and "xs \<noteq> []" "coming = None \<or> length xs < 2 ^ k"
  shows "ring (q\<lparr>sq_tail := sq_tail q + 1\<rparr>) k (Suc t) False coming (tl xs)"
proof -
  have l: "length (sq_storage q) = 2 ^ k" and w: "window (sq_storage q) t (ring_slots True coming xs)" and n: "length xs \<le> 2 ^ k"
    using r by (simp_all add: ring_def)
  have "window (sq_storage q) (Suc t) (ring_slots False coming (tl xs))"
    by (rule window_cong [OF window_shift [OF w]]) (unfold l, rule ring_slots_release [OF assms(2) n assms(3)])
  then show ?thesis using r assms(2) by (cases xs) (auto simp: ring_def add.commute)
qed

lemma ring_mark:
  assumes "ring q k t gone coming xs" "m \<le> 2 ^ k"
  shows "ring (raise_high_water_mark m q) k t gone coming xs"
  using assms by (simp add: ring_def raise_high_water_mark_def)

section \<open>Uninterrupted operations\<close>

definition queue_ok :: "'a SpscQueue \<Rightarrow> bool" where
  "queue_ok q \<longleftrightarrow> (\<exists>k t xs. ring q k t False None xs)"

definition queue_contents :: "'a SpscQueue \<Rightarrow> 'a list" where
  \<comment> \<open>the live objects from the tail to the head\<close>
  "queue_contents q =
     map (\<lambda>i. the (sq_storage q ! slot_index (sq_tail q + of_nat i) (sq_mask q))) [0..<unat (sq_head q - sq_tail q)]"

lemma ring_contents:
  assumes r: "ring q k t False coming xs"
  shows "queue_contents q = xs"
proof (rule nth_equalityI)
  have l: "unat (sq_head q - sq_tail q) = length xs" by (rule ring_counters [OF r])
  then show "length (queue_contents q) = length xs" by (simp add: queue_contents_def)
  fix i assume i: "i < length (queue_contents q)"
  then have i': "i < length xs" "i < 2 ^ k" using l r by (simp_all add: queue_contents_def ring_def)
  have "sq_tail q + of_nat i = of_nat (t + i)" using r by (simp add: ring_def)
  then show "queue_contents q ! i = xs ! i"
    using ring_slot(2) [OF r i'(2)] i'(1) l by (simp add: queue_contents_def ring_slots_def)
qed

lemma ring_push:
  assumes r: "ring q k t False None xs"
  shows "length xs < 2 ^ k \<Longrightarrow> \<exists>q'. try_push v q = Some (True, q') \<and> ring q' k t False None (xs @ [v])"
    "length xs = 2 ^ k \<Longrightarrow> try_push v q = Some (False, q)"
proof -
  show "length xs = 2 ^ k \<Longrightarrow> try_push v q = Some (False, q)"
    using ring_counters(1) [OF r] by (simp add: try_push_def Let_def)
  assume l: "length xs < 2 ^ k"
  obtain q1 where q1: "construct_at (sq_head q) v q = Some q1" "ring q1 k t False (Some v) xs"
    "sq_head q1 = sq_head q" "sq_tail q1 = sq_tail q"
    by (rule ring_construct [OF r l]) (rule that)
  have k: "k \<le> 63" using r by (simp add: ring_def)
  let ?m = "sq_head q + 1 - sq_tail q"
  have m: "?m = of_nat (Suc (length xs))" using r by (simp add: ring_def)
  have "?m \<le> 2 ^ k" unfolding m by (rule counter_bound) (use l k in simp_all)
  then have "ring (raise_high_water_mark ?m q1) k t False (Some v) xs" by (rule ring_mark [OF q1(2)])
  from ring_publish [OF this _ l] have
    "ring ((raise_high_water_mark ?m q1)\<lparr>sq_head := sq_head (raise_high_water_mark ?m q1) + 1\<rparr>) k t False None (xs @ [v])" by simp
  moreover have "sq_head (raise_high_water_mark ?m q1) = sq_head q" using q1(3) by (simp add: raise_high_water_mark_def)
  moreover have "\<not> sq_capacity q \<le> sq_head q - sq_tail q" using ring_counters(1) [OF r] l by simp
  ultimately show "\<exists>q'. try_push v q = Some (True, q') \<and> ring q' k t False None (xs @ [v])"
    using q1(1) by (simp add: try_push_def Let_def)
qed

lemma ring_pop:
  assumes r: "ring q k t False None xs"
  shows "xs = [] \<Longrightarrow> try_pop q = Some (None, q)"
    "xs \<noteq> [] \<Longrightarrow> \<exists>q'. try_pop q = Some (Some (hd xs), q') \<and> ring q' k (Suc t) False None (tl xs)"
proof -
  show "xs = [] \<Longrightarrow> try_pop q = Some (None, q)" using ring_counters(2) [OF r] by (simp add: try_pop_def Let_def)
  assume n: "xs \<noteq> []"
  obtain q1 where q1: "destroy_at (sq_tail q) q = Some q1" "ring q1 k t True None xs" "sq_tail q1 = sq_tail q"
    using ring_move(2) [OF r n] by blast
  have "ring (q1\<lparr>sq_tail := sq_tail q + 1\<rparr>) k (Suc t) False None (tl xs)"
    using ring_release [OF q1(2) n] q1(3) by simp
  then show "\<exists>q'. try_pop q = Some (Some (hd xs), q') \<and> ring q' k (Suc t) False None (tl xs)"
    using ring_move(1) [OF r n] q1(1) ring_counters(2) [OF r] n by (simp add: try_pop_def Let_def)
qed

interpretation spsc: bounded_queue queue_ok "\<lambda>_. True" queue_contents "\<lambda>q. unat (sq_capacity q)" try_push try_pop
proof
  fix q :: "'a SpscQueue" and x :: 'a and xs :: "'a list"
  { assume "queue_ok q"
    then obtain k t ys where r: "ring q k t False None ys" by (auto simp: queue_ok_def)
    then have c: "queue_contents q = ys" "unat (sq_capacity q) = 2 ^ k" "length ys \<le> 2 ^ k"
      using ring_contents [OF r] unat_pow [of k] by (simp_all add: ring_def)
    have cap: "unat (sq_capacity q') = 2 ^ k" if "ring q' k t' False None zs" for q' t' and zs :: "'a list"
      using that unat_pow [of k] by (simp add: ring_def)
    { assume "length (queue_contents q) < unat (sq_capacity q)"
      then obtain q' where "try_push x q = Some (True, q')" "ring q' k t False None (ys @ [x])"
        using ring_push(1) [OF r] c by auto
      then show "\<exists>q'. try_push x q = Some (True, q') \<and> queue_ok q' \<and> queue_contents q' = queue_contents q @ [x] \<and>
          unat (sq_capacity q') = unat (sq_capacity q)"
        using ring_contents c cap by (auto simp: queue_ok_def) }
    { assume "unat (sq_capacity q) \<le> length (queue_contents q)"
      then show "\<exists>q'. try_push x q = Some (False, q') \<and> queue_ok q' \<and> queue_contents q' = queue_contents q \<and>
          unat (sq_capacity q') = unat (sq_capacity q)"
        using ring_push(2) [OF r] c \<open>queue_ok q\<close> by simp }
    { assume "queue_contents q = []" then show "try_pop q = Some (None, q)" using ring_pop(1) [OF r] c(1) by simp }
    { assume "queue_contents q = x # xs"
      then obtain q' where "try_pop q = Some (Some x, q')" "ring q' k (Suc t) False None xs"
        using ring_pop(2) [OF r] c(1) by auto
      then show "\<exists>q'. try_pop q = Some (Some x, q') \<and> queue_ok q' \<and> queue_contents q' = xs \<and>
          unat (sq_capacity q') = unat (sq_capacity q)"
        using ring_contents c(2) cap by (auto simp: queue_ok_def) } }
qed

lemma new_ring:
  assumes "unat n \<le> 2 ^ 63"
  obtains q :: "'a SpscQueue" and k where "new_spsc_queue n = Some q" "ring q k 0 False None []" "unat n \<le> 2 ^ k"
proof -
  obtain k where k: "k \<le> 63" "next_power_of_two n = Some (2 ^ k)" "unat n \<le> 2 ^ k" by (rule next_power_of_two [OF assms]) (rule that)
  let ?q = "\<lparr>sq_capacity = 2 ^ k, sq_mask = 2 ^ k - 1, sq_storage = replicate (2 ^ k) None, sq_high_water_mark = 0,
    sq_head = 0, sq_tail = 0\<rparr> :: 'a SpscQueue"
  have "new_spsc_queue n = Some ?q" by (simp add: new_spsc_queue_def k(2) unat_pow [OF k(1)])
  moreover have "ring ?q k 0 False None []" using k(1) by (simp add: ring_def window_def ring_slots_def)
  ultimately show thesis using that k(3) by blast
qed

section \<open>Interleaved operations\<close>

definition coming_in :: "'a Producer \<Rightarrow> 'a option" where
  "coming_in p = (case p of RaiseMark v _ _ \<Rightarrow> Some v | StoreHead v _ \<Rightarrow> Some v | _ \<Rightarrow> None)"

definition going_out :: "'a Consumer \<Rightarrow> bool" where
  "going_out c \<longleftrightarrow> (case c of StoreTail _ _ \<Rightarrow> True | _ \<Rightarrow> False)"

text \<open>The producer's view of the tail may be old, but never newer than the tail: it sees the queue at least as full.\<close>

definition saw_room :: "nat \<Rightarrow> nat \<Rightarrow> 'a list \<Rightarrow> u64 \<Rightarrow> bool" where
  "saw_room k t xs u \<longleftrightarrow> (\<exists>t' \<le> t. u = of_nat t' \<and> t + length xs - t' < 2 ^ k)"

definition producer_ok :: "nat \<Rightarrow> nat \<Rightarrow> 'a list \<Rightarrow> u64 \<Rightarrow> 'a Producer \<Rightarrow> bool" where
  "producer_ok k t xs head p \<longleftrightarrow>
     (case p of LoadTail v h \<Rightarrow> h = head
      | Construct v h u \<Rightarrow> h = head \<and> saw_room k t xs u
      | RaiseMark v h u \<Rightarrow> h = head \<and> saw_room k t xs u
      | StoreHead v h \<Rightarrow> h = head \<and> length xs < 2 ^ k
      | _ \<Rightarrow> True)"

definition consumer_ok :: "'a list \<Rightarrow> u64 \<Rightarrow> 'a Consumer \<Rightarrow> bool" where
  "consumer_ok xs tail c \<longleftrightarrow>
     (case c of PopLoadHead u \<Rightarrow> u = tail
      | MoveOut u \<Rightarrow> u = tail \<and> xs \<noteq> []
      | Destroy u v \<Rightarrow> u = tail \<and> xs \<noteq> [] \<and> v = hd xs
      | StoreTail u v \<Rightarrow> u = tail \<and> xs \<noteq> [] \<and> v = hd xs
      | _ \<Rightarrow> True)"

definition threads_ok :: "nat \<Rightarrow> 'a list \<Rightarrow> 'a Threads \<Rightarrow> bool" where
  \<comment> \<open>\<open>xs\<close> is published and not yet taken\<close>
  "threads_ok k xs s \<longleftrightarrow>
     th_published s = th_received s @ xs \<and>
     ring (th_queue s) k (length (th_received s)) (going_out (th_consumer s)) (coming_in (th_producer s)) xs \<and>
     producer_ok k (length (th_received s)) xs (sq_head (th_queue s)) (th_producer s) \<and>
     consumer_ok xs (sq_tail (th_queue s)) (th_consumer s)"

lemma saw_room: "saw_room k t xs u \<Longrightarrow> length xs < 2 ^ k"
  by (auto simp: saw_room_def)

lemma saw_room_mark:
  assumes "saw_room k t xs u" "k \<le> 63"
  shows "of_nat (t + length xs) + 1 - u \<le> 2 ^ k"
proof -
  obtain t' where t': "t' \<le> t" "u = of_nat t'" "t + length xs - t' < 2 ^ k" using assms(1) by (auto simp: saw_room_def)
  have "of_nat (t + length xs) + 1 - u = (of_nat (Suc (t + length xs - t')) :: u64)"
    using t'(1,2) by (simp add: of_nat_diff)
  moreover have "Suc (t + length xs - t') \<le> 2 ^ k" using t'(3) by simp
  ultimately show ?thesis by (simp only: counter_bound assms(2))
qed

lemma producer_kept:
  assumes ok: "threads_ok k xs s"
  shows "\<exists>s' xs'. producer_step s = Some s' \<and> threads_ok k xs' s'"
proof (cases "th_producer s")
  case (LoadHead v)
  then show ?thesis using ok by (auto simp: threads_ok_def producer_ok_def coming_in_def intro!: exI [of _ xs])
next
  case (LoadTail v h)
  let ?q = "th_queue s" and ?t = "length (th_received s)"
  have r: "ring ?q k ?t (going_out (th_consumer s)) None xs" and h: "h = sq_head ?q"
    using ok LoadTail by (simp_all add: threads_ok_def producer_ok_def coming_in_def)
  have "saw_room k ?t xs (sq_tail ?q)" if "length xs \<noteq> 2 ^ k"
    using r that by (auto simp: saw_room_def ring_def intro!: exI [of _ ?t])
  then show ?thesis using ok LoadTail ring_counters(1) [OF r] h
    by (auto simp: threads_ok_def producer_ok_def coming_in_def Let_def intro!: exI [of _ xs])
next
  case (Construct v h u)
  let ?q = "th_queue s"
  have r: "ring ?q k (length (th_received s)) (going_out (th_consumer s)) None xs" and h: "h = sq_head ?q" "saw_room k (length (th_received s)) xs u"
    using ok Construct by (simp_all add: threads_ok_def producer_ok_def coming_in_def)
  obtain q' where "construct_at (sq_head ?q) v ?q = Some q'" "ring q' k (length (th_received s)) (going_out (th_consumer s)) (Some v) xs"
    "sq_head q' = sq_head ?q" "sq_tail q' = sq_tail ?q"
    by (rule ring_construct [OF r saw_room [OF h(2)]]) (rule that)
  then show ?thesis using ok Construct h by (auto simp: threads_ok_def producer_ok_def coming_in_def intro!: exI [of _ xs])
next
  case (RaiseMark v h u)
  let ?q = "th_queue s"
  have r: "ring ?q k (length (th_received s)) (going_out (th_consumer s)) (Some v) xs" and h: "h = sq_head ?q" "saw_room k (length (th_received s)) xs u"
    using ok RaiseMark by (simp_all add: threads_ok_def producer_ok_def coming_in_def)
  have "h + 1 - u \<le> 2 ^ k"
    using saw_room_mark [OF h(2)] r h(1) by (simp add: ring_def)
  then have "ring (raise_high_water_mark (h + 1 - u) ?q) k (length (th_received s)) (going_out (th_consumer s)) (Some v) xs"
    by (rule ring_mark [OF r])
  moreover have "sq_head (raise_high_water_mark m ?q) = sq_head ?q" "sq_tail (raise_high_water_mark m ?q) = sq_tail ?q" for m
    by (simp_all add: raise_high_water_mark_def)
  ultimately show ?thesis using ok RaiseMark saw_room [OF h(2)]
    by (auto simp: threads_ok_def producer_ok_def coming_in_def intro!: exI [of _ xs])
next
  case (StoreHead v h)
  let ?q = "th_queue s"
  have r: "ring ?q k (length (th_received s)) (going_out (th_consumer s)) (Some v) xs" and h: "h = sq_head ?q" "length xs < 2 ^ k"
    and c: "consumer_ok xs (sq_tail ?q) (th_consumer s)"
    using ok StoreHead by (simp_all add: threads_ok_def producer_ok_def coming_in_def)
  have g: "xs \<noteq> [] \<or> \<not> going_out (th_consumer s)"
    using c by (cases "th_consumer s") (auto simp: going_out_def consumer_ok_def)
  have "consumer_ok (xs @ [v]) (sq_tail ?q) (th_consumer s)"
    using c by (cases "th_consumer s") (auto simp: consumer_ok_def)
  then show ?thesis using ok StoreHead ring_publish [OF r g h(2)] h(1)
    by (auto simp: threads_ok_def producer_ok_def coming_in_def intro!: exI [of _ "xs @ [v]"])
qed (use ok in \<open>auto intro!: exI [of _ xs]\<close>)

lemma consumer_kept:
  assumes ok: "threads_ok k xs s"
  shows "\<exists>s' xs'. consumer_step s = Some s' \<and> threads_ok k xs' s'"
proof (cases "th_consumer s")
  case PopLoadTail
  then show ?thesis using ok by (auto simp: threads_ok_def consumer_ok_def going_out_def intro!: exI [of _ xs])
next
  case (PopLoadHead u)
  have r: "ring (th_queue s) k (length (th_received s)) False (coming_in (th_producer s)) xs" and u: "u = sq_tail (th_queue s)"
    using ok PopLoadHead by (simp_all add: threads_ok_def consumer_ok_def going_out_def)
  then show ?thesis using ok PopLoadHead ring_counters(2) [OF r]
    by (auto simp: threads_ok_def consumer_ok_def going_out_def intro!: exI [of _ xs])
next
  case (MoveOut u)
  have r: "ring (th_queue s) k (length (th_received s)) False (coming_in (th_producer s)) xs" and u: "u = sq_tail (th_queue s)" "xs \<noteq> []"
    using ok MoveOut by (simp_all add: threads_ok_def consumer_ok_def going_out_def)
  then show ?thesis using ok MoveOut ring_move(1) [OF r u(2)]
    by (auto simp: threads_ok_def consumer_ok_def going_out_def intro!: exI [of _ xs])
next
  case (Destroy u v)
  have r: "ring (th_queue s) k (length (th_received s)) False (coming_in (th_producer s)) xs" and u: "u = sq_tail (th_queue s)" "xs \<noteq> []"
    using ok Destroy by (simp_all add: threads_ok_def consumer_ok_def going_out_def)
  then show ?thesis using ok Destroy ring_move(2) [OF r u(2)]
    by (auto simp: threads_ok_def consumer_ok_def going_out_def intro!: exI [of _ xs])
next
  case (StoreTail u v)
  let ?t = "length (th_received s)"
  have r: "ring (th_queue s) k ?t True (coming_in (th_producer s)) xs" and u: "u = sq_tail (th_queue s)" "xs \<noteq> []" "v = hd xs"
    and p: "producer_ok k ?t xs (sq_head (th_queue s)) (th_producer s)"
    using ok StoreTail by (simp_all add: threads_ok_def consumer_ok_def going_out_def)
  have room: "coming_in (th_producer s) = None \<or> length xs < 2 ^ k"
    using p saw_room [of k ?t xs] by (cases "th_producer s") (auto simp: coming_in_def producer_ok_def)
  have "saw_room k (Suc ?t) (tl xs) m" if "saw_room k ?t xs m" for m
    using that u(2) by (cases xs) (auto simp: saw_room_def intro: le_SucI)
  then have "producer_ok k (Suc ?t) (tl xs) (sq_head (th_queue s)) (th_producer s)"
    using p by (cases "th_producer s") (auto simp: producer_ok_def)
  then show ?thesis using ok StoreTail ring_release [OF r u(2) room] u
    by (auto simp: threads_ok_def consumer_ok_def going_out_def intro!: exI [of _ "tl xs"])
qed (use ok in \<open>auto intro!: exI [of _ xs]\<close>)

lemma act_kept:
  assumes ok: "threads_ok k xs s"
  shows "\<exists>s' xs'. act a s = Some s' \<and> threads_ok k xs' s'"
proof (cases a)
  case (CallPush v)
  then show ?thesis using ok
    by (cases "th_producer s") (auto simp: producer_free_def threads_ok_def producer_ok_def coming_in_def intro!: exI [of _ xs])
next
  case CallPop
  then show ?thesis using ok
    by (cases "th_consumer s") (auto simp: consumer_free_def threads_ok_def consumer_ok_def going_out_def intro!: exI [of _ xs])
qed (use ok producer_kept consumer_kept in \<open>auto simp del: producer_step.simps consumer_step.simps\<close>)

lemma acts_kept:
  assumes "threads_ok k xs s"
  shows "\<exists>s' xs'. acts as s = Some s' \<and> threads_ok k xs' s'"
  using assms
proof (induction as arbitrary: xs s)
  case (Cons a as)
  then show ?case using act_kept [OF Cons.prems, of a] by (auto simp del: act.simps)
qed auto

lemma start_ok:
  assumes "unat n \<le> 2 ^ 63"
  obtains s :: "'a Threads" and k where "start_threads n = Some s" "threads_ok k [] s" "unat n \<le> 2 ^ k" "th_producer s = ProducerIdle"
proof -
  obtain q :: "'a SpscQueue" and k where q: "new_spsc_queue n = Some q" "ring q k 0 False None []" "unat n \<le> 2 ^ k"
    by (rule new_ring [OF assms]) (rule that)
  show thesis
    by (rule that [of "\<lparr>th_queue = q, th_producer = ProducerIdle, th_consumer = ConsumerIdle, th_published = [], th_received = []\<rparr>" k])
       (use q in \<open>simp_all add: start_threads_def threads_ok_def producer_ok_def consumer_ok_def going_out_def coming_in_def\<close>)
qed

section \<open>The dropping queue\<close>

record 'a DroppingQueue =
  dq_queue :: "'a SpscQueue"
  dq_dropped_count :: u64

definition new_dropping_queue :: "u64 \<Rightarrow> 'a DroppingQueue option" where
  "new_dropping_queue n = map_option (\<lambda>q. \<lparr>dq_queue = q, dq_dropped_count = 0\<rparr>) (new_spsc_queue n)"

definition dropping_push :: "'a \<Rightarrow> 'a DroppingQueue \<Rightarrow> (bool \<times> 'a DroppingQueue) option" where
  "dropping_push v d = do {
     (pushed, q) \<leftarrow> try_push v (dq_queue d);
     if pushed then Some (True, d\<lparr>dq_queue := q\<rparr>)
     else Some (False, d\<lparr>dq_queue := q, dq_dropped_count := dq_dropped_count d + 1\<rparr>)
   }"

definition dropping_try_pop :: "'a DroppingQueue \<Rightarrow> ('a option \<times> 'a DroppingQueue) option" where
  "dropping_try_pop d = map_option (\<lambda>(v, q). (v, d\<lparr>dq_queue := q\<rparr>)) (try_pop (dq_queue d))"

interpretation dropping: bounded_queue "\<lambda>d. queue_ok (dq_queue d)" "\<lambda>_. True" "\<lambda>d. queue_contents (dq_queue d)"
  "\<lambda>d. unat (sq_capacity (dq_queue d))" dropping_push dropping_try_pop
proof
  fix d :: "'a DroppingQueue" and x :: 'a and xs :: "'a list"
  assume ok: "queue_ok (dq_queue d)"
  show "length (queue_contents (dq_queue d)) < unat (sq_capacity (dq_queue d)) \<Longrightarrow>
      \<exists>d'. dropping_push x d = Some (True, d') \<and> queue_ok (dq_queue d') \<and>
        queue_contents (dq_queue d') = queue_contents (dq_queue d) @ [x] \<and> unat (sq_capacity (dq_queue d')) = unat (sq_capacity (dq_queue d))"
    using spsc.push_room [OF ok TrueI, of x] by (auto simp: dropping_push_def)
  show "unat (sq_capacity (dq_queue d)) \<le> length (queue_contents (dq_queue d)) \<Longrightarrow>
      \<exists>d'. dropping_push x d = Some (False, d') \<and> queue_ok (dq_queue d') \<and>
        queue_contents (dq_queue d') = queue_contents (dq_queue d) \<and> unat (sq_capacity (dq_queue d')) = unat (sq_capacity (dq_queue d))"
    using spsc.push_full [OF ok, of x] by (auto simp: dropping_push_def)
  show "queue_contents (dq_queue d) = [] \<Longrightarrow> dropping_try_pop d = Some (None, d)"
    using spsc.pop_empty [OF ok] by (simp add: dropping_try_pop_def)
  show "queue_contents (dq_queue d) = x # xs \<Longrightarrow>
      \<exists>d'. dropping_try_pop d = Some (Some x, d') \<and> queue_ok (dq_queue d') \<and>
        queue_contents (dq_queue d') = xs \<and> unat (sq_capacity (dq_queue d')) = unat (sq_capacity (dq_queue d))"
    using spsc.pop_some [OF ok] by (force simp: dropping_try_pop_def)
qed

lemma new_dropping_queue:
  assumes "unat n \<le> 2 ^ 63"
  obtains d :: "'a DroppingQueue" where "new_dropping_queue n = Some d" "queue_ok (dq_queue d)" "queue_contents (dq_queue d) = []"
    "unat n \<le> unat (sq_capacity (dq_queue d))" "dq_dropped_count d = 0"
proof -
  obtain q :: "'a SpscQueue" and k where q: "new_spsc_queue n = Some q" "ring q k 0 False None []" "unat n \<le> 2 ^ k"
    by (rule new_ring [OF assms]) (rule that)
  have "queue_ok q" using q(2) unfolding queue_ok_def by blast
  moreover have "unat (sq_capacity q) = 2 ^ k" using q(2) unat_pow [of k] by (simp add: ring_def)
  ultimately show thesis
    by (intro that [of "\<lparr>dq_queue = q, dq_dropped_count = 0\<rparr>"]) (use q ring_contents [OF q(2)] in \<open>simp_all add: new_dropping_queue_def\<close>)
qed

section \<open>Properties\<close>

text \<open>
  C14. The lock-free queue is a FIFO under every interleaving: whatever the two threads do, and in whatever
  order their accesses to memory take effect, no object is constructed over a live one, moved from or
  destroyed while dead; what was taken is a prefix of what was published, in order; at most
  capacity values are in between, and the high-water mark stays within the capacity.
\<close>

theorem spsc_queue_is_fifo_under_interleaving:
  assumes "unat n \<le> 2 ^ 63"
  shows "\<exists>s0 s xs. start_threads n = Some s0 \<and> acts as s0 = Some s \<and> th_published s = th_received s @ xs \<and>
    length xs \<le> unat (sq_capacity (th_queue s)) \<and> unat n \<le> unat (sq_capacity (th_queue s)) \<and>
    sq_high_water_mark (th_queue s) \<le> sq_capacity (th_queue s)"
proof -
  obtain s0 :: "'a Threads" and k where s0: "start_threads n = Some s0" "threads_ok k [] s0" "unat n \<le> 2 ^ k"
    by (rule start_ok [OF assms]) (rule that)
  obtain s xs where s: "acts as s0 = Some s" "threads_ok k xs s" using acts_kept [OF s0(2)] by blast
  then have r: "ring (th_queue s) k (length (th_received s)) (going_out (th_consumer s)) (coming_in (th_producer s)) xs"
    by (simp add: threads_ok_def)
  then have "unat (sq_capacity (th_queue s)) = 2 ^ k" by (simp add: ring_def unat_pow)
  then show ?thesis using s0 s r by (auto simp: threads_ok_def ring_def)
qed

definition sample_schedule :: "nat Action list" where
  "sample_schedule = [CallPush 7, CallPop, ProducerStep, ConsumerStep, ProducerStep, ConsumerStep, ProducerStep, CallPop,
     ProducerStep, ConsumerStep, ProducerStep, ConsumerStep, ConsumerStep, ConsumerStep, ConsumerStep]"

theorem spsc_queue_is_fifo_under_interleaving_witness:
  "\<exists>s0 s xs. start_threads 1 = Some s0 \<and> acts sample_schedule s0 = Some s \<and> th_published s = th_received s @ xs"
  using spsc_queue_is_fifo_under_interleaving [of 1 sample_schedule] by auto

text \<open>
  A refusal tells the truth: \<open>try_push\<close> returns false only when, at its load of the tail, capacity
  values are published and not yet taken; \<open>try_pop\<close> returns nothing only when, at its load of the head,
  everything published is taken.
\<close>


theorem spsc_refusals_are_justified:
  assumes "unat n \<le> 2 ^ 63" "start_threads n = Some s0" "acts as s0 = Some s" "act a s = Some s'"
  shows "(th_producer s \<noteq> Pushed False \<and> th_producer s' = Pushed False \<longrightarrow>
      length (th_published s) = length (th_received s) + unat (sq_capacity (th_queue s))) \<and>
    (th_consumer s \<noteq> Popped None \<and> th_consumer s' = Popped None \<longrightarrow> th_published s = th_received s)"
proof -
  obtain k where k: "threads_ok k [] s0" using start_ok [OF assms(1)] assms(2) by (metis option.inject)
  obtain xs where ok: "threads_ok k xs s" using acts_kept [OF k, of as] assms(3) by auto
  then have r: "ring (th_queue s) k (length (th_received s)) (going_out (th_consumer s)) (coming_in (th_producer s)) xs"
    by (simp add: threads_ok_def)
  then have c: "unat (sq_capacity (th_queue s)) = 2 ^ k" by (simp add: ring_def unat_pow)
  note rc = ring_counters(1,2) [OF r]
  show ?thesis
  proof (cases a)
    case (CallPush v)
    then show ?thesis using assms(4) by (auto split: if_splits)
  next
    case ProducerStep
    then show ?thesis using assms(4) ok rc c
      by (auto simp: Let_def threads_ok_def producer_ok_def split: Producer.splits if_splits)
  next
    case CallPop
    then show ?thesis using assms(4) by (auto split: if_splits)
  next
    case ConsumerStep
    then show ?thesis using assms(4) ok rc c
      by (auto simp: Let_def threads_ok_def consumer_ok_def split: Consumer.splits if_splits)
  qed
qed

lemma start_one: "start_threads 1 = Some \<lparr>th_queue = \<lparr>sq_capacity = 1, sq_mask = 0, sq_storage = [None], sq_high_water_mark = 0,
    sq_head = 0, sq_tail = 0\<rparr>, th_producer = ProducerIdle, th_consumer = ConsumerIdle, th_published = [], th_received = []\<rparr>"
proof -
  have "next_power_of_two 1 = Some 1" unfolding next_power_of_two_def by (subst round_up.simps) simp
  then show ?thesis by (simp add: start_threads_def new_spsc_queue_def)
qed

lemmas step_defs = Let_def producer_free_def consumer_free_def construct_at_def move_from_def destroy_at_def
  slot_index_def raise_high_water_mark_def

theorem spsc_refusals_are_justified_witness:
  "\<exists>s0 s s'. start_threads 1 = Some s0 \<and> acts [CallPop, ConsumerStep] s0 = Some s \<and> act ConsumerStep s = Some (s' :: nat Threads) \<and>
     th_consumer s' = Popped None \<and> th_published s = th_received s"
proof -
  let ?a = "\<lparr>th_queue = \<lparr>sq_capacity = 1, sq_mask = 0, sq_storage = [None], sq_high_water_mark = 0,
    sq_head = 0, sq_tail = 0\<rparr>, th_producer = ProducerIdle, th_consumer = ConsumerIdle, th_published = [], th_received = []\<rparr> :: nat Threads"
  let ?b = "\<lparr>th_queue = \<lparr>sq_capacity = 1, sq_mask = 0, sq_storage = [None], sq_high_water_mark = 0,
    sq_head = 0, sq_tail = 0\<rparr>, th_producer = ProducerIdle, th_consumer = PopLoadHead 0, th_published = [], th_received = []\<rparr> :: nat Threads"
  let ?c = "\<lparr>th_queue = \<lparr>sq_capacity = 1, sq_mask = 0, sq_storage = [None], sq_high_water_mark = 0,
    sq_head = 0, sq_tail = 0\<rparr>, th_producer = ProducerIdle, th_consumer = Popped None, th_published = [], th_received = []\<rparr> :: nat Threads"
  have step1: "acts [CallPop, ConsumerStep] ?a = Some ?b"
    by (simp add: step_defs)
  have step2: "act ConsumerStep ?b = Some ?c"
    by (simp add: step_defs)
  note steps = step1 step2
  have "th_published ?b = th_received ?b"
    using spsc_refusals_are_justified [OF _ start_one steps] by simp
  then show ?thesis using start_one steps
    by (intro exI [of _ ?a] exI [of _ ?b] exI [of _ ?c]) (simp del: act.simps acts.simps)
qed

definition size_read :: "'a SpscQueue \<Rightarrow> 'a SpscQueue \<Rightarrow> u64" where
  \<comment> \<open>\<open>size()\<close> with its first load in one state and its second in a later one\<close>
  "size_read q q' = sq_head q - sq_tail q'"

text \<open>
  \<open>size()\<close> reads the head and then the tail: when a value is pushed and popped in between, the
  difference wraps, and a queue of capacity one reports \<open>2 ^ 64 - 1\<close> elements.
\<close>

theorem spsc_size_can_wrap:
  "\<exists>s0 as s. start_threads 1 = Some s0 \<and> acts as s0 = Some (s :: nat Threads) \<and> size_read (th_queue s0) (th_queue s) = 2 ^ 64 - 1 \<and>
    sq_capacity (th_queue s) = 1"
proof (intro exI conjI)
  show "start_threads 1 = Some \<lparr>th_queue = \<lparr>sq_capacity = 1, sq_mask = 0, sq_storage = [None], sq_high_water_mark = 0,
    sq_head = 0, sq_tail = 0\<rparr>, th_producer = ProducerIdle, th_consumer = ConsumerIdle, th_published = [], th_received = []\<rparr>"
    by (rule start_one)
  let ?as = "[CallPush (7 :: nat), ProducerStep, ProducerStep, ProducerStep, ProducerStep, ProducerStep,
    CallPop, ConsumerStep, ConsumerStep, ConsumerStep, ConsumerStep, ConsumerStep]"
  let ?s = "\<lparr>th_queue = \<lparr>sq_capacity = 1, sq_mask = 0, sq_storage = [None], sq_high_water_mark = 1,
    sq_head = 1, sq_tail = 1\<rparr>, th_producer = Pushed True, th_consumer = Popped (Some 7), th_published = [7], th_received = [7]\<rparr> :: nat Threads"
  show "acts ?as \<lparr>th_queue = \<lparr>sq_capacity = 1, sq_mask = 0, sq_storage = [None], sq_high_water_mark = 0,
    sq_head = 0, sq_tail = 0\<rparr>, th_producer = ProducerIdle, th_consumer = ConsumerIdle, th_published = [], th_received = []\<rparr> = Some ?s"
    by (simp add: step_defs)
qed (simp_all add: size_read_def)

end
