(* ===== verification/OrderManagement.thy ===== *)
theory OrderManagement
  imports OrderEntryCodec
begin

text \<open>
  The trader's order management system: \<open>src/include/trader/oms/client_order.hpp\<close>,
  \<open>order_management_system.hpp\<close> and \<open>src/src/trader/oms/order_management_system.cpp\<close>. What the code
  hands to its sinks is a list of notices; the sender is a parameter that says whether a message could be
  sent. Each operation returns the message it handed to the sender beside its own result.
\<close>

section \<open>Orders\<close>

datatype ClientOrderState =
    PendingNew
  | Live
  | PartiallyFilled
  | Filled
  | RejectedOrder \<comment> \<open>\<open>ClientOrderState::Rejected\<close>\<close>
  | CancelledOrder \<comment> \<open>\<open>ClientOrderState::Cancelled\<close>\<close>
  | ReplacedOrder \<comment> \<open>\<open>ClientOrderState::Replaced\<close>\<close>

fun is_terminal :: "ClientOrderState \<Rightarrow> bool" where
  "is_terminal Filled = True"
| "is_terminal RejectedOrder = True"
| "is_terminal CancelledOrder = True"
| "is_terminal ReplacedOrder = True"
| "is_terminal PendingNew = False"
| "is_terminal Live = False"
| "is_terminal PartiallyFilled = False"

definition is_live :: "ClientOrderState \<Rightarrow> bool" where
  "is_live state \<longleftrightarrow> state = Live \<or> state = PartiallyFilled"

datatype PendingAction = NoAction | CancelPending | ReplacePending

record ClientOrder =
  ord_account_id :: AccountId
  ord_client_order_id :: ClientOrderId
  ord_exchange_order_id :: "ExchangeOrderId option"
  ord_instrument_id :: InstrumentId
  ord_side :: Side
  ord_price :: Price
  ord_quantity :: Quantity
  ord_remaining_quantity :: Quantity
  ord_order_type :: OrderType
  ord_time_in_force :: TimeInForce
  ord_state :: ClientOrderState
  ord_pending_action :: PendingAction
  ord_last_reject_reason :: RejectReason

record Fill =
  fl_account_id :: AccountId
  fl_client_order_id :: ClientOrderId
  fl_instrument_id :: InstrumentId
  fl_side :: Side
  fl_price :: Price
  fl_quantity :: Quantity

datatype Notice =
    OrderUpdate ClientOrder \<comment> \<open>\<open>update_sink_\<close>\<close>
  | FillNotice Fill \<comment> \<open>\<open>fill_sink_\<close>\<close>

type_synonym Orders = "ClientOrderId \<rightharpoonup> ClientOrder"

record OrderManagementSystem =
  om_account_id :: AccountId
  om_next_client_order_id :: ClientOrderId
  om_orders :: Orders

definition new_oms :: "AccountId \<Rightarrow> OrderManagementSystem" where
  "new_oms a = \<lparr>om_account_id = a, om_next_client_order_id = 1, om_orders = Map.empty\<rparr>"

type_synonym Sender = "Message \<Rightarrow> bool"

definition emplace :: "'k \<Rightarrow> 'v \<Rightarrow> ('k \<rightharpoonup> 'v) \<Rightarrow> ('k \<rightharpoonup> 'v)" where
  \<comment> \<open>\<open>unordered_map::emplace\<close> leaves a key that is there alone\<close>
  "emplace k v m = (if m k = None then m(k \<mapsto> v) else m)"

section \<open>Requests\<close>

definition pending_order :: "AccountId \<Rightarrow> ClientOrderId \<Rightarrow> InstrumentId \<Rightarrow> Side \<Rightarrow> Price \<Rightarrow> Quantity \<Rightarrow> OrderType \<Rightarrow>
    TimeInForce \<Rightarrow> ClientOrder" where
  "pending_order a c i sd p q t tif =
     \<lparr>ord_account_id = a, ord_client_order_id = c, ord_exchange_order_id = None, ord_instrument_id = i, ord_side = sd,
      ord_price = p, ord_quantity = q, ord_remaining_quantity = q, ord_order_type = t, ord_time_in_force = tif,
      ord_state = PendingNew, ord_pending_action = NoAction, ord_last_reject_reason = NoReason\<rparr>"

definition mark_send_failed :: "ClientOrderId \<Rightarrow> OrderManagementSystem \<Rightarrow> OrderManagementSystem \<times> Notice list" where
  "mark_send_failed c m =
     (case om_orders m c of
        None \<Rightarrow> (m, [])
      | Some r \<Rightarrow>
          let r = r\<lparr>ord_state := RejectedOrder, ord_pending_action := NoAction, ord_last_reject_reason := InternalError\<rparr>
          in (m\<lparr>om_orders := (om_orders m)(c \<mapsto> r)\<rparr>, [OrderUpdate r]))"

definition clear_pending_action :: "ClientOrderId \<Rightarrow> OrderManagementSystem \<Rightarrow> OrderManagementSystem" where
  "clear_pending_action c m =
     (case om_orders m c of
        None \<Rightarrow> m
      | Some r \<Rightarrow> m\<lparr>om_orders := (om_orders m)(c \<mapsto> r\<lparr>ord_pending_action := NoAction\<rparr>)\<rparr>)"

definition submit_new_order :: "Sender \<Rightarrow> InstrumentId \<Rightarrow> Side \<Rightarrow> Price \<Rightarrow> Quantity \<Rightarrow> OrderType \<Rightarrow> TimeInForce \<Rightarrow>
    OrderManagementSystem \<Rightarrow> ClientOrderId \<times> OrderManagementSystem \<times> Message \<times> Notice list" where
  "submit_new_order sender i sd p q t tif m =
     (let a = om_account_id m;
          c = om_next_client_order_id m;
          m = m\<lparr>om_next_client_order_id := c + 1,
                om_orders := emplace c (pending_order a c i sd p q t tif) (om_orders m)\<rparr>;
          wire_message = NewOrderM \<lparr>no_account_id = a, no_client_order_id = c, no_instrument_id = i, no_side = sd,
            no_price = p, no_quantity = q, no_order_type = t, no_time_in_force = tif\<rparr>
      in if sender wire_message then (c, m, wire_message, [])
         else case mark_send_failed c m of (m, ns) \<Rightarrow> (c, m, wire_message, ns))"

definition cancellable :: "ClientOrderId \<Rightarrow> OrderManagementSystem \<Rightarrow> ClientOrder option" where
  "cancellable c m =
     (case om_orders m c of
        None \<Rightarrow> None
      | Some r \<Rightarrow> if is_live (ord_state r) \<and> ord_pending_action r = NoAction then Some r else None)"

definition cancel_order :: "Sender \<Rightarrow> ClientOrderId \<Rightarrow> OrderManagementSystem \<Rightarrow>
    bool \<times> OrderManagementSystem \<times> Message option" where
  "cancel_order sender c m =
     (case cancellable c m of
        None \<Rightarrow> (False, m, None)
      | Some r \<Rightarrow>
          let m = m\<lparr>om_orders := (om_orders m)(c \<mapsto> r\<lparr>ord_pending_action := CancelPending\<rparr>)\<rparr>;
              wire_message = CancelOrderM \<lparr>co_account_id = om_account_id m, co_client_order_id = c,
                co_instrument_id = ord_instrument_id r\<rparr>
          in if sender wire_message then (True, m, Some wire_message)
             else (False, clear_pending_action c m, Some wire_message))"

definition replace_order :: "Sender \<Rightarrow> ClientOrderId \<Rightarrow> Price \<Rightarrow> Quantity \<Rightarrow> OrderManagementSystem \<Rightarrow>
    ClientOrderId option \<times> OrderManagementSystem \<times> Message option" where
  "replace_order sender c p q m =
     (case cancellable c m of
        None \<Rightarrow> (None, m, None)
      | Some r \<Rightarrow>
          let a = om_account_id m;
              new_id = om_next_client_order_id m;
              orders = (om_orders m)(c \<mapsto> r\<lparr>ord_pending_action := ReplacePending\<rparr>);
              m = m\<lparr>om_next_client_order_id := new_id + 1,
                    om_orders := emplace new_id (pending_order a new_id (ord_instrument_id r) (ord_side r) p q
                      (ord_order_type r) (ord_time_in_force r)) orders\<rparr>;
              wire_message = ReplaceOrderM \<lparr>rp_account_id = a, rp_original_client_order_id = c,
                rp_new_client_order_id = new_id, rp_instrument_id = ord_instrument_id r, rp_new_price = p,
                rp_new_quantity = q\<rparr>
          in if sender wire_message then (Some new_id, m, Some wire_message)
             else (None, clear_pending_action c (m\<lparr>om_orders := (om_orders m)(new_id := None)\<rparr>), Some wire_message))"

section \<open>Reports\<close>

definition on_accepted :: "Accepted \<Rightarrow> OrderManagementSystem \<Rightarrow> OrderManagementSystem \<times> Notice list" where
  "on_accepted ev m =
     (case om_orders m (ac_client_order_id ev) of
        None \<Rightarrow> (m, [])
      | Some r \<Rightarrow>
          let r = r\<lparr>ord_exchange_order_id := Some (ac_exchange_order_id ev), ord_state := Live,
                    ord_quantity := ac_quantity ev, ord_remaining_quantity := ac_quantity ev\<rparr>
          in (m\<lparr>om_orders := (om_orders m)(ac_client_order_id ev \<mapsto> r)\<rparr>, [OrderUpdate r]))"

definition on_rejected :: "Rejected \<Rightarrow> OrderManagementSystem \<Rightarrow> OrderManagementSystem \<times> Notice list" where
  "on_rejected ev m =
     (case om_orders m (rj_client_order_id ev) of
        None \<Rightarrow> (m, [])
      | Some r \<Rightarrow>
          let r = (if ord_state r = PendingNew then r\<lparr>ord_state := RejectedOrder\<rparr> else r);
              r = r\<lparr>ord_pending_action := NoAction, ord_last_reject_reason := rj_reason ev\<rparr>
          in (m\<lparr>om_orders := (om_orders m)(rj_client_order_id ev \<mapsto> r)\<rparr>, [OrderUpdate r]))"

definition on_cancelled :: "Cancelled \<Rightarrow> OrderManagementSystem \<Rightarrow> OrderManagementSystem \<times> Notice list" where
  "on_cancelled ev m =
     (case om_orders m (cl_client_order_id ev) of
        None \<Rightarrow> (m, [])
      | Some r \<Rightarrow>
          let r = r\<lparr>ord_state := CancelledOrder, ord_pending_action := NoAction\<rparr>
          in (m\<lparr>om_orders := (om_orders m)(cl_client_order_id ev \<mapsto> r)\<rparr>, [OrderUpdate r]))"

definition on_replaced :: "Replaced \<Rightarrow> OrderManagementSystem \<Rightarrow> OrderManagementSystem \<times> Notice list" where
  "on_replaced ev m =
     (let (m, ns) =
        (case om_orders m (rl_original_client_order_id ev) of
           None \<Rightarrow> (m, [])
         | Some r \<Rightarrow>
             let r = r\<lparr>ord_state := ReplacedOrder, ord_pending_action := NoAction\<rparr>
             in (m\<lparr>om_orders := (om_orders m)(rl_original_client_order_id ev \<mapsto> r)\<rparr>, [OrderUpdate r]))
      in case om_orders m (rl_new_client_order_id ev) of
           None \<Rightarrow> (m, ns)
         | Some r \<Rightarrow>
             let r = r\<lparr>ord_state := Live, ord_exchange_order_id := Some (rl_exchange_order_id ev),
                       ord_price := rl_new_price ev, ord_quantity := rl_new_quantity ev,
                       ord_remaining_quantity := rl_new_quantity ev\<rparr>
             in (m\<lparr>om_orders := (om_orders m)(rl_new_client_order_id ev \<mapsto> r)\<rparr>, ns @ [OrderUpdate r]))"

definition on_trade_report :: "TradeReport \<Rightarrow> OrderManagementSystem \<Rightarrow> OrderManagementSystem \<times> Notice list" where
  "on_trade_report ev m =
     (case om_orders m (tr_client_order_id ev) of
        None \<Rightarrow> (m, [])
      | Some r \<Rightarrow>
          let r = r\<lparr>ord_remaining_quantity := tr_remaining_quantity ev,
                    ord_state := (if tr_remaining_quantity ev = 0 then Filled else PartiallyFilled)\<rparr>;
              fill = \<lparr>fl_account_id = om_account_id m, fl_client_order_id = tr_client_order_id ev,
                fl_instrument_id = tr_instrument_id ev, fl_side = ord_side r, fl_price = tr_price ev,
                fl_quantity = tr_quantity ev\<rparr>
          in (m\<lparr>om_orders := (om_orders m)(tr_client_order_id ev \<mapsto> r)\<rparr>, [OrderUpdate r, FillNotice fill]))"

fun handle_message :: "Message \<Rightarrow> OrderManagementSystem \<Rightarrow> OrderManagementSystem \<times> Notice list" where
  "handle_message (AcceptedM ev) m = on_accepted ev m"
| "handle_message (RejectedM ev) m = on_rejected ev m"
| "handle_message (CancelledM ev) m = on_cancelled ev m"
| "handle_message (ReplacedM ev) m = on_replaced ev m"
| "handle_message (TradeReportM ev) m = on_trade_report ev m"
| "handle_message _ m = (m, [])"

definition oms_order :: "ClientOrderId \<Rightarrow> OrderManagementSystem \<Rightarrow> ClientOrder option" where
  "oms_order c m = om_orders m c"

end
