(* ===== verification/Positions.thy ===== *)
theory Positions
  imports OrderManagement "HOL-Library.AList" "HOL-Library.Signed_Division"
begin

text \<open>
  What a trader keeps of its own fills: \<open>PositionTracker\<close> (\<open>src/include/trader/positions/position_tracker.hpp\<close>)
  holds cash and units, \<open>PnlTracker\<close> (\<open>pnl_tracker.hpp\<close>) the net position, its open notional and the
  realized result. \<open>PnlTracker\<close> sums over its maps, so these are association lists; the sums do not
  depend on their order.
\<close>

section \<open>Position tracker\<close>

record AccountPosition =
  ap_cash :: i64
  ap_holdings :: "InstrumentId \<rightharpoonup> Quantity"

type_synonym PositionTracker = "AccountId \<rightharpoonup> AccountPosition"

definition no_position :: AccountPosition where
  "no_position = \<lparr>ap_cash = 0, ap_holdings = Map.empty\<rparr>"

definition holding :: "(InstrumentId \<rightharpoonup> Quantity) \<Rightarrow> InstrumentId \<Rightarrow> Quantity" where
  "holding h i = (case h i of None \<Rightarrow> 0 | Some q \<Rightarrow> q)"

definition account_position :: "AccountId \<Rightarrow> PositionTracker \<Rightarrow> AccountPosition" where
  "account_position a t = (case t a of None \<Rightarrow> no_position | Some p \<Rightarrow> p)"

definition tracker_deposit_cash :: "AccountId \<Rightarrow> i64 \<Rightarrow> PositionTracker \<Rightarrow> PositionTracker" where
  "tracker_deposit_cash a amount t =
     (let p = account_position a t in t(a \<mapsto> p\<lparr>ap_cash := ap_cash p + amount\<rparr>))"

definition tracker_deposit_position :: "AccountId \<Rightarrow> InstrumentId \<Rightarrow> Quantity \<Rightarrow> PositionTracker \<Rightarrow> PositionTracker" where
  "tracker_deposit_position a i amount t =
     (let p = account_position a t
      in t(a \<mapsto> p\<lparr>ap_holdings := (ap_holdings p)(i \<mapsto> holding (ap_holdings p) i + amount)\<rparr>))"

definition apply_fill :: "Fill \<Rightarrow> PositionTracker \<Rightarrow> PositionTracker" where
  "apply_fill f t =
     (let p = account_position (fl_account_id f) t;
          i = fl_instrument_id f;
          notional = fl_quantity f * fl_price f
      in if fl_side f = Buy
         then t(fl_account_id f \<mapsto> p\<lparr>ap_cash := ap_cash p - notional,
                ap_holdings := (ap_holdings p)(i \<mapsto> holding (ap_holdings p) i + fl_quantity f)\<rparr>)
         else t(fl_account_id f \<mapsto> p\<lparr>ap_cash := ap_cash p + notional,
                ap_holdings := (ap_holdings p)(i \<mapsto> holding (ap_holdings p) i - fl_quantity f)\<rparr>))"

definition tracker_cash :: "AccountId \<Rightarrow> PositionTracker \<Rightarrow> i64" where
  "tracker_cash a t = (case t a of None \<Rightarrow> 0 | Some p \<Rightarrow> ap_cash p)"

definition tracker_position :: "AccountId \<Rightarrow> InstrumentId \<Rightarrow> PositionTracker \<Rightarrow> Quantity" where
  "tracker_position a i t =
     (case t a of
        None \<Rightarrow> 0
      | Some p \<Rightarrow> (case ap_holdings p i of None \<Rightarrow> 0 | Some q \<Rightarrow> q))"

section \<open>Profit and loss\<close>

record InstrumentPnl =
  ip_position :: i64
  ip_open_notional :: i64
  ip_realized :: i64
  ip_filled_quantity :: Quantity
  ip_fill_count :: u64

record PnlSnapshot =
  ps_position :: i64
  ps_average_entry_price :: Price
  ps_realized :: i64
  ps_unrealized :: i64
  ps_total :: i64
  ps_filled_quantity :: Quantity
  ps_fill_count :: u64

type_synonym PnlTracker = "(AccountId \<times> (InstrumentId \<times> InstrumentPnl) list) list"

definition no_pnl :: InstrumentPnl where
  "no_pnl = \<lparr>ip_position = 0, ip_open_notional = 0, ip_realized = 0, ip_filled_quantity = 0, ip_fill_count = 0\<rparr>"

definition no_snapshot :: PnlSnapshot where
  "no_snapshot = \<lparr>ps_position = 0, ps_average_entry_price = 0, ps_realized = 0, ps_unrealized = 0, ps_total = 0,
     ps_filled_quantity = 0, ps_fill_count = 0\<rparr>"

definition sdiv_i64 :: "i64 \<Rightarrow> i64 \<Rightarrow> i64" where
  \<comment> \<open>C++ integer division rounds toward zero\<close>
  "sdiv_i64 a b = word_of_int (sint a sdiv sint b)"

definition magnitude :: "i64 \<Rightarrow> i64" where
  "magnitude v = (if sless v 0 then - v else v)"

definition sign_of :: "i64 \<Rightarrow> i64" where
  "sign_of v = (if sless v 0 then -1 else 1)"

definition smin :: "i64 \<Rightarrow> i64 \<Rightarrow> i64" where
  \<comment> \<open>\<open>std::min\<close>\<close>
  "smin a b = (if sless b a then b else a)"

definition pnl_fill :: "Fill \<Rightarrow> InstrumentPnl \<Rightarrow> InstrumentPnl" where
  \<comment> \<open>\<open>PnlTracker::apply\<close> on the entry of the fill\<close>
  "pnl_fill f pnl =
     (let quantity = fl_quantity f;
          delta = (if fl_side f = Buy then quantity else - quantity);
          pnl = pnl\<lparr>ip_filled_quantity := ip_filled_quantity pnl + fl_quantity f, ip_fill_count := ip_fill_count pnl + 1\<rparr>;
          opening_or_adding = (ip_position pnl = 0 \<or> (sless 0 (ip_position pnl) \<longleftrightarrow> sless 0 delta))
      in if opening_or_adding
         then pnl\<lparr>ip_position := ip_position pnl + delta, ip_open_notional := ip_open_notional pnl + delta * fl_price f\<rparr>
         else
           let open_units = magnitude (ip_position pnl);
               closed = smin open_units (magnitude delta);
               closed_notional = sdiv_i64 (ip_open_notional pnl * closed) open_units;
               direction = sign_of (ip_position pnl);
               pnl = pnl\<lparr>ip_realized := ip_realized pnl + (direction * closed * fl_price f - closed_notional),
                         ip_open_notional := ip_open_notional pnl - closed_notional,
                         ip_position := ip_position pnl - direction * closed\<rparr>;
               flipped = magnitude delta - closed;
               pnl = (if sless 0 flipped
                      then let flipped_signed = (if sless 0 delta then flipped else - flipped)
                           in pnl\<lparr>ip_position := ip_position pnl + flipped_signed,
                                  ip_open_notional := ip_open_notional pnl + flipped_signed * fl_price f\<rparr>
                      else pnl)
           in if ip_position pnl = 0 then pnl\<lparr>ip_open_notional := 0\<rparr> else pnl)"

definition pnl_apply :: "Fill \<Rightarrow> PnlTracker \<Rightarrow> PnlTracker" where
  \<comment> \<open>\<open>accounts_[fill.account_id][fill.instrument_id]\<close>, default-constructed where it is missing\<close>
  "pnl_apply f t =
     (let g = AList.map_default (fl_instrument_id f) (pnl_fill f no_pnl) (pnl_fill f)
      in AList.map_default (fl_account_id f) (g []) g t)"

definition pnl_snapshot :: "AccountId \<Rightarrow> InstrumentId \<Rightarrow> Price option \<Rightarrow> PnlTracker \<Rightarrow> PnlSnapshot" where
  "pnl_snapshot a i mark t =
     (case map_of t a of
        None \<Rightarrow> no_snapshot
      | Some instruments \<Rightarrow>
          (case map_of instruments i of
             None \<Rightarrow> no_snapshot
           | Some pnl \<Rightarrow>
               let unrealized = (case mark of Some p \<Rightarrow> ip_position pnl * p - ip_open_notional pnl | None \<Rightarrow> 0)
               in \<lparr>ps_position = ip_position pnl,
                   ps_average_entry_price = (if ip_position pnl = 0 then 0 else sdiv_i64 (ip_open_notional pnl) (ip_position pnl)),
                   ps_realized = ip_realized pnl,
                   ps_unrealized = unrealized,
                   ps_total = ip_realized pnl + unrealized,
                   ps_filled_quantity = ip_filled_quantity pnl,
                   ps_fill_count = ip_fill_count pnl\<rparr>))"

definition total_filled_quantity :: "PnlTracker \<Rightarrow> Quantity" where
  "total_filled_quantity t =
     fold (\<lambda>(_, instruments) total. fold (\<lambda>(_, pnl) total. total + ip_filled_quantity pnl) instruments total) t 0"

definition total_fill_count :: "PnlTracker \<Rightarrow> u64" where
  "total_fill_count t =
     fold (\<lambda>(_, instruments) total. fold (\<lambda>(_, pnl) total. total + ip_fill_count pnl) instruments total) t 0"

section \<open>Exact integers behind the words\<close>

definition signed_units :: "Fill \<Rightarrow> int" where
  "signed_units f = (if fl_side f = Buy then int (unat (fl_quantity f)) else - int (unat (fl_quantity f)))"

definition net_units :: "Fill list \<Rightarrow> int" where
  "net_units fs = (\<Sum>f\<leftarrow>fs. signed_units f)"

definition cash_flow :: "Fill list \<Rightarrow> int" where
  \<comment> \<open>buys pay, sells receive\<close>
  "cash_flow fs = (\<Sum>f\<leftarrow>fs. - signed_units f * sint (fl_price f))"

definition traded_units :: "Fill list \<Rightarrow> int" where
  "traded_units fs = (\<Sum>f\<leftarrow>fs. int (unat (fl_quantity f)))"

definition pnl_state :: "int \<Rightarrow> int \<Rightarrow> int \<Rightarrow> int \<Rightarrow> InstrumentPnl \<Rightarrow> bool" where
  \<comment> \<open>\<open>n\<close> units traded at up to \<open>m\<close>, \<open>net\<close> of them open, \<open>cash\<close> received\<close>
  "pnl_state n m net cash pnl \<longleftrightarrow>
     sint (ip_position pnl) = net \<and> \<bar>net\<bar> \<le> n \<and> \<bar>sint (ip_open_notional pnl)\<bar> \<le> \<bar>net\<bar> * m \<and>
     0 \<le> sint (ip_open_notional pnl) * sgn net \<and> (net = 0 \<longrightarrow> ip_open_notional pnl = 0) \<and>
     sint (ip_realized pnl) = cash + sint (ip_open_notional pnl) \<and> \<bar>cash\<bar> \<le> n * m"

lemma sint_of_int: "w = word_of_int x \<Longrightarrow> \<bar>x\<bar> < 2 ^ 63 \<Longrightarrow> sint (w :: i64) = x"
  by (simp add: sint_word_of_int_64)

lemma word_of_sint_64: "(w :: i64) = word_of_int (sint w)"
  by simp

lemma slice_bounds:
  fixes b :: int
  assumes "0 < o'" "0 \<le> c" "c \<le> o'" "\<bar>b\<bar> \<le> o' * m" "0 \<le> m"
  shows "\<bar>b * c sdiv o'\<bar> \<le> \<bar>b\<bar>" "\<bar>b - b * c sdiv o'\<bar> \<le> (o' - c) * m" "0 \<le> b \<Longrightarrow> 0 \<le> b - b * c sdiv o'"
    "b \<le> 0 \<Longrightarrow> b - b * c sdiv o' \<le> 0" "c = o' \<Longrightarrow> b * c sdiv o' = b"
proof -
  define s where "s = \<bar>b\<bar> * c div o'"
  have e: "b * c sdiv o' = sgn b * s"
    using assms(1,2) by (cases "c = 0") (auto simp: s_def signed_divide_int_def abs_mult sgn_mult)
  have s0: "0 \<le> s" using assms(1,2) by (simp add: s_def pos_imp_zdiv_nonneg_iff)
  have "\<bar>b\<bar> * c \<le> \<bar>b\<bar> * o'" using assms(3) by (simp add: mult_left_mono)
  then have s1: "s \<le> \<bar>b\<bar>" using assms(1) unfolding s_def by (metis nonzero_mult_div_cancel_right order_less_irrefl zdiv_mono1)
  have "\<bar>b\<bar> * (o' - c) \<le> (o' * m) * (o' - c)" using assms(3,4) by (intro mult_right_mono) auto
  then have "\<bar>b\<bar> * o' - \<bar>b\<bar> * c \<le> o' * ((o' - c) * m)" by (simp add: algebra_simps)
  then have "(\<bar>b\<bar> - (o' - c) * m) * o' \<le> \<bar>b\<bar> * c" by (simp add: algebra_simps)
  then have s2: "\<bar>b\<bar> - (o' - c) * m \<le> s"
    using assms(1) unfolding s_def by (metis nonzero_mult_div_cancel_right order_less_irrefl zdiv_mono1)
  show "c = o' \<Longrightarrow> b * c sdiv o' = b" using assms(1) unfolding e by (simp add: s_def sgn_mult_abs)
  have cases: "b = 0 \<or> b > 0 \<or> b < 0" by auto
  show "\<bar>b * c sdiv o'\<bar> \<le> \<bar>b\<bar>" "\<bar>b - b * c sdiv o'\<bar> \<le> (o' - c) * m" "0 \<le> b \<Longrightarrow> 0 \<le> b - b * c sdiv o'"
    "b \<le> 0 \<Longrightarrow> b - b * c sdiv o' \<le> 0"
    using cases s0 s1 s2 assms(3,5) unfolding e by auto
qed

lemma sint_helpers:
  "\<bar>sint a + sint b\<bar> < 2 ^ 63 \<Longrightarrow> sint ((a :: i64) + b) = sint a + sint b"
  "\<bar>sint a - sint b\<bar> < 2 ^ 63 \<Longrightarrow> sint (a - b) = sint a - sint b"
  "\<bar>sint a * sint b\<bar> < 2 ^ 63 \<Longrightarrow> sint (a * b) = sint a * sint b"
  "\<bar>sint a\<bar> < 2 ^ 63 \<Longrightarrow> sint (- a) = - sint a"
  "\<bar>sint a sdiv sint b\<bar> < 2 ^ 63 \<Longrightarrow> sint (sdiv_i64 a b) = sint a sdiv sint b"
proof -
  show "\<bar>sint a\<bar> < 2 ^ 63 \<Longrightarrow> sint (- a) = - sint a" using sint_minus_64 [of 0 a] by simp
qed (simp_all add: sint_plus_64 sint_minus_64 sint_mult_64 sdiv_i64_def sint_word_of_int_64)

lemma sint_magnitude: "\<bar>sint v\<bar> < 2 ^ 63 \<Longrightarrow> sint (magnitude v) = \<bar>sint v\<bar>"
  by (simp add: magnitude_def sless_sint sint_helpers)

lemma sint_sign_of: "sint (sign_of v) = (if sint v < 0 then -1 else 1)"
  by (simp add: sign_of_def sless_sint)

lemma sint_smin: "sint (smin a b) = min (sint a) (sint b)"
  by (simp add: smin_def sless_sint)

lemma square_bound:
  fixes n m :: int
  assumes "0 \<le> n" "0 \<le> m" "2 * n * n * m < 2 ^ 63" "n < 2 ^ 63" "0 \<le> a" "a \<le> n" "0 \<le> b" "b \<le> n"
  shows "a * b * m < 2 ^ 63" "2 * (a * m) < 2 ^ 63"
proof -
  have "a * b \<le> n * n" using assms by (intro mult_mono) auto
  then have "a * b * m \<le> n * n * m" using assms(2) by (rule mult_right_mono)
  moreover have "0 \<le> n * n * m" using assms by simp
  ultimately show "a * b * m < 2 ^ 63" using assms(3) by (simp add: algebra_simps)
  have "a * m \<le> n * n * m"
  proof (cases "n = 0")
    case False
    then have "a * 1 \<le> n * n" using assms by (intro mult_mono) auto
    then show ?thesis using assms(2) by (simp add: mult_right_mono)
  qed (use assms in simp)
  then show "2 * (a * m) < 2 ^ 63" using assms(3) by (simp add: algebra_simps)
qed

lemma fill_delta:
  assumes "int (unat (fl_quantity f)) < 2 ^ 63"
  shows "sint (if fl_side f = Buy then fl_quantity f else - fl_quantity f) = signed_units f"
proof -
  have "int (unat (fl_quantity f)) < int (2 ^ 63)" using assms by (simp only: of_nat_power of_nat_numeral)
  then have "sint (fl_quantity f) = int (unat (fl_quantity f))" by (intro sint_eq_unat_64) (simp only: of_nat_less_iff)
  then show ?thesis using assms by (simp add: signed_units_def sint_helpers)
qed

lemma pnl_fill_counts:
  "ip_filled_quantity (pnl_fill f pnl) = ip_filled_quantity pnl + fl_quantity f"
  "ip_fill_count (pnl_fill f pnl) = ip_fill_count pnl + 1"
  by (simp_all add: pnl_fill_def Let_def)

definition fill_bounds :: "int \<Rightarrow> int \<Rightarrow> Fill \<Rightarrow> bool" where
  \<comment> \<open>\<open>n\<close> units traded including this fill, at prices up to \<open>m\<close>\<close>
  "fill_bounds n m f \<longleftrightarrow> 0 \<le> m \<and> n < 2 ^ 63 \<and> 2 * n * n * m < 2 ^ 63 \<and> 0 \<le> sint (fl_price f) \<and> sint (fl_price f) \<le> m"

lemma pnl_opens:
  assumes st: "pnl_state n m net cash pnl" and b: "fill_bounds (n + int (unat (fl_quantity f))) m f" "0 \<le> n"
    and o: "net = 0 \<or> (0 < net \<longleftrightarrow> 0 < signed_units f)"
  shows "pnl_state (n + int (unat (fl_quantity f))) m (net + signed_units f) (cash - signed_units f * sint (fl_price f)) (pnl_fill f pnl)"
proof -
  let ?q = "int (unat (fl_quantity f))" and ?p = "sint (fl_price f)" and ?d = "signed_units f"
  define w where "w = (if fl_side f = Buy then fl_quantity f else - fl_quantity f)"
  have bb: "0 \<le> m" "n + ?q < 2 ^ 63" "2 * (n + ?q) * (n + ?q) * m < 2 ^ 63" "0 \<le> ?p" "?p \<le> m"
    using b(1) by (simp_all add: fill_bounds_def)
  have q0: "0 \<le> ?q" by simp
  have q: "?q < 2 ^ 63" using bb(2) b(2) by linarith
  have w: "sint w = ?d" unfolding w_def by (rule fill_delta [OF q])
  have dq: "\<bar>?d\<bar> = ?q" by (simp add: signed_units_def)
  have n: "\<bar>net\<bar> \<le> n" "\<bar>sint (ip_open_notional pnl)\<bar> \<le> \<bar>net\<bar> * m" "0 \<le> sint (ip_open_notional pnl) * sgn net"
    "sint (ip_realized pnl) = cash + sint (ip_open_notional pnl)" "\<bar>cash\<bar> \<le> n * m" "sint (ip_position pnl) = net"
    "net = 0 \<Longrightarrow> sint (ip_open_notional pnl) = 0"
    using st by (simp_all add: pnl_state_def)
  have sum: "\<bar>net + ?d\<bar> = \<bar>net\<bar> + \<bar>?d\<bar>" using o by auto
  have dp: "\<bar>?d * ?p\<bar> \<le> \<bar>?d\<bar> * m" using bb(4,5) by (simp add: abs_mult mult_left_mono)
  have "?q * m \<le> (n + ?q) * m" "\<bar>net\<bar> * m + \<bar>?d\<bar> * m \<le> (n + ?q) * m"
    using b(2) q0 bb(1) n(1) dq by (simp_all add: mult_right_mono flip: distrib_right)
  moreover have nm: "2 * ((n + ?q) * m) < 2 ^ 63"
    by (rule square_bound(2) [of "n + ?q" m "n + ?q" "n + ?q"]) (use bb b(2) in auto)
  ultimately have "\<bar>?d * ?p\<bar> < 2 ^ 63" "\<bar>sint (ip_open_notional pnl) + ?d * ?p\<bar> < 2 ^ 63"
    using dp n(2) abs_ge_zero [of net] bb(1) unfolding dq int_pows by linarith+
  then have s: "sint (w * fl_price f) = ?d * ?p"
    "sint (ip_open_notional pnl + w * fl_price f) = sint (ip_open_notional pnl) + ?d * ?p"
    using sint_helpers(3) [of w "fl_price f"] sint_helpers(1) [of "ip_open_notional pnl" "w * fl_price f"] w by simp_all
  have s2: "sint (ip_position pnl + w) = net + ?d"
    using sint_helpers(1) [of "ip_position pnl" w] w n(1,6) dq bb(2) by simp
  have z: "ip_position pnl = 0 \<longleftrightarrow> net = 0" using n(6) by (metis signed_0 sint_eq_iff_64)
  have op: "ip_position pnl = 0 \<or> (sless 0 (ip_position pnl) \<longleftrightarrow> sless 0 w)"
    using o n(6) w z by (simp add: sless_sint)
  have f: "ip_position (pnl_fill f pnl) = ip_position pnl + w" "ip_realized (pnl_fill f pnl) = ip_realized pnl"
    "ip_open_notional (pnl_fill f pnl) = ip_open_notional pnl + w * fl_price f"
    using op by (simp_all add: pnl_fill_def Let_def w_def)
  have sg: "0 \<le> (sint (ip_open_notional pnl) + ?d * ?p) * sgn (net + ?d)"
  proof (cases "net = 0")
    case True
    then show ?thesis using n(7) bb(4) by (simp add: sgn_if mult_nonpos_nonneg)
  next
    case False
    then have "sgn (net + ?d) = sgn net" "0 \<le> ?d * ?p * sgn net"
      using o bb(4) by (auto simp: sgn_if mult_nonpos_nonneg)
    then show ?thesis using n(3) by (simp add: distrib_right)
  qed
  have zz: "net + ?d = 0 \<Longrightarrow> ip_open_notional pnl + w * fl_price f = 0"
  proof -
    assume "net + ?d = 0"
    then have "net = 0" "?d = 0" using sum by auto
    then have "sint (ip_open_notional pnl + w * fl_price f) = 0" using s n(7) by simp
    then show ?thesis by (metis signed_0 sint_eq_iff_64)
  qed
  have ob: "\<bar>sint (ip_open_notional pnl) + ?d * ?p\<bar> \<le> \<bar>net + ?d\<bar> * m"
    unfolding sum distrib_right using n(2) dp abs_triangle_ineq [of "sint (ip_open_notional pnl)" "?d * ?p"] by linarith
  have cb: "\<bar>cash - ?d * ?p\<bar> \<le> (n + ?q) * m"
    unfolding distrib_right using n(5) dp abs_triangle_ineq4 [of cash "?d * ?p"] dq by simp
  have nb: "\<bar>net + ?d\<bar> \<le> n + ?q" using sum dq n(1) by simp
  show ?thesis
    unfolding pnl_state_def f s(2) s2 using ob cb nb sg zz n(4) by simp
qed

lemma fill_facts:
  assumes "pnl_state n m net cash pnl" "fill_bounds (n + int (unat (fl_quantity f))) m f" "0 \<le> n"
  shows "0 \<le> m" "int (unat (fl_quantity f)) < 2 ^ 63" "n + int (unat (fl_quantity f)) < 2 ^ 63"
    "2 * (n + int (unat (fl_quantity f))) * (n + int (unat (fl_quantity f))) * m < 2 ^ 63"
    "0 \<le> sint (fl_price f)" "sint (fl_price f) \<le> m" "\<bar>signed_units f\<bar> = int (unat (fl_quantity f))"
    "\<bar>net\<bar> \<le> n" "\<bar>sint (ip_open_notional pnl)\<bar> \<le> \<bar>net\<bar> * m" "0 \<le> sint (ip_open_notional pnl) * sgn net"
    "sint (ip_realized pnl) = cash + sint (ip_open_notional pnl)" "\<bar>cash\<bar> \<le> n * m" "sint (ip_position pnl) = net"
  using assms unfolding int_pows by (simp_all add: fill_bounds_def pnl_state_def signed_units_def)

lemma close_words:
  assumes st: "pnl_state n m net cash pnl" and b: "fill_bounds (n + int (unat (fl_quantity f))) m f" "0 \<le> n"
    and o: "net \<noteq> 0" "\<not> (0 < net \<longleftrightarrow> 0 < signed_units f)"
  defines "c \<equiv> min \<bar>net\<bar> \<bar>signed_units f\<bar>" and "cn \<equiv> sint (ip_open_notional pnl) * min \<bar>net\<bar> \<bar>signed_units f\<bar> sdiv \<bar>net\<bar>"
  shows "sint (ip_position (pnl_fill f pnl)) = net + signed_units f"
    "sint (ip_realized (pnl_fill f pnl)) = sint (ip_realized pnl) + (sgn net * c * sint (fl_price f) - cn)"
    "sint (ip_open_notional (pnl_fill f pnl)) =
       (if net + signed_units f = 0 then 0 else if \<bar>net\<bar> < \<bar>signed_units f\<bar> then (net + signed_units f) * sint (fl_price f)
        else sint (ip_open_notional pnl) - cn)"
proof -
  let ?q = "int (unat (fl_quantity f))" and ?p = "sint (fl_price f)" and ?d = "signed_units f" and ?b = "sint (ip_open_notional pnl)"
  note ff = fill_facts [OF st b]
  define w where "w = (if fl_side f = Buy then fl_quantity f else - fl_quantity f)"
  have w: "sint w = ?d" unfolding w_def by (rule fill_delta [OF ff(2)])
  have q0: "0 \<le> ?q" by simp
  have n63: "\<bar>net\<bar> < 2 ^ 63" using ff(3,8) q0 by linarith
  have o1: "sint (magnitude (ip_position pnl)) = \<bar>net\<bar>" using sint_magnitude [of "ip_position pnl"] n63 ff(13) by simp
  have o2: "sint (magnitude w) = \<bar>?d\<bar>" using sint_magnitude [of w] w ff(2,7) by simp
  define cw where "cw = smin (magnitude (ip_position pnl)) (magnitude w)"
  have cw: "sint cw = c" unfolding cw_def sint_smin o1 o2 c_def by simp
  have c: "0 \<le> c" "c \<le> \<bar>net\<bar>" "c \<le> \<bar>?d\<bar>" unfolding c_def by simp_all
  have sl: "0 < \<bar>net\<bar>" using o(1) by simp
  note sb = slice_bounds [OF sl c(1,2) ff(9,1)]
  have cn: "cn = ?b * c sdiv \<bar>net\<bar>" by (simp add: cn_def c_def)
  have nm: "2 * ((n + ?q) * m) < 2 ^ 63"
    by (rule square_bound(2) [of "n + ?q" m "n + ?q" "n + ?q"]) (use ff b(2) in auto)
  have om: "\<bar>net\<bar> * m \<le> (n + ?q) * m" "c * m \<le> (n + ?q) * m" "\<bar>?d\<bar> * m \<le> (n + ?q) * m"
    using ff(1,7,8) c q0 b(2) by (intro mult_right_mono; linarith)+
  have bc: "\<bar>?b * c\<bar> < 2 ^ 63"
  proof -
    have "\<bar>?b * c\<bar> \<le> (\<bar>net\<bar> * m) * c" using ff(9) c(1) by (simp add: abs_mult mult_right_mono)
    also have "\<dots> = \<bar>net\<bar> * c * m" by simp
    also have "\<dots> < 2 ^ 63"
      by (rule square_bound(1) [of "n + ?q" m]) (use ff b(2) c q0 in linarith)+
    finally show ?thesis .
  qed
  have s1: "sint (ip_open_notional pnl * cw) = ?b * c" using sint_helpers(3) [of "ip_open_notional pnl" cw] cw bc by simp
  define cnw where "cnw = sdiv_i64 (ip_open_notional pnl * cw) (magnitude (ip_position pnl))"
  have cnb: "\<bar>cn\<bar> \<le> \<bar>?b\<bar>" using sb(1) cn by simp
  have b63: "2 * \<bar>?b\<bar> < 2 ^ 63" using ff(9) om(1) nm by linarith
  have cnw: "sint cnw = cn"
    using sint_helpers(5) [of "ip_open_notional pnl * cw" "magnitude (ip_position pnl)"] s1 o1 cn cnb b63 unfolding cnw_def by simp
  define dw where "dw = sign_of (ip_position pnl)"
  have dw: "sint dw = sgn net" unfolding dw_def sint_sign_of ff(13) using o(1) by (simp add: sgn_if)
  have dc: "\<bar>sgn net * c\<bar> = c" using o(1) c(1) by (simp add: abs_mult sgn_if)
  have s2: "sint (dw * cw) = sgn net * c" using sint_helpers(3) [of dw cw] dw cw dc c(2) n63 by simp
  have dcp: "\<bar>sgn net * c * ?p\<bar> \<le> c * m" unfolding abs_mult [of _ ?p] dc using ff(5,6) c(1) by (simp add: mult_left_mono)
  have cp63: "2 * \<bar>sgn net * c * ?p\<bar> < 2 ^ 63" using dcp om(2) nm by linarith
  have s3: "sint (dw * cw * fl_price f) = sgn net * c * ?p" using sint_helpers(3) [of "dw * cw" "fl_price f"] s2 cp63 by simp
  have s4: "sint (dw * cw * fl_price f - cnw) = sgn net * c * ?p - cn"
    using sint_helpers(2) [of "dw * cw * fl_price f" cnw] s3 cnw cp63 cnb b63 by simp
  have s5: "sint (ip_open_notional pnl - cnw) = ?b - cn"
    using sint_helpers(2) [of "ip_open_notional pnl" cnw] cnw cnb b63 by simp
  define pw where "pw = ip_position pnl - dw * cw"
  define fw where "fw = magnitude w - cw"
  define fs where "fs = (if sless 0 w then fw else - fw)"
  have netc: "net - sgn net * c = sgn net * (\<bar>net\<bar> - c)" by (simp add: right_diff_distrib) (metis abs_mult_sgn mult.commute)
  have pc: "\<bar>net - sgn net * c\<bar> = \<bar>net\<bar> - c" using c(2) o(1) unfolding netc by (simp add: abs_mult sgn_if)
  have pw: "sint pw = net - sgn net * c"
    using sint_helpers(2) [of "ip_position pnl" "dw * cw"] s2 ff(13) pc c(1) n63 unfolding pw_def by simp
  have fw: "sint fw = \<bar>?d\<bar> - c"
    using sint_helpers(2) [of "magnitude w" cw] o2 cw c ff(2,7) unfolding fw_def by simp
  have fs: "sint fs = (if 0 < ?d then \<bar>?d\<bar> - c else c - \<bar>?d\<bar>)"
    using sint_helpers(4) [of fw] fw w c ff(2,7) unfolding fs_def by (simp add: sless_sint)
  have z: "ip_position pnl \<noteq> 0" using o(1) ff(13) by auto
  have op: "\<not> (ip_position pnl = 0 \<or> (sless 0 (ip_position pnl) \<longleftrightarrow> sless 0 w))"
    using o ff(13) w z by (simp add: sless_sint)
  have ev: "ip_position (pnl_fill f pnl) = (if sless 0 fw then pw + fs else pw)"
    "ip_realized (pnl_fill f pnl) = ip_realized pnl + (dw * cw * fl_price f - cnw)"
    "ip_open_notional (pnl_fill f pnl) = (if ip_position (pnl_fill f pnl) = 0 then 0
       else if sless 0 fw then ip_open_notional pnl - cnw + fs * fl_price f else ip_open_notional pnl - cnw)"
    unfolding pnl_fill_def Let_def w_def [symmetric] using op
    by (simp_all add: Let_def pw_def fw_def fs_def cw_def dw_def cnw_def cong: if_cong)
  have flip: "sless 0 fw \<longleftrightarrow> \<bar>net\<bar> < \<bar>?d\<bar>" by (auto simp: sless_sint fw c_def)
  have pos: "sint (ip_position (pnl_fill f pnl)) = net + ?d"
  proof (cases "\<bar>net\<bar> < \<bar>?d\<bar>")
    case True
    then have "c = \<bar>net\<bar>" by (simp add: c_def)
    then have "sint pw = 0" "sint fs = net + ?d" using pw pc fs o True by (auto simp: sgn_if split: if_splits)
    moreover have "\<bar>net + ?d\<bar> < 2 ^ 63" using o True ff(2,7) by linarith
    ultimately show ?thesis using sint_helpers(1) [of pw fs] flip True by (simp add: ev(1))
  next
    case False
    then have "c = \<bar>?d\<bar>" by (simp add: c_def)
    then show ?thesis using False flip pw o by (auto simp: ev(1) sgn_if)
  qed
  then show "sint (ip_position (pnl_fill f pnl)) = net + signed_units f" .
  have pz: "ip_position (pnl_fill f pnl) = 0 \<longleftrightarrow> net + ?d = 0" using pos by (metis signed_0 sint_eq_iff_64)
  have bcn: "\<bar>?b - cn\<bar> \<le> (\<bar>net\<bar> - c) * m" using sb(2) cn by simp
  show "sint (ip_realized (pnl_fill f pnl)) = sint (ip_realized pnl) + (sgn net * c * sint (fl_price f) - cn)"
  proof -
    have "(\<bar>net\<bar> - c) * m = \<bar>net\<bar> * m - c * m" by (simp add: left_diff_distrib)
    moreover have "n * m \<le> (n + ?q) * m" using ff(1) q0 by (intro mult_right_mono) simp_all
    moreover have "sint (ip_realized pnl) + (sgn net * c * ?p - cn) = cash + (?b - cn) + sgn net * c * ?p" using ff(11) by simp
    ultimately have "\<bar>sint (ip_realized pnl) + (sgn net * c * ?p - cn)\<bar> < 2 ^ 63"
      using ff(12) bcn dcp om(1) nm by linarith
    then show ?thesis using sint_helpers(1) [of "ip_realized pnl" "dw * cw * fl_price f - cnw"] s4 by (simp add: ev(2))
  qed
  have "sint (ip_open_notional pnl - cnw + fs * fl_price f) = (net + ?d) * ?p" if t: "\<bar>net\<bar> < \<bar>?d\<bar>"
  proof -
    have cc: "c = \<bar>net\<bar>" using t by (simp add: c_def)
    then have "cn = ?b" using sb(5) cn by simp
    then have z0: "sint (ip_open_notional pnl - cnw) = 0" using s5 by simp
    have f1: "sint fs = net + ?d" using fs o t cc by (auto split: if_splits)
    have "\<bar>net + ?d\<bar> \<le> \<bar>?d\<bar>" using o t by linarith
    then have "\<bar>(net + ?d) * ?p\<bar> \<le> \<bar>?d\<bar> * m" unfolding abs_mult using ff(5,6) by (intro mult_mono) auto
    then have "2 * \<bar>(net + ?d) * ?p\<bar> < 2 ^ 63" using om(3) nm by linarith
    then show ?thesis
      using sint_helpers(3) [of fs "fl_price f"] sint_helpers(1) [of "ip_open_notional pnl - cnw" "fs * fl_price f"] f1 z0 by simp
  qed
  then show "sint (ip_open_notional (pnl_fill f pnl)) =
       (if net + signed_units f = 0 then 0 else if \<bar>net\<bar> < \<bar>signed_units f\<bar> then (net + signed_units f) * sint (fl_price f)
        else sint (ip_open_notional pnl) - cn)"
    using pz flip s5 by (simp add: ev(3))
qed

lemma pnl_closes:
  assumes st: "pnl_state n m net cash pnl" and b: "fill_bounds (n + int (unat (fl_quantity f))) m f" "0 \<le> n"
    and o: "net \<noteq> 0" "\<not> (0 < net \<longleftrightarrow> 0 < signed_units f)"
  shows "pnl_state (n + int (unat (fl_quantity f))) m (net + signed_units f) (cash - signed_units f * sint (fl_price f)) (pnl_fill f pnl)"
proof -
  let ?q = "int (unat (fl_quantity f))" and ?p = "sint (fl_price f)" and ?d = "signed_units f" and ?b = "sint (ip_open_notional pnl)"
  define c where "c = min \<bar>net\<bar> \<bar>?d\<bar>"
  define cn where "cn = ?b * c sdiv \<bar>net\<bar>"
  note ff = fill_facts [OF st b]
  note cw = close_words [OF st b o, folded c_def, folded cn_def]
  have q0: "0 \<le> ?q" by simp
  have c: "0 \<le> c" "c \<le> \<bar>net\<bar>" "c \<le> \<bar>?d\<bar>" unfolding c_def by simp_all
  have sl: "0 < \<bar>net\<bar>" using o(1) by simp
  note sb = slice_bounds [OF sl c(1,2) ff(9,1), folded cn_def]
  define b' where "b' = sint (ip_open_notional (pnl_fill f pnl))"
  have part: "c = \<bar>?d\<bar>" "\<bar>net + ?d\<bar> = \<bar>net\<bar> - c" "sgn net * c = - ?d" "?b - cn = b'" "sgn net * b' \<ge> 0"
    if t: "\<not> \<bar>net\<bar> < \<bar>?d\<bar>"
  proof -
    show cd: "c = \<bar>?d\<bar>" using t by (simp add: c_def)
    show "\<bar>net + ?d\<bar> = \<bar>net\<bar> - c" "sgn net * c = - ?d" unfolding cd using o t by (auto simp: sgn_if)
    show be: "?b - cn = b'"
    proof (cases "net + ?d = 0")
      case True
      then have "c = \<bar>net\<bar>" using cd by simp
      then show ?thesis using sb(5) cw(3) True by (simp add: b'_def)
    next
      case False then show ?thesis using cw(3) t by (simp add: b'_def)
    qed
    have "net > 0 \<or> net < 0" using o(1) by auto
    then show "sgn net * b' \<ge> 0" using sb(3,4) ff(10) be by auto
  qed
  have over: "c = \<bar>net\<bar>" "cn = ?b" "b' = (net + ?d) * ?p" "\<bar>net + ?d\<bar> = \<bar>?d\<bar> - \<bar>net\<bar>" "sgn net * c = net" "net + ?d \<noteq> 0"
    if t: "\<bar>net\<bar> < \<bar>?d\<bar>"
  proof -
    show cc: "c = \<bar>net\<bar>" using t by (simp add: c_def)
    show "cn = ?b" using sb(5) cc by simp
    show "net + ?d \<noteq> 0" using t by auto
    then show "b' = (net + ?d) * ?p" using cw(3) t by (simp add: b'_def)
    show "\<bar>net + ?d\<bar> = \<bar>?d\<bar> - \<bar>net\<bar>" using o t by linarith
    show "sgn net * c = net" by (simp add: cc sgn_mult_abs)
  qed
  have nb: "\<bar>net + ?d\<bar> \<le> n + ?q" using ff(7,8) abs_triangle_ineq [of net ?d] by linarith
  have ob: "\<bar>b'\<bar> \<le> \<bar>net + ?d\<bar> * m"
  proof (cases "\<bar>net\<bar> < \<bar>?d\<bar>")
    case True then show ?thesis unfolding over(3) [OF True] abs_mult using ff(5,6) by (simp add: mult_left_mono)
  next
    case False then show ?thesis using sb(2) part(2,4) [OF False] by simp
  qed
  have sg: "0 \<le> b' * sgn (net + ?d)"
  proof (cases "\<bar>net\<bar> < \<bar>?d\<bar>")
    case True then show ?thesis unfolding over(3) [OF True] using ff(5) by (simp add: sgn_if mult_nonpos_nonneg)
  next
    case False
    then have "sgn (net + ?d) = 0 \<or> sgn (net + ?d) = sgn net" using o by (auto simp: sgn_if)
    then show ?thesis using part(5) [OF False] by (auto simp: mult.commute)
  qed
  have z: "net + ?d = 0 \<Longrightarrow> ip_open_notional (pnl_fill f pnl) = 0" using cw(3) by (metis signed_0 sint_eq_iff_64)
  have r: "sint (ip_realized (pnl_fill f pnl)) = (cash - ?d * ?p) + b'"
  proof (cases "\<bar>net\<bar> < \<bar>?d\<bar>")
    case True then show ?thesis using cw(2) over(2,3,5) [OF True] ff(11) by (simp add: distrib_right)
  next
    case False then show ?thesis using cw(2) part(3,4) [OF False] ff(11) by simp
  qed
  have dp: "\<bar>?d * ?p\<bar> \<le> ?q * m" unfolding abs_mult ff(7) using ff(5,6) by (simp add: mult_left_mono)
  have cb: "\<bar>cash - ?d * ?p\<bar> \<le> (n + ?q) * m"
    unfolding distrib_right using ff(12) dp abs_triangle_ineq4 [of cash "?d * ?p"] by linarith
  show ?thesis unfolding pnl_state_def b'_def [symmetric] r cw(1) using nb ob sg z cb by simp
qed

lemma pnl_fill_state:
  assumes "pnl_state n m net cash pnl" "fill_bounds (n + int (unat (fl_quantity f))) m f" "0 \<le> n"
  shows "pnl_state (n + int (unat (fl_quantity f))) m (net + signed_units f) (cash - signed_units f * sint (fl_price f)) (pnl_fill f pnl)"
  using pnl_opens [OF assms] pnl_closes [OF assms] by blast

section \<open>Runs of fills\<close>

definition fills_of :: "AccountId \<Rightarrow> InstrumentId \<Rightarrow> Fill list \<Rightarrow> Fill list" where
  "fills_of a i fs = filter (\<lambda>f. fl_account_id f = a \<and> fl_instrument_id f = i) fs"

definition pnl_entry :: "AccountId \<Rightarrow> InstrumentId \<Rightarrow> PnlTracker \<Rightarrow> InstrumentPnl option" where
  "pnl_entry a i t = (case map_of t a of None \<Rightarrow> None | Some instruments \<Rightarrow> map_of instruments i)"

lemma map_of_default: "map_of (AList.map_default k v g al) = (map_of al)(k := Some (case map_of al k of None \<Rightarrow> v | Some x \<Rightarrow> g x))"
  by (induction al) (auto simp: fun_eq_iff)

lemma pnl_apply_entry:
  "pnl_entry a i (pnl_apply f t) =
     (if fl_account_id f = a \<and> fl_instrument_id f = i
      then Some (pnl_fill f (case pnl_entry a i t of None \<Rightarrow> no_pnl | Some pnl \<Rightarrow> pnl)) else pnl_entry a i t)"
  by (auto simp: pnl_entry_def pnl_apply_def Let_def map_of_default split: option.splits)

lemma pnl_run_entry:
  "pnl_entry a i (fold pnl_apply fs t) =
     (if fills_of a i fs = [] then pnl_entry a i t
      else Some (fold pnl_fill (fills_of a i fs) (case pnl_entry a i t of None \<Rightarrow> no_pnl | Some pnl \<Rightarrow> pnl)))"
proof (induction fs arbitrary: t)
  case (Cons f fs)
  then show ?case
    by (cases "fl_account_id f = a \<and> fl_instrument_id f = i") (auto simp: pnl_apply_entry fills_of_def)
qed (simp add: fills_of_def)

lemma fills_state:
  assumes "pnl_state n m net cash pnl" "0 \<le> n" "0 \<le> m" "n + traded_units fs < 2 ^ 63"
    "2 * (n + traded_units fs) * (n + traded_units fs) * m < 2 ^ 63" "\<forall>f \<in> set fs. 0 \<le> sint (fl_price f) \<and> sint (fl_price f) \<le> m"
  shows "pnl_state (n + traded_units fs) m (net + net_units fs) (cash + cash_flow fs) (fold pnl_fill fs pnl)"
  using assms
proof (induction fs arbitrary: n net cash pnl)
  case (Cons f fs)
  let ?n = "n + int (unat (fl_quantity f))"
  have t: "traded_units (f # fs) = int (unat (fl_quantity f)) + traded_units fs" by (simp add: traded_units_def)
  have t0: "0 \<le> traded_units fs" by (auto simp: traded_units_def intro!: sum_list_nonneg)
  have le: "?n \<le> n + traded_units (f # fs)" using t t0 by simp
  have "2 * ?n * ?n * m \<le> 2 * (n + traded_units (f # fs)) * (n + traded_units (f # fs)) * m"
    using le Cons.prems(2,3) by (intro mult_mono) auto
  then have "fill_bounds ?n m f" using Cons.prems le unfolding fill_bounds_def int_pows by auto
  from pnl_fill_state [OF Cons.prems(1) this Cons.prems(2)] have "pnl_state ?n m (net + signed_units f) (cash - signed_units f * sint (fl_price f)) (pnl_fill f pnl)" .
  from Cons.IH [OF this] have "pnl_state (?n + traded_units fs) m (net + signed_units f + net_units fs)
      (cash - signed_units f * sint (fl_price f) + cash_flow fs) (fold pnl_fill fs (pnl_fill f pnl))"
    using Cons.prems t by (simp add: add.assoc)
  moreover have "n + traded_units (f # fs) = ?n + traded_units fs" "net + net_units (f # fs) = net + signed_units f + net_units fs"
    "cash + cash_flow (f # fs) = cash - signed_units f * sint (fl_price f) + cash_flow fs"
    by (simp_all add: t net_units_def cash_flow_def)
  ultimately show ?case by (simp only: fold_Cons comp_apply)
qed (simp add: net_units_def cash_flow_def traded_units_def)

lemma no_pnl_state: "0 \<le> m \<Longrightarrow> pnl_state 0 m 0 0 no_pnl"
  by (simp add: pnl_state_def no_pnl_def)

section \<open>Properties\<close>

text \<open>
  C36. Within 64 bits, profit and loss is what was received plus what is held. Let \<open>n\<close> be the units the fills of an
  instrument trade in all, and let prices and mark lie between zero and \<open>h\<close> with \<open>2 n n h < 2 ^ 63\<close>, so that the product
  behind a partial close cannot overflow. Then, with the fills in any order, opening, adding, partly closing and
  flipping, the reported position is the net of buys and sells, and the total is the cash flow of the fills plus the
  position at the mark, exactly, although the basis of a partly closed position is rounded; a flat position has
  realized exactly its cash flow. (Beyond the bound it is false: \<open>large_round_trip_reports_a_profit\<close>.)
\<close>

theorem pnl_is_cash_flow_plus_market_value:
  fixes highest mark :: Price
  assumes "\<forall>f \<in> set fs. 0 \<le> sint (fl_price f) \<and> sint (fl_price f) \<le> sint highest" "0 \<le> sint mark" "sint mark \<le> sint highest"
    and "traded_units (fills_of a i fs) < 2 ^ 63" "2 * traded_units (fills_of a i fs) * traded_units (fills_of a i fs) * sint highest < 2 ^ 63"
  defines "snap \<equiv> pnl_snapshot a i (Some mark) (fold pnl_apply fs [])"
  shows "sint (ps_position snap) = net_units (fills_of a i fs) \<and>
    sint (ps_total snap) = cash_flow (fills_of a i fs) + net_units (fills_of a i fs) * sint mark \<and>
    (ps_position snap = 0 \<longrightarrow> sint (ps_realized snap) = cash_flow (fills_of a i fs))"
proof (cases "fills_of a i fs = []")
  case True
  then have "pnl_entry a i (fold pnl_apply fs []) = None" by (simp add: pnl_run_entry) (simp add: pnl_entry_def)
  then have "snap = no_snapshot" by (auto simp: snap_def pnl_snapshot_def pnl_entry_def split: option.splits)
  then show ?thesis using True by (simp add: no_snapshot_def net_units_def cash_flow_def)
next
  case False
  let ?fs = "fills_of a i fs" and ?m = "sint highest" and ?k = "sint mark"
  define pnl where "pnl = fold pnl_fill ?fs no_pnl"
  have e: "pnl_entry a i (fold pnl_apply fs []) = Some pnl" using False by (simp add: pnl_run_entry pnl_def) (simp add: pnl_entry_def)
  have m0: "0 \<le> ?m" using assms(2,3) by linarith
  have "pnl_state (0 + traded_units ?fs) ?m (0 + net_units ?fs) (0 + cash_flow ?fs) pnl"
    unfolding pnl_def by (rule fills_state [OF no_pnl_state [OF m0]]) (use assms m0 in \<open>auto simp: fills_of_def\<close>)
  then have st: "sint (ip_position pnl) = net_units ?fs" "\<bar>net_units ?fs\<bar> \<le> traded_units ?fs"
    "\<bar>sint (ip_open_notional pnl)\<bar> \<le> \<bar>net_units ?fs\<bar> * ?m" "0 \<le> sint (ip_open_notional pnl) * sgn (net_units ?fs)"
    "net_units ?fs = 0 \<Longrightarrow> ip_open_notional pnl = 0" "sint (ip_realized pnl) = cash_flow ?fs + sint (ip_open_notional pnl)"
    "\<bar>cash_flow ?fs\<bar> \<le> traded_units ?fs * ?m"
    by (simp_all add: pnl_state_def)
  have t0: "0 \<le> traded_units ?fs" using st(2) by linarith
  have nm: "2 * (traded_units ?fs * ?m) < 2 ^ 63"
    by (rule square_bound(2) [OF t0 m0 assms(5,4) t0 order_refl t0 order_refl])
  have nk: "\<bar>net_units ?fs * ?k\<bar> \<le> \<bar>net_units ?fs\<bar> * ?m" unfolding abs_mult using assms(2,3) by (simp add: mult_left_mono)
  have nn: "\<bar>net_units ?fs\<bar> * ?m \<le> traded_units ?fs * ?m" using st(2) m0 by (rule mult_right_mono)
  have b: "2 * \<bar>net_units ?fs * ?k\<bar> < 2 ^ 63" "2 * \<bar>sint (ip_open_notional pnl)\<bar> < 2 ^ 63" "2 * \<bar>cash_flow ?fs\<bar> < 2 ^ 63"
    using nk nn nm st(3,7) by linarith+
  have s1: "sint (ip_position pnl * mark) = net_units ?fs * ?k" using sint_helpers(3) [of "ip_position pnl" mark] st(1) b(1) by simp
  have s2: "sint (ip_position pnl * mark - ip_open_notional pnl) = net_units ?fs * ?k - sint (ip_open_notional pnl)"
    using sint_helpers(2) [of "ip_position pnl * mark" "ip_open_notional pnl"] s1 b(1,2) by simp
  have "sint (ip_realized pnl + (ip_position pnl * mark - ip_open_notional pnl)) = cash_flow ?fs + net_units ?fs * ?k"
    using sint_helpers(1) [of "ip_realized pnl" "ip_position pnl * mark - ip_open_notional pnl"] s2 st(6) b(1,3) by simp
  moreover have "ip_position pnl = 0 \<Longrightarrow> net_units ?fs = 0" using st(1) by simp
  moreover have "snap = \<lparr>ps_position = ip_position pnl,
      ps_average_entry_price = (if ip_position pnl = 0 then 0 else sdiv_i64 (ip_open_notional pnl) (ip_position pnl)),
      ps_realized = ip_realized pnl, ps_unrealized = ip_position pnl * mark - ip_open_notional pnl,
      ps_total = ip_realized pnl + (ip_position pnl * mark - ip_open_notional pnl),
      ps_filled_quantity = ip_filled_quantity pnl, ps_fill_count = ip_fill_count pnl\<rparr>"
    using e by (auto simp: snap_def pnl_snapshot_def pnl_entry_def Let_def split: option.splits)
  ultimately show ?thesis using st(1,5,6) by simp
qed

definition sample_fill :: "Side \<Rightarrow> Price \<Rightarrow> Quantity \<Rightarrow> Fill" where
  "sample_fill sd p q = \<lparr>fl_account_id = 5, fl_client_order_id = 1, fl_instrument_id = 7, fl_side = sd, fl_price = p, fl_quantity = q\<rparr>"

theorem pnl_is_cash_flow_plus_market_value_witness:
  "sint (ps_total (pnl_snapshot 5 7 (Some 110) (fold pnl_apply [sample_fill Buy 100 3, sample_fill Sell 105 1, sample_fill Sell 120 4] []))) = 65"
  using pnl_is_cash_flow_plus_market_value [of "[sample_fill Buy 100 3, sample_fill Sell 105 1, sample_fill Sell 120 4]" 120 110 5 7]
  by (simp add: sample_fill_def fills_of_def cash_flow_def net_units_def signed_units_def traded_units_def)

lemma fold_add: "fold (\<lambda>x total. total + g x) xs (a :: u64) = a + (\<Sum>x\<leftarrow>xs. g x)"
  by (induction xs arbitrary: a) (simp_all add: add.assoc)

lemma totals_as_sums:
  fixes g :: "'p \<Rightarrow> u64" and t :: "('k \<times> ('i \<times> 'p) list) list"
  shows "fold (\<lambda>(_, instruments) total. fold (\<lambda>(_, pnl) total. total + g pnl) instruments total) t 0 =
    (\<Sum>(a, instruments)\<leftarrow>t. \<Sum>(i, pnl)\<leftarrow>instruments. g pnl)"
proof -
  have "fold (\<lambda>(_, pnl) total. total + g pnl) instruments total = total + (\<Sum>(i, pnl)\<leftarrow>instruments. g pnl)" for instruments :: "('i \<times> 'p) list" and total
    using fold_add [of "\<lambda>x. g (snd x)" instruments total] by (simp add: split_def)
  then show ?thesis using fold_add [of "\<lambda>x. \<Sum>(i, pnl)\<leftarrow>snd x. g pnl" t 0] by (simp add: split_def)
qed

lemma sum_map_default:
  "(\<Sum>(x, y)\<leftarrow>AList.map_default k v h al. g y) =
     (\<Sum>(x, y)\<leftarrow>al. g y) + (case map_of al k of None \<Rightarrow> g v | Some y \<Rightarrow> g (h y) - (g y :: u64))"
  by (induction al) (auto split: option.splits)

lemma sum_pnl_apply:
  assumes "\<And>pnl. g (pnl_fill f pnl) = g pnl + (d :: u64)" "g no_pnl = 0"
  shows "(\<Sum>(a, instruments)\<leftarrow>pnl_apply f t. \<Sum>(i, pnl)\<leftarrow>instruments. g pnl) = (\<Sum>(a, instruments)\<leftarrow>t. \<Sum>(i, pnl)\<leftarrow>instruments. g pnl) + d"
  by (simp add: pnl_apply_def sum_map_default assms split: option.split)

text \<open>
  The turnover counters add up: over every account and instrument, the total of filled quantities and
  of fills is that of the fills seen, in 64-bit arithmetic.
\<close>

theorem turnover_counts_every_fill:
  "total_filled_quantity (fold pnl_apply fs []) = (\<Sum>f\<leftarrow>fs. fl_quantity f) \<and>
   total_fill_count (fold pnl_apply fs []) = word_of_nat (length fs)"
proof -
  have z: "ip_filled_quantity no_pnl = 0" "ip_fill_count no_pnl = 0" by (simp_all add: no_pnl_def)
  have "total_filled_quantity (fold pnl_apply fs t) = total_filled_quantity t + (\<Sum>f\<leftarrow>fs. fl_quantity f)" for t
    unfolding total_filled_quantity_def totals_as_sums
    by (induction fs arbitrary: t)
       (simp_all add: sum_pnl_apply [where g = ip_filled_quantity, OF pnl_fill_counts(1) z(1)] add.assoc)
  moreover have "total_fill_count (fold pnl_apply fs t) = total_fill_count t + word_of_nat (length fs)" for t
    unfolding total_fill_count_def totals_as_sums
    by (induction fs arbitrary: t)
       (simp_all add: sum_pnl_apply [where g = ip_fill_count, OF pnl_fill_counts(2) z(2)] add.assoc)
  ultimately show ?thesis by (simp add: total_filled_quantity_def total_fill_count_def)
qed

text \<open>
  The product behind a partial close is taken in 64 bits before the division: buying and selling the
  same million units at ten million ticks, a flat round trip, reports a profit of 18 trillion ticks.
\<close>

theorem large_round_trip_reports_a_profit:
  "net_units [sample_fill Buy 10000000 1000000, sample_fill Sell 10000000 1000000] = 0 \<and>
   cash_flow [sample_fill Buy 10000000 1000000, sample_fill Sell 10000000 1000000] = 0 \<and>
   sint (ps_realized (pnl_snapshot 5 7 None (fold pnl_apply [sample_fill Buy 10000000 1000000, sample_fill Sell 10000000 1000000] []))) =
     18446744073709"
proof (intro conjI)
  show "sint (ps_realized (pnl_snapshot 5 7 None (fold pnl_apply [sample_fill Buy 10000000 1000000, sample_fill Sell 10000000 1000000] []))) = 18446744073709"
    by code_simp
qed (simp_all add: sample_fill_def net_units_def cash_flow_def signed_units_def)

end
