(* ===== verification/TraderRisk.thy ===== *)
theory TraderRisk
  imports Positions Risk
begin

text \<open>
  The trader's own check (\<open>src/include/trader/risk/trader_risk_engine.hpp\<close>) and the order management system
  behind it (\<open>trader_risk_gated_oms.hpp\<close>), with the fills of the reports applied to the positions as they
  are handled.
\<close>

section \<open>State\<close>

record TraderRiskLimits =
  tl_max_order_quantity :: Quantity

definition default_trader_limits :: TraderRiskLimits where
  "default_trader_limits = \<lparr>tl_max_order_quantity = 1000000\<rparr>"

definition trader_check :: "TraderRiskLimits \<Rightarrow> AccountId \<Rightarrow> InstrumentId \<Rightarrow> Side \<Rightarrow> Price \<Rightarrow> Quantity \<Rightarrow> PositionTracker \<Rightarrow> RejectReason" where
  "trader_check limits a i sd p q t =
     (if tl_max_order_quantity limits < q then OrderTooLarge
      else if sd = Buy
      then (let notional = q * p in if sless (tracker_cash a t) notional then InsufficientFunds else NoReason)
      else if tracker_position a i t < q then InsufficientPosition
      else NoReason)"

record SubmitOutcome =
  so_client_order_id :: "ClientOrderId option"
  so_local_reject_reason :: RejectReason

record TraderRiskGatedOms =
  tg_account_id :: AccountId
  tg_limits :: TraderRiskLimits
  tg_positions :: PositionTracker
  tg_oms :: OrderManagementSystem

definition new_gated_oms :: "AccountId \<Rightarrow> TraderRiskLimits \<Rightarrow> TraderRiskGatedOms" where
  "new_gated_oms a limits = \<lparr>tg_account_id = a, tg_limits = limits, tg_positions = Map.empty, tg_oms = new_oms a\<rparr>"

section \<open>Operations\<close>

definition gated_submit :: "Sender \<Rightarrow> InstrumentId \<Rightarrow> Side \<Rightarrow> Price \<Rightarrow> Quantity \<Rightarrow> OrderType \<Rightarrow> TimeInForce \<Rightarrow>
    TraderRiskGatedOms \<Rightarrow> SubmitOutcome \<times> TraderRiskGatedOms \<times> Message option \<times> Notice list" where
  "gated_submit sender i sd p q t tif g =
     (let reason = trader_check (tg_limits g) (tg_account_id g) i sd p q (tg_positions g)
      in if reason \<noteq> NoReason then (\<lparr>so_client_order_id = None, so_local_reject_reason = reason\<rparr>, g, None, [])
         else case submit_new_order sender i sd p q t tif (tg_oms g) of
                (c, m, wire_message, ns) \<Rightarrow>
                  (\<lparr>so_client_order_id = Some c, so_local_reject_reason = NoReason\<rparr>, g\<lparr>tg_oms := m\<rparr>, Some wire_message, ns))"

definition gated_cancel :: "Sender \<Rightarrow> ClientOrderId \<Rightarrow> TraderRiskGatedOms \<Rightarrow> bool \<times> TraderRiskGatedOms \<times> Message option" where
  "gated_cancel sender c g = (case cancel_order sender c (tg_oms g) of (done', m, msg) \<Rightarrow> (done', g\<lparr>tg_oms := m\<rparr>, msg))"

definition gated_replace :: "Sender \<Rightarrow> ClientOrderId \<Rightarrow> Price \<Rightarrow> Quantity \<Rightarrow> TraderRiskGatedOms \<Rightarrow>
    ClientOrderId option \<times> TraderRiskGatedOms \<times> Message option" where
  "gated_replace sender c p q g = (case replace_order sender c p q (tg_oms g) of (new_id, m, msg) \<Rightarrow> (new_id, g\<lparr>tg_oms := m\<rparr>, msg))"

fun settle_notice :: "Notice \<Rightarrow> PositionTracker \<Rightarrow> PositionTracker" where
  \<comment> \<open>\<open>positions_.sink()\<close> as the fill sink of the order management system\<close>
  "settle_notice (FillNotice f) t = apply_fill f t"
| "settle_notice (OrderUpdate r) t = t"

definition gated_handle_message :: "Message \<Rightarrow> TraderRiskGatedOms \<Rightarrow> TraderRiskGatedOms \<times> Notice list" where
  "gated_handle_message msg g =
     (case handle_message msg (tg_oms g) of
        (m, ns) \<Rightarrow> (g\<lparr>tg_oms := m, tg_positions := fold settle_notice ns (tg_positions g)\<rparr>, ns))"

definition gated_order :: "ClientOrderId \<Rightarrow> TraderRiskGatedOms \<Rightarrow> ClientOrder option" where
  "gated_order c g = oms_order c (tg_oms g)"

definition gated_cash :: "TraderRiskGatedOms \<Rightarrow> i64" where
  "gated_cash g = tracker_cash (tg_account_id g) (tg_positions g)"

definition gated_position :: "InstrumentId \<Rightarrow> TraderRiskGatedOms \<Rightarrow> Quantity" where
  "gated_position i g = tracker_position (tg_account_id g) i (tg_positions g)"

definition gated_deposit_cash :: "i64 \<Rightarrow> TraderRiskGatedOms \<Rightarrow> TraderRiskGatedOms" where
  "gated_deposit_cash amount g = g\<lparr>tg_positions := tracker_deposit_cash (tg_account_id g) amount (tg_positions g)\<rparr>"

definition gated_deposit_position :: "InstrumentId \<Rightarrow> Quantity \<Rightarrow> TraderRiskGatedOms \<Rightarrow> TraderRiskGatedOms" where
  "gated_deposit_position i amount g = g\<lparr>tg_positions := tracker_deposit_position (tg_account_id g) i amount (tg_positions g)\<rparr>"

section \<open>The tracker's view\<close>

lemma tracker_reads: "tracker_cash a t = ap_cash (account_position a t)" "tracker_position a i t = holding (ap_holdings (account_position a t)) i"
  by (simp_all add: tracker_cash_def tracker_position_def account_position_def no_position_def holding_def split: option.split)

lemma fill_moves:
  "tracker_cash a (apply_fill f t) = tracker_cash a t +
     (if fl_account_id f = a then (if fl_side f = Buy then - (fl_quantity f * fl_price f) else fl_quantity f * fl_price f) else 0)"
  "tracker_position a i (apply_fill f t) = tracker_position a i t +
     (if fl_account_id f = a \<and> fl_instrument_id f = i then (if fl_side f = Buy then fl_quantity f else - fl_quantity f) else 0)"
  by (auto simp: tracker_reads apply_fill_def Let_def account_position_def holding_def split: option.split)

section \<open>Properties\<close>

text \<open>
  C37. The trader's check never turns away what the exchange would take: with the same size limit, and
  with at least the cash and units the exchange counts as available, an order the trader's check refuses
  is refused by the exchange's check for the same reason, in the same order of tests.
\<close>

theorem local_rejections_are_the_exchanges:
  assumes "trader_check limits a i sd p q t = reason" "reason \<noteq> NoReason"
    and "tl_max_order_quantity limits = rl_max_order_quantity limits'"
    and "sle (available_cash a l) (tracker_cash a t)" "available_position a i l \<le> tracker_position a i t"
    and "nc_account_id cmd = a" "nc_instrument_id cmd = i" "nc_side cmd = sd" "nc_price cmd = p" "nc_quantity cmd = q"
  shows "check_new_order limits' cmd l = reason"
proof -
  have "sless (available_cash a l) (q * p)" if "sless (tracker_cash a t) (q * p)"
    using that assms(4) by (simp add: signed_cmp)
  moreover have "available_position a i l < q" if "tracker_position a i t < q"
    using that assms(5) by simp
  ultimately show ?thesis using assms(1-3,6-10)
    by (auto simp: trader_check_def check_new_order_def Let_def split: if_splits)
qed

theorem local_rejections_are_the_exchanges_witness:
  "check_new_order default_limits (sample_limits_order 100 50) (deposit_cash 5 4000 empty_ledger) = InsufficientFunds"
proof (rule local_rejections_are_the_exchanges)
  show "trader_check default_trader_limits 5 7 Buy 100 50 (tracker_deposit_cash 5 4500 Map.empty) = InsufficientFunds"
    by (simp add: trader_check_def default_trader_limits_def tracker_deposit_cash_def tracker_cash_def account_position_def no_position_def Let_def sless_sint)
  show "sle (available_cash 5 (deposit_cash 5 4000 empty_ledger)) (tracker_cash 5 (tracker_deposit_cash 5 4500 Map.empty))"
    by (simp add: available_cash_def deposit_cash_def update_account_def account_ref_def empty_ledger_def no_balances_def
        tracker_deposit_cash_def tracker_cash_def account_position_def no_position_def Let_def sle_sint)
qed (simp_all add: default_trader_limits_def default_limits_def sample_limits_order_def available_position_def deposit_cash_def
    update_account_def account_ref_def empty_ledger_def no_balances_def units_def)

end
