(* ===== verification/GatewayMessages.thy ===== *)
theory GatewayMessages
  imports OrderEntryCodec
begin

text \<open>
  The translations of the order entry gateway (\<open>src/src/exchange/gateway/order_entry_gateway.cpp\<close>): client
  requests to commands, engine events to the private reports of the accounts they concern.
\<close>

record OrderKey =
  ok_account_id :: AccountId
  ok_client_order_id :: ClientOrderId

definition order_key_of :: "AccountId \<Rightarrow> ClientOrderId \<Rightarrow> OrderKey" where
  "order_key_of a c = \<lparr>ok_account_id = a, ok_client_order_id = c\<rparr>"

fun to_command :: "Message \<Rightarrow> ExchangeCommand option" where
  "to_command (NewOrderM m) = Some (NewOrderC \<lparr>nc_command_sequence = 0, nc_account_id = no_account_id m,
     nc_client_order_id = no_client_order_id m, nc_instrument_id = no_instrument_id m, nc_side = no_side m,
     nc_price = no_price m, nc_quantity = no_quantity m, nc_order_type = no_order_type m,
     nc_time_in_force = no_time_in_force m\<rparr>)"
| "to_command (CancelOrderM m) = Some (CancelOrderC \<lparr>cc_command_sequence = 0, cc_account_id = co_account_id m,
     cc_client_order_id = co_client_order_id m, cc_instrument_id = co_instrument_id m\<rparr>)"
| "to_command (ReplaceOrderM m) = Some (ReplaceOrderC \<lparr>rc_command_sequence = 0, rc_account_id = rp_account_id m,
     rc_original_client_order_id = rp_original_client_order_id m, rc_new_client_order_id = rp_new_client_order_id m,
     rc_instrument_id = rp_instrument_id m, rc_new_price = rp_new_price m, rc_new_quantity = rp_new_quantity m\<rparr>)"
| "to_command _ = None"

definition trade_report :: "TradeExecuted \<Rightarrow> TradeCounterparty \<Rightarrow> OrderKey \<times> Message" where
  "trade_report ev side =
     (order_key_of (tc_account_id side) (tc_client_order_id side),
      TradeReportM \<lparr>tr_account_id = tc_account_id side, tr_client_order_id = tc_client_order_id side,
        tr_exchange_order_id = tc_exchange_order_id side, tr_instrument_id = te_instrument_id ev, tr_price = te_price ev,
        tr_quantity = te_quantity ev, tr_remaining_quantity = tc_remaining_quantity side\<rparr>)"

fun to_execution_reports :: "ExchangeEvent \<Rightarrow> (OrderKey \<times> Message) list" where
  "to_execution_reports (EvAccepted ev) =
     [(order_key_of (oa_account_id ev) (oa_client_order_id ev),
       AcceptedM \<lparr>ac_account_id = oa_account_id ev, ac_client_order_id = oa_client_order_id ev,
         ac_exchange_order_id = oa_exchange_order_id ev, ac_instrument_id = oa_instrument_id ev, ac_side = oa_side ev,
         ac_price = oa_price ev, ac_quantity = oa_quantity ev, ac_order_type = oa_order_type ev,
         ac_time_in_force = oa_time_in_force ev\<rparr>)]"
| "to_execution_reports (EvRejected ev) =
     [(order_key_of (or_account_id ev) (or_client_order_id ev),
       RejectedM \<lparr>rj_account_id = or_account_id ev, rj_client_order_id = or_client_order_id ev,
         rj_instrument_id = or_instrument_id ev, rj_reason = or_reason ev\<rparr>)]"
| "to_execution_reports (EvCancelled ev) =
     [(order_key_of (oc_account_id ev) (oc_client_order_id ev),
       CancelledM \<lparr>cl_account_id = oc_account_id ev, cl_client_order_id = oc_client_order_id ev,
         cl_exchange_order_id = oc_exchange_order_id ev, cl_instrument_id = oc_instrument_id ev\<rparr>)]"
| "to_execution_reports (EvReplaced ev) =
     [(order_key_of (op_account_id ev) (op_original_client_order_id ev),
       ReplacedM \<lparr>rl_account_id = op_account_id ev, rl_original_client_order_id = op_original_client_order_id ev,
         rl_new_client_order_id = op_new_client_order_id ev, rl_exchange_order_id = op_exchange_order_id ev,
         rl_instrument_id = op_instrument_id ev, rl_new_price = op_new_price ev, rl_new_quantity = op_new_quantity ev\<rparr>)]"
| "to_execution_reports (EvTrade ev) = [trade_report ev (te_buyer ev), trade_report ev (te_seller ev)]"
| "to_execution_reports _ = []"

fun account_of_message :: "Message \<Rightarrow> AccountId" where
  \<comment> \<open>\<open>m.account_id\<close>, which every alternative has\<close>
  "account_of_message (NewOrderM m) = no_account_id m"
| "account_of_message (CancelOrderM m) = co_account_id m"
| "account_of_message (ReplaceOrderM m) = rp_account_id m"
| "account_of_message (AcceptedM m) = ac_account_id m"
| "account_of_message (RejectedM m) = rj_account_id m"
| "account_of_message (CancelledM m) = cl_account_id m"
| "account_of_message (ReplacedM m) = rl_account_id m"
| "account_of_message (TradeReportM m) = tr_account_id m"

fun mismatch_rejection :: "ExchangeCommand \<Rightarrow> Message" where
  \<comment> \<open>what \<open>reject_account_mismatch\<close> answers\<close>
  "mismatch_rejection (NewOrderC cmd) = RejectedM \<lparr>rj_account_id = nc_account_id cmd,
     rj_client_order_id = nc_client_order_id cmd, rj_instrument_id = nc_instrument_id cmd, rj_reason = AccountMismatch\<rparr>"
| "mismatch_rejection (CancelOrderC cmd) = RejectedM \<lparr>rj_account_id = cc_account_id cmd,
     rj_client_order_id = cc_client_order_id cmd, rj_instrument_id = cc_instrument_id cmd, rj_reason = AccountMismatch\<rparr>"
| "mismatch_rejection (ReplaceOrderC cmd) = RejectedM \<lparr>rj_account_id = rc_account_id cmd,
     rj_client_order_id = rc_original_client_order_id cmd, rj_instrument_id = rc_instrument_id cmd, rj_reason = AccountMismatch\<rparr>"

text \<open>A report is addressed to the account whose key it is filed under.\<close>

lemma report_account: "(k, m) \<in> set (to_execution_reports ev) \<Longrightarrow> account_of_message m = ok_account_id k"
  by (cases ev) (auto simp: order_key_of_def trade_report_def)

definition reports_for :: "AccountId \<Rightarrow> ExchangeEvent list \<Rightarrow> Message list" where
  \<comment> \<open>the private reports of one account\<close>
  "reports_for a evs = concat (map (\<lambda>ev. map snd (filter (\<lambda>(k, m). ok_account_id k = a) (to_execution_reports ev))) evs)"

lemma reports_for_simps [simp]:
  "reports_for a [] = []"
  "reports_for a (ev # evs) = map snd (filter (\<lambda>(k, m). ok_account_id k = a) (to_execution_reports ev)) @ reports_for a evs"
  "reports_for a (evs @ evs') = reports_for a evs @ reports_for a evs'"
  by (simp_all add: reports_for_def)

end
