(* ===== verification/MpscQueue.thy ===== *)
theory MpscQueue
  imports RingBuffer
begin

text \<open>
  The lock-free multi-producer single-consumer ring buffer (\<open>src/include/common/mpsc_queue.hpp\<close>). As in
  \<open>SpscQueue\<close>, the operations are given both uninterrupted and broken at every access to shared memory,
  here with any number of producers. A slot carries the ticket \<open>published\<close> and \<open>Some v\<close> while an object
  is alive in its storage; constructing over a live object, moving from or destroying a dead one is
  undefined behaviour: \<open>None\<close>.
\<close>

section \<open>State\<close>

record 'a Slot =
  sl_published :: u64
  sl_storage :: "'a option"

record 'a MpscQueue =
  mq_capacity :: u64
  mq_mask :: u64
  mq_slots :: "'a Slot list"
  mq_high_water_mark :: u64
  mq_head :: u64
  mq_tail :: u64

definition free_slot :: "'a Slot" where
  "free_slot = \<lparr>sl_published = 0, sl_storage = None\<rparr>"

definition new_mpsc_queue :: "u64 \<Rightarrow> 'a MpscQueue option" where
  "new_mpsc_queue n = do {
     c \<leftarrow> next_power_of_two n;
     Some \<lparr>mq_capacity = c, mq_mask = c - 1, mq_slots = replicate (unat c) free_slot, mq_high_water_mark = 0,
           mq_head = 0, mq_tail = 0\<rparr>
   }"

definition slot_at :: "u64 \<Rightarrow> 'a MpscQueue \<Rightarrow> 'a Slot option" where
  "slot_at counter q =
     (let i = slot_index counter (mq_mask q) in if i < length (mq_slots q) then Some (mq_slots q ! i) else None)"

definition put_slot :: "u64 \<Rightarrow> 'a Slot \<Rightarrow> 'a MpscQueue \<Rightarrow> 'a MpscQueue" where
  "put_slot counter s q = q\<lparr>mq_slots := (mq_slots q)[slot_index counter (mq_mask q) := s]\<rparr>"

definition construct_slot :: "u64 \<Rightarrow> 'a \<Rightarrow> 'a MpscQueue \<Rightarrow> 'a MpscQueue option" where
  "construct_slot counter v q = do {
     s \<leftarrow> slot_at counter q;
     if sl_storage s = None then Some (put_slot counter (s\<lparr>sl_storage := Some v\<rparr>) q) else None
   }"

definition publish_slot :: "u64 \<Rightarrow> u64 \<Rightarrow> 'a MpscQueue \<Rightarrow> 'a MpscQueue option" where
  "publish_slot counter ticket q = do {
     s \<leftarrow> slot_at counter q;
     Some (put_slot counter (s\<lparr>sl_published := ticket\<rparr>) q)
   }"

definition ticket_of :: "u64 \<Rightarrow> 'a MpscQueue \<Rightarrow> u64 option" where
  "ticket_of counter q = map_option sl_published (slot_at counter q)"

definition move_slot :: "u64 \<Rightarrow> 'a MpscQueue \<Rightarrow> 'a option" where
  "move_slot counter q = do { s \<leftarrow> slot_at counter q; sl_storage s }"

definition destroy_slot :: "u64 \<Rightarrow> 'a MpscQueue \<Rightarrow> 'a MpscQueue option" where
  "destroy_slot counter q = do {
     s \<leftarrow> slot_at counter q;
     if sl_storage s = None then None else Some (put_slot counter (s\<lparr>sl_storage := None\<rparr>) q)
   }"

section \<open>The operations on their own\<close>

definition raise_peak :: "u64 \<Rightarrow> 'a MpscQueue \<Rightarrow> 'a MpscQueue" where
  \<comment> \<open>the compare-and-swap loop on \<open>high_water_mark_\<close>\<close>
  "raise_peak occupancy q =
     (if mq_high_water_mark q < occupancy then q\<lparr>mq_high_water_mark := occupancy\<rparr> else q)"

definition mpsc_try_push :: "'a \<Rightarrow> 'a MpscQueue \<Rightarrow> (bool \<times> 'a MpscQueue) option" where
  "mpsc_try_push v q =
     (let h = mq_head q
      in if mq_capacity q \<le> h - mq_tail q then Some (False, q)
         else do {
           q \<leftarrow> construct_slot h v (q\<lparr>mq_head := h + 1\<rparr>);
           q \<leftarrow> publish_slot h (h + 1) q;
           Some (True, raise_peak (h + 1 - mq_tail q) q)
         })"

definition mpsc_try_pop :: "'a MpscQueue \<Rightarrow> ('a option \<times> 'a MpscQueue) option" where
  "mpsc_try_pop q =
     (let t = mq_tail q in do {
        ticket \<leftarrow> ticket_of t q;
        if ticket \<noteq> t + 1 then Some (None, q)
        else do {
          v \<leftarrow> move_slot t q;
          q \<leftarrow> destroy_slot t q;
          q \<leftarrow> publish_slot t 0 q;
          Some (Some v, q\<lparr>mq_tail := t + 1\<rparr>)
        }
      })"

definition mpsc_size :: "'a MpscQueue \<Rightarrow> u64" where
  "mpsc_size q = (let h = mq_head q; t = mq_tail q in h - t)"

section \<open>The operations in small steps\<close>

datatype 'a MpscProducer =
    Idle
  | LoadHead 'a
  | LoadTail 'a u64
  | Reserve 'a u64
  | Construct 'a u64
  | Publish u64
  | LoadTailAgain u64
  | LoadPeak u64
  | SwapPeak u64 u64
  | Pushed bool

datatype 'a MpscConsumer =
    Waiting
  | PopLoadTail
  | LoadTicket u64
  | MoveOut u64
  | Destroy u64 'a
  | ClearTicket u64 'a
  | StoreTail u64 'a
  | Popped "'a option"

text \<open>\<open>mt_reserved\<close> and \<open>mt_received\<close> record the values in the order of their reservations and of their
  removal; no step reads them.\<close>

record 'a MpscThreads =
  mt_queue :: "'a MpscQueue"
  mt_producers :: "nat \<Rightarrow> 'a MpscProducer"
  mt_consumer :: "'a MpscConsumer"
  mt_reserved :: "'a list"
  mt_received :: "'a list"

text \<open>A weak compare-and-swap may fail for no reason: \<open>Producer p True\<close> is a step in which it does.\<close>

datatype 'a MpscAction = CallPush nat 'a | Producer nat bool | CallPop | Consumer

definition go :: "nat \<Rightarrow> 'a MpscProducer \<Rightarrow> 'a MpscThreads \<Rightarrow> 'a MpscThreads" where
  "go p pc s = s\<lparr>mt_producers := (mt_producers s)(p := pc)\<rparr>"

definition mpsc_producer_step :: "nat \<Rightarrow> bool \<Rightarrow> 'a MpscThreads \<Rightarrow> 'a MpscThreads option" where
  "mpsc_producer_step p spurious s =
     (let q = mt_queue s in
      case mt_producers s p of
        LoadHead v \<Rightarrow> Some (go p (LoadTail v (mq_head q)) s)
      | LoadTail v h \<Rightarrow> Some (go p (if mq_capacity q \<le> h - mq_tail q then Pushed False else Reserve v h) s)
      | Reserve v h \<Rightarrow>
          if mq_head q = h \<and> \<not> spurious
          then Some (go p (Construct v h) (s\<lparr>mt_queue := q\<lparr>mq_head := h + 1\<rparr>, mt_reserved := mt_reserved s @ [v]\<rparr>))
          else Some (go p (LoadTail v (mq_head q)) s)
      | Construct v h \<Rightarrow> do { q \<leftarrow> construct_slot h v q; Some (go p (Publish h) (s\<lparr>mt_queue := q\<rparr>)) }
      | Publish h \<Rightarrow> do { q \<leftarrow> publish_slot h (h + 1) q; Some (go p (LoadTailAgain h) (s\<lparr>mt_queue := q\<rparr>)) }
      | LoadTailAgain h \<Rightarrow> Some (go p (LoadPeak (h + 1 - mq_tail q)) s)
      | LoadPeak occupancy \<Rightarrow> Some (go p (SwapPeak occupancy (mq_high_water_mark q)) s)
      | SwapPeak occupancy peak \<Rightarrow>
          if \<not> peak < occupancy then Some (go p (Pushed True) s)
          else if mq_high_water_mark q = peak \<and> \<not> spurious
          then Some (go p (Pushed True) (s\<lparr>mt_queue := q\<lparr>mq_high_water_mark := occupancy\<rparr>\<rparr>))
          else Some (go p (SwapPeak occupancy (mq_high_water_mark q)) s)
      | _ \<Rightarrow> Some s)"

definition mpsc_consumer_step :: "'a MpscThreads \<Rightarrow> 'a MpscThreads option" where
  "mpsc_consumer_step s =
     (let q = mt_queue s in
      case mt_consumer s of
        PopLoadTail \<Rightarrow> Some (s\<lparr>mt_consumer := LoadTicket (mq_tail q)\<rparr>)
      | LoadTicket t \<Rightarrow> do {
          ticket \<leftarrow> ticket_of t q;
          Some (s\<lparr>mt_consumer := (if ticket \<noteq> t + 1 then Popped None else MoveOut t)\<rparr>) }
      | MoveOut t \<Rightarrow> do { v \<leftarrow> move_slot t q; Some (s\<lparr>mt_consumer := Destroy t v\<rparr>) }
      | Destroy t v \<Rightarrow> do { q \<leftarrow> destroy_slot t q; Some (s\<lparr>mt_queue := q, mt_consumer := ClearTicket t v\<rparr>) }
      | ClearTicket t v \<Rightarrow> do { q \<leftarrow> publish_slot t 0 q; Some (s\<lparr>mt_queue := q, mt_consumer := StoreTail t v\<rparr>) }
      | StoreTail t v \<Rightarrow>
          Some (s\<lparr>mt_queue := q\<lparr>mq_tail := t + 1\<rparr>, mt_consumer := Popped (Some v), mt_received := mt_received s @ [v]\<rparr>)
      | _ \<Rightarrow> Some s)"

fun mpsc_act :: "'a MpscAction \<Rightarrow> 'a MpscThreads \<Rightarrow> 'a MpscThreads option" where
  "mpsc_act (CallPush p v) s =
     Some (case mt_producers s p of Idle \<Rightarrow> go p (LoadHead v) s | Pushed _ \<Rightarrow> go p (LoadHead v) s | _ \<Rightarrow> s)"
| "mpsc_act (Producer p spurious) s = mpsc_producer_step p spurious s"
| "mpsc_act CallPop s =
     Some (case mt_consumer s of Waiting \<Rightarrow> s\<lparr>mt_consumer := PopLoadTail\<rparr>
             | Popped _ \<Rightarrow> s\<lparr>mt_consumer := PopLoadTail\<rparr> | _ \<Rightarrow> s)"
| "mpsc_act Consumer s = mpsc_consumer_step s"

fun mpsc_acts :: "'a MpscAction list \<Rightarrow> 'a MpscThreads \<Rightarrow> 'a MpscThreads option" where
  "mpsc_acts [] s = Some s"
| "mpsc_acts (a # as) s = (case mpsc_act a s of None \<Rightarrow> None | Some s \<Rightarrow> mpsc_acts as s)"

definition start_mpsc :: "u64 \<Rightarrow> 'a MpscThreads option" where
  "start_mpsc n = map_option (\<lambda>q. \<lparr>mt_queue = q, mt_producers = (\<lambda>_. Idle), mt_consumer = Waiting,
     mt_reserved = [], mt_received = []\<rparr>) (new_mpsc_queue n)"

section \<open>The ring\<close>

definition mring :: "'a MpscQueue \<Rightarrow> nat \<Rightarrow> nat \<Rightarrow> nat \<Rightarrow> (nat \<Rightarrow> 'a Slot) \<Rightarrow> bool" where
  \<comment> \<open>\<open>t\<close> values were taken and \<open>h\<close> reserved; seen from the tail the slots show \<open>f\<close>\<close>
  "mring q k t h f \<longleftrightarrow>
     k \<le> 63 \<and> mq_capacity q = 2 ^ k \<and> mq_mask q = 2 ^ k - 1 \<and> length (mq_slots q) = 2 ^ k \<and>
     mq_tail q = of_nat t \<and> mq_head q = of_nat h \<and> t \<le> h \<and> h - t \<le> 2 ^ k \<and> window (mq_slots q) t f"

lemma mring_slot:
  assumes "mring q k t h f" "t \<le> c" "c < t + 2 ^ k"
  shows "slot_at (of_nat c) q = Some (f (c - t))" "mring (put_slot (of_nat c) x q) k t h (f(c - t := x))"
proof -
  have i: "c - t < length (mq_slots q)" "slot_index (of_nat c) (mq_mask q) = (t + (c - t)) mod length (mq_slots q)"
    using assms slot_index [of k c] by (simp_all add: mring_def)
  have w: "window (mq_slots q) t f" using assms(1) by (simp add: mring_def)
  have p: "(t + (c - t)) mod length (mq_slots q) < length (mq_slots q)" using i(1) by (intro mod_less_divisor) linarith
  then show "slot_at (of_nat c) q = Some (f (c - t))" unfolding slot_at_def i(2) using window_get [OF w i(1)] by simp
  show "mring (put_slot (of_nat c) x q) k t h (f(c - t := x))"
    using assms(1) window_put [OF w i(1), of x] i(2) by (simp add: mring_def put_slot_def)
qed

lemma mring_full:
  assumes "mring q k t h f"
  shows "mq_capacity q \<le> mq_head q - mq_tail q \<longleftrightarrow> h - t = 2 ^ k"
  using assms counter_le(1) [of t h k] by (auto simp: mring_def)

lemma mring_shift:
  assumes "mring q k t h f" "t < h"
  shows "mring (q\<lparr>mq_tail := of_nat t + 1\<rparr>) k (Suc t) h (\<lambda>i. if Suc i = 2 ^ k then f 0 else f (Suc i))"
  using assms window_shift [of "mq_slots q" t f] by (auto simp: mring_def add.commute)

lemma mring_reserve:
  assumes "mring q k t h f" "h - t < 2 ^ k"
  shows "mring (q\<lparr>mq_head := of_nat h + 1\<rparr>) k t (Suc h) f"
  using assms by (auto simp: mring_def add.commute)

lemma mring_cong: "mring q k t h f \<Longrightarrow> (\<And>i. i < 2 ^ k \<Longrightarrow> f i = g i) \<Longrightarrow> mring q k t h g"
  by (auto simp: mring_def elim: window_cong)

lemma ticket_inj: "(of_nat c :: u64) = of_nat d \<longleftrightarrow> c = d" if "c < 2 ^ 64" "d < 2 ^ 64"
  using that by (metis unat_word_of_nat_64)

section \<open>Invariant of the interleaved operations\<close>

text \<open>How far the producer that reserved a slot has come.\<close>

datatype Stage = Reserved | Constructed | Published

definition slot_shows :: "'a MpscConsumer \<Rightarrow> (nat \<Rightarrow> Stage) \<Rightarrow> 'a list \<Rightarrow> nat \<Rightarrow> nat \<Rightarrow> 'a Slot" where
  "slot_shows c S xs t i =
     (if t + i < length xs
      then case S (t + i) of
             Reserved \<Rightarrow> free_slot
           | Constructed \<Rightarrow> \<lparr>sl_published = 0, sl_storage = Some (xs ! (t + i))\<rparr>
           | Published \<Rightarrow>
               (if i = 0 then case c of
                    ClearTicket _ _ \<Rightarrow> \<lparr>sl_published = of_nat (Suc t), sl_storage = None\<rparr>
                  | StoreTail _ _ \<Rightarrow> free_slot
                  | _ \<Rightarrow> \<lparr>sl_published = of_nat (Suc t), sl_storage = Some (xs ! t)\<rparr>
                else \<lparr>sl_published = of_nat (Suc (t + i)), sl_storage = Some (xs ! (t + i))\<rparr>)
      else free_slot)"

fun ticket :: "'a MpscProducer \<Rightarrow> u64 option" where
  "ticket (Construct v h) = Some h"
| "ticket (Publish h) = Some h"
| "ticket _ = None"

fun producer_at :: "nat \<Rightarrow> nat \<Rightarrow> 'a list \<Rightarrow> (nat \<Rightarrow> Stage) \<Rightarrow> 'a MpscProducer \<Rightarrow> bool" where
  "producer_at k t xs S (LoadTail v h) \<longleftrightarrow> (\<exists>c \<le> length xs. h = of_nat c)"
| "producer_at k t xs S (Reserve v h) \<longleftrightarrow>
     (\<exists>c \<le> length xs. h = of_nat c \<and> (c = length xs \<longrightarrow> length xs - t < 2 ^ k))"
| "producer_at k t xs S (Construct v h) \<longleftrightarrow>
     (\<exists>c. h = of_nat c \<and> t \<le> c \<and> c < length xs \<and> S c = Reserved \<and> xs ! c = v)"
| "producer_at k t xs S (Publish h) \<longleftrightarrow> (\<exists>c. h = of_nat c \<and> t \<le> c \<and> c < length xs \<and> S c = Constructed)"
| "producer_at k t xs S _ \<longleftrightarrow> True"

fun consumer_at :: "nat \<Rightarrow> 'a list \<Rightarrow> (nat \<Rightarrow> Stage) \<Rightarrow> 'a MpscConsumer \<Rightarrow> bool" where
  "consumer_at t xs S (LoadTicket c) \<longleftrightarrow> c = of_nat t"
| "consumer_at t xs S (MoveOut c) \<longleftrightarrow> c = of_nat t \<and> t < length xs \<and> S t = Published"
| "consumer_at t xs S (Destroy c v) \<longleftrightarrow> c = of_nat t \<and> t < length xs \<and> S t = Published \<and> v = xs ! t"
| "consumer_at t xs S (ClearTicket c v) \<longleftrightarrow> c = of_nat t \<and> t < length xs \<and> S t = Published \<and> v = xs ! t"
| "consumer_at t xs S (StoreTail c v) \<longleftrightarrow> c = of_nat t \<and> t < length xs \<and> S t = Published \<and> v = xs ! t"
| "consumer_at t xs S _ \<longleftrightarrow> True"

definition mpsc_inv :: "nat \<Rightarrow> nat \<Rightarrow> (nat \<Rightarrow> Stage) \<Rightarrow> 'a MpscThreads \<Rightarrow> bool" where
  \<comment> \<open>at most \<open>n\<close> reservations were made\<close>
  "mpsc_inv n k S s \<longleftrightarrow>
     (let t = length (mt_received s); xs = mt_reserved s in
      length xs \<le> n \<and> mt_received s = take t xs \<and>
      mring (mt_queue s) k t (length xs) (slot_shows (mt_consumer s) S xs t) \<and>
      (\<forall>p. producer_at k t xs S (mt_producers s p)) \<and>
      (\<forall>c. t \<le> c \<longrightarrow> c < length xs \<longrightarrow> S c \<noteq> Published \<longrightarrow> (\<exists>p. ticket (mt_producers s p) = Some (of_nat c))) \<and>
      (\<forall>p p'. ticket (mt_producers s p) \<noteq> None \<longrightarrow> ticket (mt_producers s p) = ticket (mt_producers s p') \<longrightarrow> p = p') \<and>
      consumer_at t xs S (mt_consumer s))"

lemma producer_at_append:
  assumes "producer_at k t xs S pc" "t \<le> length xs"
  shows "producer_at k t (xs @ [v]) (S(length xs := Reserved)) pc"
proof (cases pc)
  case (LoadTail w h) then show ?thesis using assms(1) by auto (use le_SucI in blast)
next
  case (Reserve w h)
  then obtain c where "c \<le> length xs" "h = of_nat c" using assms(1) by auto
  then show ?thesis using Reserve by (auto intro!: exI [of _ c])
next
  case (Construct w h)
  then obtain c where "h = of_nat c" "t \<le> c" "c < length xs" "S c = Reserved" "xs ! c = w" using assms(1) by auto
  then show ?thesis using Construct by (auto simp: nth_append intro!: exI [of _ c])
next
  case (Publish h)
  then obtain c where "h = of_nat c" "t \<le> c" "c < length xs" "S c = Constructed" using assms(1) by auto
  then show ?thesis using Publish by (auto simp: nth_append intro!: exI [of _ c])
qed simp_all

lemma producer_at_other:
  assumes "producer_at k t xs S pc" "ticket pc \<noteq> Some (of_nat c)"
  shows "producer_at k t xs (S(c := stg)) pc"
  using assms by (cases pc) auto

lemma producer_at_taken:
  assumes "producer_at k t xs S pc" "S t = Published" "t < length xs"
  shows "producer_at k (Suc t) xs S pc"
proof (cases pc)
  case (Reserve w h)
  then show ?thesis using assms(1,3) by auto
next
  case (Construct w h)
  then obtain c where c: "h = of_nat c" "t \<le> c" "c < length xs" "S c = Reserved" "xs ! c = w" using assms(1) by auto
  then have "c \<noteq> t" using assms(2) by auto
  then show ?thesis using Construct c by (auto intro!: exI [of _ c])
next
  case (Publish h)
  then obtain c where c: "h = of_nat c" "t \<le> c" "c < length xs" "S c = Constructed" using assms(1) by auto
  then have "c \<noteq> t" using assms(2) by auto
  then show ?thesis using Publish c by (auto intro!: exI [of _ c])
qed (use assms in simp_all)

lemma slot_shows_append:
  assumes "t \<le> length xs"
  shows "slot_shows c (S(length xs := Reserved)) (xs @ [v]) t = slot_shows c S xs t"
  using assms by (auto simp: slot_shows_def nth_append fun_eq_iff split: Stage.split MpscConsumer.split)

lemma slot_shows_stage:
  assumes "t \<le> j" "j < length xs"
    "x = (case stg of Reserved \<Rightarrow> free_slot | Constructed \<Rightarrow> \<lparr>sl_published = 0, sl_storage = Some (xs ! j)\<rparr>
                    | Published \<Rightarrow> \<lparr>sl_published = of_nat (Suc j), sl_storage = Some (xs ! j)\<rparr>)"
    "consumer_at t xs S c" "S j \<noteq> Published"
  shows "(slot_shows c S xs t)(j - t := x) = slot_shows c (S(j := stg)) xs t"
  using assms by (auto simp: slot_shows_def fun_eq_iff split: Stage.split MpscConsumer.split)

lemma consumer_at_kept:
  assumes "consumer_at t xs S c"
  shows "consumer_at t (xs @ [v]) (S(length xs := Reserved)) c" "S j \<noteq> Published \<Longrightarrow> consumer_at t xs (S(j := stg)) c"
  using assms by (cases c; auto simp: nth_append)+

lemma unique_ticket:
  assumes "\<And>p p'. ticket (f p) \<noteq> None \<Longrightarrow> ticket (f p) = ticket (f p') \<Longrightarrow> p = p'"
    "ticket x = None \<or> ticket x = ticket (f p) \<or> (\<forall>q. ticket (f q) \<noteq> ticket x)"
    "ticket ((f(p := x)) p1) \<noteq> None" "ticket ((f(p := x)) p1) = ticket ((f(p := x)) p2)"
  shows "p1 = p2"
proof (cases "p1 = p")
  case True
  show ?thesis
  proof (rule ccontr)
    assume d: "p1 \<noteq> p2"
    then have e: "ticket x = ticket (f p2)" "ticket x \<noteq> None" using True assms(3,4) by simp_all
    then have "ticket (f p) = ticket (f p2)" "ticket (f p) \<noteq> None" using assms(2) by metis+
    then show False using assms(1) d True by blast
  qed
next
  case False
  show ?thesis
  proof (cases "p2 = p")
    case True
    then have e: "ticket (f p1) = ticket x" "ticket x \<noteq> None" using False assms(3,4) by simp_all
    then have "ticket (f p1) = ticket (f p)" "ticket (f p1) \<noteq> None" using assms(2) by metis+
    then show ?thesis using assms(1) True by blast
  next
    case F: False
    then show ?thesis using assms(1,3,4) False by auto
  qed
qed

lemma go_fields:
  "mt_queue (go p pc s) = mt_queue s" "mt_producers (go p pc s) = (mt_producers s)(p := pc)"
  "mt_consumer (go p pc s) = mt_consumer s" "mt_reserved (go p pc s) = mt_reserved s" "mt_received (go p pc s) = mt_received s"
  by (simp_all add: go_def)

lemma reserved_fields:
  "mt_queue (s\<lparr>mt_queue := q, mt_reserved := xs\<rparr>) = q" "mt_producers (s\<lparr>mt_queue := q, mt_reserved := xs\<rparr>) = mt_producers s"
  "mt_consumer (s\<lparr>mt_queue := q, mt_reserved := xs\<rparr>) = mt_consumer s" "mt_reserved (s\<lparr>mt_queue := q, mt_reserved := xs\<rparr>) = xs"
  "mt_received (s\<lparr>mt_queue := q, mt_reserved := xs\<rparr>) = mt_received s"
  "mt_queue (s\<lparr>mt_queue := q\<rparr>) = q" "mt_producers (s\<lparr>mt_queue := q\<rparr>) = mt_producers s"
  "mt_consumer (s\<lparr>mt_queue := q\<rparr>) = mt_consumer s" "mt_reserved (s\<lparr>mt_queue := q\<rparr>) = mt_reserved s"
  "mt_received (s\<lparr>mt_queue := q\<rparr>) = mt_received s"
  by simp_all

lemma mpsc_invI:
  assumes "length (mt_reserved s) \<le> n" "mt_received s = take (length (mt_received s)) (mt_reserved s)"
    "mring (mt_queue s) k (length (mt_received s)) (length (mt_reserved s))
       (slot_shows (mt_consumer s) S (mt_reserved s) (length (mt_received s)))"
    "\<And>p. producer_at k (length (mt_received s)) (mt_reserved s) S (mt_producers s p)"
    "\<And>p p'. ticket (mt_producers s p) \<noteq> None \<Longrightarrow> ticket (mt_producers s p) = ticket (mt_producers s p') \<Longrightarrow> p = p'"
    "consumer_at (length (mt_received s)) (mt_reserved s) S (mt_consumer s)"
    "\<And>c. length (mt_received s) \<le> c \<Longrightarrow> c < length (mt_reserved s) \<Longrightarrow> S c \<noteq> Published \<Longrightarrow> \<exists>p. ticket (mt_producers s p) = Some (of_nat c)"
  shows "mpsc_inv n k S s"
  using assms unfolding mpsc_inv_def Let_def by blast

text \<open>The producer \<open>p\<close> goes to \<open>pc\<close> and the stage of its slot, if it has one, to \<open>stg\<close>.\<close>

lemma mpsc_inv_facts:
  assumes "mpsc_inv n k S s"
  shows "mring (mt_queue s) k (length (mt_received s)) (length (mt_reserved s)) (slot_shows (mt_consumer s) S (mt_reserved s) (length (mt_received s)))"
    "producer_at k (length (mt_received s)) (mt_reserved s) S (mt_producers s p)"
    "consumer_at (length (mt_received s)) (mt_reserved s) S (mt_consumer s)"
    "length (mt_reserved s) \<le> n" "mt_received s = take (length (mt_received s)) (mt_reserved s)"
    "length (mt_received s) \<le> length (mt_reserved s)"
    "ticket (mt_producers s p) \<noteq> None \<Longrightarrow> ticket (mt_producers s p) = ticket (mt_producers s p') \<Longrightarrow> p = p'"
    "length (mt_received s) \<le> c \<Longrightarrow> c < length (mt_reserved s) \<Longrightarrow> S c \<noteq> Published \<Longrightarrow> \<exists>p. ticket (mt_producers s p) = Some (of_nat c)"
proof -
  show r: "mring (mt_queue s) k (length (mt_received s)) (length (mt_reserved s)) (slot_shows (mt_consumer s) S (mt_reserved s) (length (mt_received s)))"
    using assms unfolding mpsc_inv_def Let_def by blast
  then show "length (mt_received s) \<le> length (mt_reserved s)" by (simp add: mring_def)
qed (use assms in \<open>unfold mpsc_inv_def Let_def, blast+\<close>)

lemma mpsc_inv_go:
  assumes inv: "mpsc_inv n k S s" and "mring q k (length (mt_received s)) (length (mt_reserved s)) (slot_shows (mt_consumer s) S (mt_reserved s) (length (mt_received s)))"
    "producer_at k (length (mt_received s)) (mt_reserved s) S pc" "ticket pc = None" "ticket (mt_producers s p) = None"
  shows "mpsc_inv n k S (go p pc (s\<lparr>mt_queue := q\<rparr>))"
proof (rule mpsc_invI; unfold go_fields reserved_fields)
  note f = mpsc_inv_facts [OF inv]
  show "producer_at k (length (mt_received s)) (mt_reserved s) S (((mt_producers s)(p := pc)) p')" for p'
    using f(2) assms(3) by simp
  show "p1 = p2" if "ticket (((mt_producers s)(p := pc)) p1) \<noteq> None"
    "ticket (((mt_producers s)(p := pc)) p1) = ticket (((mt_producers s)(p := pc)) p2)" for p1 p2
    by (rule unique_ticket [OF f(7) _ that]) (use assms(4) in auto)
  show "\<exists>p'. ticket (((mt_producers s)(p := pc)) p') = Some (of_nat c)"
    if c: "length (mt_received s) \<le> c" "c < length (mt_reserved s)" "S c \<noteq> Published" for c
  proof -
    obtain p' where "ticket (mt_producers s p') = Some (of_nat c)" using f(8) [OF c] by blast
    then show ?thesis using assms(5) by (intro exI [of _ p']) auto
  qed
qed (use mpsc_inv_facts [OF inv] assms in blast)+

lemma go_same: "go p pc (s\<lparr>mt_queue := mt_queue s\<rparr>) = go p pc s"
  by (simp add: go_def)

lemma mring_mark: "mring (q\<lparr>mq_high_water_mark := m\<rparr>) k t h f = mring q k t h f"
  by (simp add: mring_def)

lemma mpsc_inv_stage:
  assumes inv: "mpsc_inv n k S s" and pc: "ticket (mt_producers s p) = Some (of_nat c)" "length (mt_received s) \<le> c" "c < length (mt_reserved s)"
    "S c \<noteq> Published"
    and x: "x = (case stg of Reserved \<Rightarrow> free_slot | Constructed \<Rightarrow> \<lparr>sl_published = 0, sl_storage = Some (mt_reserved s ! c)\<rparr>
                    | Published \<Rightarrow> \<lparr>sl_published = of_nat (Suc c), sl_storage = Some (mt_reserved s ! c)\<rparr>)"
    and new: "producer_at k (length (mt_received s)) (mt_reserved s) (S(c := stg)) pc"
      "ticket pc = (if stg = Published then None else Some (of_nat c))" and n: "length (mt_reserved s) \<le> 2 ^ 64"
  shows "mpsc_inv n k (S(c := stg)) (go p pc (s\<lparr>mt_queue := put_slot (of_nat c) x (mt_queue s)\<rparr>))"
proof -
  let ?t = "length (mt_received s)" and ?xs = "mt_reserved s"
  have b: "length ?xs \<le> n" "mt_received s = take ?t ?xs" and r: "mring (mt_queue s) k ?t (length ?xs) (slot_shows (mt_consumer s) S ?xs ?t)"
    and pa: "\<And>p. producer_at k ?t ?xs S (mt_producers s p)"
    and u: "\<And>p p'. ticket (mt_producers s p) \<noteq> None \<Longrightarrow> ticket (mt_producers s p) = ticket (mt_producers s p') \<Longrightarrow> p = p'"
    and ca: "consumer_at ?t ?xs S (mt_consumer s)"
    and held: "\<And>c. ?t \<le> c \<Longrightarrow> c < length ?xs \<Longrightarrow> S c \<noteq> Published \<Longrightarrow> \<exists>p. ticket (mt_producers s p) = Some (of_nat c)"
    by (rule mpsc_inv_facts [OF inv]; assumption)+
  have c: "c < ?t + 2 ^ k" using r pc(3) by (auto simp: mring_def)
  have "mring (put_slot (of_nat c) x (mt_queue s)) k ?t (length ?xs) (slot_shows (mt_consumer s) (S(c := stg)) ?xs ?t)"
    using mring_slot(2) [OF r pc(2) c, of x] slot_shows_stage [OF pc(2,3) x ca pc(4)] by simp
  moreover have "producer_at k ?t ?xs (S(c := stg)) (((mt_producers s)(p := pc)) p')" for p'
  proof (cases "p' = p")
    case False
    then have "ticket (mt_producers s p') \<noteq> Some (of_nat c)" using u [of p p'] pc(1) by auto
    then show ?thesis using False producer_at_other [OF pa] by simp
  qed (use new(1) in simp)
  moreover have "p1 = p2" if "ticket (((mt_producers s)(p := pc)) p1) \<noteq> None"
    "ticket (((mt_producers s)(p := pc)) p1) = ticket (((mt_producers s)(p := pc)) p2)" for p1 p2
    by (rule unique_ticket [OF u _ that]) (use new(2) pc(1) in auto)
  moreover have "\<exists>p'. ticket (((mt_producers s)(p := pc)) p') = Some (of_nat d)"
    if d: "?t \<le> d" "d < length ?xs" "(S(c := stg)) d \<noteq> Published" for d
  proof (cases "d = c")
    case True
    then show ?thesis using d(3) new(2) by (intro exI [of _ p]) simp
  next
    case False
    then obtain p' where p': "ticket (mt_producers s p') = Some (of_nat d)" using held [of d] d by auto
    then have "p' \<noteq> p" using False pc(1,3) d(2) n ticket_inj [of c d] by auto
    then show ?thesis using p' by (intro exI [of _ p']) simp
  qed
  ultimately show ?thesis by - (rule mpsc_invI, unfold go_fields reserved_fields, rule b, rule b, assumption, blast, blast, rule consumer_at_kept(2) [OF ca pc(4)], blast)
qed

lemma mpsc_inv_reserve:
  assumes inv: "mpsc_inv n k S s" and pc: "mt_producers s p = Reserve v h" "mq_head (mt_queue s) = h" and n: "n < 2 ^ 64"
  shows "mpsc_inv (Suc n) k (S(length (mt_reserved s) := Reserved))
    (go p (Construct v h) (s\<lparr>mt_queue := (mt_queue s)\<lparr>mq_head := h + 1\<rparr>, mt_reserved := mt_reserved s @ [v]\<rparr>))"
proof -
  let ?t = "length (mt_received s)" and ?xs = "mt_reserved s" and ?S = "S(length (mt_reserved s) := Reserved)"
  have b: "length ?xs \<le> n" "mt_received s = take ?t ?xs" and r: "mring (mt_queue s) k ?t (length ?xs) (slot_shows (mt_consumer s) S ?xs ?t)"
    and pa: "\<And>p. producer_at k ?t ?xs S (mt_producers s p)"
    and u: "\<And>p p'. ticket (mt_producers s p) \<noteq> None \<Longrightarrow> ticket (mt_producers s p) = ticket (mt_producers s p') \<Longrightarrow> p = p'"
    and ca: "consumer_at ?t ?xs S (mt_consumer s)"
    and held: "\<And>c. ?t \<le> c \<Longrightarrow> c < length ?xs \<Longrightarrow> S c \<noteq> Published \<Longrightarrow> \<exists>p. ticket (mt_producers s p) = Some (of_nat c)"
    by (rule mpsc_inv_facts [OF inv]; assumption)+
  have t: "?t \<le> length ?xs" and h: "h = of_nat (length ?xs)" using r pc(2) by (simp_all add: mring_def)
  obtain c where c: "c \<le> length ?xs" "h = of_nat c" "c = length ?xs \<longrightarrow> length ?xs - ?t < 2 ^ k" using pa [of p] pc(1) by auto
  then have "c = length ?xs" using h b(1) n ticket_inj [of c "length ?xs"] by simp
  then have room: "length ?xs - ?t < 2 ^ k" using c(3) by simp
  have "mring ((mt_queue s)\<lparr>mq_head := h + 1\<rparr>) k ?t (Suc (length ?xs)) (slot_shows (mt_consumer s) ?S (?xs @ [v]) ?t)"
    using mring_reserve [OF r room] by (simp add: h slot_shows_append [OF t])
  moreover have "producer_at k ?t (?xs @ [v]) ?S (((mt_producers s)(p := Construct v h)) p')" for p'
    using producer_at_append [OF pa t, of v p'] h t by (cases "p' = p") auto
  moreover have low: "ticket (mt_producers s p') \<noteq> Some h" for p'
  proof
    assume a: "ticket (mt_producers s p') = Some h"
    then obtain d where "h = of_nat d" "d < length ?xs" using pa [of p'] by (cases "mt_producers s p'") auto
    then show False using h b(1) n ticket_inj [of d "length ?xs"] by simp
  qed
  have "p1 = p2" if "ticket (((mt_producers s)(p := Construct v h)) p1) \<noteq> None"
    "ticket (((mt_producers s)(p := Construct v h)) p1) = ticket (((mt_producers s)(p := Construct v h)) p2)" for p1 p2
    by (rule unique_ticket [OF u _ that]) (use low in auto)
  moreover have "mt_received s = take ?t (?xs @ [v])" using b(2) t by simp
  moreover have "Suc (length ?xs) \<le> Suc n" using b(1) by simp
  moreover have "\<exists>p'. ticket (((mt_producers s)(p := Construct v h)) p') = Some (of_nat d)"
    if d: "?t \<le> d" "d < Suc (length ?xs)" "?S d \<noteq> Published" for d
  proof (cases "d = length ?xs")
    case True
    then show ?thesis using h by (intro exI [of _ p]) simp
  next
    case False
    then obtain p' where p': "ticket (mt_producers s p') = Some (of_nat d)" using held [of d] d by auto
    then have "p' \<noteq> p" using pc(1) by auto
    then show ?thesis using p' by (intro exI [of _ p']) simp
  qed
  moreover note consumer_at_kept(1) [OF ca, of v]
  ultimately show ?thesis
    by - (rule mpsc_invI, unfold go_fields reserved_fields, simp only: length_append_singleton, assumption, simp only: length_append_singleton, blast, blast, assumption, simp only: length_append_singleton)
qed

lemma mpsc_inv_more: "mpsc_inv n k S s \<Longrightarrow> mpsc_inv (Suc n) k S s"
  by (auto simp: mpsc_inv_def Let_def)

lemma mpsc_producer_kept:
  assumes inv: "mpsc_inv n k S s" and n: "n < 2 ^ 64"
  shows "\<exists>s' S'. mpsc_producer_step p spurious s = Some s' \<and> mpsc_inv (Suc n) k S' s'"
proof -
  let ?t = "length (mt_received s)" and ?xs = "mt_reserved s" and ?q = "mt_queue s"
  note r = mpsc_inv_facts(1) [OF inv] and pa = mpsc_inv_facts(2) [OF inv, of p] and more = mpsc_inv_more [OF inv]
  have quiet: "mpsc_inv (Suc n) k S (go p pc s)" if "producer_at k ?t ?xs S pc" "ticket pc = None" "ticket (mt_producers s p) = None" for pc
    using mpsc_inv_go [OF more r that] by simp
  have mark: "mpsc_inv (Suc n) k S (go p (Pushed True) (s\<lparr>mt_queue := ?q\<lparr>mq_high_water_mark := m\<rparr>\<rparr>))"
    if "ticket (mt_producers s p) = None" for m
    by (rule mpsc_inv_go [OF more]) (use r that in \<open>simp_all add: mring_mark\<close>)
  have h: "mq_head ?q = of_nat (length ?xs)" and t: "mq_tail ?q = of_nat ?t" using r by (simp_all add: mring_def)
  show ?thesis
  proof (cases "mt_producers s p")
    case (LoadHead v)
    then show ?thesis using quiet [of "LoadTail v (mq_head ?q)"] h LoadHead by (auto simp: mpsc_producer_step_def)
  next
    case (LoadTail v j)
    then obtain c where c: "c \<le> length ?xs" "j = of_nat c" using pa by auto
    have "length ?xs - ?t < 2 ^ k" if "\<not> mq_capacity ?q \<le> j - mq_tail ?q" "c = length ?xs"
      using mring_full [OF r] that c(2) h r by (auto simp: mring_def)
    then have "producer_at k ?t ?xs S (if mq_capacity ?q \<le> j - mq_tail ?q then Pushed False else Reserve v j)"
      using c by auto
    then show ?thesis using quiet [of "if mq_capacity ?q \<le> j - mq_tail ?q then Pushed False else Reserve v j"] LoadTail
      by (auto simp: mpsc_producer_step_def Let_def)
  next
    case (Reserve v j)
    have "mpsc_inv (Suc n) k S (go p (LoadTail v (mq_head ?q)) s)" using quiet [of "LoadTail v (mq_head ?q)"] h Reserve by auto
    moreover have "\<exists>S'. mpsc_inv (Suc n) k S' (go p (Construct v j) (s\<lparr>mt_queue := ?q\<lparr>mq_head := j + 1\<rparr>, mt_reserved := ?xs @ [v]\<rparr>))"
      if "mq_head ?q = j" using mpsc_inv_reserve [OF inv Reserve that n] by blast
    ultimately show ?thesis using Reserve by (auto simp: mpsc_producer_step_def Let_def)
  next
    case (Construct v j)
    then obtain c where c: "j = of_nat c" "?t \<le> c" "c < length ?xs" "S c = Reserved" "?xs ! c = v" using pa by auto
    have b: "c < ?t + 2 ^ k" using r c(3) by (auto simp: mring_def)
    have f: "slot_shows (mt_consumer s) S ?xs ?t (c - ?t) = free_slot" using c(2-4) by (simp add: slot_shows_def)
    let ?x = "\<lparr>sl_published = 0, sl_storage = Some v\<rparr>"
    have "construct_slot j v ?q = Some (put_slot (of_nat c) ?x ?q)"
      using mring_slot(1) [OF r c(2) b] by (simp add: construct_slot_def c(1) f free_slot_def)
    moreover have "mpsc_inv (Suc n) k (S(c := Constructed)) (go p (Publish j) (s\<lparr>mt_queue := put_slot (of_nat c) ?x ?q\<rparr>))"
      by (rule mpsc_inv_stage [OF more]) (use Construct c n mpsc_inv_facts(4) [OF inv] in auto)
    ultimately show ?thesis using Construct by (auto simp: mpsc_producer_step_def Let_def)
  next
    case (Publish j)
    then obtain c where c: "j = of_nat c" "?t \<le> c" "c < length ?xs" "S c = Constructed" using pa by auto
    have b: "c < ?t + 2 ^ k" using r c(3) by (auto simp: mring_def)
    have f: "slot_shows (mt_consumer s) S ?xs ?t (c - ?t) = \<lparr>sl_published = 0, sl_storage = Some (?xs ! c)\<rparr>"
      using c(2-4) by (simp add: slot_shows_def)
    let ?x = "\<lparr>sl_published = j + 1, sl_storage = Some (?xs ! c)\<rparr>"
    have "publish_slot j (j + 1) ?q = Some (put_slot (of_nat c) ?x ?q)"
      using mring_slot(1) [OF r c(2) b] by (simp add: publish_slot_def c(1) f)
    moreover have "mpsc_inv (Suc n) k (S(c := Published)) (go p (LoadTailAgain j) (s\<lparr>mt_queue := put_slot (of_nat c) ?x ?q\<rparr>))"
      by (rule mpsc_inv_stage [OF more]) (use Publish c n mpsc_inv_facts(4) [OF inv] in \<open>auto simp: add.commute\<close>)
    ultimately show ?thesis using Publish by (auto simp: mpsc_producer_step_def Let_def)
  next
    case (SwapPeak occupancy peak)
    show ?thesis
    proof (cases "peak < occupancy \<and> mq_high_water_mark ?q = peak \<and> \<not> spurious")
      case True
      then show ?thesis using SwapPeak mark [of occupancy] by (auto simp: mpsc_producer_step_def Let_def intro!: exI [of _ S])
    next
      case False
      then show ?thesis using SwapPeak quiet [of "SwapPeak occupancy (mq_high_water_mark ?q)"] quiet [of "Pushed True"]
        by (auto simp: mpsc_producer_step_def Let_def)
    qed
  qed (use more quiet [of "LoadPeak _"] quiet [of "SwapPeak _ _"] in \<open>auto simp: mpsc_producer_step_def Let_def\<close>)
qed

lemma mpsc_inv_consumer:
  assumes inv: "mpsc_inv n k S s" and "consumer_at (length (mt_received s)) (mt_reserved s) S pc"
    "mring q k (length (mt_received s)) (length (mt_reserved s)) (slot_shows pc S (mt_reserved s) (length (mt_received s)))"
  shows "mpsc_inv n k S (s\<lparr>mt_queue := q, mt_consumer := pc\<rparr>)"
proof -
  have u: "ticket (mt_producers s p) \<noteq> None \<Longrightarrow> ticket (mt_producers s p) = ticket (mt_producers s p') \<Longrightarrow> p = p'" for p p'
    by (rule mpsc_inv_facts [OF inv])
  show ?thesis
    by (rule mpsc_invI) (use assms(2,3) mpsc_inv_facts(2,4,5,8) [OF inv] u in simp_all)
qed

lemma slot_shows_calm:
  assumes "\<forall>c v. pc \<noteq> ClearTicket c v \<and> pc \<noteq> StoreTail c v" "\<forall>c v. pc' \<noteq> ClearTicket c v \<and> pc' \<noteq> StoreTail c v"
  shows "slot_shows pc S = slot_shows pc' S"
  using assms by (auto simp: slot_shows_def fun_eq_iff split: Stage.split MpscConsumer.split)

lemma mpsc_consumer_kept:
  assumes inv: "mpsc_inv n k S s" and n: "n < 2 ^ 64 - 1"
  shows "\<exists>s'. mpsc_consumer_step s = Some s' \<and> mpsc_inv n k S s'"
proof -
  let ?t = "length (mt_received s)" and ?xs = "mt_reserved s" and ?q = "mt_queue s"
  note r = mpsc_inv_facts(1) [OF inv] and ca = mpsc_inv_facts(3) [OF inv] and len = mpsc_inv_facts(4) [OF inv]
  have t: "mq_tail ?q = of_nat ?t" and tb: "?t \<le> length ?xs" using r by (simp_all add: mring_def)
  have pa: "producer_at k ?t ?xs S (mt_producers s p)" for p by (rule mpsc_inv_facts(2) [OF inv])
  have u: "ticket (mt_producers s p) \<noteq> None \<Longrightarrow> ticket (mt_producers s p) = ticket (mt_producers s p') \<Longrightarrow> p = p'" for p p'
    by (rule mpsc_inv_facts [OF inv])
  have quiet: "mpsc_inv n k S (s\<lparr>mt_queue := q, mt_consumer := pc\<rparr>)"
    if "consumer_at ?t ?xs S pc" "mring q k ?t (length ?xs) (slot_shows pc S ?xs ?t)" for q pc
    by (rule mpsc_inv_consumer [OF inv that])
  have same: "mpsc_inv n k S (s\<lparr>mt_consumer := pc\<rparr>)"
    if "consumer_at ?t ?xs S pc" "slot_shows pc S ?xs ?t = slot_shows (mt_consumer s) S ?xs ?t" for pc
    using quiet [OF that(1), of ?q] r that(2) by simp
  have i0: "?t - ?t = 0" "?t < ?t + 2 ^ k" by simp_all
  note slot0 = mring_slot [OF r order_refl i0(2), unfolded i0(1)]
  show ?thesis
  proof (cases "mt_consumer s")
    case PopLoadTail
    have "slot_shows (LoadTicket (mq_tail ?q)) S = slot_shows (mt_consumer s) S" using PopLoadTail by (intro slot_shows_calm) simp_all
    then have "mpsc_inv n k S (s\<lparr>mt_consumer := LoadTicket (mq_tail ?q)\<rparr>)" using t by (intro same) simp_all
    then show ?thesis using PopLoadTail by (simp add: mpsc_consumer_step_def)
  next
    case (LoadTicket c)
    then have c: "c = of_nat ?t" using ca by simp
    let ?f = "slot_shows (mt_consumer s) S ?xs ?t 0"
    have tk: "ticket_of c ?q = Some (sl_published ?f)" using slot0(1) c by (simp add: ticket_of_def)
    have pub: "?t < length ?xs \<and> S ?t = Published" if "sl_published ?f = c + 1"
    proof (rule ccontr)
      assume "\<not> ?thesis"
      then have "sl_published ?f = 0" by (auto simp: slot_shows_def free_slot_def split: Stage.splits)
      then have "(of_nat (Suc ?t) :: u64) = of_nat 0" using that c by (simp add: add.commute)
      moreover have "Suc ?t < 2 ^ 64" using tb len n by simp
      ultimately show False using ticket_inj [of "Suc ?t" 0] by simp
    qed
    define pc :: "'a MpscConsumer" where "pc = (if sl_published ?f \<noteq> c + 1 then Popped None else MoveOut c)"
    have "consumer_at ?t ?xs S pc" using pub c by (auto simp: pc_def)
    moreover have "slot_shows pc S = slot_shows (mt_consumer s) S" by (rule slot_shows_calm) (simp_all add: pc_def LoadTicket)
    ultimately have "mpsc_inv n k S (s\<lparr>mt_consumer := pc\<rparr>)" by (intro same) simp_all
    moreover have "mpsc_consumer_step s = Some (s\<lparr>mt_consumer := pc\<rparr>)"
      using tk by (simp add: mpsc_consumer_step_def LoadTicket pc_def)
    ultimately show ?thesis by blast
  next
    case (MoveOut c)
    then have c: "c = of_nat ?t" "?t < length ?xs" "S ?t = Published" using ca by simp_all
    then have "move_slot c ?q = Some (?xs ! ?t)" using slot0(1) MoveOut by (simp add: move_slot_def slot_shows_def)
    moreover have "slot_shows (Destroy c (?xs ! ?t)) S = slot_shows (mt_consumer s) S" using MoveOut by (intro slot_shows_calm) simp_all
    then have "mpsc_inv n k S (s\<lparr>mt_consumer := Destroy c (?xs ! ?t)\<rparr>)" using c by (intro same) simp_all
    ultimately show ?thesis using MoveOut by (simp add: mpsc_consumer_step_def)
  next
    case (Destroy c v)
    then have c: "c = of_nat ?t" "?t < length ?xs" "S ?t = Published" "v = ?xs ! ?t" using ca by simp_all
    let ?x = "\<lparr>sl_published = of_nat (Suc ?t), sl_storage = None\<rparr>"
    have "destroy_slot c ?q = Some (put_slot (of_nat ?t) ?x ?q)"
      using slot0(1) c Destroy by (simp add: destroy_slot_def slot_shows_def)
    moreover have "(slot_shows (Destroy c v) S ?xs ?t)(0 := ?x) = slot_shows (ClearTicket c v) S ?xs ?t"
      using c by (auto simp: slot_shows_def fun_eq_iff)
    then have "mpsc_inv n k S (s\<lparr>mt_queue := put_slot (of_nat ?t) ?x ?q, mt_consumer := ClearTicket c v\<rparr>)"
      using quiet [of "ClearTicket c v"] slot0(2) [of ?x] c Destroy by simp
    ultimately show ?thesis using Destroy by (auto simp: mpsc_consumer_step_def)
  next
    case (ClearTicket c v)
    then have c: "c = of_nat ?t" "?t < length ?xs" "S ?t = Published" "v = ?xs ! ?t" using ca by simp_all
    have "publish_slot c 0 ?q = Some (put_slot (of_nat ?t) free_slot ?q)"
      using slot0(1) c ClearTicket by (simp add: publish_slot_def slot_shows_def free_slot_def)
    moreover have "(slot_shows (ClearTicket c v) S ?xs ?t)(0 := free_slot) = slot_shows (StoreTail c v) S ?xs ?t"
      using c by (auto simp: slot_shows_def fun_eq_iff)
    then have "mpsc_inv n k S (s\<lparr>mt_queue := put_slot (of_nat ?t) free_slot ?q, mt_consumer := StoreTail c v\<rparr>)"
      using quiet [of "StoreTail c v"] slot0(2) [of free_slot] c ClearTicket by simp
    ultimately show ?thesis using ClearTicket by (auto simp: mpsc_consumer_step_def)
  next
    case (StoreTail c v)
    then have c: "c = of_nat ?t" "?t < length ?xs" "S ?t = Published" "v = ?xs ! ?t" using ca by simp_all
    let ?q' = "?q\<lparr>mq_tail := of_nat ?t + 1\<rparr>"
    let ?s = "s\<lparr>mt_queue := ?q', mt_consumer := Popped (Some v), mt_received := mt_received s @ [v]\<rparr>"
    have room: "length ?xs - ?t \<le> 2 ^ k" using r by (simp add: mring_def)
    have "mring ?q' k (Suc ?t) (length ?xs) (slot_shows (Popped (Some v)) S ?xs (Suc ?t))"
    proof (rule mring_cong [OF mring_shift [OF r c(2)]])
      fix i :: nat assume "i < 2 ^ k"
      then show "(if Suc i = 2 ^ k then slot_shows (mt_consumer s) S ?xs ?t 0 else slot_shows (mt_consumer s) S ?xs ?t (Suc i)) =
          slot_shows (Popped (Some v)) S ?xs (Suc ?t) i"
        using StoreTail c room by (auto simp: slot_shows_def split: Stage.split)
    qed
    then have "mpsc_inv n k S ?s"
      using mpsc_inv_facts(5,8) [OF inv] len c(2,4) u producer_at_taken [OF pa c(3,2)]
      by - (rule mpsc_invI, simp_all add: take_Suc_conv_app_nth)
    then show ?thesis using StoreTail c(1) by (simp add: mpsc_consumer_step_def)
  qed (use inv in \<open>simp_all add: mpsc_consumer_step_def\<close>)
qed

lemma mpsc_act_kept:
  assumes inv: "mpsc_inv n k S s" and n: "n < 2 ^ 64 - 1"
  shows "\<exists>s' S'. mpsc_act a s = Some s' \<and> mpsc_inv (Suc n) k S' s'"
proof (cases a)
  case (CallPush p v)
  have "mpsc_inv (Suc n) k S (go p (LoadHead v) s)" if "ticket (mt_producers s p) = None"
    using mpsc_inv_go [OF mpsc_inv_more [OF inv] mpsc_inv_facts(1) [OF inv], of "LoadHead v"] that by simp
  then show ?thesis using CallPush mpsc_inv_more [OF inv] by (auto split: MpscProducer.split)
next
  case (Producer p sp)
  then show ?thesis using mpsc_producer_kept [OF inv, of p sp] n by simp
next
  case CallPop
  have "mpsc_inv (Suc n) k S (s\<lparr>mt_consumer := PopLoadTail\<rparr>)" if "\<forall>c v. mt_consumer s \<noteq> ClearTicket c v \<and> mt_consumer s \<noteq> StoreTail c v"
  proof -
    have "slot_shows PopLoadTail S = slot_shows (mt_consumer s) S" using that by (intro slot_shows_calm) auto
    then show ?thesis
      using mpsc_inv_consumer [OF mpsc_inv_more [OF inv], of PopLoadTail "mt_queue s"] mpsc_inv_facts(1) [OF inv] by simp
  qed
  then show ?thesis using CallPop mpsc_inv_more [OF inv] by (auto split: MpscConsumer.split)
next
  case Consumer
  then show ?thesis using mpsc_consumer_kept [OF inv n] mpsc_inv_more by (fastforce)
qed

lemma mpsc_acts_kept:
  "mpsc_inv n k S s \<Longrightarrow> n + length as < 2 ^ 64 \<Longrightarrow> \<exists>s' S'. mpsc_acts as s = Some s' \<and> mpsc_inv (n + length as) k S' s'"
proof (induction as arbitrary: n S s)
  case (Cons a as)
  obtain s1 S1 where s1: "mpsc_act a s = Some s1" "mpsc_inv (Suc n) k S1 s1"
    using mpsc_act_kept [OF Cons.prems(1), of a] Cons.prems(2) by auto
  then show ?case using Cons.IH [OF s1(2)] Cons.prems(2) by simp
qed auto

lemma start_mpsc_inv:
  assumes "unat n \<le> 2 ^ 63"
  obtains s :: "'a MpscThreads" and k S where "start_mpsc n = Some s" "mpsc_inv 0 k S s" "unat n \<le> 2 ^ k" "k \<le> 63"
    "unat (mq_capacity (mt_queue s)) = 2 ^ k"
proof -
  obtain k where k: "k \<le> 63" "next_power_of_two n = Some (2 ^ k)" "unat n \<le> 2 ^ k" by (rule next_power_of_two [OF assms]) (rule that)
  let ?q = "\<lparr>mq_capacity = 2 ^ k, mq_mask = 2 ^ k - 1, mq_slots = replicate (2 ^ k) free_slot, mq_high_water_mark = 0,
    mq_head = 0, mq_tail = 0\<rparr> :: 'a MpscQueue"
  let ?s = "\<lparr>mt_queue = ?q, mt_producers = (\<lambda>_. Idle), mt_consumer = Waiting, mt_reserved = [], mt_received = []\<rparr>"
  have "start_mpsc n = Some ?s" by (simp add: start_mpsc_def new_mpsc_queue_def k(2) unat_pow [OF k(1)])
  moreover have "mpsc_inv 0 k (\<lambda>_. Reserved) ?s" using k(1) by (simp add: mpsc_inv_def mring_def window_def slot_shows_def)
  ultimately show thesis by (rule that) (use k unat_pow [OF k(1)] in simp_all)
qed

section \<open>Uninterrupted operations\<close>

definition mpsc_ring :: "'a MpscQueue \<Rightarrow> nat \<Rightarrow> nat \<Rightarrow> 'a list \<Rightarrow> bool" where
  "mpsc_ring q k t xs \<longleftrightarrow>
     mring q k t (t + length xs) (\<lambda>i. if i < length xs then \<lparr>sl_published = of_nat (Suc (t + i)), sl_storage = Some (xs ! i)\<rparr> else free_slot) \<and>
     t + length xs < 2 ^ 64 - 1"

definition mpsc_contents :: "'a MpscQueue \<Rightarrow> 'a list" where
  \<comment> \<open>the objects from the tail to the head\<close>
  "mpsc_contents q =
     map (\<lambda>i. the (sl_storage (mq_slots q ! slot_index (mq_tail q + of_nat i) (mq_mask q)))) [0..<unat (mq_head q - mq_tail q)]"

definition mpsc_ok :: "'a MpscQueue \<Rightarrow> bool" where
  "mpsc_ok q \<longleftrightarrow> (\<exists>k t xs. mpsc_ring q k t xs)"

definition mpsc_live :: "'a MpscQueue \<Rightarrow> bool" where
  \<comment> \<open>a ticket is left for another reservation\<close>
  "mpsc_live q \<longleftrightarrow> unat (mq_head q) < 2 ^ 64 - 2"

lemma mpsc_ring_contents:
  assumes r: "mpsc_ring q k t xs"
  shows "mpsc_contents q = xs" "unat (mq_capacity q) = 2 ^ k" "unat (mq_head q) = t + length xs"
proof -
  have m: "mring q k t (t + length xs) (\<lambda>i. if i < length xs then \<lparr>sl_published = of_nat (Suc (t + i)), sl_storage = Some (xs ! i)\<rparr> else free_slot)"
    and b: "t + length xs < 2 ^ 64 - 1" using r by (simp_all add: mpsc_ring_def)
  have k: "k \<le> 63" "length xs \<le> 2 ^ k" and h: "mq_head q = of_nat (t + length xs)" and t: "mq_tail q = of_nat t" using m by (simp_all add: mring_def)
  then show "unat (mq_capacity q) = 2 ^ k" "unat (mq_head q) = t + length xs"
    using m b unat_pow [of k] unat_word_of_nat_64 [of "t + length xs"] by (simp_all add: mring_def)
  have l: "unat (mq_head q - mq_tail q) = length xs" unfolding h t using counter_le(2) [of t "t + length xs" k] k by simp
  show "mpsc_contents q = xs"
  proof (rule nth_equalityI)
    show "length (mpsc_contents q) = length xs" using l by (simp add: mpsc_contents_def)
    fix i assume "i < length (mpsc_contents q)"
    then have i: "i < length xs" using l by (simp add: mpsc_contents_def)
    then have "slot_at (of_nat (t + i)) q = Some \<lparr>sl_published = of_nat (Suc (t + i)), sl_storage = Some (xs ! i)\<rparr>"
      using mring_slot(1) [OF m, of "t + i"] k(2) by simp
    then have "the (sl_storage (mq_slots q ! slot_index (of_nat (t + i)) (mq_mask q))) = xs ! i"
      by (auto simp: slot_at_def Let_def split: if_splits)
    then show "mpsc_contents q ! i = xs ! i" using i l by (simp add: mpsc_contents_def t)
  qed
qed

lemma mpsc_ring_push:
  assumes r: "mpsc_ring q k t xs"
  shows "length xs < 2 ^ k \<Longrightarrow> t + length xs < 2 ^ 64 - 2 \<Longrightarrow> \<exists>q'. mpsc_try_push v q = Some (True, q') \<and> mpsc_ring q' k t (xs @ [v])"
    "length xs = 2 ^ k \<Longrightarrow> mpsc_try_push v q = Some (False, q)"
proof -
  let ?f = "\<lambda>i. if i < length xs then \<lparr>sl_published = of_nat (Suc (t + i)), sl_storage = Some (xs ! i)\<rparr> else free_slot"
  let ?h = "t + length xs"
  have m: "mring q k t ?h ?f" using r by (simp add: mpsc_ring_def)
  then have h: "mq_head q = of_nat ?h" by (simp add: mring_def)
  show "length xs = 2 ^ k \<Longrightarrow> mpsc_try_push v q = Some (False, q)"
    using mring_full [OF m] by (simp add: mpsc_try_push_def Let_def)
  assume l: "length xs < 2 ^ k" and b: "?h < 2 ^ 64 - 2"
  let ?q1 = "q\<lparr>mq_head := of_nat ?h + 1\<rparr>"
  have m1: "mring ?q1 k t (Suc ?h) ?f" by (rule mring_reserve [OF m]) (use l in simp)
  let ?x = "\<lparr>sl_published = 0, sl_storage = Some v\<rparr>"
  have p: "t \<le> ?h" "?h < t + 2 ^ k" "?h - t = length xs" using l by simp_all
  have c: "construct_slot (of_nat ?h) v ?q1 = Some (put_slot (of_nat ?h) ?x ?q1)"
    using mring_slot(1) [OF m1 p(1,2)] by (simp add: construct_slot_def p(3) free_slot_def)
  let ?q2 = "put_slot (of_nat ?h) ?x ?q1"
  have m2: "mring ?q2 k t (Suc ?h) (?f(length xs := ?x))" using mring_slot(2) [OF m1 p(1,2), of ?x] p(3) by simp
  let ?y = "\<lparr>sl_published = of_nat ?h + 1, sl_storage = Some v\<rparr>"
  have d: "publish_slot (of_nat ?h) (of_nat ?h + 1) ?q2 = Some (put_slot (of_nat ?h) ?y ?q2)"
    using mring_slot(1) [OF m2 p(1,2)] by (simp add: publish_slot_def p(3))
  let ?q3 = "put_slot (of_nat ?h) ?y ?q2"
  have m3: "mring ?q3 k t (Suc ?h) ((?f(length xs := ?x))(length xs := ?y))" using mring_slot(2) [OF m2 p(1,2), of ?y] p(3) by simp
  have "mring ?q3 k t (Suc ?h) (\<lambda>i. if i < length (xs @ [v]) then \<lparr>sl_published = of_nat (Suc (t + i)), sl_storage = Some ((xs @ [v]) ! i)\<rparr> else free_slot)"
    by (rule mring_cong [OF m3]) (auto simp: nth_append add.commute)
  then have "mpsc_ring (raise_peak occ ?q3) k t (xs @ [v])" for occ
    using b by (simp add: mpsc_ring_def raise_peak_def mring_mark)
  moreover have "\<not> mq_capacity q \<le> mq_head q - mq_tail q" using mring_full [OF m] l by simp
  ultimately show "\<exists>q'. mpsc_try_push v q = Some (True, q') \<and> mpsc_ring q' k t (xs @ [v])"
    using c d by (simp add: mpsc_try_push_def Let_def h)
qed

lemma mpsc_ring_pop:
  assumes r: "mpsc_ring q k t xs"
  shows "xs = [] \<Longrightarrow> mpsc_try_pop q = Some (None, q)"
    "xs \<noteq> [] \<Longrightarrow> \<exists>q'. mpsc_try_pop q = Some (Some (hd xs), q') \<and> mpsc_ring q' k (Suc t) (tl xs)"
proof -
  let ?f = "\<lambda>i. if i < length xs then \<lparr>sl_published = of_nat (Suc (t + i)), sl_storage = Some (xs ! i)\<rparr> else free_slot"
  have m: "mring q k t (t + length xs) ?f" and b: "t + length xs < 2 ^ 64 - 1" using r by (simp_all add: mpsc_ring_def)
  have t: "mq_tail q = of_nat t" using m by (simp add: mring_def)
  have z: "t < t + 2 ^ k" "t - t = 0" by simp_all
  note s0 = mring_slot(1) [OF m order_refl z(1), unfolded z(2)]
  show "xs = [] \<Longrightarrow> mpsc_try_pop q = Some (None, q)"
    using s0 b ticket_inj [of "Suc t" 0] by (auto simp: mpsc_try_pop_def ticket_of_def t free_slot_def Let_def add.commute)
  assume n: "xs \<noteq> []"
  let ?x = "\<lparr>sl_published = of_nat (Suc t), sl_storage = None\<rparr> :: 'a Slot"
  have s1: "slot_at (of_nat t) q = Some \<lparr>sl_published = of_nat (Suc t), sl_storage = Some (hd xs)\<rparr>"
    using s0 n by (simp add: hd_conv_nth)
  let ?q1 = "put_slot (of_nat t) ?x q"
  have d: "destroy_slot (of_nat t) q = Some ?q1" using s1 by (simp add: destroy_slot_def)
  have m1: "mring ?q1 k t (t + length xs) (?f(0 := ?x))" using mring_slot(2) [OF m order_refl z(1), of ?x] by simp
  let ?q2 = "put_slot (of_nat t) free_slot ?q1"
  have p: "publish_slot (of_nat t) 0 ?q1 = Some ?q2"
    using mring_slot(1) [OF m1 order_refl z(1)] by (simp add: publish_slot_def free_slot_def)
  have m2: "mring ?q2 k t (t + length xs) (?f(0 := ?x, 0 := free_slot))" using mring_slot(2) [OF m1 order_refl z(1), of free_slot] by simp
  have m3: "mring (?q2\<lparr>mq_tail := of_nat t + 1\<rparr>) k (Suc t) (t + length xs)
      (\<lambda>i. if Suc i = 2 ^ k then (?f(0 := ?x, 0 := free_slot)) 0 else (?f(0 := ?x, 0 := free_slot)) (Suc i))"
    by (rule mring_shift [OF m2]) (use n in simp)
  have len: "length xs \<le> 2 ^ k" using m by (simp add: mring_def)
  have "mring (?q2\<lparr>mq_tail := of_nat t + 1\<rparr>) k (Suc t) (Suc t + length (tl xs))
      (\<lambda>i. if i < length (tl xs) then \<lparr>sl_published = of_nat (Suc (Suc t + i)), sl_storage = Some (tl xs ! i)\<rparr> else free_slot)"
  proof -
    have e: "t + length xs = Suc t + length (tl xs)" using n by simp
    show ?thesis by (rule mring_cong [OF m3 [unfolded e]]) (use n len in \<open>auto simp: nth_tl\<close>)
  qed
  moreover have "Suc t + length (tl xs) = t + length xs" using n by (cases xs) simp_all
  ultimately have "mpsc_ring (?q2\<lparr>mq_tail := of_nat t + 1\<rparr>) k (Suc t) (tl xs)" using b unfolding mpsc_ring_def by simp
  then show "\<exists>q'. mpsc_try_pop q = Some (Some (hd xs), q') \<and> mpsc_ring q' k (Suc t) (tl xs)"
    using s1 d p by (simp add: mpsc_try_pop_def ticket_of_def move_slot_def t Let_def add.commute)
qed

interpretation mpsc: bounded_queue mpsc_ok mpsc_live mpsc_contents "\<lambda>q. unat (mq_capacity q)" mpsc_try_push mpsc_try_pop
proof
  fix q :: "'a MpscQueue" and x :: 'a and xs :: "'a list"
  { assume "mpsc_ok q"
    then obtain k t ys where r: "mpsc_ring q k t ys" by (auto simp: mpsc_ok_def)
    note c = mpsc_ring_contents [OF r]
    have len: "length ys \<le> 2 ^ k" using r by (simp add: mpsc_ring_def mring_def)
    { assume "mpsc_live q" "length (mpsc_contents q) < unat (mq_capacity q)"
      then obtain q' where "mpsc_try_push x q = Some (True, q')" "mpsc_ring q' k t (ys @ [x])"
        using mpsc_ring_push(1) [OF r, of x] c by (auto simp: mpsc_live_def)
      then show "\<exists>q'. mpsc_try_push x q = Some (True, q') \<and> mpsc_ok q' \<and> mpsc_contents q' = mpsc_contents q @ [x] \<and>
          unat (mq_capacity q') = unat (mq_capacity q)"
        using mpsc_ring_contents(1,2) c by (metis mpsc_ok_def) }
    { assume "unat (mq_capacity q) \<le> length (mpsc_contents q)"
      then show "\<exists>q'. mpsc_try_push x q = Some (False, q') \<and> mpsc_ok q' \<and> mpsc_contents q' = mpsc_contents q \<and>
          unat (mq_capacity q') = unat (mq_capacity q)"
        using mpsc_ring_push(2) [OF r] c \<open>mpsc_ok q\<close> len by simp }
    { assume "mpsc_contents q = []" then show "mpsc_try_pop q = Some (None, q)" using mpsc_ring_pop(1) [OF r] c(1) by simp }
    { assume "mpsc_contents q = x # xs"
      then obtain q' where "mpsc_try_pop q = Some (Some x, q')" "mpsc_ring q' k (Suc t) xs"
        using mpsc_ring_pop(2) [OF r] c(1) by auto
      then show "\<exists>q'. mpsc_try_pop q = Some (Some x, q') \<and> mpsc_ok q' \<and> mpsc_contents q' = xs \<and>
          unat (mq_capacity q') = unat (mq_capacity q)"
        using mpsc_ring_contents(1,2) c by (metis mpsc_ok_def) } }
qed

lemma new_mpsc:
  assumes "unat n \<le> 2 ^ 63"
  obtains q :: "'a MpscQueue" and k where "new_mpsc_queue n = Some q" "mpsc_ring q k 0 []" "unat n \<le> 2 ^ k"
proof -
  obtain k where k: "k \<le> 63" "next_power_of_two n = Some (2 ^ k)" "unat n \<le> 2 ^ k" by (rule next_power_of_two [OF assms]) (rule that)
  let ?q = "\<lparr>mq_capacity = 2 ^ k, mq_mask = 2 ^ k - 1, mq_slots = replicate (2 ^ k) free_slot, mq_high_water_mark = 0,
    mq_head = 0, mq_tail = 0\<rparr> :: 'a MpscQueue"
  have "new_mpsc_queue n = Some ?q" by (simp add: new_mpsc_queue_def k(2) unat_pow [OF k(1)])
  moreover have "mpsc_ring ?q k 0 []" using k(1) by (simp add: mpsc_ring_def mring_def window_def)
  ultimately show thesis using that k(3) by blast
qed

text \<open>Once every call has returned, the ring holds what was reserved and not yet received.\<close>

lemma quiescent_ring:
  assumes inv: "mpsc_inv n k S s" and "n < 2 ^ 64 - 1" "\<And>p. ticket (mt_producers s p) = None"
    "\<forall>c v. mt_consumer s \<noteq> ClearTicket c v \<and> mt_consumer s \<noteq> StoreTail c v"
  shows "mpsc_ring (mt_queue s) k (length (mt_received s)) (drop (length (mt_received s)) (mt_reserved s))"
proof -
  let ?t = "length (mt_received s)" and ?xs = "mt_reserved s"
  note f = mpsc_inv_facts [OF inv]
  have p: "S c = Published" if "?t \<le> c" "c < length ?xs" for c using f(8) [OF that] assms(3) by auto
  have "mring (mt_queue s) k ?t (length ?xs)
      (\<lambda>i. if i < length (drop ?t ?xs) then \<lparr>sl_published = of_nat (Suc (?t + i)), sl_storage = Some (drop ?t ?xs ! i)\<rparr> else free_slot)"
    by (rule mring_cong [OF f(1)]) (use p assms(4) f(6) in \<open>auto simp: slot_shows_def split: MpscConsumer.split\<close>)
  then show ?thesis using f(4,6) assms(2) by (simp add: mpsc_ring_def)
qed

section \<open>Properties\<close>

text \<open>
  C9. The multi-producer queue is a first-in first-out queue in the order of the reservations: under every
  interleaving of the memory accesses of any number of producers and the consumer, spurious failures of
  the compare-and-swap included, no object is constructed over a live one or used dead, what was taken is
  a prefix of what was reserved, at most capacity values are in between, and once no call is under way the
  ring holds exactly these.
\<close>

theorem mpsc_queue_is_fifo_under_interleaving:
  assumes "start_mpsc n = Some s0" "unat n \<le> 2 ^ 63" "length as < 2 ^ 64 - 1"
  shows "\<exists>s rest. mpsc_acts as s0 = Some s \<and> mt_reserved s = mt_received s @ rest \<and>
    length rest \<le> unat (mq_capacity (mt_queue s0)) \<and> unat n \<le> unat (mq_capacity (mt_queue s0)) \<and>
    ((\<forall>p. ticket (mt_producers s p) = None) \<and> mt_consumer s \<in> {Waiting} \<union> range Popped \<longrightarrow> mpsc_contents (mt_queue s) = rest)"
proof -
  obtain s1 :: "'a MpscThreads" and k S where s1: "start_mpsc n = Some s1" "mpsc_inv 0 k S s1" "unat n \<le> 2 ^ k" "k \<le> 63"
    "unat (mq_capacity (mt_queue s1)) = 2 ^ k"
    by (rule start_mpsc_inv [OF assms(2)]) (rule that)
  then have e: "s1 = s0" using assms(1) by simp
  obtain s S' where s: "mpsc_acts as s0 = Some s" "mpsc_inv (length as) k S' s"
    using mpsc_acts_kept [OF s1(2), of as] assms(3) e by auto
  let ?rest = "drop (length (mt_received s)) (mt_reserved s)"
  note f = mpsc_inv_facts [OF s(2)]
  have "mt_reserved s = mt_received s @ ?rest" using f(5) by (metis append_take_drop_id)
  moreover have "length ?rest \<le> 2 ^ k" using f(1) by (simp add: mring_def)
  moreover have "mpsc_contents (mt_queue s) = ?rest"
    if "\<forall>p. ticket (mt_producers s p) = None" "mt_consumer s \<in> {Waiting} \<union> range Popped"
    by (rule mpsc_ring_contents(1) [OF quiescent_ring [OF s(2) assms(3)]]) (use that in auto)
  ultimately show ?thesis using s(1) s1(3,5) e by (intro exI [of _ s] exI [of _ ?rest]) simp
qed

fun pushes :: "nat \<Rightarrow> 'a \<Rightarrow> 'a MpscAction list" where
  \<comment> \<open>a push that is not disturbed\<close>
  "pushes p v = CallPush p v # replicate 8 (Producer p False)"

definition pops :: "'a MpscAction list" where
  "pops = CallPop # replicate 6 Consumer"

definition two_pushes_cross :: "nat MpscAction list" where
  \<comment> \<open>producer 1 overtakes producer 0 between its load of the head and its swap\<close>
  "two_pushes_cross = [CallPush 0 10, Producer 0 False] @ pushes 1 11 @ replicate 9 (Producer 0 False) @ pops"

lemma two_le_one: "\<not> (2 :: u64) \<le> 1"
  by (simp add: word_le_nat_alt)

lemma replicate_more: "replicate (numeral j) x = x # replicate (pred_numeral j) x"
  by (simp add: numeral_eq_Suc)

lemma start_mpsc_small:
  "start_mpsc 1 = Some \<lparr>mt_queue = \<lparr>mq_capacity = 1, mq_mask = 0, mq_slots = [free_slot], mq_high_water_mark = 0, mq_head = 0, mq_tail = 0\<rparr>,
     mt_producers = (\<lambda>_. Idle), mt_consumer = Waiting, mt_reserved = [], mt_received = []\<rparr>"
  "start_mpsc 2 = Some \<lparr>mt_queue = \<lparr>mq_capacity = 2, mq_mask = 1, mq_slots = [free_slot, free_slot], mq_high_water_mark = 0, mq_head = 0, mq_tail = 0\<rparr>,
     mt_producers = (\<lambda>_. Idle), mt_consumer = Waiting, mt_reserved = [], mt_received = []\<rparr>"
  by (simp_all add: start_mpsc_def new_mpsc_queue_def next_power_of_two_def round_up.simps replicate_more)

lemmas mpsc_step_defs = Let_def go_def mpsc_producer_step_def mpsc_consumer_step_def construct_slot_def publish_slot_def
  destroy_slot_def move_slot_def ticket_of_def slot_at_def put_slot_def free_slot_def slot_index_def pops_def

theorem mpsc_queue_is_fifo_under_interleaving_witness:
  "map_option (\<lambda>s. (mt_reserved s, mt_received s)) (mpsc_acts two_pushes_cross (the (start_mpsc 2))) = Some ([11, 10], [11]) \<and>
   (\<exists>s rest. mpsc_acts two_pushes_cross (the (start_mpsc 2)) = Some s \<and> mt_reserved s = mt_received s @ rest \<and> length rest \<le> 2)"
proof
  show "map_option (\<lambda>s. (mt_reserved s, mt_received s)) (mpsc_acts two_pushes_cross (the (start_mpsc 2))) = Some ([11, 10], [11])"
    by (simp add: two_pushes_cross_def start_mpsc_small replicate_more two_le_one mpsc_step_defs)
  have b: "length two_pushes_cross < 2 ^ 64 - 1" by (simp add: two_pushes_cross_def pops_def)
  have u: "unat (2 :: u64) \<le> 2 ^ 63" by simp
  show "\<exists>s rest. mpsc_acts two_pushes_cross (the (start_mpsc 2)) = Some s \<and> mt_reserved s = mt_received s @ rest \<and> length rest \<le> 2"
    using mpsc_queue_is_fifo_under_interleaving [OF start_mpsc_small(2) u b] by (auto simp: start_mpsc_small)
qed

text \<open>
  A push can be refused although the queue is empty: its load of the head is overtaken by a push and
  a pop, and the difference of the old head and the new tail wraps to a number above the capacity.
\<close>

theorem stale_head_refuses_a_push_to_an_empty_queue:
  "map_option (\<lambda>s. (mt_producers s 0, mpsc_contents (mt_queue s), mt_reserved s = mt_received s))
     (mpsc_acts ([CallPush 0 10, Producer 0 False] @ pushes 1 (11 :: nat) @ pops @ [Producer 0 False]) (the (start_mpsc 1))) =
   Some (Pushed False, [], True)"
  by (simp add: start_mpsc_small replicate_more two_le_one mpsc_step_defs mpsc_contents_def)

text \<open>
  The high-water mark can show \<open>2 ^ 64 - 1\<close> values in a queue of two: the tail it is measured against
  is loaded after the slot was published, when the consumer may already be past it.
\<close>

theorem high_water_mark_can_wrap:
  "map_option (\<lambda>s. mq_high_water_mark (mt_queue s))
     (mpsc_acts ([CallPush 0 10] @ replicate 5 (Producer 0 False) @ pushes 1 (11 :: nat) @ pops @ pops @ replicate 3 (Producer 0 False))
        (the (start_mpsc 2))) = Some (2 ^ 64 - 1)"
  by (simp add: start_mpsc_small replicate_more two_le_one mpsc_step_defs)

end
