(* ===== verification/CommandSequencer.thy ===== *)
theory CommandSequencer
  imports Domain
begin

text \<open>
  \<open>CommandSequencer\<close> (\<open>src/include/exchange/sequencing/command_sequencer.hpp\<close>): stamps the commands in the
  order in which they are matched.
\<close>

record CommandSequencer =
  sc_next_sequence :: CommandSequence

definition new_sequencer :: CommandSequencer where
  "new_sequencer = \<lparr>sc_next_sequence = 1\<rparr>"

fun with_sequence :: "CommandSequence \<Rightarrow> ExchangeCommand \<Rightarrow> ExchangeCommand" where
  "with_sequence n (NewOrderC c) = NewOrderC (c\<lparr>nc_command_sequence := n\<rparr>)"
| "with_sequence n (CancelOrderC c) = CancelOrderC (c\<lparr>cc_command_sequence := n\<rparr>)"
| "with_sequence n (ReplaceOrderC c) = ReplaceOrderC (c\<lparr>rc_command_sequence := n\<rparr>)"

definition sequence_command :: "ExchangeCommand \<Rightarrow> CommandSequencer \<Rightarrow> ExchangeCommand \<times> CommandSequencer" where
  "sequence_command c s =
     (let assigned = sc_next_sequence s in (with_sequence assigned c, s\<lparr>sc_next_sequence := assigned + 1\<rparr>))"

fun command_sequence_of :: "ExchangeCommand \<Rightarrow> CommandSequence" where
  "command_sequence_of (NewOrderC c) = nc_command_sequence c"
| "command_sequence_of (CancelOrderC c) = cc_command_sequence c"
| "command_sequence_of (ReplaceOrderC c) = rc_command_sequence c"

fun account_of_command :: "ExchangeCommand \<Rightarrow> AccountId" where
  "account_of_command (NewOrderC c) = nc_account_id c"
| "account_of_command (CancelOrderC c) = cc_account_id c"
| "account_of_command (ReplaceOrderC c) = rc_account_id c"

lemma with_sequence_simps [simp]:
  "command_sequence_of (with_sequence n c) = n" "account_of_command (with_sequence n c) = account_of_command c"
  by (cases c; simp)+

end
