(* ===== verification/MatchingPipeline.thy ===== *)
theory MatchingPipeline
  imports MpscQueue CommandSequencer
begin

text \<open>
  The sequencer and matching thread (\<open>src/include/exchange/sequencing/matching_pipeline.hpp\<close> and
  \<open>src/src/exchange/sequencing/matching_pipeline.cpp\<close>). The processor is a parameter: a step on a state of
  its own that returns the events of a command, or \<open>None\<close> where it is undefined. Producers are free to
  interleave with the matching thread between any two accesses to the queue (their accesses inside the
  queue are the subject of \<open>MpscQueue\<close>). Thread placement and the artificial delay are left out.
\<close>

section \<open>State and operations\<close>

record 'p MatchingPipeline =
  mp_queue :: "ExchangeCommand MpscQueue"
  mp_sequencer :: CommandSequencer
  mp_processor :: 'p
  mp_commands_processed :: u64
  mp_commands_rejected :: u64
  mp_stop_requested :: bool

type_synonym 'p Processor = "ExchangeCommand \<Rightarrow> 'p \<Rightarrow> ('p \<times> ExchangeEvent list) option"

definition new_matching_pipeline :: "u64 \<Rightarrow> 'p \<Rightarrow> 'p MatchingPipeline option" where
  "new_matching_pipeline queue_capacity p = do {
     q \<leftarrow> new_mpsc_queue queue_capacity;
     Some \<lparr>mp_queue = q, mp_sequencer = new_sequencer, mp_processor = p, mp_commands_processed = 0,
           mp_commands_rejected = 0, mp_stop_requested = False\<rparr>
   }"

definition pipeline_submit :: "ExchangeCommand \<Rightarrow> 'p MatchingPipeline \<Rightarrow> (bool \<times> 'p MatchingPipeline) option" where
  "pipeline_submit c m = do {
     (ok, q) \<leftarrow> mpsc_try_push c (mp_queue m);
     let m = m\<lparr>mp_queue := q\<rparr>;
     if \<not> ok then Some (False, m\<lparr>mp_commands_rejected := mp_commands_rejected m + 1\<rparr>)
     else Some (True, m)
   }"

definition request_stop :: "'p MatchingPipeline \<Rightarrow> 'p MatchingPipeline" where
  "request_stop m = m\<lparr>mp_stop_requested := True\<rparr>"

definition process_next :: "'p Processor \<Rightarrow> ExchangeCommand \<Rightarrow> 'p MatchingPipeline \<Rightarrow>
    ('p MatchingPipeline \<times> ExchangeEvent list) option" where
  "process_next processor command m =
     (case sequence_command command (mp_sequencer m) of (sequenced, s) \<Rightarrow> do {
        (p, evs) \<leftarrow> processor sequenced (mp_processor m);
        Some (m\<lparr>mp_sequencer := s, mp_processor := p, mp_commands_processed := mp_commands_processed m + 1\<rparr>, evs)
      })"

text \<open>Where the matching thread is in its loop: about to pop, past an empty pop, or joined.\<close>

datatype MatchingThread = TryPop | CheckStop | Finished

fun matching_turn :: "'p Processor \<Rightarrow> MatchingThread \<Rightarrow> 'p MatchingPipeline \<Rightarrow>
    (MatchingThread \<times> 'p MatchingPipeline \<times> ExchangeEvent list) option" where
  "matching_turn processor TryPop m = do {
     (command, q) \<leftarrow> mpsc_try_pop (mp_queue m);
     let m = m\<lparr>mp_queue := q\<rparr>;
     case command of
       None \<Rightarrow> Some (CheckStop, m, [])
     | Some c \<Rightarrow> do { (m, evs) \<leftarrow> process_next processor c m; Some (TryPop, m, evs) }
   }"
| "matching_turn processor CheckStop m = Some (if mp_stop_requested m then Finished else TryPop, m, [])"
| "matching_turn processor Finished m = Some (Finished, m, [])"

section \<open>Schedules\<close>

datatype PipelineAction = Submit ExchangeCommand | RequestStop | MatchingTurn

text \<open>\<open>pr_admitted\<close> and \<open>pr_events\<close> record the commands whose submission returned true and what was emitted.\<close>

record 'p PipelineRun =
  pr_pipeline :: "'p MatchingPipeline"
  pr_thread :: MatchingThread
  pr_admitted :: "ExchangeCommand list"
  pr_events :: "ExchangeEvent list"

fun pipeline_act :: "'p Processor \<Rightarrow> PipelineAction \<Rightarrow> 'p PipelineRun \<Rightarrow> 'p PipelineRun option" where
  "pipeline_act processor (Submit c) s = do {
     (ok, m) \<leftarrow> pipeline_submit c (pr_pipeline s);
     Some (s\<lparr>pr_pipeline := m, pr_admitted := (if ok then pr_admitted s @ [c] else pr_admitted s)\<rparr>)
   }"
| "pipeline_act processor RequestStop s = Some (s\<lparr>pr_pipeline := request_stop (pr_pipeline s)\<rparr>)"
| "pipeline_act processor MatchingTurn s = do {
     (th, m, evs) \<leftarrow> matching_turn processor (pr_thread s) (pr_pipeline s);
     Some (s\<lparr>pr_pipeline := m, pr_thread := th, pr_events := pr_events s @ evs\<rparr>)
   }"

fun pipeline_acts :: "'p Processor \<Rightarrow> PipelineAction list \<Rightarrow> 'p PipelineRun \<Rightarrow> 'p PipelineRun option" where
  "pipeline_acts processor [] s = Some s"
| "pipeline_acts processor (a # as) s = do { s \<leftarrow> pipeline_act processor a s; pipeline_acts processor as s }"

definition start_pipeline :: "u64 \<Rightarrow> 'p \<Rightarrow> 'p PipelineRun option" where
  "start_pipeline queue_capacity p = do {
     m \<leftarrow> new_matching_pipeline queue_capacity p;
     Some \<lparr>pr_pipeline = m, pr_thread = TryPop, pr_admitted = [], pr_events = []\<rparr>
   }"

section \<open>What the pipeline is meant to do\<close>

fun sequenced :: "CommandSequence \<Rightarrow> ExchangeCommand list \<Rightarrow> ExchangeCommand list" where
  \<comment> \<open>commands stamped with consecutive numbers\<close>
  "sequenced n [] = []"
| "sequenced n (c # cs) = with_sequence n c # sequenced (n + 1) cs"

fun process_all :: "'p Processor \<Rightarrow> ExchangeCommand list \<Rightarrow> 'p \<Rightarrow> ('p \<times> ExchangeEvent list) option" where
  "process_all processor [] p = Some (p, [])"
| "process_all processor (c # cs) p = do {
     (p, evs) \<leftarrow> processor c p;
     (p, evs') \<leftarrow> process_all processor cs p;
     Some (p, evs @ evs')
   }"

definition submitted :: "PipelineAction list \<Rightarrow> ExchangeCommand set" where
  "submitted as = {c. Submit c \<in> set as}"

lemma sequenced_append: "sequenced n (cs @ cs') = sequenced n cs @ sequenced (n + of_nat (length cs)) cs'"
  by (induction cs arbitrary: n) (simp_all add: add.assoc)

lemma process_all_append:
  "process_all processor (cs @ cs') p = do {
     (p, evs) \<leftarrow> process_all processor cs p; (p, evs') \<leftarrow> process_all processor cs' p; Some (p, evs @ evs') }"
  by (induction cs arbitrary: p) (auto split: bind_splits option.splits)

text \<open>The state of a run in which at most \<open>j\<close> commands were submitted.\<close>

definition run_ok :: "'p Processor \<Rightarrow> 'p \<Rightarrow> nat \<Rightarrow> 'p PipelineRun \<Rightarrow> bool" where
  "run_ok processor p0 j s \<longleftrightarrow>
     (\<exists>n k. n \<le> length (pr_admitted s) \<and> length (pr_admitted s) \<le> j \<and>
        mpsc_ring (mp_queue (pr_pipeline s)) k n (drop n (pr_admitted s)) \<and>
        mp_sequencer (pr_pipeline s) = \<lparr>sc_next_sequence = 1 + of_nat n\<rparr> \<and>
        mp_commands_processed (pr_pipeline s) = of_nat n \<and>
        process_all processor (sequenced 1 (take n (pr_admitted s))) p0 = Some (mp_processor (pr_pipeline s), pr_events s))"

lemma submit_ok:
  assumes "run_ok processor p0 j s" "j < 2 ^ 64 - 2"
  shows "\<exists>s'. pipeline_act processor (Submit c) s = Some s' \<and> run_ok processor p0 (Suc j) s' \<and>
    set (pr_admitted s') \<subseteq> insert c (set (pr_admitted s))"
proof -
  let ?m = "pr_pipeline s"
  obtain n k where n: "n \<le> length (pr_admitted s)" "length (pr_admitted s) \<le> j"
    and r: "mpsc_ring (mp_queue ?m) k n (drop n (pr_admitted s))"
    and rest: "mp_sequencer ?m = \<lparr>sc_next_sequence = 1 + of_nat n\<rparr>" "mp_commands_processed ?m = of_nat n"
      "process_all processor (sequenced 1 (take n (pr_admitted s))) p0 = Some (mp_processor ?m, pr_events s)"
    using assms(1) by (auto simp: run_ok_def)
  have len: "length (drop n (pr_admitted s)) \<le> 2 ^ k" using r by (simp add: mpsc_ring_def mring_def)
  show ?thesis
  proof (cases "length (drop n (pr_admitted s)) = 2 ^ k")
    case True
    let ?m' = "?m\<lparr>mp_commands_rejected := mp_commands_rejected ?m + 1\<rparr>"
    have "pipeline_submit c ?m = Some (False, ?m')"
      using mpsc_ring_push(2) [OF r True, of c] by (simp add: pipeline_submit_def)
    moreover have "run_ok processor p0 (Suc j) (s\<lparr>pr_pipeline := ?m'\<rparr>)"
      unfolding run_ok_def by (rule exI [of _ n], rule exI [of _ k]) (use n r rest in simp)
    ultimately show ?thesis by auto
  next
    case False
    then obtain q where q: "mpsc_try_push c (mp_queue ?m) = Some (True, q)" "mpsc_ring q k n (drop n (pr_admitted s) @ [c])"
      using mpsc_ring_push(1) [OF r, of c] len n assms(2) by auto
    let ?s = "s\<lparr>pr_pipeline := ?m\<lparr>mp_queue := q\<rparr>, pr_admitted := pr_admitted s @ [c]\<rparr>"
    have "pipeline_act processor (Submit c) s = Some ?s" by (simp add: pipeline_submit_def q(1))
    moreover have "run_ok processor p0 (Suc j) ?s"
      unfolding run_ok_def by (rule exI [of _ n], rule exI [of _ k]) (use n q(2) rest in simp)
    ultimately show ?thesis by auto
  qed
qed

abbreviation waiting :: "'p PipelineRun \<Rightarrow> ExchangeCommand list" where
  "waiting s \<equiv> mpsc_contents (mp_queue (pr_pipeline s))"

lemma turn_ok:
  assumes "run_ok processor p0 j s"
  shows "case pipeline_act processor MatchingTurn s of
      Some s' \<Rightarrow> run_ok processor p0 j s' \<and> pr_admitted s' = pr_admitted s \<and> (waiting s = [] \<longrightarrow> waiting s' = []) \<and>
        (pr_thread s = TryPop \<longrightarrow> waiting s \<noteq> [] \<longrightarrow> pr_thread s' = TryPop \<and> waiting s' = tl (waiting s))
    | None \<Rightarrow> \<exists>i. process_all processor (sequenced 1 (take i (pr_admitted s))) p0 = None"
proof (cases "pr_thread s")
  case TryPop
  let ?m = "pr_pipeline s"
  obtain n k where n: "n \<le> length (pr_admitted s)" "length (pr_admitted s) \<le> j"
    and r: "mpsc_ring (mp_queue ?m) k n (drop n (pr_admitted s))"
    and rest: "mp_sequencer ?m = \<lparr>sc_next_sequence = 1 + of_nat n\<rparr>" "mp_commands_processed ?m = of_nat n"
      "process_all processor (sequenced 1 (take n (pr_admitted s))) p0 = Some (mp_processor ?m, pr_events s)"
    using assms by (auto simp: run_ok_def)
  show ?thesis
  proof (cases "drop n (pr_admitted s)")
    case Nil
    have "pipeline_act processor MatchingTurn s = Some (s\<lparr>pr_thread := CheckStop\<rparr>)"
      using mpsc_ring_pop(1) [OF r Nil] TryPop by simp
    moreover have "run_ok processor p0 j (s\<lparr>pr_thread := CheckStop\<rparr>)" using assms by (simp add: run_ok_def)
    ultimately show ?thesis using mpsc_ring_contents(1) [OF r] Nil by auto
  next
    case (Cons c cs)
    have l: "n < length (pr_admitted s)" and c: "pr_admitted s ! n = c" and tl: "drop (Suc n) (pr_admitted s) = cs"
      using Cons by (metis drop_eq_Nil2 list.distinct(1) not_le, metis hd_drop_conv_nth drop_eq_Nil2 list.distinct(1) list.sel(1) not_le,
        metis drop_Suc list.sel(3) tl_drop)
    obtain q where q: "mpsc_try_pop (mp_queue ?m) = Some (Some c, q)" "mpsc_ring q k (Suc n) cs"
      using mpsc_ring_pop(2) [OF r] Cons by auto
    have take: "take (Suc n) (pr_admitted s) = take n (pr_admitted s) @ [c]" using l c by (simp add: take_Suc_conv_app_nth)
    have seq: "sequenced 1 (take (Suc n) (pr_admitted s)) = sequenced 1 (take n (pr_admitted s)) @ [with_sequence (1 + of_nat n) c]"
      using l by (simp add: take sequenced_append min_def)
    show ?thesis
    proof (cases "processor (with_sequence (1 + of_nat n) c) (mp_processor ?m)")
      case None
      then have "process_all processor (sequenced 1 (take (Suc n) (pr_admitted s))) p0 = None"
        unfolding seq by (simp add: process_all_append rest(3))
      moreover have "pipeline_act processor MatchingTurn s = None"
        using TryPop None by (simp add: q(1) process_next_def sequence_command_def rest Let_def)
      ultimately show ?thesis by auto
    next
      case (Some r')
      obtain p evs where p: "processor (with_sequence (1 + of_nat n) c) (mp_processor ?m) = Some (p, evs)" using Some by (cases r') simp
      let ?m' = "?m\<lparr>mp_queue := q, mp_sequencer := \<lparr>sc_next_sequence = 1 + of_nat n + 1\<rparr>, mp_processor := p,
        mp_commands_processed := of_nat n + 1\<rparr>"
      have "pipeline_act processor MatchingTurn s = Some (s\<lparr>pr_pipeline := ?m', pr_thread := TryPop, pr_events := pr_events s @ evs\<rparr>)"
        using TryPop by (simp add: q(1) process_next_def sequence_command_def rest p Let_def)
      moreover have "run_ok processor p0 j (s\<lparr>pr_pipeline := ?m', pr_thread := TryPop, pr_events := pr_events s @ evs\<rparr>)"
        unfolding run_ok_def
      proof (rule exI [of _ "Suc n"], rule exI [of _ k], intro conjI)
        show "process_all processor (sequenced 1 (take (Suc n) (pr_admitted (s\<lparr>pr_pipeline := ?m', pr_thread := TryPop, pr_events := pr_events s @ evs\<rparr>)))) p0 =
          Some (mp_processor (pr_pipeline (s\<lparr>pr_pipeline := ?m', pr_thread := TryPop, pr_events := pr_events s @ evs\<rparr>)),
            pr_events (s\<lparr>pr_pipeline := ?m', pr_thread := TryPop, pr_events := pr_events s @ evs\<rparr>))"
          using p rest(3) by (simp add: seq process_all_append)
      qed (use l n q(2) tl in \<open>simp_all add: add_ac\<close>)
      ultimately show ?thesis using mpsc_ring_contents(1) [OF r] mpsc_ring_contents(1) [OF q(2)] Cons by auto
    qed
  qed
qed (use assms in \<open>auto simp: run_ok_def\<close>)

lemma run_ok_more: "run_ok processor p0 j s \<Longrightarrow> run_ok processor p0 (Suc j) s"
  unfolding run_ok_def by (metis le_SucI)

lemma act_ok:
  assumes "run_ok processor p0 j s" "j < 2 ^ 64 - 2"
  shows "case pipeline_act processor a s of
      Some s' \<Rightarrow> run_ok processor p0 (Suc j) s' \<and> set (pr_admitted s') \<subseteq> set (pr_admitted s) \<union> submitted [a]
    | None \<Rightarrow> \<exists>cs. set cs \<subseteq> set (pr_admitted s) \<and> process_all processor (sequenced 1 cs) p0 = None"
proof (cases a)
  case (Submit c)
  then show ?thesis using submit_ok [OF assms, of c] by (auto simp: submitted_def)
next
  case RequestStop
  then show ?thesis using run_ok_more [OF assms(1)] by (simp add: run_ok_def request_stop_def)
next
  case MatchingTurn
  have sub: "\<exists>i. process_all processor (sequenced 1 (take i (pr_admitted s))) p0 = None \<Longrightarrow>
    \<exists>cs. set cs \<subseteq> set (pr_admitted s) \<and> process_all processor (sequenced 1 cs) p0 = None"
    by (erule exE) (rule exI, rule conjI, rule set_take_subset)
  show ?thesis
  proof (cases "pipeline_act processor MatchingTurn s")
    case None
    then show ?thesis using turn_ok [OF assms(1)] sub unfolding MatchingTurn None option.case by blast
  next
    case (Some s')
    then have "run_ok processor p0 j s' \<and> pr_admitted s' = pr_admitted s" using turn_ok [OF assms(1)] by simp
    then show ?thesis unfolding MatchingTurn Some option.case using run_ok_more [of processor p0 j s'] by simp
  qed
qed

lemma acts_ok:
  "run_ok processor p0 j s \<Longrightarrow> j + length as < 2 ^ 64 - 2 \<Longrightarrow>
   (case pipeline_acts processor as s of
      Some s' \<Rightarrow> run_ok processor p0 (j + length as) s'
    | None \<Rightarrow> \<exists>cs. set cs \<subseteq> set (pr_admitted s) \<union> submitted as \<and> process_all processor (sequenced 1 cs) p0 = None)"
proof (induction as arbitrary: j s)
  case (Cons a as)
  have sub: "submitted (a # as) = submitted [a] \<union> submitted as" by (auto simp: submitted_def)
  have j: "j < 2 ^ 64 - 2" using Cons.prems(2) by simp
  note step = act_ok [OF Cons.prems(1) j, of a]
  show ?case
  proof (cases "pipeline_act processor a s")
    case None
    then show ?thesis using step by auto
  next
    case (Some s')
    then have s': "run_ok processor p0 (Suc j) s'" "set (pr_admitted s') \<subseteq> set (pr_admitted s) \<union> submitted [a]" using step by simp_all
    have ih: "case pipeline_acts processor as s' of Some s'' \<Rightarrow> run_ok processor p0 (Suc j + length as) s''
      | None \<Rightarrow> \<exists>cs. set cs \<subseteq> set (pr_admitted s') \<union> submitted as \<and> process_all processor (sequenced 1 cs) p0 = None"
      by (rule Cons.IH [OF s'(1)]) (use Cons.prems(2) in simp)
    show ?thesis
    proof (cases "pipeline_acts processor as s'")
      case None
      then have "\<exists>cs. set cs \<subseteq> set (pr_admitted s') \<union> submitted as \<and> process_all processor (sequenced 1 cs) p0 = None" using ih by simp
      then have "\<exists>cs. set cs \<subseteq> set (pr_admitted s) \<union> submitted (a # as) \<and> process_all processor (sequenced 1 cs) p0 = None"
        using s'(2) unfolding sub by blast
      then show ?thesis using Some None by simp
    next
      case (Some s'')
      then show ?thesis using ih \<open>pipeline_act processor a s = Some s'\<close> by simp
    qed
  qed
qed simp

lemma start_pipeline_ok:
  fixes p0 :: 'p
  assumes "unat n \<le> 2 ^ 63"
  obtains s where "start_pipeline n p0 = Some s" "run_ok processor p0 0 s" "pr_admitted s = []" "pr_thread s = TryPop"
proof -
  obtain q k where q: "new_mpsc_queue n = Some (q :: ExchangeCommand MpscQueue)" "mpsc_ring q k 0 []" by (rule new_mpsc [OF assms]) (rule that)
  let ?m = "\<lparr>mp_queue = q, mp_sequencer = new_sequencer, mp_processor = p0, mp_commands_processed = 0, mp_commands_rejected = 0,
    mp_stop_requested = False\<rparr>"
  have "start_pipeline n p0 = Some \<lparr>pr_pipeline = ?m, pr_thread = TryPop, pr_admitted = [], pr_events = []\<rparr>"
    by (simp add: start_pipeline_def new_matching_pipeline_def q(1))
  then show thesis by (rule that) (use q(2) in \<open>auto simp: run_ok_def new_sequencer_def\<close>)
qed

lemma process_all_prefix:
  assumes "process_all processor (sequenced 1 cs) p = Some r"
  shows "\<exists>r'. process_all processor (sequenced 1 (take i cs)) p = Some r'"
proof -
  have "sequenced 1 cs = sequenced 1 (take i cs) @ sequenced (1 + of_nat (length (take i cs))) (drop i cs)"
    using sequenced_append [of 1 "take i cs" "drop i cs"] by simp
  then show ?thesis using assms by (auto simp: process_all_append split: Option.bind_splits)
qed

lemma waiting_admitted: "run_ok processor p0 j s \<Longrightarrow> length (waiting s) \<le> length (pr_admitted s)"
  using mpsc_ring_contents(1) by (fastforce simp: run_ok_def)

lemma all_processed:
  assumes "run_ok processor p0 j s" "waiting s = []"
  shows "process_all processor (sequenced 1 (pr_admitted s)) p0 = Some (mp_processor (pr_pipeline s), pr_events s)"
  using assms mpsc_ring_contents(1) by (fastforce simp: run_ok_def)

lemma turn_runs:
  assumes "run_ok processor p0 j s" "process_all processor (sequenced 1 (pr_admitted s)) p0 = Some r"
  obtains s' where "pipeline_act processor MatchingTurn s = Some s'" "run_ok processor p0 j s'" "pr_admitted s' = pr_admitted s"
    "waiting s = [] \<longrightarrow> waiting s' = []"
    "pr_thread s = TryPop \<longrightarrow> waiting s \<noteq> [] \<longrightarrow> pr_thread s' = TryPop \<and> waiting s' = tl (waiting s)"
proof (cases "pipeline_act processor MatchingTurn s")
  case None
  then obtain i where "process_all processor (sequenced 1 (take i (pr_admitted s))) p0 = None"
    using turn_ok [OF assms(1)] by (auto simp del: pipeline_act.simps)
  then show thesis using process_all_prefix [OF assms(2), of i] by simp
next
  case (Some s')
  then show thesis using turn_ok [OF assms(1)] that by (simp del: pipeline_act.simps)
qed

lemma idle_turns:
  "run_ok processor p0 j s \<Longrightarrow> waiting s = [] \<Longrightarrow> process_all processor (sequenced 1 (pr_admitted s)) p0 = Some r \<Longrightarrow>
   \<exists>s'. pipeline_acts processor (replicate m MatchingTurn) s = Some s' \<and> run_ok processor p0 j s' \<and> pr_admitted s' = pr_admitted s \<and> waiting s' = []"
proof (induction m arbitrary: s)
  case (Suc m)
  obtain s1 where "pipeline_act processor MatchingTurn s = Some s1" "run_ok processor p0 j s1" "pr_admitted s1 = pr_admitted s" "waiting s1 = []"
    by (rule turn_runs [OF Suc.prems(1,3)]) (use Suc.prems(2) that in simp)
  then show ?case using Suc.IH [of s1] Suc.prems(3) by (simp del: pipeline_act.simps)
qed simp

lemma busy_turns:
  "run_ok processor p0 j s \<Longrightarrow> pr_thread s = TryPop \<Longrightarrow> length (waiting s) \<le> m \<Longrightarrow>
   process_all processor (sequenced 1 (pr_admitted s)) p0 = Some r \<Longrightarrow>
   \<exists>s'. pipeline_acts processor (replicate m MatchingTurn) s = Some s' \<and> run_ok processor p0 j s' \<and> pr_admitted s' = pr_admitted s \<and> waiting s' = []"
proof (induction m arbitrary: s)
  case (Suc m)
  show ?case
  proof (cases "waiting s = []")
    case True
    then show ?thesis by (rule idle_turns [OF Suc.prems(1) _ Suc.prems(4)])
  next
    case False
    obtain s1 where s1: "pipeline_act processor MatchingTurn s = Some s1" "run_ok processor p0 j s1" "pr_admitted s1 = pr_admitted s"
      "pr_thread s1 = TryPop" "waiting s1 = tl (waiting s)"
      by (rule turn_runs [OF Suc.prems(1,4)]) (use Suc.prems(2) False that in simp)
    have "length (waiting s1) \<le> m" using s1(5) Suc.prems(3) by simp
    then show ?thesis using Suc.IH [OF s1(2,4)] s1(1,3) Suc.prems(4) by (simp del: pipeline_act.simps)
  qed
qed simp

section \<open>Properties\<close>

text \<open>
  C6. Commands are processed one at a time in the order of their admission, stamped with consecutive
  numbers from one: in every schedule of submissions, stop requests and turns of the matching thread, the
  processor has seen exactly the first so many admitted commands, the emitted events are its events in
  that order, and the queue holds the rest. Nothing in the pipeline is undefined unless the processor is
  undefined on some sequence of the submitted commands.
\<close>

theorem commands_are_processed_in_admission_order:
  assumes "start_pipeline n p0 = Some s0" "unat n \<le> 2 ^ 63" "length as < 2 ^ 64 - 2"
  shows "case pipeline_acts processor as s0 of
      Some s \<Rightarrow> \<exists>seen waiting. pr_admitted s = seen @ waiting \<and>
        process_all processor (sequenced 1 seen) p0 = Some (mp_processor (pr_pipeline s), pr_events s) \<and>
        mp_commands_processed (pr_pipeline s) = of_nat (length seen) \<and> mpsc_contents (mp_queue (pr_pipeline s)) = waiting
    | None \<Rightarrow> \<exists>cs. set cs \<subseteq> submitted as \<and> process_all processor (sequenced 1 cs) p0 = None"
proof -
  obtain s1 where s1: "start_pipeline n p0 = Some s1" "run_ok processor p0 0 s1" "pr_admitted s1 = []"
    by (rule start_pipeline_ok [OF assms(2)]) (rule that)
  then have e: "s1 = s0" using assms(1) by simp
  have "\<exists>seen waiting. pr_admitted s = seen @ waiting \<and>
        process_all processor (sequenced 1 seen) p0 = Some (mp_processor (pr_pipeline s), pr_events s) \<and>
        mp_commands_processed (pr_pipeline s) = of_nat (length seen) \<and> mpsc_contents (mp_queue (pr_pipeline s)) = waiting"
    if r: "run_ok processor p0 j s" for j s
  proof -
    obtain m k where m: "m \<le> length (pr_admitted s)" "mpsc_ring (mp_queue (pr_pipeline s)) k m (drop m (pr_admitted s))"
      "mp_commands_processed (pr_pipeline s) = of_nat m"
      "process_all processor (sequenced 1 (take m (pr_admitted s))) p0 = Some (mp_processor (pr_pipeline s), pr_events s)"
      using r by (auto simp: run_ok_def)
    show ?thesis
      by (rule exI [of _ "take m (pr_admitted s)"], rule exI [of _ "drop m (pr_admitted s)"])
        (use m mpsc_ring_contents(1) [OF m(2)] in \<open>simp add: min_def\<close>)
  qed
  then show ?thesis using acts_ok [OF s1(2), of as] s1(3) assms(3) e by (cases "pipeline_acts processor as s0") simp_all
qed

definition sample_cancel :: "ClientOrderId \<Rightarrow> ExchangeCommand" where
  "sample_cancel c = CancelOrderC \<lparr>cc_command_sequence = 0, cc_account_id = 5, cc_client_order_id = c, cc_instrument_id = 7\<rparr>"

definition log_sequence :: "CommandSequence list Processor" where
  \<comment> \<open>a processor that only notes the numbers it sees\<close>
  "log_sequence c p = Some (p @ [command_sequence_of c], [])"

definition sample_pipeline :: "CommandSequence list PipelineRun" where
  "sample_pipeline = \<lparr>pr_pipeline = \<lparr>mp_queue = \<lparr>mq_capacity = 2, mq_mask = 1, mq_slots = [free_slot, free_slot],
      mq_high_water_mark = 0, mq_head = 0, mq_tail = 0\<rparr>, mp_sequencer = new_sequencer, mp_processor = [],
      mp_commands_processed = 0, mp_commands_rejected = 0, mp_stop_requested = False\<rparr>,
    pr_thread = TryPop, pr_admitted = [], pr_events = []\<rparr>"

lemma start_sample_pipeline: "start_pipeline 2 [] = Some sample_pipeline"
  by (simp add: start_pipeline_def new_matching_pipeline_def new_mpsc_queue_def next_power_of_two_def round_up.simps replicate_more
      sample_pipeline_def)

lemmas pipeline_defs = sample_pipeline_def pipeline_submit_def mpsc_try_push_def mpsc_try_pop_def process_next_def
  sequence_command_def new_sequencer_def raise_peak_def log_sequence_def sample_cancel_def two_le_one request_stop_def mpsc_step_defs

theorem commands_are_processed_in_admission_order_witness:
  "\<exists>s seen waiting. pipeline_acts log_sequence [Submit (sample_cancel 1), Submit (sample_cancel 2), Submit (sample_cancel 3), MatchingTurn] sample_pipeline = Some s \<and>
     pr_admitted s = seen @ waiting \<and> process_all log_sequence (sequenced 1 seen) [] = Some (mp_processor (pr_pipeline s), pr_events s) \<and>
     pr_admitted s = [sample_cancel 1, sample_cancel 2] \<and> mp_processor (pr_pipeline s) = [1] \<and> mp_commands_rejected (pr_pipeline s) = 1"
proof -
  let ?as = "[Submit (sample_cancel 1), Submit (sample_cancel 2), Submit (sample_cancel 3), MatchingTurn]"
  have u: "unat (2 :: u64) \<le> 2 ^ 63" and l: "length ?as < 2 ^ 64 - 2" by simp_all
  have "map_option (\<lambda>s. (pr_admitted s, mp_processor (pr_pipeline s), mp_commands_rejected (pr_pipeline s)))
      (pipeline_acts log_sequence ?as sample_pipeline) = Some ([sample_cancel 1, sample_cancel 2], [1], 1)"
    by (simp add: pipeline_defs)
  then show ?thesis
    using commands_are_processed_in_admission_order [OF start_sample_pipeline u l, of log_sequence] by (auto split: option.splits)
qed

text \<open>
  A stop can lose an admitted command. The matching thread asks for the stop flag after an empty pop;
  a command submitted, with the answer true, between that pop and the question is still in the queue when
  the thread is joined, although the stop was requested after the submission had returned.
\<close>

theorem stop_can_lose_an_admitted_command:
  "map_option (\<lambda>s. (pr_thread s, pr_admitted s, mp_commands_processed (pr_pipeline s), mpsc_contents (mp_queue (pr_pipeline s))))
     (pipeline_acts log_sequence [MatchingTurn, Submit (sample_cancel 1), RequestStop, MatchingTurn, MatchingTurn] sample_pipeline) =
   Some (Finished, [sample_cancel 1], 0, [sample_cancel 1])"
  by (simp add: pipeline_defs mpsc_contents_def)

text \<open>
  C35. Nothing admitted is stuck in a running pipeline: from any state it reaches, with the matching thread
  about to pop or no stop requested, one turn more than there are admitted commands leaves the queue empty
  and every admitted command processed.
\<close>

theorem a_running_pipeline_drains:
  assumes "start_pipeline n p0 = Some s0" "unat n \<le> 2 ^ 63" "length as < 2 ^ 64 - 2"
    and "pipeline_acts processor as s0 = Some s" "pr_thread s = TryPop \<or> pr_thread s = CheckStop \<and> \<not> mp_stop_requested (pr_pipeline s)"
    and "process_all processor (sequenced 1 (pr_admitted s)) p0 = Some (p, evs)"
  shows "\<exists>s'. pipeline_acts processor (replicate (Suc (length (pr_admitted s))) MatchingTurn) s = Some s' \<and>
    mp_processor (pr_pipeline s') = p \<and> pr_events s' = evs \<and> mpsc_contents (mp_queue (pr_pipeline s')) = []"
proof -
  obtain s1 where s1: "start_pipeline n p0 = Some s1" "run_ok processor p0 0 s1" "pr_admitted s1 = []"
    by (rule start_pipeline_ok [OF assms(2)]) (rule that)
  then have e: "s1 = s0" using assms(1) by simp
  have r: "run_ok processor p0 (length as) s" using acts_ok [OF s1(2), of as] assms(3,4) e by simp
  have w: "length (waiting s) \<le> length (pr_admitted s)" by (rule waiting_admitted [OF r])
  have "\<exists>s'. pipeline_acts processor (replicate (Suc (length (pr_admitted s))) MatchingTurn) s = Some s' \<and>
    run_ok processor p0 (length as) s' \<and> pr_admitted s' = pr_admitted s \<and> waiting s' = []"
  proof (cases "pr_thread s = TryPop")
    case True
    show ?thesis by (rule busy_turns [OF r True _ assms(6)]) (use w in simp)
  next
    case False
    let ?s = "s\<lparr>pr_thread := TryPop\<rparr>"
    have "run_ok processor p0 (length as) ?s" using r by (simp add: run_ok_def)
    then have "\<exists>s'. pipeline_acts processor (replicate (length (pr_admitted s)) MatchingTurn) ?s = Some s' \<and>
      run_ok processor p0 (length as) s' \<and> pr_admitted s' = pr_admitted ?s \<and> waiting s' = []"
      by (rule busy_turns) (use w assms(6) in simp_all)
    then show ?thesis using False assms(5) by simp
  qed
  then obtain s' where s': "pipeline_acts processor (replicate (Suc (length (pr_admitted s))) MatchingTurn) s = Some s'"
    "run_ok processor p0 (length as) s'" "pr_admitted s' = pr_admitted s" "waiting s' = []" by blast
  then show ?thesis using all_processed [OF s'(2,4)] assms(6) by auto
qed

theorem a_running_pipeline_drains_witness:
  "\<exists>s s'. pipeline_acts log_sequence [Submit (sample_cancel 1), Submit (sample_cancel 2), MatchingTurn] sample_pipeline = Some s \<and>
     pipeline_acts log_sequence (replicate (Suc (length (pr_admitted s))) MatchingTurn) s = Some s' \<and>
     mp_processor (pr_pipeline s') = [1, 2]"
proof -
  let ?as = "[Submit (sample_cancel 1), Submit (sample_cancel 2), MatchingTurn]"
  have u: "unat (2 :: u64) \<le> 2 ^ 63" and l: "length ?as < 2 ^ 64 - 2" by simp_all
  have "map_option (\<lambda>s. (pr_thread s, pr_admitted s)) (pipeline_acts log_sequence ?as sample_pipeline) = Some (TryPop, [sample_cancel 1, sample_cancel 2])"
    by (simp add: pipeline_defs)
  then obtain s where s: "pipeline_acts log_sequence ?as sample_pipeline = Some s" "pr_thread s = TryPop" "pr_admitted s = [sample_cancel 1, sample_cancel 2]"
    by auto
  have "process_all log_sequence (sequenced 1 (pr_admitted s)) [] = Some ([1, 2], [])"
    by (simp add: s(3) log_sequence_def sample_cancel_def)
  then show ?thesis
    using a_running_pipeline_drains [OF start_sample_pipeline u l s(1) disjI1 [OF s(2)]] s(1) by blast
qed

end
