(* ===== verification/OrderEntryGateway.thy ===== *)
theory OrderEntryGateway
  imports GatewayMessages SpscQueue MatchingPipeline GatedEngine
begin

text \<open>
  The order entry gateway (\<open>src/include/exchange/gateway/order_entry_gateway.hpp\<close> and
  \<open>src/src/exchange/gateway/order_entry_gateway.cpp\<close>): sessions, the routing of private reports, framing
  and batched writing. A connection is named by its position in \<open>connections_\<close>, which only grows. What a
  socket or the poller answers is a parameter; waking the poller, counters and latency stamps are left out,
  and so is the optional second observer of events (\<open>MarketDataRouter\<close> models the one in use). The
  queues are those of \<open>SpscQueue\<close> and \<open>MatchingPipeline\<close>; \<open>None\<close> is their undefined behaviour.

  What the code does between two accesses the other thread can see is one turn: \<open>message_turn\<close> and \<open>write_turn\<close> of the
  I/O thread, \<open>report_turn\<close> of the matching thread. \<open>gateway_step\<close> lets the two threads take their turns in any order;
  \<open>handle_message\<close> and \<open>route_event\<close> are the same turns without interruption. An operation of a queue is one turn
  (\<open>SpscQueue\<close> and \<open>MpscQueue\<close> show that it takes effect at one access), as long as the queue has the one producer it is
  made for: a state in which both threads are inside \<open>try_push\<close> of the list of marked connections is \<open>racing\<close>, and as the
  two write the same storage nothing is said of what comes after it.
\<close>

section \<open>State\<close>

record GatewayOptions =
  go_outbound_queue_capacity :: u64
  go_pending_report_capacity :: nat
  go_writer_batch :: nat

record Connection =
  cn_session_id :: u64
  cn_read_buffer :: "byte list"
  cn_write_buf :: "byte list"
  cn_write_offset :: nat
  cn_write_pending :: "Message list"
  cn_outbound :: "Message SpscQueue"
  cn_session_outbound :: "Message SpscQueue"
  cn_replay_backlog :: "Message list"
  cn_account_id :: "AccountId option"
  cn_closed :: bool
  cn_write_interest :: bool
  cn_dirty :: bool

record OrderEntryGateway =
  og_options :: GatewayOptions
  og_listen_armed :: bool
  og_stop_requested :: bool
  og_connections :: "Connection list"
  og_next_session_id :: u64
  og_dirty :: "nat SpscQueue"
  og_dirty_overflow :: bool
  og_account_sessions :: "AccountId \<rightharpoonup> nat list"
  og_order_owner :: "OrderKey \<rightharpoonup> nat"
  og_pending_reports :: "AccountId \<rightharpoonup> Message list"
  og_pipeline :: "RiskGatedEngine MatchingPipeline"

definition conn :: "nat \<Rightarrow> OrderEntryGateway \<Rightarrow> Connection" where
  "conn i g = og_connections g ! i"

definition upd_conn :: "nat \<Rightarrow> (Connection \<Rightarrow> Connection) \<Rightarrow> OrderEntryGateway \<Rightarrow> OrderEntryGateway" where
  "upd_conn i f g = g\<lparr>og_connections := (og_connections g)[i := f (og_connections g ! i)]\<rparr>"

definition new_connection :: "u64 \<Rightarrow> u64 \<Rightarrow> Connection option" where
  "new_connection session capacity = do {
     out \<leftarrow> new_spsc_queue capacity;
     session_out \<leftarrow> new_spsc_queue capacity;
     Some \<lparr>cn_session_id = session, cn_read_buffer = [], cn_write_buf = [], cn_write_offset = 0, cn_write_pending = [],
           cn_outbound = out, cn_session_outbound = session_out, cn_replay_backlog = [], cn_account_id = None,
           cn_closed = False, cn_write_interest = False, cn_dirty = False\<rparr>
   }"

definition new_gateway :: "GatewayOptions \<Rightarrow> u64 \<Rightarrow> RiskGatedEngine \<Rightarrow> OrderEntryGateway option" where
  "new_gateway options matching_queue_capacity engine = do {
     pipeline \<leftarrow> new_matching_pipeline matching_queue_capacity engine;
     dirty \<leftarrow> new_spsc_queue 65536;
     Some \<lparr>og_options = options, og_listen_armed = True, og_stop_requested = False, og_connections = [], og_next_session_id = 1,
           og_dirty = dirty, og_dirty_overflow = False, og_account_sessions = Map.empty, og_order_owner = Map.empty,
           og_pending_reports = Map.empty, og_pipeline = pipeline\<rparr>
   }"

section \<open>Waking the writer\<close>

text \<open>\<open>mark_dirty\<close> in its three accesses: the exchange of the flag, which tells whether it was clear, the push onto the list of
  marked connections, and the overflow flag when the list is full.\<close>

definition claim_mark :: "nat \<Rightarrow> OrderEntryGateway \<Rightarrow> bool \<times> OrderEntryGateway" where
  "claim_mark i g = (if cn_dirty (conn i g) then (False, g) else (True, upd_conn i (\<lambda>c. c\<lparr>cn_dirty := True\<rparr>) g))"

definition push_mark :: "nat \<Rightarrow> OrderEntryGateway \<Rightarrow> (bool \<times> OrderEntryGateway) option" where
  "push_mark i g = do { (ok, q) \<leftarrow> try_push i (og_dirty g); Some (ok, g\<lparr>og_dirty := q\<rparr>) }"

definition flag_overflow :: "OrderEntryGateway \<Rightarrow> OrderEntryGateway" where
  "flag_overflow g = g\<lparr>og_dirty_overflow := True\<rparr>"

section \<open>Sessions\<close>

definition bind_routes :: "nat \<Rightarrow> AccountId \<Rightarrow> OrderEntryGateway \<Rightarrow> OrderEntryGateway" where
  \<comment> \<open>what \<open>bind_session\<close> does under \<open>sessions_mutex_\<close>\<close>
  "bind_routes i a g =
     (let sessions = (case og_account_sessions g a of None \<Rightarrow> [] | Some s \<Rightarrow> s);
          g = g\<lparr>og_account_sessions := (og_account_sessions g)(a \<mapsto> sessions @ [i])\<rparr>
      in case og_pending_reports g a of
           None \<Rightarrow> g
         | Some pending \<Rightarrow>
             (upd_conn i (\<lambda>c. c\<lparr>cn_replay_backlog := pending\<rparr>) g)\<lparr>og_pending_reports := (og_pending_reports g)(a := None)\<rparr>)"

definition unbind_session :: "nat \<Rightarrow> OrderEntryGateway \<Rightarrow> OrderEntryGateway" where
  "unbind_session i g =
     (case cn_account_id (conn i g) of
        None \<Rightarrow> g
      | Some a \<Rightarrow>
          let g = (case og_account_sessions g a of
                     None \<Rightarrow> g
                   | Some sessions \<Rightarrow>
                       let bound = filter (\<lambda>j. j \<noteq> i) sessions
                       in g\<lparr>og_account_sessions := (og_account_sessions g)(a := (if bound = [] then None else Some bound))\<rparr>)
          in g\<lparr>og_order_owner := (\<lambda>k. if og_order_owner g k = Some i then None else og_order_owner g k)\<rparr>)"

definition reject_account_mismatch :: "nat \<Rightarrow> ExchangeCommand \<Rightarrow> OrderEntryGateway \<Rightarrow> (bool \<times> OrderEntryGateway) option" where
  \<comment> \<open>the flag says whether the writer has to be notified\<close>
  "reject_account_mismatch i command g = do {
     (ok, q) \<leftarrow> try_push (mismatch_rejection command) (cn_session_outbound (conn i g));
     Some (ok, upd_conn i (\<lambda>c. c\<lparr>cn_session_outbound := q\<rparr>) g)
   }"

fun claimed_key :: "AccountId \<Rightarrow> Message \<Rightarrow> OrderKey option" where
  "claimed_key a (NewOrderM m) = Some (order_key_of a (no_client_order_id m))"
| "claimed_key a (CancelOrderM m) = Some (order_key_of a (co_client_order_id m))"
| "claimed_key a (ReplaceOrderM m) = Some (order_key_of a (rp_original_client_order_id m))"
| "claimed_key a _ = None"

definition claim_order_ownership :: "nat \<Rightarrow> AccountId \<Rightarrow> Message \<Rightarrow> OrderEntryGateway \<Rightarrow> OrderEntryGateway" where
  "claim_order_ownership i a m g =
     (case claimed_key a m of
        None \<Rightarrow> g
      | Some k \<Rightarrow>
          (case og_order_owner g k of
             None \<Rightarrow> g\<lparr>og_order_owner := (og_order_owner g)(k \<mapsto> i)\<rparr>
           | Some _ \<Rightarrow> g))"

section \<open>Routing\<close>

definition live_session :: "AccountId \<Rightarrow> OrderEntryGateway \<Rightarrow> nat option" where
  "live_session a g =
     (case og_account_sessions g a of
        None \<Rightarrow> None
      | Some sessions \<Rightarrow> find (\<lambda>i. \<not> cn_closed (conn i g)) sessions)"

definition route_target :: "OrderKey \<Rightarrow> OrderEntryGateway \<Rightarrow> nat option" where
  "route_target k g =
     (case og_order_owner g k of
        Some i \<Rightarrow> if \<not> cn_closed (conn i g) then Some i else live_session (ok_account_id k) g
      | None \<Rightarrow> live_session (ok_account_id k) g)"

definition deliver :: "nat \<Rightarrow> Message \<Rightarrow> OrderEntryGateway \<Rightarrow> (bool \<times> OrderEntryGateway) option" where
  "deliver i m g = do {
     (ok, q) \<leftarrow> try_push m (cn_outbound (conn i g));
     Some (ok, upd_conn i (\<lambda>c. c\<lparr>cn_outbound := q\<rparr>) g)
   }"

definition retain :: "AccountId \<Rightarrow> Message \<Rightarrow> OrderEntryGateway \<Rightarrow> OrderEntryGateway" where
  "retain a m g =
     (let capacity = go_pending_report_capacity (og_options g)
      in if capacity = 0 then g
         else let pending = (case og_pending_reports g a of None \<Rightarrow> [] | Some p \<Rightarrow> p);
                  pending = (if capacity \<le> length pending then tl pending else pending)
              in g\<lparr>og_pending_reports := (og_pending_reports g)(a \<mapsto> pending @ [m])\<rparr>)"

definition route_report :: "OrderKey \<times> Message \<Rightarrow> nat list \<times> OrderEntryGateway \<Rightarrow> (nat list \<times> OrderEntryGateway) option" where
  \<comment> \<open>the list holds the connections to wake, at most two and each once\<close>
  "route_report km wg =
     (case (km, wg) of ((k, m), wake, g) \<Rightarrow>
        case route_target k g of
          Some i \<Rightarrow> do {
            (ok, g) \<leftarrow> deliver i m g;
            Some (if ok \<and> (length wake = 0 \<or> length wake = 1 \<and> wake ! 0 \<noteq> i) then wake @ [i] else wake, g)
          }
        | None \<Rightarrow> Some (wake, retain (ok_account_id k) m g))"

definition disown :: "OrderKey \<Rightarrow> OrderEntryGateway \<Rightarrow> OrderEntryGateway" where
  \<comment> \<open>\<open>order_owner_.erase\<close>\<close>
  "disown k g = g\<lparr>og_order_owner := (og_order_owner g)(k := None)\<rparr>"

fun update_order_ownership :: "Ledger \<Rightarrow> ExchangeEvent \<Rightarrow> OrderEntryGateway \<Rightarrow> OrderEntryGateway" where
  "update_order_ownership l (EvRejected ev) g =
     (if find_hold (or_account_id ev) (or_client_order_id ev) l = None
      then disown (order_key_of (or_account_id ev) (or_client_order_id ev)) g else g)"
| "update_order_ownership l (EvCancelled ev) g = disown (order_key_of (oc_account_id ev) (oc_client_order_id ev)) g"
| "update_order_ownership l (EvReplaced ev) g =
     (let original = order_key_of (op_account_id ev) (op_original_client_order_id ev)
      in case og_order_owner g original of
           None \<Rightarrow> g
         | Some i \<Rightarrow>
             disown original (g\<lparr>og_order_owner :=
               (og_order_owner g)(order_key_of (op_account_id ev) (op_new_client_order_id ev) \<mapsto> i)\<rparr>))"
| "update_order_ownership l (EvTrade ev) g =
     fold (\<lambda>side g. if tc_remaining_quantity side = 0
                    then disown (order_key_of (tc_account_id side) (tc_client_order_id side)) g else g)
       [te_buyer ev, te_seller ev] g"
| "update_order_ownership l _ g = g"

text \<open>Where the matching thread is inside \<open>route_event\<close>: delivering the reports that are left, under \<open>sessions_mutex_\<close>, with the
  connections to wake, the event and the ledger; or waking, with the connections that are left.\<close>

datatype RoutingStage =
    Routed
  | Delivering "(OrderKey \<times> Message) list" "nat list" ExchangeEvent Ledger
  | Waking "nat list"
  | WakePushing nat "nat list"
  | WakeFlagging nat "nat list"

fun holds_lock :: "RoutingStage \<Rightarrow> bool" where
  "holds_lock (Delivering _ _ _ _) = True"
| "holds_lock _ = False"

definition start_routing :: "ExchangeEvent \<Rightarrow> Ledger \<Rightarrow> RoutingStage" where
  "start_routing ev l =
     (let reports = to_execution_reports ev in if reports = [] then Routed else Delivering reports [] ev l)"

fun report_turn :: "RoutingStage \<Rightarrow> OrderEntryGateway \<Rightarrow> (RoutingStage \<times> OrderEntryGateway) option" where
  "report_turn Routed g = Some (Routed, g)"
| "report_turn (Delivering (r # rs) wake ev l) g = do { (wake, g) \<leftarrow> route_report r (wake, g); Some (Delivering rs wake ev l, g) }"
| "report_turn (Delivering [] wake ev l) g = Some (Waking wake, update_order_ownership l ev g)"
| "report_turn (Waking []) g = Some (Routed, g)"
| "report_turn (Waking (i # wake)) g = (case claim_mark i g of (first, g) \<Rightarrow> Some (if first then WakePushing i wake else Waking wake, g))"
| "report_turn (WakePushing i wake) g = do { (ok, g) \<leftarrow> push_mark i g; Some (if ok then Waking wake else WakeFlagging i wake, g) }"
| "report_turn (WakeFlagging i wake) g = Some (Waking wake, flag_overflow g)"

fun turns_left :: "RoutingStage \<Rightarrow> nat" where
  \<comment> \<open>a bound\<close>
  "turns_left Routed = 0"
| "turns_left (Delivering rs wake _ _) = 4 * length rs + 3 * length wake + 2"
| "turns_left (Waking wake) = 3 * length wake + 1"
| "turns_left (WakePushing _ wake) = 3 * length wake + 3"
| "turns_left (WakeFlagging _ wake) = 3 * length wake + 2"

lemma route_report_wakes: "route_report r (wake, g) = Some (wake', g') \<Longrightarrow> length wake' \<le> Suc (length wake)"
  by (auto simp: route_report_def split: prod.splits option.splits Option.bind_splits if_splits)

lemma report_turn_progress: "report_turn st g = Some (st', g') \<Longrightarrow> st \<noteq> Routed \<Longrightarrow> turns_left st' < turns_left st"
  by (cases "(st, g)" rule: report_turn.cases)
    (auto dest!: route_report_wakes split: prod.splits Option.bind_splits if_splits)

function finish_routing :: "RoutingStage \<Rightarrow> OrderEntryGateway \<Rightarrow> OrderEntryGateway option" where
  "finish_routing st g = (if st = Routed then Some g else do { (st, g) \<leftarrow> report_turn st g; finish_routing st g })"
  by pat_completeness auto
termination
  by (relation "measure (\<lambda>(st, g). turns_left st)") (auto dest: report_turn_progress)

declare finish_routing.simps [simp del]

definition route_event :: "Ledger \<Rightarrow> ExchangeEvent \<Rightarrow> OrderEntryGateway \<Rightarrow> OrderEntryGateway option" where
  "route_event l ev g = finish_routing (start_routing ev l) g"

section \<open>Reading\<close>

definition next_frame :: "byte list \<Rightarrow> (byte list \<times> byte list) option" where
  \<comment> \<open>the first frame of a read buffer and what follows it\<close>
  "next_frame buffer =
     (case decode_header buffer of
        Inl _ \<Rightarrow> None
      | Inr header \<Rightarrow>
          let frame_size = HEADER_SIZE + unat (fh_payload_size header)
          in if length buffer < frame_size then None else Some (take frame_size buffer, drop frame_size buffer))"

lemma next_frame_shorter: "next_frame b = Some (f, r) \<Longrightarrow> length r < length b"
  by (auto simp: next_frame_def Let_def HEADER_SIZE_def split: sum.splits if_splits)

definition submit_command :: "ExchangeCommand \<Rightarrow> OrderEntryGateway \<Rightarrow> OrderEntryGateway option" where
  \<comment> \<open>the answer is thrown away\<close>
  "submit_command command g = do {
     (_, p) \<leftarrow> pipeline_submit command (og_pipeline g);
     Some (g\<lparr>og_pipeline := p\<rparr>)
   }"

text \<open>Where the I/O thread is inside \<open>handle_read\<close> with a decoded message; a connection is notified on the way to a further stage.\<close>

datatype MessageStage =
    Finished
  | Binding nat AccountId Message ExchangeCommand
  | Claiming nat AccountId Message ExchangeCommand
  | Submitting nat ExchangeCommand
  | Notifying nat MessageStage
  | Pushing nat MessageStage
  | Flagging nat MessageStage

definition start_message :: "nat \<Rightarrow> Message \<Rightarrow> OrderEntryGateway \<Rightarrow> (MessageStage \<times> OrderEntryGateway) option" where
  \<comment> \<open>from the decoded message to the first access that matters to the other thread\<close>
  "start_message i message g =
     (case to_command message of
        None \<Rightarrow> Some (Finished, g)
      | Some command \<Rightarrow>
          let account = account_of_message message
          in case cn_account_id (conn i g) of
               None \<Rightarrow> Some (Binding i account message command, bind_routes i account g)
             | Some bound \<Rightarrow>
                 if bound \<noteq> account
                 then do {
                   (ok, g) \<leftarrow> reject_account_mismatch i command g;
                   Some (if ok then Notifying i Finished else Finished, g)
                 }
                 else Some (Claiming i account message command, g))"

fun message_turn :: "MessageStage \<Rightarrow> OrderEntryGateway \<Rightarrow> (MessageStage \<times> OrderEntryGateway) option" where
  "message_turn Finished g = Some (Finished, g)"
| "message_turn (Binding i a m c) g = Some (Notifying i (Claiming i a m c), upd_conn i (\<lambda>c. c\<lparr>cn_account_id := Some a\<rparr>) g)"
| "message_turn (Claiming i a m c) g = Some (Submitting i c, claim_order_ownership i a m g)"
| "message_turn (Submitting i c) g = do { g \<leftarrow> submit_command c g; Some (Finished, g) }"
| "message_turn (Notifying i onward) g = (case claim_mark i g of (first, g) \<Rightarrow> Some (if first then Pushing i onward else onward, g))"
| "message_turn (Pushing i onward) g = do { (ok, g) \<leftarrow> push_mark i g; Some (if ok then onward else Flagging i onward, g) }"
| "message_turn (Flagging i onward) g = Some (onward, flag_overflow g)"

fun waits_for_lock :: "MessageStage \<Rightarrow> bool" where
  \<comment> \<open>\<open>claim_order_ownership\<close> takes \<open>sessions_mutex_\<close>\<close>
  "waits_for_lock (Claiming _ _ _ _) = True"
| "waits_for_lock _ = False"

definition binds :: "nat \<Rightarrow> Message \<Rightarrow> OrderEntryGateway \<Rightarrow> bool" where
  \<comment> \<open>and so does \<open>bind_session\<close>\<close>
  "binds i message g \<longleftrightarrow> to_command message \<noteq> None \<and> cn_account_id (conn i g) = None"

fun stages_left :: "MessageStage \<Rightarrow> nat" where
  "stages_left Finished = 0"
| "stages_left (Binding _ _ _ _) = 6"
| "stages_left (Claiming _ _ _ _) = 2"
| "stages_left (Submitting _ _) = 1"
| "stages_left (Notifying _ onward) = 3 + stages_left onward"
| "stages_left (Pushing _ onward) = 2 + stages_left onward"
| "stages_left (Flagging _ onward) = 1 + stages_left onward"

lemma message_turn_progress: "message_turn st g = Some (st', g') \<Longrightarrow> st \<noteq> Finished \<Longrightarrow> stages_left st' < stages_left st"
  by (cases st) (auto split: prod.splits Option.bind_splits if_splits)

function finish_message :: "MessageStage \<Rightarrow> OrderEntryGateway \<Rightarrow> OrderEntryGateway option" where
  "finish_message st g = (if st = Finished then Some g else do { (st, g) \<leftarrow> message_turn st g; finish_message st g })"
  by pat_completeness auto
termination
  by (relation "measure (\<lambda>(st, g). stages_left st)") (auto dest: message_turn_progress)

declare finish_message.simps [simp del]

definition handle_message :: "nat \<Rightarrow> Message \<Rightarrow> OrderEntryGateway \<Rightarrow> OrderEntryGateway option" where
  \<comment> \<open>what \<open>handle_read\<close> does with a decoded message\<close>
  "handle_message i message g = do { (st, g) \<leftarrow> start_message i message g; finish_message st g }"

function read_frames :: "nat \<Rightarrow> byte list \<Rightarrow> OrderEntryGateway \<Rightarrow> (byte list \<times> OrderEntryGateway) option" where
  \<comment> \<open>the inner loop of \<open>handle_read\<close>; the first result is what stays in the buffer\<close>
  "read_frames i buffer g =
     (case next_frame buffer of
        None \<Rightarrow> Some (buffer, g)
      | Some (frame, rest) \<Rightarrow>
          (case decode_message frame of
             Inl _ \<Rightarrow> read_frames i rest g
           | Inr message \<Rightarrow> do { g \<leftarrow> handle_message i message g; read_frames i rest g }))"
  by pat_completeness auto
termination
  by (relation "measure (\<lambda>(i, b, g). length b)") (auto dest: next_frame_shorter)

declare read_frames.simps [simp del]

definition handle_chunk :: "nat \<Rightarrow> byte list \<Rightarrow> OrderEntryGateway \<Rightarrow> OrderEntryGateway option" where
  \<comment> \<open>one round of the outer loop, after a successful \<open>read\<close>\<close>
  "handle_chunk i chunk g = do {
     (rest, g) \<leftarrow> read_frames i (cn_read_buffer (conn i g) @ chunk) g;
     Some (upd_conn i (\<lambda>c. c\<lparr>cn_read_buffer := rest\<rparr>) g)
   }"

section \<open>Accepting, closing and writing\<close>

text \<open>The outcome of \<open>listener_.accept()\<close>: the flags say whether the socket could be made non-blocking and
  be added to the poller.\<close>

datatype AcceptResult = NothingToAccept | AcceptFailed | Accepted bool bool

definition pause_listen :: "OrderEntryGateway \<Rightarrow> OrderEntryGateway" where
  "pause_listen g = (if \<not> og_listen_armed g then g else g\<lparr>og_listen_armed := False\<rparr>)"

definition maybe_resume_listen :: "bool \<Rightarrow> OrderEntryGateway \<Rightarrow> OrderEntryGateway" where
  \<comment> \<open>the flag is the answer of \<open>poller_.add\<close>\<close>
  "maybe_resume_listen added g =
     (if og_listen_armed g \<or> og_stop_requested g then g else if added then g\<lparr>og_listen_armed := True\<rparr> else g)"

fun accept_one :: "AcceptResult \<Rightarrow> OrderEntryGateway \<Rightarrow> OrderEntryGateway option" where
  \<comment> \<open>one round of \<open>accept_ready\<close>\<close>
  "accept_one NothingToAccept g = Some g"
| "accept_one AcceptFailed g = Some (pause_listen g)"
| "accept_one (Accepted non_blocking added) g =
     (if \<not> non_blocking then Some (pause_listen g)
      else do {
        c \<leftarrow> new_connection (og_next_session_id g) (go_outbound_queue_capacity (og_options g));
        if \<not> added then Some (pause_listen g)
        else Some (g\<lparr>og_next_session_id := og_next_session_id g + 1, og_connections := og_connections g @ [c]\<rparr>)
      })"

definition set_closed :: "nat \<Rightarrow> OrderEntryGateway \<Rightarrow> OrderEntryGateway" where
  "set_closed i g = upd_conn i (\<lambda>c. c\<lparr>cn_closed := True\<rparr>) g"

definition finish_close :: "nat \<Rightarrow> bool \<Rightarrow> OrderEntryGateway \<Rightarrow> OrderEntryGateway" where
  "finish_close i added g = maybe_resume_listen added (unbind_session i g)"

definition close_connection :: "nat \<Rightarrow> bool \<Rightarrow> OrderEntryGateway \<Rightarrow> OrderEntryGateway" where
  "close_connection i added g = (if cn_closed (conn i g) then g else finish_close i added (set_closed i g))"

text \<open>\<open>enable_write\<close> and \<open>disable_write\<close>: the flag is the answer of \<open>poller_.mod\<close>; the result says whether
  the connection has to be closed.\<close>

definition enable_write :: "nat \<Rightarrow> bool \<Rightarrow> OrderEntryGateway \<Rightarrow> bool \<times> OrderEntryGateway" where
  "enable_write i modified g =
     (if cn_closed (conn i g) \<or> cn_write_interest (conn i g) then (False, g)
      else if \<not> modified then (True, g)
      else (False, upd_conn i (\<lambda>c. c\<lparr>cn_write_interest := True\<rparr>) g))"

definition disable_write :: "nat \<Rightarrow> bool \<Rightarrow> OrderEntryGateway \<Rightarrow> bool \<times> OrderEntryGateway" where
  "disable_write i modified g =
     (if \<not> cn_write_interest (conn i g) then (False, g)
      else if \<not> modified then (True, g)
      else (False, upd_conn i (\<lambda>c. c\<lparr>cn_write_interest := False\<rparr>) g))"

definition unlist :: "nat \<Rightarrow> OrderEntryGateway \<Rightarrow> bool \<times> OrderEntryGateway" where
  \<comment> \<open>\<open>drain_dirty\<close> with a connection taken from the list: clear its mark; the flag says whether to watch it\<close>
  "unlist i g = (let g = upd_conn i (\<lambda>c. c\<lparr>cn_dirty := False\<rparr>) g in (\<not> cn_closed (conn i g), g))"

definition sweep_one :: "nat \<Rightarrow> OrderEntryGateway \<Rightarrow> bool \<times> OrderEntryGateway" where
  \<comment> \<open>\<open>drain_dirty\<close> after an overflow, one connection: exchange its mark; the flag says whether to watch it\<close>
  "sweep_one i g =
     (let marked = cn_dirty (conn i g);
          g = upd_conn i (\<lambda>c. c\<lparr>cn_dirty := False\<rparr>) g
      in (marked \<and> \<not> cn_closed (conn i g), g))"

definition pop_outbound :: "nat \<Rightarrow> OrderEntryGateway \<Rightarrow> (Message option \<times> OrderEntryGateway) option" where
  "pop_outbound i g =
     (if cn_replay_backlog (conn i g) \<noteq> []
      then Some (Some (hd (cn_replay_backlog (conn i g))), upd_conn i (\<lambda>c. c\<lparr>cn_replay_backlog := tl (cn_replay_backlog c)\<rparr>) g)
      else do {
        (session, q) \<leftarrow> try_pop (cn_session_outbound (conn i g));
        let g = upd_conn i (\<lambda>c. c\<lparr>cn_session_outbound := q\<rparr>) g;
        if session \<noteq> None then Some (session, g)
        else do {
          (m, q) \<leftarrow> try_pop (cn_outbound (conn i g));
          Some (m, upd_conn i (\<lambda>c. c\<lparr>cn_outbound := q\<rparr>) g)
        }
      })"

definition queue_message :: "Message \<Rightarrow> Connection \<Rightarrow> Connection" where
  "queue_message m c = c\<lparr>cn_write_buf := encode_message m (cn_write_buf c), cn_write_pending := cn_write_pending c @ [m]\<rparr>"

definition clear_batch :: "Connection \<Rightarrow> Connection" where
  "clear_batch c = c\<lparr>cn_write_buf := [], cn_write_offset := 0, cn_write_pending := []\<rparr>"

text \<open>Where \<open>handle_write\<close> is: at the top of its loop, adding up to so many more messages to the batch, or before
  \<open>disable_write\<close>; the outcome of \<open>socket.write\<close>; and what comes after a turn.\<close>

datatype WriteStage = WriteLoop | Filling nat | Disabling

datatype WriteResult = Wrote nat | WriteBlocked | WriteFailed

datatype WriteNext = GoOn WriteStage | Return | CloseIt

fun write_turn :: "WriteResult \<Rightarrow> bool \<Rightarrow> nat \<Rightarrow> WriteStage \<Rightarrow> OrderEntryGateway \<Rightarrow> (WriteNext \<times> OrderEntryGateway) option" where
  \<comment> \<open>the first argument is only asked for when there are bytes to write, the second is the answer of \<open>poller_.mod\<close>\<close>
  "write_turn result modified i WriteLoop g =
     (let c = conn i g;
          enable = (\<lambda>g. case enable_write i modified g of (close, g) \<Rightarrow> (if close then CloseIt else Return, g))
      in if cn_closed c then Some (Return, g)
         else if cn_write_offset c < length (cn_write_buf c)
         then case result of
                WriteBlocked \<Rightarrow> Some (enable g)
              | WriteFailed \<Rightarrow> Some (CloseIt, g)
              | Wrote n \<Rightarrow>
                  if n = 0 then Some (CloseIt, g)
                  else let g = upd_conn i (\<lambda>c. c\<lparr>cn_write_offset := cn_write_offset c + n\<rparr>) g
                       in if cn_write_offset (conn i g) < length (cn_write_buf (conn i g)) then Some (enable g)
                          else Some (GoOn WriteLoop, upd_conn i clear_batch g)
         else do {
           (first, g) \<leftarrow> pop_outbound i g;
           case first of
             None \<Rightarrow> Some (GoOn Disabling, g)
           | Some m \<Rightarrow>
               let batch_limit = (if go_writer_batch (og_options g) = 0 then 1 else go_writer_batch (og_options g))
               in Some (GoOn (Filling (batch_limit - 1)), upd_conn i (\<lambda>c. queue_message m (clear_batch c)) g)
         })"
| "write_turn result modified i (Filling 0) g = Some (GoOn WriteLoop, g)"
| "write_turn result modified i (Filling (Suc n)) g = do {
     (more, g) \<leftarrow> pop_outbound i g;
     case more of
       None \<Rightarrow> Some (GoOn WriteLoop, g)
     | Some m \<Rightarrow> Some (GoOn (Filling n), upd_conn i (queue_message m) g)
   }"
| "write_turn result modified i Disabling g =
     (case disable_write i modified g of (close, g) \<Rightarrow> Some (if close then CloseIt else Return, g))"

section \<open>The two threads\<close>

text \<open>Where the I/O thread is: handling a message (at the poller when that is finished), writing, with a connection it
  took from the list, about to watch a connection, in the sweep after an overflow at the connection of this number, or
  closing a connection before it goes on.\<close>

datatype IoThread =
    Handling MessageStage
  | Writing nat WriteStage
  | Popped nat
  | Enabling nat IoThread
  | Sweeping nat
  | Closing nat IoThread

abbreviation AtPoller :: IoThread where
  "AtPoller \<equiv> Handling Finished"

text \<open>\<open>gs_routing\<close> holds the events of the command in hand that are not routed yet, each with the ledger as it
  is then. \<open>gs_received\<close> and \<open>gs_submitted\<close> record the messages decoded from each connection and the commands submitted for
  it; no step reads them.\<close>

record GatewaySystem =
  gs_gateway :: OrderEntryGateway
  gs_io :: IoThread
  gs_stage :: RoutingStage
  gs_routing :: "(ExchangeEvent \<times> Ledger) list"
  gs_received :: "(nat \<times> Message) list"
  gs_submitted :: "(nat \<times> ExchangeCommand) list"

fun with_ledgers :: "ExchangeEvent list \<Rightarrow> Ledger \<Rightarrow> (ExchangeEvent \<times> Ledger) list" where
  "with_ledgers [] l = []"
| "with_ledgers (ev # evs) l = (ev, apply_event ev l) # with_ledgers evs (apply_event ev l)"

definition take_frame :: "nat \<Rightarrow> byte list \<Rightarrow> OrderEntryGateway \<Rightarrow> OrderEntryGateway" where
  "take_frame i rest g = upd_conn i (\<lambda>c. c\<lparr>cn_read_buffer := rest\<rparr>) g"

fun submits :: "MessageStage \<Rightarrow> (nat \<times> ExchangeCommand) list" where
  "submits (Submitting i c) = [(i, c)]"
| "submits _ = []"

inductive gateway_step :: "GatewaySystem \<Rightarrow> GatewaySystem \<Rightarrow> bool" where
  accept: "gs_io s = AtPoller \<Longrightarrow> accept_one r (gs_gateway s) = Some g \<Longrightarrow> gateway_step s (s\<lparr>gs_gateway := g\<rparr>)"
| receive: "gs_io s = AtPoller \<Longrightarrow> i < length (og_connections (gs_gateway s)) \<Longrightarrow> \<not> cn_closed (conn i (gs_gateway s)) \<Longrightarrow>
    gateway_step s (s\<lparr>gs_gateway := upd_conn i (\<lambda>c. c\<lparr>cn_read_buffer := cn_read_buffer c @ chunk\<rparr>) (gs_gateway s)\<rparr>)"
| skip: "gs_io s = AtPoller \<Longrightarrow> i < length (og_connections (gs_gateway s)) \<Longrightarrow>
    next_frame (cn_read_buffer (conn i (gs_gateway s))) = Some (frame, rest) \<Longrightarrow> decode_message frame = Inl e \<Longrightarrow>
    gateway_step s (s\<lparr>gs_gateway := take_frame i rest (gs_gateway s)\<rparr>)"
| read: "gs_io s = AtPoller \<Longrightarrow> i < length (og_connections (gs_gateway s)) \<Longrightarrow>
    next_frame (cn_read_buffer (conn i (gs_gateway s))) = Some (frame, rest) \<Longrightarrow> decode_message frame = Inr m \<Longrightarrow>
    (binds i m (gs_gateway s) \<Longrightarrow> \<not> holds_lock (gs_stage s)) \<Longrightarrow>
    start_message i m (take_frame i rest (gs_gateway s)) = Some (st, g) \<Longrightarrow>
    gateway_step s (s\<lparr>gs_gateway := g, gs_io := Handling st, gs_received := gs_received s @ [(i, m)]\<rparr>)"
| message: "gs_io s = Handling st \<Longrightarrow> st \<noteq> Finished \<Longrightarrow> (waits_for_lock st \<Longrightarrow> \<not> holds_lock (gs_stage s)) \<Longrightarrow>
    message_turn st (gs_gateway s) = Some (st', g) \<Longrightarrow>
    gateway_step s (s\<lparr>gs_gateway := g, gs_io := Handling st', gs_submitted := gs_submitted s @ submits st\<rparr>)"
| hang_up: "gs_io s = AtPoller \<Longrightarrow> i < length (og_connections (gs_gateway s)) \<Longrightarrow> \<not> cn_closed (conn i (gs_gateway s)) \<Longrightarrow>
    gateway_step s (s\<lparr>gs_gateway := set_closed i (gs_gateway s), gs_io := Closing i AtPoller\<rparr>)"
| unbind: "gs_io s = Closing i onward \<Longrightarrow> (cn_account_id (conn i (gs_gateway s)) \<noteq> None \<Longrightarrow> \<not> holds_lock (gs_stage s)) \<Longrightarrow>
    gateway_step s (s\<lparr>gs_gateway := finish_close i added (gs_gateway s), gs_io := onward\<rparr>)"
| start_writing: "gs_io s = AtPoller \<Longrightarrow> i < length (og_connections (gs_gateway s)) \<Longrightarrow> gateway_step s (s\<lparr>gs_io := Writing i WriteLoop\<rparr>)"
| write_on: "gs_io s = Writing i st \<Longrightarrow> write_turn r modified i st (gs_gateway s) = Some (w, g) \<Longrightarrow> w \<noteq> CloseIt \<Longrightarrow>
    gateway_step s (s\<lparr>gs_gateway := g, gs_io := (case w of GoOn st' \<Rightarrow> Writing i st' | _ \<Rightarrow> AtPoller)\<rparr>)"
| write_fails: "gs_io s = Writing i st \<Longrightarrow> write_turn r modified i st (gs_gateway s) = Some (CloseIt, g) \<Longrightarrow>
    gateway_step s (s\<lparr>gs_gateway := set_closed i g, gs_io := Closing i AtPoller\<rparr>)"
| pop: "gs_io s = AtPoller \<Longrightarrow> try_pop (og_dirty (gs_gateway s)) = Some (Some i, q) \<Longrightarrow>
    gateway_step s (s\<lparr>gs_gateway := (gs_gateway s)\<lparr>og_dirty := q\<rparr>, gs_io := Popped i\<rparr>)"
| unlist: "gs_io s = Popped i \<Longrightarrow> unlist i (gs_gateway s) = (watch, g) \<Longrightarrow>
    gateway_step s (s\<lparr>gs_gateway := g, gs_io := (if watch then Enabling i AtPoller else AtPoller)\<rparr>)"
| overflow: "gs_io s = AtPoller \<Longrightarrow> og_dirty_overflow (gs_gateway s) \<Longrightarrow>
    gateway_step s (s\<lparr>gs_gateway := (gs_gateway s)\<lparr>og_dirty_overflow := False\<rparr>, gs_io := Sweeping 0\<rparr>)"
| sweep: "gs_io s = Sweeping i \<Longrightarrow> i < length (og_connections (gs_gateway s)) \<Longrightarrow> sweep_one i (gs_gateway s) = (watch, g) \<Longrightarrow>
    gateway_step s (s\<lparr>gs_gateway := g, gs_io := (if watch then Enabling i (Sweeping (Suc i)) else Sweeping (Suc i))\<rparr>)"
| swept: "gs_io s = Sweeping i \<Longrightarrow> \<not> i < length (og_connections (gs_gateway s)) \<Longrightarrow> gateway_step s (s\<lparr>gs_io := AtPoller\<rparr>)"
| enable: "gs_io s = Enabling i onward \<Longrightarrow> enable_write i modified (gs_gateway s) = (False, g) \<Longrightarrow>
    gateway_step s (s\<lparr>gs_gateway := g, gs_io := onward\<rparr>)"
| enable_fails: "gs_io s = Enabling i onward \<Longrightarrow> enable_write i modified (gs_gateway s) = (True, g) \<Longrightarrow>
    gateway_step s (s\<lparr>gs_gateway := set_closed i g, gs_io := Closing i onward\<rparr>)"
| match: "gs_stage s = Routed \<Longrightarrow> gs_routing s = [] \<Longrightarrow>
    matching_turn gated_process TryPop (og_pipeline (gs_gateway s)) = Some (th, p, evs) \<Longrightarrow>
    gateway_step s (s\<lparr>gs_gateway := (gs_gateway s)\<lparr>og_pipeline := p\<rparr>,
      gs_routing := with_ledgers evs (ge_ledger (mp_processor (og_pipeline (gs_gateway s))))\<rparr>)"
| route: "gs_stage s = Routed \<Longrightarrow> gs_routing s = (ev, l) # rest \<Longrightarrow>
    gateway_step s (s\<lparr>gs_stage := start_routing ev l, gs_routing := rest\<rparr>)"
| report: "gs_stage s \<noteq> Routed \<Longrightarrow> report_turn (gs_stage s) (gs_gateway s) = Some (st, g) \<Longrightarrow>
    gateway_step s (s\<lparr>gs_gateway := g, gs_stage := st\<rparr>)"

fun io_pushes :: "IoThread \<Rightarrow> bool" where
  "io_pushes (Handling (Pushing _ _)) = True"
| "io_pushes _ = False"

fun report_pushes :: "RoutingStage \<Rightarrow> bool" where
  "report_pushes (WakePushing _ _) = True"
| "report_pushes _ = False"

definition racing :: "GatewaySystem \<Rightarrow> bool" where
  \<comment> \<open>two producers in \<open>try_push\<close> of a queue for one\<close>
  "racing s \<longleftrightarrow> io_pushes (gs_io s) \<and> report_pushes (gs_stage s)"

definition gateway_start :: "OrderEntryGateway \<Rightarrow> GatewaySystem" where
  "gateway_start g = \<lparr>gs_gateway = g, gs_io = AtPoller, gs_stage = Routed, gs_routing = [], gs_received = [], gs_submitted = []\<rparr>"

inductive gateway_reaches :: "OrderEntryGateway \<Rightarrow> GatewaySystem \<Rightarrow> bool" for g where
  start: "gateway_reaches g (gateway_start g)"
| step: "gateway_reaches g s \<Longrightarrow> \<not> racing s \<Longrightarrow> gateway_step s s' \<Longrightarrow> gateway_reaches g s'"

end
