(* ===== verification/GatewayInvariant.thy ===== *)
theory GatewayInvariant
  imports OrderEntryGateway
begin

text \<open>
  The invariant of the order entry gateway: every message waiting for a connection is for the account the
  connection is bound to, or refuses a request for another account that came over that connection; the commands
  handed to matching are the session's own requests, each once and in order; and reports are kept back only for
  accounts without an open connection. \<open>gateway_ok\<close> is the part that speaks of the gateway, for any assignment of accounts
  and received messages to connections; \<open>system_ok\<close> says which assignment it is at each point of the two threads.
\<close>

section \<open>What a connection may be told\<close>

lemma conn_upd [simp]:
  "conn j (upd_conn i f g) = (if j = i \<and> i < length (og_connections g) then f (conn i g) else conn j g)"
  "length (og_connections (upd_conn i f g)) = length (og_connections g)"
  "og_account_sessions (upd_conn i f g) = og_account_sessions g" "og_order_owner (upd_conn i f g) = og_order_owner g"
  "og_pending_reports (upd_conn i f g) = og_pending_reports g" "og_dirty (upd_conn i f g) = og_dirty g"
  "og_options (upd_conn i f g) = og_options g" "og_pipeline (upd_conn i f g) = og_pipeline g"
  by (auto simp: conn_def upd_conn_def nth_list_update list_update_beyond)

lemma conn_fields [simp]:
  "conn j (g\<lparr>og_account_sessions := x1\<rparr>) = conn j g" "conn j (g\<lparr>og_order_owner := x2\<rparr>) = conn j g"
  "conn j (g\<lparr>og_pending_reports := x3\<rparr>) = conn j g" "conn j (g\<lparr>og_dirty := x4\<rparr>) = conn j g"
  "conn j (g\<lparr>og_dirty_overflow := x5\<rparr>) = conn j g" "conn j (g\<lparr>og_listen_armed := x6\<rparr>) = conn j g"
  "conn j (g\<lparr>og_pipeline := x7\<rparr>) = conn j g" "conn j (g\<lparr>og_next_session_id := x8\<rparr>) = conn j g"
  by (simp_all add: conn_def)

definition refuses :: "Message set \<Rightarrow> AccountId option \<Rightarrow> Message \<Rightarrow> bool" where
  \<comment> \<open>the rejection of one of these requests, which is for another account than the connection's\<close>
  "refuses R b m \<longleftrightarrow> (\<exists>request \<in> R. \<exists>command. to_command request = Some command \<and> m = mismatch_rejection command \<and>
     b \<noteq> None \<and> b \<noteq> Some (account_of_message request))"

definition conn_ok :: "Message set \<Rightarrow> AccountId option \<Rightarrow> Connection \<Rightarrow> bool" where
  "conn_ok R b c \<longleftrightarrow>
     queue_ok (cn_outbound c) \<and> queue_ok (cn_session_outbound c) \<and>
     (\<forall>m \<in> set (cn_replay_backlog c) \<union> set (queue_contents (cn_outbound c)). b = Some (account_of_message m)) \<and>
     (\<forall>m \<in> set (queue_contents (cn_session_outbound c)). refuses R b m) \<and>
     (\<forall>m \<in> set (cn_write_pending c). refuses R b m \<or> b = Some (account_of_message m)) \<and>
     cn_write_buf c = concat (map (\<lambda>m. encode_message m []) (cn_write_pending c)) \<and> cn_write_offset c \<le> length (cn_write_buf c)"

lemma conn_ok_fields [simp]:
  "conn_ok R b (c\<lparr>cn_dirty := x1\<rparr>) = conn_ok R b c" "conn_ok R b (c\<lparr>cn_read_buffer := x2\<rparr>) = conn_ok R b c"
  "conn_ok R b (c\<lparr>cn_account_id := x3\<rparr>) = conn_ok R b c" "conn_ok R b (c\<lparr>cn_closed := x4\<rparr>) = conn_ok R b c"
  "conn_ok R b (c\<lparr>cn_write_interest := x5\<rparr>) = conn_ok R b c"
  by (simp_all add: conn_ok_def)

definition gateway_ok :: "(nat \<Rightarrow> Message set) \<Rightarrow> (nat \<Rightarrow> AccountId option) \<Rightarrow> OrderEntryGateway \<Rightarrow> bool" where
  \<comment> \<open>\<open>r\<close> tells the messages received over each connection, \<open>b\<close> its account\<close>
  "gateway_ok r b g \<longleftrightarrow>
     (\<forall>k i. og_order_owner g k = Some i \<longrightarrow> i < length (og_connections g) \<and> b i = Some (ok_account_id k)) \<and>
     (\<forall>a is. og_account_sessions g a = Some is \<longrightarrow> (\<forall>i \<in> set is. i < length (og_connections g) \<and> b i = Some a)) \<and>
     (\<forall>a ms. og_pending_reports g a = Some ms \<longrightarrow>
        (\<forall>m \<in> set ms. account_of_message m = a) \<and> length ms \<le> go_pending_report_capacity (og_options g) \<and>
        (\<forall>is. og_account_sessions g a = Some is \<longrightarrow> (\<forall>i \<in> set is. cn_closed (conn i g)))) \<and>
     (\<forall>i < length (og_connections g). conn_ok (r i) (b i) (conn i g)) \<and>
     (\<forall>i a. i < length (og_connections g) \<longrightarrow> b i = Some a \<longrightarrow> \<not> cn_closed (conn i g) \<longrightarrow>
        (\<exists>is. og_account_sessions g a = Some is \<and> i \<in> set is)) \<and>
     queue_ok (og_dirty g) \<and> (\<forall>i \<in> set (queue_contents (og_dirty g)). i < length (og_connections g))"

lemma gateway_okI:
  assumes "\<And>k i. og_order_owner g k = Some i \<Longrightarrow> i < length (og_connections g) \<and> b i = Some (ok_account_id k)"
    "\<And>a is i. og_account_sessions g a = Some is \<Longrightarrow> i \<in> set is \<Longrightarrow> i < length (og_connections g) \<and> b i = Some a"
    "\<And>a ms. og_pending_reports g a = Some ms \<Longrightarrow> (\<forall>m \<in> set ms. account_of_message m = a) \<and> length ms \<le> go_pending_report_capacity (og_options g)"
    "\<And>a ms is i. og_pending_reports g a = Some ms \<Longrightarrow> og_account_sessions g a = Some is \<Longrightarrow> i \<in> set is \<Longrightarrow> cn_closed (conn i g)"
    "\<And>i. i < length (og_connections g) \<Longrightarrow> conn_ok (r i) (b i) (conn i g)"
    "\<And>i a. i < length (og_connections g) \<Longrightarrow> b i = Some a \<Longrightarrow> \<not> cn_closed (conn i g) \<Longrightarrow>
       \<exists>is. og_account_sessions g a = Some is \<and> i \<in> set is"
    "queue_ok (og_dirty g)" "\<And>i. i \<in> set (queue_contents (og_dirty g)) \<Longrightarrow> i < length (og_connections g)"
  shows "gateway_ok r b g"
  using assms unfolding gateway_ok_def by blast

lemma gateway_okD:
  assumes "gateway_ok r b g"
  shows "og_order_owner g k = Some i \<Longrightarrow> i < length (og_connections g) \<and> b i = Some (ok_account_id k)"
    "og_account_sessions g a = Some is \<Longrightarrow> i \<in> set is \<Longrightarrow> i < length (og_connections g) \<and> b i = Some a"
    "og_pending_reports g a = Some ms \<Longrightarrow> (\<forall>m \<in> set ms. account_of_message m = a) \<and> length ms \<le> go_pending_report_capacity (og_options g)"
    "og_pending_reports g a = Some ms \<Longrightarrow> og_account_sessions g a = Some is \<Longrightarrow> i \<in> set is \<Longrightarrow> cn_closed (conn i g)"
    "i < length (og_connections g) \<Longrightarrow> conn_ok (r i) (b i) (conn i g)"
    "queue_ok (og_dirty g)" "i \<in> set (queue_contents (og_dirty g)) \<Longrightarrow> i < length (og_connections g)"
    "i < length (og_connections g) \<Longrightarrow> b i = Some a \<Longrightarrow> \<not> cn_closed (conn i g) \<Longrightarrow>
       \<exists>is. og_account_sessions g a = Some is \<and> i \<in> set is"
  using assms unfolding gateway_ok_def by blast+

text \<open>A change of one connection that never opens it again.\<close>

lemma gateway_ok_upd:
  assumes ok: "gateway_ok r b g" and "i < length (og_connections g) \<Longrightarrow> conn_ok (r i) (b i) (f (conn i g))"
    "cn_closed (conn i g) \<Longrightarrow> cn_closed (f (conn i g))"
  shows "gateway_ok r b (upd_conn i f g)"
proof (rule gateway_okI)
  show "cn_closed (conn j (upd_conn i f g))"
    if "og_pending_reports (upd_conn i f g) a = Some ms" "og_account_sessions (upd_conn i f g) a = Some is" "j \<in> set is" for a ms "is" j
    using gateway_okD(4) [OF ok, of a ms "is" j] that assms(3) by auto
  show "\<exists>is. og_account_sessions (upd_conn i f g) a = Some is \<and> j \<in> set is"
    if "j < length (og_connections (upd_conn i f g))" "b j = Some a" "\<not> cn_closed (conn j (upd_conn i f g))" for j a
    using gateway_okD(8) [OF ok, of j a] that assms(3) by (auto split: if_splits)
qed (use gateway_okD [OF ok] assms(2) in \<open>simp_all split: if_split\<close>)

lemma gateway_ok_frame:
  assumes "gateway_ok r b g" "og_connections g' = og_connections g" "og_account_sessions g' = og_account_sessions g"
    "og_order_owner g' = og_order_owner g" "og_pending_reports g' = og_pending_reports g" "og_options g' = og_options g"
    "og_dirty g' = og_dirty g"
  shows "gateway_ok r b g'"
  using assms by (simp add: gateway_ok_def conn_def)

text \<open>More may have been received than is known of.\<close>

lemma refuses_mono: "refuses R b m \<Longrightarrow> R \<subseteq> S \<Longrightarrow> refuses S b m"
  unfolding refuses_def by blast

lemma conn_ok_mono: "conn_ok R b c \<Longrightarrow> R \<subseteq> S \<Longrightarrow> conn_ok S b c"
  using refuses_mono [of R b _ S] unfolding conn_ok_def by (elim conjE, intro conjI) (assumption | blast)+

lemma gateway_ok_mono:
  assumes "gateway_ok r b g" "\<And>i. r i \<subseteq> q i"
  shows "gateway_ok q b g"
proof (rule gateway_okI)
  show "conn_ok (q i) (b i) (conn i g)" if "i < length (og_connections g)" for i
    using conn_ok_mono [OF gateway_okD(5) [OF assms(1) that] assms(2)] .
qed (use gateway_okD [OF assms(1)] in blast)+

text \<open>The connections keep their number and accounts, and a closed one stays closed.\<close>

definition same_sessions :: "OrderEntryGateway \<Rightarrow> OrderEntryGateway \<Rightarrow> bool" where
  "same_sessions g g' \<longleftrightarrow> length (og_connections g') = length (og_connections g) \<and>
     (\<forall>j. cn_account_id (conn j g') = cn_account_id (conn j g) \<and> (cn_closed (conn j g) \<longrightarrow> cn_closed (conn j g')))"

lemma same_sessions_refl [simp]: "same_sessions g g"
  by (simp add: same_sessions_def)

lemma same_sessions_trans: "same_sessions g g' \<Longrightarrow> same_sessions g' g'' \<Longrightarrow> same_sessions g g''"
  by (simp add: same_sessions_def)

lemma same_sessions_upd:
  "cn_account_id (f (conn i g)) = cn_account_id (conn i g) \<Longrightarrow> (cn_closed (conn i g) \<Longrightarrow> cn_closed (f (conn i g))) \<Longrightarrow>
   same_sessions g (upd_conn i f g)"
  by (simp add: same_sessions_def)

definition keeps :: "(nat \<Rightarrow> Message set) \<Rightarrow> (nat \<Rightarrow> AccountId option) \<Rightarrow> OrderEntryGateway \<Rightarrow> OrderEntryGateway \<Rightarrow> bool" where
  "keeps r b g g' \<longleftrightarrow> gateway_ok r b g' \<and> same_sessions g g' \<and> og_options g' = og_options g"

lemma keeps_refl: "gateway_ok r b g \<Longrightarrow> keeps r b g g"
  by (simp add: keeps_def)

lemma keeps_trans: "keeps r b g g' \<Longrightarrow> keeps r b g' g'' \<Longrightarrow> keeps r b g g''"
  using same_sessions_trans by (auto simp: keeps_def)

lemma keeps_length: "keeps r b g g' \<Longrightarrow> length (og_connections g') = length (og_connections g)"
  by (simp add: keeps_def same_sessions_def)

lemma keeps_upd:
  assumes ok: "gateway_ok r b g" and "i < length (og_connections g) \<Longrightarrow> conn_ok (r i) (b i) (conn i g) \<Longrightarrow> conn_ok (r i) (b i) (f (conn i g))"
    "cn_account_id (f (conn i g)) = cn_account_id (conn i g)" "cn_closed (conn i g) \<Longrightarrow> cn_closed (f (conn i g))"
  shows "keeps r b g (upd_conn i f g)"
  using gateway_ok_upd [OF ok, of i f] gateway_okD(5) [OF ok, of i] same_sessions_upd [of f i g] assms(2-4) by (simp add: keeps_def)

lemma keeps_frame:
  assumes "gateway_ok r b g" "og_connections g' = og_connections g" "og_account_sessions g' = og_account_sessions g"
    "og_order_owner g' = og_order_owner g" "og_pending_reports g' = og_pending_reports g" "og_options g' = og_options g"
    "og_dirty g' = og_dirty g"
  shows "keeps r b g g'"
  using gateway_ok_frame [OF assms] assms by (simp add: keeps_def same_sessions_def conn_def)

lemma set_tl_subset: "set (tl xs) \<subseteq> set xs"
  by (cases xs) auto

lemma upd_conn_twice: "upd_conn i f (upd_conn i h g) = upd_conn i (\<lambda>c. f (h c)) g"
  by (cases "i < length (og_connections g)") (simp_all add: upd_conn_def list_update_beyond)

lemma pushed:
  assumes "queue_ok q" "try_push x q = Some (ok, q')"
  shows "queue_ok q'" "queue_contents q' = (if ok then queue_contents q @ [x] else queue_contents q)"
proof -
  have "queue_ok q' \<and> queue_contents q' = (if ok then queue_contents q @ [x] else queue_contents q)"
  proof (cases "length (queue_contents q) < unat (sq_capacity q)")
    case True
    then show ?thesis using spsc.push_room [OF assms(1) TrueI, of x] assms(2) by auto
  next
    case False
    then show ?thesis using spsc.push_full [OF assms(1), of x] assms(2) by auto
  qed
  then show "queue_ok q'" "queue_contents q' = (if ok then queue_contents q @ [x] else queue_contents q)" by simp_all
qed

lemma popped:
  assumes "queue_ok q" "try_pop q = Some (r, q')"
  shows "queue_ok q'" "queue_contents q = (case r of None \<Rightarrow> [] | Some x \<Rightarrow> [x]) @ queue_contents q'"
proof -
  have "queue_ok q' \<and> queue_contents q = (case r of None \<Rightarrow> [] | Some x \<Rightarrow> [x]) @ queue_contents q'"
  proof (cases "queue_contents q")
    case Nil
    then show ?thesis using spsc.pop_empty [OF assms(1)] assms by auto
  next
    case (Cons x xs)
    then show ?thesis using spsc.pop_some [OF assms(1) Cons] assms(2) by auto
  qed
  then show "queue_ok q'" "queue_contents q = (case r of None \<Rightarrow> [] | Some x \<Rightarrow> [x]) @ queue_contents q'" by simp_all
qed

lemma marks_keep:
  assumes ok: "gateway_ok r b g"
  shows "keeps r b g (snd (claim_mark i g))" "i < length (og_connections g) \<Longrightarrow> push_mark i g = Some (p, g') \<Longrightarrow> keeps r b g g'"
    "keeps r b g (flag_overflow g)"
proof -
  show "keeps r b g (snd (claim_mark i g))" by (simp add: claim_mark_def keeps_refl [OF ok] keeps_upd [OF ok])
  show "keeps r b g (flag_overflow g)" by (rule keeps_frame [OF ok]) (simp_all add: flag_overflow_def)
  assume i: "i < length (og_connections g)" and "push_mark i g = Some (p, g')"
  then obtain q where q: "try_push i (og_dirty g) = Some (p, q)" "g' = g\<lparr>og_dirty := q\<rparr>"
    by (auto simp: push_mark_def split: Option.bind_splits)
  note p = pushed [OF gateway_okD(6) [OF ok] q(1)]
  have "gateway_ok r b (g\<lparr>og_dirty := q\<rparr>)" by (rule gateway_okI) (use gateway_okD [OF ok] p i in \<open>auto split: if_splits\<close>)
  then show "keeps r b g g'" using q(2) by (simp add: keeps_def same_sessions_def)
qed

lemma bind_routes_ok:
  assumes ok: "gateway_ok r b g" and i: "i < length (og_connections g)" and b: "b i = None"
  shows "gateway_ok r (b(i := Some a)) (bind_routes i a g)"
proof -
  let ?b = "b(i := Some a)" and ?sessions = "case og_account_sessions g a of None \<Rightarrow> [] | Some s \<Rightarrow> s"
  let ?g = "g\<lparr>og_account_sessions := (og_account_sessions g)(a \<mapsto> ?sessions @ [i])\<rparr>"
  have c: "conn_ok (r i) None (conn i g)" using gateway_okD(5) [OF ok i] b by simp
  have rest: "conn_ok (r j) (?b j) (conn j g)" if "j < length (og_connections g)" for j
    using gateway_okD(5) [OF ok that] c by (auto simp: conn_ok_def refuses_def)
  have own: "j < length (og_connections g) \<and> ?b j = Some (ok_account_id k)" if "og_order_owner g k = Some j" for j k
    using gateway_okD(1) [OF ok that] b by auto
  have ses: "j < length (og_connections g) \<and> ?b j = Some a'" if "og_account_sessions ?g a' = Some is" "j \<in> set is" for j a' "is"
    using that gateway_okD(2) [OF ok, of a' _ j] b i by (auto split: if_splits option.splits)
  have live: "\<exists>is. og_account_sessions ?g a' = Some is \<and> j \<in> set is"
    if "j < length (og_connections g)" "?b j = Some a'" "\<not> cn_closed (conn j g)" for j a'
    using gateway_okD(8) [OF ok, of j a'] that by (auto split: if_splits option.splits)
  show ?thesis
  proof (cases "og_pending_reports g a")
    case None
    have "bind_routes i a g = ?g" using None by (simp add: bind_routes_def Let_def)
    moreover have "gateway_ok r ?b ?g"
    proof (rule gateway_okI)
      show "cn_closed (conn j ?g)" if "og_pending_reports ?g a' = Some ms" "og_account_sessions ?g a' = Some is" "j \<in> set is" for a' ms "is" j
        using that None gateway_okD(4) [OF ok, of a' ms "is" j] by (auto split: if_splits)
    qed (use own ses rest live gateway_okD(3,6,7) [OF ok] in \<open>auto simp del: fun_upd_apply\<close>)
    ultimately show ?thesis by simp
  next
    case (Some pending)
    let ?h = "(upd_conn i (\<lambda>c. c\<lparr>cn_replay_backlog := pending\<rparr>) ?g)\<lparr>og_pending_reports := (og_pending_reports g)(a := None)\<rparr>"
    have "bind_routes i a g = ?h" using Some by (simp add: bind_routes_def Let_def upd_conn_def)
    moreover have "gateway_ok r ?b ?h"
    proof (rule gateway_okI)
      show "cn_closed (conn j ?h)" if "og_pending_reports ?h a' = Some ms" "og_account_sessions ?h a' = Some is" "j \<in> set is" for a' ms "is" j
        using that gateway_okD(4) [OF ok, of a' ms "is" j] by (auto split: if_splits)
      show "conn_ok (r j) (?b j) (conn j ?h)" if "j < length (og_connections ?h)" for j
        using that rest [of j] gateway_okD(3) [OF ok Some] c by (auto simp: conn_ok_def refuses_def)
      show "\<exists>is. og_account_sessions ?h a' = Some is \<and> j \<in> set is"
        if "j < length (og_connections ?h)" "?b j = Some a'" "\<not> cn_closed (conn j ?h)" for j a'
        using live [of j a'] that by (auto split: if_splits)
    qed (use own ses gateway_okD(3,6,7) [OF ok] in \<open>auto split: if_splits\<close>)
    ultimately show ?thesis by simp
  qed
qed

lemma reject_keeps:
  assumes ok: "gateway_ok r b g" and i: "i < length (og_connections g)" and rej: "reject_account_mismatch i c g = Some (p, g')"
    and m: "m \<in> r i" "to_command m = Some c" "b i = Some a" "a \<noteq> account_of_message m"
  shows "keeps r b g g'"
proof -
  obtain q where q: "try_push (mismatch_rejection c) (cn_session_outbound (conn i g)) = Some (p, q)"
    "g' = upd_conn i (\<lambda>c. c\<lparr>cn_session_outbound := q\<rparr>) g"
    using rej by (auto simp: reject_account_mismatch_def split: Option.bind_splits)
  have c: "conn_ok (r i) (b i) (conn i g)" by (rule gateway_okD(5) [OF ok i])
  then have "queue_ok (cn_session_outbound (conn i g))" by (simp add: conn_ok_def)
  note p = pushed [OF this q(1)]
  have "refuses (r i) (b i) (mismatch_rejection c)" unfolding refuses_def using m by auto
  then show ?thesis unfolding q(2) by (intro keeps_upd [OF ok]) (use c p in \<open>auto simp: conn_ok_def split: if_splits\<close>)
qed

lemma claim_ok:
  assumes "gateway_ok r b g" "i < length (og_connections g)" "b i = Some a"
  shows "gateway_ok r b (claim_order_ownership i a m g)"
proof -
  have "ok_account_id k = a" if "claimed_key a m = Some k" for k using that by (cases m) (auto simp: order_key_of_def)
  then show ?thesis using assms
    by (auto simp: claim_order_ownership_def gateway_ok_def split: option.splits if_splits)
qed

lemma unbind_session_ok:
  assumes ok: "gateway_ok r b g" and closed: "cn_closed (conn i g)"
  shows "gateway_ok r b (unbind_session i g)"
proof (cases "cn_account_id (conn i g)")
  case (Some a)
  define sessions where "sessions = (case og_account_sessions g a of
      None \<Rightarrow> og_account_sessions g
    | Some is \<Rightarrow> (og_account_sessions g)(a := (if filter (\<lambda>j. j \<noteq> i) is = [] then None else Some (filter (\<lambda>j. j \<noteq> i) is))))"
  define owners where "owners = (\<lambda>k. if og_order_owner g k = Some i then None else og_order_owner g k)"
  have u: "unbind_session i g = g\<lparr>og_account_sessions := sessions, og_order_owner := owners\<rparr>"
    using Some by (simp add: unbind_session_def sessions_def owners_def Let_def cong: if_cong split: option.split)
  have sub: "\<exists>is'. og_account_sessions g a' = Some is' \<and> set is \<subseteq> set is'" if "sessions a' = Some is" for a' "is"
    using that by (auto simp: sessions_def split: option.splits if_splits)
  have keep: "\<exists>is'. sessions a' = Some is' \<and> j \<in> set is'" if "og_account_sessions g a' = Some is" "j \<in> set is" "j \<noteq> i" for a' "is" j
    using that by (auto simp: sessions_def filter_empty_conv split: option.splits)
  show ?thesis unfolding u
  proof (rule gateway_okI)
    fix a' "is" j assume "og_account_sessions (g\<lparr>og_account_sessions := sessions, og_order_owner := owners\<rparr>) a' = Some is" "j \<in> set is"
    then obtain is' where is': "og_account_sessions g a' = Some is'" "j \<in> set is'" using sub [of a' "is"] by auto
    then show "j < length (og_connections (g\<lparr>og_account_sessions := sessions, og_order_owner := owners\<rparr>)) \<and> b j = Some a'"
      using gateway_okD(2) [OF ok is'] by simp
    fix ms assume "og_pending_reports (g\<lparr>og_account_sessions := sessions, og_order_owner := owners\<rparr>) a' = Some ms"
    then show "cn_closed (conn j (g\<lparr>og_account_sessions := sessions, og_order_owner := owners\<rparr>))"
      using gateway_okD(4) [OF ok _ is', of ms] by (simp add: conn_def)
  next
    fix j a' assume j: "j < length (og_connections (g\<lparr>og_account_sessions := sessions, og_order_owner := owners\<rparr>))" "b j = Some a'"
      "\<not> cn_closed (conn j (g\<lparr>og_account_sessions := sessions, og_order_owner := owners\<rparr>))"
    then have "\<not> cn_closed (conn j g)" by (simp add: conn_def)
    then have "j \<noteq> i" and "\<exists>is. og_account_sessions g a' = Some is \<and> j \<in> set is"
      using closed gateway_okD(8) [OF ok, of j a'] j by auto
    then show "\<exists>is. og_account_sessions (g\<lparr>og_account_sessions := sessions, og_order_owner := owners\<rparr>) a' = Some is \<and> j \<in> set is"
      using keep by auto
  qed (use gateway_okD [OF ok] in \<open>auto simp: owners_def conn_def split: if_splits\<close>)
qed (use ok in \<open>simp add: unbind_session_def\<close>)

lemma unbind_frame [simp]:
  "og_connections (unbind_session i g) = og_connections g" "conn j (unbind_session i g) = conn j g"
  by (auto simp: unbind_session_def Let_def conn_def split: option.split)

lemma finish_close_ok:
  assumes "gateway_ok r b g" "cn_closed (conn i g)"
  shows "gateway_ok r b (finish_close i added g)" "conn j (finish_close i added g) = conn j g"
    "og_connections (finish_close i added g) = og_connections g"
proof -
  show "gateway_ok r b (finish_close i added g)"
    unfolding finish_close_def maybe_resume_listen_def
    by (auto intro: gateway_ok_frame [OF unbind_session_ok [OF assms]])
  show "conn j (finish_close i added g) = conn j g" "og_connections (finish_close i added g) = og_connections g"
    by (auto simp: finish_close_def maybe_resume_listen_def)
qed

lemma live_session:
  assumes "gateway_ok r b g" "live_session a g = Some i"
  shows "i < length (og_connections g)" "b i = Some a" "\<not> cn_closed (conn i g)"
  using assms gateway_okD(2) [OF assms(1), of a _ i]
  by (auto simp: live_session_def find_Some_iff2 dest: nth_mem split: option.splits) (metis find_Some_iff nth_mem)+

lemma no_live_session:
  "live_session a g = None \<Longrightarrow> og_account_sessions g a = Some is \<Longrightarrow> i \<in> set is \<Longrightarrow> cn_closed (conn i g)"
  by (auto simp: live_session_def find_None_iff)

lemma route_target:
  assumes "gateway_ok r b g" "route_target k g = Some i"
  shows "i < length (og_connections g)" "b i = Some (ok_account_id k)" "\<not> cn_closed (conn i g)"
  using assms gateway_okD(1) [OF assms(1), of k] live_session [OF assms(1)]
  by (auto simp: route_target_def split: option.splits if_splits)

lemma route_report_ok:
  assumes ok: "gateway_ok r b g" and m: "account_of_message m = ok_account_id k"
    and w: "\<forall>i \<in> set wake. i < length (og_connections g)" and rep: "route_report (k, m) (wake, g) = Some (wake', g')"
  shows "keeps r b g g'" "\<forall>i \<in> set wake'. i < length (og_connections g)"
proof -
  have "keeps r b g g' \<and> (\<forall>i \<in> set wake'. i < length (og_connections g))"
  proof (cases "route_target k g")
    case None
    let ?a = "ok_account_id k"
    have g': "g' = retain ?a m g" "wake' = wake" using rep None by (simp_all add: route_report_def)
    have none: "live_session ?a g = None" using None by (auto simp: route_target_def split: option.splits if_splits)
    have "gateway_ok r b (retain ?a m g)"
    proof (cases "go_pending_report_capacity (og_options g) = 0")
      case True
      then show ?thesis using ok by (simp add: retain_def)
    next
      case False
      let ?p = "case og_pending_reports g ?a of None \<Rightarrow> [] | Some p \<Rightarrow> p" and ?cap = "go_pending_report_capacity (og_options g)"
      let ?q = "(if ?cap \<le> length ?p then tl ?p else ?p) @ [m]"
      have p: "\<forall>x \<in> set ?p. account_of_message x = ?a" "length ?p \<le> ?cap"
        using gateway_okD(3) [OF ok, of ?a] by (cases "og_pending_reports g ?a"; simp)+
      have sub: "(\<forall>x \<in> set ((if c \<le> length p then tl p else p) @ [m]). account_of_message x = a) \<and>
          length ((if c \<le> length p then tl p else p) @ [m]) \<le> c"
        if "\<forall>x \<in> set p. account_of_message x = a" "length p \<le> c" "c \<noteq> 0" "account_of_message m = a" for p :: "Message list" and a c
        using that set_tl_subset [of p] by auto
      have q: "(\<forall>x \<in> set ?q. account_of_message x = ?a) \<and> length ?q \<le> ?cap" by (rule sub [OF p False m])
      have g1: "retain ?a m g = g\<lparr>og_pending_reports := (og_pending_reports g)(?a \<mapsto> ?q)\<rparr>"
        using False by (simp add: retain_def Let_def)
      show ?thesis unfolding g1
      proof (rule gateway_okI)
        fix a ms assume "og_pending_reports (g\<lparr>og_pending_reports := (og_pending_reports g)(?a \<mapsto> ?q)\<rparr>) a = Some ms"
        then have "a = ?a \<and> ms = ?q \<or> a \<noteq> ?a \<and> og_pending_reports g a = Some ms" by (auto split: if_splits)
        then show "(\<forall>m \<in> set ms. account_of_message m = a) \<and>
            length ms \<le> go_pending_report_capacity (og_options (g\<lparr>og_pending_reports := (og_pending_reports g)(?a \<mapsto> ?q)\<rparr>))"
          using q gateway_okD(3) [OF ok, of a ms] by auto
      next
        fix a ms "is" j assume "og_pending_reports (g\<lparr>og_pending_reports := (og_pending_reports g)(?a \<mapsto> ?q)\<rparr>) a = Some ms"
          "og_account_sessions (g\<lparr>og_pending_reports := (og_pending_reports g)(?a \<mapsto> ?q)\<rparr>) a = Some is" "j \<in> set is"
        then show "cn_closed (conn j (g\<lparr>og_pending_reports := (og_pending_reports g)(?a \<mapsto> ?q)\<rparr>))"
          using no_live_session [OF none, of "is" j] gateway_okD(4) [OF ok, of a ms "is" j] by (auto split: if_splits)
      qed (use gateway_okD [OF ok] in auto)
    qed
    then show ?thesis using w by (auto simp: g' retain_def Let_def keeps_def same_sessions_def)
  next
    case (Some i)
    note t = route_target [OF ok Some]
    obtain p q where q: "try_push m (cn_outbound (conn i g)) = Some (p, q)" "g' = upd_conn i (\<lambda>c. c\<lparr>cn_outbound := q\<rparr>) g"
      "set wake' \<subseteq> insert i (set wake)"
      using rep Some by (auto simp: route_report_def deliver_def subset_insertI split: Option.bind_splits if_splits)
    have c: "conn_ok (r i) (b i) (conn i g)" by (rule gateway_okD(5) [OF ok t(1)])
    then have "queue_ok (cn_outbound (conn i g))" by (simp add: conn_ok_def)
    note p = pushed [OF this q(1)]
    have "keeps r b g g'" unfolding q(2)
      by (rule keeps_upd [OF ok]) (use c p t(2) m in \<open>auto simp: conn_ok_def split: if_splits\<close>)
    then show ?thesis using q t(1) w by auto
  qed
  then show "keeps r b g g'" "\<forall>i \<in> set wake'. i < length (og_connections g)" by blast+
qed

lemma update_order_ownership_ok:
  assumes "gateway_ok r b g"
  shows "keeps r b g (update_order_ownership l ev g)"
proof -
  have d: "gateway_ok r b (disown k h)" if "gateway_ok r b h" for k h
    using that by (auto simp: disown_def gateway_ok_def)
  have o: "gateway_ok r b (h\<lparr>og_order_owner := (og_order_owner h)(k' \<mapsto> i)\<rparr>)"
    if h: "gateway_ok r b h" and k: "og_order_owner h k = Some i" "ok_account_id k' = ok_account_id k" for h k k' i
  proof (rule gateway_okI)
    show "j < length (og_connections (h\<lparr>og_order_owner := (og_order_owner h)(k' \<mapsto> i)\<rparr>)) \<and> b j = Some (ok_account_id x)"
      if "og_order_owner (h\<lparr>og_order_owner := (og_order_owner h)(k' \<mapsto> i)\<rparr>) x = Some j" for x j
      using that gateway_okD(1) [OF h, of x j] gateway_okD(1) [OF h k(1)] k(2) by (auto split: if_splits)
  qed (use gateway_okD(2-) [OF h] in auto)
  have "gateway_ok r b (update_order_ownership l ev g)"
    using assms d o by (cases ev) (auto simp: Let_def order_key_of_def split: option.split)
  moreover have c: "og_connections (disown k h) = og_connections h" "og_options (disown k h) = og_options h" for k h
    by (simp_all add: disown_def)
  then have "og_connections (update_order_ownership l ev g) = og_connections g \<and> og_options (update_order_ownership l ev g) = og_options g"
    by (cases ev) (auto simp: Let_def split: option.split)
  ultimately show ?thesis by (simp add: keeps_def same_sessions_def conn_def)
qed

text \<open>Where the matching thread is: two reports and two connections to wake at most.\<close>

fun routing_ok :: "OrderEntryGateway \<Rightarrow> RoutingStage \<Rightarrow> bool" where
  "routing_ok g Routed \<longleftrightarrow> True"
| "routing_ok g (Delivering rs wake ev l) \<longleftrightarrow> (\<forall>(k, m) \<in> set rs. account_of_message m = ok_account_id k) \<and>
     (\<forall>i \<in> set wake. i < length (og_connections g)) \<and> length wake + length rs \<le> 2"
| "routing_ok g (Waking wake) \<longleftrightarrow> (\<forall>i \<in> set wake. i < length (og_connections g))"
| "routing_ok g (WakePushing i wake) \<longleftrightarrow> i < length (og_connections g) \<and> (\<forall>i \<in> set wake. i < length (og_connections g))"
| "routing_ok g (WakeFlagging i wake) \<longleftrightarrow> i < length (og_connections g) \<and> (\<forall>i \<in> set wake. i < length (og_connections g))"

lemma routing_ok_more: "routing_ok g st \<Longrightarrow> length (og_connections g) \<le> length (og_connections g') \<Longrightarrow> routing_ok g' st"
  by (cases st) auto

lemma few_reports: "length (to_execution_reports ev) \<le> 2"
  by (cases ev) simp_all

lemma start_routing_ok: "routing_ok g (start_routing ev l)"
  using report_account few_reports [of ev] by (auto simp: start_routing_def Let_def)

lemma report_turn_ok:
  assumes ok: "gateway_ok r b g" and st: "routing_ok g st" and t: "report_turn st g = Some (st', g')"
  shows "keeps r b g g'" "routing_ok g' st'"
proof -
  have "keeps r b g g' \<and> routing_ok g' st'"
  proof (cases "(st, g)" rule: report_turn.cases)
    case (2 x rs wake ev l h)
    obtain k m where x: "x = (k, m)" by (cases x)
    obtain wake' where w: "route_report (k, m) (wake, g) = Some (wake', g')" "st' = Delivering rs wake' ev l"
      using t 2 x by (auto split: Option.bind_splits)
    have "account_of_message m = ok_account_id k" "\<forall>i \<in> set wake. i < length (og_connections g)" using st 2 x by auto
    note s = route_report_ok [OF ok this w(1)]
    then show ?thesis using st 2 w keeps_length [OF s(1)] route_report_wakes [OF w(1)] by auto
  next
    case (3 wake ev l h)
    then show ?thesis using t st update_order_ownership_ok [OF ok, of l ev] keeps_length by fastforce
  next
    case (5 i wake h)
    then show ?thesis using t st marks_keep(1) [OF ok, of i] keeps_length [OF marks_keep(1) [OF ok, of i]]
      by (auto split: prod.splits if_splits)
  next
    case (6 i wake h)
    then obtain p where p: "push_mark i g = Some (p, g')" "st' = (if p then Waking wake else WakeFlagging i wake)"
      using t by (auto split: Option.bind_splits)
    have "keeps r b g g'" by (rule marks_keep(2) [OF ok _ p(1)]) (use st 6 in simp)
    then show ?thesis using st 6 p keeps_length by auto
  next
    case (7 i wake h)
    then show ?thesis using t st marks_keep(3) [OF ok] keeps_length [OF marks_keep(3) [OF ok]] by auto
  qed (use t ok keeps_refl [OF ok] st in auto)
  then show "keeps r b g g'" "routing_ok g' st'" by blast+
qed

section \<open>Writing\<close>

lemma pop_outbound_ok:
  assumes ok: "gateway_ok r b g" and i: "i < length (og_connections g)" and p: "pop_outbound i g = Some (x, g')"
  shows "keeps r b g g' \<and> (\<forall>m. x = Some m \<longrightarrow> refuses (r i) (b i) m \<or> b i = Some (account_of_message m))"
proof -
  have c: "conn_ok (r i) (b i) (conn i g)" by (rule gateway_okD(5) [OF ok i])
  show ?thesis
  proof (cases "cn_replay_backlog (conn i g)")
    case (Cons m ms)
    let ?f = "\<lambda>c. c\<lparr>cn_replay_backlog := tl (cn_replay_backlog c)\<rparr>"
    have "keeps r b g (upd_conn i ?f g)" by (rule keeps_upd [OF ok]) (use c Cons in \<open>auto simp: conn_ok_def\<close>)
    then show ?thesis using p Cons c i by (auto simp: pop_outbound_def conn_ok_def)
  next
    case Nil
    obtain s q where q: "try_pop (cn_session_outbound (conn i g)) = Some (s, q)"
      and rest: "(if s \<noteq> None then Some (s, upd_conn i (\<lambda>c. c\<lparr>cn_session_outbound := q\<rparr>) g)
        else do { (m, q') \<leftarrow> try_pop (cn_outbound (conn i (upd_conn i (\<lambda>c. c\<lparr>cn_session_outbound := q\<rparr>) g)));
                  Some (m, upd_conn i (\<lambda>c. c\<lparr>cn_outbound := q'\<rparr>) (upd_conn i (\<lambda>c. c\<lparr>cn_session_outbound := q\<rparr>) g)) }) = Some (x, g')"
      using p Nil by (auto simp: pop_outbound_def Let_def split: Option.bind_splits)
    have "queue_ok (cn_session_outbound (conn i g))" using c by (simp add: conn_ok_def)
    note p1 = popped [OF this q]
    let ?g = "upd_conn i (\<lambda>c. c\<lparr>cn_session_outbound := q\<rparr>) g"
    have c1: "conn_ok (r i) (b i) ((conn i g)\<lparr>cn_session_outbound := q\<rparr>)" using c p1 by (auto simp: conn_ok_def)
    have k1: "keeps r b g ?g" by (rule keeps_upd [OF ok]) (use c1 in simp_all)
    then have ok1: "gateway_ok r b ?g" by (simp add: keeps_def)
    show ?thesis
    proof (cases s)
      case (Some m)
      then show ?thesis using rest k1 c p1 by (auto simp: conn_ok_def)
    next
      case None
      obtain q' where q': "try_pop (cn_outbound (conn i g)) = Some (x, q')" "g' = upd_conn i (\<lambda>c. c\<lparr>cn_outbound := q'\<rparr>) ?g"
        using rest None i by (auto split: Option.bind_splits)
      have "queue_ok (cn_outbound (conn i g))" using c by (simp add: conn_ok_def)
      note p2 = popped [OF this q'(1)]
      have "keeps r b ?g g'" unfolding q'(2)
        by (rule keeps_upd [OF ok1]) (use c1 p2 i in \<open>auto simp: conn_ok_def\<close>)
      then show ?thesis using keeps_trans [OF k1] c p2 by (auto simp: conn_ok_def)
    qed
  qed
qed

lemma queue_message_ok:
  assumes "conn_ok R b c" "refuses R b m \<or> b = Some (account_of_message m)"
  shows "conn_ok R b (queue_message m c)"
  using assms oe_encode_append [of m "cn_write_buf c"] by (auto simp: conn_ok_def queue_message_def)

lemma batch_fields [simp]:
  "cn_closed (queue_message m c) = cn_closed c" "cn_account_id (queue_message m c) = cn_account_id c"
  "cn_closed (clear_batch c) = cn_closed c" "cn_account_id (clear_batch c) = cn_account_id c"
  by (simp_all add: queue_message_def clear_batch_def)

lemma clear_batch_ok: "conn_ok R b c \<Longrightarrow> conn_ok R b (clear_batch c)"
  by (simp add: conn_ok_def clear_batch_def)

lemma enable_write_keeps:
  assumes "gateway_ok r b g"
  shows "enable_write i md g = (close, g') \<Longrightarrow> keeps r b g g'" "disable_write i md g = (close, g') \<Longrightarrow> keeps r b g g'"
proof -
  have "keeps r b g (upd_conn i (\<lambda>c. c\<lparr>cn_write_interest := x\<rparr>) g)" for x by (rule keeps_upd [OF assms]) simp_all
  then show "enable_write i md g = (close, g') \<Longrightarrow> keeps r b g g'" "disable_write i md g = (close, g') \<Longrightarrow> keeps r b g g'"
    using keeps_refl [OF assms] by (auto simp: enable_write_def disable_write_def split: if_splits)
qed

lemma queued_keeps:
  assumes "gateway_ok r b g" "refuses (r i) (b i) m \<or> b i = Some (account_of_message m)"
  shows "keeps r b g (upd_conn i (queue_message m) g)" "keeps r b g (upd_conn i (\<lambda>c. queue_message m (clear_batch c)) g)"
  by (rule keeps_upd [OF assms(1)], use assms(2) queue_message_ok clear_batch_ok in simp_all)+

lemma write_turn_keeps:
  assumes ok: "gateway_ok r b g" and i: "i < length (og_connections g)" and w: "write_turn x md i st g = Some (w, g')"
  shows "keeps r b g g'"
proof (cases st)
  case WriteLoop
  have c: "conn_ok (r i) (b i) (conn i g)" by (rule gateway_okD(5) [OF ok i])
  let ?enable = "\<lambda>g. case enable_write i md g of (close, g) \<Rightarrow> (if close then CloseIt else Return, g)"
  have e: "keeps r b h g'" if "gateway_ok r b h" "?enable h = (w, g')" for h
    using that enable_write_keeps(1) [OF that(1)] by (auto split: prod.splits)
  show ?thesis
  proof (cases "cn_closed (conn i g)")
    case True
    then show ?thesis using w ok WriteLoop by (simp add: keeps_refl)
  next
    case open_conn: False
    show ?thesis
    proof (cases "cn_write_offset (conn i g) < length (cn_write_buf (conn i g))")
      case True
      show ?thesis
      proof (cases x)
        case (Wrote n)
        let ?f = "\<lambda>c. c\<lparr>cn_write_offset := cn_write_offset c + n\<rparr>"
        consider "n = 0" | "n \<noteq> 0" "cn_write_offset (conn i g) + n < length (cn_write_buf (conn i g))"
          | "n \<noteq> 0" "\<not> cn_write_offset (conn i g) + n < length (cn_write_buf (conn i g))" by blast
        then show ?thesis
        proof cases
          case 1
          then show ?thesis using w ok True open_conn Wrote WriteLoop by (simp add: keeps_refl)
        next
          case 2
          have k: "keeps r b g (upd_conn i ?f g)" by (rule keeps_upd [OF ok]) (use c 2 in \<open>simp_all add: conn_ok_def\<close>)
          have "?enable (upd_conn i ?f g) = (w, g')" using w True open_conn Wrote 2 i WriteLoop by (simp add: Let_def)
          from e [OF _ this] k have "keeps r b (upd_conn i ?f g) g'" by (simp add: keeps_def)
          then show ?thesis by (rule keeps_trans [OF k])
        next
          case 3
          have "g' = upd_conn i (\<lambda>c. clear_batch (?f c)) g"
            using w True open_conn Wrote 3 i WriteLoop by (simp add: Let_def upd_conn_twice)
          then show ?thesis by (auto intro!: keeps_upd [OF ok] simp: conn_ok_def clear_batch_def)
        qed
      next
        case WriteBlocked
        then show ?thesis using e [OF ok] w True open_conn WriteLoop by (simp add: Let_def)
      next
        case WriteFailed
        then show ?thesis using w ok True open_conn WriteLoop by (simp add: keeps_refl)
      qed
    next
      case False
      obtain m g1 where g1: "pop_outbound i g = Some (m, g1)"
        "(case m of None \<Rightarrow> g' = g1 | Some m \<Rightarrow> g' = upd_conn i (\<lambda>c. queue_message m (clear_batch c)) g1)"
        using w False open_conn WriteLoop by (auto simp: Let_def split: Option.bind_splits option.splits)
      have p: "keeps r b g g1" "gateway_ok r b g1" "\<forall>x. m = Some x \<longrightarrow> refuses (r i) (b i) x \<or> b i = Some (account_of_message x)"
        using pop_outbound_ok [OF ok i g1(1)] by (blast, simp add: keeps_def, blast)
      then show ?thesis using g1(2) keeps_trans [OF p(1)] queued_keeps(2) [OF p(2)] by (cases m) auto
    qed
  qed
next
  case (Filling n)
  show ?thesis
  proof (cases n)
    case 0
    then show ?thesis using w Filling ok by (simp add: keeps_refl)
  next
    case (Suc k)
    obtain m g1 where g1: "pop_outbound i g = Some (m, g1)"
      "(case m of None \<Rightarrow> g' = g1 | Some m \<Rightarrow> g' = upd_conn i (queue_message m) g1)"
      using w Filling Suc by (auto split: Option.bind_splits option.splits)
    have p: "keeps r b g g1" "gateway_ok r b g1" "\<forall>x. m = Some x \<longrightarrow> refuses (r i) (b i) x \<or> b i = Some (account_of_message x)"
      using pop_outbound_ok [OF ok i g1(1)] by (blast, simp add: keeps_def, blast)
    then show ?thesis using g1(2) keeps_trans [OF p(1)] queued_keeps(1) [OF p(2)] by (cases m) auto
  qed
next
  case Disabling
  then show ?thesis using w enable_write_keeps(2) [OF ok] by (auto split: prod.splits)
qed

section \<open>Accepting, closing and the marked ones\<close>

lemma new_queue:
  assumes "unat n \<le> 2 ^ 63" "new_spsc_queue n = Some q"
  shows "queue_ok q" "queue_contents q = []"
proof -
  obtain q' :: "'a SpscQueue" and k where "new_spsc_queue n = Some q'" "ring q' k 0 False None []"
    by (rule new_ring [OF assms(1)]) (rule that)
  then show "queue_ok q" "queue_contents q = []" using assms(2) ring_contents(1) by (auto simp: queue_ok_def)
qed

lemma new_connection_ok:
  assumes "unat n \<le> 2 ^ 63" "new_connection session n = Some c"
  shows "conn_ok R b c" "cn_account_id c = None"
  using assms by (auto simp: new_connection_def conn_ok_def new_queue split: Option.bind_splits)

lemma gateway_ok_appended:
  assumes ok: "gateway_ok r b g" and c: "conn_ok (r (length (og_connections g))) None c" and b: "b (length (og_connections g)) = None"
  shows "gateway_ok r b (g\<lparr>og_next_session_id := n, og_connections := og_connections g @ [c]\<rparr>)"
proof -
  let ?g = "g\<lparr>og_next_session_id := n, og_connections := og_connections g @ [c]\<rparr>"
  have new: "conn j ?g = (if j < length (og_connections g) then conn j g else c)" if "j < length (og_connections ?g)" for j
    using that by (auto simp: conn_def nth_append less_Suc_eq)
  show ?thesis
  proof (rule gateway_okI)
    show "cn_closed (conn j ?g)" if "og_pending_reports ?g a = Some ms" "og_account_sessions ?g a = Some is" "j \<in> set is" for a ms "is" j
      using gateway_okD(2) [OF ok, of a "is" j] gateway_okD(4) [OF ok, of a ms "is" j] that new [of j] by simp
    show "conn_ok (r j) (b j) (conn j ?g)" if "j < length (og_connections ?g)" for j
      using gateway_okD(5) [OF ok, of j] new [OF that] c b that by (auto simp: less_Suc_eq)
    show "\<exists>is. og_account_sessions ?g a = Some is \<and> j \<in> set is"
      if "j < length (og_connections ?g)" "b j = Some a" "\<not> cn_closed (conn j ?g)" for j a
      using gateway_okD(8) [OF ok, of j a] new [OF that(1)] b that by (auto simp: less_Suc_eq)
  qed (use gateway_okD [OF ok] in \<open>auto simp: less_Suc_eq\<close>)
qed

lemma accept_one_ok:
  assumes ok: "gateway_ok r b g" and cap: "unat (go_outbound_queue_capacity (og_options g)) \<le> 2 ^ 63"
    and b: "b (length (og_connections g)) = None" and a: "accept_one x g = Some g'"
  shows "gateway_ok r b g' \<and> og_options g' = og_options g \<and>
    (og_connections g' = og_connections g \<or> (\<exists>c. og_connections g' = og_connections g @ [c] \<and> cn_account_id c = None))"
proof -
  have paused: "gateway_ok r b (pause_listen g) \<and> og_options (pause_listen g) = og_options g \<and> og_connections (pause_listen g) = og_connections g"
    using gateway_ok_frame [OF ok, of "g\<lparr>og_listen_armed := False\<rparr>"] ok by (simp add: pause_listen_def)
  show ?thesis
  proof (cases x)
    case (Accepted nb added)
    show ?thesis
    proof (cases "nb \<and> added")
      case True
      then obtain c where c: "new_connection (og_next_session_id g) (go_outbound_queue_capacity (og_options g)) = Some c"
        "g' = g\<lparr>og_next_session_id := og_next_session_id g + 1, og_connections := og_connections g @ [c]\<rparr>"
        using a Accepted by (auto split: Option.bind_splits)
      then show ?thesis using gateway_ok_appended [OF ok new_connection_ok(1) [OF cap c(1)] b] new_connection_ok(2) [OF cap c(1)] by auto
    next
      case False
      then show ?thesis using a Accepted paused by (auto split: if_splits Option.bind_splits)
    qed
  qed (use a ok paused in auto)
qed

lemma set_closed_keeps: "gateway_ok r b g \<Longrightarrow> keeps r b g (set_closed i g)"
  unfolding set_closed_def by (rule keeps_upd) simp_all

lemma closed_now [simp]: "i < length (og_connections g) \<Longrightarrow> cn_closed (conn i (set_closed i g))"
  by (simp add: set_closed_def)

lemma popped_mark_keeps:
  assumes ok: "gateway_ok r b g" and p: "try_pop (og_dirty g) = Some (Some i, q)"
  shows "keeps r b g (g\<lparr>og_dirty := q\<rparr>)" "i < length (og_connections g)"
proof -
  note c = popped [OF gateway_okD(6) [OF ok] p]
  have "gateway_ok r b (g\<lparr>og_dirty := q\<rparr>)" by (rule gateway_okI) (use gateway_okD [OF ok] c in auto)
  then show "keeps r b g (g\<lparr>og_dirty := q\<rparr>)" by (simp add: keeps_def same_sessions_def)
  show "i < length (og_connections g)" using gateway_okD(7) [OF ok] c by auto
qed

lemma unmarked_keeps:
  assumes "gateway_ok r b g"
  shows "keeps r b g (snd (unlist i g))" "keeps r b g (snd (sweep_one i g))"
  by (simp_all add: unlist_def sweep_one_def Let_def keeps_upd [OF assms])

section \<open>The invariant of the system\<close>

fun io_binds :: "IoThread \<Rightarrow> nat \<Rightarrow> AccountId option" where
  "io_binds (Handling (Binding j a m c)) i = (if i = j then Some a else None)"
| "io_binds _ i = None"

lemma binds_nothing [simp]:
  "io_binds (Handling Finished) = Map.empty" "io_binds (Handling (Claiming i a m c)) = Map.empty"
  "io_binds (Handling (Submitting i c)) = Map.empty" "io_binds (Handling (Notifying i onward)) = Map.empty"
  "io_binds (Handling (Pushing i onward)) = Map.empty" "io_binds (Handling (Flagging i onward)) = Map.empty"
  "io_binds (Writing i w) = Map.empty" "io_binds (Popped i) = Map.empty" "io_binds (Enabling i io) = Map.empty"
  "io_binds (Sweeping i) = Map.empty" "io_binds (Closing i io) = Map.empty"
  by (rule ext; simp)+

definition bound_to :: "GatewaySystem \<Rightarrow> nat \<Rightarrow> AccountId option" where
  \<comment> \<open>the account of a connection, from the moment it can be found in the session table\<close>
  "bound_to s i =
     (if i < length (og_connections (gs_gateway s))
      then (case cn_account_id (conn i (gs_gateway s)) of Some a \<Rightarrow> Some a | None \<Rightarrow> io_binds (gs_io s) i) else None)"

definition sent_on :: "nat \<Rightarrow> (nat \<times> 'a) list \<Rightarrow> 'a list" where
  "sent_on i xs = map snd (filter (\<lambda>x. fst x = i) xs)"

lemma sent_on_simps [simp]:
  "sent_on i [] = []" "sent_on i (xs @ ys) = sent_on i xs @ sent_on i ys"
  "sent_on i ((j, x) # xs) = (if j = i then x # sent_on i xs else sent_on i xs)"
  by (simp_all add: sent_on_def)

definition received_on :: "GatewaySystem \<Rightarrow> nat \<Rightarrow> Message set" where
  "received_on s i = set (sent_on i (gs_received s))"

fun own_commands :: "AccountId option \<Rightarrow> Message list \<Rightarrow> ExchangeCommand list" where
  \<comment> \<open>the commands of the requests that are for this account\<close>
  "own_commands b [] = []"
| "own_commands b (m # ms) =
     (case to_command m of
        None \<Rightarrow> own_commands b ms
      | Some c \<Rightarrow> if b = Some (account_of_message m) then c # own_commands b ms else own_commands b ms)"

lemma own_commands_append [simp]: "own_commands b (ms @ ms') = own_commands b ms @ own_commands b ms'"
  by (induction ms) (auto split: option.split)

lemma own_commands_none: "\<forall>m \<in> set ms. to_command m = None \<Longrightarrow> own_commands b ms = []"
  by (induction ms) auto

fun stage_commands :: "MessageStage \<Rightarrow> (nat \<times> ExchangeCommand) list" where
  \<comment> \<open>what is still to be submitted\<close>
  "stage_commands Finished = []"
| "stage_commands (Binding i a m c) = [(i, c)]"
| "stage_commands (Claiming i a m c) = [(i, c)]"
| "stage_commands (Submitting i c) = [(i, c)]"
| "stage_commands (Notifying i onward) = stage_commands onward"
| "stage_commands (Pushing i onward) = stage_commands onward"
| "stage_commands (Flagging i onward) = stage_commands onward"

fun io_commands :: "IoThread \<Rightarrow> (nat \<times> ExchangeCommand) list" where
  "io_commands (Handling st) = stage_commands st"
| "io_commands _ = []"

lemma message_turn_commands: "message_turn st g = Some (st', g') \<Longrightarrow> submits st @ stage_commands st' = stage_commands st"
  by (cases st) (auto split: prod.splits Option.bind_splits if_splits)

fun message_ok :: "OrderEntryGateway \<Rightarrow> MessageStage \<Rightarrow> bool" where
  "message_ok g Finished \<longleftrightarrow> True"
| "message_ok g (Binding i a m c) \<longleftrightarrow> i < length (og_connections g) \<and> cn_account_id (conn i g) = None"
| "message_ok g (Claiming i a m c) \<longleftrightarrow> i < length (og_connections g) \<and> cn_account_id (conn i g) = Some a"
| "message_ok g (Submitting i c) \<longleftrightarrow> i < length (og_connections g)"
| "message_ok g (Notifying i onward) \<longleftrightarrow> i < length (og_connections g) \<and> message_ok g onward \<and> io_binds (Handling onward) = Map.empty"
| "message_ok g (Pushing i onward) \<longleftrightarrow> i < length (og_connections g) \<and> message_ok g onward \<and> io_binds (Handling onward) = Map.empty"
| "message_ok g (Flagging i onward) \<longleftrightarrow> i < length (og_connections g) \<and> message_ok g onward \<and> io_binds (Handling onward) = Map.empty"

fun resumes :: "IoThread \<Rightarrow> bool" where
  \<comment> \<open>where the I/O thread goes on when a connection is watched or closed\<close>
  "resumes (Handling st) \<longleftrightarrow> st = Finished"
| "resumes (Sweeping i) \<longleftrightarrow> True"
| "resumes _ \<longleftrightarrow> False"

fun io_ok :: "OrderEntryGateway \<Rightarrow> IoThread \<Rightarrow> bool" where
  "io_ok g (Handling st) \<longleftrightarrow> message_ok g st"
| "io_ok g (Writing i st) \<longleftrightarrow> i < length (og_connections g)"
| "io_ok g (Popped i) \<longleftrightarrow> i < length (og_connections g)"
| "io_ok g (Enabling i onward) \<longleftrightarrow> i < length (og_connections g) \<and> resumes onward"
| "io_ok g (Sweeping i) \<longleftrightarrow> True"
| "io_ok g (Closing i onward) \<longleftrightarrow> i < length (og_connections g) \<and> cn_closed (conn i g) \<and> resumes onward"

definition accounted :: "GatewaySystem \<Rightarrow> bool" where
  \<comment> \<open>the submitted commands and the one in hand are the requests received for the account of the connection\<close>
  "accounted s \<longleftrightarrow> (\<forall>i. sent_on i (gs_submitted s @ io_commands (gs_io s)) = own_commands (bound_to s i) (sent_on i (gs_received s)) \<and>
     (bound_to s i = None \<longrightarrow> (\<forall>m \<in> set (sent_on i (gs_received s)). to_command m = None)))"

definition system_ok :: "GatewaySystem \<Rightarrow> bool" where
  "system_ok s \<longleftrightarrow> gateway_ok (received_on s) (bound_to s) (gs_gateway s) \<and> io_ok (gs_gateway s) (gs_io s) \<and>
     routing_ok (gs_gateway s) (gs_stage s) \<and> accounted s \<and> unat (go_outbound_queue_capacity (og_options (gs_gateway s))) \<le> 2 ^ 63"

lemma system_okD:
  assumes "system_ok s"
  shows "gateway_ok (received_on s) (bound_to s) (gs_gateway s)" "io_ok (gs_gateway s) (gs_io s)"
    "routing_ok (gs_gateway s) (gs_stage s)" "accounted s" "unat (go_outbound_queue_capacity (og_options (gs_gateway s))) \<le> 2 ^ 63"
  using assms by (auto simp: system_ok_def)

lemma command_account: "to_command m = Some c \<Longrightarrow> account_of_command c = account_of_message m"
  by (cases m) auto

lemma message_ok_same: "same_sessions g g' \<Longrightarrow> message_ok g st \<Longrightarrow> message_ok g' st"
  by (induction st) (simp_all add: same_sessions_def)

lemma io_ok_same: "same_sessions g g' \<Longrightarrow> io_ok g io \<Longrightarrow> io_ok g' io"
proof (cases io)
  case (Handling st)
  then show "same_sessions g g' \<Longrightarrow> io_ok g io \<Longrightarrow> io_ok g' io" by (auto intro: message_ok_same)
qed (simp_all add: same_sessions_def)

lemma resumes_ok: "resumes io \<Longrightarrow> io_ok g io" "resumes io \<Longrightarrow> io_binds io = Map.empty" "resumes io \<Longrightarrow> io_commands io = []"
  by (cases io; simp)+

text \<open>Steps that leave the accounts alone.\<close>

lemma system_moved:
  assumes ok: "system_ok s" and k: "keeps (received_on s) (bound_to s) (gs_gateway s) g'"
    and io: "io_ok g' io'" "io_binds io' = io_binds (gs_io s)" and st: "routing_ok g' st'"
    and sub: "sub' @ io_commands io' = gs_submitted s @ io_commands (gs_io s)"
  shows "system_ok (s\<lparr>gs_gateway := g', gs_io := io', gs_stage := st', gs_routing := rs, gs_submitted := sub'\<rparr>)" (is "system_ok ?s")
proof -
  have "bound_to ?s i = bound_to s i" for i using k io(2) by (auto simp: bound_to_def keeps_def same_sessions_def split: option.split)
  then have b: "bound_to ?s = bound_to s" by (rule ext)
  have r: "received_on ?s = received_on s" by (simp add: received_on_def fun_eq_iff)
  have "accounted ?s" using system_okD(4) [OF ok] sub unfolding accounted_def b by simp
  then show ?thesis using ok k io st b r by (simp add: system_ok_def keeps_def)
qed

lemma system_same:
  assumes ok: "system_ok s" and k: "keeps (received_on s) (bound_to s) (gs_gateway s) g'"
  shows "system_ok (s\<lparr>gs_gateway := g'\<rparr>)"
  using system_moved [OF ok k, of "gs_io s" "gs_stage s" "gs_submitted s" "gs_routing s"] io_ok_same [of "gs_gateway s" g'] k
    routing_ok_more [OF system_okD(3) [OF ok], of g'] system_okD(2) [OF ok]
  by (simp add: keeps_def same_sessions_def)

lemma io_moved:
  assumes ok: "system_ok s" and k: "keeps (received_on s) (bound_to s) (gs_gateway s) g'"
    and io: "io_ok g' io'" "io_binds io' = io_binds (gs_io s)" "io_commands io' = io_commands (gs_io s)"
  shows "system_ok (s\<lparr>gs_gateway := g', gs_io := io'\<rparr>)"
  using system_moved [OF ok k io(1,2), of "gs_stage s" "gs_submitted s" "gs_routing s"] routing_ok_more [OF system_okD(3) [OF ok], of g'] io(3)
    keeps_length [OF k]
  by simp

text \<open>The steps of the I/O thread that do more.\<close>

lemma accept_step_ok:
  assumes ok: "system_ok s" and a: "accept_one x (gs_gateway s) = Some g"
  shows "system_ok (s\<lparr>gs_gateway := g\<rparr>)"
proof -
  let ?n = "length (og_connections (gs_gateway s))"
  have b: "bound_to s ?n = None" by (simp add: bound_to_def)
  note r = accept_one_ok [OF system_okD(1,5) [OF ok] b a]
  have old: "conn j g = conn j (gs_gateway s)" if "j < ?n" for j using r that by (auto simp: conn_def nth_append)
  have len: "?n \<le> length (og_connections g)" using r by auto
  have io: "io_ok g (gs_io s)"
  proof -
    have "message_ok g st" if "message_ok (gs_gateway s) st" for st using that len old by (induction st) auto
    then show ?thesis using system_okD(2) [OF ok] len old by (cases "gs_io s") auto
  qed
  have none: "io_binds (gs_io s) ?n = None"
    using system_okD(2) [OF ok] by (cases "(gs_io s, ?n)" rule: io_binds.cases) auto
  have "bound_to (s\<lparr>gs_gateway := g\<rparr>) j = bound_to s j" for j
  proof (cases "j < ?n")
    case True
    then show ?thesis using old [OF True] len by (simp add: bound_to_def split: option.split)
  next
    case False
    then have "j < length (og_connections g) \<Longrightarrow> j = ?n \<and> cn_account_id (conn j g) = None" using r by (auto simp: conn_def nth_append)
    then show ?thesis using False none by (auto simp: bound_to_def split: option.split)
  qed
  then have "bound_to (s\<lparr>gs_gateway := g\<rparr>) = bound_to s" by (rule ext)
  moreover have "received_on (s\<lparr>gs_gateway := g\<rparr>) = received_on s" by (simp add: received_on_def fun_eq_iff)
  ultimately show ?thesis using ok r io len routing_ok_more [OF system_okD(3) [OF ok] len] by (simp add: system_ok_def accounted_def)
qed

lemma take_frame_keeps: "gateway_ok r b g \<Longrightarrow> keeps r b g (take_frame i rest g)"
  unfolding take_frame_def by (rule keeps_upd) simp_all

lemma claim_frame [simp]:
  "og_connections (claim_order_ownership i a m g) = og_connections g" "conn j (claim_order_ownership i a m g) = conn j g"
  "og_options (claim_order_ownership i a m g) = og_options g"
  by (auto simp: claim_order_ownership_def conn_def split: option.split)

lemma bind_routes_frame [simp]:
  "length (og_connections (bind_routes i a g)) = length (og_connections g)" "og_options (bind_routes i a g) = og_options g"
  "cn_account_id (conn j (bind_routes i a g)) = cn_account_id (conn j g)" "cn_closed (conn j (bind_routes i a g)) = cn_closed (conn j g)"
  by (auto simp: bind_routes_def Let_def split: option.split)

lemma finish_close_keeps: "gateway_ok r b g \<Longrightarrow> cn_closed (conn i g) \<Longrightarrow> keeps r b g (finish_close i added g)"
  using finish_close_ok [where r = r and b = b and g = g and i = i and added = added]
  by (auto simp: keeps_def same_sessions_def) (auto simp: finish_close_def maybe_resume_listen_def unbind_session_def Let_def split: option.split)

lemma read_step_ok:
  assumes ok: "system_ok s" and io: "gs_io s = AtPoller" and i: "i < length (og_connections (gs_gateway s))"
    and st: "start_message i m (take_frame i rest (gs_gateway s)) = Some (st, g)"
  shows "system_ok (s\<lparr>gs_gateway := g, gs_io := Handling st, gs_received := gs_received s @ [(i, m)]\<rparr>)" (is "system_ok ?s")
proof -
  let ?h = "take_frame i rest (gs_gateway s)" and ?b = "cn_account_id (conn i (gs_gateway s))" and ?a = "account_of_message m"
  have more: "received_on s j \<subseteq> received_on ?s j" for j by (auto simp: received_on_def)
  have m: "m \<in> received_on ?s i" by (simp add: received_on_def)
  have ok0: "gateway_ok (received_on ?s) (bound_to s) (gs_gateway s)" by (rule gateway_ok_mono [OF system_okD(1) [OF ok] more])
  have t: "keeps (received_on ?s) (bound_to s) (gs_gateway s) ?h" by (rule take_frame_keeps [OF ok0])
  then have okt: "gateway_ok (received_on ?s) (bound_to s) ?h" and len: "length (og_connections ?h) = length (og_connections (gs_gateway s))"
    and acc: "\<And>j. cn_account_id (conn j ?h) = cn_account_id (conn j (gs_gateway s))"
    by (simp_all add: keeps_def same_sessions_def)
  have bi: "bound_to s i = ?b" using i io by (simp add: bound_to_def split: option.split)
  have accs: "accounted s" by (rule system_okD(4) [OF ok])
  have subs: "sent_on j (gs_submitted s) = own_commands (bound_to s j) (sent_on j (gs_received s))"
    "bound_to s j = None \<Longrightarrow> \<forall>m \<in> set (sent_on j (gs_received s)). to_command m = None" for j
    using accs io unfolding accounted_def by (force, blast)
  have plain: "system_ok ?s"
    if k: "keeps (received_on ?s) (bound_to s) ?h g" and ms: "message_ok g st" "io_binds (Handling st) = Map.empty"
      and c: "sent_on i (stage_commands st) = own_commands ?b [m]" "\<And>j. j \<noteq> i \<Longrightarrow> sent_on j (stage_commands st) = []"
        "?b = None \<Longrightarrow> to_command m = None"
  proof -
    note k' = keeps_trans [OF t k]
    have "bound_to ?s j = bound_to s j" for j
      using k' io ms(2) by (auto simp: bound_to_def keeps_def same_sessions_def split: option.split)
    then have b: "bound_to ?s = bound_to s" by (rule ext)
    have "accounted ?s"
      unfolding accounted_def b
    proof (intro allI conjI impI)
      fix j
      show "sent_on j (gs_submitted ?s @ io_commands (gs_io ?s)) = own_commands (bound_to s j) (sent_on j (gs_received ?s))"
        using subs(1) [of j] c(1) c(2) [of j] bi by (cases "j = i") simp_all
      show "\<forall>m \<in> set (sent_on j (gs_received ?s)). to_command m = None" if "bound_to s j = None"
        using subs(2) [OF that] c(3) bi that by (cases "j = i") simp_all
    qed
    then show ?thesis using k' ms(1) b system_okD(5) [OF ok] routing_ok_more [OF system_okD(3) [OF ok], of g] keeps_length [OF k']
      by (simp add: system_ok_def keeps_def)
  qed
  show ?thesis
  proof (cases "to_command m")
    case None
    then have "st = Finished" "g = ?h" using st by (simp_all add: start_message_def)
    then show ?thesis using plain keeps_refl [OF okt] None by auto
  next
    case (Some c)
    show ?thesis
    proof (cases ?b)
      case None
      then have g: "st = Binding i ?a m c" "g = bind_routes i ?a ?h" using st Some acc by (simp_all add: start_message_def Let_def)
      have "bound_to ?s j = ((bound_to s)(i := Some ?a)) j" for j
        using io i None acc len g by (auto simp: bound_to_def split: option.split)
      then have b: "bound_to ?s = (bound_to s)(i := Some ?a)" by (rule ext)
      have "gateway_ok (received_on ?s) ((bound_to s)(i := Some ?a)) (bind_routes i ?a ?h)"
        by (rule bind_routes_ok [OF okt]) (use i len bi None in simp_all)
      then have "gateway_ok (received_on ?s) (bound_to ?s) g" unfolding b g(2) [symmetric] .
      moreover have "accounted ?s"
      proof -
        have "own_commands b (sent_on i (gs_received s)) = []" for b using subs(2) [of i] bi None own_commands_none by simp
        then show ?thesis unfolding accounted_def b using subs g Some by (auto simp: own_commands_none)
      qed
      ultimately show ?thesis using g i acc len None t system_okD(5) [OF ok] routing_ok_more [OF system_okD(3) [OF ok], of g]
        by (simp add: system_ok_def keeps_def)
    next
      case b: (Some x)
      show ?thesis
      proof (cases "x = ?a")
        case True
        then have g: "st = Claiming i ?a m c" "g = ?h" using st Some b acc by (simp_all add: start_message_def Let_def)
        show ?thesis by (rule plain) (use g keeps_refl [OF okt] i len acc b True Some in auto)
      next
        case False
        then obtain p where p: "reject_account_mismatch i c ?h = Some (p, g)" "st = (if p then Notifying i Finished else Finished)"
          using st Some b acc by (auto simp: start_message_def Let_def split: Option.bind_splits)
        have k: "keeps (received_on ?s) (bound_to s) ?h g"
          by (rule reject_keeps [OF okt _ p(1) m Some, of x]) (use i len b bi False in simp_all)
        show ?thesis by (rule plain [OF k]) (use p(2) i len keeps_length [OF k] b Some False in auto)
      qed
    qed
  qed
qed

lemma message_step_ok:
  assumes ok: "system_ok s" and io: "gs_io s = Handling st" and t: "message_turn st (gs_gateway s) = Some (st', g)"
  shows "system_ok (s\<lparr>gs_gateway := g, gs_io := Handling st', gs_submitted := gs_submitted s @ submits st\<rparr>)" (is "system_ok ?s")
proof -
  have ms: "message_ok (gs_gateway s) st" using system_okD(2) [OF ok] io by simp
  note gok = system_okD(1) [OF ok]
  have sub: "(gs_submitted s @ submits st) @ io_commands (Handling st') = gs_submitted s @ io_commands (gs_io s)"
    using message_turn_commands [OF t] io by simp
  have plain: "system_ok ?s" if k: "keeps (received_on s) (bound_to s) (gs_gateway s) g" and m: "message_ok (gs_gateway s) st'"
      "io_binds (Handling st') = io_binds (Handling st)"
    using system_moved [OF ok k _ _ _ sub, of "gs_stage s" "gs_routing s"] m io routing_ok_more [OF system_okD(3) [OF ok], of g] keeps_length [OF k]
      message_ok_same [of "gs_gateway s" g st'] k by (simp add: keeps_def)
  show ?thesis
  proof (cases st)
    case Finished
    then show ?thesis using plain keeps_refl [OF gok] t by auto
  next
    case (Binding i a m c)
    let ?g = "upd_conn i (\<lambda>c. c\<lparr>cn_account_id := Some a\<rparr>) (gs_gateway s)"
    have g: "st' = Notifying i (Claiming i a m c)" "g = ?g" using t Binding by simp_all
    have i: "i < length (og_connections (gs_gateway s))" "cn_account_id (conn i (gs_gateway s)) = None" using ms Binding by simp_all
    have "bound_to ?s j = bound_to s j" for j using io Binding g i by (auto simp: bound_to_def split: option.split)
    then have b: "bound_to ?s = bound_to s" by (rule ext)
    have r: "received_on ?s = received_on s" by (simp add: received_on_def fun_eq_iff)
    have "gateway_ok (received_on s) (bound_to s) g"
      unfolding g(2) by (rule gateway_ok_upd [OF gok]) (use gateway_okD(5) [OF gok] in simp_all)
    moreover have "accounted ?s" using system_okD(4) [OF ok] sub unfolding accounted_def b by simp
    ultimately show ?thesis using g i b r system_okD(3,5) [OF ok] routing_ok_more [OF system_okD(3) [OF ok], of g]
      by (simp add: system_ok_def)
  next
    case (Claiming i a m c)
    then have i: "i < length (og_connections (gs_gateway s))" "cn_account_id (conn i (gs_gateway s)) = Some a" using ms by simp_all
    then have "bound_to s i = Some a" using io by (simp add: bound_to_def)
    from claim_ok [OF gok i(1) this, of m] have "keeps (received_on s) (bound_to s) (gs_gateway s) g"
      using t Claiming by (auto simp: keeps_def same_sessions_def)
    then show ?thesis using plain t Claiming i by auto
  next
    case (Submitting i c)
    obtain p where p: "g = gs_gateway s\<lparr>og_pipeline := p\<rparr>" "st' = Finished"
      using t Submitting by (auto simp: submit_command_def split: Option.bind_splits)
    have "keeps (received_on s) (bound_to s) (gs_gateway s) g" by (rule keeps_frame [OF gok]) (simp_all add: p)
    then show ?thesis using plain p Submitting by auto
  next
    case (Notifying i onward)
    then show ?thesis using plain t ms marks_keep(1) [OF gok, of i] by (auto split: prod.splits if_splits)
  next
    case (Pushing i onward)
    then obtain p where p: "push_mark i (gs_gateway s) = Some (p, g)" "st' = (if p then onward else Flagging i onward)"
      using t by (auto split: Option.bind_splits)
    have "keeps (received_on s) (bound_to s) (gs_gateway s) g" by (rule marks_keep(2) [OF gok _ p(1)]) (use ms Pushing in simp)
    then show ?thesis using plain p ms Pushing by auto
  next
    case (Flagging i onward)
    then show ?thesis using plain t ms marks_keep(3) [OF gok] by auto
  qed
qed

lemma close_step_ok:
  assumes ok: "system_ok s" and k: "keeps (received_on s) (bound_to s) (gs_gateway s) g"
    and i: "i < length (og_connections (gs_gateway s))" "resumes onward" "io_binds (gs_io s) = Map.empty" "io_commands (gs_io s) = []"
  shows "system_ok (s\<lparr>gs_gateway := set_closed i g, gs_io := Closing i onward\<rparr>)"
proof -
  have g: "gateway_ok (received_on s) (bound_to s) g" using k by (simp add: keeps_def)
  have "keeps (received_on s) (bound_to s) (gs_gateway s) (set_closed i g)" by (rule keeps_trans [OF k set_closed_keeps [OF g]])
  then show ?thesis by (rule io_moved [OF ok]) (use i keeps_length [OF k] keeps_length [OF set_closed_keeps [OF g, of i]] in auto)
qed

lemma gateway_step_ok:
  assumes "gateway_step s s'" "system_ok s"
  shows "system_ok s'"
  using assms
proof (induction rule: gateway_step.induct)
  case (accept s r g)
  then show ?case by (intro accept_step_ok)
next
  case (receive s i chunk)
  show ?case by (rule system_same [OF receive.prems keeps_upd [OF system_okD(1) [OF receive.prems]]]) simp_all
next
  case (skip s i frame rest e)
  then show ?case using system_same take_frame_keeps system_okD(1) by blast
next
  case (read s i frame rest m st g)
  then show ?case using read_step_ok by blast
next
  case (message s st st' g)
  then show ?case using message_step_ok by blast
next
  case (hang_up s i)
  then show ?case using close_step_ok [OF hang_up.prems keeps_refl [OF system_okD(1) [OF hang_up.prems]]] by simp
next
  case (unbind s i onward added)
  have c: "cn_closed (conn i (gs_gateway s))" "resumes onward" using system_okD(2) [OF unbind.prems] unbind.hyps by simp_all
  show ?case
    by (rule io_moved [OF unbind.prems finish_close_keeps [OF system_okD(1) [OF unbind.prems] c(1)]])
      (use resumes_ok c unbind.hyps in auto)
next
  case (start_writing s i)
  then show ?case using io_moved [OF start_writing.prems keeps_refl [OF system_okD(1) [OF start_writing.prems]], of "Writing i WriteLoop"]
    by simp
next
  case (write_on s i st r modified w g)
  have i: "i < length (og_connections (gs_gateway s))" using system_okD(2) [OF write_on.prems] write_on.hyps by simp
  note k = write_turn_keeps [OF system_okD(1) [OF write_on.prems] i write_on.hyps(2)]
  show ?case
    by (rule io_moved [OF write_on.prems k]) (use i keeps_length [OF k] write_on.hyps in \<open>auto split: WriteNext.split\<close>)
next
  case (write_fails s i st r modified g)
  have i: "i < length (og_connections (gs_gateway s))" using system_okD(2) [OF write_fails.prems] write_fails.hyps by simp
  note k = write_turn_keeps [OF system_okD(1) [OF write_fails.prems] i write_fails.hyps(2)]
  show ?case using close_step_ok [OF write_fails.prems k i] write_fails.hyps by simp
next
  case (pop s i q)
  note k = popped_mark_keeps [OF system_okD(1) [OF pop.prems] pop.hyps(2)]
  show ?case by (rule io_moved [OF pop.prems k(1)]) (use k(2) pop.hyps in auto)
next
  case (unlist s i watch g)
  have i: "i < length (og_connections (gs_gateway s))" using system_okD(2) [OF unlist.prems] unlist.hyps by simp
  have k: "keeps (received_on s) (bound_to s) (gs_gateway s) g"
    using unmarked_keeps(1) [OF system_okD(1) [OF unlist.prems], of i] unlist.hyps by simp
  show ?case by (rule io_moved [OF unlist.prems k]) (use i keeps_length [OF k] unlist.hyps in auto)
next
  case (overflow s)
  have "keeps (received_on s) (bound_to s) (gs_gateway s) ((gs_gateway s)\<lparr>og_dirty_overflow := False\<rparr>)"
    by (rule keeps_frame [OF system_okD(1) [OF overflow.prems]]) simp_all
  then show ?case by (rule io_moved [OF overflow.prems]) (use overflow.hyps in auto)
next
  case (sweep s i watch g)
  have k: "keeps (received_on s) (bound_to s) (gs_gateway s) g"
    using unmarked_keeps(2) [OF system_okD(1) [OF sweep.prems], of i] sweep.hyps by simp
  show ?case by (rule io_moved [OF sweep.prems k]) (use keeps_length [OF k] sweep.hyps in auto)
next
  case (swept s i)
  then show ?case using io_moved [OF swept.prems keeps_refl [OF system_okD(1) [OF swept.prems]], of AtPoller] by simp
next
  case (enable s i onward modified g)
  have i: "i < length (og_connections (gs_gateway s))" "resumes onward" using system_okD(2) [OF enable.prems] enable.hyps by simp_all
  note k = enable_write_keeps(1) [OF system_okD(1) [OF enable.prems] enable.hyps(2)]
  show ?case by (rule io_moved [OF enable.prems k]) (use i resumes_ok [OF i(2)] enable.hyps in auto)
next
  case (enable_fails s i onward modified g)
  have i: "i < length (og_connections (gs_gateway s))" "resumes onward" using system_okD(2) [OF enable_fails.prems] enable_fails.hyps by simp_all
  note k = enable_write_keeps(1) [OF system_okD(1) [OF enable_fails.prems] enable_fails.hyps(2)]
  show ?case using close_step_ok [OF enable_fails.prems k i] enable_fails.hyps by simp
next
  case (match s th p evs)
  have k: "keeps (received_on s) (bound_to s) (gs_gateway s) ((gs_gateway s)\<lparr>og_pipeline := p\<rparr>)"
    by (rule keeps_frame [OF system_okD(1) [OF match.prems]]) simp_all
  show ?case
    using system_moved [OF match.prems k _ refl _ refl, of "gs_stage s" "with_ledgers evs (ge_ledger (mp_processor (og_pipeline (gs_gateway s))))"] io_ok_same [of "gs_gateway s" "(gs_gateway s)\<lparr>og_pipeline := p\<rparr>"] k
      system_okD(2) [OF match.prems] routing_ok_more [OF system_okD(3) [OF match.prems], of "(gs_gateway s)\<lparr>og_pipeline := p\<rparr>"]
    by (simp add: keeps_def)
next
  case (route s ev l rest)
  show ?case
    using system_moved [OF route.prems keeps_refl [OF system_okD(1) [OF route.prems]] system_okD(2) [OF route.prems] refl start_routing_ok [of _ ev l] refl, of rest]
    by simp
next
  case (report s st g)
  note t = report_turn_ok [OF system_okD(1,3) [OF report.prems] report.hyps(2)]
  show ?case
    using system_moved [OF report.prems t(1) _ refl t(2) refl, of "gs_routing s"] io_ok_same [of "gs_gateway s" g] t(1) system_okD(2) [OF report.prems]
    by (simp add: keeps_def)
qed

lemma reachable_ok:
  assumes "new_gateway options n e = Some g" "unat (go_outbound_queue_capacity options) \<le> 2 ^ 63" "gateway_reaches g s"
  shows "system_ok s"
  using assms(3)
proof (induction rule: gateway_reaches.induct)
  case start
  obtain p q where "new_spsc_queue 65536 = Some q" "g = \<lparr>og_options = options, og_listen_armed = True, og_stop_requested = False,
      og_connections = [], og_next_session_id = 1, og_dirty = q, og_dirty_overflow = False, og_account_sessions = Map.empty,
      og_order_owner = Map.empty, og_pending_reports = Map.empty, og_pipeline = p\<rparr>"
    using assms(1) by (auto simp: new_gateway_def split: Option.bind_splits)
  moreover from this have "queue_ok q" "queue_contents q = []" by (auto intro: new_queue [of 65536])
  ultimately show ?case using assms(2) by (simp add: system_ok_def gateway_ok_def gateway_start_def accounted_def)
next
  case (step s s')
  then show ?case using gateway_step_ok by blast
qed

end
