(* ===== verification/GatewayFraming.thy ===== *)
theory GatewayFraming
  imports GatewayInvariant
begin

text \<open>
  The gateway's reader: how the bytes of a session were cut into reads does not matter, and what a client
  encoded is what is handled, in the same order. A frame with an unknown type is never got past.
\<close>

fun receive_chunks :: "nat \<Rightarrow> byte list list \<Rightarrow> OrderEntryGateway \<Rightarrow> OrderEntryGateway option" where
  \<comment> \<open>the outer loop of \<open>handle_read\<close>, over the reads that succeed\<close>
  "receive_chunks i [] g = Some g"
| "receive_chunks i (chunk # chunks) g = do { g \<leftarrow> handle_chunk i chunk g; receive_chunks i chunks g }"

fun handle_messages :: "nat \<Rightarrow> Message list \<Rightarrow> OrderEntryGateway \<Rightarrow> OrderEntryGateway option" where
  "handle_messages i [] g = Some g"
| "handle_messages i (m # ms) g = do { g \<leftarrow> handle_message i m g; handle_messages i ms g }"

section \<open>Handling a message does not touch the read buffer\<close>

lemma take_frame_commutes:
  "conn i (take_frame i x g) = (if i < length (og_connections g) then (conn i g)\<lparr>cn_read_buffer := x\<rparr> else conn i g)"
  "(\<And>c. f (c\<lparr>cn_read_buffer := x\<rparr>) = (f c)\<lparr>cn_read_buffer := x\<rparr>) \<Longrightarrow> upd_conn i f (take_frame i x g) = take_frame i x (upd_conn i f g)"
  "og_dirty (take_frame i x g) = og_dirty g" "og_account_sessions (take_frame i x g) = og_account_sessions g"
  "og_pending_reports (take_frame i x g) = og_pending_reports g" "og_order_owner (take_frame i x g) = og_order_owner g"
  "og_pipeline (take_frame i x g) = og_pipeline g" "length (og_connections (take_frame i x g)) = length (og_connections g)"
  "(take_frame i x g)\<lparr>og_dirty := q\<rparr> = take_frame i x (g\<lparr>og_dirty := q\<rparr>)"
  "(take_frame i x g)\<lparr>og_dirty_overflow := d\<rparr> = take_frame i x (g\<lparr>og_dirty_overflow := d\<rparr>)"
  "(take_frame i x g)\<lparr>og_account_sessions := s\<rparr> = take_frame i x (g\<lparr>og_account_sessions := s\<rparr>)"
  "(take_frame i x g)\<lparr>og_pending_reports := p\<rparr> = take_frame i x (g\<lparr>og_pending_reports := p\<rparr>)"
  "(take_frame i x g)\<lparr>og_order_owner := w\<rparr> = take_frame i x (g\<lparr>og_order_owner := w\<rparr>)"
  "(take_frame i x g)\<lparr>og_pipeline := l\<rparr> = take_frame i x (g\<lparr>og_pipeline := l\<rparr>)"
  by (simp_all add: take_frame_def upd_conn_twice) (simp_all add: upd_conn_def)

lemma upd_conn_swap: "i \<noteq> j \<Longrightarrow> upd_conn i f (upd_conn j h g) = upd_conn j h (upd_conn i f g)"
  by (simp add: upd_conn_def list_update_swap)

lemma take_frame_twice [simp]: "take_frame i x (take_frame i y g) = take_frame i x g"
  by (simp add: take_frame_def upd_conn_twice)

lemma map_option_binds:
  "map_option f (Option.bind a k) = Option.bind a (\<lambda>x. map_option f (k x))"
  "map_option f (case p of (x, y) \<Rightarrow> h x y) = (case p of (x, y) \<Rightarrow> map_option f (h x y))"
  "map_option f (if b then m else n) = (if b then map_option f m else map_option f n)"
  "Option.bind (map_option f' a') k' = Option.bind a' (\<lambda>x. k' (f' x))"
  by (cases a; simp) (cases p; simp | cases a'; simp)+

lemmas commutes = take_frame_commutes map_option_binds

text \<open>Turns on a gateway whose read buffer was changed.\<close>

definition rebuffer :: "nat \<Rightarrow> byte list \<Rightarrow> 'a \<times> OrderEntryGateway \<Rightarrow> 'a \<times> OrderEntryGateway" where
  "rebuffer i x = (\<lambda>(st, g). (st, take_frame i x g))"

lemma upd_take_frame:
  "(\<And>c. f (c\<lparr>cn_read_buffer := x\<rparr>) = (f c)\<lparr>cn_read_buffer := x\<rparr>) \<Longrightarrow> upd_conn j f (take_frame i x g) = take_frame i x (upd_conn j f g)"
  by (cases "j = i") (simp_all add: take_frame_commutes, simp add: take_frame_def upd_conn_swap)

lemma claim_mark_commutes: "claim_mark j (take_frame i x g) = rebuffer i x (claim_mark j g)"
proof -
  have "cn_dirty (conn j (take_frame i x g)) = cn_dirty (conn j g)" by (simp add: take_frame_def)
  then show ?thesis by (simp add: claim_mark_def rebuffer_def upd_take_frame)
qed

lemma push_mark_commutes: "push_mark j (take_frame i x g) = map_option (rebuffer i x) (push_mark j g)"
  by (simp add: push_mark_def rebuffer_def commutes)

lemma flag_overflow_commutes: "flag_overflow (take_frame i x g) = take_frame i x (flag_overflow g)"
  by (simp add: flag_overflow_def take_frame_commutes)

lemma reject_account_mismatch_commutes:
  "i < length (og_connections g) \<Longrightarrow>
   reject_account_mismatch i c (take_frame i x g) = map_option (rebuffer i x) (reject_account_mismatch i c g)"
  by (simp add: reject_account_mismatch_def rebuffer_def commutes)

lemma bind_routes_commutes: "i < length (og_connections g) \<Longrightarrow> bind_routes i a (take_frame i x g) = take_frame i x (bind_routes i a g)"
  by (simp add: bind_routes_def Let_def take_frame_commutes split: option.split)

lemma submit_command_commutes:
  "submit_command c (take_frame i x g) = map_option (take_frame i x) (submit_command c g)"
  by (simp add: submit_command_def commutes)

lemma claim_commutes: "claim_order_ownership i a m (take_frame j x g) = take_frame j x (claim_order_ownership i a m g)"
  by (simp add: claim_order_ownership_def take_frame_commutes split: option.split)

lemma message_turn_commutes: "message_turn st (take_frame i x g) = map_option (rebuffer i x) (message_turn st g)"
proof (cases st)
  case (Binding j a m c)
  then show ?thesis by (simp add: rebuffer_def upd_take_frame)
next
  case (Notifying j onward)
  then show ?thesis by (cases "claim_mark j g") (simp add: claim_mark_commutes rebuffer_def)
next
  case (Pushing j onward)
  then show ?thesis by (cases "push_mark j g") (auto simp: push_mark_commutes rebuffer_def)
qed (simp_all add: rebuffer_def claim_commutes submit_command_commutes flag_overflow_commutes commutes)

lemma message_turn_length: "message_turn st g = Some (st', g') \<Longrightarrow> length (og_connections g') = length (og_connections g)"
  by (cases st)
    (auto simp: claim_mark_def push_mark_def flag_overflow_def submit_command_def split: if_splits Option.bind_splits)

lemma finish_unfold:
  "finish_message Finished g = Some g"
  "st \<noteq> Finished \<Longrightarrow> message_turn st g = None \<Longrightarrow> finish_message st g = None"
  "st \<noteq> Finished \<Longrightarrow> message_turn st g = Some (st', g') \<Longrightarrow> finish_message st g = finish_message st' g'"
  by (simp_all add: finish_message.simps [of Finished] finish_message.simps [of st])

lemma finish_message_commutes: "finish_message st (take_frame i x g) = map_option (take_frame i x) (finish_message st g)"
proof (induction st g rule: finish_message.induct)
  case (1 st g)
  show ?case
  proof (cases "st = Finished")
    case False
    note c = message_turn_commutes [of st i x g]
    show ?thesis
    proof (cases "message_turn st g")
      case None
      then show ?thesis using c finish_unfold(2) [OF False] by simp
    next
      case (Some r)
      obtain st' g' where r: "r = (st', g')" by (cases r)
      then have "finish_message st (take_frame i x g) = finish_message st' (take_frame i x g')"
        using c Some finish_unfold(3) [OF False, of "take_frame i x g"] by (simp add: rebuffer_def)
      then show ?thesis using 1 [OF False Some r [symmetric]] finish_unfold(3) [OF False Some [unfolded r]] r by simp
    qed
  qed (simp add: finish_unfold)
qed

lemma finish_message_length: "finish_message st g = Some g' \<Longrightarrow> length (og_connections g') = length (og_connections g)"
proof (induction st g rule: finish_message.induct)
  case (1 st g)
  show ?case
  proof (cases "st = Finished")
    case False
    then obtain r where r: "message_turn st g = Some r" using 1(2) finish_unfold(2) by fastforce
    obtain st' h where h: "r = (st', h)" by (cases r)
    show ?thesis
      using 1(1) [OF False r h [symmetric]] 1(2) finish_unfold(3) [OF False r [unfolded h]] message_turn_length [OF r [unfolded h]] by simp
  qed (use 1(2) in \<open>simp add: finish_unfold\<close>)
qed

lemma start_message_commutes:
  assumes i: "i < length (og_connections g)"
  shows "start_message i m (take_frame i x g) = map_option (rebuffer i x) (start_message i m g)"
proof (cases "to_command m")
  case (Some c)
  show ?thesis using i Some
    by (cases "reject_account_mismatch i c g")
      (auto simp: start_message_def Let_def take_frame_commutes reject_account_mismatch_commutes bind_routes_commutes rebuffer_def
        split: option.split)
qed (simp add: start_message_def rebuffer_def)

lemma start_message_length: "start_message i m g = Some (st, g') \<Longrightarrow> length (og_connections g') = length (og_connections g)"
  by (auto simp: start_message_def Let_def reject_account_mismatch_def split: option.splits if_splits Option.bind_splits)

lemma handle_message_commutes:
  assumes "i < length (og_connections g)"
  shows "handle_message i m (take_frame i x g) = map_option (take_frame i x) (handle_message i m g)"
proof (cases "start_message i m g")
  case (Some r)
  then show ?thesis using assms finish_message_commutes [of "fst r" i x "snd r"]
    by (cases r) (simp add: handle_message_def start_message_commutes rebuffer_def)
qed (use assms in \<open>simp add: handle_message_def start_message_commutes\<close>)

lemma handle_message_length: "handle_message i m g = Some g' \<Longrightarrow> length (og_connections g') = length (og_connections g)"
  by (auto simp: handle_message_def dest!: start_message_length finish_message_length split: Option.bind_splits)

section \<open>Frames\<close>

lemma decode_header_more: "decode_header b = Inr h \<Longrightarrow> decode_header (b @ c) = Inr h"
  by (auto simp: decode_header_def Let_def split: if_splits)

lemma next_frame_more: "next_frame b = Some (f, r) \<Longrightarrow> next_frame (b @ c) = Some (f, r @ c)"
  by (auto simp: next_frame_def Let_def decode_header_more split: sum.splits if_splits)

lemma next_frame_encoding: "next_frame (encode_message m [] @ rest) = Some (encode_message m [], rest)"
proof -
  have h: "decode_header (encode_message m [] @ rest) = Inr \<lparr>fh_type = type_of m, fh_payload_size = word_of_nat (payload_size_for (type_of m))\<rparr>"
    by (simp add: oe_encode_split decode_header_frame)
  have "length (encode_message m []) = HEADER_SIZE + payload_size_for (type_of m)" by (simp add: oe_encode_split HEADER_SIZE_def)
  then show ?thesis by (simp add: next_frame_def Let_def h)
qed

lemma read_frames_rest: "read_frames i b g = Some (r, g') \<Longrightarrow> next_frame r = None"
proof (induction i b g rule: read_frames.induct)
  case (1 i b g)
  then show ?case
    by (cases "next_frame b") (auto simp: read_frames.simps [of i b g] split: sum.splits Option.bind_splits)
qed

lemma read_frames_length: "read_frames i b g = Some (r, g') \<Longrightarrow> length (og_connections g') = length (og_connections g)"
proof (induction i b g rule: read_frames.induct)
  case (1 i b g)
  then show ?case
    by (cases "next_frame b")
      (fastforce simp: read_frames.simps [of i b g] dest: handle_message_length split: sum.splits Option.bind_splits)+
qed

lemma read_frames_commutes:
  "i < length (og_connections g) \<Longrightarrow>
   read_frames i b (take_frame i x g) = map_option (\<lambda>(r, g). (r, take_frame i x g)) (read_frames i b g)"
proof (induction i b g rule: read_frames.induct)
  case (1 i b g)
  show ?case
  proof (cases "next_frame b")
    case None
    then show ?thesis by (simp add: read_frames.simps [of i b])
  next
    case (Some fr)
    obtain f r where fr: "next_frame b = Some (f, r)" using Some by (cases fr) auto
    show ?thesis
    proof (cases "decode_message f")
      case (Inl e)
      then show ?thesis using 1(1) [OF fr refl Inl] 1(3) fr by (simp add: read_frames.simps [of i b])
    next
      case (Inr m)
      show ?thesis
      proof (cases "handle_message i m g")
        case None
        then show ?thesis using Inr fr 1(3) by (simp add: read_frames.simps [of i b] handle_message_commutes)
      next
        case (Some g1)
        then show ?thesis using 1(2) [OF fr refl Inr, of g1] Inr fr 1(3) handle_message_length [OF Some]
          by (simp add: read_frames.simps [of i b] handle_message_commutes)
      qed
    qed
  qed
qed

lemma read_frames_more:
  "read_frames i (b @ c) g = do { (r, g) \<leftarrow> read_frames i b g; read_frames i (r @ c) g }"
proof (induction i b g rule: read_frames.induct)
  case (1 i b g)
  show ?case
  proof (cases "next_frame b")
    case None
    then show ?thesis by (simp add: read_frames.simps [of i b])
  next
    case (Some fr)
    obtain f r where fr: "next_frame b = Some (f, r)" using Some by (cases fr) auto
    note more = next_frame_more [OF fr, of c]
    show ?thesis
    proof (cases "decode_message f")
      case (Inl e)
      then show ?thesis using 1(1) [OF fr refl Inl] fr more
        by (simp add: read_frames.simps [of i b] read_frames.simps [of i "b @ c"])
    next
      case (Inr m)
      then show ?thesis using 1(2) [OF fr refl Inr] fr more
        by (cases "handle_message i m g") (simp_all add: read_frames.simps [of i b] read_frames.simps [of i "b @ c"])
    qed
  qed
qed

lemma take_frame_same: "take_frame i (cn_read_buffer (conn i g)) g = g"
  by (simp add: take_frame_def upd_conn_def conn_def)

lemma receive_chunks_frames:
  "i < length (og_connections g) \<Longrightarrow> next_frame (cn_read_buffer (conn i g)) = None \<Longrightarrow>
   receive_chunks i chunks g =
     do { (rest, g) \<leftarrow> read_frames i (cn_read_buffer (conn i g) @ concat chunks) g; Some (take_frame i rest g) }"
proof (induction chunks arbitrary: g)
  case Nil
  then show ?case by (simp add: read_frames.simps [of i "cn_read_buffer (conn i g)"] take_frame_same)
next
  case (Cons chunk chunks)
  show ?case
  proof (cases "read_frames i (cn_read_buffer (conn i g) @ chunk) g")
    case None
    then show ?thesis
      using read_frames_more [of i "cn_read_buffer (conn i g) @ chunk" "concat chunks" g] by (simp add: handle_chunk_def)
  next
    case (Some rg)
    obtain r g1 where rg: "rg = (r, g1)" by (cases rg)
    let ?g = "take_frame i r g1"
    have i: "i < length (og_connections g1)" using read_frames_length [OF Some [unfolded rg]] Cons.prems by simp
    then have b: "cn_read_buffer (conn i ?g) = r" by (simp add: take_frame_commutes)
    have "receive_chunks i (chunk # chunks) g = receive_chunks i chunks ?g"
      using Some rg by (simp add: handle_chunk_def take_frame_def)
    also have "\<dots> = do { (rest, g) \<leftarrow> read_frames i (r @ concat chunks) ?g; Some (take_frame i rest g) }"
      using Cons.IH [of ?g] i b read_frames_rest [OF Some [unfolded rg]] by (simp add: take_frame_commutes)
    also have "\<dots> = do { (rest, g) \<leftarrow> read_frames i (r @ concat chunks) g1; Some (take_frame i rest g) }"
      by (cases "read_frames i (r @ concat chunks) g1") (auto simp: read_frames_commutes [OF i])
    finally show ?thesis
      using read_frames_more [of i "cn_read_buffer (conn i g) @ chunk" "concat chunks" g] Some rg by simp
  qed
qed

lemma read_frames_encodings:
  "read_frames i (concat (map (\<lambda>m. encode_message m []) ms)) g = map_option (Pair []) (handle_messages i ms g)"
proof (induction ms arbitrary: g)
  case Nil
  show ?case by (simp add: read_frames.simps next_frame_def decode_header_def HEADER_SIZE_def)
next
  case (Cons m ms)
  have "decode_message (encode_message m []) = Inr m" using oe_decode_encode [of m "[]"] by simp
  then show ?case using Cons
    by (cases "handle_message i m g") (simp_all add: read_frames.simps [of i "encode_message m [] @ _"] next_frame_encoding)
qed

lemma handle_messages_buffer:
  "i < length (og_connections g) \<Longrightarrow> handle_messages i ms (take_frame i x g) = map_option (take_frame i x) (handle_messages i ms g)"
proof (induction ms arbitrary: g)
  case (Cons m ms)
  then show ?case
    by (cases "handle_message i m g") (simp_all add: handle_message_commutes handle_message_length)
qed simp

end
