(* ===== verification/GatewayWakeups.thy ===== *)
theory GatewayWakeups
  imports GatewayInvariant
begin

text \<open>
  No lost wake-up: while an open connection has something to send, the poller watches it for writing, or it is
  marked and on the list the I/O thread will drain (or the overflow flag will make it look at every connection), or one of
  the threads is between two accesses that lead there. What each thread has in hand is a function of where it is.
\<close>

definition has_output :: "Connection \<Rightarrow> bool" where
  "has_output c \<longleftrightarrow> cn_write_offset c < length (cn_write_buf c) \<or> cn_replay_backlog c \<noteq> [] \<or>
     queue_contents (cn_session_outbound c) \<noteq> [] \<or> queue_contents (cn_outbound c) \<noteq> []"

definition listed :: "nat \<Rightarrow> OrderEntryGateway \<Rightarrow> bool" where
  "listed i g \<longleftrightarrow> i \<in> set (queue_contents (og_dirty g)) \<or> og_dirty_overflow g"

section \<open>What a thread has in hand\<close>

text \<open>The connections a thread is about to mark, to watch or to write to, and those whose mark is set but not on the list
  yet, or taken from it, or still to be looked at after an overflow.\<close>

fun stage_handles :: "MessageStage \<Rightarrow> nat set" where
  "stage_handles (Binding i a m c) = {i}"
| "stage_handles (Notifying i onward) = {i}"
| "stage_handles _ = {}"

fun stage_marks :: "MessageStage \<Rightarrow> nat set" where
  "stage_marks (Pushing i onward) = {i}"
| "stage_marks (Flagging i onward) = {i}"
| "stage_marks _ = {}"

fun io_handles :: "IoThread \<Rightarrow> nat set" where
  "io_handles (Handling st) = stage_handles st"
| "io_handles (Writing i st) = (if st = Disabling then {} else {i})"
| "io_handles (Enabling i onward) = {i}"
| "io_handles _ = {}"

fun io_marks :: "IoThread \<Rightarrow> nat set" where
  "io_marks (Handling st) = stage_marks st"
| "io_marks (Popped i) = {i}"
| "io_marks (Sweeping i) = {i..}"
| "io_marks (Enabling i onward) = io_marks onward"
| "io_marks (Closing i onward) = io_marks onward"
| "io_marks (Writing i st) = {}"

fun io_unwatches :: "IoThread \<Rightarrow> nat set" where
  "io_unwatches (Writing i st) = (if st = Disabling then {i} else {})"
| "io_unwatches _ = {}"

fun report_handles :: "RoutingStage \<Rightarrow> nat set" where
  "report_handles Routed = {}"
| "report_handles (Delivering rs wake ev l) = set wake"
| "report_handles (Waking wake) = set wake"
| "report_handles (WakePushing i wake) = set wake"
| "report_handles (WakeFlagging i wake) = set wake"

fun report_marks :: "RoutingStage \<Rightarrow> nat set" where
  "report_marks (WakePushing i wake) = {i}"
| "report_marks (WakeFlagging i wake) = {i}"
| "report_marks _ = {}"

definition wakes :: "nat set \<Rightarrow> nat set \<Rightarrow> nat set \<Rightarrow> OrderEntryGateway \<Rightarrow> bool" where
  \<comment> \<open>some connections are in hand, some marks are, and some connections are about not to be watched any more\<close>
  "wakes W L U g \<longleftrightarrow> (\<forall>i < length (og_connections g).
     (cn_dirty (conn i g) \<longrightarrow> listed i g \<or> i \<in> L) \<and>
     (i \<notin> W \<longrightarrow> \<not> cn_closed (conn i g) \<longrightarrow> has_output (conn i g) \<longrightarrow> cn_write_interest (conn i g) \<and> i \<notin> U \<or> cn_dirty (conn i g)))"

lemma wakesI:
  assumes "\<And>i. i < length (og_connections g) \<Longrightarrow> cn_dirty (conn i g) \<Longrightarrow> listed i g \<or> i \<in> L"
    "\<And>i. i < length (og_connections g) \<Longrightarrow> i \<notin> W \<Longrightarrow> \<not> cn_closed (conn i g) \<Longrightarrow> has_output (conn i g) \<Longrightarrow>
       \<not> cn_dirty (conn i g) \<Longrightarrow> cn_write_interest (conn i g) \<and> i \<notin> U"
  shows "wakes W L U g"
  using assms unfolding wakes_def by blast

lemma wakesD:
  assumes "wakes W L U g" "i < length (og_connections g)"
  shows "cn_dirty (conn i g) \<Longrightarrow> listed i g \<or> i \<in> L"
    "i \<notin> W \<Longrightarrow> \<not> cn_closed (conn i g) \<Longrightarrow> has_output (conn i g) \<Longrightarrow> \<not> cn_dirty (conn i g) \<Longrightarrow> cn_write_interest (conn i g) \<and> i \<notin> U"
  using assms unfolding wakes_def by blast+

lemma wakes_mono: "wakes W L U g \<Longrightarrow> W \<subseteq> V \<Longrightarrow> L \<subseteq> K \<Longrightarrow> wakes V K U g"
  unfolding wakes_def by blast

lemma wakes_frame:
  "og_connections g' = og_connections g \<Longrightarrow> og_dirty g' = og_dirty g \<Longrightarrow> og_dirty_overflow g' = og_dirty_overflow g \<Longrightarrow>
   wakes W L U g' = wakes W L U g"
  by (simp add: wakes_def listed_def conn_def)

lemma overflow_upd [simp]: "og_dirty_overflow (upd_conn i f g) = og_dirty_overflow g"
  by (simp add: upd_conn_def)

lemma listed_upd [simp]: "listed j (upd_conn i f g) = listed j g"
  by (simp add: listed_def)

text \<open>One connection changes.\<close>

lemma wakes_upd:
  assumes w: "wakes W L U g" and sets: "W \<subseteq> insert i V" "L \<subseteq> insert i K" "T \<subseteq> insert i U"
    and "i < length (og_connections g) \<Longrightarrow> cn_dirty (f (conn i g)) \<Longrightarrow> listed i g \<or> i \<in> K"
    "i < length (og_connections g) \<Longrightarrow> i \<notin> V \<Longrightarrow> \<not> cn_closed (f (conn i g)) \<Longrightarrow> has_output (f (conn i g)) \<Longrightarrow>
       \<not> cn_dirty (f (conn i g)) \<Longrightarrow> cn_write_interest (f (conn i g)) \<and> i \<notin> T"
  shows "wakes V K T (upd_conn i f g)"
proof (rule wakesI)
  show "listed j (upd_conn i f g) \<or> j \<in> K" if "j < length (og_connections (upd_conn i f g))" "cn_dirty (conn j (upd_conn i f g))" for j
    using wakesD(1) [OF w, of j] that assms(5) sets(2) by (cases "j = i") auto
  show "cn_write_interest (conn j (upd_conn i f g)) \<and> j \<notin> T"
    if "j < length (og_connections (upd_conn i f g))" "j \<notin> V" "\<not> cn_closed (conn j (upd_conn i f g))"
      "has_output (conn j (upd_conn i f g))" "\<not> cn_dirty (conn j (upd_conn i f g))" for j
    using wakesD(2) [OF w, of j] that assms(6) sets(1,3) by (cases "j = i") auto
qed

text \<open>A change that neither adds output nor takes the poller's interest away.\<close>

lemma wakes_less:
  assumes w: "wakes W L U g" and "cn_dirty (f (conn i g)) = cn_dirty (conn i g)" "cn_write_interest (f (conn i g)) = cn_write_interest (conn i g)"
    "has_output (f (conn i g)) \<Longrightarrow> has_output (conn i g)" "\<not> cn_closed (f (conn i g)) \<Longrightarrow> \<not> cn_closed (conn i g)"
  shows "wakes W L U (upd_conn i f g)"
  by (rule wakes_upd [OF w]) (use wakesD [OF w, of i] assms(2-5) in auto)

section \<open>Marking\<close>

lemma wakes_claim:
  assumes "wakes (insert i W) L U g" "claim_mark i g = (first, g')"
  shows "wakes W (if first then insert i L else L) U g'"
proof (cases "cn_dirty (conn i g)")
  case True
  then show ?thesis using assms unfolding claim_mark_def wakes_def by auto
next
  case False
  then show ?thesis using assms(2) by (auto simp: claim_mark_def intro!: wakes_upd [OF assms(1)])
qed

lemma wakes_push:
  assumes ok: "gateway_ok r b g" and w: "wakes W (insert i L) U g" and p: "push_mark i g = Some (p, g')"
  shows "wakes W (if p then L else insert i L) U g'"
proof -
  obtain q where q: "try_push i (og_dirty g) = Some (p, q)" "g' = g\<lparr>og_dirty := q\<rparr>"
    using p by (auto simp: push_mark_def split: Option.bind_splits)
  note c = pushed [OF gateway_okD(6) [OF ok] q(1)]
  show ?thesis unfolding q(2)
    by (rule wakesI) (use wakesD [OF w] c in \<open>auto simp: listed_def split: if_splits\<close>)
qed

lemma wakes_flag: "wakes W (insert i L) U g \<Longrightarrow> wakes W L U (flag_overflow g)"
  by (auto simp: wakes_def flag_overflow_def listed_def)

section \<open>Messages\<close>

lemma wakes_take_frame: "wakes W L U g \<Longrightarrow> wakes W L U (take_frame i rest g)"
  unfolding take_frame_def by (rule wakes_less) (simp_all add: has_output_def)

lemma wakes_bind_routes:
  assumes w: "wakes W L U g"
  shows "wakes (insert i W) L U (bind_routes i a g)"
proof -
  have f: "wakes V K T (h\<lparr>og_account_sessions := s\<rparr>) = wakes V K T h" "wakes V K T (h\<lparr>og_pending_reports := p\<rparr>) = wakes V K T h"
    for V K T h s p
    by (rule wakes_frame; simp)+
  have "wakes (insert i W) L U (upd_conn i (\<lambda>c. c\<lparr>cn_replay_backlog := pending\<rparr>) (g\<lparr>og_account_sessions := s\<rparr>))" for pending s
    by (rule wakes_upd [where W = W and L = L and U = U]) (use w wakesD [OF w, of i] in \<open>auto simp: f listed_def\<close>)
  moreover have "wakes (insert i W) L U (g\<lparr>og_account_sessions := s\<rparr>)" for s using wakes_mono [OF w, of "insert i W" L] by (auto simp: f)
  ultimately show ?thesis by (auto simp: bind_routes_def Let_def f split: option.split)
qed

lemma wakes_reject:
  assumes ok: "gateway_ok r b g" and i: "i < length (og_connections g)" and w: "wakes W L U g"
    and rej: "reject_account_mismatch i c g = Some (p, g')"
  shows "wakes (if p then insert i W else W) L U g'"
proof -
  obtain q where q: "try_push (mismatch_rejection c) (cn_session_outbound (conn i g)) = Some (p, q)"
    "g' = upd_conn i (\<lambda>c. c\<lparr>cn_session_outbound := q\<rparr>) g"
    using rej by (auto simp: reject_account_mismatch_def split: Option.bind_splits)
  have "queue_ok (cn_session_outbound (conn i g))" using gateway_okD(5) [OF ok i] by (simp add: conn_ok_def)
  note c = pushed [OF this q(1)]
  show ?thesis unfolding q(2)
  proof (cases p)
    case True
    have "wakes (insert i W) L U (upd_conn i (\<lambda>c. c\<lparr>cn_session_outbound := q\<rparr>) g)"
      by (rule wakes_upd [OF w]) (use wakesD [OF w, of i] in auto)
    then show "wakes (if p then insert i W else W) L U (upd_conn i (\<lambda>c. c\<lparr>cn_session_outbound := q\<rparr>) g)" using True by simp
  next
    case False
    have "wakes W L U (upd_conn i (\<lambda>c. c\<lparr>cn_session_outbound := q\<rparr>) g)"
      by (rule wakes_less [OF w]) (use c False in \<open>auto simp: has_output_def\<close>)
    then show "wakes (if p then insert i W else W) L U (upd_conn i (\<lambda>c. c\<lparr>cn_session_outbound := q\<rparr>) g)" using False by simp
  qed
qed

lemma wakes_start_message:
  assumes ok: "gateway_ok r b g" and i: "i < length (og_connections g)" and w: "wakes W L {} g"
    and st: "start_message i m g = Some (st, g')"
  shows "wakes (stage_handles st \<union> W) (stage_marks st \<union> L) {} g'"
proof (cases "to_command m")
  case (Some c)
  show ?thesis
  proof (cases "cn_account_id (conn i g)")
    case None
    then show ?thesis using st Some wakes_bind_routes [OF w, of i "account_of_message m"] by (auto simp: start_message_def Let_def)
  next
    case (Some x)
    then show ?thesis using st \<open>to_command m = Some c\<close> w wakes_reject [OF ok i w, of c]
      by (auto simp: start_message_def Let_def split: if_splits Option.bind_splits)
  qed
qed (use st w in \<open>simp add: start_message_def\<close>)

lemma wakes_message_turn:
  assumes ok: "gateway_ok r b g" and io: "message_ok g st" and w: "wakes (stage_handles st \<union> W) (stage_marks st \<union> L) {} g"
    and t: "message_turn st g = Some (st', g')" and plain: "\<And>i onward. st = Notifying i onward \<or> st = Pushing i onward \<or> st = Flagging i onward \<Longrightarrow>
      stage_handles onward = {} \<and> stage_marks onward = {}"
  shows "wakes (stage_handles st' \<union> W) (stage_marks st' \<union> L) {} g'"
proof (cases st)
  case (Binding i a m c)
  have "wakes (insert i W) L {} (upd_conn i (\<lambda>c. c\<lparr>cn_account_id := Some a\<rparr>) g)"
    by (rule wakes_less) (use w Binding in \<open>simp_all add: has_output_def\<close>)
  then show ?thesis using t Binding by auto
next
  case (Claiming i a m c)
  have "wakes W L {} (claim_order_ownership i a m g) = wakes W L {} g"
    by (rule wakes_frame) (auto simp: claim_order_ownership_def split: option.split)
  then show ?thesis using t w Claiming by auto
next
  case (Submitting i c)
  then obtain p where "g' = g\<lparr>og_pipeline := p\<rparr>" "st' = Finished" using t by (auto simp: submit_command_def split: Option.bind_splits)
  then show ?thesis using w Submitting by (simp add: wakes_def listed_def)
next
  case (Notifying i onward)
  then show ?thesis using t w wakes_claim [of i W L "{}" g] plain [of i onward] by (auto split: prod.splits if_splits)
next
  case (Pushing i onward)
  then obtain p where p: "push_mark i g = Some (p, g')" "st' = (if p then onward else Flagging i onward)"
    using t by (auto split: Option.bind_splits)
  show ?thesis using wakes_push [OF ok _ p(1), of W L "{}"] w p(2) Pushing plain [of i onward] by (auto split: if_splits)
next
  case (Flagging i onward)
  then show ?thesis using t w wakes_flag [of W i L "{}" g] plain [of i onward] by auto
qed (use t w in auto)

section \<open>Routing\<close>

lemma wakes_route_report:
  assumes ok: "gateway_ok r b g" and w: "wakes (W \<union> set wake) L U g" and l: "length wake \<le> 1"
    and rep: "route_report (k, m) (wake, g) = Some (wake', g')"
  shows "wakes (W \<union> set wake') L U g'"
proof (cases "route_target k g")
  case None
  then have "g' = retain (ok_account_id k) m g" "wake' = wake" using rep by (simp_all add: route_report_def)
  moreover have "wakes (W \<union> set wake) L U (retain (ok_account_id k) m g) = wakes (W \<union> set wake) L U g"
    by (rule wakes_frame) (simp_all add: retain_def Let_def)
  ultimately show ?thesis using w by simp
next
  case (Some i)
  have t: "route_target k g = Some i" by (rule Some)
  obtain p q where q: "try_push m (cn_outbound (conn i g)) = Some (p, q)"
    using rep t by (auto simp: route_report_def deliver_def split: Option.bind_splits)
  have g': "g' = upd_conn i (\<lambda>c. c\<lparr>cn_outbound := q\<rparr>) g"
    and wake': "wake' = (if p \<and> (length wake = 0 \<or> length wake = 1 \<and> wake ! 0 \<noteq> i) then wake @ [i] else wake)"
    using rep by (simp_all add: route_report_def deliver_def t q cong: if_cong)
  have i: "i < length (og_connections g)" by (rule route_target(1) [OF ok t])
  have "queue_ok (cn_outbound (conn i g))" using gateway_okD(5) [OF ok i] by (simp add: conn_ok_def)
  note p = pushed [OF this q]
  show ?thesis
  proof (cases p)
    case True
    have "i \<in> set wake'" using True l wake' by (cases wake) auto
    show ?thesis unfolding g'
      by (rule wakes_upd [OF w]) (use wake' \<open>i \<in> set wake'\<close> wakesD [OF w i] in \<open>auto split: if_splits\<close>)
  next
    case False
    have "wakes (W \<union> set wake) L U g'" unfolding g'
      by (rule wakes_less [OF w]) (use p(2) False in \<open>simp_all add: has_output_def\<close>)
    then show ?thesis using wake' False by simp
  qed
qed

lemma ownership_wakes: "wakes W L U (update_order_ownership l ev g) = wakes W L U g"
proof -
  have d: "og_dirty (disown k h) = og_dirty h" "og_dirty_overflow (disown k h) = og_dirty_overflow h"
    "og_connections (disown k h) = og_connections h" for k h by (simp_all add: disown_def)
  have "og_dirty (update_order_ownership l ev g) = og_dirty g \<and> og_dirty_overflow (update_order_ownership l ev g) = og_dirty_overflow g \<and>
    og_connections (update_order_ownership l ev g) = og_connections g"
    by (cases ev) (auto simp: Let_def d split: option.split)
  then show ?thesis by (intro wakes_frame) simp_all
qed

lemma wakes_report_turn:
  assumes ok: "gateway_ok r b g" and st: "routing_ok g st" and w: "wakes (W \<union> report_handles st) (L \<union> report_marks st) U g"
    and t: "report_turn st g = Some (st', g')"
  shows "wakes (W \<union> report_handles st') (L \<union> report_marks st') U g'"
proof (cases "(st, g)" rule: report_turn.cases)
  case (2 x rs wake ev l h)
  obtain k m where x: "x = (k, m)" by (cases x)
  obtain wake' where r: "route_report (k, m) (wake, g) = Some (wake', g')" "st' = Delivering rs wake' ev l"
    using t 2 x by (auto split: Option.bind_splits)
  have "length wake \<le> 1" using st 2 by simp
  then show ?thesis using wakes_route_report [OF ok _ _ r(1)] w 2 r(2) by simp
next
  case (3 wake ev l h)
  then show ?thesis using t w by (auto simp: ownership_wakes)
next
  case (5 i wake h)
  then show ?thesis using t w wakes_claim [of i "W \<union> set wake" L U g] by (auto split: prod.splits if_splits)
next
  case (6 i wake h)
  then obtain p where p: "push_mark i g = Some (p, g')" "st' = (if p then Waking wake else WakeFlagging i wake)"
    using t by (auto split: Option.bind_splits)
  show ?thesis using wakes_push [OF ok _ p(1), of "W \<union> set wake" L U] w p(2) 6 by (auto split: if_splits)
next
  case (7 i wake h)
  then show ?thesis using t w wakes_flag [of "W \<union> set wake" i L U g] by auto
qed (use t w in auto)

section \<open>Writing\<close>

lemma popped_none: "queue_ok q \<Longrightarrow> try_pop q = Some (None, q') \<Longrightarrow> queue_contents q = []"
  using spsc.pop_some [of q] by (cases "queue_contents q") force+

lemma wakes_pop:
  assumes ok: "gateway_ok r b g" and i: "i < length (og_connections g)" and w: "wakes W L U g" and p: "pop_outbound i g = Some (x, g')"
  shows "wakes W L U g' \<and> (x = None \<longrightarrow> has_output (conn i g') = (cn_write_offset (conn i g) < length (cn_write_buf (conn i g))))"
proof -
  have c: "conn_ok (r i) (b i) (conn i g)" by (rule gateway_okD(5) [OF ok i])
  show ?thesis
  proof (cases "cn_replay_backlog (conn i g)")
    case (Cons m ms)
    then have g': "g' = upd_conn i (\<lambda>c. c\<lparr>cn_replay_backlog := tl (cn_replay_backlog c)\<rparr>) g" "x = Some m"
      using p by (auto simp: pop_outbound_def)
    have "wakes W L U g'" unfolding g' by (rule wakes_less [OF w]) (use Cons in \<open>simp_all add: has_output_def\<close>)
    then show ?thesis using g' by simp
  next
    case Nil
    obtain s q where q: "try_pop (cn_session_outbound (conn i g)) = Some (s, q)"
      and rest: "(if s \<noteq> None then Some (s, upd_conn i (\<lambda>c. c\<lparr>cn_session_outbound := q\<rparr>) g)
        else do { (m, q') \<leftarrow> try_pop (cn_outbound (conn i (upd_conn i (\<lambda>c. c\<lparr>cn_session_outbound := q\<rparr>) g)));
                  Some (m, upd_conn i (\<lambda>c. c\<lparr>cn_outbound := q'\<rparr>) (upd_conn i (\<lambda>c. c\<lparr>cn_session_outbound := q\<rparr>) g)) }) = Some (x, g')"
      using p Nil by (auto simp: pop_outbound_def Let_def split: Option.bind_splits)
    have "queue_ok (cn_session_outbound (conn i g))" using c by (simp add: conn_ok_def)
    note p1 = popped [OF this q]
    let ?g = "upd_conn i (\<lambda>c. c\<lparr>cn_session_outbound := q\<rparr>) g"
    have w1: "wakes W L U ?g" by (rule wakes_less [OF w]) (use p1(2) in \<open>auto simp: has_output_def\<close>)
    show ?thesis
    proof (cases s)
      case (Some m)
      then show ?thesis using rest w1 by auto
    next
      case None
      obtain q' where q': "try_pop (cn_outbound (conn i g)) = Some (x, q')" "g' = upd_conn i (\<lambda>c. c\<lparr>cn_outbound := q'\<rparr>) ?g"
        using rest None i by (auto split: Option.bind_splits)
      have o: "queue_ok (cn_outbound (conn i g))" using c by (simp add: conn_ok_def)
      note p2 = popped [OF o q'(1)]
      have "wakes W L U g'" unfolding q'(2)
        by (rule wakes_less [OF w1]) (use p2 i in \<open>auto simp: has_output_def\<close>)
      moreover have "queue_contents q = []" using popped_none [OF \<open>queue_ok (cn_session_outbound (conn i g))\<close>] q None p1 by simp
      moreover have "queue_contents q' = []" if "x = None" using popped_none [OF o] q'(1) that p2 by simp
      ultimately show ?thesis using q'(2) i Nil by (auto simp: has_output_def)
    qed
  qed
qed

lemma wakes_enable: "wakes (insert i W) L {} g \<Longrightarrow> enable_write i md g = (False, g') \<Longrightarrow> wakes W L {} g'"
proof (cases "cn_closed (conn i g) \<or> cn_write_interest (conn i g)")
  case True
  then show "wakes (insert i W) L {} g \<Longrightarrow> enable_write i md g = (False, g') \<Longrightarrow> wakes W L {} g'"
    by (auto simp: enable_write_def wakes_def)
next
  case False
  assume w: "wakes (insert i W) L {} g" and e: "enable_write i md g = (False, g')"
  then have "g' = upd_conn i (\<lambda>c. c\<lparr>cn_write_interest := True\<rparr>) g" using False by (auto simp: enable_write_def split: if_splits)
  then show "wakes W L {} g'" using wakesD(1) [OF w, of i] by (auto intro!: wakes_upd [OF w])
qed

lemma wakes_enable_fails: "wakes (insert i W) L {} g \<Longrightarrow> enable_write i md g = (True, g') \<Longrightarrow> wakes (insert i W) L {} g'"
  by (auto simp: enable_write_def split: if_splits)

lemma wakes_close: "wakes (insert i W) L {} g \<Longrightarrow> wakes W L {} (set_closed i g)"
proof -
  assume w: "wakes (insert i W) L {} g"
  show "wakes W L {} (set_closed i g)" unfolding set_closed_def
    by (rule wakes_upd [OF w]) (use wakesD(1) [OF w, of i] in auto)
qed

lemma wakes_queued:
  assumes w: "wakes W L U g" and "i \<in> W"
  shows "wakes W L U (upd_conn i (queue_message m) g)" "wakes W L U (upd_conn i (\<lambda>c. queue_message m (clear_batch c)) g)"
  by (rule wakes_upd [OF w], use assms(2) wakesD(1) [OF w, of i] in \<open>auto simp: queue_message_def clear_batch_def\<close>)+

definition after_write :: "nat \<Rightarrow> WriteNext \<Rightarrow> nat set" where
  "after_write i w = (case w of GoOn st \<Rightarrow> (if st = Disabling then {} else {i}) | Return \<Rightarrow> {} | CloseIt \<Rightarrow> {i})"

lemma wakes_write_turn:
  assumes ok: "gateway_ok r b g" and i: "i < length (og_connections g)"
    and w: "wakes (io_handles (Writing i st) \<union> W) L (io_unwatches (Writing i st)) g"
    and t: "write_turn x md i st g = Some (n, g')"
  shows "wakes (after_write i n \<union> W) L (if n = GoOn Disabling then {i} else {}) g'"
proof (cases st)
  case WriteLoop
  have w: "wakes (insert i W) L {} g" using w WriteLoop by simp
  let ?enable = "\<lambda>g. case enable_write i md g of (close, g) \<Rightarrow> (if close then CloseIt else Return, g)"
  have e: "wakes (after_write i n \<union> W) L (if n = GoOn Disabling then {i} else {}) g'"
    if h: "wakes (insert i W) L {} h" and en: "?enable h = (n, g')" for h
  proof (cases "enable_write i md h")
    case (Pair close k)
    then show ?thesis using en wakes_enable [OF h, of md] wakes_enable_fails [OF h, of md]
      by (cases close) (auto simp: after_write_def)
  qed
  show ?thesis
  proof (cases "cn_closed (conn i g)")
    case True
    then have "wakes W L {} g" using w unfolding wakes_def by auto
    then show ?thesis using t WriteLoop True by (auto simp: after_write_def)
  next
    case open_conn: False
    show ?thesis
    proof (cases "cn_write_offset (conn i g) < length (cn_write_buf (conn i g))")
      case unwritten: True
      show ?thesis
      proof (cases x)
        case (Wrote k)
        let ?g = "upd_conn i (\<lambda>c. c\<lparr>cn_write_offset := cn_write_offset c + k\<rparr>) g"
        have moved: "wakes (insert i W) L {} ?g"
          by (rule wakes_upd [OF w]) (use wakesD(1) [OF w, of i] in auto)
        have cleared: "wakes (insert i W) L {} (upd_conn i clear_batch ?g)"
          unfolding upd_conn_twice by (rule wakes_upd [OF w]) (use wakesD(1) [OF w, of i] in \<open>auto simp: clear_batch_def\<close>)
        consider "k = 0" | "k \<noteq> 0" "cn_write_offset (conn i g) + k < length (cn_write_buf (conn i g))"
          | "k \<noteq> 0" "\<not> cn_write_offset (conn i g) + k < length (cn_write_buf (conn i g))" by blast
        then show ?thesis
        proof cases
          case 1
          then show ?thesis using t open_conn unwritten Wrote WriteLoop w by (auto simp: after_write_def)
        next
          case 2
          then show ?thesis using e [OF moved] t open_conn unwritten Wrote WriteLoop i by (simp add: Let_def)
        next
          case 3
          then have "n = GoOn WriteLoop" "g' = upd_conn i clear_batch ?g" using t open_conn unwritten Wrote WriteLoop i
            by (simp_all add: Let_def)
          then show ?thesis using cleared by (simp add: after_write_def)
        qed
      next
        case WriteBlocked
        then show ?thesis using e [OF w] t open_conn unwritten WriteLoop by (simp add: Let_def)
      next
        case WriteFailed
        then show ?thesis using t open_conn unwritten WriteLoop w by (auto simp: after_write_def)
      qed
    next
      case written: False
      obtain f g1 where g1: "pop_outbound i g = Some (f, g1)"
        "(case f of None \<Rightarrow> n = GoOn Disabling \<and> g' = g1
          | Some m \<Rightarrow> (\<exists>k. n = GoOn (Filling k)) \<and> g' = upd_conn i (\<lambda>c. queue_message m (clear_batch c)) g1)"
        using t written open_conn WriteLoop by (auto simp: Let_def split: Option.bind_splits option.splits)
      note p = wakes_pop [OF ok i w g1(1)]
      show ?thesis
      proof (cases f)
        case None
        then have "\<not> has_output (conn i g')" "wakes (insert i W) L {} g'" using p g1(2) written by auto
        then have "wakes W L {i} g'" unfolding wakes_def by auto
        then show ?thesis using g1(2) None by (simp add: after_write_def)
      next
        case (Some m)
        then show ?thesis using g1(2) wakes_queued(2) [of "insert i W" L "{}" g1 i m] p by (auto simp: after_write_def)
      qed
    qed
  qed
next
  case (Filling k)
  have w: "wakes (insert i W) L {} g" using w Filling by simp
  show ?thesis
  proof (cases k)
    case 0
    then show ?thesis using t w Filling by (auto simp: after_write_def)
  next
    case (Suc j)
    obtain m g1 where g1: "pop_outbound i g = Some (m, g1)"
      "(case m of None \<Rightarrow> n = GoOn WriteLoop \<and> g' = g1 | Some m \<Rightarrow> n = GoOn (Filling j) \<and> g' = upd_conn i (queue_message m) g1)"
      using t Filling Suc by (auto split: Option.bind_splits option.splits)
    note p = wakes_pop [OF ok i w g1(1)]
    then show ?thesis using g1(2) wakes_queued(1) [of "insert i W" L "{}" g1 i] by (cases m) (auto simp: after_write_def)
  qed
next
  case Disabling
  have w: "wakes W L {i} g" using w Disabling by simp
  have "wakes W L {} (upd_conn i (\<lambda>c. c\<lparr>cn_write_interest := False\<rparr>) g)"
    by (rule wakes_upd [OF w]) (use wakesD [OF w, of i] in \<open>auto simp: has_output_def\<close>)
  moreover have "wakes W L {} g" "wakes (insert i W) L {} g" using w unfolding wakes_def by auto
  ultimately show ?thesis using t Disabling by (auto simp: disable_write_def after_write_def split: if_splits)
qed

section \<open>Draining\<close>

lemma wakes_popped:
  assumes ok: "gateway_ok r b g" and w: "wakes W L U g" and p: "try_pop (og_dirty g) = Some (Some i, q)"
  shows "wakes W (insert i L) U (g\<lparr>og_dirty := q\<rparr>)"
proof -
  note c = popped [OF gateway_okD(6) [OF ok] p]
  show ?thesis by (rule wakesI) (use wakesD [OF w] c in \<open>auto simp: listed_def\<close>)
qed

lemma wakes_unlist:
  assumes w: "wakes W (insert i L) {} g" and u: "unlist i g = (watch, g')"
  shows "wakes (if watch then insert i W else W) L {} g'"
  using u by (auto simp: unlist_def Let_def intro!: wakes_upd [OF w])

lemma wakes_sweep:
  assumes w: "wakes W ({i..} \<union> L) {} g" and u: "sweep_one i g = (watch, g')"
  shows "wakes (if watch then insert i W else W) ({Suc i..} \<union> L) {} g'"
proof -
  have s: "{i..} \<union> L \<subseteq> insert i ({Suc i..} \<union> L)" by auto
  show ?thesis
    using u s wakesD [OF w, of i] by (auto simp: sweep_one_def Let_def has_output_def intro!: wakes_upd [OF w])
qed

lemma wakes_accept:
  assumes w: "wakes W L U g" and cap: "unat (go_outbound_queue_capacity (og_options g)) \<le> 2 ^ 63" and a: "accept_one x g = Some g'"
  shows "wakes W L U g'"
proof -
  have paused: "wakes W L U (pause_listen g)" using w wakes_frame [of "g\<lparr>og_listen_armed := False\<rparr>" g] by (simp add: pause_listen_def)
  show ?thesis
  proof (cases "\<exists>c. new_connection (og_next_session_id g) (go_outbound_queue_capacity (og_options g)) = Some c \<and>
      g' = g\<lparr>og_next_session_id := og_next_session_id g + 1, og_connections := og_connections g @ [c]\<rparr>")
    case True
    then obtain c where c: "new_connection (og_next_session_id g) (go_outbound_queue_capacity (og_options g)) = Some c"
      "g' = g\<lparr>og_next_session_id := og_next_session_id g + 1, og_connections := og_connections g @ [c]\<rparr>" by blast
    have "\<not> cn_dirty c" "\<not> has_output c"
      using c(1) new_queue(2) [OF cap] by (auto simp: new_connection_def has_output_def split: Option.bind_splits)
    then show ?thesis using w unfolding c(2) by (auto simp: wakes_def listed_def conn_def nth_append less_Suc_eq)
  next
    case False
    then show ?thesis using a w paused by (cases x) (auto split: if_splits Option.bind_splits)
  qed
qed

lemma wakes_finish_close: "wakes W L U (finish_close i added g) = wakes W L U g"
  by (rule wakes_frame) (auto simp: finish_close_def maybe_resume_listen_def unbind_session_def Let_def split: option.split)

section \<open>Every step\<close>

fun plain_stage :: "MessageStage \<Rightarrow> bool" where
  \<comment> \<open>what comes after a notification has nothing in hand\<close>
  "plain_stage (Notifying i onward) \<longleftrightarrow> stage_handles onward = {} \<and> stage_marks onward = {} \<and> plain_stage onward"
| "plain_stage (Pushing i onward) \<longleftrightarrow> stage_handles onward = {} \<and> stage_marks onward = {} \<and> plain_stage onward"
| "plain_stage (Flagging i onward) \<longleftrightarrow> stage_handles onward = {} \<and> stage_marks onward = {} \<and> plain_stage onward"
| "plain_stage _ \<longleftrightarrow> True"

fun plain_io :: "IoThread \<Rightarrow> bool" where
  "plain_io (Handling st) \<longleftrightarrow> plain_stage st"
| "plain_io _ \<longleftrightarrow> True"

definition awake :: "GatewaySystem \<Rightarrow> bool" where
  "awake s \<longleftrightarrow> plain_io (gs_io s) \<and> wakes (io_handles (gs_io s) \<union> report_handles (gs_stage s))
     (io_marks (gs_io s) \<union> report_marks (gs_stage s)) (io_unwatches (gs_io s)) (gs_gateway s)"

lemma resumes_plain: "resumes io \<Longrightarrow> io_handles io = {} \<and> io_unwatches io = {} \<and> plain_io io"
  by (cases io) auto

lemma start_plain: "start_message i m g = Some (st, g') \<Longrightarrow> plain_stage st"
  by (auto simp: start_message_def Let_def split: option.splits if_splits Option.bind_splits)

lemma turn_plain: "message_turn st g = Some (st', g') \<Longrightarrow> plain_stage st \<Longrightarrow> plain_stage st'"
  by (cases st) (auto split: prod.splits if_splits Option.bind_splits)

lemma step_awake:
  assumes "gateway_step s s'" "system_ok s" "awake s"
  shows "awake s'"
  using assms
proof (induction rule: gateway_step.induct)
  case (accept s x g)
  then show ?case using wakes_accept system_okD(5) by (simp add: awake_def)
next
  case (receive s i chunk)
  have "wakes W L U g \<Longrightarrow> wakes W L U (upd_conn i (\<lambda>c. c\<lparr>cn_read_buffer := cn_read_buffer c @ chunk\<rparr>) g)" for W L U g
    by (rule wakes_less) (simp_all add: has_output_def)
  then show ?case using receive.prems(2) by (simp add: awake_def)
next
  case (skip s i frame rest e)
  then show ?case using wakes_take_frame by (simp add: awake_def)
next
  case (read s i frame rest m st g)
  note t = take_frame_keeps [OF system_okD(1) [OF read.prems(1)], of i rest]
  show ?case
    using wakes_start_message [OF _ _ wakes_take_frame read.hyps(6)] t read.prems(2) read.hyps(1,2) keeps_length [OF t] start_plain [OF read.hyps(6)]
    by (auto simp: awake_def keeps_def)
next
  case (message s st st' g)
  have p: "plain_stage st" "message_ok (gs_gateway s) st"
    using message.prems message.hyps(1) system_okD(2) [OF message.prems(1)] by (simp_all add: awake_def)
  have "wakes (stage_handles st' \<union> report_handles (gs_stage s)) (stage_marks st' \<union> report_marks (gs_stage s)) {} g"
    by (rule wakes_message_turn [OF system_okD(1) [OF message.prems(1)] p(2) _ message.hyps(4)])
      (use message.prems(2) message.hyps(1) p(1) in \<open>auto simp: awake_def\<close>)
  then show ?case using turn_plain [OF message.hyps(4) p(1)] by (simp add: awake_def)
next
  case (hang_up s i)
  have "wakes (report_handles (gs_stage s)) (report_marks (gs_stage s)) {} (gs_gateway s)" using hang_up by (simp add: awake_def)
  then have "wakes (insert i (report_handles (gs_stage s))) (report_marks (gs_stage s)) {} (gs_gateway s)"
    by (rule wakes_mono) auto
  from wakes_close [OF this] show ?case by (simp add: awake_def)
next
  case (unbind s i onward added)
  have "resumes onward" using system_okD(2) [OF unbind.prems(1)] unbind.hyps(1) by simp
  then show ?case using unbind.prems(2) unbind.hyps(1) resumes_plain by (simp add: awake_def wakes_finish_close)
next
  case (start_writing s i)
  have "wakes (report_handles (gs_stage s)) (report_marks (gs_stage s)) {} (gs_gateway s)" using start_writing by (simp add: awake_def)
  then have "wakes (insert i (report_handles (gs_stage s))) (report_marks (gs_stage s)) {} (gs_gateway s)" by (rule wakes_mono) auto
  then show ?case by (simp add: awake_def)
next
  case (write_on s i st x modified w g)
  have i: "i < length (og_connections (gs_gateway s))" using system_okD(2) [OF write_on.prems(1)] write_on.hyps(1) by simp
  have "wakes (after_write i w \<union> report_handles (gs_stage s)) (report_marks (gs_stage s)) (if w = GoOn Disabling then {i} else {}) g"
    by (rule wakes_write_turn [OF system_okD(1) [OF write_on.prems(1)] i _ write_on.hyps(2)])
      (use write_on.prems(2) write_on.hyps(1) in \<open>simp add: awake_def\<close>)
  then show ?case using write_on.hyps(3) by (cases w) (auto simp: awake_def after_write_def)
next
  case (write_fails s i st x modified g)
  have i: "i < length (og_connections (gs_gateway s))" using system_okD(2) [OF write_fails.prems(1)] write_fails.hyps(1) by simp
  have "wakes (after_write i CloseIt \<union> report_handles (gs_stage s)) (report_marks (gs_stage s)) (if CloseIt = GoOn Disabling then {i} else {}) g"
    by (rule wakes_write_turn [OF system_okD(1) [OF write_fails.prems(1)] i _ write_fails.hyps(2)])
      (use write_fails.prems(2) write_fails.hyps(1) in \<open>simp add: awake_def\<close>)
  then show ?case using wakes_close by (simp add: awake_def after_write_def)
next
  case (pop s i q)
  then show ?case using wakes_popped [OF system_okD(1) [OF pop.prems(1)] _ pop.hyps(2)] by (simp add: awake_def)
next
  case (unlist s i watch g)
  then show ?case using wakes_unlist [OF _ unlist.hyps(2)] by (cases watch) (simp_all add: awake_def)
next
  case (overflow s)
  then have "wakes (report_handles (gs_stage s)) (report_marks (gs_stage s)) {} (gs_gateway s)" by (simp add: awake_def)
  then show ?case by (auto simp: awake_def wakes_def)
next
  case (sweep s i watch g)
  then show ?case using wakes_sweep [OF _ sweep.hyps(3)] by (cases watch) (simp_all add: awake_def)
next
  case (swept s i)
  then have "wakes (report_handles (gs_stage s)) ({i..} \<union> report_marks (gs_stage s)) {} (gs_gateway s)" by (simp add: awake_def)
  then show ?case using swept.hyps(2) by (auto simp: awake_def wakes_def)
next
  case (enable s i onward modified g)
  have r: "resumes onward" using system_okD(2) [OF enable.prems(1)] enable.hyps(1) by simp
  then show ?case using enable.prems(2) enable.hyps(1) wakes_enable [OF _ enable.hyps(2)] resumes_plain [OF r] by (simp add: awake_def)
next
  case (enable_fails s i onward modified g)
  then show ?case using wakes_close [OF wakes_enable_fails [OF _ enable_fails.hyps(2)]] by (simp add: awake_def)
next
  case (match s th p evs)
  then show ?case by (simp add: awake_def wakes_def listed_def)
next
  case (route s ev l rest)
  then show ?case by (auto simp: awake_def start_routing_def Let_def)
next
  case (report s st g)
  then show ?case using wakes_report_turn [OF system_okD(1,3) [OF report.prems(1)] _ report.hyps(2)] by (simp add: awake_def)
qed

lemma reachable_awake:
  assumes n: "new_gateway options k e = Some g" "unat (go_outbound_queue_capacity options) \<le> 2 ^ 63" and "gateway_reaches g s"
  shows "awake s"
  using assms(3)
proof (induction rule: gateway_reaches.induct)
  case start
  have "og_connections g = []" using n(1) by (auto simp: new_gateway_def split: Option.bind_splits)
  then show ?case by (simp add: awake_def wakes_def gateway_start_def)
next
  case (step s s')
  then show ?case using step_awake reachable_ok [OF n] by blast
qed

end
