(* ===== verification/GatewayProperties.thy ===== *)
theory GatewayProperties
  imports GatewayFraming GatewayWakeups ReferenceExchange
begin

text \<open>
  What the order entry gateway promises its sessions, in every state its two threads can reach, and where it
  falls short.
\<close>

definition to_be_sent :: "Connection \<Rightarrow> Message list" where
  "to_be_sent c = cn_write_pending c @ cn_replay_backlog c @ queue_contents (cn_session_outbound c) @ queue_contents (cn_outbound c)"

section \<open>A run to try the properties on\<close>

text \<open>A session sends two cancels, the second for an account that is not its own.\<close>

definition sample_request :: "AccountId \<Rightarrow> Message" where
  "sample_request a = CancelOrderM \<lparr>co_account_id = a, co_client_order_id = 300, co_instrument_id = 7\<rparr>"

definition sample_options :: GatewayOptions where
  "sample_options = \<lparr>go_outbound_queue_capacity = 1, go_pending_report_capacity = 4, go_writer_batch = 2\<rparr>"

definition one_slot :: "'a SpscQueue" where
  "one_slot = \<lparr>sq_capacity = 1, sq_mask = 0, sq_storage = [None], sq_high_water_mark = 0, sq_head = 0, sq_tail = 0\<rparr>"

lemma new_one_slot: "new_spsc_queue 1 = Some one_slot"
  by (simp add: new_spsc_queue_def one_slot_def next_power_of_two_def round_up.simps)

text \<open>The gateway with its one connection.\<close>

definition sample_state :: "nat SpscQueue \<Rightarrow> bool \<Rightarrow> ExchangeCommand MpscQueue \<Rightarrow> (AccountId \<rightharpoonup> nat list) \<Rightarrow> (OrderKey \<rightharpoonup> nat) \<Rightarrow>
    Connection list \<Rightarrow> OrderEntryGateway" where
  "sample_state dirty overflow queue sessions owner cs =
     \<lparr>og_options = sample_options, og_listen_armed = True, og_stop_requested = False, og_connections = cs,
      og_next_session_id = (if cs = [] then 1 else 2), og_dirty = dirty, og_dirty_overflow = overflow, og_account_sessions = sessions, og_order_owner = owner,
      og_pending_reports = Map.empty, og_pipeline = \<lparr>mp_queue = queue, mp_sequencer = new_sequencer, mp_processor = sample_gated,
        mp_commands_processed = 0, mp_commands_rejected = 0, mp_stop_requested = False\<rparr>\<rparr>"

definition sample_connection :: "byte list \<Rightarrow> AccountId option \<Rightarrow> bool \<Rightarrow> Message SpscQueue \<Rightarrow> Connection" where
  "sample_connection buffer account dirty session =
     \<lparr>cn_session_id = 1, cn_read_buffer = buffer, cn_write_buf = [], cn_write_offset = 0, cn_write_pending = [],
      cn_outbound = one_slot, cn_session_outbound = session, cn_replay_backlog = [], cn_account_id = account,
      cn_closed = False, cn_write_interest = False, cn_dirty = dirty\<rparr>"

definition sample_system :: "OrderEntryGateway \<Rightarrow> IoThread \<Rightarrow> (nat \<times> Message) list \<Rightarrow> (nat \<times> ExchangeCommand) list \<Rightarrow> GatewaySystem" where
  "sample_system g io rs cs = \<lparr>gs_gateway = g, gs_io = io, gs_stage = Routed, gs_routing = [], gs_received = rs, gs_submitted = cs\<rparr>"

lemmas sample_defs = sample_state_def sample_connection_def sample_system_def conn_def upd_conn_def

lemmas turn_defs = start_message_def bind_routes_def claim_mark_def push_mark_def claim_order_ownership_def submit_command_def
  pipeline_submit_def reject_account_mismatch_def take_frame_def binds_def Let_def

definition sample_cancel_command :: "AccountId \<Rightarrow> ExchangeCommand" where
  "sample_cancel_command a = CancelOrderC \<lparr>cc_command_sequence = 0, cc_account_id = a, cc_client_order_id = 300, cc_instrument_id = 7\<rparr>"

definition sample_frame :: "AccountId \<Rightarrow> byte list" where
  "sample_frame a = encode_message (sample_request a) []"

lemma sample_frames:
  "next_frame (sample_frame a @ rest) = Some (sample_frame a, rest)" "next_frame (sample_frame a) = Some (sample_frame a, [])"
  "decode_message (sample_frame a) = Inr (sample_request a)"
  "to_command (sample_request a) = Some (sample_cancel_command a)" "account_of_message (sample_request a) = a"
  using next_frame_encoding [of "sample_request a" rest] next_frame_encoding [of "sample_request a" "[]"] oe_decode_encode [of "sample_request a" "[]"]
  by (simp_all add: sample_frame_def sample_request_def sample_cancel_command_def)

definition rejected_session :: "Message SpscQueue" where
  "rejected_session = \<lparr>sq_capacity = 1, sq_mask = 0, sq_storage = [Some (mismatch_rejection (sample_cancel_command 8))],
     sq_high_water_mark = 1, sq_head = 1, sq_tail = 0\<rparr>"

lemma rejected_session:
  "try_push (mismatch_rejection (sample_cancel_command 8)) one_slot = Some (True, rejected_session)"
  "queue_contents rejected_session = [mismatch_rejection (sample_cancel_command 8)]"
  by (simp_all add: try_push_def one_slot_def rejected_session_def construct_at_def slot_index_def raise_high_water_mark_def Let_def
      queue_contents_def)

abbreviation own_cancel :: "OrderKey \<rightharpoonup> nat" where
  "own_cancel \<equiv> [order_key_of 7 300 \<mapsto> 0]"

lemma sample_run:
  obtains g q b p k j where "new_gateway sample_options 1 sample_gated = Some g"
    "gateway_reaches g (sample_system (sample_state q b p [7 \<mapsto> [0]] own_cancel [sample_connection [] (Some 7) True rejected_session]) AtPoller
       [(0, sample_request 7), (0, sample_request 8)] [(0, sample_cancel_command 7)])"
    "mpsc_ring p k 0 [sample_cancel_command 7]" "ring q j 0 False None [0]"
proof -
  obtain q :: "nat SpscQueue" and j where q: "new_spsc_queue 65536 = Some q" "ring q j 0 False None []"
    by (rule new_ring [of 65536]) (simp, rule that)
  obtain p :: "ExchangeCommand MpscQueue" and k where p: "new_mpsc_queue 1 = Some p" "mpsc_ring p k 0 []"
    by (rule new_mpsc [of 1]) (simp, rule that)
  let ?g = "sample_state q False p Map.empty Map.empty []"
  have g: "new_gateway sample_options 1 sample_gated = Some ?g"
    by (simp add: new_gateway_def new_matching_pipeline_def p(1) q(1) sample_state_def)
  obtain q1 where q1: "try_push 0 q = Some (True, q1)" "ring q1 j 0 False None [0]"
    using ring_push(1) [OF q(2), of 0] by auto
  obtain p1 where p1: "mpsc_try_push (sample_cancel_command 7) p = Some (True, p1)" "mpsc_ring p1 k 0 [sample_cancel_command 7]"
    using mpsc_ring_push(1) [OF p(2)] by auto
  let ?S = "\<lambda>q p ses own cn st. sample_system (sample_state q False p ses own [cn]) (Handling st)"
  let ?m = "sample_request 7" and ?c = "sample_cancel_command 7"
  let ?both = "sample_frame 7 @ sample_frame 8" and ?r1 = "[(0 :: nat, sample_request 7)]"
    and ?cn = "sample_connection (sample_frame 8)"
  note further = gateway_reaches.step and no_race = racing_def sample_system_def
  have "gateway_reaches ?g (sample_system ?g AtPoller [] [])" using gateway_reaches.start [of ?g] by (simp add: sample_system_def gateway_start_def)
  then have "gateway_reaches ?g (?S q p Map.empty Map.empty (sample_connection [] None False one_slot) Finished [] [])"
    using gateway_step.accept [of "sample_system ?g AtPoller [] []" "Accepted True True"]
    by (elim further) (simp_all add: no_race sample_defs new_connection_def sample_options_def new_one_slot)
  then have "gateway_reaches ?g (?S q p Map.empty Map.empty (sample_connection ?both None False one_slot) Finished [] [])"
    using gateway_step.receive [of "?S q p Map.empty Map.empty (sample_connection [] None False one_slot) Finished [] []" 0 ?both]
    by (elim further) (simp_all add: no_race sample_defs)
  then have "gateway_reaches ?g (?S q p [7 \<mapsto> [0]] Map.empty (?cn None False one_slot) (Binding 0 7 ?m ?c) ?r1 [])"
    using gateway_step.read [of "?S q p Map.empty Map.empty (sample_connection ?both None False one_slot) Finished [] []" 0 "sample_frame 7" "sample_frame 8" ?m]
    by (elim further) (simp_all add: no_race sample_frames sample_defs turn_defs)
  then have "gateway_reaches ?g (?S q p [7 \<mapsto> [0]] Map.empty (?cn (Some 7) False one_slot) (Notifying 0 (Claiming 0 7 ?m ?c)) ?r1 [])"
    using gateway_step.message [of "?S q p [7 \<mapsto> [0]] Map.empty (?cn None False one_slot) (Binding 0 7 ?m ?c) ?r1 []" "Binding 0 7 ?m ?c"]
    by (elim further) (simp_all add: no_race sample_defs)
  then have "gateway_reaches ?g (?S q p [7 \<mapsto> [0]] Map.empty (?cn (Some 7) True one_slot) (Pushing 0 (Claiming 0 7 ?m ?c)) ?r1 [])"
    using gateway_step.message [of "?S q p [7 \<mapsto> [0]] Map.empty (?cn (Some 7) False one_slot) (Notifying 0 (Claiming 0 7 ?m ?c)) ?r1 []" "Notifying 0 (Claiming 0 7 ?m ?c)"]
    by (elim further) (simp_all add: no_race sample_defs turn_defs)
  then have "gateway_reaches ?g (?S q1 p [7 \<mapsto> [0]] Map.empty (?cn (Some 7) True one_slot) (Claiming 0 7 ?m ?c) ?r1 [])"
    using gateway_step.message [of "?S q p [7 \<mapsto> [0]] Map.empty (?cn (Some 7) True one_slot) (Pushing 0 (Claiming 0 7 ?m ?c)) ?r1 []" "Pushing 0 (Claiming 0 7 ?m ?c)"]
    by (elim further) (simp_all add: no_race sample_defs turn_defs q1)
  then have "gateway_reaches ?g (?S q1 p [7 \<mapsto> [0]] own_cancel (?cn (Some 7) True one_slot) (Submitting 0 ?c) ?r1 [])"
    using gateway_step.message [of "?S q1 p [7 \<mapsto> [0]] Map.empty (?cn (Some 7) True one_slot) (Claiming 0 7 ?m ?c) ?r1 []" "Claiming 0 7 ?m ?c"]
    by (elim further) (simp_all add: no_race sample_defs turn_defs sample_request_def)
  then have "gateway_reaches ?g (?S q1 p1 [7 \<mapsto> [0]] own_cancel (?cn (Some 7) True one_slot) Finished ?r1 [(0, ?c)])"
    using gateway_step.message [of "?S q1 p [7 \<mapsto> [0]] own_cancel (?cn (Some 7) True one_slot) (Submitting 0 ?c) ?r1 []" "Submitting 0 ?c"]
    by (elim further) (simp_all add: no_race sample_defs turn_defs p1)
  then have "gateway_reaches ?g (?S q1 p1 [7 \<mapsto> [0]] own_cancel (sample_connection [] (Some 7) True rejected_session) (Notifying 0 Finished)
      [(0, ?m), (0, sample_request 8)] [(0, ?c)])"
    using gateway_step.read [of "?S q1 p1 [7 \<mapsto> [0]] own_cancel (?cn (Some 7) True one_slot) Finished ?r1 [(0, ?c)]" 0
        "sample_frame 8" "[]" "sample_request 8"]
    by (elim further) (simp_all add: no_race sample_frames sample_defs turn_defs rejected_session)
  then have "gateway_reaches ?g (?S q1 p1 [7 \<mapsto> [0]] own_cancel (sample_connection [] (Some 7) True rejected_session) Finished
      [(0, ?m), (0, sample_request 8)] [(0, ?c)])"
    using gateway_step.message [of "?S q1 p1 [7 \<mapsto> [0]] own_cancel (sample_connection [] (Some 7) True rejected_session) (Notifying 0 Finished)
        [(0, ?m), (0, sample_request 8)] [(0, ?c)]" "Notifying 0 Finished"]
    by (elim further) (simp_all add: no_race sample_defs turn_defs)
  then show thesis by (rule that [OF g _ p1(2) q1(2)])
qed

section \<open>Properties\<close>

text \<open>
  C5. Sessions are isolated. Whatever the two threads do, in any order, everything a connection is ever told -- what
  is being written, kept for it or queued for it -- is a report for the account it is bound to, or the rejection of a
  request for another account that came over this very connection; the bytes being written are the encodings of
  exactly those messages; and the commands submitted for a connection, with the one in hand, are the commands of the
  requests for its account it sent, each once and in their order. (\<open>gateway_reaches\<close> stops at a race of the two threads in
  the list of marked connections, which is undefined behaviour.)
\<close>

theorem sessions_are_isolated:
  assumes "new_gateway options n engine = Some g" "unat (go_outbound_queue_capacity options) \<le> 2 ^ 63" "gateway_reaches g s"
    "i < length (og_connections (gs_gateway s))"
  shows "(\<forall>m \<in> set (to_be_sent (conn i (gs_gateway s))).
      bound_to s i = Some (account_of_message m) \<or> refuses (received_on s i) (bound_to s i) m) \<and>
    cn_write_buf (conn i (gs_gateway s)) = concat (map (\<lambda>m. encode_message m []) (cn_write_pending (conn i (gs_gateway s)))) \<and>
    sent_on i (gs_submitted s @ io_commands (gs_io s)) = own_commands (bound_to s i) (sent_on i (gs_received s))"
proof -
  have ok: "system_ok s" by (rule reachable_ok [OF assms(1-3)])
  have "conn_ok (received_on s i) (bound_to s i) (conn i (gs_gateway s))" by (rule gateway_okD(5) [OF system_okD(1) [OF ok] assms(4)])
  moreover have "sent_on i (gs_submitted s @ io_commands (gs_io s)) = own_commands (bound_to s i) (sent_on i (gs_received s))"
    using system_okD(4) [OF ok] unfolding accounted_def by blast
  ultimately show ?thesis by (auto simp: conn_ok_def to_be_sent_def)
qed

theorem sessions_are_isolated_witness:
  "\<exists>g s. gateway_reaches g s \<and> to_be_sent (conn 0 (gs_gateway s)) = [mismatch_rejection (sample_cancel_command 8)] \<and>
     bound_to s 0 = Some 7 \<and> refuses (received_on s 0) (Some 7) (mismatch_rejection (sample_cancel_command 8)) \<and>
     sent_on 0 (gs_received s) = [sample_request 7, sample_request 8] \<and> sent_on 0 (gs_submitted s) = [sample_cancel_command 7]"
proof -
  obtain g q b p k where r: "new_gateway sample_options 1 sample_gated = Some g"
    "gateway_reaches g (sample_system (sample_state q b p [7 \<mapsto> [0]] own_cancel [sample_connection [] (Some 7) True rejected_session]) AtPoller
       [(0, sample_request 7), (0, sample_request 8)] [(0, sample_cancel_command 7)])" (is "gateway_reaches g ?s") by (rule sample_run)
  have e: "queue_contents one_slot = []" by (simp add: queue_contents_def one_slot_def)
  have t: "to_be_sent (conn 0 (gs_gateway ?s)) = [mismatch_rejection (sample_cancel_command 8)]" "bound_to ?s 0 = Some 7"
    "sent_on 0 (gs_received ?s) = [sample_request 7, sample_request 8]"
    using rejected_session(2) e by (simp_all add: to_be_sent_def sample_defs bound_to_def)
  have "0 < length (og_connections (gs_gateway ?s))" "unat (go_outbound_queue_capacity sample_options) \<le> 2 ^ 63"
    by (simp_all add: sample_defs sample_options_def)
  note c = sessions_are_isolated [OF r(1) this(2) r(2) this(1)]
  have "account_of_message (mismatch_rejection (sample_cancel_command 8)) = 8" by (simp add: sample_cancel_command_def)
  then have "refuses (received_on ?s 0) (Some 7) (mismatch_rejection (sample_cancel_command 8))" using c t by auto
  moreover have "sent_on 0 (gs_submitted ?s) = [sample_cancel_command 7]" using c t by (simp add: sample_frames sample_system_def)
  ultimately show ?thesis using r(2) t by blast
qed

text \<open>
  C15. Reports are kept back only for accounts nobody listens for: while reports are pending for an account, they are
  all for that account and no more than the configured capacity, and no open connection is bound to it.
\<close>

theorem reports_are_kept_only_for_absent_accounts:
  assumes "new_gateway options n engine = Some g" "unat (go_outbound_queue_capacity options) \<le> 2 ^ 63" "gateway_reaches g s"
    "og_pending_reports (gs_gateway s) a = Some reports"
  shows "(\<forall>m \<in> set reports. account_of_message m = a) \<and>
    length reports \<le> go_pending_report_capacity (og_options (gs_gateway s)) \<and>
    (\<forall>i < length (og_connections (gs_gateway s)). bound_to s i = Some a \<longrightarrow> cn_closed (conn i (gs_gateway s)))"
proof -
  note ok = system_okD(1) [OF reachable_ok [OF assms(1-3)]]
  have "cn_closed (conn i (gs_gateway s))" if "i < length (og_connections (gs_gateway s))" "bound_to s i = Some a" for i
    using gateway_okD(8) [OF ok that] gateway_okD(4) [OF ok assms(4)] by blast
  then show ?thesis using gateway_okD(3) [OF ok assms(4)] by blast
qed

definition sample_report :: Message where
  "sample_report = RejectedM \<lparr>rj_account_id = 7, rj_client_order_id = 300, rj_instrument_id = 7, rj_reason = UnknownOrderId\<rparr>"

lemma sample_match:
  assumes "mpsc_ring p k 0 [sample_cancel_command 7]"
  obtains m e where "matching_turn gated_process TryPop \<lparr>mp_queue = p, mp_sequencer = new_sequencer, mp_processor = sample_gated,
        mp_commands_processed = 0, mp_commands_rejected = 0, mp_stop_requested = False\<rparr> = Some (TryPop, m, [EvRejected e])"
    "to_execution_reports (EvRejected e) = [(order_key_of 7 300, sample_report)]"
proof -
  obtain p' where "mpsc_try_pop p = Some (Some (sample_cancel_command 7), p')" using mpsc_ring_pop(2) [OF assms] by auto
  then show thesis
    by (intro that [where e = "\<lparr>or_event_sequence = me_next_event_sequence sample_engine, or_command_sequence = 1, or_account_id = 7,
          or_client_order_id = 300, or_instrument_id = 7, or_reason = UnknownOrderId\<rparr>"]) (simp_all add: process_next_def sequence_command_def new_sequencer_def sample_cancel_command_def gated_forward_def
        process_def process_cancel_def Let_def sample_gated_def sample_engine reject_def emit_def sample_report_def order_key_of_def)
qed

theorem reports_are_kept_only_for_absent_accounts_witness:
  "\<exists>g s. gateway_reaches g s \<and> og_pending_reports (gs_gateway s) 7 = Some [sample_report] \<and> account_of_message sample_report = 7 \<and>
     bound_to s 0 = Some 7 \<and> cn_closed (conn 0 (gs_gateway s))"
proof -
  let ?rs = "[(0, sample_request 7), (0, sample_request 8)]" and ?cs = "[(0, sample_cancel_command 7)]"
    and ?cn = "(sample_connection [] (Some 7) True rejected_session)\<lparr>cn_closed := True\<rparr>"
  obtain g q b p k where r: "new_gateway sample_options 1 sample_gated = Some g"
    "gateway_reaches g (sample_system (sample_state q b p [7 \<mapsto> [0]] own_cancel [sample_connection [] (Some 7) True rejected_session]) AtPoller ?rs ?cs)"
    (is "gateway_reaches g (sample_system ?g7 _ _ _)")
    "mpsc_ring p k 0 [sample_cancel_command 7]" by (rule sample_run)
  let ?g8 = "sample_state q b p [7 \<mapsto> [0]] own_cancel [?cn]" and ?g9 = "sample_state q b p Map.empty Map.empty [?cn]"
  note further = gateway_reaches.step and no_race = racing_def sample_system_def
  have "gateway_reaches g (sample_system ?g8 (Closing 0 AtPoller) ?rs ?cs)"
    using r(2) gateway_step.hang_up [of "sample_system ?g7 AtPoller ?rs ?cs" 0] by (elim further) (simp_all add: no_race sample_defs set_closed_def)
  moreover have gone: "(\<lambda>k. if (if k = x then Some (0 :: nat) else None) = Some 0 then None else if k = x then Some 0 else None) = Map.empty" for x :: OrderKey
    by auto
  ultimately have s9: "gateway_reaches g (sample_system ?g9 AtPoller ?rs ?cs)"
    using gateway_step.unbind [of "sample_system ?g8 (Closing 0 AtPoller) ?rs ?cs" 0 AtPoller True]
    by (elim further) (simp_all add: no_race sample_defs finish_close_def unbind_session_def maybe_resume_listen_def Let_def gone cong: if_cong)
  obtain m e where m: "matching_turn gated_process TryPop (og_pipeline ?g9) = Some (TryPop, m, [EvRejected e])"
    "to_execution_reports (EvRejected e) = [(order_key_of 7 300, sample_report)]"
    using sample_match [OF r(3)] by (auto simp: sample_state_def)
  let ?l = "apply_event (EvRejected e) (ge_ledger sample_gated)" and ?s = "sample_system (?g9\<lparr>og_pipeline := m\<rparr>) AtPoller ?rs ?cs"
  let ?reports = "[(order_key_of 7 300, sample_report)]"
  have "gateway_reaches g (?s\<lparr>gs_routing := [(EvRejected e, ?l)]\<rparr>)"
    using s9 gateway_step.match [of "sample_system ?g9 AtPoller ?rs ?cs" TryPop m "[EvRejected e]"] m(1)
    by (elim further) (simp_all add: no_race sample_state_def)
  then have "gateway_reaches g (?s\<lparr>gs_stage := Delivering ?reports [] (EvRejected e) ?l\<rparr>)"
    using gateway_step.route [of "?s\<lparr>gs_routing := [(EvRejected e, ?l)]\<rparr>" "EvRejected e" ?l "[]"] m(2)
    by (elim further) (simp_all add: no_race start_routing_def del: to_execution_reports.simps)
  moreover obtain h where h: "report_turn (Delivering ?reports [] (EvRejected e) ?l) (gs_gateway ?s) = Some (Delivering [] [] (EvRejected e) ?l, h)"
    "og_pending_reports h = [7 \<mapsto> [sample_report]]" "og_connections h = [?cn]"
    by (simp add: route_report_def route_target_def live_session_def sample_system_def sample_state_def retain_def
        sample_options_def order_key_of_def Let_def)
  ultimately have s: "gateway_reaches g (?s\<lparr>gs_gateway := h, gs_stage := Delivering [] [] (EvRejected e) ?l\<rparr>)" (is "gateway_reaches g ?t")
    using gateway_step.report [of "?s\<lparr>gs_stage := Delivering ?reports [] (EvRejected e) ?l\<rparr>" "Delivering [] [] (EvRejected e) ?l" h]
    by (elim further) (simp_all add: no_race)
  have c: "length (og_connections (gs_gateway ?t)) = 1" "bound_to ?t 0 = Some 7" using h(3) by (simp_all add: bound_to_def sample_defs)
  have "og_pending_reports (gs_gateway ?t) 7 = Some [sample_report]" using h(2) by simp
  moreover from reports_are_kept_only_for_absent_accounts [OF r(1) _ s this] c have
    "account_of_message sample_report = 7" "cn_closed (conn 0 (gs_gateway ?t))" by (simp_all add: sample_options_def)
  ultimately show ?thesis using s c(2) by blast
qed

text \<open>
  C10. As long as the two threads never push onto the list of marked connections at the same time, no wake-up is lost:
  in every state reached so, for every open connection that has something to send, the poller watches it for writing
  (and the I/O thread is not about to end that); or it is marked, and it is on the list, or the overflow flag is set, or
  the thread that set or took its mark is still on the way to the one or the other; or a thread is about to
  mark it or to watch it, or the I/O thread is writing to it. When both threads are at rest only the first two remain, without
  \<open>on the way\<close>. (Pushing at the same time is the race of \<open>two_threads_marking_corrupt_the_list\<close>, and \<open>the_two_threads_can_race\<close>
  shows that nothing prevents it.)
\<close>

theorem no_wakeup_is_lost_without_a_race:
  assumes "new_gateway options n engine = Some g" "unat (go_outbound_queue_capacity options) \<le> 2 ^ 63" "gateway_reaches g s"
    "i < length (og_connections (gs_gateway s))" "\<not> cn_closed (conn i (gs_gateway s))" "has_output (conn i (gs_gateway s))"
  shows "cn_write_interest (conn i (gs_gateway s)) \<and> gs_io s \<noteq> Writing i Disabling \<or>
    cn_dirty (conn i (gs_gateway s)) \<and> (i \<in> set (queue_contents (og_dirty (gs_gateway s))) \<or> og_dirty_overflow (gs_gateway s) \<or>
      i \<in> io_marks (gs_io s) \<union> report_marks (gs_stage s)) \<or>
    i \<in> io_handles (gs_io s) \<union> report_handles (gs_stage s)"
proof -
  have a: "wakes (io_handles (gs_io s) \<union> report_handles (gs_stage s)) (io_marks (gs_io s) \<union> report_marks (gs_stage s))
      (io_unwatches (gs_io s)) (gs_gateway s)"
    using reachable_awake [OF assms(1-3)] by (simp add: awake_def)
  have u: "gs_io s = Writing i Disabling \<Longrightarrow> i \<in> io_unwatches (gs_io s)" by simp
  show ?thesis using wakesD [OF a assms(4)] assms(5,6) u unfolding listed_def by blast
qed

theorem no_wakeup_is_lost_without_a_race_witness:
  "\<exists>g s. gateway_reaches g s \<and> has_output (conn 0 (gs_gateway s)) \<and> gs_io s = AtPoller \<and> gs_stage s = Routed \<and>
     \<not> cn_write_interest (conn 0 (gs_gateway s)) \<and>
     cn_dirty (conn 0 (gs_gateway s)) \<and> (0 \<in> set (queue_contents (og_dirty (gs_gateway s))) \<or> og_dirty_overflow (gs_gateway s))"
proof -
  obtain g q b p k where r: "new_gateway sample_options 1 sample_gated = Some g"
    "gateway_reaches g (sample_system (sample_state q b p [7 \<mapsto> [0]] own_cancel [sample_connection [] (Some 7) True rejected_session]) AtPoller
       [(0, sample_request 7), (0, sample_request 8)] [(0, sample_cancel_command 7)])" (is "gateway_reaches g ?s") by (rule sample_run)
  have c: "0 < length (og_connections (gs_gateway ?s))" "\<not> cn_closed (conn 0 (gs_gateway ?s))" "has_output (conn 0 (gs_gateway ?s))"
    "gs_io ?s = AtPoller" "gs_stage ?s = Routed" "\<not> cn_write_interest (conn 0 (gs_gateway ?s))"
    using rejected_session(2) by (simp_all add: sample_defs has_output_def)
  have "unat (go_outbound_queue_capacity sample_options) \<le> 2 ^ 63" by (simp add: sample_options_def)
  from no_wakeup_is_lost_without_a_race [OF r(1) this r(2) c(1-3)] c r(2) show ?thesis by auto
qed

text \<open>
  C16. However the bytes of a session are cut into reads, the gateway handles exactly the messages the client
  encoded, each once and in their order, and is left with an empty buffer: reading any chunks that put
  together are the encodings of \<open>ms\<close> is the same as handling \<open>ms\<close>.
\<close>

theorem requests_survive_segmentation:
  assumes "i < length (og_connections g)" "cn_read_buffer (conn i g) = []"
    "concat chunks = concat (map (\<lambda>m. encode_message m []) ms)"
  shows "receive_chunks i chunks g = handle_messages i ms g"
proof -
  have n: "next_frame [] = None" by (simp add: next_frame_def decode_header_def HEADER_SIZE_def)
  have b: "take_frame i [] g = g" using take_frame_same [of i g] assms(2) by simp
  have "map_option (take_frame i []) (handle_messages i ms g) = handle_messages i ms g"
    using handle_messages_buffer [OF assms(1), of ms "[]"] b by simp
  moreover have "receive_chunks i chunks g = map_option (take_frame i []) (handle_messages i ms g)"
    using receive_chunks_frames [OF assms(1), of chunks] assms(2,3) n
    by (cases "handle_messages i ms g") (simp_all add: read_frames_encodings)
  ultimately show ?thesis by simp
qed

definition sample_start :: OrderEntryGateway where
  "sample_start = sample_state one_slot False
     \<lparr>mq_capacity = 1, mq_mask = 0, mq_slots = [free_slot], mq_high_water_mark = 0, mq_head = 0, mq_tail = 0\<rparr>
     Map.empty Map.empty [sample_connection [] None False one_slot]"

theorem requests_survive_segmentation_witness:
  "receive_chunks 0 [take 10 (sample_frame 7), drop 10 (sample_frame 7)] sample_start = handle_messages 0 [sample_request 7] sample_start \<and>
   map_option (\<lambda>g. cn_account_id (conn 0 g)) (handle_messages 0 [sample_request 7] sample_start) = Some (Some 7)"
proof
  show "receive_chunks 0 [take 10 (sample_frame 7), drop 10 (sample_frame 7)] sample_start = handle_messages 0 [sample_request 7] sample_start"
    by (rule requests_survive_segmentation) (simp_all add: sample_start_def sample_defs sample_frame_def)
  show "map_option (\<lambda>g. cn_account_id (conn 0 g)) (handle_messages 0 [sample_request 7] sample_start) = Some (Some 7)"
    by (simp add: handle_message_def finish_message.simps sample_start_def sample_defs turn_defs sample_request_def
        try_push_def one_slot_def construct_at_def slot_index_def raise_high_water_mark_def pipeline_defs)
qed

section \<open>Where the gateway falls short\<close>

text \<open>
  A frame of a type the protocol does not have is never skipped: whatever the session sends from then on is
  put behind it, nothing of it is handled, and the buffer only grows.
\<close>

theorem an_unknown_frame_type_wedges_the_session:
  assumes "i < length (og_connections g)" "HEADER_SIZE \<le> length (cn_read_buffer (conn i g))"
    "\<not> is_known_type (hd (cn_read_buffer (conn i g)))"
  shows "receive_chunks i chunks g = Some (take_frame i (cn_read_buffer (conn i g) @ concat chunks) g)"
proof -
  have n: "next_frame (cn_read_buffer (conn i g) @ c) = None" for c
  proof -
    obtain x y z xs where "cn_read_buffer (conn i g) = x # y # z # xs"
      using assms(2) by (auto simp: HEADER_SIZE_def Suc_le_length_iff numeral_eq_Suc)
    then show ?thesis using assms(3)
      by (simp add: next_frame_def decode_header_def HEADER_SIZE_def byte_reader_def field_gets Let_def split: option.split)
  qed
  show ?thesis
    using receive_chunks_frames [OF assms(1), of chunks] n [of "[]"] n [of "concat chunks"]
    by (simp add: read_frames.simps [of i "_ @ _"])
qed


theorem an_unknown_frame_type_wedges_the_session_witness:
  "receive_chunks 0 [sample_frame 7, sample_frame 7] (take_frame 0 [99, 0, 0] sample_start) =
     Some (take_frame 0 ([99, 0, 0] @ sample_frame 7 @ sample_frame 7) sample_start)"
  using an_unknown_frame_type_wedges_the_session [of 0 "take_frame 0 [99, 0, 0] sample_start" "[sample_frame 7, sample_frame 7]"]
  by (simp add: take_frame_commutes sample_start_def sample_state_def is_known_type_def HEADER_SIZE_def)

text \<open>
  The list of marked connections is a single-producer queue, but both threads mark. While the list has room,
  let the matching thread stop right after it has constructed its entry: when the I/O thread now marks a
  connection, it constructs over the live entry. On the machine one of the two entries is lost, and as the
  connection stays marked, nothing ever wakes its writer again.
\<close>

lemma two_threads_marking_corrupt_the_list:
  assumes "queue_ok (og_dirty g)" "length (queue_contents (og_dirty g)) < unat (sq_capacity (og_dirty g))"
  obtains t where "SpscQueue.acts [Action.CallPush i, Action.ProducerStep, Action.ProducerStep, Action.ProducerStep]
      \<lparr>th_queue = og_dirty g, th_producer = ProducerIdle, th_consumer = ConsumerIdle, th_published = [], th_received = []\<rparr> = Some t"
    "push_mark j (g\<lparr>og_dirty := th_queue t\<rparr>) = None"
proof -
  let ?q = "og_dirty g"
  have full: "\<not> sq_capacity ?q \<le> sq_head ?q - sq_tail ?q" and "construct_at (sq_head ?q) i ?q \<noteq> None"
    using spsc.push_room [OF assms(1) TrueI assms(2), of i] by (auto simp: try_push_def Let_def split: if_splits Option.bind_splits)
  then obtain q' where q': "construct_at (sq_head ?q) i ?q = Some q'" by blast
  then have s: "sq_head q' = sq_head ?q" "sq_tail q' = sq_tail ?q" "sq_capacity q' = sq_capacity ?q" "construct_at (sq_head ?q) j q' = None"
    by (auto simp: construct_at_def Let_def split: if_splits)
  then have "try_push j q' = None" using full by (simp add: try_push_def Let_def)
  moreover obtain t where "SpscQueue.acts [Action.CallPush i, Action.ProducerStep, Action.ProducerStep, Action.ProducerStep]
      \<lparr>th_queue = og_dirty g, th_producer = ProducerIdle, th_consumer = ConsumerIdle, th_published = [], th_received = []\<rparr> = Some t"
      "th_queue t = q'"
    using full q' by (simp add: producer_free_def Let_def)
  ultimately show thesis using that by (simp add: push_mark_def)
qed

text \<open>Such a moment comes: in the run above the writer of the first session goes to work, and a second session signs in.\<close>
abbreviation first_connection :: "bool \<Rightarrow> bool \<Rightarrow> Connection" where
  "first_connection marked watched \<equiv> (sample_connection [] (Some 7) marked rejected_session)\<lparr>cn_write_interest := watched\<rparr>"

abbreviation second_connection :: "byte list \<Rightarrow> AccountId option \<Rightarrow> bool \<Rightarrow> Connection" where
  "second_connection buffer account marked \<equiv> (sample_connection buffer account marked one_slot)\<lparr>cn_session_id := 2\<rparr>"

abbreviation two_sessions :: "nat SpscQueue \<Rightarrow> bool \<Rightarrow> ExchangeCommand MpscQueue \<Rightarrow> (AccountId \<rightharpoonup> nat list) \<Rightarrow> Connection \<Rightarrow> OrderEntryGateway" where
  "two_sessions q b p sessions c \<equiv>
     (sample_state q b p sessions own_cancel [first_connection False True, c])\<lparr>og_next_session_id := 3\<rparr>"

lemma sample_second_session:
  obtains g q b p k io rs cs where "new_gateway sample_options 1 sample_gated = Some g" "mpsc_ring p k 0 [sample_cancel_command 7]" "io_pushes io"
    "gateway_reaches g (sample_system (two_sessions q b p [7 \<mapsto> [0], 8 \<mapsto> [1]] (second_connection [] (Some 8) True)) io rs cs)"
proof -
  let ?rs = "[(0, sample_request 7), (0, sample_request 8)]" and ?cs = "[(0, sample_cancel_command 7)]"
  obtain g q b p k j where r: "new_gateway sample_options 1 sample_gated = Some g"
    "gateway_reaches g (sample_system (sample_state q b p [7 \<mapsto> [0]] own_cancel [sample_connection [] (Some 7) True rejected_session]) AtPoller ?rs ?cs)"
    (is "gateway_reaches g (sample_system ?g1 _ _ _)")
    "mpsc_ring p k 0 [sample_cancel_command 7]" "ring q j 0 False None [0]" by (rule sample_run)
  obtain q' where q': "try_pop q = Some (Some 0, q')" using ring_pop(2) [OF r(4)] by auto
  let ?G = "\<lambda>c. sample_state q' b p [7 \<mapsto> [0]] own_cancel [c]"
  let ?T = "\<lambda>ses c. sample_system (two_sessions q' b p ses c)"
  let ?m = "sample_request 8" and ?c = "sample_cancel_command 8"
  note further = gateway_reaches.step and no_race = racing_def sample_system_def
  have "gateway_reaches g (sample_system (?G (first_connection True False)) (Popped 0) ?rs ?cs)"
    using r(2) gateway_step.pop [of "sample_system ?g1 AtPoller ?rs ?cs" 0 q'] q' by (elim further) (simp_all add: no_race sample_defs)
  then have "gateway_reaches g (sample_system (?G (first_connection False False)) (Enabling 0 AtPoller) ?rs ?cs)"
    using gateway_step.unlist [of "sample_system (?G (first_connection True False)) (Popped 0) ?rs ?cs" 0]
    by (elim further) (simp_all add: no_race sample_defs unlist_def Let_def)
  then have "gateway_reaches g (sample_system (?G (first_connection False True)) AtPoller ?rs ?cs)"
    using gateway_step.enable [of "sample_system (?G (first_connection False False)) (Enabling 0 AtPoller) ?rs ?cs" 0 AtPoller True]
    by (elim further) (simp_all add: no_race sample_defs enable_write_def)
  then have "gateway_reaches g (?T [7 \<mapsto> [0]] (second_connection [] None False) AtPoller ?rs ?cs)"
    using gateway_step.accept [of "sample_system (?G (first_connection False True)) AtPoller ?rs ?cs" "Accepted True True"]
    by (elim further) (simp_all add: no_race sample_defs new_connection_def sample_options_def new_one_slot)
  then have "gateway_reaches g (?T [7 \<mapsto> [0]] (second_connection (sample_frame 8) None False) AtPoller ?rs ?cs)"
    using gateway_step.receive [of "?T [7 \<mapsto> [0]] (second_connection [] None False) AtPoller ?rs ?cs" 1 "sample_frame 8"]
    by (elim further) (simp_all add: no_race sample_defs)
  then have "gateway_reaches g (?T [7 \<mapsto> [0], 8 \<mapsto> [1]] (second_connection [] None False) (Handling (Binding 1 8 ?m ?c)) (?rs @ [(1, ?m)]) ?cs)"
    using gateway_step.read [of "?T [7 \<mapsto> [0]] (second_connection (sample_frame 8) None False) AtPoller ?rs ?cs" 1 "sample_frame 8" "[]" ?m]
    by (elim further) (simp_all add: no_race sample_frames sample_defs turn_defs)
  then have "gateway_reaches g (?T [7 \<mapsto> [0], 8 \<mapsto> [1]] (second_connection [] (Some 8) False) (Handling (Notifying 1 (Claiming 1 8 ?m ?c))) (?rs @ [(1, ?m)]) ?cs)"
    using gateway_step.message [of "?T [7 \<mapsto> [0], 8 \<mapsto> [1]] (second_connection [] None False) (Handling (Binding 1 8 ?m ?c)) (?rs @ [(1, ?m)]) ?cs" "Binding 1 8 ?m ?c"]
    by (elim further) (simp_all add: no_race sample_defs)
  then have "gateway_reaches g (?T [7 \<mapsto> [0], 8 \<mapsto> [1]] (second_connection [] (Some 8) True) (Handling (Pushing 1 (Claiming 1 8 ?m ?c))) (?rs @ [(1, ?m)]) ?cs)"
    using gateway_step.message [of "?T [7 \<mapsto> [0], 8 \<mapsto> [1]] (second_connection [] (Some 8) False) (Handling (Notifying 1 (Claiming 1 8 ?m ?c))) (?rs @ [(1, ?m)]) ?cs" "Notifying 1 (Claiming 1 8 ?m ?c)"]
    by (elim further) (simp_all add: no_race sample_defs turn_defs)
  then show thesis by (intro that [OF r(1,3)]) simp_all
qed

text \<open>
  Meanwhile the matching thread rejects the cancel of the first session, delivers the report and marks the connection: now
  both threads are inside \<open>try_push\<close> of the one list.
\<close>

lemma the_two_threads_can_race:
  "\<exists>g s. new_gateway sample_options 1 sample_gated = Some g \<and> gateway_reaches g s \<and> racing s"
proof -
  obtain g q b p k io rs cs where r: "new_gateway sample_options 1 sample_gated = Some g" "mpsc_ring p k 0 [sample_cancel_command 7]" "io_pushes io"
    "gateway_reaches g (sample_system (two_sessions q b p [7 \<mapsto> [0], 8 \<mapsto> [1]] (second_connection [] (Some 8) True)) io rs cs)"
    (is "gateway_reaches g (sample_system ?g _ _ _)") by (rule sample_second_session)
  obtain m e where m: "matching_turn gated_process TryPop (og_pipeline ?g) = Some (TryPop, m, [EvRejected e])"
    "to_execution_reports (EvRejected e) = [(order_key_of 7 300, sample_report)]"
    using sample_match [OF r(2)] by (auto simp: sample_state_def)
  let ?l = "apply_event (EvRejected e) (ge_ledger sample_gated)" and ?s = "sample_system (?g\<lparr>og_pipeline := m\<rparr>) io rs cs"
  let ?D = "\<lambda>rs wake. Delivering rs wake (EvRejected e) ?l" and ?reports = "[(order_key_of 7 300, sample_report)]"
    and ?H = "update_order_ownership (apply_event (EvRejected e) (ge_ledger sample_gated)) (EvRejected e)"
  note further = gateway_reaches.step and no_race = racing_def sample_system_def
  have "gateway_reaches g (?s\<lparr>gs_routing := [(EvRejected e, ?l)]\<rparr>)"
    using r(4) gateway_step.match [of "sample_system ?g io rs cs" TryPop m "[EvRejected e]"] m(1)
    by (elim further) (simp_all add: no_race sample_state_def)
  then have "gateway_reaches g (?s\<lparr>gs_stage := ?D ?reports []\<rparr>)"
    using gateway_step.route [of "?s\<lparr>gs_routing := [(EvRejected e, ?l)]\<rparr>" "EvRejected e" ?l "[]"] m(2)
    by (elim further) (simp_all add: no_race start_routing_def del: to_execution_reports.simps)
  moreover obtain h where h: "report_turn (?D ?reports []) (gs_gateway ?s) = Some (?D [] [0], h)" "\<not> cn_dirty (conn 0 h)"
    by (simp add: route_report_def route_target_def deliver_def sample_defs order_key_of_def try_push_def one_slot_def
        construct_at_def slot_index_def raise_high_water_mark_def Let_def)
  ultimately have "gateway_reaches g (?s\<lparr>gs_gateway := h, gs_stage := ?D [] [0]\<rparr>)"
    using gateway_step.report [of "?s\<lparr>gs_stage := ?D ?reports []\<rparr>" "?D [] [0]" h] by (elim further) (simp_all add: no_race)
  then have "gateway_reaches g (?s\<lparr>gs_gateway := (?H h), gs_stage := Waking [0]\<rparr>)"
    using gateway_step.report [of "?s\<lparr>gs_gateway := h, gs_stage := ?D [] [0]\<rparr>" "Waking [0]" "?H h"]
    by (elim further) (simp_all add: no_race)
  moreover have "claim_mark 0 (?H h) = (True, upd_conn 0 (\<lambda>c. c\<lparr>cn_dirty := True\<rparr>) (?H h))" using h(2) by (simp add: claim_mark_def conn_def disown_def)
  ultimately have "gateway_reaches g (?s\<lparr>gs_gateway := upd_conn 0 (\<lambda>c. c\<lparr>cn_dirty := True\<rparr>) (?H h), gs_stage := WakePushing 0 []\<rparr>)"
    (is "gateway_reaches g ?t")
    using gateway_step.report [of "?s\<lparr>gs_gateway := (?H h), gs_stage := Waking [0]\<rparr>" "WakePushing 0 []"]
    by (elim further) (simp_all add: no_race)
  moreover have "racing ?t" using r(3) by (simp add: no_race)
  ultimately show ?thesis using r(1) by blast
qed

text \<open>
  A command that meets a full pipeline queue is counted and forgotten: the session is told nothing, and the
  record of who owns the order stays.
\<close>

lemma a_full_pipeline_loses_commands_silently:
  assumes "mpsc_ok (mp_queue (og_pipeline g))" "unat (mq_capacity (mp_queue (og_pipeline g))) \<le> length (mpsc_contents (mp_queue (og_pipeline g)))"
    "to_command m = Some c" "cn_account_id (conn i g) = Some (account_of_message m)" "handle_message i m g = Some g'"
  shows "og_connections g' = og_connections g \<and> og_dirty g' = og_dirty g \<and>
    mpsc_contents (mp_queue (og_pipeline g')) = mpsc_contents (mp_queue (og_pipeline g)) \<and>
    (\<forall>k. claimed_key (account_of_message m) m = Some k \<longrightarrow> og_order_owner g' k \<noteq> None)"
proof -
  let ?g = "claim_order_ownership i (account_of_message m) m g"
  have p: "og_pipeline ?g = og_pipeline g" "og_dirty ?g = og_dirty g" by (auto simp: claim_order_ownership_def split: option.split)
  obtain q where q: "mpsc_try_push c (mp_queue (og_pipeline g)) = Some (False, q)" "mpsc_contents q = mpsc_contents (mp_queue (og_pipeline g))"
    using mpsc.push_full [OF assms(1,2), of c] by auto
  have "submit_command c ?g = Some g'"
    using assms(3-5) by (simp add: handle_message_def start_message_def Let_def finish_message.simps split: Option.bind_splits)
  then have g': "g' = ?g\<lparr>og_pipeline := (og_pipeline g)\<lparr>mp_queue := q, mp_commands_rejected := mp_commands_rejected (og_pipeline g) + 1\<rparr>\<rparr>"
    using q by (simp add: submit_command_def pipeline_submit_def p Let_def)
  have "og_order_owner ?g k \<noteq> None" if "claimed_key (account_of_message m) m = Some k" for k
    using that by (auto simp: claim_order_ownership_def split: option.split)
  then show ?thesis using g' p q by simp
qed

text \<open>
  An immediate-or-cancel order that finds nothing to trade with is accepted and gone from the books, but no
  report says so: the acceptance is all there is, and routing it leaves the record of its owner for as long as the
  session lives. A later order under the same identifier is then reported to that session, whoever sent it.
\<close>

lemma owner_outlives_an_unfilled_ioc:
  assumes e: "engine_inv e" "command_ok (NewOrderC cmd) e" and cmd: "nc_time_in_force cmd = IOC" "sint (nc_price cmd) > 0" "nc_quantity cmd \<noteq> 0"
    "knows_instrument (nc_instrument_id cmd) e" "live_key (nc_account_id cmd) (nc_client_order_id cmd) \<notin> dom (me_orders e)"
    "view e (nc_instrument_id cmd) (contra_side (nc_side cmd)) = []"
  obtains e' ev where "process (NewOrderC cmd) e = Some (e', [ev])" "me_orders e' (live_key (nc_account_id cmd) (nc_client_order_id cmd)) = None"
    "\<And>l g g'. route_event l ev g = Some g' \<Longrightarrow> og_order_owner g' = og_order_owner g"
proof -
  let ?x = "exchange_of e" and ?k = "live_key (nc_account_id cmd) (nc_client_order_id cmd)" and ?i = "nc_instrument_id cmd"
  have books: "xc_book (exchange_of d) j = orders_in_view d j" for d j by (simp add: exchange_of_simps)
  have free: "?k \<notin> book_keys (xc_book ?x j)" for j
    using live_iff [OF e(1), of ?k] cmd(5) unfolding books by auto
  have empty: "xc_book ?x ?i (contra_side (nc_side cmd)) = []" using cmd(6) by (simp add: exchange_of_def)
  let ?ev = "accepted_event cmd (xc_next_id ?x) (xc_next_event ?x)"
  have x: "exchange_process (NewOrderC cmd) ?x = commit ?i (xc_book ?x ?i) [?ev] (?x\<lparr>xc_next_id := xc_next_id ?x + 1\<rparr>)"
    using cmd(1-4) free empty
    by (simp add: exchange_new_def Let_def place_in_def take_events_def placed_events_def fun_upd_idem exchange_of_simps)
  obtain e' where e': "process (NewOrderC cmd) e = Some (e', [?ev])" "engine_inv e'" "exchange_of e' = fst (exchange_process (NewOrderC cmd) ?x)"
    by (rule step_follows [OF e(1), of "NewOrderC cmd"]) (use e x in \<open>simp_all add: admissible_command_ok commit_def\<close>)
  have "xc_book (exchange_of e') = xc_book ?x" using e'(3) x by (simp add: commit_def)
  then have "me_orders e' ?k = None" using live_iff [OF e'(2), of ?k] free books by metis
  moreover have "og_order_owner g' = og_order_owner g" if "route_event l ?ev g = Some g'" for l g g'
  proof -
    have "og_order_owner h' = og_order_owner h"
      if "finish_routing st h = Some h'" "\<And>rs wake ev' l'. st = Delivering rs wake ev' l' \<Longrightarrow> \<exists>a. ev' = EvAccepted a" for st h h'
      using that
    proof (induction st h rule: finish_routing.induct)
      case (1 st h)
      show ?case
      proof (cases "st = Routed")
        case False
        obtain st' h1 where t: "report_turn st h = Some (st', h1)" "finish_routing st' h1 = Some h'"
          using 1(2) False by (auto simp: finish_routing.simps [of st h] split: Option.bind_splits)
        have "og_order_owner h1 = og_order_owner h"
          using t(1) 1(3) by (cases "(st, h)" rule: report_turn.cases)
            (auto simp: route_report_def deliver_def retain_def claim_mark_def push_mark_def flag_overflow_def upd_conn_def Let_def
              split: prod.splits option.splits Option.bind_splits if_splits)
        moreover have "\<exists>a. ev' = EvAccepted a" if "st' = Delivering rs wake ev' l'" for rs wake ev' l'
          using t(1) 1(3) that by (cases "(st, h)" rule: report_turn.cases) (auto split: prod.splits Option.bind_splits if_splits)
        ultimately show ?thesis using 1(1) [OF False t(1) refl t(2)] by metis
      qed (use 1(2) in \<open>simp add: finish_routing.simps\<close>)
    qed
    then show ?thesis using that by (auto simp: route_event_def start_routing_def accepted_event_def Let_def)
  qed
  ultimately show thesis using that e'(1) by blast
qed

end
