(* ===== verification/TraderView.thy ===== *)
theory TraderView
  imports ReferenceExchange OrderManagement GatewayMessages
begin

text \<open>
  The order management system against the exchange. Orders are compared without the marks a request in
  flight leaves on them (\<open>core\<close>): what a report does to the rest depends on nothing else. A set of pairs
  of an instrument and an order is what rests, with the order being matched counted in while it can still
  rest.
\<close>

section \<open>Reports and the core of an order\<close>

definition core :: "ClientOrder \<Rightarrow> ClientOrder" where
  "core r = r\<lparr>ord_pending_action := NoAction, ord_last_reject_reason := NoReason\<rparr>"

definition cores :: "OrderManagementSystem \<Rightarrow> Orders" where
  "cores m = map_option core \<circ> om_orders m"

fun track :: "Message \<Rightarrow> Orders \<Rightarrow> Orders" where
  "track (AcceptedM ev) C =
     (case C (ac_client_order_id ev) of
        None \<Rightarrow> C
      | Some r \<Rightarrow> C(ac_client_order_id ev \<mapsto> r\<lparr>ord_exchange_order_id := Some (ac_exchange_order_id ev), ord_state := Live,
                    ord_quantity := ac_quantity ev, ord_remaining_quantity := ac_quantity ev\<rparr>))"
| "track (RejectedM ev) C =
     (case C (rj_client_order_id ev) of
        None \<Rightarrow> C
      | Some r \<Rightarrow> C(rj_client_order_id ev \<mapsto> (if ord_state r = PendingNew then r\<lparr>ord_state := RejectedOrder\<rparr> else r)))"
| "track (CancelledM ev) C =
     (case C (cl_client_order_id ev) of
        None \<Rightarrow> C
      | Some r \<Rightarrow> C(cl_client_order_id ev \<mapsto> r\<lparr>ord_state := CancelledOrder\<rparr>))"
| "track (ReplacedM ev) C =
     (let C = (case C (rl_original_client_order_id ev) of
                 None \<Rightarrow> C
               | Some r \<Rightarrow> C(rl_original_client_order_id ev \<mapsto> r\<lparr>ord_state := ReplacedOrder\<rparr>))
      in case C (rl_new_client_order_id ev) of
           None \<Rightarrow> C
         | Some r \<Rightarrow> C(rl_new_client_order_id ev \<mapsto> r\<lparr>ord_state := Live, ord_exchange_order_id := Some (rl_exchange_order_id ev),
                       ord_price := rl_new_price ev, ord_quantity := rl_new_quantity ev,
                       ord_remaining_quantity := rl_new_quantity ev\<rparr>))"
| "track (TradeReportM ev) C =
     (case C (tr_client_order_id ev) of
        None \<Rightarrow> C
      | Some r \<Rightarrow> C(tr_client_order_id ev \<mapsto> r\<lparr>ord_remaining_quantity := tr_remaining_quantity ev,
                    ord_state := (if tr_remaining_quantity ev = 0 then Filled else PartiallyFilled)\<rparr>))"
| "track _ C = C"

lemma handle_core: "cores (fst (handle_message msg m)) = track msg (cores m)"
  by (cases msg)
     (auto simp: cores_def core_def on_accepted_def on_rejected_def on_cancelled_def on_replaced_def on_trade_report_def
        Let_def fun_eq_iff split: option.splits)

lemma handle_frame: "om_account_id (fst (handle_message msg m)) = om_account_id m"
  "om_next_client_order_id (fst (handle_message msg m)) = om_next_client_order_id m"
  by (cases msg; simp add: on_accepted_def on_rejected_def on_cancelled_def on_replaced_def on_trade_report_def
        Let_def split: option.splits)+

definition handle_all :: "Message list \<Rightarrow> OrderManagementSystem \<Rightarrow> OrderManagementSystem" where
  "handle_all ms m = fold (\<lambda>msg m. fst (handle_message msg m)) ms m"

lemma handle_all_cores: "cores (handle_all ms m) = fold track ms (cores m)"
  by (induction ms arbitrary: m) (simp_all add: handle_all_def handle_core)

section \<open>What is shown and what rests\<close>

type_synonym OrderInfo = "ExchangeOrderId option \<times> InstrumentId \<times> Side \<times> Price \<times> Quantity"

definition order_info :: "ClientOrder \<Rightarrow> OrderInfo" where
  "order_info r = (ord_exchange_order_id r, ord_instrument_id r, ord_side r, ord_price r, ord_remaining_quantity r)"

definition gtc_info :: "ClientOrder \<Rightarrow> OrderInfo option" where
  \<comment> \<open>the orders that can rest: working, and good till cancelled\<close>
  "gtc_info r = (if is_live (ord_state r) \<and> ord_time_in_force r = GTC then Some (order_info r) else None)"

definition shown :: "Orders \<Rightarrow> ClientOrderId \<Rightarrow> OrderInfo option" where
  "shown C c = Option.bind (C c) gtc_info"

definition rest_info :: "InstrumentId \<Rightarrow> BookOrder \<Rightarrow> OrderInfo" where
  "rest_info i b = (Some (bo_exchange_order_id b), i, bo_side b, bo_price b, bo_remaining_quantity b)"

type_synonym Resting = "(InstrumentId \<times> BookOrder) set"

definition mirrors :: "AccountId \<Rightarrow> Orders \<Rightarrow> Resting \<Rightarrow> bool" where
  "mirrors a C S \<longleftrightarrow> (\<forall>c y. shown C c = Some y \<longleftrightarrow> (\<exists>i b. (i, b) \<in> S \<and> key_of b = live_key a c \<and> rest_info i b = y))"

definition keyed :: "Resting \<Rightarrow> bool" where
  "keyed S \<longleftrightarrow> (\<forall>i b j c. (i, b) \<in> S \<longrightarrow> (j, c) \<in> S \<longrightarrow> key_of b = key_of c \<longrightarrow> i = j \<and> b = c)"

definition upd :: "InstrumentId \<Rightarrow> BookOrder \<Rightarrow> Quantity \<Rightarrow> Resting \<Rightarrow> Resting" where
  "upd i b q S = S - {(i, b)} \<union> (if q = 0 then {} else {(i, set_quantity q b)})"

lemma keyedD: "keyed S \<Longrightarrow> (i, b) \<in> S \<Longrightarrow> (j, c) \<in> S \<Longrightarrow> key_of b = key_of c \<Longrightarrow> i = j \<and> b = c"
  unfolding keyed_def by blast

lemma mirrorsD: "mirrors a C S \<Longrightarrow> shown C c = Some y \<longleftrightarrow> (\<exists>i b. (i, b) \<in> S \<and> key_of b = live_key a c \<and> rest_info i b = y)"
  unfolding mirrors_def by blast

lemma shown_upd: "shown (C(c \<mapsto> r)) = (shown C)(c := gtc_info r)"
  by (auto simp: shown_def fun_eq_iff)

lemma key_of_live: "key_of b = live_key a c \<longleftrightarrow> bo_account_id b = a \<and> bo_client_order_id b = c"
  by (auto simp: key_of_def live_key_def)

lemma key_set_quantity [simp]: "key_of (set_quantity q b) = key_of b"
  by (simp add: key_of_def set_quantity_def)

text \<open>One order changes, its owner is told; everybody else is not.\<close>

lemma mirrors_update:
  assumes m: "mirrors a C S" and k: "key_of b = live_key a c"
    and S': "\<And>j d. key_of d \<noteq> live_key a c \<Longrightarrow> (j, d) \<in> S' \<longleftrightarrow> (j, d) \<in> S"
    and r: "\<And>y. gtc_info r = Some y \<longleftrightarrow> (\<exists>j d. (j, d) \<in> S' \<and> key_of d = live_key a c \<and> rest_info j d = y)"
  shows "mirrors a (C(c \<mapsto> r)) S'"
  unfolding mirrors_def shown_upd
proof (intro allI)
  fix e y
  show "((shown C)(c := gtc_info r)) e = Some y \<longleftrightarrow> (\<exists>i b. (i, b) \<in> S' \<and> key_of b = live_key a e \<and> rest_info i b = y)"
  proof (cases "e = c")
    case False
    then have "live_key a e \<noteq> live_key a c" by (simp add: live_key_def)
    then show ?thesis using mirrorsD [OF m, of e y] S' False by auto metis+
  qed (use r in simp)
qed

lemma mirrors_foreign:
  assumes "mirrors a C S" "\<And>j d. bo_account_id d = a \<Longrightarrow> (j, d) \<in> S' \<longleftrightarrow> (j, d) \<in> S"
  shows "mirrors a C S'"
  using assms unfolding mirrors_def key_of_live by blast

text \<open>What no report changes: whose order it is, its terms, and that a request still pending is pending.\<close>

definition kept :: "bool \<Rightarrow> ClientOrder \<Rightarrow> ClientOrder \<Rightarrow> bool" where
  "kept own r r' \<longleftrightarrow>
     ord_instrument_id r' = ord_instrument_id r \<and> ord_side r' = ord_side r \<and> ord_time_in_force r' = ord_time_in_force r \<and>
     (ord_state r \<noteq> PendingNew \<longrightarrow> ord_state r' \<noteq> PendingNew) \<and> (ord_state r = PendingNew \<and> \<not> own \<longrightarrow> r' = r)"

definition evolves :: "ClientOrderId set \<Rightarrow> Orders \<Rightarrow> Orders \<Rightarrow> bool" where
  "evolves P C C' \<longleftrightarrow> (\<forall>c. rel_option (kept (c \<in> P)) (C c) (C' c))"

lemma kept_simps: "kept own r r" "kept own r r' \<Longrightarrow> kept own r' r'' \<Longrightarrow> kept own r r''" "kept False r r' \<Longrightarrow> kept own r r'"
  by (auto simp: kept_def)

lemma evolves_refl [simp]: "evolves P C C"
  by (simp add: evolves_def option.rel_refl kept_simps(1))

lemma evolves_trans:
  assumes "evolves P C C1" "evolves P C1 C2"
  shows "evolves P C C2"
  unfolding evolves_def
proof
  fix c
  have "rel_option (kept (c \<in> P)) (C c) (C1 c)" "rel_option (kept (c \<in> P)) (C1 c) (C2 c)" using assms by (simp_all add: evolves_def)
  then show "rel_option (kept (c \<in> P)) (C c) (C2 c)"
    by (cases "C c"; cases "C1 c"; cases "C2 c") (auto intro: kept_simps(2))
qed

lemma evolves_mono:
  assumes "evolves {} C C'"
  shows "evolves P C C'"
  unfolding evolves_def
proof
  fix c
  show "rel_option (kept (c \<in> P)) (C c) (C' c)"
    by (rule option.rel_mono_strong [of "kept False"]) (use assms in \<open>auto simp: evolves_def intro: kept_simps(3)\<close>)
qed

lemma evolvesD:
  assumes "evolves P C C'"
  shows "C c = Some r \<Longrightarrow> \<exists>r'. C' c = Some r' \<and> kept (c \<in> P) r r'" "C c = None \<Longrightarrow> C' c = None"
  using assms [unfolded evolves_def, rule_format, of c] by (auto simp: option_rel_Some1)

lemma evolves_put:
  assumes "C c = Some r" "ord_instrument_id r' = ord_instrument_id r" "ord_side r' = ord_side r"
    "ord_time_in_force r' = ord_time_in_force r" "ord_state r' \<noteq> PendingNew" "ord_state r \<noteq> PendingNew \<or> c \<in> P"
  shows "evolves P C (C(c \<mapsto> r'))"
  using assms by (auto simp: evolves_def kept_def option.rel_refl)

definition track_events :: "AccountId \<Rightarrow> ExchangeEvent list \<Rightarrow> Orders \<Rightarrow> Orders" where
  "track_events a evs C = fold track (reports_for a evs) C"

lemma track_events_Cons: "track_events a (ev # evs) C = track_events a evs (track_events a [ev] C)"
  by (simp add: track_events_def)

lemma track_events_simps [simp]:
  "track_events a [] C = C"
  "track_events a (evs @ evs') C = track_events a evs' (track_events a evs C)"
  by (simp_all add: track_events_def)

section \<open>Trades\<close>

lemma mirrors_shown:
  assumes "mirrors a C S" "(i, b) \<in> S" "bo_account_id b = a"
  obtains r where "C (bo_client_order_id b) = Some r" "is_live (ord_state r)" "ord_time_in_force r = GTC"
    "ord_exchange_order_id r = Some (bo_exchange_order_id b)" "ord_instrument_id r = i" "ord_side r = bo_side b" "ord_price r = bo_price b"
proof -
  have "key_of b = live_key a (bo_client_order_id b)" using assms(3) by (simp add: key_of_live)
  then have "shown C (bo_client_order_id b) = Some (rest_info i b)" using mirrorsD [OF assms(1)] assms(2) by blast
  then show thesis using that by (auto simp: shown_def gtc_info_def order_info_def rest_info_def Option.bind_eq_Some_conv split: if_splits)
qed

lemma live_not_pending: "is_live st \<Longrightarrow> st \<noteq> PendingNew"
  by (auto simp: is_live_def)

definition trade_leg :: "AccountId \<Rightarrow> TradeReport \<Rightarrow> Orders \<Rightarrow> Orders" where
  \<comment> \<open>a trade report reaches the account it is for\<close>
  "trade_leg a ev C = (if tr_account_id ev = a then track (TradeReportM ev) C else C)"

lemma leg_mirrors:
  assumes m: "mirrors a C S" and k: "keyed S" and b: "(i, b) \<in> S"
    and ev: "tr_account_id ev = bo_account_id b" "tr_client_order_id ev = bo_client_order_id b" "tr_remaining_quantity ev = q"
  shows "mirrors a (trade_leg a ev C) (upd i b q S)" "evolves P C (trade_leg a ev C)"
proof -
  have "mirrors a (trade_leg a ev C) (upd i b q S) \<and> evolves P C (trade_leg a ev C)"
  proof (cases "bo_account_id b = a")
    case True
    obtain r where r: "C (bo_client_order_id b) = Some r" "is_live (ord_state r)" "ord_time_in_force r = GTC"
      "ord_exchange_order_id r = Some (bo_exchange_order_id b)" "ord_instrument_id r = i" "ord_side r = bo_side b" "ord_price r = bo_price b"
      by (rule mirrors_shown [OF m b True]) (rule that)
    let ?r = "r\<lparr>ord_remaining_quantity := q, ord_state := (if q = 0 then Filled else PartiallyFilled)\<rparr>"
    have t: "trade_leg a ev C = C(bo_client_order_id b \<mapsto> ?r)" using r(1) True ev by (simp add: trade_leg_def)
    have kb: "key_of b = live_key a (bo_client_order_id b)" using True by (simp add: key_of_live)
    have only: "(j, d) \<in> S \<Longrightarrow> key_of d = key_of b \<Longrightarrow> j = i \<and> d = b" for j d using keyedD [OF k _ b] by blast
    have "mirrors a (C(bo_client_order_id b \<mapsto> ?r)) (upd i b q S)"
    proof (rule mirrors_update [OF m kb])
      show "key_of d \<noteq> live_key a (bo_client_order_id b) \<Longrightarrow> (j, d) \<in> upd i b q S \<longleftrightarrow> (j, d) \<in> S" for j d
        using kb by (auto simp: upd_def)
      have live: "gtc_info ?r = (if q = 0 then None else Some (rest_info i (set_quantity q b)))"
        using r by (simp add: gtc_info_def order_info_def is_live_def rest_info_def set_quantity_def)
      have mem: "(j, d) \<in> upd i b q S \<and> key_of d = live_key a (bo_client_order_id b) \<longleftrightarrow> q \<noteq> 0 \<and> j = i \<and> d = set_quantity q b" for j d
        using only kb by (auto simp: upd_def)
      show "gtc_info ?r = Some y \<longleftrightarrow> (\<exists>j d. (j, d) \<in> upd i b q S \<and> key_of d = live_key a (bo_client_order_id b) \<and> rest_info j d = y)" for y
        unfolding live conj_assoc [symmetric] mem by auto
    qed
    moreover have "evolves P C (C(bo_client_order_id b \<mapsto> ?r))"
      by (rule evolves_put [where r = r]) (use r(1,2) live_not_pending in auto)
    ultimately show ?thesis by (simp add: t)
  next
    case False
    have "mirrors a C (upd i b q S)"
      by (rule mirrors_foreign [OF m]) (use False in \<open>auto simp: upd_def set_quantity_def\<close>)
    then show ?thesis using False ev by (simp add: trade_leg_def)
  qed
  then show "mirrors a (trade_leg a ev C) (upd i b q S)" "evolves P C (trade_leg a ev C)" by simp_all
qed

definition known_as :: "AccountId \<Rightarrow> ExchangeRestingOrder \<Rightarrow> Orders \<Rightarrow> bool" where
  \<comment> \<open>if the order being matched is the account's, it is no longer pending\<close>
  "known_as a order C \<longleftrightarrow> (ro_account_id order = a \<longrightarrow>
     (\<exists>r. C (ro_client_order_id order) = Some r \<and> ord_time_in_force r = ro_time_in_force order \<and> ord_state r \<noteq> PendingNew))"

lemma known_evolves: "known_as a order C \<Longrightarrow> evolves P C C' \<Longrightarrow> known_as a order C'"
  unfolding known_as_def using evolvesD(1) by (fastforce simp: kept_def)

lemma leg_invisible:
  assumes m: "mirrors a C S" and o: "known_as a order C" "ro_time_in_force order \<noteq> GTC"
    and ev: "tr_account_id ev = ro_account_id order" "tr_client_order_id ev = ro_client_order_id order"
  shows "mirrors a (trade_leg a ev C) S" "evolves P C (trade_leg a ev C)"
proof -
  have "mirrors a (trade_leg a ev C) S \<and> evolves P C (trade_leg a ev C)"
  proof (cases "ro_account_id order = a")
    case True
    then obtain r where r: "C (ro_client_order_id order) = Some r" "ord_time_in_force r \<noteq> GTC" "ord_state r \<noteq> PendingNew"
      using o by (auto simp: known_as_def)
    let ?r = "r\<lparr>ord_remaining_quantity := tr_remaining_quantity ev,
        ord_state := (if tr_remaining_quantity ev = 0 then Filled else PartiallyFilled)\<rparr>"
    have t: "trade_leg a ev C = C(ro_client_order_id order \<mapsto> ?r)" using r(1) True ev by (simp add: trade_leg_def)
    have "shown C (ro_client_order_id order) = None" "gtc_info ?r = None" using r by (simp_all add: shown_def gtc_info_def order_info_def)
    then have "shown (C(ro_client_order_id order \<mapsto> ?r)) = shown C" by (auto simp: shown_upd fun_eq_iff)
    then have "mirrors a (C(ro_client_order_id order \<mapsto> ?r)) S" using m by (simp add: mirrors_def)
    moreover have "evolves P C (C(ro_client_order_id order \<mapsto> ?r))"
      by (rule evolves_put [where r = r]) (use r(1,3) in auto)
    ultimately show ?thesis by (simp add: t)
  qed (use m ev in \<open>simp add: trade_leg_def\<close>)
  then show "mirrors a (trade_leg a ev C) S" "evolves P C (trade_leg a ev C)" by simp_all
qed

lemma upd_other: "key_of b \<noteq> key_of d \<Longrightarrow> (j, d) \<in> upd i b q S \<longleftrightarrow> (j, d) \<in> S"
  by (auto simp: upd_def)

lemma upd_commute: "key_of b \<noteq> key_of d \<Longrightarrow> upd i b q (upd j d r S) = upd j d r (upd i b q S)"
  by (auto simp: upd_def)

lemma upd_keyed:
  assumes "keyed S" "(i, b) \<in> S"
  shows "keyed (upd i b q S)"
proof -
  have from_S: "(j, d) = (i, set_quantity q b) \<or> (j, d) \<in> S \<and> key_of d \<noteq> key_of b" if "(j, d) \<in> upd i b q S" for j d
    using that keyedD [OF assms(1) _ assms(2), of j d] by (auto simp: upd_def split: if_splits)
  have "j = k \<and> d = e" if "(j, d) \<in> upd i b q S" "(k, e) \<in> upd i b q S" "key_of d = key_of e" for j d k e
    using from_S [OF that(1)] from_S [OF that(2)] that(3) keyedD [OF assms(1), of j d k e] by auto
  then show ?thesis unfolding keyed_def by blast
qed

definition virt :: "ExchangeRestingOrder \<Rightarrow> Quantity \<Rightarrow> Resting" where
  \<comment> \<open>the order being matched, as it would rest\<close>
  "virt order q = (if ro_time_in_force order = GTC \<and> q \<noteq> 0 then {(ro_instrument_id order, resting_of order q)} else {})"

definition upd_virt :: "ExchangeRestingOrder \<Rightarrow> Quantity \<Rightarrow> Resting \<Rightarrow> Resting" where
  "upd_virt order q S =
     (if ro_time_in_force order = GTC then upd (ro_instrument_id order) (resting_of order (ro_remaining_quantity order)) q S else S)"

lemma key_resting_of [simp]: "key_of (resting_of order q) = order_key order"
  by (simp add: key_of_def order_key_def resting_of_def)

lemma track_trade:
  obtains ro rb where "tr_account_id ro = ro_account_id order" "tr_client_order_id ro = ro_client_order_id order"
    "tr_remaining_quantity ro = ro_remaining_quantity order - t" "tr_account_id rb = bo_account_id b"
    "tr_client_order_id rb = bo_client_order_id b" "tr_remaining_quantity rb = bo_remaining_quantity b - t"
    "track_events a [trade_event order cs n (x, b, t)] C =
       (if ro_side order = Buy then trade_leg a rb (trade_leg a ro C) else trade_leg a ro (trade_leg a rb C))"
proof -
  let ?r = "\<lambda>acc c e q. \<lparr>tr_account_id = acc, tr_client_order_id = c, tr_exchange_order_id = e, tr_instrument_id = ro_instrument_id order,
      tr_price = bo_price b, tr_quantity = t, tr_remaining_quantity = q\<rparr>"
  show thesis
    by (rule that [of "?r (ro_account_id order) (ro_client_order_id order) (ro_exchange_order_id order) (ro_remaining_quantity order - t)"
          "?r (bo_account_id b) (bo_client_order_id b) (bo_exchange_order_id b) (bo_remaining_quantity b - t)"])
       (simp_all add: track_events_def trade_event_def counterparty_def Let_def trade_report_def order_key_of_def trade_leg_def
         del: track.simps)
qed

lemma trade_mirrors:
  assumes m: "mirrors a C S" and k: "keyed S" and b: "(i, b) \<in> S" and ok: "known_as a order C"
    and o: "ro_time_in_force order = GTC \<Longrightarrow> (ro_instrument_id order, resting_of order (ro_remaining_quantity order)) \<in> S"
    and ne: "key_of b \<noteq> order_key order"
  shows "mirrors a (track_events a [trade_event order cs n (x, b, t)] C)
       (upd i b (bo_remaining_quantity b - t) (upd_virt order (ro_remaining_quantity order - t) S))"
    "evolves P C (track_events a [trade_event order cs n (x, b, t)] C)"
proof -
  let ?q = "ro_remaining_quantity order - t" and ?l = "bo_remaining_quantity b - t"
  obtain ro rb where r: "tr_account_id ro = ro_account_id order" "tr_client_order_id ro = ro_client_order_id order"
    "tr_remaining_quantity ro = ?q" "tr_account_id rb = bo_account_id b"
    "tr_client_order_id rb = bo_client_order_id b" "tr_remaining_quantity rb = ?l"
    "track_events a [trade_event order cs n (x, b, t)] C =
       (if ro_side order = Buy then trade_leg a rb (trade_leg a ro C) else trade_leg a ro (trade_leg a rb C))"
    by (rule track_trade) (rule that)
  have leg_o: "mirrors a (trade_leg a ro C') (upd_virt order ?q S') \<and> evolves P C' (trade_leg a ro C')"
    if "mirrors a C' S'" "keyed S'" "known_as a order C'"
      "ro_time_in_force order = GTC \<Longrightarrow> (ro_instrument_id order, resting_of order (ro_remaining_quantity order)) \<in> S'" for C' S'
  proof (cases "ro_time_in_force order = GTC")
    case True
    have e: "tr_account_id ro = bo_account_id (resting_of order (ro_remaining_quantity order))"
      "tr_client_order_id ro = bo_client_order_id (resting_of order (ro_remaining_quantity order))"
      by (simp_all add: r(1,2) resting_of_def)
    show ?thesis
      using leg_mirrors(1) [where ev = ro and q = ?q, OF that(1,2) that(4) [OF True] e r(3)]
        leg_mirrors(2) [where ev = ro and q = ?q and P = P, OF that(1,2) that(4) [OF True] e r(3)] True by (simp add: upd_virt_def)
  next
    case False
    then show ?thesis using leg_invisible(1) [OF that(1,3) False r(1,2)] leg_invisible(2) [where P = P, OF that(1,3) False r(1,2)] by (simp add: upd_virt_def)
  qed
  have sw: "upd_virt order ?q (upd i b ?l S) = upd i b ?l (upd_virt order ?q S)"
    using ne upd_commute [of "resting_of order (ro_remaining_quantity order)" b] by (simp add: upd_virt_def)
  have "(i, b) \<in> upd_virt order ?q S"
    using b ne upd_other [of "resting_of order (ro_remaining_quantity order)" b] by (simp add: upd_virt_def)
  moreover have "keyed (upd_virt order ?q S)" using k upd_keyed [OF k] o unfolding upd_virt_def by (cases "ro_time_in_force order = GTC") simp_all
  ultimately have vk: "keyed (upd_virt order ?q S)" "(i, b) \<in> upd_virt order ?q S" by simp_all
  have "mirrors a (track_events a [trade_event order cs n (x, b, t)] C) (upd i b ?l (upd_virt order ?q S)) \<and>
    evolves P C (track_events a [trade_event order cs n (x, b, t)] C)"
  proof (cases "ro_side order = Buy")
    case True
    have o1: "mirrors a (trade_leg a ro C) (upd_virt order ?q S)" "evolves P C (trade_leg a ro C)" using leg_o [OF m k ok o] by simp_all
    note b1 = leg_mirrors(1) [where ev = rb and q = ?l, OF o1(1) vk r(4,5,6)] leg_mirrors(2) [where ev = rb and q = ?l and P = P, OF o1(1) vk r(4,5,6)]
    show ?thesis using True b1 evolves_trans [OF o1(2) b1(2)] r(7) by simp
  next
    case False
    note b1 = leg_mirrors(1) [where ev = rb and q = ?l, OF m k b r(4,5,6)] leg_mirrors(2) [where ev = rb and q = ?l and P = P, OF m k b r(4,5,6)]
    have "(ro_instrument_id order, resting_of order (ro_remaining_quantity order)) \<in> upd i b ?l S" if "ro_time_in_force order = GTC"
      using o [OF that] ne upd_other by simp
    then have "mirrors a (trade_leg a ro (trade_leg a rb C)) (upd_virt order ?q (upd i b ?l S))" "evolves P (trade_leg a rb C) (trade_leg a ro (trade_leg a rb C))"
      using leg_o [OF b1(1) upd_keyed [OF k b] known_evolves [OF ok b1(2)]] by simp_all
    then show ?thesis using False evolves_trans [OF b1(2)] r(7) sw by simp
  qed
  then show "mirrors a (track_events a [trade_event order cs n (x, b, t)] C) (upd i b ?l (upd_virt order ?q S))"
    "evolves P C (track_events a [trade_event order cs n (x, b, t)] C)" by simp_all
qed

lemma track_book_event [simp]: "track_events a [book_event i n f] C = C"
  by (simp add: track_events_def book_event_def split: prod.split)

lemma track_pair: "track_events a (ev # book_event i n f # evs) C = track_events a evs (track_events a [ev] C)"
  by (simp add: track_events_def book_event_def split: prod.split)

definition free_of :: "LiveKey set \<Rightarrow> Resting \<Rightarrow> bool" where
  "free_of K S \<longleftrightarrow> (\<forall>i b. (i, b) \<in> S \<longrightarrow> key_of b \<notin> K)"

lemma free_ofD: "free_of K S \<Longrightarrow> (i, b) \<in> S \<Longrightarrow> key_of b \<notin> K"
  unfolding free_of_def by blast

lemma upd_virt_union:
  assumes "free_of {order_key order} T" "ro_remaining_quantity order \<noteq> 0"
  shows "upd_virt order r (T \<union> virt order (ro_remaining_quantity order)) = T \<union> virt order r"
proof (cases "ro_time_in_force order = GTC")
  case True
  have "(ro_instrument_id order, resting_of order (ro_remaining_quantity order)) \<notin> T"
    using free_ofD [OF assms(1)] by fastforce
  moreover have "set_quantity r (resting_of order q) = resting_of order r" for q by (simp add: set_quantity_def resting_of_def)
  ultimately show ?thesis using True assms(2) by (auto simp: upd_virt_def virt_def upd_def)
qed (simp add: upd_virt_def virt_def)

lemma upd_head:
  assumes "free_of {key_of b} R" "key_of b \<notin> key_of ` set bs" "free_of {key_of b} V"
  shows "upd i b r (R \<union> Pair i ` set (b # bs) \<union> V) = R \<union> Pair i ` set (if r = 0 then bs else set_quantity r b # bs) \<union> V"
proof -
  have "(i, b) \<notin> R" "(i, b) \<notin> V" "b \<notin> set bs" using free_ofD [OF assms(1)] free_ofD [OF assms(3)] assms(2) by auto
  then show ?thesis by (auto simp: upd_def)
qed

lemma virt_remaining [simp]: "virt (order\<lparr>ro_remaining_quantity := r\<rparr>) q = virt order q"
  "order_key (order\<lparr>ro_remaining_quantity := r\<rparr>) = order_key order"
  "known_as a (order\<lparr>ro_remaining_quantity := r\<rparr>) C = known_as a order C"
  by (simp_all add: virt_def resting_of_def order_key_def known_as_def)

lemma free_of_virt: "k \<noteq> order_key order \<Longrightarrow> free_of {k} (virt order q)"
  by (auto simp: free_of_def virt_def)

lemma free_of_Un [simp]: "free_of K (S \<union> T) \<longleftrightarrow> free_of K S \<and> free_of K T"
  by (auto simp: free_of_def)

lemma free_of_insert [simp]: "free_of K (insert (i, b) S) \<longleftrightarrow> key_of b \<notin> K \<and> free_of K S"
  by (auto simp: free_of_def)

lemma free_of_list [simp]: "free_of {k} (Pair i ` set bs) \<longleftrightarrow> k \<notin> key_of ` set bs"
  by (auto simp: free_of_def)

lemma free_of_subset: "free_of K S \<Longrightarrow> K' \<subseteq> K \<Longrightarrow> free_of K' S"
  by (auto simp: free_of_def)

lemma fills_mirror:
  assumes "take_from sd p (ro_remaining_quantity order) bs = (ts, q', bs')" "mirrors a C (R \<union> Pair i ` set bs \<union> virt order (ro_remaining_quantity order))"
    "keyed (R \<union> Pair i ` set bs \<union> virt order (ro_remaining_quantity order))" "distinct (map key_of bs)"
    "free_of (insert (order_key order) (key_of ` set bs)) R" "order_key order \<notin> key_of ` set bs" "i = ro_instrument_id order" "known_as a order C"
  shows "mirrors a (track_events a (fill_events order cs n (map (Pair x) ts)) C) (R \<union> Pair i ` set bs' \<union> virt order q') \<and>
    evolves P C (track_events a (fill_events order cs n (map (Pair x) ts)) C)"
  using assms
proof (induction bs arbitrary: order ts q' bs' C n)
  case Nil
  then show ?case by simp
next
  case (Cons b bs)
  define q where "q = ro_remaining_quantity order"
  define t where "t = min q (bo_remaining_quantity b)"
  define left where "left = bo_remaining_quantity b - t"
  let ?S = "R \<union> Pair i ` set (b # bs) \<union> virt order q"
  show ?case
  proof (cases "q = 0 \<or> \<not> crosses (contra_side sd) p (bo_price b)")
    case True
    then have "ts = [] \<and> q' = q \<and> bs' = b # bs" using Cons.prems(1) by (auto simp: q_def split: if_splits)
    then show ?thesis using Cons.prems(2) by (simp add: q_def)
  next
    case False
    have run: "(if left = 0 then (case take_from sd p (q - t) bs of (ts, q', bs') \<Rightarrow> ((b, t) # ts, q', bs'))
          else ([(b, t)], q - t, set_quantity left b # bs)) = (ts, q', bs')"
      using Cons.prems(1) unfolding take_from.simps Let_def q_def [symmetric] t_def [symmetric] left_def [symmetric] if_not_P [OF False] .
    let ?o = "order\<lparr>ro_remaining_quantity := q - t\<rparr>"
    let ?C = "track_events a [trade_event order cs n (x, b, t)] C"
    let ?bs = "if left = 0 then bs else set_quantity left b # bs"
    have m: "mirrors a C ?S" "keyed ?S" "(i, b) \<in> ?S" using Cons.prems(2,3) by (simp_all add: q_def)
    have kb: "key_of b \<noteq> order_key order" "key_of b \<notin> key_of ` set bs" using Cons.prems(4,6) by auto
    have vin: "ro_time_in_force order = GTC \<Longrightarrow> (ro_instrument_id order, resting_of order (ro_remaining_quantity order)) \<in> ?S"
      using False by (simp add: virt_def q_def)
    have fr: "free_of {order_key order} (R \<union> Pair i ` set (b # bs))" "free_of {key_of b} R" "free_of {key_of b} (virt order (q - t))"
      using free_of_subset [OF Cons.prems(5)] Cons.prems(6) kb(1) by (auto simp: free_of_virt)
    have S': "upd i b left (upd_virt order (q - t) ?S) = R \<union> Pair i ` set ?bs \<union> virt order (q - t)"
    proof -
      have "upd_virt order (q - t) ?S = (R \<union> Pair i ` set (b # bs)) \<union> virt order (q - t)"
        using upd_virt_union [OF fr(1), of "q - t"] False by (simp only: q_def) blast
      then show ?thesis using upd_head [OF fr(2) kb(2) fr(3)] by simp
    qed
    note t1 = trade_mirrors(1) [where x = x and t = t and n = n and cs = cs, OF m Cons.prems(8) vin kb(1)]
      trade_mirrors(2) [where x = x and t = t and n = n and cs = cs and P = P, OF m Cons.prems(8) vin kb(1)]
    have m1: "mirrors a ?C (R \<union> Pair i ` set ?bs \<union> virt order (q - t))" using t1(1) S' by (simp add: q_def left_def)
    have keyed1: "keyed (R \<union> Pair i ` set ?bs \<union> virt order (q - t))"
    proof -
      have "keyed (upd_virt order (q - t) ?S)" using m(2) upd_keyed [OF m(2) vin] by (simp add: upd_virt_def)
      moreover have "(i, b) \<in> upd_virt order (q - t) ?S"
        using kb(1) upd_other [of "resting_of order q" b] m(3) by (simp add: upd_virt_def q_def)
      ultimately show ?thesis using upd_keyed S' by metis
    qed
    have k1: "known_as a order ?C" by (rule known_evolves [OF Cons.prems(8) t1(2)])
    have ev: "track_events a (fill_events order cs n (map (Pair x) ((b, t) # us))) C =
        track_events a (fill_events ?o cs (n + 2) (map (Pair x) us)) ?C" for us
      by (simp add: track_pair q_def)
    show ?thesis
    proof (cases "left = 0")
      case True
      obtain ts1 q1 bs1 where r1: "take_from sd p (q - t) bs = (ts1, q1, bs1)" by (metis prod_cases3)
      have "((b, t) # ts1, q1, bs1) = (ts, q', bs')" using run unfolding if_P [OF True] r1 prod.case .
      then have r: "take_from sd p (q - t) bs = (ts1, q', bs')" "ts = (b, t) # ts1" using r1 by simp_all
      have "mirrors a (track_events a (fill_events ?o cs (n + 2) (map (Pair x) ts1)) ?C) (R \<union> Pair i ` set bs' \<union> virt ?o q') \<and>
          evolves P ?C (track_events a (fill_events ?o cs (n + 2) (map (Pair x) ts1)) ?C)"
        by (rule Cons.IH) (use r m1 keyed1 k1 True Cons.prems(4-7) in \<open>auto intro: free_of_subset\<close>)
      then show ?thesis unfolding r(2) ev using t1(2) evolves_trans by auto
    next
      case l: False
      have "ts = [(b, t)]" "bs' = set_quantity left b # bs" "q' = q - t"
        using run unfolding if_not_P [OF l] by simp_all
      then show ?thesis using ev [of "[]"] m1 t1(2) l by simp
    qed
  qed
qed

section \<open>Placing, taking out and editing an order\<close>

lemma mirrors_appears:
  assumes "mirrors a C S" "free_of {order_key order} S"
    and "ro_account_id order = a \<Longrightarrow> gtc_info r =
       (if ro_time_in_force order = GTC then Some (rest_info (ro_instrument_id order) (resting_of order (ro_remaining_quantity order))) else None)"
    and "ro_remaining_quantity order \<noteq> 0"
  shows "mirrors a (if ro_account_id order = a then C(ro_client_order_id order \<mapsto> r) else C) (S \<union> virt order (ro_remaining_quantity order))"
proof (cases "ro_account_id order = a")
  case True
  have k: "key_of (resting_of order (ro_remaining_quantity order)) = live_key a (ro_client_order_id order)"
    using True by (simp add: order_key_def)
  have no: "key_of d \<noteq> order_key order" if "(j, d) \<in> S" for j d using free_ofD [OF assms(2) that] by simp
  have "mirrors a (C(ro_client_order_id order \<mapsto> r)) (S \<union> virt order (ro_remaining_quantity order))"
  proof (rule mirrors_update [OF assms(1) k])
    show "key_of d \<noteq> live_key a (ro_client_order_id order) \<Longrightarrow>
        (j, d) \<in> S \<union> virt order (ro_remaining_quantity order) \<longleftrightarrow> (j, d) \<in> S" for j d using k by (auto simp: virt_def)
    have mem: "(j, d) \<in> S \<union> virt order (ro_remaining_quantity order) \<and> key_of d = live_key a (ro_client_order_id order) \<longleftrightarrow>
        ro_time_in_force order = GTC \<and> j = ro_instrument_id order \<and> d = resting_of order (ro_remaining_quantity order)" for j d
      using no [of j d] k assms(4) by (auto simp: virt_def)
    show "gtc_info r = Some y \<longleftrightarrow> (\<exists>j d. (j, d) \<in> S \<union> virt order (ro_remaining_quantity order) \<and>
        key_of d = live_key a (ro_client_order_id order) \<and> rest_info j d = y)" for y
      unfolding conj_assoc [symmetric] mem assms(3) [OF True] by auto
  qed
  then show ?thesis using True by simp
next
  case False
  then have "mirrors a C (S \<union> virt order (ro_remaining_quantity order))"
    by (intro mirrors_foreign [OF assms(1)]) (auto simp: virt_def resting_of_def)
  then show ?thesis using False by simp
qed

lemma mirrors_disappears:
  assumes "mirrors a C S" "keyed S" "(i, b) \<in> S" "bo_account_id b = a \<Longrightarrow> gtc_info r = None"
  shows "mirrors a (if bo_account_id b = a then C(bo_client_order_id b \<mapsto> r) else C) (S - {(i, b)})"
proof (cases "bo_account_id b = a")
  case True
  then have k: "key_of b = live_key a (bo_client_order_id b)" by (simp add: key_of_live)
  have "mirrors a (C(bo_client_order_id b \<mapsto> r)) (S - {(i, b)})"
  proof (rule mirrors_update [OF assms(1) k])
    show "key_of d \<noteq> live_key a (bo_client_order_id b) \<Longrightarrow> (j, d) \<in> S - {(i, b)} \<longleftrightarrow> (j, d) \<in> S" for j d using k by auto
    have "\<not> ((j, d) \<in> S - {(i, b)} \<and> key_of d = live_key a (bo_client_order_id b))" for j d
      using keyedD [OF assms(2) _ assms(3), of j d] k by auto
    then show "gtc_info r = Some y \<longleftrightarrow> (\<exists>j d. (j, d) \<in> S - {(i, b)} \<and> key_of d = live_key a (bo_client_order_id b) \<and> rest_info j d = y)" for y
      using assms(4) [OF True] by auto
  qed
  then show ?thesis using True by simp
next
  case False
  then have "mirrors a C (S - {(i, b)})" by (intro mirrors_foreign [OF assms(1)]) auto
  then show ?thesis using False by simp
qed

lemma keyed_insert: "keyed S \<Longrightarrow> free_of {key_of b} S \<Longrightarrow> keyed (insert (i, b) S)"
  unfolding keyed_def free_of_def by (metis insert_iff prod.inject singletonI)

definition orders_at :: "InstrumentId \<Rightarrow> (Side \<Rightarrow> BookOrder list) \<Rightarrow> Resting" where
  "orders_at i v = {(i, b) | b. \<exists>sd. b \<in> set (v sd)}"

lemma orders_at_sides: "orders_at i v = Pair i ` set (v sd) \<union> Pair i ` set (v (contra_side sd))"
proof -
  have "(\<exists>s. b \<in> set (v s)) \<longleftrightarrow> b \<in> set (v sd) \<or> b \<in> set (v (contra_side sd))" for b using contra_cases [of _ sd] by metis
  then show ?thesis by (auto simp: orders_at_def)
qed

lemma set_queue_up: "set (queue_up sd b bs) = insert b (set bs)"
proof -
  have "set (takeWhile P bs) \<union> set (dropWhile P bs) = set bs" for P by (metis set_append takeWhile_dropWhile_id)
  then show ?thesis by (auto simp: queue_up_def)
qed

lemma place_mirrors:
  assumes pl: "place_in cs order n v = (v', evs)" and m: "mirrors a C (R \<union> orders_at i v \<union> virt order (ro_remaining_quantity order))"
    and k: "keyed (R \<union> orders_at i v)" and R: "\<And>j d. (j, d) \<in> R \<Longrightarrow> j \<noteq> i" and free: "free_of {order_key order} (R \<union> orders_at i v)"
    and i: "i = ro_instrument_id order" and kn: "known_as a order C"
    and v: "\<And>sd. distinct (map key_of (v sd))" "\<And>sd b. b \<in> set (v sd) \<Longrightarrow> bo_side b = sd"
  shows "mirrors a (track_events a evs C) (R \<union> orders_at i v') \<and> evolves P C (track_events a evs C)"
proof -
  let ?sd = "ro_side order"
  let ?c = "contra_side ?sd"
  obtain ts q' bs where tk: "take_from ?sd (ro_price order) (ro_remaining_quantity order) (v ?c) = (ts, q', bs)" by (metis prod_cases3)
  let ?rests = "ro_time_in_force order = GTC \<and> q' \<noteq> 0"
  define fe where "fe = fill_events order cs n (map (Pair 0) ts)"
  have evs: "evs = fe @ (if ?rests then [added_event (order\<lparr>ro_remaining_quantity := q'\<rparr>) (n + word_of_nat (2 * length ts))] else [])"
    and v': "v' = (if ?rests then (v(?c := bs))(?sd := queue_up ?sd (resting_of order q') (v ?sd)) else v(?c := bs))"
    using pl tk by (auto simp: place_in_def take_events_def placed_events_def Let_def fe_def)
  define R1 where "R1 = R \<union> Pair i ` set (v ?sd)"
  have S: "R \<union> orders_at i v = R1 \<union> Pair i ` set (v ?c)" using orders_at_sides [of i v ?sd] by (auto simp: R1_def)
  have "free_of (key_of ` set (v ?c)) R1"
    unfolding free_of_def
  proof (intro allI impI notI)
    fix j d assume d: "(j, d) \<in> R1" "key_of d \<in> key_of ` set (v ?c)"
    then obtain b where b: "b \<in> set (v ?c)" "key_of d = key_of b" by auto
    have "j = i \<and> d = b" by (rule keyedD [OF k _ _ b(2)]) (use d(1) b(1) S in auto)
    then have "d \<in> set (v ?sd)" "d \<in> set (v ?c)" using d(1) R b(1) by (auto simp: R1_def)
    then show False using v(2) [of d ?sd] v(2) [of d ?c] by simp
  qed
  then have fr: "free_of (insert (order_key order) (key_of ` set (v ?c))) R1"
    using free unfolding S by (auto simp: free_of_def)
  have kv: "keyed (R1 \<union> Pair i ` set (v ?c) \<union> virt order (ro_remaining_quantity order))"
  proof -
    have "keyed (R \<union> orders_at i v \<union> virt order (ro_remaining_quantity order))"
      using k keyed_insert [OF k, of "resting_of order (ro_remaining_quantity order)" "ro_instrument_id order"] free by (simp add: virt_def)
    then show ?thesis by (simp add: S)
  qed
  have "mirrors a (track_events a fe C) (R1 \<union> Pair i ` set bs \<union> virt order q') \<and> evolves P C (track_events a fe C)"
    unfolding fe_def
    by (rule fills_mirror [OF tk _ kv v(1) fr _ i kn]) (use m free in \<open>simp_all add: S\<close>)
  moreover have "R1 \<union> Pair i ` set bs \<union> virt order q' = R \<union> orders_at i v'"
    unfolding orders_at_sides [of i v' ?sd] by (auto simp: v' R1_def virt_def set_queue_up i)
  moreover have "track_events a evs C = track_events a fe C" by (simp add: evs track_events_def added_event_def)
  ultimately show ?thesis by simp
qed

section \<open>Commands\<close>

definition book_set :: "Exchange \<Rightarrow> Resting" where
  "book_set x = {(i, b). \<exists>sd. b \<in> set (xc_book x i sd)}"

definition elsewhere :: "InstrumentId \<Rightarrow> Exchange \<Rightarrow> Resting" where
  "elsewhere i x = {(j, b). (j, b) \<in> book_set x \<and> j \<noteq> i}"

definition exchange_sound :: "Exchange \<Rightarrow> bool" where
  "exchange_sound x \<longleftrightarrow> keyed (book_set x) \<and> (\<forall>i sd. distinct (map key_of (xc_book x i sd))) \<and>
     (\<forall>i sd. \<forall>b \<in> set (xc_book x i sd). bo_side b = sd \<and> bo_time_in_force b = GTC)"

lemma book_set_split: "book_set x = elsewhere i x \<union> orders_at i (xc_book x i)"
  by (auto simp: book_set_def elsewhere_def orders_at_def)

lemma book_set_commit: "book_set (fst (commit i v evs x)) = elsewhere i x \<union> orders_at i v"
  by (auto simp: book_set_def elsewhere_def orders_at_def commit_def split: if_splits)

lemma book_set_simps [simp]: "book_set (fst (refuse cs a c i reason x)) = book_set x" "book_set (x\<lparr>xc_next_id := n\<rparr>) = book_set x"
  "elsewhere i (x\<lparr>xc_next_id := n\<rparr>) = elsewhere i x"
  by (simp_all add: book_set_def refuse_def elsewhere_def)

lemma sound_engine:
  assumes "engine_inv e"
  shows "exchange_sound (exchange_of e)"
  unfolding exchange_sound_def
proof (intro conjI allI ballI)
  note bk = books_view [OF engine_invD(1) [OF assms]] and dir = engine_invD(2) [OF assms]
  show "keyed (book_set (exchange_of e))"
    unfolding keyed_def
  proof (intro allI impI)
    fix i b j c assume a: "(i, b) \<in> book_set (exchange_of e)" "(j, c) \<in> book_set (exchange_of e)" "key_of b = key_of c"
    then obtain x y sd sd' where m: "(x, b) \<in> set (view e i sd)" "(y, c) \<in> set (view e j sd')"
      by (auto simp: book_set_def exchange_of_simps)
    have "y = x" "j = i" using key_unique [OF dir m] a(3) by simp_all
    then show "i = j \<and> b = c" using handles_entry(1) [OF bk(1) m(1), of c sd'] m(2) by simp
  qed
  show "distinct (map key_of (xc_book (exchange_of e) i sd))" for i sd
  proof -
    have "distinct (map fst (view e i sd))" using bk(1) [of i] by (cases sd) (auto simp: handles_distinct_def)
    moreover have "inj_on (key_of \<circ> snd) (set (view e i sd))"
    proof (rule inj_onI)
      fix p q assume a: "p \<in> set (view e i sd)" "q \<in> set (view e i sd)" "(key_of \<circ> snd) p = (key_of \<circ> snd) q"
      obtain x b y c where pq: "p = (x, b)" "q = (y, c)" by (cases p; cases q)
      have m: "(x, b) \<in> set (view e i sd)" "(y, c) \<in> set (view e i sd)" using a pq by simp_all
      have "y = x" using key_unique(1) [OF dir m] a(3) pq by simp
      then show "p = q" using handles_entry(1) [OF bk(1) m(1), of c sd] m(2) pq by simp
    qed
    ultimately show ?thesis by (simp add: exchange_of_simps distinct_map)
  qed
  fix i sd b assume b: "b \<in> set (xc_book (exchange_of e) i sd)"
  then obtain x where x: "(x, b) \<in> set (view e i sd)" by (auto simp: exchange_of_simps)
  then show "bo_side b = sd" using bk(3) by fastforce
  show "bo_time_in_force b = GTC"
    using engine_invD(3) [OF assms, of i] x by (fastforce simp: market_ok_def order_ok_def)
qed

definition expected :: "AccountId \<Rightarrow> Orders \<Rightarrow> ExchangeCommand \<Rightarrow> bool" where
  \<comment> \<open>what the account's own commands say is what it has recorded when it sent them\<close>
  "expected a C c \<longleftrightarrow>
     (case c of
        NewOrderC n \<Rightarrow> nc_account_id n = a \<longrightarrow>
          (\<exists>r. C (nc_client_order_id n) = Some r \<and> ord_state r = PendingNew \<and> ord_instrument_id r = nc_instrument_id n \<and>
             ord_side r = nc_side n \<and> ord_price r = nc_price n \<and> ord_time_in_force r = nc_time_in_force n)
      | CancelOrderC n \<Rightarrow> cc_account_id n = a \<longrightarrow> (\<exists>r. C (cc_client_order_id n) = Some r \<and> ord_state r \<noteq> PendingNew)
      | ReplaceOrderC n \<Rightarrow> rc_account_id n = a \<longrightarrow>
          (\<exists>r r'. C (rc_original_client_order_id n) = Some r \<and> ord_state r \<noteq> PendingNew \<and> ord_instrument_id r = rc_instrument_id n \<and>
             C (rc_new_client_order_id n) = Some r' \<and> ord_state r' = PendingNew \<and> ord_instrument_id r' = ord_instrument_id r \<and>
             ord_side r' = ord_side r \<and> ord_time_in_force r' = ord_time_in_force r))"

fun own_ids :: "AccountId \<Rightarrow> ExchangeCommand \<Rightarrow> ClientOrderId set" where
  \<comment> \<open>the new ids a command of the account introduces\<close>
  "own_ids a (NewOrderC n) = (if nc_account_id n = a then {nc_client_order_id n} else {})"
| "own_ids a (CancelOrderC n) = {}"
| "own_ids a (ReplaceOrderC n) = (if rc_account_id n = a then {rc_new_client_order_id n} else {})"

definition followed :: "AccountId \<Rightarrow> Orders \<Rightarrow> ClientOrderId set \<Rightarrow> Exchange \<times> ExchangeEvent list \<Rightarrow> bool" where
  "followed a C P r \<longleftrightarrow> mirrors a (track_events a (snd r) C) (book_set (fst r)) \<and> evolves P C (track_events a (snd r) C)"

lemma mirrors_same_shown: "mirrors a C S \<Longrightarrow> shown C' = shown C \<Longrightarrow> mirrors a C' S"
  by (simp add: mirrors_def)

lemma followed_refuse:
  assumes m: "mirrors a C (book_set x)"
    and own: "b = a \<Longrightarrow> \<exists>r. C c = Some r \<and> (ord_state r \<noteq> PendingNew \<or> c \<in> P)"
  shows "followed a C P (refuse cs b c i reason x)"
proof (cases "b = a")
  case True
  then obtain r where r: "C c = Some r" "ord_state r \<noteq> PendingNew \<or> c \<in> P" using own by blast
  let ?r = "if ord_state r = PendingNew then r\<lparr>ord_state := RejectedOrder\<rparr> else r"
  have t: "track_events a (snd (refuse cs b c i reason x)) C = C(c \<mapsto> ?r)"
    using r(1) True by (simp add: track_events_def refuse_def order_key_of_def)
  have "shown (C(c \<mapsto> ?r)) = shown C" using r(1) by (auto simp: shown_upd fun_eq_iff shown_def gtc_info_def order_info_def is_live_def)
  moreover have "evolves P C (C(c \<mapsto> ?r))" by (rule evolves_put [where r = r]) (use r in auto)
  ultimately show ?thesis using mirrors_same_shown [OF m] by (simp add: followed_def t)
next
  case False
  then have "track_events a (snd (refuse cs b c i reason x)) C = C" by (simp add: track_events_def refuse_def order_key_of_def)
  then show ?thesis using m by (simp add: followed_def)
qed

lemma elsewhere_neq: "(j, d) \<in> elsewhere i x \<Longrightarrow> j \<noteq> i"
  by (simp add: elsewhere_def)

lemma soundD:
  assumes "exchange_sound x"
  shows "keyed (elsewhere i x \<union> orders_at i (xc_book x i))" "distinct (map key_of (xc_book x i sd))"
    "b \<in> set (xc_book x i sd) \<Longrightarrow> bo_side b = sd" "b \<in> set (xc_book x i sd) \<Longrightarrow> bo_time_in_force b = GTC" "keyed (book_set x)"
  using assms by (simp_all add: exchange_sound_def flip: book_set_split)

lemma keyed_subset: "keyed S \<Longrightarrow> T \<subseteq> S \<Longrightarrow> keyed T"
  unfolding keyed_def by blast

text \<open>The common end of a new order and of a replace that lost its priority.\<close>

lemma followed_placed:
  assumes s: "exchange_sound x" and w: "\<And>sd b. b \<in> set (w sd) \<Longrightarrow> b \<in> set (xc_book x i sd)" "\<And>sd. distinct (map key_of (w sd))"
    and m: "mirrors a (track_events a first C) (elsewhere i x \<union> orders_at i w \<union> virt order (ro_remaining_quantity order))"
    and ev: "evolves P C (track_events a first C)"
    and free: "free_of {order_key order} (elsewhere i x \<union> orders_at i w)"
    and i: "i = ro_instrument_id order" and kn: "known_as a order (track_events a first C)"
    and pl: "place_in cs order n w = (v', evs)"
  shows "followed a C P (commit i v' (first @ evs) (x\<lparr>xc_next_id := k\<rparr>))"
proof -
  have ky: "keyed (elsewhere i x \<union> orders_at i w)"
    by (rule keyed_subset [OF soundD(1) [OF s, of i]]) (use w(1) in \<open>auto simp: orders_at_def\<close>)
  have "mirrors a (track_events a evs (track_events a first C)) (elsewhere i x \<union> orders_at i v') \<and>
      evolves P (track_events a first C) (track_events a evs (track_events a first C))"
    by (rule place_mirrors [OF pl m ky elsewhere_neq free i kn w(2)]) (assumption, rule soundD(3) [OF s w(1)])
  then show ?thesis using evolves_trans [OF ev] by (simp add: followed_def book_set_commit) (simp add: commit_def)
qed

lemma not_in_keys: "k \<notin> book_keys v \<Longrightarrow> b \<in> set (v sd) \<Longrightarrow> key_of b \<notin> {k}"
  by (cases sd) (auto simp: book_keys_def)

lemma free_of_keys: "(\<forall>j. k \<notin> book_keys (xc_book x j)) \<Longrightarrow> free_of {k} (book_set x)"
  unfolding free_of_def book_set_def using not_in_keys by blast

lemma followed_new:
  assumes s: "exchange_sound x" and m: "mirrors a C (book_set x)" and e: "expected a C (NewOrderC cmd)"
  shows "followed a C (own_ids a (NewOrderC cmd)) (exchange_new cmd x)"
proof -
  let ?i = "nc_instrument_id cmd" and ?P = "own_ids a (NewOrderC cmd)" and ?c = "nc_client_order_id cmd"
  let ?order = "\<lparr>ro_exchange_order_id = xc_next_id x, ro_client_order_id = nc_client_order_id cmd,
                   ro_account_id = nc_account_id cmd, ro_price = nc_price cmd, ro_original_quantity = nc_quantity cmd,
                   ro_remaining_quantity = nc_quantity cmd, ro_order_sequence = 0, ro_instrument_id = ?i,
                   ro_side = nc_side cmd, ro_time_in_force = nc_time_in_force cmd\<rparr>"
  have rej: "followed a C ?P (refuse cs (nc_account_id cmd) ?c ?i reason x)" for cs reason
    by (rule followed_refuse [OF m]) (use e in \<open>auto simp: expected_def\<close>)
  obtain v' evs where pl: "place_in (nc_command_sequence cmd) ?order (xc_next_event x + 1) (xc_book x ?i) = (v', evs)" by (metis prod.exhaust)
  have placed: "followed a C ?P (commit ?i v' (accepted_event cmd (xc_next_id x) (xc_next_event x) # evs) (x\<lparr>xc_next_id := xc_next_id x + 1\<rparr>))"
    if q: "nc_quantity cmd \<noteq> 0" and fr: "\<forall>j. live_key (nc_account_id cmd) ?c \<notin> book_keys (xc_book x j)"
  proof -
    let ?first = "[accepted_event cmd (xc_next_id x) (xc_next_event x)]"
    have free: "free_of {order_key ?order} (book_set x)" using free_of_keys [OF fr] by (simp add: order_key_def)
    have c1: "mirrors a (track_events a ?first C) (book_set x \<union> virt ?order (ro_remaining_quantity ?order)) \<and>
        evolves ?P C (track_events a ?first C) \<and> known_as a ?order (track_events a ?first C)"
    proof (cases "nc_account_id cmd = a")
      case True
      obtain r where r: "C ?c = Some r" "ord_state r = PendingNew" "ord_instrument_id r = ?i"
        "ord_side r = nc_side cmd" "ord_price r = nc_price cmd" "ord_time_in_force r = nc_time_in_force cmd"
        using e True by (auto simp: expected_def)
      let ?r = "r\<lparr>ord_exchange_order_id := Some (xc_next_id x), ord_state := Live, ord_quantity := nc_quantity cmd,
          ord_remaining_quantity := nc_quantity cmd\<rparr>"
      have t: "track_events a ?first C = C(?c \<mapsto> ?r)"
        using r(1) True by (simp add: track_events_def accepted_event_def order_key_of_def)
      have "evolves ?P C (C(?c \<mapsto> ?r))" by (rule evolves_put [where r = r]) (use r True in auto)
      moreover have "known_as a ?order (C(?c \<mapsto> ?r))" using r by (simp add: known_as_def)
      moreover have "mirrors a (if ro_account_id ?order = a then C(ro_client_order_id ?order \<mapsto> ?r) else C)
          (book_set x \<union> virt ?order (ro_remaining_quantity ?order))"
        by (rule mirrors_appears [OF m free]) (use r q in \<open>simp_all add: gtc_info_def order_info_def is_live_def rest_info_def resting_of_def\<close>)
      ultimately show ?thesis using True by (simp add: t)
    next
      case False
      then have t: "track_events a ?first C = C" by (simp add: track_events_def accepted_event_def order_key_of_def)
      have "mirrors a (if ro_account_id ?order = a then C(ro_client_order_id ?order \<mapsto> undefined) else C)
          (book_set x \<union> virt ?order (ro_remaining_quantity ?order))"
        by (rule mirrors_appears [OF m free]) (use False q in simp_all)
      then show ?thesis using False by (simp add: t known_as_def)
    qed
    have "followed a C ?P (commit ?i v' (?first @ evs) (x\<lparr>xc_next_id := xc_next_id x + 1\<rparr>))"
      by (rule followed_placed [OF s _ soundD(2) [OF s] _ _ _ _ _ pl]) (use c1 free in \<open>simp_all flip: book_set_split\<close>)
    then show ?thesis by simp
  qed
  show ?thesis unfolding exchange_new_def Let_def using pl placed rej by (auto split: if_splits)
qed

lemma open_order_found:
  assumes "open_order k v = Some b"
  obtains sd where "b \<in> set (v sd)" "key_of b = k"
proof -
  have "b \<in> set (v Buy @ v Sell) \<and> key_of b = k"
    using assms unfolding open_order_def find_Some_iff by (metis nth_mem)
  then show thesis using that by auto
qed

lemma without_one:
  assumes s: "exchange_sound x" and b: "b \<in> set (xc_book x i sd)" "key_of b = k"
  shows "elsewhere i x \<union> orders_at i (\<lambda>sd. filter (\<lambda>c. key_of c \<noteq> k) (xc_book x i sd)) = book_set x - {(i, b)}"
proof -
  have "(i, b) \<in> book_set x" using b by (auto simp: book_set_def)
  then have "key_of d = k \<longleftrightarrow> j = i \<and> d = b" if "(j, d) \<in> book_set x" for j d
    using keyedD [OF soundD(5) [OF s] that] b(2) by auto
  then show ?thesis by (auto simp: book_set_def elsewhere_def orders_at_def)
qed

lemma followed_cancel:
  assumes s: "exchange_sound x" and m: "mirrors a C (book_set x)" and e: "expected a C (CancelOrderC cmd)"
  shows "followed a C {} (exchange_cancel cmd x)"
proof -
  let ?i = "cc_instrument_id cmd" and ?c = "cc_client_order_id cmd"
  have rej: "followed a C {} (refuse cs (cc_account_id cmd) ?c ?i reason x)" for cs reason
    by (rule followed_refuse [OF m]) (use e in \<open>auto simp: expected_def\<close>)
  have found: "followed a C {} (commit ?i (\<lambda>sd. filter (\<lambda>c. key_of c \<noteq> cancel_key cmd) (xc_book x ?i sd))
      (cancelled_events cmd b n) x)" if o: "open_order (cancel_key cmd) (xc_book x ?i) = Some b" for b n
  proof -
    obtain sd where b: "b \<in> set (xc_book x ?i sd)" "key_of b = cancel_key cmd" by (rule open_order_found [OF o])
    have mem: "(?i, b) \<in> book_set x" using b by (auto simp: book_set_def)
    have k: "bo_account_id b = cc_account_id cmd" "bo_client_order_id b = ?c" using b(2) by (simp_all add: key_of_live cancel_key_def)
    obtain r where t: "track_events a (cancelled_events cmd b n) C = (if bo_account_id b = a then C(bo_client_order_id b \<mapsto> r) else C)"
      and ev: "bo_account_id b = a \<Longrightarrow> gtc_info r = None \<and> evolves {} C (C(bo_client_order_id b \<mapsto> r))"
    proof (cases "bo_account_id b = a")
      case True
      obtain r where r: "C (bo_client_order_id b) = Some r" "is_live (ord_state r)" by (rule mirrors_shown [OF m mem True]) (rule that)
      show ?thesis
      proof (rule that [of "r\<lparr>ord_state := CancelledOrder\<rparr>"])
        show "track_events a (cancelled_events cmd b n) C =
            (if bo_account_id b = a then C(bo_client_order_id b \<mapsto> r\<lparr>ord_state := CancelledOrder\<rparr>) else C)"
          using r(1) k True by (simp add: track_events_def cancelled_events_def order_key_of_def)
        show "gtc_info (r\<lparr>ord_state := CancelledOrder\<rparr>) = None \<and> evolves {} C (C(bo_client_order_id b \<mapsto> r\<lparr>ord_state := CancelledOrder\<rparr>))"
          using evolves_put [where C = C and r = r and r' = "r\<lparr>ord_state := CancelledOrder\<rparr>"] r live_not_pending [OF r(2)]
          by (simp add: gtc_info_def order_info_def is_live_def)
      qed
    next
      case False
      then show ?thesis using k by (intro that [of undefined]) (simp_all add: track_events_def cancelled_events_def order_key_of_def)
    qed
    have "mirrors a (track_events a (cancelled_events cmd b n) C) (book_set x - {(?i, b)})"
      unfolding t by (rule mirrors_disappears [OF m soundD(5) [OF s] mem]) (use ev in simp)
    moreover have "evolves {} C (track_events a (cancelled_events cmd b n) C)" unfolding t using ev by simp
    ultimately show ?thesis
      by (simp add: followed_def book_set_commit without_one [OF s b]) (simp add: commit_def)
  qed
  show ?thesis unfolding exchange_cancel_def Let_def using found rej by (auto split: option.split)
qed

lemma replaced_first:
  assumes s: "exchange_sound x" and m: "mirrors a C (book_set x)" and e: "expected a C (ReplaceOrderC cmd)"
    and b: "b \<in> set (xc_book x i sd)" "key_of b = live_key (rc_account_id cmd) (rc_original_client_order_id cmd)" "i = rc_instrument_id cmd"
    and order: "ro_account_id order = rc_account_id cmd" "ro_client_order_id order = rc_new_client_order_id cmd"
      "ro_instrument_id order = i" "ro_side order = bo_side b" "ro_price order = rc_new_price cmd"
      "ro_remaining_quantity order = rc_new_quantity cmd" "ro_time_in_force order = bo_time_in_force b" "rc_new_quantity cmd \<noteq> 0"
    and free: "free_of {order_key order} (book_set x - {(i, b)})"
    and evs: "\<And>C. track_events a evs C =
      (if rc_account_id cmd = a
       then track (ReplacedM \<lparr>rl_account_id = rc_account_id cmd, rl_original_client_order_id = rc_original_client_order_id cmd,
         rl_new_client_order_id = rc_new_client_order_id cmd, rl_exchange_order_id = ro_exchange_order_id order, rl_instrument_id = i,
         rl_new_price = rc_new_price cmd, rl_new_quantity = rc_new_quantity cmd\<rparr>) C
       else C)"
  shows "mirrors a (track_events a evs C) (book_set x - {(i, b)} \<union> virt order (rc_new_quantity cmd)) \<and>
    evolves (own_ids a (ReplaceOrderC cmd)) C (track_events a evs C) \<and> known_as a order (track_events a evs C)"
proof -
  let ?orig = "rc_original_client_order_id cmd" and ?new = "rc_new_client_order_id cmd" and ?P = "own_ids a (ReplaceOrderC cmd)"
  have mem: "(i, b) \<in> book_set x" using b(1) by (auto simp: book_set_def)
  have k: "bo_account_id b = rc_account_id cmd" "bo_client_order_id b = ?orig" using b(2) by (simp_all add: key_of_live)
  show ?thesis
  proof (cases "rc_account_id cmd = a")
    case True
    obtain r where r: "C ?orig = Some r" "is_live (ord_state r)" "ord_time_in_force r = GTC" "ord_instrument_id r = i" "ord_side r = bo_side b"
      by (rule mirrors_shown [OF m mem]) (use True k that in auto)
    obtain r' where r': "C ?new = Some r'" "ord_state r' = PendingNew" "ord_instrument_id r' = i" "ord_side r' = bo_side b" "ord_time_in_force r' = GTC"
      using e True r by (auto simp: expected_def)
    have ne: "?new \<noteq> ?orig" using r(1,2) r'(1,2) by (auto simp: is_live_def)
    let ?r = "r\<lparr>ord_state := ReplacedOrder\<rparr>"
    let ?r' = "r'\<lparr>ord_state := Live, ord_exchange_order_id := Some (ro_exchange_order_id order),
        ord_price := rc_new_price cmd, ord_quantity := rc_new_quantity cmd, ord_remaining_quantity := rc_new_quantity cmd\<rparr>"
    let ?C = "C(?orig \<mapsto> ?r)"
    have t: "track_events a evs C = ?C(?new \<mapsto> ?r')" using evs True r(1) r'(1) ne by simp
    have gtc: "bo_time_in_force b = GTC" by (rule soundD(4) [OF s b(1)])
    have m1: "mirrors a ?C (book_set x - {(i, b)})"
      using mirrors_disappears [where r = ?r, OF m soundD(5) [OF s] mem] k True by (simp add: gtc_info_def order_info_def is_live_def)
    have "mirrors a (if ro_account_id order = a then ?C(ro_client_order_id order \<mapsto> ?r') else ?C)
        (book_set x - {(i, b)} \<union> virt order (ro_remaining_quantity order))"
      by (rule mirrors_appears [OF m1 free])
        (use r' order gtc in \<open>simp_all add: gtc_info_def order_info_def is_live_def rest_info_def resting_of_def\<close>)
    then have "mirrors a (?C(?new \<mapsto> ?r')) (book_set x - {(i, b)} \<union> virt order (rc_new_quantity cmd))" using order True by simp
    moreover have "evolves ?P C ?C" by (rule evolves_put [where r = r]) (use r live_not_pending [OF r(2)] in auto)
    moreover have "evolves ?P ?C (?C(?new \<mapsto> ?r'))" by (rule evolves_put [where r = r']) (use r' ne True in auto)
    moreover have "known_as a order (?C(?new \<mapsto> ?r'))" using r' order gtc by (simp add: known_as_def)
    ultimately show ?thesis unfolding t using evolves_trans by blast
  next
    case False
    have m1: "mirrors a C (book_set x - {(i, b)})" by (rule mirrors_foreign [OF m]) (use k False in auto)
    have "mirrors a (if ro_account_id order = a then C(ro_client_order_id order \<mapsto> undefined) else C)
        (book_set x - {(i, b)} \<union> virt order (ro_remaining_quantity order))"
      by (rule mirrors_appears [OF m1 free]) (use order False in simp_all)
    then show ?thesis using evs False order by (simp add: known_as_def)
  qed
qed

lemma followed_replace:
  assumes s: "exchange_sound x" and m: "mirrors a C (book_set x)" and e: "expected a C (ReplaceOrderC cmd)"
    and adm: "admissible (ReplaceOrderC cmd) x"
  shows "followed a C (own_ids a (ReplaceOrderC cmd)) (exchange_replace cmd x)"
proof -
  let ?i = "rc_instrument_id cmd" and ?k = "live_key (rc_account_id cmd) (rc_original_client_order_id cmd)"
  let ?k' = "live_key (rc_account_id cmd) (rc_new_client_order_id cmd)" and ?P = "own_ids a (ReplaceOrderC cmd)"
  have rej: "followed a C ?P (refuse cs (rc_account_id cmd) (rc_original_client_order_id cmd) ?i reason x)" for cs reason
    by (rule followed_refuse [OF m]) (use e in \<open>auto simp: expected_def\<close>)
  have free: "free_of {?k'} (book_set x - {(?i, b)})" if b: "b \<in> set (xc_book x ?i sd)" "key_of b = ?k" for b sd
  proof (cases "?k' = ?k")
    case True
    have mem: "(?i, b) \<in> book_set x" using b(1) by (auto simp: book_set_def)
    show ?thesis unfolding free_of_def True using keyedD [OF soundD(5) [OF s] _ mem] b(2) by auto
  next
    case False
    then have "free_of {?k'} (book_set x)" using adm by (intro free_of_keys) (auto simp: admissible_def Let_def)
    then show ?thesis by (auto simp: free_of_def)
  qed
  have in_place: "followed a C ?P (commit ?i (\<lambda>sd. map (\<lambda>c. if key_of c = ?k then edited_order cmd c else c) (xc_book x ?i sd))
      (in_place_events cmd b (xc_next_event x)) x)"
    if o: "open_order ?k (xc_book x ?i) = Some b" and q: "rc_new_quantity cmd \<noteq> 0" "rc_new_price cmd = bo_price b" for b
  proof -
    obtain sd where b: "b \<in> set (xc_book x ?i sd)" "key_of b = ?k" by (rule open_order_found [OF o])
    define order where "order = \<lparr>ro_exchange_order_id = bo_exchange_order_id b, ro_client_order_id = rc_new_client_order_id cmd,
        ro_account_id = rc_account_id cmd, ro_price = rc_new_price cmd, ro_original_quantity = rc_new_quantity cmd,
        ro_remaining_quantity = rc_new_quantity cmd, ro_order_sequence = 0, ro_instrument_id = ?i, ro_side = bo_side b,
        ro_time_in_force = bo_time_in_force b\<rparr>"
    have fr: "free_of {order_key order} (book_set x - {(?i, b)})" using free [OF b] by (simp add: order_def order_key_def)
    have "bo_account_id b = rc_account_id cmd" using b(2) by (simp add: key_of_live)
    then have eb: "edited_order cmd b = resting_of order (rc_new_quantity cmd)"
      using q(2) by (simp add: edited_order_def set_client_def set_quantity_def resting_of_def order_def)
    have "mirrors a (track_events a (in_place_events cmd b (xc_next_event x)) C) (book_set x - {(?i, b)} \<union> virt order (rc_new_quantity cmd)) \<and>
        evolves ?P C (track_events a (in_place_events cmd b (xc_next_event x)) C) \<and>
        known_as a order (track_events a (in_place_events cmd b (xc_next_event x)) C)"
      by (rule replaced_first [OF s m e b refl _ _ _ _ _ _ _ _ fr])
        (use q in \<open>simp_all add: order_def in_place_events_def track_events_def order_key_of_def del: track.simps\<close>)
    moreover have "elsewhere ?i x \<union> orders_at ?i (\<lambda>sd. map (\<lambda>c. if key_of c = ?k then edited_order cmd c else c) (xc_book x ?i sd)) =
        book_set x - {(?i, b)} \<union> virt order (rc_new_quantity cmd)"
    proof -
      have mem: "(?i, b) \<in> book_set x" using b by (auto simp: book_set_def)
      have kb: "key_of d = ?k \<longleftrightarrow> d = b" if "(?i, d) \<in> book_set x" for d
        using keyedD [OF soundD(5) [OF s] that mem] b(2) by auto
      have inb: "d \<in> set (xc_book x ?i sd) \<Longrightarrow> (?i, d) \<in> book_set x" for d sd by (auto simp: book_set_def)
      have gtc: "bo_time_in_force b = GTC" by (rule soundD(4) [OF s b(1)])
      have "orders_at ?i (\<lambda>sd. map (\<lambda>c. if key_of c = ?k then edited_order cmd c else c) (xc_book x ?i sd)) =
          orders_at ?i (xc_book x ?i) - {(?i, b)} \<union> {(?i, edited_order cmd b)}"
        using kb inb b unfolding orders_at_def by (auto simp: image_iff)
      moreover have "virt order (rc_new_quantity cmd) = {(?i, edited_order cmd b)}" using q(1) gtc by (simp add: virt_def eb) (simp add: order_def)
      ultimately show ?thesis unfolding book_set_split [of x ?i] using elsewhere_neq [of ?i b ?i x] by auto
    qed
    ultimately show ?thesis by (simp add: followed_def book_set_commit del: own_ids.simps) (simp add: commit_def del: own_ids.simps)
  qed
  have anew: "followed a C ?P (commit ?i v' (replaced_events cmd b (xc_next_id x) (xc_next_event x) @ evs) (x\<lparr>xc_next_id := xc_next_id x + 1\<rparr>))"
    if o: "open_order ?k (xc_book x ?i) = Some b" and q: "rc_new_quantity cmd \<noteq> 0"
      and order: "order = \<lparr>ro_exchange_order_id = xc_next_id x, ro_client_order_id = rc_new_client_order_id cmd,
          ro_account_id = rc_account_id cmd, ro_price = rc_new_price cmd, ro_original_quantity = rc_new_quantity cmd,
          ro_remaining_quantity = rc_new_quantity cmd, ro_order_sequence = 0, ro_instrument_id = ?i, ro_side = bo_side b,
          ro_time_in_force = bo_time_in_force b\<rparr>"
      and pl: "place_in (rc_command_sequence cmd) order (xc_next_event x + 2) (\<lambda>sd. filter (\<lambda>c. key_of c \<noteq> ?k) (xc_book x ?i sd)) = (v', evs)"
    for b v' evs order
  proof -
    let ?w = "\<lambda>sd. filter (\<lambda>c. key_of c \<noteq> ?k) (xc_book x ?i sd)" and ?first = "replaced_events cmd b (xc_next_id x) (xc_next_event x)"
    obtain sd where b: "b \<in> set (xc_book x ?i sd)" "key_of b = ?k" by (rule open_order_found [OF o])
    note w = without_one [OF s b]
    have fr: "free_of {order_key order} (book_set x - {(?i, b)})" using free [OF b] by (simp add: order order_key_def)
    have f: "mirrors a (track_events a ?first C) (book_set x - {(?i, b)} \<union> virt order (rc_new_quantity cmd)) \<and>
        evolves ?P C (track_events a ?first C) \<and> known_as a order (track_events a ?first C)"
      by (rule replaced_first [OF s m e b refl _ _ _ _ _ _ _ _ fr])
        (use q in \<open>simp_all add: order replaced_events_def track_events_def order_key_of_def del: track.simps\<close>)
    have rq: "ro_remaining_quantity order = rc_new_quantity cmd" "?i = ro_instrument_id order" by (simp_all add: order)
    show ?thesis
      by (rule followed_placed [OF s _ _ _ _ _ rq(2) _ pl])
        (use f fr soundD(2) [OF s] in \<open>auto simp: w rq(1) intro: distinct_map_filter\<close>)
  qed
  consider (unknown) "?i \<notin> xc_known x"
    | (bad) "?i \<in> xc_known x" "sint (rc_new_price cmd) \<le> 0 \<or> rc_new_quantity cmd = 0"
    | (gone) "?i \<in> xc_known x" "\<not> (sint (rc_new_price cmd) \<le> 0 \<or> rc_new_quantity cmd = 0)" "open_order ?k (xc_book x ?i) = None"
    | (yes) b where "open_order ?k (xc_book x ?i) = Some b" "rc_new_quantity cmd \<noteq> 0" "?i \<in> xc_known x" "\<not> sint (rc_new_price cmd) \<le> 0"
    using not_None_eq by metis
  then show ?thesis
  proof cases
    case unknown
    then show ?thesis using rej by (simp add: exchange_replace_def)
  next
    case bad
    then show ?thesis using rej by (auto simp: exchange_replace_def Let_def simp del: own_ids.simps)
  next
    case gone
    then show ?thesis using rej by (simp add: exchange_replace_def Let_def)
  next
    case yes
    show ?thesis
    proof (cases "rc_new_price cmd = bo_price b \<and> rc_new_quantity cmd \<le> bo_remaining_quantity b")
      case True
      then show ?thesis using in_place [OF yes(1,2)] yes by (simp add: exchange_replace_def Let_def del: own_ids.simps)
    next
      case False
      let ?order = "\<lparr>ro_exchange_order_id = xc_next_id x, ro_client_order_id = rc_new_client_order_id cmd,
          ro_account_id = rc_account_id cmd, ro_price = rc_new_price cmd, ro_original_quantity = rc_new_quantity cmd,
          ro_remaining_quantity = rc_new_quantity cmd, ro_order_sequence = 0, ro_instrument_id = ?i, ro_side = bo_side b,
          ro_time_in_force = bo_time_in_force b\<rparr>"
      obtain v' evs where pl: "place_in (rc_command_sequence cmd) ?order (xc_next_event x + 2)
          (\<lambda>sd. filter (\<lambda>c. key_of c \<noteq> ?k) (xc_book x ?i sd)) = (v', evs)" by (metis prod.exhaust)
      show ?thesis using anew [OF yes(1,2) refl pl] yes False pl by (auto simp: exchange_replace_def Let_def simp del: own_ids.simps)
    qed
  qed
qed

lemma followed_command:
  assumes "exchange_sound x" "mirrors a C (book_set x)" "expected a C c" "admissible c x"
  shows "followed a C (own_ids a c) (exchange_process c x)"
  using assms followed_new followed_cancel followed_replace by (cases c) simp_all

end
