(* ===== verification/TraderLoop.thy ===== *)
theory TraderLoop
  imports TraderView GatedEngine CommandSequencer
begin

text \<open>
  The whole path of a trader's orders, one request at a time: the order management system sends a message, the
  gateway makes a command of it, the sequencer stamps it, the risk-gated engine processes it, and the private
  reports of the trader's account come back to the order management system. In between, anybody else's commands
  reach the engine. (The queues and threads in between keep the order: \<open>MatchingPipeline\<close>,
  \<open>OrderEntryGateway\<close>.)
\<close>

section \<open>Turns\<close>

record Trading =
  tl_oms :: OrderManagementSystem
  tl_sequencer :: CommandSequencer
  tl_engine :: RiskGatedEngine

text \<open>The flag says whether the sender could send the message.\<close>

datatype TraderTurn =
    Place bool InstrumentId Side Price Quantity OrderType TimeInForce
  | Withdraw bool ClientOrderId
  | Amend bool ClientOrderId Price Quantity
  | Others ExchangeCommand

definition exchange_turn :: "ExchangeCommand option \<Rightarrow> Trading \<Rightarrow> Trading option" where
  "exchange_turn command s =
     (case command of
        None \<Rightarrow> Some s
      | Some c \<Rightarrow>
          (case sequence_command c (tl_sequencer s) of (sequenced, sequencer) \<Rightarrow> do {
             (g, evs) \<leftarrow> gated_process sequenced (tl_engine s);
             Some \<lparr>tl_oms = handle_all (reports_for (om_account_id (tl_oms s)) evs) (tl_oms s), tl_sequencer = sequencer, tl_engine = g\<rparr>
           }))"

definition sent_command :: "bool \<Rightarrow> Message option \<Rightarrow> ExchangeCommand option" where
  "sent_command sent m = (if sent then Option.bind m to_command else None)"

fun request :: "TraderTurn \<Rightarrow> Trading \<Rightarrow> ExchangeCommand option \<times> Trading" where
  \<comment> \<open>what the trader's side does, and the command that goes out\<close>
  "request (Place sent i sd p q t tif) s =
     (case submit_new_order (\<lambda>_. sent) i sd p q t tif (tl_oms s) of
        (_, m, message, _) \<Rightarrow> (sent_command sent (Some message), s\<lparr>tl_oms := m\<rparr>))"
| "request (Withdraw sent c) s =
     (case cancel_order (\<lambda>_. sent) c (tl_oms s) of (_, m, message) \<Rightarrow> (sent_command sent message, s\<lparr>tl_oms := m\<rparr>))"
| "request (Amend sent c p q) s =
     (case replace_order (\<lambda>_. sent) c p q (tl_oms s) of (_, m, message) \<Rightarrow> (sent_command sent message, s\<lparr>tl_oms := m\<rparr>))"
| "request (Others c) s = (Some c, s)"

definition trader_turn :: "TraderTurn \<Rightarrow> Trading \<Rightarrow> Trading option" where
  "trader_turn t s = (case request t s of (c, s) \<Rightarrow> exchange_turn c s)"

fun trader_turns :: "TraderTurn list \<Rightarrow> Trading \<Rightarrow> Trading option" where
  "trader_turns [] s = Some s"
| "trader_turns (t # ts) s = do { s \<leftarrow> trader_turn t s; trader_turns ts s }"

text \<open>The turns the theorem is about: identifiers have not been used up, other people's commands are not the
  account's, and the engine can take the command (prices clear of the top of the range, a free handle, and
  no replacement onto the identifier of a live order).\<close>

definition fresh_id :: "OrderManagementSystem \<Rightarrow> bool" where
  "fresh_id m \<longleftrightarrow> om_orders m (om_next_client_order_id m) = None"

definition turn_ok :: "TraderTurn \<Rightarrow> Trading \<Rightarrow> bool" where
  "turn_ok t s \<longleftrightarrow> fresh_id (tl_oms s) \<and>
     (case t of Others c \<Rightarrow> account_of_command c \<noteq> om_account_id (tl_oms s) | _ \<Rightarrow> True) \<and>
     (case fst (request t s) of None \<Rightarrow> True | Some c \<Rightarrow> command_ok c (ge_engine (tl_engine s)))"

fun turns_ok :: "TraderTurn list \<Rightarrow> Trading \<Rightarrow> bool" where
  "turns_ok [] s \<longleftrightarrow> True"
| "turns_ok (t # ts) s \<longleftrightarrow> turn_ok t s \<and> (case trader_turn t s of None \<Rightarrow> True | Some s \<Rightarrow> turns_ok ts s)"

definition start_trading :: "AccountId \<Rightarrow> InstrumentId list \<Rightarrow> Ledger \<Rightarrow> RiskLimits \<Rightarrow> Trading" where
  "start_trading a universe l limits =
     \<lparr>tl_oms = new_oms a, tl_sequencer = new_sequencer,
      tl_engine = \<lparr>ge_engine = new_matching_engine universe, ge_ledger = l, ge_limits = limits\<rparr>\<rparr>"

section \<open>What each side knows\<close>

definition working_orders :: "OrderManagementSystem \<Rightarrow> (ClientOrderId \<times> TimeInForce \<times> OrderInfo) set" where
  \<comment> \<open>the orders the order management system shows as working (\<open>is_live\<close>): time in force, exchange id, instrument,
    side, price and open quantity\<close>
  "working_orders m =
     {(c, tif, y). \<exists>r. om_orders m c = Some r \<and> is_live (ord_state r) \<and> ord_time_in_force r = tif \<and> order_info r = y}"

definition resting_orders_of :: "AccountId \<Rightarrow> MatchingEngine \<Rightarrow> (ClientOrderId \<times> OrderInfo) set" where
  "resting_orders_of a e =
     {(bo_client_order_id b, rest_info i b) | i b. (\<exists>sd h. (h, b) \<in> set (view e i sd)) \<and> bo_account_id b = a}"

definition in_step :: "AccountId \<Rightarrow> Trading \<Rightarrow> bool" where
  "in_step a s \<longleftrightarrow> om_account_id (tl_oms s) = a \<and> engine_inv (ge_engine (tl_engine s)) \<and>
     mirrors a (cores (tl_oms s)) (book_set (exchange_of (ge_engine (tl_engine s))))"

lemma in_step_orders:
  assumes "in_step a s"
  shows "(c, GTC, y) \<in> working_orders (tl_oms s) \<longleftrightarrow> (c, y) \<in> resting_orders_of a (ge_engine (tl_engine s))"
    "(c, tif, y) \<in> working_orders (tl_oms s) \<Longrightarrow> tif \<noteq> GTC \<Longrightarrow> (c, z) \<notin> resting_orders_of a (ge_engine (tl_engine s))"
proof -
  have shown: "shown (cores (tl_oms s)) c = Some y \<longleftrightarrow> (c, GTC, y) \<in> working_orders (tl_oms s)" for c y
    by (auto simp: shown_def cores_def working_orders_def core_def gtc_info_def order_info_def Option.bind_eq_Some_conv)
  moreover have "(\<exists>i b. (i, b) \<in> book_set (exchange_of (ge_engine (tl_engine s))) \<and> key_of b = live_key a c \<and> rest_info i b = y) \<longleftrightarrow>
      (c, y) \<in> resting_orders_of a (ge_engine (tl_engine s))" for c y
    by (force simp: book_set_def exchange_of_simps key_of_live resting_orders_of_def)
  ultimately show gtc: "(c, GTC, y) \<in> working_orders (tl_oms s) \<longleftrightarrow> (c, y) \<in> resting_orders_of a (ge_engine (tl_engine s))" for c y
    using assms unfolding in_step_def mirrors_def by auto
  show "(c, tif, y) \<in> working_orders (tl_oms s) \<Longrightarrow> tif \<noteq> GTC \<Longrightarrow> (c, z) \<notin> resting_orders_of a (ge_engine (tl_engine s))"
    unfolding gtc [symmetric] by (auto simp: working_orders_def)
qed

section \<open>The exchange's part\<close>

lemma expected_with_sequence [simp]: "expected a C (with_sequence n c) = expected a C c"
  by (cases c) (simp_all add: expected_def)

lemma command_ok_with_sequence [simp]: "command_ok (with_sequence n c) e = command_ok c e"
  by (cases c) (simp_all add: command_ok_def new_id_free_def)

lemma gate_cases:
  "gated_process (NewOrderC n) g = gated_forward (NewOrderC n) g \<or>
   (\<exists>reason. gated_process (NewOrderC n) g = Some (gated_reject (reject_new_order n reason (ge_engine g, [])) g))"
  "gated_process (ReplaceOrderC r) g = gated_forward (ReplaceOrderC r) g \<or>
   (\<exists>reason. gated_process (ReplaceOrderC r) g = Some (gated_reject (reject_replace_order r reason (ge_engine g, [])) g))"
  by (simp_all add: Let_def, blast+)

text \<open>Seen from the account, the gate either passes the command on or refuses it.\<close>

lemma gated_followed:
  assumes inv: "engine_inv (ge_engine g)" and ok: "command_ok cmd (ge_engine g)" and e: "expected a C cmd"
    and m: "mirrors a C (book_set (exchange_of (ge_engine g)))"
  obtains g' evs where "gated_process cmd g = Some (g', evs)" "engine_inv (ge_engine g')"
    "mirrors a (track_events a evs C) (book_set (exchange_of (ge_engine g')))"
proof -
  let ?x = "exchange_of (ge_engine g)"
  consider (forward) "gated_process cmd g = gated_forward cmd g"
    | (new) n reason where "cmd = NewOrderC n" "gated_process cmd g = Some (gated_reject (reject_new_order n reason (ge_engine g, [])) g)"
    | (replace) n reason where "cmd = ReplaceOrderC n" "gated_process cmd g = Some (gated_reject (reject_replace_order n reason (ge_engine g, [])) g)"
  proof (cases cmd)
    case (NewOrderC n)
    then show ?thesis using gate_cases(1) [of n g] that by blast
  next
    case (ReplaceOrderC n)
    then show ?thesis using gate_cases(2) [of n g] that by blast
  qed (use that in simp)
  then show thesis
  proof cases
    case forward
    obtain e' where e': "process cmd (ge_engine g) = Some (e', snd (exchange_process cmd ?x))" "engine_inv e'"
      "exchange_of e' = fst (exchange_process cmd ?x)"
      by (rule step_follows [OF inv, of cmd]) (use ok in \<open>simp_all add: admissible_command_ok [OF inv]\<close>)
    have "followed a C (own_ids a cmd) (exchange_process cmd ?x)"
      by (rule followed_command [OF sound_engine [OF inv] m e]) (use ok in \<open>simp add: admissible_command_ok [OF inv]\<close>)
    then show ?thesis using that [of "g\<lparr>ge_engine := e', ge_ledger := fold apply_event (snd (exchange_process cmd ?x)) (ge_ledger g)\<rparr>"]
      forward e' by (simp add: gated_forward_def followed_def)
  next
    case new
    let ?r = "reject (nc_command_sequence n) (nc_account_id n) (nc_client_order_id n) (nc_instrument_id n) reason (ge_engine g, [])"
    have "followed a C (own_ids a cmd) (refuse (nc_command_sequence n) (nc_account_id n) (nc_client_order_id n) (nc_instrument_id n) reason ?x)"
      by (rule followed_refuse [OF m]) (use e new(1) in \<open>auto simp: expected_def\<close>)
    then show ?thesis using that [of "g\<lparr>ge_engine := fst ?r\<rparr>" "snd ?r"] new inv
      by (simp add: gated_reject_def reject_new_order_def followed_def exchange_of_refused)
  next
    case replace
    let ?r = "reject (rc_command_sequence n) (rc_account_id n) (rc_original_client_order_id n) (rc_instrument_id n) reason (ge_engine g, [])"
    have "followed a C (own_ids a cmd) (refuse (rc_command_sequence n) (rc_account_id n) (rc_original_client_order_id n) (rc_instrument_id n) reason ?x)"
      by (rule followed_refuse [OF m]) (use e replace(1) in \<open>auto simp: expected_def\<close>)
    then show ?thesis using that [of "g\<lparr>ge_engine := fst ?r\<rparr>" "snd ?r"] replace inv
      by (simp add: gated_reject_def reject_replace_order_def followed_def exchange_of_refused)
  qed
qed

lemma exchange_turn_in_step:
  assumes i: "in_step a s" and e: "\<And>cmd. c = Some cmd \<Longrightarrow> expected a (cores (tl_oms s)) cmd \<and> command_ok cmd (ge_engine (tl_engine s))"
  obtains s' where "exchange_turn c s = Some s'" "in_step a s'"
proof (cases c)
  case None
  then show thesis using that i by (simp add: exchange_turn_def)
next
  case (Some cmd)
  let ?cmd = "with_sequence (sc_next_sequence (tl_sequencer s)) cmd"
  have i': "engine_inv (ge_engine (tl_engine s))" "mirrors a (cores (tl_oms s)) (book_set (exchange_of (ge_engine (tl_engine s))))"
    "om_account_id (tl_oms s) = a" using i by (simp_all add: in_step_def)
  obtain g evs where g: "gated_process ?cmd (tl_engine s) = Some (g, evs)" "engine_inv (ge_engine g)"
    "mirrors a (track_events a evs (cores (tl_oms s))) (book_set (exchange_of (ge_engine g)))"
    by (rule gated_followed [OF i'(1), of ?cmd a "cores (tl_oms s)"]) (use i' e [OF Some] in auto)
  have "om_account_id (handle_all ms m) = om_account_id m" for ms m
    by (induction ms arbitrary: m) (simp_all add: handle_all_def handle_frame)
  then have "in_step a \<lparr>tl_oms = handle_all (reports_for a evs) (tl_oms s),
      tl_sequencer = snd (sequence_command cmd (tl_sequencer s)), tl_engine = g\<rparr>"
    using g i' by (simp add: in_step_def handle_all_cores track_events_def)
  then show thesis using that g(1) i' Some by (simp add: exchange_turn_def sequence_command_def Let_def)
qed

section \<open>The trader's part\<close>

lemma cores_put: "cores (m\<lparr>om_orders := (om_orders m)(c \<mapsto> r)\<rparr>) = (cores m)(c \<mapsto> core r)" "cores (m\<lparr>om_next_client_order_id := n\<rparr>) = cores m"
  by (auto simp: cores_def)

lemma mirrors_new: "mirrors a C S \<Longrightarrow> C c = None \<Longrightarrow> \<not> is_live (ord_state r) \<Longrightarrow> mirrors a (C(c \<mapsto> r)) S"
  by (rule mirrors_same_shown) (auto simp: shown_upd gtc_info_def order_info_def shown_def fun_eq_iff)

lemma in_step_orders_changed:
  assumes "in_step a s" "mirrors a (cores m) (book_set (exchange_of (ge_engine (tl_engine s))))" "om_account_id m = om_account_id (tl_oms s)"
  shows "in_step a (s\<lparr>tl_oms := m\<rparr>)"
  using assms by (simp add: in_step_def)

lemma place_request:
  assumes i: "in_step a s" and f: "fresh_id (tl_oms s)" and r: "request (Place sent j sd p q t tif) s = (c, s')"
  shows "in_step a s' \<and> (\<forall>cmd. c = Some cmd \<longrightarrow> expected a (cores (tl_oms s')) cmd) \<and> tl_engine s' = tl_engine s"
proof -
  let ?m = "tl_oms s" and ?n = "om_next_client_order_id (tl_oms s)"
  let ?r = "pending_order a ?n j sd p q t tif"
  have a: "om_account_id ?m = a" "mirrors a (cores ?m) (book_set (exchange_of (ge_engine (tl_engine s))))" using i by (simp_all add: in_step_def)
  have n: "cores ?m ?n = None" using f by (simp add: cores_def fresh_id_def)
  have m: "mirrors a ((cores ?m)(?n \<mapsto> x)) (book_set (exchange_of (ge_engine (tl_engine s))))" if "\<not> is_live (ord_state x)" for x
    by (rule mirrors_new [OF a(2) n that])
  let ?m1 = "?m\<lparr>om_next_client_order_id := ?n + 1, om_orders := (om_orders ?m)(?n \<mapsto> ?r)\<rparr>"
  let ?m2 = "?m1\<lparr>om_orders := (om_orders ?m1)(?n \<mapsto> ?r\<lparr>ord_state := RejectedOrder, ord_pending_action := NoAction, ord_last_reject_reason := InternalError\<rparr>)\<rparr>"
  have c: "cores ?m1 = (cores ?m)(?n \<mapsto> core ?r)" by (auto simp: cores_def)
  have c2: "cores ?m2 = (cores ?m)(?n \<mapsto> core (?r\<lparr>ord_state := RejectedOrder\<rparr>))"
    by (auto simp: cores_def core_def fun_eq_iff)
  show ?thesis
  proof (cases sent)
    case True
    then have "s' = s\<lparr>tl_oms := ?m1\<rparr>" "c = to_command (NewOrderM \<lparr>no_account_id = a, no_client_order_id = ?n, no_instrument_id = j, no_side = sd,
            no_price = p, no_quantity = q, no_order_type = t, no_time_in_force = tif\<rparr>)"
      using r a f by (simp_all add: submit_new_order_def Let_def emplace_def fresh_id_def sent_command_def)
    moreover have "in_step a (s\<lparr>tl_oms := ?m1\<rparr>)"
      by (rule in_step_orders_changed [OF i]) (unfold c, rule m, simp_all add: core_def pending_order_def is_live_def)
    moreover have "expected a (cores ?m1) (NewOrderC \<lparr>nc_command_sequence = 0, nc_account_id = a, nc_client_order_id = ?n, nc_instrument_id = j,
        nc_side = sd, nc_price = p, nc_quantity = q, nc_order_type = t, nc_time_in_force = tif\<rparr>)"
      unfolding c by (simp add: expected_def core_def pending_order_def)
    ultimately show ?thesis by auto
  next
    case False
    then have "s' = s\<lparr>tl_oms := ?m2\<rparr>" "c = None"
      using r a f by (simp_all add: submit_new_order_def Let_def emplace_def fresh_id_def sent_command_def mark_send_failed_def)
    moreover have "in_step a (s\<lparr>tl_oms := ?m2\<rparr>)"
      by (rule in_step_orders_changed [OF i]) (unfold c2, rule m, simp_all add: core_def is_live_def)
    ultimately show ?thesis by auto
  qed
qed

lemma cores_marked:
  "om_orders m c = Some r \<Longrightarrow> cores (m\<lparr>om_orders := (om_orders m)(c \<mapsto> r\<lparr>ord_pending_action := x\<rparr>)\<rparr>) = cores m"
  by (auto simp: cores_def core_def fun_eq_iff)

lemma cancellable: "cancellable c m = Some r \<longleftrightarrow> om_orders m c = Some r \<and> is_live (ord_state r) \<and> ord_pending_action r = NoAction"
  by (auto simp: cancellable_def split: option.split)

lemma withdraw_request:
  assumes i: "in_step a s" and r: "request (Withdraw sent c) s = (cmd, s')"
  shows "in_step a s' \<and> (\<forall>x. cmd = Some x \<longrightarrow> expected a (cores (tl_oms s')) x) \<and> tl_engine s' = tl_engine s"
proof (cases "cancellable c (tl_oms s)")
  case None
  then have "cmd = None" "s' = s" using r by (auto simp: cancel_order_def sent_command_def split: if_splits)
  then show ?thesis using i by simp
next
  case (Some w)
  have w: "om_orders (tl_oms s) c = Some w" "is_live (ord_state w)" "ord_pending_action w = NoAction" using Some cancellable by blast+
  let ?m = "(tl_oms s)\<lparr>om_orders := (om_orders (tl_oms s))(c \<mapsto> w\<lparr>ord_pending_action := CancelPending\<rparr>)\<rparr>"
  have a: "om_account_id (tl_oms s) = a" "mirrors a (cores (tl_oms s)) (book_set (exchange_of (ge_engine (tl_engine s))))"
    using i by (simp_all add: in_step_def)
  have c: "cores ?m = cores (tl_oms s)" by (rule cores_marked [OF w(1)])
  show ?thesis
  proof (cases sent)
    case True
    have "in_step a (s\<lparr>tl_oms := ?m\<rparr>)" by (rule in_step_orders_changed [OF i]) (use a c in simp_all)
    moreover have "s' = s\<lparr>tl_oms := ?m\<rparr>" "cmd = Some (CancelOrderC \<lparr>cc_command_sequence = 0, cc_account_id = a, cc_client_order_id = c,
        cc_instrument_id = ord_instrument_id w\<rparr>)"
      using r Some True a by (simp_all add: cancel_order_def sent_command_def Let_def)
    moreover have "cores ?m c = Some (core w)" unfolding c using w(1) by (simp add: cores_def)
    ultimately show ?thesis using live_not_pending [OF w(2)] by (simp add: expected_def core_def)
  next
    case False
    let ?m' = "clear_pending_action c ?m"
    have "cores ?m' = cores ?m" by (auto simp: clear_pending_action_def cores_def core_def fun_eq_iff)
    then have "in_step a (s\<lparr>tl_oms := ?m'\<rparr>)"
      by (intro in_step_orders_changed [OF i]) (use a c in \<open>simp_all add: clear_pending_action_def\<close>)
    moreover have "s' = s\<lparr>tl_oms := ?m'\<rparr>" "cmd = None" using r Some False by (simp_all add: cancel_order_def sent_command_def Let_def)
    ultimately show ?thesis by simp
  qed
qed

lemma amend_request:
  assumes i: "in_step a s" and f: "fresh_id (tl_oms s)" and r: "request (Amend sent c p q) s = (cmd, s')"
  shows "in_step a s' \<and> (\<forall>x. cmd = Some x \<longrightarrow> expected a (cores (tl_oms s')) x) \<and> tl_engine s' = tl_engine s"
proof (cases "cancellable c (tl_oms s)")
  case None
  then have "cmd = None" "s' = s" using r by (auto simp: replace_order_def sent_command_def split: if_splits)
  then show ?thesis using i by simp
next
  case (Some w)
  let ?M = "tl_oms s" and ?n = "om_next_client_order_id (tl_oms s)"
  have w: "om_orders ?M c = Some w" "is_live (ord_state w)" "ord_pending_action w = NoAction" using Some cancellable by blast+
  have n: "om_orders ?M ?n = None" "?n \<noteq> c" using f w(1) by (auto simp: fresh_id_def)
  have a: "om_account_id ?M = a" "mirrors a (cores ?M) (book_set (exchange_of (ge_engine (tl_engine s))))"
    using i by (simp_all add: in_step_def)
  let ?new = "pending_order a ?n (ord_instrument_id w) (ord_side w) p q (ord_order_type w) (ord_time_in_force w)"
  let ?m = "?M\<lparr>om_next_client_order_id := ?n + 1, om_orders := (om_orders ?M)(c \<mapsto> w\<lparr>ord_pending_action := ReplacePending\<rparr>, ?n \<mapsto> ?new)\<rparr>"
  have cs: "cores ?m = (cores ?M)(?n \<mapsto> core ?new)" using w(1) n(2) by (auto simp: cores_def core_def fun_eq_iff)
  show ?thesis
  proof (cases sent)
    case True
    have "mirrors a (cores ?m) (book_set (exchange_of (ge_engine (tl_engine s))))"
      unfolding cs by (rule mirrors_new [OF a(2)]) (use n in \<open>simp_all add: cores_def core_def pending_order_def is_live_def\<close>)
    then have "in_step a (s\<lparr>tl_oms := ?m\<rparr>)" by (rule in_step_orders_changed [OF i]) simp
    moreover have "s' = s\<lparr>tl_oms := ?m\<rparr>" "cmd = Some (ReplaceOrderC \<lparr>rc_command_sequence = 0, rc_account_id = a, rc_original_client_order_id = c,
        rc_new_client_order_id = ?n, rc_instrument_id = ord_instrument_id w, rc_new_price = p, rc_new_quantity = q\<rparr>)"
      using r Some True a n by (simp_all add: replace_order_def sent_command_def Let_def emplace_def)
    moreover have "cores ?m c = Some (core w)" "cores ?m ?n = Some (core ?new)" using cs w(1) n(2) by (simp_all add: cores_def)
    ultimately show ?thesis using live_not_pending [OF w(2)] by (simp add: expected_def core_def pending_order_def)
  next
    case False
    let ?m' = "clear_pending_action c (?m\<lparr>om_orders := (om_orders ?m)(?n := None)\<rparr>)"
    have "cores ?m' = cores ?M"
      using w(1) n by (auto simp: clear_pending_action_def cores_def core_def fun_eq_iff)
    then have "in_step a (s\<lparr>tl_oms := ?m'\<rparr>)"
      by (intro in_step_orders_changed [OF i]) (use a n(2) in \<open>simp_all add: clear_pending_action_def\<close>)
    moreover have "s' = s\<lparr>tl_oms := ?m'\<rparr>" "cmd = None"
      using r Some False n a by (simp_all add: replace_order_def sent_command_def Let_def emplace_def)
    ultimately show ?thesis by simp
  qed
qed

lemma others_expected: "account_of_command c \<noteq> a \<Longrightarrow> expected a C c"
  by (cases c) (simp_all add: expected_def)

lemma turn_in_step:
  assumes i: "in_step a s" and ok: "turn_ok t s"
  obtains s' where "trader_turn t s = Some s'" "in_step a s'"
proof -
  obtain c s1 where r: "request t s = (c, s1)" by (cases "request t s")
  have f: "fresh_id (tl_oms s)" using ok by (simp add: turn_ok_def)
  have a: "om_account_id (tl_oms s) = a" using i by (simp add: in_step_def)
  have q: "in_step a s1 \<and> (\<forall>cmd. c = Some cmd \<longrightarrow> expected a (cores (tl_oms s1)) cmd) \<and> tl_engine s1 = tl_engine s"
  proof (cases t)
    case (Place sent j sd p q t' tif)
    then show ?thesis using place_request [OF i f] r by blast
  next
    case (Withdraw sent c')
    then show ?thesis using withdraw_request [OF i] r by blast
  next
    case (Amend sent c' p q)
    then show ?thesis using amend_request [OF i f] r by blast
  next
    case (Others c')
    then show ?thesis using r i ok a others_expected by (auto simp: turn_ok_def)
  qed
  obtain s' where "exchange_turn c s1 = Some s'" "in_step a s'"
    by (rule exchange_turn_in_step [of a s1 c]) (use q ok r in \<open>auto simp: turn_ok_def\<close>)
  then show thesis using that r by (simp add: trader_turn_def)
qed

lemma turns_in_step: "in_step a s \<Longrightarrow> turns_ok ts s \<Longrightarrow> \<exists>s'. trader_turns ts s = Some s' \<and> in_step a s'"
proof (induction ts arbitrary: s)
  case (Cons t ts)
  obtain s1 where s1: "trader_turn t s = Some s1" "in_step a s1" by (rule turn_in_step [OF Cons.prems(1)]) (use Cons.prems(2) in auto)
  then show ?case using Cons.IH [OF s1(2)] Cons.prems(2) by simp
qed simp

lemma start_in_step: "in_step a (start_trading a universe l limits)"
proof -
  have "engine_inv (new_matching_engine universe)" "view (new_matching_engine universe) i sd = []" for i sd
    using new_matching_engine [where u = universe] by simp_all
  then show ?thesis
    by (simp add: in_step_def start_trading_def new_oms_def mirrors_def book_set_def exchange_of_simps shown_def cores_def)
qed

section \<open>Properties\<close>

text \<open>
  C2. The trader's picture is the book. Start a fresh order management system and a new engine, and let any sequence
  of turns happen that meet \<open>turn_ok\<close>: new orders, cancels and replaces of the account, sent or not, commands of other
  accounts, refusals by the risk check included, as long as the account's identifiers are not used up and the engine
  can take each command (\<open>command_ok\<close>: prices clear of the top of the range, a free handle, no replacement onto the
  identifier of a live order). Then the path has a result. The good-till-cancelled orders the order management system
  shows as working are exactly the account's resting orders in the engine: the same client order ids, with the same
  exchange ids, instruments, sides, prices and open quantities. Any other order it shows as working rests nowhere.
\<close>

theorem the_trader_sees_its_resting_orders:
  assumes "turns_ok ts (start_trading a universe l limits)"
  shows "\<exists>s. trader_turns ts (start_trading a universe l limits) = Some s \<and>
    {(c, y). (c, GTC, y) \<in> working_orders (tl_oms s)} = resting_orders_of a (ge_engine (tl_engine s)) \<and>
    (\<forall>(c, tif, y) \<in> working_orders (tl_oms s). tif \<noteq> GTC \<longrightarrow> c \<notin> fst ` resting_orders_of a (ge_engine (tl_engine s)))"
proof -
  obtain s where s: "trader_turns ts (start_trading a universe l limits) = Some s" "in_step a s"
    using turns_in_step [OF start_in_step assms] by blast
  have "{(c, y). (c, GTC, y) \<in> working_orders (tl_oms s)} = resting_orders_of a (ge_engine (tl_engine s))"
    using in_step_orders(1) [OF s(2)] by auto
  moreover have "\<forall>(c, tif, y) \<in> working_orders (tl_oms s). tif \<noteq> GTC \<longrightarrow> c \<notin> fst ` resting_orders_of a (ge_engine (tl_engine s))"
    using in_step_orders(2) [OF s(2)] by force
  ultimately show ?thesis using s(1) by blast
qed

text \<open>A report is never about an identifier that was not given out.\<close>

lemma handle_all_free: "om_orders m c = None \<Longrightarrow> om_orders (handle_all ms m) c = None"
proof -
  have t: "track msg C c = None" if "C c = None" for msg C
    using that by (cases msg) (auto simp: Let_def split: option.split)
  have "fold track ms C c = None" if "C c = None" for C using that by (induction ms arbitrary: C) (simp_all add: t)
  then show "om_orders m c = None \<Longrightarrow> om_orders (handle_all ms m) c = None"
    using fun_cong [OF handle_all_cores [of ms m], of c] by (simp add: cores_def)
qed

lemma handle_all_next: "om_next_client_order_id (handle_all ms m) = om_next_client_order_id m"
  by (induction ms arbitrary: m) (simp_all add: handle_all_def handle_frame)

theorem the_trader_sees_its_resting_orders_witness:
  "\<exists>s. trader_turns [Place True 7 Buy 100 10 Limit GTC, Withdraw True 1] (start_trading 5 [7] (deposit_cash 5 5000 empty_ledger) default_limits) = Some s \<and>
     {(c, y). (c, GTC, y) \<in> working_orders (tl_oms s)} = resting_orders_of 5 (ge_engine (tl_engine s))"
proof -
  let ?s = "start_trading 5 [7] (deposit_cash 5 5000 empty_ledger) default_limits" and ?t = "Place True 7 Buy 100 10 Limit GTC"
  have e: "ge_engine (tl_engine ?s) = sample_engine" by (simp add: start_trading_def sample_engine_def)
  have "turn_ok ?t ?s"
    using sample_engine(7,8) by (simp add: turn_ok_def e fresh_id_def submit_new_order_def sent_command_def emplace_def Let_def command_ok_def)
      (simp add: start_trading_def new_oms_def)
  moreover have "turn_ok (Withdraw True 1) s1" if s1: "trader_turn ?t ?s = Some s1" for s1
  proof -
    obtain g evs q where "s1 = \<lparr>tl_oms = handle_all (reports_for 5 evs) \<lparr>om_account_id = 5, om_next_client_order_id = 2,
        om_orders = [1 \<mapsto> pending_order 5 1 7 Buy 100 10 Limit GTC]\<rparr>, tl_sequencer = q, tl_engine = g\<rparr>"
      using s1 by (auto simp: trader_turn_def exchange_turn_def start_trading_def new_oms_def submit_new_order_def sent_command_def emplace_def Let_def
          split: prod.splits Option.bind_splits)
    then have "fresh_id (tl_oms s1)" using handle_all_free by (simp add: fresh_id_def handle_all_next)
    then show ?thesis by (auto simp: turn_ok_def sent_command_def cancel_order_def Let_def command_ok_def split: option.split)
  qed
  ultimately have "turns_ok [?t, Withdraw True 1] ?s" by (auto split: option.split)
  from the_trader_sees_its_resting_orders [OF this] show ?thesis by blast
qed

text \<open>
  The other orders are shown for ever: an immediate-or-cancel order that finds nothing to trade with is accepted and
  dropped by the engine without a report, so the order management system goes on showing it as live.
\<close>

lemma an_unfilled_ioc_stays_live:
  "\<exists>s. trader_turns [Place True 7 Buy 100 10 Limit IOC] (start_trading 5 [7] (deposit_cash 5 5000 empty_ledger) default_limits) = Some s \<and>
     resting_orders_of 5 (ge_engine (tl_engine s)) = {} \<and> (\<exists>n. working_orders (tl_oms s) = {(1, IOC, (Some n, 7, Buy, 100, 10))})"
proof -
  let ?l = "deposit_cash 5 5000 empty_ledger"
  let ?cmd = "\<lparr>nc_command_sequence = 1, nc_account_id = 5, nc_client_order_id = 1, nc_instrument_id = 7,
    nc_side = Buy, nc_price = 100, nc_quantity = 10, nc_order_type = Limit, nc_time_in_force = IOC\<rparr>"
  let ?g = "\<lparr>ge_engine = sample_engine, ge_ledger = ?l, ge_limits = default_limits\<rparr>"
  note e = sample_engine(1,4,6-8)
  have empty: "xc_book (exchange_of sample_engine) j sd = []" for j sd by (simp add: exchange_of_simps e)
  then have none: "book_keys (xc_book (exchange_of sample_engine) j) = {}" for j by (simp add: book_keys_def)
  have known: "7 \<in> xc_known (exchange_of sample_engine)" using e by (simp add: exchange_of_simps)
  let ?x = "exchange_of sample_engine"
  have p: "exchange_process (NewOrderC ?cmd) ?x =
      commit 7 (xc_book ?x 7) [accepted_event ?cmd (xc_next_id ?x) (xc_next_event ?x)] (?x\<lparr>xc_next_id := xc_next_id ?x + 1\<rparr>)"
    using none empty known by (simp add: exchange_new_def Let_def place_in_def take_events_def placed_events_def fun_upd_idem)
  have "admissible (NewOrderC ?cmd) ?x" using e by (simp add: admissible_command_ok command_ok_def)
  then obtain e' where e': "process (NewOrderC ?cmd) sample_engine = Some (e', [accepted_event ?cmd (xc_next_id ?x) (xc_next_event ?x)])"
      "exchange_of e' = fst (exchange_process (NewOrderC ?cmd) ?x)"
    by (rule step_follows [OF e(1)]) (use p in \<open>simp add: commit_def\<close>)
  have rest: "view e' j sd = []" for j sd
  proof -
    have "xc_book (exchange_of e') = xc_book ?x" using e'(2) p by (simp add: commit_def)
    then show ?thesis using empty [of j sd] by (metis exchange_of_simps(2) map_is_Nil_conv)
  qed
  have "available_cash 5 ?l = 5000"
    by (simp add: available_balances deposit_cash_def) (simp add: balances_def empty_ledger_def no_balances_def)
  then have "gated_process (NewOrderC ?cmd) ?g = gated_forward (NewOrderC ?cmd) ?g"
    using e(3) by (simp add: check_new_order_def default_limits_def sless_sint)
  then obtain g where g: "gated_process (NewOrderC ?cmd) ?g = Some (g, [accepted_event ?cmd (xc_next_id ?x) (xc_next_event ?x)])" "ge_engine g = e'"
    using e'(1) by (simp add: gated_forward_def)
  have s: "\<lparr>ge_engine = new_matching_engine [7], ge_ledger = ?l, ge_limits = default_limits\<rparr> = ?g" by (simp add: sample_engine_def)
  let ?r = "\<lparr>ord_account_id = 5, ord_client_order_id = 1, ord_exchange_order_id = Some (xc_next_id ?x), ord_instrument_id = 7,
    ord_side = Buy, ord_price = 100, ord_quantity = 10, ord_remaining_quantity = 10, ord_order_type = Limit,
    ord_time_in_force = IOC, ord_state = Live, ord_pending_action = NoAction, ord_last_reject_reason = NoReason\<rparr>"
  have "\<exists>s. trader_turns [Place True 7 Buy 100 10 Limit IOC] (start_trading 5 [7] ?l default_limits) = Some s \<and>
      om_orders (tl_oms s) = [1 \<mapsto> ?r] \<and> ge_engine (tl_engine s) = e'"
    using g by (simp del: gated_process.simps add: trader_turn_def exchange_turn_def start_trading_def s new_oms_def submit_new_order_def
        sent_command_def emplace_def Let_def sequence_command_def new_sequencer_def accepted_event_def reports_for_def handle_all_def
        on_accepted_def pending_order_def order_key_of_def)
  then obtain s where "trader_turns [Place True 7 Buy 100 10 Limit IOC] (start_trading 5 [7] ?l default_limits) = Some s"
    "om_orders (tl_oms s) = [1 \<mapsto> ?r]" "ge_engine (tl_engine s) = e'" by blast
  moreover from this have "working_orders (tl_oms s) = {(1, IOC, (Some (xc_next_id ?x), 7, Buy, 100, 10))}"
    by (auto simp: working_orders_def order_info_def is_live_def split: if_splits)
  moreover have "resting_orders_of 5 e' = {}" using rest by (simp add: resting_orders_of_def)
  ultimately show ?thesis by blast
qed

end
