(* ===== verification/MarketDataRouter.thy ===== *)
theory MarketDataRouter
  imports MarketDataFeed SpscQueue "HOL-Library.Sublist"
begin

text \<open>
  \<open>MarketDataRouter\<close> (\<open>src/include/exchange/market_data/market_data_router.hpp\<close> and
  \<open>src/src/exchange/market_data/market_data_router.cpp\<close>): the matching thread numbers and queues public
  events, the routing thread takes them out in batches. The two threads interleave between any two accesses to
  the queue (inside the queue: \<open>SpscQueue\<close>); waking is an early return from a wait that may end at any time.
\<close>

section \<open>Publishing cost\<close>

definition kPushBucketCount :: nat where
  "kPushBucketCount = 24"

definition push_bucket_lower_edge_ticks :: "nat \<Rightarrow> u64" where
  "push_bucket_lower_edge_ticks index = (if index = 0 then 0 else push_bit (index - 1) 1)"

fun bit_width :: "nat \<Rightarrow> nat" where
  \<comment> \<open>\<open>std::bit_width\<close>\<close>
  "bit_width n = (if n = 0 then 0 else Suc (bit_width (n div 2)))"

declare bit_width.simps [simp del]

definition push_bucket_index :: "u64 \<Rightarrow> nat" where
  "push_bucket_index ticks = (let width = bit_width (unat ticks) in if width < kPushBucketCount then width else kPushBucketCount - 1)"

record PublishCostStats =
  pc_events_seen :: u64
  pc_wire_events :: u64
  pc_push_ok :: u64
  pc_push_full :: u64
  pc_push_ticks_total :: u64
  pc_push_ticks_max :: u64
  pc_notify_calls :: u64
  pc_notify_ticks_total :: u64
  pc_notify_ticks_max :: u64
  pc_translate_ticks_total :: u64
  pc_translate_ticks_max :: u64
  pc_push_buckets :: "u64 list"
  pc_control_ticks_total :: u64
  pc_control_ticks_max :: u64
  pc_control_buckets :: "u64 list"

definition new_cost_stats :: PublishCostStats where
  "new_cost_stats =
     \<lparr>pc_events_seen = 0, pc_wire_events = 0, pc_push_ok = 0, pc_push_full = 0, pc_push_ticks_total = 0, pc_push_ticks_max = 0,
      pc_notify_calls = 0, pc_notify_ticks_total = 0, pc_notify_ticks_max = 0, pc_translate_ticks_total = 0,
      pc_translate_ticks_max = 0, pc_push_buckets = replicate kPushBucketCount 0, pc_control_ticks_total = 0,
      pc_control_ticks_max = 0, pc_control_buckets = replicate kPushBucketCount 0\<rparr>"

definition add_at :: "nat \<Rightarrow> u64 list \<Rightarrow> u64 list" where
  "add_at i xs = xs[i := xs ! i + 1]"

section \<open>State\<close>

record MarketDataRouter =
  mr_publisher :: MarketDataPublisher
  mr_queue :: "Event DroppingQueue"
  mr_max_batch :: nat
  mr_measure_publish_cost :: bool
  mr_stop_requested :: bool
  mr_routed :: u64
  mr_cv_waits :: u64
  mr_batches :: u64
  mr_max_batch_observed :: nat
  mr_batch :: "Event list"
  mr_cost :: PublishCostStats

definition new_market_data_router :: "u64 \<Rightarrow> nat \<Rightarrow> bool \<Rightarrow> MarketDataRouter option" where
  "new_market_data_router queue_capacity max_batch measuring = do {
     q \<leftarrow> new_dropping_queue queue_capacity;
     Some \<lparr>mr_publisher = new_market_data_publisher, mr_queue = q, mr_max_batch = (if max_batch = 0 then 1 else max_batch),
           mr_measure_publish_cost = measuring, mr_stop_requested = False, mr_routed = 0, mr_cv_waits = 0, mr_batches = 0,
           mr_max_batch_observed = 0, mr_batch = [], mr_cost = new_cost_stats\<rparr>
   }"

section \<open>The matching thread\<close>

text \<open>What the reads of the tick counter add up to: the control interval, the push, the notification and the
  call of \<open>publisher_.publish\<close> as a whole.\<close>

record Ticks =
  tk_control :: u64
  tk_push :: u64
  tk_notify :: u64
  tk_publish :: u64

definition count_push :: "Ticks \<Rightarrow> bool \<Rightarrow> PublishCostStats \<Rightarrow> PublishCostStats" where
  \<comment> \<open>the sink of \<open>publish_measured\<close>, after the push\<close>
  "count_push ticks queued s =
     (let push_ticks = tk_push ticks;
          notify_ticks = (if queued then tk_notify ticks else 0);
          s = (if queued then s\<lparr>pc_notify_calls := pc_notify_calls s + 1, pc_push_ok := pc_push_ok s + 1\<rparr>
               else s\<lparr>pc_push_full := pc_push_full s + 1\<rparr>)
      in s\<lparr>pc_wire_events := pc_wire_events s + 1,
           pc_push_ticks_total := pc_push_ticks_total s + push_ticks,
           pc_push_ticks_max := max (pc_push_ticks_max s) push_ticks,
           pc_push_buckets := add_at (push_bucket_index push_ticks) (pc_push_buckets s),
           pc_notify_ticks_total := pc_notify_ticks_total s + notify_ticks,
           pc_notify_ticks_max := max (pc_notify_ticks_max s) notify_ticks\<rparr>)"

definition count_publish :: "Ticks \<Rightarrow> u64 \<Rightarrow> PublishCostStats \<Rightarrow> PublishCostStats" where
  \<comment> \<open>the end of \<open>publish_measured\<close>; the second argument is what the sink measured\<close>
  "count_publish ticks accounted s =
     (let translate_ticks = (if accounted < tk_publish ticks then tk_publish ticks - accounted else 0)
      in s\<lparr>pc_events_seen := pc_events_seen s + 1,
           pc_translate_ticks_total := pc_translate_ticks_total s + translate_ticks,
           pc_translate_ticks_max := max (pc_translate_ticks_max s) translate_ticks,
           pc_control_ticks_total := pc_control_ticks_total s + tk_control ticks,
           pc_control_ticks_max := max (pc_control_ticks_max s) (tk_control ticks),
           pc_control_buckets := add_at (push_bucket_index (tk_control ticks)) (pc_control_buckets s)\<rparr>)"

fun push_wire :: "Event list \<Rightarrow> MarketDataRouter \<Rightarrow> (bool \<times> MarketDataRouter) option" where
  \<comment> \<open>the sink of the publisher, called at most once; the flag says whether the event was queued\<close>
  "push_wire [] m = Some (False, m)"
| "push_wire (e # es) m = do {
     (queued, q) \<leftarrow> dropping_push e (mr_queue m);
     Some (queued, m\<lparr>mr_queue := q\<rparr>)
   }"

definition router_publish :: "(Sequence \<Rightarrow> u64) \<Rightarrow> Ticks \<Rightarrow> ExchangeEvent \<Rightarrow> MarketDataRouter \<Rightarrow> (bool \<times> MarketDataRouter) option" where
  \<comment> \<open>\<open>publish\<close>, and \<open>publish_measured\<close> when the cost is measured\<close>
  "router_publish clock ticks event m =
     (case publish clock event (mr_publisher m) of (es, p) \<Rightarrow> do {
        (queued, m) \<leftarrow> push_wire es (m\<lparr>mr_publisher := p\<rparr>);
        Some (queued,
          if mr_measure_publish_cost m
          then m\<lparr>mr_cost :=
            count_publish ticks (if es = [] then 0 else tk_push ticks + (if queued then tk_notify ticks else 0))
              (if es = [] then mr_cost m else count_push ticks queued (mr_cost m))\<rparr>
          else m)
      })"

section \<open>The routing thread\<close>

text \<open>Where it is in its loop: filling a batch, past an empty drain, waiting, or joined.\<close>

datatype RoutingThread = Filling | DrainedEmpty | Waiting | Joined

definition hand_down :: "MarketDataRouter \<Rightarrow> MarketDataRouter" where
  \<comment> \<open>the counters after the call of \<open>downstream_\<close>, and the clearing of the batch for the next round\<close>
  "hand_down m =
     m\<lparr>mr_routed := mr_routed m + word_of_nat (length (mr_batch m)), mr_batches := mr_batches m + 1,
       mr_max_batch_observed := max (mr_max_batch_observed m) (length (mr_batch m)), mr_batch := []\<rparr>"

fun routing_turn :: "RoutingThread \<Rightarrow> MarketDataRouter \<Rightarrow> (RoutingThread \<times> MarketDataRouter \<times> Event list list) option" where
  \<comment> \<open>the last result is the batch handed to \<open>downstream_\<close>, if any\<close>
  "routing_turn Filling m =
     (if length (mr_batch m) < mr_max_batch m
      then do {
        (event, q) \<leftarrow> dropping_try_pop (mr_queue m);
        let m = m\<lparr>mr_queue := q\<rparr>;
        case event of
          Some e \<Rightarrow> Some (Filling, m\<lparr>mr_batch := mr_batch m @ [e]\<rparr>, [])
        | None \<Rightarrow>
            if mr_batch m \<noteq> [] then Some (Filling, hand_down m, [mr_batch m]) else Some (DrainedEmpty, m, [])
      }
      else Some (Filling, hand_down m, [mr_batch m]))"
| "routing_turn DrainedEmpty m =
     Some (if mr_stop_requested m then (Joined, m, []) else (Waiting, m\<lparr>mr_cv_waits := mr_cv_waits m + 1\<rparr>, []))"
| "routing_turn Waiting m = Some (Filling, m, [])"
| "routing_turn Joined m = Some (Joined, m, [])"

definition router_stop :: "MarketDataRouter \<Rightarrow> MarketDataRouter" where
  "router_stop m = m\<lparr>mr_stop_requested := True\<rparr>"

section \<open>Schedules\<close>

datatype RouterAction = PublishEvent ExchangeEvent Ticks | StopRouter | RoutingTurn

text \<open>\<open>rn_published\<close>, \<open>rn_queued\<close> and \<open>rn_batches\<close> record the wire events made, the ones the queue took, and the
  batches handed down; no step reads them.\<close>

record RouterRun =
  rn_router :: MarketDataRouter
  rn_thread :: RoutingThread
  rn_published :: "Event list"
  rn_queued :: "Event list"
  rn_batches :: "Event list list"

fun router_act :: "(Sequence \<Rightarrow> u64) \<Rightarrow> RouterAction \<Rightarrow> RouterRun \<Rightarrow> RouterRun option" where
  "router_act clock (PublishEvent event ticks) s = do {
     (queued, m) \<leftarrow> router_publish clock ticks event (rn_router s);
     let es = fst (publish clock event (mr_publisher (rn_router s)));
     Some (s\<lparr>rn_router := m, rn_published := rn_published s @ es, rn_queued := rn_queued s @ (if queued then es else [])\<rparr>)
   }"
| "router_act clock StopRouter s = Some (s\<lparr>rn_router := router_stop (rn_router s)\<rparr>)"
| "router_act clock RoutingTurn s = do {
     (th, m, batches) \<leftarrow> routing_turn (rn_thread s) (rn_router s);
     Some (s\<lparr>rn_router := m, rn_thread := th, rn_batches := rn_batches s @ batches\<rparr>)
   }"

fun router_acts :: "(Sequence \<Rightarrow> u64) \<Rightarrow> RouterAction list \<Rightarrow> RouterRun \<Rightarrow> RouterRun option" where
  "router_acts clock [] s = Some s"
| "router_acts clock (a # as) s = do { s \<leftarrow> router_act clock a s; router_acts clock as s }"

definition start_router :: "u64 \<Rightarrow> nat \<Rightarrow> bool \<Rightarrow> RouterRun option" where
  "start_router queue_capacity max_batch measuring = do {
     m \<leftarrow> new_market_data_router queue_capacity max_batch measuring;
     Some \<lparr>rn_router = m, rn_thread = Filling, rn_published = [], rn_queued = [], rn_batches = []\<rparr>
   }"

fun events_of :: "RouterAction list \<Rightarrow> ExchangeEvent list" where
  "events_of [] = []"
| "events_of (PublishEvent event ticks # as) = event # events_of as"
| "events_of (_ # as) = events_of as"


section \<open>The invariant of a schedule\<close>

definition batch_ok :: "nat \<Rightarrow> Event list \<Rightarrow> bool" where
  "batch_ok limit b \<longleftrightarrow> b \<noteq> [] \<and> length b \<le> limit"

definition counted :: "RouterRun \<Rightarrow> bool" where
  "counted s \<longleftrightarrow>
     (let m = rn_router s in
      word_of_nat (length (rn_published s)) = word_of_nat (length (rn_queued s)) + dq_dropped_count (mr_queue m) \<and>
      mr_routed m = word_of_nat (length (concat (rn_batches s))) \<and> mr_batches m = word_of_nat (length (rn_batches s)))"

definition router_inv :: "RouterRun \<Rightarrow> bool" where
  "router_inv s \<longleftrightarrow>
     (let m = rn_router s in
      queue_ok (dq_queue (mr_queue m)) \<and> 0 < unat (sq_capacity (dq_queue (mr_queue m))) \<and>
      0 < mr_max_batch m \<and> length (mr_batch m) \<le> mr_max_batch m \<and>
      (\<forall>b \<in> set (rn_batches s). batch_ok (mr_max_batch m) b) \<and>
      rn_queued s = concat (rn_batches s) @ mr_batch m @ queue_contents (dq_queue (mr_queue m)) \<and>
      subseq (rn_queued s) (rn_published s) \<and>
      (rn_published s \<noteq> [] \<longrightarrow> rn_queued s \<noteq> [] \<and> hd (rn_queued s) = hd (rn_published s)))"

lemma drop_counter: "dropping_push e d = Some (b, d') \<Longrightarrow> dq_dropped_count d' = dq_dropped_count d + (if b then 0 else 1)"
  by (auto simp: dropping_push_def split: Option.bind_splits if_splits)

lemma pop_counter: "dropping_try_pop d = Some (v, d') \<Longrightarrow> dq_dropped_count d' = dq_dropped_count d"
  by (auto simp: dropping_try_pop_def)

lemma push_outcome:
  assumes "queue_ok (dq_queue d)"
  obtains b d' where "dropping_push e d = Some (b, d')" "queue_ok (dq_queue d')" "sq_capacity (dq_queue d') = sq_capacity (dq_queue d)"
    "queue_contents (dq_queue d') = queue_contents (dq_queue d) @ (if b then [e] else [])"
    "b \<longleftrightarrow> length (queue_contents (dq_queue d)) < unat (sq_capacity (dq_queue d))"
    "dq_dropped_count d' = dq_dropped_count d + (if b then 0 else 1)"
proof (cases "length (queue_contents (dq_queue d)) < unat (sq_capacity (dq_queue d))")
  case True
  then obtain d' where d: "dropping_push e d = Some (True, d')" "queue_ok (dq_queue d')"
    "queue_contents (dq_queue d') = queue_contents (dq_queue d) @ [e]" "unat (sq_capacity (dq_queue d')) = unat (sq_capacity (dq_queue d))"
    using dropping.push_room [OF assms TrueI, of e] by blast
  show ?thesis by (rule that [where b = True and d' = d']) (use d True drop_counter [OF d(1)] in \<open>simp_all add: word_unat_eq_iff\<close>)
next
  case False
  then obtain d' where d: "dropping_push e d = Some (False, d')" "queue_ok (dq_queue d')"
    "queue_contents (dq_queue d') = queue_contents (dq_queue d)" "unat (sq_capacity (dq_queue d')) = unat (sq_capacity (dq_queue d))"
    using dropping.push_full [OF assms, of e] by (metis not_le)
  show ?thesis by (rule that [where b = False and d' = d']) (use d False drop_counter [OF d(1)] in \<open>simp_all add: word_unat_eq_iff\<close>)
qed

lemma pop_outcome:
  assumes "queue_ok (dq_queue d)"
  obtains d' where "dropping_try_pop d = Some (hd_opt (queue_contents (dq_queue d)), d')" "queue_ok (dq_queue d')"
    "sq_capacity (dq_queue d') = sq_capacity (dq_queue d)" "queue_contents (dq_queue d') = tl (queue_contents (dq_queue d))"
    "dq_dropped_count d' = dq_dropped_count d"
proof (cases "queue_contents (dq_queue d)")
  case Nil
  then show ?thesis using dropping.pop_empty [OF assms] assms by (intro that [of d]) (simp_all add: hd_opt_def)
next
  case (Cons x xs)
  then obtain d' where d: "dropping_try_pop d = Some (Some x, d')" "queue_ok (dq_queue d')" "queue_contents (dq_queue d') = xs"
    "unat (sq_capacity (dq_queue d')) = unat (sq_capacity (dq_queue d))"
    using dropping.pop_some [OF assms] by blast
  show ?thesis by (rule that [of d']) (use d Cons pop_counter [OF d(1)] in \<open>simp_all add: hd_opt_def word_unat_eq_iff\<close>)
qed

text \<open>What the measuring variant adds to \<open>publish\<close> is the statistics alone.\<close>

lemma publish_at_most_one: "publish clock e pub = (es, pub') \<Longrightarrow> es = [] \<or> (\<exists>x. es = [x])"
  by (cases e) (auto simp: sent_def)

lemma router_publish_outcome:
  assumes "queue_ok (dq_queue (mr_queue m))" "publish clock event (mr_publisher m) = (es, p)"
  obtains b d' cost where "router_publish clock ticks event m = Some (b, m\<lparr>mr_publisher := p, mr_queue := d', mr_cost := cost\<rparr>)"
    "queue_ok (dq_queue d')" "sq_capacity (dq_queue d') = sq_capacity (dq_queue (mr_queue m))"
    "queue_contents (dq_queue d') = queue_contents (dq_queue (mr_queue m)) @ (if b then es else [])"
    "es \<noteq> [] \<Longrightarrow> b \<longleftrightarrow> length (queue_contents (dq_queue (mr_queue m))) < unat (sq_capacity (dq_queue (mr_queue m)))"
    "dq_dropped_count d' = dq_dropped_count (mr_queue m) + (if b then 0 else word_of_nat (length es))"
proof (cases es)
  case Nil
  define cost where "cost = (if mr_measure_publish_cost m then count_publish ticks 0 (mr_cost m) else mr_cost m)"
  show ?thesis
    by (rule that [where b = False and d' = "mr_queue m" and cost = cost]) (use assms Nil in \<open>simp_all add: router_publish_def cost_def\<close>)
next
  case (Cons e es')
  then have es: "es = [e]" using publish_at_most_one [OF assms(2)] by auto
  obtain b d' where d: "dropping_push e (mr_queue m) = Some (b, d')" "queue_ok (dq_queue d')"
    "sq_capacity (dq_queue d') = sq_capacity (dq_queue (mr_queue m))"
    "queue_contents (dq_queue d') = queue_contents (dq_queue (mr_queue m)) @ (if b then [e] else [])"
    "b \<longleftrightarrow> length (queue_contents (dq_queue (mr_queue m))) < unat (sq_capacity (dq_queue (mr_queue m)))"
    "dq_dropped_count d' = dq_dropped_count (mr_queue m) + (if b then 0 else 1)"
    by (rule push_outcome [OF assms(1), of e]) (rule that)
  define cost where "cost = (if mr_measure_publish_cost m
    then count_publish ticks (tk_push ticks + (if b then tk_notify ticks else 0)) (count_push ticks b (mr_cost m)) else mr_cost m)"
  show ?thesis
  proof (rule that [where b = b and d' = d' and cost = cost])
    show "router_publish clock ticks event m = Some (b, m\<lparr>mr_publisher := p, mr_queue := d', mr_cost := cost\<rparr>)"
      using assms(2) es d(1) by (cases "mr_measure_publish_cost m") (simp_all add: router_publish_def cost_def cong: if_cong)
  qed (use es d in simp_all)
qed

lemma publish_kept:
  assumes inv: "router_inv s" "counted s"
  shows "\<exists>s'. router_act clock (PublishEvent event ticks) s = Some s' \<and> router_inv s' \<and> counted s' \<and>
    rn_published s' = rn_published s @ fst (publish clock event (mr_publisher (rn_router s))) \<and>
    mr_publisher (rn_router s') = snd (publish clock event (mr_publisher (rn_router s))) \<and>
    mr_max_batch (rn_router s') = mr_max_batch (rn_router s)"
proof -
  let ?m = "rn_router s"
  obtain es p where p: "publish clock event (mr_publisher ?m) = (es, p)" by fastforce
  have one: "es = [] \<or> (\<exists>x. es = [x])" by (rule publish_at_most_one [OF p])
  have q: "queue_ok (dq_queue (mr_queue ?m))" using inv(1) by (simp add: router_inv_def Let_def)
  obtain b d' cost where d: "router_publish clock ticks event ?m = Some (b, ?m\<lparr>mr_publisher := p, mr_queue := d', mr_cost := cost\<rparr>)"
    "queue_ok (dq_queue d')" "sq_capacity (dq_queue d') = sq_capacity (dq_queue (mr_queue ?m))"
    "queue_contents (dq_queue d') = queue_contents (dq_queue (mr_queue ?m)) @ (if b then es else [])"
    "es \<noteq> [] \<Longrightarrow> b \<longleftrightarrow> length (queue_contents (dq_queue (mr_queue ?m))) < unat (sq_capacity (dq_queue (mr_queue ?m)))"
    "dq_dropped_count d' = dq_dropped_count (mr_queue ?m) + (if b then 0 else word_of_nat (length es))"
    by (rule router_publish_outcome [OF q p]) (rule that)
  let ?s = "s\<lparr>rn_router := ?m\<lparr>mr_publisher := p, mr_queue := d', mr_cost := cost\<rparr>, rn_published := rn_published s @ es,
    rn_queued := rn_queued s @ (if b then es else [])\<rparr>"
  have run: "router_act clock (PublishEvent event ticks) s = Some ?s" using d(1) p by simp
  have sub: "subseq (rn_queued s @ (if b then es else [])) (rn_published s @ es)"
    using inv(1) by (intro list_emb_append_mono) (auto simp: router_inv_def Let_def)
  have first: "rn_queued s @ (if b then es else []) \<noteq> [] \<and> hd (rn_queued s @ (if b then es else [])) = hd (rn_published s @ es)"
    if "rn_published s @ es \<noteq> []"
  proof (cases "rn_published s = []")
    case True
    have "subseq (rn_queued s) (rn_published s)" using inv(1) unfolding router_inv_def Let_def by blast
    then have e: "rn_queued s = []" "es \<noteq> []" using True that by simp_all
    then have "queue_contents (dq_queue (mr_queue ?m)) = []" using inv(1) by (auto simp: router_inv_def Let_def)
    then have b using d(5) [OF e(2)] inv(1) by (simp add: router_inv_def Let_def)
    then show ?thesis using True e by simp
  next
    case False
    have "rn_published s \<noteq> [] \<longrightarrow> rn_queued s \<noteq> [] \<and> hd (rn_queued s) = hd (rn_published s)"
      using inv(1) unfolding router_inv_def Let_def by blast
    then show ?thesis using False by simp
  qed
  have "router_inv ?s" using inv(1) d sub first by (auto simp: router_inv_def Let_def)
  moreover have "counted ?s" using inv(2) d(6) one by (cases b) (auto simp: counted_def Let_def algebra_simps)
  ultimately show ?thesis using run p by (intro exI [of _ ?s]) simp
qed

lemma handed_down:
  assumes inv: "router_inv s" "counted s" and b: "mr_batch (rn_router s) \<noteq> []"
  shows "router_inv (s\<lparr>rn_router := hand_down (rn_router s), rn_thread := th, rn_batches := rn_batches s @ [mr_batch (rn_router s)]\<rparr>)"
    "counted (s\<lparr>rn_router := hand_down (rn_router s), rn_thread := th, rn_batches := rn_batches s @ [mr_batch (rn_router s)]\<rparr>)"
  using assms by (auto simp: router_inv_def counted_def hand_down_def batch_ok_def Let_def)

lemma turn_kept:
  assumes inv: "router_inv s" "counted s"
  shows "\<exists>s'. router_act clock RoutingTurn s = Some s' \<and> router_inv s' \<and> counted s' \<and> rn_published s' = rn_published s \<and>
    mr_publisher (rn_router s') = mr_publisher (rn_router s) \<and> mr_max_batch (rn_router s') = mr_max_batch (rn_router s)"
proof (cases "rn_thread s")
  case Filling
  let ?m = "rn_router s"
  have q: "queue_ok (dq_queue (mr_queue ?m))" using inv(1) by (simp add: router_inv_def Let_def)
  obtain d' where d: "dropping_try_pop (mr_queue ?m) = Some (hd_opt (queue_contents (dq_queue (mr_queue ?m))), d')"
    "queue_ok (dq_queue d')" "sq_capacity (dq_queue d') = sq_capacity (dq_queue (mr_queue ?m))"
    "queue_contents (dq_queue d') = tl (queue_contents (dq_queue (mr_queue ?m)))" "dq_dropped_count d' = dq_dropped_count (mr_queue ?m)"
    by (rule pop_outcome [OF q]) (rule that)
  show ?thesis
  proof (cases "length (mr_batch ?m) < mr_max_batch ?m")
    case True
    show ?thesis
    proof (cases "queue_contents (dq_queue (mr_queue ?m))")
      case Nil
      let ?s = "s\<lparr>rn_router := ?m\<lparr>mr_queue := d'\<rparr>\<rparr>"
      have i: "router_inv ?s" "counted ?s" using inv d Nil by (auto simp: router_inv_def counted_def Let_def)
      then show ?thesis
        using d(1) Nil True Filling handed_down [OF i] by (cases "mr_batch ?m = []") (auto simp: router_inv_def counted_def hand_down_def Let_def)
    next
      case (Cons e es)
      then show ?thesis using inv d True Filling by (auto simp: router_inv_def counted_def Let_def)
    qed
  next
    case False
    have b: "mr_batch ?m \<noteq> []" using inv(1) False by (auto simp: router_inv_def Let_def)
    show ?thesis using handed_down [OF inv b, of Filling] False Filling by (simp add: hand_down_def)
  qed
qed (use inv in \<open>auto simp: router_inv_def counted_def Let_def\<close>)

lemma router_act_kept:
  assumes inv: "router_inv s" "counted s"
  shows "\<exists>s'. router_act clock a s = Some s' \<and> router_inv s' \<and> counted s' \<and>
    rn_published s' = rn_published s @ fst (publish_all clock (events_of [a]) (mr_publisher (rn_router s))) \<and>
    mr_publisher (rn_router s') = snd (publish_all clock (events_of [a]) (mr_publisher (rn_router s))) \<and>
    mr_max_batch (rn_router s') = mr_max_batch (rn_router s)"
proof (cases a)
  case (PublishEvent event ticks)
  then show ?thesis using publish_kept [OF inv, of clock event ticks] by (simp add: split_beta del: router_act.simps)
next
  case StopRouter
  have "router_inv (s\<lparr>rn_router := router_stop (rn_router s)\<rparr>) = router_inv s" "counted (s\<lparr>rn_router := router_stop (rn_router s)\<rparr>) = counted s"
    by (simp_all add: router_inv_def counted_def router_stop_def Let_def)
  then show ?thesis using inv StopRouter by (simp add: router_stop_def)
next
  case RoutingTurn
  then show ?thesis using turn_kept [OF inv, of clock] by (simp del: router_act.simps)
qed

lemma events_of_Cons: "events_of (a # as) = events_of [a] @ events_of as"
  by (cases a) simp_all

lemma router_acts_kept:
  assumes "router_inv s" "counted s"
  shows "\<exists>s'. router_acts clock as s = Some s' \<and> router_inv s' \<and> counted s' \<and>
    rn_published s' = rn_published s @ fst (publish_all clock (events_of as) (mr_publisher (rn_router s))) \<and>
    mr_max_batch (rn_router s') = mr_max_batch (rn_router s)"
  using assms
proof (induction as arbitrary: s)
  case (Cons a as)
  obtain s1 where s1: "router_act clock a s = Some s1" "router_inv s1" "counted s1"
    "rn_published s1 = rn_published s @ fst (publish_all clock (events_of [a]) (mr_publisher (rn_router s)))"
    "mr_publisher (rn_router s1) = snd (publish_all clock (events_of [a]) (mr_publisher (rn_router s)))"
    "mr_max_batch (rn_router s1) = mr_max_batch (rn_router s)"
    using router_act_kept [OF Cons.prems, of clock a] by blast
  show ?case
    using Cons.IH [OF s1(2,3)] s1
    unfolding events_of_Cons [of a as] publish_all_append by (auto simp: split_beta Let_def simp del: router_act.simps)
qed simp

lemma router_started:
  assumes "unat queue_capacity \<le> 2 ^ 63"
  obtains s where "start_router queue_capacity max_batch measuring = Some s" "router_inv s" "counted s" "rn_published s = []"
    "mr_publisher (rn_router s) = new_market_data_publisher" "mr_max_batch (rn_router s) = (if max_batch = 0 then 1 else max_batch)"
proof -
  obtain d :: "Event DroppingQueue" where d: "new_dropping_queue queue_capacity = Some d" "queue_ok (dq_queue d)"
    "queue_contents (dq_queue d) = []" "dq_dropped_count d = 0"
    by (rule new_dropping_queue [OF assms]) (rule that)
  have "0 < unat (sq_capacity (dq_queue d))"
    using d(2) by (auto simp: queue_ok_def ring_def unat_pow)
  then show thesis
    using that [where s = "\<lparr>rn_router = \<lparr>mr_publisher = new_market_data_publisher, mr_queue = d, mr_max_batch = (if max_batch = 0 then 1 else max_batch),
           mr_measure_publish_cost = measuring, mr_stop_requested = False, mr_routed = 0, mr_cv_waits = 0, mr_batches = 0,
           mr_max_batch_observed = 0, mr_batch = [], mr_cost = new_cost_stats\<rparr>, rn_thread = Filling, rn_published = [], rn_queued = [], rn_batches = []\<rparr>"] d
    by (simp add: start_router_def new_market_data_router_def router_inv_def counted_def)
qed

section \<open>Gaps\<close>

text \<open>A sequence number is spent on every wire event, so what the queue refused is missing in the numbers.\<close>

fun gaps :: "Sequence \<Rightarrow> Event list \<Rightarrow> nat" where
  \<comment> \<open>how often the numbers jump, when \<open>n\<close> comes first\<close>
  "gaps n [] = 0"
| "gaps n (e # es) = (if sequence_of_event e = n then 0 else 1) + gaps (sequence_of_event e + 1) es"

fun ascending :: "Sequence \<Rightarrow> Event list \<Rightarrow> bool" where
  "ascending n [] \<longleftrightarrow> True"
| "ascending n (e # es) \<longleftrightarrow> n \<le> sequence_of_event e \<and> sequence_of_event e < sequence_of_event e + 1 \<and> ascending (sequence_of_event e + 1) es"

lemma gaps_length: "gaps n es \<le> length es"
  by (induction es arbitrary: n) (simp_all add: le_SucI)

lemma no_gaps: "gaps n es = 0 \<longleftrightarrow> in_sequence n (map sequence_of_event es)"
  by (induction es arbitrary: n) auto

lemma ascending_from: "m \<le> n \<Longrightarrow> ascending n es \<Longrightarrow> ascending m es"
  by (cases es) (auto intro: order_trans)

lemma ascending_all: "ascending n es \<Longrightarrow> e \<in> set es \<Longrightarrow> n \<le> sequence_of_event e"
proof (induction es arbitrary: n)
  case (Cons a es)
  show ?case
  proof (cases "e = a")
    case False
    then have "sequence_of_event a + 1 \<le> sequence_of_event e" using Cons by simp
    then show ?thesis using Cons.prems(1) by (simp add: word_le_nat_alt word_less_nat_alt)
  qed (use Cons.prems in simp)
qed simp

lemma in_sequence_ascending:
  "in_sequence n (map sequence_of_event es) \<Longrightarrow> unat n + length es < 2 ^ 64 \<Longrightarrow> ascending n es"
proof (induction es arbitrary: n)
  case (Cons e es)
  have "unat (n + 1) = unat n + 1" by (rule unat_Suc_64) (use Cons.prems(2) in simp)
  then show ?case using Cons by (simp add: word_less_nat_alt)
qed simp

lemma subseq_ascending: "subseq ds es \<Longrightarrow> ascending n es \<Longrightarrow> ascending n ds"
proof (induction ds es arbitrary: n rule: list_emb.induct)
  case (list_emb_Cons xs ys y)
  show ?case by (rule list_emb_Cons.IH) (use list_emb_Cons.prems ascending_from less_imp_le order_trans in \<open>metis ascending.simps(2)\<close>)
qed auto

lemma gapless_prefix:
  assumes "subseq ds es" "in_sequence n (map sequence_of_event es)" "ascending n es" "gaps n ds = 0"
  shows "prefix ds es"
  using assms
proof (induction ds es arbitrary: n rule: list_emb.induct)
  case (list_emb_Cons xs ys y)
  show ?case
  proof (cases xs)
    case (Cons x zs)
    have "x \<in> set ys" by (rule list_emb_set [OF list_emb_Cons.hyps(1), of x]) (use Cons in auto)
    then have "n + 1 \<le> sequence_of_event x" using list_emb_Cons.prems(1,2) ascending_all by fastforce
    moreover have "sequence_of_event x = n" using list_emb_Cons.prems(3) Cons by (simp split: if_splits)
    ultimately show ?thesis using list_emb_Cons.prems(1,2) by (auto simp: not_less dest: leD)
  qed simp
qed (auto split: if_splits)

lemma prefix_gapless: "prefix ds es \<Longrightarrow> in_sequence n (map sequence_of_event es) \<Longrightarrow> gaps n ds = 0"
proof (induction ds arbitrary: es n)
  case (Cons d ds)
  then show ?case by (cases es) auto
qed simp

lemma gaps_of_drops:
  assumes "subseq ds es" "in_sequence n (map sequence_of_event es)" "unat n + length es < 2 ^ 64"
  shows "gaps n ds = 0 \<longleftrightarrow> prefix ds es" "ascending n ds"
  using gapless_prefix [OF assms(1,2) in_sequence_ascending [OF assms(2,3)]] prefix_gapless assms(2)
    subseq_ascending [OF assms(1) in_sequence_ascending [OF assms(2,3)]] by blast+

lemma published_length: "length (fst (publish_all clock es pub)) \<le> length es"
proof (induction es arbitrary: pub)
  case (Cons e es)
  obtain m pub1 where m: "publish clock e pub = (m, pub1)" by (cases "publish clock e pub")
  then have "length m \<le> 1" using publish_at_most_one [OF m] by auto
  then show ?case using Cons [of pub1] m by (auto simp: split_beta)
qed simp

section \<open>Properties\<close>

text \<open>
  C17. The routing thread passes on what the queue took: whatever the schedule of the two threads, the batches handed
  down, the batch being filled and the queue together hold every queued event once, in the order published; a batch
  is never empty nor longer than \<open>max_batch\<close>; the first event always gets through, and the counters tell how
  many events were dropped, handed down, and in how many batches.
\<close>

theorem router_passes_on_what_it_queued:
  assumes "unat queue_capacity \<le> 2 ^ 63"
  shows "\<exists>s0 s. start_router queue_capacity max_batch measuring = Some s0 \<and> router_acts clock as s0 = Some s \<and>
    rn_queued s = concat (rn_batches s) @ mr_batch (rn_router s) @ queue_contents (dq_queue (mr_queue (rn_router s))) \<and>
    rn_published s = fst (publish_all clock (events_of as) new_market_data_publisher) \<and>
    subseq (rn_queued s) (rn_published s) \<and>
    (rn_published s = [] \<or> rn_queued s \<noteq> [] \<and> hd (rn_queued s) = hd (rn_published s)) \<and>
    list_all (batch_ok (if max_batch = 0 then 1 else max_batch)) (rn_batches s) \<and>
    word_of_nat (length (rn_published s)) = word_of_nat (length (rn_queued s)) + dq_dropped_count (mr_queue (rn_router s)) \<and>
    mr_routed (rn_router s) = word_of_nat (length (concat (rn_batches s))) \<and>
    mr_batches (rn_router s) = word_of_nat (length (rn_batches s))"
proof -
  obtain s0 where s0: "start_router queue_capacity max_batch measuring = Some s0" "router_inv s0" "counted s0" "rn_published s0 = []"
    "mr_publisher (rn_router s0) = new_market_data_publisher" "mr_max_batch (rn_router s0) = (if max_batch = 0 then 1 else max_batch)"
    by (rule router_started [OF assms]) (rule that)
  obtain s where s: "router_acts clock as s0 = Some s" "router_inv s" "counted s"
    "rn_published s = fst (publish_all clock (events_of as) new_market_data_publisher)"
    "mr_max_batch (rn_router s) = mr_max_batch (rn_router s0)"
    using router_acts_kept [OF s0(2,3), of clock as] s0(4,5) by auto
  have "list_all (batch_ok (if max_batch = 0 then 1 else max_batch)) (rn_batches s)"
    using s(2,5) s0(6) by (simp add: router_inv_def Let_def list_all_iff)
  moreover have "rn_queued s = concat (rn_batches s) @ mr_batch (rn_router s) @ queue_contents (dq_queue (mr_queue (rn_router s)))"
    "subseq (rn_queued s) (rn_published s)" "rn_published s = [] \<or> rn_queued s \<noteq> [] \<and> hd (rn_queued s) = hd (rn_published s)"
    using s(2) unfolding router_inv_def Let_def by blast+
  ultimately show ?thesis using s0(1) s(1,3,4) unfolding counted_def Let_def by blast
qed

text \<open>A book event for the samples: order 1, sell 5 at 100 of instrument 7.\<close>

definition sample_added :: ExchangeEvent where
  "sample_added = EvAdded \<lparr>ba_event_sequence = 1, ba_instrument_id = 7, ba_exchange_order_id = 1, ba_side = Sell, ba_price = 100,
     ba_quantity = 5\<rparr>"

definition sample_ticks :: Ticks where
  "sample_ticks = \<lparr>tk_control = 1, tk_push = 5, tk_notify = 2, tk_publish = 12\<rparr>"

theorem router_passes_on_what_it_queued_witness:
  "\<exists>s0 s. start_router 1 29 True = Some s0 \<and>
    router_acts (\<lambda>n. n) [PublishEvent sample_added sample_ticks, RoutingTurn, PublishEvent sample_added sample_ticks,
      PublishEvent sample_added sample_ticks, RoutingTurn] s0 = Some s \<and>
    subseq (rn_queued s) (rn_published s) \<and> rn_published s \<noteq> [] \<and> rn_queued s \<noteq> []"
  using router_passes_on_what_it_queued [of 1 29 True "\<lambda>n. n" "[PublishEvent sample_added sample_ticks, RoutingTurn,
      PublishEvent sample_added sample_ticks, PublishEvent sample_added sample_ticks, RoutingTurn]"]
  by (fastforce simp: sample_added_def publisher_defs Let_def new_market_data_publisher_def simp del: router_acts.simps)

text \<open>
  The stop flag is read after the queue was found empty, so \<open>observed empty after stop\<close> does not hold: an event
  published in between stays in the queue when the thread is joined, although it came before \<open>stop\<close>.
\<close>

lemma new_queue_one: "new_dropping_queue 1 = Some \<lparr>dq_queue = \<lparr>sq_capacity = 1, sq_mask = 0, sq_storage = [None],
    sq_high_water_mark = 0, sq_head = 0, sq_tail = 0\<rparr>, dq_dropped_count = 0\<rparr>"
proof -
  have "next_power_of_two 1 = Some 1" unfolding next_power_of_two_def by (subst round_up.simps) simp
  then show ?thesis by (simp add: new_dropping_queue_def new_spsc_queue_def)
qed

lemma joined_router_leaves_an_event:
  "\<exists>s0 s e. start_router 1 29 False = Some s0 \<and>
    router_acts (\<lambda>n. n) [RoutingTurn, PublishEvent sample_added sample_ticks, StopRouter, RoutingTurn] s0 = Some s \<and>
    rn_thread s = Joined \<and> rn_batches s = [] \<and> rn_queued s = [e] \<and> dq_dropped_count (mr_queue (rn_router s)) = 0"
  by (simp add: start_router_def new_market_data_router_def new_queue_one sample_added_def publisher_defs Let_def
      new_market_data_publisher_def router_publish_def dropping_push_def dropping_try_pop_def try_push_def try_pop_def construct_at_def
      slot_index_def raise_high_water_mark_def router_stop_def)

end
