(* ===== verification/FeedSubscriber.thy ===== *)
theory FeedSubscriber
  imports MarketDataRouter "HOL-Library.Signed_Division"
begin

text \<open>
  The trader's end of the live feed: \<open>FeedSubscriber\<close> (\<open>src/src/trader/market_data/feed_subscriber.cpp\<close>), which
  takes datagrams through \<open>unpack_frames\<close> and \<open>apply_frame_result\<close>, and \<open>StrategyRuntime\<close>
  (\<open>src/src/trader/strategies/strategy_runtime.cpp\<close>), which tells the subscribed strategies. A strategy's callback is
  a function on the state \<open>'w\<close> of everything it may touch. The socket is the list of the batches it yields.
\<close>

section \<open>Strategy runtime\<close>

type_synonym 'w BookUpdateSink = "InstrumentId \<Rightarrow> OrderBook \<Rightarrow> 'w \<Rightarrow> 'w"

text \<open>An \<open>unordered_multimap\<close>: the sinks of an instrument, in the order in which \<open>equal_range\<close> walks them.\<close>

record 'w StrategyRuntime =
  sr_sinks :: "InstrumentId \<Rightarrow> 'w BookUpdateSink list"

definition new_strategy_runtime :: "'w StrategyRuntime" where
  "new_strategy_runtime = \<lparr>sr_sinks = (\<lambda>_. [])\<rparr>"

definition subscribe :: "nat \<Rightarrow> InstrumentId \<Rightarrow> 'w BookUpdateSink \<Rightarrow> 'w StrategyRuntime \<Rightarrow> 'w StrategyRuntime" where
  \<comment> \<open>\<open>place\<close> is where \<open>emplace\<close> puts the sink among those of the instrument\<close>
  "subscribe place instrument_id sink rt =
     (let sinks = sr_sinks rt instrument_id
      in rt\<lparr>sr_sinks := (sr_sinks rt)(instrument_id := take place sinks @ [sink] @ drop place sinks)\<rparr>)"

fun instrument_id_of :: "Event \<Rightarrow> InstrumentId" where
  "instrument_id_of (AddOrderE m) = ao_instrument_id m"
| "instrument_id_of (CancelOrderE m) = xo_instrument_id m"
| "instrument_id_of (ModifyOrderE m) = mo_instrument_id m"
| "instrument_id_of (TradeE m) = td_instrument_id m"
| "instrument_id_of (ClearBookE m) = cb_instrument_id m"

definition on_event :: "'w StrategyRuntime \<Rightarrow> Event \<Rightarrow> BookManager \<times> 'w \<Rightarrow> BookManager \<times> 'w" where
  "on_event rt event st =
     (let (books, w) = st;
          instrument_id = instrument_id_of event;
          order_book = book_at instrument_id books;
          books = set_book_at instrument_id order_book books
      in (books, fold (\<lambda>sink. sink instrument_id order_book) (sr_sinks rt instrument_id) w))"

section \<open>State\<close>

definition live_replay_options :: "string option \<Rightarrow> ReplayOptions" where
  \<comment> \<open>the default of \<open>FeedSubscriberOptions\<close>, with a recovery path or none\<close>
  "live_replay_options path =
     \<lparr>ro_stop_on_sequence_error = False, ro_stop_on_decode_error = False, ro_recovery_snapshot_path = path\<rparr>"

record FeedSubscriber =
  fs_replay_options :: ReplayOptions
  fs_validator :: SequenceValidator
  fs_outcome :: ReplayOutcome
  fs_packets_received :: u64
  fs_packet_errors :: u64

definition new_feed_subscriber :: "ReplayOptions \<Rightarrow> FeedSubscriber" where
  "new_feed_subscriber options =
     \<lparr>fs_replay_options = options, fs_validator = None, fs_outcome = new_replay_result, fs_packets_received = 0, fs_packet_errors = 0\<rparr>"

section \<open>Receiving\<close>


definition receive_frame ::
  "(string \<Rightarrow> byte list option) \<Rightarrow> 'w StrategyRuntime \<Rightarrow> DecodeError + Event \<Rightarrow> FeedSubscriber \<times> 'w \<Rightarrow> (FeedSubscriber \<times> 'w) option" where
  "receive_frame files rt frame st =
     (let (fs, w) = st in do {
        (stop, validator, outcome) \<leftarrow> apply_frame_result files (fs_replay_options fs) frame (fs_validator fs, fs_outcome fs);
        case frame of
          Inl _ \<Rightarrow> Some (fs\<lparr>fs_validator := validator, fs_outcome := outcome\<rparr>, w)
        | Inr event \<Rightarrow>
            let (books, w) = on_event rt event (rr_books outcome, w)
            in Some (fs\<lparr>fs_validator := validator, fs_outcome := outcome\<lparr>rr_books := books\<rparr>\<rparr>, w)
      })"

fun receive_frames ::
  "(string \<Rightarrow> byte list option) \<Rightarrow> 'w StrategyRuntime \<Rightarrow> (DecodeError + Event) list \<Rightarrow> FeedSubscriber \<times> 'w \<Rightarrow> (FeedSubscriber \<times> 'w) option" where
  "receive_frames files rt [] st = Some st"
| "receive_frames files rt (frame # frames) st = do { st \<leftarrow> receive_frame files rt frame st; receive_frames files rt frames st }"

definition receive_datagram ::
  "(string \<Rightarrow> byte list option) \<Rightarrow> 'w StrategyRuntime \<Rightarrow> byte list \<Rightarrow> FeedSubscriber \<times> 'w \<Rightarrow> (FeedSubscriber \<times> 'w) option" where
  "receive_datagram files rt datagram st =
     (let (fs, w) = st in
      case unpack_frames datagram of
        Inl _ \<Rightarrow> Some (fs\<lparr>fs_packet_errors := fs_packet_errors fs + 1\<rparr>, w)
      | Inr packet \<Rightarrow> receive_frames files rt (up_frames packet) (fs, w))"

fun receive_datagrams ::
  "(string \<Rightarrow> byte list option) \<Rightarrow> 'w StrategyRuntime \<Rightarrow> byte list list \<Rightarrow> FeedSubscriber \<times> 'w \<Rightarrow> (FeedSubscriber \<times> 'w) option" where
  "receive_datagrams files rt [] st = Some st"
| "receive_datagrams files rt (d # ds) st = do { st \<leftarrow> receive_datagram files rt d st; receive_datagrams files rt ds st }"

fun receive_loop ::
  "(string \<Rightarrow> byte list option) \<Rightarrow> 'w StrategyRuntime \<Rightarrow> byte list list list \<Rightarrow> FeedSubscriber \<times> 'w \<Rightarrow> (FeedSubscriber \<times> 'w) option" where
  \<comment> \<open>one batch per round; the loop ends where stop was requested\<close>
  "receive_loop files rt [] st = Some st"
| "receive_loop files rt (batch # batches) st =
     (if batch = [] then receive_loop files rt batches st
      else
        let (fs, w) = st
        in do {
             st \<leftarrow> receive_datagrams files rt batch
               (fs\<lparr>fs_packets_received := fs_packets_received fs + word_of_nat (length batch)\<rparr>, w);
             receive_loop files rt batches st
           })"

section \<open>Market snapshot\<close>

record MarketSnapshot =
  ms_best_bid :: "PriceLevelView option"
  ms_best_ask :: "PriceLevelView option"
  ms_trade_count :: u64
  ms_traded_quantity :: Quantity
  ms_last_trade_price :: Price

definition mark_price :: "MarketSnapshot \<Rightarrow> Price option" where
  \<comment> \<open>the sum wraps where the code's signed addition overflows\<close>
  "mark_price snap =
     (case (ms_best_bid snap, ms_best_ask snap) of
        (Some bid, Some ask) \<Rightarrow> Some (word_of_int (sint (pv_price bid + pv_price ask) sdiv 2))
      | _ \<Rightarrow> if 0 < ms_trade_count snap then Some (ms_last_trade_price snap) else None)"

definition market_snapshot :: "InstrumentId \<Rightarrow> FeedSubscriber \<Rightarrow> MarketSnapshot" where
  \<comment> \<open>\<open>FeedSubscriber::snapshot\<close>\<close>
  "market_snapshot instrument_id fs =
     (let books = rr_books (fs_outcome fs);
          snap = \<lparr>ms_best_bid = None, ms_best_ask = None, ms_trade_count = 0, ms_traded_quantity = 0, ms_last_trade_price = 0\<rparr>;
          snap = (case find_book instrument_id books of
                    Some book \<Rightarrow> snap\<lparr>ms_best_bid := best_bid book, ms_best_ask := best_ask book\<rparr>
                  | None \<Rightarrow> snap)
      in case trade_stats instrument_id books of
           Some trades \<Rightarrow>
             snap\<lparr>ms_trade_count := is_trade_count trades, ms_traded_quantity := is_traded_quantity trades,
               ms_last_trade_price := is_last_trade_price trades\<rparr>
         | None \<Rightarrow> snap)"

section \<open>Sound books\<close>

lemma add_order_sound:
  assumes "sound m" "add_order oid price qty sd (book_at iid m) = (err, b)"
  shows "sound (set_book_at iid b m)"
proof -
  let ?m = "\<lparr>ao_sequence_number = 0, ao_timestamp_ns = 0, ao_order_id = oid, ao_instrument_id = iid, ao_price = price,
    ao_quantity = qty, ao_side = sd\<rparr>"
  show ?thesis
    using apply_event_sound [OF assms(1), of "AddOrderE ?m" new_replay_stats] assms(2) by (auto simp: on_book_def)
qed

lemma read_entries_sound: "sound m \<Longrightarrow> read_entries n rest m = Some m' \<Longrightarrow> sound m'"
proof (induction n arbitrary: rest m)
  case (Suc n)
  then show ?case
    by (auto simp: Let_def split: if_splits sum.splits Event.splits prod.splits option.splits intro: add_order_sound Suc.IH)
qed simp

lemma read_snapshot_sound: "read_snapshot file = Some loaded \<Longrightarrow> sound (sl_books loaded)"
  by (auto simp: read_snapshot_def Let_def split: option.splits if_splits prod.splits intro: read_entries_sound [OF new_sound])

lemma apply_now_sound:
  assumes "sound (rr_books oc)"
  shows "\<exists>oc'. apply_now e (v, oc) = Some (False, v, oc') \<and> sound (rr_books oc')"
proof -
  let ?st = "(rr_stats oc)\<lparr>rp_messages_processed := rp_messages_processed (rr_stats oc) + 1\<rparr>"
  obtain m' st' where "apply_event e (rr_books oc) ?st = Some (m', st')" "sound m'"
    using apply_event_sound [OF assms, of e ?st] by blast
  then show ?thesis by (simp add: apply_now_def)
qed

lemma apply_frame_sound:
  assumes "sound (rr_books oc)"
  shows "\<exists>stop v' oc'. apply_frame_result files options frame (v, oc) = Some (stop, v', oc') \<and> sound (rr_books oc')"
proof (cases frame)
  case (Inl e)
  then show ?thesis using assms by (cases "ro_stop_on_decode_error options") (auto simp: apply_frame_result_def stop_early_def Let_def)
next
  case (Inr e)
  let ?oc = "oc\<lparr>rr_stats := (rr_stats oc)\<lparr>rp_sequence_failures := rp_sequence_failures (rr_stats oc) + 1\<rparr>\<rparr>"
  obtain c v1 where c: "check (sequence_of_event e) v = (c, v1)" by fastforce
  define fine where "fine r \<longleftrightarrow> (\<exists>stop v' oc'. r = Some (stop, v', oc') \<and> sound (rr_books oc'))" for r :: "(bool \<times> ReplayState) option"
  have now: "fine (apply_now e (w, ob))" if "sound (rr_books ob)" for w ob
    unfolding fine_def using apply_now_sound [OF that, of e w] by blast
  have stopped: "fine (stop_early r (v1, ?oc))" for r
    using assms by (auto simp: fine_def stop_early_def)
  have "fine (apply_frame_result files options (Inr e) (v, oc))"
    using now [OF assms] now [of ?oc] stopped assms
    by (auto simp: apply_frame_result_def c Let_def split: SequenceOutcome.splits option.splits intro!: now dest: read_snapshot_sound)
  then show ?thesis by (simp add: Inr fine_def)
qed

lemma told_books: "sound m \<Longrightarrow> sound (set_book_at iid (book_at iid m) m)" "depths (set_book_at iid (book_at iid m) m) = depths m"
proof -
  show d: "depths (set_book_at iid (book_at iid m) m) = depths m" by (simp add: depths_set depths_def fun_eq_iff)
  show "sound (set_book_at iid (book_at iid m) m)" if "sound m"
    using that set_book_ok book_at_ok unfolding sound_def d by blast
qed

definition unreadable :: "byte list \<Rightarrow> bool" where
  "unreadable d \<longleftrightarrow> (case unpack_frames d of Inl _ \<Rightarrow> True | Inr _ \<Rightarrow> False)"

text \<open>What a strategy may rely on: it is called with sound books only, so whatever its callbacks keep on those, holds.\<close>

locale book_listener =
  fixes rt :: "'w StrategyRuntime" and P :: "'w \<Rightarrow> bool"
  assumes keeps: "sink \<in> set (sr_sinks rt iid) \<Longrightarrow> book_ok b \<Longrightarrow> P w \<Longrightarrow> P (sink iid b w)"
begin

lemma told: "book_ok b \<Longrightarrow> P w \<Longrightarrow> set sinks \<subseteq> set (sr_sinks rt iid) \<Longrightarrow> P (fold (\<lambda>sink. sink iid b) sinks w)"
  by (induction sinks arbitrary: w) (auto intro: keeps)

lemma frame_kept:
  assumes "sound (rr_books (fs_outcome fs))" "P w"
  shows "\<exists>fs' w'. receive_frame files rt frame (fs, w) = Some (fs', w') \<and> sound (rr_books (fs_outcome fs')) \<and> P w' \<and>
    fs_packets_received fs' = fs_packets_received fs \<and> fs_packet_errors fs' = fs_packet_errors fs"
proof -
  obtain stop v oc where a: "apply_frame_result files (fs_replay_options fs) frame (fs_validator fs, fs_outcome fs) = Some (stop, v, oc)"
    "sound (rr_books oc)"
    using apply_frame_sound [OF assms(1)] by blast
  have "book_ok (book_at iid (rr_books oc))" for iid using a(2) book_at_ok by (auto simp: sound_def)
  note t = told [OF this assms(2) order_refl]
  show ?thesis
    using a t told_books(1) [OF a(2)] assms(2) by (cases frame) (auto simp: receive_frame_def on_event_def Let_def)
qed

lemma frames_kept:
  assumes "sound (rr_books (fs_outcome fs))" "P w"
  shows "\<exists>fs' w'. receive_frames files rt frames (fs, w) = Some (fs', w') \<and> sound (rr_books (fs_outcome fs')) \<and> P w' \<and>
    fs_packets_received fs' = fs_packets_received fs \<and> fs_packet_errors fs' = fs_packet_errors fs"
  using assms
proof (induction frames arbitrary: fs w)
  case (Cons f frames)
  obtain fs1 w1 where s: "receive_frame files rt f (fs, w) = Some (fs1, w1)" "sound (rr_books (fs_outcome fs1))" "P w1"
    "fs_packets_received fs1 = fs_packets_received fs" "fs_packet_errors fs1 = fs_packet_errors fs"
    using frame_kept [OF Cons.prems] by blast
  then show ?case using Cons.IH [OF s(2,3)] by simp
qed simp

lemma datagrams_kept:
  assumes "sound (rr_books (fs_outcome fs))" "P w"
  shows "\<exists>fs' w'. receive_datagrams files rt ds (fs, w) = Some (fs', w') \<and> sound (rr_books (fs_outcome fs')) \<and> P w' \<and>
    fs_packets_received fs' = fs_packets_received fs \<and>
    fs_packet_errors fs' = fs_packet_errors fs + word_of_nat (length (filter unreadable ds))"
  using assms
proof (induction ds arbitrary: fs w)
  case (Cons d ds)
  have "\<exists>fs1 w1. receive_datagram files rt d (fs, w) = Some (fs1, w1) \<and> sound (rr_books (fs_outcome fs1)) \<and> P w1 \<and>
    fs_packets_received fs1 = fs_packets_received fs \<and> fs_packet_errors fs1 = fs_packet_errors fs + (if unreadable d then 1 else 0)"
    using frames_kept [OF Cons.prems] Cons.prems by (auto simp: receive_datagram_def unreadable_def split: sum.split)
  then obtain fs1 w1 where s: "receive_datagram files rt d (fs, w) = Some (fs1, w1)" "sound (rr_books (fs_outcome fs1))" "P w1"
    "fs_packets_received fs1 = fs_packets_received fs" "fs_packet_errors fs1 = fs_packet_errors fs + (if unreadable d then 1 else 0)"
    by blast
  then show ?case using Cons.IH [OF s(2,3)] by (auto simp: algebra_simps)
qed simp

lemma loop_kept:
  assumes "sound (rr_books (fs_outcome fs))" "P w"
  shows "\<exists>fs' w'. receive_loop files rt batches (fs, w) = Some (fs', w') \<and> sound (rr_books (fs_outcome fs')) \<and> P w' \<and>
    fs_packets_received fs' = fs_packets_received fs + word_of_nat (length (concat batches)) \<and>
    fs_packet_errors fs' = fs_packet_errors fs + word_of_nat (length (filter unreadable (concat batches)))"
  using assms
proof (induction batches arbitrary: fs w)
  case (Cons b bs)
  let ?fs = "fs\<lparr>fs_packets_received := fs_packets_received fs + word_of_nat (length b)\<rparr>"
  obtain fs1 w1 where s: "receive_datagrams files rt b (?fs, w) = Some (fs1, w1)" "sound (rr_books (fs_outcome fs1))" "P w1"
    "fs_packets_received fs1 = fs_packets_received ?fs"
    "fs_packet_errors fs1 = fs_packet_errors fs + word_of_nat (length (filter unreadable b))"
    using datagrams_kept [where fs = ?fs and w = w and ds = b and files = files] Cons.prems by auto
  then show ?case using Cons.IH [OF s(2,3)] Cons.IH [OF Cons.prems] by (cases "b = []") (auto simp: algebra_simps)
qed simp

end

interpretation listener: book_listener rt "\<lambda>_. True" for rt :: "'w StrategyRuntime"
  by unfold_locales simp

section \<open>Following the live feed\<close>

fun next_after :: "Sequence \<Rightarrow> Event list \<Rightarrow> Sequence" where
  "next_after n [] = n"
| "next_after n (e # es) = next_after (sequence_of_event e + 1) es"

lemma gaps_append: "gaps n (es @ fs) = gaps n es + gaps (next_after n es) fs"
  by (induction es arbitrary: n) simp_all

lemma ascending_append: "ascending n (es @ fs) \<longleftrightarrow> ascending n es \<and> ascending (next_after n es) fs"
  by (induction es arbitrary: n) auto

lemma next_after_pos: "ascending n es \<Longrightarrow> 0 < n \<Longrightarrow> 0 < next_after n es"
proof (induction es arbitrary: n)
  case (Cons e es)
  have "0 < sequence_of_event e + 1" using Cons.prems(1) by (auto intro: le_less_trans [OF word_zero_le])
  then show ?case using Cons by simp
qed simp

text \<open>The subscriber expects \<open>n\<close>, shows the depths \<open>D\<close> and has counted \<open>f\<close> gaps.\<close>

definition following :: "Sequence \<Rightarrow> Depths \<Rightarrow> u64 \<Rightarrow> FeedSubscriber \<Rightarrow> bool" where
  "following n D f fs \<longleftrightarrow>
     fs_replay_options fs = live_replay_options None \<and> caught_up n (fs_validator fs) \<and> sound (rr_books (fs_outcome fs)) \<and>
     depths (rr_books (fs_outcome fs)) = D \<and> rp_sequence_failures (rr_stats (fs_outcome fs)) = f \<and>
     rp_decode_failures (rr_stats (fs_outcome fs)) = 0 \<and> fs_packet_errors fs = 0"

definition may_start :: "Sequence \<Rightarrow> Event list \<Rightarrow> FeedSubscriber \<Rightarrow> bool" where
  "may_start n es fs \<longleftrightarrow> (fs_validator fs = None \<longrightarrow> es = [] \<or> sequence_of_event (hd es) = n)"

lemma apply_now_effect:
  assumes "sound (rr_books oc)"
  shows "\<exists>oc'. apply_now e (v, oc) = Some (False, v, oc') \<and> sound (rr_books oc') \<and>
    depths (rr_books oc') = feed_effect e (depths (rr_books oc)) \<and>
    rp_sequence_failures (rr_stats oc') = rp_sequence_failures (rr_stats oc) \<and>
    rp_decode_failures (rr_stats oc') = rp_decode_failures (rr_stats oc)"
proof -
  let ?st = "(rr_stats oc)\<lparr>rp_messages_processed := rp_messages_processed (rr_stats oc) + 1\<rparr>"
  obtain m' st' where a: "apply_event e (rr_books oc) ?st = Some (m', st')" "sound m'" "depths m' = feed_effect e (depths (rr_books oc))"
    using apply_event_sound [OF assms, of e ?st] by blast
  then show ?thesis using apply_event_ok [of "rr_books oc" e ?st] assms by (auto simp: apply_now_def sound_def)
qed

lemma check_ascending:
  assumes "caught_up n v" "0 < n" "n \<le> seq" "v = None \<longrightarrow> seq = n"
  shows "\<exists>c. check seq v = (c, Some seq) \<and> sc_outcome c = (if seq = n then InOrder else Missing)"
proof (cases v)
  case (Some p)
  then have p: "p = n - 1" using assms(1) by (simp add: caught_up_def)
  have "unat (n - 1) = unat n - 1" "0 < unat n" using assms(2) unat_minus_one [of n] by (simp_all add: unat_gt_0 word_gt_0)
  then have lt: "n - 1 < n" by (simp add: word_less_nat_alt)
  show ?thesis using lt assms(3) by (auto simp: Some p check_def)
qed (use assms(4) in simp)

lemma frame_followed:
  assumes "following n D f fs" "0 < n" "n \<le> sequence_of_event e" "may_start n [e] fs"
  shows "\<exists>fs' w'. receive_frame files rt (Inr e) (fs, w) = Some (fs', w') \<and> fs_validator fs' \<noteq> None \<and>
    following (sequence_of_event e + 1) (feed_effect e D) (f + (if sequence_of_event e = n then 0 else 1)) fs'"
proof -
  let ?n = "sequence_of_event e" and ?oc = "fs_outcome fs"
  obtain c where c: "check ?n (fs_validator fs) = (c, Some ?n)" "sc_outcome c = (if ?n = n then InOrder else Missing)"
    using check_ascending [of n "fs_validator fs" ?n] assms by (auto simp: following_def may_start_def)
  have ok: "sound (rr_books ?oc)" using assms(1) by (simp add: following_def)
  define oc1 where "oc1 = (if ?n = n then ?oc
    else ?oc\<lparr>rr_stats := (rr_stats ?oc)\<lparr>rp_sequence_failures := rp_sequence_failures (rr_stats ?oc) + 1\<rparr>\<rparr>)"
  have oc1: "rr_books oc1 = rr_books ?oc" "rp_decode_failures (rr_stats oc1) = rp_decode_failures (rr_stats ?oc)"
    "rp_sequence_failures (rr_stats oc1) = rp_sequence_failures (rr_stats ?oc) + (if ?n = n then 0 else 1)"
    by (simp_all add: oc1_def)
  obtain oc' where oc: "apply_now e (Some ?n, oc1) = Some (False, Some ?n, oc')" "sound (rr_books oc')"
    "depths (rr_books oc') = feed_effect e (depths (rr_books oc1))"
    "rp_sequence_failures (rr_stats oc') = rp_sequence_failures (rr_stats oc1)"
    "rp_decode_failures (rr_stats oc') = rp_decode_failures (rr_stats oc1)"
    using apply_now_effect [of oc1 e "Some ?n"] ok unfolding oc1(1) by blast
  have a: "apply_frame_result files (live_replay_options None) (Inr e) (fs_validator fs, ?oc) = Some (False, Some ?n, oc')"
    using oc(1) c by (cases "?n = n") (simp_all add: apply_frame_result_def live_replay_options_def oc1_def)
  have next_up: "caught_up (?n + 1) (Some ?n)" by (simp add: caught_up_def)
  show ?thesis
    using assms(1) a oc oc1 told_books(1) [OF oc(2)] told_books(2) next_up
    by (auto simp: receive_frame_def following_def on_event_def Let_def)
qed

lemma frames_followed:
  assumes "following n D f fs" "0 < n" "ascending n es" "may_start n es fs"
  shows "\<exists>fs' w'. receive_frames files rt (map Inr es) (fs, w) = Some (fs', w') \<and> (es \<noteq> [] \<longrightarrow> fs_validator fs' \<noteq> None) \<and>
    following (next_after n es) (fold feed_effect es D) (f + word_of_nat (gaps n es)) fs'"
  using assms
proof (induction es arbitrary: n D f fs w)
  case (Cons e es)
  let ?m = "sequence_of_event e + 1"
  have ms: "may_start n [e] fs" using Cons.prems(4) by (simp add: may_start_def)
  have le: "n \<le> sequence_of_event e" using Cons.prems(3) by simp
  obtain fs1 w1 where s: "receive_frame files rt (Inr e) (fs, w) = Some (fs1, w1)" "fs_validator fs1 \<noteq> None"
    "following ?m (feed_effect e D) (f + (if sequence_of_event e = n then 0 else 1)) fs1"
    using frame_followed [where files = files and rt = rt and w = w, OF Cons.prems(1,2) le ms] by blast
  have m: "0 < ?m" using Cons.prems(3) by (auto intro: le_less_trans [OF word_zero_le])
  obtain fs2 w2 where t: "receive_frames files rt (map Inr es) (fs1, w1) = Some (fs2, w2)" "es \<noteq> [] \<longrightarrow> fs_validator fs2 \<noteq> None"
    "following (next_after ?m es) (fold feed_effect es (feed_effect e D))
       (f + (if sequence_of_event e = n then 0 else 1) + word_of_nat (gaps ?m es)) fs2"
    using Cons.IH [OF s(3) m, of w1] Cons.prems(3) s(2) by (auto simp: may_start_def)
  have "fs_validator fs2 \<noteq> None" using t(1,2) s(2) by (cases "es = []") auto
  then show ?case using s(1) t by (auto simp: algebra_simps)
qed simp

fun datagrams :: "u64 \<Rightarrow> Event list list \<Rightarrow> byte list list" where
  \<comment> \<open>what the server sends for the batches of its router: \<open>pack_frames(next_packet_sequence++, wire_events)\<close>\<close>
  "datagrams packet_sequence [] = []"
| "datagrams packet_sequence (b # bs) = pack_frames packet_sequence b # datagrams (packet_sequence + 1) bs"

lemma datagrams_split:
  assumes "datagrams k bs = xs @ ys"
  obtains bs1 bs2 l where "bs = bs1 @ bs2" "xs = datagrams k bs1" "ys = datagrams l bs2"
  using assms
proof (induction xs arbitrary: k bs thesis)
  case (Cons x xs)
  obtain b bs' where b: "bs = b # bs'" "x = pack_frames k b" "datagrams (k + 1) bs' = xs @ ys"
    using Cons.prems(2) by (cases bs) auto
  obtain bs1 bs2 l where "bs' = bs1 @ bs2" "xs = datagrams (k + 1) bs1" "ys = datagrams l bs2"
    by (rule Cons.IH [OF _ b(3)]) (rule that)
  then show ?case by (intro Cons.prems(1) [of "b # bs1" bs2 l]) (simp_all add: b)
next
  case Nil
  show ?case by (rule Nil.prems(1) [of "[]" bs k]) (use Nil.prems(2) in simp_all)
qed

lemma datagrams_followed:
  assumes "following n D f fs" "0 < n" "ascending n (concat bs)" "may_start n (concat bs) fs" "list_all (batch_ok limit) bs" "limit < 2 ^ 16"
  shows "\<exists>fs' w'. receive_datagrams files rt (datagrams k bs) (fs, w) = Some (fs', w') \<and> (bs \<noteq> [] \<longrightarrow> fs_validator fs' \<noteq> None) \<and>
    following (next_after n (concat bs)) (fold feed_effect (concat bs) D) (f + word_of_nat (gaps n (concat bs))) fs'"
  using assms
proof (induction bs arbitrary: n D f fs w k)
  case (Cons b bs)
  have b: "b \<noteq> []" "length b < 2 ^ 16" "list_all (batch_ok limit) bs" using Cons.prems(5,6) by (auto simp: batch_ok_def list_all_iff)
  have asc: "ascending n b" "ascending (next_after n b) (concat bs)" using Cons.prems(3) by (simp_all add: ascending_append)
  have ms: "may_start n b fs" using Cons.prems(4) b(1) by (simp add: may_start_def)
  obtain fs1 w1 where s: "receive_frames files rt (map Inr b) (fs, w) = Some (fs1, w1)" "fs_validator fs1 \<noteq> None"
    "following (next_after n b) (fold feed_effect b D) (f + word_of_nat (gaps n b)) fs1"
    using frames_followed [where files = files and rt = rt and w = w, OF Cons.prems(1,2) asc(1) ms] b(1) by blast
  have d: "receive_datagram files rt (pack_frames k b) (fs, w) = Some (fs1, w1)"
    using s(1) unpack_pack [OF b(1,2), of k] by (simp add: receive_datagram_def)
  have ms1: "may_start (next_after n b) (concat bs) fs1" using s(2) by (auto simp: may_start_def)
  obtain fs2 w2 where t: "receive_datagrams files rt (datagrams (k + 1) bs) (fs1, w1) = Some (fs2, w2)" "bs \<noteq> [] \<longrightarrow> fs_validator fs2 \<noteq> None"
    "following (next_after (next_after n b) (concat bs)) (fold feed_effect (concat bs) (fold feed_effect b D))
      (f + word_of_nat (gaps n b) + word_of_nat (gaps (next_after n b) (concat bs))) fs2"
    using Cons.IH [where w = w1 and k = "k + 1", OF s(3) next_after_pos [OF asc(1) Cons.prems(2)] asc(2) ms1 b(3) Cons.prems(6)] by blast
  have "fs_validator fs2 \<noteq> None" using t(1,2) s(2) by (cases bs) auto
  moreover have "next_after n (b @ c) = next_after (next_after n b) c" for c
    by (induction b arbitrary: n) simp_all
  ultimately show ?case using d t by (simp add: gaps_append algebra_simps)
qed simp

lemma loop_followed:
  assumes "following n D f fs" "0 < n" "ascending n (concat bs)" "may_start n (concat bs) fs" "list_all (batch_ok limit) bs" "limit < 2 ^ 16"
    "concat received = datagrams k bs"
  shows "\<exists>fs' w'. receive_loop files rt received (fs, w) = Some (fs', w') \<and>
    following (next_after n (concat bs)) (fold feed_effect (concat bs) D) (f + word_of_nat (gaps n (concat bs))) fs'"
  using assms
proof (induction received arbitrary: n D f fs w k bs)
  case Nil
  then have "bs = []" by (cases bs) auto
  then show ?case using Nil.prems(1) by simp
next
  case (Cons r rs)
  show ?case
  proof (cases "r = []")
    case True
    then show ?thesis using Cons.IH [OF Cons.prems(1-6)] Cons.prems(7) by simp
  next
    case False
    obtain bs1 bs2 l where b: "bs = bs1 @ bs2" "r = datagrams k bs1" "concat rs = datagrams l bs2"
      by (rule datagrams_split [of k bs r "concat rs"]) (use Cons.prems(7) that in simp_all)
    have bs1: "bs1 \<noteq> []" using False b(2) by auto
    let ?fs = "fs\<lparr>fs_packets_received := fs_packets_received fs + word_of_nat (length r)\<rparr>"
    have c1: "concat bs1 \<noteq> []" using Cons.prems(5) bs1 by (cases bs1) (auto simp: b(1) batch_ok_def)
    have f: "following n D f ?fs" using Cons.prems(1) by (simp add: following_def)
    have asc: "ascending n (concat bs1)" "ascending (next_after n (concat bs1)) (concat bs2)"
      using Cons.prems(3) by (simp_all add: b(1) ascending_append)
    have ms: "may_start n (concat bs1) ?fs" using Cons.prems(4) c1 by (auto simp: may_start_def b(1))
    have ok: "list_all (batch_ok limit) bs1" "list_all (batch_ok limit) bs2" using Cons.prems(5) by (simp_all add: b(1))
    obtain fs1 w1 where s: "receive_datagrams files rt r (?fs, w) = Some (fs1, w1)" "fs_validator fs1 \<noteq> None"
      "following (next_after n (concat bs1)) (fold feed_effect (concat bs1) D) (f + word_of_nat (gaps n (concat bs1))) fs1"
      using datagrams_followed [where files = files and rt = rt and w = w and k = k, OF f Cons.prems(2) asc(1) ms ok(1) Cons.prems(6)] bs1
      unfolding b(2) by blast
    have ms1: "may_start (next_after n (concat bs1)) (concat bs2) fs1" using s(2) by (auto simp: may_start_def)
    obtain fs2 w2 where t: "receive_loop files rt rs (fs1, w1) = Some (fs2, w2)"
      "following (next_after (next_after n (concat bs1)) (concat bs2)) (fold feed_effect (concat bs2) (fold feed_effect (concat bs1) D))
        (f + word_of_nat (gaps n (concat bs1)) + word_of_nat (gaps (next_after n (concat bs1)) (concat bs2))) fs2"
      using Cons.IH [where w = w1, OF s(3) next_after_pos [OF asc(1) Cons.prems(2)] asc(2) ms1 ok(2) Cons.prems(6) b(3)] by blast
    have "next_after n (xs @ c) = next_after (next_after n xs) c" for xs c
      by (induction xs arbitrary: n) simp_all
    then show ?thesis using False s(1) t by (simp add: b(1) gaps_append algebra_simps)
  qed
qed

section \<open>Properties\<close>

text \<open>
  C18. No traffic breaks the subscriber: whatever bytes arrive, in whatever batches, the receive loop goes through without
  undefined behaviour and its books stay sound, the counters tell the datagrams received and the unreadable ones, and
  everything the strategies' callbacks keep on well-formed books holds afterwards.
\<close>

theorem any_traffic_leaves_sound_books:
  assumes "\<And>sink iid b w. sink \<in> set (sr_sinks rt iid) \<Longrightarrow> book_ok b \<Longrightarrow> P w \<Longrightarrow> P (sink iid b w)" "P w"
  shows "\<exists>fs w'. receive_loop files rt received (new_feed_subscriber options, w) = Some (fs, w') \<and>
    sound (rr_books (fs_outcome fs)) \<and> P w' \<and> fs_packets_received fs = word_of_nat (length (concat received)) \<and>
    fs_packet_errors fs = word_of_nat (length (filter unreadable (concat received)))"
proof -
  have "book_listener rt P" by unfold_locales (rule assms(1))
  from book_listener.loop_kept [OF this, of "new_feed_subscriber options" w files received] assms(2) new_sound
  show ?thesis by (simp add: new_feed_subscriber_def new_replay_result_def)
qed

definition counting_runtime :: "nat StrategyRuntime" where
  "counting_runtime = subscribe 0 7 (\<lambda>iid b n. Suc n) new_strategy_runtime"

theorem any_traffic_leaves_sound_books_witness:
  "\<exists>fs n. receive_loop (\<lambda>_. None) counting_runtime [[[], [1, 2, 3]]] (new_feed_subscriber (live_replay_options None), 5) = Some (fs, n) \<and>
    sound (rr_books (fs_outcome fs)) \<and> 5 \<le> n \<and> fs_packets_received fs = 2 \<and> fs_packet_errors fs = 2"
proof -
  have "unreadable []" "unreadable [1, 2, 3]" by (simp_all add: unreadable_def unpack_frames_def PACKET_HEADER_SIZE_def)
  moreover have "5 \<le> sink iid b n" if "sink \<in> set (sr_sinks counting_runtime i)" "book_ok b" "5 \<le> n" for sink i iid b n
    using that by (auto simp: counting_runtime_def subscribe_def new_strategy_runtime_def split: if_splits)
  ultimately show ?thesis
    using any_traffic_leaves_sound_books [where rt = counting_runtime and P = "\<lambda>n. 5 \<le> n" and w = 5 and files = "\<lambda>_. None"
        and received = "[[[], [1, 2, 3]]]" and options = "live_replay_options None"]
    by simp
qed

lemma run_facts:
  assumes "start_router queue_capacity max_batch measuring = Some s0" "unat queue_capacity \<le> 2 ^ 63" "router_acts clock as s0 = Some s"
  shows "router_inv s" "counted s" "rn_published s = fst (publish_all clock (events_of as) new_market_data_publisher)"
    "mr_max_batch (rn_router s) = (if max_batch = 0 then 1 else max_batch)"
proof -
  have "router_inv s0 \<and> counted s0 \<and> rn_published s0 = [] \<and> mr_publisher (rn_router s0) = new_market_data_publisher \<and>
    mr_max_batch (rn_router s0) = (if max_batch = 0 then 1 else max_batch)"
    using router_started [OF assms(2), of max_batch measuring] assms(1) by (metis option.inject)
  then show "router_inv s" "counted s" "rn_published s = fst (publish_all clock (events_of as) new_market_data_publisher)"
    "mr_max_batch (rn_router s) = (if max_batch = 0 then 1 else max_batch)"
    using router_acts_kept [of s0 clock as] assms(3) by auto
qed

lemma router_inv_facts:
  assumes "router_inv s"
  shows "rn_queued s = concat (rn_batches s) @ mr_batch (rn_router s) @ queue_contents (dq_queue (mr_queue (rn_router s)))"
    "subseq (rn_queued s) (rn_published s)" "rn_published s \<noteq> [] \<Longrightarrow> rn_queued s \<noteq> [] \<and> hd (rn_queued s) = hd (rn_published s)"
    "list_all (batch_ok (mr_max_batch (rn_router s))) (rn_batches s)"
  using assms unfolding router_inv_def Let_def list_all_iff by blast+

lemma delivered_sub: "router_inv s \<Longrightarrow> subseq (concat (rn_batches s)) (rn_published s)"
  using router_inv_facts(1,2) [of s] subseq_order.trans prefix_imp_subseq [OF prefixI [OF refl]] by metis

lemma delivered_first:
  assumes inv: "router_inv s" and seq: "in_sequence n (map sequence_of_event (rn_published s))" and d: "concat (rn_batches s) \<noteq> []"
  shows "sequence_of_event (hd (concat (rn_batches s))) = n"
proof -
  have p: "rn_published s \<noteq> []" using delivered_sub [OF inv] d by (metis list_emb_Nil2)
  have "hd (concat (rn_batches s)) = hd (rn_published s)"
    using router_inv_facts(3) [OF inv p] d unfolding router_inv_facts(1) [OF inv] by simp
  then show ?thesis using seq p by (cases "rn_published s") auto
qed

lemma nothing_dropped:
  assumes inv: "router_inv s" "counted s" and len: "length (rn_published s) < 2 ^ 64"
    and drained: "dq_dropped_count (mr_queue (rn_router s)) = 0" "mr_batch (rn_router s) = []"
      "queue_contents (dq_queue (mr_queue (rn_router s))) = []"
  shows "concat (rn_batches s) = rn_published s"
proof -
  have q: "rn_queued s = concat (rn_batches s)" using router_inv_facts(1) [OF inv(1)] drained(2,3) by simp
  have sub: "subseq (rn_queued s) (rn_published s)" by (rule router_inv_facts(2) [OF inv(1)])
  then have le: "length (rn_queued s) \<le> length (rn_published s)" by (rule list_emb_length)
  have "(word_of_nat (length (rn_published s)) :: u64) = word_of_nat (length (rn_queued s))"
    using inv(2) drained(1) by (simp add: counted_def Let_def)
  then have "length (rn_queued s) = length (rn_published s)"
    using le len unat_word_of_nat_64 by (metis le_less_trans)
  then show ?thesis using sub q by (metis subseq_same_length)
qed

text \<open>
  C3. The live feed is the market: an engine's events go through the router, in any schedule and with any queue size, and
  the batches it hands down go out as datagrams that arrive in order, however the receive calls group them. The
  subscriber then shows the effect of exactly the events that got through; it has counted no gap if and only if these
  are the first of the events published, so a drop in between never stays unnoticed; and when nothing was dropped and
  nothing is left on the way, its books show exactly the resting orders of the engine.
\<close>

theorem the_live_feed_is_the_market:
  assumes "admissible_run cs (empty_exchange u)" "length cs < 2 ^ 64 - 1"
    "engine_run cs (new_matching_engine u) = Some (e, events_of as)" "length (events_of as) < 2 ^ 64 - 1"
    "start_router queue_capacity max_batch measuring = Some s0" "unat queue_capacity \<le> 2 ^ 63" "max_batch < 2 ^ 16"
    "router_acts clock as s0 = Some s" "concat received = datagrams k (rn_batches s)"
  shows "\<exists>fs w'. receive_loop files rt received (new_feed_subscriber (live_replay_options None), w) = Some (fs, w') \<and>
    depths (rr_books (fs_outcome fs)) = fold feed_effect (concat (rn_batches s)) (\<lambda>_. Map.empty) \<and>
    (rp_sequence_failures (rr_stats (fs_outcome fs)) = 0 \<longleftrightarrow> prefix (concat (rn_batches s)) (rn_published s)) \<and>
    (dq_dropped_count (mr_queue (rn_router s)) = 0 \<and> mr_batch (rn_router s) = [] \<and>
      queue_contents (dq_queue (mr_queue (rn_router s))) = [] \<longrightarrow> depths (rr_books (fs_outcome fs)) = market (exchange_of e))"
proof -
  note run = run_facts [OF assms(5,6,8)]
  note inv = router_inv_facts [OF run(1)]
  let ?ds = "concat (rn_batches s)" and ?ps = "rn_published s"
  have seq: "in_sequence 1 (map sequence_of_event ?ps)"
    using published_in_sequence [of new_market_data_publisher clock "events_of as"] by (simp add: run(3) new_market_data_publisher_def)
  have len: "length ?ps < 2 ^ 64 - 1" using published_length [of clock "events_of as" new_market_data_publisher] assms(4) by (simp add: run(3))
  have sub: "subseq ?ds ?ps" by (rule delivered_sub [OF run(1)])
  note drops = gaps_of_drops [OF sub seq]
  have fol: "following 1 (\<lambda>_. Map.empty) 0 (new_feed_subscriber (live_replay_options None))"
    using new_sound new_manager(2)
    by (simp add: following_def new_feed_subscriber_def new_replay_result_def new_replay_stats_def caught_up_def)
  have ms: "may_start 1 ?ds (new_feed_subscriber (live_replay_options None))"
    using delivered_first [OF run(1) seq] by (auto simp: may_start_def)
  have limit: "mr_max_batch (rn_router s) < 2 ^ 16" using assms(7) run(4) by simp
  obtain fs w' where fs: "receive_loop files rt received (new_feed_subscriber (live_replay_options None), w) = Some (fs, w')"
    "following (next_after 1 ?ds) (fold feed_effect ?ds (\<lambda>_. Map.empty)) (0 + word_of_nat (gaps 1 ?ds)) fs"
    using loop_followed [where files = files and rt = rt and w = w, OF fol _ drops(2) ms inv(4) limit assms(9)] len by auto
  have "gaps 1 ?ds < 2 ^ 64" using gaps_length [of 1 ?ds] list_emb_length [OF sub] len by linarith
  from unat_word_of_nat_64 [OF this] have "(word_of_nat (gaps 1 ?ds) :: u64) = 0 \<longleftrightarrow> gaps 1 ?ds = 0"
    by (auto simp flip: unat_eq_zero)
  moreover have "fold feed_effect ?ps (\<lambda>_. Map.empty) = market (exchange_of e)"
    by (rule market_of_run [OF assms(1,2)]) (use assms(3) run(3) in auto)
  ultimately show ?thesis
    using fs drops(1) len nothing_dropped [OF run(1,2)] by (auto simp: following_def)
qed

lemma sample_events:
  obtains e evs where "engine_run [NewOrderC (sample_new Buy GTC 1 100)] (new_matching_engine [7]) = Some (e, evs)" "length evs \<le> 2"
    "admissible_run [NewOrderC (sample_new Buy GTC 1 100)] (empty_exchange [7])"
proof -
  let ?cs = "[NewOrderC (sample_new Buy GTC 1 100)]"
  have adm: "admissible_run ?cs (empty_exchange [7])"
    by (simp add: admissible_def empty_exchange_def sample_new_def sample_engine)
  obtain e where e: "engine_run ?cs (new_matching_engine [7]) = Some (e, snd (exchange_run ?cs (empty_exchange [7])))"
    by (rule run_follows [OF new_matching_engine(1), of ?cs "[7]"]) (use adm in \<open>auto simp: exchange_of_new\<close>)
  have "length (snd (exchange_run ?cs (empty_exchange [7]))) \<le> 2"
    by (simp add: exchange_new_def empty_exchange_def sample_new_def place_in_def take_events_def placed_events_def commit_def refuse_def Let_def
        split: prod.split)
  then show thesis using that e adm by blast
qed

definition publishing :: "ExchangeEvent list \<Rightarrow> RouterAction list" where
  "publishing evs = map (\<lambda>e. PublishEvent e sample_ticks) evs @ [RoutingTurn, RoutingTurn]"

lemma events_of_publishing: "events_of (publishing evs) = evs"
proof -
  have "events_of (map (\<lambda>e. PublishEvent e sample_ticks) evs @ as) = evs @ events_of as" for as by (induction evs) simp_all
  then show ?thesis by (simp add: publishing_def)
qed

theorem the_live_feed_is_the_market_witness:
  "\<exists>e evs s0 s fs. engine_run [NewOrderC (sample_new Buy GTC 1 100)] (new_matching_engine [7]) = Some (e, evs) \<and>
    start_router 8 29 False = Some s0 \<and> router_acts (\<lambda>n. n) (publishing evs) s0 = Some s \<and>
    receive_loop (\<lambda>_. None) new_strategy_runtime [datagrams 1 (rn_batches s)] (new_feed_subscriber (live_replay_options None), ()) = Some (fs, ()) \<and>
    depths (rr_books (fs_outcome fs)) = fold feed_effect (concat (rn_batches s)) (\<lambda>_. Map.empty)"
proof -
  obtain e evs where e: "engine_run [NewOrderC (sample_new Buy GTC 1 100)] (new_matching_engine [7]) = Some (e, evs)" "length evs \<le> 2"
    "admissible_run [NewOrderC (sample_new Buy GTC 1 100)] (empty_exchange [7])" by (rule sample_events)
  obtain s0 where s0: "start_router 8 29 False = Some s0" "router_inv s0" "counted s0"
    by (rule router_started [of 8 29 False]) (simp_all add: that)
  obtain s where s: "router_acts (\<lambda>n. n) (publishing evs) s0 = Some s" using router_acts_kept [OF s0(2,3)] by blast
  show ?thesis
    using the_live_feed_is_the_market [where received = "[datagrams 1 (rn_batches s)]" and k = 1 and w = "()" and as = "publishing evs"
        and files = "\<lambda>_. None" and rt = new_strategy_runtime, OF e(3) _ _ _ s0(1) _ _ s] e s0(1) s
    by (auto simp: events_of_publishing simp del: receive_loop.simps)
qed

section \<open>Findings\<close>

text \<open>
  A live subscriber does not look at the number of an event it applies: a datagram that arrives late, or twice, is
  counted as a failure and applied all the same. An order cancelled meanwhile then stands in the book again, and nothing
  will take it out.
\<close>

lemma every_event_is_applied:
  assumes "fs_replay_options fs = live_replay_options None" "sound (rr_books (fs_outcome fs))"
    "sc_outcome (fst (check (sequence_of_event e) (fs_validator fs))) \<in> {Duplicate, OutOfOrder}"
  shows "\<exists>fs' w'. receive_frame files rt (Inr e) (fs, w) = Some (fs', w') \<and>
    depths (rr_books (fs_outcome fs')) = feed_effect e (depths (rr_books (fs_outcome fs))) \<and>
    rp_sequence_failures (rr_stats (fs_outcome fs')) = rp_sequence_failures (rr_stats (fs_outcome fs)) + 1"
proof -
  let ?oc = "fs_outcome fs"
  let ?oc1 = "?oc\<lparr>rr_stats := (rr_stats ?oc)\<lparr>rp_sequence_failures := rp_sequence_failures (rr_stats ?oc) + 1\<rparr>\<rparr>"
  obtain c v where c: "check (sequence_of_event e) (fs_validator fs) = (c, v)" by fastforce
  obtain oc' where oc: "apply_now e (v, ?oc1) = Some (False, v, oc')" "sound (rr_books oc')"
    "depths (rr_books oc') = feed_effect e (depths (rr_books ?oc))"
    "rp_sequence_failures (rr_stats oc') = rp_sequence_failures (rr_stats ?oc) + 1"
    using apply_now_effect [of ?oc1 e v] assms(2) by auto
  have "apply_frame_result files (live_replay_options None) (Inr e) (fs_validator fs, ?oc) = Some (False, v, oc')"
    using oc(1) c assms(3) by (auto simp: apply_frame_result_def live_replay_options_def)
  then show ?thesis using oc told_books(2) assms(1) by (simp add: receive_frame_def on_event_def Let_def)
qed

text \<open>The midpoint of two high prices: the sum overflows, and the mark of a book quoted at \<open>2 ^ 62\<close> is negative.\<close>

lemma the_midpoint_can_overflow:
  "\<exists>snap m. ms_best_bid snap = Some \<lparr>pv_price = 2 ^ 62, pv_aggregate_quantity = 1, pv_order_count = 1\<rparr> \<and>
    ms_best_ask snap = Some \<lparr>pv_price = 2 ^ 62 + 2, pv_aggregate_quantity = 1, pv_order_count = 1\<rparr> \<and>
    mark_price snap = Some m \<and> sint m < 0"
  by (rule exI [of _ "\<lparr>ms_best_bid = Some \<lparr>pv_price = 2 ^ 62, pv_aggregate_quantity = 1, pv_order_count = 1\<rparr>,
      ms_best_ask = Some \<lparr>pv_price = 2 ^ 62 + 2, pv_aggregate_quantity = 1, pv_order_count = 1\<rparr>,
      ms_trade_count = 0, ms_traded_quantity = 0, ms_last_trade_price = 0\<rparr>"]) (simp add: mark_price_def)

end
