(* ===== verification/Strategies.thy ===== *)
theory Strategies
  imports TraderRisk FeedSubscriber
begin

text \<open>
  The strategies (\<open>src/include/trader/strategies/\<close> and \<open>src/src/trader/strategies/\<close>) over the trader's gated order
  management system: a resting quote, the market maker around the midpoint of the book, the quote ladder around a random
  walk, momentum, and arbitrage between two venues. Each operation returns the messages it handed to the sender and the
  notices of the sinks beside its result. The random numbers and the net position are arguments.
\<close>

section \<open>Requests\<close>

text \<open>What the calls of one operation handed on.\<close>

type_synonym Sent = "Message list \<times> Notice list"

definition no_request :: Sent where
  "no_request = ([], [])"

definition also_sent :: "Sent \<Rightarrow> Sent \<Rightarrow> Sent" where
  "also_sent s s' = (fst s @ fst s', snd s @ snd s')"

definition of_option :: "'a option \<Rightarrow> 'a list" where
  "of_option x = (case x of None \<Rightarrow> [] | Some y \<Rightarrow> [y])"

definition abs_diff :: "Price \<Rightarrow> Price \<Rightarrow> Price" where
  "abs_diff a b = (if sless b a then a - b else b - a)"

definition midpoint :: "PriceLevelView \<Rightarrow> PriceLevelView \<Rightarrow> Price" where
  "midpoint bid ask = sdiv_i64 (pv_price bid + pv_price ask) 2"

definition settled :: "ClientOrder \<Rightarrow> bool" where
  "settled r \<longleftrightarrow> \<not> (ord_state r = PendingNew \<or> ord_pending_action r \<noteq> NoAction)"

section \<open>A resting quote\<close>

record RestingQuote =
  rq_instrument_id :: InstrumentId
  rq_side :: Side
  rq_size :: Quantity
  rq_requote_threshold :: Price
  rq_order_id :: "ClientOrderId option"

definition new_resting_quote :: "InstrumentId \<Rightarrow> Side \<Rightarrow> Quantity \<Rightarrow> Price \<Rightarrow> RestingQuote" where
  "new_resting_quote i sd quote_size threshold =
     \<lparr>rq_instrument_id = i, rq_side = sd, rq_size = quote_size, rq_requote_threshold = threshold, rq_order_id = None\<rparr>"

definition quote_submit :: "Sender \<Rightarrow> Price option \<Rightarrow> RestingQuote \<times> TraderRiskGatedOms \<Rightarrow>
    bool \<times> (RestingQuote \<times> TraderRiskGatedOms) \<times> Sent" where
  \<comment> \<open>the end of \<open>update\<close>\<close>
  "quote_submit sender desired_price st =
     (let (rq, trading) = st in
      case desired_price of
        None \<Rightarrow> (False, st, no_request)
      | Some p \<Rightarrow>
          (case gated_submit sender (rq_instrument_id rq) (rq_side rq) p (rq_size rq) Limit GTC trading of
             (outcome, trading, msg, ns) \<Rightarrow>
               (so_client_order_id outcome \<noteq> None, (rq\<lparr>rq_order_id := so_client_order_id outcome\<rparr>, trading), (of_option msg, ns))))"

definition quote_update :: "Sender \<Rightarrow> Price option \<Rightarrow> RestingQuote \<times> TraderRiskGatedOms \<Rightarrow>
    bool \<times> (RestingQuote \<times> TraderRiskGatedOms) \<times> Sent" where
  "quote_update sender desired_price st =
     (let (rq, trading) = st in
      case rq_order_id rq of
        None \<Rightarrow> quote_submit sender desired_price (rq, trading)
      | Some order_id \<Rightarrow>
          let order = gated_order order_id trading
          in if (case order of None \<Rightarrow> True | Some r \<Rightarrow> is_terminal (ord_state r))
             then quote_submit sender desired_price (rq\<lparr>rq_order_id := None\<rparr>, trading)
             else
               let r = the order
               in if \<not> settled r then (False, (rq, trading), no_request)
                  else case desired_price of
                    None \<Rightarrow>
                      (case gated_cancel sender order_id trading of
                         (went_out, trading, msg) \<Rightarrow> (went_out, (rq, trading), (of_option msg, [])))
                  | Some p \<Rightarrow>
                      if sless (abs_diff (ord_price r) p) (rq_requote_threshold rq) \<and> ord_remaining_quantity r = rq_size rq
                      then (False, (rq, trading), no_request)
                      else
                        (case gated_replace sender order_id p (rq_size rq) trading of
                           (Some new_id, trading, msg) \<Rightarrow> (True, (rq\<lparr>rq_order_id := Some new_id\<rparr>, trading), (of_option msg, []))
                         | (None, trading, msg) \<Rightarrow> (False, (rq, trading), (of_option msg, []))))"

definition quote_withdraw :: "Sender \<Rightarrow> RestingQuote \<times> TraderRiskGatedOms \<Rightarrow> bool \<times> (RestingQuote \<times> TraderRiskGatedOms) \<times> Sent" where
  "quote_withdraw sender st =
     (let (rq, trading) = st in
      case rq_order_id rq of
        None \<Rightarrow> (False, st, no_request)
      | Some order_id \<Rightarrow>
          (case gated_cancel sender order_id trading of
             (went_out, trading, msg) \<Rightarrow> (went_out, (rq\<lparr>rq_order_id := None\<rparr>, trading), (of_option msg, []))))"

section \<open>The reference price\<close>

record ReferencePriceWalkConfig =
  wc_initial_price :: Price
  wc_step_size :: Price
  wc_min_price :: Price
  wc_max_price :: Price
  wc_seed :: u64

record ReferencePriceWalk =
  pw_config :: ReferencePriceWalkConfig
  pw_price :: Price
  pw_drawn :: nat \<comment> \<open>how far \<open>rng_\<close> is\<close>
  pw_steps_taken :: u64

definition new_reference_price_walk :: "ReferencePriceWalkConfig \<Rightarrow> ReferencePriceWalk" where
  "new_reference_price_walk config =
     \<lparr>pw_config = config, pw_price = wc_initial_price config, pw_drawn = 0, pw_steps_taken = 0\<rparr>"

definition smax :: "i64 \<Rightarrow> i64 \<Rightarrow> i64" where
  \<comment> \<open>\<open>std::max\<close>\<close>
  "smax a b = (if sless a b then b else a)"

text \<open>\<open>direction seed k\<close> is the \<open>k\<close>-th draw from the generator seeded with \<open>seed\<close>: -1, 0 or 1.\<close>

type_synonym Direction = "u64 \<Rightarrow> nat \<Rightarrow> i64"

definition walk_step :: "Direction \<Rightarrow> ReferencePriceWalk \<Rightarrow> Price \<times> ReferencePriceWalk" where
  "walk_step direction w =
     (let config = pw_config w;
          p = pw_price w + direction (wc_seed config) (pw_drawn w) * wc_step_size config;
          p = smin (wc_max_price config) (smax (wc_min_price config) p)
      in (p, w\<lparr>pw_price := p, pw_drawn := Suc (pw_drawn w), pw_steps_taken := pw_steps_taken w + 1\<rparr>))"

section \<open>The quote ladder\<close>

record LadderMarketMakerConfig =
  lc_instrument_id :: InstrumentId
  lc_walk :: ReferencePriceWalkConfig
  lc_levels_per_side :: nat
  lc_half_spread :: Price
  lc_level_spacing :: Price
  lc_quote_size :: Quantity
  lc_max_position :: i64
  lc_requote_threshold :: Price

record LadderMarketMaker =
  lm_trading :: TraderRiskGatedOms
  lm_config :: LadderMarketMakerConfig
  lm_walk :: ReferencePriceWalk
  lm_bids :: "RestingQuote list"
  lm_asks :: "RestingQuote list"

definition new_ladder_market_maker :: "TraderRiskGatedOms \<Rightarrow> LadderMarketMakerConfig \<Rightarrow> LadderMarketMaker" where
  "new_ladder_market_maker trading config =
     (let side = (\<lambda>sd. map (\<lambda>level. new_resting_quote (lc_instrument_id config) sd (lc_quote_size config) (lc_requote_threshold config))
                   [0..<lc_levels_per_side config])
      in \<lparr>lm_trading = trading, lm_config = config, lm_walk = new_reference_price_walk (lc_walk config),
          lm_bids = side Buy, lm_asks = side Sell\<rparr>)"

definition bid_price_for :: "LadderMarketMakerConfig \<Rightarrow> nat \<Rightarrow> Price \<Rightarrow> Price" where
  "bid_price_for config level reference = reference - lc_half_spread config - word_of_nat level * lc_level_spacing config"

definition ask_price_for :: "LadderMarketMakerConfig \<Rightarrow> nat \<Rightarrow> Price \<Rightarrow> Price" where
  "ask_price_for config level reference = reference + lc_half_spread config + word_of_nat level * lc_level_spacing config"

fun update_levels :: "Sender \<Rightarrow> (nat \<Rightarrow> Price option) \<Rightarrow> nat \<Rightarrow> RestingQuote list \<Rightarrow> TraderRiskGatedOms \<Rightarrow>
    nat \<times> (RestingQuote list \<times> TraderRiskGatedOms) \<times> Sent" where
  \<comment> \<open>\<open>update_bids\<close> and \<open>update_asks\<close>, from \<open>level\<close> on\<close>
  "update_levels sender desired level [] trading = (0, ([], trading), no_request)"
| "update_levels sender desired level (q # qs) trading =
     (case quote_update sender (desired level) (q, trading) of
        (b, (q, trading), s) \<Rightarrow>
          case update_levels sender desired (Suc level) qs trading of
            (n, (qs, trading), s') \<Rightarrow> ((if b then 1 else 0) + n, (q # qs, trading), also_sent s s'))"

definition on_quote_cycle :: "Sender \<Rightarrow> Direction \<Rightarrow> i64 \<Rightarrow> LadderMarketMaker \<Rightarrow> nat \<times> LadderMarketMaker \<times> Sent" where
  "on_quote_cycle sender direction net_position lm =
     (let config = lm_config lm;
          previous_reference = pw_price (lm_walk lm);
          (reference, walk) = walk_step direction (lm_walk lm);
          withdraw_bids = sle (lc_max_position config) net_position;
          withdraw_asks = sle net_position (- lc_max_position config);
          rising = sle previous_reference reference;
          bid = (\<lambda>level. if withdraw_bids then None else Some (bid_price_for config level reference));
          ask = (\<lambda>level. if withdraw_asks then None else Some (ask_price_for config level reference))
      in if rising
         then
           (case update_levels sender ask 0 (lm_asks lm) (lm_trading lm) of
              (n, (asks, trading), s) \<Rightarrow>
                case update_levels sender bid 0 (lm_bids lm) trading of
                  (n', (bids, trading), s') \<Rightarrow>
                    (n + n', lm\<lparr>lm_trading := trading, lm_walk := walk, lm_bids := bids, lm_asks := asks\<rparr>, also_sent s s'))
         else
           (case update_levels sender bid 0 (lm_bids lm) (lm_trading lm) of
              (n, (bids, trading), s) \<Rightarrow>
                case update_levels sender ask 0 (lm_asks lm) trading of
                  (n', (asks, trading), s') \<Rightarrow>
                    (n + n', lm\<lparr>lm_trading := trading, lm_walk := walk, lm_bids := bids, lm_asks := asks\<rparr>, also_sent s s')))"

fun withdraw_levels :: "Sender \<Rightarrow> RestingQuote list \<Rightarrow> TraderRiskGatedOms \<Rightarrow> nat \<times> (RestingQuote list \<times> TraderRiskGatedOms) \<times> Sent" where
  "withdraw_levels sender [] trading = (0, ([], trading), no_request)"
| "withdraw_levels sender (q # qs) trading =
     (case quote_withdraw sender (q, trading) of
        (b, (q, trading), s) \<Rightarrow>
          case withdraw_levels sender qs trading of
            (n, (qs, trading), s') \<Rightarrow> ((if b then 1 else 0) + n, (q # qs, trading), also_sent s s'))"

definition withdraw_all :: "Sender \<Rightarrow> LadderMarketMaker \<Rightarrow> nat \<times> LadderMarketMaker \<times> Sent" where
  "withdraw_all sender lm =
     (case withdraw_levels sender (lm_bids lm) (lm_trading lm) of
        (n, (bids, trading), s) \<Rightarrow>
          case withdraw_levels sender (lm_asks lm) trading of
            (n', (asks, trading), s') \<Rightarrow>
              (n + n', lm\<lparr>lm_trading := trading, lm_bids := bids, lm_asks := asks\<rparr>, also_sent s s'))"

section \<open>The market maker\<close>

record MarketMakerConfig =
  mc_instrument_id :: InstrumentId
  mc_quote_size :: Quantity
  mc_half_spread :: Price
  mc_max_position :: Quantity
  mc_requote_threshold :: Price

record MarketMakerStrategy =
  mm_trading :: TraderRiskGatedOms
  mm_config :: MarketMakerConfig
  mm_bid_order_id :: "ClientOrderId option"
  mm_ask_order_id :: "ClientOrderId option"

definition new_market_maker :: "TraderRiskGatedOms \<Rightarrow> MarketMakerConfig \<Rightarrow> MarketMakerStrategy" where
  "new_market_maker trading config = \<lparr>mm_trading = trading, mm_config = config, mm_bid_order_id = None, mm_ask_order_id = None\<rparr>"

definition update_side :: "Sender \<Rightarrow> MarketMakerConfig \<Rightarrow> Side \<Rightarrow> ClientOrderId option \<Rightarrow> Price option \<Rightarrow> TraderRiskGatedOms \<Rightarrow>
    ClientOrderId option \<times> TraderRiskGatedOms \<times> Sent" where
  \<comment> \<open>returns the new value of the reference \<open>order_id\<close>\<close>
  "update_side sender config side order_id desired_price trading =
     (let quote_afresh =
            (case desired_price of
               None \<Rightarrow> (None, trading, no_request)
             | Some p \<Rightarrow>
                 (case gated_submit sender (mc_instrument_id config) side p (mc_quote_size config) Limit GTC trading of
                    (outcome, trading, msg, ns) \<Rightarrow> (so_client_order_id outcome, trading, (of_option msg, ns))))
      in case order_id of
           None \<Rightarrow> quote_afresh
         | Some c \<Rightarrow>
             let order = gated_order c trading
             in if (case order of None \<Rightarrow> True | Some r \<Rightarrow> is_terminal (ord_state r)) then quote_afresh
                else
                  let r = the order
                  in if \<not> settled r then (order_id, trading, no_request)
                     else case desired_price of
                       None \<Rightarrow>
                         (case gated_cancel sender c trading of (went_out, trading, msg) \<Rightarrow> (order_id, trading, (of_option msg, [])))
                     | Some p \<Rightarrow>
                         if sless (abs_diff (ord_price r) p) (mc_requote_threshold config) then (order_id, trading, no_request)
                         else
                           (case gated_replace sender c p (mc_quote_size config) trading of
                              (new_id, trading, msg) \<Rightarrow> (if new_id \<noteq> None then new_id else order_id, trading, (of_option msg, []))))"

definition market_maker_on_book_update :: "Sender \<Rightarrow> InstrumentId \<Rightarrow> OrderBook \<Rightarrow> MarketMakerStrategy \<Rightarrow> MarketMakerStrategy \<times> Sent" where
  "market_maker_on_book_update sender instrument_id book mm =
     (let config = mm_config mm in
      if instrument_id \<noteq> mc_instrument_id config then (mm, no_request)
      else case (best_bid book, best_ask book) of
        (Some bid, Some ask) \<Rightarrow>
          let mid = midpoint bid ask;
              trading = mm_trading mm;
              at_position_cap = mc_max_position config \<le> gated_position (mc_instrument_id config) trading;
              desired_bid = (if at_position_cap then None else Some (mid - mc_half_spread config));
              desired_ask = Some (mid + mc_half_spread config);
              current = (\<lambda>order_id. case order_id of None \<Rightarrow> None | Some c \<Rightarrow> gated_order c trading);
              working = (\<lambda>order. case order of None \<Rightarrow> False | Some r \<Rightarrow> \<not> is_terminal (ord_state r));
              current_ask = current (mm_ask_order_id mm);
              current_bid = current (mm_bid_order_id mm);
              bid_would_cross_current_ask = (desired_bid \<noteq> None \<and> working current_ask \<and> sle (ord_price (the current_ask)) (the desired_bid));
              ask_would_cross_current_bid = (working current_bid \<and> sle (the desired_ask) (ord_price (the current_bid)))
          in if bid_would_cross_current_ask \<and> \<not> ask_would_cross_current_bid
             then
               (case update_side sender config Sell (mm_ask_order_id mm) desired_ask trading of
                  (ask_id, trading, s) \<Rightarrow>
                    case update_side sender config Buy (mm_bid_order_id mm) desired_bid trading of
                      (bid_id, trading, s') \<Rightarrow>
                        (mm\<lparr>mm_trading := trading, mm_bid_order_id := bid_id, mm_ask_order_id := ask_id\<rparr>, also_sent s s'))
             else
               (case update_side sender config Buy (mm_bid_order_id mm) desired_bid trading of
                  (bid_id, trading, s) \<Rightarrow>
                    case update_side sender config Sell (mm_ask_order_id mm) desired_ask trading of
                      (ask_id, trading, s') \<Rightarrow>
                        (mm\<lparr>mm_trading := trading, mm_bid_order_id := bid_id, mm_ask_order_id := ask_id\<rparr>, also_sent s s'))
      | _ \<Rightarrow> (mm, no_request))"

section \<open>Momentum\<close>

record MomentumStrategyConfig =
  oc_instrument :: InstrumentId
  oc_lookback :: u64
  oc_entry_threshold :: Price
  oc_trade_size :: Quantity
  oc_max_position :: i64
  oc_cross_slack :: Price
  oc_cooldown_updates :: u64

record MomentumStrategy =
  mo_trading :: TraderRiskGatedOms
  mo_config :: MomentumStrategyConfig
  mo_mids :: "Price list" \<comment> \<open>oldest first\<close>
  mo_updates_since_order :: u64
  mo_updates_seen :: u64
  mo_orders_sent :: u64

definition new_momentum :: "TraderRiskGatedOms \<Rightarrow> MomentumStrategyConfig \<Rightarrow> MomentumStrategy" where
  "new_momentum trading config =
     \<lparr>mo_trading = trading, mo_config = config, mo_mids = [], mo_updates_since_order = 0, mo_updates_seen = 0, mo_orders_sent = 0\<rparr>"

definition momentum_signal :: "MomentumStrategy \<Rightarrow> Price option" where
  "momentum_signal mo =
     (if length (mo_mids mo) \<le> unat (oc_lookback (mo_config mo)) then None else Some (last (mo_mids mo) - hd (mo_mids mo)))"

fun trim_front :: "u64 \<Rightarrow> Price list \<Rightarrow> Price list" where
  \<comment> \<open>\<open>while (mids_.size() > lookback + 1) mids_.pop_front()\<close>\<close>
  "trim_front limit [] = []"
| "trim_front limit (m # ms) = (if unat limit < length (m # ms) then trim_front limit ms else m # ms)"

definition headroom :: "MomentumStrategyConfig \<Rightarrow> i64 \<Rightarrow> Side \<Rightarrow> Quantity" where
  "headroom config net_position side =
     (let room = (if side = Buy then oc_max_position config - net_position else oc_max_position config + net_position)
      in if sle room 0 then 0 else min (oc_trade_size config) room)"

definition momentum_order :: "MomentumStrategyConfig \<Rightarrow> i64 \<Rightarrow> Price \<Rightarrow> PriceLevelView \<Rightarrow> PriceLevelView \<Rightarrow> (Side \<times> Price \<times> Quantity) option" where
  \<comment> \<open>what to send for a signal: \<open>None\<close> where the code returns\<close>
  "momentum_order config net_position current_signal bid ask =
     (let chosen =
            (if sle (oc_entry_threshold config) current_signal then Some (Buy, pv_price ask + oc_cross_slack config)
             else if sle current_signal (- oc_entry_threshold config) then Some (Sell, smax 1 (pv_price bid - oc_cross_slack config))
             else None)
      in case chosen of
           None \<Rightarrow> None
         | Some (side, limit_price) \<Rightarrow>
             let quantity = headroom config net_position side
             in if quantity = 0 then None else Some (side, limit_price, quantity))"

definition momentum_on_book_update :: "Sender \<Rightarrow> i64 \<Rightarrow> InstrumentId \<Rightarrow> OrderBook \<Rightarrow> MomentumStrategy \<Rightarrow> MomentumStrategy \<times> Sent" where
  "momentum_on_book_update sender net_position instrument_id book mo =
     (let config = mo_config mo in
      if instrument_id \<noteq> oc_instrument config then (mo, no_request)
      else case (best_bid book, best_ask book) of
        (Some bid, Some ask) \<Rightarrow>
          let mo = mo\<lparr>mo_updates_seen := mo_updates_seen mo + 1,
                      mo_mids := trim_front (oc_lookback config + 1) (mo_mids mo @ [midpoint bid ask])\<rparr>
          in (case momentum_signal mo of
                None \<Rightarrow> (mo, no_request)
              | Some current_signal \<Rightarrow>
                  let mo = mo\<lparr>mo_updates_since_order := mo_updates_since_order mo + 1\<rparr>
                  in if mo_updates_since_order mo \<le> oc_cooldown_updates config then (mo, no_request)
                     else case momentum_order config net_position current_signal bid ask of
                       None \<Rightarrow> (mo, no_request)
                     | Some (side, limit_price, quantity) \<Rightarrow>
                         (case gated_submit sender (oc_instrument config) side limit_price quantity Limit IOC (mo_trading mo) of
                            (outcome, trading, msg, ns) \<Rightarrow>
                              (mo\<lparr>mo_trading := trading, mo_updates_since_order := 0,
                                  mo_orders_sent := mo_orders_sent mo + (if so_client_order_id outcome \<noteq> None then 1 else 0)\<rparr>,
                               (of_option msg, ns))))
      | _ \<Rightarrow> (mo, no_request))"

section \<open>Arbitrage between two venues\<close>

record CrossVenueArbConfig =
  ac_instrument :: InstrumentId
  ac_trade_size :: Quantity
  ac_min_edge :: Price

record CrossVenueArbStrategy =
  cv_venue_a :: TraderRiskGatedOms
  cv_venue_b :: TraderRiskGatedOms
  cv_config :: CrossVenueArbConfig
  cv_a_best_bid :: "PriceLevelView option"
  cv_a_best_ask :: "PriceLevelView option"
  cv_b_best_bid :: "PriceLevelView option"
  cv_b_best_ask :: "PriceLevelView option"

definition new_cross_venue_arb :: "TraderRiskGatedOms \<Rightarrow> TraderRiskGatedOms \<Rightarrow> CrossVenueArbConfig \<Rightarrow> CrossVenueArbStrategy" where
  "new_cross_venue_arb a b config =
     \<lparr>cv_venue_a = a, cv_venue_b = b, cv_config = config, cv_a_best_bid = None, cv_a_best_ask = None, cv_b_best_bid = None,
      cv_b_best_ask = None\<rparr>"

definition edge :: "Price \<Rightarrow> PriceLevelView option \<Rightarrow> PriceLevelView option \<Rightarrow> bool" where
  \<comment> \<open>the ask of one venue lies at least \<open>min_edge\<close> below the bid of the other\<close>
  "edge min_edge ask bid =
     (case (ask, bid) of (Some a, Some b) \<Rightarrow> sle min_edge (pv_price b - pv_price a) | _ \<Rightarrow> False)"

definition arb_leg :: "Sender \<Rightarrow> CrossVenueArbConfig \<Rightarrow> Side \<Rightarrow> Price \<Rightarrow> TraderRiskGatedOms \<Rightarrow> TraderRiskGatedOms \<times> Sent" where
  "arb_leg sender config side p venue =
     (case gated_submit sender (ac_instrument config) side p (ac_trade_size config) Limit IOC venue of
        (outcome, venue, msg, ns) \<Rightarrow> (venue, (of_option msg, ns)))"

definition evaluate :: "Sender \<Rightarrow> Sender \<Rightarrow> CrossVenueArbStrategy \<Rightarrow> CrossVenueArbStrategy \<times> Sent \<times> Sent" where
  \<comment> \<open>the last two results are what went to the two venues\<close>
  "evaluate sender_a sender_b cv =
     (let config = cv_config cv in
      if edge (ac_min_edge config) (cv_a_best_ask cv) (cv_b_best_bid cv)
      then
        (case arb_leg sender_a config Buy (pv_price (the (cv_a_best_ask cv))) (cv_venue_a cv) of
           (a, s) \<Rightarrow>
             case arb_leg sender_b config Sell (pv_price (the (cv_b_best_bid cv))) (cv_venue_b cv) of
               (b, s') \<Rightarrow> (cv\<lparr>cv_venue_a := a, cv_venue_b := b\<rparr>, s, s'))
      else if edge (ac_min_edge config) (cv_b_best_ask cv) (cv_a_best_bid cv)
      then
        (case arb_leg sender_b config Buy (pv_price (the (cv_b_best_ask cv))) (cv_venue_b cv) of
           (b, s') \<Rightarrow>
             case arb_leg sender_a config Sell (pv_price (the (cv_a_best_bid cv))) (cv_venue_a cv) of
               (a, s) \<Rightarrow> (cv\<lparr>cv_venue_a := a, cv_venue_b := b\<rparr>, s, s'))
      else (cv, no_request, no_request))"

definition on_venue_a_update :: "Sender \<Rightarrow> Sender \<Rightarrow> InstrumentId \<Rightarrow> OrderBook \<Rightarrow> CrossVenueArbStrategy \<Rightarrow> CrossVenueArbStrategy \<times> Sent \<times> Sent" where
  "on_venue_a_update sender_a sender_b instrument_id book cv =
     (if instrument_id \<noteq> ac_instrument (cv_config cv) then (cv, no_request, no_request)
      else evaluate sender_a sender_b (cv\<lparr>cv_a_best_bid := best_bid book, cv_a_best_ask := best_ask book\<rparr>))"

definition on_venue_b_update :: "Sender \<Rightarrow> Sender \<Rightarrow> InstrumentId \<Rightarrow> OrderBook \<Rightarrow> CrossVenueArbStrategy \<Rightarrow> CrossVenueArbStrategy \<times> Sent \<times> Sent" where
  "on_venue_b_update sender_a sender_b instrument_id book cv =
     (if instrument_id \<noteq> ac_instrument (cv_config cv) then (cv, no_request, no_request)
      else evaluate sender_a sender_b (cv\<lparr>cv_b_best_bid := best_bid book, cv_b_best_ask := best_ask book\<rparr>))"

end
