(* ===== verification/StrategyProperties.thy ===== *)
theory StrategyProperties
  imports Strategies
begin

text \<open>
  What the strategies promise: a resting quote has one request under way at most, and reaches its price when the
  exchange agrees; momentum's orders fit its position cap; the ladder asks only for its rungs around a reference price that stays
  in its range, no side beyond its share of the inventory; the market maker, on the feed, asks only for its quote size.
  And where they fall short: a quote silenced by a refused replace, fills under way beyond the cap, an arbitrage leg
  that goes alone.
\<close>

section \<open>Requests of a quote\<close>

definition connected :: "Sender \<Rightarrow> bool" where
  "connected sender \<longleftrightarrow> (\<forall>msg. sender msg)"

definition fresh_id :: "TraderRiskGatedOms \<Rightarrow> bool" where
  "fresh_id g \<longleftrightarrow> gated_order (om_next_client_order_id (tg_oms g)) g = None"

lemma gated_submit_sent:
  assumes "connected sender" "fresh_id g" "gated_submit sender i sd p q t tif g = (outcome, g', msg, ns)"
  shows "case so_client_order_id outcome of
      None \<Rightarrow> g' = g \<and> msg = None \<and> ns = []
    | Some c \<Rightarrow> c = om_next_client_order_id (tg_oms g) \<and> gated_order c g' = Some (pending_order (om_account_id (tg_oms g)) c i sd p q t tif) \<and>
        msg = Some (NewOrderM \<lparr>no_account_id = om_account_id (tg_oms g), no_client_order_id = c, no_instrument_id = i, no_side = sd,
            no_price = p, no_quantity = q, no_order_type = t, no_time_in_force = tif\<rparr>) \<and> ns = []"
  using assms by (auto simp: gated_submit_def submit_new_order_def connected_def fresh_id_def gated_order_def oms_order_def emplace_def Let_def
      split: if_splits)

lemma cancellable_iff:
  "cancellable c m = Some r \<longleftrightarrow> om_orders m c = Some r \<and> is_live (ord_state r) \<and> ord_pending_action r = NoAction"
  by (auto simp: cancellable_def split: option.splits if_splits)

lemma settled_live: "settled r \<Longrightarrow> \<not> is_terminal (ord_state r) \<Longrightarrow> is_live (ord_state r) \<and> ord_pending_action r = NoAction"
  by (cases "ord_state r") (auto simp: settled_def is_live_def)

lemma gated_replace_sent:
  assumes "connected sender" "fresh_id g" "gated_order c g = Some r" "settled r" "\<not> is_terminal (ord_state r)"
  obtains g' where "gated_replace sender c p q g = (Some (om_next_client_order_id (tg_oms g)), g',
      Some (ReplaceOrderM \<lparr>rp_account_id = om_account_id (tg_oms g), rp_original_client_order_id = c,
        rp_new_client_order_id = om_next_client_order_id (tg_oms g), rp_instrument_id = ord_instrument_id r, rp_new_price = p,
        rp_new_quantity = q\<rparr>))"
    "gated_order c g' = Some (r\<lparr>ord_pending_action := ReplacePending\<rparr>)" "c \<noteq> om_next_client_order_id (tg_oms g)"
    "gated_order (om_next_client_order_id (tg_oms g)) g' = Some (pending_order (om_account_id (tg_oms g)) (om_next_client_order_id (tg_oms g))
      (ord_instrument_id r) (ord_side r) p q (ord_order_type r) (ord_time_in_force r))"
proof -
  have ne: "c \<noteq> om_next_client_order_id (tg_oms g)" using assms(2,3) by (auto simp: fresh_id_def)
  have "cancellable c (tg_oms g) = Some r"
    using assms(3) settled_live [OF assms(4,5)] by (simp add: cancellable_iff gated_order_def oms_order_def)
  then show thesis
    using assms(1,2) ne that
    by (simp add: gated_replace_def replace_order_def connected_def fresh_id_def gated_order_def oms_order_def emplace_def Let_def split: prod.splits)
qed

lemma gated_cancel_sent:
  assumes "connected sender" "gated_order c g = Some r" "settled r" "\<not> is_terminal (ord_state r)"
  obtains g' where "gated_cancel sender c g = (True, g', Some (CancelOrderM \<lparr>co_account_id = om_account_id (tg_oms g), co_client_order_id = c,
      co_instrument_id = ord_instrument_id r\<rparr>))"
    "gated_order c g' = Some (r\<lparr>ord_pending_action := CancelPending\<rparr>)"
proof -
  have "cancellable c (tg_oms g) = Some r"
    using assms(2) settled_live [OF assms(3,4)] by (simp add: cancellable_iff gated_order_def oms_order_def)
  then show thesis
    using assms(1) that by (simp add: gated_cancel_def OrderManagement.cancel_order_def connected_def gated_order_def oms_order_def Let_def split: prod.splits)
qed

text \<open>A quote waits while its order has a request under way.\<close>

definition waiting :: "RestingQuote \<times> TraderRiskGatedOms \<Rightarrow> bool" where
  "waiting st \<longleftrightarrow> (\<exists>c r. rq_order_id (fst st) = Some c \<and> gated_order c (snd st) = Some r \<and> \<not> is_terminal (ord_state r) \<and> \<not> settled r)"

lemma waiting_sends_nothing: "waiting st \<Longrightarrow> quote_update sender desired st = (False, st, no_request)"
  by (cases st) (auto simp: waiting_def quote_update_def)

lemma pending_waits: "\<not> is_terminal (ord_state (pending_order a c i sd p q t tif))" "\<not> settled (pending_order a c i sd p q t tif)"
  by (simp_all add: pending_order_def settled_def)

lemma submit_waits:
  assumes "connected sender" "fresh_id g" "quote_submit sender desired (rq, g) = (b, st', s)"
  shows "(b \<longrightarrow> waiting st' \<and> length (fst s) = 1) \<and> (\<not> b \<longrightarrow> s = no_request)"
proof (cases desired)
  case (Some p)
  obtain outcome g' msg ns where o: "gated_submit sender (rq_instrument_id rq) (rq_side rq) p (rq_size rq) Limit GTC g = (outcome, g', msg, ns)"
    by (cases "gated_submit sender (rq_instrument_id rq) (rq_side rq) p (rq_size rq) Limit GTC g")
  show ?thesis
    using gated_submit_sent [OF assms(1,2) o] assms(3) Some o pending_waits
    by (auto simp: quote_submit_def waiting_def of_option_def no_request_def split: option.splits)
qed (use assms(3) in \<open>simp add: quote_submit_def\<close>)

lemma update_waits:
  assumes "connected sender" "fresh_id g" "quote_update sender desired (rq, g) = (b, st', s)"
  shows "(b \<longrightarrow> waiting st' \<and> length (fst s) = 1) \<and> (\<not> b \<longrightarrow> s = no_request)"
proof (cases "waiting (rq, g)")
  case True
  then show ?thesis using waiting_sends_nothing assms(3) by auto
next
  case nw: False
  show ?thesis
  proof (cases "\<exists>c r. rq_order_id rq = Some c \<and> gated_order c g = Some r \<and> \<not> is_terminal (ord_state r)")
    case False
    then have "case gated_order c g of None \<Rightarrow> True | Some r \<Rightarrow> is_terminal (ord_state r)" if "rq_order_id rq = Some c" for c
      using that by (simp split: option.split)
    then have "\<exists>rq'. quote_submit sender desired (rq', g) = (b, st', s)"
      using assms(3) by (cases "rq_order_id rq") (auto simp: quote_update_def Let_def)
    then show ?thesis using submit_waits [OF assms(1,2)] by blast
  next
    case True
    then obtain c r where r: "rq_order_id rq = Some c" "gated_order c g = Some r" "\<not> is_terminal (ord_state r)" "settled r"
      using nw by (auto simp: waiting_def)
    obtain gc where gc: "gated_cancel sender c g = (True, gc, Some (CancelOrderM \<lparr>co_account_id = om_account_id (tg_oms g), co_client_order_id = c,
        co_instrument_id = ord_instrument_id r\<rparr>))" "gated_order c gc = Some (r\<lparr>ord_pending_action := CancelPending\<rparr>)"
      by (rule gated_cancel_sent [OF assms(1) r(2,4,3)])
    show ?thesis
    proof (cases desired)
      case None
      then show ?thesis using assms(3) r gc by (auto simp: quote_update_def waiting_def settled_def of_option_def)
    next
      case (Some p)
      obtain gr msg where gr: "gated_replace sender c p (rq_size rq) g = (Some (om_next_client_order_id (tg_oms g)), gr, Some msg)"
        "gated_order (om_next_client_order_id (tg_oms g)) gr = Some (pending_order (om_account_id (tg_oms g)) (om_next_client_order_id (tg_oms g))
          (ord_instrument_id r) (ord_side r) p (rq_size rq) (ord_order_type r) (ord_time_in_force r))"
        by (rule gated_replace_sent [OF assms(1,2) r(2,4,3)]) (rule that)
      show ?thesis using assms(3) r gr Some pending_waits by (auto simp: quote_update_def waiting_def of_option_def split: if_splits)
    qed
  qed
qed

section \<open>The exchange agrees\<close>

fun taken :: "ExchangeOrderId \<Rightarrow> Message \<Rightarrow> Message list" where
  \<comment> \<open>the report of a request the exchange takes, under the id \<open>x\<close>\<close>
  "taken x (NewOrderM m) = [AcceptedM \<lparr>ac_account_id = no_account_id m, ac_client_order_id = no_client_order_id m,
     ac_exchange_order_id = x, ac_instrument_id = no_instrument_id m, ac_side = no_side m, ac_price = no_price m,
     ac_quantity = no_quantity m, ac_order_type = no_order_type m, ac_time_in_force = no_time_in_force m\<rparr>]"
| "taken x (ReplaceOrderM m) = [ReplacedM \<lparr>rl_account_id = rp_account_id m, rl_original_client_order_id = rp_original_client_order_id m,
     rl_new_client_order_id = rp_new_client_order_id m, rl_exchange_order_id = x, rl_instrument_id = rp_instrument_id m,
     rl_new_price = rp_new_price m, rl_new_quantity = rp_new_quantity m\<rparr>]"
| "taken x (CancelOrderM m) = [CancelledM \<lparr>cl_account_id = co_account_id m, cl_client_order_id = co_client_order_id m,
     cl_exchange_order_id = x, cl_instrument_id = co_instrument_id m\<rparr>]"
| "taken x _ = []"

definition answered :: "ExchangeOrderId \<Rightarrow> Message list \<Rightarrow> TraderRiskGatedOms \<Rightarrow> TraderRiskGatedOms" where
  "answered x ms g = fold (\<lambda>m g. fst (gated_handle_message m g)) (concat (map (taken x) ms)) g"

definition on_target :: "Price option \<Rightarrow> RestingQuote \<times> TraderRiskGatedOms \<Rightarrow> bool" where
  \<comment> \<open>the order stands where it is wanted, in full size, or is gone where none is wanted\<close>
  "on_target desired st \<longleftrightarrow>
     (let (rq, g) = st;
          order = (case rq_order_id rq of None \<Rightarrow> None | Some c \<Rightarrow> gated_order c g)
      in case desired of
           None \<Rightarrow> (case order of None \<Rightarrow> True | Some r \<Rightarrow> is_terminal (ord_state r))
         | Some p \<Rightarrow>
             (case order of
                None \<Rightarrow> False
              | Some r \<Rightarrow> is_live (ord_state r) \<and> settled r \<and> ord_remaining_quantity r = rq_size rq \<and>
                  (ord_price r = p \<or> sless (abs_diff (ord_price r) p) (rq_requote_threshold rq))))"

lemma answered_new:
  assumes "gated_order c g = Some (pending_order a c i sd p q t tif)"
  shows "\<exists>r. gated_order c (answered x [NewOrderM \<lparr>no_account_id = a, no_client_order_id = c, no_instrument_id = i, no_side = sd,
      no_price = p, no_quantity = q, no_order_type = t, no_time_in_force = tif\<rparr>] g) = Some r \<and>
    ord_state r = Live \<and> ord_pending_action r = NoAction \<and> ord_remaining_quantity r = q \<and> ord_price r = p"
  using assms by (simp add: answered_def gated_handle_message_def on_accepted_def gated_order_def oms_order_def pending_order_def Let_def)

lemma answered_replace:
  assumes "gated_order c g = Some r" "gated_order c' g = Some (pending_order a c' i sd p q t tif)" "c \<noteq> c'"
  shows "\<exists>r. gated_order c' (answered x [ReplaceOrderM \<lparr>rp_account_id = a, rp_original_client_order_id = c, rp_new_client_order_id = c',
      rp_instrument_id = i, rp_new_price = p, rp_new_quantity = q\<rparr>] g) = Some r \<and>
    ord_state r = Live \<and> ord_pending_action r = NoAction \<and> ord_remaining_quantity r = q \<and> ord_price r = p"
  using assms
  by (simp add: answered_def gated_handle_message_def on_replaced_def gated_order_def oms_order_def pending_order_def Let_def split: prod.splits)

lemma answered_cancel:
  assumes "gated_order c g = Some r"
  shows "\<exists>r. gated_order c (answered x [CancelOrderM \<lparr>co_account_id = a, co_client_order_id = c, co_instrument_id = i\<rparr>] g) = Some r \<and>
    ord_state r = CancelledOrder"
  using assms by (simp add: answered_def gated_handle_message_def on_cancelled_def gated_order_def oms_order_def Let_def)

lemma answered_nothing [simp]: "answered x [] g = g"
  by (simp add: answered_def)

lemma quote_untracked: "rq_order_id rq = None \<Longrightarrow> rq\<lparr>rq_order_id := None\<rparr> = rq"
  by (cases rq) simp

lemma submit_reaches:
  assumes "connected sender" "fresh_id g" "quote_submit sender desired (rq, g) = (b, (rq', g'), s)" "rq_order_id rq = None"
    "desired = None \<or> rq_order_id rq' \<noteq> None"
  shows "on_target desired (rq', answered x (fst s) g')"
proof (cases desired)
  case None
  then show ?thesis using assms by (simp add: quote_submit_def on_target_def)
next
  case (Some p)
  obtain outcome gs msg ns where o: "gated_submit sender (rq_instrument_id rq) (rq_side rq) p (rq_size rq) Limit GTC g = (outcome, gs, msg, ns)"
    by (cases "gated_submit sender (rq_instrument_id rq) (rq_side rq) p (rq_size rq) Limit GTC g")
  then obtain c where c: "so_client_order_id outcome = Some c" "rq' = rq\<lparr>rq_order_id := Some c\<rparr>" "g' = gs" "s = (of_option msg, ns)"
    using assms(3,5) Some by (auto simp: quote_submit_def)
  have new: "gated_order c gs = Some (pending_order (om_account_id (tg_oms g)) c (rq_instrument_id rq) (rq_side rq) p (rq_size rq) Limit GTC)"
    "fst s = [NewOrderM \<lparr>no_account_id = om_account_id (tg_oms g), no_client_order_id = c, no_instrument_id = rq_instrument_id rq,
       no_side = rq_side rq, no_price = p, no_quantity = rq_size rq, no_order_type = Limit, no_time_in_force = GTC\<rparr>]"
    using gated_submit_sent [OF assms(1,2) o] c by (auto simp: of_option_def)
  show ?thesis
    using answered_new [OF new(1), of x] unfolding new(2) by (auto simp: Some on_target_def c is_live_def settled_def)
qed

lemma update_reaches:
  assumes "connected sender" "fresh_id g" "quote_update sender desired (rq, g) = (b, (rq', g'), s)" "\<not> waiting (rq, g)"
    "desired = None \<or> rq_order_id rq' \<noteq> None"
  shows "on_target desired (rq', answered x (fst s) g')"
proof (cases "\<exists>c r. rq_order_id rq = Some c \<and> gated_order c g = Some r \<and> \<not> is_terminal (ord_state r)")
  case False
  then have gone: "case gated_order c g of None \<Rightarrow> True | Some r \<Rightarrow> is_terminal (ord_state r)" if "rq_order_id rq = Some c" for c
    using that by (simp split: option.split)
  have "quote_submit sender desired (rq\<lparr>rq_order_id := None\<rparr>, g) = (b, (rq', g'), s)"
  proof (cases "rq_order_id rq")
    case None
    show ?thesis unfolding quote_untracked [OF None] using assms(3) None by (simp add: quote_update_def)
  next
    case (Some c)
    then show ?thesis using assms(3) gone [OF Some] by (simp add: quote_update_def Let_def)
  qed
  then show ?thesis using submit_reaches [OF assms(1,2)] assms(5) by simp
next
  case True
  then obtain c r where r: "rq_order_id rq = Some c" "gated_order c g = Some r" "\<not> is_terminal (ord_state r)" "settled r"
    using assms(4) by (auto simp: waiting_def)
  show ?thesis
  proof (cases desired)
    case None
    obtain gc where gc: "gated_cancel sender c g = (True, gc, Some (CancelOrderM \<lparr>co_account_id = om_account_id (tg_oms g), co_client_order_id = c,
        co_instrument_id = ord_instrument_id r\<rparr>))" "gated_order c gc = Some (r\<lparr>ord_pending_action := CancelPending\<rparr>)"
      by (rule gated_cancel_sent [OF assms(1) r(2,4,3)])
    have "rq' = rq" "g' = gc" "fst s = [CancelOrderM \<lparr>co_account_id = om_account_id (tg_oms g), co_client_order_id = c,
        co_instrument_id = ord_instrument_id r\<rparr>]"
      using assms(3) r gc(1) None by (auto simp: quote_update_def of_option_def)
    then show ?thesis using answered_cancel [OF gc(2), of x "om_account_id (tg_oms g)" "ord_instrument_id r"] r(1) None
      by (auto simp: on_target_def)
  next
    case (Some p)
    show ?thesis
    proof (cases "sless (abs_diff (ord_price r) p) (rq_requote_threshold rq) \<and> ord_remaining_quantity r = rq_size rq")
      case True
      then show ?thesis
        using assms(3) r Some settled_live [OF r(4,3)] by (auto simp: quote_update_def on_target_def no_request_def)
    next
      case False
      let ?c = "om_next_client_order_id (tg_oms g)"
      obtain gr where gr: "gated_replace sender c p (rq_size rq) g = (Some ?c, gr, Some (ReplaceOrderM \<lparr>rp_account_id = om_account_id (tg_oms g),
            rp_original_client_order_id = c, rp_new_client_order_id = ?c, rp_instrument_id = ord_instrument_id r, rp_new_price = p,
            rp_new_quantity = rq_size rq\<rparr>))"
        "gated_order c gr = Some (r\<lparr>ord_pending_action := ReplacePending\<rparr>)" "c \<noteq> ?c"
        "gated_order ?c gr = Some (pending_order (om_account_id (tg_oms g)) ?c (ord_instrument_id r) (ord_side r) p (rq_size rq)
          (ord_order_type r) (ord_time_in_force r))"
        by (rule gated_replace_sent [OF assms(1,2) r(2,4,3)])
      have "rq' = rq\<lparr>rq_order_id := Some ?c\<rparr>" "g' = gr" "fst s = [ReplaceOrderM \<lparr>rp_account_id = om_account_id (tg_oms g),
            rp_original_client_order_id = c, rp_new_client_order_id = ?c, rp_instrument_id = ord_instrument_id r, rp_new_price = p,
            rp_new_quantity = rq_size rq\<rparr>]"
        using assms(3) r gr(1) Some False by (auto simp: quote_update_def of_option_def)
      then show ?thesis
        using answered_replace [OF gr(2,4,3), of x] Some by (auto simp: on_target_def is_live_def settled_def)
    qed
  qed
qed

section \<open>The exchange refuses\<close>

text \<open>
  A replace that is refused (for lack of funds, or because the order was just filled) is reported for the original order
  alone. The replacement keeps waiting for an answer that never comes, and the quote with it: whatever is wanted later,
  nothing is sent, while the original order keeps resting at its old price.
\<close>

lemma a_refused_replace_silences_the_quote:
  assumes "connected sender" "fresh_id g" "quote_update sender (Some p) (rq, g) = (True, (rq', g'), s)"
    "rq_order_id rq = Some c" "gated_order c g = Some r" "settled r" "\<not> is_terminal (ord_state r)" "rj_client_order_id refusal = c"
  shows "\<exists>r'. gated_order c (fst (gated_handle_message (RejectedM refusal) g')) = Some r' \<and> is_live (ord_state r') \<and> settled r' \<and>
    ord_price r' = ord_price r \<and> rq_order_id rq' \<noteq> Some c \<and>
    quote_update sender' desired (rq', fst (gated_handle_message (RejectedM refusal) g')) =
      (False, (rq', fst (gated_handle_message (RejectedM refusal) g')), no_request)"
proof -
  let ?c = "om_next_client_order_id (tg_oms g)"
  obtain gr msg where gr: "gated_replace sender c p (rq_size rq) g = (Some ?c, gr, Some msg)"
    "gated_order c gr = Some (r\<lparr>ord_pending_action := ReplacePending\<rparr>)" "c \<noteq> ?c"
    "gated_order ?c gr = Some (pending_order (om_account_id (tg_oms g)) ?c (ord_instrument_id r) (ord_side r) p (rq_size rq)
      (ord_order_type r) (ord_time_in_force r))"
    by (rule gated_replace_sent [OF assms(1,2,5,6,7)]) (rule that)
  have q: "rq' = rq\<lparr>rq_order_id := Some ?c\<rparr>" "g' = gr"
    using assms(3-7) gr(1) by (auto simp: quote_update_def split: if_splits)
  let ?g = "fst (gated_handle_message (RejectedM refusal) g')"
  have l: "is_live (ord_state r)" using settled_live [OF assms(6,7)] by simp
  have "\<exists>r'. gated_order c ?g = Some r' \<and> is_live (ord_state r') \<and> settled r' \<and> ord_price r' = ord_price r"
    using gr(2) l assms(8) q(2)
    by (auto simp: gated_handle_message_def on_rejected_def gated_order_def oms_order_def settled_def is_live_def Let_def)
  moreover have "gated_order ?c ?g = gated_order ?c gr"
    using gr(2,3) assms(8) q(2)
    by (auto simp: gated_handle_message_def on_rejected_def gated_order_def oms_order_def Let_def split: option.splits prod.splits)
  then have "waiting (rq', ?g)"
    using gr(4) q(1) pending_waits by (simp add: waiting_def)
  ultimately show ?thesis using waiting_sends_nothing [of "(rq', ?g)" sender' desired] q(1) gr(3) by auto
qed

section \<open>Momentum\<close>

lemma headroom_fits:
  assumes "0 \<le> sint (oc_max_position config)" "sint (oc_max_position config) < 2 ^ 62" "\<bar>sint net_position\<bar> < 2 ^ 62" "headroom config net_position sd \<noteq> 0"
  shows "headroom config net_position sd \<le> oc_trade_size config"
    "(if sd = Buy then sint net_position + uint (headroom config net_position sd) \<le> sint (oc_max_position config)
      else - sint (oc_max_position config) \<le> sint net_position - uint (headroom config net_position sd))"
proof -
  define room where "room = (if sd = Buy then oc_max_position config - net_position else oc_max_position config + net_position)"
  have h: "headroom config net_position sd = (if sle room 0 then 0 else min (oc_trade_size config) room)"
    by (simp add: headroom_def room_def Let_def)
  have pos: "\<not> sle room 0" using assms(4) h by auto
  have r: "sint room = (if sd = Buy then sint (oc_max_position config) - sint net_position else sint (oc_max_position config) + sint net_position)"
    using assms(1-3) by (auto simp: room_def sint_plus_64 sint_minus_64)
  have "uint (word_of_int (sint room) :: u64) = sint room"
    by (rule uint_word_of_int_64) (use pos sint_bounds_64 [of room] in \<open>simp_all add: sle_sint\<close>)
  then have u: "uint room = sint room" by simp
  have le: "headroom config net_position sd \<le> room" using h pos by simp
  show "headroom config net_position sd \<le> oc_trade_size config" using h pos by simp
  show "if sd = Buy then sint net_position + uint (headroom config net_position sd) \<le> sint (oc_max_position config)
      else - sint (oc_max_position config) \<le> sint net_position - uint (headroom config net_position sd)"
    using le u r by (auto simp: word_le_def)
qed

lemma gated_submit_message:
  assumes "gated_submit sender i sd p q t tif g = (outcome, g', msg, ns)"
  shows "msg = None \<or> (\<exists>c. msg = Some (NewOrderM \<lparr>no_account_id = om_account_id (tg_oms g), no_client_order_id = c, no_instrument_id = i,
    no_side = sd, no_price = p, no_quantity = q, no_order_type = t, no_time_in_force = tif\<rparr>))"
  using assms by (auto simp: gated_submit_def submit_new_order_def Let_def split: if_splits prod.splits)

definition observed :: "OrderBook \<Rightarrow> MomentumStrategy \<Rightarrow> MomentumStrategy" where
  \<comment> \<open>the window after the midpoint of the book\<close>
  "observed book mo =
     mo\<lparr>mo_mids := trim_front (oc_lookback (mo_config mo) + 1) (mo_mids mo @ [midpoint (the (best_bid book)) (the (best_ask book))])\<rparr>"

lemma observed_signal: "momentum_signal (mo\<lparr>mo_updates_seen := n, mo_mids := ms\<rparr>) = momentum_signal (mo\<lparr>mo_mids := ms\<rparr>)"
  by (simp add: momentum_signal_def)

lemma momentum_acts:
  assumes "momentum_on_book_update sender net_position i book mo = (mo', s)" "fst s \<noteq> []"
  obtains sig p q sd c where "momentum_signal (observed book mo) = Some sig" "oc_cooldown_updates (mo_config mo) < mo_updates_since_order mo + 1"
    "momentum_order (mo_config mo) net_position sig (the (best_bid book)) (the (best_ask book)) = Some (sd, p, q)"
    "fst s = [NewOrderM \<lparr>no_account_id = om_account_id (tg_oms (mo_trading mo)), no_client_order_id = c,
      no_instrument_id = oc_instrument (mo_config mo), no_side = sd, no_price = p, no_quantity = q, no_order_type = Limit, no_time_in_force = IOC\<rparr>]"
    "mo_updates_since_order mo' = 0" "mo_config mo' = mo_config mo"
proof -
  let ?mo = "mo\<lparr>mo_updates_seen := mo_updates_seen mo + 1,
    mo_mids := trim_front (oc_lookback (mo_config mo) + 1) (mo_mids mo @ [midpoint (the (best_bid book)) (the (best_ask book))])\<rparr>"
  obtain bid ask where book: "best_bid book = Some bid" "best_ask book = Some ask" and i: "i = oc_instrument (mo_config mo)"
    using assms by (auto simp: momentum_on_book_update_def no_request_def Let_def split: if_splits option.splits)
  obtain sig where sig: "momentum_signal ?mo = Some sig"
    using assms book by (auto simp: momentum_on_book_update_def no_request_def Let_def split: if_splits option.splits)
  have cool: "\<not> mo_updates_since_order mo + 1 \<le> oc_cooldown_updates (mo_config mo)"
    using assms book sig i by (auto simp: momentum_on_book_update_def no_request_def Let_def)
  obtain sd p q where ord: "momentum_order (mo_config mo) net_position sig bid ask = Some (sd, p, q)"
    using assms book sig i cool by (auto simp: momentum_on_book_update_def no_request_def Let_def split: option.splits)
  obtain outcome g msg ns where sub: "gated_submit sender (oc_instrument (mo_config mo)) sd p q Limit IOC (mo_trading mo) = (outcome, g, msg, ns)"
    by (cases "gated_submit sender (oc_instrument (mo_config mo)) sd p q Limit IOC (mo_trading mo)")
  have out: "fst s = of_option msg" "mo_updates_since_order mo' = 0" "mo_config mo' = mo_config mo"
    using assms(1) book sig i cool ord sub by (auto simp: momentum_on_book_update_def Let_def)
  then obtain c where "msg = Some (NewOrderM \<lparr>no_account_id = om_account_id (tg_oms (mo_trading mo)), no_client_order_id = c,
      no_instrument_id = oc_instrument (mo_config mo), no_side = sd, no_price = p, no_quantity = q, no_order_type = Limit, no_time_in_force = IOC\<rparr>)"
    using gated_submit_message [OF sub] assms(2) by (auto simp: of_option_def)
  then show thesis
    using that [of sig sd p q c] sig cool ord out book by (simp add: observed_def observed_signal of_option_def not_le)
qed

text \<open>The net position is the one of the fills reported so far: orders still under way do not count against the cap.\<close>

lemma fills_under_way_pass_the_cap:
  "\<exists>config p q. oc_max_position config = 500 \<and> momentum_order config 0 200 \<lparr>pv_price = 10000, pv_aggregate_quantity = 900, pv_order_count = 1\<rparr>
      \<lparr>pv_price = 10002, pv_aggregate_quantity = 900, pv_order_count = 1\<rparr> = Some (Buy, p, q) \<and> sint (oc_max_position config) < uint q + uint q"
  by (rule exI [of _ "\<lparr>oc_instrument = 1, oc_lookback = 20, oc_entry_threshold = 100, oc_trade_size = 300, oc_max_position = 500,
      oc_cross_slack = 100, oc_cooldown_updates = 20\<rparr>"]) (simp add: momentum_order_def headroom_def sle_sint Let_def)

section \<open>The ladder\<close>

fun asked :: "Message \<Rightarrow> (Side option \<times> Price) option" where
  \<comment> \<open>the price a request asks for; a replace keeps the side of its order\<close>
  "asked (NewOrderM m) = Some (Some (no_side m), no_price m)"
| "asked (ReplaceOrderM m) = Some (None, rp_new_price m)"
| "asked _ = None"

definition asks_within :: "Side \<Rightarrow> Price option \<Rightarrow> Message \<Rightarrow> bool" where
  "asks_within sd desired msg \<longleftrightarrow> (case asked msg of None \<Rightarrow> True | Some (side, p) \<Rightarrow> desired = Some p \<and> (side = None \<or> side = Some sd))"

lemma cancel_asks: "gated_cancel sender c g = (b, g', Some msg) \<Longrightarrow> asks_within sd desired msg"
  by (auto simp: gated_cancel_def OrderManagement.cancel_order_def asks_within_def Let_def split: option.splits if_splits prod.splits)

lemma replace_asks: "gated_replace sender c p q g = (new_id, g', Some msg) \<Longrightarrow> asks_within sd (Some p) msg"
  by (auto simp: gated_replace_def replace_order_def asks_within_def Let_def split: option.splits if_splits prod.splits)

lemma submit_asks: "gated_submit sender i sd p q t tif g = (outcome, g', Some msg, ns) \<Longrightarrow> asks_within sd (Some p) msg"
  using gated_submit_message [of sender i sd p q t tif g outcome g' "Some msg" ns] by (auto simp: asks_within_def)

definition quote_step_ok :: "RestingQuote \<Rightarrow> Price option \<Rightarrow> bool \<times> (RestingQuote \<times> TraderRiskGatedOms) \<times> Sent \<Rightarrow> bool" where
  "quote_step_ok rq desired r \<longleftrightarrow>
     (case r of (b, (rq', g'), s) \<Rightarrow> rq_side rq' = rq_side rq \<and> length (fst s) \<le> 1 \<and> list_all (asks_within (rq_side rq) desired) (fst s))"

lemma quote_submit_asks:
  assumes "rq_side rq = rq_side rq0"
  shows "quote_step_ok rq0 desired (quote_submit sender desired (rq, g))"
proof (cases desired)
  case (Some p)
  obtain outcome g' msg ns where o: "gated_submit sender (rq_instrument_id rq) (rq_side rq) p (rq_size rq) Limit GTC g = (outcome, g', msg, ns)"
    by (cases "gated_submit sender (rq_instrument_id rq) (rq_side rq) p (rq_size rq) Limit GTC g")
  then show ?thesis using Some assms submit_asks [of sender "rq_instrument_id rq" "rq_side rq" p "rq_size rq" Limit GTC g outcome g' _ ns]
    by (cases msg) (auto simp: quote_submit_def quote_step_ok_def of_option_def)
qed (use assms in \<open>simp add: quote_submit_def quote_step_ok_def no_request_def\<close>)

lemma quote_update_asks: "quote_step_ok rq desired (quote_update sender desired (rq, g))"
proof (cases "\<exists>c r. rq_order_id rq = Some c \<and> gated_order c g = Some r \<and> \<not> is_terminal (ord_state r)")
  case False
  then have gone: "case gated_order c g of None \<Rightarrow> True | Some r \<Rightarrow> is_terminal (ord_state r)" if "rq_order_id rq = Some c" for c
    using that by (simp split: option.split)
  show ?thesis
  proof (cases "rq_order_id rq")
    case None
    then show ?thesis using quote_submit_asks [of rq rq] by (simp add: quote_update_def)
  next
    case (Some c)
    then show ?thesis using gone [OF Some] quote_submit_asks [of "rq\<lparr>rq_order_id := None\<rparr>" rq] by (simp add: quote_update_def Let_def)
  qed
next
  case True
  then obtain c r where r: "rq_order_id rq = Some c" "gated_order c g = Some r" "\<not> is_terminal (ord_state r)" by blast
  obtain b gc msg where gc: "gated_cancel sender c g = (b, gc, msg)" by (cases "gated_cancel sender c g")
  obtain new_id gr msg' p where gr: "gated_replace sender c (the desired) (rq_size rq) g = (new_id, gr, msg')"
    by (cases "gated_replace sender c (the desired) (rq_size rq) g")
  have "list_all (asks_within (rq_side rq) desired) (of_option msg)" using cancel_asks [of sender c g b gc] gc by (cases msg) (auto simp: of_option_def)
  moreover have "list_all (asks_within (rq_side rq) desired) (of_option msg')" if "desired \<noteq> None"
    using replace_asks [of sender c "the desired" "rq_size rq" g new_id gr] gr that by (cases msg') (auto simp: of_option_def)
  moreover have "length (of_option x) \<le> 1" for x :: "Message option" by (cases x) (simp_all add: of_option_def)
  ultimately show ?thesis
    using r gc gr by (cases new_id) (auto simp: quote_update_def quote_step_ok_def no_request_def split: option.split)
qed

lemma update_levels_asks:
  assumes "update_levels sender desired level qs g = (n, (qs', g'), s)" "list_all (\<lambda>q. rq_side q = sd) qs"
  shows "list_all (\<lambda>q. rq_side q = sd) qs' \<and> length qs' = length qs \<and> length (fst s) \<le> length qs \<and>
    (\<forall>msg \<in> set (fst s). \<exists>k < length qs. asks_within sd (desired (level + k)) msg)"
  using assms
proof (induction qs arbitrary: level g n qs' g' s)
  case (Cons q qs)
  obtain b q1 g1 s1 where q: "quote_update sender (desired level) (q, g) = (b, (q1, g1), s1)"
    by (metis prod.exhaust)
  obtain n2 qs2 g2 s2 where u: "update_levels sender desired (Suc level) qs g1 = (n2, (qs2, g2), s2)"
    by (metis prod.exhaust)
  have r: "qs' = q1 # qs2" "fst s = fst s1 @ fst s2" using Cons.prems(1) q u by (auto simp: also_sent_def)
  have one: "rq_side q1 = sd" "length (fst s1) \<le> 1" "\<forall>msg \<in> set (fst s1). asks_within sd (desired level) msg"
    using quote_update_asks [of q "desired level" sender g] q Cons.prems(2) by (auto simp: quote_step_ok_def list_all_iff)
  have ih: "list_all (\<lambda>q. rq_side q = sd) qs2" "length qs2 = length qs" "length (fst s2) \<le> length qs"
    "\<forall>msg \<in> set (fst s2). \<exists>k < length qs. asks_within sd (desired (Suc level + k)) msg"
    using Cons.IH [OF u] Cons.prems(2) by simp_all
  have "\<exists>k < length (q # qs). asks_within sd (desired (level + k)) msg" if m: "msg \<in> set (fst s)" for msg
  proof (cases "msg \<in> set (fst s1)")
    case True
    then show ?thesis using one(3) by (intro exI [of _ 0]) simp
  next
    case False
    then obtain k where "k < length qs" "asks_within sd (desired (Suc level + k)) msg" using m r(2) ih(4) by auto
    then show ?thesis by (intro exI [of _ "Suc k"]) simp
  qed
  then show ?case using r one ih by simp
qed (auto simp: no_request_def)

definition ladder_ok :: "LadderMarketMaker \<Rightarrow> bool" where
  "ladder_ok lm \<longleftrightarrow> list_all (\<lambda>q. rq_side q = Buy) (lm_bids lm) \<and> list_all (\<lambda>q. rq_side q = Sell) (lm_asks lm) \<and>
     length (lm_bids lm) = lc_levels_per_side (lm_config lm) \<and> length (lm_asks lm) = lc_levels_per_side (lm_config lm) \<and>
     sle (wc_min_price (pw_config (lm_walk lm))) (wc_max_price (pw_config (lm_walk lm)))"

lemma walk_in_range:
  assumes "walk_step direction w = (p, w')" "sle (wc_min_price (pw_config w)) (wc_max_price (pw_config w))"
  shows "pw_price w' = p" "sle (wc_min_price (pw_config w)) p" "sle p (wc_max_price (pw_config w))" "pw_config w' = pw_config w"
  using assms by (auto simp: walk_step_def Let_def smin_def smax_def signed_cmp)

definition rung :: "LadderMarketMakerConfig \<Rightarrow> i64 \<Rightarrow> Price \<Rightarrow> Message \<Rightarrow> bool" where
  \<comment> \<open>the request is a cancel, or asks for a price of a side that is not at its cap\<close>
  "rung config net_position reference msg \<longleftrightarrow>
     asked msg = None \<or>
     (\<exists>level < lc_levels_per_side config.
        sless net_position (lc_max_position config) \<and> asks_within Buy (Some (bid_price_for config level reference)) msg \<or>
        sless (- lc_max_position config) net_position \<and> asks_within Sell (Some (ask_price_for config level reference)) msg)"

lemma bid_rung:
  assumes "asks_within Buy (if sle (lc_max_position config) pos then None else Some (bid_price_for config k reference)) msg"
    "k < lc_levels_per_side config"
  shows "rung config pos reference msg"
  using assms by (auto simp: rung_def asks_within_def signed_cmp not_le split: option.splits if_splits)

lemma ask_rung:
  assumes "asks_within Sell (if sle pos (- lc_max_position config) then None else Some (ask_price_for config k reference)) msg"
    "k < lc_levels_per_side config"
  shows "rung config pos reference msg"
  using assms by (auto simp: rung_def asks_within_def signed_cmp not_le split: option.splits if_splits)

lemma cycle_parts:
  assumes ok: "ladder_ok lm" and w: "walk_step direction (lm_walk lm) = (reference, walk)"
    and b: "update_levels sender (\<lambda>level. if sle (lc_max_position (lm_config lm)) pos then None else Some (bid_price_for (lm_config lm) level reference))
      0 (lm_bids lm) gb = (nb, (bids, gb'), sb)"
    and a: "update_levels sender (\<lambda>level. if sle pos (- lc_max_position (lm_config lm)) then None else Some (ask_price_for (lm_config lm) level reference))
      0 (lm_asks lm) ga = (na, (asks, ga'), sa)"
  shows "ladder_ok (lm\<lparr>lm_trading := g, lm_walk := walk, lm_bids := bids, lm_asks := asks\<rparr>)"
    "length (fst sb) + length (fst sa) \<le> 2 * lc_levels_per_side (lm_config lm)"
    "list_all (rung (lm_config lm) pos reference) (fst sb)" "list_all (rung (lm_config lm) pos reference) (fst sa)"
proof -
  have sides: "list_all (\<lambda>q. rq_side q = Buy) (lm_bids lm)" "list_all (\<lambda>q. rq_side q = Sell) (lm_asks lm)"
    "length (lm_bids lm) = lc_levels_per_side (lm_config lm)" "length (lm_asks lm) = lc_levels_per_side (lm_config lm)"
    "sle (wc_min_price (pw_config (lm_walk lm))) (wc_max_price (pw_config (lm_walk lm)))"
    using ok by (simp_all add: ladder_ok_def)
  note bs = update_levels_asks [OF b sides(1)] and asks = update_levels_asks [OF a sides(2)]
  show "ladder_ok (lm\<lparr>lm_trading := g, lm_walk := walk, lm_bids := bids, lm_asks := asks\<rparr>)"
    using bs asks sides walk_in_range(4) [OF w sides(5)] by (simp add: ladder_ok_def)
  show "length (fst sb) + length (fst sa) \<le> 2 * lc_levels_per_side (lm_config lm)" using bs asks sides by linarith
  show "list_all (rung (lm_config lm) pos reference) (fst sb)"
    unfolding list_all_iff
  proof
    fix msg
    assume "msg \<in> set (fst sb)"
    then obtain k where "k < lc_levels_per_side (lm_config lm)" "asks_within Buy (if sle (lc_max_position (lm_config lm)) pos then None
        else Some (bid_price_for (lm_config lm) (0 + k) reference)) msg" using bs sides(3) by auto
    then show "rung (lm_config lm) pos reference msg" using bid_rung by simp
  qed
  show "list_all (rung (lm_config lm) pos reference) (fst sa)"
    unfolding list_all_iff
  proof
    fix msg
    assume "msg \<in> set (fst sa)"
    then obtain k where "k < lc_levels_per_side (lm_config lm)" "asks_within Sell (if sle pos (- lc_max_position (lm_config lm)) then None
        else Some (ask_price_for (lm_config lm) (0 + k) reference)) msg" using asks sides(4) by auto
    then show "rung (lm_config lm) pos reference msg" using ask_rung by simp
  qed
qed

section \<open>Arbitrage\<close>

text \<open>
  The buying leg is sent before the other venue is asked: when the selling leg does not pass the trader's own check the
  position stays open, and the next update repeats it.
\<close>

lemma a_leg_can_go_alone:
  "\<exists>cv cv' m. evaluate (\<lambda>_. True) (\<lambda>_. True) cv = (cv', ([NewOrderM m], []), no_request) \<and> no_side m = Buy \<and>
    cv_a_best_ask cv = Some \<lparr>pv_price = 100, pv_aggregate_quantity = 50, pv_order_count = 1\<rparr> \<and>
    cv_b_best_bid cv = Some \<lparr>pv_price = 110, pv_aggregate_quantity = 50, pv_order_count = 1\<rparr>"
  by (rule exI [of _ "(new_cross_venue_arb (gated_deposit_cash 100000 (new_gated_oms 5 default_trader_limits)) (new_gated_oms 5 default_trader_limits)
        \<lparr>ac_instrument = 7, ac_trade_size = 10, ac_min_edge = 1\<rparr>)
      \<lparr>cv_a_best_ask := Some \<lparr>pv_price = 100, pv_aggregate_quantity = 50, pv_order_count = 1\<rparr>,
       cv_b_best_bid := Some \<lparr>pv_price = 110, pv_aggregate_quantity = 50, pv_order_count = 1\<rparr>\<rparr>"])
     (simp add: evaluate_def edge_def new_cross_venue_arb_def arb_leg_def gated_submit_def trader_check_def gated_deposit_cash_def new_gated_oms_def
       default_trader_limits_def tracker_cash_def tracker_position_def tracker_deposit_cash_def account_position_def no_position_def
       submit_new_order_def new_oms_def of_option_def no_request_def signed_cmp Let_def)

section \<open>The market maker on the feed\<close>

definition sized :: "MarketMakerConfig \<Rightarrow> Message \<Rightarrow> bool" where
  "sized config msg \<longleftrightarrow>
     (case msg of
        NewOrderM m \<Rightarrow> no_instrument_id m = mc_instrument_id config \<and> no_quantity m = mc_quote_size config
      | ReplaceOrderM m \<Rightarrow> rp_new_quantity m = mc_quote_size config
      | _ \<Rightarrow> True)"

lemma submit_sized:
  "gated_submit sender (mc_instrument_id config) sd p (mc_quote_size config) t tif g = (outcome, g', Some msg, ns) \<Longrightarrow> sized config msg"
  using gated_submit_message [of sender "mc_instrument_id config" sd p "mc_quote_size config" t tif g outcome g' "Some msg" ns]
  by (auto simp: sized_def)

lemma replace_sized: "gated_replace sender c p (mc_quote_size config) g = (new_id, g', Some msg) \<Longrightarrow> sized config msg"
  by (auto simp: gated_replace_def replace_order_def sized_def Let_def split: option.splits if_splits prod.splits)

lemma cancel_sized: "gated_cancel sender c g = (b, g', Some msg) \<Longrightarrow> sized config msg"
  by (auto simp: gated_cancel_def OrderManagement.cancel_order_def sized_def Let_def split: option.splits if_splits prod.splits)

lemma update_side_sized:
  assumes "update_side sender config sd order_id desired g = (order_id', g', s)"
  shows "list_all (sized config) (fst s)"
proof -
  have one: "list_all (sized config) (of_option msg)" if "\<And>m. msg = Some m \<Longrightarrow> sized config m" for msg
    using that by (cases msg) (auto simp: of_option_def)
  show ?thesis
    using assms
    by (auto simp: update_side_def Let_def no_request_def split: option.splits if_splits prod.splits
        intro!: one dest: submit_sized replace_sized cancel_sized)
qed

lemma maker_sized:
  assumes "market_maker_on_book_update sender i book mm = (mm', s)"
  shows "mm_config mm' = mm_config mm \<and> list_all (sized (mm_config mm)) (fst s)"
  using assms
  by (auto simp: market_maker_on_book_update_def Let_def no_request_def also_sent_def split: option.splits if_splits prod.splits dest!: update_side_sized)

definition book_update_sink :: "Sender \<Rightarrow> (MarketMakerStrategy \<times> Message list) BookUpdateSink" where
  \<comment> \<open>the callback, with the requests it sends\<close>
  "book_update_sink sender instrument_id book w =
     (case w of (mm, out) \<Rightarrow> case market_maker_on_book_update sender instrument_id book mm of (mm', s) \<Rightarrow> (mm', out @ fst s))"

interpretation maker: book_listener "subscribe place i (book_update_sink sender) new_strategy_runtime"
    "\<lambda>(mm, out). mm_config mm = config \<and> list_all (sized config) out" for place i sender config
proof
  fix sink iid b and w :: "MarketMakerStrategy \<times> Message list"
  assume "sink \<in> set (sr_sinks (subscribe place i (book_update_sink sender) new_strategy_runtime) iid)"
    and P: "case w of (mm, out) \<Rightarrow> mm_config mm = config \<and> list_all (sized config) out"
  then have "sink = book_update_sink sender" by (auto simp: subscribe_def new_strategy_runtime_def split: if_splits)
  then show "case sink iid b w of (mm, out) \<Rightarrow> mm_config mm = config \<and> list_all (sized config) out"
    using P maker_sized [of sender iid b "fst w"] by (auto simp: book_update_sink_def split: prod.splits)
qed

text \<open>Whatever arrives on the feed, a market maker behind it asks for its quote size on its own instrument only.\<close>

lemma any_traffic_makes_sized_quotes:
  "\<exists>fs mm out. receive_loop files (subscribe place i (book_update_sink sender) new_strategy_runtime) received
      (new_feed_subscriber options, new_market_maker g config, []) = Some (fs, mm, out) \<and> list_all (sized config) out"
  using maker.loop_kept [where fs = "new_feed_subscriber options" and w = "(new_market_maker g config, [])" and config = config
      and files = files and place = place and i = i and sender = sender and batches = received] new_sound
  by (auto simp: new_feed_subscriber_def new_replay_result_def new_market_maker_def)

section \<open>Properties\<close>

text \<open>
  C38. A quote asks once and reaches its price: over a connection that works, an update sends nothing, or exactly one request
  and then nothing more, whatever is wanted, until a report comes. When the exchange takes the request (and the trader's
  check let it pass), the order then stands where it is wanted, live and in full size, or is gone where none is wanted.
\<close>

theorem a_quote_asks_once_and_reaches_its_price:
  assumes "connected sender" "fresh_id g" "quote_update sender desired (rq, g) = (b, (rq', g'), s)"
  shows "(\<not> b \<longrightarrow> s = no_request) \<and>
    (b \<longrightarrow> length (fst s) = 1 \<and> quote_update sender' desired' (rq', g') = (False, (rq', g'), no_request)) \<and>
    (\<not> waiting (rq, g) \<and> (desired = None \<or> rq_order_id rq' \<noteq> None) \<longrightarrow> on_target desired (rq', answered x (fst s) g'))"
  using update_waits [OF assms] update_reaches [OF assms] waiting_sends_nothing [of "(rq', g')" sender' desired'] by blast

definition sample_quote :: RestingQuote where
  "sample_quote = new_resting_quote 7 Buy 10 5"

definition sample_trading :: TraderRiskGatedOms where
  "sample_trading = gated_deposit_cash 100000 (new_gated_oms 5 default_trader_limits)"

lemma sample_quote_update:
  "\<exists>g' m. quote_update (\<lambda>_. True) (Some 100) (sample_quote, sample_trading) = (True, (sample_quote\<lparr>rq_order_id := Some 1\<rparr>, g'), ([NewOrderM m], []))"
  by (simp add: quote_update_def quote_submit_def sample_quote_def new_resting_quote_def sample_trading_def gated_submit_def trader_check_def
      gated_deposit_cash_def new_gated_oms_def default_trader_limits_def tracker_cash_def tracker_deposit_cash_def account_position_def
      no_position_def submit_new_order_def new_oms_def of_option_def signed_cmp Let_def)

theorem a_quote_asks_once_and_reaches_its_price_witness:
  "\<exists>rq' g' m. quote_update (\<lambda>_. True) (Some 100) (sample_quote, sample_trading) = (True, (rq', g'), ([NewOrderM m], [])) \<and>
    quote_update (\<lambda>_. True) (Some 200) (rq', g') = (False, (rq', g'), no_request) \<and>
    on_target (Some 100) (rq', answered 42 [NewOrderM m] g')"
proof -
  obtain g' m where u: "quote_update (\<lambda>_. True) (Some 100) (sample_quote, sample_trading) =
      (True, (sample_quote\<lparr>rq_order_id := Some 1\<rparr>, g'), ([NewOrderM m], []))" using sample_quote_update by blast
  have start: "connected (\<lambda>_. True)" "fresh_id sample_trading" "\<not> waiting (sample_quote, sample_trading)"
    by (simp_all add: connected_def fresh_id_def sample_trading_def gated_deposit_cash_def new_gated_oms_def new_oms_def gated_order_def oms_order_def
        waiting_def sample_quote_def new_resting_quote_def)
  note q = a_quote_asks_once_and_reaches_its_price [OF start(1,2) u, of "\<lambda>_. True" "Some 200" 42]
  have "quote_update (\<lambda>_. True) (Some 200) (sample_quote\<lparr>rq_order_id := Some 1\<rparr>, g') = (False, (sample_quote\<lparr>rq_order_id := Some 1\<rparr>, g'), no_request)"
    "on_target (Some 100) (sample_quote\<lparr>rq_order_id := Some 1\<rparr>, answered 42 [NewOrderM m] g')"
    using q start(3) by simp_all
  then show ?thesis using u by blast
qed

text \<open>
  C39. Momentum's orders fit its cap: on a book update it sends nothing, or one immediate-or-cancel order in the direction of
  the signal, after the cooldown, of at most the trade size, and small enough that the net position stays within
  \<open>max_position\<close> on either side.
\<close>

theorem momentum_orders_fit_the_cap:
  assumes "momentum_on_book_update sender net_position i book mo = (mo', s)" "fst s \<noteq> []"
    "0 \<le> sint (oc_max_position (mo_config mo))" "sint (oc_max_position (mo_config mo)) < 2 ^ 62" "\<bar>sint net_position\<bar> < 2 ^ 62"
  shows "\<exists>m sig. fst s = [NewOrderM m] \<and> no_time_in_force m = IOC \<and> momentum_signal (observed book mo) = Some sig \<and>
    oc_cooldown_updates (mo_config mo) < mo_updates_since_order mo + 1 \<and> mo_updates_since_order mo' = 0 \<and>
    0 < no_quantity m \<and> no_quantity m \<le> oc_trade_size (mo_config mo) \<and>
    (if no_side m = Buy
     then sle (oc_entry_threshold (mo_config mo)) sig \<and> sint net_position + uint (no_quantity m) \<le> sint (oc_max_position (mo_config mo))
     else sle sig (- oc_entry_threshold (mo_config mo)) \<and> - sint (oc_max_position (mo_config mo)) \<le> sint net_position - uint (no_quantity m))"
proof -
  obtain sig p q sd c where m: "momentum_signal (observed book mo) = Some sig" "oc_cooldown_updates (mo_config mo) < mo_updates_since_order mo + 1"
    "momentum_order (mo_config mo) net_position sig (the (best_bid book)) (the (best_ask book)) = Some (sd, p, q)"
    "fst s = [NewOrderM \<lparr>no_account_id = om_account_id (tg_oms (mo_trading mo)), no_client_order_id = c,
      no_instrument_id = oc_instrument (mo_config mo), no_side = sd, no_price = p, no_quantity = q, no_order_type = Limit, no_time_in_force = IOC\<rparr>]"
    "mo_updates_since_order mo' = 0"
    by (rule momentum_acts [OF assms(1,2)]) (rule that)
  have q: "q = headroom (mo_config mo) net_position sd" "q \<noteq> 0" and
    sd: "if sd = Buy then sle (oc_entry_threshold (mo_config mo)) sig else sle sig (- oc_entry_threshold (mo_config mo))"
    using m(3) by (auto simp: momentum_order_def Let_def split: if_splits option.splits)
  show ?thesis
    using m(1,2,4,5) sd q(2) headroom_fits [OF assms(3-5) q(2) [unfolded q(1)]] unfolding q(1) [symmetric]
    by (auto simp: word_gt_0 split: if_splits)
qed

text \<open>The book of the samples: bid 10000, ask 10002, the midpoint 300 above the one two updates ago.\<close>

definition sample_level :: "Price \<Rightarrow> Levels" where
  "sample_level p = [(p, level_add 1 900 (new_price_level p))]"

definition sample_two_sided :: OrderBook where
  "sample_two_sided = new_order_book\<lparr>ob_bids := sample_level 10000, ob_asks := sample_level 10002\<rparr>"

definition sample_momentum :: MomentumStrategy where
  "sample_momentum = (new_momentum sample_trading
     \<lparr>oc_instrument = 7, oc_lookback = 2, oc_entry_threshold = 100, oc_trade_size = 8, oc_max_position = 5, oc_cross_slack = 1,
      oc_cooldown_updates = 0\<rparr>)\<lparr>mo_mids := [9701, 9800, 9900]\<rparr>"

theorem momentum_orders_fit_the_cap_witness:
  "\<exists>mo' s m. momentum_on_book_update (\<lambda>_. True) 1 7 sample_two_sided sample_momentum = (mo', s) \<and> fst s = [NewOrderM m] \<and>
    0 < no_quantity m \<and> no_quantity m \<le> 8"
proof -
  have b: "best_bid sample_two_sided = Some \<lparr>pv_price = 10000, pv_aggregate_quantity = 900, pv_order_count = 1\<rparr>"
    "best_ask sample_two_sided = Some \<lparr>pv_price = 10002, pv_aggregate_quantity = 900, pv_order_count = 1\<rparr>"
    by (simp_all add: sample_two_sided_def best_bid_def best_ask_def sample_level_def level_view_def level_add_def new_price_level_def new_order_book_def)
  obtain mo' s where u: "momentum_on_book_update (\<lambda>_. True) 1 7 sample_two_sided sample_momentum = (mo', s)" by (metis prod.exhaust)
  have "midpoint \<lparr>pv_price = 10000, pv_aggregate_quantity = 900, pv_order_count = 1\<rparr> \<lparr>pv_price = 10002, pv_aggregate_quantity = 900, pv_order_count = 1\<rparr> = 10001"
    by (simp add: midpoint_def sdiv_i64_def)
  then have "fst s \<noteq> []"
    using u b
    by (auto simp: momentum_on_book_update_def sample_momentum_def new_momentum_def momentum_signal_def momentum_order_def headroom_def
        gated_submit_def trader_check_def sample_trading_def gated_deposit_cash_def new_gated_oms_def default_trader_limits_def
        tracker_cash_def tracker_deposit_cash_def account_position_def no_position_def submit_new_order_def new_oms_def of_option_def
        signed_cmp Let_def)
  from momentum_orders_fit_the_cap [OF u this]
  show ?thesis using u by (auto simp: sample_momentum_def new_momentum_def)
qed

text \<open>
  C40. The ladder asks for its rungs: a quote cycle keeps the reference price in its range, sends at most one request per
  quote, and apart from cancels every request is for the price of a rung around the new reference price, on a side whose
  inventory cap is not reached.
\<close>

theorem ladder_asks_for_its_rungs:
  assumes "ladder_ok lm" "on_quote_cycle sender direction net_position lm = (n, lm', s)"
  shows "ladder_ok lm' \<and> sle (wc_min_price (pw_config (lm_walk lm))) (pw_price (lm_walk lm')) \<and>
    sle (pw_price (lm_walk lm')) (wc_max_price (pw_config (lm_walk lm))) \<and>
    length (fst s) \<le> 2 * lc_levels_per_side (lm_config lm) \<and>
    list_all (rung (lm_config lm) net_position (pw_price (lm_walk lm'))) (fst s)"
proof -
  obtain reference walk where w: "walk_step direction (lm_walk lm) = (reference, walk)" by fastforce
  note range = walk_in_range [OF w]
  let ?bid = "\<lambda>level. if sle (lc_max_position (lm_config lm)) net_position then None else Some (bid_price_for (lm_config lm) level reference)"
  let ?ask = "\<lambda>level. if sle net_position (- lc_max_position (lm_config lm)) then None else Some (ask_price_for (lm_config lm) level reference)"
  have whole: ?thesis
    if p: "update_levels sender ?bid 0 (lm_bids lm) gb = (nb, (bids, gb'), sb)" "update_levels sender ?ask 0 (lm_asks lm) ga = (na, (asks, ga'), sa)"
      "lm' = lm\<lparr>lm_trading := g, lm_walk := walk, lm_bids := bids, lm_asks := asks\<rparr>" "s = also_sent sa sb \<or> s = also_sent sb sa"
    for bids asks g nb na sb sa ga gb ga' gb'
    using cycle_parts(1) [OF assms(1) w p(1,2), of g] cycle_parts(2-4) [OF assms(1) w p(1,2)] p(3,4) range assms(1) by (auto simp: also_sent_def ladder_ok_def)
  show ?thesis
  proof (cases "sle (pw_price (lm_walk lm)) reference")
    case True
    obtain na asks ga' sa where a: "update_levels sender ?ask 0 (lm_asks lm) (lm_trading lm) = (na, (asks, ga'), sa)" by (metis prod.exhaust)
    obtain nb bids gb' sb where b: "update_levels sender ?bid 0 (lm_bids lm) ga' = (nb, (bids, gb'), sb)" by (metis prod.exhaust)
    show ?thesis by (rule whole [OF b a]) (use assms(2) w True a b in \<open>auto simp: on_quote_cycle_def Let_def\<close>)
  next
    case False
    obtain nb bids gb' sb where b: "update_levels sender ?bid 0 (lm_bids lm) (lm_trading lm) = (nb, (bids, gb'), sb)" by (metis prod.exhaust)
    obtain na asks ga' sa where a: "update_levels sender ?ask 0 (lm_asks lm) gb' = (na, (asks, ga'), sa)" by (metis prod.exhaust)
    show ?thesis by (rule whole [OF b a]) (use assms(2) w False a b in \<open>auto simp: on_quote_cycle_def Let_def\<close>)
  qed
qed

definition sample_ladder :: LadderMarketMaker where
  "sample_ladder = new_ladder_market_maker sample_trading
     \<lparr>lc_instrument_id = 7, lc_walk = \<lparr>wc_initial_price = 1000, wc_step_size = 100, wc_min_price = 500, wc_max_price = 1500, wc_seed = 42\<rparr>,
      lc_levels_per_side = 2, lc_half_spread = 100, lc_level_spacing = 100, lc_quote_size = 10, lc_max_position = 2000,
      lc_requote_threshold = 100\<rparr>"

theorem ladder_asks_for_its_rungs_witness:
  "\<exists>n lm' s. on_quote_cycle (\<lambda>_. True) (\<lambda>seed k. 1) 0 sample_ladder = (n, lm', s) \<and> ladder_ok lm' \<and> length (fst s) \<le> 4 \<and>
    sle (pw_price (lm_walk lm')) 1500"
proof -
  obtain n lm' s where u: "on_quote_cycle (\<lambda>_. True) (\<lambda>seed k. 1) 0 sample_ladder = (n, lm', s)" by (metis prod.exhaust)
  have "ladder_ok sample_ladder"
    by (simp add: ladder_ok_def sample_ladder_def new_ladder_market_maker_def new_resting_quote_def new_reference_price_walk_def sle_sint
        list_all_iff Let_def)
  from ladder_asks_for_its_rungs [OF this u]
  show ?thesis using u by (auto simp: sample_ladder_def new_ladder_market_maker_def new_reference_price_walk_def Let_def)
qed

end
