(* ===== verification/Spec2Isabelle.thy ===== *)
theory Spec2Isabelle
  imports GatedEngine OrderEntryCodec MarketDataFeed Journal SpscQueue TraderRisk GatewayMessages MatchingPipeline GatewayProperties TraderLoop StrategyProperties
begin

text \<open>
  A verification development for the exchange and the trading system of this repository: the C++ under
  \<open>src/src\<close> and \<open>src/include\<close>.

  The program. A client's requests reach the order entry gateway over TCP. Its I/O thread cuts the bytes into frames,
  decodes them, binds the session to its account and submits commands to a multi-producer queue. The matching thread
  pops them, numbers them and hands each to the risk-gated engine: the ledger must cover the order before the matching
  engine sees it, and follows every event the engine emits. The events go two ways. The gateway turns them into private
  reports and routes each to the session that owns the order, waking the I/O thread, which writes in batches. The market data
  publisher turns the public ones into numbered messages, the router passes them through a queue that drops to a
  second thread, and they leave in datagrams. On the trader's side a subscriber rebuilds the books from the datagrams and
  tells the strategies; these send orders through the trader's own risk check and its order management system,
  which follows the private reports and feeds positions and profit and loss. Commands are also kept in a journal
  that can be replayed, and feeds in event files.

  Theories, in the order of the code, each with the part it models.
  \<^item> Prelude: machine integers, signed comparison, the shared collections of facts.
  \<^item> Domain: \<open>common/types.hpp\<close>, \<open>exchange/core/\<close> -- enums, commands, events, the state snapshot.
  \<^item> TickBitmap, SideIndex, MatchingBook: \<open>exchange/matching/matching_book\<close> -- the occupancy bitmap, the ladder of price
    levels with its overflow map, the slab of orders with free list and level queues. Words, indices and links are as in
    the code; an access outside an array, or to a level or slot that is not there, has no result.
  \<^item> MatchingEngine, EngineMatching, EngineInvariant, EngineProperties: \<open>exchange/matching/matching_engine\<close> -- registration,
    new orders, matching, cancel, replace, snapshots; the matching loop against a matcher on lists; what every
    command keeps; what every command does.
  \<^item> ReferenceExchange: the specification, an exchange on plain lists in one equation for each command, and the
    refinement of it by the engine.
  \<^item> Ledger, Risk, GatedEngine: \<open>exchange/ledger\<close>, \<open>exchange/risk\<close> -- balances, reservations and holds; the checks;
    the engine behind them, with one hold for each resting order.
  \<^item> ByteIO, WireEnums, OrderEntryCodec, MarketDataCodec, JournalCodec: \<open>common/byte_io.hpp\<close>, \<open>protocol/\<close>,
    \<open>exchange/persistence/command_encoder\<close> and \<open>command_decoder\<close> -- big-endian fields and the three frame formats.
  \<^item> Journal: the rest of \<open>exchange/persistence\<close> -- writer, reader, replay, state hash.
  \<^item> Packet, ReconstructedBook, FeedReplay: \<open>net/packet\<close>, \<open>book/\<close>, \<open>replay/\<close> -- datagrams and sequence numbers, the
    subscriber's books, event files, snapshots and recovery from gaps.
  \<^item> MarketDataFeed, MarketDataRouter, FeedSubscriber: \<open>exchange/market_data\<close>, \<open>trader/market_data\<close> -- the publisher
    against the engine's books, the routing thread, the receive loop and the live feed from end to end.
  \<^item> RingBuffer, SpscQueue, MpscQueue: \<open>common/spsc_queue.hpp\<close>, \<open>dropping_queue.hpp\<close>, \<open>mpsc_queue.hpp\<close> -- whole
    operations, and their memory accesses interleaved.
  \<^item> CommandSequencer, MatchingPipeline: \<open>exchange/sequencing\<close> -- numbering and the matching thread.
  \<^item> GatewayMessages, OrderEntryGateway, GatewayInvariant, GatewayFraming, GatewayWakeups, GatewayProperties:
    \<open>exchange/gateway/order_entry_gateway\<close> -- translation of messages, the gateway and its two threads, the invariants and
    what follows from them.
  \<^item> OrderManagement, Positions, TraderRisk: \<open>trader/oms\<close>, \<open>trader/positions\<close>, \<open>trader/risk\<close>.
  \<^item> TraderView, TraderLoop: the order management system against the exchange: how a report keeps the two in step,
    and the whole path of a request and its reports.
  \<^item> Strategies, StrategyProperties: \<open>trader/strategies\<close>.

  How the code is written here. A class is a record, an operation a function from the record (and what the code
  takes from outside: the answer of a system call, a tick counter, a random number) to the record. Errors the code
  returns are values of its own enums. A result \<open>None\<close> of an operation whose C++ returns nothing of the kind stands for undefined
  behaviour -- an index out of range, a slot constructed twice, a level that is not there -- and the theorems show
  that it is not reached. Integers have their width, and unsigned arithmetic wraps as in C++. Signed arithmetic wraps too,
  where C++ leaves it undefined; the theorems on money say below which bound nothing wraps. Threads are step relations
  or lists of actions over a shared state. Queues are interleaved by single memory accesses, in sequentially consistent order; the
  threads around them by whole queue operations, which the theorems on the queues justify as long as each end is used by the
  threads it is made for.

  The gateway's two threads break that last condition: both push onto its list of marked connections. So \<open>gateway_step\<close>
  gives each push, each exchange of a flag and each section under \<open>sessions_mutex_\<close> a turn of its own, a run stops where
  both threads are about to push (\<open>racing\<close>), and the properties speak of the states before that;
  \<open>the_two_threads_can_race\<close> shows that such a state is reached.

  What the lemmas show.
  \<^item> Matching: the engine implements the reference exchange command by command, events and books; no admissible command
    reaches undefined behaviour; price-time priority, conservation, all-or-nothing, uncrossed books, gapless
    numbering. Not admissible is a price at the top of the range, a new order without a free handle, and a replace onto the
    identifier of a live order, which the code does not check.
  \<^item> Money: holds are the resting orders, reservations their sums, cash and units are conserved, passed orders are funded.
  \<^item> Formats: a decoder accepts exactly the encodings; journals, event files, snapshots and datagrams come back; a torn
    journal keeps its complete commands; the way bytes are cut into reads does not matter.
  \<^item> Feed: published events rebuild the engine's books, by file and live; whatever arrives leaves sound books.
  \<^item> Threads: the queues are first in, first out under every interleaving; commands are processed in the order they
    were admitted; the router accounts for every event; the gateway's sessions are isolated and no wake-up is lost before a race.
  \<^item> Trader: the working orders it sees are its resting orders; its own check, with the same size limit and
    balances no lower, never refuses what the exchange would take; quotes, momentum and ladder ask for what they should.
  \<^item> Where the program falls short, a theorem says so with a concrete run: notional that wraps, a replace that orphans an order, a
    stop that loses commands, the race of the gateway's threads, a wedged session, orders shown as live for ever,
    profit out of a rounded product, a silenced quote, fills beyond the cap, an arbitrage leg alone.

  Interfaces are locales, each interpreted on the code's own model: \<open>order_book\<close> and \<open>price_index\<close> (what the engine and the book rely on),
  \<open>bounded_queue\<close> (the three queues), \<open>field_codec\<close> and \<open>framing\<close> (fields and frames), \<open>book_listener\<close> (what
  a strategy keeps while the books change).

  Bounds. There is no fuel: every loop is structural, a function with its termination proof, or a list of
  steps. Sequence numbers and identifiers are 64-bit and the theorems that compare them with lists ask for fewer than \<open>2 ^ 64\<close>
  events or commands; queue capacities are at most \<open>2 ^ 63\<close>, where rounding up to a power of two ends; a datagram
  counts its events in 16 bits. The liquidity check of a fill-or-kill order adds quantities in 64 bits, and its theorem asks that
  the quantities of the book fit.

  Not modelled: sockets and pollers (\<open>net/\<close> apart from the datagram format), the display gateway (\<open>ui_gateway/\<close>) and the
  order entry client, which are calls to the operating system around the formats above; clocks and thread placement; the
  latency tracer and the metrics, which nothing reads back; the generators under \<open>exchange/testing\<close>; the \<open>main\<close>
  functions, apart from the packing of a batch into datagrams; mutexes that guard one object each, other than
  \<open>sessions_mutex_\<close>; starting and joining threads; weak memory orders.
\<close>

end
